(* ===== verification/Json_Path.thy ===== *)
theory Json_Path
  imports Pcx_Prelude
begin

text \<open>
  The JSONPath subset of \<open>post-cortex-memory/src/jsonpath.rs\<close>: the parser
  (\<open>parse\<close>, \<open>read_bracket_content\<close>, \<open>parse_bracket_content\<close>), the executor
  (\<open>execute\<close>, \<open>index_value\<close>, \<open>slice_value\<close>) and \<open>apply_select\<close>. The parser
  works on the bytes of the expression; the model is exact on ASCII expressions. Slicing an
  array out of range panics in Rust: \<open>slice_range\<close> makes that a value, and
  \<open>slice_value_total\<close> shows that it never happens.
\<close>

text \<open>
  \<open>serde_json::Value\<close>. Numbers are left abstract; an object is a \<open>BTreeMap\<close>, the
  representation \<open>serde_json\<close> uses without its \<open>preserve_order\<close> feature.
\<close>

datatype 'n json =
    JNull
  | JBool bool
  | JNumber 'n
  | JString string
  | JArray "'n json list"
  | JObject "(string \<times> 'n json) list"

datatype path_segment =
    Field string
  | Index int
  | Slice "int option" "int option"
  | Wildcard
  | Union "int list"

record json_path =
  jp_segments :: "path_segment list"

record parse_error =
  pe_byte_offset :: nat
  pe_message :: string

section \<open>Parser\<close>

definition is_field_char :: "char \<Rightarrow> bool" where
  "is_field_char b \<longleftrightarrow> is_ascii_alphanumeric b \<or> b = CHR ''_''"

text \<open>\<open>str::parse::<isize>\<close> on a 64-bit target.\<close>

definition parse_isize :: "string \<Rightarrow> int option" where
  "parse_isize s =
     (case s of
        [] \<Rightarrow> None
      | c # cs \<Rightarrow>
          if c = CHR ''-'' then
            (case parse_digits cs of
               None \<Rightarrow> None
             | Some n \<Rightarrow> if n \<le> 2 ^ 63 then Some (- int n) else None)
          else
            (case parse_digits (if c = CHR ''+'' then cs else s) of
               None \<Rightarrow> None
             | Some n \<Rightarrow> if n < 2 ^ 63 then Some (int n) else None))"

abbreviation quote_char :: char where
  "quote_char \<equiv> CHR 0x27"

definition parse_error_at :: "nat \<Rightarrow> string \<Rightarrow> parse_error" where
  "parse_error_at off msg = \<lparr>pe_byte_offset = off, pe_message = msg\<rparr>"

definition parse_int :: "nat \<Rightarrow> string \<Rightarrow> (parse_error, int) result" where
  "parse_int off s =
     (case parse_isize s of
        Some i \<Rightarrow> Ok i
      | None \<Rightarrow>
          Err (parse_error_at off (''expected integer, got '' @ [quote_char] @ s @ [quote_char])))"

text \<open>The loop over the field name in \<open>parse\<close>: the first position that is no field character.\<close>

function scan_field :: "string \<Rightarrow> nat \<Rightarrow> nat" where
  "scan_field bs pos =
     (if pos < length bs \<and> is_field_char (bs ! pos) then scan_field bs (Suc pos) else pos)"
  by pat_completeness auto
termination
  by (relation "measure (\<lambda>(bs, pos). length bs - pos)") auto

declare scan_field.simps [simp del]

text \<open>The loop of \<open>read_bracket_content\<close>: the matching \<open>]\<close>, or the end of the input.\<close>

function scan_bracket :: "string \<Rightarrow> nat \<Rightarrow> nat \<Rightarrow> nat" where
  "scan_bracket bs pos depth =
     (if pos < length bs \<and> 0 < depth then
        (if bs ! pos = CHR '']'' then
           (if depth - 1 = 0 then pos else scan_bracket bs (Suc pos) (depth - 1))
         else if bs ! pos = CHR ''['' then scan_bracket bs (Suc pos) (depth + 1)
         else scan_bracket bs (Suc pos) depth)
      else pos)"
  by pat_completeness auto
termination
  by (relation "measure (\<lambda>(bs, pos, depth). length bs - pos)") auto

declare scan_bracket.simps [simp del]

definition sub_bytes :: "string \<Rightarrow> nat \<Rightarrow> nat \<Rightarrow> string" where
  "sub_bytes bs lo hi = take (hi - lo) (drop lo bs)"

definition read_bracket_content :: "string \<Rightarrow> nat \<Rightarrow> string \<times> nat" where
  "read_bracket_content bs start =
     (let pos = scan_bracket bs start 1 in (trim (sub_bytes bs start pos), pos))"

definition expect_byte :: "string \<Rightarrow> nat \<Rightarrow> char \<Rightarrow> string \<Rightarrow> (parse_error, nat) result" where
  "expect_byte bs pos expected ctxt =
     (if pos < length bs \<and> bs ! pos = expected then Ok (Suc pos)
      else Err (parse_error_at pos
        (''expected '' @ [quote_char, expected, quote_char] @ '' after '' @ [quote_char] @ ctxt
          @ [quote_char])))"

text \<open>The integers of a union, stopping at the first that does not parse.\<close>

fun parse_ints :: "nat \<Rightarrow> string list \<Rightarrow> (parse_error, int list) result" where
  "parse_ints off [] = Ok []"
| "parse_ints off (p # ps) =
     res_bind (parse_int off (trim p)) (\<lambda>i. res_bind (parse_ints off ps) (\<lambda>is. Ok (i # is)))"

definition parse_bound :: "nat \<Rightarrow> string \<Rightarrow> (parse_error, int option) result" where
  "parse_bound off p =
     (if trim p = [] then Ok None else res_bind (parse_int off (trim p)) (\<lambda>i. Ok (Some i)))"

definition parse_bracket_content :: "nat \<Rightarrow> string \<Rightarrow> (parse_error, path_segment) result" where
  "parse_bracket_content off content0 =
     (let content = trim content0 in
      if ends_with ''()'' content then
        Err (parse_error_at off (''function calls ('' @ content @ '') are not allowed''))
      else if CHR '':'' \<in> set content then
        (let parts = split_by ((=) CHR '':'') content in
         if 2 < length parts then
           Err (parse_error_at off ''slice step [a:b:c] is not allowed'')
         else
           res_bind (parse_bound off (parts ! 0)) (\<lambda>s.
           res_bind (parse_bound off (parts ! 1)) (\<lambda>e.
           Ok (Slice s e))))
      else if CHR '','' \<in> set content then
        res_bind (parse_ints off (split_by ((=) CHR '','') content)) (\<lambda>is. Ok (Union is))
      else res_bind (parse_int off content) (\<lambda>i. Ok (Index i)))"

text \<open>
  One iteration of the \<open>while\<close> loop of \<open>parse\<close> at a position inside the input: the
  next position and the segment pushed, or the error returned.
\<close>

definition parse_step :: "string \<Rightarrow> nat \<Rightarrow> (parse_error, nat \<times> path_segment) result" where
  "parse_step bs pos0 =
     (if bs ! pos0 = CHR ''.'' then
        (let pos = Suc pos0 in
         if pos < length bs \<and> bs ! pos = CHR ''.'' then
           Err (parse_error_at (pos - 1) ''recursive descent (..) is not allowed'')
         else if pos < length bs \<and> bs ! pos = CHR ''*'' then Ok (Suc pos, Wildcard)
         else
           (let stop = scan_field bs pos in
            if stop = pos then Err (parse_error_at pos (''expected field name after '' @ [quote_char, CHR ''.'', quote_char]))
            else
              (let field_name = sub_bytes bs pos stop in
               if stop < length bs \<and> bs ! stop = CHR ''('' then
                 Err (parse_error_at pos (''function calls ('' @ field_name @ ''()) are not allowed''))
               else Ok (stop, Field field_name))))
      else if bs ! pos0 = CHR ''['' then
        (let pos = Suc pos0 in
         if pos < length bs \<and> bs ! pos = CHR ''?'' then
           Err (parse_error_at (pos - 1) ''filter expressions [?(...)] are not allowed'')
         else if pos < length bs \<and> bs ! pos = CHR ''*'' then
           res_bind (expect_byte bs (Suc pos) CHR '']'' ''*'') (\<lambda>pos'. Ok (pos', Wildcard))
         else
           (case read_bracket_content bs pos of (content, close) \<Rightarrow>
              res_bind (expect_byte bs close CHR '']'' content) (\<lambda>pos'.
              res_bind (parse_bracket_content pos content) (\<lambda>seg. Ok (pos', seg)))))
      else
        Err (parse_error_at pos0
          (''unexpected character '' @ [quote_char, bs ! pos0, quote_char] @ ''; expected ''
            @ [quote_char, CHR ''.'', quote_char] @ '' or '' @ [quote_char, CHR ''['', quote_char])))"

lemma scan_field_bounds: "pos \<le> length bs \<Longrightarrow> pos \<le> scan_field bs pos \<and> scan_field bs pos \<le> length bs"
proof (induction bs pos rule: scan_field.induct)
  case (1 bs pos)
  then show ?case by (subst (1 2) scan_field.simps) auto
qed

lemma scan_bracket_bounds:
  "pos \<le> length bs \<Longrightarrow> pos \<le> scan_bracket bs pos d \<and> scan_bracket bs pos d \<le> length bs"
proof (induction bs pos d rule: scan_bracket.induct)
  case (1 bs pos d)
  then show ?case by (subst (1 2) scan_bracket.simps) (auto simp: Let_def)
qed

lemma expect_byte_Ok: "expect_byte bs pos c ctxt = Ok p \<longleftrightarrow> pos < length bs \<and> bs ! pos = c \<and> p = Suc pos"
  by (auto simp: expect_byte_def)

text \<open>Every iteration that pushes a segment moves forward and stays inside the input.\<close>

lemma parse_step_advances:
  assumes "parse_step bs pos = Ok (p, seg)" and "pos < length bs"
  shows "pos < p \<and> p \<le> length bs"
proof -
  have f: "Suc pos \<le> scan_field bs (Suc pos) \<and> scan_field bs (Suc pos) \<le> length bs"
    using assms(2) scan_field_bounds [of "Suc pos" bs] by simp
  have b: "Suc pos \<le> scan_bracket bs (Suc pos) 1 \<and> scan_bracket bs (Suc pos) 1 \<le> length bs"
    using assms(2) scan_bracket_bounds [of "Suc pos" bs] by simp
  show ?thesis
    using assms f b
    by (auto simp: parse_step_def Let_def read_bracket_content_def res_bind_Ok expect_byte_Ok
        split: if_splits)
qed

function parse_loop :: "string \<Rightarrow> nat \<Rightarrow> path_segment list \<Rightarrow> (parse_error, json_path) result" where
  "parse_loop bs pos segments =
     (if pos < length bs then
        (case parse_step bs pos of
           Inl e \<Rightarrow> Err e
         | Inr (pos', seg) \<Rightarrow> parse_loop bs pos' (segments @ [seg]))
      else Ok \<lparr>jp_segments = segments\<rparr>)"
  by pat_completeness auto
termination
  by (relation "measure (\<lambda>(bs, pos, segs). length bs - pos)")
    (auto dest!: parse_step_advances)

declare parse_loop.simps [simp del]

definition parse :: "string \<Rightarrow> (parse_error, json_path) result" where
  "parse input =
     (if length input = 0 \<or> input ! 0 \<noteq> CHR ''$'' then
        Err (parse_error_at 0 (''JSONPath must start with '' @ [quote_char, CHR ''$'', quote_char]))
      else parse_loop input 1 [])"

section \<open>Executor\<close>

definition json_get :: "'n json \<Rightarrow> string \<Rightarrow> 'n json option" where
  "json_get v key = (case v of JObject m \<Rightarrow> map_of m key | _ \<Rightarrow> None)"

definition index_value :: "'n json \<Rightarrow> int \<Rightarrow> 'n json option" where
  "index_value v idx =
     (case v of
        JArray arr \<Rightarrow>
          if 0 \<le> idx then (if nat idx < length arr then Some (arr ! nat idx) else None)
          else
            (let from_end = nat (- idx) in
             if from_end \<le> length arr
             then (if length arr - from_end < length arr then Some (arr ! (length arr - from_end)) else None)
             else None)
      | _ \<Rightarrow> None)"

text \<open>\<open>&arr[s..e]\<close>: \<open>None\<close> is the panic on a range that is not inside the array.\<close>

definition slice_range :: "'a list \<Rightarrow> nat \<Rightarrow> nat \<Rightarrow> 'a list option" where
  "slice_range arr s e = (if s \<le> e \<and> e \<le> length arr then Some (take (e - s) (drop s arr)) else None)"

definition slice_value :: "'n json \<Rightarrow> int option \<Rightarrow> int option \<Rightarrow> 'n json list option" where
  "slice_value v start stop =
     (case v of
        JArray arr \<Rightarrow>
          (let len = int (length arr);
               s0 = unwrap_or start 0;
               s = nat (if s0 < 0 then max (len + s0) 0 else s0);
               e0 = unwrap_or stop len;
               e = nat (if e0 < 0 then max (len + e0) 0 else min e0 len)
           in if e \<le> s then Some [] else slice_range arr s e)
      | _ \<Rightarrow> Some [])"

text \<open>The values one segment selects below one value; \<open>None\<close> is a panic.\<close>

fun exec_segment :: "path_segment \<Rightarrow> 'n json \<Rightarrow> 'n json list option" where
  "exec_segment (Field name) v = Some (case json_get v name of Some c \<Rightarrow> [c] | None \<Rightarrow> [])"
| "exec_segment (Index i) v = Some (case index_value v i of Some c \<Rightarrow> [c] | None \<Rightarrow> [])"
| "exec_segment (Slice s e) v = slice_value v s e"
| "exec_segment Wildcard v =
     Some (case v of JArray arr \<Rightarrow> arr | JObject m \<Rightarrow> List.map snd m | _ \<Rightarrow> [])"
| "exec_segment (Union is) v =
     Some (concat (List.map (\<lambda>i. case index_value v i of Some c \<Rightarrow> [c] | None \<Rightarrow> []) is))"

fun exec_all :: "path_segment \<Rightarrow> 'n json list \<Rightarrow> 'n json list option" where
  "exec_all seg [] = Some []"
| "exec_all seg (v # vs) =
     (case exec_segment seg v of
        None \<Rightarrow> None
      | Some xs \<Rightarrow> (case exec_all seg vs of None \<Rightarrow> None | Some ys \<Rightarrow> Some (xs @ ys)))"

fun exec_loop :: "path_segment list \<Rightarrow> 'n json list \<Rightarrow> 'n json list option" where
  "exec_loop [] current = Some current"
| "exec_loop (seg # segs) current =
     (case exec_all seg current of None \<Rightarrow> None | Some next \<Rightarrow> exec_loop segs next)"

definition collect_matches :: "'n json list \<Rightarrow> 'n json" where
  "collect_matches vs = (case vs of [] \<Rightarrow> JNull | [v] \<Rightarrow> v | _ \<Rightarrow> JArray vs)"

definition execute :: "json_path \<Rightarrow> 'n json \<Rightarrow> 'n json option" where
  "execute path root = map_option collect_matches (exec_loop (jp_segments path) [root])"

text \<open>
  \<open>apply_select\<close>. The \<open>HashMap\<close> of output keys is the list of its entries in the
  order the map yields them: the order decides which parse error is reported.
\<close>

fun select_entries ::
  "'n json \<Rightarrow> (string \<times> string) list \<Rightarrow> (string, 'n json) btree
     \<Rightarrow> (parse_error, (string, 'n json) btree) result option" where
  "select_entries root [] res = Some (Ok res)"
| "select_entries root ((key, expr) # es) res =
     (case parse expr of
        Inl e \<Rightarrow> Some (Err e)
      | Inr path \<Rightarrow>
          (case execute path root of
             None \<Rightarrow> None
           | Some v \<Rightarrow> select_entries root es (bt_insert key v res)))"

definition apply_select ::
  "'n json \<Rightarrow> string option \<Rightarrow> (string \<times> string) list option
     \<Rightarrow> (parse_error, 'n json) result option" where
  "apply_select root select_string select_map =
     (case select_string of
        Some expr \<Rightarrow>
          (case parse expr of
             Inl e \<Rightarrow> Some (Err e)
           | Inr path \<Rightarrow> map_option Ok (execute path root))
      | None \<Rightarrow>
          (case select_map of
             Some es \<Rightarrow> map_option (map_sum id JObject) (select_entries root es [])
           | None \<Rightarrow> Some (Ok root)))"

section \<open>Printing a path, and reading it back\<close>

text \<open>
  The concrete syntax the module documentation allows. A union needs two indices (with one
  it is an index), a field name is non-empty, and indices fit in an \<open>isize\<close>.
\<close>

definition show_int :: "int \<Rightarrow> string" where
  "show_int i = (if i < 0 then CHR ''-'' # show_nat (nat (- i)) else show_nat (nat i))"

definition show_bound :: "int option \<Rightarrow> string" where
  "show_bound b = (case b of None \<Rightarrow> [] | Some i \<Rightarrow> show_int i)"

fun show_segment :: "path_segment \<Rightarrow> string" where
  "show_segment (Field f) = CHR ''.'' # f"
| "show_segment (Index i) = CHR ''['' # show_int i @ '']''"
| "show_segment (Slice s e) = CHR ''['' # show_bound s @ '':'' @ show_bound e @ '']''"
| "show_segment Wildcard = ''[*]''"
| "show_segment (Union is) = CHR ''['' # join_with '','' (List.map show_int is) @ '']''"

definition show_path :: "json_path \<Rightarrow> string" where
  "show_path p = CHR ''$'' # concat (List.map show_segment (jp_segments p))"

definition isize_ok :: "int \<Rightarrow> bool" where
  "isize_ok i \<longleftrightarrow> - (2 ^ 63) \<le> i \<and> i < 2 ^ 63"

definition bound_ok :: "int option \<Rightarrow> bool" where
  "bound_ok b \<longleftrightarrow> (case b of None \<Rightarrow> True | Some i \<Rightarrow> isize_ok i)"

fun segment_ok :: "path_segment \<Rightarrow> bool" where
  "segment_ok (Field f) = (f \<noteq> [] \<and> list_all is_field_char f)"
| "segment_ok (Index i) = isize_ok i"
| "segment_ok (Slice s e) = (bound_ok s \<and> bound_ok e)"
| "segment_ok Wildcard = True"
| "segment_ok (Union is) = (2 \<le> length is \<and> list_all isize_ok is)"

text \<open>Characters of a printed integer.\<close>

lemma show_int_chars: "c \<in> set (show_int i) \<Longrightarrow> is_digit c \<or> c = CHR ''-''"
  by (auto simp: show_int_def dest: show_nat_digits split: if_splits)

lemma show_int_not_Nil [simp]: "show_int i \<noteq> []"
  by (simp add: show_int_def)

lemma digit_not_special:
  "is_digit c \<Longrightarrow> c \<noteq> CHR ''['' \<and> c \<noteq> CHR '']'' \<and> c \<noteq> CHR '':'' \<and> c \<noteq> CHR '','' \<and>
     c \<noteq> CHR ''?'' \<and> c \<noteq> CHR ''*'' \<and> c \<noteq> CHR '')'' \<and> c \<noteq> CHR ''-'' \<and> c \<noteq> CHR ''+''"
  by (auto simp: is_digit_def)

lemma show_int_special:
  "c \<in> set (show_int i) \<Longrightarrow> \<not> is_whitespace c \<and> c \<notin> set ''[]:,?*)''"
  using show_int_chars [of c i]
  by (auto simp: is_digit_def is_whitespace_def)

lemma trim_show_int [simp]: "trim (show_int i) = show_int i"
  by (rule trim_id) (blast dest: show_int_special)

lemma parse_isize_show_int: "isize_ok i \<Longrightarrow> parse_isize (show_int i) = Some i"
proof -
  assume i: "isize_ok i"
  show ?thesis
  proof (cases "i < 0")
    case True
    with i show ?thesis
      by (auto simp: parse_isize_def show_int_def isize_ok_def)
  next
    case False
    obtain c cs where s: "show_nat (nat i) = c # cs" by (cases "show_nat (nat i)") simp_all
    then have "is_digit c" using show_nat_digits [of c "nat i"] by simp
    then have "c \<noteq> CHR ''-''" "c \<noteq> CHR ''+''" by (auto simp: is_digit_def)
    with False s i show ?thesis
      using parse_digits_show_nat [of "nat i"]
      by (auto simp: parse_isize_def show_int_def isize_ok_def)
  qed
qed

lemma parse_int_show_int [simp]: "isize_ok i \<Longrightarrow> parse_int off (show_int i) = Ok i"
  by (simp add: parse_int_def parse_isize_show_int)

text \<open>The positions the scanning loops stop at.\<close>

lemma scan_field_append:
  "list_all is_field_char f \<Longrightarrow> (rest = [] \<or> \<not> is_field_char (hd rest)) \<Longrightarrow>
     scan_field (pre @ f @ rest) (length pre) = length pre + length f"
proof (induction f arbitrary: pre)
  case Nil
  then show ?case
    by (subst scan_field.simps) (auto simp: nth_append hd_conv_nth)
next
  case (Cons c f)
  have "scan_field ((pre @ [c]) @ f @ rest) (length (pre @ [c])) = length (pre @ [c]) + length f"
    using Cons.prems by (intro Cons.IH) simp_all
  with Cons.prems show ?case
    by (subst scan_field.simps) (simp add: nth_append)
qed

lemma scan_bracket_append:
  "CHR ''['' \<notin> set f \<Longrightarrow> CHR '']'' \<notin> set f \<Longrightarrow>
     scan_bracket (pre @ f @ CHR '']'' # rest) (length pre) 1 = length pre + length f"
proof (induction f arbitrary: pre)
  case Nil
  then show ?case
    by (subst scan_bracket.simps) (simp add: nth_append)
next
  case (Cons c f)
  have "scan_bracket ((pre @ [c]) @ f @ CHR '']'' # rest) (length (pre @ [c])) 1
      = length (pre @ [c]) + length f"
    using Cons.prems by (intro Cons.IH) simp_all
  with Cons.prems show ?case
    by (subst scan_bracket.simps) (auto simp: nth_append)
qed

text \<open>The content of a printed bracket, read back.\<close>

lemma ends_with_parens: "CHR '')'' \<notin> set s \<Longrightarrow> \<not> ends_with ''()'' s"
  by (auto simp: ends_with_iff)

lemma trim_show_bound [simp]: "trim (show_bound b) = show_bound b"
  by (cases b) (simp_all add: show_bound_def)

lemma show_bound_special:
  "c \<in> set (show_bound b) \<Longrightarrow> \<not> is_whitespace c \<and> c \<notin> set ''[]:,?*)''"
  by (cases b) (auto simp: show_bound_def dest: show_int_special)

lemma parse_bound_show_bound: "bound_ok b \<Longrightarrow> parse_bound off (show_bound b) = Ok b"
  by (cases b) (simp_all add: parse_bound_def show_bound_def bound_ok_def)

lemma parse_ints_show_int: "list_all isize_ok is \<Longrightarrow> parse_ints off (List.map show_int is) = Ok is"
  by (induction "is") simp_all

lemma split_by_join:
  "ws \<noteq> [] \<Longrightarrow> \<forall>w \<in> set ws. d \<notin> set w \<Longrightarrow> split_by ((=) d) (join_with [d] ws) = ws"
proof (induction ws rule: induct_list012)
  case (2 w)
  then show ?case by (auto intro!: split_by_no_sep)
next
  case (3 w v ws)
  have "split_by ((=) d) (w @ d # join_with [d] (v # ws)) = w # split_by ((=) d) (join_with [d] (v # ws))"
    using 3 by (intro split_by_sep) auto
  with 3 show ?case by simp
qed simp

lemma join_chars:
  "c \<in> set (join_with sep ws) \<Longrightarrow> c \<in> set sep \<or> (\<exists>w \<in> set ws. c \<in> set w)"
  by (induction sep ws rule: join_with.induct) auto

lemma sep_in_join: "2 \<le> length ws \<Longrightarrow> d \<in> set (join_with [d] ws)"
  by (cases ws; cases "tl ws") auto

lemma whitespace_punct: "\<not> is_whitespace CHR '':''" "\<not> is_whitespace CHR '',''"
  by (simp_all add: is_whitespace_def)

lemma parse_bracket_index:
  assumes "isize_ok i"
  shows "parse_bracket_content off (show_int i) = Ok (Index i)"
proof -
  have "CHR '')'' \<notin> set (show_int i)" "CHR '':'' \<notin> set (show_int i)" "CHR '','' \<notin> set (show_int i)"
    using show_int_special by force+
  with assms show ?thesis
    by (simp add: parse_bracket_content_def ends_with_parens)
qed

lemma parse_bracket_slice:
  assumes "bound_ok s" and "bound_ok e"
  shows "parse_bracket_content off (show_bound s @ '':'' @ show_bound e) = Ok (Slice s e)"
proof -
  let ?f = "show_bound s @ '':'' @ show_bound e"
  have n: "CHR '':'' \<notin> set (show_bound b)" "CHR '')'' \<notin> set (show_bound b)" for b
    using show_bound_special by force+
  have t: "trim ?f = ?f"
    by (rule trim_id) (auto simp: whitespace_punct dest: show_bound_special)
  have "split_by ((=) CHR '':'') (show_bound s @ CHR '':'' # show_bound e)
      = show_bound s # split_by ((=) CHR '':'') (show_bound e)"
    using n by (intro split_by_sep) auto
  moreover have "split_by ((=) CHR '':'') (show_bound e) = [show_bound e]"
    using n by (intro split_by_no_sep) auto
  ultimately have sp: "split_by ((=) CHR '':'') ?f = [show_bound s, show_bound e]"
    by simp
  have "\<not> ends_with ''()'' ?f"
    by (rule ends_with_parens) (use n in simp)
  then show ?thesis
    using assms unfolding parse_bracket_content_def t Let_def sp
    by (simp add: parse_bound_show_bound)
qed

lemma parse_bracket_union:
  assumes "2 \<le> length is" and "list_all isize_ok is"
  shows "parse_bracket_content off (join_with '','' (List.map show_int is)) = Ok (Union is)"
proof -
  let ?f = "join_with '','' (List.map show_int is)"
  have c: "c \<in> set ?f \<Longrightarrow> c = CHR '','' \<or> (\<not> is_whitespace c \<and> c \<notin> set ''[]:,?*)'')" for c
    using join_chars [of c "'',''" "List.map show_int is"] show_int_special by auto
  have t: "trim ?f = ?f"
    by (rule trim_id) (use c whitespace_punct in blast)
  have "CHR '')'' \<notin> set ?f" "CHR '':'' \<notin> set ?f"
    using c [of "CHR '')''"] c [of "CHR '':''"] by auto
  moreover have "CHR '','' \<in> set ?f"
    using assms(1) sep_in_join [of "List.map show_int is" "CHR '',''"] by simp
  moreover have "split_by ((=) CHR '','') ?f = List.map show_int is"
    using assms(1) by (intro split_by_join) (auto dest: show_int_special)
  ultimately show ?thesis
    using assms(2) unfolding parse_bracket_content_def t Let_def
    by (simp add: ends_with_parens parse_ints_show_int)
qed

text \<open>One iteration over a printed segment.\<close>

lemma bracket_step:
  assumes "f \<noteq> []" and "\<forall>c \<in> set f. \<not> is_whitespace c \<and> c \<notin> set ''[]''"
    and "hd f \<notin> set ''?*''" and "parse_bracket_content (Suc (length pre)) f = Ok seg"
  shows "parse_step (pre @ (CHR ''['' # f @ '']'') @ rest) (length pre)
           = Ok (length pre + length (CHR ''['' # f @ '']''), seg)"
proof -
  let ?bs = "pre @ CHR ''['' # f @ CHR '']'' # rest"
  have sb: "scan_bracket ?bs (Suc (length pre)) 1 = Suc (length pre) + length f"
    using scan_bracket_append [of f "pre @ ''[''" rest] assms(2) by force
  have "sub_bytes ?bs (Suc (length pre)) (Suc (length pre) + length f) = f"
    by (simp add: sub_bytes_def)
  moreover have "trim f = f" using assms(2) by (intro trim_id) blast
  ultimately have rb: "read_bracket_content ?bs (Suc (length pre)) = (f, Suc (length pre) + length f)"
    using sb by (simp add: read_bracket_content_def)
  obtain c cs where f: "f = c # cs" using assms(1) by (cases f) auto
  have nth: "?bs ! Suc (length pre) = c" "?bs ! (Suc (length pre) + length f) = CHR '']''"
    by (simp_all add: nth_append f)
  have "expect_byte ?bs (Suc (length pre) + length f) CHR '']'' f = Ok (length pre + length f + 2)"
    using nth(2) by (simp add: expect_byte_Ok)
  with rb nth(1) assms(3,4) f show ?thesis
    by (simp add: parse_step_def)
qed

definition no_field_char :: "string \<Rightarrow> bool" where
  "no_field_char rest \<longleftrightarrow> (case rest of [] \<Rightarrow> True | c # _ \<Rightarrow> \<not> is_field_char c \<and> c \<noteq> CHR ''('')"

lemma field_char_punct: "\<not> is_field_char CHR ''.''" "\<not> is_field_char CHR ''*''" "\<not> is_field_char CHR ''[''"
  by (simp_all add: is_field_char_def is_ascii_alphanumeric_def is_digit_def is_ascii_upper_def
      is_ascii_lower_def)

lemma field_step:
  assumes "f \<noteq> []" and "list_all is_field_char f" and "no_field_char rest"
  shows "parse_step (pre @ (CHR ''.'' # f) @ rest) (length pre) = Ok (length pre + length (CHR ''.'' # f), Field f)"
proof -
  let ?bs = "pre @ CHR ''.'' # f @ rest"
  obtain c cs where f: "f = c # cs" using assms(1) by (cases f) auto
  have sf: "scan_field ?bs (Suc (length pre)) = Suc (length pre) + length f"
    using scan_field_append [of f rest "pre @ ''.''"] assms(2,3)
    by (cases rest) (auto simp: no_field_char_def)
  have nth: "?bs ! Suc (length pre) = c" by (simp add: nth_append f)
  have c: "c \<noteq> CHR ''.''" "c \<noteq> CHR ''*''"
    using assms(2) field_char_punct by (auto simp: f)
  have sub: "sub_bytes ?bs (Suc (length pre)) (Suc (length pre) + length f) = f"
    by (simp add: sub_bytes_def)
  have par: "\<not> (Suc (length pre) + length f < length ?bs \<and> ?bs ! (Suc (length pre) + length f) = CHR ''('')"
    using assms(3) by (cases rest) (auto simp: no_field_char_def nth_append)
  show ?thesis
    using sf sub par nth c by (auto simp: parse_step_def f Let_def)
qed

lemma segment_step:
  assumes "segment_ok seg" and "no_field_char rest"
  shows "parse_step (pre @ show_segment seg @ rest) (length pre) = Ok (length pre + length (show_segment seg), seg)"
proof (cases seg)
  case (Field f)
  with assms show ?thesis using field_step [of f rest pre] by simp
next
  case (Index i)
  have "hd (show_int i) \<in> set (show_int i)" by simp
  with Index assms show ?thesis
    using bracket_step [of "show_int i" pre "Index i" rest] parse_bracket_index [of i "Suc (length pre)"]
      show_int_special [of _ i] by fastforce
next
  case (Slice s e)
  let ?f = "show_bound s @ '':'' @ show_bound e"
  have chars: "\<forall>c \<in> set ?f. \<not> is_whitespace c \<and> c \<notin> set ''[]''"
    by (auto simp: whitespace_punct dest: show_bound_special)
  have h: "hd ?f \<notin> set ''?*''"
    using show_bound_special [of "hd (show_bound s)" s] by (cases "show_bound s") auto
  show ?thesis
    using bracket_step [OF _ chars h, of pre "Slice s e" rest] assms Slice
      parse_bracket_slice [of s e "Suc (length pre)"] by simp
next
  case Wildcard
  then show ?thesis by (simp add: parse_step_def expect_byte_def nth_append)
next
  case (Union "is")
  let ?f = "join_with '','' (List.map show_int is)"
  have c: "c \<in> set ?f \<Longrightarrow> c = CHR '','' \<or> (\<not> is_whitespace c \<and> c \<notin> set ''[]:,?*)'')" for c
    using join_chars [of c "'',''" "List.map show_int is"] show_int_special by auto
  have chars: "\<forall>c \<in> set ?f. \<not> is_whitespace c \<and> c \<notin> set ''[]''"
    using c whitespace_punct by fastforce
  have ne: "?f \<noteq> []"
    using assms(1) Union sep_in_join [of "List.map show_int is" "CHR '',''"] by fastforce
  have h: "hd ?f \<notin> set ''?*''"
    using c [of "hd ?f"] ne by auto
  show ?thesis
    using bracket_step [OF ne chars h, of pre "Union is" rest] assms Union
      parse_bracket_union [of "is" "Suc (length pre)"] by simp
qed

section \<open>Correctness of the parser\<close>

lemma no_field_char_show: "no_field_char rest \<Longrightarrow> no_field_char (concat (List.map show_segment segs) @ rest)"
proof (induction segs)
  case (Cons s segs)
  then show ?case
    by (cases s) (simp_all add: no_field_char_def field_char_punct)
qed simp

text \<open>The loop reads any sequence of printed segments and goes on behind it.\<close>

lemma parse_loop_segments:
  assumes "list_all segment_ok segs" and "no_field_char rest"
  shows "parse_loop (pre @ concat (List.map show_segment segs) @ rest) (length pre) acc =
     parse_loop (pre @ concat (List.map show_segment segs) @ rest)
       (length pre + length (concat (List.map show_segment segs))) (acc @ segs)"
  using assms(1)
proof (induction segs arbitrary: pre acc)
  case (Cons s segs)
  let ?tl = "concat (List.map show_segment segs) @ rest"
  have s: "segment_ok s" and ne: "show_segment s \<noteq> []"
    using Cons.prems by (simp, cases s) auto
  have "parse_step (pre @ show_segment s @ ?tl) (length pre) = Ok (length pre + length (show_segment s), s)"
    using s assms(2) by (intro segment_step no_field_char_show)
  then have "parse_loop (pre @ show_segment s @ ?tl) (length pre) acc
      = parse_loop (pre @ show_segment s @ ?tl) (length pre + length (show_segment s)) (acc @ [s])"
    using ne by (subst parse_loop.simps) simp
  then show ?case
    using Cons.IH [of "pre @ show_segment s" "acc @ [s]"] Cons.prems by (simp add: add.assoc)
qed simp

lemma parse_after_path:
  assumes "list_all segment_ok (jp_segments p)" and "no_field_char rest"
  shows "parse (show_path p @ rest) = parse_loop (show_path p @ rest) (length (show_path p)) (jp_segments p)"
  using parse_loop_segments [OF assms, of "''$''" "[]"]
  by (simp add: parse_def show_path_def)

lemma parse_step_error_offset:
  assumes "parse_step bs pos = Err e" and "pos < length bs"
  shows "pe_byte_offset e \<le> length bs"
proof -
  have int: "parse_int off s = Err e' \<Longrightarrow> pe_byte_offset e' = off" for off s e'
    by (auto simp: parse_int_def parse_error_at_def split: option.splits)
  have ints: "parse_ints off ss = Err e' \<Longrightarrow> pe_byte_offset e' = off" for off ss e'
    by (induction ss) (auto simp: res_bind_Err dest: int)
  have bound: "parse_bound off s = Err e' \<Longrightarrow> pe_byte_offset e' = off" for off s e'
    by (auto simp: parse_bound_def res_bind_Err dest: int split: if_splits)
  have br: "parse_bracket_content off s = Err e' \<Longrightarrow> pe_byte_offset e' = off" for off s e'
    by (auto simp: parse_bracket_content_def res_bind_Err Let_def parse_error_at_def
        dest: int ints bound split: if_splits)
  have ex: "expect_byte bs p c ctxt = Err e' \<Longrightarrow> pe_byte_offset e' = p" for p c ctxt e'
    by (auto simp: expect_byte_def parse_error_at_def split: if_splits)
  have b: "scan_bracket bs (Suc pos) 1 \<le> length bs"
    using assms(2) scan_bracket_bounds [of "Suc pos" bs] by simp
  show ?thesis
    using assms b
    by (auto simp: parse_step_def Let_def read_bracket_content_def res_bind_Err parse_error_at_def
        dest!: br ex split: if_splits)
qed

text \<open>
  C40: Printing a path in the documented syntax and parsing the text gives the path back.
\<close>

theorem parse_show_path:
  assumes "list_all segment_ok (jp_segments p)"
  shows "parse (show_path p) = Ok p"
  using parse_after_path [OF assms, of "[]"]
  by (simp add: no_field_char_def parse_loop.simps)

theorem parse_show_path_witness:
  "parse ''$.items[-1][0:2][*][1,-2]'' =
     Ok \<lparr>jp_segments = [Field ''items'', Index (-1), Slice (Some 0) (Some 2), Wildcard, Union [1, -2]]\<rparr>"
proof -
  let ?p = "\<lparr>jp_segments = [Field ''items'', Index (-1), Slice (Some 0) (Some 2), Wildcard, Union [1, -2]]\<rparr>"
  have "list_all segment_ok (jp_segments ?p)" by code_simp
  moreover have "show_path ?p = ''$.items[-1][0:2][*][1,-2]''" by code_simp
  ultimately show ?thesis using parse_show_path [of ?p] by argo
qed

text \<open>
  A recursive descent after any path of the allowed syntax is rejected, with the byte
  offset of its first dot, whatever follows.
\<close>

theorem recursive_descent_rejected:
  assumes "list_all segment_ok (jp_segments p)"
  shows "parse (show_path p @ ''..'' @ rest) =
     Err (parse_error_at (length (show_path p)) ''recursive descent (..) is not allowed'')"
proof -
  have "no_field_char (''..'' @ rest)"
    by (simp add: no_field_char_def field_char_punct)
  moreover have "parse_step (show_path p @ ''..'' @ rest) (length (show_path p)) =
      Err (parse_error_at (length (show_path p)) ''recursive descent (..) is not allowed'')"
    by (simp add: parse_step_def nth_append)
  ultimately show ?thesis
    using parse_after_path [OF assms] by (subst (asm) parse_loop.simps) simp
qed

theorem recursive_descent_rejected_witness:
  "parse ''$.a..b'' = Err (parse_error_at 3 ''recursive descent (..) is not allowed'')"
proof -
  let ?p = "\<lparr>jp_segments = [Field ''a'']\<rparr>"
  have ok: "list_all segment_ok (jp_segments ?p)" by code_simp
  have "show_path ?p = ''$.a''" by code_simp
  then show ?thesis
    using recursive_descent_rejected [OF ok, of "''b''"] by (simp add: numeral_3_eq_3)
qed

text \<open>
  The offset of every parse error lies inside the expression or just behind it.
\<close>

theorem parse_error_offset:
  assumes "parse input = Err e"
  shows "pe_byte_offset e \<le> length input"
proof -
  have "parse_loop bs pos acc = Err e \<Longrightarrow> pe_byte_offset e \<le> length bs" for bs pos acc
  proof (induction bs pos acc rule: parse_loop.induct)
    case (1 bs pos segs)
    then show ?case
      by (subst (asm) (2) parse_loop.simps)
        (auto split: if_splits sum.splits dest: parse_step_error_offset)
  qed
  then show ?thesis
    using assms by (auto simp: parse_def parse_error_at_def split: if_splits)
qed

theorem parse_error_offset_witness:
  "\<exists>e. parse ''$.items[x]'' = Err e \<and> pe_byte_offset e \<le> length ''$.items[x]''"
proof -
  have "parse ''$.items[x]'' = Err (parse_error_at 8 (''expected integer, got '' @ [quote_char] @ ''x'' @ [quote_char]))"
    by code_simp
  then show ?thesis using parse_error_offset by blast
qed

section \<open>Correctness of the executor\<close>

lemma slice_value_array:
  "slice_value (JArray arr) s e = Some (let len = int (length arr);
     lo = nat (if unwrap_or s 0 < 0 then max (len + unwrap_or s 0) 0 else unwrap_or s 0);
     hi = nat (if unwrap_or e len < 0 then max (len + unwrap_or e len) 0 else min (unwrap_or e len) len)
     in take (hi - lo) (drop lo arr))"
  by (auto simp: slice_value_def slice_range_def Let_def)

lemma slice_value_total: "slice_value v s e \<noteq> None"
  by (cases v) (auto simp: slice_value_def slice_range_def Let_def)

lemma exec_segment_total: "\<exists>xs. exec_segment seg v = Some xs"
  using slice_value_total by (cases seg) auto

lemma exec_all_total: "\<exists>xs. exec_all seg vs = Some xs"
proof (induction vs)
  case (Cons v vs)
  then show ?case using exec_segment_total [of seg v] by auto
qed simp

lemma exec_loop_total: "\<exists>xs. exec_loop segs vs = Some xs"
proof (induction segs arbitrary: vs)
  case (Cons s segs)
  then show ?case using exec_all_total [of s vs] by auto
qed simp

text \<open>
  The denotation of a path: what each segment selects below a value, in document order,
  without the loop's intermediate lists.
\<close>

fun select_below :: "path_segment list \<Rightarrow> 'n json \<Rightarrow> 'n json list" where
  "select_below [] v = [v]"
| "select_below (seg # segs) v = concat (List.map (select_below segs) (unwrap_or (exec_segment seg v) []))"

lemma exec_all_concat: "exec_all seg vs = Some (concat (List.map (\<lambda>v. unwrap_or (exec_segment seg v) []) vs))"
proof (induction vs)
  case (Cons v vs)
  then show ?case using exec_segment_total [of seg v] by auto
qed simp

lemma concat_map_concat: "concat (List.map f (concat xss)) = concat (List.map (\<lambda>xs. concat (List.map f xs)) xss)"
  by (induction xss) simp_all

lemma exec_loop_select: "exec_loop segs vs = Some (concat (List.map (select_below segs) vs))"
proof (induction segs arbitrary: vs)
  case (Cons s segs)
  then show ?case
    by (simp add: exec_all_concat concat_map_concat o_def)
next
  case Nil
  show ?case by (induction vs) simp_all
qed

text \<open>
  Executing a path never panics, and returns exactly the values its segments select in
  document order: Null for none, the value for one, an array for more.
\<close>

theorem execute_selects:
  "execute path root = Some (collect_matches (select_below (jp_segments path) root))"
  by (simp add: execute_def exec_loop_select)

text \<open>
  A slice of an array is the sublist between its bounds, negative bounds counting from
  the end and bounds outside the array cut to it.
\<close>

theorem slice_value_nth:
  assumes "slice_value (JArray arr) s e = Some xs"
    and "lo = (if unwrap_or s 0 < 0 then nat (int (length arr) + unwrap_or s 0) else nat (unwrap_or s 0))"
    and "hi = (case e of None \<Rightarrow> length arr
                 | Some b \<Rightarrow> if b < 0 then nat (int (length arr) + b) else min (nat b) (length arr))"
  shows "xs = List.map ((!) arr) [lo..<hi]"
proof -
  let ?len = "int (length arr)"
  let ?lo = "nat (if unwrap_or s 0 < 0 then max (?len + unwrap_or s 0) 0 else unwrap_or s 0)"
  let ?hi = "nat (if unwrap_or e ?len < 0 then max (?len + unwrap_or e ?len) 0 else min (unwrap_or e ?len) ?len)"
  have hi: "hi \<le> length arr"
    using assms(3) by (auto split: option.splits if_splits)
  have "?lo = lo" unfolding assms(2) by (cases "unwrap_or s 0 < 0") simp_all
  moreover have "?hi = hi" unfolding assms(3) by (cases e) (auto simp: min_def max_def nat_le_iff)
  ultimately have "xs = take (hi - lo) (drop lo arr)"
    using assms(1) unfolding slice_value_array Let_def by simp
  also have "\<dots> = List.map ((!) arr) [lo..<hi]"
    using hi by (intro nth_equalityI) auto
  finally show ?thesis .
qed

theorem slice_value_nth_witness:
  "slice_value (JArray [JBool True, JNull, JBool False :: unit json]) (Some (-2)) (Some 9)
     = Some (List.map ((!) [JBool True, JNull, JBool False]) [1..<3])"
proof -
  have "slice_value (JArray [JBool True, JNull, JBool False :: unit json]) (Some (-2)) (Some 9)
      = Some [JNull, JBool False]"
    by code_simp
  from slice_value_nth [OF this, of 1 3] this show ?thesis by simp
qed

end
