(* ===== verification/Context_Update.thy ===== *)
theory Context_Update
  imports Pcx_Prelude "HOL-Library.Word" Complex_Main
begin

text \<open>
  The data types of \<open>post-cortex-core/src/core/context_update.rs\<close>: update, entity and
  relation types with their wire names, the update record with its validity metadata, and
  the stored entity.

  A \<open>Uuid\<close> is a 128-bit word (its order is the order of its bytes), a \<open>DateTime<Utc>\<close>
  an integer count of nanoseconds, \<open>u32\<close> counters 32-bit words that wrap as in a release
  build, and an \<open>f32\<close> the real number it stands for: rounding, infinities and NaN are
  outside the model.
\<close>

type_synonym uuid = "128 word"
type_synonym datetime = int
type_synonym u32 = "32 word"
type_synonym f32 = real

datatype update_type =
    QuestionAnswered | ProblemSolved | CodeChanged | DecisionMade | ConceptDefined
  | RequirementAdded

datatype entity_type =
    Technology | Concept | Problem | Solution | Decision | CodeComponent

datatype relation_type =
    RequiredBy | LeadsTo | RelatedTo | ConflictsWith | DependsOn | Implements | CausedBy | Solves

record typed_entity =
  te_name :: string
  te_entity_type :: entity_type

record update_meta =
  um_valid_from :: "datetime option"
  um_supersedes :: "uuid list"
  um_confidence :: "f32 option"
  um_retired_at :: "datetime option"

record update_content =
  uc_title :: string
  uc_description :: string
  uc_details :: "string list"
  uc_examples :: "string list"
  uc_implications :: "string list"

record code_reference =
  cr_file_path :: string
  cr_start_line :: u32
  cr_end_line :: u32
  cr_code_snippet :: string
  cr_commit_hash :: "string option"
  cr_branch :: "string option"
  cr_change_description :: string

record entity_relationship =
  er_from_entity :: string
  er_to_entity :: string
  er_relation_type :: relation_type
  er_context :: string

record context_update =
  cu_id :: uuid
  cu_timestamp :: datetime
  cu_update_type :: update_type
  cu_content :: update_content
  cu_related_code :: "code_reference option"
  cu_parent_update :: "uuid option"
  cu_user_marked_important :: bool
  cu_creates_entities :: "string list"
  cu_creates_relationships :: "entity_relationship list"
  cu_references_entities :: "string list"
  cu_typed_entities :: "typed_entity list"
  cu_author :: "string option"
  cu_derived_from :: "string list"
  cu_meta :: update_meta

record entity_data =
  ed_name :: string
  ed_entity_type :: entity_type
  ed_first_mentioned :: datetime
  ed_last_mentioned :: datetime
  ed_mention_count :: u32
  ed_importance_score :: f32
  ed_description :: "string option"
  ed_aliases :: "string list"

section \<open>Wire names\<close>

fun update_type_as_str :: "update_type \<Rightarrow> string" where
  "update_type_as_str QuestionAnswered = ''qa''"
| "update_type_as_str ProblemSolved = ''problem_solved''"
| "update_type_as_str CodeChanged = ''code_change''"
| "update_type_as_str DecisionMade = ''decision_made''"
| "update_type_as_str ConceptDefined = ''concept_defined''"
| "update_type_as_str RequirementAdded = ''requirement_added''"

fun entity_type_as_str :: "entity_type \<Rightarrow> string" where
  "entity_type_as_str Technology = ''technology''"
| "entity_type_as_str Concept = ''concept''"
| "entity_type_as_str Problem = ''problem''"
| "entity_type_as_str Solution = ''solution''"
| "entity_type_as_str Decision = ''decision''"
| "entity_type_as_str CodeComponent = ''code_component''"

fun relation_type_as_str :: "relation_type \<Rightarrow> string" where
  "relation_type_as_str RequiredBy = ''required_by''"
| "relation_type_as_str LeadsTo = ''leads_to''"
| "relation_type_as_str RelatedTo = ''related_to''"
| "relation_type_as_str ConflictsWith = ''conflicts_with''"
| "relation_type_as_str DependsOn = ''depends_on''"
| "relation_type_as_str Implements = ''implements''"
| "relation_type_as_str CausedBy = ''caused_by''"
| "relation_type_as_str Solves = ''solves''"

fun relation_weight :: "relation_type \<Rightarrow> f32" where
  "relation_weight DependsOn = 1"
| "relation_weight Implements = 1"
| "relation_weight Solves = 1"
| "relation_weight CausedBy = 1"
| "relation_weight RequiredBy = 8 / 10"
| "relation_weight LeadsTo = 8 / 10"
| "relation_weight ConflictsWith = 6 / 10"
| "relation_weight RelatedTo = 4 / 10"

text \<open>\<open>RelationType::from_str\<close>; the \<open>Debug\<close> form of a relation type is the same name.\<close>

definition relation_type_from_str :: "string \<Rightarrow> (string, relation_type) result" where
  "relation_type_from_str s =
     (if s = ''RequiredBy'' then Ok RequiredBy
      else if s = ''LeadsTo'' then Ok LeadsTo
      else if s = ''RelatedTo'' then Ok RelatedTo
      else if s = ''ConflictsWith'' then Ok ConflictsWith
      else if s = ''DependsOn'' then Ok DependsOn
      else if s = ''Implements'' then Ok Implements
      else if s = ''CausedBy'' then Ok CausedBy
      else if s = ''Solves'' then Ok Solves
      else Err (''Unknown RelationType: '' @ s))"

fun relation_type_debug :: "relation_type \<Rightarrow> string" where
  "relation_type_debug RequiredBy = ''RequiredBy''"
| "relation_type_debug LeadsTo = ''LeadsTo''"
| "relation_type_debug RelatedTo = ''RelatedTo''"
| "relation_type_debug ConflictsWith = ''ConflictsWith''"
| "relation_type_debug DependsOn = ''DependsOn''"
| "relation_type_debug Implements = ''Implements''"
| "relation_type_debug CausedBy = ''CausedBy''"
| "relation_type_debug Solves = ''Solves''"

lemma relation_type_from_str_debug [simp]: "relation_type_from_str (relation_type_debug r) = Ok r"
  by (cases r) (simp_all add: relation_type_from_str_def)

lemma relation_type_debug_inj: "relation_type_debug r = relation_type_debug q \<longleftrightarrow> r = q"
  by (cases r; cases q) simp_all

lemma relation_type_as_str_inj: "relation_type_as_str r = relation_type_as_str q \<longleftrightarrow> r = q"
  by (cases r; cases q) simp_all

lemma update_type_as_str_inj: "update_type_as_str t = update_type_as_str u \<longleftrightarrow> t = u"
  by (cases t; cases u) simp_all

lemma relation_weight_bounds: "0 < relation_weight r \<and> relation_weight r \<le> 1"
  by (cases r) simp_all

text \<open>The derived order of relation types is the order of their declaration.\<close>

fun relation_index :: "relation_type \<Rightarrow> nat" where
  "relation_index RequiredBy = 0"
| "relation_index LeadsTo = 1"
| "relation_index RelatedTo = 2"
| "relation_index ConflictsWith = 3"
| "relation_index DependsOn = 4"
| "relation_index Implements = 5"
| "relation_index CausedBy = 6"
| "relation_index Solves = 7"

lemma relation_index_inj: "relation_index r = relation_index q \<longleftrightarrow> r = q"
  by (cases r; cases q) simp_all

instantiation relation_type :: linorder
begin

definition less_eq_relation_type :: "relation_type \<Rightarrow> relation_type \<Rightarrow> bool" where
  "less_eq_relation_type r q \<longleftrightarrow> relation_index r \<le> relation_index q"

definition less_relation_type :: "relation_type \<Rightarrow> relation_type \<Rightarrow> bool" where
  "less_relation_type r q \<longleftrightarrow> relation_index r < relation_index q"

instance
  by standard
    (auto simp: less_eq_relation_type_def less_relation_type_def relation_index_inj [symmetric])

end

section \<open>A record for the witnesses\<close>

definition demo_meta :: update_meta where
  "demo_meta = \<lparr>um_valid_from = None, um_supersedes = [], um_confidence = None, um_retired_at = None\<rparr>"

definition demo_record :: "uuid \<Rightarrow> datetime \<Rightarrow> string \<Rightarrow> string list \<Rightarrow> update_meta \<Rightarrow> context_update" where
  "demo_record i t title names m =
     \<lparr>cu_id = i, cu_timestamp = t, cu_update_type = DecisionMade,
      cu_content = \<lparr>uc_title = title, uc_description = [], uc_details = [], uc_examples = [], uc_implications = []\<rparr>,
      cu_related_code = None, cu_parent_update = None, cu_user_marked_important = False,
      cu_creates_entities = names, cu_creates_relationships = [], cu_references_entities = [],
      cu_typed_entities = [], cu_author = None, cu_derived_from = [], cu_meta = m\<rparr>"

end
