(* ===== verification/Petgraph.thy ===== *)
theory Petgraph
  imports Pcx_Prelude "HOL-Library.Multiset"
begin

text \<open>
  The interface of the directed multigraph the entity graph is built on. \<open>petgraph\<close> is a
  third-party crate, so its operations are a parameter of the model: a record of functions
  over an abstract graph type. The locale \<open>digraph\<close> states what its documentation
  promises of \<open>DiGraph\<close>: nodes are numbered from 0 without gaps, a new node gets the next
  number, removing a node moves the last node into its place and drops its edges, edges keep
  their endpoints, and the edge iterators yield exactly the edges they name. A plain
  list-based graph satisfies the laws, so they can hold together.
\<close>

datatype direction = Outgoing | Incoming

record 'w edge_ref =
  er_id :: nat
  er_source :: nat
  er_target :: nat
  er_weight :: 'w

record ('g, 'w) petgraph =
  pg_new :: 'g
  pg_nodes :: "'g \<Rightarrow> string list"
  pg_edges :: "'g \<Rightarrow> 'w edge_ref list"
  pg_add_node :: "string \<Rightarrow> 'g \<Rightarrow> 'g \<times> nat"
  pg_remove_node :: "nat \<Rightarrow> 'g \<Rightarrow> 'g"
  pg_add_edge :: "nat \<Rightarrow> nat \<Rightarrow> 'w \<Rightarrow> 'g \<Rightarrow> 'g"
  pg_set_edge_weight :: "nat \<Rightarrow> 'w \<Rightarrow> 'g \<Rightarrow> 'g"
  pg_edges_directed :: "direction \<Rightarrow> nat \<Rightarrow> 'g \<Rightarrow> 'w edge_ref list"
  pg_edges_connecting :: "nat \<Rightarrow> nat \<Rightarrow> 'g \<Rightarrow> 'w edge_ref list"

definition node_weight :: "('g, 'w) petgraph \<Rightarrow> 'g \<Rightarrow> nat \<Rightarrow> string option" where
  "node_weight P g i = (if i < length (pg_nodes P g) then Some (pg_nodes P g ! i) else None)"

fun edge_end :: "direction \<Rightarrow> 'w edge_ref \<Rightarrow> nat" where
  "edge_end Outgoing e = er_source e"
| "edge_end Incoming e = er_target e"

text \<open>\<open>Vec::swap_remove\<close>: the last element takes the place of the removed one.\<close>

definition swap_remove :: "nat \<Rightarrow> 'a list \<Rightarrow> 'a list" where
  "swap_remove i xs = butlast (xs[i := last xs])"

definition swap_index :: "nat \<Rightarrow> nat \<Rightarrow> nat \<Rightarrow> nat" where
  "swap_index n i x = (if x = n - 1 then i else x)"

definition edge_triple :: "'w edge_ref \<Rightarrow> nat \<times> nat \<times> 'w" where
  "edge_triple e = (er_source e, er_target e, er_weight e)"

locale digraph =
  fixes P :: "('g, 'w) petgraph" and valid :: "'g \<Rightarrow> bool"
  assumes valid_new: "valid (pg_new P)"
    and nodes_new: "pg_nodes P (pg_new P) = []"
    and edges_new: "pg_edges P (pg_new P) = []"
    and valid_add_node: "valid g \<Longrightarrow> valid (fst (pg_add_node P s g))"
    and nodes_add_node: "valid g \<Longrightarrow> pg_nodes P (fst (pg_add_node P s g)) = pg_nodes P g @ [s]"
    and edges_add_node: "valid g \<Longrightarrow> pg_edges P (fst (pg_add_node P s g)) = pg_edges P g"
    and index_add_node: "valid g \<Longrightarrow> snd (pg_add_node P s g) = length (pg_nodes P g)"
    and valid_remove: "valid g \<Longrightarrow> valid (pg_remove_node P i g)"
    and nodes_remove: "valid g \<Longrightarrow> i < length (pg_nodes P g) \<Longrightarrow>
          pg_nodes P (pg_remove_node P i g) = swap_remove i (pg_nodes P g)"
    and edges_remove: "valid g \<Longrightarrow> i < length (pg_nodes P g) \<Longrightarrow>
          mset (map edge_triple (pg_edges P (pg_remove_node P i g))) =
          mset (map (\<lambda>e. (swap_index (length (pg_nodes P g)) i (er_source e),
                          swap_index (length (pg_nodes P g)) i (er_target e), er_weight e))
                 (filter (\<lambda>e. er_source e \<noteq> i \<and> er_target e \<noteq> i) (pg_edges P g)))"
    and valid_add_edge: "valid g \<Longrightarrow> a < length (pg_nodes P g) \<Longrightarrow> b < length (pg_nodes P g) \<Longrightarrow>
          valid (pg_add_edge P a b w g)"
    and nodes_add_edge: "valid g \<Longrightarrow> a < length (pg_nodes P g) \<Longrightarrow> b < length (pg_nodes P g) \<Longrightarrow>
          pg_nodes P (pg_add_edge P a b w g) = pg_nodes P g"
    and edges_add_edge: "valid g \<Longrightarrow> a < length (pg_nodes P g) \<Longrightarrow> b < length (pg_nodes P g) \<Longrightarrow>
          pg_edges P (pg_add_edge P a b w g) =
          pg_edges P g @ [\<lparr>er_id = length (pg_edges P g), er_source = a, er_target = b, er_weight = w\<rparr>]"
    and valid_set_weight: "valid g \<Longrightarrow> valid (pg_set_edge_weight P k w g)"
    and nodes_set_weight: "valid g \<Longrightarrow> pg_nodes P (pg_set_edge_weight P k w g) = pg_nodes P g"
    and edges_set_weight: "valid g \<Longrightarrow> pg_edges P (pg_set_edge_weight P k w g) =
          map (\<lambda>e. if er_id e = k then e\<lparr>er_weight := w\<rparr> else e) (pg_edges P g)"
    and edge_ids: "valid g \<Longrightarrow> map er_id (pg_edges P g) = [0..<length (pg_edges P g)]"
    and edge_range: "valid g \<Longrightarrow> e \<in> set (pg_edges P g) \<Longrightarrow>
          er_source e < length (pg_nodes P g) \<and> er_target e < length (pg_nodes P g)"
    and directed: "valid g \<Longrightarrow> mset (pg_edges_directed P d i g) =
          mset (filter (\<lambda>e. edge_end d e = i) (pg_edges P g))"
    and connecting: "valid g \<Longrightarrow> mset (pg_edges_connecting P a b g) =
          mset (filter (\<lambda>e. er_source e = a \<and> er_target e = b) (pg_edges P g))"
begin

lemma set_directed:
  "valid g \<Longrightarrow> set (pg_edges_directed P d i g) = {e \<in> set (pg_edges P g). edge_end d e = i}"
  using directed [of g d i] by (metis mset_eq_setD set_filter)

lemma set_connecting:
  "valid g \<Longrightarrow> set (pg_edges_connecting P a b g) =
     {e \<in> set (pg_edges P g). er_source e = a \<and> er_target e = b}"
  using connecting [of g a b] by (metis mset_eq_setD set_filter)

lemma distinct_ids: "valid g \<Longrightarrow> distinct (map er_id (pg_edges P g))"
  by (simp add: edge_ids)

lemma edge_id_inj: "valid g \<Longrightarrow> e \<in> set (pg_edges P g) \<Longrightarrow> f \<in> set (pg_edges P g) \<Longrightarrow>
  er_id e = er_id f \<Longrightarrow> e = f"
  using distinct_ids [of g] by (auto simp: distinct_map dest: inj_onD)

text \<open>Changing the weight of one edge leaves the endpoints of all edges alone.\<close>

lemma ends_set_weight: "valid g \<Longrightarrow>
  map (\<lambda>e. (er_source e, er_target e)) (pg_edges P (pg_set_edge_weight P k w g)) =
  map (\<lambda>e. (er_source e, er_target e)) (pg_edges P g)"
  by (simp add: edges_set_weight o_def)

end

section \<open>A graph of lists\<close>

type_synonym 'w list_graph = "string list \<times> (nat \<times> nat \<times> 'w) list"

definition lg_edges :: "'w list_graph \<Rightarrow> 'w edge_ref list" where
  "lg_edges g = map2 (\<lambda>k (s, t, w). \<lparr>er_id = k, er_source = s, er_target = t, er_weight = w\<rparr>)
     [0..<length (snd g)] (snd g)"

definition lg_remove :: "nat \<Rightarrow> 'w list_graph \<Rightarrow> 'w list_graph" where
  "lg_remove i g =
     (if i < length (fst g) then
        (let n = length (fst g)
         in (swap_remove i (fst g),
             map (\<lambda>(s, t, w). (swap_index n i s, swap_index n i t, w))
               (filter (\<lambda>(s, t, w). s \<noteq> i \<and> t \<noteq> i) (snd g))))
      else g)"

definition list_petgraph :: "('w list_graph, 'w) petgraph" where
  "list_petgraph =
     \<lparr>pg_new = ([], []),
      pg_nodes = fst,
      pg_edges = lg_edges,
      pg_add_node = (\<lambda>w g. ((fst g @ [w], snd g), length (fst g))),
      pg_remove_node = lg_remove,
      pg_add_edge = (\<lambda>a b w g. (fst g, snd g @ [(a, b, w)])),
      pg_set_edge_weight = (\<lambda>k w g. (fst g,
        map2 (\<lambda>j (s, t, v). if j = k then (s, t, w) else (s, t, v)) [0..<length (snd g)] (snd g))),
      pg_edges_directed = (\<lambda>d i g. filter (\<lambda>e. edge_end d e = i) (lg_edges g)),
      pg_edges_connecting = (\<lambda>a b g. filter (\<lambda>e. er_source e = a \<and> er_target e = b) (lg_edges g))\<rparr>"

definition lg_valid :: "'w list_graph \<Rightarrow> bool" where
  "lg_valid g \<longleftrightarrow> list_all (\<lambda>e. fst e < length (fst g) \<and> fst (snd e) < length (fst g)) (snd g)"

lemma length_swap_remove: "length (swap_remove i xs) = length xs - 1"
  by (simp add: swap_remove_def)

lemma nth_swap_remove:
  "i < length xs \<Longrightarrow> j < length xs - 1 \<Longrightarrow> swap_remove i xs ! j = (if j = i then last xs else xs ! j)"
  by (simp add: swap_remove_def nth_butlast)

lemma lg_edges_triples: "map edge_triple (lg_edges g) = snd g"
  by (auto simp: lg_edges_def edge_triple_def intro!: nth_equalityI split: prod.splits)

lemma lg_edges_ids: "map er_id (lg_edges g) = [0..<length (snd g)]"
  by (auto simp: lg_edges_def intro!: nth_equalityI split: prod.splits)

lemma length_lg_edges [simp]: "length (lg_edges g) = length (snd g)"
  by (simp add: lg_edges_def)

lemma lg_edges_mem: "e \<in> set (lg_edges g) \<Longrightarrow> edge_triple e \<in> set (snd g)"
  by (metis image_eqI lg_edges_triples set_map)

lemma lg_edges_filter:
  "map (\<lambda>e. f (edge_triple e)) (filter (\<lambda>e. p (edge_triple e)) (lg_edges g)) = map f (filter p (snd g))"
  by (simp add: lg_edges_triples [symmetric] filter_map o_def)

lemma lg_valid_add: "lg_valid (ns, es) \<Longrightarrow> lg_valid (ns @ [w], es)"
  by (auto simp: lg_valid_def list_all_iff)

lemma swap_index_lt: "x < n \<Longrightarrow> i < n \<Longrightarrow> x \<noteq> i \<Longrightarrow> swap_index n i x < n - Suc 0"
  by (auto simp: swap_index_def)

lemma lg_valid_remove: "lg_valid g \<Longrightarrow> lg_valid (lg_remove i g)"
  by (fastforce simp: lg_valid_def lg_remove_def Let_def length_swap_remove list_all_iff
      intro!: swap_index_lt)

lemma lg_set_weight:
  "lg_edges (ns, map2 (\<lambda>j (s, t, v). if j = k then (s, t, w) else (s, t, v)) [0..<length es] es)
     = map (\<lambda>e. if er_id e = k then e\<lparr>er_weight := w\<rparr> else e) (lg_edges (ns, es))"
  by (auto simp: lg_edges_def intro!: nth_equalityI split: prod.splits if_splits)

lemma lg_add_edge:
  "lg_edges (ns, es @ [(a, b, w)])
     = lg_edges (ns, es) @ [\<lparr>er_id = length es, er_source = a, er_target = b, er_weight = w\<rparr>]"
  by (simp add: lg_edges_def)

lemma lg_valid_set_weight:
  "lg_valid (ns, es) \<Longrightarrow>
     lg_valid (ns, map2 (\<lambda>j (s, t, v). if j = k then (s, t, w) else (s, t, v)) [0..<length es] es)"
  by (simp add: lg_valid_def list_all_length split: prod.splits) fastforce

lemma lg_edges_remove:
  assumes "i < length (fst g)"
  shows "map edge_triple (lg_edges (lg_remove i g)) =
    map (\<lambda>e. (swap_index (length (fst g)) i (er_source e), swap_index (length (fst g)) i (er_target e),
              er_weight e))
      (filter (\<lambda>e. er_source e \<noteq> i \<and> er_target e \<noteq> i) (lg_edges g))"
  using assms lg_edges_filter [of "\<lambda>(s, t, w). (swap_index (length (fst g)) i s, swap_index (length (fst g)) i t, w)"
      "\<lambda>(s, t, w). s \<noteq> i \<and> t \<noteq> i" g]
  by (simp add: lg_edges_triples lg_remove_def Let_def) (simp add: edge_triple_def)

lemma fst_lg_remove: "i < length (fst g) \<Longrightarrow> fst (lg_remove i g) = swap_remove i (fst g)"
  by (simp add: lg_remove_def Let_def)

interpretation lg: digraph "list_petgraph :: ('w list_graph, 'w) petgraph" lg_valid
proof unfold_locales
  fix g :: "'w list_graph" and i
  assume "lg_valid g" and "i < length (pg_nodes list_petgraph g)"
  then show "mset (map edge_triple (pg_edges list_petgraph (pg_remove_node list_petgraph i g))) =
      mset (map (\<lambda>e. (swap_index (length (pg_nodes list_petgraph g)) i (er_source e),
                      swap_index (length (pg_nodes list_petgraph g)) i (er_target e), er_weight e))
             (filter (\<lambda>e. er_source e \<noteq> i \<and> er_target e \<noteq> i) (pg_edges list_petgraph g)))"
    by (simp add: list_petgraph_def lg_edges_remove)
next
  fix g :: "'w list_graph" and e
  assume "lg_valid g" and "e \<in> set (pg_edges list_petgraph g)"
  then show "er_source e < length (pg_nodes list_petgraph g) \<and> er_target e < length (pg_nodes list_petgraph g)"
    by (auto simp: list_petgraph_def lg_valid_def edge_triple_def list_all_iff dest!: lg_edges_mem)
next
  show "lg_valid (pg_new (list_petgraph :: ('w list_graph, 'w) petgraph))"
    by (simp add: list_petgraph_def lg_valid_def)
  show "pg_edges (list_petgraph :: ('w list_graph, 'w) petgraph) (pg_new list_petgraph) = []"
    by (simp add: list_petgraph_def lg_edges_def)
  fix g :: "'w list_graph" and s
  show "pg_edges (list_petgraph :: ('w list_graph, 'w) petgraph) (fst (pg_add_node list_petgraph s g)) = pg_edges list_petgraph g"
    by (simp add: list_petgraph_def lg_edges_def)
next
  fix g :: "'w list_graph" and a b w
  assume "lg_valid g" "a < length (pg_nodes list_petgraph g)" "b < length (pg_nodes list_petgraph g)"
  then show "lg_valid (pg_add_edge list_petgraph a b w g)"
    by (simp add: list_petgraph_def lg_valid_def)
qed (auto simp: list_petgraph_def lg_valid_remove lg_edges_ids lg_set_weight lg_add_edge
    fst_lg_remove lg_valid_set_weight lg_valid_add)

end
