(* ===== verification/Entity_Graph.thy ===== *)
theory Entity_Graph
  imports Context_Update Petgraph "HOL-Library.Product_Lexorder"
begin

text \<open>
  \<open>SimpleEntityGraph\<close> of \<open>post-cortex-core/src/graph/entity_graph.rs\<close>: the state, the
  operations that write it, and the lookups of relations. \<open>petgraph\<close> is the parameter
  \<open>P\<close>; the readings of \<open>Utc::now()\<close> are the parameter \<open>clock\<close>, one per call in
  order. \<open>HashMap\<close>s that are never iterated are partial functions, \<open>BTreeMap\<close>s are
  sorted association lists.
\<close>

record edge_data =
  ew_relation_type :: relation_type
  ew_context :: string

record 'g entity_graph =
  eg_entities :: "(string, entity_data) btree"
  eg_entity_mentions :: "(string, uuid list) btree"
  eg_graph :: 'g
  eg_entity_to_node :: "string \<rightharpoonup> nat"
  eg_node_to_entity :: "nat \<rightharpoonup> string"
  eg_alias_index :: "string \<rightharpoonup> string"

type_synonym 'g pg = "('g, edge_data) petgraph"

definition entity_key :: "string \<Rightarrow> string" where
  "entity_key name =
     (let key = map char_lower
        (filter (\<lambda>c. \<not> is_whitespace c \<and> c \<noteq> CHR ''-'' \<and> c \<noteq> CHR ''_'') name)
      in if key = [] then str_lower name else key)"

definition mentioned_names :: "context_update \<Rightarrow> string list" where
  "mentioned_names u =
     map te_name (cu_typed_entities u) @ cu_creates_entities u @ cu_references_entities u @
     concat (map (\<lambda>r. [er_from_entity r, er_to_entity r]) (cu_creates_relationships u))"

definition new_graph :: "'g pg \<Rightarrow> 'g entity_graph" where
  "new_graph P =
     \<lparr>eg_entities = [], eg_entity_mentions = [], eg_graph = pg_new P,
      eg_entity_to_node = Map.empty, eg_node_to_entity = Map.empty, eg_alias_index = Map.empty\<rparr>"

text \<open>\<open>DiGraph::clear\<close> leaves an empty graph.\<close>

definition clear_graph :: "'g pg \<Rightarrow> 'g entity_graph \<Rightarrow> 'g entity_graph" where
  "clear_graph P g =
     g\<lparr>eg_entities := [], eg_entity_mentions := [], eg_graph := pg_new P,
       eg_entity_to_node := Map.empty, eg_node_to_entity := Map.empty, eg_alias_index := Map.empty\<rparr>"

section \<open>Names and aliases\<close>

definition resolve :: "'g entity_graph \<Rightarrow> string \<Rightarrow> string option" where
  "resolve g name =
     (case map_of (eg_entities g) name of
        Some _ \<Rightarrow> Some name
      | None \<Rightarrow> eg_alias_index g (entity_key name))"

text \<open>\<open>entry(key).or_insert(value)\<close>.\<close>

definition or_insert :: "'k \<Rightarrow> 'v \<Rightarrow> ('k \<rightharpoonup> 'v) \<Rightarrow> ('k \<rightharpoonup> 'v)" where
  "or_insert k v m = (case m k of None \<Rightarrow> m(k \<mapsto> v) | Some _ \<Rightarrow> m)"

definition index_names :: "string \<Rightarrow> 'g entity_graph \<Rightarrow> 'g entity_graph" where
  "index_names canonical g =
     (case map_of (eg_entities g) canonical of
        None \<Rightarrow> g
      | Some e \<Rightarrow>
          g\<lparr>eg_alias_index :=
              fold (\<lambda>k. or_insert k canonical) (map entity_key (ed_name e # ed_aliases e)) (eg_alias_index g)\<rparr>)"

definition note_alias :: "string \<Rightarrow> string \<Rightarrow> 'g entity_graph \<Rightarrow> 'g entity_graph" where
  "note_alias name alias g =
     (case resolve g name of
        None \<Rightarrow> g
      | Some canonical \<Rightarrow>
          let entities' =
            (case map_of (eg_entities g) canonical of
               None \<Rightarrow> eg_entities g
             | Some e \<Rightarrow>
                 if alias \<noteq> ed_name e \<and> alias \<notin> set (ed_aliases e)
                 then bt_insert canonical (e\<lparr>ed_aliases := ed_aliases e @ [alias]\<rparr>) (eg_entities g)
                 else eg_entities g)
          in g\<lparr>eg_entities := entities',
               eg_alias_index := or_insert (entity_key alias) canonical (eg_alias_index g)\<rparr>)"

section \<open>Nodes\<close>

text \<open>\<open>graph.add_node\<close> with the two index maps brought up to date, as the code always does.\<close>

definition add_named_node :: "'g pg \<Rightarrow> string \<Rightarrow> 'g entity_graph \<Rightarrow> 'g entity_graph" where
  "add_named_node P name g =
     (let (gr, i) = pg_add_node P name (eg_graph g)
      in g\<lparr>eg_graph := gr,
           eg_entity_to_node := (eg_entity_to_node g)(name \<mapsto> i),
           eg_node_to_entity := (eg_node_to_entity g)(i \<mapsto> name)\<rparr>)"

definition ensure_node :: "'g pg \<Rightarrow> string \<Rightarrow> 'g entity_graph \<Rightarrow> 'g entity_graph" where
  "ensure_node P name g = (if eg_entity_to_node g name = None then add_named_node P name g else g)"

definition remove_entity :: "'g pg \<Rightarrow> string \<Rightarrow> 'g entity_graph \<Rightarrow> 'g entity_graph \<times> bool" where
  "remove_entity P name g =
     (case eg_entity_to_node g name of
        None \<Rightarrow> (g, False)
      | Some node_idx \<Rightarrow>
          let gr = pg_remove_node P node_idx (eg_graph g);
              e2n = (eg_entity_to_node g)(name := None);
              n2e = (eg_node_to_entity g)(node_idx := None);
              (e2n', n2e') =
                (case node_weight P gr node_idx of
                   None \<Rightarrow> (e2n, n2e)
                 | Some swapped \<Rightarrow>
                     (e2n(swapped \<mapsto> node_idx),
                      (case e2n swapped of None \<Rightarrow> n2e | Some old \<Rightarrow> n2e(old := None))(node_idx \<mapsto> swapped)))
          in (g\<lparr>eg_graph := gr,
                eg_entity_to_node := e2n',
                eg_node_to_entity := n2e',
                eg_entities := bt_remove name (eg_entities g),
                eg_entity_mentions := bt_remove name (eg_entity_mentions g),
                eg_alias_index := (\<lambda>k. case eg_alias_index g k of
                    None \<Rightarrow> None
                  | Some canonical \<Rightarrow> if canonical \<noteq> name then Some canonical else None)\<rparr>, True))"

section \<open>Entities\<close>

definition add_or_update_entity ::
  "'g pg \<Rightarrow> string \<Rightarrow> entity_type \<Rightarrow> datetime \<Rightarrow> string \<Rightarrow> 'g entity_graph \<Rightarrow> 'g entity_graph" where
  "add_or_update_entity P written ty timestamp description g =
     (let name = unwrap_or (resolve g written) written in
      case map_of (eg_entities g) name of
        Some e \<Rightarrow>
          (let e1 = e\<lparr>ed_last_mentioned := timestamp, ed_mention_count := ed_mention_count e + 1\<rparr>;
               e2 = (if ed_description e1 = None \<and> description \<noteq> []
                     then e1\<lparr>ed_description := Some description\<rparr> else e1);
               e3 = (if written \<noteq> ed_name e2 \<and> written \<notin> set (ed_aliases e2)
                     then e2\<lparr>ed_aliases := ed_aliases e2 @ [written]\<rparr> else e2)
           in ensure_node P name (g\<lparr>eg_entities := bt_insert name e3 (eg_entities g)\<rparr>))
      | None \<Rightarrow>
          (let e = \<lparr>ed_name = name, ed_entity_type = ty, ed_first_mentioned = timestamp,
                    ed_last_mentioned = timestamp, ed_mention_count = 1, ed_importance_score = 1,
                    ed_description = (if description = [] then None else Some description),
                    ed_aliases = []\<rparr>
           in index_names name (add_named_node P name (g\<lparr>eg_entities := bt_insert name e (eg_entities g)\<rparr>))))"

definition get_or_create_node ::
  "'g pg \<Rightarrow> string \<Rightarrow> entity_type \<Rightarrow> datetime \<Rightarrow> 'g entity_graph \<Rightarrow> 'g entity_graph \<times> nat" where
  "get_or_create_node P name0 ty timestamp g =
     (let name = unwrap_or (resolve g name0) name0 in
      case eg_entity_to_node g name of
        Some i \<Rightarrow> (g, i)
      | None \<Rightarrow>
          (let g' = add_or_update_entity P name ty timestamp [] g in
           case eg_entity_to_node g' name of
             Some i \<Rightarrow> (g', i)
           | None \<Rightarrow> (add_named_node P name g', snd (pg_add_node P name (eg_graph g')))))"

definition mention_entity :: "string \<Rightarrow> uuid \<Rightarrow> datetime \<Rightarrow> 'g entity_graph \<Rightarrow> 'g entity_graph" where
  "mention_entity name update_id timestamp g =
     (let entities' =
        (case map_of (eg_entities g) name of
           None \<Rightarrow> eg_entities g
         | Some e \<Rightarrow>
             (let n = ed_mention_count e + 1
              in bt_insert name
                   (e\<lparr>ed_last_mentioned := timestamp, ed_mention_count := n,
                      ed_importance_score := max (log 2 (real (unat n))) 1\<rparr>)
                   (eg_entities g)))
      in g\<lparr>eg_entities := entities',
           eg_entity_mentions :=
             bt_insert name (unwrap_or (map_of (eg_entity_mentions g) name) [] @ [update_id])
               (eg_entity_mentions g)\<rparr>)"

definition update_entity_timestamp :: "string \<Rightarrow> datetime \<Rightarrow> 'g entity_graph \<Rightarrow> 'g entity_graph" where
  "update_entity_timestamp name timestamp g =
     (case map_of (eg_entities g) name of
        None \<Rightarrow> g
      | Some e \<Rightarrow>
          g\<lparr>eg_entities := bt_insert name
              (e\<lparr>ed_last_mentioned := timestamp, ed_mention_count := ed_mention_count e + 1\<rparr>)
              (eg_entities g)\<rparr>)"

definition has_entity :: "'g entity_graph \<Rightarrow> string \<Rightarrow> bool" where
  "has_entity g name \<longleftrightarrow> map_of (eg_entities g) name \<noteq> None"

definition entity_count :: "'g entity_graph \<Rightarrow> nat" where
  "entity_count g = length (eg_entities g)"

section \<open>Relations\<close>

definition add_relationship ::
  "'g pg \<Rightarrow> datetime \<Rightarrow> entity_relationship \<Rightarrow> 'g entity_graph \<Rightarrow> 'g entity_graph" where
  "add_relationship P timestamp rel g =
     (let (g1, from_node) = get_or_create_node P (er_from_entity rel) Concept timestamp g;
          (g2, to_node) = get_or_create_node P (er_to_entity rel) Concept timestamp g1
      in if from_node = to_node \<and> er_from_entity rel \<noteq> er_to_entity rel then g2
         else
           case List.find (\<lambda>e. ew_relation_type (er_weight e) = er_relation_type rel)
                  (pg_edges_connecting P from_node to_node (eg_graph g2)) of
             Some e \<Rightarrow>
               g2\<lparr>eg_graph := pg_set_edge_weight P (er_id e)
                    ((er_weight e)\<lparr>ew_context := er_context rel\<rparr>) (eg_graph g2)\<rparr>
           | None \<Rightarrow>
               g2\<lparr>eg_graph := pg_add_edge P from_node to_node
                    \<lparr>ew_relation_type = er_relation_type rel, ew_context = er_context rel\<rparr>
                    (eg_graph g2)\<rparr>)"

fun add_relationships ::
  "'g pg \<Rightarrow> (nat \<Rightarrow> datetime) \<Rightarrow> entity_relationship list \<Rightarrow> 'g entity_graph \<Rightarrow> 'g entity_graph" where
  "add_relationships P clock [] g = g"
| "add_relationships P clock (r # rs) g =
     add_relationships P (\<lambda>i. clock (Suc i)) rs (add_relationship P (clock 0) r g)"

text \<open>
  A borrowed \<open>RelationRef\<close> and its owned copy hold the same four values, so both are an
  \<open>entity_relationship\<close>.
\<close>

definition relation_ref :: "'g pg \<Rightarrow> 'g entity_graph \<Rightarrow> edge_data edge_ref \<Rightarrow> entity_relationship option" where
  "relation_ref P g e =
     (case node_weight P (eg_graph g) (er_source e) of
        None \<Rightarrow> None
      | Some from \<Rightarrow>
          (case node_weight P (eg_graph g) (er_target e) of
             None \<Rightarrow> None
           | Some to \<Rightarrow>
               Some \<lparr>er_from_entity = from, er_to_entity = to,
                     er_relation_type = ew_relation_type (er_weight e),
                     er_context = ew_context (er_weight e)\<rparr>))"

definition relationships :: "'g pg \<Rightarrow> 'g entity_graph \<Rightarrow> entity_relationship list" where
  "relationships P g = List.map_filter (relation_ref P g) (pg_edges P (eg_graph g))"

definition relationships_of :: "'g pg \<Rightarrow> 'g entity_graph \<Rightarrow> string \<Rightarrow> entity_relationship list" where
  "relationships_of P g entity =
     (case eg_entity_to_node g entity of
        None \<Rightarrow> []
      | Some node \<Rightarrow>
          List.map_filter (relation_ref P g)
            (pg_edges_directed P Outgoing node (eg_graph g) @
             filter (\<lambda>e. er_source e \<noteq> node) (pg_edges_directed P Incoming node (eg_graph g))))"

definition relation_between :: "'g pg \<Rightarrow> 'g entity_graph \<Rightarrow> string \<Rightarrow> string \<Rightarrow> entity_relationship list" where
  "relation_between P g a b =
     (case (eg_entity_to_node g a, eg_entity_to_node g b) of
        (Some na, Some nb) \<Rightarrow>
          List.map_filter (relation_ref P g) (pg_edges_connecting P na nb (eg_graph g)) @
          (if na \<noteq> nb
           then List.map_filter (relation_ref P g) (pg_edges_connecting P nb na (eg_graph g)) else [])
      | _ \<Rightarrow> [])"

section \<open>Merging entities\<close>

text \<open>\<open>ids.extend(new.filter(|id| seen.insert(id)))\<close> with \<open>seen\<close> the ids already there.\<close>

fun extend_new :: "'a list \<Rightarrow> 'a list \<Rightarrow> 'a list" where
  "extend_new ids [] = ids"
| "extend_new ids (x # xs) = extend_new (if x \<in> set ids then ids else ids @ [x]) xs"

definition merged_aliases :: "string \<Rightarrow> string list \<Rightarrow> string list \<Rightarrow> string list" where
  "merged_aliases name aliases new =
     fold (\<lambda>n as. if n \<noteq> name \<and> n \<notin> set as then as @ [n] else as) new aliases"

definition fold_entity :: "entity_data \<Rightarrow> entity_data \<Rightarrow> entity_data" where
  "fold_entity gone target =
     target\<lparr>ed_mention_count := ed_mention_count target + ed_mention_count gone,
       ed_first_mentioned := min (ed_first_mentioned target) (ed_first_mentioned gone),
       ed_last_mentioned := max (ed_last_mentioned target) (ed_last_mentioned gone),
       ed_importance_score := max (ed_importance_score target) (ed_importance_score gone),
       ed_description := (case ed_description target of None \<Rightarrow> ed_description gone | Some d \<Rightarrow> Some d),
       ed_aliases := merged_aliases (ed_name target) (ed_aliases target) (ed_name gone # ed_aliases gone)\<rparr>"

text \<open>Redirect a relation of the merged entity; a relation between the two is dropped.\<close>

definition redirect :: "string \<Rightarrow> string \<Rightarrow> entity_relationship \<Rightarrow> entity_relationship" where
  "redirect alias into rel =
     rel\<lparr>er_from_entity := (if er_from_entity rel = alias then into else er_from_entity rel),
        er_to_entity := (if er_to_entity rel = alias then into else er_to_entity rel)\<rparr>"

definition merge_entities ::
  "'g pg \<Rightarrow> (nat \<Rightarrow> datetime) \<Rightarrow> string \<Rightarrow> string \<Rightarrow> 'g entity_graph \<Rightarrow> 'g entity_graph \<times> bool" where
  "merge_entities P clock alias0 into0 g =
     (case (resolve g alias0, resolve g into0) of
        (Some alias, Some into) \<Rightarrow>
          if alias = into then (g, False)
          else
            (case map_of (eg_entities g) alias of
               None \<Rightarrow> (g, False)
             | Some gone \<Rightarrow>
                 let rels = relationships_of P g alias;
                     mentions = unwrap_or (map_of (eg_entity_mentions g) alias) [];
                     g1 = fst (remove_entity P alias g);
                     g2 = (case map_of (eg_entities g1) into of
                             None \<Rightarrow> g1
                           | Some target \<Rightarrow>
                               g1\<lparr>eg_entities := bt_insert into (fold_entity gone target) (eg_entities g1)\<rparr>);
                     keys = (case map_of (eg_entities g2) into of
                               None \<Rightarrow> []
                             | Some e \<Rightarrow> map entity_key (ed_name e # ed_aliases e));
                     g3 = g2\<lparr>eg_alias_index := fold (\<lambda>k m. m(k \<mapsto> into)) keys (eg_alias_index g2)\<rparr>;
                     g4 = (if mentions = [] then g3
                           else g3\<lparr>eg_entity_mentions :=
                                  bt_insert into
                                    (extend_new (unwrap_or (map_of (eg_entity_mentions g3) into) []) mentions)
                                    (eg_entity_mentions g3)\<rparr>);
                     rels' = filter (\<lambda>r. er_from_entity r \<noteq> er_to_entity r) (map (redirect alias into) rels)
                 in (add_relationships P clock rels' g4, True))
      | _ \<Rightarrow> (g, False))"

text \<open>
  \<open>rebuild_alias_index\<close>: one pass over the entities in order of their first mention fills
  the index and collects the merges, which then run. Each merge has its own clock readings.
\<close>

definition index_alias ::
  "string \<Rightarrow> string \<Rightarrow> (string \<rightharpoonup> string) \<times> (string \<times> string) list
     \<Rightarrow> (string \<rightharpoonup> string) \<times> (string \<times> string) list" where
  "index_alias name alias st =
     (case fst st (entity_key alias) of
        None \<Rightarrow> ((fst st)(entity_key alias \<mapsto> name), snd st)
      | Some owner \<Rightarrow> (fst st, if owner \<noteq> name then snd st @ [(name, owner)] else snd st))"

definition index_entity ::
  "entity_data \<Rightarrow> (string \<rightharpoonup> string) \<times> (string \<times> string) list
     \<Rightarrow> (string \<rightharpoonup> string) \<times> (string \<times> string) list" where
  "index_entity e st = fold (index_alias (ed_name e)) (ed_name e # ed_aliases e) st"

fun run_merges ::
  "'g pg \<Rightarrow> (nat \<Rightarrow> nat \<Rightarrow> datetime) \<Rightarrow> (string \<times> string) list \<Rightarrow> 'g entity_graph \<Rightarrow> 'g entity_graph" where
  "run_merges P clocks [] g = g"
| "run_merges P clocks ((alias, into) # ms) g =
     run_merges P (\<lambda>i. clocks (Suc i)) ms (fst (merge_entities P (clocks 0) alias into g))"

definition rebuild_alias_index ::
  "'g pg \<Rightarrow> (nat \<Rightarrow> nat \<Rightarrow> datetime) \<Rightarrow> 'g entity_graph \<Rightarrow> 'g entity_graph" where
  "rebuild_alias_index P clocks g =
     (let order = sort (map (\<lambda>(_, e). (ed_first_mentioned e, ed_name e)) (eg_entities g));
          es = List.map_filter (\<lambda>(_, name). map_of (eg_entities g) name) order;
          (index, merges) = fold index_entity es (Map.empty, [])
      in run_merges P clocks merges (g\<lparr>eg_alias_index := index\<rparr>))"

definition insert_entity ::
  "'g pg \<Rightarrow> (nat \<Rightarrow> datetime) \<Rightarrow> entity_data \<Rightarrow> 'g entity_graph \<Rightarrow> 'g entity_graph" where
  "insert_entity P clock e g =
     (let name = ed_name e;
          other =
            (case List.map_filter (\<lambda>n. case resolve g n of None \<Rightarrow> None
                     | Some o' \<Rightarrow> if o' \<noteq> name then Some o' else None) (ed_name e # ed_aliases e) of
               [] \<Rightarrow> None
             | o' # _ \<Rightarrow> Some o');
          g1 = ensure_node P name g;
          g2 = index_names name (g1\<lparr>eg_entities := bt_insert name e (eg_entities g1)\<rparr>)
      in case other of
           None \<Rightarrow> g2
         | Some other \<Rightarrow>
             (case (map_of (eg_entities g2) name, map_of (eg_entities g2) other) of
                (Some mine, Some theirs) \<Rightarrow>
                  (let (alias, into) =
                     (if (ed_first_mentioned mine, name) < (ed_first_mentioned theirs, other)
                      then (other, name) else (name, other))
                   in fst (merge_entities P clock alias into g2))
              | _ \<Rightarrow> g2))"

definition explicit_aliases :: "'g entity_graph \<Rightarrow> (string \<times> string) list" where
  "explicit_aliases g =
     concat (map (\<lambda>(_, e). map (\<lambda>a. (a, ed_name e))
       (filter (\<lambda>a. entity_key a \<noteq> entity_key (ed_name e)) (ed_aliases e))) (eg_entities g))"

section \<open>Applying records\<close>

fun add_concepts ::
  "'g pg \<Rightarrow> datetime \<Rightarrow> string \<Rightarrow> string list \<Rightarrow> 'g entity_graph \<Rightarrow> 'g entity_graph" where
  "add_concepts P t desc [] g = g"
| "add_concepts P t desc (n # ns) g = add_concepts P t desc ns (add_or_update_entity P n Concept t desc g)"

fun add_typed ::
  "'g pg \<Rightarrow> datetime \<Rightarrow> string \<Rightarrow> typed_entity list \<Rightarrow> 'g entity_graph \<Rightarrow> 'g entity_graph" where
  "add_typed P t desc [] g = g"
| "add_typed P t desc (e # es) g =
     add_typed P t desc es (add_or_update_entity P (te_name e) (te_entity_type e) t desc g)"

definition link_mention :: "uuid \<Rightarrow> string \<Rightarrow> 'g entity_graph \<Rightarrow> 'g entity_graph" where
  "link_mention uid canonical g =
     (let ids = unwrap_or (map_of (eg_entity_mentions g) canonical) []
      in g\<lparr>eg_entity_mentions :=
            bt_insert canonical (if uid \<in> set ids then ids else ids @ [uid]) (eg_entity_mentions g)\<rparr>)"

fun link_names :: "uuid \<Rightarrow> string set \<Rightarrow> string list \<Rightarrow> 'g entity_graph \<Rightarrow> 'g entity_graph" where
  "link_names uid linked [] g = g"
| "link_names uid linked (n # ns) g =
     (case resolve g n of
        None \<Rightarrow> link_names uid linked ns g
      | Some canonical \<Rightarrow>
          if canonical \<in> linked then link_names uid linked ns g
          else link_names uid (insert canonical linked) ns (link_mention uid canonical g))"

definition link_mentions :: "context_update \<Rightarrow> 'g entity_graph \<Rightarrow> 'g entity_graph" where
  "link_mentions u g = link_names (cu_id u) {} (mentioned_names u) g"

definition apply_update ::
  "'g pg \<Rightarrow> (nat \<Rightarrow> datetime) \<Rightarrow> context_update \<Rightarrow> 'g entity_graph \<Rightarrow> 'g entity_graph" where
  "apply_update P clock u g =
     (let title = uc_title (cu_content u);
          g1 = (if cu_typed_entities u = []
                then add_concepts P (cu_timestamp u) (''From update: '' @ title) (cu_creates_entities u) g
                else add_typed P (cu_timestamp u) (''Provided by caller: '' @ title) (cu_typed_entities u) g)
      in link_mentions u (add_relationships P clock (cu_creates_relationships u) g1))"

text \<open>
  \<open>relink_mentions\<close> tests the last id first, which is only a shortcut of the membership
  test that follows; both conditions are kept.
\<close>

fun relink_names :: "uuid \<Rightarrow> string list \<Rightarrow> 'g entity_graph \<Rightarrow> 'g entity_graph" where
  "relink_names uid [] g = g"
| "relink_names uid (n # ns) g =
     (case resolve g n of
        None \<Rightarrow> relink_names uid ns g
      | Some canonical \<Rightarrow>
          (let ids = unwrap_or (map_of (eg_entity_mentions g) canonical) [];
               ids' = (if (ids = [] \<or> last ids \<noteq> uid) \<and> uid \<notin> set ids then ids @ [uid] else ids)
           in relink_names uid ns
                (g\<lparr>eg_entity_mentions := bt_insert canonical ids' (eg_entity_mentions g)\<rparr>)))"

fun relink_updates :: "context_update list \<Rightarrow> 'g entity_graph \<Rightarrow> 'g entity_graph" where
  "relink_updates [] g = g"
| "relink_updates (u # us) g = relink_updates us (relink_names (cu_id u) (mentioned_names u) g)"

definition relink_mentions :: "context_update list \<Rightarrow> 'g entity_graph \<Rightarrow> 'g entity_graph" where
  "relink_mentions us g = relink_updates us (g\<lparr>eg_entity_mentions := []\<rparr>)"

section \<open>Merging graphs\<close>

fun merge_entity_entries ::
  "'g pg \<Rightarrow> (string \<times> entity_data) list \<Rightarrow> 'g entity_graph \<Rightarrow> 'g entity_graph" where
  "merge_entity_entries P [] g = g"
| "merge_entity_entries P ((name, data) # es) g =
     merge_entity_entries P es
       (fold (note_alias name) (ed_aliases data)
         (add_or_update_entity P name (ed_entity_type data) (ed_last_mentioned data)
           (unwrap_or (ed_description data) []) g))"

fun merge_mention_entries :: "(string \<times> uuid list) list \<Rightarrow> 'g entity_graph \<Rightarrow> 'g entity_graph" where
  "merge_mention_entries [] g = g"
| "merge_mention_entries ((name0, ids) # es) g =
     (let name = unwrap_or (resolve g name0) name0;
          entry = unwrap_or (map_of (eg_entity_mentions g) name) []
      in merge_mention_entries es
           (g\<lparr>eg_entity_mentions := bt_insert name (extend_new entry ids) (eg_entity_mentions g)\<rparr>))"

definition merge_from ::
  "'g pg \<Rightarrow> (nat \<Rightarrow> datetime) \<Rightarrow> 'g entity_graph \<Rightarrow> 'g entity_graph \<Rightarrow> 'g entity_graph" where
  "merge_from P clock other g =
     add_relationships P clock (relationships P other)
       (merge_mention_entries (eg_entity_mentions other)
         (merge_entity_entries P (eg_entities other) g))"

end
