(* ===== verification/Entity_Graph_Inv.thy ===== *)
theory Entity_Graph_Inv
  imports Entity_Graph
begin

text \<open>
  The invariant of the entity graph and its preservation by every operation that writes it,
  and the abstract view of its relations: \<open>rel_map\<close> reads the edges as a finite map from
  (from name, to name, type) to the context, which is what the operations promise to keep.
  The lemmas are proved for every \<open>petgraph\<close> that satisfies the laws of \<open>digraph\<close>.
\<close>

section \<open>The invariant and the abstract view\<close>

type_synonym rel_key = "string \<times> string \<times> relation_type"

definition rel_entry :: "string list \<Rightarrow> nat \<times> nat \<times> edge_data \<Rightarrow> rel_key \<times> string" where
  "rel_entry ns = (\<lambda>(s, t, w). ((ns ! s, ns ! t, ew_relation_type w), ew_context w))"

definition rel_entries :: "'g pg \<Rightarrow> 'g entity_graph \<Rightarrow> (rel_key \<times> string) list" where
  "rel_entries P g = map (rel_entry (pg_nodes P (eg_graph g))) (map edge_triple (pg_edges P (eg_graph g)))"

definition rel_map :: "'g pg \<Rightarrow> 'g entity_graph \<Rightarrow> rel_key \<rightharpoonup> string" where
  "rel_map P g = map_of (rel_entries P g)"

definition node_names :: "'g pg \<Rightarrow> 'g entity_graph \<Rightarrow> string list" where
  "node_names P g = pg_nodes P (eg_graph g)"

definition index_of :: "string list \<Rightarrow> string \<rightharpoonup> nat" where
  "index_of ns n = List.find (\<lambda>i. ns ! i = n) [0..<length ns]"

definition nodes_ok :: "'g pg \<Rightarrow> ('g \<Rightarrow> bool) \<Rightarrow> 'g entity_graph \<Rightarrow> bool" where
  "nodes_ok P valid g \<longleftrightarrow>
     valid (eg_graph g) \<and> distinct (node_names P g) \<and>
     (\<forall>n i. eg_entity_to_node g n = Some i \<longleftrightarrow> i < length (node_names P g) \<and> node_names P g ! i = n) \<and>
     (\<forall>i n. eg_node_to_entity g i = Some n \<longleftrightarrow> i < length (node_names P g) \<and> node_names P g ! i = n) \<and>
     distinct (map fst (rel_entries P g))"

definition entities_ok :: "'g entity_graph \<Rightarrow> bool" where
  "entities_ok g \<longleftrightarrow>
     bt_ok (eg_entities g) \<and> bt_ok (eg_entity_mentions g) \<and>
     (\<forall>n e. map_of (eg_entities g) n = Some e \<longrightarrow> ed_name e = n) \<and>
     ran (eg_alias_index g) \<subseteq> dom (map_of (eg_entities g))"

definition graph_ok :: "'g pg \<Rightarrow> ('g \<Rightarrow> bool) \<Rightarrow> 'g entity_graph \<Rightarrow> bool" where
  "graph_ok P valid g \<longleftrightarrow>
     nodes_ok P valid g \<and> entities_ok g \<and> set (node_names P g) = dom (map_of (eg_entities g))"

text \<open>Updates of the other fields leave the graph part alone.\<close>

lemma nodes_ok_upd [simp]:
  "nodes_ok P valid (g\<lparr>eg_entities := x\<rparr>) = nodes_ok P valid g"
  "nodes_ok P valid (g\<lparr>eg_entity_mentions := y\<rparr>) = nodes_ok P valid g"
  "nodes_ok P valid (g\<lparr>eg_alias_index := z\<rparr>) = nodes_ok P valid g"
  by (simp_all add: nodes_ok_def node_names_def rel_entries_def)

lemma node_names_upd [simp]:
  "node_names P (g\<lparr>eg_entities := x\<rparr>) = node_names P g"
  "node_names P (g\<lparr>eg_entity_mentions := y\<rparr>) = node_names P g"
  "node_names P (g\<lparr>eg_alias_index := z\<rparr>) = node_names P g"
  by (simp_all add: node_names_def)

lemma rel_entries_upd [simp]:
  "rel_entries P (g\<lparr>eg_entities := x\<rparr>) = rel_entries P g"
  "rel_entries P (g\<lparr>eg_entity_mentions := y\<rparr>) = rel_entries P g"
  "rel_entries P (g\<lparr>eg_alias_index := z\<rparr>) = rel_entries P g"
  by (simp_all add: rel_entries_def)

lemma rel_map_upd [simp]:
  "rel_map P (g\<lparr>eg_entities := x\<rparr>) = rel_map P g"
  "rel_map P (g\<lparr>eg_entity_mentions := y\<rparr>) = rel_map P g"
  "rel_map P (g\<lparr>eg_alias_index := z\<rparr>) = rel_map P g"
  by (simp_all add: rel_map_def)

lemma nodes_okD:
  assumes "nodes_ok P valid g"
  shows "valid (eg_graph g)" "distinct (node_names P g)"
    "eg_entity_to_node g n = Some i \<longleftrightarrow> i < length (node_names P g) \<and> node_names P g ! i = n"
    "eg_node_to_entity g i = Some n \<longleftrightarrow> i < length (node_names P g) \<and> node_names P g ! i = n"
    "distinct (map fst (rel_entries P g))"
  using assms by (simp_all add: nodes_ok_def)

lemma nodes_ok_None: "nodes_ok P valid g \<Longrightarrow> eg_entity_to_node g n = None \<longleftrightarrow> n \<notin> set (node_names P g)"
proof -
  assume ok: "nodes_ok P valid g"
  have "eg_entity_to_node g n = None \<longleftrightarrow> (\<nexists>i. eg_entity_to_node g n = Some i)" by auto
  then show ?thesis by (simp only: nodes_okD(3) [OF ok] in_set_conv_nth)
qed

lemma graph_okD:
  assumes "graph_ok P valid g"
  shows "nodes_ok P valid g" "entities_ok g" "set (node_names P g) = dom (map_of (eg_entities g))"
    "bt_ok (eg_entities g)" "bt_ok (eg_entity_mentions g)"
    "map_of (eg_entities g) n = Some e \<Longrightarrow> ed_name e = n"
    "eg_alias_index g k = Some c \<Longrightarrow> c \<in> dom (map_of (eg_entities g))"
  using assms unfolding graph_ok_def entities_ok_def by (auto intro: ranI)

lemma graph_ok_node:
  "graph_ok P valid g \<Longrightarrow> eg_entity_to_node g n = None \<longleftrightarrow> map_of (eg_entities g) n = None"
  using nodes_ok_None [OF graph_okD(1), of P valid g n] graph_okD(3) [of P valid g] by auto

lemma resolve_known: "graph_ok P valid g \<Longrightarrow> resolve g n = Some c \<Longrightarrow> c \<in> dom (map_of (eg_entities g))"
  by (auto simp: resolve_def dest: graph_okD(7) split: option.splits)

lemma resolve_self: "map_of (eg_entities g) n \<noteq> None \<Longrightarrow> resolve g n = Some n"
  by (auto simp: resolve_def)

lemma resolve_idem: "graph_ok P valid g \<Longrightarrow> resolve g n = Some c \<Longrightarrow> resolve g c = Some c"
  using resolve_known [of P valid g n c] by (simp add: resolve_self domIff)

text \<open>The two entity records \<open>add_or_update_entity\<close> can write.\<close>

definition remention :: "string \<Rightarrow> datetime \<Rightarrow> string \<Rightarrow> entity_data \<Rightarrow> entity_data" where
  "remention written t desc e =
     e\<lparr>ed_last_mentioned := t, ed_mention_count := ed_mention_count e + 1,
       ed_description := (if ed_description e = None \<and> desc \<noteq> [] then Some desc else ed_description e),
       ed_aliases := (if written \<noteq> ed_name e \<and> written \<notin> set (ed_aliases e)
                      then ed_aliases e @ [written] else ed_aliases e)\<rparr>"

definition new_entity :: "string \<Rightarrow> entity_type \<Rightarrow> datetime \<Rightarrow> string \<Rightarrow> entity_data" where
  "new_entity n ty t desc =
     \<lparr>ed_name = n, ed_entity_type = ty, ed_first_mentioned = t, ed_last_mentioned = t,
      ed_mention_count = 1, ed_importance_score = 1,
      ed_description = (if desc = [] then None else Some desc), ed_aliases = []\<rparr>"

lemma swap_remove_swap_index:
  "x < length xs \<Longrightarrow> i < length xs \<Longrightarrow> x \<noteq> i \<Longrightarrow>
     swap_remove i xs ! swap_index (length xs) i x = xs ! x"
  by (cases xs rule: rev_cases) (auto simp: swap_remove_def swap_index_def nth_butlast nth_append nth_list_update)

lemma map_of_mset_eq:
  assumes "mset xs = mset ys" "distinct (map fst xs)"
  shows "map_of xs = map_of ys"
proof -
  have "distinct (map fst ys)"
    using assms by (metis mset_eq_imp_distinct_iff mset_map)
  then show ?thesis
    using assms map_of_inject_set [of xs ys] mset_eq_setD [of xs ys] by blast
qed

lemma map_of_filter_keys: "map_of (filter (\<lambda>(k, v). p k) xs) k = (if p k then map_of xs k else None)"
  by (induction xs) auto

lemma map_of_map_one:
  assumes "k \<in> fst ` set xs"
  shows "map_of (map (\<lambda>(k', v). (k', if k' = k then c else v)) xs) = (map_of xs)(k \<mapsto> c)"
proof -
  have "map_of (map (\<lambda>(k', v). (k', if k' = k then c else v)) xs) =
      (\<lambda>k'. map_option (\<lambda>v. if k' = k then c else v) (map_of xs k'))"
    by (induction xs) auto
  then show ?thesis
    using assms
    by (auto simp: fun_eq_iff map_of_eq_None_iff [symmetric] option.map_ident_strong dest!: weak_map_of_SomeI
        split: option.splits)
qed

definition rel_key :: "entity_relationship \<Rightarrow> rel_key" where
  "rel_key r = (er_from_entity r, er_to_entity r, er_relation_type r)"

definition rel_pair :: "entity_relationship \<Rightarrow> rel_key \<times> string" where
  "rel_pair r = (rel_key r, er_context r)"

lemma inj_rel_pair: "inj rel_pair"
  by (rule injI) (simp add: rel_pair_def rel_key_def)

section \<open>What the node operations do\<close>

locale entity_digraph = digraph P valid
  for P :: "('g, edge_data) petgraph" and valid :: "'g \<Rightarrow> bool"
begin

lemma edge_in_range:
  "nodes_ok P valid g \<Longrightarrow> e \<in> set (pg_edges P (eg_graph g)) \<Longrightarrow>
     er_source e < length (node_names P g) \<and> er_target e < length (node_names P g)"
  using edge_range [of "eg_graph g" e] nodes_okD(1) [of P valid g] by (simp add: node_names_def)

lemma rel_keys_nodes:
  assumes "nodes_ok P valid g" "((a, b, ty), c) \<in> set (rel_entries P g)"
  shows "a \<in> set (node_names P g)" "b \<in> set (node_names P g)"
  using assms edge_in_range [OF assms(1)]
  by (auto simp: rel_entries_def rel_entry_def edge_triple_def node_names_def)

lemma rel_map_dom:
  assumes "nodes_ok P valid g" "rel_map P g (a, b, ty) = Some c"
  shows "a \<in> set (node_names P g)" "b \<in> set (node_names P g)"
  using assms rel_keys_nodes [of g a b ty c] by (auto simp: rel_map_def dest: map_of_SomeD)

lemma add_named_node_fields [simp]:
  "eg_entities (add_named_node P n g) = eg_entities g"
  "eg_entity_mentions (add_named_node P n g) = eg_entity_mentions g"
  "eg_alias_index (add_named_node P n g) = eg_alias_index g"
  by (simp_all add: add_named_node_def split: prod.splits)

lemma add_named_node:
  assumes ok: "nodes_ok P valid g" and new: "n \<notin> set (node_names P g)"
  shows "nodes_ok P valid (add_named_node P n g)"
    and "node_names P (add_named_node P n g) = node_names P g @ [n]"
    and "rel_entries P (add_named_node P n g) = rel_entries P g"
proof -
  obtain gr i where gi: "pg_add_node P n (eg_graph g) = (gr, i)" by fastforce
  have v: "valid (eg_graph g)" by (rule nodes_okD(1) [OF ok])
  have gr: "valid gr" "pg_nodes P gr = node_names P g @ [n]" "pg_edges P gr = pg_edges P (eg_graph g)"
    "i = length (node_names P g)"
    using valid_add_node [OF v, of n] nodes_add_node [OF v, of n] edges_add_node [OF v, of n]
      index_add_node [OF v, of n]
    by (simp_all add: gi node_names_def)
  show names: "node_names P (add_named_node P n g) = node_names P g @ [n]"
    by (simp add: add_named_node_def gi node_names_def gr [unfolded node_names_def])
  show rels: "rel_entries P (add_named_node P n g) = rel_entries P g"
    using edge_in_range [OF ok]
    by (auto simp: rel_entries_def rel_entry_def edge_triple_def add_named_node_def gi gr
        node_names_def nth_append)
  show "nodes_ok P valid (add_named_node P n g)"
    unfolding nodes_ok_def rels names
    using new nodes_okD(2,3,4,5) [OF ok] gr
    by (auto simp: add_named_node_def gi nth_append less_Suc_eq in_set_conv_nth)
qed

lemma remove_entity_fields [simp]:
  "eg_entity_to_node g n \<noteq> None \<Longrightarrow>
     eg_entities (fst (remove_entity P n g)) = bt_remove n (eg_entities g)"
  "eg_entity_to_node g n \<noteq> None \<Longrightarrow>
     eg_entity_mentions (fst (remove_entity P n g)) = bt_remove n (eg_entity_mentions g)"
  "eg_entity_to_node g n \<noteq> None \<Longrightarrow>
     eg_alias_index (fst (remove_entity P n g)) k =
       (if eg_alias_index g k = Some n then None else eg_alias_index g k)"
  by (auto simp: remove_entity_def Let_def split: option.splits prod.splits)

lemma remove_entity_flag: "snd (remove_entity P n g) \<longleftrightarrow> eg_entity_to_node g n \<noteq> None"
  by (auto simp: remove_entity_def Let_def split: option.splits prod.splits)

lemma remove_entity_unknown: "eg_entity_to_node g n = None \<Longrightarrow> remove_entity P n g = (g, False)"
  by (simp add: remove_entity_def)

text \<open>The edges left by \<open>remove_node\<close>, read at the level of names.\<close>

lemma remove_rel_entries:
  assumes ok: "nodes_ok P valid g" and i: "eg_entity_to_node g n = Some i"
  shows "mset (rel_entries P (fst (remove_entity P n g))) =
    mset (filter (\<lambda>((a, b, _), _). a \<noteq> n \<and> b \<noteq> n) (rel_entries P g))"
proof -
  let ?ns = "node_names P g" and ?gr = "eg_graph g"
  let ?k = "length ?ns"
  let ?gr' = "pg_remove_node P i ?gr"
  have v: "valid ?gr" and il: "i < ?k" and ni: "?ns ! i = n"
    using nodes_okD(1,3) [OF ok] i by auto
  have ns': "pg_nodes P ?gr' = swap_remove i ?ns"
    using nodes_remove [OF v, of i] il by (simp add: node_names_def)
  have eg: "eg_graph (fst (remove_entity P n g)) = ?gr'"
    by (simp add: remove_entity_def i Let_def split: option.splits)
  have es: "mset (map edge_triple (pg_edges P ?gr')) =
      mset (map (\<lambda>e. (swap_index ?k i (er_source e), swap_index ?k i (er_target e), er_weight e))
        (filter (\<lambda>e. er_source e \<noteq> i \<and> er_target e \<noteq> i) (pg_edges P ?gr)))"
    using edges_remove [OF v, of i] il by (simp add: node_names_def)
  have same: "rel_entry (swap_remove i ?ns)
      (swap_index ?k i (er_source e), swap_index ?k i (er_target e), er_weight e) =
      rel_entry ?ns (edge_triple e)"
    if "e \<in> set (filter (\<lambda>e. er_source e \<noteq> i \<and> er_target e \<noteq> i) (pg_edges P ?gr))" for e
    using that edge_in_range [OF ok, of e] il
    by (simp add: rel_entry_def edge_triple_def swap_remove_swap_index)
  have touch: "er_source e \<noteq> i \<and> er_target e \<noteq> i \<longleftrightarrow>
      (case rel_entry ?ns (edge_triple e) of ((a, b, _), _) \<Rightarrow> a \<noteq> n \<and> b \<noteq> n)"
    if "e \<in> set (pg_edges P ?gr)" for e
    using edge_in_range [OF ok that] ni il nth_eq_iff_index_eq [OF nodes_okD(2) [OF ok]]
    by (auto simp: rel_entry_def edge_triple_def)
  have "mset (rel_entries P (fst (remove_entity P n g))) =
      image_mset (rel_entry (swap_remove i ?ns)) (mset (map edge_triple (pg_edges P ?gr')))"
    by (simp add: rel_entries_def eg ns' multiset.map_comp)
  also have "\<dots> = mset (map (\<lambda>e. rel_entry (swap_remove i ?ns)
      (swap_index ?k i (er_source e), swap_index ?k i (er_target e), er_weight e))
        (filter (\<lambda>e. er_source e \<noteq> i \<and> er_target e \<noteq> i) (pg_edges P ?gr)))"
    unfolding es by (simp add: o_def image_mset.compositionality)
  also have "\<dots> = mset (map (rel_entry ?ns \<circ> edge_triple)
        (filter (\<lambda>e. er_source e \<noteq> i \<and> er_target e \<noteq> i) (pg_edges P ?gr)))"
    using same by (intro arg_cong [of _ _ mset] map_cong) auto
  also have "filter (\<lambda>e. er_source e \<noteq> i \<and> er_target e \<noteq> i) (pg_edges P ?gr) =
      filter ((\<lambda>((a, b, _), _). a \<noteq> n \<and> b \<noteq> n) \<circ> (rel_entry ?ns \<circ> edge_triple)) (pg_edges P ?gr)"
    using touch by (intro filter_cong) auto
  also have "map (rel_entry ?ns \<circ> edge_triple) \<dots> =
      filter (\<lambda>((a, b, _), _). a \<noteq> n \<and> b \<noteq> n) (rel_entries P g)"
    by (simp add: rel_entries_def node_names_def filter_map o_assoc)
  finally show ?thesis .
qed

text \<open>The index maps after the swap.\<close>

lemma remove_names:
  assumes ok: "nodes_ok P valid g" and i: "eg_entity_to_node g n = Some i"
  shows "node_names P (fst (remove_entity P n g)) = swap_remove i (node_names P g)"
    and "set (node_names P (fst (remove_entity P n g))) = set (node_names P g) - {n}"
    and "distinct (node_names P (fst (remove_entity P n g)))"
proof -
  let ?ns = "node_names P g"
  have v: "valid (eg_graph g)" and il: "i < length ?ns" and ni: "?ns ! i = n"
    using nodes_okD(1,3) [OF ok] i by auto
  show names: "node_names P (fst (remove_entity P n g)) = swap_remove i ?ns"
    using nodes_remove [OF v, of i] il
    by (simp add: remove_entity_def i Let_def node_names_def split: option.splits)
  obtain ms l where ml: "?ns = ms @ [l]" using il by (cases ?ns rule: rev_cases) auto
  have d: "distinct (ms @ [l])" using nodes_okD(2) [OF ok] by (simp add: ml)
  have "set (swap_remove i ?ns) = set ?ns - {n} \<and> distinct (swap_remove i ?ns)"
  proof (cases "i = length ms")
    case True
    then show ?thesis using d ni by (auto simp: ml swap_remove_def)
  next
    case False
    then have "i < length ms" using il by (simp add: ml)
    then show ?thesis using d ni
      by (auto simp: ml swap_remove_def nth_append set_update_distinct list_update_append
          distinct_list_update)
  qed
  then show "set (node_names P (fst (remove_entity P n g))) = set ?ns - {n}"
    and "distinct (node_names P (fst (remove_entity P n g)))"
    by (simp_all add: names)
qed

lemma remove_nodes_ok:
  assumes ok: "nodes_ok P valid g" and i: "eg_entity_to_node g n = Some i"
  shows "nodes_ok P valid (fst (remove_entity P n g))"
proof -
  let ?ns = "node_names P g" and ?g' = "fst (remove_entity P n g)"
  let ?gr' = "pg_remove_node P i (eg_graph g)"
  have v: "valid (eg_graph g)" and il: "i < length ?ns" and ni: "?ns ! i = n"
    using nodes_okD(1,3) [OF ok] i by auto
  have d: "distinct ?ns" by (rule nodes_okD(2) [OF ok])
  note names = remove_names [OF ok i]
  have ns': "pg_nodes P ?gr' = swap_remove i ?ns"
    using nodes_remove [OF v, of i] il by (simp add: node_names_def)
  have len: "length (swap_remove i ?ns) = length ?ns - 1" by (simp add: length_swap_remove)
  have dr: "distinct (map fst (rel_entries P ?g'))"
  proof -
    have "mset (map fst (rel_entries P ?g')) =
        mset (map fst (filter (\<lambda>((a, b, _), _). a \<noteq> n \<and> b \<noteq> n) (rel_entries P g)))"
      by (simp only: mset_map remove_rel_entries [OF ok i])
    moreover have "distinct (map fst (filter (\<lambda>((a, b, _), _). a \<noteq> n \<and> b \<noteq> n) (rel_entries P g)))"
      using nodes_okD(5) [OF ok] by (rule distinct_map_filter)
    ultimately show ?thesis using mset_eq_imp_distinct_iff by blast
  qed
  have nw: "node_weight P ?gr' i = (if i < length ?ns - 1 then Some (last ?ns) else None)"
    using il by (auto simp: node_weight_def ns' len nth_swap_remove)
  have last: "last ?ns = ?ns ! (length ?ns - 1)" using il by (intro last_conv_nth) auto
  have maps: "eg_entity_to_node ?g' m = Some j \<longleftrightarrow> j < length ?ns - 1 \<and> swap_remove i ?ns ! j = m"
       "eg_node_to_entity ?g' j = Some m \<longleftrightarrow> j < length ?ns - 1 \<and> swap_remove i ?ns ! j = m" for m j
  proof -
    have e2n: "eg_entity_to_node g m = Some j \<longleftrightarrow> j < length ?ns \<and> ?ns ! j = m" for m j
      by (rule nodes_okD(3) [OF ok])
    have n2e: "eg_node_to_entity g j = Some m \<longleftrightarrow> j < length ?ns \<and> ?ns ! j = m" for m j
      by (rule nodes_okD(4) [OF ok])
    have eqn: "?ns ! a = ?ns ! b \<longleftrightarrow> a = b" if "a < length ?ns" "b < length ?ns" for a b
      using that d by (simp add: nth_eq_iff_index_eq)
    let ?l = "length ?ns - 1"
    have e2nl: "eg_entity_to_node g (?ns ! ?l) = Some ?l" using il e2n by simp
    have nth: "swap_remove i ?ns ! j = (if j = i then ?ns ! ?l else ?ns ! j)" if "j < ?l" for j
      using il that by (simp add: nth_swap_remove last)
    show "eg_entity_to_node ?g' m = Some j \<longleftrightarrow> j < ?l \<and> swap_remove i ?ns ! j = m"
    proof (cases "i < ?l")
      case True
      then have E: "eg_entity_to_node ?g' = (eg_entity_to_node g)(n := None, ?ns ! ?l \<mapsto> i)"
        by (simp add: remove_entity_def Let_def i nw last)
      show ?thesis
      proof (cases "m = ?ns ! ?l")
        case True
        then show ?thesis using E \<open>i < ?l\<close> nth [of j] eqn [of j ?l] il by (cases "j = i") auto
      next
        case False
        then show ?thesis using E \<open>i < ?l\<close> nth [of j] eqn [of j i] e2n [of m j] ni il
          by (cases "j = ?l") auto
      qed
    next
      case False
      then have il': "i = ?l" using il by simp
      have E: "eg_entity_to_node ?g' = (eg_entity_to_node g)(n := None)"
        using False by (simp add: remove_entity_def Let_def i nw)
      show ?thesis using E il' nth [of j] eqn [of j i] e2n [of m j] ni il
        by (cases "j = ?l") auto
    qed
    show "eg_node_to_entity ?g' j = Some m \<longleftrightarrow> j < ?l \<and> swap_remove i ?ns ! j = m"
    proof (cases "i < ?l")
      case True
      then have "?ns ! ?l \<noteq> n" using ni il d by (auto simp: nth_eq_iff_index_eq)
      with True have N: "eg_node_to_entity ?g' = (eg_node_to_entity g)(i := None, ?l := None, i \<mapsto> ?ns ! ?l)"
        by (simp add: remove_entity_def Let_def i nw last e2nl [simplified])
      show ?thesis using N True nth [of j] n2e [of j m] il by (cases "j = i"; cases "j = ?l") auto
    next
      case False
      then have il': "i = ?l" using il by simp
      have N: "eg_node_to_entity ?g' = (eg_node_to_entity g)(i := None)"
        using False by (simp add: remove_entity_def Let_def i nw)
      show ?thesis using N il' nth [of j] n2e [of j m] il by (cases "j = ?l") auto
    qed
  qed
  have "valid (eg_graph ?g')"
    using valid_remove [OF v, of i] by (simp add: remove_entity_def i Let_def split: option.splits)
  with maps dr names show ?thesis
    by (simp add: nodes_ok_def length_swap_remove)
qed

section \<open>Preservation of the invariant\<close>

lemma graph_ok_set_entity:
  "graph_ok P valid g \<Longrightarrow> map_of (eg_entities g) n \<noteq> None \<Longrightarrow> ed_name e = n \<Longrightarrow>
     graph_ok P valid (g\<lparr>eg_entities := bt_insert n e (eg_entities g)\<rparr>)"
  by (auto simp: graph_ok_def entities_ok_def split: if_splits)

lemma graph_ok_set_mentions:
  "graph_ok P valid g \<Longrightarrow> bt_ok m \<Longrightarrow> graph_ok P valid (g\<lparr>eg_entity_mentions := m\<rparr>)"
  by (simp add: graph_ok_def entities_ok_def)

lemma graph_ok_set_aliases:
  "graph_ok P valid g \<Longrightarrow> ran m \<subseteq> dom (map_of (eg_entities g)) \<Longrightarrow>
     graph_ok P valid (g\<lparr>eg_alias_index := m\<rparr>)"
  by (simp add: graph_ok_def entities_ok_def)

lemma graph_ok_new_entity:
  assumes ok: "graph_ok P valid g" and new: "map_of (eg_entities g) n = None" and e: "ed_name e = n"
  shows "graph_ok P valid (add_named_node P n (g\<lparr>eg_entities := bt_insert n e (eg_entities g)\<rparr>))"
proof -
  let ?g = "g\<lparr>eg_entities := bt_insert n e (eg_entities g)\<rparr>"
  have n: "nodes_ok P valid ?g" "n \<notin> set (node_names P ?g)"
    using graph_okD(1,3) [OF ok] new by (simp_all add: domIff)
  have "entities_ok ?g"
    using graph_okD(2) [OF ok] e by (auto simp: entities_ok_def)
  then have "entities_ok (add_named_node P n ?g)"
    by (simp add: entities_ok_def)
  then show ?thesis
    using add_named_node(1,2) [OF n] graph_okD(3,4) [OF ok] by (simp add: graph_ok_def)
qed

lemma graph_ok_remove:
  assumes ok: "graph_ok P valid g"
  shows "graph_ok P valid (fst (remove_entity P n g))"
proof (cases "eg_entity_to_node g n")
  case None
  then show ?thesis using ok by (simp add: remove_entity_def)
next
  case (Some i)
  note nok = graph_okD(1) [OF ok]
  have "entities_ok (fst (remove_entity P n g))"
    using graph_okD(2) [OF ok] Some
    by (fastforce simp: entities_ok_def ran_def split: if_splits)
  then show ?thesis
    using remove_nodes_ok [OF nok Some] remove_names(2) [OF nok Some] graph_okD(3,4) [OF ok] Some
    by (auto simp: graph_ok_def split: if_splits)
qed

lemma rel_map_remove:
  assumes ok: "graph_ok P valid g"
  shows "rel_map P (fst (remove_entity P n g)) (a, b, ty) =
    (if a = n \<or> b = n then None else rel_map P g (a, b, ty))"
proof (cases "eg_entity_to_node g n")
  case None
  then have "n \<notin> set (node_names P g)"
    using nodes_ok_None [OF graph_okD(1) [OF ok]] by simp
  then show ?thesis
    using rel_map_dom [OF graph_okD(1) [OF ok], of a b ty] None
    by (cases "rel_map P g (a, b, ty)") (auto simp: remove_entity_def)
next
  case (Some i)
  note nok = graph_okD(1) [OF ok]
  let ?p = "\<lambda>(a, b, _). a \<noteq> n \<and> b \<noteq> n"
  have "rel_map P (fst (remove_entity P n g)) = map_of (filter (\<lambda>(k, v). ?p k) (rel_entries P g))"
    unfolding rel_map_def
    using nodes_okD(5) [OF remove_nodes_ok [OF nok Some]] remove_rel_entries [OF nok Some]
    by (intro map_of_mset_eq) (simp_all add: case_prod_beta')
  then show ?thesis
    by (auto simp: rel_map_def map_of_filter_in map_of_eq_None_iff restrict_map_def
        map_of_filter_keys)
qed

section \<open>Adding entities and relations\<close>

lemma ensure_node_id: "graph_ok P valid g \<Longrightarrow> map_of (eg_entities g) n \<noteq> None \<Longrightarrow> ensure_node P n g = g"
  by (auto simp: ensure_node_def graph_ok_node)

lemma add_or_update_known:
  assumes ok: "graph_ok P valid g" and c: "resolve g w = Some c"
    and e: "map_of (eg_entities g) c = Some e"
  shows "add_or_update_entity P w ty t desc g =
    g\<lparr>eg_entities := bt_insert c (remention w t desc e) (eg_entities g)\<rparr>"
proof -
  have n: "ed_name (remention w t desc e) = c"
    using graph_okD(6) [OF ok e] by (simp add: remention_def Let_def)
  have "graph_ok P valid (g\<lparr>eg_entities := bt_insert c (remention w t desc e) (eg_entities g)\<rparr>)"
    using ok n e by (intro graph_ok_set_entity) simp_all
  then have "ensure_node P c (g\<lparr>eg_entities := bt_insert c (remention w t desc e) (eg_entities g)\<rparr>)
      = g\<lparr>eg_entities := bt_insert c (remention w t desc e) (eg_entities g)\<rparr>"
    using graph_okD(4) [OF ok] by (intro ensure_node_id) simp_all
  moreover have "add_or_update_entity P w ty t desc g =
      ensure_node P c (g\<lparr>eg_entities := bt_insert c (remention w t desc e) (eg_entities g)\<rparr>)"
    using c e by (cases e) (simp add: add_or_update_entity_def remention_def Let_def)
  ultimately show ?thesis by simp
qed

lemma add_or_update_new:
  assumes ok: "graph_ok P valid g" and c: "resolve g w = None"
  shows "add_or_update_entity P w ty t desc g =
    (add_named_node P w (g\<lparr>eg_entities := bt_insert w (new_entity w ty t desc) (eg_entities g)\<rparr>))
      \<lparr>eg_alias_index := or_insert (entity_key w) w (eg_alias_index g)\<rparr>"
proof -
  have "map_of (eg_entities g) w = None"
    using c by (simp add: resolve_def split: option.splits)
  then show ?thesis
    using c graph_okD(4) [OF ok]
    by (simp add: add_or_update_entity_def new_entity_def index_names_def)
qed

text \<open>Everything a client uses of \<open>add_or_update_entity\<close>.\<close>

lemma add_or_update:
  fixes w :: string and ty :: entity_type and t :: datetime and desc :: string
  assumes ok: "graph_ok P valid g"
  defines "c \<equiv> unwrap_or (resolve g w) w"
    and "g' \<equiv> add_or_update_entity P w ty t desc g"
  shows "graph_ok P valid g'"
    and "rel_map P g' = rel_map P g"
    and "map_of (eg_entities g') = (map_of (eg_entities g))(c \<mapsto>
           (case map_of (eg_entities g) c of
              None \<Rightarrow> new_entity w ty t desc | Some e \<Rightarrow> remention w t desc e))"
    and "eg_entity_mentions g' = eg_entity_mentions g"
    and "resolve g' w = Some c"
    and "resolve g n = Some d \<Longrightarrow> resolve g' n = Some d"
proof -
  note bt = graph_okD(4) [OF ok]
  have all: "graph_ok P valid g' \<and> rel_map P g' = rel_map P g \<and>
      map_of (eg_entities g') = (map_of (eg_entities g))(c \<mapsto>
        (case map_of (eg_entities g) c of
              None \<Rightarrow> new_entity w ty t desc | Some e \<Rightarrow> remention w t desc e)) \<and>
      eg_entity_mentions g' = eg_entity_mentions g \<and> resolve g' w = Some c \<and>
      (resolve g n = Some d \<longrightarrow> resolve g' n = Some d)"
  proof (cases "resolve g w")
    case None
    then have new: "map_of (eg_entities g) w = None" and key: "eg_alias_index g (entity_key w) = None"
      by (simp_all add: resolve_def split: option.splits)
    let ?e = "new_entity w ty t desc"
    let ?g1 = "add_named_node P w (g\<lparr>eg_entities := bt_insert w ?e (eg_entities g)\<rparr>)"
    have g': "g' = ?g1\<lparr>eg_alias_index := or_insert (entity_key w) w (eg_alias_index g)\<rparr>"
      unfolding g'_def by (rule add_or_update_new [OF ok None])
    have ok1: "graph_ok P valid ?g1"
      using ok new by (rule graph_ok_new_entity) (simp add: new_entity_def)
    have "graph_ok P valid g'"
      unfolding g' using ok1 bt graph_okD(7) [OF ok]
      by (intro graph_ok_set_aliases) (auto simp: or_insert_def ran_def split: option.splits if_splits)
    moreover have "rel_map P g' = rel_map P g"
      unfolding g' using add_named_node(3) [of "g\<lparr>eg_entities := bt_insert w ?e (eg_entities g)\<rparr>" w]
        graph_okD(1,3) [OF ok] new
      by (simp add: rel_map_def domIff)
    ultimately show ?thesis
      using None new key bt
      by (auto simp: g' c_def resolve_def or_insert_def split: option.splits if_splits)
  next
    case (Some x)
    then obtain e where e: "map_of (eg_entities g) x = Some e"
      using resolve_known [OF ok] by blast
    have g': "g' = g\<lparr>eg_entities := bt_insert x (remention w t desc e) (eg_entities g)\<rparr>"
      unfolding g'_def by (rule add_or_update_known [OF ok Some e])
    have "graph_ok P valid g'"
      unfolding g' using ok e graph_okD(6) [OF ok e]
      by (intro graph_ok_set_entity) (simp_all add: remention_def Let_def)
    moreover have "resolve g' n = resolve g n" for n
      using e bt by (auto simp: g' resolve_def split: option.splits)
    ultimately show ?thesis
      using Some e bt by (simp add: g' c_def)
  qed
  then show "graph_ok P valid g'" "rel_map P g' = rel_map P g"
    "map_of (eg_entities g') = (map_of (eg_entities g))(c \<mapsto>
           (case map_of (eg_entities g) c of
              None \<Rightarrow> new_entity w ty t desc | Some e \<Rightarrow> remention w t desc e))"
    "eg_entity_mentions g' = eg_entity_mentions g" "resolve g' w = Some c"
    "resolve g n = Some d \<Longrightarrow> resolve g' n = Some d"
    by simp_all
qed

lemma get_or_create:
  fixes n :: string and ty :: entity_type and t :: datetime
  assumes ok: "graph_ok P valid g"
  defines "c \<equiv> unwrap_or (resolve g n) n"
    and "g' \<equiv> fst (get_or_create_node P n ty t g)"
    and "i \<equiv> snd (get_or_create_node P n ty t g)"
  shows "graph_ok P valid g'"
    and "rel_map P g' = rel_map P g"
    and "eg_entity_to_node g' c = Some i"
    and "resolve g' n = Some c"
    and "eg_entity_mentions g' = eg_entity_mentions g"
    and "resolve g m = Some d \<Longrightarrow> resolve g' m = Some d"
    and "resolve g n \<noteq> None \<Longrightarrow> g' = g"
    and "dom (map_of (eg_entities g')) = insert c (dom (map_of (eg_entities g)))"
proof -
  have all: "graph_ok P valid g' \<and> rel_map P g' = rel_map P g \<and> eg_entity_to_node g' c = Some i \<and>
      resolve g' n = Some c \<and> eg_entity_mentions g' = eg_entity_mentions g \<and>
      (resolve g m = Some d \<longrightarrow> resolve g' m = Some d) \<and> (resolve g n \<noteq> None \<longrightarrow> g' = g) \<and>
      dom (map_of (eg_entities g')) = insert c (dom (map_of (eg_entities g)))"
  proof (cases "resolve g n")
    case (Some x)
    then have "map_of (eg_entities g) x \<noteq> None" using resolve_known [OF ok] by blast
    then obtain j where "eg_entity_to_node g x = Some j"
      using graph_ok_node [OF ok] by (metis not_Some_eq)
    then show ?thesis
      using ok Some resolve_known [OF ok Some]
      by (auto simp: g'_def i_def c_def get_or_create_node_def)
  next
    case None
    then have new: "map_of (eg_entities g) n = None" by (simp add: resolve_def split: option.splits)
    note A = add_or_update [where g = g and w = n and ty = ty and t = t and desc = "[]", OF ok]
    let ?g1 = "add_or_update_entity P n ty t [] g"
    have "map_of (eg_entities ?g1) n \<noteq> None" using A(3) None by simp
    then obtain j where j: "eg_entity_to_node ?g1 n = Some j"
      using graph_ok_node [OF A(1)] by (metis not_Some_eq)
    have "eg_entity_to_node g n = None" using new graph_ok_node [OF ok] by simp
    then have "get_or_create_node P n ty t g = (?g1, j)"
      using None j by (simp add: get_or_create_node_def)
    then show ?thesis
      using A(1,2,4,5) A(6) [where n = m and d = d] A(3) None j by (simp add: g'_def i_def c_def)
  qed
  then show "graph_ok P valid g'" "rel_map P g' = rel_map P g" "eg_entity_to_node g' c = Some i"
    "resolve g' n = Some c" "eg_entity_mentions g' = eg_entity_mentions g"
    "resolve g m = Some d \<Longrightarrow> resolve g' m = Some d" "resolve g n \<noteq> None \<Longrightarrow> g' = g"
    "dom (map_of (eg_entities g')) = insert c (dom (map_of (eg_entities g)))"
    by simp_all
qed

lemma node_name: "graph_ok P valid g \<Longrightarrow> eg_entity_to_node g n = Some i \<Longrightarrow>
    i < length (node_names P g) \<and> node_names P g ! i = n"
  using nodes_okD(3) [OF graph_okD(1)] by blast

lemma add_or_update_nodes:
  assumes ok: "graph_ok P valid g"
  shows "\<exists>xs. node_names P (add_or_update_entity P w ty t desc g) = node_names P g @ xs"
proof (cases "resolve g w")
  case None
  then have "map_of (eg_entities g) w = None" by (simp add: resolve_def split: option.splits)
  then show ?thesis
    using graph_okD(1,3) [OF ok]
    by (simp add: add_or_update_new [OF ok None] add_named_node(2) domIff)
next
  case (Some c)
  then obtain e where "map_of (eg_entities g) c = Some e" using resolve_known [OF ok] by blast
  then show ?thesis by (simp add: add_or_update_known [OF ok Some])
qed

lemma get_or_create_stable:
  assumes ok: "graph_ok P valid g" and a: "eg_entity_to_node g a = Some i"
  shows "eg_entity_to_node (fst (get_or_create_node P n ty t g)) a = Some i"
proof -
  let ?g' = "fst (get_or_create_node P n ty t g)"
  let ?c = "unwrap_or (resolve g n) n"
  have "\<exists>xs. node_names P ?g' = node_names P g @ xs"
  proof (cases "eg_entity_to_node g ?c")
    case None
    have "map_of (eg_entities g) ?c = None" using None graph_ok_node [OF ok] by simp
    then have "resolve g n = None" using resolve_known [OF ok, of n] by (cases "resolve g n") auto
    then have "?g' = add_or_update_entity P n ty t [] g"
      using get_or_create(3) [where g = g and n = n and ty = ty and t = t, OF ok]
        add_or_update(3) [where g = g and w = n and ty = ty and t = t and desc = "[]", OF ok]
        graph_ok_node [OF add_or_update(1) [where g = g and w = n and ty = ty and t = t and desc = "[]", OF ok], of n] None
      by (auto simp: get_or_create_node_def split: option.splits)
    then show ?thesis using add_or_update_nodes [OF ok] by simp
  qed (simp add: get_or_create_node_def)
  then show ?thesis
    using nodes_okD(3) [OF graph_okD(1) [OF get_or_create(1) [where g = g and n = n and ty = ty and t = t, OF ok]], of a i]
      node_name [OF ok a]
    by (auto simp: nth_append)
qed

lemma node_unique: "graph_ok P valid g \<Longrightarrow> eg_entity_to_node g a = Some i \<Longrightarrow>
    eg_entity_to_node g b = Some i \<Longrightarrow> a = b"
  using node_name by blast

lemma rel_entry_edge:
  "rel_entry ns (edge_triple e) =
     ((ns ! er_source e, ns ! er_target e, ew_relation_type (er_weight e)), ew_context (er_weight e))"
  by (simp add: rel_entry_def edge_triple_def)

lemma set_rel_entries:
  "set (rel_entries P g) = (\<lambda>e. ((node_names P g ! er_source e, node_names P g ! er_target e,
      ew_relation_type (er_weight e)), ew_context (er_weight e))) ` set (pg_edges P (eg_graph g))"
  by (auto simp: rel_entries_def node_names_def rel_entry_edge)

text \<open>Both ways \<open>add_relationship\<close> ends: a new edge, or the context of an old one.\<close>

lemma new_edge:
  fixes c :: string
  assumes ok: "graph_ok P valid g" and a: "eg_entity_to_node g a = Some i" and b: "eg_entity_to_node g b = Some j"
    and new: "\<forall>e \<in> set (pg_edges_connecting P i j (eg_graph g)). ew_relation_type (er_weight e) \<noteq> ty"
  defines "g' \<equiv> g\<lparr>eg_graph := pg_add_edge P i j \<lparr>ew_relation_type = ty, ew_context = c\<rparr> (eg_graph g)\<rparr>"
  shows "graph_ok P valid g' \<and> rel_map P g' = (rel_map P g)((a, b, ty) \<mapsto> c)"
proof -
  let ?w = "\<lparr>ew_relation_type = ty, ew_context = c\<rparr>"
  have v: "valid (eg_graph g)" by (rule nodes_okD(1) [OF graph_okD(1) [OF ok]])
  have ij: "i < length (pg_nodes P (eg_graph g))" "j < length (pg_nodes P (eg_graph g))"
    and nm: "node_names P g ! i = a" "node_names P g ! j = b"
    using node_name [OF ok a] node_name [OF ok b] by (auto simp: node_names_def)
  have names: "node_names P g' = node_names P g"
    by (simp add: g'_def node_names_def nodes_add_edge [OF v ij])
  have rels: "rel_entries P g' = rel_entries P g @ [((a, b, ty), c)]"
    using nm by (simp add: rel_entries_def g'_def nodes_add_edge [OF v ij] edges_add_edge [OF v ij]
        rel_entry_edge node_names_def)
  have fresh: "(a, b, ty) \<notin> fst ` set (rel_entries P g)"
  proof
    assume "(a, b, ty) \<in> fst ` set (rel_entries P g)"
    then obtain e where e: "e \<in> set (pg_edges P (eg_graph g))" "node_names P g ! er_source e = a"
        "node_names P g ! er_target e = b" "ew_relation_type (er_weight e) = ty"
      by (auto simp: set_rel_entries)
    then have "er_source e = i" "er_target e = j"
      using edge_in_range [OF graph_okD(1) [OF ok] e(1)] nodes_okD(2) [OF graph_okD(1) [OF ok]]
        ij nm nth_eq_iff_index_eq by (auto simp: node_names_def)
    then show False using new e by (auto simp: set_connecting [OF v])
  qed
  have "nodes_ok P valid g'"
    unfolding nodes_ok_def names rels
    using nodes_okD [OF graph_okD(1) [OF ok]] fresh valid_add_edge [OF v ij, of ?w]
    by (simp add: g'_def)
  moreover have "eg_entities g' = eg_entities g" "eg_entity_mentions g' = eg_entity_mentions g"
    "eg_alias_index g' = eg_alias_index g"
    by (simp_all add: g'_def)
  ultimately have "graph_ok P valid g'"
    using ok by (simp add: graph_ok_def names entities_ok_def)
  moreover have "rel_map P g' = (rel_map P g)((a, b, ty) \<mapsto> c)"
    using fresh by (auto simp: rel_map_def rels map_add_def fun_eq_iff map_of_eq_None_iff [symmetric]
        split: option.splits)
  ultimately show ?thesis ..
qed

lemma set_edge_context:
  fixes c :: string
  assumes ok: "graph_ok P valid g" and a: "eg_entity_to_node g a = Some i" and b: "eg_entity_to_node g b = Some j"
    and e: "e \<in> set (pg_edges_connecting P i j (eg_graph g))"
  defines "g' \<equiv> g\<lparr>eg_graph := pg_set_edge_weight P (er_id e) ((er_weight e)\<lparr>ew_context := c\<rparr>) (eg_graph g)\<rparr>"
  shows "graph_ok P valid g' \<and>
    rel_map P g' = (rel_map P g)((a, b, ew_relation_type (er_weight e)) \<mapsto> c)"
proof -
  let ?f = "\<lambda>x. if er_id x = er_id e then x\<lparr>er_weight := (er_weight e)\<lparr>ew_context := c\<rparr>\<rparr> else x"
  let ?k = "(a, b, ew_relation_type (er_weight e))"
  have v: "valid (eg_graph g)" by (rule nodes_okD(1) [OF graph_okD(1) [OF ok]])
  have e': "e \<in> set (pg_edges P (eg_graph g))" "er_source e = i" "er_target e = j"
    using e by (auto simp: set_connecting [OF v])
  have nm: "node_names P g ! i = a" "node_names P g ! j = b"
    using node_name [OF ok a] node_name [OF ok b] by auto
  have names: "node_names P g' = node_names P g"
    by (simp add: g'_def node_names_def nodes_set_weight [OF v])
  have dk: "distinct (map fst (rel_entries P g))" by (rule nodes_okD(5) [OF graph_okD(1) [OF ok]])
  have one: "er_id x = er_id e \<longleftrightarrow> fst (rel_entry (node_names P g) (edge_triple x)) = ?k"
    if x: "x \<in> set (pg_edges P (eg_graph g))" for x
  proof
    assume "er_id x = er_id e"
    then have "x = e" using edge_id_inj [OF v x e'(1)] by blast
    then show "fst (rel_entry (node_names P g) (edge_triple x)) = ?k"
      using e' nm by (simp add: rel_entry_edge)
  next
    assume k: "fst (rel_entry (node_names P g) (edge_triple x)) = ?k"
    have "fst (rel_entry (node_names P g) (edge_triple e)) = ?k"
      using e' nm by (simp add: rel_entry_edge)
    moreover have "inj_on (\<lambda>x. fst (rel_entry (node_names P g) (edge_triple x))) (set (pg_edges P (eg_graph g)))"
      using dk by (simp add: rel_entries_def node_names_def distinct_map o_def comp_inj_on_iff [symmetric])
    ultimately show "er_id x = er_id e" using k x e'(1) by (metis (no_types, lifting) inj_onD)
  qed
  have rels: "rel_entries P g' = map (\<lambda>(k, v). (k, if k = ?k then c else v)) (rel_entries P g)"
    unfolding rel_entries_def g'_def
    using one e' edge_id_inj [OF v _ e'(1)]
    by (auto simp: nodes_set_weight [OF v] edges_set_weight [OF v] node_names_def [symmetric] rel_entry_edge)
  have keys: "map fst (rel_entries P g') = map fst (rel_entries P g)"
    by (simp add: rels case_prod_beta' comp_def)
  have "nodes_ok P valid g'"
    unfolding nodes_ok_def names keys
    using nodes_okD [OF graph_okD(1) [OF ok]] valid_set_weight [OF v]
    by (simp add: g'_def)
  moreover have "eg_entities g' = eg_entities g" "eg_entity_mentions g' = eg_entity_mentions g"
    "eg_alias_index g' = eg_alias_index g"
    by (simp_all add: g'_def)
  ultimately have "graph_ok P valid g'"
    using ok by (simp add: graph_ok_def names entities_ok_def)
  moreover have "?k \<in> fst ` set (rel_entries P g)"
    using e' nm by (auto simp: set_rel_entries intro!: image_eqI)
  then have "rel_map P g' = (rel_map P g)(?k \<mapsto> c)"
    unfolding rel_map_def rels by (rule map_of_map_one)
  ultimately show ?thesis ..
qed

lemma add_relationship:
  fixes t :: datetime and r :: entity_relationship
  assumes ok: "graph_ok P valid g"
  defines "g' \<equiv> add_relationship P t r g"
  shows "graph_ok P valid g'"
    and "\<exists>a b. resolve g' (er_from_entity r) = Some a \<and> resolve g' (er_to_entity r) = Some b \<and>
      rel_map P g' = (if a = b \<and> er_from_entity r \<noteq> er_to_entity r then rel_map P g
        else (rel_map P g)((a, b, er_relation_type r) \<mapsto> er_context r))"
    and "eg_entity_mentions g' = eg_entity_mentions g"
    and "resolve g m = Some d \<Longrightarrow> resolve g' m = Some d"
    and "resolve g (er_from_entity r) \<noteq> None \<Longrightarrow> resolve g (er_to_entity r) \<noteq> None \<Longrightarrow>
      eg_entities g' = eg_entities g \<and> eg_alias_index g' = eg_alias_index g"
    and "dom (map_of (eg_entities g)) \<subseteq> dom (map_of (eg_entities g'))"
proof -
  let ?f = "er_from_entity r" and ?t = "er_to_entity r" and ?ty = "er_relation_type r"
  obtain g1 i where g1: "get_or_create_node P ?f Concept t g = (g1, i)" by fastforce
  obtain g2 j where g2: "get_or_create_node P ?t Concept t g1 = (g2, j)" by fastforce
  define a where "a = unwrap_or (resolve g ?f) ?f"
  define b where "b = unwrap_or (resolve g1 ?t) ?t"
  note A = get_or_create [where g = g and n = ?f and ty = Concept and t = t, OF ok, unfolded g1 fst_conv snd_conv,
    folded a_def]
  note B = get_or_create [where g = g1 and n = ?t and ty = Concept and t = t, OF A(1), unfolded g2 fst_conv snd_conv,
    folded b_def]
  have res: "resolve g2 ?f = Some a" "resolve g2 ?t = Some b" "rel_map P g2 = rel_map P g"
    using A B by auto
  have i: "eg_entity_to_node g2 a = Some i"
    using get_or_create_stable [OF A(1) A(3), of ?t Concept t] by (simp add: g2)
  note j = B(3)
  have ij: "i = j \<longleftrightarrow> a = b" using node_unique [OF B(1), of a i b] i j by auto
  define E where "E = List.find (\<lambda>e. ew_relation_type (er_weight e) = ?ty) (pg_edges_connecting P i j (eg_graph g2))"
  have "graph_ok P valid g' \<and> rel_map P g' = (if a = b \<and> ?f \<noteq> ?t then rel_map P g
        else (rel_map P g)((a, b, ?ty) \<mapsto> er_context r)) \<and>
      eg_entities g' = eg_entities g2 \<and> eg_alias_index g' = eg_alias_index g2 \<and>
      eg_entity_mentions g' = eg_entity_mentions g2"
  proof (cases "a = b \<and> ?f \<noteq> ?t")
    case True
    then have "g' = g2" using ij by (simp add: g'_def add_relationship_def g1 g2)
    then show ?thesis using B(1) res True by simp
  next
    case False
    show ?thesis
    proof (cases E)
      case None
      then have "g' = g2\<lparr>eg_graph := pg_add_edge P i j
          \<lparr>ew_relation_type = ?ty, ew_context = er_context r\<rparr> (eg_graph g2)\<rparr>"
        using False ij by (auto simp: g'_def add_relationship_def g1 g2 E_def [symmetric])
      moreover have "\<forall>e \<in> set (pg_edges_connecting P i j (eg_graph g2)). ew_relation_type (er_weight e) \<noteq> ?ty"
        using None by (auto simp: E_def find_None_iff)
      ultimately show ?thesis
        using new_edge [OF B(1) i j, of ?ty "er_context r"] res False by auto
    next
      case (Some e)
      then have e: "e \<in> set (pg_edges_connecting P i j (eg_graph g2))" "ew_relation_type (er_weight e) = ?ty"
        by (auto simp: E_def find_Some_iff)
      have "g' = g2\<lparr>eg_graph := pg_set_edge_weight P (er_id e)
          ((er_weight e)\<lparr>ew_context := er_context r\<rparr>) (eg_graph g2)\<rparr>"
        using False ij Some by (auto simp: g'_def add_relationship_def g1 g2 E_def [symmetric])
      then show ?thesis
        using set_edge_context [OF B(1) i j e(1), of "er_context r"] e(2) res False by auto
    qed
  qed
  note C = this
  have same: "resolve g' n = resolve g2 n" for n using C by (simp add: resolve_def split: option.split)
  show "graph_ok P valid g'" using C by blast
  show "\<exists>a b. resolve g' ?f = Some a \<and> resolve g' ?t = Some b \<and>
      rel_map P g' = (if a = b \<and> ?f \<noteq> ?t then rel_map P g else (rel_map P g)((a, b, ?ty) \<mapsto> er_context r))"
    unfolding same res using C by blast
  show "eg_entity_mentions g' = eg_entity_mentions g" using C A(5) B(5) by simp
  show "resolve g m = Some d \<Longrightarrow> resolve g' m = Some d" unfolding same using A(6) B(6) by blast
  show "dom (map_of (eg_entities g)) \<subseteq> dom (map_of (eg_entities g'))" using A(8) B(8) C by auto
  assume "resolve g ?f \<noteq> None" "resolve g ?t \<noteq> None"
  then show "eg_entities g' = eg_entities g \<and> eg_alias_index g' = eg_alias_index g"
    using A(7) B(7) C by simp
qed

section \<open>Reading relations\<close>

lemma relation_ref_edge:
  "nodes_ok P valid g \<Longrightarrow> e \<in> set (pg_edges P (eg_graph g)) \<Longrightarrow>
     relation_ref P g e =
       Some \<lparr>er_from_entity = node_names P g ! er_source e, er_to_entity = node_names P g ! er_target e,
             er_relation_type = ew_relation_type (er_weight e), er_context = ew_context (er_weight e)\<rparr>"
  using edge_in_range [of g e] by (simp add: relation_ref_def node_weight_def node_names_def)

lemma map_filter_relation_ref:
  assumes "nodes_ok P valid g" "set es \<subseteq> set (pg_edges P (eg_graph g))"
  shows "map rel_pair (List.map_filter (relation_ref P g) es) =
    map (\<lambda>e. rel_entry (node_names P g) (edge_triple e)) es"
  using assms(2)
  by (induction es) (simp_all add: map_filter_simps relation_ref_edge [OF assms(1)] rel_pair_def rel_key_def rel_entry_edge)

lemma relationships_entries:
  "nodes_ok P valid g \<Longrightarrow> map rel_pair (relationships P g) = rel_entries P g"
  by (simp add: relationships_def map_filter_relation_ref rel_entries_def node_names_def)

lemma mem_relationships:
  assumes ok: "nodes_ok P valid g"
  shows "r \<in> set (relationships P g) \<longleftrightarrow> rel_map P g (rel_key r) = Some (er_context r)"
proof -
  have "r \<in> set (relationships P g) \<longleftrightarrow> rel_pair r \<in> set (map rel_pair (relationships P g))"
    using inj_rel_pair by (auto simp: inj_image_mem_iff)
  also have "\<dots> \<longleftrightarrow> rel_map P g (rel_key r) = Some (er_context r)"
    using nodes_okD(5) [OF ok] by (simp add: relationships_entries [OF ok] rel_map_def rel_pair_def)
  finally show ?thesis .
qed

lemma mem_relations_of_edges:
  assumes ok: "graph_ok P valid g"
    and es: "\<And>e. e \<in> set es \<longleftrightarrow> e \<in> set (pg_edges P (eg_graph g)) \<and> p (er_source e) (er_target e)"
    and pq: "\<And>i j. i < length (node_names P g) \<Longrightarrow> j < length (node_names P g) \<Longrightarrow>
      p i j \<longleftrightarrow> q (node_names P g ! i) (node_names P g ! j)"
  shows "r \<in> set (List.map_filter (relation_ref P g) es) \<longleftrightarrow>
    rel_map P g (rel_key r) = Some (er_context r) \<and> q (er_from_entity r) (er_to_entity r)"
proof -
  note nok = graph_okD(1) [OF ok]
  have "r \<in> set (List.map_filter (relation_ref P g) es) \<longleftrightarrow>
      (\<exists>e \<in> set es. relation_ref P g e = Some r)"
    by (auto simp: map_filter_def split: option.splits intro!: image_eqI)
  also have "\<dots> \<longleftrightarrow> (\<exists>e \<in> set (pg_edges P (eg_graph g)). relation_ref P g e = Some r) \<and>
      q (er_from_entity r) (er_to_entity r)"
    using edge_in_range [OF nok] by (auto simp: es pq relation_ref_edge [OF nok])
  also have "(\<exists>e \<in> set (pg_edges P (eg_graph g)). relation_ref P g e = Some r) \<longleftrightarrow> r \<in> set (relationships P g)"
    by (auto simp: relationships_def map_filter_def split: option.splits intro!: image_eqI)
  finally show ?thesis by (simp add: mem_relationships [OF nok])
qed

lemma mem_relationships_of:
  assumes ok: "graph_ok P valid g"
  shows "r \<in> set (relationships_of P g n) \<longleftrightarrow>
    rel_map P g (rel_key r) = Some (er_context r) \<and> (er_from_entity r = n \<or> er_to_entity r = n)"
proof (cases "eg_entity_to_node g n")
  case None
  then have "n \<notin> set (node_names P g)" using nodes_ok_None [OF graph_okD(1) [OF ok]] by simp
  then show ?thesis
    using None rel_map_dom [OF graph_okD(1) [OF ok], of "er_from_entity r" "er_to_entity r" "er_relation_type r"]
    by (auto simp: relationships_of_def rel_key_def)
next
  case (Some i)
  note v = nodes_okD(1) [OF graph_okD(1) [OF ok]]
  note d = nodes_okD(2) [OF graph_okD(1) [OF ok]]
  have n: "i < length (node_names P g)" "node_names P g ! i = n" using node_name [OF ok Some] by auto
  show ?thesis
    unfolding relationships_of_def Some option.case
    by (rule mem_relations_of_edges [OF ok, where p = "\<lambda>a b. a = i \<or> b = i"])
      (use n d in \<open>auto simp: set_directed [OF v] nth_eq_iff_index_eq\<close>)
qed

lemma mem_relation_between:
  assumes ok: "graph_ok P valid g"
  shows "r \<in> set (relation_between P g a b) \<longleftrightarrow>
    rel_map P g (rel_key r) = Some (er_context r) \<and>
    (er_from_entity r = a \<and> er_to_entity r = b \<or> er_from_entity r = b \<and> er_to_entity r = a)"
proof (cases "eg_entity_to_node g a = None \<or> eg_entity_to_node g b = None")
  case True
  then have "a \<notin> set (node_names P g) \<or> b \<notin> set (node_names P g)"
    using nodes_ok_None [OF graph_okD(1) [OF ok]] by auto
  then show ?thesis
    using True rel_map_dom [OF graph_okD(1) [OF ok], of "er_from_entity r" "er_to_entity r" "er_relation_type r"]
    by (auto simp: relation_between_def rel_key_def split: option.splits)
next
  case False
  then obtain i j where ij: "eg_entity_to_node g a = Some i" "eg_entity_to_node g b = Some j" by auto
  note v = nodes_okD(1) [OF graph_okD(1) [OF ok]]
  note d = nodes_okD(2) [OF graph_okD(1) [OF ok]]
  have n: "i < length (node_names P g)" "node_names P g ! i = a" "j < length (node_names P g)" "node_names P g ! j = b"
    using node_name [OF ok ij(1)] node_name [OF ok ij(2)] by auto
  have L: "relation_between P g a b = List.map_filter (relation_ref P g)
      (pg_edges_connecting P i j (eg_graph g) @
        (if i \<noteq> j then pg_edges_connecting P j i (eg_graph g) else []))"
    by (simp add: relation_between_def ij map_filter_def)
  show ?thesis
    unfolding L
    by (rule mem_relations_of_edges [OF ok, where p = "\<lambda>s t. s = i \<and> t = j \<or> s = j \<and> t = i"])
      (use n d in \<open>auto simp: set_connecting [OF v] nth_eq_iff_index_eq\<close>)
qed

lemma distinct_relationships_of:
  assumes ok: "graph_ok P valid g"
  shows "distinct (map rel_key (relationships_of P g n))"
proof (cases "eg_entity_to_node g n")
  case (Some i)
  note v = nodes_okD(1) [OF graph_okD(1) [OF ok]]
  let ?es = "pg_edges_directed P Outgoing i (eg_graph g) @
    filter (\<lambda>e. er_source e \<noteq> i) (pg_edges_directed P Incoming i (eg_graph g))"
  let ?ms = "filter (\<lambda>e. er_source e = i \<or> er_target e = i) (pg_edges P (eg_graph g))"
  let ?k = "\<lambda>e. fst (rel_entry (node_names P g) (edge_triple e))"
  have "mset ?es = filter_mset (\<lambda>e. er_source e = i) (mset (pg_edges P (eg_graph g))) +
      filter_mset (\<lambda>e. er_source e \<noteq> i) (filter_mset (\<lambda>e. er_target e = i) (mset (pg_edges P (eg_graph g))))"
    using directed [OF v, of Outgoing i] directed [OF v, of Incoming i] by simp
  also have "\<dots> = mset ?ms"
    by (auto simp: multiset_eq_iff)
  finally have ms: "mset ?es = mset ?ms" .
  have "set ?es \<subseteq> set (pg_edges P (eg_graph g))" by (auto simp: set_directed [OF v])
  then have "map rel_key (List.map_filter (relation_ref P g) ?es) = map ?k ?es"
    using arg_cong [OF map_filter_relation_ref [OF graph_okD(1) [OF ok], of ?es], of "map fst"]
    by (simp add: rel_pair_def o_def)
  moreover have "distinct (map ?k ?ms)"
    using nodes_okD(5) [OF graph_okD(1) [OF ok]]
    by (simp add: rel_entries_def node_names_def o_def) (rule distinct_map_filter)
  then have "distinct (map ?k ?es)"
    using ms by (metis (no_types, lifting) mset_eq_imp_distinct_iff mset_map)
  ultimately show ?thesis
    by (simp add: relationships_of_def Some)
qed (simp add: relationships_of_def)

end

end
