(* ===== verification/Entity_Graph_Ops.thy ===== *)
theory Entity_Graph_Ops
  imports Entity_Graph_Inv
begin

text \<open>
  The composite operations of the entity graph: sequences of relations, merging of entities
  and of graphs, mention links, applying a record. Each keeps the invariant, and the effect
  of a merge is stated on the abstract map of relations.
\<close>

section \<open>Aliases\<close>

lemma or_insert_apply:
  "or_insert k v m k' = (if k' = k \<and> m k = None then Some v else m k')"
  by (auto simp: or_insert_def split: option.splits)

lemma fold_or_insert:
  "fold (\<lambda>k. or_insert k v) ks m k' = (if m k' = None \<and> k' \<in> set ks then Some v else m k')"
  by (induction ks arbitrary: m) (auto simp: or_insert_apply)

lemma fold_map_upd:
  "fold (\<lambda>k m. m(k \<mapsto> v)) ks m k' = (if k' \<in> set ks then Some v else m k')"
  by (induction ks arbitrary: m) auto

lemma set_extend_new [simp]: "set (extend_new ids xs) = set ids \<union> set xs"
  by (induction ids xs rule: extend_new.induct) auto

lemma distinct_extend_new: "distinct ids \<Longrightarrow> distinct (extend_new ids xs)"
  by (induction ids xs rule: extend_new.induct) auto

lemma set_merged_aliases: "set (merged_aliases n as new) = set as \<union> (set new - {n})"
  by (induction new arbitrary: as) (auto simp: merged_aliases_def)

lemma distinct_merged_aliases: "distinct as \<Longrightarrow> distinct (merged_aliases n as new)"
  by (induction new arbitrary: as) (simp_all add: merged_aliases_def)

text \<open>
  The operations that only add: the entities stay, and a name that resolves keeps resolving
  to the same entity.
\<close>

definition graph_ext :: "'g entity_graph \<Rightarrow> 'g entity_graph \<Rightarrow> bool" where
  "graph_ext g g' \<longleftrightarrow>
     dom (map_of (eg_entities g)) \<subseteq> dom (map_of (eg_entities g')) \<and>
     (\<forall>m d. resolve g m = Some d \<longrightarrow> resolve g' m = Some d)"

lemma graph_ext_refl [simp]: "graph_ext g g"
  by (simp add: graph_ext_def)

lemma graph_ext_trans: "graph_ext g g' \<Longrightarrow> graph_ext g' g'' \<Longrightarrow> graph_ext g g''"
  unfolding graph_ext_def by blast

text \<open>
  The relations after entity \<open>a\<close> is merged into \<open>b\<close>: those of \<open>a\<close> are now of \<open>b\<close> and win
  over the ones \<open>b\<close> had, those between the two are gone except the ones \<open>b\<close> had to itself.
\<close>

definition merged_rel :: "(rel_key \<rightharpoonup> string) \<Rightarrow> string \<Rightarrow> string \<Rightarrow> rel_key \<rightharpoonup> string" where
  "merged_rel m a b = (\<lambda>(x, y, ty).
     if x = a \<or> y = a then None
     else if x = b \<and> y \<noteq> b then (case m (a, y, ty) of Some c \<Rightarrow> Some c | None \<Rightarrow> m (b, y, ty))
     else if y = b \<and> x \<noteq> b then (case m (x, a, ty) of Some c \<Rightarrow> Some c | None \<Rightarrow> m (x, b, ty))
     else m (x, y, ty))"

text \<open>The state of a merge before the relations are redirected.\<close>

definition merged_base :: "'g pg \<Rightarrow> string \<Rightarrow> string \<Rightarrow> 'g entity_graph \<Rightarrow> 'g entity_graph" where
  "merged_base P a b g =
     (let gone = the (map_of (eg_entities g) a);
          mentions = unwrap_or (map_of (eg_entity_mentions g) a) [];
          g1 = fst (remove_entity P a g);
          e = fold_entity gone (the (map_of (eg_entities g) b));
          g2 = g1\<lparr>eg_entities := bt_insert b e (eg_entities g1),
                  eg_alias_index := fold (\<lambda>k m. m(k \<mapsto> b)) (map entity_key (ed_name e # ed_aliases e)) (eg_alias_index g1)\<rparr>
      in if mentions = [] then g2
         else g2\<lparr>eg_entity_mentions := bt_insert b
           (extend_new (unwrap_or (map_of (eg_entity_mentions g1) b) []) mentions) (eg_entity_mentions g1)\<rparr>)"

text \<open>A mention list holds each record once, in the order of the links.\<close>

definition add_id :: "'a \<Rightarrow> 'a list \<Rightarrow> 'a list" where
  "add_id x xs = (if x \<in> set xs then xs else xs @ [x])"

lemma set_add_id [simp]: "set (add_id x xs) = insert x (set xs)"
  by (auto simp: add_id_def)

lemma distinct_add_id [simp]: "distinct (add_id x xs) = distinct xs"
  by (simp add: add_id_def)

lemma set_fold_add_id [simp]: "set (fold add_id xs ys) = set ys \<union> set xs"
  by (induction xs arbitrary: ys) auto

lemma distinct_fold_add_id: "distinct ys \<Longrightarrow> distinct (fold add_id xs ys)"
  by (induction xs arbitrary: ys) auto

text \<open>A relation is held when both ends are known and, unless they are two spellings of one
  entity, an edge of its type joins them.\<close>

definition holds_relation :: "'g pg \<Rightarrow> 'g entity_graph \<Rightarrow> entity_relationship \<Rightarrow> bool" where
  "holds_relation P g r \<longleftrightarrow>
     (\<exists>a b. resolve g (er_from_entity r) = Some a \<and> resolve g (er_to_entity r) = Some b \<and>
        (a \<noteq> b \<or> er_from_entity r = er_to_entity r \<longrightarrow> (a, b, er_relation_type r) \<in> dom (rel_map P g)))"

section \<open>The empty graph\<close>

context entity_digraph
begin

lemma graph_ok_new: "graph_ok P valid (new_graph P)"
  by (simp add: graph_ok_def nodes_ok_def entities_ok_def new_graph_def node_names_def rel_entries_def
      nodes_new edges_new valid_new)

lemma clear_is_new: "clear_graph P g = new_graph P"
  by (simp add: clear_graph_def new_graph_def)

lemma rel_map_new: "rel_map P (new_graph P) = Map.empty"
  by (simp add: rel_map_def rel_entries_def new_graph_def edges_new)

section \<open>Indexing names\<close>

lemma index_names_fields [simp]:
  "eg_entities (index_names n g) = eg_entities g"
  "eg_entity_mentions (index_names n g) = eg_entity_mentions g"
  "eg_graph (index_names n g) = eg_graph g"
  "rel_map P (index_names n g) = rel_map P g"
  by (simp_all add: index_names_def split: option.splits)

lemma index_names_ok:
  assumes "graph_ok P valid g"
  shows "graph_ok P valid (index_names n g)"
proof (cases "map_of (eg_entities g) n")
  case (Some e)
  let ?ks = "map entity_key (ed_name e # ed_aliases e)"
  have "ran (fold (\<lambda>k. or_insert k n) ?ks (eg_alias_index g)) \<subseteq> dom (map_of (eg_entities g))"
  proof
    fix x assume "x \<in> ran (fold (\<lambda>k. or_insert k n) ?ks (eg_alias_index g))"
    then obtain k where "fold (\<lambda>k. or_insert k n) ?ks (eg_alias_index g) k = Some x"
      unfolding ran_def by blast
    then show "x \<in> dom (map_of (eg_entities g))"
      using Some graph_okD(7) [OF assms, of k x]
      unfolding fold_or_insert by (auto split: if_splits)
  qed
  then show ?thesis
    using graph_ok_set_aliases [OF assms] by (simp add: index_names_def Some)
qed (simp add: index_names_def assms)

lemma note_alias_fields [simp]:
  "eg_entity_mentions (note_alias n a g) = eg_entity_mentions g"
  "eg_graph (note_alias n a g) = eg_graph g"
  "rel_map P (note_alias n a g) = rel_map P g"
  by (simp_all add: note_alias_def Let_def split: option.splits)

lemma note_alias:
  assumes ok: "graph_ok P valid g"
  shows "graph_ok P valid (note_alias n a g)"
    and "dom (map_of (eg_entities (note_alias n a g))) = dom (map_of (eg_entities g))"
    and "resolve g m = Some d \<Longrightarrow> resolve (note_alias n a g) m = Some d"
proof -
  have "graph_ok P valid (note_alias n a g) \<and>
      dom (map_of (eg_entities (note_alias n a g))) = dom (map_of (eg_entities g)) \<and>
      (resolve g m = Some d \<longrightarrow> resolve (note_alias n a g) m = Some d)"
  proof (cases "resolve g n")
    case (Some c)
    then obtain e where e: "map_of (eg_entities g) c = Some e" using resolve_known [OF ok] by blast
    define g1 where "g1 = (if a \<noteq> ed_name e \<and> a \<notin> set (ed_aliases e)
      then g\<lparr>eg_entities := bt_insert c (e\<lparr>ed_aliases := ed_aliases e @ [a]\<rparr>) (eg_entities g)\<rparr> else g)"
    have na: "note_alias n a g = g1\<lparr>eg_alias_index := or_insert (entity_key a) c (eg_alias_index g)\<rparr>"
      by (simp add: note_alias_def Some e g1_def)
    have ok1: "graph_ok P valid g1"
      using ok e graph_okD(6) [OF ok e] by (auto simp: g1_def intro: graph_ok_set_entity)
    have dom1: "dom (map_of (eg_entities g1)) = dom (map_of (eg_entities g))"
      using e graph_okD(4) [OF ok] by (auto simp: g1_def)
    have "ran (or_insert (entity_key a) c (eg_alias_index g)) \<subseteq> dom (map_of (eg_entities g1))"
      using e graph_okD(7) [OF ok] unfolding dom1 by (auto simp: ran_def or_insert_apply split: if_splits)
    then have "graph_ok P valid (note_alias n a g)"
      unfolding na using ok1 by (intro graph_ok_set_aliases)
    moreover have "resolve (note_alias n a g) m = Some d" if "resolve g m = Some d"
      using that dom1 unfolding na
      by (auto simp: resolve_def or_insert_apply dom_def set_eq_iff split: option.splits)
        (metis option.distinct(1))+
    ultimately show ?thesis using dom1 by (simp add: na)
  qed (simp add: note_alias_def ok)
  then show "graph_ok P valid (note_alias n a g)"
    "dom (map_of (eg_entities (note_alias n a g))) = dom (map_of (eg_entities g))"
    "resolve g m = Some d \<Longrightarrow> resolve (note_alias n a g) m = Some d" by simp_all
qed

section \<open>Sequences of relations\<close>

lemma add_relationship_ext:
  "graph_ok P valid g \<Longrightarrow> graph_ext g (add_relationship P t r g)"
  using add_relationship(4,6) [where g = g and t = t and r = r] by (simp add: graph_ext_def)

lemma add_relationships:
  "graph_ok P valid g \<Longrightarrow>
     graph_ok P valid (add_relationships P clock rs g) \<and>
     eg_entity_mentions (add_relationships P clock rs g) = eg_entity_mentions g \<and>
     graph_ext g (add_relationships P clock rs g)"
proof (induction rs arbitrary: g clock)
  case (Cons r rs)
  note A = add_relationship [where g = g and t = "clock 0" and r = r, OF Cons.prems]
  show ?case
    using Cons.IH [OF A(1), of "\<lambda>i. clock (Suc i)"] A(3) add_relationship_ext [OF Cons.prems, of "clock 0" r]
    by (auto intro: graph_ext_trans)
qed simp

text \<open>Between known entities a sequence of relations only updates the abstract map.\<close>

lemma add_relationship_known:
  assumes ok: "graph_ok P valid g"
    and r: "er_from_entity r \<in> dom (map_of (eg_entities g))" "er_to_entity r \<in> dom (map_of (eg_entities g))"
  shows "rel_map P (add_relationship P t r g) = (rel_map P g)(rel_key r \<mapsto> er_context r)"
    and "eg_entities (add_relationship P t r g) = eg_entities g"
    and "eg_alias_index (add_relationship P t r g) = eg_alias_index g"
proof -
  have res: "resolve g (er_from_entity r) = Some (er_from_entity r)"
    "resolve g (er_to_entity r) = Some (er_to_entity r)"
    using r by (auto intro: resolve_self)
  note A = add_relationship [where g = g and t = t and r = r, OF ok]
  show "rel_map P (add_relationship P t r g) = (rel_map P g)(rel_key r \<mapsto> er_context r)"
    using A(2) A(4) [OF res(1)] A(4) [OF res(2)] by (auto simp: rel_key_def)
  show "eg_entities (add_relationship P t r g) = eg_entities g"
    "eg_alias_index (add_relationship P t r g) = eg_alias_index g"
    using A(5) res by simp_all
qed

lemma add_relationships_known:
  assumes "graph_ok P valid g"
    and "\<forall>r \<in> set rs. er_from_entity r \<in> dom (map_of (eg_entities g)) \<and> er_to_entity r \<in> dom (map_of (eg_entities g))"
  shows "rel_map P (add_relationships P clock rs g) = rel_map P g ++ map_of (rev (map rel_pair rs)) \<and>
    eg_entities (add_relationships P clock rs g) = eg_entities g \<and>
    eg_alias_index (add_relationships P clock rs g) = eg_alias_index g"
  using assms
proof (induction rs arbitrary: g clock)
  case (Cons r rs)
  note ok = Cons.prems(1)
  have r: "er_from_entity r \<in> dom (map_of (eg_entities g))" "er_to_entity r \<in> dom (map_of (eg_entities g))"
    using Cons.prems(2) by simp_all
  note K = add_relationship_known [where t = "clock 0", OF ok r]
  have "graph_ok P valid (add_relationship P (clock 0) r g)" by (rule add_relationship(1) [OF ok])
  from Cons.IH [OF this, of "\<lambda>i. clock (Suc i)", unfolded K] Cons.prems(2)
  have I: "rel_map P (add_relationships P (\<lambda>i. clock (Suc i)) rs (add_relationship P (clock 0) r g)) =
      (rel_map P g)(rel_key r \<mapsto> er_context r) ++ map_of (rev (map rel_pair rs)) \<and>
    eg_entities (add_relationships P (\<lambda>i. clock (Suc i)) rs (add_relationship P (clock 0) r g)) = eg_entities g \<and>
    eg_alias_index (add_relationships P (\<lambda>i. clock (Suc i)) rs (add_relationship P (clock 0) r g)) = eg_alias_index g"
    unfolding list.set by blast
  have "rel_map P (add_relationships P clock (r # rs) g) =
      (rel_map P g)(rel_key r \<mapsto> er_context r) ++ map_of (rev (map rel_pair rs)) \<and>
    eg_entities (add_relationships P clock (r # rs) g) = eg_entities g \<and>
    eg_alias_index (add_relationships P clock (r # rs) g) = eg_alias_index g"
    using I by (simp only: add_relationships.simps)
  moreover have "(rel_map P g)(rel_key r \<mapsto> er_context r) ++ map_of (rev (map rel_pair rs)) =
      rel_map P g ++ map_of (rev (map rel_pair (r # rs)))"
    by (auto simp: rel_pair_def map_add_def fun_eq_iff split: option.split)
  ultimately show ?case by simp
qed simp

section \<open>Merging entities\<close>

lemma merge_entities_refused:
  "\<not> snd (merge_entities P clock a b g) \<Longrightarrow> fst (merge_entities P clock a b g) = g"
  by (auto simp: merge_entities_def Let_def split: option.splits if_splits)

text \<open>The relations redirected by a merge, as a map.\<close>

lemma redirected_map:
  assumes ok: "graph_ok P valid g" and ab: "a \<noteq> b"
  defines "rs \<equiv> filter (\<lambda>r. er_from_entity r \<noteq> er_to_entity r) (map (redirect a b) (relationships_of P g a))"
  shows "map_of (rev (map rel_pair rs)) (x, y, ty) =
    (if x = b \<and> y \<noteq> a \<and> y \<noteq> b then rel_map P g (a, y, ty)
     else if y = b \<and> x \<noteq> a \<and> x \<noteq> b then rel_map P g (x, a, ty) else None)"
proof -
  let ?R = "relationships_of P g a"
  have mem: "r \<in> set ?R \<longleftrightarrow> rel_map P g (rel_key r) = Some (er_context r) \<and>
      (er_from_entity r = a \<or> er_to_entity r = a)" for r
    by (rule mem_relationships_of [OF ok])
  have dR: "distinct (map rel_key ?R)" by (rule distinct_relationships_of [OF ok])
  have inj: "inj_on (\<lambda>r. rel_key (redirect a b r))
      {r \<in> set ?R. er_from_entity (redirect a b r) \<noteq> er_to_entity (redirect a b r)}"
  proof (rule inj_onI)
    fix r r' assume *: "r \<in> {r \<in> set ?R. er_from_entity (redirect a b r) \<noteq> er_to_entity (redirect a b r)}"
      "r' \<in> {r \<in> set ?R. er_from_entity (redirect a b r) \<noteq> er_to_entity (redirect a b r)}"
      "rel_key (redirect a b r) = rel_key (redirect a b r')"
    then have "rel_key r = rel_key r'"
      using ab by (auto simp: mem redirect_def rel_key_def split: if_splits)
    then show "r = r'" using * dR by (auto simp: distinct_map dest: inj_onD)
  qed
  have rs: "rs = map (redirect a b)
      (filter (\<lambda>r. er_from_entity (redirect a b r) \<noteq> er_to_entity (redirect a b r)) ?R)"
    by (simp add: rs_def filter_map o_def)
  have "distinct (map rel_key rs)"
    using dR inj unfolding rs by (simp add: distinct_map comp_inj_on_iff o_def distinct_filter)
  then have d: "distinct (map fst (rev (map rel_pair rs)))"
    by (simp add: rel_pair_def o_def rev_map [symmetric])
  have "map_of (rev (map rel_pair rs)) (x, y, ty) = Some c \<longleftrightarrow>
      (if x = b \<and> y \<noteq> a \<and> y \<noteq> b then rel_map P g (a, y, ty)
       else if y = b \<and> x \<noteq> a \<and> x \<noteq> b then rel_map P g (x, a, ty) else None) = Some c" for c
  proof -
    have "map_of (rev (map rel_pair rs)) (x, y, ty) = Some c \<longleftrightarrow>
        (\<exists>r \<in> set rs. rel_key r = (x, y, ty) \<and> er_context r = c)"
      using d by (auto simp: rel_pair_def intro!: image_eqI)
    also have "\<dots> \<longleftrightarrow> (\<exists>r \<in> set ?R. rel_key (redirect a b r) = (x, y, ty) \<and> er_context r = c \<and> x \<noteq> y)"
      unfolding rs by (auto simp: rel_key_def redirect_def)
    also have "\<dots> \<longleftrightarrow> (x \<noteq> y \<and> (\<exists>f t. (f = a \<or> t = a) \<and> x = (if f = a then b else f) \<and>
        y = (if t = a then b else t) \<and> rel_map P g (f, t, ty) = Some c))"
    proof
      assume "\<exists>r \<in> set ?R. rel_key (redirect a b r) = (x, y, ty) \<and> er_context r = c \<and> x \<noteq> y"
      then obtain r where r: "r \<in> set ?R" "rel_key (redirect a b r) = (x, y, ty)" "er_context r = c" "x \<noteq> y"
        by blast
      then show "x \<noteq> y \<and> (\<exists>f t. (f = a \<or> t = a) \<and> x = (if f = a then b else f) \<and>
          y = (if t = a then b else t) \<and> rel_map P g (f, t, ty) = Some c)"
        unfolding mem
        by (intro conjI exI [of _ "er_from_entity r"] exI [of _ "er_to_entity r"])
          (simp_all add: rel_key_def redirect_def)
    next
      assume "x \<noteq> y \<and> (\<exists>f t. (f = a \<or> t = a) \<and> x = (if f = a then b else f) \<and>
          y = (if t = a then b else t) \<and> rel_map P g (f, t, ty) = Some c)"
      then obtain f t where ft: "x \<noteq> y" "f = a \<or> t = a" "x = (if f = a then b else f)"
        "y = (if t = a then b else t)" "rel_map P g (f, t, ty) = Some c" by blast
      then show "\<exists>r \<in> set ?R. rel_key (redirect a b r) = (x, y, ty) \<and> er_context r = c \<and> x \<noteq> y"
        by (intro bexI [of _ "\<lparr>er_from_entity = f, er_to_entity = t, er_relation_type = ty, er_context = c\<rparr>"])
          (simp_all add: mem rel_key_def redirect_def)
    qed
    also have "\<dots> \<longleftrightarrow> (if x = b \<and> y \<noteq> a \<and> y \<noteq> b then rel_map P g (a, y, ty)
       else if y = b \<and> x \<noteq> a \<and> x \<noteq> b then rel_map P g (x, a, ty) else None) = Some c"
      using ab by (auto split: if_splits)
    finally show ?thesis .
  qed
  then show ?thesis by (metis (no_types, lifting) option.exhaust)
qed

lemma redirected_known:
  assumes ok: "graph_ok P valid g" and b: "b \<in> dom (map_of (eg_entities g)) - {a}"
    and r: "r \<in> set (map (redirect a b) (relationships_of P g a))"
  shows "er_from_entity r \<in> dom (map_of (eg_entities g)) - {a} \<and>
    er_to_entity r \<in> dom (map_of (eg_entities g)) - {a}"
proof -
  obtain r0 where r0: "r0 \<in> set (relationships_of P g a)" "r = redirect a b r0" using r by auto
  have "er_from_entity r0 \<in> dom (map_of (eg_entities g))" "er_to_entity r0 \<in> dom (map_of (eg_entities g))"
    using r0(1) rel_map_dom [OF graph_okD(1) [OF ok]] graph_okD(3) [OF ok]
    unfolding mem_relationships_of [OF ok] rel_key_def by blast+
  then show ?thesis using b by (auto simp: r0(2) redirect_def)
qed

lemma merge_entities_base:
  assumes ok: "graph_ok P valid g" and a: "resolve g alias = Some a" and b: "resolve g into = Some b"
    and ab: "a \<noteq> b"
  shows "merge_entities P clock alias into g =
    (add_relationships P clock
       (filter (\<lambda>r. er_from_entity r \<noteq> er_to_entity r) (map (redirect a b) (relationships_of P g a)))
       (merged_base P a b g), True)"
proof -
  obtain ea eb where ea: "map_of (eg_entities g) a = Some ea" and eb: "map_of (eg_entities g) b = Some eb"
    using resolve_known [OF ok a] resolve_known [OF ok b] by blast
  have n: "eg_entity_to_node g a \<noteq> None" using graph_ok_node [OF ok] ea by simp
  have bt: "bt_ok (bt_remove a (eg_entities g))" using graph_okD(4) [OF ok] by simp
  show ?thesis
    using ab by (simp add: merge_entities_def a b ea eb merged_base_def Let_def n bt)
qed

lemma merged_base:
  assumes ok: "graph_ok P valid g" and a: "map_of (eg_entities g) a = Some ea"
    and b: "map_of (eg_entities g) b = Some eb" and ab: "a \<noteq> b"
  shows "graph_ok P valid (merged_base P a b g)"
    and "map_of (eg_entities (merged_base P a b g)) =
      (map_of (eg_entities g))(a := None, b \<mapsto> fold_entity ea eb)"
    and "rel_map P (merged_base P a b g) = rel_map P (fst (remove_entity P a g))"
    and "map_of (eg_entity_mentions (merged_base P a b g)) =
      (let m = unwrap_or (map_of (eg_entity_mentions g) a) [] in
       if m = [] then (map_of (eg_entity_mentions g))(a := None)
       else (map_of (eg_entity_mentions g))(a := None,
         b \<mapsto> extend_new (unwrap_or (map_of (eg_entity_mentions g) b) []) m))"
    and "eg_alias_index (merged_base P a b g) k =
      (if k \<in> entity_key ` insert (ed_name eb) (set (ed_aliases (fold_entity ea eb))) then Some b
       else if eg_alias_index g k = Some a then None else eg_alias_index g k)"
proof -
  have n: "eg_entity_to_node g a \<noteq> None" using graph_ok_node [OF ok] a by simp
  have bt: "bt_ok (bt_remove a (eg_entities g))" "bt_ok (bt_remove a (eg_entity_mentions g))"
    using graph_okD(4,5) [OF ok] by simp_all
  let ?g1 = "fst (remove_entity P a g)"
  let ?e = "fold_entity ea eb"
  have nm: "ed_name ?e = b" using graph_okD(6) [OF ok b] by (simp add: fold_entity_def)
  have ok1: "graph_ok P valid ?g1" by (rule graph_ok_remove [OF ok])
  let ?g2 = "?g1\<lparr>eg_entities := bt_insert b ?e (eg_entities ?g1)\<rparr>"
  have ok2: "graph_ok P valid ?g2"
    using ok1 nm b ab n by (intro graph_ok_set_entity) simp_all
  let ?ks = "map entity_key (ed_name ?e # ed_aliases ?e)"
  let ?g3 = "?g2\<lparr>eg_alias_index := fold (\<lambda>k m. m(k \<mapsto> b)) ?ks (eg_alias_index ?g1)\<rparr>"
  have "ran (fold (\<lambda>k m. m(k \<mapsto> b)) ?ks (eg_alias_index ?g1)) \<subseteq> dom (map_of (eg_entities ?g2))"
  proof
    fix x assume "x \<in> ran (fold (\<lambda>k m. m(k \<mapsto> b)) ?ks (eg_alias_index ?g1))"
    then obtain k where "fold (\<lambda>k m. m(k \<mapsto> b)) ?ks (eg_alias_index ?g1) k = Some x"
      unfolding ran_def by blast
    then have "x = b \<or> eg_alias_index ?g1 k = Some x"
      unfolding fold_map_upd by (simp split: if_splits)
    then show "x \<in> dom (map_of (eg_entities ?g2))"
      using graph_okD(7) [OF ok1, of k x] n bt by auto
  qed
  then have ok3: "graph_ok P valid ?g3" using graph_ok_set_aliases [OF ok2] by simp
  have mb: "merged_base P a b g = (let m = unwrap_or (map_of (eg_entity_mentions g) a) [] in
      if m = [] then ?g3 else ?g3\<lparr>eg_entity_mentions := bt_insert b
           (extend_new (unwrap_or (map_of (eg_entity_mentions ?g1) b) []) m) (eg_entity_mentions ?g1)\<rparr>)"
    by (simp add: merged_base_def a b Let_def)
  show "graph_ok P valid (merged_base P a b g)"
    using ok3 bt n by (auto simp: mb Let_def intro!: graph_ok_set_mentions)
  show "map_of (eg_entities (merged_base P a b g)) =
      (map_of (eg_entities g))(a := None, b \<mapsto> fold_entity ea eb)"
    using n bt by (simp add: mb Let_def)
  show "rel_map P (merged_base P a b g) = rel_map P ?g1"
    by (simp add: mb Let_def)
  show "map_of (eg_entity_mentions (merged_base P a b g)) =
      (let m = unwrap_or (map_of (eg_entity_mentions g) a) [] in
       if m = [] then (map_of (eg_entity_mentions g))(a := None)
       else (map_of (eg_entity_mentions g))(a := None,
         b \<mapsto> extend_new (unwrap_or (map_of (eg_entity_mentions g) b) []) m))"
    using n bt ab by (simp add: mb Let_def)
  show "eg_alias_index (merged_base P a b g) k =
      (if k \<in> entity_key ` insert (ed_name eb) (set (ed_aliases ?e)) then Some b
       else if eg_alias_index g k = Some a then None else eg_alias_index g k)"
    using n by (simp add: mb Let_def fold_map_upd fold_entity_def)
qed

text \<open>What a merge does, on the abstract view.\<close>

lemma merge_entities_effect:
  fixes clock :: "nat \<Rightarrow> datetime"
  assumes ok: "graph_ok P valid g" and a: "resolve g alias = Some a" and b: "resolve g into = Some b"
    and ab: "a \<noteq> b"
  defines "g' \<equiv> fst (merge_entities P clock alias into g)"
  shows "snd (merge_entities P clock alias into g)"
    and "graph_ok P valid g'"
    and "map_of (eg_entities g') = (map_of (eg_entities g))(a := None,
           b \<mapsto> fold_entity (the (map_of (eg_entities g) a)) (the (map_of (eg_entities g) b)))"
    and "rel_map P g' (x, y, ty) = merged_rel (rel_map P g) a b (x, y, ty)"
    and "eg_entity_mentions g' = eg_entity_mentions (merged_base P a b g)"
    and "eg_alias_index g' = eg_alias_index (merged_base P a b g)"
proof -
  obtain ea eb where ea: "map_of (eg_entities g) a = Some ea" and eb: "map_of (eg_entities g) b = Some eb"
    using resolve_known [OF ok a] resolve_known [OF ok b] by blast
  let ?rs = "filter (\<lambda>r. er_from_entity r \<noteq> er_to_entity r) (map (redirect a b) (relationships_of P g a))"
  note B = merged_base [OF ok ea eb ab]
  have g': "g' = add_relationships P clock ?rs (merged_base P a b g)"
    by (simp add: g'_def merge_entities_base [OF ok a b ab])
  have dom: "dom (map_of (eg_entities (merged_base P a b g))) = dom (map_of (eg_entities g)) - {a}"
    using B(2) eb ab by auto
  have "\<forall>r \<in> set ?rs. er_from_entity r \<in> dom (map_of (eg_entities (merged_base P a b g))) \<and>
      er_to_entity r \<in> dom (map_of (eg_entities (merged_base P a b g)))"
    unfolding dom using redirected_known [OF ok, of b a] eb ab by auto
  note R = add_relationships_known [OF B(1) this, of clock, folded g']
  show "snd (merge_entities P clock alias into g)"
    by (simp add: merge_entities_base [OF ok a b ab])
  show "graph_ok P valid g'" "eg_entity_mentions g' = eg_entity_mentions (merged_base P a b g)"
    using add_relationships [OF B(1)] by (simp_all add: g')
  show "map_of (eg_entities g') = (map_of (eg_entities g))(a := None,
           b \<mapsto> fold_entity (the (map_of (eg_entities g) a)) (the (map_of (eg_entities g) b)))"
    using R B(2) by (simp add: ea eb)
  show "eg_alias_index g' = eg_alias_index (merged_base P a b g)" using R by blast
  have "rel_map P g' (x, y, ty) =
      (rel_map P (fst (remove_entity P a g)) ++ map_of (rev (map rel_pair ?rs))) (x, y, ty)"
    using R B(3) by simp
  then show "rel_map P g' (x, y, ty) = merged_rel (rel_map P g) a b (x, y, ty)"
    unfolding map_add_def redirected_map [OF ok ab] rel_map_remove [OF ok]
    using ab by (auto simp: merged_rel_def split: option.split)
qed

lemma merge_entities_ok:
  assumes ok: "graph_ok P valid g"
  shows "graph_ok P valid (fst (merge_entities P clock x y g))"
proof (cases "\<exists>a b. resolve g x = Some a \<and> resolve g y = Some b \<and> a \<noteq> b")
  case True
  then show ?thesis using merge_entities_effect(2) [OF ok] by blast
next
  case False
  then have "\<not> snd (merge_entities P clock x y g)"
    by (auto simp: merge_entities_def split: option.splits)
  then show ?thesis using merge_entities_refused [of clock x y g] ok by simp
qed

section \<open>The remaining writers\<close>

lemma mention_entity_ok:
  assumes ok: "graph_ok P valid g"
  shows "graph_ok P valid (mention_entity n uid t g)"
proof -
  note bt = graph_okD(5) [OF ok]
  show ?thesis
  proof (cases "map_of (eg_entities g) n")
    case None
    then show ?thesis using bt graph_ok_set_mentions [OF ok] by (simp add: mention_entity_def)
  next
    case (Some e)
    let ?e = "e\<lparr>ed_last_mentioned := t, ed_mention_count := ed_mention_count e + 1,
      ed_importance_score := max (log 2 (real (unat (ed_mention_count e + 1)))) 1\<rparr>"
    have "graph_ok P valid (g\<lparr>eg_entities := bt_insert n ?e (eg_entities g)\<rparr>)"
      using ok Some graph_okD(6) [OF ok Some] by (intro graph_ok_set_entity) simp_all
    from graph_ok_set_mentions [OF this bt_ok_insert [OF bt]] Some show ?thesis
      by (simp add: mention_entity_def Let_def)
  qed
qed

lemma update_entity_timestamp_ok:
  assumes ok: "graph_ok P valid g"
  shows "graph_ok P valid (update_entity_timestamp n t g)"
  using ok graph_okD(6) [OF ok, of n]
  by (auto simp: update_entity_timestamp_def split: option.splits intro!: graph_ok_set_entity)

lemma insert_base_ok:
  fixes e :: entity_data
  assumes ok: "graph_ok P valid g"
  defines "g1 \<equiv> ensure_node P (ed_name e) g"
  shows "graph_ok P valid (g1\<lparr>eg_entities := bt_insert (ed_name e) e (eg_entities g1)\<rparr>)"
proof (cases "map_of (eg_entities g) (ed_name e)")
  case None
  then have "eg_entity_to_node g (ed_name e) = None" using graph_ok_node [OF ok] by simp
  then have "g1\<lparr>eg_entities := bt_insert (ed_name e) e (eg_entities g1)\<rparr> =
      add_named_node P (ed_name e) (g\<lparr>eg_entities := bt_insert (ed_name e) e (eg_entities g)\<rparr>)"
    by (simp add: g1_def ensure_node_def add_named_node_def split: prod.split)
  then show ?thesis using graph_ok_new_entity [OF ok None refl] by simp
next
  case (Some x)
  then have "g1 = g" unfolding g1_def using ok by (intro ensure_node_id) simp_all
  then show ?thesis using ok Some by (simp add: graph_ok_set_entity)
qed

lemma insert_entity_ok:
  assumes ok: "graph_ok P valid g"
  shows "graph_ok P valid (insert_entity P clock e g)"
proof -
  have base: "graph_ok P valid (index_names (ed_name e)
      ((ensure_node P (ed_name e) g)\<lparr>eg_entities :=
        bt_insert (ed_name e) e (eg_entities (ensure_node P (ed_name e) g))\<rparr>))"
    by (intro index_names_ok insert_base_ok ok)
  then show ?thesis
    using merge_entities_ok [OF base]
    by (simp add: insert_entity_def Let_def split: option.splits)
qed

lemma run_merges_ok: "graph_ok P valid g \<Longrightarrow> graph_ok P valid (run_merges P clocks ms g)"
proof (induction ms arbitrary: clocks g)
  case (Cons m ms)
  then show ?case by (cases m) (simp add: merge_entities_ok)
qed simp

lemma index_alias_ran:
  "ran (fst st) \<subseteq> A \<Longrightarrow> n \<in> A \<Longrightarrow> ran (fst (index_alias n a st)) \<subseteq> A"
  by (auto simp: index_alias_def ran_def split: option.splits if_splits)

lemma index_entity_ran:
  assumes "ran (fst st) \<subseteq> A" "ed_name e \<in> A"
  shows "ran (fst (index_entity e st)) \<subseteq> A"
proof -
  have "ran (fst (fold (index_alias (ed_name e)) as st)) \<subseteq> A" for as
    using assms by (induction as arbitrary: st) (simp_all add: index_alias_ran)
  then show ?thesis by (simp only: index_entity_def)
qed

lemma rebuild_ok:
  assumes ok: "graph_ok P valid g"
  shows "graph_ok P valid (rebuild_alias_index P clocks g)"
proof -
  define es where "es = List.map_filter (\<lambda>(_, name). map_of (eg_entities g) name)
    (sort (map (\<lambda>(_, e). (ed_first_mentioned e, ed_name e)) (eg_entities g)))"
  obtain index merges where im: "fold index_entity es (Map.empty, []) = (index, merges)" by fastforce
  have mem: "\<forall>e \<in> set es. ed_name e \<in> dom (map_of (eg_entities g))"
    using graph_okD(6) [OF ok] by (auto simp: es_def map_filter_def split: option.splits)
  have "ran (fst (fold index_entity es st)) \<subseteq> dom (map_of (eg_entities g))"
    if "ran (fst st) \<subseteq> dom (map_of (eg_entities g))" for st
    using mem that by (induction es arbitrary: st) (simp_all add: index_entity_ran)
  from this [of "(Map.empty, [])"] have "ran index \<subseteq> dom (map_of (eg_entities g))"
    by (simp add: im)
  from run_merges_ok [OF graph_ok_set_aliases [OF ok this]] show ?thesis
    by (simp add: rebuild_alias_index_def es_def [symmetric] im)
qed

lemma add_or_update_ext:
  assumes ok: "graph_ok P valid g"
  shows "graph_ext g (add_or_update_entity P w ty t desc g)"
  using add_or_update(3,6) [where g = g and w = w and ty = ty and t = t and desc = desc, OF ok]
  by (auto simp: graph_ext_def)

lemma add_concepts:
  "graph_ok P valid g \<Longrightarrow> graph_ok P valid (add_concepts P t desc ns g) \<and>
     rel_map P (add_concepts P t desc ns g) = rel_map P g \<and>
     eg_entity_mentions (add_concepts P t desc ns g) = eg_entity_mentions g \<and>
     graph_ext g (add_concepts P t desc ns g) \<and>
     (\<forall>n \<in> set ns. resolve (add_concepts P t desc ns g) n \<noteq> None)"
proof (induction ns arbitrary: g)
  case (Cons n ns)
  note A = add_or_update [where g = g and w = n and ty = Concept and t = t and desc = desc, OF Cons.prems]
  note B = Cons.IH [OF A(1)]
  have "graph_ext g (add_concepts P t desc (n # ns) g)"
    using B add_or_update_ext [OF Cons.prems, of n Concept t desc] by (auto intro: graph_ext_trans)
  moreover have "resolve (add_concepts P t desc (n # ns) g) n \<noteq> None"
    using B A(5) by (auto simp: graph_ext_def)
  ultimately show ?case using B A(2,4) by simp
qed simp

lemma add_typed:
  "graph_ok P valid g \<Longrightarrow> graph_ok P valid (add_typed P t desc es g) \<and>
     rel_map P (add_typed P t desc es g) = rel_map P g \<and>
     eg_entity_mentions (add_typed P t desc es g) = eg_entity_mentions g \<and>
     graph_ext g (add_typed P t desc es g) \<and>
     (\<forall>e \<in> set es. resolve (add_typed P t desc es g) (te_name e) \<noteq> None)"
proof (induction es arbitrary: g)
  case (Cons e es)
  note A = add_or_update [where g = g and w = "te_name e" and ty = "te_entity_type e" and t = t and desc = desc, OF Cons.prems]
  note B = Cons.IH [OF A(1)]
  have "graph_ext g (add_typed P t desc (e # es) g)"
    using B add_or_update_ext [OF Cons.prems, of "te_name e" "te_entity_type e" t desc]
    by (auto intro: graph_ext_trans)
  moreover have "resolve (add_typed P t desc (e # es) g) (te_name e) \<noteq> None"
    using B A(5) by (auto simp: graph_ext_def)
  ultimately show ?case using B A(2,4) by simp
qed simp

section \<open>Mention links\<close>

lemma link_mention_fields [simp]:
  "eg_entities (link_mention uid c g) = eg_entities g"
  "eg_alias_index (link_mention uid c g) = eg_alias_index g"
  "eg_graph (link_mention uid c g) = eg_graph g"
  "rel_map P (link_mention uid c g) = rel_map P g"
  by (simp_all add: link_mention_def Let_def)

lemma link_mention_resolve [simp]:
  "resolve (link_mention uid c (g :: 'g entity_graph)) = resolve g"
  by (simp add: resolve_def fun_eq_iff cong: option.case_cong)

lemma link_mention_ok: "graph_ok P valid g \<Longrightarrow> graph_ok P valid (link_mention uid c g)"
  using graph_okD(5) [of P valid g] by (simp add: link_mention_def Let_def graph_ok_set_mentions)

lemma link_mention_apply:
  "bt_ok (eg_entity_mentions g) \<Longrightarrow> map_of (eg_entity_mentions (link_mention uid c g)) d =
     (if d = c then Some (add_id uid (unwrap_or (map_of (eg_entity_mentions g) c) []))
      else map_of (eg_entity_mentions g) d)"
  by (simp add: link_mention_def Let_def add_id_def)

lemma link_names:
  assumes "graph_ok P valid g"
  shows "graph_ok P valid (link_names uid linked ns g) \<and>
    eg_entities (link_names uid linked ns g) = eg_entities g \<and>
    resolve (link_names uid linked ns g) = resolve g \<and>
    rel_map P (link_names uid linked ns g) = rel_map P g \<and>
    map_of (eg_entity_mentions (link_names uid linked ns g)) c =
      (if c \<notin> linked \<and> Some c \<in> resolve g ` set ns
       then Some (add_id uid (unwrap_or (map_of (eg_entity_mentions g) c) []))
       else map_of (eg_entity_mentions g) c)"
  using assms
proof (induction ns arbitrary: linked g)
  case (Cons n ns)
  show ?case
  proof (cases "resolve g n")
    case None
    then show ?thesis using Cons.IH [OF Cons.prems] by auto
  next
    case (Some d)
    show ?thesis
    proof (cases "d \<in> linked")
      case True
      then show ?thesis using Cons.IH [OF Cons.prems] Some by auto
    next
      case False
      have "bt_ok (eg_entity_mentions g)" by (rule graph_okD(5) [OF Cons.prems])
      note L = link_mention_apply [OF this]
      show ?thesis
        using Cons.IH [OF link_mention_ok [OF Cons.prems], where linked = "insert d linked"] Some False
        by (auto simp: L)
    qed
  qed
qed simp

lemma add_relationship_dom:
  assumes ok: "graph_ok P valid g"
  shows "dom (rel_map P g) \<subseteq> dom (rel_map P (add_relationship P t r g))"
    and "holds_relation P (add_relationship P t r g) r"
proof -
  let ?g' = "add_relationship P t r g"
  obtain a b where ab: "resolve ?g' (er_from_entity r) = Some a" "resolve ?g' (er_to_entity r) = Some b"
      "rel_map P ?g' = (if a = b \<and> er_from_entity r \<noteq> er_to_entity r then rel_map P g
        else (rel_map P g)((a, b, er_relation_type r) \<mapsto> er_context r))"
    using add_relationship(2) [where g = g and t = t and r = r, OF ok] by blast
  then have "dom (rel_map P ?g') = (if a = b \<and> er_from_entity r \<noteq> er_to_entity r then dom (rel_map P g)
        else insert (a, b, er_relation_type r) (dom (rel_map P g)))"
    by simp
  with ab(1,2) show "dom (rel_map P g) \<subseteq> dom (rel_map P ?g')" "holds_relation P ?g' r"
    unfolding holds_relation_def by auto
qed

lemma holds_relation_mono:
  "holds_relation P g r \<Longrightarrow> graph_ext g g' \<Longrightarrow> dom (rel_map P g) \<subseteq> dom (rel_map P g') \<Longrightarrow> holds_relation P g' r"
  unfolding holds_relation_def graph_ext_def by (elim exE conjE, intro exI conjI) (simp, simp, blast)

lemma add_relationships_dom:
  "graph_ok P valid g \<Longrightarrow> dom (rel_map P g) \<subseteq> dom (rel_map P (add_relationships P clock rs g)) \<and>
    (\<forall>r \<in> set rs. holds_relation P (add_relationships P clock rs g) r)"
proof (induction rs arbitrary: g clock)
  case (Cons r rs)
  let ?g1 = "add_relationship P (clock 0) r g"
  let ?clock = "\<lambda>i. clock (Suc i)"
  have ok1: "graph_ok P valid ?g1" by (rule add_relationship(1) [OF Cons.prems])
  note A = add_relationship_dom [where t = "clock 0" and r = r, OF Cons.prems]
  note B = Cons.IH [OF ok1, of ?clock]
  have "holds_relation P (add_relationships P ?clock rs ?g1) r"
    using A(2) B add_relationships [OF ok1, of ?clock rs] holds_relation_mono by blast
  then show ?case using A(1) B by auto
qed simp

section \<open>Applying a record\<close>

lemma apply_update:
  fixes clock :: "nat \<Rightarrow> datetime" and u :: context_update
  assumes ok: "graph_ok P valid g"
  defines "g' \<equiv> apply_update P clock u g"
  shows "graph_ok P valid g'"
    and "graph_ext g g'"
    and "n \<in> set (if cu_typed_entities u = [] then cu_creates_entities u else map te_name (cu_typed_entities u))
      \<Longrightarrow> resolve g' n \<noteq> None"
    and "r \<in> set (cu_creates_relationships u) \<Longrightarrow> holds_relation P g' r"
    and "map_of (eg_entity_mentions g') c =
      (if Some c \<in> resolve g' ` set (mentioned_names u)
       then Some (add_id (cu_id u) (unwrap_or (map_of (eg_entity_mentions g) c) []))
       else map_of (eg_entity_mentions g) c)"
proof -
  define g1 where "g1 = (if cu_typed_entities u = []
    then add_concepts P (cu_timestamp u) (''From update: '' @ uc_title (cu_content u)) (cu_creates_entities u) g
    else add_typed P (cu_timestamp u) (''Provided by caller: '' @ uc_title (cu_content u)) (cu_typed_entities u) g)"
  let ?rs = "cu_creates_relationships u"
  define g2 where "g2 = add_relationships P clock ?rs g1"
  have g': "g' = link_names (cu_id u) {} (mentioned_names u) g2"
    by (simp add: g'_def apply_update_def link_mentions_def g1_def g2_def Let_def)
  have A: "graph_ok P valid g1" "graph_ext g g1" "eg_entity_mentions g1 = eg_entity_mentions g"
      "n \<in> set (if cu_typed_entities u = [] then cu_creates_entities u else map te_name (cu_typed_entities u))
        \<Longrightarrow> resolve g1 n \<noteq> None"
    using add_concepts [OF ok] add_typed [OF ok] by (auto simp: g1_def)
  have B: "graph_ok P valid g2" "graph_ext g1 g2" "eg_entity_mentions g2 = eg_entity_mentions g1"
    using add_relationships [OF A(1)] by (simp_all add: g2_def)
  have D: "\<forall>r \<in> set ?rs. holds_relation P g2 r"
    using add_relationships_dom [OF A(1)] by (simp add: g2_def)
  note L = link_names [OF B(1), of "cu_id u" "{}" "mentioned_names u", folded g']
  show "graph_ok P valid g'" using L by blast
  show "graph_ext g g'"
    using graph_ext_trans [OF A(2) B(2)] L by (simp add: graph_ext_def)
  show "resolve g' n \<noteq> None"
    if "n \<in> set (if cu_typed_entities u = [] then cu_creates_entities u else map te_name (cu_typed_entities u))"
    using A(4) [OF that] B(2) L by (auto simp: graph_ext_def)
  show "holds_relation P g' r" if "r \<in> set ?rs"
    using D that L by (auto simp: holds_relation_def)
  show "map_of (eg_entity_mentions g') c =
      (if Some c \<in> resolve g' ` set (mentioned_names u)
       then Some (add_id (cu_id u) (unwrap_or (map_of (eg_entity_mentions g) c) []))
       else map_of (eg_entity_mentions g) c)"
    using L [of c] A(3) B(3) by auto
qed

lemma relink_names:
  assumes "graph_ok P valid g"
  shows "graph_ok P valid (relink_names uid ns g) \<and>
    resolve (relink_names uid ns g) = resolve g \<and>
    rel_map P (relink_names uid ns g) = rel_map P g \<and>
    map_of (eg_entity_mentions (relink_names uid ns g)) c =
      (if Some c \<in> resolve g ` set ns
       then Some (add_id uid (unwrap_or (map_of (eg_entity_mentions g) c) []))
       else map_of (eg_entity_mentions g) c)"
  using assms
proof (induction ns arbitrary: g)
  case (Cons n ns)
  show ?case
  proof (cases "resolve g n")
    case None
    then show ?thesis using Cons.IH [OF Cons.prems] by auto
  next
    case (Some d)
    note bt = graph_okD(5) [OF Cons.prems]
    have eq: "relink_names uid (n # ns) g = relink_names uid ns (link_mention uid d g)"
      by (auto simp: Some link_mention_def Let_def)
    show ?thesis
      unfolding eq using Cons.IH [OF link_mention_ok [OF Cons.prems], of uid d] Some
      by (auto simp: link_mention_apply [OF bt] add_id_def)
  qed
qed simp

lemma relink_updates:
  assumes "graph_ok P valid g"
  shows "graph_ok P valid (relink_updates us g) \<and>
    resolve (relink_updates us g) = resolve g \<and>
    rel_map P (relink_updates us g) = rel_map P g \<and>
    unwrap_or (map_of (eg_entity_mentions (relink_updates us g)) c) [] =
      fold add_id (map cu_id (filter (\<lambda>u. Some c \<in> resolve g ` set (mentioned_names u)) us))
        (unwrap_or (map_of (eg_entity_mentions g) c) [])"
  using assms
proof (induction us arbitrary: g)
  case (Cons u us)
  note R = relink_names [OF Cons.prems, of "cu_id u" "mentioned_names u"]
  then have "graph_ok P valid (relink_names (cu_id u) (mentioned_names u) g)" by blast
  from Cons.IH [OF this] R [of c] R show ?case by auto
qed simp

lemma relink_mentions:
  assumes ok: "graph_ok P valid g"
  shows "graph_ok P valid (relink_mentions us g)"
    and "resolve (relink_mentions us g) = resolve g"
    and "rel_map P (relink_mentions us g) = rel_map P g"
    and "unwrap_or (map_of (eg_entity_mentions (relink_mentions us g)) c) [] =
      fold add_id (map cu_id (filter (\<lambda>u. Some c \<in> resolve g ` set (mentioned_names u)) us)) []"
proof -
  have ok0: "graph_ok P valid (g\<lparr>eg_entity_mentions := []\<rparr>)"
    by (intro graph_ok_set_mentions ok) simp
  have res: "resolve (g\<lparr>eg_entity_mentions := []\<rparr>) = resolve g"
    by (simp add: resolve_def fun_eq_iff cong: option.case_cong)
  show "graph_ok P valid (relink_mentions us g)"
    and "resolve (relink_mentions us g) = resolve g"
    and "rel_map P (relink_mentions us g) = rel_map P g"
    and "unwrap_or (map_of (eg_entity_mentions (relink_mentions us g)) c) [] =
      fold add_id (map cu_id (filter (\<lambda>u. Some c \<in> resolve g ` set (mentioned_names u)) us)) []"
    using relink_updates [OF ok0, of us c] by (simp_all add: relink_mentions_def res)
qed

section \<open>Merging graphs\<close>

lemma note_alias_resolves:
  assumes ok: "graph_ok P valid g" and n: "resolve g n \<noteq> None"
  shows "resolve (note_alias n a g) a \<noteq> None"
  using n by (auto simp: note_alias_def Let_def resolve_def [of _ a] or_insert_apply split: option.split)

lemma note_aliases:
  assumes "graph_ok P valid g" "resolve g n \<noteq> None"
  shows "graph_ok P valid (fold (note_alias n) as g) \<and> graph_ext g (fold (note_alias n) as g) \<and>
    rel_map P (fold (note_alias n) as g) = rel_map P g \<and>
    eg_entity_mentions (fold (note_alias n) as g) = eg_entity_mentions g \<and>
    (\<forall>a \<in> set as. resolve (fold (note_alias n) as g) a \<noteq> None)"
  using assms
proof (induction as arbitrary: g)
  case (Cons a as)
  note N = note_alias [where g = g and n = n and a = a, OF Cons.prems(1)]
  have ext: "graph_ext g (note_alias n a g)" using N(2,3) by (simp add: graph_ext_def)
  have n': "resolve (note_alias n a g) n \<noteq> None" using N(3) Cons.prems(2) by auto
  note I = Cons.IH [OF N(1) n']
  have "resolve (fold (note_alias n) as (note_alias n a g)) a \<noteq> None"
    using I note_alias_resolves [OF Cons.prems, of a] unfolding graph_ext_def by auto
  then show ?case using I graph_ext_trans [OF ext] by simp
qed simp

lemma merge_entity_entries:
  assumes "graph_ok P valid g"
  shows "graph_ok P valid (merge_entity_entries P es g) \<and> graph_ext g (merge_entity_entries P es g) \<and>
    rel_map P (merge_entity_entries P es g) = rel_map P g \<and>
    eg_entity_mentions (merge_entity_entries P es g) = eg_entity_mentions g \<and>
    (\<forall>(n, d) \<in> set es. \<forall>m \<in> insert n (set (ed_aliases d)). resolve (merge_entity_entries P es g) m \<noteq> None)"
  using assms
proof (induction es arbitrary: g)
  case (Cons x es)
  obtain n d where x: "x = (n, d)" by fastforce
  let ?g1 = "add_or_update_entity P n (ed_entity_type d) (ed_last_mentioned d) (unwrap_or (ed_description d) []) g"
  let ?g2 = "fold (note_alias n) (ed_aliases d) ?g1"
  note A = add_or_update [where g = g and w = n and ty = "ed_entity_type d" and t = "ed_last_mentioned d"
      and desc = "unwrap_or (ed_description d) []", OF Cons.prems]
  have "resolve ?g1 n \<noteq> None" using A(5) by simp
  note B = note_aliases [OF A(1) this, of "ed_aliases d"]
  note I = Cons.IH [of ?g2] B
  have ext1: "graph_ext g ?g1" by (rule add_or_update_ext [OF Cons.prems])
  have ext2: "graph_ext g ?g2" using B graph_ext_trans [OF ext1] by blast
  have "\<forall>m \<in> insert n (set (ed_aliases d)). resolve ?g2 m \<noteq> None"
    using B A(5) by (auto simp: graph_ext_def)
  moreover have "graph_ext ?g2 (merge_entity_entries P es ?g2)" using I by blast
  ultimately have "\<forall>m \<in> insert n (set (ed_aliases d)). resolve (merge_entity_entries P es ?g2) m \<noteq> None"
    unfolding graph_ext_def by blast
  then show ?case
    using I A(2,4) ext2 by (auto simp: x intro: graph_ext_trans)
qed simp

lemma merge_mention_entries:
  assumes "graph_ok P valid g"
  shows "graph_ok P valid (merge_mention_entries es g) \<and>
    eg_entities (merge_mention_entries es g) = eg_entities g \<and>
    resolve (merge_mention_entries es g) = resolve g \<and>
    rel_map P (merge_mention_entries es g) = rel_map P g \<and>
    set (unwrap_or (map_of (eg_entity_mentions (merge_mention_entries es g)) c) []) =
      set (unwrap_or (map_of (eg_entity_mentions g) c) []) \<union>
      \<Union> (set (map (\<lambda>(n, ids). if unwrap_or (resolve g n) n = c then set ids else {}) es))"
  using assms
proof (induction es arbitrary: g)
  case (Cons x es)
  obtain n ids where x: "x = (n, ids)" by fastforce
  let ?n = "unwrap_or (resolve g n) n"
  let ?g1 = "g\<lparr>eg_entity_mentions := bt_insert ?n
    (extend_new (unwrap_or (map_of (eg_entity_mentions g) ?n) []) ids) (eg_entity_mentions g)\<rparr>"
  have ok1: "graph_ok P valid ?g1" using Cons.prems graph_okD(5) [OF Cons.prems] by (simp add: graph_ok_set_mentions)
  have res: "resolve ?g1 = resolve g" by (simp add: resolve_def fun_eq_iff cong: option.case_cong)
  have "merge_mention_entries (x # es) g = merge_mention_entries es ?g1" by (simp add: x Let_def)
  then show ?case
    using Cons.IH [OF ok1] graph_okD(5) [OF Cons.prems] by (auto simp: res x)
qed simp

lemma merge_from:
  fixes clock :: "nat \<Rightarrow> datetime"
  assumes ok: "graph_ok P valid g" and other: "graph_ok P valid h"
  defines "g' \<equiv> merge_from P clock h g"
  shows "graph_ok P valid g'" and "graph_ext g g'" and "dom (rel_map P g) \<subseteq> dom (rel_map P g')"
    and "map_of (eg_entities h) n = Some d \<Longrightarrow> m \<in> insert n (set (ed_aliases d)) \<Longrightarrow> resolve g' m \<noteq> None"
    and "r \<in> set (relationships P h) \<Longrightarrow> holds_relation P g' r"
    and "map_of (eg_entities h) n = Some d \<Longrightarrow>
      set (unwrap_or (map_of (eg_entity_mentions h) n) []) \<subseteq>
      set (unwrap_or (map_of (eg_entity_mentions g') (the (resolve g' n))) [])"
proof -
  let ?g1 = "merge_entity_entries P (eg_entities h) g"
  let ?g2 = "merge_mention_entries (eg_entity_mentions h) ?g1"
  let ?rs = "relationships P h"
  note A = merge_entity_entries [OF ok, of "eg_entities h"]
  then have ok1: "graph_ok P valid ?g1" by blast
  note B = merge_mention_entries [OF ok1, of "eg_entity_mentions h"]
  then have ok2: "graph_ok P valid ?g2" by blast
  note C = add_relationships [OF ok2, of clock ?rs] add_relationships_dom [OF ok2, of clock ?rs]
  have g': "g' = add_relationships P clock ?rs ?g2" by (simp add: g'_def merge_from_def)
  have ext12: "graph_ext ?g1 ?g2" using B by (simp add: graph_ext_def)
  have ext: "graph_ext ?g1 g'" using graph_ext_trans [OF ext12] C by (simp add: g')
  show "graph_ok P valid g'" using C by (simp add: g')
  show "graph_ext g g'" using A graph_ext_trans [OF _ ext] by blast
  show "dom (rel_map P g) \<subseteq> dom (rel_map P g')" using A B C by (simp add: g')
  show "holds_relation P g' r" if "r \<in> set ?rs" using C that by (simp add: g')
  assume nd: "map_of (eg_entities h) n = Some d"
  then have mem: "(n, d) \<in> set (eg_entities h)" by (rule map_of_SomeD)
  show "resolve g' m \<noteq> None" if "m \<in> insert n (set (ed_aliases d))"
    using A mem that ext unfolding graph_ext_def by fastforce
  obtain c where c: "resolve ?g1 n = Some c" using A mem by fastforce
  then have c': "resolve g' n = Some c" using ext unfolding graph_ext_def by blast
  show "set (unwrap_or (map_of (eg_entity_mentions h) n) []) \<subseteq>
      set (unwrap_or (map_of (eg_entity_mentions g') (the (resolve g' n))) [])"
  proof (cases "map_of (eg_entity_mentions h) n")
    case (Some ids)
    then have "(n, ids) \<in> set (eg_entity_mentions h)" by (rule map_of_SomeD)
    then have "set ids \<subseteq> set (unwrap_or (map_of (eg_entity_mentions ?g2) c) [])"
      using B [of c] c by (auto intro!: bexI [of _ "(n, ids)"])
    moreover have "eg_entity_mentions g' = eg_entity_mentions ?g2" using C by (simp add: g')
    ultimately show ?thesis using Some c' by simp
  qed simp
qed

end

end
