(* ===== verification/Entity_Graph_Props.thy ===== *)
theory Entity_Graph_Props
  imports Entity_Graph_Ops
begin

text \<open>
  The properties of the entity graph. Each is stated for every \<open>petgraph\<close> that satisfies
  the documented laws (\<open>digraph P valid\<close>); the witnesses use the graph of lists, which
  satisfies them, and a small graph built by the operations themselves.
\<close>

section \<open>The operations as steps\<close>

text \<open>Every public operation of \<open>SimpleEntityGraph\<close> that changes it, with any arguments.\<close>

inductive graph_step :: "'g pg \<Rightarrow> 'g entity_graph \<Rightarrow> 'g entity_graph \<Rightarrow> bool" for P where
  step_clear: "graph_step P g (clear_graph P g)"
| step_remove: "graph_step P g (fst (remove_entity P n g))"
| step_merge: "graph_step P g (fst (merge_entities P clock a b g))"
| step_apply: "graph_step P g (apply_update P clock u g)"
| step_link: "graph_step P g (link_mentions u g)"
| step_relink: "graph_step P g (relink_mentions us g)"
| step_timestamp: "graph_step P g (update_entity_timestamp n t g)"
| step_insert: "graph_step P g (insert_entity P clock e g)"
| step_add: "graph_step P g (add_or_update_entity P n ty t d g)"
| step_mention: "graph_step P g (mention_entity n uid t g)"
| step_relationship: "graph_step P g (add_relationship P t r g)"
| step_rebuild: "graph_step P g (rebuild_alias_index P clocks g)"

text \<open>
  The graphs a program can hold: an empty one, one operation after another, and the other
  graph of a \<open>merge_from\<close> is such a graph too.
\<close>

inductive graph_reach :: "'g pg \<Rightarrow> 'g entity_graph \<Rightarrow> bool" for P where
  reach_new: "graph_reach P (new_graph P)"
| reach_step: "graph_reach P g \<Longrightarrow> graph_step P g g' \<Longrightarrow> graph_reach P g'"
| reach_merge_from: "graph_reach P g \<Longrightarrow> graph_reach P h \<Longrightarrow> graph_reach P (merge_from P clock h g)"

inductive_cases graph_stepE: "graph_step P g g'"

context entity_digraph
begin

lemma graph_step_ok: "graph_step P g g' \<Longrightarrow> graph_ok P valid g \<Longrightarrow> graph_ok P valid g'"
  by (induction rule: graph_step.induct)
    (simp_all add: clear_is_new graph_ok_new graph_ok_remove merge_entities_ok apply_update(1)
      link_mentions_def link_names relink_mentions(1) update_entity_timestamp_ok insert_entity_ok
      add_or_update(1) mention_entity_ok add_relationship(1) rebuild_ok)

lemma graph_reach_ok: "graph_reach P g \<Longrightarrow> graph_ok P valid g"
  by (induction rule: graph_reach.induct) (auto intro: graph_ok_new graph_step_ok merge_from(1))

end

interpretation eg: entity_digraph list_petgraph lg_valid
  by unfold_locales

lemma entity_digraph_iff: "digraph P valid \<Longrightarrow> entity_digraph P valid"
  by (simp add: entity_digraph_def)

section \<open>A small graph for the witnesses\<close>

text \<open>Two services, one of them written twice, and a queue they share.\<close>

definition demo_rel :: "string \<Rightarrow> string \<Rightarrow> relation_type \<Rightarrow> string \<Rightarrow> entity_relationship" where
  "demo_rel a b ty c = \<lparr>er_from_entity = a, er_to_entity = b, er_relation_type = ty, er_context = c\<rparr>"

definition demo_graph :: "edge_data list_graph entity_graph" where
  "demo_graph =
     add_relationship list_petgraph 3 (demo_rel ''api'' ''queue'' DependsOn ''reads'')
       (add_relationship list_petgraph 2 (demo_rel ''auth'' ''queue'' DependsOn ''writes'')
         (add_relationship list_petgraph 1 (demo_rel ''api'' ''auth'' RelatedTo ''calls'') (new_graph list_petgraph)))"

lemma demo_reach: "graph_reach list_petgraph demo_graph"
  unfolding demo_graph_def by (intro reach_step [OF _ step_relationship] reach_new)

lemma demo_ok: "graph_ok list_petgraph lg_valid demo_graph"
  by (rule eg.graph_reach_ok [OF demo_reach])

lemma demo_resolve:
  "resolve demo_graph ''api'' = Some ''api''"
  "resolve demo_graph ''A-P-I'' = Some ''api''"
  "resolve demo_graph ''auth'' = Some ''auth''"
  "resolve demo_graph ''db'' = None"
  "eg_entity_to_node demo_graph ''auth'' = Some 1"
  by code_simp+

section \<open>Properties\<close>

text \<open>
  C26: every graph a program can build, by any sequence of operations from an empty graph,
  satisfies the invariant: node indices and names match in both maps although
  remove_node renumbers nodes, every entity has exactly one node, aliases lead to stored
  entities, and no two edges have the same ends and type.
\<close>

theorem graph_invariant:
  assumes "digraph P valid" and "graph_reach P g"
  shows "graph_ok P valid g"
  by (rule entity_digraph.graph_reach_ok [OF entity_digraph_iff [OF assms(1)] assms(2)])

theorem graph_invariant_witness:
  "graph_ok list_petgraph lg_valid (fst (remove_entity list_petgraph ''api'' demo_graph))"
  by (rule graph_invariant [OF lg.digraph_axioms reach_step [OF demo_reach step_remove]])

text \<open>
  C29: remove_entity takes out the entity, its mentions, its aliases and exactly the
  relations that touch it; every other relation, entity and alias stays, and the names of
  the renumbered node still find their relations. It returns whether the entity was there.
\<close>

theorem remove_entity_effect:
  assumes "digraph P valid" and "graph_ok P valid g"
  shows "let g' = fst (remove_entity P n g) in
    graph_ok P valid g' \<and>
    snd (remove_entity P n g) = has_entity g n \<and>
    map_of (eg_entities g') = (map_of (eg_entities g))(n := None) \<and>
    (has_entity g n \<longrightarrow> map_of (eg_entity_mentions g') = (map_of (eg_entity_mentions g))(n := None)) \<and>
    rel_map P g' = (\<lambda>(a, b, ty). if a = n \<or> b = n then None else rel_map P g (a, b, ty)) \<and>
    resolve g' n \<noteq> Some n \<and>
    (\<forall>m. m \<noteq> n \<longrightarrow> resolve g' m = (if resolve g m = Some n then None else resolve g m))"
proof (cases "eg_entity_to_node g n")
  case None
  note G = entity_digraph_iff [OF assms(1)]
  have "map_of (eg_entities g) n = None"
    using None graph_ok_node [OF assms(2)] by simp
  moreover have "resolve g m \<noteq> Some n" for m
    using calculation resolve_known [OF assms(2), of m n] by auto
  ultimately show ?thesis
    using assms(2) entity_digraph.rel_map_remove [OF G assms(2), of n]
    by (auto simp: entity_digraph.remove_entity_unknown [OF G None] has_entity_def fun_eq_iff)
next
  case (Some i)
  note G = entity_digraph_iff [OF assms(1)]
  note F = entity_digraph.remove_entity_fields [OF G, of g n]
  have n: "eg_entity_to_node g n \<noteq> None" "map_of (eg_entities g) n \<noteq> None"
    using Some graph_ok_node [OF assms(2), of n] by auto
  show ?thesis
    using n entity_digraph.graph_ok_remove [OF G assms(2), of n]
      entity_digraph.rel_map_remove [OF G assms(2), of n] graph_okD(7) [OF assms(2)]
    by (auto simp: Let_def F entity_digraph.remove_entity_flag [OF G] has_entity_def fun_eq_iff
        resolve_def split: option.splits)
qed

theorem remove_entity_effect_witness:
  "rel_map list_petgraph (fst (remove_entity list_petgraph ''api'' demo_graph)) (''auth'', ''queue'', DependsOn) =
     rel_map list_petgraph demo_graph (''auth'', ''queue'', DependsOn)"
  using remove_entity_effect [OF lg.digraph_axioms demo_ok, of "''api''"] by (simp add: Let_def)

text \<open>
  Adding a relation makes both ends known (creating them as concepts when needed) and
  then changes the abstract map of relations in one place: the triple of the two entities
  and the type has the given context, whether it was there before or not. Two spellings of
  one entity are no relation. Mentions stay, and names keep resolving as they did.
\<close>

theorem add_relationship_effect:
  assumes "digraph P valid" and "graph_ok P valid g"
  shows "let g' = add_relationship P t r g in
    graph_ok P valid g' \<and> eg_entity_mentions g' = eg_entity_mentions g \<and>
    (\<forall>m d. resolve g m = Some d \<longrightarrow> resolve g' m = Some d) \<and>
    (\<exists>a b. resolve g' (er_from_entity r) = Some a \<and> resolve g' (er_to_entity r) = Some b \<and>
      rel_map P g' = (if a = b \<and> er_from_entity r \<noteq> er_to_entity r then rel_map P g
        else (rel_map P g)((a, b, er_relation_type r) \<mapsto> er_context r)))"
  using entity_digraph.add_relationship(1,2,3,4)
    [where g = g and t = t and r = r, OF entity_digraph_iff [OF assms(1)] assms(2)]
  by (simp add: Let_def)

theorem add_relationship_effect_witness:
  "resolve (add_relationship list_petgraph 9 (demo_rel ''db'' ''api'' Implements ''c'') demo_graph) ''A-P-I'' = Some ''api''"
  using add_relationship_effect [OF lg.digraph_axioms demo_ok, of 9 "demo_rel ''db'' ''api'' Implements ''c''"]
    demo_resolve(2)
  by (simp add: Let_def)



text \<open>
  Applying a record makes every entity it creates known, holds every relation it states,
  links the record once to each entity it mentions (at the end of the entity's list, unless
  it is there) and to no other, and leaves every name that was known where it was.
\<close>

theorem apply_update_spec:
  assumes "digraph P valid" and "graph_ok P valid g"
  shows "let g' = apply_update P clock u g in
    graph_ok P valid g' \<and>
    (\<forall>n \<in> set (if cu_typed_entities u = [] then cu_creates_entities u else map te_name (cu_typed_entities u)).
       resolve g' n \<noteq> None) \<and>
    (\<forall>r \<in> set (cu_creates_relationships u). holds_relation P g' r) \<and>
    (\<forall>c. map_of (eg_entity_mentions g') c =
      (if Some c \<in> resolve g' ` set (mentioned_names u)
       then Some (add_id (cu_id u) (unwrap_or (map_of (eg_entity_mentions g) c) []))
       else map_of (eg_entity_mentions g) c)) \<and>
    (\<forall>m d. resolve g m = Some d \<longrightarrow> resolve g' m = Some d)"
  using entity_digraph.apply_update [where u = u and clock = clock, OF entity_digraph_iff [OF assms(1)] assms(2)]
  unfolding Let_def graph_ext_def by blast

theorem apply_update_spec_witness:
  "resolve (apply_update list_petgraph (\<lambda>_. 9) (demo_record 7 9 ''Gateway'' [''A_P_I'', ''db''] demo_meta) demo_graph)
     ''A-P-I'' = Some ''api''"
  using apply_update_spec [OF lg.digraph_axioms demo_ok, of "\<lambda>_. 9" "demo_record 7 9 ''Gateway'' [''A_P_I'', ''db''] demo_meta"]
    demo_resolve(2)
  by (simp add: Let_def)

text \<open>
  Add_or_update_entity writes one record: a new entry of the given type under the
  written name when it is unknown, otherwise the entry the name resolves to, with the count, the
  time, a first description and the new spelling added. Relations and mentions are left
  alone, the written name resolves to that entry, and known names keep their meaning.
\<close>

theorem add_or_update_spec:
  assumes "digraph P valid" and "graph_ok P valid g"
  shows "let g' = add_or_update_entity P w ty t desc g; c = unwrap_or (resolve g w) w in
    graph_ok P valid g' \<and> rel_map P g' = rel_map P g \<and> eg_entity_mentions g' = eg_entity_mentions g \<and>
    map_of (eg_entities g') = (map_of (eg_entities g))(c \<mapsto>
      (case map_of (eg_entities g) c of
         None \<Rightarrow> new_entity w ty t desc | Some e \<Rightarrow> remention w t desc e)) \<and>
    resolve g' w = Some c \<and>
    (\<forall>m d. resolve g m = Some d \<longrightarrow> resolve g' m = Some d)"
  using entity_digraph.add_or_update
    [where w = w and ty = ty and t = t and desc = desc, OF entity_digraph_iff [OF assms(1)] assms(2)]
  by (simp add: Let_def)

theorem add_or_update_spec_witness:
  "resolve (add_or_update_entity list_petgraph ''A_P_I'' Technology 9 ''gateway'' demo_graph) ''A_P_I'' = Some ''api''"
proof -
  have "resolve demo_graph ''A_P_I'' = Some ''api''" by code_simp
  then show ?thesis
    using add_or_update_spec [OF lg.digraph_axioms demo_ok, of "''A_P_I''" Technology 9 "''gateway''"]
    by (simp add: Let_def)
qed

text \<open>
  Merging another graph in loses nothing: every name and alias of the other graph is
  known afterwards, every relation of it is held between the entities its ends stand for,
  every record it links to an entity is linked to the entity that name now stands for, and
  the names and relations this graph had are still there.
\<close>

theorem merge_from_spec:
  assumes "digraph P valid" and "graph_ok P valid g" and "graph_ok P valid h"
  shows "let g' = merge_from P clock h g in
    graph_ok P valid g' \<and>
    (\<forall>m d. resolve g m = Some d \<longrightarrow> resolve g' m = Some d) \<and>
    dom (rel_map P g) \<subseteq> dom (rel_map P g') \<and>
    (\<forall>n d. map_of (eg_entities h) n = Some d \<longrightarrow>
       (\<forall>m \<in> insert n (set (ed_aliases d)). resolve g' m \<noteq> None) \<and>
       set (unwrap_or (map_of (eg_entity_mentions h) n) []) \<subseteq>
       set (unwrap_or (map_of (eg_entity_mentions g') (the (resolve g' n))) [])) \<and>
    (\<forall>r \<in> set (relationships P h). holds_relation P g' r)"
proof -
  note M = entity_digraph.merge_from [where clock = clock, OF entity_digraph_iff [OF assms(1)] assms(2,3)]
  show ?thesis
    unfolding Let_def
    by (intro conjI allI impI ballI M(1) M(3) M(4) M(5) M(6))
      (use M(2) in \<open>auto simp: graph_ext_def\<close>)
qed

theorem merge_from_spec_witness:
  "holds_relation list_petgraph (merge_from list_petgraph (\<lambda>_. 9) demo_graph (new_graph list_petgraph))
       (demo_rel ''api'' ''auth'' RelatedTo ''calls'')"
proof -
  have "demo_rel ''api'' ''auth'' RelatedTo ''calls'' \<in> set (relationships list_petgraph demo_graph)"
    by code_simp
  then show ?thesis
    using merge_from_spec [OF lg.digraph_axioms eg.graph_ok_new demo_ok, of "\<lambda>_. 9"]
    by (simp add: Let_def)
qed

text \<open>
  The three lookups of relations read the same map. relationships lists every relation
  once, relationships_of exactly those with the entity at one end (a relation of an entity
  to itself once, not twice), relation_between exactly those between the two entities, in
  either direction.
\<close>

theorem relation_lookups:
  assumes "digraph P valid" and "graph_ok P valid g"
  shows "distinct (map rel_key (relationships P g)) \<and> distinct (map rel_key (relationships_of P g n)) \<and>
    (\<forall>r. (r \<in> set (relationships P g) \<longleftrightarrow> rel_map P g (rel_key r) = Some (er_context r)) \<and>
         (r \<in> set (relationships_of P g n) \<longleftrightarrow>
            r \<in> set (relationships P g) \<and> (er_from_entity r = n \<or> er_to_entity r = n)) \<and>
         (r \<in> set (relation_between P g a b) \<longleftrightarrow>
            r \<in> set (relationships P g) \<and>
            (er_from_entity r = a \<and> er_to_entity r = b \<or> er_from_entity r = b \<and> er_to_entity r = a)))"
proof -
  note G = entity_digraph_iff [OF assms(1)]
  note nok = graph_okD(1) [OF assms(2)]
  have "map rel_key (relationships P g) = map fst (rel_entries P g)"
    using arg_cong [OF entity_digraph.relationships_entries [OF G nok], of "map fst"]
    by (simp add: rel_pair_def o_def)
  then have "distinct (map rel_key (relationships P g))" using nodes_okD(5) [OF nok] by simp
  then show ?thesis
    by (simp add: entity_digraph.distinct_relationships_of [OF G assms(2)]
        entity_digraph.mem_relationships [OF G nok] entity_digraph.mem_relationships_of [OF G assms(2)]
        entity_digraph.mem_relation_between [OF G assms(2)])
qed

theorem relation_lookups_witness:
  "demo_rel ''auth'' ''queue'' DependsOn ''writes'' \<in> set (relation_between list_petgraph demo_graph ''queue'' ''auth'')"
proof -
  have "demo_rel ''auth'' ''queue'' DependsOn ''writes'' \<in> set (relationships list_petgraph demo_graph)"
    by code_simp
  then show ?thesis
    using relation_lookups [OF lg.digraph_axioms demo_ok, of "[]" "''queue''" "''auth''"]
    by (simp add: demo_rel_def)
qed

text \<open>
  Relinking from the stored records gives every entity exactly the records that mention
  it under any of its names, once each, in the order of their first mention in the list; it
  forgets every other link and touches nothing else.
\<close>

theorem relink_mentions_spec:
  assumes "digraph P valid" and "graph_ok P valid g"
  shows "let g' = relink_mentions us g;
             ids = (\<lambda>c. unwrap_or (map_of (eg_entity_mentions g') c) []) in
    graph_ok P valid g' \<and> resolve g' = resolve g \<and> rel_map P g' = rel_map P g \<and>
    (\<forall>c. ids c = fold add_id (map cu_id (filter (\<lambda>u. Some c \<in> resolve g ` set (mentioned_names u)) us)) [] \<and>
         distinct (ids c))"
  using entity_digraph.relink_mentions [OF entity_digraph_iff [OF assms(1)] assms(2)]
  by (simp add: Let_def distinct_fold_add_id)

theorem relink_mentions_spec_witness:
  "resolve (relink_mentions [demo_record 7 9 ''Gateway'' [''A_P_I''] demo_meta] demo_graph) = resolve demo_graph"
  using relink_mentions_spec [OF lg.digraph_axioms demo_ok, of "[demo_record 7 9 ''Gateway'' [''A_P_I''] demo_meta]"] by (simp add: Let_def)

text \<open>
  Spelling does not make new entities. After a name has been recorded, every spelling
  with the same key (letter case, blanks, hyphens and underscores aside) resolves to a stored
  entity, so recording it again only counts a mention: no entity and no node is added.
\<close>

theorem same_key_same_entity:
  assumes "digraph P valid" and "graph_ok P valid g"
    and "resolve g n = None" and "entity_key w = entity_key n"
  shows "let g1 = add_or_update_entity P n ty t desc g;
             g2 = add_or_update_entity P w ty' t' desc' g1 in
    resolve g1 w \<noteq> None \<and> (map_of (eg_entities g) w = None \<longrightarrow> resolve g1 w = Some n) \<and>
    dom (map_of (eg_entities g2)) = dom (map_of (eg_entities g1)) \<and>
    set (node_names P g2) = set (node_names P g1)"
proof -
  note G = entity_digraph_iff [OF assms(1)]
  let ?g1 = "add_or_update_entity P n ty t desc g"
  note A = entity_digraph.add_or_update [where w = n and ty = ty and t = t and desc = desc, OF G assms(2)]
  note B = entity_digraph.add_or_update [where w = w and ty = ty' and t = t' and desc = desc', OF G A(1)]
  have key: "eg_alias_index ?g1 (entity_key n) = Some n"
  proof -
    have "eg_alias_index g (entity_key n) = None"
      using assms(3) by (simp add: resolve_def split: option.splits)
    then show ?thesis
      by (simp add: entity_digraph.add_or_update_new [OF G assms(2,3)] or_insert_apply)
  qed
  have ents: "map_of (eg_entities ?g1) w = None \<longleftrightarrow> map_of (eg_entities g) w = None \<and> w \<noteq> n"
    using A(3) assms(3) by auto
  have r: "resolve ?g1 w \<noteq> None" "map_of (eg_entities g) w = None \<Longrightarrow> resolve ?g1 w = Some n"
    using key ents assms(4) by (auto simp: resolve_def split: option.splits)
  then obtain c where c: "resolve ?g1 w = Some c" by blast
  then have "c \<in> dom (map_of (eg_entities ?g1))" by (rule resolve_known [OF A(1)])
  then have "dom (map_of (eg_entities (add_or_update_entity P w ty' t' desc' ?g1))) = dom (map_of (eg_entities ?g1))"
    using B(3) c by auto
  then show ?thesis
    using r graph_okD(3) [OF A(1)] graph_okD(3) [OF B(1)] by (simp add: Let_def)
qed

theorem same_key_same_entity_witness:
  "resolve (add_or_update_entity list_petgraph ''DataBase'' Technology 4 [] demo_graph) ''data-base'' = Some ''DataBase''"
proof -
  have *: "resolve demo_graph ''DataBase'' = None" "entity_key ''data-base'' = entity_key ''DataBase''"
    "map_of (eg_entities demo_graph) ''data-base'' = None"
    by code_simp+
  show ?thesis
    using same_key_same_entity [OF lg.digraph_axioms demo_ok *(1,2), of Technology 4 "[]" Technology 5 "[]"] *(3)
    by (simp add: Let_def)
qed

section \<open>A stolen alias\<close>

text \<open>
  \<open>merge_entities\<close> overwrites the keys of the aliases it hands over, also a key that belongs to
  a third entity, where \<open>index_names\<close> leaves taken keys alone. The graph: \<open>x\<close>; \<open>a\<close> with the
  alias \<open>X\<close> taken over from another graph (the key stays with \<open>x\<close>); then \<open>a\<close> is merged into
  \<open>b\<close> and \<open>b\<close> is removed.
\<close>

definition stolen_ops :: "(edge_data list_graph entity_graph \<Rightarrow> edge_data list_graph entity_graph) list" where
  "stolen_ops =
    [add_or_update_entity list_petgraph ''x'' Concept 1 [],
     add_or_update_entity list_petgraph ''b'' Concept 2 [],
     merge_from list_petgraph (\<lambda>_. 3)
       (fst (merge_entities list_petgraph (\<lambda>_. 0) ''X'' ''a''
         (add_or_update_entity list_petgraph ''X'' Concept 0 []
           (add_or_update_entity list_petgraph ''a'' Concept 0 [] (new_graph list_petgraph))))),
     (\<lambda>g. fst (merge_entities list_petgraph (\<lambda>_. 4) ''a'' ''b'' g)),
     (\<lambda>g. fst (remove_entity list_petgraph ''b'' g)),
     add_or_update_entity list_petgraph ''X'' Concept 5 []]"

definition after_stolen :: "nat \<Rightarrow> edge_data list_graph entity_graph" where
  "after_stolen k = fold (\<lambda>f. f) (take k stolen_ops) (new_graph list_petgraph)"

text \<open>
  After an explicit merge the spelling X of the untouched entity x resolves to the
  merge target, and when that entity is removed the spelling is lost: recording X again
  makes a second entity with the same key as x.
\<close>

theorem merge_steals_alias:
  "resolve (after_stolen 3) ''X'' = Some ''x'' \<and> resolve (after_stolen 4) ''X'' = Some ''b'' \<and>
   resolve (after_stolen 4) ''x'' = Some ''x'' \<and> resolve (after_stolen 5) ''X'' = None \<and>
   map fst (eg_entities (after_stolen 6)) = [''X'', ''x''] \<and> entity_key ''X'' = entity_key ''x''"
  by (intro conjI; code_simp)

end
