(* ===== verification/Entity_Graph_Serde.thy ===== *)
theory Entity_Graph_Serde
  imports Entity_Graph_Props
begin

text \<open>
  The stored form of the entity graph (\<open>petgraph_serde\<close> and the \<open>Deserialize\<close> of
  \<open>SimpleEntityGraph\<close>): entities and mentions as they are, the nodes as a sorted list of
  names, the edges as sorted triples of names. Loading numbers the nodes in the order of the
  list, rebuilds both index maps and the alias index. The bytes of the format are serde's and
  not modelled.
\<close>

record graph_data =
  gd_entities :: "(string, entity_data) btree"
  gd_entity_mentions :: "(string, uuid list) btree"
  gd_nodes :: "string list"
  gd_edges :: "(string \<times> string \<times> edge_data) list"

definition named_edges :: "'g pg \<Rightarrow> 'g \<Rightarrow> (string \<times> string \<times> edge_data) list" where
  "named_edges P gr = List.map_filter (\<lambda>e.
     case node_weight P gr (er_source e) of None \<Rightarrow> None
     | Some from \<Rightarrow> (case node_weight P gr (er_target e) of None \<Rightarrow> None
         | Some to \<Rightarrow> Some (from, to, er_weight e))) (pg_edges P gr)"

definition serialize_graph :: "'g pg \<Rightarrow> 'g entity_graph \<Rightarrow> graph_data" where
  "serialize_graph P g =
     \<lparr>gd_entities = eg_entities g, gd_entity_mentions = eg_entity_mentions g,
      gd_nodes = sort (pg_nodes P (eg_graph g)),
      gd_edges = sort_key (\<lambda>(from, to, w). (from, to, ew_relation_type w)) (named_edges P (eg_graph g))\<rparr>"

fun load_nodes :: "'g pg \<Rightarrow> string list \<Rightarrow> 'g \<Rightarrow> 'g" where
  "load_nodes P [] gr = gr"
| "load_nodes P (n # ns) gr = load_nodes P ns (fst (pg_add_node P n gr))"

text \<open>\<open>name_index\<close> is the collected map from names to positions, \<open>index_name\<close> its inverse.\<close>

definition name_index :: "string list \<Rightarrow> string \<rightharpoonup> nat" where
  "name_index ns = fold (\<lambda>(i, n) m. m(n \<mapsto> i)) (zip [0..<length ns] ns) Map.empty"

definition index_name :: "string list \<Rightarrow> nat \<rightharpoonup> string" where
  "index_name ns = fold (\<lambda>(i, n) m. m(i \<mapsto> n)) (zip [0..<length ns] ns) Map.empty"

fun load_edges :: "'g pg \<Rightarrow> (string \<rightharpoonup> nat) \<Rightarrow> (string \<times> string \<times> edge_data) list \<Rightarrow> 'g \<Rightarrow> 'g" where
  "load_edges P idx [] gr = gr"
| "load_edges P idx ((from, to, w) # es) gr =
     load_edges P idx es
       (case (idx from, idx to) of
          (Some a, Some b) \<Rightarrow> pg_add_edge P a b w gr
        | _ \<Rightarrow> gr)"

definition load_graph :: "'g pg \<Rightarrow> graph_data \<Rightarrow> 'g" where
  "load_graph P d = load_edges P (name_index (gd_nodes d)) (gd_edges d) (load_nodes P (gd_nodes d) (pg_new P))"

definition deserialize_graph ::
  "'g pg \<Rightarrow> (nat \<Rightarrow> nat \<Rightarrow> datetime) \<Rightarrow> graph_data \<Rightarrow> 'g entity_graph" where
  "deserialize_graph P clocks d =
     (let gr = load_graph P d
      in rebuild_alias_index P clocks
           \<lparr>eg_entities = gd_entities d, eg_entity_mentions = gd_entity_mentions d, eg_graph = gr,
            eg_entity_to_node = name_index (pg_nodes P gr), eg_node_to_entity = index_name (pg_nodes P gr),
            eg_alias_index = Map.empty\<rparr>)"

section \<open>Index maps\<close>

lemma fold_zip_name:
  assumes "distinct ns" "length is = length ns"
  shows "fold (\<lambda>(i, n) m. m(n \<mapsto> i)) (zip is ns) m n =
    (if n \<in> set ns then map_of (zip ns is) n else m n)"
  using assms(2,1)
proof (induction "is" ns arbitrary: m rule: list_induct2)
  case (Cons i "is" x ns)
  then show ?case by (auto simp: map_of_zip_is_None)
qed simp

lemma name_index:
  assumes "distinct ns"
  shows "name_index ns n = Some i \<longleftrightarrow> i < length ns \<and> ns ! i = n"
proof -
  have d: "distinct (map fst (zip ns [0..<length ns]))" using assms by simp
  have "n \<notin> set ns \<Longrightarrow> map_of (zip ns [0..<length ns]) n = None"
    by (simp add: map_of_zip_is_None)
  then have "name_index ns n = map_of (zip ns [0..<length ns]) n"
    using assms by (cases "n \<in> set ns") (simp_all add: name_index_def fold_zip_name eq_commute [of None])
  then show ?thesis
    using map_of_eq_Some_iff [OF d] by (auto simp: in_set_zip)
qed

lemma fold_zip_index:
  "fold (\<lambda>(i, n) m. m(i \<mapsto> n)) (zip [k..<k + length ns] ns) m i =
    (if k \<le> i \<and> i < k + length ns then Some (ns ! (i - k)) else m i)"
proof (induction ns arbitrary: k m)
  case (Cons x ns)
  have "[k..<k + length (x # ns)] = k # [Suc k..<Suc k + length ns]"
    by (subst upt_conv_Cons) simp_all
  then show ?case using Cons.IH [of "Suc k" "m(k \<mapsto> x)"] by (auto simp: nth_Cons')
qed auto

lemma index_name: "index_name ns i = Some n \<longleftrightarrow> i < length ns \<and> ns ! i = n"
  using fold_zip_index [of 0 ns Map.empty i] by (auto simp: index_name_def)

context entity_digraph
begin

lemma load_nodes:
  "valid gr \<Longrightarrow> valid (load_nodes P ns gr) \<and> pg_nodes P (load_nodes P ns gr) = pg_nodes P gr @ ns \<and>
     pg_edges P (load_nodes P ns gr) = pg_edges P gr"
  by (induction ns arbitrary: gr) (simp_all add: valid_add_node nodes_add_node edges_add_node)

lemma load_edges:
  assumes "valid gr" and "\<And>n i. idx n = Some i \<longleftrightarrow> i < length (pg_nodes P gr) \<and> pg_nodes P gr ! i = n"
    and "\<forall>(f, t, w) \<in> set es. f \<in> set (pg_nodes P gr) \<and> t \<in> set (pg_nodes P gr)"
  shows "valid (load_edges P idx es gr) \<and> pg_nodes P (load_edges P idx es gr) = pg_nodes P gr \<and>
    map (rel_entry (pg_nodes P gr)) (map edge_triple (pg_edges P (load_edges P idx es gr))) =
      map (rel_entry (pg_nodes P gr)) (map edge_triple (pg_edges P gr)) @
      map (\<lambda>(f, t, w). ((f, t, ew_relation_type w), ew_context w)) es"
  using assms
proof (induction es arbitrary: gr)
  case (Cons e es)
  obtain f t w where e: "e = (f, t, w)" by (cases e)
  obtain a b where ab: "idx f = Some a" "idx t = Some b"
    using Cons.prems(2,3) unfolding e by (auto simp: in_set_conv_nth) 
  then have r: "a < length (pg_nodes P gr)" "pg_nodes P gr ! a = f" "b < length (pg_nodes P gr)" "pg_nodes P gr ! b = t"
    using Cons.prems(2) by auto
  let ?gr = "pg_add_edge P a b w gr"
  have gr: "valid ?gr" "pg_nodes P ?gr = pg_nodes P gr"
    using Cons.prems(1) r by (simp_all add: valid_add_edge nodes_add_edge)
  have "map (rel_entry (pg_nodes P gr)) (map edge_triple (pg_edges P ?gr)) =
      map (rel_entry (pg_nodes P gr)) (map edge_triple (pg_edges P gr)) @ [((f, t, ew_relation_type w), ew_context w)]"
    using Cons.prems(1) r by (simp add: edges_add_edge edge_triple_def rel_entry_def)
  then show ?case
    using Cons.IH [OF gr(1)] Cons.prems(2,3) by (simp add: gr(2) e ab)
qed simp

lemma named_edges_eq:
  assumes "nodes_ok P valid g"
  shows "named_edges P (eg_graph g) =
    map (\<lambda>e. (node_names P g ! er_source e, node_names P g ! er_target e, er_weight e)) (pg_edges P (eg_graph g))"
proof -
  have "List.map_filter (\<lambda>e. case node_weight P (eg_graph g) (er_source e) of None \<Rightarrow> None
     | Some from \<Rightarrow> (case node_weight P (eg_graph g) (er_target e) of None \<Rightarrow> None
         | Some to \<Rightarrow> Some (from, to, er_weight e))) es =
    map (\<lambda>e. (node_names P g ! er_source e, node_names P g ! er_target e, er_weight e)) es"
    if "set es \<subseteq> set (pg_edges P (eg_graph g))" for es
    using that edge_in_range [OF assms]
    by (induction es) (simp_all add: map_filter_simps node_weight_def node_names_def)
  then show ?thesis by (simp add: named_edges_def)
qed

lemma named_edges_entries:
  assumes ok: "nodes_ok P valid g"
  shows "map (\<lambda>(f, t, w). ((f, t, ew_relation_type w), ew_context w)) (named_edges P (eg_graph g)) = rel_entries P g"
    and "\<forall>(f, t, w) \<in> set (named_edges P (eg_graph g)). f \<in> set (node_names P g) \<and> t \<in> set (node_names P g)"
  using edge_in_range [OF ok]
  by (auto simp: named_edges_eq [OF ok] rel_entries_def rel_entry_edge node_names_def)

lemma load_graph:
  assumes ok: "nodes_ok P valid g"
  defines "gr \<equiv> load_graph P (serialize_graph P g)"
  shows "valid gr" and "pg_nodes P gr = sort (node_names P g)"
    and "map (rel_entry (pg_nodes P gr)) (map edge_triple (pg_edges P gr)) =
      map (\<lambda>(f, t, w). ((f, t, ew_relation_type w), ew_context w)) (gd_edges (serialize_graph P g))"
proof -
  let ?ns = "sort (node_names P g)" and ?es = "gd_edges (serialize_graph P g)"
  let ?g0 = "load_nodes P ?ns (pg_new P)"
  have g0: "valid ?g0" "pg_nodes P ?g0 = ?ns" "pg_edges P ?g0 = []"
    using load_nodes [OF valid_new, of ?ns] by (simp_all add: nodes_new edges_new)
  have d: "distinct ?ns" using nodes_okD(2) [OF ok] by simp
  have es: "\<forall>(f, t, w) \<in> set ?es. f \<in> set (pg_nodes P ?g0) \<and> t \<in> set (pg_nodes P ?g0)"
    using named_edges_entries(2) [OF ok] by (simp add: g0 serialize_graph_def)
  have gr: "gr = load_edges P (name_index ?ns) ?es ?g0"
    by (simp add: gr_def load_graph_def serialize_graph_def node_names_def)
  have "\<And>n i. name_index ?ns n = Some i \<longleftrightarrow> i < length (pg_nodes P ?g0) \<and> pg_nodes P ?g0 ! i = n"
    using name_index [OF d] by (simp add: g0)
  note L = load_edges [OF g0(1) this es, folded gr]
  show "valid gr" "pg_nodes P gr = ?ns" using L by (simp_all add: g0)
  show "map (rel_entry (pg_nodes P gr)) (map edge_triple (pg_edges P gr)) =
      map (\<lambda>(f, t, w). ((f, t, ew_relation_type w), ew_context w)) ?es"
    using L by (simp add: g0)
qed

text \<open>The graph before the alias index is rebuilt.\<close>

lemma loaded_ok:
  assumes ok: "graph_ok P valid g"
  defines "d \<equiv> serialize_graph P g"
  defines "h \<equiv> \<lparr>eg_entities = gd_entities d, eg_entity_mentions = gd_entity_mentions d,
      eg_graph = load_graph P d, eg_entity_to_node = name_index (pg_nodes P (load_graph P d)),
      eg_node_to_entity = index_name (pg_nodes P (load_graph P d)), eg_alias_index = Map.empty\<rparr>"
  shows "graph_ok P valid h" and "rel_map P h = rel_map P g"
proof -
  note nok = graph_okD(1) [OF ok]
  note L = load_graph [OF nok, folded d_def]
  let ?key = "\<lambda>(f, t, w). ((f, t, ew_relation_type w), ew_context w)"
  have names: "node_names P h = sort (node_names P g)" using L by (simp add: node_names_def h_def)
  have "rel_entries P h = map ?key (gd_edges d)" using L by (simp add: rel_entries_def h_def)
  moreover have "mset (map ?key (gd_edges d)) = mset (rel_entries P g)"
    by (simp add: d_def serialize_graph_def named_edges_entries(1) [OF nok, symmetric])
  ultimately have ms: "mset (rel_entries P h) = mset (rel_entries P g)" by simp
  then have "mset (map fst (rel_entries P h)) = mset (map fst (rel_entries P g))"
    by (simp only: mset_map)
  then have dr: "distinct (map fst (rel_entries P h))"
    using nodes_okD(5) [OF nok] mset_eq_imp_distinct_iff by blast
  show "rel_map P h = rel_map P g"
    unfolding rel_map_def by (rule map_of_mset_eq [OF ms dr])
  have dn: "distinct (node_names P h)" using nodes_okD(2) [OF nok] by (simp add: names)
  have "eg_graph h = load_graph P d" "eg_entity_to_node h = name_index (node_names P h)"
    "eg_node_to_entity h = index_name (node_names P h)"
    by (simp_all add: h_def node_names_def)
  then have "nodes_ok P valid h"
    using L(1) dn dr name_index [OF dn] index_name [of "node_names P h"]
    by (simp add: nodes_ok_def)
  moreover have "entities_ok h" "set (node_names P h) = dom (map_of (eg_entities h))"
    using graph_okD(2,3) [OF ok] by (simp_all add: names) (simp_all add: entities_ok_def h_def d_def serialize_graph_def)
  ultimately show "graph_ok P valid h" by (simp add: graph_ok_def)
qed

end

section \<open>Rebuilding the alias index without merges\<close>

definition entity_keys :: "entity_data \<Rightarrow> string set" where
  "entity_keys e = entity_key ` insert (ed_name e) (set (ed_aliases e))"

text \<open>No two entities have a key in common: what \<open>insert_entity\<close> and a rebuild enforce.\<close>

definition names_apart :: "entity_data set \<Rightarrow> bool" where
  "names_apart S \<longleftrightarrow> (\<forall>e \<in> S. \<forall>f \<in> S. entity_keys e \<inter> entity_keys f \<noteq> {} \<longrightarrow> ed_name e = ed_name f)"

definition index_sound :: "entity_data set \<Rightarrow> (string \<rightharpoonup> string) \<Rightarrow> bool" where
  "index_sound S m \<longleftrightarrow> (\<forall>k c. m k = Some c \<longrightarrow> (\<exists>e \<in> S. ed_name e = c \<and> k \<in> entity_keys e))"

lemma map_leD: "m \<subseteq>\<^sub>m m' \<Longrightarrow> m k = Some v \<Longrightarrow> m' k = Some v"
  by (metis domI map_le_def)

lemma mem_map_filter: "y \<in> set (List.map_filter f xs) \<longleftrightarrow> (\<exists>x \<in> set xs. f x = Some y)"
  by (auto simp: map_filter_def intro!: image_eqI)

lemma index_alias_apart:
  assumes "names_apart S" "index_sound S (fst st)" "snd st = []" "e \<in> S" "entity_key a \<in> entity_keys e"
  shows "index_sound S (fst (index_alias (ed_name e) a st)) \<and> snd (index_alias (ed_name e) a st) = [] \<and>
    fst (index_alias (ed_name e) a st) (entity_key a) = Some (ed_name e) \<and> fst st \<subseteq>\<^sub>m fst (index_alias (ed_name e) a st)"
proof (cases "fst st (entity_key a)")
  case None
  then show ?thesis using assms by (auto simp: index_alias_def index_sound_def map_le_def)
next
  case (Some owner)
  then obtain f where "f \<in> S" "ed_name f = owner" "entity_key a \<in> entity_keys f"
    using assms(2) unfolding index_sound_def by blast
  then have "owner = ed_name e" using assms(1,4,5) unfolding names_apart_def by blast
  then show ?thesis using Some assms by (simp add: index_alias_def)
qed

lemma index_entity_apart:
  assumes "names_apart S" "e \<in> S" "index_sound S (fst st)" "snd st = []"
    "set as \<subseteq> insert (ed_name e) (set (ed_aliases e))"
  shows "index_sound S (fst (fold (index_alias (ed_name e)) as st)) \<and>
    snd (fold (index_alias (ed_name e)) as st) = [] \<and>
    (\<forall>a \<in> set as. fst (fold (index_alias (ed_name e)) as st) (entity_key a) = Some (ed_name e)) \<and>
    fst st \<subseteq>\<^sub>m fst (fold (index_alias (ed_name e)) as st)"
  using assms(3-5)
proof (induction as arbitrary: st)
  case (Cons a as)
  have "entity_key a \<in> entity_keys e" using Cons.prems(3) by (auto simp: entity_keys_def)
  note A = index_alias_apart [OF assms(1) Cons.prems(1,2) assms(2) this]
  note I = Cons.IH [of "index_alias (ed_name e) a st"]
  show ?case
    using A I Cons.prems(3) by (auto intro: map_le_trans map_leD)
qed simp

lemma index_all_apart:
  assumes "names_apart S" "set es \<subseteq> S" "index_sound S (fst st)" "snd st = []"
  shows "snd (fold index_entity es st) = [] \<and>
    (\<forall>e \<in> set es. \<forall>k \<in> entity_keys e. fst (fold index_entity es st) k = Some (ed_name e)) \<and>
    fst st \<subseteq>\<^sub>m fst (fold index_entity es st)"
  using assms(2-4)
proof (induction es arbitrary: st)
  case (Cons e es)
  have A: "index_sound S (fst (index_entity e st)) \<and> snd (index_entity e st) = [] \<and>
      (\<forall>k \<in> entity_keys e. fst (index_entity e st) k = Some (ed_name e)) \<and> fst st \<subseteq>\<^sub>m fst (index_entity e st)"
    using index_entity_apart [OF assms(1), of e st "ed_name e # ed_aliases e"] Cons.prems
    by (auto simp: index_entity_def entity_keys_def)
  have "set es \<subseteq> S" "index_sound S (fst (index_entity e st))" "snd (index_entity e st) = []"
    using Cons.prems(1) A by simp_all
  note I = Cons.IH [OF this]
  have "fst (fold index_entity es (index_entity e st)) k = Some (ed_name e)" if "k \<in> entity_keys e" for k
    using A I that by (blast intro: map_leD)
  moreover have "fst st \<subseteq>\<^sub>m fst (fold index_entity es (index_entity e st))"
    using A I map_le_trans by blast
  ultimately show ?case using I by simp
qed simp

lemma rebuild_apart:
  assumes ok: "\<And>n e. map_of (eg_entities g) n = Some e \<Longrightarrow> ed_name e = n" and bt: "bt_ok (eg_entities g)"
    and apart: "names_apart (snd ` set (eg_entities g))"
  shows "\<exists>index. rebuild_alias_index P clocks g = g\<lparr>eg_alias_index := index\<rparr> \<and>
    (\<forall>(n, e) \<in> set (eg_entities g). \<forall>k \<in> entity_keys e. index k = Some n)"
proof -
  define es where "es = List.map_filter (\<lambda>(_, name). map_of (eg_entities g) name)
    (sort (map (\<lambda>(_, e). (ed_first_mentioned e, ed_name e)) (eg_entities g)))"
  have d: "distinct (map fst (eg_entities g))" by (rule bt_ok_distinct [OF bt])
  have sub: "set es \<subseteq> snd ` set (eg_entities g)"
    by (force simp: es_def mem_map_filter dest!: map_of_SomeD)
  have sup: "e \<in> set es" if "(n, e) \<in> set (eg_entities g)" for n e
  proof -
    have m: "map_of (eg_entities g) n = Some e" using that d by simp
    then have "ed_name e = n" by (rule ok)
    then show ?thesis
      using that m by (force simp: es_def mem_map_filter)
  qed
  obtain index merges where im: "fold index_entity es (Map.empty, []) = (index, merges)" by fastforce
  have "merges = [] \<and> (\<forall>e \<in> set es. \<forall>k \<in> entity_keys e. index k = Some (ed_name e))"
    using index_all_apart [OF apart sub, of "(Map.empty, [])"] by (simp add: im index_sound_def)
  moreover have "ed_name e = n" if "(n, e) \<in> set (eg_entities g)" for n e
    using that d ok by simp
  ultimately have "rebuild_alias_index P clocks g = g\<lparr>eg_alias_index := index\<rparr> \<and>
    (\<forall>(n, e) \<in> set (eg_entities g). \<forall>k \<in> entity_keys e. index k = Some n)"
    using sup by (force simp: rebuild_alias_index_def es_def [symmetric] im)
  then show ?thesis by blast
qed

section \<open>Properties\<close>

text \<open>
  A graph whose entities have no name key in common survives storing and loading: the
  same entities, mentions and relations, both index maps rebuilt for the new numbering of the
  nodes, and every name and alias resolves to its entity.
\<close>

theorem graph_serde_roundtrip:
  assumes "digraph P valid" and "graph_ok P valid g" and "names_apart (snd ` set (eg_entities g))"
  shows "let g' = deserialize_graph P clocks (serialize_graph P g) in
    graph_ok P valid g' \<and> eg_entities g' = eg_entities g \<and> eg_entity_mentions g' = eg_entity_mentions g \<and>
    rel_map P g' = rel_map P g \<and>
    (\<forall>(n, e) \<in> set (eg_entities g). \<forall>a \<in> insert n (set (ed_aliases e)).
       map_of (eg_entities g) a = None \<or> a = n \<longrightarrow> resolve g' a = Some n)"
proof -
  note G = entity_digraph_iff [OF assms(1)]
  note L = entity_digraph.loaded_ok [OF G assms(2)]
  let ?d = "serialize_graph P g"
  define h where "h = \<lparr>eg_entities = gd_entities ?d, eg_entity_mentions = gd_entity_mentions ?d,
      eg_graph = load_graph P ?d, eg_entity_to_node = name_index (pg_nodes P (load_graph P ?d)),
      eg_node_to_entity = index_name (pg_nodes P (load_graph P ?d)), eg_alias_index = Map.empty\<rparr>"
  have h: "eg_entities h = eg_entities g" "eg_entity_mentions h = eg_entity_mentions g"
    by (simp_all add: h_def serialize_graph_def)
  have g': "deserialize_graph P clocks ?d = rebuild_alias_index P clocks h"
    by (simp add: deserialize_graph_def h_def Let_def)
  obtain index where ix: "rebuild_alias_index P clocks h = h\<lparr>eg_alias_index := index\<rparr>"
      "\<forall>(n, e) \<in> set (eg_entities g). \<forall>k \<in> entity_keys e. index k = Some n"
    using rebuild_apart [of h P clocks] assms(3) graph_okD(4,6) [OF assms(2)] by (auto simp: h)
  have ok: "graph_ok P valid (deserialize_graph P clocks ?d)"
    unfolding g' by (rule entity_digraph.rebuild_ok [OF G L(1) [folded h_def]])
  have rm: "rel_map P (deserialize_graph P clocks ?d) = rel_map P g"
    using L(2) [folded h_def] by (simp add: g' ix(1))
  have "resolve (deserialize_graph P clocks ?d) a = Some n"
    if "(n, e) \<in> set (eg_entities g)" "a \<in> insert n (set (ed_aliases e))" "map_of (eg_entities g) a = None \<or> a = n" for n e a
  proof -
    have m: "map_of (eg_entities g) n = Some e"
      using that(1) bt_ok_distinct [OF graph_okD(4) [OF assms(2)]] by simp
    then have "ed_name e = n" by (rule graph_okD(6) [OF assms(2)])
    then have "entity_key a \<in> entity_keys e" using that(2) by (auto simp: entity_keys_def)
    then have "index (entity_key a) = Some n" using ix(2) that(1) by blast
    then show ?thesis using that(3) m by (auto simp: g' ix(1) resolve_def h split: option.split)
  qed
  then show ?thesis
    using ok rm by (auto simp: Let_def) (simp_all add: g' ix(1) h)
qed

theorem graph_serde_roundtrip_witness:
  "rel_map list_petgraph (deserialize_graph list_petgraph (\<lambda>_ _. 0) (serialize_graph list_petgraph demo_graph))
     = rel_map list_petgraph demo_graph"
proof -
  have "names_apart (snd ` set (eg_entities demo_graph))" by code_simp
  from graph_serde_roundtrip [OF lg.digraph_axioms demo_ok this, of "\<lambda>_ _. 0"]
  show ?thesis by (simp add: Let_def)
qed

end
