(* ===== verification/Bfs.thy ===== *)
theory Bfs
  imports Pcx_Prelude
begin

text \<open>
  Breadth-first search with a depth limit, as the traversals of the entity graph run it: a
  queue of (node, depth), a set of visited nodes, no expansion at the limit. The search is
  given fuel, one unit per dequeued node; the lemmas show that the number of nodes is enough,
  that the visited nodes are exactly those within the limit, and that each is queued once.
\<close>

fun bfs_push :: "nat \<Rightarrow> 'a list \<Rightarrow> 'a list \<times> ('a \<times> nat) list \<Rightarrow> 'a list \<times> ('a \<times> nat) list" where
  "bfs_push d [] st = st"
| "bfs_push d (v # vs) st =
     bfs_push d vs (if v \<in> set (fst st) then st else (fst st @ [v], snd st @ [(v, Suc d)]))"

text \<open>The result: the visited nodes and the expanded ones.\<close>

fun bfs :: "('a \<Rightarrow> 'a list) \<Rightarrow> nat \<Rightarrow> nat \<Rightarrow> 'a list \<Rightarrow> 'a list \<times> ('a \<times> nat) list \<Rightarrow> ('a list \<times> 'a list) option" where
  "bfs nbrs max_depth fuel expanded (visited, []) = Some (visited, expanded)"
| "bfs nbrs max_depth 0 expanded (visited, e # q) = None"
| "bfs nbrs max_depth (Suc fuel) expanded (visited, (u, d) # q) =
     (if d \<ge> max_depth then bfs nbrs max_depth fuel expanded (visited, q)
      else bfs nbrs max_depth fuel (expanded @ [u]) (bfs_push d (nbrs u) (visited, q)))"

primrec hops :: "('a \<Rightarrow> 'a set) \<Rightarrow> 'a \<Rightarrow> nat \<Rightarrow> 'a set" where
  "hops nb s 0 = {s}"
| "hops nb s (Suc k) = hops nb s k \<union> (\<Union>u \<in> hops nb s k. nb u)"

lemma hops_mono: "k \<le> l \<Longrightarrow> hops nb s k \<subseteq> hops nb s l"
  by (induction l) (auto simp: le_Suc_eq)

lemma hops_start: "s \<in> hops nb s k"
  by (induction k) auto

lemma hops_stable: "hops nb s (Suc k) = hops nb s k \<Longrightarrow> k \<le> l \<Longrightarrow> hops nb s l = hops nb s k"
proof (induction l)
  case (Suc l)
  then show ?case by (cases "k = Suc l") (simp_all add: le_Suc_eq)
qed simp

text \<open>The nodes a push adds: the new neighbours, each once, in order.\<close>

lemma bfs_push:
  "\<exists>new. bfs_push d vs (V, q) = (V @ new, q @ map (\<lambda>v. (v, Suc d)) new) \<and>
     set new = set vs - set V \<and> distinct new"
proof (induction vs arbitrary: V q)
  case (Cons v vs)
  show ?case
  proof (cases "v \<in> set V")
    case True
    then show ?thesis using Cons.IH [of V q] by auto
  next
    case False
    obtain new where "bfs_push d vs (V @ [v], q @ [(v, Suc d)]) =
        ((V @ [v]) @ new, (q @ [(v, Suc d)]) @ map (\<lambda>v. (v, Suc d)) new)"
      "set new = set vs - set (V @ [v])" "distinct new"
      using Cons.IH [of "V @ [v]" "q @ [(v, Suc d)]"] by blast
    then show ?thesis using False by (intro exI [of _ "v # new"]) auto
  qed
qed simp

text \<open>
  The state while depth \<open>d\<close> is processed: \<open>Q1\<close> are the nodes of that depth still to come,
  \<open>Q2\<close> the nodes found for the next one.
\<close>

definition bfs_inv :: "('a \<Rightarrow> 'a list) \<Rightarrow> 'a \<Rightarrow> nat \<Rightarrow> nat \<Rightarrow> 'a list \<Rightarrow> 'a list \<Rightarrow> 'a list \<Rightarrow> bool" where
  "bfs_inv nbrs s m d V Q1 Q2 \<longleftrightarrow>
     (let R = hops (\<lambda>u. set (nbrs u)) s in
      d \<le> m \<and> distinct V \<and> distinct Q1 \<and> distinct Q2 \<and> set Q1 \<subseteq> R d \<and>
      set V = R d \<union> (\<Union>u \<in> R d - set Q1. set (nbrs u)) \<and> set Q2 = set V - R d \<and>
      (d = m \<longrightarrow> Q2 = []))"

lemma bfs_inv_start: "bfs_inv nbrs s m 0 [s] [s] []"
  by (simp add: bfs_inv_def)

lemma bfs_inv_next:
  assumes "bfs_inv nbrs s m d V [] Q2" "Q2 \<noteq> []"
  shows "bfs_inv nbrs s m (Suc d) V Q2 []"
proof -
  let ?R = "hops (\<lambda>u. set (nbrs u)) s"
  have V: "set V = ?R (Suc d)" and Q2: "set Q2 = set V - ?R d" and "d \<noteq> m" "d \<le> m" "distinct V" "distinct Q2"
    using assms by (auto simp: bfs_inv_def Let_def)
  have "?R (Suc d) - set Q2 = ?R d" using V Q2 by auto
  then have "(\<Union>u \<in> ?R (Suc d) - set Q2. set (nbrs u)) \<subseteq> ?R (Suc d)" by auto
  then show ?thesis
    using V Q2 \<open>d \<noteq> m\<close> \<open>d \<le> m\<close> \<open>distinct V\<close> \<open>distinct Q2\<close>
    unfolding bfs_inv_def Let_def by (simp del: hops.simps) blast
qed

lemma bfs_inv_step:
  assumes inv: "bfs_inv nbrs s m d V (u # Q1) Q2" and d: "d < m"
    and new: "set new = set (nbrs u) - set V" "distinct new"
  shows "bfs_inv nbrs s m d (V @ new) Q1 (Q2 @ new)"
proof -
  let ?R = "hops (\<lambda>u. set (nbrs u)) s"
  have i: "distinct V" "distinct (u # Q1)" "distinct Q2" "set (u # Q1) \<subseteq> ?R d"
    "set V = ?R d \<union> (\<Union>x \<in> ?R d - set (u # Q1). set (nbrs x))" "set Q2 = set V - ?R d"
    using inv by (auto simp: bfs_inv_def Let_def)
  have "?R d - set Q1 = insert u (?R d - set (u # Q1))" using i(2,4) by auto
  then have "set (V @ new) = ?R d \<union> (\<Union>x \<in> ?R d - set Q1. set (nbrs x))" using i(5) new(1) by auto
  moreover have "set (Q2 @ new) = set (V @ new) - ?R d" using i(5,6) new(1) by auto
  moreover have "distinct (V @ new)" "distinct (Q2 @ new)" using i new by auto
  ultimately show ?thesis using i(2,4) d by (simp add: bfs_inv_def Let_def)
qed

lemma bfs_at_limit: "length q \<le> fuel \<Longrightarrow> \<forall>e \<in> set q. snd e \<ge> m \<Longrightarrow> bfs nbrs m fuel X (V, q) = Some (V, X)"
proof (induction q arbitrary: fuel)
  case (Cons e q)
  then show ?case by (cases fuel; cases e) auto
qed simp

abbreviation at_depth :: "nat \<Rightarrow> 'a list \<Rightarrow> ('a \<times> nat) list" where
  "at_depth d vs \<equiv> map (\<lambda>v. (v, d)) vs"

lemma bfs_inv_limit:
  assumes "bfs_inv nbrs s m m V Q1 Q2"
  shows "set V = hops (\<lambda>u. set (nbrs u)) s m \<and> Q2 = [] \<and> distinct V"
proof -
  let ?R = "hops (\<lambda>u. set (nbrs u)) s m"
  have "?R \<subseteq> set V" "set Q2 = set V - ?R" "Q2 = []" "distinct V"
    using assms unfolding bfs_inv_def Let_def by blast+
  then show ?thesis by auto
qed

lemma bfs_inv_done:
  assumes "bfs_inv nbrs s m d V [] []"
  shows "set V = hops (\<lambda>u. set (nbrs u)) s m \<and> distinct V"
proof -
  let ?R = "hops (\<lambda>u. set (nbrs u)) s"
  have V: "set V = ?R (Suc d)" "set V - ?R d = {}" "?R d \<subseteq> set V" "d \<le> m" "distinct V"
    using assms by (auto simp: bfs_inv_def Let_def)
  then have "?R (Suc d) = ?R d" by blast
  then have "?R m = ?R d" using V(4) by (rule hops_stable)
  then show ?thesis using V by blast
qed

lemma card_new:
  assumes "finite N" "set new \<subseteq> N - set V" "distinct new"
  shows "card (N - set V) = card (N - set (V @ new)) + length new"
proof -
  have "N - set (V @ new) = (N - set V) - set new" by auto
  moreover have "card (set new) \<le> card (N - set V)" using assms by (intro card_mono) auto
  ultimately show ?thesis
    using assms by (simp add: card_Diff_subset finite_subset distinct_card)
qed

text \<open>The nodes expanded so far: all of the levels below, and of this one those no longer to come.\<close>

definition expanded_ok :: "('a \<Rightarrow> 'a list) \<Rightarrow> 'a \<Rightarrow> nat \<Rightarrow> nat \<Rightarrow> 'a list \<Rightarrow> 'a list \<Rightarrow> bool" where
  "expanded_ok nbrs s m d X Q1 \<longleftrightarrow>
     (let R = hops (\<lambda>u. set (nbrs u)) s in
      set X = (if d < m then R d - set Q1 else if m = 0 then {} else R (m - 1)))"

lemma expanded_next:
  assumes "bfs_inv nbrs s m d V [] Q2" "Q2 \<noteq> []" "expanded_ok nbrs s m d X []"
  shows "expanded_ok nbrs s m (Suc d) X Q2"
proof -
  let ?R = "hops (\<lambda>u. set (nbrs u)) s"
  have *: "d < m" "set V = ?R (Suc d)" "set Q2 = set V - ?R d" "set X = ?R d"
    using assms by (auto simp: bfs_inv_def expanded_ok_def Let_def)
  then have "?R (Suc d) - set Q2 = ?R d" by auto
  moreover have "\<not> Suc d < m \<Longrightarrow> d = m - 1" using *(1) by simp
  ultimately show ?thesis using *(1,4) unfolding expanded_ok_def Let_def by (simp del: hops.simps)
qed

lemma bfs_done:
  assumes "bfs_inv nbrs s m d V [] []" "expanded_ok nbrs s m d X []"
  shows "distinct V \<and> set V = hops (\<lambda>u. set (nbrs u)) s m \<and>
    set X = (if m = 0 then {} else hops (\<lambda>u. set (nbrs u)) s (m - 1))"
proof -
  let ?R = "hops (\<lambda>u. set (nbrs u)) s"
  have "?R (m - 1) = ?R d" if "d < m"
  proof (rule hops_stable)
    have "set V = ?R (Suc d)" "set V - ?R d = {}"
      using assms(1) by (auto simp: bfs_inv_def Let_def)
    moreover have "?R d \<subseteq> ?R (Suc d)" by auto
    ultimately show "?R (Suc d) = ?R d" by blast
    show "d \<le> m - 1" using that by simp
  qed
  then show ?thesis
    using bfs_inv_done [OF assms(1)] assms(2) by (auto simp: expanded_ok_def Let_def)
qed

lemma bfs_correct_aux:
  assumes N: "finite N" "\<And>u. u \<in> N \<Longrightarrow> set (nbrs u) \<subseteq> N"
  shows "bfs_inv nbrs s m d V Q1 Q2 \<Longrightarrow> expanded_ok nbrs s m d X Q1 \<Longrightarrow> set V \<subseteq> N \<Longrightarrow>
    length Q1 + length Q2 + card (N - set V) \<le> fuel \<Longrightarrow>
    \<exists>W Y. bfs nbrs m fuel X (V, at_depth d Q1 @ at_depth (Suc d) Q2) = Some (W, Y) \<and> distinct W \<and>
      set W = hops (\<lambda>u. set (nbrs u)) s m \<and>
      set Y = (if m = 0 then {} else hops (\<lambda>u. set (nbrs u)) s (m - 1))"
proof (induction fuel arbitrary: d V Q1 Q2 X)
  case 0
  then have "Q1 = []" "Q2 = []" by simp_all
  then show ?case using bfs_done "0.prems"(1,2) by fastforce
next
  case (Suc fuel)
  let ?R = "hops (\<lambda>u. set (nbrs u)) s"
  let ?res = "\<lambda>r. \<exists>W Y. r = Some (W, Y) \<and> distinct W \<and> set W = ?R m \<and> set Y = (if m = 0 then {} else ?R (m - 1))"
  have step: "?res (bfs nbrs m (Suc fuel) X (V, at_depth d (u # Q1) @ at_depth (Suc d) Q2))"
    if inv: "bfs_inv nbrs s m d V (u # Q1) Q2" and X: "expanded_ok nbrs s m d X (u # Q1)"
      and len: "length Q1 + length Q2 + card (N - set V) \<le> fuel"
    for d u Q1 Q2
  proof (cases "d < m")
    case False
    then have "d = m" using inv by (simp add: bfs_inv_def Let_def)
    then show ?thesis using bfs_inv_limit [of nbrs s m V "u # Q1" Q2] inv len X
      by (auto simp: bfs_at_limit expanded_ok_def Let_def)
  next
    case True
    obtain new where new: "bfs_push d (nbrs u) (V, at_depth d Q1 @ at_depth (Suc d) Q2) =
        (V @ new, (at_depth d Q1 @ at_depth (Suc d) Q2) @ at_depth (Suc d) new)"
      "set new = set (nbrs u) - set V" "distinct new"
      using bfs_push [of d "nbrs u" V] by blast
    have u: "u \<in> set V" "u \<in> ?R d" "u \<notin> set Q1" using inv by (auto simp: bfs_inv_def Let_def)
    then have nN: "set new \<subseteq> N - set V" using new(2) N(2) Suc.prems(3) by auto
    have "length Q1 + length (Q2 @ new) + card (N - set (V @ new)) \<le> fuel"
      using card_new [OF N(1) nN new(3)] len by simp
    moreover have "set (V @ new) \<subseteq> N" using Suc.prems(3) nN by auto
    moreover have "expanded_ok nbrs s m d (X @ [u]) Q1"
      using X True u by (auto simp: expanded_ok_def Let_def)
    ultimately have "?res (bfs nbrs m fuel (X @ [u]) (V @ new, at_depth d Q1 @ at_depth (Suc d) (Q2 @ new)))"
      by (intro Suc.IH bfs_inv_step [OF inv True new(2,3)])
    then show ?thesis using True new(1) by simp
  qed
  show ?case
  proof (cases Q1)
    case (Cons u Q1')
    then show ?thesis using step Suc.prems(1,2,4) by simp
  next
    case Q1: Nil
    show ?thesis
    proof (cases Q2)
      case Nil
      then show ?thesis using bfs_done [of nbrs s m d V X] Suc.prems(1,2) Q1 by simp
    next
      case (Cons u Q2')
      then have inv: "bfs_inv nbrs s m (Suc d) V (u # Q2') []"
        using bfs_inv_next [of nbrs s m d V Q2] Suc.prems(1) Q1 by simp
      have "expanded_ok nbrs s m (Suc d) X (u # Q2')"
        using expanded_next [of nbrs s m d V Q2 X] Suc.prems(1,2) Q1 Cons by simp
      from step [OF inv this] Suc.prems(4) show ?thesis by (simp add: Cons Q1)
    qed
  qed
qed

theorem bfs_correct:
  assumes "finite N" "\<And>u. u \<in> N \<Longrightarrow> set (nbrs u) \<subseteq> N" "s \<in> N" "card N \<le> fuel"
  shows "\<exists>W Y. bfs nbrs m fuel [] ([s], [(s, 0)]) = Some (W, Y) \<and> distinct W \<and>
    set W = hops (\<lambda>u. set (nbrs u)) s m \<and>
    set Y = (if m = 0 then {} else hops (\<lambda>u. set (nbrs u)) s (m - 1))"
proof -
  have "1 + card (N - {s}) \<le> fuel" using assms by (metis Suc_eq_plus1_left card_Suc_Diff1)
  moreover have "expanded_ok nbrs s m 0 [] [s]" by (simp add: expanded_ok_def)
  ultimately show ?thesis
    using bfs_correct_aux [OF assms(1,2) bfs_inv_start, where m = m and fuel = fuel and X = "[]"] assms(3) by simp
qed

end
