(* ===== verification/Entity_Queries.thy ===== *)
theory Entity_Queries
  imports Entity_Graph_Serde Bfs
begin

text \<open>
  The read side of \<open>SimpleEntityGraph\<close>: neighbours, searches, and the traversals
  \<open>trace_entity_relationships\<close>, \<open>get_entity_network\<close> and \<open>get_entity_network_bounded\<close>. The
  traversal loops take fuel, one unit per dequeued entity; the node count is enough.
  \<open>order\<close> is the order in which iterating the hash map \<open>entity_to_node\<close> yields its keys.
\<close>

section \<open>Neighbours\<close>

definition find_node :: "string list \<Rightarrow> 'g entity_graph \<Rightarrow> string \<Rightarrow> nat option" where
  "find_node order g name =
     (case eg_entity_to_node g name of
        Some i \<Rightarrow> Some i
      | None \<Rightarrow>
          (case List.find (\<lambda>k. str_lower k = str_lower name) order of
             Some k \<Rightarrow> eg_entity_to_node g k
           | None \<Rightarrow> None))"

text \<open>Collecting into a \<open>BTreeSet\<close> and listing it.\<close>

definition btree_set :: "'a::linorder list \<Rightarrow> 'a list" where
  "btree_set xs = remdups (sort xs)"

definition neighbour_names :: "'g pg \<Rightarrow> 'g entity_graph \<Rightarrow> (relation_type \<Rightarrow> bool) \<Rightarrow> nat \<Rightarrow> string list" where
  "neighbour_names P g p node =
     btree_set
       (List.map_filter (\<lambda>e. if p (ew_relation_type (er_weight e)) then eg_node_to_entity g (er_target e) else None)
          (pg_edges_directed P Outgoing node (eg_graph g)) @
        List.map_filter (\<lambda>e. if p (ew_relation_type (er_weight e)) then eg_node_to_entity g (er_source e) else None)
          (pg_edges_directed P Incoming node (eg_graph g)))"

definition find_related_entities :: "'g pg \<Rightarrow> string list \<Rightarrow> 'g entity_graph \<Rightarrow> string \<Rightarrow> string list" where
  "find_related_entities P order g name =
     (case find_node order g name of None \<Rightarrow> [] | Some node \<Rightarrow> neighbour_names P g (\<lambda>_. True) node)"

definition find_related_entities_by_type ::
  "'g pg \<Rightarrow> string list \<Rightarrow> 'g entity_graph \<Rightarrow> string \<Rightarrow> relation_type \<Rightarrow> string list" where
  "find_related_entities_by_type P order g name ty =
     (case find_node order g name of None \<Rightarrow> [] | Some node \<Rightarrow> neighbour_names P g (\<lambda>t. t = ty) node)"

definition get_entity_relationships ::
  "'g pg \<Rightarrow> 'g entity_graph \<Rightarrow> string \<Rightarrow> (string \<times> relation_type \<times> string) list" where
  "get_entity_relationships P g name =
     (case eg_entity_to_node g name of
        None \<Rightarrow> []
      | Some node \<Rightarrow>
          List.map_filter (\<lambda>e. map_option (\<lambda>n. (n, ew_relation_type (er_weight e), ew_context (er_weight e)))
              (eg_node_to_entity g (er_target e))) (pg_edges_directed P Outgoing node (eg_graph g)) @
          List.map_filter (\<lambda>e. map_option (\<lambda>n. (n, ew_relation_type (er_weight e), ew_context (er_weight e)))
              (eg_node_to_entity g (er_source e))) (pg_edges_directed P Incoming node (eg_graph g)))"

definition get_all_relationships :: "'g pg \<Rightarrow> 'g entity_graph \<Rightarrow> entity_relationship list" where
  "get_all_relationships P g =
     List.map_filter (\<lambda>e.
       case eg_node_to_entity g (er_source e) of None \<Rightarrow> None
       | Some a \<Rightarrow> (case eg_node_to_entity g (er_target e) of None \<Rightarrow> None
           | Some b \<Rightarrow> Some \<lparr>er_from_entity = a, er_to_entity = b,
               er_relation_type = ew_relation_type (er_weight e), er_context = ew_context (er_weight e)\<rparr>))
       (pg_edges P (eg_graph g))"

section \<open>Searches\<close>

definition entity_values :: "'g entity_graph \<Rightarrow> entity_data list" where
  "entity_values g = map snd (eg_entities g)"

definition get_entities_by_type :: "'g entity_graph \<Rightarrow> entity_type \<Rightarrow> entity_data list" where
  "get_entities_by_type g ty = filter (\<lambda>e. ed_entity_type e = ty) (entity_values g)"

text \<open>
  \<open>top_k_by\<close> selects and sorts the \<open>limit\<close> smallest; with a comparison by a key that no two
  items share this is the prefix of the sorted list.
\<close>

definition top_k_by :: "('a \<Rightarrow> 'k::linorder) \<Rightarrow> nat \<Rightarrow> 'a list \<Rightarrow> 'a list" where
  "top_k_by key limit items = take limit (sort_key key items)"

definition get_recently_mentioned_entities :: "'g entity_graph \<Rightarrow> nat \<Rightarrow> entity_data list" where
  "get_recently_mentioned_entities g limit =
     top_k_by (\<lambda>e. (- ed_last_mentioned e, ed_name e)) limit (entity_values g)"

definition search_entities :: "'g entity_graph \<Rightarrow> string \<Rightarrow> entity_data list" where
  "search_entities g query =
     (case map_of (eg_entities g) query of
        Some e \<Rightarrow> [e]
      | None \<Rightarrow>
          (case map_of (eg_entities g) (str_lower query) of
             Some e \<Rightarrow> [e]
           | None \<Rightarrow>
               filter (\<lambda>e. contains_str (str_lower query) (str_lower (ed_name e)) \<or>
                   (case ed_description e of None \<Rightarrow> False
                    | Some d \<Rightarrow> contains_str (str_lower query) (str_lower d))) (entity_values g)))"

section \<open>Traversals\<close>

type_synonym trace_entry = "string \<times> string \<times> string"

type_synonym trace_state = "nat list \<times> (nat \<times> nat) list \<times> trace_entry list"

definition trace_out ::
  "'g entity_graph \<Rightarrow> string \<Rightarrow> nat \<Rightarrow> edge_data edge_ref \<Rightarrow> trace_state \<Rightarrow> trace_state" where
  "trace_out g current depth e = (\<lambda>(visited, queue, trace).
     if er_target e \<in> set visited then (visited, queue, trace)
     else (visited @ [er_target e], queue @ [(er_target e, Suc depth)],
           case eg_node_to_entity g (er_target e) of
             Some n \<Rightarrow> trace @ [(current, relation_type_debug (ew_relation_type (er_weight e)), n)]
           | None \<Rightarrow> trace))"

definition trace_in ::
  "'g entity_graph \<Rightarrow> string \<Rightarrow> nat \<Rightarrow> edge_data edge_ref \<Rightarrow> trace_state \<Rightarrow> trace_state" where
  "trace_in g current depth e = (\<lambda>(visited, queue, trace).
     if er_source e \<in> set visited then (visited, queue, trace)
     else (visited @ [er_source e], queue @ [(er_source e, Suc depth)],
           case eg_node_to_entity g (er_source e) of
             Some n \<Rightarrow> trace @ [(n, ''inverse_'' @ relation_type_debug (ew_relation_type (er_weight e)), current)]
           | None \<Rightarrow> trace))"

fun trace_loop :: "'g pg \<Rightarrow> 'g entity_graph \<Rightarrow> nat \<Rightarrow> nat \<Rightarrow> trace_state \<Rightarrow> trace_entry list option" where
  "trace_loop P g max_depth fuel (visited, [], trace) = Some trace"
| "trace_loop P g max_depth 0 (visited, e # queue, trace) = None"
| "trace_loop P g max_depth (Suc fuel) (visited, (u, depth) # queue, trace) =
     (if depth \<ge> max_depth then trace_loop P g max_depth fuel (visited, queue, trace)
      else
        case eg_node_to_entity g u of
          None \<Rightarrow> trace_loop P g max_depth fuel (visited, queue, trace)
        | Some current \<Rightarrow>
            trace_loop P g max_depth fuel
              (fold (trace_in g current depth) (pg_edges_directed P Incoming u (eg_graph g))
                (fold (trace_out g current depth) (pg_edges_directed P Outgoing u (eg_graph g))
                  (visited, queue, trace))))"

definition trace_entity_relationships ::
  "'g pg \<Rightarrow> 'g entity_graph \<Rightarrow> string \<Rightarrow> nat \<Rightarrow> trace_entry list option" where
  "trace_entity_relationships P g start max_depth =
     (case eg_entity_to_node g start of
        None \<Rightarrow> Some []
      | Some node \<Rightarrow>
          trace_loop P g max_depth (length (pg_nodes P (eg_graph g))) ([node], [(node, 0)], []))"

record entity_network =
  en_center :: string
  en_entities :: "(string, entity_data) btree"
  en_relationships :: "entity_relationship list"

record network_state =
  ns_visited :: "nat list"
  ns_queue :: "(nat \<times> nat) list"
  ns_seen :: "(string \<times> string \<times> relation_type) list"
  ns_network :: entity_network

text \<open>Add the node at the other end of an edge, then the relation itself.\<close>

definition network_visit :: "'g entity_graph \<Rightarrow> nat \<Rightarrow> nat \<Rightarrow> network_state \<Rightarrow> network_state" where
  "network_visit g depth node st =
     (if node \<in> set (ns_visited st) then st
      else
        st\<lparr>ns_visited := ns_visited st @ [node], ns_queue := ns_queue st @ [(node, Suc depth)],
           ns_network :=
             (case eg_node_to_entity g node of
                None \<Rightarrow> ns_network st
              | Some n \<Rightarrow>
                  (case map_of (eg_entities g) n of
                     None \<Rightarrow> ns_network st
                   | Some d \<Rightarrow> (ns_network st)\<lparr>en_entities := bt_insert n d (en_entities (ns_network st))\<rparr>))\<rparr>)"

definition network_relation ::
  "'g entity_graph \<Rightarrow> nat \<Rightarrow> nat \<Rightarrow> edge_data \<Rightarrow> network_state \<Rightarrow> network_state" where
  "network_relation g from_node to_node w st =
     (case (eg_node_to_entity g from_node, eg_node_to_entity g to_node) of
        (Some a, Some b) \<Rightarrow>
          if map_of (en_entities (ns_network st)) a \<noteq> None \<and> map_of (en_entities (ns_network st)) b \<noteq> None \<and>
             (a, b, ew_relation_type w) \<notin> set (ns_seen st)
          then st\<lparr>ns_seen := (a, b, ew_relation_type w) # ns_seen st,
                  ns_network := (ns_network st)\<lparr>en_relationships := en_relationships (ns_network st) @
                    [\<lparr>er_from_entity = a, er_to_entity = b, er_relation_type = ew_relation_type w,
                      er_context = ew_context w\<rparr>]\<rparr>\<rparr>
          else st
      | _ \<Rightarrow> st)"

definition network_out :: "'g entity_graph \<Rightarrow> nat \<Rightarrow> nat \<Rightarrow> edge_data edge_ref \<Rightarrow> network_state \<Rightarrow> network_state" where
  "network_out g u depth e st =
     network_relation g u (er_target e) (er_weight e) (network_visit g depth (er_target e) st)"

definition network_in :: "'g entity_graph \<Rightarrow> nat \<Rightarrow> nat \<Rightarrow> edge_data edge_ref \<Rightarrow> network_state \<Rightarrow> network_state" where
  "network_in g u depth e st =
     network_relation g (er_source e) u (er_weight e) (network_visit g depth (er_source e) st)"

fun network_loop :: "'g pg \<Rightarrow> 'g entity_graph \<Rightarrow> nat \<Rightarrow> nat \<Rightarrow> network_state \<Rightarrow> entity_network option" where
  "network_loop P g max_depth fuel st =
     (case ns_queue st of
        [] \<Rightarrow> Some (ns_network st)
      | (u, depth) # queue \<Rightarrow>
          (case fuel of
             0 \<Rightarrow> None
           | Suc fuel \<Rightarrow>
               (let st = st\<lparr>ns_queue := queue\<rparr> in
                if depth \<ge> max_depth then network_loop P g max_depth fuel st
                else
                  network_loop P g max_depth fuel
                    (fold (network_in g u depth) (pg_edges_directed P Incoming u (eg_graph g))
                      (fold (network_out g u depth) (pg_edges_directed P Outgoing u (eg_graph g)) st)))))"

declare network_loop.simps [simp del]

definition get_entity_network :: "'g pg \<Rightarrow> 'g entity_graph \<Rightarrow> string \<Rightarrow> nat \<Rightarrow> entity_network option" where
  "get_entity_network P g center max_depth =
     (let network = \<lparr>en_center = center, en_entities = [], en_relationships = []\<rparr> in
      case eg_entity_to_node g center of
        None \<Rightarrow> Some network
      | Some node \<Rightarrow>
          network_loop P g max_depth (length (pg_nodes P (eg_graph g)))
            (case map_of (eg_entities g) center of
               None \<Rightarrow> \<lparr>ns_visited = [], ns_queue = [], ns_seen = [], ns_network = network\<rparr>
             | Some d \<Rightarrow>
                 \<lparr>ns_visited = [node], ns_queue = [(node, 0)], ns_seen = [],
                  ns_network = network\<lparr>en_entities := bt_insert center d []\<rparr>\<rparr>))"

record bounded_state =
  bs_visited :: "string list"
  bs_queue :: "(string \<times> nat) list"
  bs_seen :: "(string \<times> string \<times> relation_type) list"
  bs_network :: entity_network

definition bounded_entity :: "'g entity_graph \<Rightarrow> nat \<Rightarrow> nat \<Rightarrow> string \<Rightarrow> bounded_state \<Rightarrow> bounded_state" where
  "bounded_entity g max_entities depth other st =
     (if length (en_entities (bs_network st)) < max_entities \<and> other \<notin> set (bs_visited st)
      then
        (case map_of (eg_entities g) other of
           None \<Rightarrow> st
         | Some d \<Rightarrow>
             st\<lparr>bs_visited := bs_visited st @ [other],
                bs_network := (bs_network st)\<lparr>en_entities := bt_insert other d (en_entities (bs_network st))\<rparr>,
                bs_queue := bs_queue st @ [(other, Suc depth)]\<rparr>)
      else st)"

definition bounded_relation :: "nat \<Rightarrow> entity_relationship \<Rightarrow> bounded_state \<Rightarrow> bounded_state" where
  "bounded_relation max_relationships r st =
     (let key = (er_from_entity r, er_to_entity r, er_relation_type r) in
      if length (en_relationships (bs_network st)) < max_relationships \<and>
         map_of (en_entities (bs_network st)) (er_from_entity r) \<noteq> None \<and>
         map_of (en_entities (bs_network st)) (er_to_entity r) \<noteq> None \<and> key \<notin> set (bs_seen st)
      then st\<lparr>bs_seen := key # bs_seen st,
              bs_network := (bs_network st)\<lparr>en_relationships := en_relationships (bs_network st) @ [r]\<rparr>\<rparr>
      else st)"

definition bounded_step ::
  "'g entity_graph \<Rightarrow> nat \<Rightarrow> nat \<Rightarrow> string \<Rightarrow> nat \<Rightarrow> entity_relationship \<Rightarrow> bounded_state \<Rightarrow> bounded_state" where
  "bounded_step g max_entities max_relationships name depth r st =
     bounded_relation max_relationships r
       (bounded_entity g max_entities depth
         (if er_from_entity r = name then er_to_entity r else er_from_entity r) st)"

fun bounded_loop ::
  "'g pg \<Rightarrow> 'g entity_graph \<Rightarrow> nat \<Rightarrow> nat \<Rightarrow> nat \<Rightarrow> nat \<Rightarrow> bounded_state \<Rightarrow> entity_network option" where
  "bounded_loop P g max_depth max_entities max_relationships fuel st =
     (case bs_queue st of
        [] \<Rightarrow> Some (bs_network st)
      | (name, depth) # queue \<Rightarrow>
          (case fuel of
             0 \<Rightarrow> None
           | Suc fuel \<Rightarrow>
               (let st = st\<lparr>bs_queue := queue\<rparr> in
                if depth \<ge> max_depth
                then bounded_loop P g max_depth max_entities max_relationships fuel st
                else if length (en_entities (bs_network st)) \<ge> max_entities \<and>
                        length (en_relationships (bs_network st)) \<ge> max_relationships
                then Some (bs_network st)
                else
                  bounded_loop P g max_depth max_entities max_relationships fuel
                    (fold (bounded_step g max_entities max_relationships name depth)
                      (relationships_of P g name) st))))"

declare bounded_loop.simps [simp del]

definition get_entity_network_bounded ::
  "'g pg \<Rightarrow> 'g entity_graph \<Rightarrow> string \<Rightarrow> nat \<Rightarrow> nat \<Rightarrow> nat \<Rightarrow> entity_network option" where
  "get_entity_network_bounded P g center max_depth max_entities max_relationships =
     (let network = \<lparr>en_center = center, en_entities = [], en_relationships = []\<rparr> in
      case map_of (eg_entities g) center of
        None \<Rightarrow> Some network
      | Some d \<Rightarrow>
          if max_entities = 0 \<or> eg_entity_to_node g center = None then Some network
          else
            bounded_loop P g max_depth max_entities max_relationships (length (eg_entities g))
              \<lparr>bs_visited = [center], bs_queue = [(center, 0)], bs_seen = [],
               bs_network = network\<lparr>en_entities := bt_insert center d []\<rparr>\<rparr>)"

end
