(* ===== verification/Entity_Queries_Props.thy ===== *)
theory Entity_Queries_Props
  imports Entity_Queries
begin

text \<open>
  The read operations against the abstract map of relations: neighbours, and the traversals as
  breadth-first search. \<open>related g x\<close> are the entities one relation away from \<open>x\<close>, in either
  direction, and \<open>hops\<close> the entities at most so many relations away.
\<close>

definition related :: "'g pg \<Rightarrow> 'g entity_graph \<Rightarrow> string \<Rightarrow> string set" where
  "related P g x = {y. \<exists>ty. rel_map P g (x, y, ty) \<noteq> None \<or> rel_map P g (y, x, ty) \<noteq> None}"

definition node_nbrs :: "'g pg \<Rightarrow> 'g entity_graph \<Rightarrow> nat \<Rightarrow> nat list" where
  "node_nbrs P g u = map er_target (pg_edges_directed P Outgoing u (eg_graph g)) @
     map er_source (pg_edges_directed P Incoming u (eg_graph g))"

definition trace_inv :: "'g pg \<Rightarrow> 'g entity_graph \<Rightarrow> string \<Rightarrow> nat list \<Rightarrow> trace_entry list \<Rightarrow> bool" where
  "trace_inv P g start V tr \<longleftrightarrow>
     set V \<subseteq> {..<length (node_names P g)} \<and> length V = Suc (length tr) \<and>
     insert start (\<Union>(a, l, b) \<in> set tr. {a, b}) = (\<lambda>i. node_names P g ! i) ` set V \<and>
     (\<forall>(a, l, b) \<in> set tr. \<exists>ty. rel_map P g (a, b, ty) \<noteq> None \<and>
        (l = relation_type_debug ty \<or> l = ''inverse_'' @ relation_type_debug ty))"

definition edge_key :: "'g pg \<Rightarrow> 'g entity_graph \<Rightarrow> edge_data edge_ref \<Rightarrow> rel_key" where
  "edge_key P g e = (node_names P g ! er_source e, node_names P g ! er_target e, ew_relation_type (er_weight e))"

text \<open>What the network holds of the visited nodes, and that its relations are the graph's.\<close>

definition network_inv :: "'g pg \<Rightarrow> 'g entity_graph \<Rightarrow> network_state \<Rightarrow> bool" where
  "network_inv P g st \<longleftrightarrow>
     set (ns_visited st) \<subseteq> {..<length (node_names P g)} \<and>
     bt_ok (en_entities (ns_network st)) \<and>
     map_of (en_entities (ns_network st)) = map_of (eg_entities g) |` ((!) (node_names P g) ` set (ns_visited st)) \<and>
     set (ns_seen st) = rel_key ` set (en_relationships (ns_network st)) \<and>
     distinct (map rel_key (en_relationships (ns_network st))) \<and>
     (\<forall>r \<in> set (en_relationships (ns_network st)). rel_map P g (rel_key r) = Some (er_context r))"

text \<open>The relations with an end among the given nodes.\<close>

definition touching :: "'g pg \<Rightarrow> 'g entity_graph \<Rightarrow> nat set \<Rightarrow> rel_key set" where
  "touching P g X = edge_key P g ` {e \<in> set (pg_edges P (eg_graph g)). er_source e \<in> X \<or> er_target e \<in> X}"

lemma network_loop_Nil: "ns_queue st = [] \<Longrightarrow> network_loop P g m fuel st = Some (ns_network st)"
  by (simp add: network_loop.simps)

lemma network_loop_Cons:
  "ns_queue st = (u, d) # q \<Longrightarrow> network_loop P g m (Suc fuel) st =
     (if d \<ge> m then network_loop P g m fuel (st\<lparr>ns_queue := q\<rparr>)
      else network_loop P g m fuel
        (fold (network_in g u d) (pg_edges_directed P Incoming u (eg_graph g))
          (fold (network_out g u d) (pg_edges_directed P Outgoing u (eg_graph g)) (st\<lparr>ns_queue := q\<rparr>))))"
  by (subst network_loop.simps) (simp add: Let_def)

lemma center_visit [simp]: "en_center (ns_network (network_visit g d v st)) = en_center (ns_network st)"
  by (simp add: network_visit_def split: option.split)

lemma center_relation [simp]: "en_center (ns_network (network_relation g a b w st)) = en_center (ns_network st)"
  by (simp add: network_relation_def split: option.split)

lemma center_fold:
  "en_center (ns_network (fold (network_out g u d) es st)) = en_center (ns_network st)"
  "en_center (ns_network (fold (network_in g u d) es st)) = en_center (ns_network st)"
  by (induction es arbitrary: st) (simp_all add: network_out_def network_in_def)

lemma hops_image:
  assumes "s \<in> N" "\<And>u. u \<in> N \<Longrightarrow> A u \<subseteq> N" "\<And>u. u \<in> N \<Longrightarrow> B (f u) = f ` A u"
  shows "f ` hops A s k = hops B (f s) k \<and> hops A s k \<subseteq> N"
proof (induction k)
  case (Suc k)
  have "(\<Union>u \<in> hops A s k. B (f u)) = f ` (\<Union>u \<in> hops A s k. A u)"
    using assms(3) Suc by (auto simp: image_UN intro!: SUP_cong)
  moreover have "(\<Union>x \<in> hops B (f s) k. B x) = (\<Union>u \<in> hops A s k. B (f u))"
    using Suc by (metis UN_simps(10))
  moreover have "(\<Union>u \<in> hops A s k. A u) \<subseteq> N" using Suc assms(2) by blast
  ultimately show ?case using Suc by (simp add: image_Un)
qed (use assms(1) in simp)

context entity_digraph
begin

lemma rel_map_edge:
  assumes ok: "nodes_ok P valid g"
  shows "rel_map P g (a, b, ty) \<noteq> None \<longleftrightarrow>
    (\<exists>e \<in> set (pg_edges P (eg_graph g)). node_names P g ! er_source e = a \<and> node_names P g ! er_target e = b \<and>
       ew_relation_type (er_weight e) = ty)"
  by (auto simp: rel_map_def map_of_eq_None_iff set_rel_entries image_iff)

lemma node_nbrs_range:
  assumes ok: "nodes_ok P valid g"
  shows "set (node_nbrs P g u) \<subseteq> {..<length (node_names P g)}"
  using edge_in_range [OF ok] by (auto simp: node_nbrs_def set_directed [OF nodes_okD(1) [OF ok]])

lemma node_nbrs_names:
  assumes ok: "nodes_ok P valid g" and u: "u < length (node_names P g)"
  shows "related P g (node_names P g ! u) = (\<lambda>i. node_names P g ! i) ` set (node_nbrs P g u)"
proof -
  note v = nodes_okD(1) [OF ok] and d = nodes_okD(2) [OF ok]
  have eq: "node_names P g ! i = node_names P g ! u \<longleftrightarrow> i = u" if "i < length (node_names P g)" for i
    using that u d by (simp add: nth_eq_iff_index_eq)
  have "related P g (node_names P g ! u) = {y. \<exists>e \<in> set (pg_edges P (eg_graph g)).
      er_source e = u \<and> node_names P g ! er_target e = y \<or> er_target e = u \<and> node_names P g ! er_source e = y}"
    unfolding related_def rel_map_edge [OF ok] using edge_in_range [OF ok] eq by blast
  then show ?thesis
    by (auto simp: node_nbrs_def set_directed [OF v])
qed

lemma node_names_lookup:
  "nodes_ok P valid g \<Longrightarrow> i < length (node_names P g) \<Longrightarrow> eg_node_to_entity g i = Some (node_names P g ! i)"
  using nodes_okD(4) [of P valid g i] by simp

text \<open>The breadth-first search of the nodes, read at the level of names.\<close>

lemma bfs_names:
  assumes ok: "graph_ok P valid g" and s: "eg_entity_to_node g start = Some i"
  shows "\<exists>W Y. bfs (node_nbrs P g) m (length (node_names P g)) [] ([i], [(i, 0)]) = Some (W, Y) \<and> distinct W \<and>
    set W \<subseteq> {..<length (node_names P g)} \<and>
    (\<lambda>i. node_names P g ! i) ` set W = hops (related P g) start m \<and>
    set Y \<subseteq> {..<length (node_names P g)} \<and>
    (\<lambda>i. node_names P g ! i) ` set Y = (if m = 0 then {} else hops (related P g) start (m - 1))"
proof -
  note nok = graph_okD(1) [OF ok]
  have i: "i < length (node_names P g)" "node_names P g ! i = start" using node_name [OF ok s] by auto
  obtain W Y where W: "bfs (node_nbrs P g) m (length (node_names P g)) [] ([i], [(i, 0)]) = Some (W, Y)" "distinct W"
      "set W = hops (\<lambda>u. set (node_nbrs P g u)) i m"
      "set Y = (if m = 0 then {} else hops (\<lambda>u. set (node_nbrs P g u)) i (m - 1))"
    using bfs_correct [of "{..<length (node_names P g)}" "node_nbrs P g" i "length (node_names P g)" m]
      node_nbrs_range [OF nok] i by auto
  have "(\<lambda>i. node_names P g ! i) ` hops (\<lambda>u. set (node_nbrs P g u)) i k = hops (related P g) (node_names P g ! i) k \<and>
      hops (\<lambda>u. set (node_nbrs P g u)) i k \<subseteq> {..<length (node_names P g)}" for k
    using node_nbrs_range [OF nok] node_nbrs_names [OF nok] i by (intro hops_image) auto
  then show ?thesis using W i by auto
qed

section \<open>Tracing\<close>

lemma trace_out_push:
  "\<exists>tr'. fold (trace_out g cur d) es (V, q, tr) =
     (fst (bfs_push d (map er_target es) (V, q)), snd (bfs_push d (map er_target es) (V, q)), tr')"
  by (induction es arbitrary: V q tr) (simp_all add: trace_out_def)

lemma trace_in_push:
  "\<exists>tr'. fold (trace_in g cur d) es (V, q, tr) =
     (fst (bfs_push d (map er_source es) (V, q)), snd (bfs_push d (map er_source es) (V, q)), tr')"
  by (induction es arbitrary: V q tr) (simp_all add: trace_in_def)

lemma trace_new:
  "er_target e \<notin> set V \<Longrightarrow> eg_node_to_entity g (er_target e) = Some n \<Longrightarrow> trace_out g c d e (V, q, tr) =
     (V @ [er_target e], q @ [(er_target e, Suc d)], tr @ [(c, relation_type_debug (ew_relation_type (er_weight e)), n)])"
  "er_source e \<notin> set V \<Longrightarrow> eg_node_to_entity g (er_source e) = Some n \<Longrightarrow> trace_in g c d e (V, q, tr) =
     (V @ [er_source e], q @ [(er_source e, Suc d)],
      tr @ [(n, ''inverse_'' @ relation_type_debug (ew_relation_type (er_weight e)), c)])"
  by (simp_all add: trace_out_def trace_in_def)

lemma trace_out_inv:
  assumes ok: "nodes_ok P valid g" and es: "\<forall>e \<in> set es. e \<in> set (pg_edges P (eg_graph g)) \<and> er_source e = u"
    and u: "u \<in> set V" and inv: "trace_inv P g start V tr"
    and f: "fold (trace_out g (node_names P g ! u) d) es (V, q, tr) = (V', q', tr')"
  shows "trace_inv P g start V' tr' \<and> set V \<subseteq> set V'"
  using es u inv f
proof (induction es arbitrary: V q tr)
  case (Cons e es)
  have e: "e \<in> set (pg_edges P (eg_graph g))" "er_source e = u" "er_target e < length (node_names P g)"
    using Cons.prems(1) edge_in_range [OF ok, of e] by auto
  show ?case
  proof (cases "er_target e \<in> set V")
    case True
    then show ?thesis using Cons by (simp add: trace_out_def)
  next
    case False
    let ?ty = "ew_relation_type (er_weight e)"
    let ?n = "node_names P g ! er_target e"
    let ?tr = "tr @ [(node_names P g ! u, relation_type_debug ?ty, ?n)]"
    have "rel_map P g (node_names P g ! u, ?n, ?ty) \<noteq> None"
      unfolding rel_map_edge [OF ok] using e by auto
    then have "trace_inv P g start (V @ [er_target e]) ?tr"
      using Cons.prems(2,3) e(3) unfolding trace_inv_def by auto
    moreover have "fold (trace_out g (node_names P g ! u) d) es
        (V @ [er_target e], q @ [(er_target e, Suc d)], ?tr) = (V', q', tr')"
      using Cons.prems(4) False by (simp add: trace_new node_names_lookup [OF ok e(3)])
    ultimately show ?thesis
      using Cons.IH [of "V @ [er_target e]"] Cons.prems(1,2) by auto
  qed
qed simp

lemma trace_in_inv:
  assumes ok: "nodes_ok P valid g" and es: "\<forall>e \<in> set es. e \<in> set (pg_edges P (eg_graph g)) \<and> er_target e = u"
    and u: "u \<in> set V" and inv: "trace_inv P g start V tr"
    and f: "fold (trace_in g (node_names P g ! u) d) es (V, q, tr) = (V', q', tr')"
  shows "trace_inv P g start V' tr' \<and> set V \<subseteq> set V'"
  using es u inv f
proof (induction es arbitrary: V q tr)
  case (Cons e es)
  have e: "e \<in> set (pg_edges P (eg_graph g))" "er_target e = u" "er_source e < length (node_names P g)"
    using Cons.prems(1) edge_in_range [OF ok, of e] by auto
  show ?case
  proof (cases "er_source e \<in> set V")
    case True
    then show ?thesis using Cons by (simp add: trace_in_def)
  next
    case False
    let ?ty = "ew_relation_type (er_weight e)"
    let ?n = "node_names P g ! er_source e"
    let ?tr = "tr @ [(?n, ''inverse_'' @ relation_type_debug ?ty, node_names P g ! u)]"
    have "rel_map P g (?n, node_names P g ! u, ?ty) \<noteq> None"
      unfolding rel_map_edge [OF ok] using e by auto
    then have "trace_inv P g start (V @ [er_source e]) ?tr"
      using Cons.prems(2,3) e(3) unfolding trace_inv_def by auto
    moreover have "fold (trace_in g (node_names P g ! u) d) es
        (V @ [er_source e], q @ [(er_source e, Suc d)], ?tr) = (V', q', tr')"
      using Cons.prems(4) False by (simp add: trace_new node_names_lookup [OF ok e(3)])
    ultimately show ?thesis
      using Cons.IH [of "V @ [er_source e]"] Cons.prems(1,2) by auto
  qed
qed simp

lemma bfs_push_append: "bfs_push d (xs @ ys) st = bfs_push d ys (bfs_push d xs st)"
  by (induction xs arbitrary: st) simp_all

lemma bfs_push_sub:
  assumes "bfs_push d vs (V, q) = (V', q')"
  shows "set V' = set V \<union> set vs \<and> (\<forall>e \<in> set q'. e \<in> set q \<or> fst e \<in> set V')"
proof -
  obtain new where n: "bfs_push d vs (V, q) = (V @ new, q @ map (\<lambda>v. (v, Suc d)) new)" "set new = set vs - set V"
    using bfs_push [of d vs V q] by blast
  from n(1) assms have "V' = V @ new" "q' = q @ map (\<lambda>v. (v, Suc d)) new" by simp_all
  then have "set V' = set V \<union> set new" "set q' = set q \<union> (\<lambda>v. (v, Suc d)) ` set new" by simp_all
  moreover have "set V \<union> set new = set V \<union> set vs" using n(2) by blast
  ultimately show ?thesis by auto
qed

text \<open>The trace loop runs the breadth-first search of the nodes and keeps its invariant.\<close>

lemma trace_loop_bfs:
  assumes ok: "nodes_ok P valid g"
  shows "trace_inv P g start V tr \<Longrightarrow> fst ` set q \<subseteq> set V \<Longrightarrow> bfs (node_nbrs P g) m fuel X (V, q) = Some (W, Y) \<Longrightarrow>
    \<exists>tr'. trace_loop P g m fuel (V, q, tr) = Some tr' \<and> trace_inv P g start W tr'"
proof (induction fuel arbitrary: V q tr X)
  case 0
  then show ?case by (cases q) auto
next
  case (Suc fuel)
  show ?case
  proof (cases q)
    case Nil
    then show ?thesis using Suc.prems by auto
  next
    case (Cons e q0)
    obtain u d where e: "e = (u, d)" by fastforce
    have u: "u \<in> set V" "u < length (node_names P g)"
      using Suc.prems(1,2) by (auto simp: Cons e trace_inv_def)
    show ?thesis
    proof (cases "d \<ge> m")
      case True
      then show ?thesis using Suc by (simp add: Cons e)
    next
      case False
      let ?out = "pg_edges_directed P Outgoing u (eg_graph g)"
      let ?in = "pg_edges_directed P Incoming u (eg_graph g)"
      let ?n = "node_names P g ! u"
      note v = nodes_okD(1) [OF ok]
      obtain V1 q1 tr1 where 1: "fold (trace_out g ?n d) ?out (V, q0, tr) = (V1, q1, tr1)" by (metis prod_cases3)
      obtain V2 q2 tr2 where 2: "fold (trace_in g ?n d) ?in (V1, q1, tr1) = (V2, q2, tr2)" by (metis prod_cases3)
      have i1: "trace_inv P g start V1 tr1 \<and> set V \<subseteq> set V1"
        by (rule trace_out_inv [OF ok _ u(1) Suc.prems(1) 1]) (simp add: set_directed [OF v])
      have i2: "trace_inv P g start V2 tr2 \<and> set V1 \<subseteq> set V2"
        by (rule trace_in_inv [OF ok _ _ _ 2]) (use i1 u(1) in \<open>auto simp: set_directed [OF v]\<close>)
      have p: "bfs_push d (node_nbrs P g u) (V, q0) = (V2, q2)"
        using trace_out_push [of g ?n d ?out V q0 tr] trace_in_push [of g ?n d ?in V1 q1 tr1] 1 2
        by (auto simp: node_nbrs_def bfs_push_append prod_eq_iff)
      have "fst ` set q2 \<subseteq> set V2"
        using bfs_push_sub [OF p] Suc.prems(2) by (auto simp: Cons)
      moreover have "bfs (node_nbrs P g) m fuel (X @ [u]) (V2, q2) = Some (W, Y)"
        using Suc.prems(3) False p by (simp add: Cons e)
      ultimately obtain tr' where "trace_loop P g m fuel (V2, q2, tr2) = Some tr' \<and> trace_inv P g start W tr'"
        using Suc.IH [of V2 tr2 q2 "X @ [u]"] i2 by blast
      then show ?thesis
        using False 1 2 by (simp add: Cons e node_names_lookup [OF ok u(2)])
    qed
  qed
qed

section \<open>Networks\<close>

lemma touching_names:
  assumes ok: "nodes_ok P valid g" and Y: "Y \<subseteq> {..<length (node_names P g)}"
  shows "k \<in> touching P g Y \<longleftrightarrow> rel_map P g k \<noteq> None \<and>
    (fst k \<in> (!) (node_names P g) ` Y \<or> fst (snd k) \<in> (!) (node_names P g) ` Y)"
proof -
  obtain a b ty where k: "k = (a, b, ty)" by (cases k)
  have eq: "node_names P g ! i \<in> (!) (node_names P g) ` Y \<longleftrightarrow> i \<in> Y" if "i < length (node_names P g)" for i
    using that Y nodes_okD(2) [OF ok] by (auto simp: nth_eq_iff_index_eq subset_iff)
  show ?thesis
    unfolding k rel_map_edge [OF ok] touching_def edge_key_def
    using edge_in_range [OF ok] eq by fastforce
qed

lemma rel_map_of_edge:
  assumes "nodes_ok P valid g" "e \<in> set (pg_edges P (eg_graph g))"
  shows "rel_map P g (edge_key P g e) = Some (ew_context (er_weight e))"
  using assms nodes_okD(5) [OF assms(1)]
  by (auto simp: rel_map_def set_rel_entries edge_key_def intro!: map_of_is_SomeI)

lemma network_visit_inv:
  assumes ok: "graph_ok P valid g" and v: "v < length (node_names P g)" and inv: "network_inv P g st"
  shows "network_inv P g (network_visit g d v st)"
    and "(ns_visited (network_visit g d v st), ns_queue (network_visit g d v st)) =
      bfs_push d [v] (ns_visited st, ns_queue st)"
    and "ns_seen (network_visit g d v st) = ns_seen st"
proof -
  let ?n = "node_names P g ! v"
  have n: "eg_node_to_entity g v = Some ?n" by (rule node_names_lookup [OF graph_okD(1) [OF ok] v])
  have "?n \<in> dom (map_of (eg_entities g))" using graph_okD(3) [OF ok] v by force
  then obtain d' where d': "map_of (eg_entities g) ?n = Some d'" by blast
  show "network_inv P g (network_visit g d v st)"
  proof (cases "v \<in> set (ns_visited st)")
    case False
    have "(map_of (eg_entities g) |` ((!) (node_names P g) ` set (ns_visited st)))(?n \<mapsto> d') =
        map_of (eg_entities g) |` ((!) (node_names P g) ` set (ns_visited st @ [v]))"
      using d' by (auto simp: restrict_map_def fun_eq_iff)
    then show ?thesis
      using inv v False by (simp add: network_inv_def network_visit_def n d')
  qed (use inv in \<open>simp add: network_visit_def\<close>)
  show "(ns_visited (network_visit g d v st), ns_queue (network_visit g d v st)) =
      bfs_push d [v] (ns_visited st, ns_queue st)" "ns_seen (network_visit g d v st) = ns_seen st"
    by (simp_all add: network_visit_def)
qed

lemma network_relation_inv:
  assumes ok: "graph_ok P valid g" and e: "e \<in> set (pg_edges P (eg_graph g))" and inv: "network_inv P g st"
    and vis: "er_source e \<in> set (ns_visited st)" "er_target e \<in> set (ns_visited st)"
  defines "st' \<equiv> network_relation g (er_source e) (er_target e) (er_weight e) st"
  shows "network_inv P g st'" and "ns_visited st' = ns_visited st" and "ns_queue st' = ns_queue st"
    and "set (ns_seen st') = insert (edge_key P g e) (set (ns_seen st))"
proof -
  note nok = graph_okD(1) [OF ok]
  have r: "er_source e < length (node_names P g)" "er_target e < length (node_names P g)"
    using edge_in_range [OF nok e] by auto
  let ?a = "node_names P g ! er_source e" and ?b = "node_names P g ! er_target e"
  have ents: "map_of (en_entities (ns_network st)) ?a \<noteq> None" "map_of (en_entities (ns_network st)) ?b \<noteq> None"
  proof -
    have "?a \<in> dom (map_of (eg_entities g))" "?b \<in> dom (map_of (eg_entities g))"
      using graph_okD(3) [OF ok] r by force+
    then show "map_of (en_entities (ns_network st)) ?a \<noteq> None" "map_of (en_entities (ns_network st)) ?b \<noteq> None"
      using inv vis by (auto simp: network_inv_def restrict_map_def)
  qed
  let ?r = "\<lparr>er_from_entity = ?a, er_to_entity = ?b, er_relation_type = ew_relation_type (er_weight e),
    er_context = ew_context (er_weight e)\<rparr>"
  have key: "edge_key P g e = rel_key ?r" by (simp add: edge_key_def rel_key_def)
  have st': "st' = (if edge_key P g e \<in> set (ns_seen st) then st
      else st\<lparr>ns_seen := edge_key P g e # ns_seen st,
        ns_network := (ns_network st)\<lparr>en_relationships := en_relationships (ns_network st) @ [?r]\<rparr>\<rparr>)"
    unfolding st'_def network_relation_def node_names_lookup [OF nok r(1)] node_names_lookup [OF nok r(2)]
    using ents by (simp add: edge_key_def)
  have "rel_map P g (rel_key ?r) = Some (er_context ?r)"
    using rel_map_of_edge [OF nok e] by (simp add: edge_key_def rel_key_def)
  then show "network_inv P g st'"
    using inv by (auto simp: st' network_inv_def key)
  show "ns_visited st' = ns_visited st" "ns_queue st' = ns_queue st"
    "set (ns_seen st') = insert (edge_key P g e) (set (ns_seen st))"
    by (auto simp: st')
qed

lemma network_out_fold:
  assumes ok: "graph_ok P valid g"
  shows "\<forall>e \<in> set es. e \<in> set (pg_edges P (eg_graph g)) \<and> er_source e = u \<Longrightarrow>
    u \<in> set (ns_visited st) \<Longrightarrow> network_inv P g st \<Longrightarrow>
    let st' = fold (network_out g u d) es st in
      network_inv P g st' \<and> set (ns_visited st) \<subseteq> set (ns_visited st') \<and>
      (ns_visited st', ns_queue st') = bfs_push d (map er_target es) (ns_visited st, ns_queue st) \<and>
      set (ns_seen st') = set (ns_seen st) \<union> edge_key P g ` set es"
proof (induction es arbitrary: st)
  case (Cons e es)
  have e: "e \<in> set (pg_edges P (eg_graph g))" "er_source e = u" "er_target e < length (node_names P g)"
    using Cons.prems(1) edge_in_range [OF graph_okD(1) [OF ok], of e] by auto
  let ?st1 = "network_visit g d (er_target e) st"
  note V = network_visit_inv [OF ok e(3) Cons.prems(3), of d]
  have vis: "er_target e \<in> set (ns_visited ?st1)" "set (ns_visited st) \<subseteq> set (ns_visited ?st1)"
    by (auto simp: network_visit_def)
  have src: "er_source e \<in> set (ns_visited ?st1)" using vis(2) Cons.prems(2) e(2) by blast
  note R = network_relation_inv [OF ok e(1) V(1) src vis(1)]
  have out: "network_out g u d e st = network_relation g (er_source e) (er_target e) (er_weight e) ?st1"
    by (simp add: network_out_def e(2))
  have "let st' = fold (network_out g u d) es (network_out g u d e st) in
      network_inv P g st' \<and> set (ns_visited (network_out g u d e st)) \<subseteq> set (ns_visited st') \<and>
      (ns_visited st', ns_queue st') =
        bfs_push d (map er_target es) (ns_visited (network_out g u d e st), ns_queue (network_out g u d e st)) \<and>
      set (ns_seen st') = set (ns_seen (network_out g u d e st)) \<union> edge_key P g ` set es"
    using Cons.prems(1) R vis(2) Cons.prems(2) by (intro Cons.IH) (auto simp: out)
  then show ?case using R V(2,3) vis(2) by (auto simp: Let_def out)
qed simp

lemma network_in_fold:
  assumes ok: "graph_ok P valid g"
  shows "\<forall>e \<in> set es. e \<in> set (pg_edges P (eg_graph g)) \<and> er_target e = u \<Longrightarrow>
    u \<in> set (ns_visited st) \<Longrightarrow> network_inv P g st \<Longrightarrow>
    let st' = fold (network_in g u d) es st in
      network_inv P g st' \<and> set (ns_visited st) \<subseteq> set (ns_visited st') \<and>
      (ns_visited st', ns_queue st') = bfs_push d (map er_source es) (ns_visited st, ns_queue st) \<and>
      set (ns_seen st') = set (ns_seen st) \<union> edge_key P g ` set es"
proof (induction es arbitrary: st)
  case (Cons e es)
  have e: "e \<in> set (pg_edges P (eg_graph g))" "er_target e = u" "er_source e < length (node_names P g)"
    using Cons.prems(1) edge_in_range [OF graph_okD(1) [OF ok], of e] by auto
  let ?st1 = "network_visit g d (er_source e) st"
  note V = network_visit_inv [OF ok e(3) Cons.prems(3), of d]
  have vis: "er_source e \<in> set (ns_visited ?st1)" "set (ns_visited st) \<subseteq> set (ns_visited ?st1)"
    by (auto simp: network_visit_def)
  have tgt: "er_target e \<in> set (ns_visited ?st1)" using vis(2) Cons.prems(2) e(2) by blast
  note R = network_relation_inv [OF ok e(1) V(1) vis(1) tgt]
  have out: "network_in g u d e st = network_relation g (er_source e) (er_target e) (er_weight e) ?st1"
    by (simp add: network_in_def e(2))
  have "let st' = fold (network_in g u d) es (network_in g u d e st) in
      network_inv P g st' \<and> set (ns_visited (network_in g u d e st)) \<subseteq> set (ns_visited st') \<and>
      (ns_visited st', ns_queue st') =
        bfs_push d (map er_source es) (ns_visited (network_in g u d e st), ns_queue (network_in g u d e st)) \<and>
      set (ns_seen st') = set (ns_seen (network_in g u d e st)) \<union> edge_key P g ` set es"
    using Cons.prems(1) R vis(2) Cons.prems(2) by (intro Cons.IH) (auto simp: out)
  then show ?case using R V(2,3) vis(2) by (auto simp: Let_def out)
qed simp

lemma network_loop_bfs:
  assumes ok: "graph_ok P valid g"
  shows "network_inv P g st \<Longrightarrow> fst ` set (ns_queue st) \<subseteq> set (ns_visited st) \<Longrightarrow>
    set (ns_seen st) = touching P g (set X) \<Longrightarrow>
    bfs (node_nbrs P g) m fuel X (ns_visited st, ns_queue st) = Some (W, Y) \<Longrightarrow>
    \<exists>nw st'. network_loop P g m fuel st = Some nw \<and> nw = ns_network st' \<and> network_inv P g st' \<and>
      ns_visited st' = W \<and> set (ns_seen st') = touching P g (set Y) \<and> en_center nw = en_center (ns_network st)"
proof (induction fuel arbitrary: st X)
  case 0
  then show ?case
    by (cases "ns_queue st") (auto simp: network_loop_Nil)
next
  case (Suc fuel)
  note nok = graph_okD(1) [OF ok]
  note v = nodes_okD(1) [OF nok]
  show ?case
  proof (cases "ns_queue st")
    case Nil
    then show ?thesis using Suc.prems by (auto simp: network_loop_Nil)
  next
    case (Cons e q0)
    obtain u d where e: "e = (u, d)" by fastforce
    let ?st = "st\<lparr>ns_queue := q0\<rparr>"
    have u: "u \<in> set (ns_visited st)" using Suc.prems(2) by (auto simp: Cons e)
    have inv: "network_inv P g ?st" using Suc.prems(1) by (simp add: network_inv_def)
    show ?thesis
    proof (cases "d \<ge> m")
      case True
      then show ?thesis
        using Suc.IH [OF inv, of X] Suc.prems by (simp add: network_loop_Cons [OF Cons [unfolded e]] Cons e)
    next
      case False
      let ?out = "pg_edges_directed P Outgoing u (eg_graph g)"
      let ?in = "pg_edges_directed P Incoming u (eg_graph g)"
      let ?st1 = "fold (network_out g u d) ?out ?st"
      let ?st2 = "fold (network_in g u d) ?in ?st1"
      have 1: "network_inv P g ?st1 \<and> set (ns_visited ?st) \<subseteq> set (ns_visited ?st1) \<and>
          (ns_visited ?st1, ns_queue ?st1) = bfs_push d (map er_target ?out) (ns_visited ?st, ns_queue ?st) \<and>
          set (ns_seen ?st1) = set (ns_seen ?st) \<union> edge_key P g ` set ?out"
        using network_out_fold [OF ok, of ?out u ?st d] u inv by (simp add: Let_def set_directed [OF v])
      have 2: "network_inv P g ?st2 \<and> set (ns_visited ?st1) \<subseteq> set (ns_visited ?st2) \<and>
          (ns_visited ?st2, ns_queue ?st2) = bfs_push d (map er_source ?in) (ns_visited ?st1, ns_queue ?st1) \<and>
          set (ns_seen ?st2) = set (ns_seen ?st1) \<union> edge_key P g ` set ?in"
        using network_in_fold [OF ok, of ?in u ?st1 d] u 1 by (auto simp: Let_def set_directed [OF v])
      have p: "bfs_push d (node_nbrs P g u) (ns_visited st, q0) = (ns_visited ?st2, ns_queue ?st2)"
        using 1 2 by (simp add: node_nbrs_def bfs_push_append)
      have q: "fst ` set (ns_queue ?st2) \<subseteq> set (ns_visited ?st2)"
        using bfs_push_sub [OF p] Suc.prems(2) by (auto simp: Cons)
      have seen: "set (ns_seen ?st2) = touching P g (set (X @ [u]))"
        using 1 2 Suc.prems(3) by (auto simp: touching_def set_directed [OF v])
      have b: "bfs (node_nbrs P g) m fuel (X @ [u]) (ns_visited ?st2, ns_queue ?st2) = Some (W, Y)"
        using Suc.prems(4) False p by (simp add: Cons e)
      have center: "en_center (ns_network ?st2) = en_center (ns_network st)"
        by (simp add: center_fold)
      show ?thesis
        using Suc.IH [OF _ q seen b] 2 False center by (simp add: network_loop_Cons [OF Cons [unfolded e]] Cons e)
    qed
  qed
qed

end

section \<open>Properties\<close>

text \<open>
  Tracing from a known entity ends, and reaches exactly the entities at most
  max_depth relations away, each of them once: every entry is a relation of the graph (an
  inverse one where the relation was followed against its direction), the entities named by the
  trace are those within the distance, and there is one entry for each entity but the start.
\<close>

theorem trace_reaches:
  assumes "digraph P valid" and "graph_ok P valid g" and "has_entity g start"
  shows "\<exists>tr. trace_entity_relationships P g start m = Some tr \<and>
    (\<forall>(a, l, b) \<in> set tr. \<exists>ty. rel_map P g (a, b, ty) \<noteq> None \<and>
       (l = relation_type_debug ty \<or> l = ''inverse_'' @ relation_type_debug ty)) \<and>
    insert start (\<Union>(a, l, b) \<in> set tr. {a, b}) = hops (related P g) start m \<and>
    card (hops (related P g) start m) = Suc (length tr)"
proof -
  note G = entity_digraph_iff [OF assms(1)]
  note nok = graph_okD(1) [OF assms(2)]
  obtain i where i: "eg_entity_to_node g start = Some i"
    using assms(3) graph_ok_node [OF assms(2), of start] by (auto simp: has_entity_def)
  obtain W Y where W: "bfs (node_nbrs P g) m (length (node_names P g)) [] ([i], [(i, 0)]) = Some (W, Y)" "distinct W"
      "set W \<subseteq> {..<length (node_names P g)}"
      "(\<lambda>i. node_names P g ! i) ` set W = hops (related P g) start m"
    using entity_digraph.bfs_names [OF G assms(2) i] by blast
  have "trace_inv P g start [i] []"
    using entity_digraph.node_name [OF G assms(2) i] by (simp add: trace_inv_def)
  then obtain tr where tr: "trace_loop P g m (length (node_names P g)) ([i], [(i, 0)], []) = Some tr"
      "trace_inv P g start W tr"
    using entity_digraph.trace_loop_bfs [OF G nok, of start "[i]" "[]" "[(i, 0)]" m "length (node_names P g)" "[]" W Y] W(1)
    by auto
  have "inj_on (\<lambda>i. node_names P g ! i) (set W)"
    using inj_on_nth [OF nodes_okD(2) [OF nok], of "set W"] W(3) by auto
  then have "card (hops (related P g) start m) = length W"
    unfolding W(4) [symmetric] by (simp add: card_image distinct_card [OF W(2)])
  then show ?thesis
    using tr W(4) by (auto simp: trace_entity_relationships_def i trace_inv_def node_names_def)
qed

theorem trace_reaches_witness:
  "\<exists>tr. trace_entity_relationships list_petgraph demo_graph ''auth'' 1 = Some tr \<and>
     insert ''auth'' (\<Union>(a, l, b) \<in> set tr. {a, b}) = hops (related list_petgraph demo_graph) ''auth'' 1"
proof -
  have "has_entity demo_graph ''auth''" by code_simp
  from trace_reaches [OF lg.digraph_axioms demo_ok this, of 1] show ?thesis
    by (elim exE conjE, intro exI conjI)
qed

text \<open>
  The network of a known entity is its neighbourhood: exactly the entities at most
  max_depth relations away, with their stored records, and exactly the relations with an end
  less than max_depth relations away, each once and with its stored context.
\<close>

theorem network_is_neighbourhood:
  assumes "digraph P valid" and "graph_ok P valid g" and "has_entity g center"
  shows "\<exists>nw. get_entity_network P g center m = Some nw \<and> en_center nw = center \<and>
    map_of (en_entities nw) = map_of (eg_entities g) |` hops (related P g) center m \<and>
    distinct (map rel_key (en_relationships nw)) \<and>
    (\<forall>r. r \<in> set (en_relationships nw) \<longleftrightarrow>
       rel_map P g (rel_key r) = Some (er_context r) \<and> 0 < m \<and>
       (er_from_entity r \<in> hops (related P g) center (m - 1) \<or>
        er_to_entity r \<in> hops (related P g) center (m - 1)))"
proof -
  note G = entity_digraph_iff [OF assms(1)]
  note nok = graph_okD(1) [OF assms(2)]
  obtain i where i: "eg_entity_to_node g center = Some i"
    using assms(3) graph_ok_node [OF assms(2), of center] by (auto simp: has_entity_def)
  obtain d where d: "map_of (eg_entities g) center = Some d"
    using assms(3) by (auto simp: has_entity_def)
  obtain W Y where W: "bfs (node_nbrs P g) m (length (node_names P g)) [] ([i], [(i, 0)]) = Some (W, Y)"
      "(\<lambda>i. node_names P g ! i) ` set W = hops (related P g) center m"
      "set Y \<subseteq> {..<length (node_names P g)}"
      "(\<lambda>i. node_names P g ! i) ` set Y = (if m = 0 then {} else hops (related P g) center (m - 1))"
    using entity_digraph.bfs_names [OF G assms(2) i] by blast
  let ?st = "\<lparr>ns_visited = [i], ns_queue = [(i, 0)], ns_seen = [],
    ns_network = \<lparr>en_center = center, en_entities = [(center, d)], en_relationships = []\<rparr>\<rparr>"
  have n: "i < length (node_names P g)" "node_names P g ! i = center"
    using entity_digraph.node_name [OF G assms(2) i] by auto
  have "network_inv P g ?st"
    using n d by (auto simp: network_inv_def restrict_map_def bt_ok_def)
  then obtain nw st' where nw: "network_loop P g m (length (node_names P g)) ?st = Some nw" "nw = ns_network st'"
      "network_inv P g st'" "ns_visited st' = W" "set (ns_seen st') = touching P g (set Y)" "en_center nw = center"
    using entity_digraph.network_loop_bfs [OF G assms(2), of ?st "[]" m "length (node_names P g)" W Y] W(1)
    by (auto simp: touching_def)
  have inv: "map_of (en_entities nw) = map_of (eg_entities g) |` hops (related P g) center m"
      "touching P g (set Y) = rel_key ` set (en_relationships nw)"
      "distinct (map rel_key (en_relationships nw))"
      "\<forall>r \<in> set (en_relationships nw). rel_map P g (rel_key r) = Some (er_context r)"
    using nw W(2) by (simp_all add: network_inv_def)
  have "r \<in> set (en_relationships nw) \<longleftrightarrow> rel_map P g (rel_key r) = Some (er_context r) \<and> 0 < m \<and>
       (er_from_entity r \<in> hops (related P g) center (m - 1) \<or>
        er_to_entity r \<in> hops (related P g) center (m - 1))" for r
  proof -
    have "r \<in> set (en_relationships nw) \<longleftrightarrow>
        rel_map P g (rel_key r) = Some (er_context r) \<and> rel_key r \<in> touching P g (set Y)"
    proof
      assume r: "rel_map P g (rel_key r) = Some (er_context r) \<and> rel_key r \<in> touching P g (set Y)"
      then obtain x where x: "x \<in> set (en_relationships nw)" "rel_key r = rel_key x" unfolding inv(2) by auto
      then have "er_context r = er_context x" using inv(4) r by auto
      then have "r = x" using x(2) by (intro injD [OF inj_rel_pair]) (simp add: rel_pair_def)
      then show "r \<in> set (en_relationships nw)" using x(1) by simp
    qed (use inv(2,4) in auto)
    then show ?thesis
      unfolding entity_digraph.touching_names [OF G nok W(3)] W(4) by (auto simp: rel_key_def)
  qed
  then show ?thesis
    using nw(1,6) inv by (auto simp: get_entity_network_def i d node_names_def)
qed

theorem network_is_neighbourhood_witness:
  "\<exists>nw. get_entity_network list_petgraph demo_graph ''auth'' 1 = Some nw \<and>
     map_of (en_entities nw) = map_of (eg_entities demo_graph) |` hops (related list_petgraph demo_graph) ''auth'' 1"
proof -
  have "has_entity demo_graph ''auth''" by code_simp
  from network_is_neighbourhood [OF lg.digraph_axioms demo_ok this, of 1] show ?thesis
    by (elim exE conjE, intro exI conjI)
qed

end
