(* ===== verification/Entity_Bounded.thy ===== *)
theory Entity_Bounded
  imports Entity_Queries_Props
begin

text \<open>
  \<open>get_entity_network_bounded\<close> and the neighbour queries: the limits hold, what is returned is
  part of the graph and of the neighbourhood, and the loop ends within its fuel.
\<close>

definition bounded_inv ::
  "'g pg \<Rightarrow> 'g entity_graph \<Rightarrow> string \<Rightarrow> nat \<Rightarrow> nat \<Rightarrow> nat \<Rightarrow> bounded_state \<Rightarrow> bool" where
  "bounded_inv P g center m maxe maxr st \<longleftrightarrow>
     (let nw = bs_network st; V = bs_visited st in
      bt_ok (en_entities nw) \<and> map_of (en_entities nw) = map_of (eg_entities g) |` set V \<and>
      distinct V \<and> center \<in> set V \<and> set V \<subseteq> dom (map_of (eg_entities g)) \<and> length V \<le> maxe \<and>
      set V \<subseteq> hops (related P g) center m \<and>
      length (en_relationships nw) \<le> maxr \<and> set (bs_seen st) = rel_key ` set (en_relationships nw) \<and>
      distinct (map rel_key (en_relationships nw)) \<and>
      (\<forall>r \<in> set (en_relationships nw). r \<in> set (relationships P g) \<and>
         er_from_entity r \<in> set V \<and> er_to_entity r \<in> set V))"

definition queue_ok :: "'g pg \<Rightarrow> 'g entity_graph \<Rightarrow> string \<Rightarrow> nat \<Rightarrow> bounded_state \<Rightarrow> bool" where
  "queue_ok P g center m st \<longleftrightarrow> (\<forall>(n, d) \<in> set (bs_queue st). d \<le> m \<and> n \<in> hops (related P g) center d)"

lemma related_rel:
  "rel_map P g (a, b, ty) = Some c \<Longrightarrow> b \<in> related P g a"
  "rel_map P g (a, b, ty) = Some c \<Longrightarrow> a \<in> related P g b"
  unfolding related_def by blast+

lemma length_entities_restrict:
  assumes "bt_ok es" "map_of es = map_of fs |` set V" "distinct V" "set V \<subseteq> dom (map_of fs)"
  shows "length es = length V"
proof -
  have "dom (map_of es) = set V" using assms(2,4) by auto
  then show ?thesis
    using bt.length_entries [OF assms(1)] distinct_card [OF assms(3)] by simp
qed

lemma bounded_relation_fields [simp]:
  "bs_visited (bounded_relation maxr r st) = bs_visited st"
  "bs_queue (bounded_relation maxr r st) = bs_queue st"
  "en_center (bs_network (bounded_relation maxr r st)) = en_center (bs_network st)"
  by (simp_all add: bounded_relation_def Let_def)

lemma bounded_entity_center [simp]:
  "en_center (bs_network (bounded_entity g maxe d n st)) = en_center (bs_network st)"
  by (simp add: bounded_entity_def split: option.split)

lemma bounded_relation_inv:
  assumes "bounded_inv P g center m maxe maxr st" and "r \<in> set (relationships P g)"
  shows "bounded_inv P g center m maxe maxr (bounded_relation maxr r st)"
proof -
  have vis: "map_of (en_entities (bs_network st)) x \<noteq> None \<Longrightarrow> x \<in> set (bs_visited st)" for x
    using assms(1) by (auto simp: bounded_inv_def Let_def restrict_map_def split: if_splits)
  let ?key = "(er_from_entity r, er_to_entity r, er_relation_type r)"
  show ?thesis
  proof (cases "length (en_relationships (bs_network st)) < maxr \<and>
      map_of (en_entities (bs_network st)) (er_from_entity r) \<noteq> None \<and>
      map_of (en_entities (bs_network st)) (er_to_entity r) \<noteq> None \<and> ?key \<notin> set (bs_seen st)")
    case True
    have "set (bs_seen st) = rel_key ` set (en_relationships (bs_network st))"
      using assms(1) by (simp add: bounded_inv_def Let_def)
    then have "er_from_entity r \<in> set (bs_visited st)" "er_to_entity r \<in> set (bs_visited st)"
      "rel_key r \<notin> rel_key ` set (en_relationships (bs_network st))"
      using True vis by (blast, blast, simp add: rel_key_def [of r])
    then show ?thesis
      using True assms unfolding bounded_relation_def bounded_inv_def Let_def
      by (simp add: rel_key_def [symmetric])
  next
    case False
    then have "bounded_relation maxr r st = st" by (simp add: bounded_relation_def Let_def)
    then show ?thesis using assms(1) by simp
  qed
qed

lemma bounded_entity_inv:
  assumes inv: "bounded_inv P g center m maxe maxr st" and o': "n \<in> hops (related P g) center m"
  shows "bounded_inv P g center m maxe maxr (bounded_entity g maxe d n st)"
proof (cases "length (en_entities (bs_network st)) < maxe \<and> n \<notin> set (bs_visited st) \<and> map_of (eg_entities g) n \<noteq> None")
  case True
  then obtain x where x: "map_of (eg_entities g) n = Some x" by blast
  have "length (en_entities (bs_network st)) = length (bs_visited st)"
    using inv by (intro length_entities_restrict [where fs = "eg_entities g"]) (simp_all add: bounded_inv_def Let_def)
  moreover have "(map_of (eg_entities g) |` set (bs_visited st))(n \<mapsto> x) =
      map_of (eg_entities g) |` set (bs_visited st @ [n])"
    using x by (auto simp: restrict_map_def fun_eq_iff)
  ultimately show ?thesis
    using inv o' True x by (auto simp: bounded_entity_def bounded_inv_def Let_def)
next
  case False
  then have "bounded_entity g maxe d n st = st"
    by (auto simp: bounded_entity_def split: option.split)
  then show ?thesis using inv by simp
qed

text \<open>One dequeued entity: the invariants, and the count of what is still to do.\<close>

definition todo :: "'g entity_graph \<Rightarrow> bounded_state \<Rightarrow> nat" where
  "todo g st = length (bs_queue st) + (length (eg_entities g) - length (bs_visited st))"

lemma bounded_fold:
  assumes "bt_ok (eg_entities g)" and n: "n \<in> hops (related P g) center d" and d: "d < m"
  shows "bounded_inv P g center m maxe maxr st \<Longrightarrow> queue_ok P g center m st \<Longrightarrow>
    \<forall>r \<in> set rs. r \<in> set (relationships P g) \<and>
      (if er_from_entity r = n then er_to_entity r else er_from_entity r) \<in> related P g n \<Longrightarrow>
    let st' = fold (bounded_step g maxe maxr n d) rs st in
      bounded_inv P g center m maxe maxr st' \<and> queue_ok P g center m st' \<and> todo g st' \<le> todo g st \<and>
      en_center (bs_network st') = en_center (bs_network st)"
proof (induction rs arbitrary: st)
  case (Cons r rs)
  let ?o = "if er_from_entity r = n then er_to_entity r else er_from_entity r"
  let ?st1 = "bounded_entity g maxe d ?o st"
  have o': "?o \<in> hops (related P g) center (Suc d)" using Cons.prems(3) n by auto
  moreover have "hops (related P g) center (Suc d) \<subseteq> hops (related P g) center m"
    using d by (intro hops_mono) simp
  ultimately have "?o \<in> hops (related P g) center m" by blast
  then have i1: "bounded_inv P g center m maxe maxr ?st1" using bounded_entity_inv Cons.prems(1) by blast
  have i2: "bounded_inv P g center m maxe maxr (bounded_step g maxe maxr n d r st)"
    unfolding bounded_step_def using bounded_relation_inv [OF i1] Cons.prems(3) by simp
  have q: "queue_ok P g center m (bounded_step g maxe maxr n d r st)"
    using Cons.prems(2) o' d
    by (auto simp: queue_ok_def bounded_step_def bounded_entity_def split: option.splits)
  have "todo g ?st1 \<le> todo g st"
  proof -
    have "set (bs_visited ?st1) \<subseteq> dom (map_of (eg_entities g))" "distinct (bs_visited ?st1)"
      using i1 by (simp_all add: bounded_inv_def Let_def)
    then have "length (bs_visited ?st1) \<le> length (eg_entities g)"
      using bt.length_entries [OF assms(1)] card_mono [of "dom (map_of (eg_entities g))"]
      by (metis distinct_card finite_dom_map_of)
    then show ?thesis
      by (auto simp: todo_def bounded_entity_def split: option.splits if_splits)
  qed
  then have t: "todo g (bounded_step g maxe maxr n d r st) \<le> todo g st"
    by (simp add: bounded_step_def todo_def)
  have c: "en_center (bs_network (bounded_step g maxe maxr n d r st)) = en_center (bs_network st)"
    by (simp add: bounded_step_def)
  show ?case
    using Cons.IH [OF i2 q] Cons.prems(3) t c by (simp add: Let_def)
qed simp

lemma bounded_loop_Nil: "bs_queue st = [] \<Longrightarrow> bounded_loop P g m maxe maxr fuel st = Some (bs_network st)"
  by (simp add: bounded_loop.simps)

lemma bounded_loop_Cons:
  "bs_queue st = (n, d) # q \<Longrightarrow> bounded_loop P g m maxe maxr (Suc fuel) st =
     (if d \<ge> m then bounded_loop P g m maxe maxr fuel (st\<lparr>bs_queue := q\<rparr>)
      else if length (en_entities (bs_network st)) \<ge> maxe \<and> length (en_relationships (bs_network st)) \<ge> maxr
      then Some (bs_network st)
      else bounded_loop P g m maxe maxr fuel
        (fold (bounded_step g maxe maxr n d) (relationships_of P g n) (st\<lparr>bs_queue := q\<rparr>)))"
  by (subst bounded_loop.simps) (simp add: Let_def)

lemma bounded_loop_inv:
  assumes G: "entity_digraph P valid" and ok: "graph_ok P valid g"
  shows "bounded_inv P g center m maxe maxr st \<Longrightarrow> queue_ok P g center m st \<Longrightarrow> todo g st \<le> fuel \<Longrightarrow>
    \<exists>st'. bounded_loop P g m maxe maxr fuel st = Some (bs_network st') \<and> bounded_inv P g center m maxe maxr st' \<and>
      en_center (bs_network st') = en_center (bs_network st)"
proof (induction fuel arbitrary: st)
  case 0
  then have "bs_queue st = []" by (simp add: todo_def)
  then show ?case using 0 bounded_loop_Nil by metis
next
  case (Suc fuel)
  show ?case
  proof (cases "bs_queue st")
    case Nil
    then show ?thesis using Suc.prems bounded_loop_Nil by metis
  next
    case (Cons e q)
    obtain n d where e: "e = (n, d)" by fastforce
    note loop = bounded_loop_Cons [OF Cons [unfolded e], of P g m maxe maxr fuel]
    let ?st = "st\<lparr>bs_queue := q\<rparr>"
    have n: "n \<in> hops (related P g) center d" and inv: "bounded_inv P g center m maxe maxr ?st"
      and qok: "queue_ok P g center m ?st" and t: "todo g ?st \<le> fuel"
      using Suc.prems by (auto simp: queue_ok_def bounded_inv_def Let_def todo_def Cons e)
    show ?thesis
    proof (cases "d \<ge> m")
      case True
      then show ?thesis using Suc.IH [OF inv qok t] by (simp add: loop)
    next
      case False
      show ?thesis
      proof (cases "length (en_entities (bs_network st)) \<ge> maxe \<and> length (en_relationships (bs_network st)) \<ge> maxr")
        case True
        then show ?thesis using False Suc.prems(1) by (auto simp: loop)
      next
        case go: False
        have rs: "\<forall>r \<in> set (relationships_of P g n). r \<in> set (relationships P g) \<and>
            (if er_from_entity r = n then er_to_entity r else er_from_entity r) \<in> related P g n"
          using entity_digraph.mem_relationships_of [OF G ok]
            entity_digraph.mem_relationships [OF G graph_okD(1) [OF ok]]
          by (auto simp: rel_key_def dest: related_rel)
        let ?st' = "fold (bounded_step g maxe maxr n d) (relationships_of P g n) ?st"
        have F: "bounded_inv P g center m maxe maxr ?st' \<and> queue_ok P g center m ?st' \<and> todo g ?st' \<le> todo g ?st \<and>
            en_center (bs_network ?st') = en_center (bs_network ?st)"
          using bounded_fold [OF graph_okD(4) [OF ok] n _ inv qok rs] False by (simp add: Let_def)
        then have "\<exists>st'. bounded_loop P g m maxe maxr fuel ?st' = Some (bs_network st') \<and>
            bounded_inv P g center m maxe maxr st' \<and> en_center (bs_network st') = en_center (bs_network ?st')"
          using t by (intro Suc.IH) auto
        moreover have "bounded_loop P g m maxe maxr (Suc fuel) st = bounded_loop P g m maxe maxr fuel ?st'"
          using False go by (simp only: loop if_False)
        ultimately show ?thesis using F by simp
      qed
    qed
  qed
qed

section \<open>Properties\<close>

text \<open>
  The bounded network always ends and keeps its limits: at most max_entities entities
  and max_relationships relations, the centre among them, every entity within max_depth
  relations of the centre and with its stored record, every relation one of the graph's, listed
  once, between two entities of the result.
\<close>

theorem bounded_network_limits:
  assumes "digraph P valid" and "graph_ok P valid g" and "has_entity g center" and "0 < maxe"
  shows "\<exists>nw. get_entity_network_bounded P g center m maxe maxr = Some nw \<and>
    en_center nw = center \<and> center \<in> dom (map_of (en_entities nw)) \<and>
    length (en_entities nw) \<le> maxe \<and> length (en_relationships nw) \<le> maxr \<and>
    (\<forall>n e. map_of (en_entities nw) n = Some e \<longrightarrow>
       map_of (eg_entities g) n = Some e \<and> n \<in> hops (related P g) center m) \<and>
    distinct (map rel_key (en_relationships nw)) \<and>
    (\<forall>r \<in> set (en_relationships nw). r \<in> set (relationships P g) \<and>
       er_from_entity r \<in> dom (map_of (en_entities nw)) \<and> er_to_entity r \<in> dom (map_of (en_entities nw)))"
proof -
  note G = entity_digraph_iff [OF assms(1)]
  obtain d where d: "map_of (eg_entities g) center = Some d" using assms(3) by (auto simp: has_entity_def)
  then have e: "eg_entity_to_node g center \<noteq> None" using graph_ok_node [OF assms(2)] by simp
  let ?st = "\<lparr>bs_visited = [center], bs_queue = [(center, 0)], bs_seen = [],
    bs_network = \<lparr>en_center = center, en_entities = [(center, d)], en_relationships = []\<rparr>\<rparr>"
  have "map_of [(center, d)] = map_of (eg_entities g) |` {center}"
    using d by (auto simp: restrict_map_def)
  then have inv: "bounded_inv P g center m maxe maxr ?st"
    using assms(4) d hops_start [of center] by (simp add: bounded_inv_def Let_def bt_ok_def domI)
  have q: "queue_ok P g center m ?st" by (simp add: queue_ok_def)
  have "eg_entities g \<noteq> []" using d by auto
  then have "todo g ?st \<le> length (eg_entities g)" by (cases "eg_entities g") (simp_all add: todo_def)
  from bounded_loop_inv [OF G assms(2) inv q this] obtain st' where
    st': "bounded_loop P g m maxe maxr (length (eg_entities g)) ?st = Some (bs_network st')"
      "bounded_inv P g center m maxe maxr st'" "en_center (bs_network st') = center"
    by auto
  let ?nw = "bs_network st'"
  have I: "bt_ok (en_entities ?nw)" "map_of (en_entities ?nw) = map_of (eg_entities g) |` set (bs_visited st')"
      "distinct (bs_visited st')" "center \<in> set (bs_visited st')" "set (bs_visited st') \<subseteq> dom (map_of (eg_entities g))"
      "length (bs_visited st') \<le> maxe" "set (bs_visited st') \<subseteq> hops (related P g) center m"
    using st'(2) by (simp_all add: bounded_inv_def Let_def)
  have dom: "dom (map_of (en_entities ?nw)) = set (bs_visited st')" using I(2,5) by auto
  have "get_entity_network_bounded P g center m maxe maxr = Some ?nw"
    using st'(1) assms(4) e by (auto simp: get_entity_network_bounded_def d Let_def)
  moreover have "length (en_entities ?nw) \<le> maxe"
    using length_entities_restrict [OF I(1,2,3,5)] I(6) by simp
  moreover have "\<forall>n e. map_of (en_entities ?nw) n = Some e \<longrightarrow>
      map_of (eg_entities g) n = Some e \<and> n \<in> hops (related P g) center m"
    using I(2,7) by (auto simp: restrict_map_def split: if_splits)
  moreover have "length (en_relationships ?nw) \<le> maxr" "distinct (map rel_key (en_relationships ?nw))"
    "\<forall>r \<in> set (en_relationships ?nw). r \<in> set (relationships P g) \<and>
       er_from_entity r \<in> set (bs_visited st') \<and> er_to_entity r \<in> set (bs_visited st')"
    using st'(2) by (simp_all add: bounded_inv_def Let_def)
  ultimately show ?thesis using st'(3) I(4) dom by (intro exI [of _ ?nw]) simp
qed

theorem bounded_network_limits_witness:
  "\<exists>nw. get_entity_network_bounded list_petgraph demo_graph ''auth'' 2 2 5 = Some nw \<and>
     length (en_entities nw) \<le> 2"
proof -
  have "has_entity demo_graph ''auth''" by code_simp
  from bounded_network_limits [OF lg.digraph_axioms demo_ok this zero_less_numeral, of 2 "num.Bit0 num.One" 5]
  show ?thesis by (elim exE conjE, intro exI conjI)
qed

lemma neighbour_names_related:
  assumes G: "entity_digraph P valid" and ok: "graph_ok P valid g" and n: "eg_entity_to_node g k = Some i"
  shows "set (neighbour_names P g (\<lambda>_. True) i) = related P g k"
proof -
  note nok = graph_okD(1) [OF ok]
  have i: "i < length (node_names P g)" "node_names P g ! i = k"
    using entity_digraph.node_name [OF G ok n] by auto
  have "set (neighbour_names P g (\<lambda>_. True) i) = {y. \<exists>j \<in> set (node_nbrs P g i). eg_node_to_entity g j = Some y}"
    by (fastforce simp: neighbour_names_def btree_set_def mem_map_filter node_nbrs_def)
  also have "\<dots> = (!) (node_names P g) ` set (node_nbrs P g i)"
    using nodes_okD(4) [OF nok] entity_digraph.node_nbrs_range [OF G nok, of i] by auto
  finally show ?thesis using entity_digraph.node_nbrs_names [OF G nok i(1)] i(2) by simp
qed

lemma find_related_stored:
  assumes G: "entity_digraph P valid" and ok: "graph_ok P valid g" and n: "has_entity g n"
  shows "set (find_related_entities P order g n) = related P g n"
proof -
  obtain i where "eg_entity_to_node g n = Some i"
    using n graph_ok_node [OF ok, of n] by (auto simp: has_entity_def)
  then show ?thesis
    using neighbour_names_related [OF G ok] by (simp add: find_related_entities_def find_node_def)
qed

text \<open>
  The related entities of a name are its neighbours in the map of relations, sorted and
  without repeats: of the exact name when it is stored, else of some stored name that differs
  only in letter case, else none.
\<close>

theorem related_entities_spec:
  assumes "digraph P valid" and "graph_ok P valid g" and "set order = dom (map_of (eg_entities g))"
  shows "sorted (find_related_entities P order g n) \<and> distinct (find_related_entities P order g n) \<and>
    (\<exists>k. (if has_entity g n then k = n else str_lower k = str_lower n) \<and>
       set (find_related_entities P order g n) = related P g k \<or>
     (\<forall>k \<in> set order. str_lower k \<noteq> str_lower n) \<and> find_related_entities P order g n = [])"
proof -
  note G = entity_digraph_iff [OF assms(1)]
  note nok = graph_okD(1) [OF assms(2)]
  note v = nodes_okD(1) [OF nok]
  note nb = neighbour_names_related [OF G assms(2)]
  have "sorted (find_related_entities P order g n) \<and> distinct (find_related_entities P order g n)"
    by (auto simp: find_related_entities_def neighbour_names_def btree_set_def sorted_remdups split: option.split)
  moreover have "\<exists>k. (if has_entity g n then k = n else str_lower k = str_lower n) \<and>
       set (find_related_entities P order g n) = related P g k \<or>
     (\<forall>k \<in> set order. str_lower k \<noteq> str_lower n) \<and> find_related_entities P order g n = []"
  proof (cases "eg_entity_to_node g n")
    case (Some i)
    then have "has_entity g n" using graph_ok_node [OF assms(2), of n] by (auto simp: has_entity_def)
    then show ?thesis using nb [OF Some] Some by (auto simp: find_related_entities_def find_node_def)
  next
    case None
    then have no: "\<not> has_entity g n" using graph_ok_node [OF assms(2), of n] by (auto simp: has_entity_def)
    show ?thesis
    proof (cases "List.find (\<lambda>k. str_lower k = str_lower n) order")
      case none: None
      then have "\<forall>k \<in> set order. str_lower k \<noteq> str_lower n" by (auto simp: find_None_iff)
      moreover have "find_related_entities P order g n = []"
        using None none by (simp add: find_related_entities_def find_node_def)
      ultimately show ?thesis by blast
    next
      case (Some k)
      then have k: "k \<in> set order" "str_lower k = str_lower n" by (auto simp: find_Some_iff)
      then obtain i where "eg_entity_to_node g k = Some i"
        using assms(3) graph_ok_node [OF assms(2), of k] by auto
      then show ?thesis using nb [of k i] k(2) no None Some by (auto simp: find_related_entities_def find_node_def)
    qed
  qed
  ultimately show ?thesis by blast
qed

theorem related_entities_spec_witness:
  "sorted (find_related_entities list_petgraph [''api'', ''auth'', ''queue''] demo_graph ''API'')"
proof -
  have "set [''api'', ''auth'', ''queue''] = dom (map_of (eg_entities demo_graph))"
  proof -
    have "map fst (eg_entities demo_graph) = [''api'', ''auth'', ''queue'']" by code_simp
    then show ?thesis by (metis dom_map_of_conv_image_fst list.set_map)
  qed
  from related_entities_spec [OF lg.digraph_axioms demo_ok this, of "''API''"] show ?thesis by simp
qed

end
