(* ===== verification/Temporal.thy ===== *)
theory Temporal
  imports Entity_Graph
begin

text \<open>
  \<open>post-cortex-core/src/graph/temporal.rs\<close>: when each record held, derived from the records in
  time order. Word sets are sets of strings; the overlap of two of them is an exact fraction
  (the code rounds it to \<open>f32\<close> before comparing it with 0.5 and 0.8, which changes no
  comparison below some millions of words).
\<close>

datatype end_reason = Superseded | Contradicted | Restated | Duplicate | Forgotten

record validity =
  va_valid_from :: datetime
  va_valid_to :: "datetime option"
  va_ended_by :: "uuid option"
  va_reason :: "end_reason option"

definition holds_at :: "validity \<Rightarrow> datetime \<Rightarrow> bool" where
  "holds_at v t \<longleftrightarrow> va_valid_from v \<le> t \<and> (case va_valid_to v of None \<Rightarrow> True | Some e \<Rightarrow> t < e)"

definition is_current :: "validity \<Rightarrow> bool" where
  "is_current v \<longleftrightarrow> va_valid_to v = None"

definition record_valid_from :: "context_update \<Rightarrow> datetime" where
  "record_valid_from u = unwrap_or (um_valid_from (cu_meta u)) (cu_timestamp u)"

definition restatable :: "update_type \<Rightarrow> bool" where
  "restatable k \<longleftrightarrow> k = DecisionMade \<or> k = RequirementAdded \<or> k = ConceptDefined"

definition words :: "string \<Rightarrow> string set" where
  "words text = set (map str_lower (filter (\<lambda>w. 3 \<le> length w) (split_by (\<lambda>c. \<not> is_alphanumeric c) text)))"

definition overlap :: "string set \<Rightarrow> string set \<Rightarrow> f32" where
  "overlap a b = (let u = card (a \<union> b) in if u = 0 then 0 else real (card (a \<inter> b)) / real u)"

definition restate_title_overlap :: f32 where "restate_title_overlap = 1 / 2"

definition duplicate_overlap :: f32 where "duplicate_overlap = 4 / 5"

text \<open>\<open>sort\<close> and \<open>dedup\<close>.\<close>

definition subject :: "context_update \<Rightarrow> 'g entity_graph \<Rightarrow> string list" where
  "subject u g = remdups (sort (map (\<lambda>n. entity_key (unwrap_or (resolve g n) n)) (mentioned_names u)))"

definition entity_pair :: "string \<Rightarrow> string \<Rightarrow> 'g entity_graph \<Rightarrow> string \<times> string" where
  "entity_pair a b g =
     (let a = entity_key (unwrap_or (resolve g a) a);
          b = entity_key (unwrap_or (resolve g b) b)
      in if a \<le> b then (a, b) else (b, a))"

type_synonym validity_map = "uuid \<rightharpoonup> validity"

definition end_record :: "uuid \<Rightarrow> context_update \<Rightarrow> end_reason \<Rightarrow> validity_map \<Rightarrow> validity_map" where
  "end_record old by' reason out =
     (case out old of
        None \<Rightarrow> out
      | Some v \<Rightarrow>
          if va_valid_to v = None \<and> old \<noteq> cu_id by'
          then out(old \<mapsto> v\<lparr>va_valid_to := Some (max (record_valid_from by') (va_valid_from v)),
                             va_ended_by := Some (cu_id by'), va_reason := Some reason\<rparr>)
          else out)"

record validity_state =
  vs_out :: validity_map
  vs_by_subject :: "string \<times> string list \<rightharpoonup> nat list"
  vs_by_pair :: "string \<times> string \<rightharpoonup> (uuid \<times> relation_type) list"

definition supersede_step :: "context_update \<Rightarrow> validity_state \<Rightarrow> validity_state" where
  "supersede_step u st =
     st\<lparr>vs_out := fold (\<lambda>old. end_record old u Superseded) (um_supersedes (cu_meta u)) (vs_out st)\<rparr>"

definition relation_step ::
  "'g entity_graph \<Rightarrow> context_update \<Rightarrow> entity_relationship \<Rightarrow> validity_state \<Rightarrow> validity_state" where
  "relation_step g u rel st =
     (let key = entity_pair (er_from_entity rel) (er_to_entity rel) g;
          asserted = unwrap_or (vs_by_pair st key) [];
          out = (if er_relation_type rel = ConflictsWith
                 then fold (\<lambda>old. end_record old u Contradicted)
                        (map fst (filter (\<lambda>(_, r). r \<noteq> ConflictsWith) asserted)) (vs_out st)
                 else vs_out st)
      in st\<lparr>vs_out := out, vs_by_pair := (vs_by_pair st)(key \<mapsto> asserted @ [(cu_id u, er_relation_type rel)])\<rparr>)"

definition full_text :: "context_update \<Rightarrow> string" where
  "full_text u = uc_title (cu_content u) @ '' '' @ uc_description (cu_content u)"

definition restate_one :: "context_update list \<Rightarrow> nat \<Rightarrow> nat \<Rightarrow> validity_map \<Rightarrow> validity_map" where
  "restate_one ordered i j out =
     (let u = ordered ! i; older = ordered ! j in
      case out (cu_id older) of
        None \<Rightarrow> out
      | Some v \<Rightarrow>
          if \<not> is_current v then out
          else if overlap (words (uc_title (cu_content u))) (words (uc_title (cu_content older)))
                  < restate_title_overlap then out
          else
            end_record (cu_id older) u
              (if overlap (words (full_text u)) (words (full_text older)) \<ge> duplicate_overlap
               then Duplicate else Restated) out)"

definition restate_step ::
  "'g entity_graph \<Rightarrow> context_update list \<Rightarrow> nat \<Rightarrow> validity_state \<Rightarrow> validity_state" where
  "restate_step g ordered i st =
     (let u = ordered ! i; subj = subject u g in
      if restatable (cu_update_type u) \<and> subj \<noteq> []
      then
        (let key = (update_type_as_str (cu_update_type u), subj);
             slot = unwrap_or (vs_by_subject st key) []
         in st\<lparr>vs_out := fold (restate_one ordered i) slot (vs_out st),
               vs_by_subject := (vs_by_subject st)(key \<mapsto> slot @ [i])\<rparr>)
      else st)"

definition validity_step ::
  "'g entity_graph \<Rightarrow> context_update list \<Rightarrow> nat \<Rightarrow> validity_state \<Rightarrow> validity_state" where
  "validity_step g ordered i st =
     (let u = ordered ! i in
      restate_step g ordered i
        (fold (relation_step g u) (cu_creates_relationships u) (supersede_step u st)))"

definition retire_step :: "context_update \<Rightarrow> validity_map \<Rightarrow> validity_map" where
  "retire_step u out =
     (case (um_retired_at (cu_meta u), out (cu_id u)) of
        (Some at', Some v) \<Rightarrow>
          if (case va_valid_to v of None \<Rightarrow> True | Some e \<Rightarrow> at' < e)
          then out(cu_id u \<mapsto> v\<lparr>va_valid_to := Some (max at' (va_valid_from v)), va_ended_by := None,
                                   va_reason := Some Forgotten\<rparr>)
          else out
      | _ \<Rightarrow> out)"

definition initial_validity :: "context_update list \<Rightarrow> validity_map" where
  "initial_validity ordered =
     fold (\<lambda>u out. out(cu_id u \<mapsto> \<lparr>va_valid_from = record_valid_from u, va_valid_to = None,
                                    va_ended_by = None, va_reason = None\<rparr>)) ordered Map.empty"

definition validity_of :: "context_update list \<Rightarrow> 'g entity_graph \<Rightarrow> validity_map" where
  "validity_of updates g =
     (let ordered = sort_key (\<lambda>u. (cu_timestamp u, cu_id u)) updates;
          st = fold (validity_step g ordered) [0..<length ordered]
            \<lparr>vs_out = initial_validity ordered, vs_by_subject = Map.empty, vs_by_pair = Map.empty\<rparr>
      in fold retire_step ordered (vs_out st))"

end
