(* ===== verification/Temporal_Props.thy ===== *)
theory Temporal_Props
  imports Temporal Entity_Graph_Props
begin

text \<open>
  What the derived intervals mean. \<open>justified\<close> is the specification: the reasons for which one
  record may end another. Every ending is justified, every justification ends a record, and
  the result does not depend on the order of the input.
\<close>

definition asserts_between ::
  "'g entity_graph \<Rightarrow> context_update \<Rightarrow> string \<times> string \<Rightarrow> relation_type \<Rightarrow> bool" where
  "asserts_between g u key ty \<longleftrightarrow>
     (\<exists>rel \<in> set (cu_creates_relationships u).
        entity_pair (er_from_entity rel) (er_to_entity rel) g = key \<and> er_relation_type rel = ty)"

definition contradicts :: "'g entity_graph \<Rightarrow> context_update \<Rightarrow> context_update \<Rightarrow> bool" where
  "contradicts g by' old \<longleftrightarrow>
     (\<exists>key ty. asserts_between g by' key ConflictsWith \<and> asserts_between g old key ty \<and> ty \<noteq> ConflictsWith)"

definition fact_key :: "'g entity_graph \<Rightarrow> context_update \<Rightarrow> string \<times> string list" where
  "fact_key g u = (update_type_as_str (cu_update_type u), subject u g)"

definition states_fact :: "'g entity_graph \<Rightarrow> context_update \<Rightarrow> bool" where
  "states_fact g u \<longleftrightarrow> restatable (cu_update_type u) \<and> subject u g \<noteq> []"

definition same_fact :: "'g entity_graph \<Rightarrow> context_update \<Rightarrow> context_update \<Rightarrow> bool" where
  "same_fact g u v \<longleftrightarrow>
     states_fact g u \<and> states_fact g v \<and> fact_key g u = fact_key g v \<and>
     restate_title_overlap \<le> overlap (words (uc_title (cu_content u))) (words (uc_title (cu_content v)))"

definition same_text :: "context_update \<Rightarrow> context_update \<Rightarrow> bool" where
  "same_text u v \<longleftrightarrow> duplicate_overlap \<le> overlap (words (full_text u)) (words (full_text v))"

text \<open>The reasons for which record \<open>b\<close> may end record \<open>j\<close> of the list.\<close>

definition justified ::
  "'g entity_graph \<Rightarrow> context_update list \<Rightarrow> nat \<Rightarrow> nat \<Rightarrow> end_reason \<Rightarrow> bool" where
  "justified g os j b r \<longleftrightarrow>
     (case r of
        Superseded \<Rightarrow> cu_id (os ! j) \<in> set (um_supersedes (cu_meta (os ! b)))
      | Contradicted \<Rightarrow> j < b \<and> contradicts g (os ! b) (os ! j)
      | Restated \<Rightarrow> j < b \<and> same_fact g (os ! b) (os ! j) \<and> \<not> same_text (os ! b) (os ! j)
      | Duplicate \<Rightarrow> j < b \<and> same_fact g (os ! b) (os ! j) \<and> same_text (os ! b) (os ! j)
      | Forgotten \<Rightarrow> False)"

definition ended_validity :: "context_update \<Rightarrow> end_reason \<Rightarrow> validity \<Rightarrow> validity" where
  "ended_validity by' r v =
     v\<lparr>va_valid_to := Some (max (record_valid_from by') (va_valid_from v)),
       va_ended_by := Some (cu_id by'), va_reason := Some r\<rparr>"

text \<open>From one map to a later one: only open records end, each by \<open>b\<close> and for a justified reason.\<close>

definition ends_by ::
  "'g entity_graph \<Rightarrow> context_update list \<Rightarrow> nat \<Rightarrow> validity_map \<Rightarrow> validity_map \<Rightarrow> bool" where
  "ends_by g os b out out' \<longleftrightarrow>
     (\<forall>i. out' i = out i \<or>
        (\<exists>v j r. out i = Some v \<and> va_valid_to v = None \<and> j < length os \<and> i = cu_id (os ! j) \<and> j \<noteq> b \<and>
           justified g os j b r \<and> out' i = Some (ended_validity (os ! b) r v)))"

lemma ends_by_refl [simp]: "ends_by g os b out out"
  by (simp add: ends_by_def)

lemma ended_not_open [simp]: "va_valid_to (ended_validity u r v) \<noteq> None"
  by (simp add: ended_validity_def)

lemma ends_by_trans:
  assumes "ends_by g os b o1 o2" "ends_by g os b o2 o3"
  shows "ends_by g os b o1 o3"
  unfolding ends_by_def
proof
  fix i
  show "o3 i = o1 i \<or> (\<exists>v j r. o1 i = Some v \<and> va_valid_to v = None \<and> j < length os \<and> i = cu_id (os ! j) \<and> j \<noteq> b \<and>
           justified g os j b r \<and> o3 i = Some (ended_validity (os ! b) r v))"
  proof (cases "o2 i = o1 i")
    case True
    then show ?thesis using assms(2) unfolding ends_by_def by metis
  next
    case False
    then obtain v j r where vjr: "o1 i = Some v" "va_valid_to v = None" "j < length os" "i = cu_id (os ! j)" "j \<noteq> b"
      "justified g os j b r" "o2 i = Some (ended_validity (os ! b) r v)"
      using assms(1) unfolding ends_by_def by metis
    then have "o3 i = o2 i" using assms(2) ended_not_open unfolding ends_by_def by (metis option.inject)
    then show ?thesis using vjr by metis
  qed
qed

lemma ends_by_keeps: "ends_by g os b out out' \<Longrightarrow> out i = Some v \<Longrightarrow> va_valid_to v \<noteq> None \<Longrightarrow> out' i = Some v"
  unfolding ends_by_def by (metis option.inject)

lemma ends_by_dom: "ends_by g os b out out' \<Longrightarrow> dom out' = dom out"
  unfolding ends_by_def dom_def by (auto simp: set_eq_iff) (metis option.distinct(1))+

lemma end_record_ends:
  assumes "j < length os" "distinct (map cu_id os)" "b < length os" "j \<noteq> b \<Longrightarrow> justified g os j b r"
  shows "ends_by g os b out (end_record (cu_id (os ! j)) (os ! b) r out)"
proof -
  have "cu_id (os ! j) = cu_id (os ! b) \<longleftrightarrow> j = b"
    using assms(1-3) by (metis length_map nth_eq_iff_index_eq nth_map)
  then show ?thesis
    using assms(1,4) by (auto simp: ends_by_def end_record_def ended_validity_def split: option.splits)
qed

lemma end_record_unknown: "out i = None \<Longrightarrow> end_record i u r out = out"
  by (simp add: end_record_def)

text \<open>After \<open>end_record\<close> the record is has_ended (unless it is the ending one).\<close>

lemma end_record_closes:
  "i \<noteq> cu_id u \<Longrightarrow> end_record i u r out i = Some v \<Longrightarrow> va_valid_to v \<noteq> None"
  by (auto simp: end_record_def split: option.splits if_splits)

section \<open>One step\<close>

definition ids_of :: "context_update list \<Rightarrow> uuid set" where
  "ids_of os = cu_id ` set os"

lemma fold_ends_by:
  assumes "\<And>x out. x \<in> set xs \<Longrightarrow> dom out = D \<Longrightarrow> ends_by g os b out (f x out)"
  shows "dom out = D \<Longrightarrow> ends_by g os b out (fold f xs out)"
  using assms
proof (induction xs arbitrary: out)
  case (Cons x xs)
  have 1: "ends_by g os b out (f x out)" using Cons.prems by simp
  then have "dom (f x out) = D" using ends_by_dom Cons.prems(1) by blast
  then have "ends_by g os b (f x out) (fold f xs (f x out))"
    using Cons.prems(2) by (intro Cons.IH) simp_all
  then show ?case using ends_by_trans [OF 1] by simp
qed simp

lemma fold_closes:
  assumes "\<And>x out. x \<in> set xs \<Longrightarrow> dom out = D \<Longrightarrow> ends_by g os b out (f x out)"
    and "dom out = D" and x: "x \<in> set xs"
    and c: "\<And>out v. dom out = D \<Longrightarrow> f x out i = Some v \<Longrightarrow> va_valid_to v \<noteq> None"
  shows "fold f xs out i = Some v \<Longrightarrow> va_valid_to v \<noteq> None"
  using assms(1-3)
proof (induction xs arbitrary: out)
  case (Cons y ys)
  have 1: "ends_by g os b out (f y out)" using Cons.prems by simp
  then have D: "dom (f y out) = D" using ends_by_dom Cons.prems(3) by blast
  have rest: "ends_by g os b (f y out) (fold f ys (f y out))"
    using Cons.prems(2) D by (intro fold_ends_by) simp_all
  show ?case
  proof (cases "x = y")
    case True
    show ?thesis
    proof (cases "f y out i")
      case None
      then have "fold f ys (f y out) i = None" using ends_by_dom [OF rest] by auto
      then show ?thesis using Cons.prems(1) by simp
    next
      case (Some w)
      then have "va_valid_to w \<noteq> None" using c Cons.prems(3) True by blast
      then have "fold f ys (f y out) i = Some w" using ends_by_keeps [OF rest Some] by blast
      then show ?thesis using Cons.prems(1) \<open>va_valid_to w \<noteq> None\<close> by simp
    qed
  next
    case False
    then show ?thesis using Cons.IH [of "f y out"] Cons.prems D by simp
  qed
qed simp

definition has_ended :: "validity_map \<Rightarrow> uuid \<Rightarrow> bool" where
  "has_ended out i \<longleftrightarrow> (\<forall>v. out i = Some v \<longrightarrow> va_valid_to v \<noteq> None)"

lemma closed_keeps: "has_ended out i \<Longrightarrow> ends_by g os b out out' \<Longrightarrow> has_ended out' i"
  unfolding has_ended_def ends_by_def by (metis option.inject)

lemma fold_closed:
  assumes "\<And>x out. x \<in> set xs \<Longrightarrow> dom out = D \<Longrightarrow> ends_by g os b out (f x out)"
    and "dom out = D" and "x \<in> set xs" and "\<And>out. dom out = D \<Longrightarrow> has_ended (f x out) i"
  shows "has_ended (fold f xs out) i"
proof -
  have c: "\<And>out v. dom out = D \<Longrightarrow> f x out i = Some v \<Longrightarrow> va_valid_to v \<noteq> None"
    using assms(4) by (simp add: has_ended_def)
  show ?thesis
    unfolding has_ended_def
  proof (intro allI impI)
    fix v assume "fold f xs out i = Some v"
    then show "va_valid_to v \<noteq> None"
      by (rule fold_closes [of xs D g os b f out x i v, rotated -1]) (fact assms c)+
  qed
qed

lemma end_record_closed: "i \<noteq> cu_id u \<Longrightarrow> has_ended (end_record i u r out) i"
  unfolding has_ended_def using end_record_closes by blast

lemma end_record_any:
  assumes "distinct (map cu_id os)" "b < length os" "dom out = ids_of os"
    and "\<And>j. j < length os \<Longrightarrow> i = cu_id (os ! j) \<Longrightarrow> j \<noteq> b \<Longrightarrow> justified g os j b r"
  shows "ends_by g os b out (end_record i (os ! b) r out)"
proof (cases "i \<in> ids_of os")
  case True
  then obtain j where "j < length os" "i = cu_id (os ! j)" by (auto simp: ids_of_def in_set_conv_nth)
  then show ?thesis using end_record_ends assms by blast
next
  case False
  then have "out i = None" using assms(3) by auto
  then show ?thesis by (simp add: end_record_unknown)
qed

lemma supersede_step:
  assumes d: "distinct (map cu_id os)" and b: "b < length os" and D: "dom (vs_out st) = ids_of os"
  defines "st' \<equiv> supersede_step (os ! b) st"
  shows "ends_by g os b (vs_out st) (vs_out st')"
    and "vs_by_subject st' = vs_by_subject st" and "vs_by_pair st' = vs_by_pair st"
    and "i \<in> set (um_supersedes (cu_meta (os ! b))) \<Longrightarrow> i \<noteq> cu_id (os ! b) \<Longrightarrow> has_ended (vs_out st') i"
proof -
  have e: "ends_by g os b out (end_record x (os ! b) Superseded out)"
    if "x \<in> set (um_supersedes (cu_meta (os ! b)))" "dom out = ids_of os" for x out
    using that d b by (intro end_record_any) (auto simp: justified_def)
  show "ends_by g os b (vs_out st) (vs_out st')"
    unfolding st'_def supersede_step_def
    using fold_ends_by [of "um_supersedes (cu_meta (os ! b))" "ids_of os" g os b "\<lambda>old. end_record old (os ! b) Superseded"] e D
    by simp
  show "has_ended (vs_out st') i" if "i \<in> set (um_supersedes (cu_meta (os ! b)))" "i \<noteq> cu_id (os ! b)"
    unfolding st'_def supersede_step_def
    using fold_closed [of "um_supersedes (cu_meta (os ! b))" "ids_of os" g os b
        "\<lambda>old. end_record old (os ! b) Superseded" "vs_out st" i i] e D that end_record_closed
    by simp
qed (simp_all add: st'_def supersede_step_def)

text \<open>The relations asserted before record \<open>k\<close>, and those of \<open>k\<close> seen so far.\<close>

definition pairs_ok ::
  "'g entity_graph \<Rightarrow> context_update list \<Rightarrow> nat \<Rightarrow> entity_relationship list \<Rightarrow> validity_state \<Rightarrow> bool" where
  "pairs_ok g os k ps st \<longleftrightarrow>
     (\<forall>key i ty. (i, ty) \<in> set (unwrap_or (vs_by_pair st key) []) \<longleftrightarrow>
        (\<exists>j < k. i = cu_id (os ! j) \<and> asserts_between g (os ! j) key ty) \<or>
        i = cu_id (os ! k) \<and>
          (\<exists>rel \<in> set ps. entity_pair (er_from_entity rel) (er_to_entity rel) g = key \<and> er_relation_type rel = ty))"

lemma relation_step:
  assumes d: "distinct (map cu_id os)" and k: "k < length os" and D: "dom (vs_out st) = ids_of os"
    and P: "pairs_ok g os k ps st" and rel: "rel \<in> set (cu_creates_relationships (os ! k))"
  defines "st' \<equiv> relation_step g (os ! k) rel st"
  shows "ends_by g os k (vs_out st) (vs_out st')"
    and "vs_by_subject st' = vs_by_subject st" and "pairs_ok g os k (ps @ [rel]) st'"
    and "er_relation_type rel = ConflictsWith \<Longrightarrow> j < k \<Longrightarrow>
      asserts_between g (os ! j) (entity_pair (er_from_entity rel) (er_to_entity rel) g) ty \<Longrightarrow>
      ty \<noteq> ConflictsWith \<Longrightarrow> has_ended (vs_out st') (cu_id (os ! j))"
proof -
  let ?key = "entity_pair (er_from_entity rel) (er_to_entity rel) g"
  let ?as = "unwrap_or (vs_by_pair st ?key) []"
  let ?old = "map fst (filter (\<lambda>(_, r). r \<noteq> ConflictsWith) ?as)"
  have inj: "cu_id (os ! i) = cu_id (os ! j) \<longleftrightarrow> i = j" if "i < length os" "j < length os" for i j
    using that d by (metis length_map nth_eq_iff_index_eq nth_map)
  have e: "ends_by g os k out (end_record x (os ! k) Contradicted out)"
    if x: "x \<in> set ?old" and C: "er_relation_type rel = ConflictsWith" and "dom out = ids_of os" for x out
  proof (rule end_record_any [OF d k that(3)])
    fix j assume j: "j < length os" "x = cu_id (os ! j)" "j \<noteq> k"
    obtain ty where ty: "(x, ty) \<in> set ?as" "ty \<noteq> ConflictsWith" using x by auto
    then obtain j' where j': "j' < k" "x = cu_id (os ! j')" "asserts_between g (os ! j') ?key ty"
      using P j inj k unfolding pairs_ok_def by blast
    then have "j' = j" using j inj k by auto
    have "asserts_between g (os ! k) ?key ConflictsWith"
      using rel C unfolding asserts_between_def by blast
    then have "contradicts g (os ! k) (os ! j)"
      using j' ty \<open>j' = j\<close> unfolding contradicts_def by blast
    then show "justified g os j k Contradicted"
      using j'(1) \<open>j' = j\<close> by (simp add: justified_def)
  qed
  have out: "vs_out st' = (if er_relation_type rel = ConflictsWith
      then fold (\<lambda>old. end_record old (os ! k) Contradicted) ?old (vs_out st) else vs_out st)"
    by (simp add: st'_def relation_step_def Let_def)
  show "ends_by g os k (vs_out st) (vs_out st')"
    using fold_ends_by [of ?old "ids_of os" g os k "\<lambda>old. end_record old (os ! k) Contradicted"] e D
    by (simp add: out)
  show "vs_by_subject st' = vs_by_subject st" by (simp add: st'_def relation_step_def Let_def)
  have "unwrap_or (vs_by_pair st' key) [] = unwrap_or (vs_by_pair st key) [] @
      (if key = ?key then [(cu_id (os ! k), er_relation_type rel)] else [])" for key
    by (simp add: st'_def relation_step_def Let_def)
  then show "pairs_ok g os k (ps @ [rel]) st'"
    using P by (auto simp: pairs_ok_def)
  show "has_ended (vs_out st') (cu_id (os ! j))"
    if C: "er_relation_type rel = ConflictsWith" and j: "j < k" and a: "asserts_between g (os ! j) ?key ty"
      and ty: "ty \<noteq> ConflictsWith"
  proof -
    have "(cu_id (os ! j), ty) \<in> set ?as" using P j a unfolding pairs_ok_def by blast
    then have x: "cu_id (os ! j) \<in> set ?old" using ty by force
    have "cu_id (os ! j) \<noteq> cu_id (os ! k)" using inj j k by simp
    then show ?thesis
      using fold_closed [of ?old "ids_of os" g os k "\<lambda>old. end_record old (os ! k) Contradicted" "vs_out st"
          "cu_id (os ! j)" "cu_id (os ! j)"] e C D x end_record_closed
      by (simp add: out)
  qed
qed

lemma relation_steps:
  assumes d: "distinct (map cu_id os)" and k: "k < length os"
  shows "dom (vs_out st) = ids_of os \<Longrightarrow> pairs_ok g os k ps st \<Longrightarrow>
    set rels \<subseteq> set (cu_creates_relationships (os ! k)) \<Longrightarrow>
    let st' = fold (relation_step g (os ! k)) rels st in
      ends_by g os k (vs_out st) (vs_out st') \<and> vs_by_subject st' = vs_by_subject st \<and>
      pairs_ok g os k (ps @ rels) st' \<and>
      (\<forall>rel \<in> set rels. \<forall>j ty. er_relation_type rel = ConflictsWith \<longrightarrow> j < k \<longrightarrow>
        asserts_between g (os ! j) (entity_pair (er_from_entity rel) (er_to_entity rel) g) ty \<longrightarrow>
        ty \<noteq> ConflictsWith \<longrightarrow> has_ended (vs_out st') (cu_id (os ! j)))"
proof (induction rels arbitrary: st ps)
  case (Cons rel rels)
  have rel: "rel \<in> set (cu_creates_relationships (os ! k))" using Cons.prems(3) by simp
  note R = relation_step [OF d k Cons.prems(1,2) rel]
  have D: "dom (vs_out (relation_step g (os ! k) rel st)) = ids_of os"
    using ends_by_dom [OF R(1)] Cons.prems(1) by simp
  note I = Cons.IH [OF D R(3), unfolded Let_def]
  let ?st1 = "relation_step g (os ! k) rel st"
  let ?st2 = "fold (relation_step g (os ! k)) rels ?st1"
  have I': "ends_by g os k (vs_out ?st1) (vs_out ?st2)" "vs_by_subject ?st2 = vs_by_subject ?st1"
    "pairs_ok g os k ((ps @ [rel]) @ rels) ?st2"
    "\<forall>rel \<in> set rels. \<forall>j ty. er_relation_type rel = ConflictsWith \<longrightarrow> j < k \<longrightarrow>
        asserts_between g (os ! j) (entity_pair (er_from_entity rel) (er_to_entity rel) g) ty \<longrightarrow>
        ty \<noteq> ConflictsWith \<longrightarrow> has_ended (vs_out ?st2) (cu_id (os ! j))"
    using I Cons.prems(3) by simp_all
  have "has_ended (vs_out ?st2) (cu_id (os ! j))" if "er_relation_type rel = ConflictsWith" "j < k"
    "asserts_between g (os ! j) (entity_pair (er_from_entity rel) (er_to_entity rel) g) ty" "ty \<noteq> ConflictsWith" for j ty
    using closed_keeps [OF R(4) [OF that] I'(1)] .
  then show ?case
    using I' R(2) ends_by_trans [OF R(1) I'(1)] by (simp add: Let_def)
qed simp

text \<open>The records before \<open>k\<close> that state a fact, by kind and subject.\<close>

definition subjects_ok :: "'g entity_graph \<Rightarrow> context_update list \<Rightarrow> nat \<Rightarrow> validity_state \<Rightarrow> bool" where
  "subjects_ok g os k st \<longleftrightarrow>
     (\<forall>key. set (unwrap_or (vs_by_subject st key) []) =
        {j. j < k \<and> states_fact g (os ! j) \<and> fact_key g (os ! j) = key})"

lemma restate_one_ends:
  assumes d: "distinct (map cu_id os)" and k: "k < length os" and j: "j < k"
    and f: "states_fact g (os ! j)" "states_fact g (os ! k)" "fact_key g (os ! j) = fact_key g (os ! k)"
  shows "ends_by g os k out (restate_one os k j out)"
    and "same_fact g (os ! k) (os ! j) \<Longrightarrow> has_ended (restate_one os k j out) (cu_id (os ! j))"
proof -
  have jk: "j < length os" "j \<noteq> k" using j k by auto
  then have ne: "cu_id (os ! j) \<noteq> cu_id (os ! k)"
    using d k by (metis length_map nth_eq_iff_index_eq nth_map)
  let ?r = "if duplicate_overlap \<le> overlap (words (full_text (os ! k))) (words (full_text (os ! j))) then Duplicate else Restated"
  have "same_fact g (os ! k) (os ! j) \<longleftrightarrow>
      \<not> overlap (words (uc_title (cu_content (os ! k)))) (words (uc_title (cu_content (os ! j)))) < restate_title_overlap"
    using f by (auto simp: same_fact_def)
  then have *: "restate_one os k j out =
      (case out (cu_id (os ! j)) of None \<Rightarrow> out
       | Some v \<Rightarrow> if \<not> is_current v \<or> \<not> same_fact g (os ! k) (os ! j) then out
           else end_record (cu_id (os ! j)) (os ! k) ?r out)"
    by (simp add: restate_one_def Let_def split: option.split)
  have "same_fact g (os ! k) (os ! j) \<Longrightarrow> justified g os j k ?r"
    using j by (simp add: justified_def same_text_def)
  then show "ends_by g os k out (restate_one os k j out)"
    using end_record_ends [OF jk(1) d k] by (auto simp: * split: option.split)
  show "has_ended (restate_one os k j out) (cu_id (os ! j))" if "same_fact g (os ! k) (os ! j)"
  proof (cases "out (cu_id (os ! j))")
    case None
    then show ?thesis by (simp add: * has_ended_def)
  next
    case (Some v)
    then show ?thesis
      using that end_record_closed [OF ne, of ?r out] by (auto simp: * has_ended_def is_current_def)
  qed
qed

lemma restate_step:
  assumes d: "distinct (map cu_id os)" and k: "k < length os" and D: "dom (vs_out st) = ids_of os"
    and S: "subjects_ok g os k st"
  defines "st' \<equiv> restate_step g os k st"
  shows "ends_by g os k (vs_out st) (vs_out st')" and "subjects_ok g os (Suc k) st'"
    and "vs_by_pair st' = vs_by_pair st"
    and "j < k \<Longrightarrow> same_fact g (os ! k) (os ! j) \<Longrightarrow> has_ended (vs_out st') (cu_id (os ! j))"
proof -
  have "ends_by g os k (vs_out st) (vs_out st') \<and> subjects_ok g os (Suc k) st' \<and>
    vs_by_pair st' = vs_by_pair st \<and>
    (j < k \<longrightarrow> same_fact g (os ! k) (os ! j) \<longrightarrow> has_ended (vs_out st') (cu_id (os ! j)))"
  proof (cases "states_fact g (os ! k)")
    case False
    then have "st' = st" by (auto simp: st'_def restate_step_def states_fact_def Let_def)
    moreover have "subjects_ok g os (Suc k) st"
      using S False by (auto simp: subjects_ok_def less_Suc_eq)
    ultimately show ?thesis using False by (simp add: same_fact_def)
  next
    case True
    let ?key = "fact_key g (os ! k)"
    let ?slot = "unwrap_or (vs_by_subject st ?key) []"
    have st': "st' = st\<lparr>vs_out := fold (restate_one os k) ?slot (vs_out st),
        vs_by_subject := (vs_by_subject st)(?key \<mapsto> ?slot @ [k])\<rparr>"
      using True by (simp add: st'_def restate_step_def states_fact_def fact_key_def Let_def)
    have slot: "x \<in> set ?slot \<longleftrightarrow> x < k \<and> states_fact g (os ! x) \<and> fact_key g (os ! x) = ?key" for x
      using S unfolding subjects_ok_def by blast
    have e: "ends_by g os k out (restate_one os k x out)" if "x \<in> set ?slot" for x out
      using that slot True restate_one_ends(1) [OF d k] by blast
    have "ends_by g os k (vs_out st) (vs_out st')"
      using fold_ends_by [of ?slot "ids_of os" g os k "restate_one os k"] e D by (simp add: st')
    moreover have "subjects_ok g os (Suc k) st'"
      unfolding subjects_ok_def
    proof
      fix key
      show "set (unwrap_or (vs_by_subject st' key) []) =
          {j. j < Suc k \<and> states_fact g (os ! j) \<and> fact_key g (os ! j) = key}"
      proof (cases "key = ?key")
        case True
        then show ?thesis using slot \<open>states_fact g (os ! k)\<close> by (auto simp: st' less_Suc_eq)
      next
        case False
        then have "set (unwrap_or (vs_by_subject st' key) []) =
            {j. j < k \<and> states_fact g (os ! j) \<and> fact_key g (os ! j) = key}"
          using S unfolding subjects_ok_def st' by (cases key) simp
        then show ?thesis using False by (auto simp: less_Suc_eq)
      qed
    qed
    moreover have "has_ended (vs_out st') (cu_id (os ! j))" if "j < k" "same_fact g (os ! k) (os ! j)"
    proof -
      have "j \<in> set ?slot" unfolding slot using that by (simp add: same_fact_def)
      moreover have "states_fact g (os ! j)" "fact_key g (os ! j) = fact_key g (os ! k)"
        using that(2) by (simp_all add: same_fact_def)
      then have "has_ended (restate_one os k j out) (cu_id (os ! j))" for out
        using restate_one_ends(2) [OF d k that(1) _ True] that(2) by blast
      ultimately show ?thesis
        using fold_closed [of ?slot "ids_of os" g os k "restate_one os k" "vs_out st" j "cu_id (os ! j)"] e D
        by (simp add: st')
    qed
    ultimately show ?thesis by (simp add: st')
  qed
  then show "ends_by g os k (vs_out st) (vs_out st')" "subjects_ok g os (Suc k) st'"
    "vs_by_pair st' = vs_by_pair st"
    "j < k \<Longrightarrow> same_fact g (os ! k) (os ! j) \<Longrightarrow> has_ended (vs_out st') (cu_id (os ! j))"
    by blast+
qed

section \<open>The whole pass\<close>

definition fresh_validity :: "context_update \<Rightarrow> validity" where
  "fresh_validity u =
     \<lparr>va_valid_from = record_valid_from u, va_valid_to = None, va_ended_by = None, va_reason = None\<rparr>"

text \<open>
  After the records before \<open>k\<close>: every record is as it started or was ended by one of them for
  a justified reason, and every record one of them may end has ended.
\<close>

definition pass_ok :: "'g entity_graph \<Rightarrow> context_update list \<Rightarrow> nat \<Rightarrow> validity_state \<Rightarrow> bool" where
  "pass_ok g os k st \<longleftrightarrow>
     dom (vs_out st) = ids_of os \<and> pairs_ok g os k [] st \<and> subjects_ok g os k st \<and>
     (\<forall>j < length os. \<forall>v. vs_out st (cu_id (os ! j)) = Some v \<longrightarrow>
        v = fresh_validity (os ! j) \<or>
        (\<exists>b r. b < k \<and> b \<noteq> j \<and> justified g os j b r \<and> v = ended_validity (os ! b) r (fresh_validity (os ! j)))) \<and>
     (\<forall>b < k. \<forall>j < length os. \<forall>r. j \<noteq> b \<and> justified g os j b r \<longrightarrow> has_ended (vs_out st) (cu_id (os ! j)))"

lemma validity_step_ok:
  assumes d: "distinct (map cu_id os)" and k: "k < length os" and P: "pass_ok g os k st"
  shows "pass_ok g os (Suc k) (validity_step g os k st)"
proof -
  let ?st1 = "supersede_step (os ! k) st"
  let ?st2 = "fold (relation_step g (os ! k)) (cu_creates_relationships (os ! k)) ?st1"
  let ?st3 = "restate_step g os k ?st2"
  have st: "validity_step g os k st = ?st3" by (simp add: validity_step_def Let_def)
  have inj: "cu_id (os ! i) = cu_id (os ! j) \<longleftrightarrow> i = j" if "i < length os" "j < length os" for i j
    using that d by (metis length_map nth_eq_iff_index_eq nth_map)
  have D: "dom (vs_out st) = ids_of os" and P0: "pairs_ok g os k [] st" and S0: "subjects_ok g os k st"
    using P by (simp_all add: pass_ok_def)
  note A = supersede_step [OF d k D]
  have D1: "dom (vs_out ?st1) = ids_of os" using ends_by_dom [OF A(1)] D by simp
  have P1: "pairs_ok g os k [] ?st1" using P0 by (simp add: pairs_ok_def A(3))
  have B: "ends_by g os k (vs_out ?st1) (vs_out ?st2)" "vs_by_subject ?st2 = vs_by_subject ?st1"
    "pairs_ok g os k (cu_creates_relationships (os ! k)) ?st2"
    "\<forall>rel \<in> set (cu_creates_relationships (os ! k)). \<forall>j ty. er_relation_type rel = ConflictsWith \<longrightarrow> j < k \<longrightarrow>
        asserts_between g (os ! j) (entity_pair (er_from_entity rel) (er_to_entity rel) g) ty \<longrightarrow>
        ty \<noteq> ConflictsWith \<longrightarrow> has_ended (vs_out ?st2) (cu_id (os ! j))"
    using relation_steps [OF d k D1 P1, of "cu_creates_relationships (os ! k)"] by (simp_all add: Let_def)
  have D2: "dom (vs_out ?st2) = ids_of os" using ends_by_dom [OF B(1)] D1 by simp
  have S2: "subjects_ok g os k ?st2" using S0 by (simp add: subjects_ok_def B(2) A(2))
  note C = restate_step [OF d k D2 S2]
  have D3: "dom (vs_out ?st3) = ids_of os" using ends_by_dom [OF C(1)] D2 by simp
  have e: "ends_by g os k (vs_out st) (vs_out ?st3)"
    using ends_by_trans [OF A(1) ends_by_trans [OF B(1) C(1)]] .
  have P3: "pairs_ok g os (Suc k) [] ?st3"
    using B(3) unfolding pairs_ok_def C(3) by (auto simp: less_Suc_eq asserts_between_def)
  have closed_k: "has_ended (vs_out ?st3) (cu_id (os ! j))" if j: "j < length os" "j \<noteq> k" and J: "justified g os j k r" for j r
  proof (cases r)
    case Superseded
    then have "has_ended (vs_out ?st1) (cu_id (os ! j))"
      using J A(4) inj j k by (simp add: justified_def)
    then show ?thesis using closed_keeps ends_by_trans [OF B(1) C(1)] by blast
  next
    case Contradicted
    then obtain key ty where "j < k" "asserts_between g (os ! k) key ConflictsWith" "asserts_between g (os ! j) key ty"
      "ty \<noteq> ConflictsWith"
      using J unfolding justified_def contradicts_def by auto
    then have "has_ended (vs_out ?st2) (cu_id (os ! j))"
      using B(4) unfolding asserts_between_def [of g "os ! k"] by blast
    then show ?thesis using closed_keeps C(1) by blast
  next
    case Restated
    then show ?thesis using J C(4) by (simp add: justified_def)
  next
    case Duplicate
    then show ?thesis using J C(4) by (simp add: justified_def)
  next
    case Forgotten
    then show ?thesis using J by (simp add: justified_def)
  qed
  have "v = fresh_validity (os ! j) \<or>
        (\<exists>b r. b < Suc k \<and> b \<noteq> j \<and> justified g os j b r \<and> v = ended_validity (os ! b) r (fresh_validity (os ! j)))"
    if j: "j < length os" and v: "vs_out ?st3 (cu_id (os ! j)) = Some v" for j v
  proof -
    have old: "w = fresh_validity (os ! j) \<or>
        (\<exists>b r. b < k \<and> b \<noteq> j \<and> justified g os j b r \<and> w = ended_validity (os ! b) r (fresh_validity (os ! j)))"
      if "vs_out st (cu_id (os ! j)) = Some w" for w
      using P j that unfolding pass_ok_def by blast
    show ?thesis
    proof (cases "vs_out ?st3 (cu_id (os ! j)) = vs_out st (cu_id (os ! j))")
      case True
      then show ?thesis using old v less_SucI by metis
    next
      case False
      then obtain w j' r where w: "vs_out st (cu_id (os ! j)) = Some w" "va_valid_to w = None" "j' < length os"
        "cu_id (os ! j) = cu_id (os ! j')" "j' \<noteq> k" "justified g os j' k r"
        "vs_out ?st3 (cu_id (os ! j)) = Some (ended_validity (os ! k) r w)"
        using e unfolding ends_by_def by metis
      have "w = fresh_validity (os ! j)" using old [OF w(1)] w(2) by auto
      then show ?thesis using w v inj j by auto
    qed
  qed
  moreover have "has_ended (vs_out ?st3) (cu_id (os ! j))"
    if "b < Suc k" "j < length os" "j \<noteq> b" "justified g os j b r" for b j r
  proof (cases "b = k")
    case True
    then show ?thesis using closed_k that by blast
  next
    case False
    then have "b < k" using that(1) by simp
    then have "has_ended (vs_out st) (cu_id (os ! j))" using P that(2-4) unfolding pass_ok_def by blast
    then show ?thesis using closed_keeps e by blast
  qed
  ultimately show ?thesis
    unfolding pass_ok_def st using D3 P3 C(2) by blast
qed

lemma initial_validity_fold:
  "distinct (map cu_id os) \<Longrightarrow>
     (u \<in> set os \<longrightarrow> fold (\<lambda>u out. out(cu_id u \<mapsto> fresh_validity u)) os out (cu_id u) = Some (fresh_validity u)) \<and>
     (i \<notin> ids_of os \<longrightarrow> fold (\<lambda>u out. out(cu_id u \<mapsto> fresh_validity u)) os out i = out i)"
proof (induction os arbitrary: out i)
  case (Cons x os)
  have x: "cu_id x \<notin> ids_of os" and d: "distinct (map cu_id os)" using Cons.prems by (simp_all add: ids_of_def)
  then have ne: "u \<in> set os \<Longrightarrow> cu_id u \<noteq> cu_id x" unfolding ids_of_def by (metis imageI)
  show ?case
    using Cons.IH [OF d, of "out(cu_id x \<mapsto> fresh_validity x)" i]
      Cons.IH [OF d, of "out(cu_id x \<mapsto> fresh_validity x)" "cu_id x"] ne x
    by (auto simp: ids_of_def)
qed simp

lemma initial_validity:
  assumes "distinct (map cu_id os)"
  shows "u \<in> set os \<Longrightarrow> initial_validity os (cu_id u) = Some (fresh_validity u)"
    and "dom (initial_validity os) = ids_of os"
proof -
  have eq: "initial_validity os = fold (\<lambda>u out. out(cu_id u \<mapsto> fresh_validity u)) os Map.empty"
    by (simp add: initial_validity_def fresh_validity_def)
  note F = initial_validity_fold [OF assms, of _ Map.empty]
  show "u \<in> set os \<Longrightarrow> initial_validity os (cu_id u) = Some (fresh_validity u)" using F by (simp add: eq)
  show "dom (initial_validity os) = ids_of os"
  proof (intro set_eqI iffI)
    fix i assume "i \<in> dom (initial_validity os)"
    then show "i \<in> ids_of os" using F [of undefined i] by (cases "i \<in> ids_of os") (simp_all add: eq domIff)
  next
    fix i assume "i \<in> ids_of os"
    then obtain u where "u \<in> set os" "i = cu_id u" by (auto simp: ids_of_def)
    then show "i \<in> dom (initial_validity os)" using F [of u i] by (simp add: eq domIff)
  qed
qed

lemma pass_ok_start:
  assumes d: "distinct (map cu_id os)"
  shows "pass_ok g os 0 \<lparr>vs_out = initial_validity os, vs_by_subject = Map.empty, vs_by_pair = Map.empty\<rparr>"
  using initial_validity [OF d] by (simp add: pass_ok_def pairs_ok_def subjects_ok_def)

lemma pass_ok_all:
  assumes d: "distinct (map cu_id os)"
  shows "k \<le> length os \<Longrightarrow> pass_ok g os k (fold (validity_step g os) [0..<k]
    \<lparr>vs_out = initial_validity os, vs_by_subject = Map.empty, vs_by_pair = Map.empty\<rparr>)"
proof (induction k)
  case 0
  then show ?case using pass_ok_start [OF d] by simp
next
  case (Suc k)
  then show ?case using validity_step_ok [OF d, of k g] by simp
qed

section \<open>Retirement\<close>

text \<open>The interval of a record after its \<open>retired_at\<close> was taken into account.\<close>

definition retire :: "context_update \<Rightarrow> validity \<Rightarrow> validity" where
  "retire u v =
     (case um_retired_at (cu_meta u) of
        None \<Rightarrow> v
      | Some at' \<Rightarrow>
          if (case va_valid_to v of None \<Rightarrow> True | Some e \<Rightarrow> at' < e)
          then v\<lparr>va_valid_to := Some (max at' (va_valid_from v)), va_ended_by := None, va_reason := Some Forgotten\<rparr>
          else v)"

lemma retire_step_apply:
  "retire_step u out i = (if i = cu_id u then map_option (retire u) (out i) else out i)"
  by (cases "out (cu_id u)") (auto simp: retire_step_def retire_def split: option.split)

lemma retire_fold:
  assumes "distinct (map cu_id os)"
  shows "u \<in> set os \<Longrightarrow> fold retire_step os out (cu_id u) = map_option (retire u) (out (cu_id u))"
    and "i \<notin> ids_of os \<Longrightarrow> fold retire_step os out i = out i"
proof -
  have "(u \<in> set os \<longrightarrow> fold retire_step os out (cu_id u) = map_option (retire u) (out (cu_id u))) \<and>
    (i \<notin> ids_of os \<longrightarrow> fold retire_step os out i = out i)" for out i
    using assms
  proof (induction os arbitrary: out i)
    case (Cons x os)
    have x: "cu_id x \<notin> ids_of os" and d: "distinct (map cu_id os)" using Cons.prems by (simp_all add: ids_of_def)
    then have ne: "u \<in> set os \<Longrightarrow> cu_id u \<noteq> cu_id x" unfolding ids_of_def by (metis imageI)
    show ?case
      using Cons.IH [OF d, of "retire_step x out" i] Cons.IH [OF d, of "retire_step x out" "cu_id x"] ne x
      by (auto simp: retire_step_apply ids_of_def)
  qed simp
  then show "u \<in> set os \<Longrightarrow> fold retire_step os out (cu_id u) = map_option (retire u) (out (cu_id u))"
    and "i \<notin> ids_of os \<Longrightarrow> fold retire_step os out i = out i" by simp_all
qed

definition time_order :: "context_update list \<Rightarrow> context_update list" where
  "time_order us = sort_key (\<lambda>u. (cu_timestamp u, cu_id u)) us"

text \<open>The interval of the record at place \<open>j\<close> of the time order, before and after retirement.\<close>

lemma validity_of_cases:
  assumes d: "distinct (map cu_id us)"
  defines "os \<equiv> time_order us"
  shows "dom (validity_of us g) = ids_of us"
    and "j < length os \<Longrightarrow> \<exists>v. validity_of us g (cu_id (os ! j)) = Some (retire (os ! j) v) \<and>
      (v = fresh_validity (os ! j) \<and> (\<forall>b < length os. \<forall>r. j \<noteq> b \<longrightarrow> \<not> justified g os j b r) \<or>
       (\<exists>b r. b < length os \<and> b \<noteq> j \<and> justified g os j b r \<and> v = ended_validity (os ! b) r (fresh_validity (os ! j))))"
proof -
  have "mset (map cu_id os) = mset (map cu_id us)" by (simp add: os_def time_order_def)
  then have do': "distinct (map cu_id os)" using d mset_eq_imp_distinct_iff by blast
  have ids: "ids_of os = ids_of us" by (simp add: ids_of_def os_def time_order_def)
  let ?st = "fold (validity_step g os) [0..<length os]
    \<lparr>vs_out = initial_validity os, vs_by_subject = Map.empty, vs_by_pair = Map.empty\<rparr>"
  have val: "validity_of us g = fold retire_step os (vs_out ?st)"
    by (simp add: validity_of_def os_def time_order_def Let_def)
  have P: "pass_ok g os (length os) ?st" by (rule pass_ok_all [OF do' le_refl])
  then have D: "dom (vs_out ?st) = ids_of os" by (simp add: pass_ok_def)
  note R = retire_fold [OF do', where out = "vs_out ?st"]
  show "dom (validity_of us g) = ids_of us"
  proof (intro set_eqI iffI)
    fix i assume i: "i \<in> dom (validity_of us g)"
    show "i \<in> ids_of us"
    proof (rule ccontr)
      assume n: "i \<notin> ids_of us"
      then have "vs_out ?st i = None" using D ids by (metis domIff)
      then show False using i n R(2) [of i] by (simp add: val ids domIff)
    qed
  next
    fix i assume "i \<in> ids_of us"
    then have "i \<in> ids_of os" by (simp add: ids)
    then obtain u where "u \<in> set os" "i = cu_id u" by (auto simp: ids_of_def)
    moreover have "i \<in> dom (vs_out ?st)" using \<open>i \<in> ids_of us\<close> D ids by simp
    ultimately show "i \<in> dom (validity_of us g)" using R(1) by (auto simp: val)
  qed
  assume j: "j < length os"
  then have "cu_id (os ! j) \<in> dom (vs_out ?st)" by (simp add: D ids_of_def)
  then obtain v where v: "vs_out ?st (cu_id (os ! j)) = Some v" by blast
  have "validity_of us g (cu_id (os ! j)) = Some (retire (os ! j) v)"
    using R(1) [of "os ! j"] j v by (simp add: val)
  moreover have "v = fresh_validity (os ! j) \<or>
      (\<exists>b r. b < length os \<and> b \<noteq> j \<and> justified g os j b r \<and> v = ended_validity (os ! b) r (fresh_validity (os ! j)))"
    using P j v unfolding pass_ok_def by blast
  moreover have "\<not> justified g os j b r" if "v = fresh_validity (os ! j)" "b < length os" "j \<noteq> b" for b r
  proof
    assume "justified g os j b r"
    then have "has_ended (vs_out ?st) (cu_id (os ! j))" using P j that(2,3) unfolding pass_ok_def by blast
    then show False using v that(1) by (simp add: has_ended_def fresh_validity_def)
  qed
  ultimately show "\<exists>v. validity_of us g (cu_id (os ! j)) = Some (retire (os ! j) v) \<and>
      (v = fresh_validity (os ! j) \<and> (\<forall>b < length os. \<forall>r. j \<noteq> b \<longrightarrow> \<not> justified g os j b r) \<or>
       (\<exists>b r. b < length os \<and> b \<noteq> j \<and> justified g os j b r \<and> v = ended_validity (os ! b) r (fresh_validity (os ! j))))"
    by blast
qed

lemma place_in_order:
  assumes "u \<in> set us" shows "\<exists>j < length (time_order us). time_order us ! j = u"
  using assms by (metis in_set_conv_nth set_sort time_order_def)

lemma overlap_commute: "overlap a b = overlap b a"
  by (simp only: overlap_def Un_commute [of a b] Int_commute [of a b])

lemma same_fact_sym: "same_fact g u v \<Longrightarrow> same_fact g v u"
  by (simp add: same_fact_def overlap_commute)

lemma retire_current: "va_valid_to (retire u v) = None \<Longrightarrow>
    va_valid_to v = None \<and> um_retired_at (cu_meta u) = None"
  by (auto simp: retire_def split: option.splits if_splits)

section \<open>Properties\<close>

text \<open>Two records for the witnesses: the second supersedes the first.\<close>

definition demo_log :: "context_update list" where
  "demo_log =
     [demo_record 2 20 ''Use a log'' [''queue''] (demo_meta\<lparr>um_supersedes := [1]\<rparr>),
      demo_record 1 10 ''Use a queue'' [''queue''] demo_meta]"

lemma demo_log_distinct: "distinct (map cu_id demo_log)"
  by (simp add: demo_log_def demo_record_def)

text \<open>
  C34: every record gets one interval. It starts where the writer said, never ends before it
  starts, and when it names an ending record, that record is another one of the set which ends
  it for the stated reason: it says so (superseded), or it is later in time and contradicts a
  relation the record asserted, or states the same fact about the same entities (restated; a
  duplicate when the whole text agrees). A record without an ending record is current, or was
  retired by its owner.
\<close>

theorem validity_sound:
  assumes "distinct (map cu_id us)"
  shows "dom (validity_of us g) = cu_id ` set us \<and>
    (\<forall>j < length (time_order us). \<exists>v.
       validity_of us g (cu_id (time_order us ! j)) = Some v \<and>
       va_valid_from v = record_valid_from (time_order us ! j) \<and>
       (\<forall>e. va_valid_to v = Some e \<longrightarrow> va_valid_from v \<le> e) \<and>
       (case va_ended_by v of
          Some i \<Rightarrow>
            \<exists>b r. b < length (time_order us) \<and> b \<noteq> j \<and> i = cu_id (time_order us ! b) \<and> va_reason v = Some r \<and>
              justified g (time_order us) j b r \<and>
              va_valid_to v = Some (max (record_valid_from (time_order us ! b)) (va_valid_from v))
        | None \<Rightarrow>
            is_current v \<and> va_reason v = None \<or>
            va_reason v = Some Forgotten \<and>
              (\<exists>t. um_retired_at (cu_meta (time_order us ! j)) = Some t \<and> va_valid_to v = Some (max t (va_valid_from v)))))"
proof -
  let ?os = "time_order us"
  have "\<exists>v. validity_of us g (cu_id (?os ! j)) = Some v \<and> va_valid_from v = record_valid_from (?os ! j) \<and>
       (\<forall>e. va_valid_to v = Some e \<longrightarrow> va_valid_from v \<le> e) \<and>
       (case va_ended_by v of
          Some i \<Rightarrow> \<exists>b r. b < length ?os \<and> b \<noteq> j \<and> i = cu_id (?os ! b) \<and> va_reason v = Some r \<and>
              justified g ?os j b r \<and> va_valid_to v = Some (max (record_valid_from (?os ! b)) (va_valid_from v))
        | None \<Rightarrow> is_current v \<and> va_reason v = None \<or>
            va_reason v = Some Forgotten \<and>
              (\<exists>t. um_retired_at (cu_meta (?os ! j)) = Some t \<and> va_valid_to v = Some (max t (va_valid_from v))))"
    if j: "j < length ?os" for j
  proof -
    obtain w where w: "validity_of us g (cu_id (?os ! j)) = Some (retire (?os ! j) w)"
      "w = fresh_validity (?os ! j) \<or>
       (\<exists>b r. b < length ?os \<and> b \<noteq> j \<and> justified g ?os j b r \<and> w = ended_validity (?os ! b) r (fresh_validity (?os ! j)))"
      using validity_of_cases(2) [OF assms j] by blast
    show ?thesis
    proof (rule exI [of _ "retire (?os ! j) w"], intro conjI)
      show "validity_of us g (cu_id (?os ! j)) = Some (retire (?os ! j) w)" by (rule w(1))
      show "va_valid_from (retire (?os ! j) w) = record_valid_from (?os ! j)"
        using w(2) by (auto simp: retire_def fresh_validity_def ended_validity_def split: option.split)
      show "\<forall>e. va_valid_to (retire (?os ! j) w) = Some e \<longrightarrow> va_valid_from (retire (?os ! j) w) \<le> e"
        using w(2) by (auto simp: retire_def fresh_validity_def ended_validity_def split: option.split)
      show "case va_ended_by (retire (?os ! j) w) of
          Some i \<Rightarrow> \<exists>b r. b < length ?os \<and> b \<noteq> j \<and> i = cu_id (?os ! b) \<and> va_reason (retire (?os ! j) w) = Some r \<and>
              justified g ?os j b r \<and>
              va_valid_to (retire (?os ! j) w) = Some (max (record_valid_from (?os ! b)) (va_valid_from (retire (?os ! j) w)))
        | None \<Rightarrow> is_current (retire (?os ! j) w) \<and> va_reason (retire (?os ! j) w) = None \<or>
            va_reason (retire (?os ! j) w) = Some Forgotten \<and>
              (\<exists>t. um_retired_at (cu_meta (?os ! j)) = Some t \<and>
                va_valid_to (retire (?os ! j) w) = Some (max t (va_valid_from (retire (?os ! j) w))))"
        using w(2)
        by (auto simp: retire_def fresh_validity_def ended_validity_def is_current_def split: option.split)
    qed
  qed
  then show ?thesis
    using validity_of_cases(1) [OF assms, of g] by (simp add: ids_of_def)
qed

theorem validity_sound_witness:
  "\<exists>v. validity_of demo_log demo_graph 1 = Some v \<and> va_valid_from v = 10"
proof -
  have o: "time_order demo_log = rev demo_log" "0 < length (time_order demo_log)" by code_simp+
  have "\<exists>v. validity_of demo_log demo_graph (cu_id (time_order demo_log ! 0)) = Some v \<and>
      va_valid_from v = record_valid_from (time_order demo_log ! 0)"
    using validity_sound [OF demo_log_distinct, THEN conjunct2, rule_format, OF o(2), of demo_graph]
    by (elim exE conjE) (intro exI conjI)
  moreover have "cu_id (time_order demo_log ! 0) = 1" "record_valid_from (time_order demo_log ! 0) = 10"
    by code_simp+
  ultimately show ?thesis by simp
qed

text \<open>
  C37: nothing outlives its ending. A record that another one supersedes, that a later one
  contradicts or states anew, or that was retired is not current; in particular two current
  records never state the same fact.
\<close>

theorem validity_complete:
  assumes "distinct (map cu_id us)" and "u \<in> set us" and "validity_of us g (cu_id u) = Some v" and "is_current v"
  shows "um_retired_at (cu_meta u) = None \<and>
    (\<forall>w \<in> set us. w \<noteq> u \<longrightarrow> cu_id u \<notin> set (um_supersedes (cu_meta w))) \<and>
    (\<forall>w \<in> set us. (cu_timestamp u, cu_id u) < (cu_timestamp w, cu_id w) \<longrightarrow>
       \<not> contradicts g w u \<and> \<not> same_fact g w u)"
proof -
  let ?os = "time_order us"
  let ?key = "\<lambda>u. (cu_timestamp u, cu_id u)"
  obtain j where j: "j < length ?os" "?os ! j = u" using place_in_order [OF assms(2)] by blast
  obtain x where x: "v = retire u x" "x = fresh_validity u \<and> (\<forall>b < length ?os. \<forall>r. j \<noteq> b \<longrightarrow> \<not> justified g ?os j b r) \<or>
       (\<exists>b r. b < length ?os \<and> b \<noteq> j \<and> justified g ?os j b r \<and> x = ended_validity (?os ! b) r (fresh_validity u))"
    using validity_of_cases(2) [OF assms(1) j(1), of g] assms(3) j(2) by auto
  have opn: "va_valid_to x = None" "um_retired_at (cu_meta u) = None"
    using retire_current [of u x] assms(4) x(1) by (auto simp: is_current_def)
  then have no: "\<not> justified g ?os j b r" if "b < length ?os" "j \<noteq> b" for b r
    using x(2) that by auto
  have sorted: "sorted (map ?key ?os)" by (simp add: time_order_def)
  have "cu_id u \<notin> set (um_supersedes (cu_meta w))" if "w \<in> set us" "w \<noteq> u" for w
  proof -
    obtain b where b: "b < length ?os" "?os ! b = w" using place_in_order [OF \<open>w \<in> set us\<close>] by blast
    then have "j \<noteq> b" using that(2) j by auto
    from no [OF b(1) this, of Superseded] show ?thesis by (simp add: justified_def b j)
  qed
  moreover have "\<not> contradicts g w u \<and> \<not> same_fact g w u" if "w \<in> set us" "?key u < ?key w" for w
  proof -
    obtain b where b: "b < length ?os" "?os ! b = w" using place_in_order [OF \<open>w \<in> set us\<close>] by blast
    have "j < b"
    proof (rule ccontr)
      assume "\<not> j < b"
      then have "?key (?os ! b) \<le> ?key (?os ! j)"
        using sorted j(1) by (simp add: sorted_iff_nth_mono)
      then show False using that(2) by (auto simp: b(2) j(2))
    qed
    then show ?thesis
      using no [OF b(1), of Contradicted] no [OF b(1), of Restated] no [OF b(1), of Duplicate]
      by (auto simp: justified_def b(2) j(2))
  qed
  ultimately show ?thesis using opn(2) by blast
qed

theorem validity_complete_witness:
  "um_retired_at (cu_meta (hd demo_log)) = None \<and> 2 \<notin> set (um_supersedes (cu_meta (last demo_log)))"
proof -
  have "validity_of demo_log demo_graph (cu_id (hd demo_log)) =
      Some \<lparr>va_valid_from = 20, va_valid_to = None, va_ended_by = None, va_reason = None\<rparr>" by code_simp
  moreover have "hd demo_log \<in> set demo_log" "last demo_log \<in> set demo_log" "last demo_log \<noteq> hd demo_log"
    "cu_id (hd demo_log) = 2"
    by (simp_all add: demo_log_def demo_record_def)
  ultimately show ?thesis
    using validity_complete [OF demo_log_distinct, of "hd demo_log" demo_graph] by (simp add: is_current_def)
qed

text \<open>
  The intervals depend on the records only, not on the order in which they are given.
\<close>

theorem validity_order_independent:
  assumes "mset us = mset vs" and "distinct (map cu_id us)"
  shows "validity_of us g = validity_of vs g"
proof -
  let ?key = "\<lambda>u. (cu_timestamp u, cu_id u)"
  have "inj_on ?key (set us)" using assms(2) by (auto simp: distinct_map inj_on_def)
  then have "sort_key ?key us = sort_key ?key vs"
    by (intro sort_key_inj_key_eq) (simp_all add: assms(1))
  then show ?thesis by (simp add: validity_of_def)
qed

theorem validity_order_independent_witness:
  "validity_of demo_log demo_graph = validity_of (rev demo_log) demo_graph"
  by (rule validity_order_independent [OF _ demo_log_distinct]) simp

end
