(* ===== verification/Cards.thy ===== *)
theory Cards
  imports Context_Update
begin

text \<open>
  The user and project cards of \<open>post-cortex-core/src/core/card.rs\<close>: their scope, its key in
  storage, and a version of a card. The text form of a \<open>Uuid\<close> is the \<open>uuid\<close> crate's:
  parameters \<open>show_uuid\<close> and \<open>parse_uuid\<close>.
\<close>

datatype card_scope = Workspace_Scope uuid | User_Scope

definition max_card_bytes :: nat where "max_card_bytes = 2048"

definition scope_key :: "(uuid \<Rightarrow> string) \<Rightarrow> card_scope \<Rightarrow> string" where
  "scope_key show_uuid scope =
     (case scope of Workspace_Scope i \<Rightarrow> ''workspace:'' @ show_uuid i | User_Scope \<Rightarrow> ''user'')"

definition scope_from_key :: "(string \<Rightarrow> uuid option) \<Rightarrow> string \<Rightarrow> card_scope option" where
  "scope_from_key parse_uuid key =
     (if key = ''user'' then Some User_Scope
      else Option.bind (strip_prefix ''workspace:'' key)
             (\<lambda>i. map_option Workspace_Scope (parse_uuid i)))"

record card =
  ca_scope :: card_scope
  ca_version :: nat
  ca_text :: string
  ca_updated_at :: datetime
  ca_author :: "string option"

lemma scope_key_inj:
  assumes "inj show_uuid" shows "inj (scope_key show_uuid)"
proof (rule injI)
  fix a b assume "scope_key show_uuid a = scope_key show_uuid b"
  then show "a = b"
    using assms by (cases a; cases b) (auto simp: scope_key_def dest: injD)
qed

lemma scope_from_key:
  assumes "\<And>i. parse_uuid (show_uuid i) = Some i"
  shows "scope_from_key parse_uuid (scope_key show_uuid scope) = Some scope"
  by (cases scope) (simp_all add: scope_key_def scope_from_key_def assms strip_prefix_def)

end
