(* ===== verification/Context_Assembly.thy ===== *)
theory Context_Assembly
  imports Entity_Queries Cards
begin

text \<open>
  \<open>post-cortex-memory/src/context_assembly.rs\<close>: the context put in front of a language model,
  packed into a token budget. \<open>Utc::now()\<close> is the parameter \<open>now\<close> (nanoseconds), a score
  the exact real the \<open>f32\<close> arithmetic rounds. Log lines are left out. \<open>order\<close> is the
  iteration order of the node map in \<open>find_related_entities\<close>. Token counts are unbounded
  (\<open>usize\<close> sums of text lengths in memory). The heading of the impact section has an em
  dash, written here as three hyphens, as many bytes as its encoding.
\<close>

section \<open>Data\<close>

datatype context_source =
    Semantic_Match | Graph_Traversal (via_entity: string) | Recent_Update | Conversation

record context_item =
  ci_text :: string
  ci_score :: f32
  ci_source :: context_source
  ci_entities :: "string list"
  ci_token_estimate :: nat
  ci_entry_id :: string

datatype entity_relevance = Direct_Mention | Graph_Neighbor (via: string) (relation: string)

record entity_context =
  ec_name :: string
  ec_relevance :: entity_relevance
  ec_relationships :: "entity_relationship list"

record impact_entry =
  ie_entity :: string
  ie_depends_on :: string
  ie_relation_type :: relation_type
  ie_context :: string

record assembled_context =
  ac_items :: "context_item list"
  ac_entity_context :: "entity_context list"
  ac_impact :: "impact_entry list"
  ac_total_tokens :: nat
  ac_cards :: "card list"

section \<open>Sections of the text\<close>

definition estimate_tokens :: "string \<Rightarrow> nat" where
  "estimate_tokens text = (str_len text + 3) div 4"

text \<open>\<open>sort\<close> and \<open>dedup\<close>.\<close>

definition relation_line :: "entity_relationship \<Rightarrow> string" where
  "relation_line r =
     ''  '' @ er_from_entity r @ '' --['' @ relation_type_debug (er_relation_type r) @ '']--> '' @ er_to_entity r"

definition entity_section :: "entity_context list \<Rightarrow> string option" where
  "entity_section ecs =
     (let graph_lines = map relation_line (concat (map ec_relationships ecs))
      in if graph_lines = [] then None
         else Some (''Entity relationships:'' @ [CHR 0x0A] @ join_with [CHR 0x0A] (remdups_adj (sort graph_lines))))"

definition impact_line :: "impact_entry \<Rightarrow> string" where
  "impact_line i =
     ''  '' @ ie_entity i @ '' depends on '' @ ie_depends_on i @ '' ('' @
     relation_type_debug (ie_relation_type i) @ '')''"

definition impact_section :: "impact_entry list \<Rightarrow> string option" where
  "impact_section impact =
     (if impact = [] then None
      else Some (''Impact analysis --- these entities depend on what you''  @ [CHR 0x27] @ ''re working with:''
                 @ [CHR 0x0A] @ join_with [CHR 0x0A] (map impact_line impact)))"

definition option_list :: "'a option \<Rightarrow> 'a list" where
  "option_list x = (case x of None \<Rightarrow> [] | Some a \<Rightarrow> [a])"

definition graph_section_tokens :: "entity_context list \<Rightarrow> impact_entry list \<Rightarrow> nat" where
  "graph_section_tokens ecs impact =
     sum_list (map estimate_tokens (option_list (entity_section ecs) @ option_list (impact_section impact)))"

section \<open>The entities a query names\<close>

definition is_name_separator :: "char \<Rightarrow> bool" where
  "is_name_separator c \<longleftrightarrow> c = CHR ''_'' \<or> c = CHR ''-'' \<or> c = CHR ''/'' \<or> c = CHR '' '' \<or> c = CHR ''.''"

fun split_tokens :: "string \<Rightarrow> string \<Rightarrow> string list" where
  "split_tokens current [] = (if current = [] then [] else [current])"
| "split_tokens current (c # cs) =
     (if is_name_separator c
      then (if current = [] then split_tokens [] cs else current # split_tokens [] cs)
      else if is_uppercase c \<and> current \<noteq> [] then current # split_tokens [char_ascii_lower c] cs
      else split_tokens (current @ [char_ascii_lower c]) cs)"

definition split_entity_tokens :: "string \<Rightarrow> string list" where
  "split_entity_tokens name = split_tokens [] name"

definition query_words :: "string \<Rightarrow> string list" where
  "query_words query_lower =
     filter (\<lambda>t. 3 \<le> str_len t) (split_by (\<lambda>c. \<not> is_alphanumeric c \<and> c \<noteq> CHR ''_'') query_lower)"

definition token_matches :: "string list \<Rightarrow> string \<Rightarrow> bool" where
  "token_matches query_tokens et \<longleftrightarrow>
     3 \<le> str_len et \<and>
     (\<exists>qt \<in> set query_tokens.
        let (shorter, longer) = (if str_len et \<le> str_len qt then (et, qt) else (qt, et))
        in 3 \<le> str_len shorter \<and> starts_with shorter longer)"

text \<open>The score of a name and whether it is an exact match; \<open>None\<close> when the name is not found.\<close>

definition match_entity :: "string \<Rightarrow> string list \<Rightarrow> string \<Rightarrow> (nat \<times> bool) option" where
  "match_entity query_lower query_tokens name =
     (let name_lower = str_lower name in
      if str_len name_lower < 2 then None
      else if contains_str name_lower query_lower then Some (str_len name_lower * 10, True)
      else
        let tokens = split_entity_tokens name_lower in
        if tokens = [] then None
        else
          let matched = length (filter (token_matches query_tokens) tokens) in
          if matched = 0 then None
          else
            let threshold = (if length tokens \<le> 2 then length tokens
                             else max 1 ((length tokens * 2 + 4) div 5))
            in if threshold \<le> matched then Some (matched * 5 + str_len name_lower, False) else None)"

text \<open>The sort is stable: exact matches first, then the higher score.\<close>

definition find_query_entities :: "string \<Rightarrow> 'g entity_graph \<Rightarrow> string list" where
  "find_query_entities query g =
     (let query_lower = str_lower query;
          query_tokens = query_words query_lower;
          found = List.map_filter
            (\<lambda>e. map_option (\<lambda>(score, exact). (ed_name e, score, exact))
                   (match_entity query_lower query_tokens (ed_name e)))
            (entity_values g)
      in map fst (sort_key (\<lambda>(_, score, exact). (\<not> exact, - int score)) found))"

section \<open>Entity context and impact\<close>

definition context_relationships :: "'g pg \<Rightarrow> 'g entity_graph \<Rightarrow> string \<Rightarrow> entity_relationship list" where
  "context_relationships P g entity = relationships_of P g entity"

definition get_relationship_description :: "'g pg \<Rightarrow> 'g entity_graph \<Rightarrow> string \<Rightarrow> string \<Rightarrow> string" where
  "get_relationship_description P g a b =
     (case relation_between P g a b of
        rel # _ \<Rightarrow>
          if er_from_entity rel = a then relation_type_debug (er_relation_type rel)
          else relation_type_debug (er_relation_type rel) @ '' (reverse)''
      | [] \<Rightarrow> ''RelatedTo'')"

type_synonym context_state = "entity_context list \<times> string set"

definition direct_step :: "'g pg \<Rightarrow> 'g entity_graph \<Rightarrow> string \<Rightarrow> context_state \<Rightarrow> context_state" where
  "direct_step P g entity st =
     (let (result, seen) = st in
      if entity \<in> seen then st
      else (result @ [\<lparr>ec_name = entity, ec_relevance = Direct_Mention,
                        ec_relationships = context_relationships P g entity\<rparr>], insert entity seen))"

definition neighbor_step ::
  "'g pg \<Rightarrow> 'g entity_graph \<Rightarrow> string \<Rightarrow> string \<Rightarrow> context_state \<Rightarrow> context_state" where
  "neighbor_step P g entity neighbor st =
     (let (result, seen) = st in
      if neighbor \<in> seen then st
      else (result @ [\<lparr>ec_name = neighbor,
                        ec_relevance = Graph_Neighbor entity (get_relationship_description P g entity neighbor),
                        ec_relationships = context_relationships P g neighbor\<rparr>], insert neighbor seen))"

definition neighbors_step ::
  "'g pg \<Rightarrow> string list \<Rightarrow> 'g entity_graph \<Rightarrow> string \<Rightarrow> context_state \<Rightarrow> context_state" where
  "neighbors_step P order g entity = fold (neighbor_step P g entity) (find_related_entities P order g entity)"

definition context_round ::
  "'g pg \<Rightarrow> string list \<Rightarrow> 'g entity_graph \<Rightarrow> nat \<Rightarrow> context_state \<Rightarrow> context_state" where
  "context_round P order g depth st =
     (let current = map ec_name
            (filter (\<lambda>ec. if depth = 0 then ec_relevance ec = Direct_Mention else True) (fst st))
      in fold (neighbors_step P order g) current st)"

definition build_entity_context ::
  "'g pg \<Rightarrow> string list \<Rightarrow> string list \<Rightarrow> 'g entity_graph \<Rightarrow> nat \<Rightarrow> entity_context list" where
  "build_entity_context P order query_entities g max_depth =
     fst (fold (context_round P order g) [0..<max_depth] (fold (direct_step P g) query_entities ([], {})))"

definition is_dependency :: "relation_type \<Rightarrow> bool" where
  "is_dependency t \<longleftrightarrow> t = DependsOn \<or> t = RequiredBy \<or> t = Implements"

definition relation_impacts :: "string set \<Rightarrow> entity_relationship \<Rightarrow> impact_entry list" where
  "relation_impacts query_set rel =
     (if er_from_entity rel = er_to_entity rel then []
      else
        (if is_dependency (er_relation_type rel) \<and> er_to_entity rel \<in> query_set
         then [\<lparr>ie_entity = er_from_entity rel, ie_depends_on = er_to_entity rel,
                 ie_relation_type = er_relation_type rel, ie_context = er_context rel\<rparr>] else []) @
        (if er_relation_type rel = RequiredBy \<and> er_from_entity rel \<in> query_set
         then [\<lparr>ie_entity = er_to_entity rel, ie_depends_on = er_from_entity rel,
                 ie_relation_type = er_relation_type rel, ie_context = er_context rel\<rparr>] else []))"

fun retain_first :: "(string \<times> string) set \<Rightarrow> impact_entry list \<Rightarrow> impact_entry list" where
  "retain_first seen [] = []"
| "retain_first seen (i # is') =
     (if (ie_entity i, ie_depends_on i) \<in> seen then retain_first seen is'
      else i # retain_first (insert (ie_entity i, ie_depends_on i) seen) is')"

definition analyze_impact :: "'g pg \<Rightarrow> string list \<Rightarrow> 'g entity_graph \<Rightarrow> impact_entry list" where
  "analyze_impact P query_entities g =
     retain_first {} (concat (map (relation_impacts (set query_entities))
       (concat (map (relationships_of P g) query_entities))))"

definition entity_summary_tokens :: "'g pg \<Rightarrow> string list \<Rightarrow> string \<Rightarrow> 'g entity_graph \<Rightarrow> nat" where
  "entity_summary_tokens P order query g =
     (let query_entities = find_query_entities query g
      in graph_section_tokens (build_entity_context P order query_entities g 1) (analyze_impact P query_entities g))"

section \<open>Assembling\<close>

text \<open>
  \<open>boost_by_graph\<close>: \<open>order\<close> lists the entries of its hash map, one per lower-cased name (the
  last context with that name wins).
\<close>

definition relevance_boost :: "entity_context \<Rightarrow> f32" where
  "relevance_boost ec = (case ec_relevance ec of Direct_Mention \<Rightarrow> 15 / 100 | Graph_Neighbor _ _ \<Rightarrow> 8 / 100)"

definition boost_map :: "entity_context list \<Rightarrow> string \<rightharpoonup> f32" where
  "boost_map ecs = fold (\<lambda>ec m. m(str_lower (ec_name ec) \<mapsto> relevance_boost ec)) ecs Map.empty"

definition boost_one :: "(string \<times> f32) list \<Rightarrow> string \<times> f32 \<Rightarrow> string \<times> f32" where
  "boost_one boosts result =
     (let (text, score) = result;
          text_lower = str_lower text;
          total = sum_list (map snd (filter (\<lambda>(entity, _). contains_str entity text_lower) boosts))
      in (text, min (score + min total (25 / 100)) 1))"

definition boost_by_graph :: "(string \<times> f32) list \<Rightarrow> (string \<times> f32) list \<Rightarrow> (string \<times> f32) list" where
  "boost_by_graph boosts results = map (boost_one boosts) results"

definition eq_ignore_ascii_case :: "string \<Rightarrow> string \<Rightarrow> bool" where
  "eq_ignore_ascii_case a b \<longleftrightarrow> str_ascii_lower a = str_ascii_lower b"

definition nanos_per_hour :: int where "nanos_per_hour = 3600 * 1000000000"

definition entity_match_boost :: "entity_context \<Rightarrow> f32" where
  "entity_match_boost ec = (case ec_relevance ec of Direct_Mention \<Rightarrow> 4 / 10 | Graph_Neighbor _ _ \<Rightarrow> 2 / 10)"

definition score_update ::
  "(uuid \<Rightarrow> string) \<Rightarrow> datetime \<Rightarrow> string list \<Rightarrow> entity_context list \<Rightarrow> context_update \<Rightarrow> context_item" where
  "score_update show_uuid now query_entities ecs u =
     (let text = uc_title (cu_content u) @ '': '' @ uc_description (cu_content u);
          age_hours = real_of_int (max 0 ((now - cu_timestamp u) div nanos_per_hour));
          recency_score = 1 / (1 + age_hours / 24);
          text_lower = str_lower text;
          matched = filter (\<lambda>ec. contains_str (str_lower (ec_name ec)) text_lower) ecs;
          matched_entities = map ec_name matched;
          entity_boost = sum_list (map entity_match_boost matched);
          importance_boost = (if cu_user_marked_important u then 2 / 10 else 0);
          source =
            (if matched_entities \<noteq> []
             then if \<exists>qe \<in> set query_entities. \<exists>me \<in> set matched_entities. eq_ignore_ascii_case me qe
                  then Semantic_Match else Graph_Traversal (hd matched_entities)
             else Recent_Update)
      in \<lparr>ci_text = text, ci_score = min (recency_score * (3 / 10) + entity_boost + importance_boost) 1,
          ci_source = source, ci_entities = matched_entities, ci_token_estimate = estimate_tokens text,
          ci_entry_id = show_uuid (cu_id u)\<rparr>)"

text \<open>The two packing loops: an item that does not fit is skipped.\<close>

fun pack_items :: "nat \<Rightarrow> nat \<Rightarrow> context_item list \<Rightarrow> context_item list \<times> nat" where
  "pack_items budget used [] = ([], used)"
| "pack_items budget used (i # is') =
     (if used + ci_token_estimate i > budget then pack_items budget used is'
      else let (sel, total) = pack_items budget (used + ci_token_estimate i) is' in (i # sel, total))"

definition assemble_context ::
  "'g pg \<Rightarrow> string list \<Rightarrow> (uuid \<Rightarrow> string) \<Rightarrow> datetime \<Rightarrow> string \<Rightarrow> 'g entity_graph \<Rightarrow>
   context_update list \<Rightarrow> nat \<Rightarrow> assembled_context" where
  "assemble_context P order show_uuid now query g updates token_budget =
     (let query_entities = find_query_entities query g;
          ecs = build_entity_context P order query_entities g 1;
          impact = analyze_impact P query_entities g;
          scored = sort_key (\<lambda>i. - ci_score i) (map (score_update show_uuid now query_entities ecs) updates);
          summary = graph_section_tokens ecs impact;
          (selected, used) = pack_items (token_budget - summary) 0 scored
      in \<lparr>ac_items = selected, ac_entity_context = ecs, ac_impact = impact,
          ac_total_tokens = used + summary, ac_cards = []\<rparr>)"

section \<open>Cards and excerpts\<close>

definition card_tokens :: "card list \<Rightarrow> nat" where
  "card_tokens cards =
     sum_list (map (\<lambda>c. estimate_tokens (ca_text c) + 8) (filter (\<lambda>c. trim (ca_text c) \<noteq> []) cards))"

definition add_cards :: "card list \<Rightarrow> assembled_context \<Rightarrow> assembled_context" where
  "add_cards cards ctx =
     (let cards = filter (\<lambda>c. trim (ca_text c) \<noteq> []) cards
      in ctx\<lparr>ac_total_tokens := ac_total_tokens ctx + card_tokens cards, ac_cards := cards\<rparr>)"

definition add_excerpts :: "context_item list \<Rightarrow> nat \<Rightarrow> assembled_context \<Rightarrow> assembled_context" where
  "add_excerpts excerpts token_budget ctx =
     (let (sel, total) = pack_items token_budget (ac_total_tokens ctx) excerpts
      in ctx\<lparr>ac_total_tokens := total, ac_items := ac_items ctx @ sel\<rparr>)"

definition excerpt :: "string \<Rightarrow> f32 \<Rightarrow> string \<Rightarrow> context_item" where
  "excerpt text score entry_id =
     \<lparr>ci_text = text, ci_score = score, ci_source = Conversation, ci_entities = [],
      ci_token_estimate = estimate_tokens text, ci_entry_id = entry_id\<rparr>"

definition format_card :: "card \<Rightarrow> string" where
  "format_card c =
     (case ca_scope c of User_Scope \<Rightarrow> ''User card'' | Workspace_Scope _ \<Rightarrow> ''Project card'') @
     '':'' @ [CHR 0x0A] @ trim (ca_text c)"

definition format_for_llm :: "assembled_context \<Rightarrow> string" where
  "format_for_llm ctx =
     (let excerpts = filter (\<lambda>i. ci_source i = Conversation) (ac_items ctx);
          records = filter (\<lambda>i. ci_source i \<noteq> Conversation) (ac_items ctx);
          parts =
            map format_card (ac_cards ctx) @
            option_list (entity_section (ac_entity_context ctx)) @
            option_list (impact_section (ac_impact ctx)) @
            (if records = [] then []
             else [''Relevant context:'' @ [CHR 0x0A] @
                   join_with ([CHR 0x0A] @ ''---'' @ [CHR 0x0A]) (map ci_text records)]) @
            (if excerpts = [] then []
             else [''Conversation excerpts:'' @ [CHR 0x0A] @ join_with [CHR 0x0A] (map ci_text excerpts)])
      in join_with [CHR 0x0A, CHR 0x0A] parts)"

section \<open>The whole assembly\<close>

text \<open>
  \<open>assemble\<close> of \<open>post-cortex-daemon/src/daemon/assembly_scope.rs\<close>. What it reads from storage is
  its input: the cards that could be read, in order, and the conversation excerpts the search
  found (none when it failed). \<open>token_budget - excerpt_tokens\<close> is a plain \<open>usize\<close>
  subtraction; the kept excerpts never exceed their share, which is at most the budget.
\<close>

datatype corpus = Records | Messages | All_Texts

fun keep_fitting :: "nat \<Rightarrow> nat \<Rightarrow> context_item list \<Rightarrow> context_item list \<times> nat" where
  "keep_fitting budget used [] = ([], used)"
| "keep_fitting budget used (i # is') =
     (if used + ci_token_estimate i \<le> budget
      then let (kept, total) = keep_fitting budget (used + ci_token_estimate i) is' in (i # kept, total)
      else keep_fitting budget used is')"

definition assemble ::
  "'g pg \<Rightarrow> string list \<Rightarrow> (uuid \<Rightarrow> string) \<Rightarrow> datetime \<Rightarrow> card list \<Rightarrow> context_item list \<Rightarrow> string \<Rightarrow>
   'g entity_graph \<Rightarrow> context_update list \<Rightarrow> nat \<Rightarrow> corpus \<Rightarrow> assembled_context" where
  "assemble P order show_uuid now cards found query g updates token_budget corp =
     (let token_budget = token_budget - card_tokens cards;
          excerpts = (if corp = Records then [] else found);
          (updates, excerpt_budget) =
            (if corp = Messages then ([], token_budget)
             else (updates, (token_budget - entity_summary_tokens P order query g) div 2));
          (excerpts, excerpt_tokens) = keep_fitting excerpt_budget 0 excerpts;
          ctx = assemble_context P order show_uuid now query g updates (token_budget - excerpt_tokens)
      in add_cards cards (add_excerpts excerpts token_budget ctx))"

end
