(* ===== verification/Context_Assembly_Props.thy ===== *)
theory Context_Assembly_Props
  imports Context_Assembly Entity_Bounded "HOL-Library.Multiset" "HOL-Library.Sublist"
begin

text \<open>
  The assembled context keeps its token budget, packs greedily in the order of the scores,
  names the entities of the query with their neighbours, and lists every dependent of them.
\<close>

section \<open>Packing\<close>

abbreviation item_tokens :: "context_item list \<Rightarrow> nat" where
  "item_tokens is' \<equiv> sum_list (map ci_token_estimate is')"

lemma item_tokens_filter: "item_tokens (filter Q is') \<le> item_tokens is'"
  by (induction is') auto

lemma pack_items_total:
  "snd (pack_items budget used is') = used + item_tokens (fst (pack_items budget used is'))"
  by (induction budget used is' rule: pack_items.induct) (auto simp: Let_def split: prod.split)

lemma pack_items_bound: "snd (pack_items budget used is') \<le> max budget used"
  by (induction budget used is' rule: pack_items.induct) (auto simp: Let_def split: prod.split)

lemma pack_items_subseq: "subseq (fst (pack_items budget used is')) is'"
  by (induction budget used is' rule: pack_items.induct)
    (auto simp: Let_def split: prod.split intro: subseq_Cons2)

text \<open>An item is left out only when it does not fit beside the items of at least its score.\<close>

lemma pack_items_maximal:
  "sorted (map (\<lambda>i. - ci_score i) is') \<Longrightarrow> j \<in> set is' \<Longrightarrow> j \<notin> set (fst (pack_items budget used is')) \<Longrightarrow>
   budget < used + ci_token_estimate j +
     item_tokens (filter (\<lambda>i. ci_score j \<le> ci_score i) (fst (pack_items budget used is')))"
proof (induction budget used is' rule: pack_items.induct)
  case (2 budget used i is')
  show ?case
  proof (cases "used + ci_token_estimate i > budget")
    case True
    then show ?thesis using 2 by (cases "j = i") auto
  next
    case False
    then have "j \<noteq> i" "j \<in> set is'" "j \<notin> set (fst (pack_items budget (used + ci_token_estimate i) is'))"
      using 2(4,5) by (auto simp: Let_def split: prod.splits)
    moreover have "ci_score j \<le> ci_score i" using 2(3) \<open>j \<in> set is'\<close> by auto
    ultimately show ?thesis using 2(2) [OF False _ _ _] 2(3) False by (auto simp: Let_def split: prod.splits)
  qed
qed simp

lemma keep_fitting_pack: "keep_fitting budget used is' = pack_items budget used is'"
  by (induction budget used is' rule: pack_items.induct) (auto simp: not_le)

lemma pack_items_all:
  "used + item_tokens is' \<le> budget \<Longrightarrow> pack_items budget used is' = (is', used + item_tokens is')"
  by (induction budget used is' rule: pack_items.induct) auto

lemma sorted_subseq: "subseq xs ys \<Longrightarrow> sorted ys \<Longrightarrow> sorted (xs :: 'a::linorder list)"
proof (induction rule: list_emb.induct)
  case (list_emb_Cons2 x y xs ys)
  then have "set xs \<subseteq> set ys" by (auto dest: list_emb_set)
  then show ?case using list_emb_Cons2 by auto
qed auto

lemma sorted_desc_subseq:
  assumes "sorted (map (\<lambda>i. - ci_score i) is')" and "subseq xs is'"
  shows "sorted (map (\<lambda>i. - ci_score i) xs)"
  using subseq_map [OF assms(2), of "\<lambda>i. - ci_score i"] assms(1) by (rule sorted_subseq)

lemma subseq_mset: "subseq xs ys \<Longrightarrow> mset xs \<subseteq># mset ys"
  by (induction rule: list_emb.induct) (auto intro: subset_mset.trans)

section \<open>The entities of the query\<close>

lemma match_entity_exact:
  "2 \<le> str_len (str_lower n) \<Longrightarrow> contains_str (str_lower n) q \<Longrightarrow>
   match_entity q ts n = Some (str_len (str_lower n) * 10, True)"
  by (simp add: match_entity_def)

lemma match_entity_flag:
  "match_entity q ts n = Some (s, e) \<Longrightarrow> e \<longleftrightarrow> contains_str (str_lower n) q"
  by (auto simp: match_entity_def Let_def split: if_splits)

definition query_found :: "string \<Rightarrow> 'g entity_graph \<Rightarrow> (string \<times> nat \<times> bool) list" where
  "query_found query g =
     List.map_filter
       (\<lambda>e. map_option (\<lambda>(score, exact). (ed_name e, score, exact))
              (match_entity (str_lower query) (query_words (str_lower query)) (ed_name e)))
       (entity_values g)"

lemma find_query_entities_found:
  "find_query_entities query g =
     map fst (sort_key (\<lambda>(_, score, exact). (\<not> exact, - int score)) (query_found query g))"
  by (simp add: find_query_entities_def query_found_def Let_def)

lemma query_found_names: "subseq (map fst (query_found query g)) (map ed_name (entity_values g))"
proof -
  have "subseq (map fst (List.map_filter (\<lambda>e. map_option (\<lambda>(s, x). (ed_name e, s, x)) (f (ed_name e))) es))
      (map ed_name es)" for es and f :: "string \<Rightarrow> (nat \<times> bool) option"
    by (induction es) (auto simp: List.map_filter_simps split: option.split)
  then show ?thesis by (simp add: query_found_def)
qed

lemma mem_query_found:
  "(n, s, x) \<in> set (query_found query g) \<longleftrightarrow>
     (\<exists>e \<in> set (entity_values g). ed_name e = n) \<and>
     match_entity (str_lower query) (query_words (str_lower query)) n = Some (s, x)"
  by (auto simp: query_found_def mem_map_filter)

lemma entity_values_names:
  assumes "graph_ok P valid g" shows "map ed_name (entity_values g) = map fst (eg_entities g)"
proof -
  have "ed_name e = n" if "(n, e) \<in> set (eg_entities g)" for n e
    using graph_okD(6) [OF assms] that bt_ok_distinct [OF graph_okD(4) [OF assms]] by simp
  then show ?thesis by (auto simp: entity_values_def)
qed

lemma query_entities:
  assumes ok: "graph_ok P valid g"
  shows "distinct (find_query_entities query g)"
    and "n \<in> set (find_query_entities query g) \<longleftrightarrow>
      has_entity g n \<and> match_entity (str_lower query) (query_words (str_lower query)) n \<noteq> None"
    and "sorted (map (\<lambda>n. \<not> contains_str (str_lower n) (str_lower query)) (find_query_entities query g))"
proof -
  let ?key = "\<lambda>(_ :: string, score, exact). (\<not> exact, - int score)"
  let ?fs = "sort_key ?key (query_found query g)"
  note names = entity_values_names [OF ok]
  have "distinct (map fst (eg_entities g))" by (rule bt_ok_distinct [OF graph_okD(4) [OF ok]])
  then have "distinct (map fst (query_found query g))"
    using query_found_names [of query g] unfolding names by (rule subseq_distinct [rotated])
  then show "distinct (find_query_entities query g)"
    unfolding find_query_entities_found by (simp add: distinct_map distinct_sort)
  have "n \<in> set (map ed_name (entity_values g)) \<longleftrightarrow> has_entity g n"
    unfolding names by (simp add: has_entity_def map_of_eq_None_iff)
  then have stored: "(\<exists>e \<in> set (entity_values g). ed_name e = n) \<longleftrightarrow> has_entity g n" by auto
  have "n \<in> set (find_query_entities query g) \<longleftrightarrow> (\<exists>s x. (n, s, x) \<in> set (query_found query g))"
    by (auto simp: find_query_entities_found image_iff Bex_def)
  also have "\<dots> \<longleftrightarrow> has_entity g n \<and> match_entity (str_lower query) (query_words (str_lower query)) n \<noteq> None"
    unfolding mem_query_found stored by auto
  finally show "n \<in> set (find_query_entities query g) \<longleftrightarrow>
      has_entity g n \<and> match_entity (str_lower query) (query_words (str_lower query)) n \<noteq> None" .
  have "map (\<lambda>n. \<not> contains_str (str_lower n) (str_lower query)) (find_query_entities query g) =
      map fst (map ?key ?fs)"
    by (auto simp: find_query_entities_found mem_query_found dest: match_entity_flag)
  moreover have "sorted (map fst (map ?key ?fs))"
    by (rule sorted_map_mono [OF sorted_sort_key]) (auto simp: monotone_on_def)
  ultimately show "sorted (map (\<lambda>n. \<not> contains_str (str_lower n) (str_lower query)) (find_query_entities query g))"
    by simp
qed

lemma query_related:
  assumes "digraph P valid" and "graph_ok P valid g" and "q \<in> set (find_query_entities query g)"
  shows "set (find_related_entities P order g q) = related P g q"
  using assms query_entities(2) [OF assms(2)]
  by (intro find_related_stored [OF entity_digraph_iff]) auto

text \<open>A lower-cased name has no capitals left, so it is split at its separators only.\<close>

lemma char_lower_not_uppercase: "\<not> is_uppercase (char_lower c)"
  by (auto simp: char_lower_def is_uppercase_def is_ascii_upper_def)

lemma split_tokens_lower:
  "\<forall>c \<in> set cs. \<not> is_uppercase c \<Longrightarrow>
   split_tokens cur cs =
     (case split_by is_name_separator cs of
        w # ws \<Rightarrow> filter (\<lambda>w. w \<noteq> []) ((cur @ w) # ws) | [] \<Rightarrow> [])"
proof (induction cur cs rule: split_tokens.induct)
  case (2 cur c cs)
  have "char_ascii_lower c = c"
    using 2(5) by (simp add: char_ascii_lower_def is_uppercase_def)
  then show ?case
    using 2 by (cases "split_by is_name_separator cs") (auto split: list.splits)
qed simp

lemma split_lower_name:
  "split_entity_tokens (str_lower n) = filter (\<lambda>w. w \<noteq> []) (split_by is_name_separator (str_lower n))"
  by (subst split_entity_tokens_def, subst split_tokens_lower)
    (auto simp: str_lower_def char_lower_not_uppercase split: list.split)

section \<open>Entity context\<close>

definition context_ok ::
  "'g pg \<Rightarrow> 'g entity_graph \<Rightarrow> string list \<Rightarrow> string set \<Rightarrow> context_state \<Rightarrow> bool" where
  "context_ok P g qs done st \<longleftrightarrow>
     distinct (map ec_name (fst st)) \<and> snd st = ec_name ` set (fst st) \<and>
     map ec_name (filter (\<lambda>ec. ec_relevance ec = Direct_Mention) (fst st)) = rev (remdups (rev qs)) \<and>
     snd st = set qs \<union> (\<Union>q \<in> done. related P g q) \<and>
     (\<forall>ec \<in> set (fst st). ec_relationships ec = relationships_of P g (ec_name ec) \<and>
        (\<forall>v r. ec_relevance ec = Graph_Neighbor v r \<longrightarrow> v \<in> set qs \<and> ec_name ec \<in> related P g v))"

lemma direct_steps:
  "fold (direct_step P g) qs ([], {}) =
     (map (\<lambda>q. \<lparr>ec_name = q, ec_relevance = Direct_Mention, ec_relationships = relationships_of P g q\<rparr>)
        (rev (remdups (rev qs))), set qs)"
proof (induction qs rule: rev_induct)
  case (snoc q qs)
  then show ?case by (auto simp: direct_step_def context_relationships_def)
qed simp

lemma neighbor_step_pair:
  "neighbor_step P g q n (ecs, seen) =
     (if n \<in> seen then (ecs, seen)
      else (ecs @ [\<lparr>ec_name = n, ec_relevance = Graph_Neighbor q (get_relationship_description P g q n),
                    ec_relationships = relationships_of P g n\<rparr>], insert n seen))"
  by (simp add: neighbor_step_def context_relationships_def)

lemma neighbor_steps:
  assumes "context_ok P g qs done (ecs, seen)" and "q \<in> set qs" and "set ns \<subseteq> related P g q"
  shows "\<exists>ecs'. fold (neighbor_step P g q) ns (ecs, seen) = (ecs @ ecs', seen \<union> set ns) \<and>
    distinct (map ec_name (ecs @ ecs')) \<and> ec_name ` set ecs' = set ns - seen \<and>
    (\<forall>ec \<in> set ecs'. ec_relationships ec = relationships_of P g (ec_name ec) \<and>
       (\<exists>r. ec_relevance ec = Graph_Neighbor q r))"
  using assms(3)
proof (induction ns rule: rev_induct)
  case Nil
  then show ?case using assms(1) by (auto simp: context_ok_def intro!: exI [of _ "[]"])
next
  case (snoc n ns)
  then obtain ecs' where I: "fold (neighbor_step P g q) ns (ecs, seen) = (ecs @ ecs', seen \<union> set ns)"
    "distinct (map ec_name (ecs @ ecs'))" "ec_name ` set ecs' = set ns - seen"
    "\<forall>ec \<in> set ecs'. ec_relationships ec = relationships_of P g (ec_name ec) \<and>
       (\<exists>r. ec_relevance ec = Graph_Neighbor q r)" by auto
  have seen: "seen = ec_name ` set ecs" using assms(1) by (simp add: context_ok_def)
  show ?case
  proof (cases "n \<in> seen \<union> set ns")
    case True
    then show ?thesis using I by (intro exI [of _ ecs']) (auto simp: neighbor_step_pair)
  next
    case False
    let ?e = "\<lparr>ec_name = n, ec_relevance = Graph_Neighbor q (get_relationship_description P g q n),
      ec_relationships = relationships_of P g n\<rparr>"
    have "n \<notin> ec_name ` set ecs" "n \<notin> ec_name ` set ecs'" using False I(3) seen by auto
    then show ?thesis
      using I False by (intro exI [of _ "ecs' @ [?e]"]) (auto simp: neighbor_step_pair)
  qed
qed

lemma neighbors_step_ok:
  assumes "context_ok P g qs done st" and "q \<in> set qs"
    and "set (find_related_entities P order g q) = related P g q"
  shows "context_ok P g qs (insert q done) (neighbors_step P order g q st)"
proof -
  obtain ecs seen where st: "st = (ecs, seen)" by (cases st)
  note ok = assms(1) [unfolded st]
  from neighbor_steps [OF ok assms(2), of "find_related_entities P order g q"] assms(3)
  obtain ecs' where I: "neighbors_step P order g q st = (ecs @ ecs', seen \<union> related P g q)"
    "distinct (map ec_name (ecs @ ecs'))" "ec_name ` set ecs' = related P g q - seen"
    "\<forall>ec \<in> set ecs'. ec_relationships ec = relationships_of P g (ec_name ec) \<and>
       (\<exists>r. ec_relevance ec = Graph_Neighbor q r)"
    by (auto simp: neighbors_step_def st)
  have direct: "filter (\<lambda>ec. ec_relevance ec = Direct_Mention) ecs' = []"
    using I(4) by (auto simp: filter_empty_conv)
  have rel: "ec_relationships ec = relationships_of P g (ec_name ec) \<and>
      (\<forall>v r. ec_relevance ec = Graph_Neighbor v r \<longrightarrow> v \<in> set qs \<and> ec_name ec \<in> related P g v)"
    if "ec \<in> set (ecs @ ecs')" for ec
  proof (cases "ec \<in> set ecs")
    case True
    then show ?thesis using ok by (simp add: context_ok_def)
  next
    case False
    then have "ec \<in> set ecs'" using that by simp
    moreover then have "ec_name ec \<in> related P g q" using I(3) by blast
    ultimately show ?thesis using I(4) assms(2) by fastforce
  qed
  have "seen \<union> related P g q = ec_name ` set (ecs @ ecs')"
    using ok I(3) by (auto simp: context_ok_def image_Un)
  moreover have "seen \<union> related P g q = set qs \<union> (\<Union>q \<in> insert q done. related P g q)"
    using ok by (auto simp: context_ok_def)
  moreover have "map ec_name (filter (\<lambda>ec. ec_relevance ec = Direct_Mention) (ecs @ ecs')) = rev (remdups (rev qs))"
    using ok direct by (simp add: context_ok_def)
  ultimately show ?thesis unfolding I(1) context_ok_def fst_conv snd_conv using I(2) rel by blast
qed

lemma build_context_ok:
  assumes "\<And>q. q \<in> set qs \<Longrightarrow> set (find_related_entities P order g q) = related P g q"
  shows "\<exists>seen. context_ok P g qs (set qs) (build_entity_context P order qs g 1, seen)"
proof -
  let ?direct = "fold (direct_step P g) qs ([], {})"
  have start: "context_ok P g qs {} ?direct"
    by (auto simp: direct_steps context_ok_def o_def image_image)
  have rounds: "context_ok P g qs (set qs') (fold (neighbors_step P order g) qs' ?direct)"
    if "set qs' \<subseteq> set qs" for qs'
    using that
  proof (induction qs' rule: rev_induct)
    case (snoc q qs')
    then show ?case using neighbors_step_ok [of P g qs "set qs'" _ q order] assms by simp
  qed (simp add: start)
  have "map ec_name (filter (\<lambda>ec. ec_relevance ec = Direct_Mention) (fst ?direct)) = rev (remdups (rev qs))"
    using start by (simp add: context_ok_def)
  then have "context_round P order g 0 ?direct = fold (neighbors_step P order g) (rev (remdups (rev qs))) ?direct"
    by (simp add: context_round_def)
  then have "context_ok P g qs (set qs) (context_round P order g 0 ?direct)"
    using rounds [of "rev (remdups (rev qs))"] by simp
  moreover have "build_entity_context P order qs g 1 = fst (context_round P order g 0 ?direct)"
    by (simp add: build_entity_context_def)
  ultimately show ?thesis by (metis prod.collapse)
qed

section \<open>Impact\<close>

abbreviation impact_pair :: "impact_entry \<Rightarrow> string \<times> string" where
  "impact_pair i \<equiv> (ie_entity i, ie_depends_on i)"

text \<open>The entries a relation gives rise to, for the query entities \<open>Q\<close>.\<close>

definition impacts :: "string set \<Rightarrow> entity_relationship \<Rightarrow> impact_entry \<Rightarrow> bool" where
  "impacts Q r i \<longleftrightarrow>
     er_from_entity r \<noteq> er_to_entity r \<and> ie_depends_on i \<in> Q \<and>
     ie_relation_type i = er_relation_type r \<and> ie_context i = er_context r \<and>
     (is_dependency (er_relation_type r) \<and> impact_pair i = (er_from_entity r, er_to_entity r) \<or>
      er_relation_type r = RequiredBy \<and> impact_pair i = (er_to_entity r, er_from_entity r))"

lemma set_relation_impacts: "i \<in> set (relation_impacts Q r) \<longleftrightarrow> impacts Q r i"
  by (cases i) (auto simp: relation_impacts_def impacts_def)

lemma retain_first_spec:
  "distinct (map impact_pair (retain_first seen is')) \<and> set (retain_first seen is') \<subseteq> set is' \<and>
   impact_pair ` set (retain_first seen is') = impact_pair ` set is' - seen"
  by (induction seen is' rule: retain_first.induct) auto

lemma analyze_impact_entries:
  assumes "digraph P valid" and "graph_ok P valid g"
  shows "distinct (map impact_pair (analyze_impact P qs g))"
    and "i \<in> set (analyze_impact P qs g) \<Longrightarrow> \<exists>r \<in> set (relationships P g). impacts (set qs) r i"
    and "r \<in> set (relationships P g) \<Longrightarrow> impacts (set qs) r i \<Longrightarrow>
      \<exists>j \<in> set (analyze_impact P qs g). impact_pair j = impact_pair i"
proof -
  let ?all = "concat (map (relation_impacts (set qs)) (concat (map (relationships_of P g) qs)))"
  have R: "distinct (map impact_pair (analyze_impact P qs g))" "set (analyze_impact P qs g) \<subseteq> set ?all"
    "impact_pair ` set (analyze_impact P qs g) = impact_pair ` set ?all"
    using retain_first_spec [of "{}" ?all] by (simp_all add: analyze_impact_def)
  have mem: "r \<in> set (relationships_of P g n) \<longleftrightarrow>
      r \<in> set (relationships P g) \<and> (er_from_entity r = n \<or> er_to_entity r = n)" for r n
    using entity_digraph_iff [OF assms(1)] graph_okD(1) [OF assms(2)] assms(2)
    by (simp add: entity_digraph.mem_relationships_of entity_digraph.mem_relationships)
  have "impacts (set qs) r i \<Longrightarrow> er_from_entity r \<in> set qs \<or> er_to_entity r \<in> set qs" for r i
    by (auto simp: impacts_def)
  then have all: "i \<in> set ?all \<longleftrightarrow> (\<exists>r \<in> set (relationships P g). impacts (set qs) r i)" for i
    by (simp add: set_relation_impacts) (use mem in blast)
  show "distinct (map impact_pair (analyze_impact P qs g))" by (rule R(1))
  show "\<exists>r \<in> set (relationships P g). impacts (set qs) r i" if "i \<in> set (analyze_impact P qs g)"
    using R(2) that all by blast
  assume "r \<in> set (relationships P g)" "impacts (set qs) r i"
  then have "i \<in> set ?all" using all by blast
  then have "impact_pair i \<in> impact_pair ` set (analyze_impact P qs g)" unfolding R(3) by (rule imageI)
  then show "\<exists>j \<in> set (analyze_impact P qs g). impact_pair j = impact_pair i"
    unfolding image_iff by (metis (mono_tags, lifting))
qed

section \<open>Assembling\<close>

lemma score_update_source: "ci_source (score_update show_uuid now qs ecs u) \<noteq> Conversation"
  by (simp add: score_update_def Let_def)

lemma assemble_context_fields:
  fixes P :: "'g pg" and order show_uuid now query g us B
  defines "ctx \<equiv> assemble_context P order show_uuid now query g us B"
    and "scored \<equiv> map (score_update show_uuid now (find_query_entities query g)
            (build_entity_context P order (find_query_entities query g) g 1)) us"
    and "S \<equiv> entity_summary_tokens P order query g"
  shows "ac_items ctx = fst (pack_items (B - S) 0 (sort_key (\<lambda>i. - ci_score i) scored))"
    and "ac_total_tokens ctx = item_tokens (ac_items ctx) + S"
    and "ac_total_tokens ctx \<le> max B S"
    and "ac_entity_context ctx = build_entity_context P order (find_query_entities query g) g 1"
    and "ac_impact ctx = analyze_impact P (find_query_entities query g) g"
    and "ac_cards ctx = []"
  using pack_items_total [of "B - S" 0 "sort_key (\<lambda>i. - ci_score i) scored"]
    pack_items_bound [of "B - S" 0 "sort_key (\<lambda>i. - ci_score i) scored"]
  by (auto simp: ctx_def scored_def S_def assemble_context_def entity_summary_tokens_def Let_def split: prod.splits)

lemma assemble_context_packing:
  fixes P :: "'g pg" and order show_uuid now query g us B
  defines "ctx \<equiv> assemble_context P order show_uuid now query g us B"
    and "scored \<equiv> map (score_update show_uuid now (find_query_entities query g)
            (build_entity_context P order (find_query_entities query g) g 1)) us"
    and "S \<equiv> entity_summary_tokens P order query g"
  shows "sorted (map (\<lambda>i. - ci_score i) (ac_items ctx))"
    and "mset (ac_items ctx) \<subseteq># mset scored"
    and "j \<in> set scored \<Longrightarrow> j \<notin> set (ac_items ctx) \<Longrightarrow>
      B < S + ci_token_estimate j + item_tokens (filter (\<lambda>i. ci_score j \<le> ci_score i) (ac_items ctx))"
proof -
  let ?sorted = "sort_key (\<lambda>i. - ci_score i) scored"
  have items: "ac_items ctx = fst (pack_items (B - S) 0 ?sorted)"
    unfolding ctx_def scored_def S_def by (rule assemble_context_fields(1))
  show "sorted (map (\<lambda>i. - ci_score i) (ac_items ctx))"
    unfolding items by (rule sorted_desc_subseq [OF _ pack_items_subseq]) simp
  have "mset (ac_items ctx) \<subseteq># mset ?sorted"
    unfolding items by (rule subseq_mset [OF pack_items_subseq])
  then show "mset (ac_items ctx) \<subseteq># mset scored" by simp
  assume "j \<in> set scored" "j \<notin> set (ac_items ctx)"
  then show "B < S + ci_token_estimate j + item_tokens (filter (\<lambda>i. ci_score j \<le> ci_score i) (ac_items ctx))"
    using pack_items_maximal [of ?sorted j "B - S" 0] by (simp add: items)
qed

lemma card_tokens_filter [simp]: "card_tokens (filter (\<lambda>c. trim (ca_text c) \<noteq> []) cards) = card_tokens cards"
  by (simp add: card_tokens_def)

section \<open>The whole assembly\<close>

text \<open>The parts of \<open>assemble\<close>: the excerpts with a share of the budget and the context of the records.\<close>

definition excerpt_share :: "'g pg \<Rightarrow> string list \<Rightarrow> card list \<Rightarrow> string \<Rightarrow> 'g entity_graph \<Rightarrow> nat \<Rightarrow> corpus \<Rightarrow> nat" where
  "excerpt_share P order cards query g B corp =
     (if corp = Messages then B - card_tokens cards
      else (B - card_tokens cards - entity_summary_tokens P order query g) div 2)"

definition shared_excerpts ::
  "'g pg \<Rightarrow> string list \<Rightarrow> card list \<Rightarrow> context_item list \<Rightarrow> string \<Rightarrow> 'g entity_graph \<Rightarrow> nat \<Rightarrow> corpus \<Rightarrow> context_item list" where
  "shared_excerpts P order cards found query g B corp =
     fst (pack_items (excerpt_share P order cards query g B corp) 0 (if corp = Records then [] else found))"

lemma assemble_parts:
  fixes P :: "'g pg" and order show_uuid now cards found query g us B corp
  defines "ctx \<equiv> assemble P order show_uuid now cards found query g us B corp"
    and "ex \<equiv> shared_excerpts P order cards found query g B corp"
    and "B' \<equiv> B - card_tokens cards"
  defines "rec \<equiv> assemble_context P order show_uuid now query g (if corp = Messages then [] else us) (B' - item_tokens ex)"
  shows "ac_items ctx = ac_items rec @ fst (pack_items B' (ac_total_tokens rec) ex)"
    and "ac_total_tokens ctx = snd (pack_items B' (ac_total_tokens rec) ex) + card_tokens cards"
    and "ac_cards ctx = filter (\<lambda>c. trim (ca_text c) \<noteq> []) cards"
    and "item_tokens ex \<le> excerpt_share P order cards query g B corp"
proof -
  let ?in = "if corp = Records then [] else found"
  let ?share = "excerpt_share P order cards query g B corp"
  have kept: "keep_fitting ?share 0 ?in = (ex, item_tokens ex)"
    using pack_items_total [of ?share 0 ?in]
    by (simp add: ex_def shared_excerpts_def keep_fitting_pack prod_eq_iff)
  have "ctx = add_cards cards (add_excerpts ex B' rec)"
    using kept
    by (cases corp) (simp_all add: ctx_def assemble_def B'_def rec_def excerpt_share_def Let_def)
  then show "ac_items ctx = ac_items rec @ fst (pack_items B' (ac_total_tokens rec) ex)"
    "ac_total_tokens ctx = snd (pack_items B' (ac_total_tokens rec) ex) + card_tokens cards"
    "ac_cards ctx = filter (\<lambda>c. trim (ca_text c) \<noteq> []) cards"
    by (simp_all add: add_cards_def add_excerpts_def Let_def split: prod.split)
  show "item_tokens ex \<le> ?share"
    using pack_items_bound [of ?share 0 ?in] pack_items_total [of ?share 0 ?in]
    by (simp add: ex_def shared_excerpts_def)
qed

section \<open>Properties\<close>

definition demo_order :: "string list" where
  "demo_order = [''api'', ''auth'', ''queue'']"

lemma demo_order: "set demo_order = dom (map_of (eg_entities demo_graph))"
proof -
  have "map fst (eg_entities demo_graph) = demo_order" by code_simp
  then show ?thesis by (metis dom_map_of_conv_image_fst list.set_map)
qed

text \<open>
  The query entities are stored entities, each once; every entity whose name of at least
  two bytes occurs in the query, whatever the case of the letters, is among them, and those
  come before the ones that only share words with the query.
\<close>

theorem query_entities_spec:
  assumes "graph_ok P valid g"
  shows "let qs = find_query_entities query g in
    distinct qs \<and> (\<forall>n \<in> set qs. has_entity g n) \<and>
    (\<forall>n. has_entity g n \<and> 2 \<le> str_len (str_lower n) \<and> contains_str (str_lower n) (str_lower query) \<longrightarrow>
       n \<in> set qs) \<and>
    sorted (map (\<lambda>n. \<not> contains_str (str_lower n) (str_lower query)) qs)"
  unfolding Let_def
  by (intro conjI ballI allI impI query_entities(1,3) [OF assms])
    (simp_all only: query_entities(2) [OF assms] match_entity_exact option.distinct simp_thms)

theorem query_entities_spec_witness:
  "''queue'' \<in> set (find_query_entities ''Who reads the Queue?'' demo_graph)"
proof -
  have "has_entity demo_graph ''queue''" "2 \<le> str_len (str_lower ''queue'')"
    "contains_str (str_lower ''queue'') (str_lower ''Who reads the Queue?'')" by code_simp+
  then show ?thesis
    using query_entities_spec [OF demo_ok, of "''Who reads the Queue?''"] by (simp add: Let_def)
qed

text \<open>
  The entity context of an assembly names, each once, the query entities in the order they
  were found and then every entity related to one of them, with all the relations of each;
  a neighbour names a query entity it is related to.
\<close>

theorem entity_context_spec:
  assumes "digraph P valid" and "graph_ok P valid g"
  shows "let qs = find_query_entities query g;
             ecs = ac_entity_context (assemble_context P order show_uuid now query g us B) in
    distinct (map ec_name ecs) \<and>
    map ec_name (filter (\<lambda>ec. ec_relevance ec = Direct_Mention) ecs) = qs \<and>
    ec_name ` set ecs = set qs \<union> (\<Union>q \<in> set qs. related P g q) \<and>
    (\<forall>ec \<in> set ecs. ec_relationships ec = relationships_of P g (ec_name ec) \<and>
       (\<forall>v r. ec_relevance ec = Graph_Neighbor v r \<longrightarrow> v \<in> set qs \<and> ec_name ec \<in> related P g v))"
proof -
  let ?qs = "find_query_entities query g"
  obtain seen where "context_ok P g ?qs (set ?qs) (build_entity_context P order ?qs g 1, seen)"
    using build_context_ok [of ?qs P order g] query_related [OF assms] by blast
  moreover have "rev (remdups (rev ?qs)) = ?qs"
    using query_entities(1) [OF assms(2), of query] by (simp add: distinct_remdups_id)
  ultimately show ?thesis
    unfolding Let_def assemble_context_fields(4) context_ok_def fst_conv snd_conv by auto
qed

theorem entity_context_spec_witness:
  "ec_name ` set (ac_entity_context
     (assemble_context list_petgraph demo_order (\<lambda>_. []) 99 ''queue'' demo_graph [] 100)) = {''api'', ''auth'', ''queue''}"
proof -
  have "find_query_entities ''queue'' demo_graph = [''queue'']"
    "set (find_related_entities list_petgraph demo_order demo_graph ''queue'') = {''api'', ''auth''}"
    by code_simp+
  moreover then have "related list_petgraph demo_graph ''queue'' = {''api'', ''auth''}"
    using query_related [OF lg.digraph_axioms demo_ok, of "''queue''" "''queue''" demo_order] by simp
  ultimately show ?thesis
    using entity_context_spec [OF lg.digraph_axioms demo_ok, of "''queue''" demo_order "\<lambda>_. []" 99 "[]" 100]
    by (auto simp: Let_def)
qed

text \<open>
  Impact analysis is complete and sound: every entry comes from a stored dependency
  relation whose one end is the query entity it names, every such relation has an entry for
  its two ends, and no pair of entities is listed twice.
\<close>

theorem impact_spec:
  assumes "digraph P valid" and "graph_ok P valid g"
  shows "distinct (map impact_pair (analyze_impact P qs g)) \<and>
    (\<forall>i \<in> set (analyze_impact P qs g). \<exists>r \<in> set (relationships P g). impacts (set qs) r i) \<and>
    (\<forall>r \<in> set (relationships P g). \<forall>i. impacts (set qs) r i \<longrightarrow>
       (\<exists>j \<in> set (analyze_impact P qs g). impact_pair j = impact_pair i))"
  using analyze_impact_entries [OF assms] by blast

theorem impact_spec_witness:
  "\<exists>j \<in> set (analyze_impact list_petgraph [''queue''] demo_graph). impact_pair j = (''auth'', ''queue'')"
proof -
  let ?i = "\<lparr>ie_entity = ''auth'', ie_depends_on = ''queue'', ie_relation_type = DependsOn, ie_context = ''writes''\<rparr>"
  have "demo_rel ''auth'' ''queue'' DependsOn ''writes'' \<in> set (relationships list_petgraph demo_graph)"
    by code_simp
  moreover have "impacts (set [''queue'']) (demo_rel ''auth'' ''queue'' DependsOn ''writes'') ?i"
    by (simp add: impacts_def demo_rel_def is_dependency_def)
  ultimately have "\<exists>j \<in> set (analyze_impact list_petgraph [''queue''] demo_graph). impact_pair j = impact_pair ?i"
    using impact_spec [OF lg.digraph_axioms demo_ok, of "[''queue'']"] by blast
  then show ?thesis by simp
qed

text \<open>
  The records of an assembly are a selection of the scored records, best first, and the
  greedy packing wastes nothing: no record left out would have fitted beside the selected
  records of at least its score. The token count is the sum over the parts, and it exceeds the
  budget only when the entity summary alone does.
\<close>

theorem assemble_context_spec:
  "let ctx = assemble_context P order show_uuid now query g us B;
       S = entity_summary_tokens P order query g;
       scored = map (score_update show_uuid now (find_query_entities query g) (ac_entity_context ctx)) us in
    ac_total_tokens ctx = item_tokens (ac_items ctx) + S \<and> ac_total_tokens ctx \<le> max B S \<and>
    mset (ac_items ctx) \<subseteq># mset scored \<and> sorted (map (\<lambda>i. - ci_score i) (ac_items ctx)) \<and>
    (\<forall>j \<in> set scored. j \<notin> set (ac_items ctx) \<longrightarrow>
       B < S + ci_token_estimate j + item_tokens (filter (\<lambda>i. ci_score j \<le> ci_score i) (ac_items ctx)))"
  unfolding Let_def assemble_context_fields(4)
  by (intro conjI ballI impI assemble_context_fields(2,3) assemble_context_packing)

theorem assemble_context_spec_witness:
  "2 < ci_token_estimate (score_update (\<lambda>_. []) 99 [] [] (demo_record 7 9 ''Gateway'' [] demo_meta))"
proof -
  let ?u = "demo_record 7 9 ''Gateway'' [] demo_meta"
  have "find_query_entities ''db'' demo_graph = []" "entity_summary_tokens list_petgraph demo_order ''db'' demo_graph = 0"
    "ac_items (assemble_context list_petgraph demo_order (\<lambda>_. []) 99 ''db'' demo_graph [?u] 2) = []"
    "ac_entity_context (assemble_context list_petgraph demo_order (\<lambda>_. []) 99 ''db'' demo_graph [?u] 2) = []"
    by code_simp+
  then show ?thesis
    using assemble_context_spec [of list_petgraph demo_order "\<lambda>_. []" 99 "''db''" demo_graph "[?u]" 2]
    by (simp add: Let_def)
qed

text \<open>
  C39: an assembly counts every token it uses, the cards and the entity summary included, and
  stays within its budget whenever the cards and the summary do; the cards come first, the
  empty ones left out. Records and excerpts are never mixed: with records only there is no
  excerpt, with messages only no record; with both, every excerpt that fits half of what is
  left goes in, and no record that is left out would have fitted.
\<close>

theorem assemble_spec:
  assumes "\<forall>i \<in> set found. ci_source i = Conversation"
  shows "let ctx = assemble P order show_uuid now cards found query g us B corp;
             C = card_tokens cards; S = entity_summary_tokens P order query g;
             recs = filter (\<lambda>i. ci_source i \<noteq> Conversation) (ac_items ctx);
             exs = filter (\<lambda>i. ci_source i = Conversation) (ac_items ctx) in
    ac_total_tokens ctx = C + S + item_tokens (ac_items ctx) \<and> ac_total_tokens ctx \<le> max B (C + S) \<and>
    ac_cards ctx = filter (\<lambda>c. trim (ca_text c) \<noteq> []) cards \<and> ac_items ctx = recs @ exs \<and>
    (corp = Records \<longrightarrow> exs = []) \<and> (corp = Messages \<longrightarrow> recs = []) \<and> subseq exs found \<and>
    (corp = All_Texts \<and> C + S \<le> B \<longrightarrow> exs = fst (pack_items ((B - C - S) div 2) 0 found)) \<and>
    (corp \<noteq> Messages \<longrightarrow>
       (\<forall>u \<in> set us. let j = score_update show_uuid now (find_query_entities query g)
                              (build_entity_context P order (find_query_entities query g) g 1) u in
          j \<notin> set recs \<longrightarrow> B < C + S + item_tokens (ac_items ctx) + ci_token_estimate j))"
proof -
  let ?ctx = "assemble P order show_uuid now cards found query g us B corp"
  let ?C = "card_tokens cards" and ?S = "entity_summary_tokens P order query g"
  let ?ex = "shared_excerpts P order cards found query g B corp"
  let ?us = "if corp = Messages then [] else us"
  let ?rec = "assemble_context P order show_uuid now query g ?us (B - ?C - item_tokens ?ex)"
  let ?sel = "fst (pack_items (B - ?C) (ac_total_tokens ?rec) ?ex)"
  let ?score = "score_update show_uuid now (find_query_entities query g)
    (build_entity_context P order (find_query_entities query g) g 1)"
  note parts = assemble_parts(1-3) [where P = P and order = order and show_uuid = show_uuid and now = now and cards = cards
      and found = found and query = query and g = g and us = us and B = B and corp = corp]
  note share = assemble_parts(4) [where P = P and order = order and cards = cards
      and found = found and query = query and g = g and B = B and corp = corp]
  note fields = assemble_context_fields [where P = P and order = order and show_uuid = show_uuid and now = now
      and query = query and g = g and us = ?us and B = "B - ?C - item_tokens ?ex"]
  note packing = assemble_context_packing [where P = P and order = order and show_uuid = show_uuid and now = now
      and query = query and g = g and us = ?us and B = "B - ?C - item_tokens ?ex"]
  have "set (ac_items ?rec) \<subseteq> ?score ` set ?us"
    using set_mset_mono [OF packing(2)] by simp
  then have r: "ci_source i \<noteq> Conversation" if "i \<in> set (ac_items ?rec)" for i
    using that by (auto dest!: subsetD simp: score_update_source)
  have sub: "subseq ?ex (if corp = Records then [] else found)" "subseq ?sel ?ex"
    by (simp_all add: shared_excerpts_def pack_items_subseq)
  have "set ?sel \<subseteq> set ?ex" "set ?ex \<subseteq> set (if corp = Records then [] else found)"
    by (rule subseq_set [OF sub(2)], rule subseq_set [OF sub(1)])
  then have e: "ci_source i = Conversation" if "i \<in> set ?sel" for i
    using that assms by (auto split: if_splits)
  have none: "corp = Records \<Longrightarrow> ?ex = []" by (simp add: shared_excerpts_def)
  have recs: "filter (\<lambda>i. ci_source i \<noteq> Conversation) (ac_items ?ctx) = ac_items ?rec"
    and exs: "filter (\<lambda>i. ci_source i = Conversation) (ac_items ?ctx) = ?sel"
    using r e by (simp_all add: parts(1) filter_id_conv filter_empty_conv)
  have total: "ac_total_tokens ?ctx = ?C + ?S + item_tokens (ac_items ?ctx)"
    using pack_items_total [of "B - ?C" "ac_total_tokens ?rec" ?ex] fields(2) by (simp add: parts)
  have bound: "ac_total_tokens ?ctx \<le> max B (?C + ?S)"
    using pack_items_bound [of "B - ?C" "ac_total_tokens ?rec" ?ex] fields(3) unfolding parts(2) by linarith
  have all: "?sel = ?ex" if "corp = All_Texts" "?C + ?S \<le> B"
  proof -
    have "item_tokens ?ex \<le> (B - ?C - ?S) div 2" using share that(1) by (simp add: excerpt_share_def)
    then have "ac_total_tokens ?rec + item_tokens ?ex \<le> B - ?C"
      using fields(3) that(2) by (simp add: max_def split: if_splits)
    then show ?thesis by (simp add: pack_items_all)
  qed
  have left: "B < ?C + ?S + item_tokens (ac_items ?ctx) + ci_token_estimate (?score u)"
    if u: "u \<in> set us" "corp \<noteq> Messages" "?score u \<notin> set (ac_items ?rec)" for u
  proof (cases "?C + ?S \<le> B")
    case True
    have "B - ?C - item_tokens ?ex < ?S + ci_token_estimate (?score u) +
        item_tokens (filter (\<lambda>i. ci_score (?score u) \<le> ci_score i) (ac_items ?rec))"
      using packing(3) [of "?score u"] u by simp
    moreover have "item_tokens (filter (\<lambda>i. ci_score (?score u) \<le> ci_score i) (ac_items ?rec)) \<le> item_tokens (ac_items ?rec)"
      by (rule item_tokens_filter)
    moreover have "?sel = ?ex"
      using all True u(2) none by (cases corp) auto
    then have "item_tokens (ac_items ?ctx) = item_tokens (ac_items ?rec) + item_tokens ?ex"
      unfolding parts(1) by simp
    ultimately show ?thesis by linarith
  qed simp
  have msgs: "corp = Messages \<Longrightarrow> ac_items ?rec = []" unfolding fields(1) by simp
  have subs: "subseq ?sel found"
    using subseq_order.trans [OF sub(2,1)] none by (cases "corp = Records") auto
  have kept: "?sel = fst (pack_items ((B - ?C - ?S) div 2) 0 found)" if "corp = All_Texts" "?C + ?S \<le> B"
    using all [OF that] that(1) by (simp add: shared_excerpts_def excerpt_share_def)
  show ?thesis
    unfolding Let_def recs exs
  proof (intro conjI impI ballI)
    show "?sel = []" if "corp = Records" using none [OF that] by simp
  qed (use total bound parts(1,3) msgs subs kept left in blast)+
qed

theorem assemble_spec_witness:
  "ac_total_tokens (assemble list_petgraph demo_order (\<lambda>_. []) 99 [] [excerpt ''hello'' 1 ''m''] ''db'' demo_graph
     [demo_record 7 9 ''Gateway'' [] demo_meta] 10 All_Texts) \<le> 10"
proof -
  have e: "\<forall>i \<in> set [excerpt ''hello'' 1 ''m'']. ci_source i = Conversation" by (simp add: excerpt_def)
  have "entity_summary_tokens list_petgraph demo_order ''db'' demo_graph = 0" by code_simp
  then show ?thesis
    using assemble_spec [OF e, of list_petgraph demo_order "\<lambda>_. []" 99 "[]" "''db''" demo_graph
      "[demo_record 7 9 ''Gateway'' [] demo_meta]" 10 All_Texts]
    by (simp add: Let_def card_tokens_def)
qed

text \<open>
  A relation auth RequiredBy login, that is login needs auth, is reported backwards when
  the query names login: auth is listed as depending on login.
\<close>

theorem required_by_listed_backwards:
  "map impact_pair (analyze_impact list_petgraph [''login'']
     (add_relationship list_petgraph 1 (demo_rel ''auth'' ''login'' RequiredBy []) (new_graph list_petgraph))) =
   [(''auth'', ''login'')]"
  by code_simp

text \<open>
  Names are lower-cased before they are split, so the split at capitals never happens: the
  tokens of a name are its pieces between separators, and a query with two of the words of
  ChatRepositoryImpl does not find it.
\<close>

theorem camel_case_not_split:
  "split_entity_tokens (str_lower n) = filter (\<lambda>w. w \<noteq> []) (split_by is_name_separator (str_lower n)) \<and>
   split_entity_tokens ''ChatRepositoryImpl'' = [''chat'', ''repository'', ''impl''] \<and>
   find_query_entities ''repository impl notes''
     (add_or_update_entity list_petgraph ''ChatRepositoryImpl'' CodeComponent 1 [] (new_graph list_petgraph)) = []"
  by (intro conjI split_lower_name; code_simp)

end
