(* ===== verification/Persister.thy ===== *)
theory Persister
  imports Context_Update
begin

text \<open>
  \<open>SessionPersister\<close> of \<open>post-cortex-memory/src/memory_system/persister.rs\<close>: coalescing writes
  of sessions. The state holds every map of the struct, the heap of slots with the task that
  drains each of them, the requests and deletions under way, and the calls made to the storage
  sink. \<open>Arc\<close>s to sessions are natural numbers that are never reused (a \<open>Weak\<close> keeps the
  allocation, so addresses are unique while one is listed); \<open>pr_alive\<close> are those with a strong
  count, \<open>pr_content\<close> the session each points to. Waiters are numbers, telling one appends to
  \<open>pr_told\<close>. Counters (\<open>u64\<close>) are unbounded.

  Each function is one uninterrupted stretch of the code; the step relation at the end lets
  the tasks interleave between them. The result of a storage call is any result.
\<close>

type_synonym handle = nat
type_synonym waiter = nat
type_synonym slot_id = nat
type_synonym outcome = "(string, unit) result"

definition session_deleted :: string where "session_deleted = ''session was deleted''"

definition handle_superseded :: string where
  "handle_superseded = ''session handle was superseded by a newer load''"

section \<open>Queued work\<close>

record pending =
  pe_source :: "handle option"
  pe_updates :: "context_update list"
  pe_removed :: "uuid list"
  pe_waiters :: "waiter list"

definition no_pending :: pending where
  "no_pending = \<lparr>pe_source = None, pe_updates = [], pe_removed = [], pe_waiters = []\<rparr>"

definition pending_is_empty :: "pending \<Rightarrow> bool" where
  "pending_is_empty p \<longleftrightarrow> pe_source p = None \<and> pe_updates p = [] \<and> pe_removed p = [] \<and> pe_waiters p = []"

definition merge_pending :: "pending \<Rightarrow> pending \<Rightarrow> pending" where
  "merge_pending work p =
     (let p = (case pe_source work of None \<Rightarrow> p | Some h \<Rightarrow> p\<lparr>pe_source := Some h\<rparr>);
          p = p\<lparr>pe_updates := pe_updates p @ pe_updates work\<rparr>;
          p = (if pe_removed work \<noteq> []
               then p\<lparr>pe_updates := filter (\<lambda>u. cu_id u \<notin> set (pe_removed work)) (pe_updates p),
                      pe_removed := pe_removed p @ pe_removed work\<rparr>
               else p)
      in p\<lparr>pe_waiters := pe_waiters p @ pe_waiters work\<rparr>)"

section \<open>Handles of a session\<close>

record lineage =
  li_members :: "(handle \<times> nat) list"
  li_next :: nat
  li_deleted_below :: nat

definition new_lineage :: lineage where
  "new_lineage = \<lparr>li_members = [], li_next = 0, li_deleted_below = 0\<rparr>"

definition prune :: "handle set \<Rightarrow> lineage \<Rightarrow> lineage" where
  "prune alive l = l\<lparr>li_members := filter (\<lambda>(w, _). w \<in> alive) (li_members l)\<rparr>"

definition generation_of :: "lineage \<Rightarrow> handle \<Rightarrow> nat option" where
  "generation_of l h = map_option snd (List.find (\<lambda>(w, _). w = h) (li_members l))"

text \<open>\<open>max_by_key\<close>: the last of the elements with the greatest key.\<close>

definition newest_alive :: "handle set \<Rightarrow> lineage \<Rightarrow> (handle \<times> nat) option" where
  "newest_alive alive l =
     (case filter (\<lambda>(w, _). w \<in> alive) (li_members l) of
        [] \<Rightarrow> None
      | m # ms \<Rightarrow> Some (fold (\<lambda>x best. if snd best \<le> snd x then x else best) ms m))"

datatype standing = Current | Superseded "handle option" | Deleted

section \<open>State\<close>

text \<open>
  Where the task that drains a slot is: at the lock; with a batch, knowing whether the slot was
  registered; with a handle judged fit to write; in the write of a snapshot; with an outcome
  for the waiters; at the two checks after the lock is released; ended.
\<close>

datatype 's writer =
    At_Lock
  | Has_Batch pending bool
  | Judged handle pending
  | Writing handle 's pending
  | Telling outcome "waiter list"
  | Unlocked
  | Still_There
  | Ended

datatype holder = By_Writer | By_Delete nat

record 's slot =
  sl_session :: uuid
  sl_pending :: pending
  sl_last_result :: outcome
  sl_lock :: "holder option"
  sl_writer :: "'s writer"

text \<open>
  A deletion: the handles it retired (for the record), then the slot it found, then with the
  lock of that slot, then past the deletion in storage.
\<close>

datatype deletion =
    Del_Marked uuid "handle set"
  | Del_Found uuid "handle set" "slot_id option"
  | Del_Locked uuid "handle set" slot_id
  | Del_Stored uuid slot_id
  | Del_Done

text \<open>Calls of the storage sink: a write at its start, a deletion with the handles it retired.\<close>

datatype 's sink_call =
    Sink_Write uuid handle 's "context_update list" "uuid list"
  | Sink_Delete uuid "handle set"

record 's persister =
  pr_slots :: "uuid \<rightharpoonup> slot_id"
  pr_tombstones :: "uuid \<rightharpoonup> handle list"
  pr_lineages :: "uuid \<rightharpoonup> lineage"
  pr_failed :: "uuid \<rightharpoonup> handle"
  pr_alive :: "handle set"
  pr_content :: "handle \<Rightarrow> 's"
  pr_next_handle :: nat
  pr_heap :: "slot_id \<Rightarrow> 's slot"
  pr_next_slot :: slot_id
  pr_routed :: "(uuid \<times> pending) list"
  pr_deletes :: "deletion list"
  pr_told :: "(waiter \<times> outcome) list"
  pr_calls :: "'s sink_call list"

definition new_slot :: "uuid \<Rightarrow> 's slot" where
  "new_slot sid =
     \<lparr>sl_session = sid, sl_pending = no_pending, sl_last_result = Ok (), sl_lock = None, sl_writer = At_Lock\<rparr>"

definition new_persister :: "'s \<Rightarrow> 's persister" where
  "new_persister x =
     \<lparr>pr_slots = Map.empty, pr_tombstones = Map.empty, pr_lineages = Map.empty, pr_failed = Map.empty,
      pr_alive = {}, pr_content = (\<lambda>_. x), pr_next_handle = 0, pr_heap = (\<lambda>_. new_slot 0), pr_next_slot = 0,
      pr_routed = [], pr_deletes = [], pr_told = [], pr_calls = []\<rparr>"

abbreviation upd_slot :: "slot_id \<Rightarrow> ('s slot \<Rightarrow> 's slot) \<Rightarrow> 's persister \<Rightarrow> 's persister" where
  "upd_slot k f s \<equiv> s\<lparr>pr_heap := (pr_heap s)(k := f (pr_heap s k))\<rparr>"

definition tell_all :: "outcome \<Rightarrow> waiter list \<Rightarrow> 's persister \<Rightarrow> 's persister" where
  "tell_all r ws s = s\<lparr>pr_told := pr_told s @ map (\<lambda>w. (w, r)) ws\<rparr>"

section \<open>Standing of a handle\<close>

definition register :: "uuid \<Rightarrow> handle \<Rightarrow> 's persister \<Rightarrow> 's persister" where
  "register sid h s =
     (let l = prune (pr_alive s) (unwrap_or (pr_lineages s sid) new_lineage)
      in s\<lparr>pr_lineages := (pr_lineages s)(sid \<mapsto>
             l\<lparr>li_next := li_next l + 1, li_members := li_members l @ [(h, li_next l)]\<rparr>)\<rparr>)"

text \<open>\<open>is_tombstoned\<close> drops the entries of dead handles on the way.\<close>

definition is_tombstoned :: "uuid \<Rightarrow> handle \<Rightarrow> 's persister \<Rightarrow> bool \<times> 's persister" where
  "is_tombstoned sid h s =
     (case pr_tombstones s sid of
        None \<Rightarrow> (False, s)
      | Some dead \<Rightarrow>
          let dead = filter (\<lambda>w. w \<in> pr_alive s) dead
          in (h \<in> set dead,
              s\<lparr>pr_tombstones := (pr_tombstones s)(sid := (if dead = [] then None else Some dead))\<rparr>))"

definition tombstone :: "uuid \<Rightarrow> handle \<Rightarrow> 's persister \<Rightarrow> 's persister" where
  "tombstone sid h s =
     (let dead = filter (\<lambda>w. w \<in> pr_alive s) (unwrap_or (pr_tombstones s sid) [])
      in s\<lparr>pr_tombstones := (pr_tombstones s)(sid \<mapsto> if h \<in> set dead then dead else dead @ [h])\<rparr>)"

definition standing_in_lineage :: "handle set \<Rightarrow> lineage option \<Rightarrow> handle \<Rightarrow> standing" where
  "standing_in_lineage alive lo h =
     (case lo of
        None \<Rightarrow> Current
      | Some l \<Rightarrow>
          (case generation_of l h of
             None \<Rightarrow> Current
           | Some generation \<Rightarrow>
               if generation < li_deleted_below l then Deleted
               else if generation + 1 = li_next l then Current
               else Superseded
                 (case newest_alive alive l of
                    None \<Rightarrow> None
                  | Some (n, g) \<Rightarrow> if generation < g then Some n else None)))"

definition standing_of :: "uuid \<Rightarrow> handle \<Rightarrow> 's persister \<Rightarrow> standing \<times> 's persister" where
  "standing_of sid h s =
     (let (hit, s) = is_tombstoned sid h s
      in if hit then (Deleted, s) else (standing_in_lineage (pr_alive s) (pr_lineages s sid) h, s))"

definition is_deleted :: "uuid \<Rightarrow> handle \<Rightarrow> 's persister \<Rightarrow> bool \<times> 's persister" where
  "is_deleted sid h s = (let (st, s) = standing_of sid h s in (st = Deleted, s))"

definition has_unflushed :: "uuid \<Rightarrow> 's persister \<Rightarrow> bool" where
  "has_unflushed sid s \<longleftrightarrow> pr_slots s sid \<noteq> None \<or> pr_failed s sid \<noteq> None"

section \<open>Requests\<close>

text \<open>
  \<open>enqueue\<close> up to the call of \<open>queue\<close>: the request is refused, or routed to a handle and
  then under way to its slot.
\<close>

definition enqueue ::
  "uuid \<Rightarrow> handle \<Rightarrow> context_update list \<Rightarrow> uuid list \<Rightarrow> waiter option \<Rightarrow> 's persister \<Rightarrow> 's persister" where
  "enqueue sid h updates removed waiter s =
     (let (st, s) = standing_of sid h s;
          ws = (case waiter of None \<Rightarrow> [] | Some w \<Rightarrow> [w]);
          route = (\<lambda>src. s\<lparr>pr_routed := pr_routed s @
            [(sid, \<lparr>pe_source = Some src, pe_updates = updates, pe_removed = removed, pe_waiters = ws\<rparr>)]\<rparr>)
      in case st of
           Current \<Rightarrow> route h
         | Superseded (Some newest) \<Rightarrow> route newest
         | Superseded None \<Rightarrow> tell_all (Err handle_superseded) ws s
         | Deleted \<Rightarrow> tell_all (Err session_deleted) ws s)"

text \<open>\<open>queue\<close>: merge into the registered slot, or register a new one whose writer starts.\<close>

definition queue_work :: "uuid \<Rightarrow> pending \<Rightarrow> 's persister \<Rightarrow> 's persister" where
  "queue_work sid work s =
     (case pr_slots s sid of
        Some k \<Rightarrow> upd_slot k (sl_pending_update (merge_pending work)) s
      | None \<Rightarrow>
          let k = pr_next_slot s
          in s\<lparr>pr_next_slot := k + 1,
               pr_heap := (pr_heap s)(k := (new_slot sid)\<lparr>sl_pending := merge_pending work no_pending\<rparr>),
               pr_slots := (pr_slots s)(sid \<mapsto> k)\<rparr>)"

definition wait_queued :: "uuid \<Rightarrow> waiter \<Rightarrow> 's persister \<Rightarrow> 's persister option" where
  "wait_queued sid w s =
     (case pr_slots s sid of
        None \<Rightarrow> None
      | Some k \<Rightarrow> Some (upd_slot k (sl_pending_update (\<lambda>p. p\<lparr>pe_waiters := pe_waiters p @ [w]\<rparr>)) s))"

text \<open>The retry of \<open>wait_idle\<close> after its first wait.\<close>

definition retry_failed :: "uuid \<Rightarrow> waiter \<Rightarrow> 's persister \<Rightarrow> 's persister" where
  "retry_failed sid w s =
     (case pr_failed s sid of
        Some h \<Rightarrow> if h \<in> pr_alive s then enqueue sid h [] [] (Some w) s else s
      | None \<Rightarrow> s)"

text \<open>
  \<open>flush_all\<close>: one of the failed sessions it read before, then a waiter for every queued
  slot, and the count of the sessions not written (no answers at all when the time is over).
\<close>

definition flush_retry :: "uuid \<Rightarrow> handle \<Rightarrow> waiter \<Rightarrow> 's persister \<Rightarrow> 's persister" where
  "flush_retry sid h w s =
     (if h \<in> pr_alive s then enqueue sid h [] [] (Some w) s else s\<lparr>pr_failed := (pr_failed s)(sid := None)\<rparr>)"

definition flush_unwritten :: "uuid list \<Rightarrow> outcome option list option \<Rightarrow> nat" where
  "flush_unwritten ids answers =
     length (remdups
       (case answers of
          Some results \<Rightarrow> map fst (filter (\<lambda>(_, r). r \<noteq> Some (Ok ())) (zip ids results))
        | None \<Rightarrow> ids))"

section \<open>The writer of a slot\<close>

text \<open>Lock, take the queued work, look whether the slot is still registered.\<close>

definition writer_take :: "slot_id \<Rightarrow> 's persister \<Rightarrow> 's persister" where
  "writer_take k s =
     (let sl = pr_heap s k
      in upd_slot k (\<lambda>_. sl\<lparr>sl_lock := Some By_Writer, sl_pending := no_pending,
           sl_writer := Has_Batch (sl_pending sl) (pr_slots s (sl_session sl) = Some k)\<rparr>) s)"

text \<open>\<open>write_batch\<close> up to the snapshot: which handle is written, or the outcome without a write.\<close>

definition writer_judge :: "slot_id \<Rightarrow> pending \<Rightarrow> bool \<Rightarrow> 's persister \<Rightarrow> 's persister" where
  "writer_judge k batch registered s =
     (let go = (\<lambda>pc. upd_slot k (sl_writer_update (\<lambda>_. pc)));
          skip = (\<lambda>r. go (Telling r (pe_waiters batch)))
      in case pe_source batch of
           None \<Rightarrow>
             if registered then skip (sl_last_result (pr_heap s k)) s else skip (Err session_deleted) s
         | Some h \<Rightarrow>
             if registered
             then (let (st, s) = standing_of (sl_session (pr_heap s k)) h s
                   in case st of
                        Current \<Rightarrow> go (Judged h batch) s
                      | Superseded (Some newest) \<Rightarrow> go (Judged newest batch) s
                      | Superseded None \<Rightarrow> skip (Err handle_superseded) s
                      | Deleted \<Rightarrow> skip (Err session_deleted) s)
             else skip (Err session_deleted) s)"

text \<open>\<open>load_full\<close> and the start of the sink's write.\<close>

definition writer_load :: "slot_id \<Rightarrow> handle \<Rightarrow> pending \<Rightarrow> 's persister \<Rightarrow> 's persister" where
  "writer_load k h batch s =
     (let snap = pr_content s h
      in upd_slot k (sl_writer_update (\<lambda>_. Writing h snap batch))
           (s\<lparr>pr_calls := pr_calls s @
             [Sink_Write (sl_session (pr_heap s k)) h snap (pe_updates batch) (pe_removed batch)]\<rparr>))"

definition writer_finish :: "slot_id \<Rightarrow> handle \<Rightarrow> pending \<Rightarrow> outcome \<Rightarrow> 's persister \<Rightarrow> 's persister" where
  "writer_finish k h batch r s =
     (let sid = sl_session (pr_heap s k);
          s = s\<lparr>pr_failed := (pr_failed s)(sid := (case r of Inr _ \<Rightarrow> None | Inl _ \<Rightarrow> Some h))\<rparr>
      in upd_slot k (\<lambda>sl. sl\<lparr>sl_last_result := r, sl_writer := Telling r (pe_waiters batch)\<rparr>) s)"

definition writer_tell :: "slot_id \<Rightarrow> outcome \<Rightarrow> waiter list \<Rightarrow> 's persister \<Rightarrow> 's persister" where
  "writer_tell k r ws s =
     upd_slot k (\<lambda>sl. sl\<lparr>sl_lock := None, sl_writer := Unlocked\<rparr>) (tell_all r ws s)"

text \<open>The two checks of \<open>drain\<close> after a write: unregister an empty slot, then notice a deletion.\<close>

definition writer_unregister :: "slot_id \<Rightarrow> 's persister \<Rightarrow> 's persister" where
  "writer_unregister k s =
     (let sl = pr_heap s k
      in if pr_slots s (sl_session sl) = Some k \<and> pending_is_empty (sl_pending sl)
         then upd_slot k (sl_writer_update (\<lambda>_. Ended)) (s\<lparr>pr_slots := (pr_slots s)(sl_session sl := None)\<rparr>)
         else upd_slot k (sl_writer_update (\<lambda>_. Still_There)) s)"

definition writer_loop :: "slot_id \<Rightarrow> 's persister \<Rightarrow> 's persister" where
  "writer_loop k s =
     (let sl = pr_heap s k
      in upd_slot k (sl_writer_update (\<lambda>_.
           if pr_slots s (sl_session sl) \<noteq> Some k \<and> pending_is_empty (sl_pending sl) then Ended else At_Lock)) s)"

section \<open>Deletion\<close>

text \<open>The handles a deletion retires: the ones of its tombstones and of the lineage so far. A deletion keeps a
  record of those still alive, which no code reads.\<close>

definition retired :: "uuid \<Rightarrow> 's persister \<Rightarrow> handle set" where
  "retired sid s =
     set (unwrap_or (pr_tombstones s sid) []) \<union>
     (case pr_lineages s sid of
        None \<Rightarrow> {}
      | Some l \<Rightarrow> {h. \<exists>g. generation_of l h = Some g \<and> g < li_deleted_below l})"

definition mark_lineage :: "uuid \<Rightarrow> 's persister \<Rightarrow> 's persister" where
  "mark_lineage sid s =
     (let l = prune (pr_alive s) (unwrap_or (pr_lineages s sid) new_lineage)
      in s\<lparr>pr_lineages := (pr_lineages s)(sid \<mapsto> l\<lparr>li_deleted_below := li_next l\<rparr>)\<rparr>)"

definition delete_mark :: "uuid \<Rightarrow> handle option \<Rightarrow> 's persister \<Rightarrow> 's persister" where
  "delete_mark sid live s =
     (let s = (case live of None \<Rightarrow> s | Some h \<Rightarrow> tombstone sid h s);
          s = mark_lineage sid s;
          s = s\<lparr>pr_failed := (pr_failed s)(sid := None)\<rparr>
      in s\<lparr>pr_deletes := pr_deletes s @ [Del_Marked sid (retired sid s \<inter> pr_alive s)]\<rparr>)"

definition delete_find :: "nat \<Rightarrow> uuid \<Rightarrow> handle set \<Rightarrow> 's persister \<Rightarrow> 's persister" where
  "delete_find d sid R s = s\<lparr>pr_deletes := (pr_deletes s)[d := Del_Found sid R (pr_slots s sid)]\<rparr>"

text \<open>No slot: the session is deleted in storage without a lock.\<close>

definition delete_unlocked :: "nat \<Rightarrow> uuid \<Rightarrow> handle set \<Rightarrow> 's persister \<Rightarrow> 's persister" where
  "delete_unlocked d sid R s =
     s\<lparr>pr_deletes := (pr_deletes s)[d := Del_Done], pr_calls := pr_calls s @ [Sink_Delete sid R]\<rparr>"

definition delete_lock :: "nat \<Rightarrow> uuid \<Rightarrow> handle set \<Rightarrow> slot_id \<Rightarrow> 's persister \<Rightarrow> 's persister" where
  "delete_lock d sid R k s =
     upd_slot k (sl_lock_update (\<lambda>_. Some (By_Delete d)))
       (s\<lparr>pr_deletes := (pr_deletes s)[d := Del_Locked sid R k]\<rparr>)"

definition delete_store :: "nat \<Rightarrow> uuid \<Rightarrow> handle set \<Rightarrow> slot_id \<Rightarrow> 's persister \<Rightarrow> 's persister" where
  "delete_store d sid R k s =
     s\<lparr>pr_deletes := (pr_deletes s)[d := Del_Stored sid k], pr_calls := pr_calls s @ [Sink_Delete sid R]\<rparr>"

text \<open>Unregister the slot, judge what was queued in it by its source, release the lock.\<close>

definition unregister_slot :: "uuid \<Rightarrow> slot_id \<Rightarrow> 's persister \<Rightarrow> 's persister" where
  "unregister_slot sid k s =
     (if pr_slots s sid = Some k then s\<lparr>pr_slots := (pr_slots s)(sid := None)\<rparr> else s)"

definition leftover_work :: "uuid \<Rightarrow> pending \<Rightarrow> 's persister \<Rightarrow> 's persister" where
  "leftover_work sid leftover s =
     (case pe_source leftover of
        Some h \<Rightarrow>
          (let (deleted, s) = is_deleted sid h s
           in if \<not> deleted then queue_work sid leftover s
              else tell_all (Err session_deleted) (pe_waiters leftover) s)
      | None \<Rightarrow> tell_all (Err session_deleted) (pe_waiters leftover) s)"

definition delete_leftover :: "nat \<Rightarrow> uuid \<Rightarrow> slot_id \<Rightarrow> 's persister \<Rightarrow> 's persister" where
  "delete_leftover d sid k s =
     (let s1 = upd_slot k (sl_pending_update (\<lambda>_. no_pending)) (unregister_slot sid k s);
          s2 = leftover_work sid (sl_pending (pr_heap s k)) s1
      in upd_slot k (sl_lock_update (\<lambda>_. None)) (s2\<lparr>pr_deletes := (pr_deletes s2)[d := Del_Done]\<rparr>))"

section \<open>Steps\<close>

text \<open>The handles some task holds an \<open>Arc\<close> of; dropping the last one elsewhere frees no other.\<close>

definition writer_handles :: "'s writer \<Rightarrow> handle set" where
  "writer_handles w =
     (case w of
        Has_Batch b _ \<Rightarrow> set_option (pe_source b)
      | Judged h b \<Rightarrow> insert h (set_option (pe_source b))
      | Writing h _ b \<Rightarrow> insert h (set_option (pe_source b))
      | _ \<Rightarrow> {})"

definition held_handles :: "'s persister \<Rightarrow> handle set" where
  "held_handles s =
     (\<Union>(_, p) \<in> set (pr_routed s). set_option (pe_source p)) \<union>
     (\<Union>k \<in> {k. k < pr_next_slot s}.
        set_option (pe_source (sl_pending (pr_heap s k))) \<union> writer_handles (sl_writer (pr_heap s k)))"

text \<open>\<open>register\<close> is called for "a freshly loaded or created handle" only, as its comment says.\<close>

definition fresh_for :: "uuid \<Rightarrow> handle \<Rightarrow> 's persister \<Rightarrow> bool" where
  "fresh_for sid h s \<longleftrightarrow>
     h \<notin> set (unwrap_or (pr_tombstones s sid) []) \<and>
     h \<notin> fst ` set (li_members (unwrap_or (pr_lineages s sid) new_lineage))"

inductive persist_step :: "'s persister \<Rightarrow> 's persister \<Rightarrow> bool" where
  step_open: "persist_step s
    (s\<lparr>pr_alive := insert (pr_next_handle s) (pr_alive s), pr_content := (pr_content s)(pr_next_handle s := x),
       pr_next_handle := pr_next_handle s + 1\<rparr>)"
| step_change: "h \<in> pr_alive s \<Longrightarrow> persist_step s (s\<lparr>pr_content := (pr_content s)(h := x)\<rparr>)"
| step_drop: "h \<notin> held_handles s \<Longrightarrow> persist_step s (s\<lparr>pr_alive := pr_alive s - {h}\<rparr>)"
| step_register: "h \<in> pr_alive s \<Longrightarrow> fresh_for sid h s \<Longrightarrow> persist_step s (register sid h s)"
| step_enqueue: "h \<in> pr_alive s \<Longrightarrow> persist_step s (enqueue sid h us rs w s)"
| step_queue: "i < length (pr_routed s) \<Longrightarrow> pr_routed s ! i = (sid, work) \<Longrightarrow>
    persist_step s (queue_work sid work (s\<lparr>pr_routed := take i (pr_routed s) @ drop (Suc i) (pr_routed s)\<rparr>))"
| step_wait: "wait_queued sid w s = Some s' \<Longrightarrow> persist_step s s'"
| step_retry: "persist_step s (retry_failed sid w s)"
| step_flush: "persist_step s (flush_retry sid h w s)"
| step_take: "k < pr_next_slot s \<Longrightarrow> sl_writer (pr_heap s k) = At_Lock \<Longrightarrow> sl_lock (pr_heap s k) = None \<Longrightarrow>
    persist_step s (writer_take k s)"
| step_judge: "k < pr_next_slot s \<Longrightarrow> sl_writer (pr_heap s k) = Has_Batch b reg \<Longrightarrow>
    persist_step s (writer_judge k b reg s)"
| step_load: "k < pr_next_slot s \<Longrightarrow> sl_writer (pr_heap s k) = Judged h b \<Longrightarrow> persist_step s (writer_load k h b s)"
| step_finish: "k < pr_next_slot s \<Longrightarrow> sl_writer (pr_heap s k) = Writing h x b \<Longrightarrow>
    persist_step s (writer_finish k h b r s)"
| step_tell: "k < pr_next_slot s \<Longrightarrow> sl_writer (pr_heap s k) = Telling r ws \<Longrightarrow>
    persist_step s (writer_tell k r ws s)"
| step_unregister: "k < pr_next_slot s \<Longrightarrow> sl_writer (pr_heap s k) = Unlocked \<Longrightarrow>
    persist_step s (writer_unregister k s)"
| step_loop: "k < pr_next_slot s \<Longrightarrow> sl_writer (pr_heap s k) = Still_There \<Longrightarrow> persist_step s (writer_loop k s)"
| step_mark: "set_option live \<subseteq> pr_alive s \<Longrightarrow> persist_step s (delete_mark sid live s)"
| step_find: "d < length (pr_deletes s) \<Longrightarrow> pr_deletes s ! d = Del_Marked sid R \<Longrightarrow>
    persist_step s (delete_find d sid R s)"
| step_unlocked: "d < length (pr_deletes s) \<Longrightarrow> pr_deletes s ! d = Del_Found sid R None \<Longrightarrow>
    persist_step s (delete_unlocked d sid R s)"
| step_lock: "d < length (pr_deletes s) \<Longrightarrow> pr_deletes s ! d = Del_Found sid R (Some k) \<Longrightarrow>
    sl_lock (pr_heap s k) = None \<Longrightarrow> persist_step s (delete_lock d sid R k s)"
| step_store: "d < length (pr_deletes s) \<Longrightarrow> pr_deletes s ! d = Del_Locked sid R k \<Longrightarrow>
    persist_step s (delete_store d sid R k s)"
| step_leftover: "d < length (pr_deletes s) \<Longrightarrow> pr_deletes s ! d = Del_Stored sid k \<Longrightarrow>
    persist_step s (delete_leftover d sid k s)"

inductive persist_reach :: "'s persister \<Rightarrow> bool" where
  reach_start: "persist_reach (new_persister x)"
| reach_more: "persist_reach s \<Longrightarrow> persist_step s s' \<Longrightarrow> persist_reach s'"

end
