(* ===== verification/Persister_Inv.thy ===== *)
theory Persister_Inv
  imports Persister
begin

text \<open>
  The invariants of \<open>SessionPersister\<close>: who holds a slot's lock and what its writer does, which
  slot is registered, and which handles a deletion has retired. Each is kept by every step.
\<close>

lemma standing_of_frame:
  assumes "standing_of sid h s = (st, s')"
  shows "\<exists>T. s' = s\<lparr>pr_tombstones := (pr_tombstones s)(sid := T)\<rparr> \<and>
    set (unwrap_or T []) = set (unwrap_or (pr_tombstones s sid) []) \<inter> pr_alive s"
proof (cases "pr_tombstones s sid")
  case None
  then have "s' = s" using assms by (simp add: standing_of_def is_tombstoned_def)
  then show ?thesis using None by (intro exI [of _ None]) (simp add: fun_upd_idem)
next
  case (Some dead)
  let ?d = "filter (\<lambda>w. w \<in> pr_alive s) dead"
  have "s' = s\<lparr>pr_tombstones := (pr_tombstones s)(sid := (if ?d = [] then None else Some ?d))\<rparr>"
    using assms Some by (auto simp: standing_of_def is_tombstoned_def Let_def split: if_splits)
  then show ?thesis
    using Some by (intro exI [of _ "if ?d = [] then None else Some ?d"]) (auto simp: filter_empty_conv)
qed

section \<open>Slots, locks and writers\<close>

text \<open>A writer holds the lock from its batch to the last waiter; once committed it is going to write.\<close>

fun busy :: "'s writer \<Rightarrow> bool" where
  "busy (Has_Batch _ _) = True"
| "busy (Judged _ _) = True"
| "busy (Writing _ _ _) = True"
| "busy (Telling _ _) = True"
| "busy _ = False"

fun committed :: "'s writer \<Rightarrow> bool" where
  "committed (Has_Batch _ r) = r"
| "committed (Judged _ _) = True"
| "committed (Writing _ _ _) = True"
| "committed _ = False"

definition slot_ok :: "'s persister \<Rightarrow> slot_id \<Rightarrow> 's slot \<Rightarrow> bool" where
  "slot_ok s k sl \<longleftrightarrow>
     (sl_lock sl = Some By_Writer \<longleftrightarrow> busy (sl_writer sl)) \<and>
     (committed (sl_writer sl) \<longrightarrow> pr_slots s (sl_session sl) = Some k) \<and>
     (sl_writer sl = Ended \<longrightarrow> pr_slots s (sl_session sl) \<noteq> Some k \<and> pending_is_empty (sl_pending sl))"

definition delete_ok :: "'s persister \<Rightarrow> nat \<Rightarrow> deletion \<Rightarrow> bool" where
  "delete_ok s d x \<longleftrightarrow>
     (case x of
        Del_Found sid _ (Some k) \<Rightarrow> k < pr_next_slot s \<and> sl_session (pr_heap s k) = sid
      | Del_Locked sid _ k \<Rightarrow>
          k < pr_next_slot s \<and> sl_session (pr_heap s k) = sid \<and> sl_lock (pr_heap s k) = Some (By_Delete d)
      | Del_Stored sid k \<Rightarrow>
          k < pr_next_slot s \<and> sl_session (pr_heap s k) = sid \<and> sl_lock (pr_heap s k) = Some (By_Delete d)
      | _ \<Rightarrow> True)"

definition slots_ok :: "'s persister \<Rightarrow> bool" where
  "slots_ok s \<longleftrightarrow>
     (\<forall>sid k. pr_slots s sid = Some k \<longrightarrow> k < pr_next_slot s \<and> sl_session (pr_heap s k) = sid) \<and>
     (\<forall>k < pr_next_slot s. slot_ok s k (pr_heap s k)) \<and>
     (\<forall>d < length (pr_deletes s). delete_ok s d (pr_deletes s ! d))"

text \<open>Only the maps of slots, the heap and the deletions matter.\<close>

lemma slots_ok_frame:
  assumes "slots_ok s" and "pr_slots s' = pr_slots s" and "pr_heap s' = pr_heap s"
    and "pr_next_slot s' = pr_next_slot s" and "pr_deletes s' = pr_deletes s"
  shows "slots_ok s'"
proof -
  have "slot_ok s' = slot_ok s" "delete_ok s' = delete_ok s"
    using assms by (simp_all add: fun_eq_iff slot_ok_def delete_ok_def split: deletion.split)
  then show ?thesis using assms by (simp add: slots_ok_def)
qed

lemma slots_ok_tombstones [simp]: "slots_ok (s\<lparr>pr_tombstones := T\<rparr>) \<longleftrightarrow> slots_ok s"
  by (rule iffI; erule slots_ok_frame) simp_all

lemma slots_ok_told [simp]: "slots_ok (s\<lparr>pr_told := T\<rparr>) \<longleftrightarrow> slots_ok s"
  by (rule iffI; erule slots_ok_frame) simp_all

lemma slots_ok_calls [simp]: "slots_ok (s\<lparr>pr_calls := T\<rparr>) \<longleftrightarrow> slots_ok s"
  by (rule iffI; erule slots_ok_frame) simp_all

lemma slots_ok_failed [simp]: "slots_ok (s\<lparr>pr_failed := T\<rparr>) \<longleftrightarrow> slots_ok s"
  by (rule iffI; erule slots_ok_frame) simp_all

lemma slots_ok_routed [simp]: "slots_ok (s\<lparr>pr_routed := T\<rparr>) \<longleftrightarrow> slots_ok s"
  by (rule iffI; erule slots_ok_frame) simp_all

lemma slots_ok_lineages [simp]: "slots_ok (s\<lparr>pr_lineages := T\<rparr>) \<longleftrightarrow> slots_ok s"
  by (rule iffI; erule slots_ok_frame) simp_all

lemma slots_ok_alive [simp]: "slots_ok (s\<lparr>pr_alive := T\<rparr>) \<longleftrightarrow> slots_ok s"
  by (rule iffI; erule slots_ok_frame) simp_all

lemma slots_ok_content [simp]: "slots_ok (s\<lparr>pr_content := T\<rparr>) \<longleftrightarrow> slots_ok s"
  by (rule iffI; erule slots_ok_frame) simp_all

lemma slots_ok_next_handle [simp]: "slots_ok (s\<lparr>pr_next_handle := T\<rparr>) \<longleftrightarrow> slots_ok s"
  by (rule iffI; erule slots_ok_frame) simp_all

lemma slots_okD:
  assumes "slots_ok s"
  shows "pr_slots s sid = Some k \<Longrightarrow> k < pr_next_slot s"
    and "pr_slots s sid = Some k \<Longrightarrow> sl_session (pr_heap s k) = sid"
    and "k < pr_next_slot s \<Longrightarrow> slot_ok s k (pr_heap s k)"
    and "d < length (pr_deletes s) \<Longrightarrow> delete_ok s d (pr_deletes s ! d)"
  using assms by (simp_all add: slots_ok_def)

text \<open>One slot changes, its session does not, and a lock held by a deletion stays.\<close>

lemma slots_ok_slot:
  assumes ok: "slots_ok s" and k: "k < pr_next_slot s"
    and sess: "sl_session (f (pr_heap s k)) = sl_session (pr_heap s k)"
    and sl: "slot_ok s k (f (pr_heap s k))"
    and lock: "\<And>d. d < length (pr_deletes s) \<Longrightarrow> (\<exists>sid R. pr_deletes s ! d \<in> {Del_Locked sid R k, Del_Stored sid k}) \<Longrightarrow>
      sl_lock (pr_heap s k) = Some (By_Delete d) \<Longrightarrow> sl_lock (f (pr_heap s k)) = Some (By_Delete d)"
  shows "slots_ok (upd_slot k f s)"
proof -
  let ?s = "upd_slot k f s"
  have "slot_ok ?s j (pr_heap ?s j)" if "j < pr_next_slot s" for j
    using sl slots_okD(3) [OF ok that] by (simp add: slot_ok_def)
  moreover have "delete_ok ?s d (pr_deletes s ! d)" if "d < length (pr_deletes s)" for d
    using slots_okD(4) [OF ok that] sess lock [OF that]
    by (auto simp: delete_ok_def split: deletion.splits option.splits)
  ultimately show ?thesis
    using slots_okD(1,2) [OF ok] sess by (auto simp: slots_ok_def)
qed

lemma slots_ok_standing:
  "standing_of sid h s = (st, s') \<Longrightarrow> slots_ok s' \<longleftrightarrow> slots_ok s"
  by (drule standing_of_frame) auto

lemma slots_ok_tell [simp]: "slots_ok (tell_all r ws s) \<longleftrightarrow> slots_ok s"
  by (simp add: tell_all_def)

lemma slots_ok_register [simp]: "slots_ok (register sid h s) \<longleftrightarrow> slots_ok s"
  by (simp add: register_def Let_def)

lemma slots_ok_enqueue [simp]: "slots_ok (enqueue sid h us rs w s) \<longleftrightarrow> slots_ok s"
  by (auto simp: enqueue_def Let_def slots_ok_standing split: prod.split standing.split option.split)

lemma slots_ok_pending:
  assumes ok: "slots_ok s" and k: "pr_slots s sid = Some k"
  shows "slots_ok (upd_slot k (sl_pending_update f) s)"
proof (rule slots_ok_slot [OF ok slots_okD(1) [OF ok k]])
  show "slot_ok s k (sl_pending_update f (pr_heap s k))"
    using slots_okD(3) [OF ok slots_okD(1) [OF ok k]] slots_okD(2) [OF ok k] k by (auto simp: slot_ok_def)
qed simp_all

lemma slots_ok_queue:
  assumes ok: "slots_ok s" shows "slots_ok (queue_work sid work s)"
proof (cases "pr_slots s sid")
  case (Some k)
  then show ?thesis using slots_ok_pending [OF ok Some] by (simp add: queue_work_def)
next
  case None
  let ?k = "pr_next_slot s"
  let ?s = "queue_work sid work s"
  have old: "pr_heap ?s j = pr_heap s j" if "j < ?k" for j using that None by (simp add: queue_work_def Let_def)
  have new: "sl_session (pr_heap ?s ?k) = sid" "sl_lock (pr_heap ?s ?k) = None" "sl_writer (pr_heap ?s ?k) = At_Lock"
    using None by (simp_all add: queue_work_def Let_def new_slot_def)
  have upd: "pr_slots ?s = (pr_slots s)(sid \<mapsto> ?k)" "pr_next_slot ?s = Suc ?k" "pr_deletes ?s = pr_deletes s"
    using None by (simp_all add: queue_work_def Let_def)
  have "slot_ok ?s j (pr_heap ?s j)" if "j < Suc ?k" for j
  proof (cases "j = ?k")
    case True
    then show ?thesis using new by (simp add: slot_ok_def)
  next
    case False
    then have "j < ?k" using that by simp
    then show ?thesis
      using slots_okD(3) [OF ok, of j] None by (auto simp: slot_ok_def old upd(1))
  qed
  moreover have "delete_ok ?s d (pr_deletes s ! d)" if "d < length (pr_deletes s)" for d
    using slots_okD(4) [OF ok that] by (auto simp: delete_ok_def old upd split: deletion.splits option.splits)
  moreover have "i < Suc ?k \<and> sl_session (pr_heap ?s i) = sid'" if "pr_slots ?s sid' = Some i" for sid' i
    using that slots_okD(1,2) [OF ok, of sid' i] new(1) old [of i] unfolding upd(1) by (auto split: if_splits)
  ultimately show ?thesis unfolding slots_ok_def upd(2,3) by blast
qed

lemma slots_ok_wait: "wait_queued sid w s = Some s' \<Longrightarrow> slots_ok s \<Longrightarrow> slots_ok s'"
  by (auto simp: wait_queued_def slots_ok_pending split: option.splits)

lemma slots_ok_flush [simp]: "slots_ok (flush_retry sid h w s) \<longleftrightarrow> slots_ok s"
  by (simp add: flush_retry_def)

lemma slots_ok_retry [simp]: "slots_ok (retry_failed sid w s) \<longleftrightarrow> slots_ok s"
  by (simp add: retry_failed_def split: option.split)

subsection \<open>Writers\<close>

lemma slots_ok_take:
  assumes "slots_ok s" and "k < pr_next_slot s" and "sl_writer (pr_heap s k) = At_Lock" and "sl_lock (pr_heap s k) = None"
  shows "slots_ok (writer_take k s)"
  unfolding writer_take_def Let_def using assms by (intro slots_ok_slot) (auto simp: slot_ok_def)

text \<open>A busy writer moves on, keeping the lock and the slot registered while committed.\<close>

lemma slots_ok_writer:
  assumes "slots_ok s" and "k < pr_next_slot s" and "busy (sl_writer (pr_heap s k))" and "busy w"
    and "committed w \<Longrightarrow> committed (sl_writer (pr_heap s k))"
  shows "slots_ok (upd_slot k (\<lambda>sl. sl\<lparr>sl_last_result := r, sl_writer := w\<rparr>) s)"
    and "slots_ok (upd_slot k (sl_writer_update (\<lambda>_. w)) s)"
  using slots_okD(3) [OF assms(1,2)] assms
  by (intro slots_ok_slot; auto simp: slot_ok_def)+

lemma slots_ok_judge:
  assumes ok: "slots_ok s" and k: "k < pr_next_slot s" and w: "sl_writer (pr_heap s k) = Has_Batch b r"
  shows "slots_ok (writer_judge k b r s)"
proof -
  have go: "slots_ok (upd_slot k (sl_writer_update (\<lambda>_. w')) t)"
    if "slots_ok t" "pr_heap t = pr_heap s" "pr_next_slot t = pr_next_slot s" "busy w'" "committed w' \<Longrightarrow> r" for t w'
    using slots_ok_writer(2) [of t k w'] that k w by simp
  show ?thesis
  proof (cases "pe_source b")
    case None
    then show ?thesis by (auto simp: writer_judge_def intro!: go [OF ok refl refl])
  next
    case (Some h)
    obtain st s' where st: "standing_of (sl_session (pr_heap s k)) h s = (st, s')" by fastforce
    have s': "slots_ok s'" "pr_heap s' = pr_heap s" "pr_next_slot s' = pr_next_slot s"
      using standing_of_frame [OF st] slots_ok_standing [OF st] ok by auto
    show ?thesis
      using Some
      by (auto simp: writer_judge_def st intro!: go [OF ok refl refl] go [OF s'] split: standing.split option.split)
  qed
qed

lemma slots_ok_load:
  assumes ok: "slots_ok s" and k: "k < pr_next_slot s" and w: "sl_writer (pr_heap s k) = Judged h b"
  shows "slots_ok (writer_load k h b s)"
  unfolding writer_load_def Let_def
  by (rule slots_ok_writer(2)) (simp_all add: ok k w)

lemma slots_ok_finish:
  assumes ok: "slots_ok s" and k: "k < pr_next_slot s" and w: "sl_writer (pr_heap s k) = Writing h x b"
  shows "slots_ok (writer_finish k h b r s)"
proof -
  have "slots_ok (upd_slot k (\<lambda>sl. sl\<lparr>sl_last_result := r, sl_writer := Telling r (pe_waiters b)\<rparr>)
      (s\<lparr>pr_failed := (pr_failed s)(sl_session (pr_heap s k) := (case r of Inr _ \<Rightarrow> None | Inl _ \<Rightarrow> Some h))\<rparr>))"
    by (rule slots_ok_writer(1)) (simp_all add: ok k w)
  then show ?thesis by (simp add: writer_finish_def Let_def)
qed

lemma slots_ok_tells:
  assumes ok: "slots_ok s" and k: "k < pr_next_slot s" and w: "sl_writer (pr_heap s k) = Telling r ws"
  shows "slots_ok (writer_tell k r ws s)"
  unfolding writer_tell_def
proof (rule slots_ok_slot)
  show "slots_ok (tell_all r ws s)" using ok by simp
qed (use slots_okD(3) [OF ok k] k w in \<open>auto simp: tell_all_def slot_ok_def\<close>)

lemma slots_ok_unregister:
  assumes ok: "slots_ok s" and k: "k < pr_next_slot s" and w: "sl_writer (pr_heap s k) = Unlocked"
  shows "slots_ok (writer_unregister k s)"
proof -
  let ?sid = "sl_session (pr_heap s k)"
  note sl = slots_okD(3) [OF ok k]
  show ?thesis
  proof (cases "pr_slots s ?sid = Some k \<and> pending_is_empty (sl_pending (pr_heap s k))")
    case True
    let ?s = "upd_slot k (sl_writer_update (\<lambda>_. Ended)) (s\<lparr>pr_slots := (pr_slots s)(?sid := None)\<rparr>)"
    have "slot_ok ?s j (pr_heap ?s j)" if j: "j < pr_next_slot s" for j
    proof (cases "j = k")
      case True
      then show ?thesis using sl w \<open>pr_slots s ?sid = Some k \<and> _\<close> by (simp add: slot_ok_def)
    next
      case False
      then show ?thesis using slots_okD(3) [OF ok j] True by (auto simp: slot_ok_def)
    qed
    moreover have "delete_ok ?s d (pr_deletes s ! d)" if "d < length (pr_deletes s)" for d
      using slots_okD(4) [OF ok that] by (auto simp: delete_ok_def split: deletion.splits option.splits)
    ultimately have "slots_ok ?s"
      using slots_okD(1,2) [OF ok] by (simp add: slots_ok_def)
    then show ?thesis using True by (simp add: writer_unregister_def Let_def)
  next
    case False
    have "slots_ok (upd_slot k (sl_writer_update (\<lambda>_. Still_There)) s)"
      by (rule slots_ok_slot [OF ok k]) (use sl w in \<open>auto simp: slot_ok_def\<close>)
    then show ?thesis unfolding writer_unregister_def Let_def if_not_P [OF False] .
  qed
qed

lemma slots_ok_loop:
  assumes ok: "slots_ok s" and k: "k < pr_next_slot s" and w: "sl_writer (pr_heap s k) = Still_There"
  shows "slots_ok (writer_loop k s)"
  unfolding writer_loop_def Let_def
  by (rule slots_ok_slot [OF ok k]) (use slots_okD(3) [OF ok k] w in \<open>auto simp: slot_ok_def\<close>)

subsection \<open>Deletions\<close>

lemma slots_ok_deletes:
  assumes ok: "slots_ok s" and d: "d < length (pr_deletes s)" and x: "delete_ok s d x"
  shows "slots_ok (s\<lparr>pr_deletes := (pr_deletes s)[d := x]\<rparr>)"
proof -
  let ?s = "s\<lparr>pr_deletes := (pr_deletes s)[d := x]\<rparr>"
  have "delete_ok ?s = delete_ok s" "slot_ok ?s = slot_ok s"
    by (simp_all add: fun_eq_iff slot_ok_def delete_ok_def split: deletion.split option.split)
  then show ?thesis
    using slots_okD(4) [OF ok] x d ok by (auto simp: slots_ok_def nth_list_update)
qed

lemma slots_ok_mark: "slots_ok s \<Longrightarrow> slots_ok (delete_mark sid live s)"
proof -
  assume ok: "slots_ok s"
  have app: "slots_ok (t\<lparr>pr_deletes := pr_deletes t @ [Del_Marked sid R]\<rparr>)" if "slots_ok t" for t :: "'a persister" and R
  proof -
    let ?s = "t\<lparr>pr_deletes := pr_deletes t @ [Del_Marked sid R]\<rparr>"
    have "delete_ok ?s = delete_ok t" "slot_ok ?s = slot_ok t"
      by (simp_all add: fun_eq_iff slot_ok_def delete_ok_def split: deletion.split option.split)
    then show ?thesis
      using slots_okD(4) [OF that] that
      by (auto simp: slots_ok_def nth_append less_Suc_eq delete_ok_def)
  qed
  show ?thesis
    unfolding delete_mark_def Let_def mark_lineage_def tombstone_def
    by (rule app) (simp add: ok split: option.split)
qed

lemma slots_ok_find:
  assumes ok: "slots_ok s" and d: "d < length (pr_deletes s)"
  shows "slots_ok (delete_find d sid R s)"
  unfolding delete_find_def
  by (rule slots_ok_deletes [OF ok d]) (use slots_okD(1,2) [OF ok] in \<open>auto simp: delete_ok_def split: option.split\<close>)

lemma slots_ok_unlocked:
  assumes ok: "slots_ok s" and d: "d < length (pr_deletes s)"
  shows "slots_ok (delete_unlocked d sid R s)"
proof -
  have "slots_ok (s\<lparr>pr_deletes := (pr_deletes s)[d := Del_Done]\<rparr>)"
    by (rule slots_ok_deletes [OF ok d]) (simp add: delete_ok_def)
  then show ?thesis
    using slots_ok_calls [where s = "s\<lparr>pr_deletes := (pr_deletes s)[d := Del_Done]\<rparr>"] by (simp add: delete_unlocked_def)
qed

lemma slots_ok_lock:
  assumes ok: "slots_ok s" and d: "d < length (pr_deletes s)" and x: "pr_deletes s ! d = Del_Found sid R (Some k)"
    and free: "sl_lock (pr_heap s k) = None"
  shows "slots_ok (delete_lock d sid R k s)"
proof -
  have k: "k < pr_next_slot s" "sl_session (pr_heap s k) = sid"
    using slots_okD(4) [OF ok d] x by (simp_all add: delete_ok_def)
  let ?t = "upd_slot k (sl_lock_update (\<lambda>_. Some (By_Delete d))) s"
  have "slots_ok ?t"
    by (rule slots_ok_slot [OF ok k(1)]) (use slots_okD(3) [OF ok k(1)] free in \<open>auto simp: slot_ok_def\<close>)
  then have "slots_ok (?t\<lparr>pr_deletes := (pr_deletes ?t)[d := Del_Locked sid R k]\<rparr>)"
    by (rule slots_ok_deletes) (use d k in \<open>simp_all add: delete_ok_def\<close>)
  moreover have "delete_lock d sid R k s = ?t\<lparr>pr_deletes := (pr_deletes ?t)[d := Del_Locked sid R k]\<rparr>"
    by (rule persister.equality) (simp_all add: delete_lock_def)
  ultimately show ?thesis by simp
qed

lemma slots_ok_store:
  assumes ok: "slots_ok s" and d: "d < length (pr_deletes s)" and x: "pr_deletes s ! d = Del_Locked sid R k"
  shows "slots_ok (delete_store d sid R k s)"
proof -
  have "slots_ok (s\<lparr>pr_deletes := (pr_deletes s)[d := Del_Stored sid k]\<rparr>)"
    by (rule slots_ok_deletes [OF ok d]) (use slots_okD(4) [OF ok d] x in \<open>simp add: delete_ok_def\<close>)
  then show ?thesis
    using slots_ok_calls [where s = "s\<lparr>pr_deletes := (pr_deletes s)[d := Del_Stored sid k]\<rparr>"] by (simp add: delete_store_def)
qed

lemma slots_ok_forget:
  assumes ok: "slots_ok s" and lock: "sl_lock (pr_heap s k) = Some (By_Delete d)" and k: "k < pr_next_slot s"
    and reg: "pr_slots s sid = Some k"
  shows "slots_ok (s\<lparr>pr_slots := (pr_slots s)(sid := None)\<rparr>)"
proof -
  let ?s = "s\<lparr>pr_slots := (pr_slots s)(sid := None)\<rparr>"
  have "\<not> committed (sl_writer (pr_heap s k))"
    using slots_okD(3) [OF ok k] lock by (cases "sl_writer (pr_heap s k)") (auto simp: slot_ok_def)
  then have "slot_ok ?s j (pr_heap s j)" if "j < pr_next_slot s" for j
    using slots_okD(3) [OF ok that] reg by (cases "j = k") (auto simp: slot_ok_def)
  moreover have "delete_ok ?s = delete_ok s"
    by (simp add: fun_eq_iff delete_ok_def split: deletion.split option.split)
  ultimately show ?thesis using ok by (simp add: slots_ok_def)
qed

lemma is_deleted_frame:
  assumes "is_deleted sid h s = (b, s')"
  shows "\<exists>T. s' = s\<lparr>pr_tombstones := T\<rparr>"
  using assms standing_of_frame [of sid h s] by (auto simp: is_deleted_def split: prod.splits)

lemma queue_work_frame:
  "pr_deletes (queue_work sid work s) = pr_deletes s"
  "pr_next_slot s \<le> pr_next_slot (queue_work sid work s)"
  "pr_next_slot s \<le> pr_next_slot (queue_work sid work (s\<lparr>pr_tombstones := T\<rparr>))"
  "k < pr_next_slot s \<Longrightarrow> sl_lock (pr_heap (queue_work sid work s) k) = sl_lock (pr_heap s k)"
  "k < pr_next_slot s \<Longrightarrow> sl_session (pr_heap (queue_work sid work s) k) = sl_session (pr_heap s k)"
  "k < pr_next_slot s \<Longrightarrow> sl_writer (pr_heap (queue_work sid work s) k) = sl_writer (pr_heap s k)"
  by (auto simp: queue_work_def Let_def split: option.split)

lemma leftover_work_frame:
  "pr_deletes (leftover_work sid p s) = pr_deletes s"
  "pr_next_slot s \<le> pr_next_slot (leftover_work sid p s)"
  "k < pr_next_slot s \<Longrightarrow> sl_lock (pr_heap (leftover_work sid p s) k) = sl_lock (pr_heap s k)"
  "k < pr_next_slot s \<Longrightarrow> sl_session (pr_heap (leftover_work sid p s) k) = sl_session (pr_heap s k)"
  "k < pr_next_slot s \<Longrightarrow> sl_writer (pr_heap (leftover_work sid p s) k) = sl_writer (pr_heap s k)"
  by (auto simp: leftover_work_def tell_all_def queue_work_frame split: option.split prod.split dest!: is_deleted_frame)

lemma slots_ok_leftover_work: "slots_ok s \<Longrightarrow> slots_ok (leftover_work sid p s)"
  by (auto simp: leftover_work_def slots_ok_queue split: option.split prod.split dest!: is_deleted_frame)

lemma slots_ok_leftover:
  assumes ok: "slots_ok s" and d: "d < length (pr_deletes s)" and x: "pr_deletes s ! d = Del_Stored sid k"
  shows "slots_ok (delete_leftover d sid k s)"
proof -
  have k: "k < pr_next_slot s" "sl_session (pr_heap s k) = sid" "sl_lock (pr_heap s k) = Some (By_Delete d)"
    using slots_okD(4) [OF ok d] x by (simp_all add: delete_ok_def)
  let ?s0 = "unregister_slot sid k s"
  let ?s1 = "upd_slot k (sl_pending_update (\<lambda>_. no_pending)) ?s0"
  let ?s2 = "leftover_work sid (sl_pending (pr_heap s k)) ?s1"
  let ?s3 = "?s2\<lparr>pr_deletes := (pr_deletes ?s2)[d := Del_Done]\<rparr>"
  have s0: "slots_ok ?s0" "pr_heap ?s0 = pr_heap s" "pr_next_slot ?s0 = pr_next_slot s" "pr_deletes ?s0 = pr_deletes s"
    using slots_ok_forget [OF ok k(3,1)] ok by (simp_all add: unregister_slot_def)
  have "slots_ok ?s1"
    by (rule slots_ok_slot [OF s0(1)])
      (use k slots_okD(3) [OF s0(1), of k] s0 in \<open>auto simp: slot_ok_def pending_is_empty_def no_pending_def\<close>)
  then have s2: "slots_ok ?s2" by (rule slots_ok_leftover_work)
  have s2': "pr_deletes ?s2 = pr_deletes s" "k < pr_next_slot ?s2" "sl_lock (pr_heap ?s2 k) = Some (By_Delete d)"
    using k s0 leftover_work_frame(2) [of ?s1 sid "sl_pending (pr_heap s k)"]
    by (simp_all add: leftover_work_frame)
  have s3: "slots_ok ?s3"
    by (rule slots_ok_deletes [OF s2]) (use d s2' in \<open>simp_all add: delete_ok_def\<close>)
  have "slots_ok (upd_slot k (sl_lock_update (\<lambda>_. None)) ?s3)"
  proof (rule slots_ok_slot [OF s3])
    show "slot_ok ?s3 k (sl_lock_update (\<lambda>_. None) (pr_heap ?s3 k))"
      using slots_okD(3) [OF s3, of k] s2' by (auto simp: slot_ok_def)
  qed (use s2' d in \<open>auto simp: nth_list_update split: if_splits\<close>)
  then show ?thesis by (simp add: delete_leftover_def Let_def)
qed

lemma slots_ok_step: "persist_step s s' \<Longrightarrow> slots_ok s \<Longrightarrow> slots_ok s'"
  by (induction rule: persist_step.induct)
    (simp_all add: slots_ok_queue slots_ok_wait slots_ok_take slots_ok_judge slots_ok_load slots_ok_finish slots_ok_tells
      slots_ok_unregister slots_ok_loop slots_ok_mark slots_ok_find slots_ok_unlocked slots_ok_lock slots_ok_store
      slots_ok_leftover)

end
