(* ===== verification/Persister_Safe.thy ===== *)
theory Persister_Safe
  imports Persister_Inv
begin

text \<open>
  Which handles are held, and what a deletion retires stays retired: the invariants behind the
  promise that no write of a deleted session follows its deletion in storage.
\<close>

section \<open>Retired handles\<close>

definition lineage_of :: "'s persister \<Rightarrow> uuid \<Rightarrow> lineage" where
  "lineage_of s sid = unwrap_or (pr_lineages s sid) new_lineage"

definition tombs_of :: "'s persister \<Rightarrow> uuid \<Rightarrow> handle set" where
  "tombs_of s sid = set (unwrap_or (pr_tombstones s sid) [])"

lemma generation_of_new [simp]: "generation_of new_lineage h = None"
  by (simp add: generation_of_def new_lineage_def)

lemma retired_eq:
  "retired sid s = tombs_of s sid \<union>
     {h. \<exists>g. generation_of (lineage_of s sid) h = Some g \<and> g < li_deleted_below (lineage_of s sid)}"
  by (auto simp: retired_def tombs_of_def lineage_of_def split: option.split)

lemma find_handle:
  fixes ms :: "(handle \<times> nat) list"
  shows "map_option snd (List.find (\<lambda>(w, _). w = h) ms) = map_of ms h"
  by (induction ms) auto

lemma generation_of_map: "generation_of l = map_of (li_members l)"
  by (simp add: fun_eq_iff generation_of_def find_handle)

lemma generation_of_Some:
  "distinct (map fst (li_members l)) \<Longrightarrow> generation_of l h = Some g \<longleftrightarrow> (h, g) \<in> set (li_members l)"
  by (simp add: generation_of_map)

lemma generation_of_prune: "h \<in> A \<Longrightarrow> generation_of (prune A l) h = generation_of l h"
proof -
  assume "h \<in> A"
  then have "map_of (filter (\<lambda>(w, _). w \<in> A) ms) h = map_of ms h" for ms :: "(handle \<times> nat) list"
    by (induction ms) auto
  then show ?thesis by (simp add: generation_of_map prune_def)
qed

definition lineage_ok :: "lineage \<Rightarrow> handle set \<Rightarrow> bool" where
  "lineage_ok l T \<longleftrightarrow>
     distinct (map fst (li_members l)) \<and> li_deleted_below l \<le> li_next l \<and>
     (\<forall>(h, g) \<in> set (li_members l). g < li_next l \<and> (h \<in> T \<longrightarrow> g < li_deleted_below l))"

lemma lineage_ok_new [simp]: "lineage_ok new_lineage T"
  by (simp add: lineage_ok_def new_lineage_def)

lemma lineage_ok_less: "lineage_ok l T \<Longrightarrow> T' \<subseteq> T \<Longrightarrow> lineage_ok l T'"
  by (auto simp: lineage_ok_def)

lemma prune_fields [simp]:
  "li_next (prune A l) = li_next l" "li_deleted_below (prune A l) = li_deleted_below l"
  "set (li_members (prune A l)) = {(h, g) \<in> set (li_members l). h \<in> A}"
  by (auto simp: prune_def)

lemma lineage_ok_prune: "lineage_ok l T \<Longrightarrow> lineage_ok (prune A l) T"
  by (auto simp: lineage_ok_def prune_def intro: distinct_map_filter)

lemma newest_alive_member:
  "newest_alive A l = Some (n, g) \<Longrightarrow> n \<in> A \<and> (n, g) \<in> set (li_members l)"
proof -
  assume n: "newest_alive A l = Some (n, g)"
  have best: "fold (\<lambda>x best. if snd best \<le> snd x then x else best) ms m \<in> set (m # ms)"
    for ms and m :: "handle \<times> nat"
  proof (induction ms arbitrary: m)
    case (Cons a ms)
    show ?case using Cons.IH [of a] Cons.IH [of m] by auto
  qed simp
  obtain m ms where f: "filter (\<lambda>(w, _). w \<in> A) (li_members l) = m # ms"
    using n by (cases "filter (\<lambda>(w, _). w \<in> A) (li_members l)") (auto simp: newest_alive_def)
  then have "(n, g) = fold (\<lambda>x best. if snd best \<le> snd x then x else best) ms m"
    using n by (simp add: newest_alive_def)
  then have "(n, g) \<in> set (filter (\<lambda>(w, _). w \<in> A) (li_members l))" using best [of ms m] f by simp
  then show ?thesis by simp
qed

text \<open>A handle that may be written is not a retired one.\<close>

lemma standing_not_retired:
  assumes st: "standing_of sid h s = (st, s')" and ok: "lineage_ok (lineage_of s sid) (tombs_of s sid)"
    and h: "h \<in> pr_alive s"
  shows "st = Current \<Longrightarrow> h \<notin> retired sid s"
    and "st = Superseded (Some n) \<Longrightarrow> n \<in> pr_alive s \<and> n \<notin> retired sid s"
proof -
  have st': "st = (if h \<in> tombs_of s sid then Deleted else standing_in_lineage (pr_alive s) (pr_lineages s sid) h)"
    using st h by (auto simp: standing_of_def is_tombstoned_def tombs_of_def Let_def split: option.splits if_splits)
  show "h \<notin> retired sid s" if "st = Current"
    using that st' by (auto simp: retired_eq standing_in_lineage_def lineage_of_def split: option.splits if_splits)
  assume sup: "st = Superseded (Some n)"
  then obtain l g g' where l: "pr_lineages s sid = Some l" "generation_of l h = Some g" "\<not> g < li_deleted_below l"
    "newest_alive (pr_alive s) l = Some (n, g')" "g < g'"
    using st' by (auto simp: standing_in_lineage_def split: option.splits if_splits)
  have ll: "lineage_of s sid = l" using l(1) by (simp add: lineage_of_def)
  have n: "n \<in> pr_alive s" "(n, g') \<in> set (li_members l)" using newest_alive_member [OF l(4)] by simp_all
  have "generation_of l n = Some g'"
    using ok n(2) by (simp add: ll lineage_ok_def generation_of_Some)
  moreover have "n \<notin> tombs_of s sid" using ok n(2) l(3,5) by (auto simp: ll lineage_ok_def)
  ultimately show "n \<in> pr_alive s \<and> n \<notin> retired sid s"
    using n(1) l(3,5) by (auto simp: retired_eq ll)
qed

section \<open>The registry of handles through a step\<close>

definition registry_ok :: "'s persister \<Rightarrow> bool" where
  "registry_ok s \<longleftrightarrow>
     pr_alive s \<subseteq> {h. h < pr_next_handle s} \<and> (\<forall>sid. lineage_ok (lineage_of s sid) (tombs_of s sid))"

definition keeps_retired :: "'s persister \<Rightarrow> 's persister \<Rightarrow> bool" where
  "keeps_retired s s' \<longleftrightarrow>
     pr_next_handle s \<le> pr_next_handle s' \<and>
     (\<forall>h \<in> pr_alive s'. h < pr_next_handle s \<longrightarrow> h \<in> pr_alive s) \<and>
     (\<forall>sid. retired sid s \<inter> pr_alive s' \<subseteq> retired sid s')"

text \<open>Most steps at most drop the tombstones of dead handles.\<close>

definition pruned :: "'s persister \<Rightarrow> 's persister \<Rightarrow> bool" where
  "pruned s s' \<longleftrightarrow>
     pr_lineages s' = pr_lineages s \<and> pr_alive s' = pr_alive s \<and> pr_next_handle s' = pr_next_handle s \<and>
     (\<forall>sid. tombs_of s' sid \<subseteq> tombs_of s sid \<and> tombs_of s sid \<inter> pr_alive s \<subseteq> tombs_of s' sid)"

lemma pruned_same:
  "pr_tombstones s' = pr_tombstones s \<Longrightarrow> pr_lineages s' = pr_lineages s \<Longrightarrow> pr_alive s' = pr_alive s \<Longrightarrow>
   pr_next_handle s' = pr_next_handle s \<Longrightarrow> pruned s s'"
  by (simp add: pruned_def tombs_of_def)

lemma pruned_trans: "pruned s t \<Longrightarrow> pruned t u \<Longrightarrow> pruned s u"
  unfolding pruned_def by (metis (no_types, lifting) Int_subset_iff inf.absorb_iff2 inf_le2 subset_trans)

lemma pruned_keeps:
  assumes p: "pruned s s'" and ok: "registry_ok s"
  shows "keeps_retired s s' \<and> registry_ok s'"
proof -
  have same: "pr_lineages s' = pr_lineages s" "pr_alive s' = pr_alive s" "pr_next_handle s' = pr_next_handle s"
    and t: "\<And>sid. tombs_of s' sid \<subseteq> tombs_of s sid" "\<And>sid. tombs_of s sid \<inter> pr_alive s \<subseteq> tombs_of s' sid"
    using p by (simp_all add: pruned_def)
  have l: "lineage_of s' = lineage_of s" using same by (simp add: fun_eq_iff lineage_of_def)
  have "registry_ok s'"
    using ok lineage_ok_less [OF _ t(1)] by (auto simp: registry_ok_def same l)
  moreover have "retired sid s \<inter> pr_alive s \<subseteq> retired sid s'" for sid
    using t(2) [of sid] by (auto simp: retired_eq l)
  ultimately show ?thesis by (simp add: keeps_retired_def same)
qed

lemma pruned_standing: "standing_of sid h s = (st, s') \<Longrightarrow> pruned s s'"
proof -
  assume "standing_of sid h s = (st, s')"
  from standing_of_frame [OF this] obtain T where
    "s' = s\<lparr>pr_tombstones := (pr_tombstones s)(sid := T)\<rparr>"
    "set (unwrap_or T []) = set (unwrap_or (pr_tombstones s sid) []) \<inter> pr_alive s" by blast
  then show ?thesis by (auto simp: pruned_def tombs_of_def)
qed

lemma pruned_is_deleted: "is_deleted sid h s = (b, s') \<Longrightarrow> pruned s s'"
  by (auto simp: is_deleted_def pruned_standing split: prod.splits)

lemma pruned_queue: "pruned s (queue_work sid work s)"
  by (rule pruned_same) (simp_all add: queue_work_def Let_def split: option.split)

lemma pruned_enqueue: "pruned s (enqueue sid h us rs w s)"
proof -
  obtain st s' where st: "standing_of sid h s = (st, s')" by fastforce
  have "pruned s' (enqueue sid h us rs w s)"
    by (rule pruned_same)
      (auto simp: enqueue_def st Let_def tell_all_def split: standing.split option.split)
  then show ?thesis by (rule pruned_trans [OF pruned_standing [OF st]])
qed

lemma pruned_judge: "pruned s (writer_judge k b r s)"
proof (cases "pe_source b")
  case None
  then show ?thesis by (intro pruned_same) (auto simp: writer_judge_def)
next
  case (Some h)
  obtain st s' where st: "standing_of (sl_session (pr_heap s k)) h s = (st, s')" by fastforce
  have "pruned s' (writer_judge k b True s)" "pruned s (writer_judge k b False s)"
    using Some by (intro pruned_same; auto simp: writer_judge_def st split: standing.split option.split)+
  then show ?thesis using pruned_trans [OF pruned_standing [OF st]] by (cases r) auto
qed

lemma pruned_leftover: "pruned s (delete_leftover d sid k s)"
proof -
  let ?s1 = "upd_slot k (sl_pending_update (\<lambda>_. no_pending)) (unregister_slot sid k s)"
  let ?s2 = "leftover_work sid (sl_pending (pr_heap s k)) ?s1"
  have tell: "pruned t (tell_all r ws t)" for t :: "'a persister" and r ws
    by (rule pruned_same) (simp_all add: tell_all_def)
  have "pruned s ?s1" by (rule pruned_same) (simp_all add: unregister_slot_def)
  moreover have "pruned ?s1 ?s2"
    by (auto simp: leftover_work_def tell split: option.split prod.split
        intro: pruned_trans [OF pruned_is_deleted pruned_queue] pruned_trans [OF pruned_is_deleted tell])
  moreover have "pruned ?s2 (delete_leftover d sid k s)"
    by (rule pruned_same) (simp_all add: delete_leftover_def Let_def)
  ultimately show ?thesis using pruned_trans by blast
qed

lemma registry_ok_register:
  assumes ok: "registry_ok s" and h: "h \<in> pr_alive s" and f: "fresh_for sid h s"
  shows "keeps_retired s (register sid h s) \<and> registry_ok (register sid h s)"
proof -
  let ?s = "register sid h s" and ?l = "lineage_of s sid"
  let ?p = "prune (pr_alive s) ?l"
  have l: "lineage_of ?s = (lineage_of s)(sid := ?p\<lparr>li_next := li_next ?p + 1, li_members := li_members ?p @ [(h, li_next ?p)]\<rparr>)"
    by (simp add: fun_eq_iff register_def Let_def lineage_of_def)
  have t: "tombs_of ?s = tombs_of s" by (simp add: fun_eq_iff register_def Let_def tombs_of_def)
  have a: "pr_alive ?s = pr_alive s" "pr_next_handle ?s = pr_next_handle s" by (simp_all add: register_def Let_def)
  have fresh: "h \<notin> tombs_of s sid" "h \<notin> fst ` set (li_members ?l)"
    using f by (simp_all add: fresh_for_def tombs_of_def lineage_of_def)
  have lok: "lineage_ok ?l (tombs_of s sid)" using ok by (simp add: registry_ok_def)
  have "lineage_ok (?p\<lparr>li_next := li_next ?p + 1, li_members := li_members ?p @ [(h, li_next ?p)]\<rparr>) (tombs_of s sid)"
    using lineage_ok_prune [OF lok, of "pr_alive s"] fresh by (fastforce simp: lineage_ok_def)
  then have "registry_ok ?s" using ok by (simp add: registry_ok_def l t a)
  moreover have "generation_of (?p\<lparr>li_next := li_next ?p + 1, li_members := li_members ?p @ [(h, li_next ?p)]\<rparr>) x = Some g"
    if "x \<in> pr_alive s" "generation_of ?l x = Some g" for x g
    using that generation_of_prune [OF that(1), of ?l] by (simp add: generation_of_map)
  then have "retired sid' s \<inter> pr_alive s \<subseteq> retired sid' ?s" for sid'
    by (auto simp: retired_eq l t)
  ultimately show ?thesis by (simp add: keeps_retired_def a)
qed

lemma registry_ok_mark:
  assumes ok: "registry_ok s" and live: "set_option live \<subseteq> pr_alive s"
  shows "keeps_retired s (delete_mark sid live s) \<and> registry_ok (delete_mark sid live s)"
proof -
  let ?s = "delete_mark sid live s" and ?l = "lineage_of s sid"
  let ?p = "prune (pr_alive s) ?l"
  have l: "lineage_of ?s = (lineage_of s)(sid := ?p\<lparr>li_deleted_below := li_next ?p\<rparr>)"
    by (simp add: fun_eq_iff delete_mark_def mark_lineage_def tombstone_def Let_def lineage_of_def split: option.split)
  have t: "tombs_of ?s sid' = (if sid' = sid \<and> live \<noteq> None then tombs_of s sid \<inter> pr_alive s \<union> set_option live
      else tombs_of s sid')" for sid'
    by (auto simp: delete_mark_def mark_lineage_def tombstone_def Let_def tombs_of_def split: option.split)
  have a: "pr_alive ?s = pr_alive s" "pr_next_handle ?s = pr_next_handle s"
    by (simp_all add: delete_mark_def mark_lineage_def tombstone_def Let_def split: option.split)
  have lok: "lineage_ok (lineage_of s sid') (tombs_of s sid')" for sid' using ok by (simp add: registry_ok_def)
  have "lineage_ok (?p\<lparr>li_deleted_below := li_next ?p\<rparr>) T" for T
    using lineage_ok_prune [OF lok [of sid], of "pr_alive s"] by (auto simp: lineage_ok_def prune_def)
  then have "registry_ok ?s" using ok lok by (simp add: registry_ok_def l t a)
  moreover have "retired sid' s \<inter> pr_alive s \<subseteq> retired sid' ?s" for sid'
  proof
    fix x assume x: "x \<in> retired sid' s \<inter> pr_alive s"
    have "generation_of (?p\<lparr>li_deleted_below := li_next ?p\<rparr>) x = generation_of ?l x"
      using x generation_of_prune [of x "pr_alive s" ?l] by (simp add: generation_of_map)
    moreover have "li_deleted_below ?l \<le> li_next ?l" using lok [of sid] by (simp add: lineage_ok_def)
    ultimately show "x \<in> retired sid' ?s"
      using x by (cases "sid' = sid") (auto simp: retired_eq l t)
  qed
  ultimately show ?thesis by (simp add: keeps_retired_def a)
qed

lemma registry_ok_open:
  fixes c :: "handle \<Rightarrow> 's"
  assumes "registry_ok s"
  defines "s' \<equiv> s\<lparr>pr_alive := insert (pr_next_handle s) (pr_alive s), pr_content := c, pr_next_handle := pr_next_handle s + 1\<rparr>"
  shows "keeps_retired s s' \<and> registry_ok s'"
proof -
  have "lineage_of s' = lineage_of s" "tombs_of s' = tombs_of s"
    by (simp_all add: fun_eq_iff s'_def lineage_of_def tombs_of_def)
  then show ?thesis
    using assms(1) by (auto simp: s'_def keeps_retired_def registry_ok_def retired_eq)
qed

lemma registry_ok_drop:
  assumes "registry_ok s"
  shows "keeps_retired s (s\<lparr>pr_alive := pr_alive s - {h}\<rparr>) \<and> registry_ok (s\<lparr>pr_alive := pr_alive s - {h}\<rparr>)"
proof -
  have "lineage_of (s\<lparr>pr_alive := pr_alive s - {h}\<rparr>) = lineage_of s" "tombs_of (s\<lparr>pr_alive := pr_alive s - {h}\<rparr>) = tombs_of s"
    by (simp_all add: fun_eq_iff lineage_of_def tombs_of_def)
  then show ?thesis using assms(1) by (auto simp: keeps_retired_def registry_ok_def retired_eq)
qed

lemma registry_step:
  "persist_step s s' \<Longrightarrow> registry_ok s \<Longrightarrow> keeps_retired s s' \<and> registry_ok s'"
proof (induction rule: persist_step.induct)
  case (step_open s x)
  then show ?case by (rule registry_ok_open)
next
  case (step_queue i s sid work)
  let ?s = "s\<lparr>pr_routed := take i (pr_routed s) @ drop (Suc i) (pr_routed s)\<rparr>"
  have "pruned s (queue_work sid work ?s)"
    by (rule pruned_trans [OF pruned_same [where s' = ?s] pruned_queue]) simp_all
  then show ?case using step_queue by (intro pruned_keeps)
next
  case (step_retry s sid w)
  have "pruned s (retry_failed sid w s)"
    by (auto simp: retry_failed_def pruned_enqueue pruned_same split: option.split)
  then show ?case using step_retry by (intro pruned_keeps)
next
  case (step_flush s sid h w)
  have "pruned s (flush_retry sid h w s)"
    by (auto simp: flush_retry_def pruned_enqueue pruned_same)
  then show ?case using step_flush by (intro pruned_keeps)
next
  case (step_wait sid w s s')
  then show ?case by (intro pruned_keeps pruned_same) (auto simp: wait_queued_def split: option.splits)
qed (simp_all add: registry_ok_register registry_ok_mark registry_ok_open registry_ok_drop
    pruned_keeps [OF pruned_enqueue] pruned_keeps [OF pruned_judge] pruned_keeps [OF pruned_leftover]
    pruned_keeps [OF pruned_same] writer_take_def writer_load_def writer_finish_def writer_tell_def tell_all_def
    writer_unregister_def writer_loop_def delete_find_def delete_unlocked_def delete_lock_def delete_store_def Let_def)

section \<open>Held handles\<close>

definition slot_handles :: "'s slot \<Rightarrow> handle set" where
  "slot_handles sl = set_option (pe_source (sl_pending sl)) \<union> writer_handles (sl_writer sl)"

lemma held_iff:
  "held_handles s \<subseteq> A \<longleftrightarrow>
     (\<forall>(sid, p) \<in> set (pr_routed s). set_option (pe_source p) \<subseteq> A) \<and>
     (\<forall>k < pr_next_slot s. slot_handles (pr_heap s k) \<subseteq> A)"
  by (auto simp: held_handles_def slot_handles_def)

lemma heldD:
  assumes "held_handles s \<subseteq> A"
  shows "(sid, p) \<in> set (pr_routed s) \<Longrightarrow> set_option (pe_source p) \<subseteq> A"
    and "k < pr_next_slot s \<Longrightarrow> slot_handles (pr_heap s k) \<subseteq> A"
  using assms by (auto simp: held_iff)

lemma held_slot:
  assumes "held_handles s \<subseteq> A" and "slot_handles (f (pr_heap s k)) \<subseteq> A"
  shows "held_handles (upd_slot k f s) \<subseteq> A"
  using assms by (auto simp: held_iff)

lemma held_frame:
  "pr_routed s' = pr_routed s \<Longrightarrow> pr_heap s' = pr_heap s \<Longrightarrow> pr_next_slot s' = pr_next_slot s \<Longrightarrow>
   held_handles s' = held_handles s"
  by (simp add: held_handles_def)

lemma held_tell [simp]: "held_handles (tell_all r ws s) = held_handles s"
  by (rule held_frame) (simp_all add: tell_all_def)

lemma merge_source: "set_option (pe_source (merge_pending work p)) \<subseteq> set_option (pe_source work) \<union> set_option (pe_source p)"
  by (auto simp: merge_pending_def Let_def split: option.splits if_splits)

lemma held_queue:
  assumes held: "held_handles s \<subseteq> A" and work: "set_option (pe_source work) \<subseteq> A" and ok: "slots_ok s"
  shows "held_handles (queue_work sid work s) \<subseteq> A"
proof (cases "pr_slots s sid")
  case (Some k)
  have "slot_handles (pr_heap s k) \<subseteq> A" by (rule heldD(2) [OF held slots_okD(1) [OF ok Some]])
  then have "held_handles (upd_slot k (sl_pending_update (merge_pending work)) s) \<subseteq> A"
    using work merge_source [of work "sl_pending (pr_heap s k)"]
    by (intro held_slot [OF held]) (auto simp: slot_handles_def)
  then show ?thesis using Some by (simp add: queue_work_def)
next
  case None
  have "slot_handles ((new_slot sid)\<lparr>sl_pending := merge_pending work no_pending\<rparr>) \<subseteq> A"
    using work merge_source [of work no_pending]
    by (auto simp: slot_handles_def new_slot_def no_pending_def writer_handles_def)
  then show ?thesis
    using None held by (auto simp: queue_work_def Let_def held_iff less_Suc_eq)
qed

lemma held_enqueue:
  assumes held: "held_handles s \<subseteq> pr_alive s" and h: "h \<in> pr_alive s" and ok: "registry_ok s"
  shows "held_handles (enqueue sid h us rs w s) \<subseteq> pr_alive s"
proof -
  obtain st s' where st: "standing_of sid h s = (st, s')" by fastforce
  have lok: "lineage_ok (lineage_of s sid) (tombs_of s sid)" using ok by (simp add: registry_ok_def)
  have f: "pr_routed s' = pr_routed s" "pr_heap s' = pr_heap s" "pr_next_slot s' = pr_next_slot s"
    using standing_of_frame [OF st] by auto
  show ?thesis
    using held h standing_not_retired(2) [OF st lok h]
    by (auto simp: enqueue_def st Let_def held_iff tell_all_def f split: standing.split option.split)
qed

lemma held_judge:
  assumes held: "held_handles s \<subseteq> pr_alive s" and ok: "registry_ok s"
    and k: "k < pr_next_slot s" and w: "sl_writer (pr_heap s k) = Has_Batch b r"
  shows "held_handles (writer_judge k b r s) \<subseteq> pr_alive s"
proof -
  have p: "set_option (pe_source (sl_pending (pr_heap s k))) \<subseteq> pr_alive s" and b: "set_option (pe_source b) \<subseteq> pr_alive s"
    using heldD(2) [OF held k] w by (simp_all add: slot_handles_def writer_handles_def)
  have go: "held_handles (upd_slot k (sl_writer_update (\<lambda>_. w')) t) \<subseteq> pr_alive s"
    if "pr_routed t = pr_routed s" "pr_heap t = pr_heap s" "pr_next_slot t = pr_next_slot s" "writer_handles w' \<subseteq> pr_alive s"
    for t w'
    by (rule held_slot) (use held held_frame [OF that(1-3)] that p in \<open>simp_all add: slot_handles_def\<close>)
  show ?thesis
  proof (cases "pe_source b")
    case None
    have skip: "held_handles (upd_slot k (sl_writer_update (\<lambda>_. Telling x (pe_waiters b))) s) \<subseteq> pr_alive s" for x
      by (rule go) (simp_all add: writer_handles_def)
    show ?thesis using None skip [of "sl_last_result (pr_heap s k)"] skip [of "Err session_deleted"]
      by (cases r) (simp_all add: writer_judge_def)
  next
    case (Some h)
    then have h: "h \<in> pr_alive s" using b by simp
    obtain st s' where st: "standing_of (sl_session (pr_heap s k)) h s = (st, s')" by fastforce
    have lok: "lineage_ok (lineage_of s (sl_session (pr_heap s k))) (tombs_of s (sl_session (pr_heap s k)))"
      using ok by (simp add: registry_ok_def)
    have f: "pr_routed s' = pr_routed s" "pr_heap s' = pr_heap s" "pr_next_slot s' = pr_next_slot s"
      using standing_of_frame [OF st] by auto
    show ?thesis
    proof (cases r)
      case False
      then show ?thesis using Some by (simp add: writer_judge_def) (rule go, simp_all add: writer_handles_def)
    next
      case True
      show ?thesis
      proof (cases st)
        case Current
        then show ?thesis using True Some st h b go [OF f, of "Judged h b"] by (simp add: writer_judge_def writer_handles_def)
      next
        case (Superseded x)
        then show ?thesis
          using True Some st b standing_not_retired(2) [OF st lok h] go [OF f]
          by (cases x) (simp_all add: writer_judge_def writer_handles_def)
      next
        case Deleted
        then show ?thesis
          using True Some st go [OF f, of "Telling (Err session_deleted) (pe_waiters b)"]
          by (simp add: writer_judge_def writer_handles_def)
      qed
    qed
  qed
qed

lemma slots_ok_same: "slots_ok s \<Longrightarrow> slots_ok (s\<lparr>pr_routed := q\<rparr>)"
  by simp

lemma held_leftover:
  assumes held: "held_handles s \<subseteq> pr_alive s" and ok: "slots_ok s"
    and d: "d < length (pr_deletes s)" and x: "pr_deletes s ! d = Del_Stored sid k"
  shows "held_handles (delete_leftover d sid k s) \<subseteq> pr_alive s"
proof -
  have k: "k < pr_next_slot s" "sl_lock (pr_heap s k) = Some (By_Delete d)"
    using slots_okD(4) [OF ok d] x by (simp_all add: delete_ok_def)
  let ?s0 = "unregister_slot sid k s"
  let ?s1 = "upd_slot k (sl_pending_update (\<lambda>_. no_pending)) ?s0"
  let ?left = "sl_pending (pr_heap s k)"
  let ?s2 = "leftover_work sid ?left ?s1"
  have src: "set_option (pe_source ?left) \<subseteq> pr_alive s"
    using heldD(2) [OF held k(1)] by (simp add: slot_handles_def)
  have s0: "pr_routed ?s0 = pr_routed s" "pr_heap ?s0 = pr_heap s" "pr_next_slot ?s0 = pr_next_slot s"
    by (simp_all add: unregister_slot_def)
  have s1: "held_handles ?s1 \<subseteq> pr_alive s"
    by (rule held_slot)
      (use held held_frame [OF s0] heldD(2) [OF held k(1)] s0 in \<open>simp_all add: slot_handles_def no_pending_def\<close>)
  have ok0: "slots_ok ?s0" using slots_ok_forget [OF ok k(2,1)] ok by (simp add: unregister_slot_def)
  have ok1: "slots_ok ?s1"
    by (rule slots_ok_slot [OF ok0])
      (use k slots_okD(3) [OF ok0, of k] s0 in \<open>auto simp: slot_ok_def pending_is_empty_def no_pending_def\<close>)
  have s2: "held_handles ?s2 \<subseteq> pr_alive s"
  proof (cases "pe_source ?left")
    case None
    then show ?thesis using s1 by (simp add: leftover_work_def)
  next
    case (Some h)
    obtain b t where t: "is_deleted sid h ?s1 = (b, t)" by fastforce
    from is_deleted_frame [OF t] obtain T where T: "t = ?s1\<lparr>pr_tombstones := T\<rparr>" by blast
    have "held_handles t = held_handles ?s1" by (rule held_frame) (simp_all add: T)
    moreover have "slots_ok t" using ok1 by (simp add: T)
    ultimately have "held_handles (queue_work sid ?left t) \<subseteq> pr_alive s" "held_handles t \<subseteq> pr_alive s"
      using held_queue [of t "pr_alive s" ?left] s1 src by simp_all
    then show ?thesis
      using Some t by (simp add: leftover_work_def)
  qed
  have "slot_handles (sl_lock_update (\<lambda>_. None) (pr_heap ?s2 k)) \<subseteq> pr_alive s"
    using heldD(2) [OF s2, of k] k leftover_work_frame(2) [of ?s1 sid ?left] s0 by (simp add: slot_handles_def)
  moreover have "held_handles (?s2\<lparr>pr_deletes := (pr_deletes ?s2)[d := Del_Done]\<rparr>) \<subseteq> pr_alive s"
    using s2 held_frame [of "?s2\<lparr>pr_deletes := (pr_deletes ?s2)[d := Del_Done]\<rparr>" ?s2] by simp
  ultimately have "held_handles (upd_slot k (sl_lock_update (\<lambda>_. None))
      (?s2\<lparr>pr_deletes := (pr_deletes ?s2)[d := Del_Done]\<rparr>)) \<subseteq> pr_alive s"
    by (intro held_slot) simp_all
  then show ?thesis by (simp add: delete_leftover_def Let_def)
qed

lemma held_writer:
  assumes held: "held_handles s \<subseteq> pr_alive s" and k: "k < pr_next_slot s"
    and f: "slot_handles (f (pr_heap s k)) \<subseteq> slot_handles (pr_heap s k)"
  shows "held_handles (upd_slot k f s) \<subseteq> pr_alive s"
  by (rule held_slot [OF held]) (use f heldD(2) [OF held k] in blast)

lemma held_step:
  assumes "persist_step s s'" and "held_handles s \<subseteq> pr_alive s" and "registry_ok s" and "slots_ok s"
  shows "held_handles s' \<subseteq> pr_alive s'"
  using assms
proof (induction rule: persist_step.induct)
  case (step_queue i s sid work)
  let ?s = "s\<lparr>pr_routed := take i (pr_routed s) @ drop (Suc i) (pr_routed s)\<rparr>"
  have "(sid, work) \<in> set (pr_routed s)" using step_queue(1,2) nth_mem by force
  then have w: "set_option (pe_source work) \<subseteq> pr_alive s" by (rule heldD(1) [OF step_queue(3)])
  have "held_handles ?s \<subseteq> pr_alive s"
    using step_queue(3) by (auto simp: held_iff dest: in_set_takeD in_set_dropD)
  from held_queue [OF this w] step_queue(5) show ?case
    using pruned_queue [of ?s sid work] by (simp add: pruned_def)
next
  case (step_enqueue h s sid us rs w)
  then show ?case using held_enqueue pruned_enqueue [of s sid h us rs w] by (simp add: pruned_def)
next
  case (step_retry s sid w)
  then show ?case
    using held_enqueue [of s] pruned_enqueue [of s sid]
    by (auto simp: retry_failed_def pruned_def split: option.splits)
next
  case (step_flush s sid h w)
  then show ?case
    using held_enqueue [of s] pruned_enqueue [of s sid]
    by (auto simp: flush_retry_def pruned_def held_iff)
next
  case (step_wait sid w s s')
  then obtain k where k: "pr_slots s sid = Some k"
    "s' = upd_slot k (sl_pending_update (\<lambda>p. p\<lparr>pe_waiters := pe_waiters p @ [w]\<rparr>)) s"
    by (auto simp: wait_queued_def split: option.splits)
  then show ?case
    using held_writer [OF step_wait(2) slots_okD(1) [OF step_wait(4) k(1)]] by (simp add: slot_handles_def)
next
  case (step_take k s)
  then show ?case
    unfolding writer_take_def Let_def
    by (simp, intro held_writer) (auto simp: slot_handles_def writer_handles_def no_pending_def)
next
  case (step_judge k s b reg)
  then show ?case using held_judge pruned_judge [of s k b reg] by (simp add: pruned_def)
next
  case (step_load k s h b)
  have "held_handles (upd_slot k (sl_writer_update (\<lambda>_. Writing h (pr_content s h) b)) s) \<subseteq> pr_alive s"
    by (rule held_writer [OF step_load(3,1)]) (use step_load(2) in \<open>auto simp: slot_handles_def writer_handles_def\<close>)
  then show ?case by (simp add: writer_load_def Let_def held_handles_def)
next
  case (step_finish k s h x b r)
  have "held_handles (upd_slot k (\<lambda>sl. sl\<lparr>sl_last_result := r, sl_writer := Telling r (pe_waiters b)\<rparr>) s) \<subseteq> pr_alive s"
    by (rule held_writer [OF step_finish(3,1)]) (auto simp: slot_handles_def writer_handles_def)
  then show ?case by (simp add: writer_finish_def Let_def held_handles_def)
next
  case (step_tell k s r ws)
  have "held_handles (upd_slot k (\<lambda>sl. sl\<lparr>sl_lock := None, sl_writer := Unlocked\<rparr>) s) \<subseteq> pr_alive s"
    by (rule held_writer [OF step_tell(3,1)]) (auto simp: slot_handles_def writer_handles_def)
  then show ?case by (simp add: writer_tell_def tell_all_def held_handles_def)
next
  case (step_unregister k s)
  have "held_handles (upd_slot k (sl_writer_update (\<lambda>_. w)) s) \<subseteq> pr_alive s" if "writer_handles w = {}" for w
    by (rule held_writer [OF step_unregister(3,1)]) (use that in \<open>auto simp: slot_handles_def\<close>)
  from this [of Ended] this [of Still_There] show ?case
    by (auto simp: writer_unregister_def Let_def held_handles_def writer_handles_def)
next
  case (step_loop k s)
  have "held_handles (upd_slot k (sl_writer_update (\<lambda>_. w)) s) \<subseteq> pr_alive s" if "writer_handles w = {}" for w
    by (rule held_writer [OF step_loop(3,1)]) (use that in \<open>auto simp: slot_handles_def\<close>)
  from this [of Ended] this [of At_Lock] show ?case by (simp add: writer_loop_def Let_def writer_handles_def)
next
  case (step_mark live s sid)
  then show ?case
    by (simp add: delete_mark_def mark_lineage_def tombstone_def Let_def held_handles_def split: option.split)
next
  case (step_lock d s sid R k)
  have k: "k < pr_next_slot s" using slots_okD(4) [OF step_lock(6,1)] step_lock(2) by (simp add: delete_ok_def)
  have "held_handles (upd_slot k (sl_lock_update (\<lambda>_. Some (By_Delete d))) s) \<subseteq> pr_alive s"
    by (rule held_writer [OF step_lock(4) k]) (simp add: slot_handles_def)
  then show ?case by (simp add: delete_lock_def held_handles_def)
next
  case (step_leftover d s sid k)
  then show ?case using held_leftover pruned_leftover [of s d sid k] by (simp add: pruned_def)
qed (auto simp: held_handles_def register_def Let_def delete_find_def delete_unlocked_def delete_store_def)

end
