(* ===== verification/Persister_Props.thy ===== *)
theory Persister_Props
  imports Persister_Safe
begin

text \<open>
  Lemmas on the persister: the order of storage calls in every reachable state, the handles a
  writer settles on, merged requests, and runs of steps up to a whole round of a writer.
\<close>

section \<open>No write follows a deletion\<close>

fun writer_target :: "'s writer \<Rightarrow> handle option" where
  "writer_target (Judged h _) = Some h"
| "writer_target (Writing h _ _) = Some h"
| "writer_target _ = None"

definition doomed :: "'s persister \<Rightarrow> uuid \<Rightarrow> handle set \<Rightarrow> bool" where
  "doomed s sid R \<longleftrightarrow> R \<subseteq> {h. h < pr_next_handle s} \<and> R \<inter> pr_alive s \<subseteq> retired sid s"

definition may_write :: "'s persister \<Rightarrow> uuid \<Rightarrow> slot_id \<Rightarrow> handle \<Rightarrow> bool" where
  "may_write s sid k h \<longleftrightarrow>
     k < pr_next_slot s \<and> sl_session (pr_heap s k) = sid \<and> writer_target (sl_writer (pr_heap s k)) = Some h"

text \<open>The order of the storage calls: nothing retired by a deletion is written after it.\<close>

definition calls_in_order :: "'s sink_call list \<Rightarrow> bool" where
  "calls_in_order cs \<longleftrightarrow> sorted_wrt (\<lambda>a b. \<forall>sid R h x us rs.
     a = Sink_Delete sid R \<and> b = Sink_Write sid h x us rs \<longrightarrow> h \<notin> R) cs"

definition safe :: "'s persister \<Rightarrow> bool" where
  "safe s \<longleftrightarrow>
     (\<forall>sid R. Del_Marked sid R \<in> set (pr_deletes s) \<longrightarrow> doomed s sid R) \<and>
     (\<forall>sid R so. Del_Found sid R so \<in> set (pr_deletes s) \<longrightarrow>
        doomed s sid R \<and> (\<forall>k h. may_write s sid k h \<and> h \<in> R \<longrightarrow> so = Some k)) \<and>
     (\<forall>sid R k. Del_Locked sid R k \<in> set (pr_deletes s) \<longrightarrow>
        doomed s sid R \<and> (\<forall>k h. may_write s sid k h \<longrightarrow> h \<notin> R)) \<and>
     (\<forall>sid R. Sink_Delete sid R \<in> set (pr_calls s) \<longrightarrow>
        doomed s sid R \<and> (\<forall>k h. may_write s sid k h \<longrightarrow> h \<notin> R)) \<and>
     calls_in_order (pr_calls s)"

lemma doomed_keeps: "doomed s sid R \<Longrightarrow> keeps_retired s s' \<Longrightarrow> doomed s' sid R"
  unfolding doomed_def keeps_retired_def by fastforce

text \<open>A new target is a handle no deletion has retired.\<close>

definition target_ok :: "'s persister \<Rightarrow> uuid \<Rightarrow> handle \<Rightarrow> bool" where
  "target_ok s sid h \<longleftrightarrow> h \<in> pr_alive s \<and> h \<notin> retired sid s"

lemma doomed_target: "doomed s sid R \<Longrightarrow> target_ok s sid h \<Longrightarrow> h \<notin> R"
  by (auto simp: doomed_def target_ok_def)

lemma safe_step:
  assumes s: "safe s" and keep: "keeps_retired s s'"
    and calls: "pr_calls s' = pr_calls s" and dels: "set (pr_deletes s') \<subseteq> set (pr_deletes s) \<union> {Del_Done} \<union> range (case_prod Del_Stored)"
    and target: "\<And>sid k h. may_write s' sid k h \<Longrightarrow> may_write s sid k h \<or> target_ok s sid h"
  shows "safe s'"
proof -
  have may: "may_write s sid k h" if "may_write s' sid k h" "doomed s sid R" "h \<in> R" for sid k h R
    using target [OF that(1)] doomed_target [OF that(2)] that(3) by blast
  note d = doomed_keeps [OF _ keep]
  show ?thesis
    unfolding safe_def
  proof (intro conjI allI impI)
    fix sid R assume "Del_Marked sid R \<in> set (pr_deletes s')"
    then have "Del_Marked sid R \<in> set (pr_deletes s)" using dels by auto
    then show "doomed s' sid R" using s d by (auto simp: safe_def)
  next
    fix sid R so assume "Del_Found sid R so \<in> set (pr_deletes s')"
    then have m: "Del_Found sid R so \<in> set (pr_deletes s)" using dels by auto
    then show "doomed s' sid R" using s d by (auto simp: safe_def)
    fix k h assume "may_write s' sid k h \<and> h \<in> R"
    then show "so = Some k" using m s may unfolding safe_def by blast
  next
    fix sid R k assume "Del_Locked sid R k \<in> set (pr_deletes s')"
    then have m: "Del_Locked sid R k \<in> set (pr_deletes s)" using dels by auto
    then show "doomed s' sid R" using s d unfolding safe_def by blast
    fix k h assume "may_write s' sid k h"
    then show "h \<notin> R" using m s may unfolding safe_def by blast
  next
    fix sid R assume "Sink_Delete sid R \<in> set (pr_calls s')"
    then have m: "Sink_Delete sid R \<in> set (pr_calls s)" using calls by simp
    then show "doomed s' sid R" using s d by (auto simp: safe_def)
    fix k h assume "may_write s' sid k h"
    then show "h \<notin> R" using m s may unfolding safe_def by blast
  qed (use s calls in \<open>simp add: safe_def\<close>)
qed

text \<open>Changing one slot: its new target is the old one or a handle in good standing.\<close>

lemma may_write_slot:
  assumes "may_write (upd_slot k f t) sid j h" and "pr_heap t = pr_heap s" and "pr_next_slot t = pr_next_slot s"
    and "sl_session (f (pr_heap s k)) = sl_session (pr_heap s k)"
  shows "may_write s sid j h \<or> j = k \<and> sl_session (pr_heap s k) = sid \<and> writer_target (sl_writer (f (pr_heap s k))) = Some h"
  using assms by (auto simp: may_write_def split: if_splits)

lemma may_write_same:
  "pr_heap t = pr_heap s \<Longrightarrow> pr_next_slot t = pr_next_slot s \<Longrightarrow> may_write t = may_write s"
  by (simp add: fun_eq_iff may_write_def)

lemma may_write_tell [simp]: "may_write (tell_all r ws s) = may_write s"
  by (rule may_write_same) (simp_all add: tell_all_def)

lemma may_write_standing:
  "standing_of sid h s = (st, s') \<Longrightarrow> may_write s' = may_write s"
  by (drule standing_of_frame) (auto simp: may_write_def fun_eq_iff)

lemma may_write_queue: "may_write (queue_work sid work s) sid' k h \<Longrightarrow> may_write s sid' k h"
  by (auto simp: may_write_def queue_work_def Let_def new_slot_def split: option.splits if_splits)

lemma may_write_enqueue: "may_write (enqueue sid h us rs w s) = may_write s"
proof -
  obtain st s' where st: "standing_of sid h s = (st, s')" by fastforce
  have "may_write (enqueue sid h us rs w s) = may_write s'"
    by (rule may_write_same) (auto simp: enqueue_def st Let_def tell_all_def split: standing.split option.split)
  then show ?thesis by (simp add: may_write_standing [OF st])
qed

lemma may_write_leftover:
  assumes "may_write (delete_leftover d sid k s) sid' j h" shows "may_write s sid' j h"
proof -
  let ?s1 = "upd_slot k (sl_pending_update (\<lambda>_. no_pending)) (unregister_slot sid k s)"
  have s1: "may_write ?s1 a b c \<Longrightarrow> may_write s a b c" for a b c
    by (auto simp: may_write_def unregister_slot_def split: if_splits)
  have "may_write (leftover_work sid p t) a b c \<Longrightarrow> may_write t a b c" for p a b c and t :: "'a persister"
  proof (cases "pe_source p")
    case (Some x)
    obtain dl u where u: "is_deleted sid x t = (dl, u)" by fastforce
    then have "may_write u = may_write t"
      by (auto simp: is_deleted_def split: prod.splits intro: may_write_standing)
    then show "may_write (leftover_work sid p t) a b c \<Longrightarrow> may_write t a b c"
      using Some u may_write_queue [of sid p u a b c] by (simp add: leftover_work_def split: if_splits)
  qed (simp add: leftover_work_def)
  moreover have "may_write (leftover_work sid (sl_pending (pr_heap s k)) ?s1) sid' j h"
    using assms by (auto simp: delete_leftover_def Let_def may_write_def split: if_splits)
  ultimately show ?thesis using s1 by blast
qed

lemma judge_target:
  assumes ok: "registry_ok s" and w: "sl_writer (pr_heap s k) = Has_Batch b r" and k: "k < pr_next_slot s"
    and h: "set_option (pe_source b) \<subseteq> pr_alive s"
    and m: "may_write (writer_judge k b r s) sid j x"
  shows "may_write s sid j x \<or> target_ok s sid x"
proof (cases "pe_source b")
  case None
  then show ?thesis using m w by (auto simp: writer_judge_def may_write_def split: if_splits)
next
  case (Some y)
  let ?sid = "sl_session (pr_heap s k)"
  obtain st s' where st: "standing_of ?sid y s = (st, s')" by fastforce
  have f: "pr_heap s' = pr_heap s" "pr_next_slot s' = pr_next_slot s" using standing_of_frame [OF st] by auto
  have y: "y \<in> pr_alive s" using h Some by simp
  have "lineage_ok (lineage_of s ?sid) (tombs_of s ?sid)" using ok by (simp add: registry_ok_def)
  note nr = standing_not_retired [OF st this y]
  show ?thesis
  proof (cases "j = k \<and> sid = ?sid")
    case False
    then show ?thesis
      using m Some by (auto simp: writer_judge_def st may_write_def f split: if_splits standing.splits option.splits)
  next
    case True
    then show ?thesis
      using m Some nr y
      by (auto simp: writer_judge_def st may_write_def f target_ok_def split: if_splits standing.splits option.splits)
  qed
qed

lemma may_write_step:
  assumes "persist_step s s'" and "held_handles s \<subseteq> pr_alive s" and "registry_ok s" and "may_write s' sid k h"
  shows "may_write s sid k h \<or> target_ok s sid h"
  using assms
proof (induction rule: persist_step.induct)
  case (step_queue i s sid' work)
  let ?s = "s\<lparr>pr_routed := take i (pr_routed s) @ drop (Suc i) (pr_routed s)\<rparr>"
  have "may_write ?s = may_write s" by (rule may_write_same) simp_all
  then show ?case using may_write_queue [OF step_queue(5)] by simp
next
  case (step_enqueue h s sid us rs w)
  then show ?case by (simp add: may_write_enqueue)
next
  case (step_retry s sid w)
  then show ?case by (auto simp: retry_failed_def may_write_enqueue split: option.splits if_splits)
next
  case (step_flush s sid h w)
  have "may_write (s\<lparr>pr_failed := (pr_failed s)(sid := None)\<rparr>) = may_write s" by (rule may_write_same) simp_all
  then show ?case using step_flush by (auto simp: flush_retry_def may_write_enqueue split: if_splits)
next
  case (step_wait sid w s s')
  then show ?case by (auto simp: wait_queued_def may_write_def split: option.splits if_splits)
next
  case (step_judge j s b reg)
  have "set_option (pe_source b) \<subseteq> pr_alive s"
    using heldD(2) [OF step_judge(3,1)] step_judge(2) by (simp add: slot_handles_def writer_handles_def)
  then show ?case by (rule judge_target [OF step_judge(4,2,1) _ step_judge(5)])
next
  case (step_leftover d s sid k)
  then show ?case using may_write_leftover by blast
qed (auto simp: may_write_def register_def writer_take_def writer_load_def writer_finish_def writer_tell_def tell_all_def
    writer_unregister_def writer_loop_def delete_mark_def mark_lineage_def tombstone_def delete_find_def
    delete_unlocked_def delete_lock_def delete_store_def Let_def split: if_splits option.splits)

lemma calls_in_order_snoc:
  "calls_in_order (cs @ [c]) \<longleftrightarrow> calls_in_order cs \<and>
     (\<forall>sid h x us rs. c = Sink_Write sid h x us rs \<longrightarrow> (\<forall>R. Sink_Delete sid R \<in> set cs \<longrightarrow> h \<notin> R))"
  by (auto simp: calls_in_order_def sorted_wrt_append)

lemma safeD:
  assumes "safe s"
  shows "Del_Marked sid R \<in> set (pr_deletes s) \<Longrightarrow> doomed s sid R"
    and "Del_Found sid R so \<in> set (pr_deletes s) \<Longrightarrow> doomed s sid R"
    and "Del_Found sid R so \<in> set (pr_deletes s) \<Longrightarrow> may_write s sid k h \<Longrightarrow> h \<in> R \<Longrightarrow> so = Some k"
    and "Del_Locked sid R j \<in> set (pr_deletes s) \<Longrightarrow> doomed s sid R"
    and "Del_Locked sid R j \<in> set (pr_deletes s) \<Longrightarrow> may_write s sid k h \<Longrightarrow> h \<notin> R"
    and "Sink_Delete sid R \<in> set (pr_calls s) \<Longrightarrow> doomed s sid R"
    and "Sink_Delete sid R \<in> set (pr_calls s) \<Longrightarrow> may_write s sid k h \<Longrightarrow> h \<notin> R"
    and "calls_in_order (pr_calls s)"
  using assms unfolding safe_def by blast+

text \<open>A deletion moves on or a storage call is made; nothing else changes.\<close>

lemma safe_move:
  assumes s: "safe s" and frame: "pr_tombstones s' = pr_tombstones s" "pr_lineages s' = pr_lineages s"
      "pr_alive s' = pr_alive s" "pr_next_handle s' = pr_next_handle s"
    and may: "may_write s' = may_write s"
    and dels: "set (pr_deletes s') \<subseteq> insert x (set (pr_deletes s))"
    and calls: "set (pr_calls s') \<subseteq> set (pr_calls s) \<union> C" "calls_in_order (pr_calls s')"
    and x: "\<And>sid R. x = Del_Marked sid R \<Longrightarrow> doomed s sid R"
      "\<And>sid R so. x = Del_Found sid R so \<Longrightarrow> doomed s sid R \<and> (\<forall>k h. may_write s sid k h \<and> h \<in> R \<longrightarrow> so = Some k)"
      "\<And>sid R j. x = Del_Locked sid R j \<Longrightarrow> doomed s sid R \<and> (\<forall>k h. may_write s sid k h \<longrightarrow> h \<notin> R)"
    and c: "\<And>sid R. Sink_Delete sid R \<in> C \<Longrightarrow> doomed s sid R \<and> (\<forall>k h. may_write s sid k h \<longrightarrow> h \<notin> R)"
  shows "safe s'"
proof -
  have d: "doomed s' = doomed s"
    using frame by (simp add: fun_eq_iff doomed_def retired_def)
  show ?thesis
    unfolding safe_def d may
  proof (intro conjI allI impI)
    fix sid R so k h assume m: "Del_Found sid R so \<in> set (pr_deletes s')" and w: "may_write s sid k h \<and> h \<in> R"
    show "so = Some k"
    proof (cases "x = Del_Found sid R so")
      case True
      then show ?thesis using x(2) w by blast
    next
      case False
      then show ?thesis using m w dels safeD(3) [OF s, of sid R so k h] by auto
    qed
  qed (use dels calls x c safeD [OF s] in \<open>(auto)\<close>)
qed

lemma standing_calls:
  "standing_of sid h s = (st, s') \<Longrightarrow> pr_calls s' = pr_calls s \<and> pr_deletes s' = pr_deletes s"
  by (drule standing_of_frame) auto

lemma queue_calls: "pr_calls (queue_work sid work s) = pr_calls s \<and> pr_deletes (queue_work sid work s) = pr_deletes s"
  by (simp add: queue_work_def Let_def split: option.split)

lemma enqueue_calls:
  "pr_calls (enqueue sid h us rs w s) = pr_calls s \<and> pr_deletes (enqueue sid h us rs w s) = pr_deletes s"
proof -
  obtain st s' where st: "standing_of sid h s = (st, s')" by fastforce
  then show ?thesis
    using standing_calls [OF st] by (auto simp: enqueue_def Let_def tell_all_def split: standing.split option.split)
qed

lemma judge_calls:
  "pr_calls (writer_judge k b r s) = pr_calls s \<and> pr_deletes (writer_judge k b r s) = pr_deletes s"
proof (cases "pe_source b")
  case (Some h)
  obtain st s' where st: "standing_of (sl_session (pr_heap s k)) h s = (st, s')" by fastforce
  then show ?thesis
    using standing_calls [OF st] Some by (auto simp: writer_judge_def split: standing.split option.split)
qed (simp add: writer_judge_def)

lemma leftover_calls:
  "pr_calls (leftover_work sid p s) = pr_calls s \<and> pr_deletes (leftover_work sid p s) = pr_deletes s"
  by (auto simp: leftover_work_def tell_all_def queue_calls split: option.split prod.split dest!: is_deleted_frame)

lemma safe_step_all:
  assumes "persist_step s s'" and "safe s" and "slots_ok s" and "registry_ok s" and "held_handles s \<subseteq> pr_alive s"
  shows "safe s'"
proof -
  have keep: "keeps_retired s s'" using registry_step assms(1,4) by blast
  have target: "may_write s' sid k h \<Longrightarrow> may_write s sid k h \<or> target_ok s sid h" for sid k h
    using may_write_step [OF assms(1,5,4)] .
  note general = safe_step [OF assms(2) keep _ _ target]
  show ?thesis
    using assms(1)
  proof (cases rule: persist_step.cases)
    case (step_load k h b)
    have may: "may_write s' = may_write s"
      using step_load by (auto simp: fun_eq_iff may_write_def writer_load_def Let_def)
    have "calls_in_order (pr_calls s')"
      using safeD(7,8) [OF assms(2)] step_load
      by (auto simp: writer_load_def Let_def calls_in_order_snoc may_write_def)
    then show ?thesis
      using step_load
      by (intro safe_move [OF assms(2) _ _ _ _ may, where x = Del_Done and C = "{Sink_Write a b c d e | a b c d e. True}"])
        (auto simp: writer_load_def Let_def)
  next
    case (step_mark live sid)
    have keep': "keeps_retired s s'" by (rule keep)
    have may: "may_write s' = may_write s"
      using step_mark by (intro may_write_same)
        (auto simp: delete_mark_def mark_lineage_def tombstone_def Let_def split: option.split)
    have calls: "pr_calls s' = pr_calls s"
      using step_mark by (simp add: delete_mark_def mark_lineage_def tombstone_def Let_def split: option.split)
    have dels: "pr_deletes s' = pr_deletes s @ [Del_Marked sid (retired sid s' \<inter> pr_alive s')]"
      using step_mark by (simp add: delete_mark_def mark_lineage_def tombstone_def Let_def retired_def split: option.split)
    have "doomed s' sid (retired sid s' \<inter> pr_alive s')"
      using registry_step [OF assms(1,4)] by (auto simp: doomed_def registry_ok_def)
    then show ?thesis
      unfolding safe_def calls dels may using safeD [OF assms(2)] doomed_keeps [OF _ keep'] by (auto 0 3)
  next
    case (step_find d sid R)
    then have m: "Del_Marked sid R \<in> set (pr_deletes s)" by (metis nth_mem)
    have may: "may_write s' = may_write s" using step_find by (intro may_write_same) (simp_all add: delete_find_def)
    have "pr_slots s sid = Some k" if "may_write s sid k h" for k h
      using slots_okD(3) [OF assms(3), of k] that
      by (cases "sl_writer (pr_heap s k)") (auto simp: may_write_def slot_ok_def)
    then show ?thesis
      using step_find safeD(1) [OF assms(2) m] safeD(8) [OF assms(2)]
      by (intro safe_move [OF assms(2) _ _ _ _ may, where x = "Del_Found sid R (pr_slots s sid)" and C = "{}"])
        (auto simp: delete_find_def dest: set_update_subset_insert [THEN subsetD])
  next
    case (step_unlocked d sid R)
    then have m: "Del_Found sid R None \<in> set (pr_deletes s)" by (metis nth_mem)
    have may: "may_write s' = may_write s" using step_unlocked by (intro may_write_same) (simp_all add: delete_unlocked_def)
    show ?thesis
      using step_unlocked safeD(2,3) [OF assms(2) m] safeD(8) [OF assms(2)]
      by (intro safe_move [OF assms(2) _ _ _ _ may, where x = Del_Done and C = "{Sink_Delete sid R}"])
        (auto simp: delete_unlocked_def calls_in_order_snoc dest: set_update_subset_insert [THEN subsetD])
  next
    case (step_lock d sid R k)
    then have m: "Del_Found sid R (Some k) \<in> set (pr_deletes s)" by (metis nth_mem)
    have k: "k < pr_next_slot s" using slots_okD(4) [OF assms(3)] step_lock by (fastforce simp: delete_ok_def)
    have may: "may_write s' = may_write s"
      using step_lock by (auto simp: fun_eq_iff may_write_def delete_lock_def)
    have "\<not> may_write s sid k h" for h
      using slots_okD(3) [OF assms(3) k] step_lock
      by (cases "sl_writer (pr_heap s k)") (auto simp: may_write_def slot_ok_def)
    then have "h \<notin> R" if "may_write s sid j h" for j h
      using safeD(3) [OF assms(2) m that] that by blast
    then show ?thesis
      using step_lock safeD(2) [OF assms(2) m] safeD(8) [OF assms(2)]
      by (intro safe_move [OF assms(2) _ _ _ _ may, where x = "Del_Locked sid R k" and C = "{}"])
        (auto simp: delete_lock_def dest: set_update_subset_insert [THEN subsetD])
  next
    case (step_store d sid R k)
    then have m: "Del_Locked sid R k \<in> set (pr_deletes s)" by (metis nth_mem)
    have may: "may_write s' = may_write s" using step_store by (intro may_write_same) (simp_all add: delete_store_def)
    show ?thesis
      using step_store safeD(4,5) [OF assms(2) m] safeD(8) [OF assms(2)]
      by (intro safe_move [OF assms(2) _ _ _ _ may, where x = "Del_Stored sid k" and C = "{Sink_Delete sid R}"])
        (auto simp: delete_store_def calls_in_order_snoc dest: set_update_subset_insert [THEN subsetD])
  next
    case (step_leftover d sid k)
    have "pr_calls s' = pr_calls s" "set (pr_deletes s') \<subseteq> insert Del_Done (set (pr_deletes s))"
      using step_leftover
      by (simp_all add: delete_leftover_def Let_def leftover_calls unregister_slot_def set_update_subset_insert)
    then show ?thesis by (intro general) auto
  next
    case (step_wait sid w)
    then show ?thesis by (intro general) (auto simp: wait_queued_def split: option.splits)
  next
    case (step_judge k b reg)
    then have "pr_calls s' = pr_calls s" "pr_deletes s' = pr_deletes s" by (simp_all add: judge_calls)
    then show ?thesis by (intro general) auto
  next
    case (step_enqueue h sid us rs w)
    then have "pr_calls s' = pr_calls s" "pr_deletes s' = pr_deletes s" by (simp_all add: enqueue_calls)
    then show ?thesis by (intro general) auto
  next
    case (step_retry sid w)
    then have "pr_calls s' = pr_calls s" "pr_deletes s' = pr_deletes s"
      by (simp_all add: retry_failed_def enqueue_calls split: option.split)
    then show ?thesis by (intro general) auto
  next
    case (step_flush sid h w)
    then have "pr_calls s' = pr_calls s" "pr_deletes s' = pr_deletes s"
      by (simp_all add: flush_retry_def enqueue_calls)
    then show ?thesis by (intro general) auto
  qed (rule general; simp add: register_def queue_work_def writer_take_def writer_finish_def writer_tell_def tell_all_def
      writer_unregister_def writer_loop_def Let_def split: option.split; blast)+
qed

section \<open>Reachable states\<close>

definition persister_ok :: "'s persister \<Rightarrow> bool" where
  "persister_ok s \<longleftrightarrow> slots_ok s \<and> registry_ok s \<and> held_handles s \<subseteq> pr_alive s \<and> safe s"

lemma persister_ok_new: "persister_ok (new_persister x)"
  by (simp add: persister_ok_def slots_ok_def registry_ok_def held_handles_def safe_def calls_in_order_def
      lineage_of_def tombs_of_def new_persister_def)

lemma persister_ok_reach: "persist_reach s \<Longrightarrow> persister_ok s"
proof (induction rule: persist_reach.induct)
  case (reach_more s s')
  then show ?case
    using slots_ok_step registry_step held_step safe_step_all unfolding persister_ok_def by blast
qed (rule persister_ok_new)

lemma reach_steps: "persist_step\<^sup>*\<^sup>* s s' \<Longrightarrow> persist_reach s \<Longrightarrow> persist_reach s'"
  by (induction rule: rtranclp_induct) (auto intro: reach_more)

lemma newest_alive_max:
  assumes "newest_alive A l = Some (n, g)" and "(m, g') \<in> set (li_members l)" and "m \<in> A"
  shows "g' \<le> g"
proof -
  have best: "x \<in> set (b # ms) \<Longrightarrow> snd x \<le> snd (fold (\<lambda>x best. if snd best \<le> snd x then x else best) ms b)"
    for ms and x b :: "handle \<times> nat"
  proof (induction ms arbitrary: b x)
    case (Cons a ms)
    show ?case
      using Cons.IH [of x a] Cons.IH [of a a] Cons.IH [of x b] Cons.IH [of b b] Cons.prems
      by (cases "snd b \<le> snd a"; cases "x = a"; cases "x = b") simp_all
  qed simp
  obtain b ms where f: "filter (\<lambda>(w, _). w \<in> A) (li_members l) = b # ms"
    using assms(1) by (cases "filter (\<lambda>(w, _). w \<in> A) (li_members l)") (auto simp: newest_alive_def)
  have "(m, g') \<in> set (filter (\<lambda>(w, _). w \<in> A) (li_members l))" using assms(2,3) by simp
  from best [OF this [unfolded f]] show ?thesis using assms(1) f by (simp add: newest_alive_def)
qed

text \<open>A handle that is not behind a newer one that is still alive.\<close>

definition newest_handle :: "'s persister \<Rightarrow> uuid \<Rightarrow> handle \<Rightarrow> bool" where
  "newest_handle s sid h \<longleftrightarrow>
     (\<forall>g. generation_of (lineage_of s sid) h = Some g \<longrightarrow>
        (\<forall>(m, g') \<in> set (li_members (lineage_of s sid)). m \<in> pr_alive s \<longrightarrow> g' \<le> g))"

lemma standing_newest:
  assumes st: "standing_of sid h s = (st, s')" and ok: "registry_ok s"
  shows "st = Current \<Longrightarrow> newest_handle s sid h" and "st = Superseded (Some n) \<Longrightarrow> newest_handle s sid n"
proof -
  have lok: "lineage_ok (lineage_of s sid) (tombs_of s sid)" using ok by (simp add: registry_ok_def)
  obtain T where "st = Deleted \<or> st = standing_in_lineage (pr_alive s) (pr_lineages s sid) h"
    using st by (auto simp: standing_of_def is_tombstoned_def Let_def split: option.splits if_splits)
  note st' = this
  show "newest_handle s sid h" if "st = Current"
    using that st' lok
    by (fastforce simp: newest_handle_def standing_in_lineage_def lineage_of_def lineage_ok_def new_lineage_def
        split: option.splits if_splits)
  assume "st = Superseded (Some n)"
  then obtain l g where l: "pr_lineages s sid = Some l" "newest_alive (pr_alive s) l = Some (n, g)"
    using st' by (auto simp: standing_in_lineage_def split: option.splits if_splits)
  then have "(n, g) \<in> set (li_members l)" "lineage_of s sid = l"
    using newest_alive_member by (auto simp: lineage_of_def)
  then have "generation_of (lineage_of s sid) n = Some g"
    using lok by (simp add: lineage_ok_def generation_of_Some)
  then show "newest_handle s sid n"
    using newest_alive_max [OF l(2)] \<open>lineage_of s sid = l\<close> by (auto simp: newest_handle_def)
qed

section \<open>Coalescing\<close>

text \<open>The rows that survive a sequence of requests: not removed by their own request or a later one.\<close>

fun kept_updates :: "pending list \<Rightarrow> context_update list" where
  "kept_updates [] = []"
| "kept_updates (w # ws) =
     filter (\<lambda>u. \<forall>v \<in> set (w # ws). cu_id u \<notin> set (pe_removed v)) (pe_updates w) @ kept_updates ws"

lemma merge_fields:
  "pe_updates (merge_pending w p) = filter (\<lambda>u. cu_id u \<notin> set (pe_removed w)) (pe_updates p @ pe_updates w)"
  "pe_removed (merge_pending w p) = pe_removed p @ pe_removed w"
  "pe_waiters (merge_pending w p) = pe_waiters p @ pe_waiters w"
  "pe_source (merge_pending w p) = (case pe_source w of None \<Rightarrow> pe_source p | Some h \<Rightarrow> Some h)"
  by (auto simp: merge_pending_def Let_def split: option.split)

lemma merge_all:
  "pe_updates (fold merge_pending ws p) =
     filter (\<lambda>u. \<forall>v \<in> set ws. cu_id u \<notin> set (pe_removed v)) (pe_updates p) @ kept_updates ws"
  "pe_removed (fold merge_pending ws p) = pe_removed p @ concat (map pe_removed ws)"
  "pe_waiters (fold merge_pending ws p) = pe_waiters p @ concat (map pe_waiters ws)"
  by (induction ws arbitrary: p) (auto simp: merge_fields conj_commute intro!: filter_cong)

lemma merge_source_last:
  "pe_source (fold merge_pending ws p) =
     (case List.map_filter pe_source ws of [] \<Rightarrow> pe_source p | hs \<Rightarrow> Some (last hs))"
  by (induction ws arbitrary: p)
    (auto simp: merge_fields List.map_filter_simps split: option.split list.split)

lemma queue_fold:
  assumes "pr_slots s sid = Some k"
  shows "fold (queue_work sid) ws s = upd_slot k (sl_pending_update (fold merge_pending ws)) s"
  using assms
proof (induction ws arbitrary: s)
  case (Cons w ws)
  have e: "queue_work sid w s = upd_slot k (sl_pending_update (merge_pending w)) s"
    using Cons.prems by (simp add: queue_work_def)
  then have "pr_slots (queue_work sid w s) sid = Some k" using Cons.prems by simp
  from Cons.IH [OF this] show ?case by (simp add: e comp_def cong: if_cong)
next
  case Nil
  have "sl_pending_update (\<lambda>a. a) x = x" for x :: "'a slot" by (rule slot.equality) simp_all
  then show ?case by (intro persister.equality) (simp_all add: fun_eq_iff id_def)
qed

section \<open>Runs\<close>

text \<open>Compositions of steps: a request up to its slot, and one undisturbed round of a writer.\<close>

definition open_handle :: "'s \<Rightarrow> 's persister \<Rightarrow> 's persister" where
  "open_handle x s =
     s\<lparr>pr_alive := insert (pr_next_handle s) (pr_alive s), pr_content := (pr_content s)(pr_next_handle s := x),
       pr_next_handle := pr_next_handle s + 1\<rparr>"

definition submit ::
  "uuid \<Rightarrow> handle \<Rightarrow> context_update list \<Rightarrow> uuid list \<Rightarrow> waiter option \<Rightarrow> 's persister \<Rightarrow> 's persister" where
  "submit sid h us rs w s =
     (let s = enqueue sid h us rs w s
      in case pr_routed s of [] \<Rightarrow> s | (i, work) # q \<Rightarrow> queue_work i work (s\<lparr>pr_routed := q\<rparr>))"

definition writer_write :: "slot_id \<Rightarrow> outcome \<Rightarrow> 's persister \<Rightarrow> 's persister" where
  "writer_write k r s =
     (case sl_writer (pr_heap s k) of
        Judged h b \<Rightarrow> writer_finish k h b r (writer_load k h b s) | _ \<Rightarrow> s)"

definition writer_report :: "slot_id \<Rightarrow> 's persister \<Rightarrow> 's persister" where
  "writer_report k s =
     (case sl_writer (pr_heap s k) of Telling r ws \<Rightarrow> writer_tell k r ws s | _ \<Rightarrow> s)"

definition writer_leave :: "slot_id \<Rightarrow> 's persister \<Rightarrow> 's persister" where
  "writer_leave k s =
     (let s = writer_unregister k s
      in if sl_writer (pr_heap s k) = Ended then s else writer_loop k s)"

definition writer_batch :: "slot_id \<Rightarrow> 's persister \<Rightarrow> 's persister" where
  "writer_batch k s = (case sl_writer (pr_heap s k) of Has_Batch b reg \<Rightarrow> writer_judge k b reg s | _ \<Rightarrow> s)"

definition writer_round :: "slot_id \<Rightarrow> outcome \<Rightarrow> 's persister \<Rightarrow> 's persister" where
  "writer_round k r s = writer_leave k (writer_report k (writer_write k r (writer_batch k (writer_take k s))))"

lemma run_open: "persist_step\<^sup>*\<^sup>* s (open_handle x s)"
  using step_open [of s x] by (simp add: open_handle_def r_into_rtranclp)

lemma run_submit:
  assumes "h \<in> pr_alive s" shows "persist_step\<^sup>*\<^sup>* s (submit sid h us rs w s)"
proof -
  let ?s = "enqueue sid h us rs w s"
  have e: "persist_step s ?s" by (rule step_enqueue [OF assms])
  show ?thesis
  proof (cases "pr_routed ?s")
    case Nil
    then show ?thesis using e by (simp add: submit_def r_into_rtranclp)
  next
    case (Cons x q)
    obtain i work where x: "x = (i, work)" by (cases x)
    have "persist_step ?s (queue_work i work (?s\<lparr>pr_routed := take 0 (pr_routed ?s) @ drop (Suc 0) (pr_routed ?s)\<rparr>))"
      by (rule step_queue) (simp_all add: Cons x)
    then have "persist_step ?s (submit sid h us rs w s)" by (simp add: submit_def Cons x)
    then show ?thesis using e by (meson converse_rtranclp_into_rtranclp r_into_rtranclp)
  qed
qed

lemma run_batch: "k < pr_next_slot s \<Longrightarrow> persist_step\<^sup>*\<^sup>* s (writer_batch k s)"
  by (auto simp: writer_batch_def split: writer.split intro!: r_into_rtranclp step_judge)

lemma load_writer:
  "sl_writer (pr_heap (writer_load k h b s) k) = Writing h (pr_content s h) b"
  "pr_next_slot (writer_load k h b s) = pr_next_slot s"
  by (simp_all add: writer_load_def Let_def)

lemma run_write: "k < pr_next_slot s \<Longrightarrow> persist_step\<^sup>*\<^sup>* s (writer_write k r s)"
proof -
  assume k: "k < pr_next_slot s"
  have "persist_step\<^sup>*\<^sup>* s (writer_finish k h b r (writer_load k h b s))" if "sl_writer (pr_heap s k) = Judged h b" for h b
  proof (rule converse_rtranclp_into_rtranclp)
    show "persist_step s (writer_load k h b s)" by (rule step_load [OF k that])
    show "persist_step\<^sup>*\<^sup>* (writer_load k h b s) (writer_finish k h b r (writer_load k h b s))"
      by (rule r_into_rtranclp, rule step_finish) (simp_all add: load_writer k)
  qed
  then show ?thesis by (auto simp: writer_write_def split: writer.split)
qed

lemma run_report: "k < pr_next_slot s \<Longrightarrow> persist_step\<^sup>*\<^sup>* s (writer_report k s)"
  by (auto simp: writer_report_def split: writer.split intro!: r_into_rtranclp step_tell)

lemma run_leave:
  assumes "k < pr_next_slot s" and "sl_writer (pr_heap s k) = Unlocked"
  shows "persist_step\<^sup>*\<^sup>* s (writer_leave k s)"
proof -
  let ?s = "writer_unregister k s"
  have u: "persist_step s ?s" by (rule step_unregister [OF assms])
  have "sl_writer (pr_heap ?s k) = Ended \<or> sl_writer (pr_heap ?s k) = Still_There" "pr_next_slot ?s = pr_next_slot s"
    by (auto simp: writer_unregister_def Let_def)
  then have "sl_writer (pr_heap ?s k) \<noteq> Ended \<Longrightarrow> persist_step ?s (writer_loop k ?s)"
    using assms(1) by (intro step_loop) auto
  then show ?thesis
    using u by (auto simp: writer_leave_def Let_def intro: converse_rtranclp_into_rtranclp)
qed

text \<open>What a round does to its own slot.\<close>

lemma round_batch:
  assumes "sl_writer (pr_heap s k) = Has_Batch b reg"
  shows "(\<exists>r. sl_writer (pr_heap (writer_batch k s) k) = Telling r (pe_waiters b)) \<or>
      (\<exists>h. sl_writer (pr_heap (writer_batch k s) k) = Judged h b)"
    and "sl_session (pr_heap (writer_batch k s) k) = sl_session (pr_heap s k)"
    and "sl_pending (pr_heap (writer_batch k s) k) = sl_pending (pr_heap s k)"
    and "pr_slots (writer_batch k s) = pr_slots s" and "pr_told (writer_batch k s) = pr_told s"
    and "pr_next_slot (writer_batch k s) = pr_next_slot s"
proof -
  have "standing_of i h s = (st, t) \<Longrightarrow> pr_heap t = pr_heap s \<and> pr_slots t = pr_slots s \<and> pr_told t = pr_told s \<and>
      pr_next_slot t = pr_next_slot s" for i h st t
    by (drule standing_of_frame) auto
  then show "(\<exists>r. sl_writer (pr_heap (writer_batch k s) k) = Telling r (pe_waiters b)) \<or>
      (\<exists>h. sl_writer (pr_heap (writer_batch k s) k) = Judged h b)"
    "sl_session (pr_heap (writer_batch k s) k) = sl_session (pr_heap s k)"
    "sl_pending (pr_heap (writer_batch k s) k) = sl_pending (pr_heap s k)"
    "pr_slots (writer_batch k s) = pr_slots s" "pr_told (writer_batch k s) = pr_told s"
    "pr_next_slot (writer_batch k s) = pr_next_slot s"
    using assms by (auto simp: writer_batch_def writer_judge_def split: option.split standing.split prod.split)
qed

lemma round_write:
  assumes "(\<exists>r. sl_writer (pr_heap s k) = Telling r ws) \<or> (\<exists>h b. sl_writer (pr_heap s k) = Judged h b \<and> pe_waiters b = ws)"
  shows "\<exists>r'. sl_writer (pr_heap (writer_write k r s) k) = Telling r' ws"
    and "sl_session (pr_heap (writer_write k r s) k) = sl_session (pr_heap s k)"
    and "sl_pending (pr_heap (writer_write k r s) k) = sl_pending (pr_heap s k)"
    and "pr_slots (writer_write k r s) = pr_slots s" and "pr_told (writer_write k r s) = pr_told s"
    and "pr_next_slot (writer_write k r s) = pr_next_slot s"
  using assms by (auto simp: writer_write_def writer_finish_def writer_load_def Let_def)

lemma writer_round_end:
  assumes ok: "slots_ok s" and k: "k < pr_next_slot s" and w: "sl_writer (pr_heap s k) = At_Lock" "sl_lock (pr_heap s k) = None"
  shows "persist_step\<^sup>*\<^sup>* s (writer_round k r s)"
    and "sl_writer (pr_heap (writer_round k r s) k) = Ended"
    and "\<exists>r'. pr_told (writer_round k r s) = pr_told s @ map (\<lambda>w. (w, r')) (pe_waiters (sl_pending (pr_heap s k)))"
proof -
  let ?b = "sl_pending (pr_heap s k)" and ?reg = "pr_slots s (sl_session (pr_heap s k)) = Some k"
  let ?s1 = "writer_take k s"
  let ?s2 = "writer_batch k ?s1"
  let ?s3 = "writer_write k r ?s2"
  let ?s4 = "writer_report k ?s3"
  have s1: "sl_writer (pr_heap ?s1 k) = Has_Batch ?b ?reg" "sl_session (pr_heap ?s1 k) = sl_session (pr_heap s k)"
    "sl_pending (pr_heap ?s1 k) = no_pending" "pr_slots ?s1 = pr_slots s" "pr_told ?s1 = pr_told s" "pr_next_slot ?s1 = pr_next_slot s"
    by (simp_all add: writer_take_def Let_def)
  note s2 = round_batch [OF s1(1)]
  have j: "(\<exists>r. sl_writer (pr_heap ?s2 k) = Telling r (pe_waiters ?b)) \<or>
      (\<exists>h b. sl_writer (pr_heap ?s2 k) = Judged h b \<and> pe_waiters b = pe_waiters ?b)"
    using s2(1) by blast
  note s3 = round_write [OF j, of r]
  obtain r' where r': "sl_writer (pr_heap ?s3 k) = Telling r' (pe_waiters ?b)" using s3(1) by blast
  have s4: "sl_writer (pr_heap ?s4 k) = Unlocked" "sl_session (pr_heap ?s4 k) = sl_session (pr_heap s k)"
    "sl_pending (pr_heap ?s4 k) = no_pending" "pr_slots ?s4 = pr_slots s" "pr_next_slot ?s4 = pr_next_slot s"
    "pr_told ?s4 = pr_told s @ map (\<lambda>w. (w, r')) (pe_waiters ?b)"
    using r' s1 s2 s3 by (simp_all add: writer_report_def writer_tell_def tell_all_def)
  have "persist_step\<^sup>*\<^sup>* s ?s1" using step_take [OF k w] by (rule r_into_rtranclp)
  also have "persist_step\<^sup>*\<^sup>* ?s1 ?s2" by (rule run_batch) (simp add: s1 k)
  also have "persist_step\<^sup>*\<^sup>* ?s2 ?s3" by (rule run_write) (simp add: s1 s2 k)
  also have "persist_step\<^sup>*\<^sup>* ?s3 ?s4" by (rule run_report) (simp add: s1 s2 s3 k)
  also have "persist_step\<^sup>*\<^sup>* ?s4 (writer_round k r s)"
    unfolding writer_round_def by (rule run_leave) (simp_all add: s4 k)
  finally show "persist_step\<^sup>*\<^sup>* s (writer_round k r s)" .
  have e: "pending_is_empty no_pending" by (simp add: pending_is_empty_def no_pending_def)
  show "sl_writer (pr_heap (writer_round k r s) k) = Ended"
    using s4 e by (simp add: writer_round_def writer_leave_def writer_unregister_def writer_loop_def Let_def)
  have "pr_told (writer_round k r s) = pr_told ?s4"
    by (simp add: writer_round_def writer_leave_def writer_unregister_def writer_loop_def Let_def)
  then show "\<exists>r'. pr_told (writer_round k r s) = pr_told s @ map (\<lambda>w. (w, r')) (pe_waiters ?b)"
    using s4(6) by auto
qed

end
