(* ===== verification/Persister_Claims.thy ===== *)
theory Persister_Claims
  imports Persister_Props
begin

text \<open>
  What the persister promises: no write of a deleted session after its deletion, one writer at
  a time, only the newest handle written, requests coalesced, every drained slot ends with
  its waiters told. The runs at the end are interleavings in which it does not do what it
  means to.
\<close>

section \<open>Concrete runs\<close>

text \<open>
  Session 5, handle 0: a first write is taken by its writer, and a second request with one row
  queues up behind it.
\<close>

definition first_request :: "'s \<Rightarrow> 's persister" where
  "first_request x = submit 5 0 [] [] (Some 7) (register 5 0 (open_handle x (new_persister x)))"

definition queued_behind_write :: "context_update \<Rightarrow> 's \<Rightarrow> 's persister" where
  "queued_behind_write u x = submit 5 0 [u] [] None (writer_take 0 (first_request x))"

text \<open>The session is deleted and, while the deletion waits, created again and saved.\<close>

definition recreated_meanwhile :: "'s \<Rightarrow> 's persister \<Rightarrow> 's persister" where
  "recreated_meanwhile x s =
     submit 5 1 [] [] None (register 5 1 (open_handle x (delete_find 0 5 {0} (delete_mark 5 None s))))"

definition delete_finished :: "'s persister \<Rightarrow> 's persister" where
  "delete_finished s =
     delete_leftover 0 5 0 (delete_store 0 5 {0} 0 (delete_lock 0 5 {0} 0 (writer_report 0 s)))"

definition written_next :: "'s persister \<Rightarrow> 's persister" where
  "written_next s = writer_write 1 (Ok ()) (writer_batch 1 (writer_take 1 s))"

lemmas run_defs = open_handle_def register_def submit_def enqueue_def standing_of_def is_tombstoned_def
  standing_in_lineage_def queue_work_def writer_take_def new_persister_def new_lineage_def prune_def new_slot_def
  no_pending_def merge_pending_def generation_of_def newest_alive_def Let_def delete_mark_def mark_lineage_def
  delete_find_def delete_lock_def delete_store_def delete_leftover_def leftover_work_def unregister_slot_def
  is_deleted_def tell_all_def writer_batch_def writer_judge_def writer_write_def writer_load_def writer_finish_def
  writer_report_def writer_tell_def retired_def delete_unlocked_def
  first_request_def queued_behind_write_def recreated_meanwhile_def delete_finished_def written_next_def

lemma reach_registered: "persist_reach (register 5 0 (open_handle x (new_persister x)))"
  by (rule reach_more [OF reach_steps [OF run_open reach_start] step_register]) (simp_all add: run_defs fresh_for_def)

lemma reach_first: "persist_reach (first_request x)"
  unfolding first_request_def
  by (rule reach_steps [OF run_submit reach_registered]) (simp add: run_defs)

lemma reach_taken: "persist_reach (writer_take 0 (first_request x))"
  by (rule reach_more [OF reach_first step_take]) (simp_all add: run_defs)

lemma reach_queued: "persist_reach (queued_behind_write u x)"
  unfolding queued_behind_write_def
  by (rule reach_steps [OF run_submit reach_taken]) (simp add: run_defs)

lemma reach_marked:
  assumes "persist_reach s" and "pr_deletes s = []" and "pr_lineages s 5 = Some \<lparr>li_members = [(0, 0)], li_next = 1, li_deleted_below = 0\<rparr>"
    and "pr_alive s = {0}" and "pr_tombstones s 5 = None" and "pr_next_handle s = 1"
  shows "persist_reach (delete_find 0 5 {0} (delete_mark 5 None s))"
    and "persist_reach (recreated_meanwhile x s)"
proof -
  let ?s1 = "delete_mark 5 None s"
  let ?s2 = "delete_find 0 5 {0} ?s1"
  have "persist_reach ?s1" by (rule reach_more [OF assms(1) step_mark]) simp
  moreover have "pr_deletes ?s1 = [Del_Marked 5 {0}]"
    using assms by (auto simp: delete_mark_def mark_lineage_def retired_def generation_of_def prune_def Let_def)
  ultimately show s2: "persist_reach ?s2" by (intro reach_more [OF _ step_find]) simp_all
  have "fresh_for 5 1 (open_handle x ?s2)"
    using assms by (simp add: fresh_for_def open_handle_def delete_find_def delete_mark_def mark_lineage_def prune_def Let_def)
  moreover have "1 \<in> pr_alive (open_handle x ?s2)"
    using assms by (simp add: open_handle_def delete_find_def delete_mark_def mark_lineage_def Let_def)
  ultimately have "persist_reach (register 5 1 (open_handle x ?s2))"
    by (intro reach_more [OF reach_steps [OF run_open s2] step_register])
  moreover have "1 \<in> pr_alive (register 5 1 (open_handle x ?s2))"
    using \<open>1 \<in> pr_alive _\<close> by (simp add: register_def Let_def)
  ultimately show "persist_reach (recreated_meanwhile x s)"
    unfolding recreated_meanwhile_def by (intro reach_steps [OF run_submit])
qed

lemma reach_finished:
  assumes r: "persist_reach s" and k: "pr_next_slot s = 1" "sl_session (pr_heap s 0) = 5"
    and w: "sl_writer (pr_heap s 0) = Telling q ws" and d: "pr_deletes s = [Del_Found 5 {0} (Some 0)]"
  shows "persist_reach (delete_finished s)"
proof -
  let ?s1 = "writer_report 0 s"
  let ?s2 = "delete_lock 0 5 {0} 0 ?s1"
  let ?s3 = "delete_store 0 5 {0} 0 ?s2"
  have "persist_reach ?s1" by (rule reach_steps [OF run_report r]) (simp add: k)
  moreover have s1: "pr_deletes ?s1 = [Del_Found 5 {0} (Some 0)]" "sl_lock (pr_heap ?s1 0) = None"
    using w d by (simp_all add: writer_report_def writer_tell_def tell_all_def)
  ultimately have "persist_reach ?s2" by (intro reach_more [OF _ step_lock]) simp_all
  moreover have s2: "pr_deletes ?s2 = [Del_Locked 5 {0} 0]" by (simp add: delete_lock_def s1)
  ultimately have "persist_reach ?s3" by (intro reach_more [OF _ step_store]) simp_all
  moreover have "pr_deletes ?s3 = [Del_Stored 5 0]" by (simp add: delete_store_def s2)
  ultimately show ?thesis unfolding delete_finished_def by (intro reach_more [OF _ step_leftover]) simp_all
qed

text \<open>The deletion wins: the queued row of the old session is written for the new one.\<close>

definition rows_reappear :: "context_update \<Rightarrow> 's \<Rightarrow> 's persister" where
  "rows_reappear u x =
     written_next (delete_finished (writer_batch 0 (recreated_meanwhile x (queued_behind_write u x))))"

lemma reach_rows_reappear: "persist_reach (rows_reappear u x)"
proof -
  let ?q = "recreated_meanwhile x (queued_behind_write u x)"
  have q: "persist_reach ?q" by (rule reach_marked(2) [OF reach_queued]) (simp_all add: run_defs)
  have b: "persist_reach (writer_batch 0 ?q)" by (rule reach_steps [OF run_batch q]) (simp add: run_defs)
  have f: "persist_reach (delete_finished (writer_batch 0 ?q))"
    by (rule reach_finished [OF b, where q = "Err session_deleted" and ws = "[7]"]) (simp_all add: run_defs)
  have "persist_reach (writer_take 1 (delete_finished (writer_batch 0 ?q)))"
    by (rule reach_more [OF f step_take]) (simp_all add: run_defs)
  then have "persist_reach (writer_batch 1 (writer_take 1 (delete_finished (writer_batch 0 ?q))))"
    by (rule reach_steps [OF run_batch, rotated]) (simp add: run_defs)
  then show ?thesis
    unfolding rows_reappear_def written_next_def
    by (rule reach_steps [OF run_write, rotated]) (simp add: run_defs)
qed

lemma rows_reappear_calls: "pr_calls (rows_reappear u x) = [Sink_Delete 5 {0}, Sink_Write 5 1 x [u] []]"
  by (simp add: rows_reappear_def run_defs)

text \<open>The write was under way when the deletion started, and fails.\<close>

definition failed_stays :: "'s \<Rightarrow> 's persister" where
  "failed_stays x =
     delete_finished (writer_finish 0 0 \<lparr>pe_source = Some 0, pe_updates = [], pe_removed = [], pe_waiters = [7]\<rparr> (Err ''disk'')
       (delete_find 0 5 {0} (delete_mark 5 None
         (writer_load 0 0 \<lparr>pe_source = Some 0, pe_updates = [], pe_removed = [], pe_waiters = [7]\<rparr>
           (writer_batch 0 (writer_take 0 (first_request x)))))))"

lemma reach_failed_stays: "persist_reach (failed_stays x)"
proof -
  let ?b = "\<lparr>pe_source = Some 0, pe_updates = [], pe_removed = [], pe_waiters = [7 :: waiter]\<rparr>"
  let ?s = "writer_batch 0 (writer_take 0 (first_request x))"
  have s: "persist_reach ?s" by (rule reach_steps [OF run_batch reach_taken]) (simp add: run_defs)
  have l: "persist_reach (writer_load 0 0 ?b ?s)"
    by (rule reach_more [OF s step_load]) (simp_all add: run_defs)
  have m: "persist_reach (delete_find 0 5 {0} (delete_mark 5 None (writer_load 0 0 ?b ?s)))"
    by (rule reach_marked(1) [OF l]) (simp_all add: run_defs)
  have "persist_reach (writer_finish 0 0 ?b (Err ''disk'') (delete_find 0 5 {0} (delete_mark 5 None (writer_load 0 0 ?b ?s))))"
    by (rule reach_more [OF m step_finish [where x = x]]) (simp_all add: run_defs)
  then show ?thesis
    unfolding failed_stays_def
    by (rule reach_finished [where q = "Err ''disk''" and ws = "[7]"]) (simp_all add: run_defs)
qed

text \<open>
  The deletion finds no slot; before it reaches storage the session is created again, saved,
  and its waiter told.
\<close>

definition saved_then_erased :: "context_update \<Rightarrow> 's \<Rightarrow> 's persister" where
  "saved_then_erased u x =
     delete_unlocked 0 5 {0} (writer_report 0 (writer_write 0 (Ok ()) (writer_batch 0 (writer_take 0
       (submit 5 1 [u] [] (Some 8) (register 5 1 (open_handle x
         (delete_find 0 5 {0} (delete_mark 5 None (register 5 0 (open_handle x (new_persister x))))))))))))"

lemma reach_saved_then_erased: "persist_reach (saved_then_erased u x)"
proof -
  let ?s0 = "delete_find 0 5 {0} (delete_mark 5 None (register 5 0 (open_handle x (new_persister x))))"
  let ?s1 = "register 5 1 (open_handle x ?s0)"
  let ?s2 = "submit 5 1 [u] [] (Some 8) ?s1"
  let ?s3 = "writer_take 0 ?s2"
  let ?s4 = "writer_write 0 (Ok ()) (writer_batch 0 ?s3)"
  have s0: "persist_reach ?s0" by (rule reach_marked(1) [OF reach_registered]) (simp_all add: run_defs)
  have s1: "persist_reach ?s1"
    by (rule reach_more [OF reach_steps [OF run_open s0] step_register]) (simp_all add: run_defs fresh_for_def)
  have s2: "persist_reach ?s2" by (rule reach_steps [OF run_submit s1]) (simp add: run_defs)
  have s3: "persist_reach ?s3" by (rule reach_more [OF s2 step_take]) (simp_all add: run_defs)
  have b: "persist_reach (writer_batch 0 ?s3)" by (rule reach_steps [OF run_batch s3]) (simp add: run_defs)
  have s4: "persist_reach ?s4" by (rule reach_steps [OF run_write b]) (simp add: run_defs)
  have s5: "persist_reach (writer_report 0 ?s4)" by (rule reach_steps [OF run_report s4]) (simp add: run_defs)
  then have "persist_reach (delete_unlocked 0 5 {0} (writer_report 0 ?s4))"
    by (rule reach_more [OF _ step_unlocked]) (simp_all add: run_defs)
  then show ?thesis by (simp add: saved_then_erased_def)
qed

section \<open>Properties\<close>

text \<open>
  C2: a deleted session is not written back. In the calls made to storage, no write through a
  handle that a deletion retired follows that deletion, whatever the tasks that write, load,
  register and delete the session do in between.
\<close>

theorem no_write_after_delete:
  assumes "persist_reach s" and "i < j" and "j < length (pr_calls s)"
    and "pr_calls s ! i = Sink_Delete sid R" and "pr_calls s ! j = Sink_Write sid h x us rs"
  shows "h \<notin> R"
proof -
  have "calls_in_order (pr_calls s)"
    using persister_ok_reach [OF assms(1)] by (simp add: persister_ok_def safe_def)
  then show ?thesis
    using sorted_wrt_nth_less [OF _ assms(2,3)] assms(4,5) unfolding calls_in_order_def by blast
qed

theorem no_write_after_delete_witness:
  "\<exists>R h. pr_calls (rows_reappear (demo_record 3 9 ''t'' [] demo_meta) (0 :: nat)) =
     [Sink_Delete 5 R, Sink_Write 5 h 0 [demo_record 3 9 ''t'' [] demo_meta] []] \<and> h \<notin> R"
proof (intro exI conjI)
  let ?u = "demo_record 3 9 ''t'' [] demo_meta"
  show c: "pr_calls (rows_reappear ?u (0 :: nat)) = [Sink_Delete 5 {0}, Sink_Write 5 1 0 [?u] []]"
    by (rule rows_reappear_calls)
  show "1 \<notin> {0 :: handle}"
    by (rule no_write_after_delete [OF reach_rows_reappear [of ?u "0 :: nat"], of 0 1 5 "{0}" 1 0 "[?u]" "[]"]) (simp_all add: c)
qed

text \<open>
  C18: a deletion retires every handle the session has: the live one it is given and every one
  registered before that is still held. From then on each of them stands as deleted, whatever
  happens later.
\<close>

theorem delete_retires_handles:
  assumes "persist_reach s" and "set_option live \<subseteq> pr_alive s"
    and "h \<in> pr_alive s" and "live = Some h \<or> generation_of (lineage_of s sid) h \<noteq> None"
    and "persist_step\<^sup>*\<^sup>* (delete_mark sid live s) s'" and "h \<in> pr_alive s'"
  shows "fst (standing_of sid h s') = Deleted"
proof -
  let ?s1 = "delete_mark sid live s"
  have r1: "persist_reach ?s1" by (rule reach_more [OF assms(1) step_mark [OF assms(2)]])
  have ok: "registry_ok s" using persister_ok_reach [OF assms(1)] by (simp add: persister_ok_def)
  have lok: "lineage_ok (lineage_of s sid) (tombs_of s sid)" using ok by (simp add: registry_ok_def)
  have a1: "pr_alive ?s1 = pr_alive s" "pr_next_handle ?s1 = pr_next_handle s"
    by (simp_all add: delete_mark_def mark_lineage_def tombstone_def Let_def split: option.split)
  have h1: "h \<in> retired sid ?s1"
  proof (cases "live = Some h")
    case True
    then show ?thesis
      by (simp add: retired_eq delete_mark_def mark_lineage_def tombstone_def Let_def tombs_of_def)
  next
    case False
    then obtain g where g: "generation_of (lineage_of s sid) h = Some g" using assms(4) by blast
    then have "g < li_next (lineage_of s sid)"
      using lok by (auto simp: lineage_ok_def generation_of_Some)
    moreover have "lineage_of ?s1 sid =
        (prune (pr_alive s) (lineage_of s sid))\<lparr>li_deleted_below := li_next (lineage_of s sid)\<rparr>"
      by (simp add: delete_mark_def mark_lineage_def tombstone_def Let_def lineage_of_def prune_def split: option.split)
    ultimately show ?thesis
      using g generation_of_prune [OF assms(3), of "lineage_of s sid"] by (auto simp: retired_eq generation_of_map)
  qed
  have below: "h < pr_next_handle s" using ok assms(3) by (auto simp: registry_ok_def)
  have "registry_ok t \<and> h < pr_next_handle t \<and> (h \<in> pr_alive t \<longrightarrow> h \<in> retired sid t)"
    if "persist_step\<^sup>*\<^sup>* ?s1 t" for t
    using that
  proof (induction rule: rtranclp_induct)
    case base
    then show ?case using persister_ok_reach [OF r1] h1 a1 below by (simp add: persister_ok_def)
  next
    case (step t u)
    then have "keeps_retired t u" "registry_ok u" using registry_step by blast+
    then show ?case using step.IH by (auto simp: keeps_retired_def)
  qed
  from this [OF assms(5)] have s': "registry_ok s'" "h \<in> retired sid s'" using assms(6) by simp_all
  obtain st t where st: "standing_of sid h s' = (st, t)" by fastforce
  have st': "st = (if h \<in> tombs_of s' sid then Deleted else standing_in_lineage (pr_alive s') (pr_lineages s' sid) h)"
    using st assms(6) by (auto simp: standing_of_def is_tombstoned_def tombs_of_def Let_def split: option.splits if_splits)
  then have "st = Deleted"
    using s'(2) by (auto simp: retired_eq standing_in_lineage_def lineage_of_def split: option.splits)
  then show ?thesis by (simp add: st)
qed

theorem delete_retires_handles_witness:
  "fst (standing_of 5 0 (delete_mark 5 None (register 5 0 (open_handle (0 :: nat) (new_persister 0))))) = Deleted"
proof (rule delete_retires_handles [OF reach_registered [of "0 :: nat"], where live = None])
  show "persist_step\<^sup>*\<^sup>* (delete_mark 5 None (register 5 0 (open_handle (0 :: nat) (new_persister 0))))
     (delete_mark 5 None (register 5 0 (open_handle 0 (new_persister 0))))" by (rule rtranclp.rtrancl_refl)
qed (simp_all add: run_defs lineage_of_def)

text \<open>
  C7: one writer at a time. Two slots of one session are never both about to write, a slot
  that is about to write is the registered one and holds its lock, and a slot with queued
  work always has a writer that has not ended.
\<close>

theorem one_writer:
  assumes "persist_reach s" and "k < pr_next_slot s"
  shows "(writer_target (sl_writer (pr_heap s k)) \<noteq> None \<longrightarrow>
      pr_slots s (sl_session (pr_heap s k)) = Some k \<and> sl_lock (pr_heap s k) = Some By_Writer \<and>
      (\<forall>j < pr_next_slot s. sl_session (pr_heap s j) = sl_session (pr_heap s k) \<and>
         writer_target (sl_writer (pr_heap s j)) \<noteq> None \<longrightarrow> j = k)) \<and>
    (\<not> pending_is_empty (sl_pending (pr_heap s k)) \<longrightarrow> sl_writer (pr_heap s k) \<noteq> Ended)"
proof -
  have ok: "slots_ok s" using persister_ok_reach [OF assms(1)] by (simp add: persister_ok_def)
  have active: "pr_slots s (sl_session (pr_heap s j)) = Some j \<and> sl_lock (pr_heap s j) = Some By_Writer"
    if "j < pr_next_slot s" "writer_target (sl_writer (pr_heap s j)) \<noteq> None" for j
    using slots_okD(3) [OF ok that(1)] that(2) by (cases "sl_writer (pr_heap s j)") (auto simp: slot_ok_def)
  then show ?thesis
    using slots_okD(3) [OF ok assms(2)] assms(2) by (auto simp: slot_ok_def) (metis option.inject)+
qed

theorem one_writer_witness:
  "sl_lock (pr_heap (writer_batch 0 (writer_take 0 (first_request (0 :: nat)))) 0) = Some By_Writer"
proof -
  let ?s = "writer_batch 0 (writer_take 0 (first_request (0 :: nat)))"
  have "persist_reach ?s" by (rule reach_steps [OF run_batch reach_taken]) (simp add: run_defs)
  moreover have "0 < pr_next_slot ?s" "writer_target (sl_writer (pr_heap ?s 0)) = Some 0" by (simp_all add: run_defs)
  ultimately show ?thesis using one_writer [of ?s 0] by simp
qed

text \<open>
  Only the newest handle of a session is written: when the writer settles on a handle, no
  newer registered handle of the session is alive, and no deletion has retired it.
\<close>

theorem writes_newest_handle:
  assumes "persist_reach s" and "k < pr_next_slot s" and "sl_writer (pr_heap s k) = Has_Batch b r"
    and "sl_writer (pr_heap (writer_judge k b r s) k) = Judged h b"
  shows "newest_handle s (sl_session (pr_heap s k)) h \<and> h \<in> pr_alive s \<and> h \<notin> retired (sl_session (pr_heap s k)) s"
proof -
  let ?sid = "sl_session (pr_heap s k)"
  have ok: "registry_ok s" "held_handles s \<subseteq> pr_alive s"
    using persister_ok_reach [OF assms(1)] by (simp_all add: persister_ok_def)
  have lok: "lineage_ok (lineage_of s ?sid) (tombs_of s ?sid)" using ok by (simp add: registry_ok_def)
  obtain y where y: "pe_source b = Some y" "r"
    using assms(4) by (auto simp: writer_judge_def split: option.splits if_splits)
  have alive: "y \<in> pr_alive s"
    using heldD(2) [OF ok(2) assms(2)] assms(3) y(1) by (simp add: slot_handles_def writer_handles_def)
  obtain st s' where st: "standing_of ?sid y s = (st, s')" by fastforce
  have f: "pr_heap s' = pr_heap s" using standing_of_frame [OF st] by auto
  have "st = Current \<and> h = y \<or> st = Superseded (Some h)"
    using assms(4) y st f by (auto simp: writer_judge_def split: standing.splits option.splits)
  then show ?thesis
    using standing_not_retired [OF st lok alive] standing_newest [OF st ok(1)] alive by blast
qed

theorem writes_newest_handle_witness:
  "newest_handle (writer_take 0 (first_request (0 :: nat))) 5 0"
proof -
  let ?s = "writer_take 0 (first_request (0 :: nat))"
  let ?b = "\<lparr>pe_source = Some 0, pe_updates = [], pe_removed = [], pe_waiters = [7]\<rparr>"
  have "newest_handle ?s (sl_session (pr_heap ?s 0)) 0 \<and> 0 \<in> pr_alive ?s \<and> 0 \<notin> retired (sl_session (pr_heap ?s 0)) ?s"
    by (rule writes_newest_handle [OF reach_taken, where k = 0 and b = ?b and r = True and h = 0]) (simp_all add: run_defs)
  moreover have "sl_session (pr_heap ?s 0) = 5" by (simp add: run_defs)
  ultimately show ?thesis by simp
qed

text \<open>
  However many requests queue up in a slot, the writer takes them as one batch: it carries
  the newest source, every row that its own or a later request did not remove, every removal
  and every waiter, in order; nothing stays behind.
\<close>

theorem requests_coalesce:
  assumes "pr_slots s sid = Some k" and "sl_session (pr_heap s k) = sid" and "sl_pending (pr_heap s k) = no_pending"
  shows "\<exists>b. sl_writer (pr_heap (writer_take k (fold (queue_work sid) ws s)) k) = Has_Batch b True \<and>
    sl_pending (pr_heap (writer_take k (fold (queue_work sid) ws s)) k) = no_pending \<and>
    pe_updates b = kept_updates ws \<and> pe_removed b = concat (map pe_removed ws) \<and>
    pe_waiters b = concat (map pe_waiters ws) \<and>
    pe_source b = (case List.map_filter pe_source ws of [] \<Rightarrow> None | hs \<Rightarrow> Some (last hs))"
proof -
  have none: "pe_source no_pending = None" "pe_updates no_pending = []" "pe_removed no_pending = []" "pe_waiters no_pending = []"
    by (simp_all add: no_pending_def)
  show ?thesis
    using assms by (simp add: queue_fold writer_take_def Let_def merge_all merge_source_last none split: list.split)
qed

theorem requests_coalesce_witness:
  "\<exists>b. sl_writer (pr_heap (writer_take 0 (fold (queue_work 5)
      [\<lparr>pe_source = Some 0, pe_updates = [demo_record 3 9 ''t'' [] demo_meta], pe_removed = [], pe_waiters = [8]\<rparr>,
       \<lparr>pe_source = Some 0, pe_updates = [], pe_removed = [3], pe_waiters = []\<rparr>]
      (writer_take 0 (first_request (0 :: nat))))) 0) = Has_Batch b True \<and>
    pe_updates b = [] \<and> pe_removed b = [3] \<and> pe_waiters b = [8]"
proof -
  let ?s = "writer_take 0 (first_request (0 :: nat))"
  have "pr_slots ?s 5 = Some 0" "sl_session (pr_heap ?s 0) = 5" "sl_pending (pr_heap ?s 0) = no_pending"
    by (simp_all add: run_defs)
  from requests_coalesce [OF this, of "[\<lparr>pe_source = Some 0, pe_updates = [demo_record 3 9 ''t'' [] demo_meta], pe_removed = [], pe_waiters = [8]\<rparr>,
       \<lparr>pe_source = Some 0, pe_updates = [], pe_removed = [3], pe_waiters = []\<rparr>]"]
  show ?thesis by (elim exE conjE) (simp add: demo_record_def)
qed



text \<open>
  A row of a deleted session can come back. A request of the old session is queued when
  the deletion starts; the session is created again under its id and saved before the deletion
  gets the lock. The deletion then judges the merged request by its newest source and queues
  it again whole: after deleting the session it writes the old row u, which only the deleted
  handle ever handed in.
\<close>

theorem deleted_rows_reappear:
  "persist_reach (rows_reappear u x) \<and>
   pr_calls (rows_reappear u x) = [Sink_Delete 5 {0}, Sink_Write 5 1 x [u] []]"
  by (rule conjI [OF reach_rows_reappear rows_reappear_calls])

text \<open>
  A write that fails while the deletion waits for it leaves the deleted session marked as
  failed: the id counts as unflushed although nothing is queued and every deletion is done.
\<close>

lemma failed_mark_outlives_delete:
  "persist_reach (failed_stays x) \<and> pr_deletes (failed_stays x) = [Del_Done] \<and>
   pr_slots (failed_stays x) 5 = None \<and> fst (standing_of 5 0 (failed_stays x)) = Deleted \<and>
   has_unflushed 5 (failed_stays x)"
proof (intro conjI reach_failed_stays)
  show "pr_deletes (failed_stays x) = [Del_Done]" "pr_slots (failed_stays x) 5 = None"
    by (simp_all add: failed_stays_def run_defs)
  have "pr_tombstones (failed_stays x) 5 = None"
    "pr_lineages (failed_stays x) 5 = Some \<lparr>li_members = [(0, 0)], li_next = 1, li_deleted_below = 1\<rparr>"
    by (simp_all add: failed_stays_def run_defs)
  then show "fst (standing_of 5 0 (failed_stays x)) = Deleted"
    by (simp add: standing_of_def is_tombstoned_def standing_in_lineage_def generation_of_def)
  have "pr_failed (failed_stays x) 5 = Some 0" by (simp add: failed_stays_def run_defs)
  then show "has_unflushed 5 (failed_stays x)" by (simp add: has_unflushed_def)
qed

text \<open>
  A deletion that found no slot runs without any lock: the session created again meanwhile is
  saved, its waiter is told so, and then the deletion erases it.
\<close>

lemma unlocked_delete_erases_saved:
  "persist_reach (saved_then_erased u x) \<and> pr_told (saved_then_erased u x) = [(8, Ok ())] \<and>
   pr_calls (saved_then_erased u x) = [Sink_Write 5 1 x [u] [], Sink_Delete 5 {0}]"
proof (intro conjI reach_saved_then_erased)
  show "pr_told (saved_then_erased u x) = [(8, Ok ())]" by (simp add: saved_then_erased_def run_defs)
  show "pr_calls (saved_then_erased u x) = [Sink_Write 5 1 x [u] [], Sink_Delete 5 {0}]"
    by (simp add: saved_then_erased_def run_defs)
qed

end
