(* ===== verification/Session_Context.thy ===== *)
theory Session_Context
  imports Context_Update
begin

text \<open>
  The parts of a session: the structured context of
  \<open>post-cortex-core/src/core/structured_context.rs\<close> and the hot tier of
  \<open>post-cortex-core/src/session/session_components.rs\<close>. The \<open>DashMap\<close> of the hot tier is kept
  sorted by its numbers; where the code iterates over it and the order matters, the order is an
  argument. \<open>u64\<close> counters are unbounded.
\<close>

section \<open>Structured context\<close>

datatype question_status = Open_Question | In_Progress | Answered | Deferred

record decision_item =
  di_description :: string
  di_context :: string
  di_alternatives :: "string list"
  di_confidence :: f32
  di_timestamp :: datetime

record question_item =
  qi_question :: string
  qi_context :: string
  qi_status :: question_status
  qi_timestamp :: datetime
  qi_last_updated :: datetime

record concept_item =
  ci_name :: string
  ci_definition :: string
  ci_examples :: "string list"
  ci_related_concepts :: "string list"
  ci_timestamp :: datetime

record spec_item =
  si_title :: string
  si_description :: string
  si_requirements :: "string list"
  si_constraints :: "string list"
  si_timestamp :: datetime

record flow_item =
  fi_step_description :: string
  fi_timestamp :: datetime
  fi_related_updates :: "uuid list"
  fi_outcome :: "string option"

record structured_context =
  sc_key_decisions :: "decision_item list"
  sc_open_questions :: "question_item list"
  sc_key_concepts :: "concept_item list"
  sc_technical_specifications :: "spec_item list"
  sc_conversation_flow :: "flow_item list"

definition new_context :: structured_context where
  "new_context =
     \<lparr>sc_key_decisions = [], sc_open_questions = [], sc_key_concepts = [],
      sc_technical_specifications = [], sc_conversation_flow = []\<rparr>"

definition clamp :: "f32 \<Rightarrow> f32 \<Rightarrow> f32 \<Rightarrow> f32" where
  "clamp lo hi x = (if x < lo then lo else if hi < x then hi else x)"

definition new_decision :: "string \<Rightarrow> string \<Rightarrow> string list \<Rightarrow> f32 \<Rightarrow> datetime \<Rightarrow> decision_item" where
  "new_decision d c alts conf t =
     \<lparr>di_description = d, di_context = c, di_alternatives = alts, di_confidence = clamp 0 1 conf, di_timestamp = t\<rparr>"

definition max_flow_items :: nat where "max_flow_items = 500"

definition add_flow_item :: "flow_item \<Rightarrow> structured_context \<Rightarrow> structured_context" where
  "add_flow_item i sc =
     (let sc = (if length (sc_conversation_flow sc) \<ge> max_flow_items
                then sc\<lparr>sc_conversation_flow := drop (max_flow_items div 10) (sc_conversation_flow sc)\<rparr> else sc)
      in sc\<lparr>sc_conversation_flow := sc_conversation_flow sc @ [i]\<rparr>)"

definition total_items :: "structured_context \<Rightarrow> nat" where
  "total_items sc =
     length (sc_key_decisions sc) + length (sc_open_questions sc) + length (sc_key_concepts sc) +
     length (sc_technical_specifications sc) + length (sc_conversation_flow sc)"

definition context_is_empty :: "structured_context \<Rightarrow> bool" where
  "context_is_empty sc \<longleftrightarrow> total_items sc = 0"

lemma add_flow_item_limit:
  "length (sc_conversation_flow sc) \<le> max_flow_items \<Longrightarrow>
   length (sc_conversation_flow (add_flow_item i sc)) \<le> max_flow_items"
  by (simp add: add_flow_item_def max_flow_items_def)

lemma context_is_empty_iff: "context_is_empty sc \<longleftrightarrow> sc = new_context"
  by (auto simp: context_is_empty_def total_items_def new_context_def)

section \<open>Hot tier\<close>

record hot_context =
  hc_updates :: "(nat, context_update) btree"
  hc_next_id :: nat
  hc_max_size :: nat

definition new_hot :: "nat \<Rightarrow> hot_context" where
  "new_hot n = \<lparr>hc_updates = [], hc_next_id = 0, hc_max_size = n\<rparr>"

definition hot_push :: "context_update \<Rightarrow> hot_context \<Rightarrow> hot_context" where
  "hot_push u h =
     (let i = hc_next_id h;
          ups = bt_insert i u (hc_updates h)
      in h\<lparr>hc_next_id := i + 1,
           hc_updates := (if i \<ge> hc_max_size h then bt_remove (i - hc_max_size h) ups else ups)\<rparr>)"

definition hot_range :: "hot_context \<Rightarrow> nat list" where
  "hot_range h = [hc_next_id h - hc_max_size h ..< hc_next_id h]"

definition get_recent :: "nat \<Rightarrow> hot_context \<Rightarrow> context_update list" where
  "get_recent n h =
     List.map_filter (map_of (hc_updates h))
       (rev [hc_next_id h - min n (hc_max_size h) ..< hc_next_id h])"

definition hot_snapshot :: "hot_context \<Rightarrow> context_update list" where
  "hot_snapshot h = List.map_filter (map_of (hc_updates h)) (hot_range h)"

definition hot_any :: "(context_update \<Rightarrow> bool) \<Rightarrow> hot_context \<Rightarrow> bool" where
  "hot_any p h \<longleftrightarrow> list_ex (\<lambda>(_, u). p u) (hc_updates h)"

definition hot_find :: "(context_update \<Rightarrow> bool) \<Rightarrow> hot_context \<Rightarrow> context_update option" where
  "hot_find p h =
     List.find p (List.map_filter (map_of (hc_updates h)) (hot_range h))"

definition hot_contains_id :: "uuid \<Rightarrow> hot_context \<Rightarrow> bool" where
  "hot_contains_id e h \<longleftrightarrow> hot_any (\<lambda>u. cu_id u = e) h"

definition hot_len :: "hot_context \<Rightarrow> nat" where
  "hot_len h = length (hc_updates h)"

definition hot_is_empty :: "hot_context \<Rightarrow> bool" where
  "hot_is_empty h \<longleftrightarrow> hc_updates h = []"

definition hot_clear :: "hot_context \<Rightarrow> hot_context" where
  "hot_clear h = h\<lparr>hc_updates := [], hc_next_id := 0\<rparr>"

text \<open>\<open>order\<close> is the order in which the hash map lists its keys.\<close>

definition hot_remove_by_id :: "nat list \<Rightarrow> uuid \<Rightarrow> hot_context \<Rightarrow> hot_context \<times> bool" where
  "hot_remove_by_id order e h =
     (case List.find (\<lambda>k. case map_of (hc_updates h) k of None \<Rightarrow> False | Some u \<Rightarrow> cu_id u = e) order of
        None \<Rightarrow> (h, False)
      | Some k \<Rightarrow> (h\<lparr>hc_updates := bt_remove k (hc_updates h)\<rparr>, map_of (hc_updates h) k \<noteq> None))"

definition hot_back :: "hot_context \<Rightarrow> context_update option" where
  "hot_back h = (if hc_next_id h = 0 then None else map_of (hc_updates h) (hc_next_id h - 1))"

fun hot_push_all :: "context_update list \<Rightarrow> hot_context \<Rightarrow> hot_context" where
  "hot_push_all [] h = h"
| "hot_push_all (u # us) h = hot_push_all us (hot_push u h)"

definition hot_from_updates :: "context_update list \<Rightarrow> nat \<Rightarrow> hot_context" where
  "hot_from_updates us n = hot_push_all us (new_hot n)"

section \<open>Facts about the hot tier\<close>

text \<open>The keys are distinct and lie in the window of the last \<open>max_size\<close> numbers handed out.\<close>

definition hot_ok :: "hot_context \<Rightarrow> bool" where
  "hot_ok h \<longleftrightarrow> bt_ok (hc_updates h) \<and> (\<forall>k \<in> fst ` set (hc_updates h). k \<in> set (hot_range h))"

lemma map_filter_window:
  assumes "bt_ok m" and "\<forall>k \<in> fst ` set m. a \<le> k \<and> k < b"
  shows "List.map_filter (map_of m) [a..<b] = map snd m"
  using assms
proof (induction m arbitrary: a)
  case Nil
  then show ?case by (simp add: map_filter_def)
next
  case (Cons kv m)
  obtain k v where kv: "kv = (k, v)" by fastforce
  have k: "a \<le> k" "k < b" and gt: "\<forall>j \<in> fst ` set m. k < j" and ok: "bt_ok m"
    using Cons.prems kv by (auto simp: bt_ok_def)
  have split: "[a..<b] = [a..<k] @ k # [Suc k..<b]"
    using k by (metis upt_add_eq_append upt_conv_Cons le_add_diff_inverse less_imp_le)
  have before: "List.map_filter (map_of (kv # m)) [a..<k] = []"
    using gt kv by (auto simp: map_filter_def filter_empty_conv map_of_eq_None_iff dest: map_of_SomeD)
  have after: "List.map_filter (map_of (kv # m)) [Suc k..<b] = List.map_filter (map_of m) [Suc k..<b]"
    by (rule map_filter_cong) (simp add: kv)
  have "List.map_filter (map_of m) [Suc k..<b] = map snd m"
    by (rule Cons.IH [OF ok]) (use gt Cons.prems in auto)
  then show ?case
    using before after kv by (simp only: split map_filter_app map_filter_simps) simp
qed

lemma hot_snapshot_eq: "hot_ok h \<Longrightarrow> hot_snapshot h = map snd (hc_updates h)"
  unfolding hot_snapshot_def hot_range_def by (rule map_filter_window) (auto simp: hot_ok_def hot_range_def)

lemma hot_find_eq: "hot_find p h = List.find p (hot_snapshot h)"
  by (simp add: hot_find_def hot_snapshot_def)

lemma hot_any_eq: "hot_ok h \<Longrightarrow> hot_any p h \<longleftrightarrow> (\<exists>u \<in> set (hot_snapshot h). p u)"
  by (force simp: hot_any_def hot_snapshot_eq list_ex_iff)

lemma hot_contains_id_eq: "hot_ok h \<Longrightarrow> hot_contains_id e h \<longleftrightarrow> e \<in> cu_id ` set (hot_snapshot h)"
  by (auto simp: hot_contains_id_def hot_any_eq)

lemma hot_ok_new [simp]: "hot_ok (new_hot n)"
  by (simp add: hot_ok_def new_hot_def)

lemma hot_snapshot_new [simp]: "hot_snapshot (new_hot n) = []"
  by (simp add: hot_snapshot_def hot_range_def new_hot_def map_filter_def)

lemma bt_insert_last: "\<forall>j \<in> fst ` set m. j < k \<Longrightarrow> bt_insert k v m = m @ [(k, v)]"
  by (induction m) (auto simp: less_not_sym)

lemma hot_push_updates:
  assumes "hot_ok h"
  shows "hc_updates (hot_push u h) =
    filter (\<lambda>(k, _). hc_max_size h \<le> hc_next_id h \<longrightarrow> k \<noteq> hc_next_id h - hc_max_size h) (hc_updates h @ [(hc_next_id h, u)])"
proof -
  have "bt_insert (hc_next_id h) u (hc_updates h) = hc_updates h @ [(hc_next_id h, u)]"
    by (rule bt_insert_last) (use assms in \<open>auto simp: hot_ok_def hot_range_def\<close>)
  then show ?thesis
    by (auto simp: hot_push_def bt_remove_def Let_def split_def)
qed

lemma hot_ok_push [simp]:
  assumes "hot_ok h"
  shows "hot_ok (hot_push u h)"
proof -
  have "bt_ok (hc_updates h @ [(hc_next_id h, u)])"
    using assms by (auto simp: hot_ok_def bt_ok_def hot_range_def sorted_wrt_append)
  then have "bt_ok (hc_updates (hot_push u h))"
    unfolding hot_push_updates [OF assms] by (rule bt_ok_filter)
  moreover have "\<forall>k \<in> fst ` set (hc_updates (hot_push u h)). k \<in> set (hot_range (hot_push u h))"
  proof
    fix k assume "k \<in> fst ` set (hc_updates (hot_push u h))"
    then have "(k \<in> fst ` set (hc_updates h) \<or> k = hc_next_id h) \<and>
        (hc_max_size h \<le> hc_next_id h \<longrightarrow> k \<noteq> hc_next_id h - hc_max_size h)"
      unfolding hot_push_updates [OF assms] filter_append set_append by (auto split: if_splits)
    then show "k \<in> set (hot_range (hot_push u h))"
      using assms by (fastforce simp: hot_ok_def hot_range_def hot_push_def Let_def)
  qed
  ultimately show ?thesis by (simp add: hot_ok_def)
qed

lemma hot_push_max [simp]: "hc_max_size (hot_push u h) = hc_max_size h"
  by (simp add: hot_push_def Let_def)

text \<open>A push keeps the order; it may drop old records, never the new one unless the size is 0.\<close>

lemma hot_snapshot_push:
  assumes "hot_ok h"
  obtains xs where "subseq xs (hot_snapshot h)"
    and "hot_snapshot (hot_push u h) = xs @ (if hc_max_size h = 0 then [] else [u])"
proof
  let ?keep = "filter (\<lambda>(k, _). hc_max_size h \<le> hc_next_id h \<longrightarrow> k \<noteq> hc_next_id h - hc_max_size h) (hc_updates h)"
  show "subseq (map snd ?keep) (hot_snapshot h)"
    unfolding hot_snapshot_eq [OF assms] by (intro subseq_map subseq_filter_left)
  show "hot_snapshot (hot_push u h) = map snd ?keep @ (if hc_max_size h = 0 then [] else [u])"
    by (auto simp: hot_snapshot_eq assms hot_push_updates)
qed

text \<open>Removal takes out one record with the id; with distinct ids that is every one.\<close>

lemma hot_remove:
  assumes ok: "hot_ok h" and order: "set order = fst ` set (hc_updates h)"
  shows "hot_ok (fst (hot_remove_by_id order e h))"
    and "snd (hot_remove_by_id order e h) \<longleftrightarrow> hot_contains_id e h"
    and "set (hot_snapshot (fst (hot_remove_by_id order e h))) \<subseteq> set (hot_snapshot h)"
    and "distinct (map cu_id (hot_snapshot h)) \<Longrightarrow>
      hot_snapshot (fst (hot_remove_by_id order e h)) = filter (\<lambda>u. cu_id u \<noteq> e) (hot_snapshot h)"
proof -
  let ?m = "hc_updates h"
  let ?P = "\<lambda>k. case map_of ?m k of None \<Rightarrow> False | Some u \<Rightarrow> cu_id u = e"
  have d: "distinct (map fst ?m)" using ok bt_ok_distinct by (auto simp: hot_ok_def)
  have ids: "e \<in> cu_id ` set (hot_snapshot h) \<longleftrightarrow> (\<exists>k \<in> set order. ?P k)"
  proof -
    have "?P k \<longleftrightarrow> (\<exists>u. (k, u) \<in> set ?m \<and> cu_id u = e)" for k
      by (auto simp: map_of_eq_Some_iff [OF d, symmetric] split: option.split)
    then have "(\<exists>k \<in> set order. ?P k) \<longleftrightarrow> (\<exists>k u. (k, u) \<in> set ?m \<and> cu_id u = e)"
      unfolding order by force
    moreover have "e \<in> cu_id ` set (hot_snapshot h) \<longleftrightarrow> (\<exists>k u. (k, u) \<in> set ?m \<and> cu_id u = e)"
      unfolding hot_snapshot_eq [OF ok] by force
    ultimately show ?thesis by (simp only:)
  qed
  have "hot_ok (fst (hot_remove_by_id order e h)) \<and>
    (snd (hot_remove_by_id order e h) \<longleftrightarrow> hot_contains_id e h) \<and>
    set (hot_snapshot (fst (hot_remove_by_id order e h))) \<subseteq> set (hot_snapshot h) \<and>
    (distinct (map cu_id (hot_snapshot h)) \<longrightarrow>
      hot_snapshot (fst (hot_remove_by_id order e h)) = filter (\<lambda>u. cu_id u \<noteq> e) (hot_snapshot h))"
  proof (cases "List.find ?P order")
    case None
    then have none: "e \<notin> cu_id ` set (hot_snapshot h)" using ids by (auto simp: find_None_iff)
    then have "filter (\<lambda>u. cu_id u \<noteq> e) (hot_snapshot h) = hot_snapshot h" by (auto intro: filter_True)
    then show ?thesis using None none ok by (simp add: hot_remove_by_id_def hot_contains_id_eq)
  next
    case (Some k)
    then obtain u where k: "map_of ?m k = Some u" "cu_id u = e"
      by (auto simp: find_Some_iff split: option.splits)
    then have ku: "(k, u) \<in> set ?m" by (rule_tac map_of_SomeD)
    let ?h = "h\<lparr>hc_updates := bt_remove k ?m\<rparr>"
    have h': "hot_remove_by_id order e h = (?h, True)" using Some k by (simp add: hot_remove_by_id_def)
    have ok': "hot_ok ?h" using ok by (auto simp: hot_ok_def hot_range_def bt_remove_def bt_ok_filter)
    have c: "hot_contains_id e h"
      using ku k by (force simp: hot_contains_id_eq [OF ok] hot_snapshot_eq [OF ok])
    have snap: "hot_snapshot ?h = map snd (filter (\<lambda>kv. fst kv \<noteq> k) ?m)"
      using hot_snapshot_eq [OF ok'] by (simp add: bt_remove_def)
    have "hot_snapshot ?h = filter (\<lambda>u. cu_id u \<noteq> e) (hot_snapshot h)" if dist: "distinct (map cu_id (hot_snapshot h))"
    proof -
      have "inj_on fst (set ?m)" "inj_on (cu_id \<circ> snd) (set ?m)"
        using d dist by (simp_all add: hot_snapshot_eq [OF ok] distinct_map)
      note inj = this
      have "fst kv = k \<longleftrightarrow> cu_id (snd kv) = e" if "kv \<in> set ?m" for kv
        using inj_on_eq_iff [OF inj(1) that ku] inj_on_eq_iff [OF inj(2) that ku] k(2) by simp
      then have "filter (\<lambda>kv. fst kv \<noteq> k) ?m = filter (\<lambda>kv. cu_id (snd kv) \<noteq> e) ?m"
        by (intro filter_cong) simp_all
      then show ?thesis
        unfolding snap hot_snapshot_eq [OF ok] filter_map by (simp add: o_def)
    qed
    then show ?thesis using ok' c by (auto simp: h' snap hot_snapshot_eq [OF ok])
  qed
  then show "hot_ok (fst (hot_remove_by_id order e h))"
    and "snd (hot_remove_by_id order e h) \<longleftrightarrow> hot_contains_id e h"
    and "set (hot_snapshot (fst (hot_remove_by_id order e h))) \<subseteq> set (hot_snapshot h)"
    and "distinct (map cu_id (hot_snapshot h)) \<Longrightarrow>
      hot_snapshot (fst (hot_remove_by_id order e h)) = filter (\<lambda>u. cu_id u \<noteq> e) (hot_snapshot h)"
    by blast+
qed

text \<open>While nothing is removed the tier holds exactly the last \<open>max_size\<close> records pushed.\<close>

definition hot_holds :: "hot_context \<Rightarrow> context_update list \<Rightarrow> bool" where
  "hot_holds h us \<longleftrightarrow> hot_ok h \<and> hc_next_id h = length us \<and>
     hc_updates h = zip [length us - hc_max_size h ..< length us] (drop (length us - hc_max_size h) us)"

lemma zip_upt_snoc:
  "a \<le> length us \<Longrightarrow> zip [a..<Suc (length us)] (drop a (us @ [u])) = zip [a..<length us] (drop a us) @ [(length us, u)]"
  by (simp add: zip_append)

lemma filter_zip_upt:
  assumes "a < length us"
  shows "filter (\<lambda>(k, _). k \<noteq> a) (zip [a..<length us] (drop a us)) = zip [Suc a..<length us] (drop (Suc a) us)"
proof -
  have "zip [a..<length us] (drop a us) = (a, us ! a) # zip [Suc a..<length us] (drop (Suc a) us)"
    using assms by (simp add: upt_conv_Cons Cons_nth_drop_Suc [symmetric])
  moreover have "filter (\<lambda>(k, _). k \<noteq> a) (zip [Suc a..<length us] (drop (Suc a) us)) = zip [Suc a..<length us] (drop (Suc a) us)"
    by (rule filter_True) (auto dest!: set_zip_leftD)
  ultimately show ?thesis by simp
qed

lemma hot_holds_push:
  assumes "hot_holds h us"
  shows "hot_holds (hot_push u h) (us @ [u])"
proof -
  let ?n = "length us" and ?m = "hc_max_size h"
  have ok: "hot_ok h" and n: "hc_next_id h = ?n" and ups: "hc_updates h = zip [?n - ?m ..< ?n] (drop (?n - ?m) us)"
    using assms by (simp_all add: hot_holds_def)
  have "hc_updates (hot_push u h) = zip [Suc ?n - ?m ..< Suc ?n] (drop (Suc ?n - ?m) (us @ [u]))"
  proof (cases "?m \<le> ?n")
    case False
    then show ?thesis by (simp add: hot_push_updates [OF ok] n ups zip_append)
  next
    case le: True
    show ?thesis
    proof (cases "?m = 0")
      case True
      then show ?thesis by (simp add: hot_push_updates [OF ok] n ups)
    next
      case False
      then have lt: "?n - ?m < ?n" "Suc ?n - ?m = Suc (?n - ?m)" using le by auto
      have "hc_updates (hot_push u h) = zip [Suc (?n - ?m)..<?n] (drop (Suc (?n - ?m)) us) @ [(?n, u)]"
        using le False by (simp add: hot_push_updates [OF ok] n ups filter_zip_upt [OF lt(1)])
      then show ?thesis unfolding lt(2) using lt(1) by (subst zip_upt_snoc) simp_all
    qed
  qed
  moreover have "hc_next_id (hot_push u h) = Suc ?n" by (simp add: hot_push_def n Let_def)
  ultimately show ?thesis
    unfolding hot_holds_def hot_push_max length_append_singleton using hot_ok_push [OF ok] by blast
qed

lemma hot_holds_push_all: "hot_holds h us \<Longrightarrow> hot_holds (hot_push_all vs h) (us @ vs)"
proof (induction vs arbitrary: h us)
  case (Cons v vs)
  then show ?case using Cons.IH [OF hot_holds_push [OF Cons.prems, of v]] by simp
qed simp

lemma hot_push_all_max [simp]: "hc_max_size (hot_push_all vs h) = hc_max_size h"
  by (induction vs arbitrary: h) simp_all

lemma hot_from_updates:
  shows "hot_holds (hot_from_updates us n) us" and "hc_max_size (hot_from_updates us n) = n"
proof -
  have "hot_holds (new_hot n) []" by (simp add: hot_holds_def new_hot_def hot_ok_def)
  from hot_holds_push_all [OF this, of us] show "hot_holds (hot_from_updates us n) us"
    by (simp add: hot_from_updates_def)
qed (simp add: hot_from_updates_def new_hot_def)

lemma hot_holds_snapshot: "hot_holds h us \<Longrightarrow> hot_snapshot h = drop (length us - hc_max_size h) us"
  by (simp add: hot_holds_def hot_snapshot_eq)

end
