(* ===== verification/Active_Session.thy ===== *)
theory Active_Session
  imports Session_Context Entity_Graph_Serde
begin

text \<open>
  \<open>ActiveSession\<close> of \<open>post-cortex-core/src/session/active_session.rs\<close>: its tiers, everything it
  derives from its records, and the operations on them. \<open>Arc\<close>s are values (every change goes
  through \<open>make_mut\<close>). The two \<open>CodeReference\<close> structs have the same fields and are one
  record here. New ids and readings of the clock are arguments. The timeouts never fire: the
  futures they guard have no point to wait at, and \<open>timeout\<close> polls its future first.
\<close>

section \<open>State\<close>

record user_preferences =
  up_auto_save_enabled :: bool
  up_context_retention_days :: u32
  up_max_hot_context_size :: nat
  up_auto_summary_threshold :: nat
  up_important_keywords :: "string list"

record session_metadata =
  sm_id :: uuid
  sm_name :: "string option"
  sm_description :: "string option"
  sm_created_at :: datetime
  sm_user_preferences :: user_preferences

record compressed_update =
  cz_update :: context_update
  cz_compression_ratio :: f32
  cz_compressed_at :: datetime

record structured_summary =
  ss_summary_id :: uuid
  ss_created_at :: datetime
  ss_context_snapshot :: structured_context
  ss_referenced_updates :: "uuid list"
  ss_summary_quality :: f32

record change_record =
  ch_id :: uuid
  ch_timestamp :: datetime
  ch_change_type :: string
  ch_description :: string
  ch_related_update_id :: "uuid option"

record 'g active_session =
  as_metadata :: session_metadata
  as_last_updated :: datetime
  as_hot_context :: hot_context
  as_warm_context :: "compressed_update list"
  as_cold_context :: "structured_summary list"
  as_current_state :: structured_context
  as_incremental_updates :: "context_update list"
  as_code_references :: "string \<rightharpoonup> code_reference list"
  as_change_history :: "change_record list"
  as_entity_graph :: "'g entity_graph"
  as_vectorized_update_ids :: "uuid set"

definition default_preferences :: user_preferences where
  "default_preferences =
     \<lparr>up_auto_save_enabled = True, up_context_retention_days = 30, up_max_hot_context_size = 50,
      up_auto_summary_threshold = 100, up_important_keywords = []\<rparr>"

definition new_session ::
  "'g pg \<Rightarrow> uuid \<Rightarrow> string option \<Rightarrow> string option \<Rightarrow> datetime \<Rightarrow> datetime \<Rightarrow> 'g active_session" where
  "new_session P i name desc created now =
     \<lparr>as_metadata = \<lparr>sm_id = i, sm_name = name, sm_description = desc, sm_created_at = created,
        sm_user_preferences = default_preferences\<rparr>,
      as_last_updated = now, as_hot_context = new_hot 50, as_warm_context = [], as_cold_context = [],
      as_current_state = new_context, as_incremental_updates = [], as_code_references = Map.empty,
      as_change_history = [], as_entity_graph = new_graph P, as_vectorized_update_ids = {}\<rparr>"

section \<open>Cold tier\<close>

definition max_cold_summaries :: nat where "max_cold_summaries = 100"

definition compact_summary :: "structured_summary \<Rightarrow> structured_summary" where
  "compact_summary s =
     s\<lparr>ss_context_snapshot := new_context,
       ss_referenced_updates :=
         (let ids = ss_referenced_updates s in if length ids > 2 then [hd ids, last ids] else ids)\<rparr>"

definition keep_newest :: "'a list \<Rightarrow> 'a list" where
  "keep_newest cold =
     (if length cold > max_cold_summaries then drop (length cold - max_cold_summaries) cold else cold)"

definition compact_cold_context :: "structured_summary list \<Rightarrow> structured_summary list" where
  "compact_cold_context cold = map compact_summary (keep_newest cold)"

definition should_create_summary :: "'g active_session \<Rightarrow> bool" where
  "should_create_summary s \<longleftrightarrow>
     (let threshold = up_auto_summary_threshold (sm_user_preferences (as_metadata s));
          len = length (as_incremental_updates s)
      in threshold > 0 \<and> len > 0 \<and> len mod threshold = 0)"

definition create_periodic_summary :: "uuid \<Rightarrow> datetime \<Rightarrow> 'g active_session \<Rightarrow> 'g active_session" where
  "create_periodic_summary sid now s =
     (let threshold = up_auto_summary_threshold (sm_user_preferences (as_metadata s));
          updates = as_incremental_updates s;
          window = drop (length updates - threshold) updates;
          refs = (case window of
                    [] \<Rightarrow> []
                  | first # _ \<Rightarrow>
                      if cu_id first \<noteq> cu_id (last window) then [cu_id first, cu_id (last window)] else [cu_id first])
      in s\<lparr>as_cold_context := keep_newest (as_cold_context s @
            [\<lparr>ss_summary_id = sid, ss_created_at = now, ss_context_snapshot = new_context,
              ss_referenced_updates = refs, ss_summary_quality = 1\<rparr>])\<rparr>)"

definition maintain_context :: "uuid \<Rightarrow> datetime \<Rightarrow> 'g active_session \<Rightarrow> 'g active_session" where
  "maintain_context sid now s = (if should_create_summary s then create_periodic_summary sid now s else s)"

section \<open>Adding a record\<close>

definition max_description_bytes :: nat where "max_description_bytes = 64 * 1024"

text \<open>The longest prefix of whole characters that fits, which is what cutting at the greatest
  character boundary leaves.\<close>

fun take_bytes :: "nat \<Rightarrow> string \<Rightarrow> string" where
  "take_bytes n [] = []"
| "take_bytes n (c # s) =
     (let k = str_len [c] in if k \<le> n then c # take_bytes (n - k) s else [])"

definition truncate_safe :: "nat \<Rightarrow> string \<Rightarrow> string" where
  "truncate_safe n s = (if str_len s \<le> n then s else take_bytes n s)"

definition limit_content :: "update_content \<Rightarrow> update_content" where
  "limit_content c =
     (let c = (if str_len (uc_description c) > max_description_bytes
               then c\<lparr>uc_description := truncate_safe max_description_bytes (uc_description c) @ ''... (truncated)''\<rparr>
               else c)
      in if str_len (uc_title c) > 200
         then c\<lparr>uc_title := truncate_safe 190 (uc_title c) @ ''...''\<rparr> else c)"

definition limit_update :: "context_update \<Rightarrow> context_update" where
  "limit_update u = u\<lparr>cu_content := limit_content (cu_content u)\<rparr>"

definition flow_of :: "string \<Rightarrow> context_update \<Rightarrow> flow_item" where
  "flow_of kind u =
     \<lparr>fi_step_description = kind @ uc_title (cu_content u), fi_timestamp = cu_timestamp u,
      fi_related_updates = [cu_id u], fi_outcome = Some (uc_description (cu_content u))\<rparr>"

definition push_flow :: "flow_item \<Rightarrow> structured_context \<Rightarrow> structured_context" where
  "push_flow f sc = sc\<lparr>sc_conversation_flow := sc_conversation_flow sc @ [f]\<rparr>"

definition update_current_state :: "context_update \<Rightarrow> structured_context \<Rightarrow> structured_context" where
  "update_current_state u sc =
     (let c = cu_content u; t = cu_timestamp u in
      case cu_update_type u of
        QuestionAnswered \<Rightarrow>
          push_flow (flow_of ''Q&A: '' u)
            (sc\<lparr>sc_open_questions := sc_open_questions sc @
               [\<lparr>qi_question = uc_title c, qi_context = uc_description c, qi_status = Answered,
                 qi_timestamp = t, qi_last_updated = t\<rparr>]\<rparr>)
      | ProblemSolved \<Rightarrow> push_flow (flow_of ''Problem Solved: '' u) sc
      | CodeChanged \<Rightarrow> push_flow (flow_of ''Code Change: '' u) sc
      | DecisionMade \<Rightarrow>
          push_flow (flow_of ''Decision Made: '' u)
            (sc\<lparr>sc_key_decisions := sc_key_decisions sc @
               [\<lparr>di_description = uc_title c, di_context = uc_description c, di_alternatives = uc_details c,
                 di_confidence = 1, di_timestamp = t\<rparr>]\<rparr>)
      | ConceptDefined \<Rightarrow>
          push_flow (flow_of ''Concept Defined: '' u)
            (sc\<lparr>sc_key_concepts := sc_key_concepts sc @
               [\<lparr>ci_name = uc_title c, ci_definition = uc_description c, ci_examples = uc_examples c,
                 ci_related_concepts = uc_details c, ci_timestamp = t\<rparr>]\<rparr>)
      | RequirementAdded \<Rightarrow>
          push_flow (flow_of ''Requirement Added: '' u)
            (sc\<lparr>sc_technical_specifications := sc_technical_specifications sc @
               [\<lparr>si_title = uc_title c, si_description = uc_description c, si_requirements = uc_details c,
                 si_constraints = uc_implications c, si_timestamp = t\<rparr>]\<rparr>))"

definition add_code_reference ::
  "code_reference \<Rightarrow> (string \<rightharpoonup> code_reference list) \<Rightarrow> (string \<rightharpoonup> code_reference list)" where
  "add_code_reference r m = m(cr_file_path r \<mapsto> unwrap_or (m (cr_file_path r)) [] @ [r])"

fun update_type_debug :: "update_type \<Rightarrow> string" where
  "update_type_debug QuestionAnswered = ''QuestionAnswered''"
| "update_type_debug ProblemSolved = ''ProblemSolved''"
| "update_type_debug CodeChanged = ''CodeChanged''"
| "update_type_debug DecisionMade = ''DecisionMade''"
| "update_type_debug ConceptDefined = ''ConceptDefined''"
| "update_type_debug RequirementAdded = ''RequirementAdded''"

definition record_change :: "uuid \<Rightarrow> context_update \<Rightarrow> 'g active_session \<Rightarrow> 'g active_session" where
  "record_change cid u s =
     s\<lparr>as_change_history := as_change_history s @
        [\<lparr>ch_id = cid, ch_timestamp = cu_timestamp u, ch_change_type = update_type_debug (cu_update_type u),
          ch_description = uc_description (cu_content u), ch_related_update_id = Some (cu_id u)\<rparr>]\<rparr>"

text \<open>The part both ways of adding share, after the structured state (and the graph) is updated.\<close>

definition finish_update ::
  "uuid \<Rightarrow> uuid \<Rightarrow> datetime \<Rightarrow> datetime \<Rightarrow> context_update \<Rightarrow> 'g active_session \<Rightarrow> 'g active_session" where
  "finish_update cid sid summary_now now u s =
     (let s = (case cu_related_code u of None \<Rightarrow> s
               | Some r \<Rightarrow> s\<lparr>as_code_references := add_code_reference r (as_code_references s)\<rparr>);
          s = record_change cid u s;
          s = maintain_context sid summary_now s;
          s = s\<lparr>as_last_updated := now\<rparr>
      in s\<lparr>as_hot_context := hot_push u (as_hot_context s),
           as_incremental_updates := as_incremental_updates s @ [u]\<rparr>)"

definition update_entity_graph ::
  "'g pg \<Rightarrow> (nat \<Rightarrow> datetime) \<Rightarrow> context_update \<Rightarrow> 'g active_session \<Rightarrow> 'g active_session" where
  "update_entity_graph P clock u s = s\<lparr>as_entity_graph := apply_update P clock u (as_entity_graph s)\<rparr>"

definition add_incremental_update ::
  "'g pg \<Rightarrow> (nat \<Rightarrow> datetime) \<Rightarrow> uuid \<Rightarrow> uuid \<Rightarrow> datetime \<Rightarrow> datetime \<Rightarrow> context_update \<Rightarrow>
   'g active_session \<Rightarrow> 'g active_session" where
  "add_incremental_update P clock cid sid summary_now now update s =
     (let u = limit_update update;
          s = s\<lparr>as_current_state := update_current_state u (as_current_state s)\<rparr>
      in finish_update cid sid summary_now now u (update_entity_graph P clock u s))"

definition add_incremental_update_fast ::
  "uuid \<Rightarrow> uuid \<Rightarrow> datetime \<Rightarrow> datetime \<Rightarrow> context_update \<Rightarrow> 'g active_session \<Rightarrow> 'g active_session" where
  "add_incremental_update_fast cid sid summary_now now update s =
     (let u = limit_update update
      in finish_update cid sid summary_now now u
           (s\<lparr>as_current_state := update_current_state u (as_current_state s)\<rparr>))"

text \<open>
  \<open>add_context_update\<close>: the record comes from the caller's metadata (\<open>parse\<close> is the JSON
  deserializer) or is built from the description. The answer holds the record as it came,
  before its text was cut.
\<close>

definition described_update :: "uuid \<Rightarrow> datetime \<Rightarrow> string \<Rightarrow> context_update" where
  "described_update i t description =
     \<lparr>cu_id = i, cu_timestamp = t, cu_update_type = ConceptDefined,
      cu_content = \<lparr>uc_title = ''Incremental Update'', uc_description = description, uc_details = [],
        uc_examples = [], uc_implications = []\<rparr>,
      cu_related_code = None, cu_parent_update = None, cu_user_marked_important = False,
      cu_creates_entities = [], cu_creates_relationships = [], cu_references_entities = [],
      cu_typed_entities = [], cu_author = None, cu_derived_from = [],
      cu_meta = \<lparr>um_valid_from = None, um_supersedes = [], um_confidence = None, um_retired_at = None\<rparr>\<rparr>"

definition add_context_update ::
  "('j \<Rightarrow> (string, context_update) result) \<Rightarrow> (uuid \<Rightarrow> string) \<Rightarrow> uuid \<Rightarrow> datetime \<Rightarrow> uuid \<Rightarrow> uuid \<Rightarrow> datetime \<Rightarrow>
   datetime \<Rightarrow> string \<Rightarrow> 'j option \<Rightarrow> 'g active_session \<Rightarrow>
   (string, (string \<times> context_update) \<times> 'g active_session) result" where
  "add_context_update parse show_uuid i t cid sid summary_now now description metadata s =
     res_bind
       (case metadata of
          None \<Rightarrow> Ok (described_update i t description)
        | Some j \<Rightarrow>
            (case parse j of Inl e \<Rightarrow> Err (''Invalid ContextUpdate metadata: '' @ e) | Inr u \<Rightarrow> Ok u))
       (\<lambda>u. Ok ((show_uuid (cu_id u), u), add_incremental_update_fast cid sid summary_now now u s))"

section \<open>Removing records\<close>

text \<open>\<open>position(p)\<close> and, where there is one, \<open>remove(position)\<close>.\<close>

fun remove_first :: "('a \<Rightarrow> bool) \<Rightarrow> 'a list \<Rightarrow> 'a list" where
  "remove_first p [] = []"
| "remove_first p (x # xs) = (if p x then xs else x # remove_first p xs)"

definition find_update :: "uuid \<Rightarrow> 'g active_session \<Rightarrow> context_update option" where
  "find_update e s =
     (case List.find (\<lambda>u. cu_id u = e) (as_incremental_updates s) of
        Some u \<Rightarrow> Some u
      | None \<Rightarrow>
          (case hot_find (\<lambda>u. cu_id u = e) (as_hot_context s) of
             Some u \<Rightarrow> Some u
           | None \<Rightarrow> map_option cz_update (List.find (\<lambda>c. cu_id (cz_update c) = e) (as_warm_context s))))"

definition is_item_of :: "context_update \<Rightarrow> string \<Rightarrow> datetime \<Rightarrow> bool" where
  "is_item_of u title t \<longleftrightarrow> title = uc_title (cu_content u) \<and> t = cu_timestamp u"

definition remove_item :: "context_update \<Rightarrow> structured_context \<Rightarrow> structured_context" where
  "remove_item u sc =
     (case cu_update_type u of
        QuestionAnswered \<Rightarrow>
          sc\<lparr>sc_open_questions := remove_first (\<lambda>q. is_item_of u (qi_question q) (qi_timestamp q)) (sc_open_questions sc)\<rparr>
      | DecisionMade \<Rightarrow>
          sc\<lparr>sc_key_decisions := remove_first (\<lambda>d. is_item_of u (di_description d) (di_timestamp d)) (sc_key_decisions sc)\<rparr>
      | ConceptDefined \<Rightarrow>
          sc\<lparr>sc_key_concepts := remove_first (\<lambda>c. is_item_of u (ci_name c) (ci_timestamp c)) (sc_key_concepts sc)\<rparr>
      | RequirementAdded \<Rightarrow>
          sc\<lparr>sc_technical_specifications :=
            remove_first (\<lambda>r. is_item_of u (si_title r) (si_timestamp r)) (sc_technical_specifications sc)\<rparr>
      | _ \<Rightarrow> sc)"

text \<open>The flow is only swept when some step names the record.\<close>

definition remove_derived_state :: "context_update \<Rightarrow> structured_context \<Rightarrow> structured_context" where
  "remove_derived_state u sc =
     (let e = cu_id u;
          sc = (if list_ex (\<lambda>f. e \<in> set (fi_related_updates f)) (sc_conversation_flow sc)
                then sc\<lparr>sc_conversation_flow :=
                  filter (\<lambda>f. fi_related_updates f \<noteq> [])
                    (map (\<lambda>f. f\<lparr>fi_related_updates := filter (\<lambda>i. i \<noteq> e) (fi_related_updates f)\<rparr>)
                      (sc_conversation_flow sc))\<rparr>
                else sc)
      in remove_item u sc)"

definition remove_code_reference ::
  "code_reference \<Rightarrow> (string \<rightharpoonup> code_reference list) \<Rightarrow> (string \<rightharpoonup> code_reference list)" where
  "remove_code_reference r m =
     (let matches = (\<lambda>x. cr_start_line x = cr_start_line r \<and> cr_end_line x = cr_end_line r \<and>
            cr_code_snippet x = cr_code_snippet r \<and> cr_change_description x = cr_change_description r \<and>
            cr_commit_hash x = cr_commit_hash r \<and> cr_branch x = cr_branch r)
      in case m (cr_file_path r) of
           None \<Rightarrow> m
         | Some refs \<Rightarrow>
             if \<not> list_ex matches refs then m
             else (let refs' = remove_first matches refs
                   in m(cr_file_path r := (if refs' = [] then None else Some refs'))))"

definition remove_mentions :: "uuid \<Rightarrow> 'g entity_graph \<Rightarrow> 'g entity_graph" where
  "remove_mentions e g =
     (if list_ex (\<lambda>(_, ids). e \<in> set ids) (eg_entity_mentions g)
      then g\<lparr>eg_entity_mentions := filter (\<lambda>(_, ids). ids \<noteq> [])
              (map (\<lambda>(n, ids). (n, filter (\<lambda>i. i \<noteq> e) ids)) (eg_entity_mentions g))\<rparr>
      else g)"

text \<open>\<open>order\<close> is the iteration order of the hot tier's hash map.\<close>

definition remove_update_by_id :: "nat list \<Rightarrow> uuid \<Rightarrow> 'g active_session \<Rightarrow> 'g active_session \<times> bool" where
  "remove_update_by_id order e s =
     (case find_update e s of
        None \<Rightarrow> (s, False)
      | Some removed \<Rightarrow>
          (s\<lparr>as_hot_context :=
               (if hot_contains_id e (as_hot_context s) then fst (hot_remove_by_id order e (as_hot_context s))
                else as_hot_context s),
             as_warm_context := filter (\<lambda>c. cu_id (cz_update c) \<noteq> e) (as_warm_context s),
             as_incremental_updates := filter (\<lambda>u. cu_id u \<noteq> e) (as_incremental_updates s),
             as_change_history := filter (\<lambda>c. ch_related_update_id c \<noteq> Some e) (as_change_history s),
             as_current_state := remove_derived_state removed (as_current_state s),
             as_code_references :=
               (case cu_related_code removed of
                  None \<Rightarrow> as_code_references s
                | Some r \<Rightarrow> remove_code_reference r (as_code_references s)),
             as_entity_graph := remove_mentions e (as_entity_graph s)\<rparr>, True))"

definition remove_updates_for_file :: "string \<Rightarrow> 'g active_session \<Rightarrow> 'g active_session \<times> nat" where
  "remove_updates_for_file path s =
     (let kept = filter (\<lambda>u. case cu_related_code u of None \<Rightarrow> True | Some r \<Rightarrow> cr_file_path r \<noteq> path)
                   (as_incremental_updates s);
          removed = length (as_incremental_updates s) - length kept;
          s = s\<lparr>as_incremental_updates := kept\<rparr>
      in (if removed > 0 then s\<lparr>as_code_references := (as_code_references s)(path := None)\<rparr> else s, removed))"

section \<open>Retiring, rebuilding, renaming\<close>

text \<open>The first record with the id is changed in the list, every one in the other tiers.\<close>

fun replace_first :: "('a \<Rightarrow> bool) \<Rightarrow> 'a \<Rightarrow> 'a list \<Rightarrow> 'a list" where
  "replace_first p y [] = []"
| "replace_first p y (x # xs) = (if p x then y # xs else x # replace_first p y xs)"

definition retire_update :: "uuid \<Rightarrow> datetime \<Rightarrow> 'g active_session \<Rightarrow> 'g active_session \<times> context_update option" where
  "retire_update e at' s =
     (case List.find (\<lambda>u. cu_id u = e) (as_incremental_updates s) of
        None \<Rightarrow> (s, None)
      | Some u \<Rightarrow>
          if um_retired_at (cu_meta u) \<noteq> None then (s, None)
          else
            (let changed = u\<lparr>cu_meta := (cu_meta u)\<lparr>um_retired_at := Some at'\<rparr>\<rparr>
             in (s\<lparr>as_incremental_updates :=
                     replace_first (\<lambda>u. cu_id u = e) changed (as_incremental_updates s),
                   as_hot_context :=
                     (if hot_contains_id e (as_hot_context s)
                      then hot_from_updates
                             (map (\<lambda>u. if cu_id u = e then changed else u) (hot_snapshot (as_hot_context s)))
                             (up_max_hot_context_size (sm_user_preferences (as_metadata s)))
                      else as_hot_context s),
                   as_warm_context :=
                     map (\<lambda>c. if cu_id (cz_update c) = e then c\<lparr>cz_update := changed\<rparr> else c) (as_warm_context s)\<rparr>,
                 Some changed)))"

text \<open>Each record, and each merge, has its own readings of the clock.\<close>

fun apply_updates ::
  "'g pg \<Rightarrow> (nat \<Rightarrow> nat \<Rightarrow> datetime) \<Rightarrow> context_update list \<Rightarrow> 'g entity_graph \<Rightarrow> 'g entity_graph" where
  "apply_updates P clocks [] g = g"
| "apply_updates P clocks (u # us) g = apply_updates P (\<lambda>i. clocks (Suc i)) us (apply_update P (clocks 0) u g)"

definition rebuild_entity_graph ::
  "'g pg \<Rightarrow> (nat \<Rightarrow> nat \<Rightarrow> datetime) \<Rightarrow> (nat \<Rightarrow> nat \<Rightarrow> datetime) \<Rightarrow> 'g active_session \<Rightarrow> 'g active_session" where
  "rebuild_entity_graph P clocks merge_clocks s =
     s\<lparr>as_entity_graph :=
        run_merges P merge_clocks (explicit_aliases (as_entity_graph s))
          (apply_updates P clocks (as_incremental_updates s) (new_graph P))\<rparr>"

definition rebuild_counts ::
  "'g pg \<Rightarrow> (nat \<Rightarrow> nat \<Rightarrow> datetime) \<Rightarrow> (nat \<Rightarrow> nat \<Rightarrow> datetime) \<Rightarrow> 'g active_session \<Rightarrow> 'g active_session \<times> nat \<times> nat" where
  "rebuild_counts P clocks merge_clocks s =
     (let s' = rebuild_entity_graph P clocks merge_clocks s
      in (s', entity_count (as_entity_graph s), entity_count (as_entity_graph s')))"

definition relink_entity_mentions :: "'g active_session \<Rightarrow> 'g active_session" where
  "relink_entity_mentions s = s\<lparr>as_entity_graph := relink_mentions (as_incremental_updates s) (as_entity_graph s)\<rparr>"

definition set_name :: "string option \<Rightarrow> datetime \<Rightarrow> 'g active_session \<Rightarrow> 'g active_session" where
  "set_name name now s = s\<lparr>as_metadata := (as_metadata s)\<lparr>sm_name := name\<rparr>, as_last_updated := now\<rparr>"

definition set_description :: "string option \<Rightarrow> datetime \<Rightarrow> 'g active_session \<Rightarrow> 'g active_session" where
  "set_description d now s = s\<lparr>as_metadata := (as_metadata s)\<lparr>sm_description := d\<rparr>, as_last_updated := now\<rparr>"

definition update_metadata ::
  "string option \<Rightarrow> string option \<Rightarrow> datetime \<Rightarrow> 'g active_session \<Rightarrow> 'g active_session" where
  "update_metadata name d now s =
     (let m = as_metadata s
      in s\<lparr>as_metadata := m\<lparr>sm_name := (if name \<noteq> None then name else sm_name m),
             sm_description := (if d \<noteq> None then d else sm_description m)\<rparr>, as_last_updated := now\<rparr>)"

definition get_metadata :: "'g active_session \<Rightarrow> string option \<times> string option" where
  "get_metadata s = (sm_name (as_metadata s), sm_description (as_metadata s))"

definition set_incremental_updates :: "context_update list \<Rightarrow> 'g active_session \<Rightarrow> 'g active_session" where
  "set_incremental_updates us s = s\<lparr>as_incremental_updates := us\<rparr>"

definition set_change_history :: "change_record list \<Rightarrow> 'g active_session \<Rightarrow> 'g active_session" where
  "set_change_history cs s = s\<lparr>as_change_history := cs\<rparr>"

section \<open>Reading\<close>

definition is_vectorization_pending :: "uuid \<Rightarrow> 'g active_session \<Rightarrow> bool" where
  "is_vectorization_pending e s \<longleftrightarrow>
     e \<notin> as_vectorized_update_ids s \<and>
     (hot_contains_id e (as_hot_context s) \<or> list_ex (\<lambda>u. cu_id u = e) (rev (as_incremental_updates s)))"

definition pending_vectorization_count :: "'g active_session \<Rightarrow> nat" where
  "pending_vectorization_count s =
     (let pending = remdups (filter (\<lambda>i. i \<notin> as_vectorized_update_ids s) (map cu_id (as_incremental_updates s)))
      in length pending +
         length (filter (\<lambda>u. cu_id u \<notin> set pending \<and> cu_id u \<notin> as_vectorized_update_ids s)
           (hot_snapshot (as_hot_context s))))"

definition context_summary :: "'g active_session \<Rightarrow> string" where
  "context_summary s =
     (let summary = map (\<lambda>u. ''- '' @ uc_description (cu_content u)) (get_recent 10 (as_hot_context s))
      in if summary = [] then ''No context available'' else join_with [CHR 0x0A] summary)"

section \<open>The stored form\<close>

text \<open>
  \<open>ActiveSessionData\<close>: the fields of the JSON object. \<open>list_ids\<close> is the order in which the set
  of vectorized ids is listed. The graph has the stored form of its own.
\<close>

record session_data =
  ad_metadata :: session_metadata
  ad_last_updated :: datetime
  ad_hot_context :: "context_update list"
  ad_warm_context :: "compressed_update list"
  ad_cold_context :: "structured_summary list"
  ad_current_state :: structured_context
  ad_incremental_updates :: "context_update list"
  ad_code_references :: "string \<rightharpoonup> code_reference list"
  ad_change_history :: "change_record list"
  ad_entity_graph :: graph_data
  ad_vectorized_update_ids :: "uuid list"

definition serialize_session ::
  "'g pg \<Rightarrow> (uuid set \<Rightarrow> uuid list) \<Rightarrow> bool \<Rightarrow> 'g active_session \<Rightarrow> session_data" where
  "serialize_session P list_ids include_updates s =
     \<lparr>ad_metadata = as_metadata s, ad_last_updated = as_last_updated s,
      ad_hot_context = hot_snapshot (as_hot_context s), ad_warm_context = as_warm_context s,
      ad_cold_context = as_cold_context s, ad_current_state = as_current_state s,
      ad_incremental_updates = (if include_updates then as_incremental_updates s else []),
      ad_code_references = as_code_references s, ad_change_history = as_change_history s,
      ad_entity_graph = serialize_graph P (as_entity_graph s),
      ad_vectorized_update_ids = list_ids (as_vectorized_update_ids s)\<rparr>"

text \<open>
  Hot records that are also in the tail of the list are taken from there: a map collected from
  the tail keeps the last one of an id.
\<close>

definition hot_context_sharing :: "context_update list \<Rightarrow> context_update list \<Rightarrow> nat \<Rightarrow> hot_context" where
  "hot_context_sharing hot incremental n =
     (let tail_len = min (length incremental) (max (length hot) n);
          by_id = map_of (rev (map (\<lambda>u. (cu_id u, u)) (drop (length incremental - tail_len) incremental)))
      in hot_from_updates (map (\<lambda>u. unwrap_or (by_id (cu_id u)) u) hot) n)"

definition deserialize_session ::
  "'g pg \<Rightarrow> (nat \<Rightarrow> nat \<Rightarrow> datetime) \<Rightarrow> session_data \<Rightarrow> 'g active_session" where
  "deserialize_session P clocks d =
     \<lparr>as_metadata = ad_metadata d, as_last_updated = ad_last_updated d,
      as_hot_context = hot_context_sharing (ad_hot_context d) (ad_incremental_updates d)
        (up_max_hot_context_size (sm_user_preferences (ad_metadata d))),
      as_warm_context = ad_warm_context d, as_cold_context = compact_cold_context (ad_cold_context d),
      as_current_state = ad_current_state d, as_incremental_updates = ad_incremental_updates d,
      as_code_references = ad_code_references d, as_change_history = ad_change_history d,
      as_entity_graph = deserialize_graph P clocks (ad_entity_graph d),
      as_vectorized_update_ids = set (ad_vectorized_update_ids d)\<rparr>"

text \<open>\<open>from_components\<close>: the same from the parts a backend stores, with the links rebuilt.\<close>

definition from_components ::
  "session_metadata \<Rightarrow> datetime \<Rightarrow> context_update list \<Rightarrow> compressed_update list \<Rightarrow> structured_summary list \<Rightarrow>
   structured_context \<Rightarrow> context_update list \<Rightarrow> (string \<rightharpoonup> code_reference list) \<Rightarrow> change_record list \<Rightarrow>
   'g entity_graph \<Rightarrow> uuid list \<Rightarrow> 'g active_session" where
  "from_components m updated hot warm cold state updates refs history g ids =
     relink_entity_mentions
       \<lparr>as_metadata = m, as_last_updated = updated,
        as_hot_context = hot_context_sharing hot updates (up_max_hot_context_size (sm_user_preferences m)),
        as_warm_context = warm, as_cold_context = compact_cold_context cold, as_current_state = state,
        as_incremental_updates = updates, as_code_references = refs, as_change_history = history,
        as_entity_graph = g, as_vectorized_update_ids = set ids\<rparr>"

end
