(* ===== verification/Active_Session_Inv.thy ===== *)
theory Active_Session_Inv
  imports Active_Session
begin

text \<open>
  The invariant of a session and its preservation: the hot tier holds a subsequence of the
  records, record ids are distinct, and everything derived from the records (change history,
  flow, mentions of the entity graph) names stored records only.
\<close>

section \<open>Mentions\<close>

definition mentions_in :: "uuid set \<Rightarrow> 'g entity_graph \<Rightarrow> bool" where
  "mentions_in I g \<longleftrightarrow> (\<forall>n ids. map_of (eg_entity_mentions g) n = Some ids \<longrightarrow> ids \<noteq> [] \<and> set ids \<subseteq> I)"

lemma mentions_in_mono: "mentions_in I g \<Longrightarrow> I \<subseteq> J \<Longrightarrow> mentions_in J g"
  unfolding mentions_in_def by blast

lemma mentions_in_new [simp]: "mentions_in I (new_graph P)"
  by (simp add: mentions_in_def new_graph_def)

lemma mentions_in_unwrap: "mentions_in I g \<Longrightarrow> set (unwrap_or (map_of (eg_entity_mentions g) c) []) \<subseteq> I"
  by (cases "map_of (eg_entity_mentions g) c") (auto simp: mentions_in_def)

lemma add_id_not_Nil [simp]: "add_id x xs \<noteq> []"
  by (auto simp: add_id_def)

lemma extend_new_Nil: "extend_new xs ys = [] \<longleftrightarrow> xs = [] \<and> ys = []"
  using set_extend_new [of xs ys] by (metis Un_empty set_empty)

text \<open>Removing an id from the lists of a tree with increasing keys.\<close>

lemma map_of_drop_id:
  assumes "bt_ok m"
  shows "map_of (filter (\<lambda>(_, ids). ids \<noteq> []) (map (\<lambda>(n, ids). (n, filter (\<lambda>i. i \<noteq> e) ids)) m)) n =
    (case map_of m n of None \<Rightarrow> None
     | Some ids \<Rightarrow> (let ids = filter (\<lambda>i. i \<noteq> e) ids in if ids = [] then None else Some ids))"
  using bt_ok_distinct [OF assms]
proof (induction m)
  case (Cons kv m)
  have notin: "map_of m (fst kv) = None" using Cons.prems by (simp add: map_of_eq_None_iff)
  show ?case using Cons notin by (cases kv) (auto simp: Let_def split: option.splits)
qed simp

lemma bt_ok_drop_id:
  "bt_ok m \<Longrightarrow> bt_ok (filter (\<lambda>(_, ids). ids \<noteq> []) (map (\<lambda>(n, ids). (n, filter (\<lambda>i. i \<noteq> e) ids)) m))"
  by (intro bt_ok_filter) (simp add: bt_ok_def split_def comp_def)

lemma remove_mentions_map:
  assumes "mentions_in I g" and "bt_ok (eg_entity_mentions g)"
  shows "map_of (eg_entity_mentions (remove_mentions e g)) n =
    (case map_of (eg_entity_mentions g) n of None \<Rightarrow> None
     | Some ids \<Rightarrow> (let ids = filter (\<lambda>i. i \<noteq> e) ids in if ids = [] then None else Some ids))"
proof (cases "list_ex (\<lambda>(_, ids). e \<in> set ids) (eg_entity_mentions g)")
  case True
  then show ?thesis using map_of_drop_id [OF assms(2)] by (simp add: remove_mentions_def)
next
  case False
  have "filter (\<lambda>i. i \<noteq> e) ids = ids \<and> ids \<noteq> []" if "map_of (eg_entity_mentions g) n = Some ids" for ids
  proof -
    have "e \<notin> set ids" using False map_of_SomeD [OF that] by (auto simp: list_ex_iff)
    then show ?thesis using assms(1) that by (auto simp: mentions_in_def intro: filter_True)
  qed
  then show ?thesis
    using False by (cases "map_of (eg_entity_mentions g) n") (simp_all add: remove_mentions_def Let_def)
qed

lemma mentions_in_remove:
  "mentions_in I g \<Longrightarrow> bt_ok (eg_entity_mentions g) \<Longrightarrow> mentions_in (I - {e}) (remove_mentions e g)"
  unfolding mentions_in_def [of "I - {e}"]
  by (simp add: remove_mentions_map) (fastforce simp: mentions_in_def Let_def split: option.splits if_splits)

context entity_digraph
begin

lemma remove_mentions_ok: "graph_ok P valid g \<Longrightarrow> graph_ok P valid (remove_mentions e g)"
  unfolding remove_mentions_def by (auto intro!: graph_ok_set_mentions bt_ok_drop_id dest: graph_okD(5))

lemma mentions_in_apply:
  assumes "graph_ok P valid g" and "mentions_in I g"
  shows "mentions_in (insert (cu_id u) I) (apply_update P clock u g)"
  unfolding mentions_in_def apply_update(5) [OF assms(1)]
  using mentions_in_unwrap [OF assms(2)] assms(2)
  by (fastforce simp: mentions_in_def split: if_splits)

lemma mentions_in_merge:
  assumes ok: "graph_ok P valid g" and m: "mentions_in I g"
  shows "mentions_in I (fst (merge_entities P clock x y g))"
proof (cases "\<exists>a b. resolve g x = Some a \<and> resolve g y = Some b \<and> a \<noteq> b")
  case True
  then obtain a b where ab: "resolve g x = Some a" "resolve g y = Some b" "a \<noteq> b" by blast
  obtain ea eb where e: "map_of (eg_entities g) a = Some ea" "map_of (eg_entities g) b = Some eb"
    using resolve_known [OF ok ab(1)] resolve_known [OF ok ab(2)] by blast
  show ?thesis
    unfolding mentions_in_def merge_entities_effect(5) [OF ok ab] merged_base(4) [OF ok e ab(3)]
    using mentions_in_unwrap [OF m] m
    by (fastforce simp: mentions_in_def Let_def extend_new_Nil split: if_splits)
next
  case False
  then have "\<not> snd (merge_entities P clock x y g)" by (auto simp: merge_entities_def split: option.splits)
  then show ?thesis using merge_entities_refused [of clock x y g] m by simp
qed

lemma run_merges_keeps:
  "graph_ok P valid g \<Longrightarrow> mentions_in I g \<Longrightarrow>
   graph_ok P valid (run_merges P clocks ms g) \<and> mentions_in I (run_merges P clocks ms g)"
proof (induction ms arbitrary: clocks g)
  case (Cons m ms)
  then show ?case by (cases m) (simp add: merge_entities_ok mentions_in_merge)
qed simp

lemma apply_updates_keeps:
  "graph_ok P valid g \<Longrightarrow> mentions_in I g \<Longrightarrow> cu_id ` set us \<subseteq> I \<Longrightarrow>
   graph_ok P valid (apply_updates P clocks us g) \<and> mentions_in I (apply_updates P clocks us g)"
proof (induction us arbitrary: clocks g)
  case (Cons u us)
  have "mentions_in I (apply_update P (clocks 0) u g)"
    using mentions_in_apply [OF Cons.prems(1,2), of u "clocks 0"] Cons.prems(3) by (simp add: insert_absorb)
  then show ?case using Cons by (simp add: apply_update(1))
qed simp

lemma relink_updates_keeps:
  "graph_ok P valid g \<Longrightarrow> mentions_in I g \<Longrightarrow> cu_id ` set us \<subseteq> I \<Longrightarrow> mentions_in I (relink_updates us g)"
proof (induction us arbitrary: g)
  case (Cons u us)
  note R = relink_names [OF Cons.prems(1), of "cu_id u" "mentioned_names u"]
  have "mentions_in I (relink_names (cu_id u) (mentioned_names u) g)"
    using R mentions_in_unwrap [OF Cons.prems(2)] Cons.prems(2,3)
    by (fastforce simp: mentions_in_def split: if_splits)
  then show ?case using Cons R by simp
qed simp

lemma mentions_in_relink:
  assumes "graph_ok P valid g"
  shows "mentions_in (cu_id ` set us) (relink_mentions us g)"
proof -
  have "graph_ok P valid (g\<lparr>eg_entity_mentions := []\<rparr>)" by (intro graph_ok_set_mentions assms) simp
  then show ?thesis
    unfolding relink_mentions_def by (rule relink_updates_keeps) (simp_all add: mentions_in_def)
qed

end

section \<open>The session invariant\<close>

definition record_ids :: "'g active_session \<Rightarrow> uuid set" where
  "record_ids s = cu_id ` set (as_incremental_updates s)"

definition hot_of_session :: "'g active_session \<Rightarrow> bool" where
  "hot_of_session s \<longleftrightarrow>
     hot_ok (as_hot_context s) \<and>
     hc_max_size (as_hot_context s) = up_max_hot_context_size (sm_user_preferences (as_metadata s)) \<and>
     distinct (map cu_id (as_incremental_updates s)) \<and>
     subseq (hot_snapshot (as_hot_context s)) (as_incremental_updates s)"

definition flow_in :: "uuid set \<Rightarrow> structured_context \<Rightarrow> bool" where
  "flow_in I sc \<longleftrightarrow> (\<forall>f \<in> set (sc_conversation_flow sc). fi_related_updates f \<noteq> [] \<and> set (fi_related_updates f) \<subseteq> I)"

definition changes_in :: "uuid set \<Rightarrow> change_record list \<Rightarrow> bool" where
  "changes_in I cs \<longleftrightarrow> (\<forall>c \<in> set cs. ch_related_update_id c \<in> Some ` I)"

definition refs_ok :: "(string \<rightharpoonup> code_reference list) \<Rightarrow> bool" where
  "refs_ok m \<longleftrightarrow> (\<forall>p rs. m p = Some rs \<longrightarrow> rs \<noteq> [] \<and> (\<forall>r \<in> set rs. cr_file_path r = p))"

definition session_ok :: "'g pg \<Rightarrow> ('g \<Rightarrow> bool) \<Rightarrow> 'g active_session \<Rightarrow> bool" where
  "session_ok P valid s \<longleftrightarrow>
     hot_of_session s \<and>
     graph_ok P valid (as_entity_graph s) \<and> mentions_in (record_ids s) (as_entity_graph s) \<and>
     flow_in (record_ids s) (as_current_state s) \<and> changes_in (record_ids s) (as_change_history s) \<and>
     refs_ok (as_code_references s) \<and> length (as_cold_context s) \<le> max_cold_summaries"

lemma session_okD:
  assumes "session_ok P valid s"
  shows "hot_of_session s" "graph_ok P valid (as_entity_graph s)" "mentions_in (record_ids s) (as_entity_graph s)"
    "flow_in (record_ids s) (as_current_state s)" "changes_in (record_ids s) (as_change_history s)"
    "refs_ok (as_code_references s)" "length (as_cold_context s) \<le> max_cold_summaries"
  using assms by (simp_all add: session_ok_def)

lemma session_okI:
  assumes "hot_of_session s" "graph_ok P valid (as_entity_graph s)" "mentions_in (record_ids s) (as_entity_graph s)"
    "flow_in (record_ids s) (as_current_state s)" "changes_in (record_ids s) (as_change_history s)"
    "refs_ok (as_code_references s)" "length (as_cold_context s) \<le> max_cold_summaries"
  shows "session_ok P valid s"
  using assms by (simp add: session_ok_def)

subsection \<open>Adding\<close>

lemma limit_update_id [simp]: "cu_id (limit_update u) = cu_id u"
  by (simp add: limit_update_def)

lemma update_current_state_flow:
  "\<exists>k. sc_conversation_flow (update_current_state u sc) = sc_conversation_flow sc @ [flow_of k u]"
  by (cases "cu_update_type u") (auto simp: update_current_state_def push_flow_def Let_def)

lemma flow_in_update: "flow_in I sc \<Longrightarrow> flow_in (insert (cu_id u) I) (update_current_state u sc)"
  using update_current_state_flow [of u sc] by (auto simp: flow_in_def flow_of_def)

lemma refs_ok_add: "refs_ok m \<Longrightarrow> refs_ok (add_code_reference r m)"
  by (auto simp: refs_ok_def add_code_reference_def split: if_splits) (cases "m (cr_file_path r)"; auto)

lemma keep_newest_le: "length (keep_newest xs) \<le> max_cold_summaries"
  by (simp add: keep_newest_def)

lemma maintain_context_fields:
  "as_metadata (maintain_context sid t s) = as_metadata s"
  "as_hot_context (maintain_context sid t s) = as_hot_context s"
  "as_warm_context (maintain_context sid t s) = as_warm_context s"
  "as_current_state (maintain_context sid t s) = as_current_state s"
  "as_incremental_updates (maintain_context sid t s) = as_incremental_updates s"
  "as_code_references (maintain_context sid t s) = as_code_references s"
  "as_change_history (maintain_context sid t s) = as_change_history s"
  "as_entity_graph (maintain_context sid t s) = as_entity_graph s"
  "as_vectorized_update_ids (maintain_context sid t s) = as_vectorized_update_ids s"
  "length (as_cold_context s) \<le> max_cold_summaries \<Longrightarrow>
   length (as_cold_context (maintain_context sid t s)) \<le> max_cold_summaries"
  by (simp_all add: maintain_context_def create_periodic_summary_def Let_def keep_newest_le)

text \<open>What the common tail of both ways of adding leaves in each field.\<close>

lemma finish_update_fields:
  "as_metadata (finish_update cid sid t now u s) = as_metadata s"
  "as_hot_context (finish_update cid sid t now u s) = hot_push u (as_hot_context s)"
  "as_warm_context (finish_update cid sid t now u s) = as_warm_context s"
  "as_current_state (finish_update cid sid t now u s) = as_current_state s"
  "as_incremental_updates (finish_update cid sid t now u s) = as_incremental_updates s @ [u]"
  "as_code_references (finish_update cid sid t now u s) =
     (case cu_related_code u of None \<Rightarrow> as_code_references s | Some r \<Rightarrow> add_code_reference r (as_code_references s))"
  "as_change_history (finish_update cid sid t now u s) = as_change_history (record_change cid u s)"
  "as_entity_graph (finish_update cid sid t now u s) = as_entity_graph s"
  "as_vectorized_update_ids (finish_update cid sid t now u s) = as_vectorized_update_ids s"
  "length (as_cold_context s) \<le> max_cold_summaries \<Longrightarrow>
   length (as_cold_context (finish_update cid sid t now u s)) \<le> max_cold_summaries"
  by (cases "cu_related_code u"; simp add: finish_update_def Let_def maintain_context_fields record_change_def)+

lemma hot_of_session_push:
  assumes "hot_of_session s" and "cu_id u \<notin> record_ids s"
  shows "hot_of_session (finish_update cid sid t now u (s\<lparr>as_current_state := x, as_entity_graph := y\<rparr>))"
proof -
  have ok: "hot_ok (as_hot_context s)" and sub: "subseq (hot_snapshot (as_hot_context s)) (as_incremental_updates s)"
    using assms(1) by (simp_all add: hot_of_session_def)
  obtain xs where xs: "subseq xs (hot_snapshot (as_hot_context s))"
    "hot_snapshot (hot_push u (as_hot_context s)) = xs @ (if hc_max_size (as_hot_context s) = 0 then [] else [u])"
    using hot_snapshot_push [OF ok] by metis
  have "subseq (xs @ (if hc_max_size (as_hot_context s) = 0 then [] else [u])) (as_incremental_updates s @ [u])"
    using xs(1) sub by (intro list_emb_append_mono) auto
  then show ?thesis
    using assms ok xs(2) by (auto simp: hot_of_session_def finish_update_fields record_ids_def)
qed

lemma session_ok_finish:
  assumes ok: "session_ok P valid s" and new: "cu_id u \<notin> record_ids s"
    and g: "graph_ok P valid g" "mentions_in (insert (cu_id u) (record_ids s)) g"
  shows "session_ok P valid (finish_update cid sid t now u
    (s\<lparr>as_current_state := update_current_state u (as_current_state s), as_entity_graph := g\<rparr>))"
    (is "session_ok P valid ?s'")
proof (rule session_okI)
  note D = session_okD [OF ok]
  have ids: "record_ids ?s' = insert (cu_id u) (record_ids s)"
    by (simp add: record_ids_def finish_update_fields)
  show "hot_of_session ?s'" by (rule hot_of_session_push [OF D(1) new])
  show "graph_ok P valid (as_entity_graph ?s')" using g by (simp add: finish_update_fields)
  show "mentions_in (record_ids ?s') (as_entity_graph ?s')" using g ids by (simp add: finish_update_fields)
  show "flow_in (record_ids ?s') (as_current_state ?s')"
    unfolding ids using flow_in_update [OF D(4)] by (simp add: finish_update_fields)
  show "changes_in (record_ids ?s') (as_change_history ?s')"
    unfolding ids using D(5) by (auto simp: finish_update_fields record_change_def changes_in_def)
  show "refs_ok (as_code_references ?s')"
    using D(6) by (auto simp: finish_update_fields refs_ok_add split: option.split)
  show "length (as_cold_context ?s') \<le> max_cold_summaries"
    by (rule finish_update_fields(10)) (simp add: D(7))
qed

lemma session_ok_add_fast:
  assumes "session_ok P valid s" and "cu_id u \<notin> record_ids s"
  shows "session_ok P valid (add_incremental_update_fast cid sid t now u s)"
proof -
  have "mentions_in (insert (cu_id u) (record_ids s)) (as_entity_graph s)"
    using session_okD(3) [OF assms(1)] by (rule mentions_in_mono) blast
  from session_ok_finish [OF assms(1), of "limit_update u", OF _ session_okD(2) [OF assms(1)]] this assms(2)
  show ?thesis by (simp add: add_incremental_update_fast_def Let_def)
qed

lemma session_ok_add:
  assumes "entity_digraph P valid" and "session_ok P valid s" and "cu_id u \<notin> record_ids s"
  shows "session_ok P valid (add_incremental_update P clock cid sid t now u s)"
proof -
  let ?u = "limit_update u"
  let ?g = "apply_update P clock ?u (as_entity_graph s)"
  note D = session_okD [OF assms(2)]
  have g: "graph_ok P valid ?g" "mentions_in (insert (cu_id ?u) (record_ids s)) ?g"
    using entity_digraph.apply_update(1) [OF assms(1) D(2)] entity_digraph.mentions_in_apply [OF assms(1) D(2,3)] by blast+
  show ?thesis
    using session_ok_finish [OF assms(2), of ?u, OF _ g] assms(3)
    by (simp add: add_incremental_update_def update_entity_graph_def Let_def)
qed

subsection \<open>Removing\<close>

definition lists_hot_keys :: "nat list \<Rightarrow> 'g active_session \<Rightarrow> bool" where
  "lists_hot_keys order s \<longleftrightarrow> set order = fst ` set (hc_updates (as_hot_context s))"

lemma hot_distinct: "hot_of_session s \<Longrightarrow> distinct (map cu_id (hot_snapshot (as_hot_context s)))"
  unfolding hot_of_session_def by (metis subseq_map subseq_distinct)

lemma remove_hot:
  fixes e :: uuid
  assumes h: "hot_of_session s" and order: "lists_hot_keys order s"
  defines "h' \<equiv> (if hot_contains_id e (as_hot_context s) then fst (hot_remove_by_id order e (as_hot_context s))
    else as_hot_context s)"
  shows "hot_ok h'" and "hc_max_size h' = hc_max_size (as_hot_context s)"
    and "hot_snapshot h' = filter (\<lambda>u. cu_id u \<noteq> e) (hot_snapshot (as_hot_context s))"
proof -
  have ok: "hot_ok (as_hot_context s)" using h by (simp add: hot_of_session_def)
  note R = hot_remove [OF ok order [unfolded lists_hot_keys_def], of e]
  show "hot_ok h'" using ok R(1) by (simp add: h'_def)
  show "hc_max_size h' = hc_max_size (as_hot_context s)"
    by (simp add: h'_def hot_remove_by_id_def split: option.split)
  have "filter (\<lambda>u. cu_id u \<noteq> e) (hot_snapshot (as_hot_context s)) = hot_snapshot (as_hot_context s)"
    if "\<not> hot_contains_id e (as_hot_context s)"
    using that by (intro filter_all) (auto simp: hot_contains_id_eq [OF ok])
  then show "hot_snapshot h' = filter (\<lambda>u. cu_id u \<noteq> e) (hot_snapshot (as_hot_context s))"
    using R(4) [OF hot_distinct [OF h]] by (auto simp: h'_def)
qed

lemma remove_item_flow [simp]: "sc_conversation_flow (remove_item u sc) = sc_conversation_flow sc"
  by (simp add: remove_item_def split: update_type.split)

lemma remove_derived_flow:
  "flow_in I sc \<Longrightarrow> sc_conversation_flow (remove_derived_state u sc) =
     filter (\<lambda>f. fi_related_updates f \<noteq> [])
       (map (\<lambda>f. f\<lparr>fi_related_updates := filter (\<lambda>i. i \<noteq> cu_id u) (fi_related_updates f)\<rparr>) (sc_conversation_flow sc))"
proof (cases "list_ex (\<lambda>f. cu_id u \<in> set (fi_related_updates f)) (sc_conversation_flow sc)")
  case True
  then show ?thesis by (simp add: remove_derived_state_def Let_def)
next
  case False
  assume f: "flow_in I sc"
  have "map (\<lambda>f. f\<lparr>fi_related_updates := filter (\<lambda>i. i \<noteq> cu_id u) (fi_related_updates f)\<rparr>) (sc_conversation_flow sc) =
      sc_conversation_flow sc"
  proof (rule map_idI)
    fix x assume x: "x \<in> set (sc_conversation_flow sc)"
    then have "filter (\<lambda>i. i \<noteq> cu_id u) (fi_related_updates x) = fi_related_updates x"
      using False by (intro filter_all) (auto simp: list_ex_iff)
    then show "x\<lparr>fi_related_updates := filter (\<lambda>i. i \<noteq> cu_id u) (fi_related_updates x)\<rparr> = x" by simp
  qed
  moreover have "filter (\<lambda>f. fi_related_updates f \<noteq> []) (sc_conversation_flow sc) = sc_conversation_flow sc"
    using f by (intro filter_all) (simp add: flow_in_def)
  ultimately show ?thesis using False by (simp add: remove_derived_state_def Let_def)
qed

lemma flow_in_remove: "flow_in I sc \<Longrightarrow> flow_in (I - {cu_id u}) (remove_derived_state u sc)"
  by (frule remove_derived_flow [where u = u]) (fastforce simp: flow_in_def)

lemma remove_first_subset: "set (remove_first p xs) \<subseteq> set xs"
  by (induction xs) auto

lemma refs_ok_remove: "refs_ok m \<Longrightarrow> refs_ok (remove_code_reference r m)"
  using remove_first_subset
  by (fastforce simp: refs_ok_def remove_code_reference_def Let_def split: option.splits if_splits)

lemma find_update_id: "find_update e s = Some u \<Longrightarrow> cu_id u = e"
  by (auto simp: find_update_def hot_find_def find_Some_iff split: option.splits)

lemma session_ok_remove:
  assumes G: "entity_digraph P valid" and ok: "session_ok P valid s" and order: "lists_hot_keys order s"
  shows "session_ok P valid (fst (remove_update_by_id order e s))"
    and "record_ids (fst (remove_update_by_id order e s)) = record_ids s - {e}"
proof -
  note D = session_okD [OF ok]
  let ?s = "fst (remove_update_by_id order e s)"
  have "session_ok P valid ?s \<and> record_ids ?s = record_ids s - {e}"
  proof (cases "find_update e s")
    case None
    then have "\<forall>u \<in> set (as_incremental_updates s). cu_id u \<noteq> e"
      by (auto simp: find_update_def find_None_iff split: option.splits)
    then show ?thesis using ok None by (auto simp: remove_update_by_id_def record_ids_def)
  next
    case (Some u)
    note uid = find_update_id [OF Some]
    note H = remove_hot [OF D(1) order, of e]
    have ids: "record_ids ?s = record_ids s - {e}"
      by (auto simp: remove_update_by_id_def Some record_ids_def)
    have "session_ok P valid ?s"
    proof (rule session_okI)
      show "hot_of_session ?s"
        using D(1) H by (auto simp: hot_of_session_def remove_update_by_id_def Some distinct_map_filter subseq_filter)
      show "graph_ok P valid (as_entity_graph ?s)"
        by (simp add: remove_update_by_id_def Some entity_digraph.remove_mentions_ok [OF G D(2)])
      show "mentions_in (record_ids ?s) (as_entity_graph ?s)" unfolding ids
        by (simp add: remove_update_by_id_def Some mentions_in_remove [OF D(3) graph_okD(5) [OF D(2)]])
      show "flow_in (record_ids ?s) (as_current_state ?s)" unfolding ids
        using flow_in_remove [OF D(4), of u] by (simp add: remove_update_by_id_def Some uid)
      show "changes_in (record_ids ?s) (as_change_history ?s)" unfolding ids
        using D(5) by (auto simp: remove_update_by_id_def Some changes_in_def)
      show "refs_ok (as_code_references ?s)"
        using D(6) by (auto simp: remove_update_by_id_def Some refs_ok_remove split: option.split)
      show "length (as_cold_context ?s) \<le> max_cold_summaries"
        using D(7) by (simp add: remove_update_by_id_def Some)
    qed
    then show ?thesis using ids by blast
  qed
  then show "session_ok P valid ?s" and "record_ids ?s = record_ids s - {e}" by blast+
qed

subsection \<open>Retiring and rebuilding\<close>

lemma replace_first_map:
  "distinct (map cu_id us) \<Longrightarrow>
   replace_first (\<lambda>u. cu_id u = e) x us = map (\<lambda>u. if cu_id u = e then x else u) us"
proof (induction us)
  case (Cons u us)
  have "map (\<lambda>v. if cu_id v = e then x else v) us = us" if "cu_id u = e"
    using Cons.prems that by (intro map_idI) (auto simp: image_iff)
  then show ?case using Cons by auto
qed simp

lemma hot_snapshot_length: "hot_ok h \<Longrightarrow> length (hot_snapshot h) \<le> hc_max_size h"
proof -
  assume ok: "hot_ok h"
  have "length (hot_snapshot h) = card (fst ` set (hc_updates h))"
    using bt_ok_distinct [of "hc_updates h"] distinct_card [of "map fst (hc_updates h)"] ok
    by (simp add: hot_snapshot_eq hot_ok_def)
  also have "\<dots> \<le> card (set (hot_range h))"
    using ok by (intro card_mono) (auto simp: hot_ok_def)
  finally show ?thesis by (simp add: hot_range_def)
qed

lemma hot_from_same:
  assumes "length us \<le> n"
  shows "hot_ok (hot_from_updates us n)" and "hot_snapshot (hot_from_updates us n) = us"
    and "hc_max_size (hot_from_updates us n) = n"
  using hot_from_updates [of us n] hot_holds_snapshot [OF hot_from_updates(1), of us n] assms
  by (simp_all add: hot_holds_def)

definition retired_version :: "datetime \<Rightarrow> context_update \<Rightarrow> context_update" where
  "retired_version t u = u\<lparr>cu_meta := (cu_meta u)\<lparr>um_retired_at := Some t\<rparr>\<rparr>"

lemma retired_version_id [simp]: "cu_id (retired_version t u) = cu_id u"
  by (simp add: retired_version_def)

text \<open>Retiring changes one record, in the list and in the hot tier alike.\<close>

lemma retire_fields:
  fixes t :: datetime
  assumes h: "hot_of_session s" and find: "List.find (\<lambda>u. cu_id u = e) (as_incremental_updates s) = Some u"
    and live: "um_retired_at (cu_meta u) = None"
  defines "s' \<equiv> fst (retire_update e t s)" and "f \<equiv> (\<lambda>v. if cu_id v = e then retired_version t u else v)"
  shows "snd (retire_update e t s) = Some (retired_version t u)"
    and "as_incremental_updates s' = map f (as_incremental_updates s)"
    and "hot_snapshot (as_hot_context s') = map f (hot_snapshot (as_hot_context s))"
    and "hot_ok (as_hot_context s')" and "hc_max_size (as_hot_context s') = hc_max_size (as_hot_context s)"
proof -
  have ok: "hot_ok (as_hot_context s)" and d: "distinct (map cu_id (as_incremental_updates s))"
    and mx: "hc_max_size (as_hot_context s) = up_max_hot_context_size (sm_user_preferences (as_metadata s))"
    using h by (simp_all add: hot_of_session_def)
  note R = retire_update_def Let_def find live
  show "snd (retire_update e t s) = Some (retired_version t u)"
    using live by (simp add: R retired_version_def)
  show "as_incremental_updates s' = map f (as_incremental_updates s)"
    using live by (simp add: s'_def f_def R replace_first_map [OF d] retired_version_def)
  note len = hot_snapshot_length [OF ok, unfolded mx]
  have hot: "as_hot_context s' = (if hot_contains_id e (as_hot_context s)
      then hot_from_updates (map f (hot_snapshot (as_hot_context s)))
        (up_max_hot_context_size (sm_user_preferences (as_metadata s)))
      else as_hot_context s)"
    unfolding s'_def f_def retired_version_def by (simp add: R)
  have same: "map f (hot_snapshot (as_hot_context s)) = hot_snapshot (as_hot_context s)"
    if "\<not> hot_contains_id e (as_hot_context s)"
    using that by (intro map_idI) (auto simp: f_def hot_contains_id_eq [OF ok])
  show "hot_snapshot (as_hot_context s') = map f (hot_snapshot (as_hot_context s))"
    and "hot_ok (as_hot_context s')" and "hc_max_size (as_hot_context s') = hc_max_size (as_hot_context s)"
    using hot_from_same [of "map f (hot_snapshot (as_hot_context s))"] len same ok mx by (simp_all add: hot)
qed

lemma retire_other_fields:
  "as_metadata (fst (retire_update e t s)) = as_metadata s"
  "as_entity_graph (fst (retire_update e t s)) = as_entity_graph s"
  "as_current_state (fst (retire_update e t s)) = as_current_state s"
  "as_change_history (fst (retire_update e t s)) = as_change_history s"
  "as_code_references (fst (retire_update e t s)) = as_code_references s"
  "as_cold_context (fst (retire_update e t s)) = as_cold_context s"
  by (auto simp: retire_update_def Let_def split: option.split)

lemma session_ok_retire:
  assumes ok: "session_ok P valid s"
  shows "session_ok P valid (fst (retire_update e t s))"
    and "record_ids (fst (retire_update e t s)) = record_ids s"
proof -
  note D = session_okD [OF ok]
  let ?s = "fst (retire_update e t s)"
  have "hot_of_session ?s \<and> record_ids ?s = record_ids s"
  proof (cases "\<exists>u. List.find (\<lambda>u. cu_id u = e) (as_incremental_updates s) = Some u \<and> um_retired_at (cu_meta u) = None")
    case True
    then obtain u where u: "List.find (\<lambda>u. cu_id u = e) (as_incremental_updates s) = Some u"
      "um_retired_at (cu_meta u) = None" by blast
    note F = retire_fields [OF D(1) u, of t]
    let ?f = "\<lambda>v. if cu_id v = e then retired_version t u else v"
    have uid: "cu_id u = e" using u(1) by (auto simp: find_Some_iff)
    then have fid: "cu_id (?f v) = cu_id v" for v by simp
    have "map cu_id (map ?f xs) = map cu_id xs" for xs by (induction xs) (simp_all only: list.map fid)
    note ids = this
    have "distinct (map cu_id (map ?f (as_incremental_updates s)))"
      unfolding ids using D(1) by (simp add: hot_of_session_def)
    moreover have "record_ids ?s = record_ids s"
      unfolding record_ids_def F(2) by (simp only: set_map [symmetric] ids)
    moreover have "subseq (map ?f (hot_snapshot (as_hot_context s))) (map ?f (as_incremental_updates s))"
      using D(1) by (intro subseq_map) (simp add: hot_of_session_def)
    ultimately show ?thesis
      using D(1) F(4) unfolding hot_of_session_def F retire_other_fields by blast
  next
    case False
    then have "?s = s" by (auto simp: retire_update_def Let_def split: option.split)
    then show ?thesis using D(1) by simp
  qed
  then show "session_ok P valid ?s" and "record_ids ?s = record_ids s"
    using D by (auto intro!: session_okI simp: retire_other_fields)
qed

lemma session_ok_graph:
  assumes "session_ok P valid s" and "graph_ok P valid g" and "mentions_in (record_ids s) g"
  shows "session_ok P valid (s\<lparr>as_entity_graph := g\<rparr>)"
  using session_okD [OF assms(1)] assms(2,3)
  by (auto intro!: session_okI simp: hot_of_session_def record_ids_def)

lemma session_ok_rebuild:
  assumes G: "entity_digraph P valid" and ok: "session_ok P valid s"
  shows "session_ok P valid (rebuild_entity_graph P clocks mclocks s)"
proof -
  have A: "graph_ok P valid (apply_updates P clocks (as_incremental_updates s) (new_graph P))"
    "mentions_in (record_ids s) (apply_updates P clocks (as_incremental_updates s) (new_graph P))"
    using entity_digraph.apply_updates_keeps [OF G entity_digraph.graph_ok_new [OF G], of "record_ids s"]
    by (simp_all add: record_ids_def)
  show ?thesis
    unfolding rebuild_entity_graph_def
    using session_ok_graph [OF ok] entity_digraph.run_merges_keeps [OF G A] by blast
qed

lemma session_ok_relink:
  assumes "entity_digraph P valid" and "session_ok P valid s"
  shows "session_ok P valid (relink_entity_mentions s)"
  unfolding relink_entity_mentions_def
  using session_ok_graph [OF assms(2)] entity_digraph.relink_mentions(1) [OF assms(1) session_okD(2) [OF assms(2)]]
    entity_digraph.mentions_in_relink [OF assms(1) session_okD(2) [OF assms(2)]]
  unfolding record_ids_def by blast

text \<open>The graph part of a fast update, applied later, keeps the invariant while the record is stored.\<close>

lemma session_ok_graph_update:
  assumes G: "entity_digraph P valid" and ok: "session_ok P valid s" and u: "cu_id u \<in> record_ids s"
  shows "session_ok P valid (update_entity_graph P clock u s)"
proof -
  note D = session_okD [OF ok]
  have "mentions_in (record_ids s) (apply_update P clock u (as_entity_graph s))"
    using entity_digraph.mentions_in_apply [OF G D(2,3), of u clock] u by (simp add: insert_absorb)
  then show ?thesis
    unfolding update_entity_graph_def
    by (intro session_ok_graph [OF ok] entity_digraph.apply_update(1) [OF G D(2)])
qed

lemma session_ok_metadata:
  assumes "session_ok P valid s" and "sm_user_preferences m = sm_user_preferences (as_metadata s)"
  shows "session_ok P valid (s\<lparr>as_metadata := m, as_last_updated := t\<rparr>)"
  using session_okD [OF assms(1)] assms(2)
  by (auto intro!: session_okI simp: hot_of_session_def record_ids_def)

lemma session_ok_new: "entity_digraph P valid \<Longrightarrow> session_ok P valid (new_session P i name d t now)"
  by (rule session_okI)
    (auto simp: new_session_def hot_of_session_def default_preferences_def new_hot_def hot_ok_def hot_snapshot_def hot_range_def
      map_filter_def entity_digraph.graph_ok_new flow_in_def new_context_def changes_in_def refs_ok_def max_cold_summaries_def)

section \<open>Reachable sessions\<close>

text \<open>
  A record is added under a new id, its graph part now or later while it is stored;
  \<open>order\<close> lists the keys of the hot tier.
\<close>

inductive session_step :: "'g pg \<Rightarrow> 'g active_session \<Rightarrow> 'g active_session \<Rightarrow> bool" for P where
  ses_add: "cu_id u \<notin> record_ids s \<Longrightarrow> session_step P s (add_incremental_update P clock cid sid t now u s)"
| ses_add_fast: "cu_id u \<notin> record_ids s \<Longrightarrow> session_step P s (add_incremental_update_fast cid sid t now u s)"
| ses_graph: "cu_id u \<in> record_ids s \<Longrightarrow> session_step P s (update_entity_graph P clock u s)"
| ses_remove: "lists_hot_keys order s \<Longrightarrow> session_step P s (fst (remove_update_by_id order e s))"
| ses_retire: "session_step P s (fst (retire_update e t s))"
| ses_rebuild: "session_step P s (rebuild_entity_graph P clocks mclocks s)"
| ses_relink: "session_step P s (relink_entity_mentions s)"
| ses_name: "session_step P s (set_name name now s)"
| ses_description: "session_step P s (set_description d now s)"
| ses_metadata: "session_step P s (update_metadata name d now s)"

inductive session_reach :: "'g pg \<Rightarrow> 'g active_session \<Rightarrow> bool" for P where
  ses_new: "session_reach P (new_session P i name d t now)"
| ses_step: "session_reach P s \<Longrightarrow> session_step P s s' \<Longrightarrow> session_reach P s'"

lemma session_step_ok:
  assumes "entity_digraph P valid" and "session_step P s s'" and "session_ok P valid s"
  shows "session_ok P valid s'"
  using assms(2,3)
proof (induction rule: session_step.induct)
  case (ses_name s name now)
  then show ?case unfolding set_name_def by (rule session_ok_metadata) simp
next
  case (ses_description s d now)
  then show ?case unfolding set_description_def by (rule session_ok_metadata) simp
next
  case (ses_metadata s name d now)
  then show ?case unfolding update_metadata_def Let_def by (rule session_ok_metadata) simp
qed (simp_all add: session_ok_add session_ok_add_fast session_ok_graph_update session_ok_remove session_ok_retire
    session_ok_rebuild session_ok_relink assms(1))

lemma session_reach_ok:
  assumes "entity_digraph P valid" and "session_reach P s"
  shows "session_ok P valid s"
  using assms(2) by induction (simp_all add: session_ok_new session_step_ok assms(1))

end
