(* ===== verification/Active_Session_Props.thy ===== *)
theory Active_Session_Props
  imports Active_Session_Inv Temporal_Props
begin

text \<open>
  What a session promises: its invariant, removal as the inverse of adding, no trace of a
  removed record, the stored form, retirement and the intervals of its records, and the two
  views of what still waits for its embedding.
\<close>

section \<open>Adding, then removing\<close>

definition has_item :: "context_update \<Rightarrow> structured_context \<Rightarrow> bool" where
  "has_item u sc =
     (case cu_update_type u of
        QuestionAnswered \<Rightarrow> list_ex (\<lambda>q. is_item_of u (qi_question q) (qi_timestamp q)) (sc_open_questions sc)
      | DecisionMade \<Rightarrow> list_ex (\<lambda>d. is_item_of u (di_description d) (di_timestamp d)) (sc_key_decisions sc)
      | ConceptDefined \<Rightarrow> list_ex (\<lambda>c. is_item_of u (ci_name c) (ci_timestamp c)) (sc_key_concepts sc)
      | RequirementAdded \<Rightarrow>
          list_ex (\<lambda>r. is_item_of u (si_title r) (si_timestamp r)) (sc_technical_specifications sc)
      | _ \<Rightarrow> False)"

lemma remove_first_last: "\<not> list_ex p xs \<Longrightarrow> p x \<Longrightarrow> remove_first p (xs @ [x]) = xs"
  by (induction xs) auto

lemma remove_derived_undo:
  assumes "flow_in I sc" and "cu_id u \<notin> I" and "\<not> has_item u sc"
  shows "remove_derived_state u (update_current_state u sc) = sc"
proof -
  have oldmap: "map (\<lambda>f. f\<lparr>fi_related_updates := filter (\<lambda>i. i \<noteq> cu_id u) (fi_related_updates f)\<rparr>)
      (sc_conversation_flow sc) = sc_conversation_flow sc"
  proof (rule map_idI)
    fix f assume f: "f \<in> set (sc_conversation_flow sc)"
    then have "filter (\<lambda>i. i \<noteq> cu_id u) (fi_related_updates f) = fi_related_updates f"
      using assms(1,2) by (intro filter_all) (auto simp: flow_in_def)
    then show "f\<lparr>fi_related_updates := filter (\<lambda>i. i \<noteq> cu_id u) (fi_related_updates f)\<rparr> = f" by simp
  qed
  have oldfilter: "filter (\<lambda>f. fi_related_updates f \<noteq> []) (sc_conversation_flow sc) = sc_conversation_flow sc"
    using assms(1) by (intro filter_all) (simp add: flow_in_def)
  have new: "fi_related_updates (flow_of k u) = [cu_id u]" for k by (simp add: flow_of_def)
  show ?thesis
    using assms(3)
    by (cases "cu_update_type u")
      (simp_all add: remove_derived_state_def update_current_state_def push_flow_def Let_def new oldmap oldfilter
        remove_item_def has_item_def remove_first_last is_item_of_def)
qed

lemma remove_code_undo:
  assumes "refs_ok m" and "r \<notin> set (unwrap_or (m (cr_file_path r)) [])"
  shows "remove_code_reference r (add_code_reference r m) = m"
proof -
  let ?match = "\<lambda>x. cr_start_line x = cr_start_line r \<and> cr_end_line x = cr_end_line r \<and>
    cr_code_snippet x = cr_code_snippet r \<and> cr_change_description x = cr_change_description r \<and>
    cr_commit_hash x = cr_commit_hash r \<and> cr_branch x = cr_branch r"
  let ?rs = "unwrap_or (m (cr_file_path r)) []"
  have "\<not> ?match x" if "x \<in> set ?rs" for x
  proof
    assume "?match x"
    moreover have "cr_file_path x = cr_file_path r"
      using assms(1) that by (cases "m (cr_file_path r)") (auto simp: refs_ok_def)
    ultimately have "x = r" by simp
    then show False using assms(2) that by simp
  qed
  then have none: "\<not> list_ex ?match ?rs" by (auto simp: list_ex_iff)
  have "m (cr_file_path r) = (if ?rs = [] then None else Some ?rs)"
    using assms(1) by (cases "m (cr_file_path r)") (auto simp: refs_ok_def)
  then show ?thesis
    using none remove_first_last [OF none]
    by (auto simp: remove_code_reference_def add_code_reference_def Let_def fun_eq_iff)
qed

lemma mentions_undo:
  assumes G: "entity_digraph P valid" and ok: "graph_ok P valid g" and m: "mentions_in I g" and new: "cu_id u \<notin> I"
  shows "map_of (eg_entity_mentions (remove_mentions (cu_id u) (apply_update P clock u g))) = map_of (eg_entity_mentions g)"
proof
  fix c
  let ?g = "apply_update P clock u g"
  have ok': "graph_ok P valid ?g" by (rule entity_digraph.apply_update(1) [OF G ok])
  note R = remove_mentions_map [OF entity_digraph.mentions_in_apply [OF G ok m, of u clock] graph_okD(5) [OF ok'],
    where e = "cu_id u" and n = c]
  have notin: "filter (\<lambda>i. i \<noteq> cu_id u) (unwrap_or (map_of (eg_entity_mentions g) c) []) = unwrap_or (map_of (eg_entity_mentions g) c) []"
    using mentions_in_unwrap [OF m, of c] new by (intro filter_all) auto
  then have "filter (\<lambda>i. i \<noteq> cu_id u) (add_id (cu_id u) (unwrap_or (map_of (eg_entity_mentions g) c) [])) =
      unwrap_or (map_of (eg_entity_mentions g) c) []"
    by (simp add: add_id_def)
  then show "map_of (eg_entity_mentions (remove_mentions (cu_id u) ?g)) c = map_of (eg_entity_mentions g) c"
    using R notin m
    by (cases "map_of (eg_entity_mentions g) c")
      (auto simp: entity_digraph.apply_update(5) [OF G ok] mentions_in_def Let_def)
qed

lemma find_update_new:
  assumes "cu_id u \<notin> record_ids s"
  shows "find_update (cu_id u) (add_incremental_update P clock cid sid t now u s) = Some (limit_update u)"
proof -
  have "List.find (\<lambda>v. cu_id v = cu_id u) (as_incremental_updates s @ [limit_update u]) = Some (limit_update u)"
    by (subst find_append_None) (use assms in \<open>auto simp: record_ids_def image_iff\<close>)
  then show ?thesis
    by (simp add: find_update_def add_incremental_update_def finish_update_fields update_entity_graph_def Let_def)
qed

lemma add_fields:
  "as_hot_context (add_incremental_update P clock cid sid t now u s) = hot_push (limit_update u) (as_hot_context s)"
  "as_warm_context (add_incremental_update P clock cid sid t now u s) = as_warm_context s"
  "as_current_state (add_incremental_update P clock cid sid t now u s) = update_current_state (limit_update u) (as_current_state s)"
  "as_incremental_updates (add_incremental_update P clock cid sid t now u s) = as_incremental_updates s @ [limit_update u]"
  "as_code_references (add_incremental_update P clock cid sid t now u s) =
     (case cu_related_code u of None \<Rightarrow> as_code_references s | Some r \<Rightarrow> add_code_reference r (as_code_references s))"
  "\<exists>c. as_change_history (add_incremental_update P clock cid sid t now u s) = as_change_history s @ [c] \<and>
     ch_related_update_id c = Some (cu_id u)"
  "as_entity_graph (add_incremental_update P clock cid sid t now u s) = apply_update P clock (limit_update u) (as_entity_graph s)"
  by (cases "cu_related_code u";
      simp add: add_incremental_update_def finish_update_fields update_entity_graph_def record_change_def Let_def limit_update_def)+

lemma remove_fields:
  fixes order :: "nat list"
  assumes "find_update e s = Some v"
  defines "s' \<equiv> fst (remove_update_by_id order e s)"
  shows "as_warm_context s' = filter (\<lambda>c. cu_id (cz_update c) \<noteq> e) (as_warm_context s)"
    and "as_incremental_updates s' = filter (\<lambda>u. cu_id u \<noteq> e) (as_incremental_updates s)"
    and "as_change_history s' = filter (\<lambda>c. ch_related_update_id c \<noteq> Some e) (as_change_history s)"
    and "as_current_state s' = remove_derived_state v (as_current_state s)"
    and "as_code_references s' = (case cu_related_code v of None \<Rightarrow> as_code_references s
      | Some r \<Rightarrow> remove_code_reference r (as_code_references s))"
    and "as_entity_graph s' = remove_mentions e (as_entity_graph s)"
    and "as_hot_context s' = (if hot_contains_id e (as_hot_context s)
      then fst (hot_remove_by_id order e (as_hot_context s)) else as_hot_context s)"
    and "snd (remove_update_by_id order e s)"
  by (simp_all add: s'_def remove_update_by_id_def assms(1))

section \<open>Retiring and the intervals\<close>

text \<open>The derivation of the intervals reads \<open>retired_at\<close> in its last pass only.\<close>

definition same_but_retired :: "context_update \<Rightarrow> context_update \<Rightarrow> bool" where
  "same_but_retired u v \<longleftrightarrow> (\<exists>t. v = u\<lparr>cu_meta := (cu_meta u)\<lparr>um_retired_at := t\<rparr>\<rparr>)"

lemma same_but_retiredD:
  assumes "same_but_retired u v"
  shows "cu_id v = cu_id u" "cu_timestamp v = cu_timestamp u" "cu_content v = cu_content u"
    "cu_update_type v = cu_update_type u" "cu_creates_relationships v = cu_creates_relationships u"
    "um_supersedes (cu_meta v) = um_supersedes (cu_meta u)" "record_valid_from v = record_valid_from u"
    "mentioned_names v = mentioned_names u" "full_text v = full_text u" "subject v = subject u"
  using assms by (auto simp: same_but_retired_def record_valid_from_def mentioned_names_def full_text_def subject_def fun_eq_iff)

lemma end_record_same:
  assumes "same_but_retired u v" shows "end_record old v = end_record old u"
  by (intro ext) (unfold end_record_def same_but_retiredD [OF assms], rule refl)

lemma supersede_same:
  assumes "same_but_retired u v" shows "supersede_step v = supersede_step u"
  by (intro ext) (unfold supersede_step_def same_but_retiredD [OF assms] end_record_same [OF assms], rule refl)

lemma relation_same:
  assumes "same_but_retired u v" shows "relation_step g v = relation_step g u"
  by (intro ext) (unfold relation_step_def same_but_retiredD [OF assms] end_record_same [OF assms], rule refl)

lemma restate_one_same:
  assumes "same_but_retired (os ! i) (os' ! i)" and "same_but_retired (os ! j) (os' ! j)"
  shows "restate_one os' i j = restate_one os i j"
  by (intro ext) (unfold restate_one_def Let_def same_but_retiredD [OF assms(1)] same_but_retiredD [OF assms(2)]
      end_record_same [OF assms(1)], rule refl)

definition slots_below :: "nat \<Rightarrow> validity_state \<Rightarrow> bool" where
  "slots_below n st \<longleftrightarrow> (\<forall>k slot. vs_by_subject st k = Some slot \<longrightarrow> set slot \<subseteq> {..<n})"

lemma validity_step_same:
  assumes same: "\<And>i. i < n \<Longrightarrow> same_but_retired (os ! i) (os' ! i)" and i: "i < n" and sl: "slots_below n st"
  shows "validity_step g os' i st = validity_step g os i st" and "slots_below n (validity_step g os i st)"
proof -
  note S = same [OF i]
  define st1 where "st1 = fold (relation_step g (os ! i)) (cu_creates_relationships (os ! i)) (supersede_step (os ! i) st)"
  have "vs_by_subject (fold (relation_step g u) rels st0) = vs_by_subject st0" for u rels st0
    by (induction rels arbitrary: st0) (simp_all add: relation_step_def Let_def)
  then have sl1: "slots_below n st1"
    using sl by (simp add: st1_def slots_below_def supersede_step_def)
  have slot: "j < n" if "j \<in> set (unwrap_or (vs_by_subject st1 k) [])" for j k
  proof (cases "vs_by_subject st1 k")
    case (Some slot)
    then have "set slot \<subseteq> {..<n}" using sl1 unfolding slots_below_def by blast
    then show ?thesis using that Some by auto
  qed (use that in simp)
  have "fold (restate_one os' i) (unwrap_or (vs_by_subject st1 k) []) = fold (restate_one os i) (unwrap_or (vs_by_subject st1 k) [])" for k
    by (rule ext, rule fold_cong [OF refl refl], rule restate_one_same [OF S same]) (rule slot)
  then have "restate_step g os' i st1 = restate_step g os i st1"
    by (simp add: restate_step_def Let_def same_but_retiredD [OF S])
  then show "validity_step g os' i st = validity_step g os i st"
    by (simp add: validity_step_def Let_def same_but_retiredD [OF S] relation_same [OF S] supersede_same [OF S] st1_def)
  have "slots_below n (restate_step g os i st1)"
    using sl1 slot i unfolding slots_below_def restate_step_def Let_def by (fastforce split: if_splits)
  then show "slots_below n (validity_step g os i st)"
    by (simp add: validity_step_def Let_def st1_def)
qed

lemma validity_steps_same:
  assumes "\<And>i. i < n \<Longrightarrow> same_but_retired (os ! i) (os' ! i)" and "set is \<subseteq> {..<n}" and "slots_below n st"
  shows "fold (validity_step g os') is st = fold (validity_step g os) is st"
  using assms(2,3)
proof (induction "is" arbitrary: st)
  case (Cons i "is")
  then have "i < n" by simp
  note V = validity_step_same [OF assms(1) this Cons.prems(2)]
  show ?case using Cons.IH [of "validity_step g os i st"] Cons.prems by (simp add: V)
qed simp

lemma initial_validity_same:
  "list_all2 same_but_retired os os' \<Longrightarrow> initial_validity os' = initial_validity os"
proof -
  have "list_all2 same_but_retired os os' \<Longrightarrow>
    fold (\<lambda>u out. out(cu_id u \<mapsto> \<lparr>va_valid_from = record_valid_from u, va_valid_to = None, va_ended_by = None, va_reason = None\<rparr>)) os' m =
    fold (\<lambda>u out. out(cu_id u \<mapsto> \<lparr>va_valid_from = record_valid_from u, va_valid_to = None, va_ended_by = None, va_reason = None\<rparr>)) os m" for m
    by (induction os os' arbitrary: m rule: list_all2_induct) (simp_all add: same_but_retiredD)
  then show "list_all2 same_but_retired os os' \<Longrightarrow> initial_validity os' = initial_validity os"
    by (simp add: initial_validity_def)
qed

text \<open>The intervals before the last pass, and that pass alone afterwards.\<close>

definition intervals_before :: "context_update list \<Rightarrow> 'g entity_graph \<Rightarrow> validity_map" where
  "intervals_before us g =
     (let os = time_order us in
      vs_out (fold (validity_step g os) [0..<length os]
        \<lparr>vs_out = initial_validity os, vs_by_subject = Map.empty, vs_by_pair = Map.empty\<rparr>))"

lemma validity_retire:
  assumes d: "distinct (map cu_id us)" and u: "u \<in> set us"
  shows "validity_of us g (cu_id u) = map_option (retire u) (intervals_before us g (cu_id u))"
proof -
  have "mset (map cu_id (time_order us)) = mset (map cu_id us)" by (simp add: time_order_def)
  then have "distinct (map cu_id (time_order us))" using d mset_eq_imp_distinct_iff by blast
  from retire_fold(1) [OF this, of u] u show ?thesis
    by (simp add: validity_of_def intervals_before_def time_order_def Let_def)
qed

lemma intervals_before_same:
  assumes f: "\<And>u. same_but_retired u (f u)"
  shows "intervals_before (map f us) g = intervals_before us g"
proof -
  have ord: "time_order (map f us) = map f (time_order us)"
    unfolding time_order_def by (rule sort_key_map) (simp add: same_but_retiredD [OF f])
  have "list_all2 same_but_retired xs (map f xs)" for xs
    by (induction xs) (simp_all add: f)
  then have init: "initial_validity (map f (time_order us)) = initial_validity (time_order us)"
    by (rule initial_validity_same)
  have "fold (validity_step g (map f os)) [0..<length os] st = fold (validity_step g os) [0..<length os] st"
    if "slots_below (length os) st" for os st
    by (rule validity_steps_same [where n = "length os"]) (auto simp: f that)
  then show ?thesis
    by (simp add: intervals_before_def ord init Let_def slots_below_def)
qed

section \<open>The stored form\<close>

lemma map_of_ids_same:
  assumes "distinct (map cu_id us)" and "u \<in> set us" and "set vs \<subseteq> set us"
  shows "unwrap_or (map_of (rev (map (\<lambda>v. (cu_id v, v)) vs)) (cu_id u)) u = u"
proof (cases "map_of (rev (map (\<lambda>v. (cu_id v, v)) vs)) (cu_id u)")
  case (Some v)
  then have "(cu_id u, v) \<in> set (rev (map (\<lambda>v. (cu_id v, v)) vs))" by (rule map_of_SomeD)
  then have "v \<in> set vs" "cu_id v = cu_id u" by auto
  then have "v = u" using assms by (auto simp: distinct_map inj_on_def)
  then show ?thesis by (simp add: Some)
qed simp

lemma hot_sharing_same:
  assumes h: "hot_of_session s"
  shows "hot_snapshot (hot_context_sharing (hot_snapshot (as_hot_context s)) (as_incremental_updates s)
      (up_max_hot_context_size (sm_user_preferences (as_metadata s)))) = hot_snapshot (as_hot_context s)"
    (is "hot_snapshot (hot_context_sharing ?hot ?us ?n) = _")
proof -
  have sub: "set ?hot \<subseteq> set ?us" and d: "distinct (map cu_id ?us)"
    using h subseq_set by (auto simp: hot_of_session_def)
  have len: "length ?hot \<le> ?n"
    using h hot_snapshot_length by (metis hot_of_session_def)
  have "map (\<lambda>u. unwrap_or (map_of (rev (map (\<lambda>v. (cu_id v, v)) (drop k ?us))) (cu_id u)) u) ?hot = ?hot" for k
  proof (rule map_idI)
    fix u assume "u \<in> set ?hot"
    then have u: "u \<in> set ?us" using sub by blast
    show "unwrap_or (map_of (rev (map (\<lambda>v. (cu_id v, v)) (drop k ?us))) (cu_id u)) u = u"
      by (rule map_of_ids_same [OF d u set_drop_subset])
  qed
  then show ?thesis using hot_from_same(2) [OF len] by (simp add: hot_context_sharing_def Let_def)
qed

section \<open>A small session for the witnesses\<close>

definition demo_session :: "edge_data list_graph active_session" where
  "demo_session =
     add_incremental_update list_petgraph (\<lambda>_. 9) 100 101 0 12 (demo_record 2 11 ''Use a log'' [''log''] demo_meta)
       (add_incremental_update list_petgraph (\<lambda>_. 9) 100 101 0 10 (demo_record 1 10 ''Use a queue'' [''queue''] demo_meta)
         (new_session list_petgraph 5 None None 0 0))"

lemma demo_session_reach: "session_reach list_petgraph demo_session"
  unfolding demo_session_def
  by (intro ses_step [OF _ ses_add] ses_new)
    (simp_all add: record_ids_def new_session_def demo_record_def add_incremental_update_def finish_update_fields
      update_entity_graph_def Let_def)

lemma demo_session_ids: "record_ids demo_session = {1, 2}"
  by (simp add: demo_session_def record_ids_def new_session_def demo_record_def add_incremental_update_def
      finish_update_fields update_entity_graph_def Let_def insert_commute)

section \<open>Properties\<close>



text \<open>
  C14: removing a record undoes adding it. With a new id, and no item of the same title and
  time and no equal code reference there before, the records, the structured state, the code
  references, the change history, the warm tier and the mentions of every entity are what they
  were; the hot tier has at most lost records to the new one.
\<close>

theorem add_then_remove:
  assumes "digraph P valid" and "session_reach P s" and "cu_id u \<notin> record_ids s"
    and "\<forall>c \<in> set (as_warm_context s). cu_id (cz_update c) \<noteq> cu_id u"
    and "\<not> has_item (limit_update u) (as_current_state s)"
    and "\<forall>r. cu_related_code u = Some r \<longrightarrow> r \<notin> set (unwrap_or (as_code_references s (cr_file_path r)) [])"
    and "lists_hot_keys order (add_incremental_update P clock cid sid t now u s)"
  shows "let s1 = add_incremental_update P clock cid sid t now u s;
             s2 = fst (remove_update_by_id order (cu_id u) s1) in
    snd (remove_update_by_id order (cu_id u) s1) \<and>
    as_incremental_updates s2 = as_incremental_updates s \<and> as_current_state s2 = as_current_state s \<and>
    as_code_references s2 = as_code_references s \<and> as_change_history s2 = as_change_history s \<and>
    as_warm_context s2 = as_warm_context s \<and>
    map_of (eg_entity_mentions (as_entity_graph s2)) = map_of (eg_entity_mentions (as_entity_graph s)) \<and>
    subseq (hot_snapshot (as_hot_context s2)) (hot_snapshot (as_hot_context s))"
proof -
  note G = entity_digraph_iff [OF assms(1)]
  note ok = session_reach_ok [OF G assms(2)]
  note D = session_okD [OF ok]
  let ?u = "limit_update u" and ?s1 = "add_incremental_update P clock cid sid t now u s"
  have new: "cu_id ?u \<notin> record_ids s" using assms(3) by simp
  have D1: "session_ok P valid ?s1" by (rule session_ok_add [OF G ok assms(3)])
  let ?s2 = "fst (remove_update_by_id order (cu_id u) ?s1)"
  note R = remove_fields [OF find_update_new [OF assms(3)], where order = order]
  obtain c where c: "as_change_history ?s1 = as_change_history s @ [c]" "ch_related_update_id c = Some (cu_id u)"
    using add_fields(6) by metis
  have "as_incremental_updates ?s2 = as_incremental_updates s"
  proof -
    have "filter (\<lambda>v. cu_id v \<noteq> cu_id u) (as_incremental_updates s) = as_incremental_updates s"
      by (intro filter_all ballI) (metis assms(3) imageI record_ids_def)
    then show ?thesis by (simp add: R add_fields)
  qed
  moreover have "as_current_state ?s2 = as_current_state s"
    unfolding R add_fields by (rule remove_derived_undo [OF D(4) new assms(5)])
  moreover have "as_code_references ?s2 = as_code_references s"
    unfolding R add_fields using remove_code_undo [OF D(6)] assms(6)
    by (cases "cu_related_code u") (simp_all add: limit_update_def)
  moreover have "as_change_history ?s2 = as_change_history s"
    unfolding R c(1) using D(5) assms(3) c(2) by (auto simp: changes_in_def intro!: filter_all)
  moreover have "as_warm_context ?s2 = as_warm_context s"
    unfolding R add_fields using assms(4) by (intro filter_all) simp
  moreover have "map_of (eg_entity_mentions (as_entity_graph ?s2)) = map_of (eg_entity_mentions (as_entity_graph s))"
    unfolding R add_fields using mentions_undo [OF G D(2,3) new, of clock] by simp
  moreover have "subseq (hot_snapshot (as_hot_context ?s2)) (hot_snapshot (as_hot_context s))"
  proof -
    have "hot_snapshot (as_hot_context ?s2) = filter (\<lambda>v. cu_id v \<noteq> cu_id u) (hot_snapshot (as_hot_context ?s1))"
      using remove_hot(3) [OF session_okD(1) [OF D1] assms(7), of "cu_id u"] by (simp only: R)
    moreover obtain xs where "subseq xs (hot_snapshot (as_hot_context s))"
      "hot_snapshot (as_hot_context ?s1) = xs @ (if hc_max_size (as_hot_context s) = 0 then [] else [?u])"
      using hot_snapshot_push D(1) unfolding add_fields hot_of_session_def by metis
    ultimately show ?thesis
      by (auto intro: subseq_order.trans [OF subseq_filter_left])
  qed
  ultimately show ?thesis unfolding Let_def using R(8) by (intro conjI)
qed

theorem add_then_remove_witness:
  "as_current_state (fst (remove_update_by_id [0, 1, 2] 7
     (add_incremental_update list_petgraph (\<lambda>_. 9) 100 101 0 12 (demo_record 7 20 ''Use a table'' [''log''] demo_meta) demo_session)))
   = as_current_state demo_session"
proof -
  let ?u = "demo_record 7 20 ''Use a table'' [''log''] demo_meta"
  have id: "cu_id ?u = 7" "cu_related_code ?u = None" by (simp_all add: demo_record_def)
  have 1: "cu_id ?u \<notin> record_ids demo_session" by (simp add: demo_session_ids id)
  have 2: "\<forall>c \<in> set (as_warm_context demo_session). cu_id (cz_update c) \<noteq> cu_id ?u" by code_simp
  have 3: "\<not> has_item (limit_update ?u) (as_current_state demo_session)" by code_simp
  have 4: "lists_hot_keys [0, 1, 2] (add_incremental_update list_petgraph (\<lambda>_. 9) 100 101 0 12 ?u demo_session)"
    unfolding lists_hot_keys_def by code_simp
  show ?thesis
    using add_then_remove [OF lg.digraph_axioms demo_session_reach 1 2 3 _ 4] by (simp add: Let_def split_def id)
qed

text \<open>Which ids a session knows, and that removal empties the tiers of one.\<close>

lemma find_update_None:
  assumes h: "hot_of_session s"
  shows "find_update e s = None \<longleftrightarrow> e \<notin> record_ids s \<and> e \<notin> (cu_id \<circ> cz_update) ` set (as_warm_context s)"
proof -
  have sub: "set (hot_snapshot (as_hot_context s)) \<subseteq> set (as_incremental_updates s)"
    using h subseq_set by (auto simp: hot_of_session_def)
  have "find_update e s = None \<longleftrightarrow> List.find (\<lambda>u. cu_id u = e) (as_incremental_updates s) = None \<and>
      hot_find (\<lambda>u. cu_id u = e) (as_hot_context s) = None \<and>
      List.find (\<lambda>c. cu_id (cz_update c) = e) (as_warm_context s) = None"
    by (simp add: find_update_def split: option.split)
  also have "\<dots> \<longleftrightarrow> (\<forall>u \<in> set (as_incremental_updates s). cu_id u \<noteq> e) \<and> (\<forall>c \<in> set (as_warm_context s). cu_id (cz_update c) \<noteq> e)"
    using sub by (simp only: hot_find_eq find_None_iff) blast
  finally show ?thesis unfolding record_ids_def image_comp [symmetric] by (auto simp: image_iff)
qed

lemma remove_found: "snd (remove_update_by_id order e s) \<longleftrightarrow> find_update e s \<noteq> None"
  by (simp add: remove_update_by_id_def split: option.split)

lemma remove_tiers:
  assumes h: "hot_of_session s"
  shows "as_incremental_updates (fst (remove_update_by_id order e s)) = filter (\<lambda>u. cu_id u \<noteq> e) (as_incremental_updates s)"
    and "e \<notin> (cu_id \<circ> cz_update) ` set (as_warm_context (fst (remove_update_by_id order e s)))"
proof -
  have "as_incremental_updates (fst (remove_update_by_id order e s)) = filter (\<lambda>u. cu_id u \<noteq> e) (as_incremental_updates s) \<and>
    e \<notin> (cu_id \<circ> cz_update) ` set (as_warm_context (fst (remove_update_by_id order e s)))"
  proof (cases "find_update e s")
    case None
    then have "filter (\<lambda>u. cu_id u \<noteq> e) (as_incremental_updates s) = as_incremental_updates s"
      using find_update_None [OF h] by (intro filter_all ballI) (metis imageI record_ids_def)
    moreover have "fst (remove_update_by_id order e s) = s" using None by (simp add: remove_update_by_id_def)
    ultimately show ?thesis using None find_update_None [OF h] by simp
  next
    case (Some v)
    then show ?thesis by (auto simp: remove_fields(1,2) [OF Some])
  qed
  then show "as_incremental_updates (fst (remove_update_by_id order e s)) = filter (\<lambda>u. cu_id u \<noteq> e) (as_incremental_updates s)"
    and "e \<notin> (cu_id \<circ> cz_update) ` set (as_warm_context (fst (remove_update_by_id order e s)))" by blast+
qed



text \<open>Retiring a record closes its interval and moves no other.\<close>

lemma retire_intervals:
  fixes t :: datetime
  assumes d: "distinct (map cu_id us)" and u: "u \<in> set us"
  defines "us' \<equiv> map (\<lambda>v. if v = u then retired_version t u else v) us"
  shows "\<exists>v x. validity_of us' g (cu_id u) = Some v \<and> va_valid_to v = Some x \<and> x \<le> max t (va_valid_from v)"
    and "i \<noteq> cu_id u \<Longrightarrow> validity_of us' g i = validity_of us g i"
proof -
  let ?f = "\<lambda>v. if v = u then retired_version t u else v"
  have same: "same_but_retired v (?f v)" for v
    by (auto simp: same_but_retired_def retired_version_def intro: exI [of _ "um_retired_at (cu_meta v)"])
  have ids: "map cu_id (map ?f xs) = map cu_id xs" for xs by (induction xs) simp_all
  then have d': "distinct (map cu_id us')" using d by (metis us'_def)
  have dom: "ids_of us' = ids_of us" unfolding ids_of_def us'_def by (simp only: set_map [symmetric] ids)
  have after: "validity_of us' g (cu_id v) = map_option (retire (?f v)) (intervals_before us g (cu_id v))"
    if "v \<in> set us" for v
  proof -
    have "?f v \<in> set us'" unfolding us'_def set_map using that by (rule imageI)
    then have "validity_of us' g (cu_id (?f v)) = map_option (retire (?f v)) (intervals_before us' g (cu_id (?f v)))"
      by (rule validity_retire [OF d'])
    moreover have "cu_id (?f v) = cu_id v" by simp
    ultimately show ?thesis using intervals_before_same [OF same, of us g] by (metis us'_def)
  qed
  have "cu_id u \<in> dom (validity_of us' g)"
    using validity_of_cases(1) [OF d', of g] dom u by (auto simp: ids_of_def)
  then obtain v0 where "validity_of us' g (cu_id u) = Some (retire (retired_version t u) v0)"
    using after [OF u] by (cases "intervals_before us g (cu_id u)") auto
  moreover have "\<exists>x. va_valid_to (retire (retired_version t u) v0) = Some x \<and> x \<le> max t (va_valid_from (retire (retired_version t u) v0))"
    by (auto simp: retire_def retired_version_def split: option.split)
  ultimately show "\<exists>v x. validity_of us' g (cu_id u) = Some v \<and> va_valid_to v = Some x \<and> x \<le> max t (va_valid_from v)" by blast
  assume i: "i \<noteq> cu_id u"
  show "validity_of us' g i = validity_of us g i"
  proof (cases "i \<in> ids_of us")
    case True
    then obtain v where v: "v \<in> set us" "i = cu_id v" by (auto simp: ids_of_def)
    then have "v \<noteq> u" using i by blast
    then show ?thesis using after [OF v(1)] validity_retire [OF d v(1), of g] by (simp add: v(2))
  next
    case False
    then have "i \<notin> dom (validity_of us' g)" "i \<notin> dom (validity_of us g)"
      using validity_of_cases(1) [OF d, of g] validity_of_cases(1) [OF d', of g] dom by simp_all
    then show ?thesis by (simp add: domIff)
  qed
qed

text \<open>
  A forgotten record ends and no other interval moves. When a stored record that is not
  retired yet is retired at a time, it stays in place with only that time changed (in the list and
  in the hot tier), its interval is closed at that time or at its start, whichever is later, if
  not before, and every other record has the interval it had.
\<close>

theorem forget_ends_record:
  assumes "digraph P valid" and "session_reach P s" and "u \<in> set (as_incremental_updates s)"
    and "um_retired_at (cu_meta u) = None"
  shows "let s' = fst (retire_update (cu_id u) t s); u' = retired_version t u;
             before = validity_of (as_incremental_updates s) (as_entity_graph s);
             after = validity_of (as_incremental_updates s') (as_entity_graph s') in
    snd (retire_update (cu_id u) t s) = Some u' \<and>
    as_incremental_updates s' = map (\<lambda>v. if v = u then u' else v) (as_incremental_updates s) \<and>
    hot_snapshot (as_hot_context s') = map (\<lambda>v. if v = u then u' else v) (hot_snapshot (as_hot_context s)) \<and>
    (\<exists>v x. after (cu_id u) = Some v \<and> va_valid_to v = Some x \<and> x \<le> max t (va_valid_from v)) \<and>
    (\<forall>i. i \<noteq> cu_id u \<longrightarrow> after i = before i)"
proof -
  note D = session_okD [OF session_reach_ok [OF entity_digraph_iff [OF assms(1)] assms(2)]]
  let ?us = "as_incremental_updates s" and ?s = "fst (retire_update (cu_id u) t s)"
  have d: "distinct (map cu_id ?us)" and sub: "set (hot_snapshot (as_hot_context s)) \<subseteq> set ?us"
    using D(1) subseq_set by (auto simp: hot_of_session_def)
  note F = retire_fields [OF D(1) find_distinct [OF d assms(3)] assms(4), of t]
  let ?f = "\<lambda>v. if v = u then retired_version t u else v"
  have "v = u" if "v \<in> set ?us" "cu_id v = cu_id u" for v
    using d that assms(3) by (auto simp: distinct_map inj_on_def)
  then have cong: "map (\<lambda>v. if cu_id v = cu_id u then retired_version t u else v) xs = map ?f xs" if "set xs \<subseteq> set ?us" for xs
    using that by (intro map_cong refl) auto
  have us': "as_incremental_updates ?s = map ?f ?us" using F(2) cong [of ?us] by simp
  have hot: "hot_snapshot (as_hot_context ?s) = map ?f (hot_snapshot (as_hot_context s))" using F(3) cong [OF sub] by simp
  show ?thesis
    unfolding Let_def us' retire_other_fields hot
    using F(1) retire_intervals [OF d assms(3), where t = t and g = "as_entity_graph s"] by blast
qed

theorem forget_ends_record_witness:
  "\<exists>v x. validity_of (as_incremental_updates (fst (retire_update 1 50 demo_session))) (as_entity_graph demo_session) 1 = Some v \<and>
     va_valid_to v = Some x \<and> x \<le> max 50 (va_valid_from v)"
proof -
  let ?u = "demo_record 1 10 ''Use a queue'' [''queue''] demo_meta"
  have u: "?u \<in> set (as_incremental_updates demo_session)" "um_retired_at (cu_meta ?u) = None" "cu_id ?u = 1"
    by code_simp+
  show ?thesis
    using forget_ends_record [OF lg.digraph_axioms demo_session_reach u(1,2), of 50]
    unfolding Let_def u(3) retire_other_fields by blast
qed

text \<open>
  C38: a session survives storing and loading. Records, hot tier, warm tier, structured state,
  references, history, metadata and vectorized ids are the same, the cold tier is the same up
  to the compaction of old summaries, and so are entities, mentions and relations of the graph
  (when no two entities share a name key); the loaded session satisfies the invariant.
\<close>

theorem session_serde_roundtrip:
  assumes "digraph P valid" and "session_reach P s"
    and "names_apart (snd ` set (eg_entities (as_entity_graph s)))"
    and "set (list_ids (as_vectorized_update_ids s)) = as_vectorized_update_ids s"
  shows "let s' = deserialize_session P clocks (serialize_session P list_ids True s) in
    session_ok P valid s' \<and> as_metadata s' = as_metadata s \<and> as_last_updated s' = as_last_updated s \<and>
    as_incremental_updates s' = as_incremental_updates s \<and>
    hot_snapshot (as_hot_context s') = hot_snapshot (as_hot_context s) \<and>
    as_warm_context s' = as_warm_context s \<and> as_cold_context s' = map compact_summary (as_cold_context s) \<and>
    as_current_state s' = as_current_state s \<and> as_code_references s' = as_code_references s \<and>
    as_change_history s' = as_change_history s \<and> as_vectorized_update_ids s' = as_vectorized_update_ids s \<and>
    eg_entities (as_entity_graph s') = eg_entities (as_entity_graph s) \<and>
    eg_entity_mentions (as_entity_graph s') = eg_entity_mentions (as_entity_graph s) \<and>
    rel_map P (as_entity_graph s') = rel_map P (as_entity_graph s)"
proof -
  note G = entity_digraph_iff [OF assms(1)]
  note D = session_okD [OF session_reach_ok [OF G assms(2)]]
  let ?s = "deserialize_session P clocks (serialize_session P list_ids True s)"
  have cold: "keep_newest (as_cold_context s) = as_cold_context s" using D(7) by (simp add: keep_newest_def)
  note S = deserialize_session_def serialize_session_def compact_cold_context_def cold
  note L = graph_serde_roundtrip [OF assms(1) D(2) assms(3), of clocks, unfolded Let_def]
  have g: "graph_ok P valid (as_entity_graph ?s)" "eg_entities (as_entity_graph ?s) = eg_entities (as_entity_graph s)"
    "eg_entity_mentions (as_entity_graph ?s) = eg_entity_mentions (as_entity_graph s)"
    "rel_map P (as_entity_graph ?s) = rel_map P (as_entity_graph s)"
    using L by (simp_all add: S)
  have hot: "as_hot_context ?s = hot_context_sharing (hot_snapshot (as_hot_context s)) (as_incremental_updates s)
      (up_max_hot_context_size (sm_user_preferences (as_metadata s)))" by (simp add: S)
  have snap: "hot_snapshot (as_hot_context ?s) = hot_snapshot (as_hot_context s)"
    unfolding hot by (rule hot_sharing_same [OF D(1)])
  have hok: "hot_ok (as_hot_context ?s)" "hc_max_size (as_hot_context ?s) = up_max_hot_context_size (sm_user_preferences (as_metadata s))"
    unfolding hot hot_context_sharing_def Let_def using hot_from_updates by (auto simp: hot_holds_def)
  have "session_ok P valid ?s"
  proof (rule session_okI)
    show "hot_of_session ?s" using D(1) hok snap by (simp add: hot_of_session_def S)
    show "mentions_in (record_ids ?s) (as_entity_graph ?s)"
      using D(3) unfolding mentions_in_def g record_ids_def by (simp add: S)
  qed (use D g in \<open>simp_all add: S record_ids_def\<close>)
  then show ?thesis using snap g assms(4) by (simp add: S)
qed

theorem session_serde_roundtrip_witness:
  "rel_map list_petgraph (as_entity_graph (deserialize_session list_petgraph (\<lambda>_ _. 0)
     (serialize_session list_petgraph (\<lambda>_. []) True demo_session))) = rel_map list_petgraph (as_entity_graph demo_session)"
proof -
  have "names_apart (snd ` set (eg_entities (as_entity_graph demo_session)))" by code_simp
  moreover have "set [] = as_vectorized_update_ids demo_session" by code_simp
  ultimately show ?thesis
    using session_serde_roundtrip [OF lg.digraph_axioms demo_session_reach, of "\<lambda>_. []" "\<lambda>_ _. 0"] by (simp add: Let_def)
qed

text \<open>
  The two views of what waits for its embedding agree: the count is the number of ids for
  which the record is stored and not vectorized, each counted once, and exactly these ids are
  reported as pending.
\<close>

theorem pending_views_agree:
  assumes "digraph P valid" and "session_reach P s"
  shows "pending_vectorization_count s = card {e. is_vectorization_pending e s} \<and>
    {e. is_vectorization_pending e s} = record_ids s - as_vectorized_update_ids s"
proof -
  note D = session_okD [OF session_reach_ok [OF entity_digraph_iff [OF assms(1)] assms(2)]]
  have ok: "hot_ok (as_hot_context s)" and sub: "set (hot_snapshot (as_hot_context s)) \<subseteq> set (as_incremental_updates s)"
    using D(1) subseq_set by (auto simp: hot_of_session_def)
  have "is_vectorization_pending e s \<longleftrightarrow> e \<in> record_ids s \<and> e \<notin> as_vectorized_update_ids s" for e
    using sub by (auto simp: is_vectorization_pending_def hot_contains_id_eq [OF ok] list_ex_iff record_ids_def)
  then have set: "{e. is_vectorization_pending e s} = record_ids s - as_vectorized_update_ids s" by blast
  let ?p = "remdups (filter (\<lambda>i. i \<notin> as_vectorized_update_ids s) (map cu_id (as_incremental_updates s)))"
  have p: "set ?p = record_ids s - as_vectorized_update_ids s" by (auto simp: record_ids_def)
  have "filter (\<lambda>u. cu_id u \<notin> set ?p \<and> cu_id u \<notin> as_vectorized_update_ids s) (hot_snapshot (as_hot_context s)) = []"
    unfolding p using sub by (auto simp: filter_empty_conv record_ids_def)
  moreover have "length ?p = card (set ?p)" by (rule distinct_card [symmetric]) simp
  ultimately show ?thesis
    unfolding set by (simp only: pending_vectorization_count_def Let_def p) simp
qed

theorem pending_views_agree_witness: "pending_vectorization_count demo_session = card {1, 2 :: uuid}"
proof -
  have "as_vectorized_update_ids demo_session = {}" by code_simp
  then show ?thesis
    using pending_views_agree [OF lg.digraph_axioms demo_session_reach] by (simp add: demo_session_ids)
qed

end
