(* ===== verification/Kv_Store.thy ===== *)
theory Kv_Store
  imports Context_Update
begin

text \<open>
  The key-value store under the backend: RocksDB as the code uses it, an ordered map from byte
  strings, written by batches and read by lookups and by iterators. A key is a list of bytes,
  one \<^typ>\<open>char\<close> each, in the order of \<open>memcmp\<close>. The scan helpers are those of
  \<open>post-cortex-storage/src/rocksdb_storage/core.rs\<close>. Failing I/O is outside the model.
\<close>

section \<open>Batches and scans\<close>

type_synonym bytes = string
type_synonym 'v db = "(bytes, 'v) btree"

datatype 'v write_op = Put bytes 'v | Delete bytes

fun op_key :: "'v write_op \<Rightarrow> bytes" where
  "op_key (Put k v) = k"
| "op_key (Delete k) = k"

fun apply_op :: "'v write_op \<Rightarrow> 'v db \<Rightarrow> 'v db" where
  "apply_op (Put k v) db = bt_insert k v db"
| "apply_op (Delete k) db = bt_remove k db"

definition db_write :: "'v write_op list \<Rightarrow> 'v db \<Rightarrow> 'v db" where
  "db_write ops db = fold apply_op ops db"

text \<open>The bound loop of \<open>prefix_upper_bound\<close>, on the reversed prefix: pop, and stop at a byte
  that can be incremented.\<close>

fun bump_last :: "bytes \<Rightarrow> bytes option" where
  "bump_last [] = None"
| "bump_last (c # cs) =
     (if char_code c < 255 then Some (char_of (char_code c + 1) # cs) else bump_last cs)"

definition prefix_upper_bound :: "bytes \<Rightarrow> bytes option" where
  "prefix_upper_bound p = map_option rev (bump_last (rev p))"

text \<open>A forward iterator from \<open>lo\<close> with the upper bound \<open>hi\<close>.\<close>

definition scan_range :: "bytes \<Rightarrow> bytes option \<Rightarrow> 'v db \<Rightarrow> (bytes \<times> 'v) list" where
  "scan_range lo hi db =
     takeWhile (\<lambda>e. case hi of None \<Rightarrow> True | Some h \<Rightarrow> fst e < h) (dropWhile (\<lambda>e. fst e < lo) db)"

definition scan_prefix :: "bytes \<Rightarrow> 'v db \<Rightarrow> (bytes \<times> 'v) list" where
  "scan_prefix p db = scan_range p (prefix_upper_bound p) db"

definition keys_with_prefix :: "bytes \<Rightarrow> 'v db \<Rightarrow> bytes list" where
  "keys_with_prefix p db = map fst (scan_prefix p db)"

subsection \<open>What a batch leaves\<close>

fun ops_effect :: "'v write_op list \<Rightarrow> (bytes \<rightharpoonup> 'v) \<Rightarrow> (bytes \<rightharpoonup> 'v)" where
  "ops_effect [] m = m"
| "ops_effect (Put k v # ops) m = ops_effect ops (m(k \<mapsto> v))"
| "ops_effect (Delete k # ops) m = ops_effect ops (m(k := None))"

lemma db_write_Nil [simp]: "db_write [] db = db"
  by (simp add: db_write_def)

lemma bt_ok_db_write [simp]: "bt_ok db \<Longrightarrow> bt_ok (db_write ops db)"
  unfolding db_write_def
proof (induction ops arbitrary: db)
  case (Cons x ops)
  then show ?case by (cases x) simp_all
qed simp

lemma map_of_db_write: "bt_ok db \<Longrightarrow> map_of (db_write ops db) = ops_effect ops (map_of db)"
proof (induction ops arbitrary: db)
  case (Cons x ops)
  then show ?case by (cases x) (simp_all add: db_write_def fun_upd_def)
qed simp

lemma ops_effect_append [simp]: "ops_effect (xs @ ys) m = ops_effect ys (ops_effect xs m)"
  by (induction xs m rule: ops_effect.induct) (simp_all add: fun_upd_def)

lemma ops_effect_other: "k \<notin> op_key ` set ops \<Longrightarrow> ops_effect ops m k = m k"
  by (induction ops m rule: ops_effect.induct) auto

lemma ops_effect_deletes:
  "ops_effect (map (\<lambda>x. Delete (f x)) xs) m k = (if k \<in> f ` set xs then None else m k)"
  by (induction xs arbitrary: m) auto

lemma ops_effect_puts:
  assumes "inj f"
  shows "ops_effect (map (\<lambda>x. Put (f (i x)) (g x)) xs) m (f j) =
    (case map_of (rev (map (\<lambda>x. (i x, g x)) xs)) j of None \<Rightarrow> m (f j) | Some v \<Rightarrow> Some v)"
proof (induction xs arbitrary: m)
  case (Cons x xs)
  have "map_of (rev (map (\<lambda>x. (i x, g x)) (x # xs))) =
      [i x \<mapsto> g x] ++ map_of (rev (map (\<lambda>x. (i x, g x)) xs))"
    by simp
  with Cons.IH [of "m(f (i x) \<mapsto> g x)"] show ?case
    by (auto simp: map_add_def fun_upd_def dest: injD [OF assms] split: option.splits)
qed simp

subsection \<open>A scan is the entries with the prefix\<close>

lemma bump_last_append:
  "bump_last (xs @ ys) = (case bump_last xs of Some zs \<Rightarrow> Some (zs @ ys) | None \<Rightarrow> bump_last ys)"
  by (induction xs) auto

lemma prefix_upper_bound_Nil [simp]: "prefix_upper_bound [] = None"
  by (simp add: prefix_upper_bound_def)

lemma prefix_upper_bound_Cons:
  "prefix_upper_bound (c # cs) =
     (case prefix_upper_bound cs of
        Some h \<Rightarrow> Some (c # h)
      | None \<Rightarrow> if char_code c < 255 then Some [char_of (char_code c + 1)] else None)"
  by (simp add: prefix_upper_bound_def bump_last_append split: option.split)

lemma char_less_code: "c < d \<longleftrightarrow> char_code c < char_code (d :: char)"
  by (simp add: less_char_def)

lemma char_less_Suc: "char_code c < 255 \<Longrightarrow> d < char_of (Suc (char_code c)) \<longleftrightarrow> d = c \<or> d < (c :: char)"
  by (auto simp: less_char_def dest: less_antisym)

lemma char_code_less_256: "char_code (c :: char) < 256"
  by (rule nat_of_char_less_256)

lemma in_prefix_range:
  "(p \<le> k \<and> (case prefix_upper_bound p of None \<Rightarrow> True | Some h \<Rightarrow> k < h)) \<longleftrightarrow>
   starts_with p k"
proof (induction p k rule: starts_with.induct)
  case (3 p ps c cs)
  show ?case
  proof (cases "prefix_upper_bound ps")
    case None
    then have "char_code p \<ge> 255 \<Longrightarrow> c \<le> p"
      using char_code_less_256 [of c] unfolding less_eq_char_def by linarith
    with 3 None show ?thesis
      by (auto simp: prefix_upper_bound_Cons char_less_Suc)
  next
    case (Some h)
    with 3 show ?thesis by (auto simp: prefix_upper_bound_Cons)
  qed
qed (simp_all)

lemma dropWhile_below:
  "sorted (map f xs) \<Longrightarrow> dropWhile (\<lambda>x. f x < lo) xs = filter (\<lambda>x. lo \<le> f x) xs"
proof (induction xs)
  case (Cons x xs)
  then have "lo \<le> f x \<Longrightarrow> \<forall>y \<in> set xs. lo \<le> f y" by auto
  with Cons show ?case by (auto simp: not_less filter_all)
qed simp

lemma takeWhile_below:
  "sorted (map f xs) \<Longrightarrow> takeWhile (\<lambda>x. f x < h) xs = filter (\<lambda>x. f x < h) xs"
proof (induction xs)
  case (Cons x xs)
  then have "\<not> f x < h \<Longrightarrow> \<forall>y \<in> set xs. \<not> f y < h" by force
  with Cons show ?case by auto
qed simp

lemma bt_ok_sorted: "bt_ok db \<Longrightarrow> sorted (map fst db)"
  by (simp add: bt_ok_def strict_sorted_iff)

lemma scan_range_filter:
  assumes "bt_ok db"
  shows "scan_range lo hi db =
    filter (\<lambda>e. lo \<le> fst e \<and> (case hi of None \<Rightarrow> True | Some h \<Rightarrow> fst e < h)) db"
proof -
  have "scan_range lo hi db =
      takeWhile (\<lambda>e. case hi of None \<Rightarrow> True | Some h \<Rightarrow> fst e < h) (filter (\<lambda>e. lo \<le> fst e) db)"
    using assms by (simp add: scan_range_def dropWhile_below bt_ok_sorted)
  also have "\<dots> = filter (\<lambda>e. case hi of None \<Rightarrow> True | Some h \<Rightarrow> fst e < h) (filter (\<lambda>e. lo \<le> fst e) db)"
    using assms by (cases hi) (simp_all add: takeWhile_below bt_ok_sorted bt_ok_filter takeWhile_eq_all_conv)
  finally show ?thesis by (simp add: conj_commute)
qed

lemma scan_prefix_filter: "bt_ok db \<Longrightarrow> scan_prefix p db = filter (\<lambda>e. starts_with p (fst e)) db"
  by (simp add: scan_prefix_def scan_range_filter in_prefix_range)

lemma set_keys_with_prefix:
  "bt_ok db \<Longrightarrow> set (keys_with_prefix p db) = {k \<in> dom (map_of db). starts_with p k}"
  by (auto simp: keys_with_prefix_def scan_prefix_filter dom_map_of_conv_image_fst)

lemma map_of_filter_key: "map_of (filter (\<lambda>e. P (fst e)) xs) = (\<lambda>k. if P k then map_of xs k else None)"
  by (induction xs) auto

text \<open>What batches do to a scan: only the keys with the prefix matter.\<close>

lemma bt_entry: "bt_ok db \<Longrightarrow> (k, v) \<in> set db \<longleftrightarrow> map_of db k = Some v"
  by (simp add: bt.lookup_entry)

lemma bt_ok_eqI:
  assumes "bt_ok a" and "bt_ok b" and "map_of a = map_of b"
  shows "a = b"
proof (rule map_sorted_distinct_set_unique [of fst])
  show "inj_on fst (set a \<union> set b)"
    using assms by (auto simp: inj_on_def bt_entry dest: map_of_SomeD)
  show "sorted (map fst a)" "sorted (map fst b)" "distinct (map fst a)" "distinct (map fst b)"
    using assms by (simp_all add: bt_ok_sorted bt_ok_distinct)
  show "set a = set b"
    using assms by (auto simp: bt_entry)
qed

lemma scan_prefix_cong:
  assumes "bt_ok a" and "bt_ok b" and "\<And>k. starts_with p k \<Longrightarrow> map_of a k = map_of b k"
  shows "scan_prefix p a = scan_prefix p b"
proof (rule bt_ok_eqI)
  show "bt_ok (scan_prefix p a)" "bt_ok (scan_prefix p b)"
    using assms by (simp_all add: scan_prefix_filter bt_ok_filter)
  show "map_of (scan_prefix p a) = map_of (scan_prefix p b)"
    using assms by (auto simp: scan_prefix_filter map_of_filter_key)
qed

end
