(* ===== verification/Storage_Keys.thy ===== *)
theory Storage_Keys
  imports Kv_Store Cards
begin

text \<open>
  The keys of the RocksDB backend and the raw byte values: the key functions of
  \<open>sessions.rs\<close>, \<open>messages.rs\<close>, \<open>cards.rs\<close> and \<open>workspaces.rs\<close> (in
  \<open>post-cortex-storage/src/rocksdb_storage\<close>), the id lists and the big-endian counters. The text
  form of an id is the \<open>uuid\<close> crate's: the parameter \<open>U\<close> of every key function, with the laws
  of \<open>uuid_text\<close>.
\<close>

section \<open>Fixed-width numerals\<close>

fun fixed :: "nat \<Rightarrow> nat \<Rightarrow> nat \<Rightarrow> nat list" where
  "fixed b 0 n = []"
| "fixed b (Suc k) n = fixed b k (n div b) @ [n mod b]"

definition numeral_value :: "nat \<Rightarrow> nat list \<Rightarrow> nat" where
  "numeral_value b ds = foldl (\<lambda>a d. b * a + d) 0 ds"

lemma length_fixed [simp]: "length (fixed b k n) = k"
  by (induction k arbitrary: n) simp_all

lemma numeral_value_fixed: "numeral_value b (fixed b k n) = n mod b ^ k"
proof (induction k arbitrary: n)
  case (Suc k)
  have "b * (n div b mod b ^ k) + n mod b = n mod b ^ Suc k"
    by (simp add: mod_mult2_eq)
  with Suc show ?case by (simp add: numeral_value_def)
qed (simp add: numeral_value_def)

lemma fixed_digits: "0 < b \<Longrightarrow> d \<in> set (fixed b k n) \<Longrightarrow> d < b"
  by (induction k arbitrary: n) auto

lemma less_snoc: "length xs = length ys \<Longrightarrow> xs @ [x] < ys @ [y] \<longleftrightarrow> xs < ys \<or> xs = ys \<and> x < (y :: nat)"
  by (induction xs ys rule: list_induct2) auto

lemma less_div_mod: "n < m \<longleftrightarrow> n div b < m div b \<or> n div b = m div b \<and> n mod b < m mod (b :: nat)"
proof (cases "n div b" "m div b" rule: linorder_cases)
  case equal
  then have "n = b * (m div b) + n mod b" "m = b * (m div b) + m mod b"
    by (metis mult_div_mod_eq)+
  then have "n < m \<longleftrightarrow> n mod b < m mod b" by linarith
  with equal show ?thesis by simp
next
  case less
  then have "n < m" using div_le_mono [of m n b] by (metis leD leI)
  with less show ?thesis by simp
next
  case greater
  then have "\<not> n < m" using div_le_mono [of n m b] by (metis leD less_imp_le)
  with greater show ?thesis by simp
qed

lemma fixed_eq_iff: "x < b ^ k \<Longrightarrow> y < b ^ k \<Longrightarrow> fixed b k x = fixed b k y \<longleftrightarrow> x = y"
  by (metis mod_less numeral_value_fixed)

lemma fixed_less: "n < b ^ k \<Longrightarrow> m < b ^ k \<Longrightarrow> fixed b k n < fixed b k m \<longleftrightarrow> n < m"
proof (induction k arbitrary: n m)
  case (Suc k)
  then have lt: "n div b < b ^ k" "m div b < b ^ k"
    by (simp_all add: less_mult_imp_div_less mult.commute)
  have "fixed b (Suc k) n < fixed b (Suc k) m \<longleftrightarrow>
      n div b < m div b \<or> n div b = m div b \<and> n mod b < m mod b"
    unfolding fixed.simps by (subst less_snoc) (simp_all add: Suc.IH lt fixed_eq_iff)
  also have "\<dots> \<longleftrightarrow> n < m" by (rule less_div_mod [symmetric])
  finally show ?case .
qed simp

lemma map_less:
  "\<forall>x \<in> set xs \<union> set ys. \<forall>y \<in> set xs \<union> set ys. f x < f y \<longleftrightarrow> x < (y :: nat) \<Longrightarrow>
   map f xs < (map f ys :: string) \<longleftrightarrow> xs < ys"
proof (induction xs ys rule: list_induct2')
  case (4 x xs y ys)
  have a: "f x < f y \<longleftrightarrow> x < y" "f y < f x \<longleftrightarrow> y < x" using "4.prems" by simp_all
  then have "f x = f y \<longleftrightarrow> x = y" by (cases x y rule: linorder_cases) auto
  moreover have "map f xs < map f ys \<longleftrightarrow> xs < ys" using "4.prems" by (intro "4.IH") simp
  ultimately show ?case by (simp add: a)
qed simp_all

subsection \<open>The \<open>{:020}\<close> of a position\<close>

definition pad20 :: "nat \<Rightarrow> string" where
  "pad20 n = replicate (20 - length (show_nat n)) (CHR ''0'') @ show_nat n"

lemma show_nat_fixed:
  "n < 10 ^ Suc k \<Longrightarrow>
   length (show_nat n) \<le> Suc k \<and>
   replicate (Suc k - length (show_nat n)) (CHR ''0'') @ show_nat n = map digit_char (fixed 10 (Suc k) n)"
proof (induction k arbitrary: n)
  case 0
  then show ?case by (subst (1 2 3) show_nat.simps) (simp add: show_nat.simps)
next
  case (Suc k)
  have zero: "digit_char 0 = CHR ''0''" by code_simp
  have "map digit_char (fixed 10 k 0) = replicate k (CHR ''0'')" for k
    by (induction k) (simp_all add: zero replicate_append_same)
  moreover have "n div 10 < 10 ^ Suc k" using Suc.prems by simp
  note Suc.IH [OF this]
  ultimately show ?case
    using Suc.prems zero
    by (cases "n < 10") (auto simp: show_nat.simps [of n] replicate_append_same [symmetric] Suc_diff_le)
qed

lemma pad20_fixed: "n < 10 ^ 20 \<Longrightarrow> pad20 n = map digit_char (fixed 10 20 n)"
  using show_nat_fixed [of n 19] by (simp add: pad20_def)

lemma digit_char_less: "x < 10 \<Longrightarrow> y < 10 \<Longrightarrow> digit_char x < digit_char y \<longleftrightarrow> x < y"
  by (simp add: digit_char_def less_char_def)

lemma pad20_less: "n < 10 ^ 20 \<Longrightarrow> m < 10 ^ 20 \<Longrightarrow> pad20 n < pad20 m \<longleftrightarrow> n < m"
  by (simp add: pad20_fixed map_less digit_char_less fixed_digits [of 10 _ 20] fixed_less Un_iff ball_Un)

lemma length_pad20: "n < 10 ^ 20 \<Longrightarrow> length (pad20 n) = 20"
  by (simp add: pad20_fixed)

lemma pad20_inj [simp]: "pad20 n = pad20 m \<longleftrightarrow> n = m"
proof
  have "digits_value (replicate k (CHR ''0'') @ s) = digits_value s" for k s
    by (induction k) (simp_all add: digits_value_def digit_val_def)
  then have "digits_value (pad20 k) = k" for k by (simp add: pad20_def)
  then show "pad20 n = pad20 m \<Longrightarrow> n = m" by metis
qed simp

section \<open>Raw values\<close>

text \<open>\<open>u64::to_be_bytes\<close> and the check of the length that \<open>decode_seq\<close> makes.\<close>

definition u64_to_be_bytes :: "nat \<Rightarrow> bytes" where
  "u64_to_be_bytes n = map char_of (fixed 256 8 n)"

definition be_value :: "bytes \<Rightarrow> nat" where
  "be_value bs = numeral_value 256 (map char_code bs)"

definition decode_seq :: "bytes \<Rightarrow> nat option" where
  "decode_seq bs = (if length bs = 8 then Some (be_value bs) else None)"

text \<open>\<open>Uuid::as_bytes\<close> and \<open>from_bytes\<close>: sixteen bytes, big-endian.\<close>

definition uuid_bytes :: "uuid \<Rightarrow> bytes" where
  "uuid_bytes i = map char_of (fixed 256 16 (unat i))"

definition uuid_from_bytes :: "bytes \<Rightarrow> uuid" where
  "uuid_from_bytes bs = word_of_nat (be_value bs)"

definition encode_ids :: "uuid list \<Rightarrow> bytes" where
  "encode_ids ids = concat (map uuid_bytes ids)"

function decode_ids :: "bytes \<Rightarrow> uuid list" where
  "decode_ids bs = (if length bs < 16 then [] else uuid_from_bytes (take 16 bs) # decode_ids (drop 16 bs))"
  by auto
termination by (relation "measure length") auto

declare decode_ids.simps [simp del]

lemma map_code_char: "\<forall>d \<in> set ds. d < 256 \<Longrightarrow> map (char_code \<circ> char_of) ds = ds"
  by (induction ds) simp_all

lemma be_value_fixed: "be_value (map char_of (fixed 256 k n)) = n mod 256 ^ k"
  using map_code_char [of "fixed 256 k n"] fixed_digits [of 256 _ k n]
  by (simp add: be_value_def numeral_value_fixed)

lemma decode_seq_be_bytes: "n < 2 ^ 64 \<Longrightarrow> decode_seq (u64_to_be_bytes n) = Some n"
  by (simp add: decode_seq_def u64_to_be_bytes_def be_value_fixed)

lemma length_uuid_bytes [simp]: "length (uuid_bytes i) = 16"
  by (simp add: uuid_bytes_def)

lemma uuid_from_bytes [simp]: "uuid_from_bytes (uuid_bytes i) = i"
  using unsigned_less [of i, where ?'a = nat] by (simp add: uuid_from_bytes_def uuid_bytes_def be_value_fixed)

lemma encode_ids_simps [simp]: "encode_ids [] = []" "encode_ids (i # is) = uuid_bytes i @ encode_ids is"
  by (simp_all add: encode_ids_def)

lemma length_encode_ids: "length (encode_ids is) = 16 * length is"
  by (induction "is") simp_all

lemma decode_encode_ids [simp]: "decode_ids (encode_ids is) = is"
  by (induction "is") (simp_all add: decode_ids.simps)

lemma encode_ids_inj [simp]: "encode_ids is = encode_ids js \<longleftrightarrow> is = js"
  by (metis decode_encode_ids)

text \<open>The UTF-8 bytes of a string.\<close>

definition utf8_char :: "char \<Rightarrow> bytes" where
  "utf8_char c =
     (let n = char_code c in if n < 128 then [c] else [char_of (192 + n div 64), char_of (128 + n mod 64)])"

definition utf8 :: "string \<Rightarrow> bytes" where
  "utf8 s = concat (map utf8_char s)"

lemma length_utf8: "length (utf8 s) = str_len s"
  by (induction s) (simp_all add: utf8_def utf8_char_def Let_def)

lemma utf8_simps [simp]: "utf8 [] = []" "utf8 (c # s) = utf8_char c @ utf8 s"
  by (simp_all add: utf8_def)

lemma code_inj: "char_code c = char_code d \<Longrightarrow> c = (d :: char)"
  by simp

lemma byte_bounds: "n < 256 \<Longrightarrow> 192 + n div 64 < (256 :: nat)" "128 + n mod 64 < (256 :: nat)"
  by (auto simp: less_mult_imp_div_less)

lemma utf8_char_low: "char_code c < 128 \<Longrightarrow> utf8_char c = [c]"
  by (simp add: utf8_char_def)

lemma utf8_char_high:
  assumes "\<not> char_code c < 128"
  shows "\<exists>a b. utf8_char c = [a, b] \<and> char_code a = 192 + char_code c div 64 \<and> char_code b = 128 + char_code c mod 64"
proof -
  have code: "char_code (char_of k) = k" if "k < 256" for k :: nat using that by simp
  show ?thesis
    using assms code [OF byte_bounds(1) [OF char_code_less_256 [of c]]] code [OF byte_bounds(2) [of "char_code c"]]
    by (simp add: utf8_char_def Let_def)
qed

lemma utf8_char_append: "utf8_char c @ xs = utf8_char d @ ys \<longleftrightarrow> c = d \<and> xs = ys"
proof (cases "char_code c < 128"; cases "char_code d < 128")
  assume c: "\<not> char_code c < 128" and d: "\<not> char_code d < 128"
  obtain a b where a: "utf8_char c = [a, b]" "char_code a = 192 + char_code c div 64"
      "char_code b = 128 + char_code c mod 64"
    using utf8_char_high [OF c] by blast
  obtain a' b' where b: "utf8_char d = [a', b']" "char_code a' = 192 + char_code d div 64"
      "char_code b' = 128 + char_code d mod 64"
    using utf8_char_high [OF d] by blast
  have "a = a' \<Longrightarrow> b = b' \<Longrightarrow> c = d"
  proof -
    assume "a = a'" and "b = b'"
    with a b have "char_code c div 64 = char_code d div 64" "char_code c mod 64 = char_code d mod 64" by simp_all
    then have "char_code c = char_code d" by (metis div_mult_mod_eq)
    then show "c = d" by (rule code_inj)
  qed
  with a(1) b(1) show ?thesis by auto
next
  assume c: "char_code c < 128" and d: "\<not> char_code d < 128"
  obtain a b where "utf8_char d = [a, b]" "char_code a = 192 + char_code d div 64"
    using utf8_char_high [OF d] by blast
  with c d show ?thesis by (auto simp: utf8_char_low)
next
  assume c: "\<not> char_code c < 128" and d: "char_code d < 128"
  obtain a b where "utf8_char c = [a, b]" "char_code a = 192 + char_code c div 64"
    using utf8_char_high [OF c] by blast
  with c d show ?thesis by (auto simp: utf8_char_low)
qed (simp add: utf8_char_low)

lemma utf8_char_not_Nil [simp]: "utf8_char c \<noteq> []"
  by (simp add: utf8_char_def Let_def)

lemma utf8_inj [simp]: "utf8 s = utf8 t \<longleftrightarrow> s = t"
proof (induction s t rule: list_induct2')
qed (simp_all add: utf8_char_append)

section \<open>Key families\<close>

definition session_key :: "(uuid \<Rightarrow> string) \<Rightarrow> uuid \<Rightarrow> bytes" where
  "session_key U i = ''session:'' @ U i"

definition update_key :: "(uuid \<Rightarrow> string) \<Rightarrow> uuid \<Rightarrow> uuid \<Rightarrow> bytes" where
  "update_key U i u = ''session:'' @ U i @ '':update:'' @ U u"

definition update_index_key :: "(uuid \<Rightarrow> string) \<Rightarrow> uuid \<Rightarrow> bytes" where
  "update_index_key U i = ''session_updates:'' @ U i"

definition meta_key :: "(uuid \<Rightarrow> string) \<Rightarrow> uuid \<Rightarrow> bytes" where
  "meta_key U i = ''session_meta:'' @ U i"

definition checkpoint_key :: "(uuid \<Rightarrow> string) \<Rightarrow> uuid \<Rightarrow> bytes" where
  "checkpoint_key U i = ''checkpoint:'' @ U i"

definition message_key :: "(uuid \<Rightarrow> string) \<Rightarrow> uuid \<Rightarrow> nat \<Rightarrow> bytes" where
  "message_key U i n = ''message:'' @ U i @ '':'' @ pad20 n"

definition message_turn_key :: "(uuid \<Rightarrow> string) \<Rightarrow> uuid \<Rightarrow> string \<Rightarrow> bytes" where
  "message_turn_key U i t = ''message_turn:'' @ U i @ '':'' @ utf8 t"

definition message_next_key :: "(uuid \<Rightarrow> string) \<Rightarrow> uuid \<Rightarrow> bytes" where
  "message_next_key U i = ''message_next:'' @ U i"

definition card_prefix :: "(uuid \<Rightarrow> string) \<Rightarrow> card_scope \<Rightarrow> bytes" where
  "card_prefix U sc = ''card:'' @ scope_key U sc @ '':''"

definition card_key :: "(uuid \<Rightarrow> string) \<Rightarrow> card_scope \<Rightarrow> nat \<Rightarrow> bytes" where
  "card_key U sc v = ''card:'' @ scope_key U sc @ '':'' @ pad20 v"

definition card_head_key :: "(uuid \<Rightarrow> string) \<Rightarrow> card_scope \<Rightarrow> bytes" where
  "card_head_key U sc = ''card_head:'' @ scope_key U sc"

definition workspace_key :: "(uuid \<Rightarrow> string) \<Rightarrow> uuid \<Rightarrow> bytes" where
  "workspace_key U w = ''workspace:'' @ U w"

definition ws_session_key :: "(uuid \<Rightarrow> string) \<Rightarrow> uuid \<Rightarrow> uuid \<Rightarrow> bytes" where
  "ws_session_key U w i = ''ws_session:'' @ U w @ '':'' @ U i"

definition entity_store_key :: "(uuid \<Rightarrow> string) \<Rightarrow> uuid \<Rightarrow> string \<Rightarrow> bytes" where
  "entity_store_key U i name = ''entity:'' @ U i @ '':'' @ utf8 name"

definition relationship_key ::
  "(uuid \<Rightarrow> string) \<Rightarrow> uuid \<Rightarrow> string \<Rightarrow> string \<Rightarrow> relation_type \<Rightarrow> bytes" where
  "relationship_key U i a b t =
     ''relationship:'' @ U i @ '':'' @ utf8 a @ '':'' @ utf8 b @ '':'' @ relation_type_debug t"

definition embedding_key :: "string \<Rightarrow> string \<Rightarrow> bytes" where
  "embedding_key sid cid = ''embedding:'' @ utf8 sid @ '':'' @ utf8 cid"

lemmas key_defs = session_key_def update_key_def update_index_key_def meta_key_def checkpoint_key_def
  message_key_def message_turn_key_def message_next_key_def card_prefix_def card_key_def card_head_key_def
  workspace_key_def ws_session_key_def entity_store_key_def relationship_key_def embedding_key_def

section \<open>The text of an id\<close>

text \<open>
  What the backend relies on: \<open>Display\<close> of a \<open>Uuid\<close> is the hyphenated form, 36 bytes of
  hexadecimal digits and hyphens, and \<open>Uuid::parse_str\<close> reads it back.
\<close>

definition uuid_char :: "char \<Rightarrow> bool" where
  "uuid_char c \<longleftrightarrow> is_digit c \<or> (97 \<le> char_code c \<and> char_code c \<le> 102) \<or> c = CHR ''-''"

locale uuid_text =
  fixes U :: "uuid \<Rightarrow> string" and parse_uuid :: "bytes \<Rightarrow> uuid option"
  assumes parse_show: "parse_uuid (U i) = Some i"
    and length_show: "length (U i) = 36"
    and show_chars: "c \<in> set (U i) \<Longrightarrow> uuid_char c"
begin

lemma U_inj: "U i = U j \<longleftrightarrow> i = j"
  by (metis option.inject parse_show)

lemma U_append: "U i @ xs = U j @ ys \<longleftrightarrow> i = j \<and> xs = ys"
  by (simp add: append_eq_append_conv length_show U_inj)

lemma U_append_single: "U i = U j @ ys \<longleftrightarrow> i = j \<and> ys = []" "U i @ xs = U j \<longleftrightarrow> i = j \<and> xs = []"
  using U_append [of i "[]" j ys] U_append [of i xs j "[]"] by auto

lemma U_starts: "starts_with (U i @ xs) (U j @ ys) \<longleftrightarrow> i = j \<and> starts_with xs ys"
  by (auto simp: starts_with_iff U_append)

lemma U_no_colon: "CHR '':'' \<notin> set (U i)"
  using show_chars [of "CHR '':''" i] by (auto simp: uuid_char_def is_digit_def)

lemmas U_eqs = U_inj U_append U_append_single

text \<open>Keys of one family name one thing each; keys of different families are different.\<close>

lemma scope_append: "scope_key U a @ CHR '':'' # xs = scope_key U b @ CHR '':'' # ys \<longleftrightarrow> a = b \<and> xs = ys"
  by (cases a; cases b) (auto simp: scope_key_def U_eqs)

lemma scope_inj: "scope_key U a = scope_key U b \<longleftrightarrow> a = b"
  using scope_append [of a "[]" b "[]"] by simp

lemma session_key_eqs [simp]:
  "session_key U i = session_key U j \<longleftrightarrow> i = j"
  "session_key U i \<noteq> update_key U j u" "update_key U j u \<noteq> session_key U i"
  "session_key U i \<noteq> update_index_key U j" "update_index_key U j \<noteq> session_key U i"
  "session_key U i \<noteq> meta_key U j" "meta_key U j \<noteq> session_key U i"
  "session_key U i \<noteq> message_next_key U j" "message_next_key U j \<noteq> session_key U i"
  by (simp_all add: key_defs U_eqs)

lemma update_key_eqs [simp]:
  "update_key U i u = update_key U j v \<longleftrightarrow> i = j \<and> u = v"
  "update_key U i u \<noteq> update_index_key U j" "update_index_key U j \<noteq> update_key U i u"
  "update_key U i u \<noteq> meta_key U j" "meta_key U j \<noteq> update_key U i u"
  "update_key U i u \<noteq> message_next_key U j" "message_next_key U j \<noteq> update_key U i u"
  by (simp_all add: key_defs U_eqs)

lemma index_key_eqs [simp]:
  "update_index_key U i = update_index_key U j \<longleftrightarrow> i = j"
  "update_index_key U i \<noteq> meta_key U j" "meta_key U j \<noteq> update_index_key U i"
  "update_index_key U i \<noteq> message_next_key U j" "message_next_key U j \<noteq> update_index_key U i"
  "meta_key U i = meta_key U j \<longleftrightarrow> i = j"
  "meta_key U i \<noteq> message_next_key U j" "message_next_key U j \<noteq> meta_key U i"
  by (simp_all add: key_defs U_eqs)

lemma message_key_eqs [simp]:
  "message_next_key U i = message_next_key U j \<longleftrightarrow> i = j"
  "message_key U i n = message_key U j m \<longleftrightarrow> i = j \<and> n = m"
  "message_turn_key U i t = message_turn_key U j t' \<longleftrightarrow> i = j \<and> t = t'"
  "message_key U i n \<noteq> message_turn_key U j t" "message_turn_key U j t \<noteq> message_key U i n"
  "message_key U i n \<noteq> message_next_key U j" "message_next_key U j \<noteq> message_key U i n"
  "message_turn_key U i t \<noteq> message_next_key U j" "message_next_key U j \<noteq> message_turn_key U i t"
  by (simp_all add: key_defs U_eqs)

lemma card_key_eqs [simp]:
  "card_key U a n = card_key U b m \<longleftrightarrow> a = b \<and> n = m"
  "card_head_key U a = card_head_key U b \<longleftrightarrow> a = b"
  "card_key U a n \<noteq> card_head_key U b" "card_head_key U b \<noteq> card_key U a n"
  by (simp_all add: key_defs scope_append scope_inj)

lemma workspace_key_eqs [simp]:
  "workspace_key U w = workspace_key U x \<longleftrightarrow> w = x"
  "ws_session_key U w i = ws_session_key U x j \<longleftrightarrow> w = x \<and> i = j"
  "workspace_key U w \<noteq> ws_session_key U x j" "ws_session_key U x j \<noteq> workspace_key U w"
  by (simp_all add: key_defs U_eqs)

end

subsection \<open>The hyphenated form\<close>

definition hex_char :: "nat \<Rightarrow> char" where
  "hex_char d = (if d < 10 then char_of (48 + d) else char_of (87 + d))"

definition hex_val :: "char \<Rightarrow> nat" where
  "hex_val c = (let n = char_code c in
     if n \<le> 57 then n - 48 else if n \<le> 70 then n - 55 else n - 87)"

definition is_hex :: "char \<Rightarrow> bool" where
  "is_hex c \<longleftrightarrow> is_digit c \<or> (65 \<le> char_code c \<and> char_code c \<le> 70) \<or> (97 \<le> char_code c \<and> char_code c \<le> 102)"

definition hyphenated :: "uuid \<Rightarrow> string" where
  "hyphenated i =
     (let h = map hex_char (fixed 16 32 (unat i))
      in take 8 h @ ''-'' @ take 4 (drop 8 h) @ ''-'' @ take 4 (drop 12 h) @ ''-'' @
         take 4 (drop 16 h) @ ''-'' @ drop 20 h)"

definition parse_hyphenated :: "bytes \<Rightarrow> uuid option" where
  "parse_hyphenated s =
     (let h = take 8 s @ take 4 (drop 9 s) @ take 4 (drop 14 s) @ take 4 (drop 19 s) @ drop 24 s
      in if length s = 36 \<and> list_all is_hex h \<and> (\<forall>p \<in> {8, 13, 18, 23}. s ! p = CHR ''-'')
         then Some (word_of_nat (numeral_value 16 (map hex_val h))) else None)"

lemma hex_char_code: "d < 16 \<Longrightarrow> char_code (hex_char d) = (if d < 10 then 48 + d else 87 + d)"
  by (simp add: hex_char_def)

lemma hex_char_props:
  assumes "d < 16"
  shows "is_hex (hex_char d)" "hex_val (hex_char d) = d" "uuid_char (hex_char d)"
  using hex_char_code [OF assms] assms
  by (auto simp: is_hex_def hex_val_def uuid_char_def is_digit_def Let_def)

lemma hex_digits:
  assumes "\<forall>d \<in> set ds. d < 16"
  shows "list_all is_hex (map hex_char ds)" "map hex_val (map hex_char ds) = ds"
    "\<forall>c \<in> set (map hex_char ds). uuid_char c"
  using assms by (induction ds) (simp_all add: hex_char_props)

lemma unhyphenate:
  assumes "length h = 32"
    and "s = take 8 h @ [c] @ take 4 (drop 8 h) @ [c] @ take 4 (drop 12 h) @ [c] @ take 4 (drop 16 h) @ [c] @ drop 20 h"
  shows "length s = 36"
    and "take 8 s @ take 4 (drop 9 s) @ take 4 (drop 14 s) @ take 4 (drop 19 s) @ drop 24 s = h"
    and "\<forall>p \<in> {8, 13, 18, 23}. s ! p = c"
    and "set s \<subseteq> insert c (set h)"
proof -
  show "length s = 36" using assms by simp
  have "take 8 s @ take 4 (drop 9 s) @ take 4 (drop 14 s) @ take 4 (drop 19 s) @ drop 24 s =
      take 8 h @ take 4 (drop 8 h) @ take 4 (drop 12 h) @ take 4 (drop 16 h) @ drop 20 h"
    using assms by simp
  also have "take 4 (drop 16 h) @ drop 20 h = drop 16 h"
    using append_take_drop_id [of 4 "drop 16 h"] by simp
  also have "take 4 (drop 12 h) @ drop 16 h = drop 12 h"
    using append_take_drop_id [of 4 "drop 12 h"] by simp
  also have "take 4 (drop 8 h) @ drop 12 h = drop 8 h"
    using append_take_drop_id [of 4 "drop 8 h"] by simp
  finally show "take 8 s @ take 4 (drop 9 s) @ take 4 (drop 14 s) @ take 4 (drop 19 s) @ drop 24 s = h"
    by simp
  show "\<forall>p \<in> {8, 13, 18, 23}. s ! p = c"
    using assms by (simp add: nth_append)
  show "set s \<subseteq> insert c (set h)"
    unfolding assms(2) by (auto dest: in_set_takeD in_set_dropD)
qed

lemma hyphenated_parts:
  obtains s where "hyphenated i = s" and "length s = 36" and "parse_hyphenated s = Some i" and "\<forall>c \<in> set s. uuid_char c"
proof
  let ?d = "fixed 16 32 (unat i)" and ?s = "hyphenated i"
  have d: "\<forall>d \<in> set ?d. d < 16" using fixed_digits [of 16 _ 32 "unat i"] by simp
  note u = unhyphenate [of "map hex_char ?d" ?s "CHR ''-''"]
  have s: "?s = take 8 (map hex_char ?d) @ [CHR ''-''] @ take 4 (drop 8 (map hex_char ?d)) @ [CHR ''-''] @
      take 4 (drop 12 (map hex_char ?d)) @ [CHR ''-''] @ take 4 (drop 16 (map hex_char ?d)) @ [CHR ''-''] @
      drop 20 (map hex_char ?d)"
    unfolding hyphenated_def Let_def ..
  show "length ?s = 36" by (rule u(1) [OF _ s]) simp
  have v: "numeral_value 16 ?d = unat i"
    using numeral_value_fixed [of 16 32 "unat i"] unsigned_less [of i, where ?'a = nat] by simp
  show "parse_hyphenated ?s = Some i"
    unfolding parse_hyphenated_def Let_def u(2) [OF _ s, simplified]
    using u(1,3) [OF _ s] hex_digits(1,2) [OF d] v by simp
  have "set ?s \<subseteq> insert (CHR ''-'') (set (map hex_char ?d))" by (rule u(4) [OF _ s]) simp
  then show "\<forall>c \<in> set ?s. uuid_char c"
    using hex_digits(3) [OF d] by (auto simp: uuid_char_def)
qed simp

interpretation ut: uuid_text hyphenated parse_hyphenated
proof
  fix i c
  obtain s where s: "hyphenated i = s" "length s = 36" "parse_hyphenated s = Some i" "\<forall>c \<in> set s. uuid_char c"
    by (rule hyphenated_parts)
  show "parse_hyphenated (hyphenated i) = Some i" "length (hyphenated i) = 36" using s by simp_all
  show "c \<in> set (hyphenated i) \<Longrightarrow> uuid_char c" using s by simp
qed

end
