(* ===== verification/Stored_Values.thy ===== *)
theory Stored_Values
  imports Storage_Keys Active_Session
begin

text \<open>
  The records the RocksDB backend stores (\<open>rocksdb_storage/types.rs\<close>, \<open>SessionSummary\<close> of
  \<open>traits.rs\<close>, \<open>Message\<close> of \<open>post-cortex-core/src/core/message.rs\<close>) and how they become
  values. Serialization is \<open>serde_json\<close> and \<open>bincode\<close>: the record \<open>codec\<close> holds their functions
  on a type of values, and the locale \<open>codec_laws\<close> states that what was encoded decodes to
  itself and that the partial decoding reads the same fields. Failing encoders are outside the model; failing decoders are not. The layouts of
  older versions (\<open>rocksdb_storage/legacy.rs\<close>) are here.
\<close>

section \<open>Records\<close>

record session_summary =
  su_id :: uuid
  su_name :: "string option"
  su_description :: "string option"
  su_created_at :: datetime
  su_last_updated :: datetime
  su_update_count :: nat

definition summary_from_session :: "'g active_session \<Rightarrow> session_summary" where
  "summary_from_session s =
     (let meta = as_metadata s in
      \<lparr>su_id = sm_id meta, su_name = sm_name meta, su_description = sm_description meta,
       su_created_at = sm_created_at meta, su_last_updated = as_last_updated s,
       su_update_count = length (as_incremental_updates s)\<rparr>)"

text \<open>\<open>BlobHead\<close>: the listing fields of a session blob; of the updates only their number.\<close>

record blob_head =
  bh_id :: uuid
  bh_name :: "string option"
  bh_description :: "string option"
  bh_created_at :: datetime
  bh_last_updated :: datetime
  bh_incremental_updates :: "nat option"

definition head_of_data :: "session_data \<Rightarrow> blob_head" where
  "head_of_data d =
     \<lparr>bh_id = sm_id (ad_metadata d), bh_name = sm_name (ad_metadata d),
      bh_description = sm_description (ad_metadata d), bh_created_at = sm_created_at (ad_metadata d),
      bh_last_updated = ad_last_updated d,
      bh_incremental_updates = Some (length (ad_incremental_updates d))\<rparr>"

datatype message_role = User_Role | Assistant_Role

fun message_role_as_str :: "message_role \<Rightarrow> string" where
  "message_role_as_str User_Role = ''user''"
| "message_role_as_str Assistant_Role = ''assistant''"

definition parse_message_role :: "string \<Rightarrow> message_role option" where
  "parse_message_role s =
     (if s = ''user'' then Some User_Role else if s = ''assistant'' then Some Assistant_Role else None)"

record new_message =
  nm_turn_id :: string
  nm_role :: message_role
  nm_author :: "string option"
  nm_source_session :: "string option"
  nm_timestamp :: datetime
  nm_text :: string
  nm_tools :: "string list"
  nm_files :: "string list"

record message = new_message +
  ms_session_id :: uuid
  ms_seq :: nat

definition into_message :: "uuid \<Rightarrow> nat \<Rightarrow> new_message \<Rightarrow> message" where
  "into_message i n m = new_message.extend m (message.fields i n)"

datatype session_role = Primary | Related | Dependency | Shared

record stored_workspace =
  sw_id :: uuid
  sw_name :: string
  sw_description :: string
  sw_sessions :: "(uuid \<times> session_role) list"
  sw_created_at :: nat

record stored_workspace_session =
  ws_workspace_id :: uuid
  ws_session_id :: uuid
  ws_role :: session_role
  ws_added_at :: nat

record stored_entity =
  se_session_id :: uuid
  se_name :: string
  se_entity_type :: string
  se_first_mentioned :: datetime
  se_last_mentioned :: datetime
  se_mention_count :: u32
  se_importance_score :: f32
  se_description :: "string option"

record stored_relationship =
  sr_session_id :: uuid
  sr_from_entity :: string
  sr_to_entity :: string
  sr_relation_type :: string
  sr_context :: string

record session_checkpoint =
  sc_id :: uuid
  sc_session_id :: uuid
  sc_created_at :: datetime
  sc_structured_context :: structured_context
  sc_recent_updates :: "context_update list"
  sc_code_references :: "string \<rightharpoonup> code_reference list"
  sc_change_history :: "change_record list"
  sc_total_updates :: nat
  sc_context_quality_score :: f32
  sc_compression_ratio :: f32

section \<open>Older layouts\<close>

text \<open>\<open>LegacyContextUpdate\<close>: the record before it had an author, sources and metadata.\<close>

record legacy_update =
  lu_id :: uuid
  lu_timestamp :: datetime
  lu_update_type :: update_type
  lu_content :: update_content
  lu_related_code :: "code_reference option"
  lu_parent_update :: "uuid option"
  lu_user_marked_important :: bool
  lu_creates_entities :: "string list"
  lu_creates_relationships :: "entity_relationship list"
  lu_references_entities :: "string list"
  lu_typed_entities :: "typed_entity list"

definition default_meta :: update_meta where
  "default_meta = \<lparr>um_valid_from = None, um_supersedes = [], um_confidence = None, um_retired_at = None\<rparr>"

definition from_legacy :: "legacy_update \<Rightarrow> context_update" where
  "from_legacy u =
     \<lparr>cu_id = lu_id u, cu_timestamp = lu_timestamp u, cu_update_type = lu_update_type u,
      cu_content = lu_content u, cu_related_code = lu_related_code u, cu_parent_update = lu_parent_update u,
      cu_user_marked_important = lu_user_marked_important u, cu_creates_entities = lu_creates_entities u,
      cu_creates_relationships = lu_creates_relationships u, cu_references_entities = lu_references_entities u,
      cu_typed_entities = lu_typed_entities u, cu_author = None, cu_derived_from = [], cu_meta = default_meta\<rparr>"

definition from_authored :: "legacy_update \<times> string option \<Rightarrow> context_update" where
  "from_authored = (\<lambda>(u, author). (from_legacy u)\<lparr>cu_author := author\<rparr>)"

definition from_derived :: "legacy_update \<times> string option \<times> string list \<Rightarrow> context_update" where
  "from_derived = (\<lambda>(u, author, derived). (from_legacy u)\<lparr>cu_author := author, cu_derived_from := derived\<rparr>)"

record 'u legacy_checkpoint =
  lc_id :: uuid
  lc_session_id :: uuid
  lc_created_at :: datetime
  lc_structured_context :: structured_context
  lc_recent_updates :: "'u list"
  lc_code_references :: "string \<rightharpoonup> code_reference list"
  lc_change_history :: "change_record list"
  lc_total_updates :: nat
  lc_context_quality_score :: f32
  lc_compression_ratio :: f32

definition from_legacy_checkpoint :: "('u \<Rightarrow> context_update) \<Rightarrow> 'u legacy_checkpoint \<Rightarrow> session_checkpoint" where
  "from_legacy_checkpoint conv c =
     \<lparr>sc_id = lc_id c, sc_session_id = lc_session_id c, sc_created_at = lc_created_at c,
      sc_structured_context = lc_structured_context c, sc_recent_updates = map conv (lc_recent_updates c),
      sc_code_references = lc_code_references c, sc_change_history = lc_change_history c,
      sc_total_updates = lc_total_updates c, sc_context_quality_score = lc_context_quality_score c,
      sc_compression_ratio = lc_compression_ratio c\<rparr>"

section \<open>Values\<close>

text \<open>
  The encoders and decoders on a type \<open>'v\<close> of values: \<open>k_raw\<close> and \<open>k_bytes\<close> for values whose
  bytes the code writes itself, one pair per record, \<open>k_dec_head\<close> for the partial decoding of a
  blob, the decoders of the older layouts, and a value behind a marker of bytes.
\<close>

record 'v codec =
  k_raw :: "bytes \<Rightarrow> 'v"
  k_bytes :: "'v \<Rightarrow> bytes"
  k_update :: "context_update \<Rightarrow> 'v"
  k_dec_update :: "'v \<Rightarrow> context_update option"
  k_dec_derived :: "'v \<Rightarrow> (legacy_update \<times> string option \<times> string list) option"
  k_dec_authored :: "'v \<Rightarrow> (legacy_update \<times> string option) option"
  k_dec_legacy :: "'v \<Rightarrow> legacy_update option"
  k_session :: "session_data \<Rightarrow> 'v"
  k_dec_session :: "'v \<Rightarrow> session_data option"
  k_dec_head :: "'v \<Rightarrow> blob_head option"
  k_summary :: "session_summary \<Rightarrow> 'v"
  k_dec_summary :: "'v \<Rightarrow> session_summary option"
  k_message :: "message \<Rightarrow> 'v"
  k_dec_message :: "'v \<Rightarrow> message option"
  k_card :: "card \<Rightarrow> 'v"
  k_dec_card :: "'v \<Rightarrow> card option"
  k_workspace :: "stored_workspace \<Rightarrow> 'v"
  k_dec_workspace :: "'v \<Rightarrow> stored_workspace option"
  k_membership :: "stored_workspace_session \<Rightarrow> 'v"
  k_dec_membership :: "'v \<Rightarrow> stored_workspace_session option"
  k_entity :: "stored_entity \<Rightarrow> 'v"
  k_dec_entity :: "'v \<Rightarrow> stored_entity option"
  k_relationship :: "stored_relationship \<Rightarrow> 'v"
  k_dec_relationship :: "'v \<Rightarrow> stored_relationship option"
  k_checkpoint :: "session_checkpoint \<Rightarrow> 'v"
  k_dec_checkpoint :: "'v \<Rightarrow> session_checkpoint option"
  k_dec_checkpoint_derived :: "'v \<Rightarrow> (legacy_update \<times> string option \<times> string list) legacy_checkpoint option"
  k_dec_checkpoint_authored :: "'v \<Rightarrow> (legacy_update \<times> string option) legacy_checkpoint option"
  k_dec_checkpoint_legacy :: "'v \<Rightarrow> legacy_update legacy_checkpoint option"
  k_mark :: "bytes \<Rightarrow> 'v \<Rightarrow> 'v"
  k_strip :: "bytes \<Rightarrow> 'v \<Rightarrow> 'v option"

text \<open>The layouts of an update row, newest first.\<close>

definition or_else :: "'a option \<Rightarrow> 'a option \<Rightarrow> 'a option" where
  "or_else a b = (case a of None \<Rightarrow> b | Some x \<Rightarrow> Some x)"

definition decode_update :: "'v codec \<Rightarrow> 'v \<Rightarrow> context_update option" where
  "decode_update K v =
     or_else (k_dec_update K v)
       (or_else (map_option from_derived (k_dec_derived K v))
         (or_else (map_option from_authored (k_dec_authored K v))
           (map_option from_legacy (k_dec_legacy K v))))"

definition checkpoint_v4 :: bytes where "checkpoint_v4 = ''pcx-ckpt-v4'' @ [CHR 0x00]"
definition checkpoint_v3 :: bytes where "checkpoint_v3 = ''pcx-ckpt-v3'' @ [CHR 0x00]"
definition checkpoint_v2 :: bytes where "checkpoint_v2 = ''pcx-ckpt-v2'' @ [CHR 0x00]"

definition decode_checkpoint :: "'v codec \<Rightarrow> 'v \<Rightarrow> session_checkpoint option" where
  "decode_checkpoint K v =
     (case k_strip K checkpoint_v4 v of
        Some rest \<Rightarrow> k_dec_checkpoint K rest
      | None \<Rightarrow>
     (case k_strip K checkpoint_v3 v of
        Some rest \<Rightarrow> map_option (from_legacy_checkpoint from_derived) (k_dec_checkpoint_derived K rest)
      | None \<Rightarrow>
     (case k_strip K checkpoint_v2 v of
        Some rest \<Rightarrow> map_option (from_legacy_checkpoint from_authored) (k_dec_checkpoint_authored K rest)
      | None \<Rightarrow> map_option (from_legacy_checkpoint from_legacy) (k_dec_checkpoint_legacy K v))))"

locale codec_laws =
  fixes K :: "'v codec"
  assumes bytes_raw [simp]: "k_bytes K (k_raw K b) = b"
    and dec_update [simp]: "k_dec_update K (k_update K u) = Some u"
    and dec_session [simp]: "k_dec_session K (k_session K d) = Some d"
    and dec_head: "k_dec_session K v = Some d \<Longrightarrow>
      \<exists>n. k_dec_head K v = Some ((head_of_data d)\<lparr>bh_incremental_updates := n\<rparr>) \<and>
        unwrap_or n 0 = length (ad_incremental_updates d)"
    and dec_summary [simp]: "k_dec_summary K (k_summary K su) = Some su"
    and dec_message [simp]: "k_dec_message K (k_message K m) = Some m"
    and dec_card [simp]: "k_dec_card K (k_card K c) = Some c"
    and dec_workspace [simp]: "k_dec_workspace K (k_workspace K w) = Some w"
    and dec_membership [simp]: "k_dec_membership K (k_membership K ws) = Some ws"
    and dec_entity [simp]: "k_dec_entity K (k_entity K e) = Some e"
    and dec_relationship [simp]: "k_dec_relationship K (k_relationship K r) = Some r"
    and dec_checkpoint [simp]: "k_dec_checkpoint K (k_checkpoint K c') = Some c'"
    and strip_mark [simp]: "k_strip K mk (k_mark K mk v) = Some v"
begin

lemma decode_update_row [simp]: "decode_update K (k_update K u) = Some u"
  by (simp add: decode_update_def or_else_def)

lemma decode_checkpoint_current [simp]:
  "decode_checkpoint K (k_mark K checkpoint_v4 (k_checkpoint K c)) = Some c"
  by (simp add: decode_checkpoint_def)

end

section \<open>Values by name\<close>

text \<open>The codec whose values are the records themselves, behind a tag each.\<close>

datatype stored =
    V_Raw bytes
  | V_Update context_update
  | V_Derived "legacy_update \<times> string option \<times> string list"
  | V_Authored "legacy_update \<times> string option"
  | V_Legacy legacy_update
  | V_Session session_data
  | V_Summary session_summary
  | V_Message message
  | V_Card card
  | V_Workspace stored_workspace
  | V_Membership stored_workspace_session
  | V_Entity stored_entity
  | V_Relationship stored_relationship
  | V_Checkpoint session_checkpoint
  | V_Checkpoint_Derived "(legacy_update \<times> string option \<times> string list) legacy_checkpoint"
  | V_Checkpoint_Authored "(legacy_update \<times> string option) legacy_checkpoint"
  | V_Checkpoint_Legacy "legacy_update legacy_checkpoint"
  | V_Marked bytes stored

definition stored_codec :: "stored codec" where
  "stored_codec =
     \<lparr>k_raw = V_Raw, k_bytes = (\<lambda>v. case v of V_Raw b \<Rightarrow> b | _ \<Rightarrow> []),
      k_update = V_Update, k_dec_update = (\<lambda>v. case v of V_Update u \<Rightarrow> Some u | _ \<Rightarrow> None),
      k_dec_derived = (\<lambda>v. case v of V_Derived u \<Rightarrow> Some u | _ \<Rightarrow> None),
      k_dec_authored = (\<lambda>v. case v of V_Authored u \<Rightarrow> Some u | _ \<Rightarrow> None),
      k_dec_legacy = (\<lambda>v. case v of V_Legacy u \<Rightarrow> Some u | _ \<Rightarrow> None),
      k_session = V_Session, k_dec_session = (\<lambda>v. case v of V_Session d \<Rightarrow> Some d | _ \<Rightarrow> None),
      k_dec_head = (\<lambda>v. case v of V_Session d \<Rightarrow> Some (head_of_data d) | _ \<Rightarrow> None),
      k_summary = V_Summary, k_dec_summary = (\<lambda>v. case v of V_Summary s \<Rightarrow> Some s | _ \<Rightarrow> None),
      k_message = V_Message, k_dec_message = (\<lambda>v. case v of V_Message m \<Rightarrow> Some m | _ \<Rightarrow> None),
      k_card = V_Card, k_dec_card = (\<lambda>v. case v of V_Card c \<Rightarrow> Some c | _ \<Rightarrow> None),
      k_workspace = V_Workspace, k_dec_workspace = (\<lambda>v. case v of V_Workspace w \<Rightarrow> Some w | _ \<Rightarrow> None),
      k_membership = V_Membership, k_dec_membership = (\<lambda>v. case v of V_Membership w \<Rightarrow> Some w | _ \<Rightarrow> None),
      k_entity = V_Entity, k_dec_entity = (\<lambda>v. case v of V_Entity e \<Rightarrow> Some e | _ \<Rightarrow> None),
      k_relationship = V_Relationship, k_dec_relationship = (\<lambda>v. case v of V_Relationship r \<Rightarrow> Some r | _ \<Rightarrow> None),
      k_checkpoint = V_Checkpoint, k_dec_checkpoint = (\<lambda>v. case v of V_Checkpoint c \<Rightarrow> Some c | _ \<Rightarrow> None),
      k_dec_checkpoint_derived = (\<lambda>v. case v of V_Checkpoint_Derived c \<Rightarrow> Some c | _ \<Rightarrow> None),
      k_dec_checkpoint_authored = (\<lambda>v. case v of V_Checkpoint_Authored c \<Rightarrow> Some c | _ \<Rightarrow> None),
      k_dec_checkpoint_legacy = (\<lambda>v. case v of V_Checkpoint_Legacy c \<Rightarrow> Some c | _ \<Rightarrow> None),
      k_mark = V_Marked, k_strip = (\<lambda>m v. case v of V_Marked b w \<Rightarrow> if b = m then Some w else None | _ \<Rightarrow> None)\<rparr>"

interpretation kv: codec_laws stored_codec
proof
  fix v d
  assume "k_dec_session stored_codec v = Some d"
  then have "v = V_Session d" by (cases v) (simp_all add: stored_codec_def)
  then show "\<exists>n. k_dec_head stored_codec v = Some ((head_of_data d)\<lparr>bh_incremental_updates := n\<rparr>) \<and>
      unwrap_or n 0 = length (ad_incremental_updates d)"
    by (intro exI [of _ "Some (length (ad_incremental_updates d))"]) (simp add: stored_codec_def head_of_data_def)
qed (simp_all add: stored_codec_def)

end
