(* ===== verification/Session_Store.thy ===== *)
theory Session_Store
  imports Stored_Values
begin

text \<open>
  Sessions in the RocksDB backend: \<open>post-cortex-storage/src/rocksdb_storage/sessions.rs\<close>. A session
  is a blob without its updates, one row per update, the index that lists the ids of the rows in
  session order, and a summary for listings. Every operation is one function of the store; the
  session's stripe of \<open>SessionLocks\<close> is held over each read-modify-write, and a load works on a
  snapshot. Loading and the migration it triggers are two steps, with any other operation
  between them.
\<close>

section \<open>Ids in order of first occurrence\<close>

text \<open>\<open>filter(|id| seen.insert(*id))\<close>.\<close>

fun keep_new :: "'a set \<Rightarrow> 'a list \<Rightarrow> 'a list" where
  "keep_new seen [] = []"
| "keep_new seen (x # xs) = (if x \<in> seen then keep_new seen xs else x # keep_new (insert x seen) xs)"

lemma set_keep_new [simp]: "set (keep_new S xs) = set xs - S"
  by (induction S xs rule: keep_new.induct) auto

lemma distinct_keep_new [simp]: "distinct (keep_new S xs)"
  by (induction S xs rule: keep_new.induct) auto

lemma keep_new_append: "keep_new S (xs @ ys) = keep_new S xs @ keep_new (S \<union> set xs) ys"
  by (induction S xs rule: keep_new.induct) (auto simp: insert_absorb)

lemma keep_new_id: "distinct xs \<Longrightarrow> set xs \<inter> S = {} \<Longrightarrow> keep_new S xs = xs"
  by (induction S xs rule: keep_new.induct) auto

lemma keep_new_none: "set xs \<subseteq> S \<Longrightarrow> keep_new S xs = []"
  by (induction S xs rule: keep_new.induct) auto

section \<open>Saving\<close>

datatype store_error = Session_Not_Found uuid | Undecodable_Session | Id_Mismatch uuid uuid | Malformed_Value

definition session_id :: "'g active_session \<Rightarrow> uuid" where
  "session_id s = sm_id (as_metadata s)"

definition session_blob :: "'v codec \<Rightarrow> 'g pg \<Rightarrow> (uuid set \<Rightarrow> uuid list) \<Rightarrow> 'g active_session \<Rightarrow> 'v" where
  "session_blob K P list_ids s = k_session K (serialize_session P list_ids False s)"

definition stored_index :: "'v codec \<Rightarrow> (uuid \<Rightarrow> string) \<Rightarrow> uuid \<Rightarrow> 'v db \<Rightarrow> uuid list option" where
  "stored_index K U i db = map_option (\<lambda>v. decode_ids (k_bytes K v)) (map_of db (update_index_key U i))"

text \<open>The rows a save writes (the given updates, and those of the session that have no row yet),
  and the index it leaves.\<close>

definition rows_to_write ::
  "uuid list \<Rightarrow> context_update list \<Rightarrow> context_update list \<Rightarrow> uuid list \<Rightarrow> context_update list" where
  "rows_to_write stored updates explicit removed =
     filter (\<lambda>u. cu_id u \<notin> set removed) explicit @
     filter (\<lambda>u. cu_id u \<notin> set stored \<and> cu_id u \<notin> cu_id ` set explicit \<and> cu_id u \<notin> set removed) updates"

definition index_after ::
  "uuid list \<Rightarrow> context_update list \<Rightarrow> context_update list \<Rightarrow> uuid list \<Rightarrow> uuid list" where
  "index_after stored updates explicit removed =
     keep_new {} (filter (\<lambda>j. j \<notin> set removed) (stored @ map cu_id updates @ map cu_id explicit))"

definition persist_session ::
  "'v codec \<Rightarrow> (uuid \<Rightarrow> string) \<Rightarrow> 'g active_session \<Rightarrow> 'v \<Rightarrow> context_update list \<Rightarrow> uuid list \<Rightarrow>
   'v db \<Rightarrow> 'v db \<times> nat" where
  "persist_session K U s blob explicit removed db =
     (let i = session_id s;
          old_index = map_option (k_bytes K) (map_of db (update_index_key U i));
          stored = (case old_index of None \<Rightarrow> [] | Some b \<Rightarrow> decode_ids b);
          written = rows_to_write stored (as_incremental_updates s) explicit removed;
          index = encode_ids (index_after stored (as_incremental_updates s) explicit removed);
          batch =
            map (\<lambda>u. Put (update_key U i (cu_id u)) (k_update K u)) written @
            map (\<lambda>j. Delete (update_key U i j)) (remdups removed) @
            (if old_index \<noteq> Some index then [Put (update_index_key U i) (k_raw K index)] else []) @
            [Put (meta_key U i) (k_summary K (summary_from_session s)), Put (session_key U i) blob]
      in (db_write batch db, length written))"

definition save_session_with_changes ::
  "'v codec \<Rightarrow> (uuid \<Rightarrow> string) \<Rightarrow> 'g pg \<Rightarrow> (uuid set \<Rightarrow> uuid list) \<Rightarrow> 'g active_session \<Rightarrow> uuid \<Rightarrow>
   context_update list \<Rightarrow> uuid list \<Rightarrow> 'v db \<Rightarrow> 'v db \<times> (store_error, unit) result" where
  "save_session_with_changes K U P list_ids s i updates removed db =
     (if session_id s \<noteq> i then (db, Err (Id_Mismatch (session_id s) i))
      else (fst (persist_session K U s (session_blob K P list_ids s) updates removed db), Ok ()))"

definition save_session_with_updates ::
  "'v codec \<Rightarrow> (uuid \<Rightarrow> string) \<Rightarrow> 'g pg \<Rightarrow> (uuid set \<Rightarrow> uuid list) \<Rightarrow> 'g active_session \<Rightarrow> uuid \<Rightarrow>
   context_update list \<Rightarrow> 'v db \<Rightarrow> 'v db \<times> (store_error, unit) result" where
  "save_session_with_updates K U P list_ids s i updates db =
     (if session_id s \<noteq> i then (db, Err (Id_Mismatch (session_id s) i))
      else save_session_with_changes K U P list_ids s i updates [] db)"

definition save_session ::
  "'v codec \<Rightarrow> (uuid \<Rightarrow> string) \<Rightarrow> 'g pg \<Rightarrow> (uuid set \<Rightarrow> uuid list) \<Rightarrow> 'g active_session \<Rightarrow> 'v db \<Rightarrow> 'v db" where
  "save_session K U P list_ids s db = fst (persist_session K U s (session_blob K P list_ids s) [] [] db)"

definition batch_save_updates ::
  "'v codec \<Rightarrow> (uuid \<Rightarrow> string) \<Rightarrow> uuid \<Rightarrow> context_update list \<Rightarrow> 'v db \<Rightarrow> 'v db" where
  "batch_save_updates K U i updates db =
     (if updates = [] then db
      else
        let rows = map (\<lambda>u. Put (update_key U i (cu_id u)) (k_update K u)) updates;
            listed = (case map_of db (update_index_key U i) of
                None \<Rightarrow> []
              | Some index \<Rightarrow>
                  let before = decode_ids (k_bytes K index);
                      ids = before @ keep_new (set before) (map cu_id updates)
                  in if length ids \<noteq> length before
                     then Put (update_index_key U i) (k_raw K (encode_ids ids)) #
                       (case Option.bind (map_of db (meta_key U i)) (k_dec_summary K) of
                          None \<Rightarrow> []
                        | Some summary \<Rightarrow>
                            [Put (meta_key U i) (k_summary K (summary\<lparr>su_update_count := length ids\<rparr>))])
                     else [])
        in db_write (rows @ listed) db)"

section \<open>Loading\<close>

definition load_rows :: "'v codec \<Rightarrow> (uuid \<Rightarrow> string) \<Rightarrow> uuid \<Rightarrow> 'v db \<Rightarrow> uuid list \<Rightarrow> context_update list" where
  "load_rows K U i db ids =
     List.map_filter (\<lambda>j. Option.bind (map_of db (update_key U i j)) (decode_update K)) ids"

definition read_session ::
  "'v codec \<Rightarrow> (uuid \<Rightarrow> string) \<Rightarrow> 'g pg \<Rightarrow> (nat \<Rightarrow> nat \<Rightarrow> datetime) \<Rightarrow> uuid \<Rightarrow> 'v db \<Rightarrow>
   (store_error, ('g active_session \<times> 'v option) option) result" where
  "read_session K U P clocks i db =
     (case map_of db (session_key U i) of
        None \<Rightarrow> Ok None
      | Some blob \<Rightarrow>
         (case k_dec_session K blob of
            None \<Rightarrow> Err Undecodable_Session
          | Some d \<Rightarrow>
              let s = deserialize_session P clocks d;
                  index = map_of db (update_index_key U i)
              in (case (if as_incremental_updates s = [] then index else None) of
                    None \<Rightarrow> Ok (Some (relink_entity_mentions s, Some blob))
                  | Some bs \<Rightarrow>
                      let updates = load_rows K U i db (decode_ids (k_bytes K bs))
                      in Ok (Some (relink_entity_mentions (set_incremental_updates updates s), None)))))"

definition backfill_legacy ::
  "'v codec \<Rightarrow> (uuid \<Rightarrow> string) \<Rightarrow> 'g pg \<Rightarrow> (uuid set \<Rightarrow> uuid list) \<Rightarrow> 'g active_session \<Rightarrow> 'v \<Rightarrow>
   'v db \<Rightarrow> 'v db" where
  "backfill_legacy K U P list_ids s legacy_blob db =
     (let i = session_id s in
      if map_of db (session_key U i) \<noteq> Some legacy_blob then db
      else
        let embedded = cu_id ` set (as_incremental_updates s);
            removed = filter (\<lambda>j. j \<notin> embedded)
              (case map_of db (update_index_key U i) of None \<Rightarrow> [] | Some v \<Rightarrow> decode_ids (k_bytes K v))
        in fst (persist_session K U s (session_blob K P list_ids s) [] removed db))"

definition load_session ::
  "'v codec \<Rightarrow> (uuid \<Rightarrow> string) \<Rightarrow> 'g pg \<Rightarrow> (uuid set \<Rightarrow> uuid list) \<Rightarrow> (nat \<Rightarrow> nat \<Rightarrow> datetime) \<Rightarrow> uuid \<Rightarrow>
   'v db \<Rightarrow> 'v db \<times> (store_error, 'g active_session) result" where
  "load_session K U P list_ids clocks i db =
     (case read_session K U P clocks i db of
        Inl e \<Rightarrow> (db, Err e)
      | Inr None \<Rightarrow> (db, Err (Session_Not_Found i))
      | Inr (Some (s, legacy)) \<Rightarrow>
          (case legacy of None \<Rightarrow> db | Some blob \<Rightarrow> backfill_legacy K U P list_ids s blob db, Ok s))"

definition load_session_updates :: "'v codec \<Rightarrow> (uuid \<Rightarrow> string) \<Rightarrow> uuid \<Rightarrow> 'v db \<Rightarrow> context_update list" where
  "load_session_updates K U i db =
     (case map_of db (update_index_key U i) of
        Some index \<Rightarrow> load_rows K U i db (decode_ids (k_bytes K index))
      | None \<Rightarrow> List.map_filter (\<lambda>e. decode_update K (snd e)) (scan_prefix (''session:'' @ U i @ '':update:'') db))"

definition session_exists :: "(uuid \<Rightarrow> string) \<Rightarrow> uuid \<Rightarrow> 'v db \<Rightarrow> bool" where
  "session_exists U i db \<longleftrightarrow> map_of db (session_key U i) \<noteq> None"

section \<open>Listing\<close>

definition session_prefix :: bytes where "session_prefix = ''session:''"

definition meta_prefix :: bytes where "meta_prefix = ''session_meta:''"

definition session_key_len :: nat where "session_key_len = length session_prefix + 36"

text \<open>
  The raw iterator of \<open>list_session_ids\<close>: the entries from its position up to the bound of the
  prefix. After a key as long as a session key it seeks to \<open>session:{id};\<close>. It returns when it
  runs off the end; \<^const>\<open>None\<close> stands for a walk that does not.
\<close>

definition seek :: "bytes \<Rightarrow> 'v db \<Rightarrow> (bytes \<times> 'v) list" where
  "seek k db = scan_range k (prefix_upper_bound session_prefix) db"

definition id_of_key :: "(bytes \<Rightarrow> uuid option) \<Rightarrow> bytes \<Rightarrow> uuid option" where
  "id_of_key parse_uuid key =
     (if length key = session_key_len then parse_uuid (drop (length session_prefix) key) else None)"

partial_function (option) walk_ids ::
  "(bytes \<Rightarrow> uuid option) \<Rightarrow> 'v db \<Rightarrow> (bytes \<times> 'v) list \<Rightarrow> uuid list option" where
  "walk_ids parse_uuid db it =
     (case it of
        [] \<Rightarrow> Some []
      | e # rest \<Rightarrow>
          if length (fst e) < session_key_len then walk_ids parse_uuid db rest
          else Option.bind (walk_ids parse_uuid db (seek (take session_key_len (fst e) @ '';'') db))
            (\<lambda>ids. Some (case id_of_key parse_uuid (fst e) of None \<Rightarrow> ids | Some i \<Rightarrow> i # ids)))"

definition list_session_ids :: "(bytes \<Rightarrow> uuid option) \<Rightarrow> 'v db \<Rightarrow> uuid list option" where
  "list_session_ids parse_uuid db = walk_ids parse_uuid db (seek session_prefix db)"

definition summarize_without_meta ::
  "'v codec \<Rightarrow> (uuid \<Rightarrow> string) \<Rightarrow> uuid \<Rightarrow> 'v db \<Rightarrow>
   'v db \<times> (store_error, session_summary option) result" where
  "summarize_without_meta K U i db =
     (case Option.bind (map_of db (meta_key U i)) (k_dec_summary K) of
        Some summary \<Rightarrow> (db, Ok (Some summary))
      | None \<Rightarrow>
         (case map_of db (session_key U i) of
            None \<Rightarrow> (db, Ok None)
          | Some blob \<Rightarrow>
             (case k_dec_head K blob of
                None \<Rightarrow> (db, Err Undecodable_Session)
              | Some head \<Rightarrow>
                  let embedded = unwrap_or (bh_incremental_updates head) 0;
                      update_count =
                        (if embedded > 0 then embedded
                         else case map_of db (update_index_key U i) of
                             None \<Rightarrow> 0 | Some v \<Rightarrow> length (k_bytes K v) div 16);
                      summary = \<lparr>su_id = bh_id head, su_name = bh_name head,
                        su_description = bh_description head, su_created_at = bh_created_at head,
                        su_last_updated = bh_last_updated head, su_update_count = update_count\<rparr>
                  in (db_write [Put (meta_key U i) (k_summary K summary)] db, Ok (Some summary)))))"

fun list_each ::
  "'v codec \<Rightarrow> (uuid \<Rightarrow> string) \<Rightarrow> (uuid \<rightharpoonup> session_summary) \<Rightarrow> uuid list \<Rightarrow> 'v db \<Rightarrow>
   'v db \<times> session_summary list" where
  "list_each K U metas [] db = (db, [])"
| "list_each K U metas (i # ids) db =
     (case metas i of
        Some summary \<Rightarrow>
          (let (db', rest) = list_each K U (metas(i := None)) ids db in (db', summary # rest))
      | None \<Rightarrow>
         (case summarize_without_meta K U i db of
            (db', Inr (Some summary)) \<Rightarrow>
              (let (db'', rest) = list_each K U metas ids db' in (db'', summary # rest))
          | (db', _) \<Rightarrow> list_each K U metas ids db'))"

definition stored_metas :: "'v codec \<Rightarrow> 'v db \<Rightarrow> (uuid \<rightharpoonup> session_summary)" where
  "stored_metas K db =
     fold (\<lambda>e m. case k_dec_summary K (snd e) of None \<Rightarrow> m | Some s \<Rightarrow> m(su_id s \<mapsto> s))
       (scan_prefix meta_prefix db) Map.empty"

definition list_session_summaries ::
  "'v codec \<Rightarrow> (uuid \<Rightarrow> string) \<Rightarrow> (bytes \<Rightarrow> uuid option) \<Rightarrow> 'v db \<Rightarrow> ('v db \<times> session_summary list) option" where
  "list_session_summaries K U parse_uuid db =
     map_option (\<lambda>ids. list_each K U (stored_metas K db) ids db) (list_session_ids parse_uuid db)"

section \<open>Deleting\<close>

definition session_prefixes :: "(uuid \<Rightarrow> string) \<Rightarrow> uuid \<Rightarrow> bytes list" where
  "session_prefixes U i =
     map (\<lambda>p. p @ U i @ '':'')
       [''session:'', ''message:'', ''message_turn:'', ''embedding:'', ''entity:'', ''relationship:'']"

definition delete_session :: "'v codec \<Rightarrow> (uuid \<Rightarrow> string) \<Rightarrow> uuid \<Rightarrow> 'v db \<Rightarrow> 'v db" where
  "delete_session K U i db =
     (let own = map Delete [session_key U i, update_index_key U i, meta_key U i, message_next_key U i];
          below = concat (map (\<lambda>p. map Delete (keys_with_prefix p db)) (session_prefixes U i));
          memberships = List.map_filter (\<lambda>e. case k_dec_membership K (snd e) of
              None \<Rightarrow> None
            | Some m \<Rightarrow> if ws_session_id m = i then Some (Delete (fst e)) else None)
            (scan_prefix ''ws_session:'' db)
      in db_write (own @ below @ memberships) db)"

definition clear_session_entities :: "(uuid \<Rightarrow> string) \<Rightarrow> uuid \<Rightarrow> 'v db \<Rightarrow> 'v db" where
  "clear_session_entities U i db =
     db_write (concat (map (\<lambda>p. map Delete (keys_with_prefix (p @ U i @ '':'') db)) [''entity:'', ''relationship:''])) db"

section \<open>Checkpoints\<close>

definition save_checkpoint :: "'v codec \<Rightarrow> (uuid \<Rightarrow> string) \<Rightarrow> session_checkpoint \<Rightarrow> 'v db \<Rightarrow> 'v db" where
  "save_checkpoint K U c db =
     db_write [Put (checkpoint_key U (sc_id c)) (k_mark K checkpoint_v4 (k_checkpoint K c))] db"

definition load_checkpoint ::
  "'v codec \<Rightarrow> (uuid \<Rightarrow> string) \<Rightarrow> uuid \<Rightarrow> 'v db \<Rightarrow> (string, session_checkpoint) result" where
  "load_checkpoint K U i db =
     (case map_of db (checkpoint_key U i) of
        Some data \<Rightarrow> (case decode_checkpoint K data of
            Some c \<Rightarrow> Ok c | None \<Rightarrow> Err ''Failed to deserialize checkpoint'')
      | None \<Rightarrow> Err ''Checkpoint not found'')"

definition list_checkpoints :: "'v codec \<Rightarrow> 'v db \<Rightarrow> session_checkpoint list" where
  "list_checkpoints K db = List.map_filter (\<lambda>e. decode_checkpoint K (snd e)) (scan_prefix ''checkpoint:'' db)"

end
