(* ===== verification/Session_Store_Inv.thy ===== *)
theory Session_Store_Inv
  imports Session_Store
begin

text \<open>
  What the stored sessions satisfy, and what each operation does to them. \<open>stored_updates\<close> is the
  abstract view of a session's records: the rows the index lists, in its order.
  \<open>merge_updates\<close> is the specification of a save on that view.
\<close>

section \<open>Records by id\<close>

definition last_of :: "context_update list \<Rightarrow> uuid \<Rightarrow> context_update option" where
  "last_of us = map_of (rev (map (\<lambda>u. (cu_id u, u)) us))"

lemma or_else_simps [simp]: "or_else None b = b" "or_else (Some x) b = Some x" "or_else a None = a"
  by (simp_all add: or_else_def split: option.split)

lemma or_else_None: "or_else a b = None \<longleftrightarrow> a = None \<and> b = None"
  by (simp add: or_else_def split: option.split)

lemma or_else_Some: "or_else a b = Some x \<longleftrightarrow> a = Some x \<or> a = None \<and> b = Some x"
  by (simp add: or_else_def split: option.split)

lemma last_of_Nil [simp]: "last_of [] = Map.empty"
  by (simp add: last_of_def)

lemma last_of_append: "last_of (us @ vs) j = or_else (last_of vs j) (last_of us j)"
  by (simp add: last_of_def or_else_def map_add_def)

lemma last_of_Cons: "last_of (u # us) j = or_else (last_of us j) (if cu_id u = j then Some u else None)"
  using last_of_append [of "[u]" us j] by (simp add: last_of_def fun_upd_def eq_commute)

lemma last_of_Some: "last_of us j = Some u \<Longrightarrow> u \<in> set us \<and> cu_id u = j"
  by (auto simp: last_of_def dest!: map_of_SomeD)

lemma last_of_None: "last_of us j = None \<longleftrightarrow> j \<notin> cu_id ` set us"
  by (induction us) (auto simp: last_of_Cons or_else_def split: option.splits)

lemma last_of_filter: "last_of (filter (\<lambda>u. Q (cu_id u)) us) j = (if Q j then last_of us j else None)"
  by (induction us) (auto simp: last_of_Cons or_else_def split: option.splits)

lemma last_of_distinct:
  "distinct (map cu_id us) \<Longrightarrow> u \<in> set us \<Longrightarrow> last_of us (cu_id u) = Some u"
proof (induction us)
  case (Cons v us)
  show ?case
  proof (cases "u = v")
    case True
    with Cons.prems have "last_of us (cu_id u) = None" by (auto simp: last_of_None)
    with True show ?thesis by (simp add: last_of_Cons)
  next
    case False
    with Cons show ?thesis by (simp add: last_of_Cons)
  qed
qed simp

lemma last_of_nth_ids:
  "distinct (map cu_id us) \<Longrightarrow> List.map_filter (last_of us) (map cu_id us) = us"
proof -
  assume d: "distinct (map cu_id us)"
  have "List.map_filter f (map cu_id vs) = vs" if "\<forall>v \<in> set vs. f (cu_id v) = Some v" for f vs
    using that by (induction vs) simp_all
  then show ?thesis using last_of_distinct [OF d] by blast
qed

definition pick_update ::
  "context_update list \<Rightarrow> context_update list \<Rightarrow> context_update list \<Rightarrow> uuid \<Rightarrow> context_update option" where
  "pick_update old new explicit j = or_else (last_of explicit j) (or_else (last_of old j) (last_of new j))"

definition merge_updates ::
  "context_update list \<Rightarrow> context_update list \<Rightarrow> context_update list \<Rightarrow> uuid list \<Rightarrow> context_update list" where
  "merge_updates old new explicit removed =
     List.map_filter (pick_update old new explicit)
       (keep_new {} (filter (\<lambda>j. j \<notin> set removed) (map cu_id (old @ new @ explicit))))"

lemma pick_update_Some: "pick_update old new explicit j = Some u \<Longrightarrow> cu_id u = j"
  by (auto simp: pick_update_def or_else_Some dest: last_of_Some)

lemma pick_update_None: "pick_update old new explicit j = None \<longleftrightarrow> j \<notin> cu_id ` set (old @ new @ explicit)"
  by (auto simp: pick_update_def or_else_None last_of_None)

lemma map_filter_ids:
  assumes "\<And>j. j \<in> set js \<Longrightarrow> \<exists>u. f j = Some u \<and> cu_id u = j"
  shows "map cu_id (List.map_filter f js) = js"
  using assms by (induction js) (auto, metis option.simps(5) list.simps(9))

lemma merge_updates_ids:
  "map cu_id (merge_updates old new explicit removed) =
     keep_new {} (filter (\<lambda>j. j \<notin> set removed) (map cu_id (old @ new @ explicit)))"
  unfolding merge_updates_def
proof (rule map_filter_ids)
  fix j assume "j \<in> set (keep_new {} (filter (\<lambda>j. j \<notin> set removed) (map cu_id (old @ new @ explicit))))"
  then have "j \<in> cu_id ` set (old @ new @ explicit)" by (simp only: set_keep_new) force
  then obtain u where "pick_update old new explicit j = Some u" by (metis pick_update_None not_None_eq)
  then show "\<exists>u. pick_update old new explicit j = Some u \<and> cu_id u = j" using pick_update_Some by blast
qed

lemma merge_updates_distinct: "distinct (map cu_id (merge_updates old new explicit removed))"
  by (simp only: merge_updates_ids distinct_keep_new)

text \<open>A session that still holds what is stored gets exactly its own records back.\<close>

lemma merge_updates_extend:
  assumes "distinct (map cu_id (old @ newer))"
  shows "merge_updates old (old @ newer) [] [] = old @ newer"
proof -
  have d: "distinct (map cu_id old)" using assms by simp
  have "map cu_id (old @ (old @ newer) @ []) = map cu_id old @ map cu_id old @ map cu_id newer" by simp
  then have ids: "keep_new {} (map cu_id (old @ (old @ newer) @ [])) = map cu_id (old @ newer)"
    using assms by (simp add: keep_new_append keep_new_none keep_new_id Int_commute)
  have "pick_update old (old @ newer) [] (cu_id u) = Some u" if "u \<in> set (old @ newer)" for u
  proof (cases "u \<in> set old")
    case True
    then show ?thesis using last_of_distinct [OF d True] by (simp add: pick_update_def)
  next
    case False
    with that assms have "cu_id u \<notin> cu_id ` set old" by auto
    then have "last_of old (cu_id u) = None" by (simp add: last_of_None)
    then show ?thesis using last_of_distinct [OF assms that] by (simp add: pick_update_def)
  qed
  then have "List.map_filter (pick_update old (old @ newer) []) (map cu_id vs) = vs" if "set vs \<subseteq> set (old @ newer)" for vs
    using that by (induction vs) auto
  from this [of "old @ newer"] show ?thesis
    unfolding merge_updates_def using ids by (simp add: filter_all)
qed

text \<open>The record a save leaves under an id.\<close>

definition row_after ::
  "uuid list \<Rightarrow> context_update list \<Rightarrow> context_update list \<Rightarrow> (uuid \<Rightarrow> context_update option) \<Rightarrow>
   uuid \<Rightarrow> context_update option" where
  "row_after stored updates explicit row j =
     or_else (last_of explicit j)
       (if j \<in> set stored then row j else or_else (last_of updates j) (row j))"

lemma last_of_written:
  assumes "j \<notin> set removed"
  shows "last_of (rows_to_write stored updates explicit removed) j =
    or_else (last_of explicit j) (if j \<in> set stored then None else last_of updates j)"
proof -
  have "last_of (filter (\<lambda>u. cu_id u \<notin> set removed) explicit) j = last_of explicit j"
    using assms last_of_filter [of "\<lambda>j. j \<notin> set removed" explicit j] by simp
  moreover have "last_of (filter (\<lambda>u. cu_id u \<notin> set stored \<and> cu_id u \<notin> cu_id ` set explicit \<and> cu_id u \<notin> set removed) updates) j =
      (if j \<notin> set stored \<and> j \<notin> cu_id ` set explicit then last_of updates j else None)"
    using assms last_of_filter [of "\<lambda>j. j \<notin> set stored \<and> j \<notin> cu_id ` set explicit \<and> j \<notin> set removed" updates j] by simp
  moreover have "j \<in> cu_id ` set explicit \<longleftrightarrow> last_of explicit j \<noteq> None"
    by (simp add: last_of_None)
  ultimately show ?thesis
    unfolding rows_to_write_def last_of_append by (cases "last_of explicit j") auto
qed

section \<open>The store's invariant\<close>

text \<open>
  Keys under \<open>session:\<close> are blobs and rows of sessions, keys under \<open>session_meta:\<close> summaries; a blob
  decodes to a session, and a summary to one, with the id of its key; the index of a session lists each id once and every listed id has a row with that
  id; only stored sessions have an index.
\<close>

definition row_of :: "'v codec \<Rightarrow> (uuid \<Rightarrow> string) \<Rightarrow> uuid \<Rightarrow> 'v db \<Rightarrow> uuid \<Rightarrow> context_update option" where
  "row_of K U i db j = Option.bind (map_of db (update_key U i j)) (decode_update K)"

definition rows_ok :: "'v codec \<Rightarrow> (uuid \<Rightarrow> string) \<Rightarrow> uuid \<Rightarrow> 'v db \<Rightarrow> bool" where
  "rows_ok K U i db \<longleftrightarrow>
     (\<forall>ids. stored_index K U i db = Some ids \<longrightarrow>
        distinct ids \<and> session_exists U i db \<and>
        (\<forall>j \<in> set ids. \<exists>u. row_of K U i db j = Some u \<and> cu_id u = j))"

definition blob_ok :: "'v codec \<Rightarrow> (uuid \<Rightarrow> string) \<Rightarrow> uuid \<Rightarrow> 'v db \<Rightarrow> bool" where
  "blob_ok K U i db \<longleftrightarrow>
     (\<forall>v. map_of db (session_key U i) = Some v \<longrightarrow>
        (\<exists>d. k_dec_session K v = Some d \<and> sm_id (ad_metadata d) = i))"

definition keys_ok :: "(uuid \<Rightarrow> string) \<Rightarrow> 'v db \<Rightarrow> bool" where
  "keys_ok U db \<longleftrightarrow>
     (\<forall>k. map_of db k \<noteq> None \<longrightarrow>
        (starts_with session_prefix k \<longrightarrow> (\<exists>i. k = session_key U i) \<or> (\<exists>i u. k = update_key U i u)) \<and>
        (starts_with meta_prefix k \<longrightarrow> (\<exists>i. k = meta_key U i)))"

definition meta_ok :: "'v codec \<Rightarrow> (uuid \<Rightarrow> string) \<Rightarrow> uuid \<Rightarrow> 'v db \<Rightarrow> bool" where
  "meta_ok K U i db \<longleftrightarrow>
     (\<forall>v. map_of db (meta_key U i) = Some v \<longrightarrow> (\<exists>su. k_dec_summary K v = Some su \<and> su_id su = i))"

definition store_ok :: "'v codec \<Rightarrow> (uuid \<Rightarrow> string) \<Rightarrow> 'v db \<Rightarrow> bool" where
  "store_ok K U db \<longleftrightarrow> bt_ok db \<and> keys_ok U db \<and> (\<forall>i. rows_ok K U i db \<and> blob_ok K U i db \<and> meta_ok K U i db)"

definition stored_updates :: "'v codec \<Rightarrow> (uuid \<Rightarrow> string) \<Rightarrow> uuid \<Rightarrow> 'v db \<Rightarrow> context_update list option" where
  "stored_updates K U i db = map_option (load_rows K U i db) (stored_index K U i db)"

text \<open>Two states that hold the same of one session.\<close>

definition same_session :: "(uuid \<Rightarrow> string) \<Rightarrow> uuid \<Rightarrow> 'v db \<Rightarrow> 'v db \<Rightarrow> bool" where
  "same_session U i db db' \<longleftrightarrow>
     (\<forall>k. k \<in> {session_key U i, update_index_key U i, meta_key U i} \<union> range (update_key U i) \<longrightarrow>
        map_of db' k = map_of db k)"

lemma load_rows_row_of: "load_rows K U i db = List.map_filter (row_of K U i db)"
  by (rule ext) (simp add: load_rows_def row_of_def [abs_def])

lemma same_session_views:
  assumes "same_session U i db db'"
  shows "stored_index K U i db' = stored_index K U i db" "row_of K U i db' = row_of K U i db"
    "stored_updates K U i db' = stored_updates K U i db" "session_exists U i db' = session_exists U i db"
    "read_session K U P clocks i db' = read_session K U P clocks i db"
    "rows_ok K U i db' = rows_ok K U i db" "blob_ok K U i db' = blob_ok K U i db"
    "meta_ok K U i db' = meta_ok K U i db"
proof -
  have k: "map_of db' (session_key U i) = map_of db (session_key U i)"
    "map_of db' (update_index_key U i) = map_of db (update_index_key U i)"
    "map_of db' (meta_key U i) = map_of db (meta_key U i)"
    "map_of db' (update_key U i j) = map_of db (update_key U i j)" for j
    using assms by (auto simp: same_session_def)
  show ix: "stored_index K U i db' = stored_index K U i db" by (simp add: stored_index_def k)
  show r: "row_of K U i db' = row_of K U i db" by (rule ext) (simp add: row_of_def k)
  show "stored_updates K U i db' = stored_updates K U i db" by (simp add: stored_updates_def ix load_rows_row_of r)
  show e: "session_exists U i db' = session_exists U i db" by (simp add: session_exists_def k)
  show "read_session K U P clocks i db' = read_session K U P clocks i db"
    unfolding read_session_def k load_rows_row_of r ..
  show "rows_ok K U i db' = rows_ok K U i db" by (simp add: rows_ok_def ix e r)
  show "blob_ok K U i db' = blob_ok K U i db" by (simp add: blob_ok_def k)
  show "meta_ok K U i db' = meta_ok K U i db" by (simp add: meta_ok_def k)
qed

lemma stored_updates_ids:
  assumes "store_ok K U db" and "stored_updates K U i db = Some us"
  shows "stored_index K U i db = Some (map cu_id us)" "distinct (map cu_id us)"
    "j \<in> cu_id ` set us \<Longrightarrow> row_of K U i db j = last_of us j"
proof -
  obtain ids where ids: "stored_index K U i db = Some ids" "us = load_rows K U i db ids"
    using assms(2) by (auto simp: stored_updates_def)
  have ok: "distinct ids" "\<forall>j \<in> set ids. \<exists>u. row_of K U i db j = Some u \<and> cu_id u = j"
    using assms(1) ids(1) unfolding store_ok_def rows_ok_def by blast+
  have us: "map cu_id us = ids"
    unfolding ids(2) load_rows_row_of by (rule map_filter_ids) (use ok(2) in blast)
  then show "stored_index K U i db = Some (map cu_id us)" and d: "distinct (map cu_id us)"
    using ids ok by simp_all
  assume "j \<in> cu_id ` set us"
  then have "j \<in> set ids" using us by (metis list.set_map)
  then obtain u where u: "row_of K U i db j = Some u" "cu_id u = j" using ok(2) by blast
  then have "u \<in> set us"
    using \<open>j \<in> set ids\<close> unfolding ids(2) load_rows_row_of by (force simp: List.map_filter_def image_iff)
  then show "row_of K U i db j = last_of us j" using last_of_distinct [OF d] u by metis
qed

end
