(* ===== verification/Session_Store_Ops.thy ===== *)
theory Session_Store_Ops
  imports Session_Store_Inv
begin

text \<open>
  What each operation of the session store leaves: the entries it writes, the abstract records
  (\<open>stored_updates\<close>), the invariant, and everything it does not touch. The facts are proved under
  the laws of the id text and of the codec, in the locale \<open>storage\<close>.
\<close>

locale storage = uuid_text U parse_uuid + codec_laws K
  for U :: "uuid \<Rightarrow> string" and parse_uuid :: "bytes \<Rightarrow> uuid option" and K :: "'v codec"
begin

subsection \<open>A save\<close>

lemma update_key_inj: "inj (update_key U i)"
  by (rule injI) simp

lemma row_puts:
  "ops_effect (map (\<lambda>u. Put (update_key U i (cu_id u)) (k_update K u)) us) m (update_key U i j) =
     (case last_of us j of None \<Rightarrow> m (update_key U i j) | Some u \<Rightarrow> Some (k_update K u))"
proof -
  have "rev (map (\<lambda>u. (cu_id u, k_update K u)) us) = map (\<lambda>(j, u). (j, k_update K u)) (rev (map (\<lambda>u. (cu_id u, u)) us))"
    by (simp add: rev_map)
  then have "map_of (rev (map (\<lambda>u. (cu_id u, k_update K u)) us)) j = map_option (k_update K) (last_of us j)"
    unfolding last_of_def by (simp add: map_of_map)
  then show ?thesis
    by (simp add: ops_effect_puts [OF update_key_inj] split: option.split)
qed

lemma ops_effect_maybe:
  "k \<notin> op_key ` set ys \<Longrightarrow>
   ops_effect (xs @ (if c then [Put k v] else []) @ ys) m k = (if c then Some v else ops_effect xs m k)"
  by (cases c) (simp_all add: ops_effect_other)

lemma persist_session_get:
  fixes s :: "'g active_session" and db :: "'v db" and blob explicit removed
  assumes "bt_ok db"
  defines "i \<equiv> session_id s"
  defines "old \<equiv> (case stored_index K U i db of None \<Rightarrow> [] | Some ids \<Rightarrow> ids)"
    and "db' \<equiv> fst (persist_session K U s blob explicit removed db)"
  shows "bt_ok db'" "map_of db' (session_key U i) = Some blob"
    "map_of db' (meta_key U i) = Some (k_summary K (summary_from_session s))"
    "stored_index K U i db' = Some (index_after old (as_incremental_updates s) explicit removed)"
    "map_of db' (update_key U i j) =
      (if j \<in> set removed then None
       else case last_of (rows_to_write old (as_incremental_updates s) explicit removed) j of
           None \<Rightarrow> map_of db (update_key U i j) | Some u \<Rightarrow> Some (k_update K u))"
    "k \<notin> {session_key U i, meta_key U i, update_index_key U i} \<union> range (update_key U i) \<Longrightarrow>
      map_of db' k = map_of db k"
proof -
  let ?oi = "map_option (k_bytes K) (map_of db (update_index_key U i))"
  let ?ids = "index_after old (as_incremental_updates s) explicit removed"
  let ?rows = "map (\<lambda>u. Put (update_key U i (cu_id u)) (k_update K u))
      (rows_to_write old (as_incremental_updates s) explicit removed)"
  let ?dropped = "map (\<lambda>j. Delete (update_key U i j)) (remdups removed)"
  let ?index_op = "if ?oi \<noteq> Some (encode_ids ?ids) then [Put (update_index_key U i) (k_raw K (encode_ids ?ids))] else []"
  let ?batch = "?rows @ ?dropped @ ?index_op @
      [Put (meta_key U i) (k_summary K (summary_from_session s)), Put (session_key U i) blob]"
  have "(case ?oi of None \<Rightarrow> [] | Some b \<Rightarrow> decode_ids b) = old"
    by (simp add: old_def stored_index_def split: option.split)
  then have db': "db' = db_write ?batch db"
    unfolding db'_def persist_session_def Let_def i_def [symmetric] fst_conv by (simp only:)
  have get: "map_of db' k = ops_effect ?batch (map_of db) k" for k
    unfolding db' by (simp only: map_of_db_write [OF assms(1)])
  show "bt_ok db'" using assms(1) by (simp add: db')
  show "map_of db' (session_key U i) = Some blob"
    "map_of db' (meta_key U i) = Some (k_summary K (summary_from_session s))" unfolding get by simp_all
  have rd: "ops_effect (?rows @ ?dropped) (map_of db) k = map_of db k" if "k \<notin> range (update_key U i)" for k
    using that by (intro ops_effect_other) auto
  have "map_of db' (update_index_key U i) = (if ?oi \<noteq> Some (encode_ids ?ids) then Some (k_raw K (encode_ids ?ids))
      else ops_effect (?rows @ ?dropped) (map_of db) (update_index_key U i))"
    unfolding get append_assoc [of ?rows, symmetric] by (rule ops_effect_maybe) simp
  also have "ops_effect (?rows @ ?dropped) (map_of db) (update_index_key U i) = map_of db (update_index_key U i)"
    by (rule rd) (auto dest: sym)
  finally have "map_option (k_bytes K) (map_of db' (update_index_key U i)) = Some (encode_ids ?ids)" by simp
  then show "stored_index K U i db' = Some ?ids" by (auto simp: stored_index_def)
  have "map_of db' (update_key U i j) = ops_effect ?dropped (ops_effect ?rows (map_of db)) (update_key U i j)"
    unfolding get by simp
  also have "\<dots> = (if j \<in> set removed then None else ops_effect ?rows (map_of db) (update_key U i j))"
    by (simp only: ops_effect_deletes) (auto simp: image_iff)
  finally show "map_of db' (update_key U i j) = (if j \<in> set removed then None
       else case last_of (rows_to_write old (as_incremental_updates s) explicit removed) j of
           None \<Rightarrow> map_of db (update_key U i j) | Some u \<Rightarrow> Some (k_update K u))" by (simp only: row_puts)
  show "k \<notin> {session_key U i, meta_key U i, update_index_key U i} \<union> range (update_key U i) \<Longrightarrow>
      map_of db' k = map_of db k"
    unfolding get by (intro ops_effect_other) auto
qed

lemma persist_session_row:
  fixes s :: "'g active_session" and db :: "'v db" and blob explicit removed
  assumes "bt_ok db" and "j \<notin> set removed"
  defines "i \<equiv> session_id s"
  shows "row_of K U i (fst (persist_session K U s blob explicit removed db)) j =
    row_after (case stored_index K U i db of None \<Rightarrow> [] | Some ids \<Rightarrow> ids) (as_incremental_updates s) explicit
      (row_of K U i db) j"
  unfolding i_def row_of_def persist_session_get(5) [OF assms(1)] last_of_written [OF assms(2)] row_after_def
  using assms(2)
  by (cases "last_of explicit j"; cases "last_of (as_incremental_updates s) j") auto

lemma map_filter_rows:
  assumes "List.map_filter f js = us" and "js = map cu_id us"
  shows "\<forall>j \<in> set js. \<exists>u. f j = Some u \<and> cu_id u = j"
proof -
  have "length (List.map_filter f vs) \<le> length vs" for vs
    by (induction vs) (auto split: option.split)
  then show ?thesis
    using assms
  proof (induction js arbitrary: us)
    case (Cons j js)
    then obtain u us' where us: "us = u # us'" "cu_id u = j" "js = map cu_id us'" by (cases us) auto
    show ?case
    proof (cases "f j")
      case None
      then show ?thesis using Cons.prems(2) Cons.prems(1) [of js] us by simp
    next
      case (Some v)
      then show ?thesis using Cons us by auto
    qed
  qed simp
qed

lemma stored_index_updates:
  assumes "store_ok K U db"
  shows "(case stored_index K U i db of None \<Rightarrow> [] | Some ids \<Rightarrow> ids) = map cu_id (unwrap_or (stored_updates K U i db) [])"
proof (cases "stored_updates K U i db")
  case None
  then show ?thesis by (simp add: stored_updates_def)
qed (simp add: stored_updates_ids(1) [OF assms])

lemma persist_session_updates:
  fixes s :: "'g active_session" and db :: "'v db" and blob explicit removed
  assumes ok: "store_ok K U db"
  defines "i \<equiv> session_id s"
  shows "stored_updates K U i (fst (persist_session K U s blob explicit removed db)) =
    Some (merge_updates (unwrap_or (stored_updates K U i db) []) (as_incremental_updates s) explicit removed)"
proof -
  have bt: "bt_ok db" using ok by (simp add: store_ok_def)
  let ?db = "fst (persist_session K U s blob explicit removed db)" and ?new = "as_incremental_updates s"
  let ?old = "unwrap_or (stored_updates K U i db) []"
  note G = persist_session_get [OF bt, where s = s and blob = blob and explicit = explicit and removed = removed,
      folded i_def, unfolded stored_index_updates [OF ok]]
  note R = persist_session_row [OF bt, where s = s and blob = blob and explicit = explicit and removed = removed,
      folded i_def, unfolded stored_index_updates [OF ok]]
  have old: "j \<in> cu_id ` set ?old \<Longrightarrow> row_of K U i db j = last_of ?old j" for j
    using stored_updates_ids(3) [OF ok] by (cases "stored_updates K U i db") auto
  have "row_of K U i ?db j = pick_update ?old ?new explicit j"
    if "j \<in> set (index_after (map cu_id ?old) ?new explicit removed)" for j
  proof -
    have j: "j \<notin> set removed" "j \<in> cu_id ` set ?old \<union> cu_id ` set ?new \<union> cu_id ` set explicit"
      using that by (auto simp: index_after_def)
    show ?thesis
    proof (cases "j \<in> cu_id ` set ?old")
      case True
      moreover from this have "last_of ?old j \<noteq> None" by (simp add: last_of_None)
      ultimately show ?thesis by (auto simp: R [OF j(1)] row_after_def pick_update_def old)
    next
      case False
      with j(2) have "last_of explicit j \<noteq> None \<or> last_of ?new j \<noteq> None" by (auto simp: last_of_None)
      moreover have "last_of ?old j = None" using False by (simp add: last_of_None)
      ultimately show ?thesis using False by (auto simp: R [OF j(1)] row_after_def pick_update_def)
    qed
  qed
  then have "List.map_filter (row_of K U i ?db) (index_after (map cu_id ?old) ?new explicit removed) =
      List.map_filter (pick_update ?old ?new explicit) (index_after (map cu_id ?old) ?new explicit removed)"
    by (rule map_filter_cong)
  also have "\<dots> = merge_updates ?old ?new explicit removed"
    by (simp add: merge_updates_def index_after_def)
  finally have "List.map_filter (row_of K U i ?db) (index_after (map cu_id ?old) ?new explicit removed) =
      merge_updates ?old ?new explicit removed" .
  then show ?thesis by (simp add: stored_updates_def load_rows_row_of G(4))
qed

lemma same_sessionI:
  assumes "\<And>k. k \<notin> A \<Longrightarrow> map_of db' k = map_of db k"
    and "({session_key U i, update_index_key U i, meta_key U i} \<union> range (update_key U i)) \<inter> A = {}"
  shows "same_session U i db db'"
  using assms by (auto simp: same_session_def)

lemma persist_session_other:
  fixes s :: "'g active_session"
  assumes "bt_ok db" and "i \<noteq> session_id s"
  shows "same_session U i db (fst (persist_session K U s blob explicit removed db))"
proof (rule same_sessionI)
  let ?i = "session_id s"
  show "({session_key U i, update_index_key U i, meta_key U i} \<union> range (update_key U i)) \<inter>
      ({session_key U ?i, meta_key U ?i, update_index_key U ?i} \<union> range (update_key U ?i)) = {}"
    using assms(2) by auto
qed (rule persist_session_get(6) [OF assms(1)])

lemma store_ok_step:
  assumes "store_ok K U db" and "bt_ok db'"
    and "\<And>k. map_of db' k \<noteq> None \<Longrightarrow> map_of db k = None \<Longrightarrow>
      (\<exists>i. k \<in> {session_key U i, meta_key U i}) \<or> (\<exists>i u. k = update_key U i u) \<or>
      \<not> starts_with session_prefix k \<and> \<not> starts_with meta_prefix k"
    and "\<And>i. same_session U i db db' \<or> (rows_ok K U i db' \<and> blob_ok K U i db' \<and> meta_ok K U i db')"
  shows "store_ok K U db'"
proof -
  have "rows_ok K U i db' \<and> blob_ok K U i db' \<and> meta_ok K U i db'" for i
    using assms(1) assms(4) [of i] same_session_views(6,7,8) unfolding store_ok_def by blast
  moreover have "keys_ok U db'"
    unfolding keys_ok_def
  proof (intro allI impI)
    fix k assume k: "map_of db' k \<noteq> None"
    have apart: "\<not> starts_with session_prefix (meta_key U i)" "\<not> starts_with meta_prefix (session_key U i)"
      "\<not> starts_with meta_prefix (update_key U i u)" for i u
      by (simp_all add: session_prefix_def meta_prefix_def key_defs)
    show "(starts_with session_prefix k \<longrightarrow> (\<exists>i. k = session_key U i) \<or> (\<exists>i u. k = update_key U i u)) \<and>
        (starts_with meta_prefix k \<longrightarrow> (\<exists>i. k = meta_key U i))"
    proof (cases "map_of db k = None")
      case True
      then show ?thesis using assms(3) [OF k True] apart by auto
    qed (use assms(1) in \<open>simp add: store_ok_def keys_ok_def\<close>)
  qed
  ultimately show ?thesis using assms(2) by (simp add: store_ok_def)
qed

lemma index_key_apart: "\<not> starts_with session_prefix (update_index_key U i)" "\<not> starts_with meta_prefix (update_index_key U i)"
  by (simp_all add: session_prefix_def meta_prefix_def key_defs)

lemma persist_session_ok:
  fixes s :: "'g active_session" and db :: "'v db" and blob explicit removed
  assumes ok: "store_ok K U db"
    and "k_dec_session K blob = Some d" and "sm_id (ad_metadata d) = session_id s"
  shows "store_ok K U (fst (persist_session K U s blob explicit removed db))" (is "store_ok K U ?db")
proof (rule store_ok_step [OF ok])
  have bt: "bt_ok db" using ok by (simp add: store_ok_def)
  note G = persist_session_get [OF bt, where s = s and blob = blob and explicit = explicit and removed = removed]
  show "bt_ok ?db" by (rule G(1))
  fix k assume "map_of ?db k \<noteq> None" "map_of db k = None"
  then have "k \<in> {session_key U (session_id s), meta_key U (session_id s), update_index_key U (session_id s)} \<union>
      range (update_key U (session_id s))"
    using G(6) by metis
  then show "(\<exists>i. k \<in> {session_key U i, meta_key U i}) \<or> (\<exists>i u. k = update_key U i u) \<or>
      \<not> starts_with session_prefix k \<and> \<not> starts_with meta_prefix k"
    using index_key_apart by auto
next
  have bt: "bt_ok db" using ok by (simp add: store_ok_def)
  note G = persist_session_get [OF bt, where s = s and blob = blob and explicit = explicit and removed = removed]
  let ?i = "session_id s"
  fix i
  show "same_session U i db ?db \<or> (rows_ok K U i ?db \<and> blob_ok K U i ?db \<and> meta_ok K U i ?db)"
  proof (cases "i = ?i")
    case True
    let ?us = "merge_updates (unwrap_or (stored_updates K U ?i db) []) (as_incremental_updates s) explicit removed"
    have us: "stored_updates K U ?i ?db = Some ?us" by (rule persist_session_updates [OF ok])
    obtain ids where ids: "stored_index K U ?i ?db = Some ids" "?us = List.map_filter (row_of K U ?i ?db) ids"
      using us by (auto simp: stored_updates_def load_rows_row_of)
    have "ids = map cu_id ?us"
      unfolding merge_updates_ids using G(4) ids(1) stored_index_updates [OF ok] by (simp add: index_after_def)
    then have "rows_ok K U ?i ?db"
      unfolding rows_ok_def ids(1) using G(2) merge_updates_distinct map_filter_rows [OF ids(2) [symmetric]]
      by (auto simp: session_exists_def)
    moreover have "blob_ok K U ?i ?db" "meta_ok K U ?i ?db"
      using G(2,3) assms(2,3) by (simp_all add: blob_ok_def meta_ok_def summary_from_session_def session_id_def Let_def)
    ultimately show ?thesis using True by blast
  qed (use persist_session_other [OF bt] in blast)
qed

end

end
