(* ===== verification/Session_Store_Rest.thy ===== *)
theory Session_Store_Rest
  imports Session_Store_Ops
begin

text \<open>
  The other operations of the session store, in the locale \<open>storage\<close>: adding rows, loading with
  its migration, deleting, and listing.
\<close>

section \<open>Batches of deletions\<close>

lemma ops_effect_Delete: "ops_effect (map Delete ks) m = (\<lambda>k. if k \<in> set ks then None else m k)"
  using ops_effect_deletes [of "\<lambda>k. k" ks m] by (auto simp: fun_eq_iff)

definition owned_key :: "(uuid \<Rightarrow> string) \<Rightarrow> uuid \<Rightarrow> bytes \<Rightarrow> bool" where
  "owned_key U i k \<longleftrightarrow>
     k \<in> {session_key U i, update_index_key U i, meta_key U i, message_next_key U i} \<or>
     list_ex (\<lambda>p. starts_with p k) (session_prefixes U i)"

definition membership_of :: "'v codec \<Rightarrow> uuid \<Rightarrow> bytes \<Rightarrow> 'v \<Rightarrow> bool" where
  "membership_of K i k v \<longleftrightarrow>
     starts_with ''ws_session:'' k \<and> (\<exists>m. k_dec_membership K v = Some m \<and> ws_session_id m = i)"

lemma deleted_at:
  "S \<longleftrightarrow> P \<and> (T \<or> m k \<noteq> None) \<or> Q \<Longrightarrow> (if S then None else m k) = (if P \<or> Q then None else m k)"
  by auto

lemma delete_session_get:
  fixes db :: "'v db"
  assumes "bt_ok db"
  shows "map_of (delete_session K U i db) =
    (\<lambda>k. if owned_key U i k \<or> (\<exists>v. map_of db k = Some v \<and> membership_of K i k v) then None else map_of db k)"
proof -
  let ?own = "[session_key U i, update_index_key U i, meta_key U i, message_next_key U i]"
  let ?below = "concat (map (\<lambda>p. keys_with_prefix p db) (session_prefixes U i))"
  let ?mem = "\<lambda>e. case k_dec_membership K (snd e) of None \<Rightarrow> None
      | Some m \<Rightarrow> if ws_session_id m = i then Some (Delete (fst e) :: 'v write_op) else None"
  let ?keys = "map fst (filter (\<lambda>e. \<exists>m. k_dec_membership K (snd e) = Some m \<and> ws_session_id m = i)
      (scan_prefix ''ws_session:'' db))"
  have "List.map_filter ?mem es = map Delete (map fst (filter (\<lambda>e. \<exists>m. k_dec_membership K (snd e) = Some m \<and> ws_session_id m = i) es))"
    for es :: "(bytes \<times> 'v) list"
    by (induction es) (auto split: option.split)
  moreover have "concat (map (\<lambda>p. map Delete (keys_with_prefix p db)) ps) =
      (map Delete (concat (map (\<lambda>p. keys_with_prefix p db) ps)) :: 'v write_op list)" for ps
    by (induction ps) simp_all
  ultimately have "delete_session K U i db = db_write (map Delete (?own @ ?below @ ?keys)) db"
    unfolding delete_session_def Let_def by (simp only: map_append)
  then have get: "map_of (delete_session K U i db) = (\<lambda>k. if k \<in> set (?own @ ?below @ ?keys) then None else map_of db k)"
    by (simp only: map_of_db_write [OF assms] ops_effect_Delete)
  have mem: "k \<in> set ?keys \<longleftrightarrow> (\<exists>v. map_of db k = Some v \<and> membership_of K i k v)" for k
    by (auto simp: membership_of_def scan_prefix_filter [OF assms] bt_entry [OF assms, symmetric] image_iff)
  have own: "k \<in> set ?own \<or> k \<in> set ?below \<longleftrightarrow> owned_key U i k \<and> (k \<in> set ?own \<or> map_of db k \<noteq> None)" for k
    by (auto simp: owned_key_def set_keys_with_prefix [OF assms] list_ex_iff domIff)
  have all: "k \<in> set (?own @ ?below @ ?keys) \<longleftrightarrow>
      owned_key U i k \<and> (k \<in> set ?own \<or> map_of db k \<noteq> None) \<or> (\<exists>v. map_of db k = Some v \<and> membership_of K i k v)" for k
    by (simp only: set_append Un_iff disj_assoc [symmetric] own mem)
  show ?thesis
    unfolding get by (rule ext, rule deleted_at, rule all)
qed

lemma bt_ok_delete_session [simp]: "bt_ok db \<Longrightarrow> bt_ok (delete_session K U i db)"
  by (simp add: delete_session_def Let_def)

context storage
begin

lemma U_starts_single: "starts_with (U i @ x # xs) (U j) \<longleftrightarrow> False" "starts_with (U i @ [x]) (U j @ ys) \<longleftrightarrow> i = j \<and> (\<exists>zs. ys = x # zs)"
  using U_starts [of i "x # xs" j "[]"] U_starts [of i "[x]" j ys] by (auto simp: starts_with_iff)

lemma owned_session_keys:
  "owned_key U i (session_key U j) \<longleftrightarrow> i = j" "owned_key U i (update_key U j u) \<longleftrightarrow> i = j"
  "owned_key U i (update_index_key U j) \<longleftrightarrow> i = j" "owned_key U i (meta_key U j) \<longleftrightarrow> i = j"
  by (auto simp: owned_key_def session_prefixes_def key_defs U_eqs U_starts_single)

lemma membership_session_keys:
  "\<not> membership_of K i (session_key U j) v" "\<not> membership_of K i (update_key U j u) v"
  "\<not> membership_of K i (update_index_key U j) v" "\<not> membership_of K i (meta_key U j) v"
  by (simp_all add: membership_of_def key_defs)

lemma delete_session_other:
  assumes "bt_ok db" and "i \<noteq> j"
  shows "same_session U j db (delete_session K U i db)"
  using assms(2) by (auto simp: same_session_def delete_session_get [OF assms(1)] owned_session_keys membership_session_keys)

lemma delete_session_own:
  assumes "bt_ok db"
  shows "map_of (delete_session K U i db) (session_key U i) = None"
    "map_of (delete_session K U i db) (update_key U i u) = None"
    "map_of (delete_session K U i db) (update_index_key U i) = None"
    "map_of (delete_session K U i db) (meta_key U i) = None"
  by (simp_all add: delete_session_get [OF assms] owned_session_keys)

lemma delete_session_ok:
  assumes "store_ok K U db"
  shows "store_ok K U (delete_session K U i db)"
proof (rule store_ok_step [OF assms])
  have bt: "bt_ok db" using assms by (simp add: store_ok_def)
  then show "bt_ok (delete_session K U i db)" by simp
  show "\<And>k. map_of (delete_session K U i db) k \<noteq> None \<Longrightarrow> map_of db k = None \<Longrightarrow>
      (\<exists>i. k \<in> {session_key U i, meta_key U i}) \<or> (\<exists>i u. k = update_key U i u) \<or>
      \<not> starts_with session_prefix k \<and> \<not> starts_with meta_prefix k"
    by (auto simp: delete_session_get [OF bt] split: if_splits)
  show "same_session U j db (delete_session K U i db) \<or>
      (rows_ok K U j (delete_session K U i db) \<and> blob_ok K U j (delete_session K U i db) \<and>
        meta_ok K U j (delete_session K U i db))" for j
    using delete_session_other [OF bt, of i j] delete_session_own [OF bt, of i]
    by (cases "i = j") (auto simp: rows_ok_def blob_ok_def meta_ok_def stored_index_def)
qed

subsection \<open>Adding rows\<close>

lemma batch_save_meta:
  fixes db :: "'v db" and i :: uuid
  assumes "bt_ok db" and "us \<noteq> []"
  shows "map_of (batch_save_updates K U i us db) (meta_key U i) = map_of db (meta_key U i) \<or>
    (\<exists>v su n. map_of db (meta_key U i) = Some v \<and> k_dec_summary K v = Some su \<and>
       map_of (batch_save_updates K U i us db) (meta_key U i) = Some (k_summary K (su\<lparr>su_update_count := n\<rparr>)))"
proof -
  let ?rows = "map (\<lambda>u. Put (update_key U i (cu_id u)) (k_update K u)) us"
  have rows: "ops_effect ?rows m (meta_key U i) = m (meta_key U i)" for m
    by (rule ops_effect_other) auto
  show ?thesis
    unfolding batch_save_updates_def Let_def using assms
    by (auto simp: map_of_db_write rows split: option.split bind_splits)
qed

lemma batch_save_get:
  fixes db :: "'v db" and i :: uuid
  assumes "bt_ok db" and "us \<noteq> []"
  defines "db' \<equiv> batch_save_updates K U i us db"
  shows "bt_ok db'"
    and "row_of K U i db' j = or_else (last_of us j) (row_of K U i db j)"
    and "stored_index K U i db' = map_option (\<lambda>ids. ids @ keep_new (set ids) (map cu_id us)) (stored_index K U i db)"
    and "k \<notin> {meta_key U i, update_index_key U i} \<union> range (update_key U i) \<Longrightarrow> map_of db' k = map_of db k"
proof -
  let ?rows = "map (\<lambda>u. Put (update_key U i (cu_id u)) (k_update K u)) us"
  have "\<exists>listed. db' = db_write (?rows @ listed) db \<and> op_key ` set listed \<subseteq> {meta_key U i, update_index_key U i} \<and>
      map_option (\<lambda>v. decode_ids (k_bytes K v)) (ops_effect listed m (update_index_key U i)) =
      map_option (\<lambda>ids. ids @ keep_new (set ids) (map cu_id us)) (stored_index K U i db)"
    if m: "m (update_index_key U i) = map_of db (update_index_key U i)" for m
  proof (cases "map_of db (update_index_key U i)")
    case None
    then show ?thesis
      using m by (intro exI [of _ "[]"]) (simp add: db'_def batch_save_updates_def assms(2) stored_index_def)
  next
    case (Some v)
    let ?before = "decode_ids (k_bytes K v)"
    let ?ids = "?before @ keep_new (set ?before) (map cu_id us)"
    let ?meta = "case Option.bind (map_of db (meta_key U i)) (k_dec_summary K) of None \<Rightarrow> []
        | Some summary \<Rightarrow> [Put (meta_key U i) (k_summary K (summary\<lparr>su_update_count := length ?ids\<rparr>))]"
    let ?listed = "if length ?ids \<noteq> length ?before then Put (update_index_key U i) (k_raw K (encode_ids ?ids)) # ?meta else []"
    have "db' = db_write (?rows @ ?listed) db"
      by (simp add: db'_def batch_save_updates_def assms(2) Some Let_def)
    moreover have "op_key ` set ?listed \<subseteq> {meta_key U i, update_index_key U i}"
      by (auto split: option.split)
    moreover have "keep_new (set ?before) (map cu_id us) = [] \<Longrightarrow> ?ids = ?before" by simp
    then have "map_option (\<lambda>v. decode_ids (k_bytes K v)) (ops_effect ?listed m (update_index_key U i)) = Some ?ids"
      using m Some by (auto split: option.split)
    ultimately show ?thesis by (intro exI [of _ ?listed]) (simp add: stored_index_def Some)
  qed
  from this [of "ops_effect ?rows (map_of db)"] ops_effect_other [of "update_index_key U i" ?rows "map_of db"]
  obtain listed where L: "db' = db_write (?rows @ listed) db" "op_key ` set listed \<subseteq> {meta_key U i, update_index_key U i}"
      "map_option (\<lambda>v. decode_ids (k_bytes K v)) (ops_effect listed (ops_effect ?rows (map_of db)) (update_index_key U i)) =
        map_option (\<lambda>ids. ids @ keep_new (set ids) (map cu_id us)) (stored_index K U i db)"
    by (force simp: image_iff)
  show "bt_ok db'" by (simp add: L(1) assms(1))
  have get: "map_of db' k = ops_effect listed (ops_effect ?rows (map_of db)) k" for k
    unfolding L(1) by (simp add: map_of_db_write assms(1))
  show "stored_index K U i db' = map_option (\<lambda>ids. ids @ keep_new (set ids) (map cu_id us)) (stored_index K U i db)"
    unfolding stored_index_def [of _ _ _ db'] get L(3) ..
  have "map_of db' (update_key U i j) = ops_effect ?rows (map_of db) (update_key U i j)"
    unfolding get using L(2) by (intro ops_effect_other) auto
  then show "row_of K U i db' j = or_else (last_of us j) (row_of K U i db j)"
    unfolding row_of_def row_puts by (cases "last_of us j") simp_all
  show "map_of db' k = map_of db k" if "k \<notin> {meta_key U i, update_index_key U i} \<union> range (update_key U i)"
    unfolding get using L(2) that by (subst ops_effect_other, blast, intro ops_effect_other) auto
qed

lemma stored_updates_from_rows:
  assumes "stored_index K U i db = Some ids" and "\<And>j. j \<in> set ids \<Longrightarrow> row_of K U i db j = f j"
  shows "stored_updates K U i db = Some (List.map_filter f ids)"
  using assms map_filter_cong [of ids "row_of K U i db" f] by (simp add: stored_updates_def load_rows_row_of)

lemma batch_save_updates_spec:
  fixes db :: "'v db"
  assumes ok: "store_ok K U db"
  shows "stored_updates K U i (batch_save_updates K U i us db) =
    map_option (\<lambda>old. merge_updates old [] us []) (stored_updates K U i db)"
proof (cases "stored_updates K U i db")
  case None
  then have "stored_index K U i db = None" by (simp add: stored_updates_def)
  then have "stored_index K U i (batch_save_updates K U i us db) = None"
    using ok batch_save_get(3) [of db us i] by (cases "us = []") (auto simp: store_ok_def batch_save_updates_def)
  with None show ?thesis by (simp add: stored_updates_def)
next
  case (Some old)
  note S = stored_updates_ids [OF ok Some]
  have ids: "map cu_id old @ keep_new (cu_id ` set old) (map cu_id us) = keep_new {} (map cu_id (old @ us))"
    using S(2) by (simp add: keep_new_append keep_new_id)
  show ?thesis
  proof (cases "us = []")
    case True
    then show ?thesis
      using Some S(2) last_of_nth_ids [OF S(2)]
      by (simp add: batch_save_updates_def merge_updates_def keep_new_id filter_all pick_update_def [abs_def])
  next
    case False
    have bt: "bt_ok db" using ok by (simp add: store_ok_def)
    note B = batch_save_get [OF bt False]
    have "stored_index K U i (batch_save_updates K U i us db) = Some (keep_new {} (map cu_id (old @ us)))"
      by (simp add: B(3) S(1) ids)
    moreover have "row_of K U i (batch_save_updates K U i us db) j = pick_update old [] us j"
      if "j \<in> set (keep_new {} (map cu_id (old @ us)))" for j
    proof (cases "j \<in> cu_id ` set old")
      case True
      then show ?thesis by (simp add: B(2) pick_update_def S(3))
    next
      case False
      with that have "last_of us j \<noteq> None" by (auto simp: last_of_None)
      then show ?thesis by (auto simp: B(2) pick_update_def)
    qed
    ultimately have "stored_updates K U i (batch_save_updates K U i us db) =
        Some (List.map_filter (pick_update old [] us) (keep_new {} (map cu_id (old @ us))))"
      by (rule stored_updates_from_rows)
    then show ?thesis by (simp add: Some merge_updates_def filter_all)
  qed
qed

lemma rows_okI:
  assumes "stored_updates K U i db = Some us" and "stored_index K U i db = Some (map cu_id us)"
    and "distinct (map cu_id us)" and "session_exists U i db"
  shows "rows_ok K U i db"
  using assms map_filter_rows [of "row_of K U i db" "map cu_id us" us]
  by (auto simp: rows_ok_def stored_updates_def load_rows_row_of)

lemma batch_save_ok:
  fixes db :: "'v db"
  assumes ok: "store_ok K U db"
  shows "store_ok K U (batch_save_updates K U i us db)" (is "store_ok K U ?db")
proof (cases "us = []")
  case True
  then show ?thesis using ok by (simp add: batch_save_updates_def)
next
  case False
  have bt: "bt_ok db" using ok by (simp add: store_ok_def)
  note B = batch_save_get [OF bt False, where i = i]
  show ?thesis
  proof (rule store_ok_step [OF ok B(1)])
    fix k assume new: "map_of ?db k \<noteq> None" "map_of db k = None"
    have "k \<in> {meta_key U i, update_index_key U i} \<union> range (update_key U i)"
      using new B(4) by metis
    then show "(\<exists>i. k \<in> {session_key U i, meta_key U i}) \<or> (\<exists>i u. k = update_key U i u) \<or>
        \<not> starts_with session_prefix k \<and> \<not> starts_with meta_prefix k"
      using index_key_apart by auto
  next
    fix j
    have sk: "map_of ?db (session_key U j) = map_of db (session_key U j)" by (rule B(4)) auto
    show "same_session U j db ?db \<or> (rows_ok K U j ?db \<and> blob_ok K U j ?db \<and> meta_ok K U j ?db)"
    proof (cases "j = i")
      case True
      have "blob_ok K U i ?db" using ok sk True unfolding store_ok_def blob_ok_def by metis
      moreover have "meta_ok K U i ?db"
        using ok batch_save_meta [OF bt False, of i] unfolding store_ok_def meta_ok_def by fastforce
      moreover have "rows_ok K U i ?db"
      proof (cases "stored_updates K U i db")
        case None
        then have "stored_index K U i ?db = None" by (simp add: B(3) stored_updates_def)
        then show ?thesis by (simp add: rows_ok_def)
      next
        case (Some old)
        note S = stored_updates_ids [OF ok Some]
        let ?us = "merge_updates old [] us []"
        have ids: "map cu_id old @ keep_new (cu_id ` set old) (map cu_id us) = map cu_id ?us"
          unfolding merge_updates_ids using S(2) by (simp add: keep_new_append keep_new_id filter_all)
        have "session_exists U i db" using ok S(1) unfolding store_ok_def rows_ok_def by blast
        then have "session_exists U i ?db" using sk True by (simp add: session_exists_def)
        moreover have "stored_updates K U i ?db = Some ?us" by (simp add: batch_save_updates_spec [OF ok] Some)
        ultimately show ?thesis
          using ids merge_updates_distinct by (intro rows_okI) (simp_all add: B(3) S(1))
      qed
      ultimately show ?thesis using True by blast
    next
      case False
      then have "({session_key U j, update_index_key U j, meta_key U j} \<union> range (update_key U j)) \<inter>
          ({meta_key U i, update_index_key U i} \<union> range (update_key U i)) = {}" by auto
      then have "same_session U j db ?db" by (rule same_sessionI [rotated]) (rule B(4))
      then show ?thesis by blast
    qed
  qed
qed

lemma batch_save_other:
  fixes db :: "'v db"
  assumes "bt_ok db" and "i \<noteq> j"
  shows "same_session U j db (batch_save_updates K U i us db)"
proof (cases "us = []")
  case True
  then show ?thesis by (simp add: batch_save_updates_def same_session_def)
next
  case False
  have "({session_key U j, update_index_key U j, meta_key U j} \<union> range (update_key U j)) \<inter>
      ({meta_key U i, update_index_key U i} \<union> range (update_key U i)) = {}" using assms(2) by auto
  then show ?thesis by (rule same_sessionI [rotated]) (rule batch_save_get(4) [OF assms(1) False])
qed

end

end
