(* ===== verification/Message_Store.thy ===== *)
theory Message_Store
  imports Session_Store_Rest
begin

text \<open>
  The conversation stream of a session in the RocksDB backend:
  \<open>post-cortex-storage/src/rocksdb_storage/messages.rs\<close>. Messages are rows numbered from 0; a key
  per turn id makes appends idempotent and a counter keeps the next position. Appends hold the
  lock of the session.
\<close>

section \<open>Operations\<close>

text \<open>The position after the last one; a counter of the wrong length is an error.\<close>

definition next_seq :: "'v codec \<Rightarrow> (uuid \<Rightarrow> string) \<Rightarrow> uuid \<Rightarrow> 'v db \<Rightarrow> nat option" where
  "next_seq K U i db =
     (case map_of db (message_next_key U i) of None \<Rightarrow> Some 0 | Some v \<Rightarrow> decode_seq (k_bytes K v))"

fun append_loop ::
  "'v codec \<Rightarrow> (uuid \<Rightarrow> string) \<Rightarrow> uuid \<Rightarrow> 'v db \<Rightarrow> string set \<Rightarrow> nat \<Rightarrow> new_message list \<Rightarrow>
   'v write_op list \<times> message list" where
  "append_loop K U i db seen next [] = ([], [])"
| "append_loop K U i db seen next (new # msgs) =
     (let turn = nm_turn_id new; turn_key = message_turn_key U i turn in
      if turn \<in> seen \<or> map_of db turn_key \<noteq> None
      then append_loop K U i db (insert turn seen) next msgs
      else
        let message = into_message i next new;
            (ops, appended) = append_loop K U i db (insert turn seen) (next + 1) msgs
        in (Put (message_key U i next) (k_message K message) #
            Put turn_key (k_raw K (u64_to_be_bytes next)) # ops, message # appended))"

definition append_messages ::
  "'v codec \<Rightarrow> (uuid \<Rightarrow> string) \<Rightarrow> uuid \<Rightarrow> new_message list \<Rightarrow> 'v db \<Rightarrow>
   'v db \<times> (store_error, message list) result" where
  "append_messages K U i msgs db =
     (if msgs = [] then (db, Ok [])
      else case next_seq K U i db of
          None \<Rightarrow> (db, Err Malformed_Value)
        | Some next \<Rightarrow>
            let (ops, appended) = append_loop K U i db {} next msgs
            in (if appended = [] then db
                else db_write (ops @ [Put (message_next_key U i)
                  (k_raw K (u64_to_be_bytes (next + length appended)))]) db, Ok appended))"

text \<open>Decoding every entry of a scan, stopping at the first that does not decode.\<close>

fun decode_all :: "('v \<Rightarrow> 'a option) \<Rightarrow> (bytes \<times> 'v) list \<Rightarrow> (store_error, 'a list) result" where
  "decode_all dec [] = Ok []"
| "decode_all dec (e # es) =
     (case dec (snd e) of None \<Rightarrow> Err Malformed_Value
      | Some a \<Rightarrow> res_bind (decode_all dec es) (\<lambda>as. Ok (a # as)))"

definition load_messages ::
  "'v codec \<Rightarrow> (uuid \<Rightarrow> string) \<Rightarrow> uuid \<Rightarrow> nat \<Rightarrow> nat \<Rightarrow> 'v db \<Rightarrow> (store_error, message list) result" where
  "load_messages K U i lo hi db =
     (if lo \<ge> hi then Ok []
      else decode_all (k_dec_message K) (scan_range (message_key U i lo) (Some (message_key U i hi)) db))"

definition message_prefix :: bytes where "message_prefix = ''message:''"

definition expired :: "'v codec \<Rightarrow> datetime \<Rightarrow> bytes \<times> 'v \<Rightarrow> message option" where
  "expired K cutoff e =
     (case k_dec_message K (snd e) of
        None \<Rightarrow> None
      | Some m \<Rightarrow> if nm_timestamp m < cutoff then Some m else None)"

definition delete_messages_before ::
  "'v codec \<Rightarrow> (uuid \<Rightarrow> string) \<Rightarrow> datetime \<Rightarrow> 'v db \<Rightarrow> 'v db \<times> (uuid \<times> nat) list" where
  "delete_messages_before K U cutoff db =
     (let rows = scan_prefix message_prefix db;
          batch = concat (map (\<lambda>e. case expired K cutoff e of
              None \<Rightarrow> []
            | Some m \<Rightarrow> [Delete (fst e), Delete (message_turn_key U (ms_session_id m) (nm_turn_id m))]) rows);
          deleted = List.map_filter (\<lambda>e. map_option (\<lambda>m. (ms_session_id m, ms_seq m)) (expired K cutoff e)) rows
      in (if deleted = [] then db else db_write batch db, deleted))"

section \<open>The stream\<close>

text \<open>
  The abstract view: the messages of a session by position. A well-formed store has every message
  under its own session and position, below the counter, with a turn key exactly for the turns
  that are stored, each once.
\<close>

definition message_at :: "'v codec \<Rightarrow> (uuid \<Rightarrow> string) \<Rightarrow> uuid \<Rightarrow> 'v db \<Rightarrow> nat \<Rightarrow> message option" where
  "message_at K U i db n = Option.bind (map_of db (message_key U i n)) (k_dec_message K)"

definition message_stream :: "'v codec \<Rightarrow> (uuid \<Rightarrow> string) \<Rightarrow> uuid \<Rightarrow> 'v db \<Rightarrow> message list" where
  "message_stream K U i db =
     List.map_filter (\<lambda>e. k_dec_message K (snd e)) (scan_prefix (message_prefix @ U i @ '':'') db)"

definition rows_named :: "'v codec \<Rightarrow> (uuid \<Rightarrow> string) \<Rightarrow> 'v db \<Rightarrow> bool" where
  "rows_named K U db \<longleftrightarrow>
     (\<forall>k v. map_of db k = Some v \<longrightarrow> starts_with message_prefix k \<longrightarrow>
        (\<exists>m. k_dec_message K v = Some m \<and> k = message_key U (ms_session_id m) (ms_seq m)))"

definition stream_ok :: "'v codec \<Rightarrow> (uuid \<Rightarrow> string) \<Rightarrow> uuid \<Rightarrow> 'v db \<Rightarrow> bool" where
  "stream_ok K U i db \<longleftrightarrow>
     (\<exists>next. next_seq K U i db = Some next \<and> next < 2 ^ 64 \<and>
        (\<forall>n m. message_at K U i db n = Some m \<longrightarrow> n < next)) \<and>
     (\<forall>t. map_of db (message_turn_key U i t) \<noteq> None \<longleftrightarrow>
        (\<exists>n m. message_at K U i db n = Some m \<and> nm_turn_id m = t)) \<and>
     (\<forall>n n' m m'. message_at K U i db n = Some m \<longrightarrow> message_at K U i db n' = Some m' \<longrightarrow>
        nm_turn_id m = nm_turn_id m' \<longrightarrow> n = n')"

definition messages_ok :: "'v codec \<Rightarrow> (uuid \<Rightarrow> string) \<Rightarrow> 'v db \<Rightarrow> bool" where
  "messages_ok K U db \<longleftrightarrow> bt_ok db \<and> rows_named K U db \<and> (\<forall>i. stream_ok K U i db)"

text \<open>What an append adds: the messages with a new turn id, the first of each, numbered on.\<close>

fun fresh_messages :: "string set \<Rightarrow> new_message list \<Rightarrow> new_message list" where
  "fresh_messages seen [] = []"
| "fresh_messages seen (m # ms) =
     (if nm_turn_id m \<in> seen then fresh_messages seen ms
      else m # fresh_messages (insert (nm_turn_id m) seen) ms)"

fun number_messages :: "uuid \<Rightarrow> nat \<Rightarrow> new_message list \<Rightarrow> message list" where
  "number_messages i n [] = []"
| "number_messages i n (m # ms) = into_message i n m # number_messages i (n + 1) ms"

end
