(* ===== verification/Session_Store_List.thy ===== *)
theory Session_Store_List
  imports Session_Store_Rest
begin

text \<open>
  Loading, its migration of older sessions, and the walk over the session keys.
\<close>

section \<open>The walk over the ids\<close>

lemma less_append_same:
  "length a = length b \<Longrightarrow> a < b \<Longrightarrow> a @ xs < b @ (ys :: string)"
  by (induction a b rule: list_induct2) auto

lemma take_less_sep: "starts_with (take n k @ [c]) k \<Longrightarrow> c < d \<Longrightarrow> k < take n k @ [d :: char]"
proof -
  assume "starts_with (take n k @ [c]) k" and "c < d"
  then obtain t where "k = take n k @ c # t" by (auto simp: starts_with_iff)
  moreover have "p @ c # t < p @ [d]" for p
    using \<open>c < d\<close> by (induction p) auto
  ultimately show ?thesis by metis
qed

text \<open>Keys as long as a session key, and keys that continue one with a colon.\<close>

definition walk_ok :: "'v db \<Rightarrow> bool" where
  "walk_ok db \<longleftrightarrow> (\<forall>k. map_of db k \<noteq> None \<longrightarrow> starts_with session_prefix k \<longrightarrow>
     length k > session_key_len \<longrightarrow> k ! session_key_len < CHR '';'')"

lemma key_below_seek:
  assumes "length k \<ge> session_key_len"
    and "length k > session_key_len \<longrightarrow> k ! session_key_len < CHR '';''"
  shows "k < take session_key_len k @ '';''"
proof (cases "length k = session_key_len")
  case True
  have "xs < xs @ [c]" for xs :: string and c by (induction xs) auto
  then show ?thesis using True by simp
next
  case False
  with assms have "starts_with (take session_key_len k @ [k ! session_key_len]) k"
    unfolding starts_with_iff by (metis append_take_drop_id le_neq_implies_less take_Suc_conv_app_nth)
  then show ?thesis using take_less_sep assms False by auto
qed

lemma no_id_between:
  assumes "length k \<ge> session_key_len" and "k < k'" and "k' < take session_key_len k @ '';''"
  shows "length k' \<noteq> session_key_len"
proof
  assume len: "length k' = session_key_len"
  let ?p = "take session_key_len k"
  have p: "length ?p = session_key_len" using assms(1) by simp
  consider "k' < ?p" | "k' = ?p" | "?p < k'" by (rule linorder_cases)
  then show False
  proof cases
    case 1
    then have "k' @ [] < ?p @ drop session_key_len k" by (intro less_append_same) (simp_all add: len assms(1) min_absorb2)
    then show False using assms(2) by simp
  next
    case 2
    have "xs \<le> xs @ ys" for xs ys :: string by (induction xs) auto
    then have "k' \<le> k" using 2 by (metis append_take_drop_id)
    then show False using assms(2) by simp
  next
    case 3
    then have "?p @ '';'' < k' @ []" by (intro less_append_same) (simp_all add: len assms(1) min_absorb2)
    then show False using assms(3) by simp
  qed
qed

lemma seek_suffix:
  assumes "bt_ok db" and "seek session_prefix db = pre @ e # rest" and "fst e < k"
  shows "seek k db = dropWhile (\<lambda>x. fst x < k) rest"
proof -
  let ?f = "\<lambda>e. case prefix_upper_bound session_prefix of None \<Rightarrow> True | Some h \<Rightarrow> fst e < h"
  let ?L = "seek session_prefix db"
  have L: "?L = filter (\<lambda>x. session_prefix \<le> fst x \<and> ?f x) db"
    by (simp add: seek_def scan_range_filter assms(1))
  have "bt_ok ?L" unfolding L using assms(1) by (rule bt_ok_filter)
  then have srt: "sorted (map fst ?L)" by (rule bt_ok_sorted)
  have "e \<in> set ?L" using assms(2) by simp
  then have "session_prefix \<le> fst e" unfolding L by simp
  then have sk: "session_prefix \<le> k" using assms(3) by simp
  have "seek k db = filter (\<lambda>x. k \<le> fst x \<and> ?f x) db"
    by (simp add: seek_def scan_range_filter assms(1))
  also have "\<dots> = filter (\<lambda>x. k \<le> fst x) ?L"
    unfolding L filter_filter using sk by (intro filter_cong) auto
  also have "\<dots> = dropWhile (\<lambda>x. fst x < k) ?L" by (rule dropWhile_below [OF srt, symmetric])
  also have "\<dots> = dropWhile (\<lambda>x. fst x < k) rest"
    unfolding assms(2) using srt assms(3) by (subst dropWhile_append2) (auto simp: assms(2) sorted_append)
  finally show ?thesis .
qed

lemma walk_ids_eq:
  assumes "bt_ok db" and "walk_ok db" and "seek session_prefix db = pre @ it"
  shows "walk_ids parse_uuid db it = Some (List.map_filter (\<lambda>e. id_of_key parse_uuid (fst e)) it)"
  using assms(3)
proof (induction "length it" arbitrary: pre it rule: less_induct)
  case less
  show ?case
  proof (cases it)
    case Nil
    then show ?thesis by (subst walk_ids.simps) simp
  next
    case (Cons e rest)
    have suffix: "seek session_prefix db = (pre @ [e]) @ rest" using less.prems Cons by simp
    show ?thesis
    proof (cases "length (fst e) < session_key_len")
      case True
      then have "id_of_key parse_uuid (fst e) = None" by (simp add: id_of_key_def)
      then show ?thesis
        using less.hyps [OF _ suffix] True by (subst walk_ids.simps) (simp add: Cons)
    next
      case False
      let ?k = "take session_key_len (fst e) @ '';''"
      let ?it = "dropWhile (\<lambda>x. fst x < ?k) rest" and ?skip = "takeWhile (\<lambda>x. fst x < ?k) rest"
      have "seek session_prefix db = filter (\<lambda>e. starts_with session_prefix (fst e)) db"
        using scan_prefix_filter [OF assms(1), of session_prefix] by (simp add: seek_def scan_prefix_def)
      then have "set (e # rest) \<subseteq> set (filter (\<lambda>e. starts_with session_prefix (fst e)) db)"
        using less.prems Cons by (metis Un_upper2 set_append)
      then have mem: "map_of db (fst x) \<noteq> None \<and> starts_with session_prefix (fst x)" if "x \<in> set (e # rest)" for x
        using that by (auto simp: map_of_eq_None_iff)
      have lt: "fst e < ?k"
        using key_below_seek [of "fst e"] mem [of e] assms(2) False by (auto simp: walk_ok_def)
      have sk: "seek ?k db = ?it" by (rule seek_suffix [OF assms(1) less.prems [unfolded Cons] lt])
      have rest: "rest = ?skip @ ?it" by simp
      have it: "seek session_prefix db = (pre @ e # ?skip) @ ?it" using less.prems Cons by simp
      have len: "length ?it < length it" using Cons length_dropWhile_le [of "\<lambda>x. fst x < ?k" rest] by simp
      have "sorted_wrt (<) (map fst (seek session_prefix db))"
        unfolding seek_def scan_range_filter [OF assms(1)] using bt_ok_filter [OF assms(1)] by (simp only: bt_ok_def)
      then have above: "\<forall>x \<in> set rest. fst e < fst x" using less.prems Cons by (auto simp: sorted_wrt_append)
      have "id_of_key parse_uuid (fst x) = None" if "x \<in> set ?skip" for x
        using no_id_between [of "fst e" "fst x"] that above False
        by (auto simp: id_of_key_def dest: set_takeWhileD)
      then have "List.map_filter (\<lambda>e. id_of_key parse_uuid (fst e)) ?skip = []"
        by (simp add: List.map_filter_def filter_empty_conv)
      then have skip: "List.map_filter (\<lambda>e. id_of_key parse_uuid (fst e)) rest =
          List.map_filter (\<lambda>e. id_of_key parse_uuid (fst e)) ?it"
        using map_filter_app [of _ ?skip ?it] by (metis append_Nil rest)
      have "walk_ids parse_uuid db ?it = Some (List.map_filter (\<lambda>e. id_of_key parse_uuid (fst e)) ?it)"
        by (rule less.hyps [OF len it])
      then show ?thesis
        using False by (subst walk_ids.simps) (simp add: Cons sk skip split: option.split)
    qed
  qed
qed

context storage
begin

lemma session_key_length: "length (session_key U i) = session_key_len"
  by (simp add: session_key_def session_key_len_def session_prefix_def length_show)

lemma id_of_session_key: "id_of_key parse_uuid (session_key U i) = Some i"
  unfolding id_of_key_def session_key_length by (simp add: session_key_def session_prefix_def parse_show)

lemma update_key_at: "length (update_key U i u) > session_key_len" "update_key U i u ! session_key_len = CHR '':''"
  by (simp_all add: update_key_def session_key_len_def session_prefix_def length_show nth_append)

lemma id_of_update_key: "id_of_key parse_uuid (update_key U i u) = None"
  using update_key_at(1) [of i u] by (simp add: id_of_key_def)

lemma walk_ok_store: "keys_ok U db \<Longrightarrow> walk_ok db"
  unfolding walk_ok_def keys_ok_def
proof (intro allI impI)
  fix k assume ok: "\<forall>k. map_of db k \<noteq> None \<longrightarrow>
      (starts_with session_prefix k \<longrightarrow> (\<exists>i. k = session_key U i) \<or> (\<exists>i u. k = update_key U i u)) \<and>
      (starts_with meta_prefix k \<longrightarrow> (\<exists>i. k = meta_key U i))"
    and k: "map_of db k \<noteq> None" "starts_with session_prefix k" "session_key_len < length k"
  then consider i where "k = session_key U i" | i u where "k = update_key U i u" by blast
  then show "k ! session_key_len < CHR '';''"
    using k(3) by cases (simp_all add: session_key_length update_key_at char_less_code)
qed

text \<open>The walk ends and gives the session of every blob, in the order of the keys.\<close>

lemma list_session_ids_eq:
  assumes "bt_ok db" and "keys_ok U db"
  obtains ids where "list_session_ids parse_uuid db = Some ids" "distinct ids"
    "set ids = {i. session_exists U i db}" "sorted (map (session_key U) ids)"
proof
  let ?L = "scan_prefix session_prefix db"
  let ?f = "\<lambda>e. id_of_key parse_uuid (fst e)"
  show "list_session_ids parse_uuid db = Some (List.map_filter ?f ?L)"
    unfolding list_session_ids_def
    by (subst walk_ids_eq [OF assms(1) walk_ok_store [OF assms(2)], of "[]"]) (simp_all add: seek_def scan_prefix_def)
  have L: "?L = filter (\<lambda>e. starts_with session_prefix (fst e)) db" by (rule scan_prefix_filter [OF assms(1)])
  have srt: "sorted_wrt (<) (map fst ?L)"
    unfolding L using bt_ok_filter [OF assms(1)] by (simp only: bt_ok_def)
  have key: "(\<exists>i. fst e = session_key U i) \<or> (\<exists>i u. fst e = update_key U i u)" if "e \<in> set ?L" for e
    using that assms(2) unfolding L keys_ok_def by (auto simp: map_of_eq_None_iff)
  have ids: "map (session_key U) (List.map_filter ?f es) = filter (\<lambda>k. \<exists>i. k = session_key U i) (map fst es)"
    if "set es \<subseteq> set ?L" for es
    using that
  proof (induction es)
    case (Cons e es)
    then consider i where "fst e = session_key U i" | i u where "fst e = update_key U i u" using key [of e] by auto
    then show ?case
      using Cons by cases (simp_all add: id_of_session_key id_of_update_key)
  qed simp
  have "sorted_wrt (<) (map (session_key U) (List.map_filter ?f ?L))"
    unfolding ids [OF order_refl] by (rule sorted_wrt_filter [OF srt])
  then have strict: "sorted (map (session_key U) (List.map_filter ?f ?L))"
      "distinct (map (session_key U) (List.map_filter ?f ?L))"
    by (simp_all add: strict_sorted_iff)
  then show "sorted (map (session_key U) (List.map_filter ?f ?L))" "distinct (List.map_filter ?f ?L)"
    by (simp_all add: distinct_map)
  have image: "session_key U ` set (List.map_filter ?f ?L) = {k \<in> fst ` set ?L. \<exists>i. k = session_key U i}"
    using arg_cong [OF ids [OF order_refl], of set] by simp
  have pre: "starts_with session_prefix (session_key U i)" for i by (simp add: session_key_def session_prefix_def)
  have inj: "inj (session_key U)" by (rule injI) simp
  show "set (List.map_filter ?f ?L) = {i. session_exists U i db}"
  proof (rule set_eqI)
    fix i
    have "i \<in> set (List.map_filter ?f ?L) \<longleftrightarrow> session_key U i \<in> session_key U ` set (List.map_filter ?f ?L)"
      by (rule inj_image_mem_iff [OF inj, symmetric])
    also have "\<dots> \<longleftrightarrow> session_key U i \<in> fst ` set ?L" unfolding image by blast
    also have "session_key U i \<in> fst ` set ?L \<longleftrightarrow> session_exists U i db"
      unfolding L session_exists_def using pre [of i] by (force simp: map_of_eq_None_iff)
    finally show "i \<in> set (List.map_filter ?f ?L) \<longleftrightarrow> i \<in> {i. session_exists U i db}" by simp
  qed
qed

end

end
