(* ===== verification/Session_Store_Props.thy ===== *)
theory Session_Store_Props
  imports Session_Store_List Active_Session_Props
begin

text \<open>
  The contract of the session store: what a save leaves for a load, what a deletion leaves, that
  every stored session is listed, and that loading an older session migrates it without changing
  it. The laws of the id text and of the codec are those of the locale \<open>storage\<close>, interpreted on
  the hyphenated form and on the values by name.
\<close>

interpretation st: storage hyphenated parse_hyphenated stored_codec
  by unfold_locales

section \<open>Loading\<close>

lemma relink_names_entities: "eg_entities (relink_names uid ns g) = eg_entities g"
  by (induction uid ns g rule: relink_names.induct) (simp_all add: Let_def split: option.split)

lemma relink_updates_entities: "eg_entities (relink_updates us g) = eg_entities g"
  by (induction us arbitrary: g) (simp_all add: relink_names_entities)

lemma hot_sharing_none:
  "hot_context_sharing hot [] n = hot_from_updates hot n"
  by (simp add: hot_context_sharing_def Let_def)

context storage
begin

lemma load_current:
  assumes "map_of db (session_key U i) = Some (k_session K d)" and "ad_incremental_updates d = []"
    and "stored_updates K U i db = Some us"
  shows "load_session K U P list_ids clocks i db =
    (db, Ok (relink_entity_mentions (set_incremental_updates us (deserialize_session P clocks d))))"
proof -
  obtain v where v: "map_of db (update_index_key U i) = Some v" "us = load_rows K U i db (decode_ids (k_bytes K v))"
    using assms(3) by (auto simp: stored_updates_def stored_index_def)
  have "as_incremental_updates (deserialize_session P clocks d) = []"
    using assms(2) by (simp add: deserialize_session_def)
  then have "read_session K U P clocks i db =
      Ok (Some (relink_entity_mentions (set_incremental_updates us (deserialize_session P clocks d)), None))"
    by (simp add: read_session_def assms(1) v Let_def)
  then show ?thesis by (simp add: load_session_def)
qed

lemma load_missing:
  "\<not> session_exists U i db \<Longrightarrow> load_session K U P list_ids clocks i db = (db, Err (Session_Not_Found i))"
  by (simp add: session_exists_def load_session_def read_session_def)

lemma save_leaves:
  fixes s :: "'g active_session" and db :: "'v db" and P list_ids us removed
  assumes "store_ok K U db"
  defines "db' \<equiv> fst (save_session_with_changes K U P list_ids s (session_id s) us removed db)"
  shows "store_ok K U db'"
    and "map_of db' (session_key U (session_id s)) = Some (k_session K (serialize_session P list_ids False s))"
    and "stored_updates K U (session_id s) db' =
      Some (merge_updates (unwrap_or (stored_updates K U (session_id s) db) []) (as_incremental_updates s) us removed)"
    and "i \<noteq> session_id s \<Longrightarrow> same_session U i db db'"
proof -
  have bt: "bt_ok db" using assms(1) by (simp add: store_ok_def)
  let ?b = "session_blob K P list_ids s"
  have db': "db' = fst (persist_session K U s ?b us removed db)"
    by (simp add: db'_def save_session_with_changes_def)
  have dec: "k_dec_session K ?b = Some (serialize_session P list_ids False s)"
    "sm_id (ad_metadata (serialize_session P list_ids False s)) = session_id s"
    by (simp_all add: session_blob_def serialize_session_def session_id_def)
  show "store_ok K U db'" unfolding db' by (rule persist_session_ok [OF assms(1) dec])
  show "map_of db' (session_key U (session_id s)) = Some (k_session K (serialize_session P list_ids False s))"
    unfolding db' persist_session_get(2) [OF bt] by (simp add: session_blob_def)
  show "stored_updates K U (session_id s) db' =
      Some (merge_updates (unwrap_or (stored_updates K U (session_id s) db) []) (as_incremental_updates s) us removed)"
    unfolding db' by (rule persist_session_updates [OF assms(1)])
  show "i \<noteq> session_id s \<Longrightarrow> same_session U i db db'" unfolding db' by (rule persist_session_other [OF bt])
qed

text \<open>A session whose blob holds its records, or that has no index, is migrated by the load.\<close>

lemma load_legacy:
  fixes db :: "'v db" and P :: "'g pg" and clocks d
  assumes ok: "store_ok K U db" and blob: "map_of db (session_key U i) = Some v" "k_dec_session K v = Some d"
    and legacy: "ad_incremental_updates d \<noteq> [] \<or> stored_index K U i db = None"
  defines "s \<equiv> relink_entity_mentions (deserialize_session P clocks d)"
  shows "load_session K U P list_ids clocks i db = (backfill_legacy K U P list_ids s v db, Ok s)"
    and "session_id s = i" and "as_incremental_updates s = ad_incremental_updates d"
    and "backfill_legacy K U P list_ids s v db = fst (save_session_with_changes K U P list_ids s i []
      (filter (\<lambda>j. j \<notin> cu_id ` set (ad_incremental_updates d)) (unwrap_or (stored_index K U i db) [])) db)"
proof -
  have inc: "as_incremental_updates (deserialize_session P clocks d) = ad_incremental_updates d"
    by (simp add: deserialize_session_def)
  show inc': "as_incremental_updates s = ad_incremental_updates d" by (simp add: s_def relink_entity_mentions_def inc)
  have "read_session K U P clocks i db = Ok (Some (s, Some v))"
    using legacy by (auto simp: read_session_def blob inc s_def Let_def stored_index_def)
  then show "load_session K U P list_ids clocks i db = (backfill_legacy K U P list_ids s v db, Ok s)"
    by (simp add: load_session_def)
  have "sm_id (ad_metadata d) = i" using ok blob unfolding store_ok_def blob_ok_def by fastforce
  then show i: "session_id s = i"
    by (simp add: s_def session_id_def relink_entity_mentions_def deserialize_session_def)
  have "(case map_of db (update_index_key U i) of None \<Rightarrow> [] | Some v \<Rightarrow> decode_ids (k_bytes K v)) =
      unwrap_or (stored_index K U i db) []"
    by (simp add: stored_index_def split: option.split)
  then show "backfill_legacy K U P list_ids s v db = fst (save_session_with_changes K U P list_ids s i []
      (filter (\<lambda>j. j \<notin> cu_id ` set (ad_incremental_updates d)) (unwrap_or (stored_index K U i db) [])) db)"
    by (simp add: backfill_legacy_def save_session_with_changes_def i inc' blob Let_def)
qed

lemma load_session_ok:
  fixes db :: "'v db" and P :: "'g pg"
  assumes "store_ok K U db"
  shows "store_ok K U (fst (load_session K U P list_ids clocks i db))"
    and "i \<noteq> j \<Longrightarrow> same_session U j db (fst (load_session K U P list_ids clocks i db))"
proof -
  let ?db = "fst (load_session K U P list_ids clocks i db)"
  have "?db = db \<or> (\<exists>s :: 'g active_session. \<exists>rm. session_id s = i \<and>
      ?db = fst (save_session_with_changes K U P list_ids s (session_id s) [] rm db))"
  proof (cases "map_of db (session_key U i)")
    case None
    then show ?thesis by (simp add: load_missing session_exists_def)
  next
    case (Some v)
    then obtain d where d: "k_dec_session K v = Some d"
      using assms unfolding store_ok_def blob_ok_def by blast
    show ?thesis
    proof (cases "ad_incremental_updates d \<noteq> [] \<or> stored_index K U i db = None")
      case True
      note L = load_legacy [OF assms Some d True, where P = P and clocks = clocks]
      show ?thesis
        unfolding L(1) fst_conv L(4) using L(2) by blast
    next
      case False
      then have "read_session K U P clocks i db \<in> range (\<lambda>s. Ok (Some (s, None)))"
        by (auto simp: read_session_def Some d Let_def deserialize_session_def stored_index_def)
      then show ?thesis by (auto simp: load_session_def)
    qed
  qed
  then have "store_ok K U ?db \<and> (i \<noteq> j \<longrightarrow> same_session U j db ?db)"
  proof (elim disjE exE conjE)
    fix s :: "'g active_session" and rm
    assume s: "session_id s = i" "?db = fst (save_session_with_changes K U P list_ids s (session_id s) [] rm db)"
    show ?thesis
      unfolding s(2) by (intro conjI impI save_leaves(1) [OF assms] save_leaves(4) [OF assms]) (use s(1) in auto)
  qed (simp add: assms same_session_def)
  then show "store_ok K U ?db" "i \<noteq> j \<Longrightarrow> same_session U j db ?db" by blast+
qed

end

section \<open>Deleting and listing\<close>

context storage
begin

lemma deleted_rows:
  assumes "bt_ok db"
  shows "load_session_updates K U i (delete_session K U i db) = []"
proof -
  let ?db = "delete_session K U i db" and ?p = "''session:'' @ U i @ '':update:''"
  have "\<not> starts_with ?p k" if "map_of ?db k \<noteq> None" for k
  proof
    assume "starts_with ?p k"
    then have "owned_key U i k"
      by (auto simp: starts_with_iff owned_key_def session_prefixes_def)
    then show False using that by (simp add: delete_session_get [OF assms])
  qed
  then have "scan_prefix ?p ?db = []"
    by (auto simp: scan_prefix_filter assms filter_empty_conv map_of_eq_None_iff)
  then show ?thesis by (simp add: load_session_updates_def delete_session_own(3) [OF assms])
qed

lemma sorted_ids_unique:
  assumes "sorted (map (session_key U) xs)" "distinct xs" "sorted (map (session_key U) ys)" "distinct ys" "set xs = set ys"
  shows "xs = ys"
proof (rule map_sorted_distinct_set_unique [of "session_key U"])
  show "inj_on (session_key U) (set xs \<union> set ys)" by (rule inj_onI) simp
qed (use assms in \<open>simp_all add: distinct_map inj_on_def\<close>)

lemma deleted_listing:
  assumes "store_ok K U db"
  shows "\<exists>ids. list_session_ids parse_uuid db = Some ids \<and>
    list_session_ids parse_uuid (delete_session K U i db) = Some (filter (\<lambda>j. j \<noteq> i) ids)"
proof -
  have ok: "bt_ok db" "keys_ok U db" "bt_ok (delete_session K U i db)" "keys_ok U (delete_session K U i db)"
    using assms delete_session_ok [OF assms] by (simp_all add: store_ok_def)
  obtain ids where I: "list_session_ids parse_uuid db = Some ids" "distinct ids"
      "set ids = {j. session_exists U j db}" "sorted (map (session_key U) ids)"
    by (rule list_session_ids_eq [OF ok(1,2)])
  obtain ids' where I': "list_session_ids parse_uuid (delete_session K U i db) = Some ids'" "distinct ids'"
      "set ids' = {j. session_exists U j (delete_session K U i db)}" "sorted (map (session_key U) ids')"
    by (rule list_session_ids_eq [OF ok(3,4)])
  have "ids' = filter (\<lambda>j. j \<noteq> i) ids"
  proof (rule sorted_ids_unique [OF I'(4,2)])
    show "sorted (map (session_key U) (filter (\<lambda>j. j \<noteq> i) ids))"
      using I(4) by (rule sorted_filter)
    show "set ids' = set (filter (\<lambda>j. j \<noteq> i) ids)"
      unfolding I'(3) set_filter I(3)
      by (auto simp: session_exists_def delete_session_get [OF ok(1)] owned_session_keys membership_session_keys)
  qed (use I(2) in simp)
  with I I' show ?thesis by blast
qed

text \<open>The summaries that are stored, by id.\<close>

lemma stored_metas_eq:
  assumes ok: "store_ok K U db"
  shows "stored_metas K db i = Option.bind (map_of db (meta_key U i)) (k_dec_summary K)"
proof -
  have bt: "bt_ok db" using ok by (simp add: store_ok_def)
  let ?L = "scan_prefix meta_prefix db"
  let ?f = "\<lambda>e m. case k_dec_summary K (snd e) of None \<Rightarrow> m | Some s \<Rightarrow> m(su_id s \<mapsto> s)"
  have L: "?L = filter (\<lambda>e. starts_with meta_prefix (fst e)) db" by (rule scan_prefix_filter [OF bt])
  have entry: "\<exists>j su. e = (meta_key U j, snd e) \<and> k_dec_summary K (snd e) = Some su \<and> su_id su = j"
    if "e \<in> set ?L" for e
  proof -
    obtain k v where e: "e = (k, v)" by fastforce
    then have kv: "map_of db k = Some v" "starts_with meta_prefix k" using that bt by (simp_all add: L bt_entry)
    then obtain j where j: "k = meta_key U j" using ok unfolding store_ok_def keys_ok_def by blast
    then show ?thesis using ok kv e unfolding store_ok_def meta_ok_def by fastforce
  qed
  have fold: "fold ?f es m i = (case map_of (rev es) (meta_key U i) of None \<Rightarrow> m i | Some v \<Rightarrow> k_dec_summary K v)"
    if "set es \<subseteq> set ?L" for es m
    using that
  proof (induction es arbitrary: m)
    case (Cons e es)
    then obtain j su where e: "e = (meta_key U j, snd e)" "k_dec_summary K (snd e) = Some su" "su_id su = j"
      using entry [of e] by auto
    have "map_of [e] (meta_key U i) = (if i = j then Some (snd e) else None)"
      by (subst e(1)) simp
    then show ?case using Cons e(2,3) by (simp add: map_add_def split: option.split)
  qed simp
  have d: "distinct (map fst ?L)" unfolding L using bt_ok_filter [OF bt] by (rule bt_ok_distinct)
  have "starts_with meta_prefix (meta_key U i)" by (simp add: meta_prefix_def key_defs)
  then have "map_of (rev ?L) (meta_key U i) = map_of db (meta_key U i)"
    using d map_of_inject_set [of "rev ?L" ?L] by (simp add: rev_map [symmetric]) (simp add: L map_of_filter_key)
  then show ?thesis
    using fold [OF order_refl, of Map.empty] by (simp add: stored_metas_def split: option.split)
qed

lemma summarize_new:
  assumes "bt_ok db" and "map_of db (meta_key U i) = None" and "session_exists U i db" and "blob_ok K U i db"
  obtains su where "summarize_without_meta K U i db = (db_write [Put (meta_key U i) (k_summary K su)] db, Ok (Some su))"
    "su_id su = i"
proof -
  obtain v where v: "map_of db (session_key U i) = Some v" using assms(3) by (auto simp: session_exists_def)
  then obtain d where d: "k_dec_session K v = Some d" "sm_id (ad_metadata d) = i"
    using assms(4) by (auto simp: blob_ok_def)
  obtain n where "k_dec_head K v = Some ((head_of_data d)\<lparr>bh_incremental_updates := n\<rparr>)"
    using dec_head [OF d(1)] by blast
  then show ?thesis
    using that d(2) by (simp add: summarize_without_meta_def assms(2) v Let_def head_of_data_def)
qed

lemma list_each_eq:
  assumes "bt_ok db" and "distinct ids" and "list_each K U m ids db = (db', rows)"
    and "\<forall>i \<in> set ids. session_exists U i db \<and> blob_ok K U i db \<and> meta_ok K U i db \<and>
      m i = Option.bind (map_of db (meta_key U i)) (k_dec_summary K)"
  shows "map su_id rows = ids \<and>
    (\<forall>i su. i \<in> set ids \<longrightarrow> Option.bind (map_of db (meta_key U i)) (k_dec_summary K) = Some su \<longrightarrow> su \<in> set rows) \<and>
    (\<forall>k. k \<notin> range (meta_key U) \<or> map_of db k \<noteq> None \<longrightarrow> map_of db' k = map_of db k)"
  using assms
proof (induction ids arbitrary: m db rows db')
  case (Cons i ids)
  have i: "session_exists U i db" "blob_ok K U i db" "meta_ok K U i db"
      "m i = Option.bind (map_of db (meta_key U i)) (k_dec_summary K)" using Cons.prems(4) by simp_all
  show ?case
  proof (cases "m i")
    case (Some su)
    obtain db1 rest where r: "list_each K U (m(i := None)) ids db = (db1, rest)" by fastforce
    then have rows: "rows = su # rest" "db' = db1" using Cons.prems(3) Some by simp_all
    have "su_id su = i" using i(3) i(4) [symmetric] Some by (cases "map_of db (meta_key U i)") (auto simp: meta_ok_def)
    moreover have "map su_id rest = ids \<and>
        (\<forall>i su. i \<in> set ids \<longrightarrow> Option.bind (map_of db (meta_key U i)) (k_dec_summary K) = Some su \<longrightarrow> su \<in> set rest) \<and>
        (\<forall>k. k \<notin> range (meta_key U) \<or> map_of db k \<noteq> None \<longrightarrow> map_of db1 k = map_of db k)"
    proof (rule Cons.IH [OF Cons.prems(1) _ r])
      show "\<forall>j \<in> set ids. session_exists U j db \<and> blob_ok K U j db \<and> meta_ok K U j db \<and>
          (m(i := None)) j = Option.bind (map_of db (meta_key U j)) (k_dec_summary K)"
      proof
        fix j assume "j \<in> set ids"
        then have "j \<noteq> i" using Cons.prems(2) by auto
        then show "session_exists U j db \<and> blob_ok K U j db \<and> meta_ok K U j db \<and>
            (m(i := None)) j = Option.bind (map_of db (meta_key U j)) (k_dec_summary K)"
          using Cons.prems(4) \<open>j \<in> set ids\<close> by simp
      qed
    qed (use Cons.prems(2) in simp)
    moreover have "su' = su" if "Option.bind (map_of db (meta_key U i)) (k_dec_summary K) = Some su'" for su'
      using that i(4) Some by simp
    ultimately show ?thesis unfolding rows by (metis list.set_intros list.simps(9) set_ConsD)
  next
    case None
    have "map_of db (meta_key U i) = None" using i(3,4) None by (cases "map_of db (meta_key U i)") (auto simp: meta_ok_def)
    then obtain su where su: "summarize_without_meta K U i db = (db_write [Put (meta_key U i) (k_summary K su)] db, Ok (Some su))"
        "su_id su = i" by (rule summarize_new [OF Cons.prems(1) _ i(1,2)])
    let ?db = "db_write [Put (meta_key U i) (k_summary K su)] db"
    have get: "map_of ?db = (map_of db)(meta_key U i \<mapsto> k_summary K su)"
      by (simp add: map_of_db_write [OF Cons.prems(1)])
    obtain db1 rest where r: "list_each K U m ids ?db = (db1, rest)" by fastforce
    then have rows: "rows = su # rest" "db' = db1" using Cons.prems(3) None su(1) by simp_all
    have same: "session_exists U j ?db = session_exists U j db" "blob_ok K U j ?db = blob_ok K U j db"
        "j \<noteq> i \<Longrightarrow> map_of ?db (meta_key U j) = map_of db (meta_key U j)" for j
      by (simp_all add: session_exists_def blob_ok_def get)
    have IH: "map su_id rest = ids \<and>
        (\<forall>i su. i \<in> set ids \<longrightarrow> Option.bind (map_of ?db (meta_key U i)) (k_dec_summary K) = Some su \<longrightarrow> su \<in> set rest) \<and>
        (\<forall>k. k \<notin> range (meta_key U) \<or> map_of ?db k \<noteq> None \<longrightarrow> map_of db1 k = map_of ?db k)"
    proof (rule Cons.IH [OF _ _ r])
      show "\<forall>j \<in> set ids. session_exists U j ?db \<and> blob_ok K U j ?db \<and> meta_ok K U j ?db \<and>
          m j = Option.bind (map_of ?db (meta_key U j)) (k_dec_summary K)"
      proof
        fix j assume "j \<in> set ids"
        then have "j \<noteq> i" using Cons.prems(2) by auto
        then show "session_exists U j ?db \<and> blob_ok K U j ?db \<and> meta_ok K U j ?db \<and>
            m j = Option.bind (map_of ?db (meta_key U j)) (k_dec_summary K)"
          using Cons.prems(4) \<open>j \<in> set ids\<close> unfolding meta_ok_def by (simp add: same)
      qed
    qed (use Cons.prems in simp_all)
    have "map_of db1 k = map_of db k" if "k \<notin> range (meta_key U) \<or> map_of db k \<noteq> None" for k
    proof -
      have "k \<noteq> meta_key U i" using that \<open>map_of db (meta_key U i) = None\<close> by auto
      then show ?thesis using IH that by (simp add: get)
    qed
    moreover have "su' \<in> set rest" if "j \<in> set ids" "Option.bind (map_of db (meta_key U j)) (k_dec_summary K) = Some su'" for j su'
    proof -
      have "j \<noteq> i" using that(1) Cons.prems(2) by auto
      then show ?thesis using IH that same(3) [of j] by metis
    qed
    ultimately show ?thesis
      using IH su(2) \<open>map_of db (meta_key U i) = None\<close> by (auto simp: rows)
  qed
qed simp

lemma list_each_rows:
  assumes ok: "store_ok K U db" and "distinct ids" and "set ids = {i. session_exists U i db}"
    and each: "list_each K U (stored_metas K db) ids db = (db', rows)"
  shows "map su_id rows = ids"
    and "\<forall>i v su. map_of db (meta_key U i) = Some v \<longrightarrow> k_dec_summary K v = Some su \<longrightarrow> i \<in> set ids \<longrightarrow> su \<in> set rows"
    and "\<forall>k. k \<notin> range (meta_key U) \<or> map_of db k \<noteq> None \<longrightarrow> map_of db' k = map_of db k"
proof -
  have bt: "bt_ok db" using ok by (simp add: store_ok_def)
  have "\<forall>i \<in> set ids. session_exists U i db \<and> blob_ok K U i db \<and> meta_ok K U i db \<and>
      stored_metas K db i = Option.bind (map_of db (meta_key U i)) (k_dec_summary K)"
    using ok assms(3) by (simp add: store_ok_def stored_metas_eq [OF ok])
  note E = list_each_eq [OF bt assms(2) each this]
  show "map su_id rows = ids"
    "\<forall>k. k \<notin> range (meta_key U) \<or> map_of db k \<noteq> None \<longrightarrow> map_of db' k = map_of db k" using E by blast+
  show "\<forall>i v su. map_of db (meta_key U i) = Some v \<longrightarrow> k_dec_summary K v = Some su \<longrightarrow> i \<in> set ids \<longrightarrow> su \<in> set rows"
    using E by simp
qed

end

section \<open>Saving and loading\<close>

definition demo_store :: "stored db" where
  "demo_store = save_session stored_codec hyphenated list_petgraph (\<lambda>_. []) demo_session []"

lemma store_ok_empty: "store_ok K U []"
  by (simp add: store_ok_def keys_ok_def rows_ok_def blob_ok_def meta_ok_def stored_index_def)

lemma demo_session_id: "session_id demo_session = 5"
  by code_simp

lemma demo_store_eq:
  "demo_store = fst (save_session_with_changes stored_codec hyphenated list_petgraph (\<lambda>_. []) demo_session
     (session_id demo_session) [] [] [])"
  by (simp add: demo_store_def save_session_def save_session_with_changes_def)

lemma demo_store_ok: "store_ok stored_codec hyphenated demo_store"
  unfolding demo_store_eq by (rule st.save_leaves(1) [OF store_ok_empty])

text \<open>
  C1: loading after a save gives the session back. Its records are the merge of what was stored
  with the snapshot (stored order first, the given updates rewritten, the removed ones gone),
  which is the snapshot itself when it extends what is stored; metadata, hot and warm tier, state,
  references, history and vectorized ids, entities and relations are those that were saved, and
  the cold tier up to the compaction of old summaries. The load changes nothing in the store.
\<close>

theorem save_then_load:
  assumes "storage U parse_uuid K" and "digraph P valid" and "session_reach P s" and "store_ok K U db"
    and "names_apart (snd ` set (eg_entities (as_entity_graph s)))"
    and "set (list_ids (as_vectorized_update_ids s)) = as_vectorized_update_ids s"
  shows "let i = session_id s;
      old = unwrap_or (stored_updates K U i db) [];
      db' = fst (save_session_with_changes K U P list_ids s i us removed db) in
    \<exists>s'. load_session K U P list_ids clocks i db' = (db', Ok s') \<and>
      as_incremental_updates s' = merge_updates old (as_incremental_updates s) us removed \<and>
      (us = [] \<and> removed = [] \<and> prefix old (as_incremental_updates s) \<longrightarrow>
        as_incremental_updates s' = as_incremental_updates s) \<and>
      as_metadata s' = as_metadata s \<and> as_last_updated s' = as_last_updated s \<and>
      hot_snapshot (as_hot_context s') = hot_snapshot (as_hot_context s) \<and>
      as_warm_context s' = as_warm_context s \<and> as_cold_context s' = map compact_summary (as_cold_context s) \<and>
      as_current_state s' = as_current_state s \<and> as_code_references s' = as_code_references s \<and>
      as_change_history s' = as_change_history s \<and> as_vectorized_update_ids s' = as_vectorized_update_ids s \<and>
      eg_entities (as_entity_graph s') = eg_entities (as_entity_graph s) \<and>
      rel_map P (as_entity_graph s') = rel_map P (as_entity_graph s)"
proof -
  let ?i = "session_id s" and ?d = "serialize_session P list_ids False s"
  let ?old = "unwrap_or (stored_updates K U ?i db) []"
  let ?us = "merge_updates ?old (as_incremental_updates s) us removed"
  let ?s = "deserialize_session P clocks ?d"
  let ?s' = "relink_entity_mentions (set_incremental_updates ?us ?s)"
  note G = entity_digraph_iff [OF assms(2)]
  note D = session_okD [OF session_reach_ok [OF G assms(3)]]
  have cold: "keep_newest (as_cold_context s) = as_cold_context s" using D(7) by (simp add: keep_newest_def)
  note S = deserialize_session_def serialize_session_def compact_cold_context_def cold relink_entity_mentions_def
    set_incremental_updates_def
  note L = graph_serde_roundtrip [OF assms(2) D(2) assms(5), of clocks, unfolded Let_def]
  note sv = storage.save_leaves [OF assms(1,4), where P = P and list_ids = list_ids and s = s and us = us and removed = removed]
  have load: "load_session K U P list_ids clocks ?i (fst (save_session_with_changes K U P list_ids s ?i us removed db)) =
      (fst (save_session_with_changes K U P list_ids s ?i us removed db), Ok ?s')"
    by (rule storage.load_current [OF assms(1) sv(2) _ sv(3)]) (simp add: serialize_session_def)
  have len: "length (hot_snapshot (as_hot_context s)) \<le> up_max_hot_context_size (sm_user_preferences (as_metadata s))"
    using D(1) hot_snapshot_length by (metis hot_of_session_def)
  have hot: "hot_snapshot (as_hot_context ?s') = hot_snapshot (as_hot_context s)"
    using hot_from_same(2) [OF len] by (simp add: S hot_sharing_none)
  have g: "as_entity_graph ?s' = relink_mentions ?us (as_entity_graph ?s)"
    "as_entity_graph ?s = deserialize_graph P clocks (serialize_graph P (as_entity_graph s))" by (simp_all add: S)
  have rel: "rel_map P (as_entity_graph ?s') = rel_map P (as_entity_graph s)"
    unfolding g using L entity_digraph.relink_mentions(3) [OF G] by simp
  have ents: "eg_entities (as_entity_graph ?s') = eg_entities (as_entity_graph s)"
    unfolding g relink_mentions_def relink_updates_entities using L by simp
  have same: "?us = as_incremental_updates s" if "us = []" "removed = []" "prefix ?old (as_incremental_updates s)"
    using that D(1) merge_updates_extend by (auto simp: hot_of_session_def prefix_def)
  show ?thesis
    unfolding Let_def load
    by (rule exI [of _ ?s']) (use same hot rel ents assms(6) in \<open>simp add: S\<close>)
qed

theorem save_then_load_witness:
  "\<exists>s'. load_session stored_codec hyphenated list_petgraph (\<lambda>_. []) (\<lambda>_ _. 0) 5 demo_store = (demo_store, Ok s') \<and>
     as_incremental_updates s' = as_incremental_updates demo_session"
proof -
  have a: "names_apart (snd ` set (eg_entities (as_entity_graph demo_session)))" by code_simp
  have b: "set [] = as_vectorized_update_ids demo_session" by code_simp
  have none: "stored_updates stored_codec hyphenated 5 [] = None" by (simp add: stored_updates_def stored_index_def)
  show ?thesis
    using save_then_load [OF st.storage_axioms lg.digraph_axioms demo_session_reach store_ok_empty a, of "\<lambda>_. []" "[]" "[]" "\<lambda>_ _. 0"] b
    unfolding Let_def demo_store_eq demo_session_id none by auto
qed



text \<open>
  C15: the listing ends and has one row per stored session, in the order of the ids, with the id of
  the session; a session saved without a summary gets one, and nothing else in the store changes.
\<close>

theorem listing_complete:
  assumes "storage U parse_uuid K" and "store_ok K U db"
  shows "\<exists>ids db' rows. list_session_ids parse_uuid db = Some ids \<and> distinct ids \<and>
    set ids = {i. session_exists U i db} \<and> sorted (map (session_key U) ids) \<and>
    list_session_summaries K U parse_uuid db = Some (db', rows) \<and> map su_id rows = ids \<and>
    (\<forall>i v su. map_of db (meta_key U i) = Some v \<longrightarrow> k_dec_summary K v = Some su \<longrightarrow> i \<in> set ids \<longrightarrow> su \<in> set rows) \<and>
    (\<forall>k. k \<notin> range (meta_key U) \<or> map_of db k \<noteq> None \<longrightarrow> map_of db' k = map_of db k)"
proof -
  have bt: "bt_ok db" and keys: "keys_ok U db" using assms(2) by (simp_all add: store_ok_def)
  obtain ids where ids: "list_session_ids parse_uuid db = Some ids" "distinct ids"
      "set ids = {i. session_exists U i db}" "sorted (map (session_key U) ids)"
    by (rule storage.list_session_ids_eq [OF assms(1) bt keys])
  obtain db' rows where each: "list_each K U (stored_metas K db) ids db = (db', rows)" by fastforce
  have "list_session_summaries K U parse_uuid db = Some (db', rows)"
    by (simp add: list_session_summaries_def ids each)
  with ids storage.list_each_rows [OF assms ids(2) _ each] show ?thesis by auto
qed

theorem listing_complete_witness:
  "\<exists>ids db' rows. list_session_summaries stored_codec hyphenated parse_hyphenated demo_store = Some (db', rows) \<and>
     map su_id rows = ids \<and> set ids = {i. session_exists hyphenated i demo_store}"
  using listing_complete [OF st.storage_axioms demo_store_ok] by blast

section \<open>Sessions of older versions\<close>

context storage
begin

lemma put_blob_ok:
  assumes ok: "store_ok K U db" and "sm_id (ad_metadata d) = i"
  defines "db' \<equiv> db_write [Put (session_key U i) (k_session K d)] db"
  shows "store_ok K U db'" and "stored_updates K U i db' = stored_updates K U i db"
    and "map_of db' (session_key U i) = Some (k_session K d)"
proof -
  have bt: "bt_ok db" using ok by (simp add: store_ok_def)
  have get: "map_of db' = (map_of db)(session_key U i \<mapsto> k_session K d)"
    by (simp add: db'_def map_of_db_write [OF bt])
  have views: "stored_index K U j db' = stored_index K U j db" "row_of K U j db' = row_of K U j db" for j
    by (auto simp: stored_index_def row_of_def get)
  show "stored_updates K U i db' = stored_updates K U i db"
    by (simp add: stored_updates_def load_rows_row_of views)
  show "map_of db' (session_key U i) = Some (k_session K d)" by (simp add: get)
  show "store_ok K U db'"
  proof (rule store_ok_step [OF ok])
    show "bt_ok db'" using bt by (simp add: db'_def)
    show "map_of db' k \<noteq> None \<Longrightarrow> map_of db k = None \<Longrightarrow>
      (\<exists>i. k \<in> {session_key U i, meta_key U i}) \<or> (\<exists>i u. k = update_key U i u) \<or>
      \<not> starts_with session_prefix k \<and> \<not> starts_with meta_prefix k" for k
      by (auto simp: get split: if_splits)
    show "same_session U j db db' \<or> (rows_ok K U j db' \<and> blob_ok K U j db' \<and> meta_ok K U j db')" for j
      using ok unfolding store_ok_def rows_ok_def blob_ok_def meta_ok_def views session_exists_def get
      by (cases "j = i") (auto simp: assms(2) same_session_def get)
  qed
qed

text \<open>Loading a migrated session once more.\<close>

lemma load_after_migration:
  fixes db :: "'v db" and P :: "'g pg" and clocks d
  assumes ok: "store_ok K U db" and blob: "map_of db (session_key U i) = Some v" "k_dec_session K v = Some d"
    and legacy: "ad_incremental_updates d \<noteq> [] \<or> stored_index K U i db = None"
  defines "removed \<equiv> filter (\<lambda>j. j \<notin> cu_id ` set (ad_incremental_updates d)) (unwrap_or (stored_index K U i db) [])"
  obtains s db' s2 where "load_session K U P list_ids clocks i db = (db', Ok s)"
    "as_incremental_updates s = ad_incremental_updates d" "store_ok K U db'"
    "load_session K U P list_ids clocks i db' = (db', Ok s2)"
    "as_incremental_updates s2 =
      merge_updates (unwrap_or (stored_updates K U i db) []) (ad_incremental_updates d) [] removed"
    "as_metadata s2 = as_metadata s" "as_last_updated s2 = as_last_updated s" "as_current_state s2 = as_current_state s"
proof -
  let ?s = "relink_entity_mentions (deserialize_session P clocks d)"
  note L = load_legacy [OF ok blob legacy, where P = P and clocks = clocks]
  let ?db = "fst (save_session_with_changes K U P list_ids ?s i [] removed db)"
  note sv = save_leaves [OF ok, where P = P and list_ids = list_ids and s = ?s and us = "[]" and removed = removed,
    unfolded L(2) L(3)]
  let ?us = "merge_updates (unwrap_or (stored_updates K U i db) []) (ad_incremental_updates d) [] removed"
  let ?s2 = "relink_entity_mentions (set_incremental_updates ?us
      (deserialize_session P clocks (serialize_session P list_ids False ?s)))"
  have "load_session K U P list_ids clocks i db = (?db, Ok ?s)"
    unfolding L(1) L(4) removed_def ..
  moreover have "load_session K U P list_ids clocks i ?db = (?db, Ok ?s2)"
    by (rule load_current [OF sv(2) _ sv(3)]) (simp add: serialize_session_def)
  ultimately show ?thesis
    using that sv(1) L(3)
    by (simp add: relink_entity_mentions_def set_incremental_updates_def deserialize_session_def serialize_session_def)
qed

end

text \<open>
  A session saved by an older version (its records in the blob, no index) loads as it was
  saved, and the load moves its records to rows: the store stays well formed, and the next load
  gives the same records from the rows and writes nothing.
\<close>

theorem migration_keeps_records:
  assumes "storage U parse_uuid K" and "store_ok K U db"
    and "map_of db (session_key U i) = Some v" and "k_dec_session K v = Some d"
    and "stored_index K U i db = None" and "distinct (map cu_id (ad_incremental_updates d))"
  shows "\<exists>s db' s2. load_session K U P list_ids clocks i db = (db', Ok s) \<and> store_ok K U db' \<and>
    as_incremental_updates s = ad_incremental_updates d \<and>
    stored_updates K U i db' = Some (ad_incremental_updates d) \<and>
    load_session K U P list_ids clocks i db' = (db', Ok s2) \<and>
    as_incremental_updates s2 = ad_incremental_updates d \<and> as_metadata s2 = as_metadata s \<and>
    as_last_updated s2 = as_last_updated s \<and> as_current_state s2 = as_current_state s"
proof -
  let ?us = "ad_incremental_updates d"
  have none: "stored_updates K U i db = None" using assms(5) by (simp add: stored_updates_def)
  have merge: "merge_updates [] ?us [] [] = ?us" using merge_updates_extend [of "[]" ?us] assms(6) by simp
  have legacy: "?us \<noteq> [] \<or> stored_index K U i db = None" using assms(5) by simp
  note L = storage.load_legacy [OF assms(1-4) legacy, where P = P and clocks = clocks]
  let ?s = "relink_entity_mentions (deserialize_session P clocks d)"
  have "stored_updates K U i (fst (load_session K U P list_ids clocks i db)) = Some ?us"
    using storage.save_leaves(3) [OF assms(1,2), where P = P and list_ids = list_ids and s = ?s and us = "[]" and removed = "[]",
      unfolded L(2) L(3)] merge
    by (simp add: L(1) L(4) assms(5) none)
  then show ?thesis
    using storage.load_after_migration [OF assms(1-4) legacy, of P list_ids clocks] merge
    by (simp add: assms(5) none) (metis fst_conv)
qed

definition older_store :: "stored db" where
  "older_store = db_write [Put (session_key hyphenated 5) (V_Session
     (serialize_session list_petgraph (\<lambda>_. []) True demo_session))] []"

theorem migration_keeps_records_witness:
  "\<exists>s db' s2. load_session stored_codec hyphenated list_petgraph (\<lambda>_. []) (\<lambda>_ _. 0) 5 older_store = (db', Ok s) \<and>
     load_session stored_codec hyphenated list_petgraph (\<lambda>_. []) (\<lambda>_ _. 0) 5 db' = (db', Ok s2) \<and>
     as_incremental_updates s = as_incremental_updates demo_session \<and>
     as_incremental_updates s2 = as_incremental_updates demo_session"
proof -
  let ?d = "serialize_session list_petgraph (\<lambda>_. []) True demo_session"
  have V: "V_Session = k_session stored_codec" by (simp add: stored_codec_def)
  have id: "sm_id (ad_metadata ?d) = 5" using demo_session_id by (simp add: serialize_session_def session_id_def)
  have ok: "store_ok stored_codec hyphenated older_store"
    unfolding older_store_def V by (rule st.put_blob_ok(1) [OF store_ok_empty id])
  have get: "map_of older_store (session_key hyphenated 5) = Some (V_Session ?d)"
    by (simp add: older_store_def map_of_db_write)
  have dec: "k_dec_session stored_codec (V_Session ?d) = Some ?d" by (simp add: stored_codec_def)
  have ix: "stored_index stored_codec hyphenated 5 older_store = None"
    by (simp add: older_store_def stored_index_def map_of_db_write)
  have inc: "ad_incremental_updates ?d = as_incremental_updates demo_session" by (simp add: serialize_session_def)
  have dist: "distinct (map cu_id (ad_incremental_updates ?d))" unfolding inc by code_simp
  show ?thesis
    using migration_keeps_records [OF st.storage_axioms ok get dec ix dist, of list_petgraph "\<lambda>_. []" "\<lambda>_ _. 0"]
    unfolding inc by blast
qed

text \<open>
  When the rows already list the ids of an embedded list, the embedded contents hold for one
  load only. The first load gives the records embedded in the blob; the migration it triggers
  keeps the old rows, so the next load gives the old contents.
\<close>

theorem embedded_contents_lost:
  assumes "storage U parse_uuid K" and "store_ok K U db"
    and "map_of db (session_key U i) = Some v" and "k_dec_session K v = Some d"
    and "stored_updates K U i db = Some old" and "old \<noteq> []"
    and "map cu_id (ad_incremental_updates d) = map cu_id old"
  shows "\<exists>s db' s2. load_session K U P list_ids clocks i db = (db', Ok s) \<and>
    as_incremental_updates s = ad_incremental_updates d \<and>
    load_session K U P list_ids clocks i db' = (db', Ok s2) \<and> as_incremental_updates s2 = old"
proof -
  let ?us = "ad_incremental_updates d"
  note S = stored_updates_ids [OF assms(2,5)]
  have legacy: "?us \<noteq> [] \<or> stored_index K U i db = None" using assms(6,7) by auto
  have ids: "cu_id ` set ?us = cu_id ` set old" using assms(7) by (metis list.set_map)
  have removed: "filter (\<lambda>j. j \<notin> cu_id ` set ?us) (unwrap_or (stored_index K U i db) []) = []"
    by (simp add: S(1) ids filter_empty_conv)
  have "keep_new {} (map cu_id (old @ ?us @ [])) = map cu_id old"
    using S(2) ids by (simp add: keep_new_append keep_new_id keep_new_none)
  moreover have "pick_update old ?us [] j = last_of old j" if "j \<in> set (map cu_id old)" for j
    using that by (auto simp: pick_update_def or_else_def last_of_None split: option.split)
  then have "List.map_filter (pick_update old ?us []) (map cu_id old) = old"
    using last_of_nth_ids [OF S(2)] map_filter_cong by metis
  ultimately have "merge_updates old ?us [] [] = old"
    by (simp add: merge_updates_def filter_all)
  then show ?thesis
    using storage.load_after_migration [OF assms(1-4) legacy, of P list_ids clocks]
    unfolding removed assms(5) by simp metis
qed

definition retitled :: "context_update list" where
  "retitled = map (cu_content_update (\<lambda>c. c\<lparr>uc_title := ''changed''\<rparr>)) (as_incremental_updates demo_session)"

definition downgraded_store :: "stored db" where
  "downgraded_store = db_write [Put (session_key hyphenated 5) (V_Session
     ((serialize_session list_petgraph (\<lambda>_. []) True demo_session)\<lparr>ad_incremental_updates := retitled\<rparr>))] demo_store"

theorem embedded_contents_lost_witness:
  "\<exists>s db' s2. load_session stored_codec hyphenated list_petgraph (\<lambda>_. []) (\<lambda>_ _. 0) 5 downgraded_store = (db', Ok s) \<and>
     load_session stored_codec hyphenated list_petgraph (\<lambda>_. []) (\<lambda>_ _. 0) 5 db' = (db', Ok s2) \<and>
     as_incremental_updates s = retitled \<and> as_incremental_updates s2 = as_incremental_updates demo_session \<and>
     retitled \<noteq> as_incremental_updates demo_session"
proof -
  let ?d = "(serialize_session list_petgraph (\<lambda>_. []) True demo_session)\<lparr>ad_incremental_updates := retitled\<rparr>"
  let ?us = "as_incremental_updates demo_session"
  have V: "V_Session = k_session stored_codec" by (simp add: stored_codec_def)
  have id: "sm_id (ad_metadata ?d) = 5" using demo_session_id by (simp add: serialize_session_def session_id_def)
  note P = st.put_blob_ok [OF demo_store_ok id, folded V, folded downgraded_store_def]
  have dec: "k_dec_session stored_codec (V_Session ?d) = Some ?d" by (simp add: stored_codec_def)
  have dist: "distinct (map cu_id ?us)" and ne: "?us \<noteq> []" and diff: "retitled \<noteq> ?us"
    and ids: "map cu_id retitled = map cu_id ?us" by code_simp+
  have "stored_updates stored_codec hyphenated 5 demo_store = Some (merge_updates [] ?us [] [])"
    using st.save_leaves(3) [OF store_ok_empty, where s = demo_session and P = list_petgraph and list_ids = "\<lambda>_. []"
      and us = "[]" and removed = "[]"]
    by (simp add: demo_store_eq demo_session_id stored_updates_def [of _ _ _ "[]"] stored_index_def [of _ _ _ "[]"])
  then have st: "stored_updates stored_codec hyphenated 5 downgraded_store = Some ?us"
    using merge_updates_extend [of "[]" ?us] dist by (simp add: P(2))
  show ?thesis
    using embedded_contents_lost [OF st.storage_axioms P(1) P(3) dec st ne, of list_petgraph "\<lambda>_. []" "\<lambda>_ _. 0"] ids diff
    by auto
qed

end
