(* ===== verification/Message_Store_Inv.thy ===== *)
theory Message_Store_Inv
  imports Message_Store Session_Store_Props
begin

text \<open>
  The message stream keeps its contract: appends are idempotent on the turn id and continue the
  numbering, a load gives the positions asked for, and retention removes exactly what is older
  than the cutoff and never frees a position.
\<close>

section \<open>Batches on one family of keys\<close>

lemma ops_effect_cong: "m k = m' k \<Longrightarrow> ops_effect ops m k = ops_effect ops m' k"
proof (induction ops arbitrary: m m')
  case (Cons x ops)
  show ?case
  proof (cases x)
    case (Put k' v)
    show ?thesis unfolding Put ops_effect.simps by (rule Cons.IH) (simp add: Cons.prems)
  next
    case (Delete k')
    show ?thesis unfolding Delete ops_effect.simps by (rule Cons.IH) (simp add: Cons.prems)
  qed
qed simp

lemma ops_effect_filter: "Q k \<Longrightarrow> ops_effect ops m k = ops_effect (filter (\<lambda>x. Q (op_key x)) ops) m k"
proof (induction ops arbitrary: m)
  case (Cons x ops)
  show ?case
  proof (cases "Q (op_key x)")
    case True
    then show ?thesis using Cons by (cases x) auto
  next
    case False
    then have "op_key x \<noteq> k" using Cons.prems by auto
    then have "ops_effect (x # ops) m k = ops_effect ops m k"
      by (cases x) (auto intro: ops_effect_cong)
    then show ?thesis using Cons False by simp
  qed
qed simp

lemma starts_with_between: "p @ x \<le> k \<Longrightarrow> k < p @ y \<Longrightarrow> starts_with p (k :: string)"
proof (induction p arbitrary: k)
  case (Cons c p)
  then show ?case by (cases k) auto
qed simp

lemma append_le_append: "p @ x \<le> p @ (y :: string) \<longleftrightarrow> x \<le> y" "p @ x < p @ y \<longleftrightarrow> x < y"
  by (induction p) simp_all

section \<open>The stream\<close>

definition append_batch :: "'v codec \<Rightarrow> (uuid \<Rightarrow> string) \<Rightarrow> uuid \<Rightarrow> message list \<Rightarrow> 'v write_op list" where
  "append_batch K U i ms = concat (map (\<lambda>m. [Put (message_key U i (ms_seq m)) (k_message K m),
     Put (message_turn_key U i (nm_turn_id m)) (k_raw K (u64_to_be_bytes (ms_seq m)))]) ms)"

lemma into_message_sel [simp]:
  "ms_session_id (into_message i n m) = i" "ms_seq (into_message i n m) = n"
  "nm_turn_id (into_message i n m) = nm_turn_id m" "nm_timestamp (into_message i n m) = nm_timestamp m"
  by (simp_all add: into_message_def new_message.defs message.defs)

lemma number_messages_seqs: "map ms_seq (number_messages i n ms) = [n..<n + length ms]"
  by (induction i n ms rule: number_messages.induct) (simp_all add: upt_rec)

lemma length_number_messages [simp]: "length (number_messages i n ms) = length ms"
  by (induction i n ms rule: number_messages.induct) simp_all

lemma number_messages_turns: "map nm_turn_id (number_messages i n ms) = map nm_turn_id ms"
  by (induction i n ms rule: number_messages.induct) simp_all

lemma number_messages_session: "m \<in> set (number_messages i n ms) \<Longrightarrow> ms_session_id m = i"
  by (induction i n ms rule: number_messages.induct) auto

lemma fresh_messages_turns:
  "set (map nm_turn_id (fresh_messages seen ms)) = set (map nm_turn_id ms) - seen"
  "distinct (map nm_turn_id (fresh_messages seen ms))"
  by (induction seen ms rule: fresh_messages.induct) auto

lemma fresh_messages_none: "set (map nm_turn_id ms) \<subseteq> seen \<Longrightarrow> fresh_messages seen ms = []"
  by (induction seen ms rule: fresh_messages.induct) auto

lemma map_filter_memI: "x \<in> set xs \<Longrightarrow> f x = Some y \<Longrightarrow> y \<in> set (List.map_filter f xs)"
  by (auto simp: List.map_filter_def intro: image_eqI [of _ _ x])

lemma map_filter_mem: "y \<in> set (List.map_filter f xs) \<longleftrightarrow> (\<exists>x. x \<in> set xs \<and> f x = Some y)"
  by (induction xs) (auto split: option.splits)

lemma map_filter_none: "List.map_filter (\<lambda>x. map_option g (f x)) xs = [] \<Longrightarrow>
    concat (map (\<lambda>x. case f x of None \<Rightarrow> [] | Some y \<Rightarrow> h x y) xs) = []"
  by (induction xs) (auto split: option.splits)

lemma deletes_keys:
  "k \<in> op_key ` set (concat (map (\<lambda>e. case f e of None \<Rightarrow> [] | Some m \<Rightarrow> [Delete (a e), Delete (b m)]) es)) \<longleftrightarrow>
    (\<exists>e m. (e \<in> set es \<and> f e = Some m) \<and> (k = a e \<or> k = b m))"
proof (induction es)
  case (Cons e es)
  then show ?case by (cases "f e") auto
qed simp

context storage
begin

lemma message_prefix_keys [simp]:
  "starts_with message_prefix (message_key U i n)"
  "\<not> starts_with message_prefix (message_turn_key U i t)" "\<not> starts_with message_prefix (message_next_key U i)"
  by (simp_all add: message_prefix_def key_defs)

lemma append_loop_eq:
  assumes "stored = {t. map_of db (message_turn_key U i t) \<noteq> None}"
  shows "append_loop K U i db seen n ms =
    (append_batch K U i (number_messages i n (fresh_messages (seen \<union> stored) ms)),
     number_messages i n (fresh_messages (seen \<union> stored) ms))"
proof (induction ms arbitrary: seen n)
  case (Cons m ms)
  show ?case
  proof (cases "nm_turn_id m \<in> seen \<or> nm_turn_id m \<in> stored")
    case True
    then have "insert (nm_turn_id m) (seen \<union> stored) = seen \<union> stored" by blast
    then show ?thesis using True Cons assms by (auto simp: Let_def)
  next
    case False
    then show ?thesis using Cons assms by (simp add: Let_def append_batch_def)
  qed
qed (simp add: append_batch_def)

lemma message_at_row:
  assumes "rows_named K U db" and "message_at K U i db n = Some m"
  shows "ms_session_id m = i" "ms_seq m = n"
proof -
  obtain v where v: "map_of db (message_key U i n) = Some v" "k_dec_message K v = Some m"
    using assms(2) by (cases "map_of db (message_key U i n)") (auto simp: message_at_def)
  then obtain m' where "k_dec_message K v = Some m'" "message_key U i n = message_key U (ms_session_id m') (ms_seq m')"
    using assms(1) unfolding rows_named_def by force
  then show "ms_session_id m = i" "ms_seq m = n" using v by simp_all
qed

lemma stream_bound:
  assumes "stream_ok K U i db" and "message_at K U i db n = Some m"
  shows "n < 2 ^ 64"
proof -
  obtain c where "c < (2 :: nat) ^ 64" "\<forall>n m. message_at K U i db n = Some m \<longrightarrow> n < c"
    using assms(1) unfolding stream_ok_def by (elim conjE exE) auto
  then show ?thesis using assms(2) by (auto intro: less_trans)
qed

lemma stream_scan_entry:
  assumes "bt_ok db" and "rows_named K U db" and "e \<in> set (scan_prefix (message_prefix @ U i @ '':'') db)"
  shows "\<exists>m. k_dec_message K (snd e) = Some m \<and> fst e = message_key U i (ms_seq m) \<and>
    message_at K U i db (ms_seq m) = Some m"
proof -
  have e: "map_of db (fst e) = Some (snd e)" "starts_with (message_prefix @ U i @ '':'') (fst e)"
    using assms(3) bt_entry [OF assms(1), of "fst e" "snd e"] by (simp_all add: scan_prefix_filter [OF assms(1)])
  then have "starts_with message_prefix (fst e)" by (auto simp: starts_with_iff)
  then obtain m where m: "k_dec_message K (snd e) = Some m" "fst e = message_key U (ms_session_id m) (ms_seq m)"
    using assms(2) e(1) unfolding rows_named_def by blast
  moreover have "ms_session_id m = i"
    using e(2) unfolding m(2) message_prefix_def message_key_def by (auto simp: U_starts)
  ultimately show ?thesis using e(1) by (auto simp: message_at_def)
qed

lemma message_scan_prefix: "starts_with (message_prefix @ U i @ '':'') (message_key U i n)"
  by (simp add: message_prefix_def message_key_def U_starts)

lemma message_key_less:
  assumes "n < 10 ^ 20" and "m < 10 ^ 20"
  shows "message_key U i n < message_key U i m \<longleftrightarrow> n < m" "message_key U i n \<le> message_key U i m \<longleftrightarrow> n \<le> m"
  using pad20_less [OF assms] pad20_less [OF assms(2,1)]
  by (simp_all add: message_key_def append_le_append linorder_not_less [symmetric])

lemma stream_entries:
  assumes "messages_ok K U db"
  shows "set (message_stream K U i db) = {m. message_at K U i db (ms_seq m) = Some m}"
    and "sorted_wrt (\<lambda>a b. ms_seq a < ms_seq b) (message_stream K U i db)"
proof -
  have bt: "bt_ok db" and rows: "rows_named K U db" and next_ok: "stream_ok K U i db"
    using assms by (simp_all add: messages_ok_def)
  let ?L = "scan_prefix (message_prefix @ U i @ '':'') db"
  have L: "?L = filter (\<lambda>e. starts_with (message_prefix @ U i @ '':'') (fst e)) db" by (rule scan_prefix_filter [OF bt])
  note entry = stream_scan_entry [OF bt rows, of _ i] and key = message_scan_prefix [of i]
  show "set (message_stream K U i db) = {m. message_at K U i db (ms_seq m) = Some m}"
  proof (intro set_eqI iffI)
    fix m assume "m \<in> set (message_stream K U i db)"
    then obtain e where "e \<in> set ?L" "k_dec_message K (snd e) = Some m"
      by (auto simp: message_stream_def List.map_filter_def)
    then show "m \<in> {m. message_at K U i db (ms_seq m) = Some m}" using entry [of e] by auto
  next
    fix m assume "m \<in> {m. message_at K U i db (ms_seq m) = Some m}"
    then obtain v where v: "map_of db (message_key U i (ms_seq m)) = Some v" "k_dec_message K v = Some m"
      by (cases "map_of db (message_key U i (ms_seq m))") (auto simp: message_at_def)
    then have "(message_key U i (ms_seq m), v) \<in> set ?L" using key by (simp add: L bt_entry [OF bt])
    then show "m \<in> set (message_stream K U i db)"
      unfolding message_stream_def by (rule map_filter_memI) (simp add: v(2))
  qed
  have lt: "n < 10 ^ 20" if "message_at K U i db n = Some m" for n m
    using stream_bound [OF next_ok that] by simp
  have srt: "sorted_wrt (\<lambda>a b. fst a < fst b) ?L"
    unfolding L using bt_ok_filter [OF bt] by (simp only: bt_ok_def sorted_wrt_map)
  have "sorted_wrt (\<lambda>a b. ms_seq a < ms_seq b) (List.map_filter (\<lambda>e. k_dec_message K (snd e)) es)"
    if "sorted_wrt (\<lambda>a b. fst a < fst b) es" "set es \<subseteq> set ?L" for es
    using that
  proof (induction es)
    case (Cons e es)
    obtain m where m: "k_dec_message K (snd e) = Some m" "fst e = message_key U i (ms_seq m)"
        "message_at K U i db (ms_seq m) = Some m" using entry [of e] Cons.prems by auto
    have "ms_seq m < ms_seq m'" if mem: "m' \<in> set (List.map_filter (\<lambda>e. k_dec_message K (snd e)) es)" for m'
    proof -
      obtain e' where e': "e' \<in> set es" "k_dec_message K (snd e') = Some m'"
        using mem by (auto simp: List.map_filter_def)
      then have m': "fst e' = message_key U i (ms_seq m')" "message_at K U i db (ms_seq m') = Some m'"
        using entry [of e'] Cons.prems(2) by auto
      have "fst e < fst e'" using Cons.prems(1) e'(1) by simp
      then show ?thesis unfolding m(2) m'(1) message_key_less [OF lt [OF m(3)] lt [OF m'(2)]] .
    qed
    then show ?case using Cons m(1) by simp
  qed simp
  from this [OF srt order_refl] show "sorted_wrt (\<lambda>a b. ms_seq a < ms_seq b) (message_stream K U i db)"
    by (simp add: message_stream_def)
qed

lemma stream_unique:
  assumes "sorted_wrt (\<lambda>a b. ms_seq a < ms_seq b) xs" "sorted_wrt (\<lambda>a b. ms_seq a < ms_seq b) ys" "set xs = set ys"
  shows "xs = ys"
proof (rule map_sorted_distinct_set_unique [of ms_seq])
  show s: "sorted (map ms_seq xs)" "distinct (map ms_seq xs)" "sorted (map ms_seq ys)" "distinct (map ms_seq ys)"
    using assms(1,2) by (simp_all only: sorted_wrt_map [symmetric] strict_sorted_iff)
  show "inj_on ms_seq (set xs \<union> set ys)" using s(2) assms(3) by (simp add: distinct_map)
qed (rule assms(3))

section \<open>Appending\<close>

lemma append_batch_message:
  "ops_effect (append_batch K U i (number_messages i n ms)) M (message_key U j k) =
    (if j = i \<and> n \<le> k \<and> k < n + length ms then Some (k_message K (number_messages i n ms ! (k - n)))
     else M (message_key U j k))"
proof (induction ms arbitrary: n M)
  case (Cons m ms)
  have "number_messages i n (m # ms) ! (k - n) = number_messages i (n + 1) ms ! (k - (n + 1))" if "n < k"
    using that by (simp add: nth_Cons')
  then show ?case using Cons.IH [of "n + 1"] by (auto simp: append_batch_def)
qed (auto simp: append_batch_def)

lemma append_batch_turn:
  "ops_effect (append_batch K U i (number_messages i n ms)) M (message_turn_key U j t) \<noteq> None \<longleftrightarrow>
    (j = i \<and> t \<in> nm_turn_id ` set ms) \<or> M (message_turn_key U j t) \<noteq> None"
proof (induction ms arbitrary: n M)
  case (Cons m ms)
  then show ?case using Cons.IH [of "n + 1"] by (auto simp: append_batch_def)
qed (simp add: append_batch_def)

lemma append_batch_keys:
  "op_key ` set (append_batch K U i (number_messages i n ms)) \<subseteq> range (message_key U i) \<union> range (message_turn_key U i)"
  by (auto simp: append_batch_def)

definition append_write :: "uuid \<Rightarrow> nat \<Rightarrow> new_message list \<Rightarrow> 'v db \<Rightarrow> 'v db" where
  "append_write i n ms db = (if ms = [] then db else db_write (append_batch K U i (number_messages i n ms) @
     [Put (message_next_key U i) (k_raw K (u64_to_be_bytes (n + length ms)))]) db)"

definition stored_turns :: "uuid \<Rightarrow> 'v db \<Rightarrow> string set" where
  "stored_turns i db = {t. map_of db (message_turn_key U i t) \<noteq> None}"

lemma append_messages_eq:
  assumes "next_seq K U i db = Some n"
  shows "append_messages K U i msgs db =
    (append_write i n (fresh_messages (stored_turns i db) msgs) db,
     Ok (number_messages i n (fresh_messages (stored_turns i db) msgs)))"
proof -
  have *: "(number_messages i n ms = []) = (ms = [])" for ms by (cases ms) auto
  show ?thesis
    by (simp add: append_messages_def assms append_loop_eq [OF stored_turns_def] append_write_def * Let_def)
qed

lemma append_write_views:
  fixes db :: "'v db"
  assumes "bt_ok db"
  shows "map_of (append_write i n ms db) (message_key U j k) =
      (if j = i \<and> n \<le> k \<and> k < n + length ms then Some (k_message K (number_messages i n ms ! (k - n)))
       else map_of db (message_key U j k))"
    and "map_of (append_write i n ms db) (message_turn_key U j t) \<noteq> None \<longleftrightarrow>
      (j = i \<and> t \<in> nm_turn_id ` set ms) \<or> map_of db (message_turn_key U j t) \<noteq> None"
    and "map_of (append_write i n ms db) (message_next_key U j) =
      (if j = i \<and> ms \<noteq> [] then Some (k_raw K (u64_to_be_bytes (n + length ms))) else map_of db (message_next_key U j))"
    and "x \<notin> range (message_key U i) \<Longrightarrow> x \<notin> range (message_turn_key U i) \<Longrightarrow> x \<noteq> message_next_key U i \<Longrightarrow>
      map_of (append_write i n ms db) x = map_of db x"
proof -
  let ?B = "append_batch K U i (number_messages i n ms)"
  have next_out: "message_next_key U j \<notin> op_key ` set ?B" for j using append_batch_keys [of i n ms] by auto
  show "map_of (append_write i n ms db) (message_key U j k) =
      (if j = i \<and> n \<le> k \<and> k < n + length ms then Some (k_message K (number_messages i n ms ! (k - n)))
       else map_of db (message_key U j k))"
    by (cases "ms = []") (auto simp: append_write_def map_of_db_write [OF assms] append_batch_message)
  show "map_of (append_write i n ms db) (message_turn_key U j t) \<noteq> None \<longleftrightarrow>
      (j = i \<and> t \<in> nm_turn_id ` set ms) \<or> map_of db (message_turn_key U j t) \<noteq> None"
    by (cases "ms = []") (simp_all add: append_write_def map_of_db_write [OF assms] append_batch_turn del: not_None_eq)
  show "map_of (append_write i n ms db) (message_next_key U j) =
      (if j = i \<and> ms \<noteq> [] then Some (k_raw K (u64_to_be_bytes (n + length ms))) else map_of db (message_next_key U j))"
    by (simp add: append_write_def map_of_db_write [OF assms] ops_effect_other [OF next_out])
  assume x: "x \<notin> range (message_key U i)" "x \<notin> range (message_turn_key U i)" "x \<noteq> message_next_key U i"
  then have "x \<notin> op_key ` set ?B" using append_batch_keys [of i n ms] by blast
  then show "map_of (append_write i n ms db) x = map_of db x"
    using x(3) by (simp add: append_write_def map_of_db_write [OF assms] ops_effect_other)
qed

lemma append_write_message_at:
  fixes db :: "'v db"
  assumes "bt_ok db"
  shows "message_at K U j (append_write i n ms db) k =
      (if j = i \<and> n \<le> k \<and> k < n + length ms then Some (number_messages i n ms ! (k - n))
       else message_at K U j db k)"
  unfolding message_at_def append_write_views(1) [OF assms] by simp

lemma append_write_next:
  fixes db :: "'v db"
  assumes "bt_ok db" and "next_seq K U i db = Some n" and "n + length ms < 2 ^ 64"
  shows "next_seq K U i (append_write i n ms db) = Some (n + length ms)"
    and "j \<noteq> i \<Longrightarrow> next_seq K U j (append_write i n ms db) = next_seq K U j db"
  using assms(2) by (auto simp: next_seq_def append_write_views(3) [OF assms(1)] decode_seq_be_bytes [OF assms(3)])

lemma number_messages_nth:
  assumes "q < length ms"
  shows "ms_seq (number_messages i n ms ! q) = n + q" "ms_session_id (number_messages i n ms ! q) = i"
    "nm_turn_id (number_messages i n ms ! q) = nm_turn_id (ms ! q)"
proof -
  have q: "q < length (number_messages i n ms)" using assms by simp
  show "ms_seq (number_messages i n ms ! q) = n + q"
    using nth_map [OF q, of ms_seq] assms by (simp add: number_messages_seqs)
  show "ms_session_id (number_messages i n ms ! q) = i" by (rule number_messages_session [OF nth_mem [OF q]])
  show "nm_turn_id (number_messages i n ms ! q) = nm_turn_id (ms ! q)"
    using nth_map [OF q, of nm_turn_id] assms by (simp add: number_messages_turns)
qed

lemma stream_ok_cong:
  assumes "next_seq K U i db' = next_seq K U i db" and "message_at K U i db' = message_at K U i db"
    and "\<And>t. map_of db' (message_turn_key U i t) \<noteq> None \<longleftrightarrow> map_of db (message_turn_key U i t) \<noteq> None"
  shows "stream_ok K U i db' \<longleftrightarrow> stream_ok K U i db"
  unfolding stream_ok_def assms ..

lemma append_rows_named:
  fixes db :: "'v db"
  assumes "bt_ok db" and "rows_named K U db"
  shows "rows_named K U (append_write i n ms db)"
  unfolding rows_named_def
proof (intro allI impI)
  fix k v
  assume v: "map_of (append_write i n ms db) k = Some v" and p: "starts_with message_prefix k"
  show "\<exists>m. k_dec_message K v = Some m \<and> k = message_key U (ms_session_id m) (ms_seq m)"
  proof (cases "\<exists>q. k = message_key U i q \<and> n \<le> q \<and> q < n + length ms")
    case True
    then obtain q where q: "k = message_key U i q" "n \<le> q" "q < n + length ms" "q - n < length ms" by auto
    then have "v = k_message K (number_messages i n ms ! (q - n))"
      using v append_write_views(1) [OF assms(1), of i n ms i q] by simp
    then show ?thesis using q number_messages_nth [OF q(4)] by simp
  next
    case False
    have "map_of (append_write i n ms db) k = map_of db k"
    proof (cases "k \<in> range (message_key U i)")
      case True
      then show ?thesis using False by (auto simp: append_write_views(1) [OF assms(1)])
    next
      case False
      then show ?thesis by (rule append_write_views(4) [OF assms(1)]) (use p in auto)
    qed
    then show ?thesis using v p assms(2) unfolding rows_named_def by simp
  qed
qed

lemma stream_ok_next: "stream_ok K U i db \<Longrightarrow> next_seq K U i db = Some n \<Longrightarrow> message_at K U i db k = Some m \<Longrightarrow> k < n"
  unfolding stream_ok_def by (elim conjE exE) auto

lemma append_at:
  fixes db :: "'v db"
  assumes "bt_ok db" and "stream_ok K U i db" and "next_seq K U i db = Some n"
  shows "message_at K U i (append_write i n ms db) k = Some m \<longleftrightarrow>
    ((n \<le> k \<and> k < n + length ms) \<and> m = number_messages i n ms ! (k - n)) \<or> message_at K U i db k = Some m"
  using stream_ok_next [OF assms(2,3), of k m] unfolding append_write_message_at [OF assms(1)] by auto

lemma set_number_messages:
  "m \<in> set (number_messages i n ms) \<longleftrightarrow>
    (n \<le> ms_seq m \<and> ms_seq m < n + length ms) \<and> m = number_messages i n ms ! (ms_seq m - n)"
proof
  assume "m \<in> set (number_messages i n ms)"
  then obtain q where "q < length ms" "m = number_messages i n ms ! q" by (auto simp: in_set_conv_nth)
  then show "(n \<le> ms_seq m \<and> ms_seq m < n + length ms) \<and> m = number_messages i n ms ! (ms_seq m - n)"
    by (simp add: number_messages_nth)
next
  assume m: "(n \<le> ms_seq m \<and> ms_seq m < n + length ms) \<and> m = number_messages i n ms ! (ms_seq m - n)"
  then have "ms_seq m - n < length (number_messages i n ms)" by auto
  from nth_mem [OF this] show "m \<in> set (number_messages i n ms)" using m by simp
qed

lemma append_stream_ok:
  fixes db :: "'v db"
  assumes bt: "bt_ok db" and ok: "stream_ok K U i db" and n: "next_seq K U i db = Some n" "n + length ms < 2 ^ 64"
    and new: "distinct (map nm_turn_id ms)" "nm_turn_id ` set ms \<inter> stored_turns i db = {}"
  shows "stream_ok K U i (append_write i n ms db)"
proof -
  let ?db = "append_write i n ms db"
  let ?new = "\<lambda>k. n \<le> k \<and> k < n + length ms"
  note below = stream_ok_next [OF ok n(1)]
  note at = append_at [OF bt ok n(1)]
  have turns: "map_of db (message_turn_key U i t) \<noteq> None \<longleftrightarrow>
      (\<exists>k m. message_at K U i db k = Some m \<and> nm_turn_id m = t)" for t
    using ok unfolding stream_ok_def by (elim conjE allE)
  have uniq: "k = k'" if "message_at K U i db k = Some m" "message_at K U i db k' = Some m'" "nm_turn_id m = nm_turn_id m'" for k k' m m'
    using ok that unfolding stream_ok_def by (elim conjE) blast
  have new_turn: "nm_turn_id (number_messages i n ms ! (k - n)) = nm_turn_id (ms ! (k - n))"
      "nm_turn_id (ms ! (k - n)) \<in> nm_turn_id ` set ms" if "?new k" for k
    using that number_messages_nth(3) [of "k - n" ms] by auto
  show ?thesis
    unfolding stream_ok_def
  proof (intro conjI allI impI)
    show "\<exists>c. next_seq K U i ?db = Some c \<and> c < 2 ^ 64 \<and> (\<forall>k m. message_at K U i ?db k = Some m \<longrightarrow> k < c)"
      using append_write_next(1) [OF bt n] n(2) below unfolding at by fastforce
  next
    fix t
    show "map_of ?db (message_turn_key U i t) \<noteq> None \<longleftrightarrow>
        (\<exists>k m. message_at K U i ?db k = Some m \<and> nm_turn_id m = t)" (is "_ \<longleftrightarrow> ?R")
    proof -
      have "t \<in> nm_turn_id ` set ms \<longleftrightarrow> (\<exists>k. ?new k \<and> nm_turn_id (number_messages i n ms ! (k - n)) = t)"
      proof
        assume "t \<in> nm_turn_id ` set ms"
        then obtain q where q: "q < length ms" "nm_turn_id (ms ! q) = t" by (auto simp: in_set_conv_nth)
        then show "\<exists>k. ?new k \<and> nm_turn_id (number_messages i n ms ! (k - n)) = t"
          using number_messages_nth(3) [of q ms i n] by (intro exI [of _ "n + q"]) simp
      qed (auto simp: new_turn)
      then have "?R \<longleftrightarrow> t \<in> nm_turn_id ` set ms \<or> map_of db (message_turn_key U i t) \<noteq> None"
        unfolding at turns by blast
      then show ?thesis unfolding append_write_views(2) [OF bt] by simp
    qed
  next
    fix k k' m m'
    assume "message_at K U i ?db k = Some m" and "message_at K U i ?db k' = Some m'" and same: "nm_turn_id m = nm_turn_id m'"
    then have k: "(?new k \<and> m = number_messages i n ms ! (k - n)) \<or> message_at K U i db k = Some m"
        "(?new k' \<and> m' = number_messages i n ms ! (k' - n)) \<or> message_at K U i db k' = Some m'"
      unfolding at by blast+
    have apart: False if "message_at K U i db l = Some x" "nm_turn_id x \<in> nm_turn_id ` set ms" for l x
      using turns [of "nm_turn_id x"] new(2) that unfolding stored_turns_def by blast
    have both: "k = k'" if "?new k" "?new k'" "nm_turn_id (ms ! (k - n)) = nm_turn_id (ms ! (k' - n))"
    proof -
      have l: "k - n < length (map nm_turn_id ms)" "k' - n < length (map nm_turn_id ms)" using that by auto
      have "k - n = k' - n"
        by (rule iffD1 [OF nth_eq_iff_index_eq [OF new(1) l]]) (use that l in simp)
      then show ?thesis using that by auto
    qed
    from k show "k = k'"
    proof (elim disjE conjE)
      assume "n \<le> k" "k < n + length ms" "m = number_messages i n ms ! (k - n)"
        "n \<le> k'" "k' < n + length ms" "m' = number_messages i n ms ! (k' - n)"
      then show ?thesis using both new_turn same by simp
    next
      assume a: "n \<le> k" "k < n + length ms" "m = number_messages i n ms ! (k - n)" "message_at K U i db k' = Some m'"
      have "nm_turn_id m' \<in> nm_turn_id ` set ms"
        using new_turn(2) [OF conjI [OF a(1,2)]] unfolding new_turn(1) [OF conjI [OF a(1,2)], symmetric] same [unfolded a(3)] .
      then show ?thesis using apart [OF a(4)] by blast
    next
      assume a: "n \<le> k'" "k' < n + length ms" "m' = number_messages i n ms ! (k' - n)" "message_at K U i db k = Some m"
      have "nm_turn_id m \<in> nm_turn_id ` set ms"
        using new_turn(2) [OF conjI [OF a(1,2)]] unfolding new_turn(1) [OF conjI [OF a(1,2)], symmetric] same [unfolded a(3)] .
      then show ?thesis using apart [OF a(4)] by blast
    next
      assume "message_at K U i db k = Some m" "message_at K U i db k' = Some m'"
      then show ?thesis using uniq same by blast
    qed
  qed
qed

lemma append_write_ok:
  fixes db :: "'v db"
  assumes ok: "messages_ok K U db" and n: "next_seq K U i db = Some n" "n + length ms < 2 ^ 64"
    and new: "distinct (map nm_turn_id ms)" "nm_turn_id ` set ms \<inter> stored_turns i db = {}"
  shows "messages_ok K U (append_write i n ms db)"
    and "message_stream K U i (append_write i n ms db) = message_stream K U i db @ number_messages i n ms"
    and "j \<noteq> i \<Longrightarrow> message_stream K U j (append_write i n ms db) = message_stream K U j db"
proof -
  let ?db = "append_write i n ms db"
  have bt: "bt_ok db" and rows: "rows_named K U db" and str: "\<And>j. stream_ok K U j db"
    using ok by (simp_all add: messages_ok_def)
  have other: "message_at K U j ?db = message_at K U j db" if "j \<noteq> i" for j
    using that by (auto simp: append_write_message_at [OF bt])
  have "stream_ok K U j ?db" for j
  proof (cases "j = i")
    case True
    then show ?thesis using append_stream_ok [OF bt str n new] by simp
  next
    case False
    have "stream_ok K U j ?db \<longleftrightarrow> stream_ok K U j db"
      by (rule stream_ok_cong [OF append_write_next(2) [OF bt n False] other [OF False]])
        (use False in \<open>simp only: append_write_views(2) [OF bt]; simp\<close>)
    then show ?thesis using str by simp
  qed
  moreover have "bt_ok ?db" using bt by (simp add: append_write_def)
  ultimately show ok': "messages_ok K U ?db"
    by (simp add: messages_ok_def append_rows_named [OF bt rows])
  show "message_stream K U i ?db = message_stream K U i db @ number_messages i n ms"
  proof (rule stream_unique [OF stream_entries(2) [OF ok']])
    have below: "ms_seq m < n" if "m \<in> set (message_stream K U i db)" for m
      using that stream_ok_next [OF str n(1)] by (simp add: stream_entries(1) [OF ok])
    have "sorted_wrt (<) (map ms_seq (number_messages i n ms))" by (simp add: number_messages_seqs)
    moreover have "n \<le> ms_seq m" if "m \<in> set (number_messages i n ms)" for m
      using that unfolding set_number_messages by blast
    ultimately show "sorted_wrt (\<lambda>a b. ms_seq a < ms_seq b) (message_stream K U i db @ number_messages i n ms)"
      using stream_entries(2) [OF ok, of i] below
      by (auto simp: sorted_wrt_append sorted_wrt_map intro: less_le_trans)
    show "set (message_stream K U i ?db) = set (message_stream K U i db @ number_messages i n ms)"
      by (rule set_eqI)
        (simp only: set_append Un_iff stream_entries(1) [OF ok] stream_entries(1) [OF ok'] mem_Collect_eq
          append_at [OF bt str n(1)] set_number_messages disj_commute)
  qed
  show "j \<noteq> i \<Longrightarrow> message_stream K U j ?db = message_stream K U j db"
    by (rule stream_unique [OF stream_entries(2) [OF ok'] stream_entries(2) [OF ok]])
      (simp add: stream_entries(1) [OF ok] stream_entries(1) [OF ok'] other)
qed

section \<open>Loading\<close>

lemma decode_all_ok:
  "(\<And>e. e \<in> set es \<Longrightarrow> dec (snd e) \<noteq> None) \<Longrightarrow> decode_all dec es = Ok (List.map_filter (\<lambda>e. dec (snd e)) es)"
  by (induction es) (fastforce split: option.splits)+

lemma map_filter_filter:
  "(\<And>x. x \<in> set xs \<Longrightarrow> \<exists>y. f x = Some y \<and> (P x \<longleftrightarrow> Q y)) \<Longrightarrow>
    List.map_filter f (filter P xs) = filter Q (List.map_filter f xs)"
proof (induction xs)
  case (Cons x xs)
  obtain y where "f x = Some y" "P x \<longleftrightarrow> Q y" using Cons.prems [of x] by auto
  moreover have "List.map_filter f (filter P xs) = filter Q (List.map_filter f xs)"
    by (rule Cons.IH) (use Cons.prems in simp)
  ultimately show ?case by simp
qed simp

lemma load_messages_eq:
  assumes ok: "messages_ok K U db" and "hi < 2 ^ 64"
  shows "load_messages K U i lo hi db =
    Ok (filter (\<lambda>m. lo \<le> ms_seq m \<and> ms_seq m < hi) (message_stream K U i db))"
proof (cases "lo < hi")
  case False
  then show ?thesis by (auto simp: load_messages_def filter_empty_conv)
next
  case True
  have bt: "bt_ok db" and rows: "rows_named K U db" and str: "stream_ok K U i db"
    using ok by (simp_all add: messages_ok_def)
  let ?p = "message_prefix @ U i @ '':''"
  let ?in = "\<lambda>e :: bytes \<times> 'v. message_key U i lo \<le> fst e \<and> fst e < message_key U i hi"
  have pre: "starts_with ?p k" if "message_key U i lo \<le> k" "k < message_key U i hi" for k
    by (rule starts_with_between [of _ "pad20 lo" _ "pad20 hi"])
      (use that in \<open>simp_all add: message_key_def message_prefix_def\<close>)
  have "scan_range (message_key U i lo) (Some (message_key U i hi)) db = filter ?in db"
    by (simp add: scan_range_filter [OF bt])
  also have "\<dots> = filter ?in (scan_prefix ?p db)"
    unfolding scan_prefix_filter [OF bt] filter_filter by (rule filter_cong [OF refl]) (use pre in blast)
  finally have scan: "scan_range (message_key U i lo) (Some (message_key U i hi)) db = filter ?in (scan_prefix ?p db)" .
  have entry: "\<exists>m. k_dec_message K (snd e) = Some m \<and> (?in e \<longleftrightarrow> lo \<le> ms_seq m \<and> ms_seq m < hi)"
    if e: "e \<in> set (scan_prefix ?p db)" for e
  proof -
    obtain m where m: "k_dec_message K (snd e) = Some m" "fst e = message_key U i (ms_seq m)"
        "message_at K U i db (ms_seq m) = Some m" using stream_scan_entry [OF bt rows e] by blast
    have b: "ms_seq m < 10 ^ 20" "lo < 10 ^ 20" "hi < 10 ^ 20"
      using stream_bound [OF str m(3)] assms(2) True by simp_all
    then show ?thesis
      using m(1) unfolding m(2) message_key_less(2) [OF b(2,1)] message_key_less(1) [OF b(1,3)] by blast
  qed
  have "k_dec_message K (snd e) \<noteq> None" if "e \<in> set (filter ?in (scan_prefix ?p db))" for e
    using entry [of e] that by auto
  then have "decode_all (k_dec_message K) (filter ?in (scan_prefix ?p db)) =
      Ok (List.map_filter (\<lambda>e. k_dec_message K (snd e)) (filter ?in (scan_prefix ?p db)))"
    by (rule decode_all_ok)
  then have "load_messages K U i lo hi db =
      Ok (List.map_filter (\<lambda>e. k_dec_message K (snd e)) (filter ?in (scan_prefix ?p db)))"
    using True by (simp add: load_messages_def scan)
  also have "List.map_filter (\<lambda>e. k_dec_message K (snd e)) (filter ?in (scan_prefix ?p db)) =
      filter (\<lambda>m. lo \<le> ms_seq m \<and> ms_seq m < hi) (message_stream K U i db)"
    unfolding message_stream_def by (rule map_filter_filter) (rule entry)
  finally show ?thesis .
qed

section \<open>Retention\<close>

lemma ops_effect_all_deletes:
  "(\<And>x. x \<in> set ops \<Longrightarrow> \<exists>k. x = Delete k) \<Longrightarrow> ops_effect ops m k = (if k \<in> op_key ` set ops then None else m k)"
proof (induction ops arbitrary: m)
  case (Cons x ops)
  then obtain k' where "x = Delete k'" by auto
  moreover have "ops_effect ops m' k = (if k \<in> op_key ` set ops then None else m' k)" for m'
    by (rule Cons.IH) (use Cons.prems in simp)
  ultimately show ?case by simp
qed simp

definition retention_batch :: "datetime \<Rightarrow> 'v db \<Rightarrow> 'v write_op list" where
  "retention_batch cutoff db = concat (map (\<lambda>e. case expired K cutoff e of
              None \<Rightarrow> []
            | Some m \<Rightarrow> [Delete (fst e), Delete (message_turn_key U (ms_session_id m) (nm_turn_id m))])
     (scan_prefix message_prefix db))"

definition gone :: "datetime \<Rightarrow> 'v db \<Rightarrow> uuid \<Rightarrow> nat \<Rightarrow> message \<Rightarrow> bool" where
  "gone cutoff db i n m \<longleftrightarrow> message_at K U i db n = Some m \<and> nm_timestamp m < cutoff"

lemma retention_row:
  assumes bt: "bt_ok db" and rows: "rows_named K U db"
  shows "e \<in> set (scan_prefix message_prefix db) \<and> expired K cutoff e = Some m \<longleftrightarrow>
      gone cutoff db (ms_session_id m) (ms_seq m) m \<and> fst e = message_key U (ms_session_id m) (ms_seq m) \<and>
      map_of db (fst e) = Some (snd e)"
proof
  assume e: "e \<in> set (scan_prefix message_prefix db) \<and> expired K cutoff e = Some m"
  then have "map_of db (fst e) = Some (snd e)" "starts_with message_prefix (fst e)"
    using bt_entry [OF bt, of "fst e" "snd e"] by (simp_all add: scan_prefix_filter [OF bt])
  moreover have "k_dec_message K (snd e) = Some m" "nm_timestamp m < cutoff"
    using e by (auto simp: expired_def split: option.splits if_splits)
  moreover have "fst e = message_key U (ms_session_id m) (ms_seq m)"
    using rows calculation(1-3) unfolding rows_named_def by fastforce
  ultimately show "gone cutoff db (ms_session_id m) (ms_seq m) m \<and> fst e = message_key U (ms_session_id m) (ms_seq m) \<and>
    map_of db (fst e) = Some (snd e)" by (simp add: gone_def message_at_def)
next
  assume g: "gone cutoff db (ms_session_id m) (ms_seq m) m \<and> fst e = message_key U (ms_session_id m) (ms_seq m) \<and>
    map_of db (fst e) = Some (snd e)"
  then have "e \<in> set (scan_prefix message_prefix db)"
    using bt_entry [OF bt, of "fst e" "snd e"] by (cases e) (simp add: scan_prefix_filter [OF bt])
  then show "e \<in> set (scan_prefix message_prefix db) \<and> expired K cutoff e = Some m"
    using g by (auto simp: expired_def gone_def message_at_def)
qed

lemma gone_row:
  assumes rows: "rows_named K U db" and "gone cutoff db i n m"
  shows "\<exists>e. gone cutoff db (ms_session_id m) (ms_seq m) m \<and> fst e = message_key U (ms_session_id m) (ms_seq m) \<and>
    map_of db (fst e) = Some (snd e) \<and> ms_session_id m = i \<and> ms_seq m = n"
proof -
  have m: "message_at K U i db n = Some m" using assms(2) by (simp add: gone_def)
  note id = message_at_row [OF rows m]
  obtain v where "map_of db (message_key U i n) = Some v"
    using m by (cases "map_of db (message_key U i n)") (simp_all add: message_at_def)
  then show ?thesis using assms(2) id by (intro exI [of _ "(message_key U i n, v)"]) simp
qed

lemma retention_batch_keys:
  assumes bt: "bt_ok db" and rows: "rows_named K U db"
  shows "k \<in> op_key ` set (retention_batch cutoff db) \<longleftrightarrow>
    (\<exists>i n m. gone cutoff db i n m \<and> (k = message_key U i n \<or> k = message_turn_key U i (nm_turn_id m)))"
proof -
  note row = retention_row [OF bt rows]
  have mem: "k \<in> op_key ` set (retention_batch cutoff db) \<longleftrightarrow> (\<exists>e m. (e \<in> set (scan_prefix message_prefix db) \<and>
      expired K cutoff e = Some m) \<and> (k = fst e \<or> k = message_turn_key U (ms_session_id m) (nm_turn_id m)))"
    unfolding retention_batch_def by (rule deletes_keys)
  show ?thesis
    unfolding mem row
  proof
    assume "\<exists>i n m. gone cutoff db i n m \<and> (k = message_key U i n \<or> k = message_turn_key U i (nm_turn_id m))"
    then obtain i n m where g: "gone cutoff db i n m" "k = message_key U i n \<or> k = message_turn_key U i (nm_turn_id m)"
      by blast
    from gone_row [OF rows g(1)] show "\<exists>e m. (gone cutoff db (ms_session_id m) (ms_seq m) m \<and>
        fst e = message_key U (ms_session_id m) (ms_seq m) \<and> map_of db (fst e) = Some (snd e)) \<and>
        (k = fst e \<or> k = message_turn_key U (ms_session_id m) (nm_turn_id m))"
      using g(2) by metis
  qed blast
qed

lemma retention_deleted:
  "snd (delete_messages_before K U cutoff db) =
    List.map_filter (\<lambda>e. map_option (\<lambda>m. (ms_session_id m, ms_seq m)) (expired K cutoff e)) (scan_prefix message_prefix db)"
  by (simp add: delete_messages_before_def Let_def)

lemma retention_write: "fst (delete_messages_before K U cutoff db) = db_write (retention_batch cutoff db) db"
proof -
  have "retention_batch cutoff db = []"
    if "List.map_filter (\<lambda>e. map_option (\<lambda>m. (ms_session_id m, ms_seq m)) (expired K cutoff e))
        (scan_prefix message_prefix db) = []"
    unfolding retention_batch_def by (rule map_filter_none [OF that])
  moreover have "fst (delete_messages_before K U cutoff db) =
      (if snd (delete_messages_before K U cutoff db) = [] then db else db_write (retention_batch cutoff db) db)"
    by (simp add: delete_messages_before_def retention_batch_def Let_def)
  ultimately show ?thesis unfolding retention_deleted by simp
qed

lemma retention_views:
  fixes db :: "'v db" and cutoff
  assumes bt: "bt_ok db" and rows: "rows_named K U db"
  defines "db' \<equiv> fst (delete_messages_before K U cutoff db)"
  shows "map_of db' k = (if k \<in> op_key ` set (retention_batch cutoff db) then None else map_of db k)"
    and "message_at K U i db' n = Some m \<longleftrightarrow> message_at K U i db n = Some m \<and> \<not> nm_timestamp m < cutoff"
    and "map_of db' (message_turn_key U i t) \<noteq> None \<longleftrightarrow>
      map_of db (message_turn_key U i t) \<noteq> None \<and> \<not> (\<exists>n m. gone cutoff db i n m \<and> nm_turn_id m = t)"
    and "map_of db' (message_next_key U i) = map_of db (message_next_key U i)"
proof -
  show 1: "map_of db' k = (if k \<in> op_key ` set (retention_batch cutoff db) then None else map_of db k)" for k
    unfolding db'_def retention_write map_of_db_write [OF bt]
    by (rule ops_effect_all_deletes) (auto simp: retention_batch_def split: option.splits)
  note key = retention_batch_keys [OF bt rows, of _ cutoff]
  have "message_key U i n \<in> op_key ` set (retention_batch cutoff db) \<longleftrightarrow> (\<exists>m. gone cutoff db i n m)"
    unfolding key by auto
  then show "message_at K U i db' n = Some m \<longleftrightarrow> message_at K U i db n = Some m \<and> \<not> nm_timestamp m < cutoff"
    unfolding message_at_def 1 by (auto simp: gone_def message_at_def)
  have "message_turn_key U i t \<in> op_key ` set (retention_batch cutoff db) \<longleftrightarrow> (\<exists>n m. gone cutoff db i n m \<and> nm_turn_id m = t)"
    unfolding key by auto
  then show "map_of db' (message_turn_key U i t) \<noteq> None \<longleftrightarrow>
      map_of db (message_turn_key U i t) \<noteq> None \<and> \<not> (\<exists>n m. gone cutoff db i n m \<and> nm_turn_id m = t)"
    unfolding 1 by auto
  have "message_next_key U i \<notin> op_key ` set (retention_batch cutoff db)" unfolding key by simp
  then show "map_of db' (message_next_key U i) = map_of db (message_next_key U i)" unfolding 1 by simp
qed

lemma retention_ok:
  fixes db :: "'v db" and cutoff
  assumes ok: "messages_ok K U db"
  defines "db' \<equiv> fst (delete_messages_before K U cutoff db)"
  shows "messages_ok K U db'"
    and "message_stream K U i db' = filter (\<lambda>m. \<not> nm_timestamp m < cutoff) (message_stream K U i db)"
    and "next_seq K U i db' = next_seq K U i db"
    and "(i, n) \<in> set (snd (delete_messages_before K U cutoff db)) \<longleftrightarrow> (\<exists>m. gone cutoff db i n m)"
proof -
  have bt: "bt_ok db" and rows: "rows_named K U db" and str: "\<And>j. stream_ok K U j db"
    using ok by (simp_all add: messages_ok_def)
  note view = retention_views [OF bt rows, where cutoff = cutoff, folded db'_def]
  show "next_seq K U i db' = next_seq K U i db" for i by (simp add: next_seq_def view(4))
  note next_same = this
  have "stream_ok K U i db'" for i
    unfolding stream_ok_def view(2) view(3) next_same
  proof (intro conjI allI impI)
    show "\<exists>c. next_seq K U i db = Some c \<and> c < 2 ^ 64 \<and>
        (\<forall>n m. message_at K U i db n = Some m \<and> \<not> nm_timestamp m < cutoff \<longrightarrow> n < c)"
      using str [of i] unfolding stream_ok_def by (elim conjE exE) auto
  next
    fix t
    have turns: "map_of db (message_turn_key U i t) \<noteq> None \<longleftrightarrow>
        (\<exists>k m. message_at K U i db k = Some m \<and> nm_turn_id m = t)"
      using str [of i] unfolding stream_ok_def by (elim conjE allE)
    have uniq: "m = m'" if "message_at K U i db k = Some m" "message_at K U i db k' = Some m'"
        "nm_turn_id m = t" "nm_turn_id m' = t" for k k' m m'
    proof -
      have "k = k'" using str [of i] that unfolding stream_ok_def by (elim conjE) blast
      then show ?thesis using that by simp
    qed
    show "(map_of db (message_turn_key U i t) \<noteq> None \<and> \<not> (\<exists>n m. gone cutoff db i n m \<and> nm_turn_id m = t)) \<longleftrightarrow>
        (\<exists>n m. (message_at K U i db n = Some m \<and> \<not> nm_timestamp m < cutoff) \<and> nm_turn_id m = t)"
      unfolding turns gone_def using uniq by blast
  next
    fix n n' m m'
    assume "message_at K U i db n = Some m \<and> \<not> nm_timestamp m < cutoff"
      "message_at K U i db n' = Some m' \<and> \<not> nm_timestamp m' < cutoff" "nm_turn_id m = nm_turn_id m'"
    then show "n = n'" using str [of i] unfolding stream_ok_def by (elim conjE) blast
  qed
  moreover have "rows_named K U db'"
    using rows unfolding rows_named_def view(1) by simp
  moreover have "bt_ok db'" using bt by (simp add: db'_def retention_write)
  ultimately show ok': "messages_ok K U db'" by (simp add: messages_ok_def)
  show "message_stream K U i db' = filter (\<lambda>m. \<not> nm_timestamp m < cutoff) (message_stream K U i db)"
  proof (rule stream_unique [OF stream_entries(2) [OF ok']])
    show "sorted_wrt (\<lambda>a b. ms_seq a < ms_seq b) (filter (\<lambda>m. \<not> nm_timestamp m < cutoff) (message_stream K U i db))"
      by (rule sorted_wrt_filter) (rule stream_entries(2) [OF ok])
    show "set (message_stream K U i db') = set (filter (\<lambda>m. \<not> nm_timestamp m < cutoff) (message_stream K U i db))"
      by (auto simp: stream_entries(1) [OF ok] stream_entries(1) [OF ok'] view(2))
  qed
  show "(i, n) \<in> set (snd (delete_messages_before K U cutoff db)) \<longleftrightarrow> (\<exists>m. gone cutoff db i n m)"
  proof -
    have "(i, n) \<in> set (snd (delete_messages_before K U cutoff db)) \<longleftrightarrow>
        (\<exists>e m. (e \<in> set (scan_prefix message_prefix db) \<and> expired K cutoff e = Some m) \<and>
          ms_session_id m = i \<and> ms_seq m = n)"
      unfolding retention_deleted map_filter_mem by (auto simp: map_option_eq_Some)
    also have "\<dots> \<longleftrightarrow> (\<exists>m. gone cutoff db i n m)"
      unfolding retention_row [OF bt rows]
    proof
      assume "\<exists>m. gone cutoff db i n m"
      then obtain m where "gone cutoff db i n m" ..
      from gone_row [OF rows this] show "\<exists>e m. (gone cutoff db (ms_session_id m) (ms_seq m) m \<and>
          fst e = message_key U (ms_session_id m) (ms_seq m) \<and> map_of db (fst e) = Some (snd e)) \<and>
          ms_session_id m = i \<and> ms_seq m = n" by metis
    qed blast
    finally show ?thesis .
  qed
qed

end

end
