(* ===== verification/Message_Store_Props.thy ===== *)
theory Message_Store_Props
  imports Message_Store_Inv
begin

text \<open>
  The contract of the message store: an append extends the stream by the new turns and is
  idempotent, a load gives the positions asked for, and retention removes what is older than the
  cutoff without freeing a position.
\<close>

context storage
begin

lemma stored_turns_stream:
  assumes "messages_ok K U db"
  shows "stored_turns i db = nm_turn_id ` set (message_stream K U i db)"
proof -
  have str: "stream_ok K U i db" and rows: "rows_named K U db" using assms by (simp_all add: messages_ok_def)
  have turns: "map_of db (message_turn_key U i t) \<noteq> None \<longleftrightarrow>
      (\<exists>k m. message_at K U i db k = Some m \<and> nm_turn_id m = t)" for t
    using str unfolding stream_ok_def by (elim conjE allE)
  have "(\<exists>k. message_at K U i db k = Some m) \<longleftrightarrow> message_at K U i db (ms_seq m) = Some m" for m
    using message_at_row(2) [OF rows] by blast
  then show ?thesis
    unfolding stored_turns_def turns stream_entries(1) [OF assms] by (auto simp: image_iff)
qed

lemma append_stream:
  fixes db :: "'v db" and msgs
  assumes "messages_ok K U db" and "next_seq K U i db = Some n" and "n + length msgs < 2 ^ 64"
  defines "new \<equiv> fresh_messages (nm_turn_id ` set (message_stream K U i db)) msgs"
  shows "append_messages K U i msgs db = (append_write i n new db, Ok (number_messages i n new))"
    and "messages_ok K U (append_write i n new db)"
    and "message_stream K U i (append_write i n new db) = message_stream K U i db @ number_messages i n new"
    and "next_seq K U i (append_write i n new db) = Some (n + length new)"
    and "j \<noteq> i \<Longrightarrow> message_stream K U j (append_write i n new db) = message_stream K U j db"
    and "append_messages K U i msgs (append_write i n new db) = (append_write i n new db, Ok [])"
proof -
  let ?seen = "nm_turn_id ` set (message_stream K U i db)"
  note seen = stored_turns_stream [OF assms(1), of i]
  have bt: "bt_ok db" using assms(1) by (simp add: messages_ok_def)
  have "length (fresh_messages s ms) \<le> length ms" for s ms
    by (induction s ms rule: fresh_messages.induct) auto
  then have len: "n + length new < 2 ^ 64"
    unfolding new_def using assms(3) by (meson add_left_mono le_less_trans)
  have new: "distinct (map nm_turn_id new)" "nm_turn_id ` set new \<inter> stored_turns i db = {}"
    using fresh_messages_turns [of ?seen msgs] by (auto simp: new_def seen)
  note W = append_write_ok [OF assms(1,2) len new]
  show "append_messages K U i msgs db = (append_write i n new db, Ok (number_messages i n new))"
    unfolding append_messages_eq [OF assms(2)] seen new_def ..
  show "messages_ok K U (append_write i n new db)"
    "message_stream K U i (append_write i n new db) = message_stream K U i db @ number_messages i n new"
    "j \<noteq> i \<Longrightarrow> message_stream K U j (append_write i n new db) = message_stream K U j db"
    using W by blast+
  show nxt: "next_seq K U i (append_write i n new db) = Some (n + length new)"
    by (rule append_write_next(1) [OF bt assms(2) len])
  have "set (map nm_turn_id msgs) \<subseteq> stored_turns i (append_write i n new db)"
    unfolding stored_turns_stream [OF W(1)] W(2)
    using fresh_messages_turns(1) [of ?seen msgs] number_messages_turns [of i n new]
    by (simp add: new_def image_Un flip: set_map)
  then have "fresh_messages (stored_turns i (append_write i n new db)) msgs = []"
    by (rule fresh_messages_none)
  then show "append_messages K U i msgs (append_write i n new db) = (append_write i n new db, Ok [])"
    unfolding append_messages_eq [OF nxt] by (simp add: append_write_def)
qed

end

section \<open>Claims\<close>

lemma messages_ok_empty: "messages_ok K U []"
  by (simp add: messages_ok_def rows_named_def stream_ok_def next_seq_def message_at_def bt_ok_def)

text \<open>
  An append adds exactly the turns the session does not hold yet, the first of each, numbered
  on from the counter, at the end of the stream; the streams of other sessions stay, the store
  stays well formed, and repeating the append adds nothing.
\<close>

theorem append_extends_stream:
  assumes "storage U parse_uuid K" and "messages_ok K U db" and "next_seq K U i db = Some n"
    and "n + length msgs < 2 ^ 64"
  shows "\<exists>db' added. append_messages K U i msgs db = (db', Ok added) \<and>
    added = number_messages i n (fresh_messages (nm_turn_id ` set (message_stream K U i db)) msgs) \<and>
    message_stream K U i db' = message_stream K U i db @ added \<and>
    (\<forall>j. j \<noteq> i \<longrightarrow> message_stream K U j db' = message_stream K U j db) \<and>
    next_seq K U i db' = Some (n + length added) \<and> messages_ok K U db' \<and>
    append_messages K U i msgs db' = (db', Ok [])"
proof -
  note A = storage.append_stream [OF assms(1-4)]
  let ?new = "fresh_messages (nm_turn_id ` set (message_stream K U i db)) msgs"
  show ?thesis
    by (rule exI [of _ "storage.append_write U K i n ?new db"], rule exI [of _ "number_messages i n ?new"])
      (simp add: A(1-4) A(6) A(5))
qed

definition demo_messages :: "new_message list" where
  "demo_messages = map (\<lambda>(t, d). \<lparr>nm_turn_id = t, nm_role = User_Role, nm_author = None, nm_source_session = None,
     nm_timestamp = d, nm_text = ''hello'', nm_tools = [], nm_files = []\<rparr>) [(''t1'', 10), (''t2'', 20), (''t1'', 30)]"

lemma append_extends_stream_witness:
  "\<exists>db' added. append_messages stored_codec hyphenated 5 demo_messages [] = (db', Ok added) \<and>
    added = number_messages 5 0 (fresh_messages (nm_turn_id ` set (message_stream stored_codec hyphenated 5 [])) demo_messages) \<and>
    message_stream stored_codec hyphenated 5 db' = message_stream stored_codec hyphenated 5 [] @ added \<and>
    (\<forall>j. j \<noteq> 5 \<longrightarrow> message_stream stored_codec hyphenated j db' = message_stream stored_codec hyphenated j []) \<and>
    next_seq stored_codec hyphenated 5 db' = Some (0 + length added) \<and> messages_ok stored_codec hyphenated db' \<and>
    append_messages stored_codec hyphenated 5 demo_messages db' = (db', Ok [])"
  by (rule append_extends_stream [OF st.storage_axioms messages_ok_empty])
    (simp_all add: next_seq_def demo_messages_def)


text \<open>
  Loading a range gives exactly the messages of the stream at those positions, in order.
\<close>

theorem load_is_slice:
  assumes "storage U parse_uuid K" and "messages_ok K U db" and "hi < 2 ^ 64"
  shows "load_messages K U i lo hi db = Ok (filter (\<lambda>m. lo \<le> ms_seq m \<and> ms_seq m < hi) (message_stream K U i db)) \<and>
    sorted_wrt (\<lambda>a b. ms_seq a < ms_seq b) (message_stream K U i db)"
  using storage.load_messages_eq [OF assms] storage.stream_entries(2) [OF assms(1,2)] by blast

definition demo_stream :: "stored db" where
  "demo_stream = fst (append_messages stored_codec hyphenated 5 demo_messages [])"

lemma demo_stream_ok: "messages_ok stored_codec hyphenated demo_stream"
proof -
  have n: "next_seq stored_codec hyphenated 5 [] = Some 0" "0 + length demo_messages < 2 ^ 64"
    by (simp_all add: next_seq_def demo_messages_def)
  note A = st.append_stream [OF messages_ok_empty n]
  show ?thesis unfolding demo_stream_def A(1) fst_conv by (rule A(2))
qed

lemma load_is_slice_witness:
  "load_messages stored_codec hyphenated 5 1 2 demo_stream =
      Ok (filter (\<lambda>m. 1 \<le> ms_seq m \<and> ms_seq m < 2) (message_stream stored_codec hyphenated 5 demo_stream)) \<and>
    sorted_wrt (\<lambda>a b. ms_seq a < ms_seq b) (message_stream stored_codec hyphenated 5 demo_stream)"
  by (rule load_is_slice [OF st.storage_axioms demo_stream_ok]) simp

text \<open>
  C32: retention removes from every stream exactly the messages older than the cutoff and reports
  their sessions and positions; the counters stay, so a position is never given twice; the store
  stays well formed.
\<close>

theorem retention_keeps_positions:
  assumes "storage U parse_uuid K" and "messages_ok K U db"
  shows "let (db', gone) = delete_messages_before K U cutoff db in messages_ok K U db' \<and>
    (\<forall>i. message_stream K U i db' = filter (\<lambda>m. cutoff \<le> nm_timestamp m) (message_stream K U i db) \<and>
      next_seq K U i db' = next_seq K U i db) \<and>
    set gone = {(i, n). \<exists>m \<in> set (message_stream K U i db). ms_seq m = n \<and> nm_timestamp m < cutoff}"
proof -
  note R = storage.retention_ok [OF assms, where cutoff = cutoff]
  have rows: "rows_named K U db" using assms(2) by (simp add: messages_ok_def)
  have "(\<exists>m. storage.gone U K cutoff db i n m) \<longleftrightarrow>
      (\<exists>m \<in> set (message_stream K U i db). ms_seq m = n \<and> nm_timestamp m < cutoff)" for i n
    unfolding storage.gone_def [OF assms(1)] storage.stream_entries(1) [OF assms]
    using storage.message_at_row(2) [OF assms(1) rows] by blast
  then have "set (snd (delete_messages_before K U cutoff db)) =
      {(i, n). \<exists>m \<in> set (message_stream K U i db). ms_seq m = n \<and> nm_timestamp m < cutoff}"
    using R(4) by auto
  then show ?thesis using R(1-3) by (simp add: case_prod_unfold not_less)
qed

lemma retention_keeps_positions_witness:
  "let (db', gone) = delete_messages_before stored_codec hyphenated 15 demo_stream in
    messages_ok stored_codec hyphenated db' \<and>
    (\<forall>i. message_stream stored_codec hyphenated i db' =
        filter (\<lambda>m. 15 \<le> nm_timestamp m) (message_stream stored_codec hyphenated i demo_stream) \<and>
      next_seq stored_codec hyphenated i db' = next_seq stored_codec hyphenated i demo_stream) \<and>
    set gone = {(i, n). \<exists>m \<in> set (message_stream stored_codec hyphenated i demo_stream). ms_seq m = n \<and> nm_timestamp m < 15}"
  by (rule retention_keeps_positions [OF st.storage_axioms demo_stream_ok])

end
