(* ===== verification/Card_Store.thy ===== *)
theory Card_Store
  imports Kv_Store Storage_Keys Stored_Values
begin

text \<open>
  The user and project cards in the RocksDB backend:
  \<open>post-cortex-storage/src/rocksdb_storage/cards.rs\<close>. A card is a log of versions from 1; a head
  key holds the latest. A write names the version it was made from and is refused when another
  one came first. Writes hold the lock of the scope.
\<close>

section \<open>Operations\<close>

datatype card_write = Written card | Conflict "card option"

definition card_head :: "'v codec \<Rightarrow> (uuid \<Rightarrow> string) \<Rightarrow> card_scope \<Rightarrow> 'v db \<Rightarrow> nat option" where
  "card_head K U scope db =
     (case map_of db (card_head_key U scope) of None \<Rightarrow> Some 0 | Some v \<Rightarrow> decode_seq (k_bytes K v))"

text \<open>The outer option is an undecodable row, the inner one a version that is not stored.\<close>

definition load_card :: "'v codec \<Rightarrow> (uuid \<Rightarrow> string) \<Rightarrow> card_scope \<Rightarrow> nat \<Rightarrow> 'v db \<Rightarrow> card option option" where
  "load_card K U scope version db =
     (if version = 0 then Some None
      else case map_of db (card_key U scope version) of
          None \<Rightarrow> Some None
        | Some v \<Rightarrow> map_option Some (k_dec_card K v))"

definition get_card :: "'v codec \<Rightarrow> (uuid \<Rightarrow> string) \<Rightarrow> card_scope \<Rightarrow> 'v db \<Rightarrow> card option option" where
  "get_card K U scope db = Option.bind (card_head K U scope db) (\<lambda>version. load_card K U scope version db)"

definition put_card ::
  "'v codec \<Rightarrow> (uuid \<Rightarrow> string) \<Rightarrow> card_scope \<Rightarrow> string \<Rightarrow> string option \<Rightarrow> nat \<Rightarrow> datetime \<Rightarrow> 'v db \<Rightarrow>
   'v db \<times> card_write option" where
  "put_card K U scope text author expected_version now db =
     (case card_head K U scope db of
        None \<Rightarrow> (db, None)
      | Some latest \<Rightarrow>
          if latest \<noteq> expected_version
          then (db, map_option Conflict (load_card K U scope latest db))
          else
            let card = \<lparr>ca_scope = scope, ca_version = latest + 1, ca_text = text, ca_updated_at = now, ca_author = author\<rparr>
            in (db_write [Put (card_key U scope (ca_version card)) (k_card K card),
                          Put (card_head_key U scope) (k_raw K (u64_to_be_bytes (ca_version card)))] db,
                Some (Written card)))"

text \<open>
  A reverse iterator from just past the prefix: \<open>lower\<close> is its lower bound, \<open>upper\<close> its start.
\<close>

definition scan_back :: "bytes \<Rightarrow> bytes \<Rightarrow> 'v db \<Rightarrow> (bytes \<times> 'v) list" where
  "scan_back lower upper db =
     takeWhile (\<lambda>e. lower \<le> fst e) (dropWhile (\<lambda>e. upper < fst e) (rev db))"

fun history_loop :: "'v codec \<Rightarrow> bytes \<Rightarrow> nat \<Rightarrow> card list \<Rightarrow> (bytes \<times> 'v) list \<Rightarrow> card list option" where
  "history_loop K p limit cards [] = Some cards"
| "history_loop K p limit cards ((key, value) # es) =
     (if length cards \<ge> limit then Some cards
      else if \<not> starts_with p key then Some cards
      else case k_dec_card K value of
          None \<Rightarrow> None
        | Some c \<Rightarrow> history_loop K p limit (cards @ [c]) es)"

definition card_history :: "'v codec \<Rightarrow> (uuid \<Rightarrow> string) \<Rightarrow> card_scope \<Rightarrow> nat \<Rightarrow> 'v db \<Rightarrow> card list option" where
  "card_history K U scope limit db =
     (let p = card_prefix U scope in history_loop K p limit [] (scan_back p (p @ [CHR 0xFF]) db))"

definition delete_card_in :: "(uuid \<Rightarrow> string) \<Rightarrow> card_scope \<Rightarrow> 'v db \<Rightarrow> 'v write_op list" where
  "delete_card_in U scope db =
     Delete (card_head_key U scope) # map Delete (keys_with_prefix (card_prefix U scope) db)"

section \<open>The log of a scope\<close>

definition card_at :: "'v codec \<Rightarrow> (uuid \<Rightarrow> string) \<Rightarrow> card_scope \<Rightarrow> 'v db \<Rightarrow> nat \<Rightarrow> card option" where
  "card_at K U scope db n = Option.bind (map_of db (card_key U scope n)) (k_dec_card K)"

text \<open>The head counts the versions; exactly those are stored, under their own scope and number.\<close>

definition cards_of :: "'v codec \<Rightarrow> (uuid \<Rightarrow> string) \<Rightarrow> card_scope \<Rightarrow> 'v db \<Rightarrow> card list \<Rightarrow> bool" where
  "cards_of K U scope db vs \<longleftrightarrow>
     card_head K U scope db = Some (length vs) \<and> length vs < 2 ^ 64 \<and>
     (\<forall>k v. map_of db k = Some v \<longrightarrow> starts_with (card_prefix U scope) k \<longrightarrow>
        (\<exists>n < length vs. k = card_key U scope (n + 1) \<and> k_dec_card K v = Some (vs ! n))) \<and>
     (\<forall>n < length vs. card_at K U scope db (n + 1) = Some (vs ! n) \<and>
        ca_scope (vs ! n) = scope \<and> ca_version (vs ! n) = n + 1)"

end
