(* ===== verification/Card_Store_Props.thy ===== *)
theory Card_Store_Props
  imports Card_Store Message_Store_Inv
begin

text \<open>
  The card store refines one append-only log per scope: a write appends when it was made from the
  latest version and is refused otherwise, a read gives the last version, the history the newest
  first.
\<close>

definition cards_ok :: "'v codec \<Rightarrow> (uuid \<Rightarrow> string) \<Rightarrow> 'v db \<Rightarrow> bool" where
  "cards_ok K U db \<longleftrightarrow> bt_ok db \<and> (\<forall>scope. \<exists>vs. cards_of K U scope db vs)"

definition newest :: "'a list \<Rightarrow> 'a option" where
  "newest vs = (if vs = [] then None else Some (last vs))"

lemma starts_with_upto: "p @ x \<le> k \<Longrightarrow> k \<le> p @ y \<Longrightarrow> starts_with p (k :: string)"
proof (induction p arbitrary: k)
  case (Cons c p)
  then show ?case by (cases k) auto
qed simp

lemma pad20_upper:
  assumes "n < 10 ^ 20" shows "pad20 n \<le> [CHR 0xFF]"
proof -
  have len: "length (fixed 10 20 n) = 20" using length_pad20 [OF assms] by (simp add: pad20_fixed [OF assms])
  then obtain x xs where x: "fixed 10 20 n = x # xs" by (cases "fixed 10 20 n") auto
  then have "x < 10" using fixed_digits [of 10 x 20 n] by simp
  then have "digit_char x < CHR 0xFF" by (simp add: less_char_def digit_char_def)
  then show ?thesis by (simp add: pad20_fixed [OF assms] x)
qed

context storage
begin

lemma card_prefix_key [simp]:
  "starts_with (card_prefix U s) (card_key U t n) \<longleftrightarrow> s = t" "\<not> starts_with (card_prefix U s) (card_head_key U t)"
  by (cases s; cases t; auto simp: key_defs scope_key_def U_starts)+

lemma card_key_less:
  assumes "n < 10 ^ 20" and "m < 10 ^ 20"
  shows "card_key U s n < card_key U s m \<longleftrightarrow> n < m"
  using pad20_less [OF assms] by (simp add: card_key_def append_le_append)

lemma card_keys:
  assumes "bt_ok db" and "cards_of K U s db vs"
  shows "map fst (filter (\<lambda>e. starts_with (card_prefix U s) (fst e)) db) = map (\<lambda>n. card_key U s (n + 1)) [0..<length vs]"
    (is "map fst ?L = ?R")
proof (rule sorted_distinct_set_unique)
  have len: "length vs < 2 ^ 64" using assms(2) by (simp add: cards_of_def)
  have "sorted_wrt (<) ?R"
    unfolding sorted_wrt_map
    by (rule sorted_wrt_mono_rel [OF _ sorted_wrt_upt]) (use len in \<open>auto simp: card_key_less\<close>)
  then show "sorted ?R" "distinct ?R" by (simp_all only: strict_sorted_iff)
  show "sorted (map fst ?L)" "distinct (map fst ?L)"
    using bt_ok_filter [OF assms(1)] by (rule bt_ok_sorted bt_ok_distinct)+
  show "set (map fst ?L) = set ?R"
  proof (intro set_eqI iffI)
    fix k assume "k \<in> set (map fst ?L)"
    then obtain v where "map_of db k = Some v" "starts_with (card_prefix U s) k"
      by (auto simp: bt_entry [OF assms(1)])
    then show "k \<in> set ?R" using assms(2) unfolding cards_of_def by fastforce
  next
    fix k assume "k \<in> set ?R"
    then obtain n where n: "n < length vs" "k = card_key U s (n + 1)" by auto
    then have "card_at K U s db (n + 1) = Some (vs ! n)" using assms(2) unfolding cards_of_def by blast
    then obtain v where "map_of db k = Some v" using n(2) by (cases "map_of db k") (simp_all add: card_at_def)
    then have "(k, v) \<in> set ?L" using n(2) by (simp add: bt_entry [OF assms(1)])
    then show "k \<in> set (map fst ?L)" by force
  qed
qed

lemma card_entries:
  assumes "bt_ok db" and "cards_of K U s db vs"
  shows "map (\<lambda>e. k_dec_card K (snd e)) (filter (\<lambda>e. starts_with (card_prefix U s) (fst e)) db) = map Some vs"
    (is "map _ ?L = _")
proof (rule nth_equalityI)
  note keys = card_keys [OF assms]
  have len: "length ?L = length vs" using arg_cong [OF keys, of length] by simp
  then show "length (map (\<lambda>e. k_dec_card K (snd e)) ?L) = length (map Some vs)" by simp
  fix n assume "n < length (map (\<lambda>e. k_dec_card K (snd e)) ?L)"
  then have n: "n < length ?L" "n < length vs" using len by simp_all
  then have "fst (?L ! n) = card_key U s (n + 1)"
    using nth_map [OF n(1), of fst] keys by simp
  moreover have "map_of db (fst (?L ! n)) = Some (snd (?L ! n))"
    using nth_mem [OF n(1)] bt_entry [OF assms(1), of "fst (?L ! n)" "snd (?L ! n)"] by simp
  moreover have "card_at K U s db (n + 1) = Some (vs ! n)" using assms(2) n(2) unfolding cards_of_def by blast
  ultimately have "k_dec_card K (snd (?L ! n)) = Some (vs ! n)" by (simp add: card_at_def)
  then show "map (\<lambda>e. k_dec_card K (snd e)) ?L ! n = map Some vs ! n" using n by simp
qed

section \<open>Reading\<close>

lemma scan_back_eq:
  assumes "bt_ok db"
  shows "scan_back lo hi db = rev (filter (\<lambda>e. lo \<le> fst e \<and> fst e \<le> hi) db)"
proof -
  have srt: "sorted (map fst db)" by (rule bt_ok_sorted [OF assms])
  have "dropWhile (\<lambda>e. hi < fst e) (rev es) = rev (filter (\<lambda>e. fst e \<le> hi) es)" if "sorted (map fst es)" for es :: "(bytes \<times> 'a) list"
    using that
  proof (induction es rule: rev_induct)
    case (snoc e es)
    have "\<forall>x \<in> set es. fst x \<le> fst e" using snoc.prems by (auto simp: sorted_append)
    then have "\<not> hi < fst e \<Longrightarrow> filter (\<lambda>e. fst e \<le> hi) es = es" by (intro filter_True) (auto intro: order_trans)
    then show ?case using snoc by (auto simp: sorted_append not_less)
  qed simp
  note drop = this [OF srt]
  have "takeWhile (\<lambda>e. lo \<le> fst e) (rev es) = rev (filter (\<lambda>e. lo \<le> fst e) es)" if "sorted (map fst es)" for es :: "(bytes \<times> 'a) list"
    using that
  proof (induction es rule: rev_induct)
    case (snoc e es)
    have "\<forall>x \<in> set es. fst x \<le> fst e" using snoc.prems by (auto simp: sorted_append)
    then have "\<not> lo \<le> fst e \<Longrightarrow> filter (\<lambda>e. lo \<le> fst e) es = []" by (intro filter_False) (auto intro: order_trans)
    then show ?case using snoc by (auto simp: sorted_append)
  qed simp
  note take = this [of "filter (\<lambda>e. fst e \<le> hi) db"]
  show ?thesis
    unfolding scan_back_def drop using take bt_ok_sorted [OF bt_ok_filter [OF assms]]
    by (simp add: conj_commute)
qed

lemma history_loop_eq:
  assumes "\<forall>e \<in> set es. starts_with p (fst e)" and "map (\<lambda>e. k_dec_card K (snd e)) es = map Some cs"
  shows "history_loop K p limit acc es = Some (acc @ take (limit - length acc) cs)"
  using assms
proof (induction es arbitrary: acc cs)
  case (Cons e es)
  obtain c cs' where cs: "cs = c # cs'" "k_dec_card K (snd e) = Some c" "map (\<lambda>e. k_dec_card K (snd e)) es = map Some cs'"
    using Cons.prems(2) by (cases cs) auto
  show ?case
  proof (cases "length acc < limit")
    case True
    have "limit - length acc = Suc (limit - length (acc @ [c]))" using True by simp
    then show ?thesis
      using Cons.IH [OF _ cs(3), of "acc @ [c]"] Cons.prems(1) True cs by (cases e) simp
  qed (cases e, simp)
qed simp

lemma card_history_eq:
  assumes "bt_ok db" and "cards_of K U s db vs"
  shows "card_history K U s limit db = Some (take limit (rev vs))"
proof -
  let ?p = "card_prefix U s"
  let ?L = "filter (\<lambda>e. starts_with ?p (fst e)) db"
  have "(?p \<le> k \<and> k \<le> ?p @ [CHR 0xFF]) \<longleftrightarrow> starts_with ?p k" if row: "map_of db k = Some v" for k v
  proof
    assume "starts_with ?p k"
    then obtain n where n: "n < length vs" "k = card_key U s (n + 1)"
      using assms(2) row unfolding cards_of_def by blast
    have "n + 1 < 10 ^ 20" using n(1) assms(2) by (auto simp: cards_of_def)
    from pad20_upper [OF this] show "?p \<le> k \<and> k \<le> ?p @ [CHR 0xFF]"
      using append_le_append(1) [of ?p "[]" "pad20 (n + 1)"] append_le_append(1) [of ?p "pad20 (n + 1)" "[CHR 0xFF]"]
      unfolding n(2) card_key_def card_prefix_def by simp
  qed (auto intro: starts_with_upto [where x = "[]"])
  then have "filter (\<lambda>e. ?p \<le> fst e \<and> fst e \<le> ?p @ [CHR 0xFF]) db = ?L"
    using bt_entry [OF assms(1)] by (intro filter_cong refl) (metis prod.collapse)
  then have "scan_back ?p (?p @ [CHR 0xFF]) db = rev ?L" by (simp add: scan_back_eq [OF assms(1)])
  moreover have "map (\<lambda>e. k_dec_card K (snd e)) (rev ?L) = map Some (rev vs)"
    using card_entries [OF assms] by (simp only: rev_map [symmetric])
  ultimately show ?thesis
    using history_loop_eq [of "rev ?L" ?p "rev vs" limit "[]"] by (simp add: card_history_def Let_def)
qed

lemma cards_of_at: "cards_of K U s db vs \<Longrightarrow> n < length vs \<Longrightarrow> card_at K U s db (n + 1) = Some (vs ! n)"
  unfolding cards_of_def by blast

lemma cards_of_head: "cards_of K U s db vs \<Longrightarrow> card_head K U s db = Some (length vs)"
  by (simp add: cards_of_def)

lemma load_newest:
  assumes "cards_of K U s db vs"
  shows "load_card K U s (length vs) db = Some (newest vs)"
proof (cases "vs = []")
  case False
  then have "length vs - 1 < length vs" by simp
  from cards_of_at [OF assms this] have "card_at K U s db (length vs) = Some (last vs)"
    using False by (simp add: last_conv_nth)
  then show ?thesis
    using False by (cases "map_of db (card_key U s (length vs))") (simp_all add: load_card_def card_at_def newest_def)
qed (simp add: load_card_def newest_def)

section \<open>Writing\<close>

lemma cards_of_cong:
  assumes "\<And>k. starts_with (card_prefix U s) k \<or> k = card_head_key U s \<Longrightarrow> map_of db' k = map_of db k"
  shows "cards_of K U s db' vs \<longleftrightarrow> cards_of K U s db vs"
proof -
  have "card_head K U s db' = card_head K U s db" "card_at K U s db' n = card_at K U s db n" for n
    using assms by (simp_all add: card_head_def card_at_def)
  moreover have "(map_of db' k = Some v \<longrightarrow> starts_with (card_prefix U s) k \<longrightarrow> P) \<longleftrightarrow>
      (map_of db k = Some v \<longrightarrow> starts_with (card_prefix U s) k \<longrightarrow> P)" for k v P
    using assms [of k] by auto
  ultimately show ?thesis by (simp add: cards_of_def)
qed

lemma card_append:
  fixes db :: "'v db" and c
  assumes bt: "bt_ok db" and log: "cards_of K U s db vs" and len: "length vs + 1 < 2 ^ 64"
    and c: "ca_scope c = s" "ca_version c = length vs + 1"
  defines "db' \<equiv> db_write [Put (card_key U s (ca_version c)) (k_card K c),
      Put (card_head_key U s) (k_raw K (u64_to_be_bytes (ca_version c)))] db"
  shows "cards_of K U s db' (vs @ [c])"
    and "t \<noteq> s \<Longrightarrow> cards_of K U t db' ws \<longleftrightarrow> cards_of K U t db ws"
proof -
  have get: "map_of db' = (map_of db)(card_key U s (length vs + 1) \<mapsto> k_card K c,
      card_head_key U s \<mapsto> k_raw K (u64_to_be_bytes (length vs + 1)))"
    by (simp add: db'_def map_of_db_write [OF bt] c(2))
  have head: "card_head K U s db' = Some (length (vs @ [c]))"
    using len by (simp add: card_head_def get decode_seq_be_bytes)
  have at: "card_at K U s db' (n + 1) = (if n = length vs then Some c else card_at K U s db (n + 1))" for n
    by (simp add: card_at_def get)
  show "cards_of K U s db' (vs @ [c])"
    unfolding cards_of_def
  proof (intro conjI allI impI head)
    show "length (vs @ [c]) < 2 ^ 64" using len by simp
  next
    fix k v assume kv: "map_of db' k = Some v" "starts_with (card_prefix U s) k"
    show "\<exists>n < length (vs @ [c]). k = card_key U s (n + 1) \<and> k_dec_card K v = Some ((vs @ [c]) ! n)"
    proof (cases "k = card_key U s (length vs + 1)")
      case True
      then have "v = k_card K c" using kv(1) by (simp add: get)
      then show ?thesis using True by (intro exI [of _ "length vs"]) simp
    next
      case False
      then have "map_of db k = Some v" using kv by (auto simp: get split: if_splits)
      then obtain n where n: "n < length vs" "k = card_key U s (n + 1)" "k_dec_card K v = Some (vs ! n)"
        using log kv(2) unfolding cards_of_def by blast
      then show ?thesis by (intro exI [of _ n]) (simp add: nth_append)
    qed
  next
    fix n assume "n < length (vs @ [c])"
    then have "n < length vs \<or> n = length vs" by auto
    then show "card_at K U s db' (n + 1) = Some ((vs @ [c]) ! n)" "ca_scope ((vs @ [c]) ! n) = s"
      "ca_version ((vs @ [c]) ! n) = n + 1"
      using log c unfolding at by (auto simp: nth_append cards_of_def)
  qed
  show "t \<noteq> s \<Longrightarrow> cards_of K U t db' ws \<longleftrightarrow> cards_of K U t db ws"
    by (rule cards_of_cong) (auto simp: get)
qed

lemma card_prefix_apart: "starts_with (card_prefix U s) k \<Longrightarrow> starts_with (card_prefix U t) k \<Longrightarrow> s = t"
  by (cases s; cases t) (auto simp: starts_with_iff card_prefix_def scope_key_def U_append)

lemma delete_cards:
  fixes db :: "'v db" and s
  assumes bt: "bt_ok db"
  defines "db' \<equiv> db_write (delete_card_in U s db) db"
  shows "cards_of K U s db' []"
    and "t \<noteq> s \<Longrightarrow> cards_of K U t db' ws \<longleftrightarrow> cards_of K U t db ws"
    and "k \<noteq> card_head_key U s \<Longrightarrow> \<not> starts_with (card_prefix U s) k \<Longrightarrow> map_of db' k = map_of db k"
proof -
  have get: "map_of db' k =
      (if k = card_head_key U s \<or> starts_with (card_prefix U s) k then None else map_of db k)" for k
    using ops_effect_deletes [of "\<lambda>k. k" "keys_with_prefix (card_prefix U s) db"
        "(map_of db)(card_head_key U s := None)" k]
    unfolding db'_def map_of_db_write [OF bt] delete_card_in_def ops_effect.simps
    by (auto simp: set_keys_with_prefix [OF bt])
  show "cards_of K U s db' []" by (simp add: cards_of_def card_head_def get)
  show "t \<noteq> s \<Longrightarrow> cards_of K U t db' ws \<longleftrightarrow> cards_of K U t db ws"
    by (rule cards_of_cong) (auto simp: get dest: card_prefix_apart)
  show "k \<noteq> card_head_key U s \<Longrightarrow> \<not> starts_with (card_prefix U s) k \<Longrightarrow> map_of db' k = map_of db k"
    by (simp add: get)
qed

end

section \<open>Claims\<close>

text \<open>
  C23: the store of a card refines an append-only log. A read gives the last version and the history
  the newest ones first; a write made from the latest version appends the next one and leaves the
  other scopes alone; any other write changes nothing and returns the latest version, so of two
  writes made from the same version one is refused.
\<close>

theorem card_log_refined:
  assumes "storage U parse_uuid K" and "bt_ok db" and "cards_of K U scope db vs" and "length vs + 1 < 2 ^ 64"
  shows "get_card K U scope db = Some (newest vs) \<and>
    card_history K U scope limit db = Some (take limit (rev vs)) \<and>
    (expected \<noteq> length vs \<longrightarrow>
      put_card K U scope text author expected now db = (db, Some (Conflict (newest vs)))) \<and>
    (expected = length vs \<longrightarrow> (\<exists>db' c. put_card K U scope text author expected now db = (db', Some (Written c)) \<and>
      ca_text c = text \<and> ca_author c = author \<and> ca_version c = length vs + 1 \<and>
      bt_ok db' \<and> cards_of K U scope db' (vs @ [c]) \<and>
      (\<forall>t ws. t \<noteq> scope \<longrightarrow> (cards_of K U t db' ws \<longleftrightarrow> cards_of K U t db ws)) \<and>
      (\<forall>text' author' now'. put_card K U scope text' author' expected now' db' = (db', Some (Conflict (Some c))))))"
proof (intro conjI impI)
  note H = storage.cards_of_head [OF assms(1)] and L = storage.load_newest [OF assms(1)]
  show "get_card K U scope db = Some (newest vs)" by (simp add: get_card_def H [OF assms(3)] L [OF assms(3)])
  show "card_history K U scope limit db = Some (take limit (rev vs))" by (rule storage.card_history_eq [OF assms(1-3)])
  show "expected \<noteq> length vs \<Longrightarrow> put_card K U scope text author expected now db = (db, Some (Conflict (newest vs)))"
    by (simp add: put_card_def H [OF assms(3)] L [OF assms(3)])
  assume e: "expected = length vs"
  let ?c = "\<lparr>ca_scope = scope, ca_version = length vs + 1, ca_text = text, ca_updated_at = now, ca_author = author\<rparr>"
  let ?db = "db_write [Put (card_key U scope (ca_version ?c)) (k_card K ?c),
      Put (card_head_key U scope) (k_raw K (u64_to_be_bytes (ca_version ?c)))] db"
  have sel: "ca_scope ?c = scope" "ca_version ?c = length vs + 1" by simp_all
  note A = storage.card_append [OF assms(1-4) sel]
  have "put_card K U scope text author expected now db = (?db, Some (Written ?c))"
    by (simp add: put_card_def H [OF assms(3)] e Let_def)
  moreover have "put_card K U scope text' author' expected now' ?db = (?db, Some (Conflict (Some ?c)))" for text' author' now'
    using e by (simp add: put_card_def H [OF A(1), simplified] L [OF A(1), simplified] newest_def)
  moreover have "bt_ok ?db" using assms(2) by simp
  ultimately show "\<exists>db' c. put_card K U scope text author expected now db = (db', Some (Written c)) \<and>
      ca_text c = text \<and> ca_author c = author \<and> ca_version c = length vs + 1 \<and>
      bt_ok db' \<and> cards_of K U scope db' (vs @ [c]) \<and>
      (\<forall>t ws. t \<noteq> scope \<longrightarrow> (cards_of K U t db' ws \<longleftrightarrow> cards_of K U t db ws)) \<and>
      (\<forall>text' author' now'. put_card K U scope text' author' expected now' db' = (db', Some (Conflict (Some c))))"
    using A by (intro exI [of _ ?db] exI [of _ ?c]) simp
qed

lemma cards_of_empty: "cards_of K U scope [] []"
  by (simp add: cards_of_def card_head_def)

lemma card_log_refined_witness:
  "\<exists>db' c. put_card stored_codec hyphenated User_Scope ''likes tea'' None 0 9 [] = (db', Some (Written c)) \<and>
    ca_text c = ''likes tea'' \<and> ca_version c = 1 \<and> cards_of stored_codec hyphenated User_Scope db' [c] \<and>
    put_card stored_codec hyphenated User_Scope ''likes coffee'' None 0 10 db' = (db', Some (Conflict (Some c)))"
  using card_log_refined [OF st.storage_axioms _ cards_of_empty, of User_Scope 5 0 "''likes tea''" None 9]
  by (simp add: bt_ok_def) blast

end
