(* ===== verification/Workspace_Manager.thy ===== *)
theory Workspace_Manager
  imports Pcx_Prelude Stored_Values
begin

text \<open>
  The workspaces in memory, \<open>post-cortex-core/src/workspace/mod.rs\<close>: sets of sessions with a
  role, an index by name and a count. The concurrent maps are maps, each operation one step; the
  order in which a map is iterated is the parameter \<open>order\<close>, which lists a set of ids.
\<close>

record workspace_metadata =
  wmd_project_type :: "string option"
  wmd_tags :: "string list"
  wmd_root_paths :: "string list"
  wmd_custom_data :: "string \<rightharpoonup> string"

record workspace =
  w_id :: uuid
  w_name :: string
  w_description :: string
  w_created_at :: nat
  w_session_ids :: "uuid \<rightharpoonup> session_role"
  w_metadata :: workspace_metadata

definition default_workspace_metadata :: workspace_metadata where
  "default_workspace_metadata =
     \<lparr>wmd_project_type = None, wmd_tags = [], wmd_root_paths = [], wmd_custom_data = Map.empty\<rparr>"

definition new_workspace :: "uuid \<Rightarrow> string \<Rightarrow> string \<Rightarrow> nat \<Rightarrow> workspace" where
  "new_workspace i name description now =
     \<lparr>w_id = i, w_name = name, w_description = description, w_created_at = now,
      w_session_ids = Map.empty, w_metadata = default_workspace_metadata\<rparr>"

definition add_session :: "uuid \<Rightarrow> session_role \<Rightarrow> workspace \<Rightarrow> workspace" where
  "add_session i role w = w\<lparr>w_session_ids := (w_session_ids w)(i \<mapsto> role)\<rparr>"

definition remove_session :: "uuid \<Rightarrow> workspace \<Rightarrow> workspace \<times> session_role option" where
  "remove_session i w = (w\<lparr>w_session_ids := (w_session_ids w)(i := None)\<rparr>, w_session_ids w i)"

definition get_session_role :: "uuid \<Rightarrow> workspace \<Rightarrow> session_role option" where
  "get_session_role i w = w_session_ids w i"

definition get_all_sessions :: "(uuid set \<Rightarrow> uuid list) \<Rightarrow> workspace \<Rightarrow> (uuid \<times> session_role) list" where
  "get_all_sessions order w =
     List.map_filter (\<lambda>i. map_option (Pair i) (w_session_ids w i)) (order (dom (w_session_ids w)))"

definition update_workspace_metadata :: "(workspace_metadata \<Rightarrow> workspace_metadata) \<Rightarrow> workspace \<Rightarrow> workspace" where
  "update_workspace_metadata f w = w\<lparr>w_metadata := f (w_metadata w)\<rparr>"

section \<open>The manager\<close>

record workspace_manager =
  wm_workspaces :: "uuid \<rightharpoonup> workspace"
  wm_name_index :: "string \<rightharpoonup> uuid"
  wm_total :: "64 word"

definition new_manager :: workspace_manager where
  "new_manager = \<lparr>wm_workspaces = Map.empty, wm_name_index = Map.empty, wm_total = 0\<rparr>"

definition put_workspace :: "workspace \<Rightarrow> workspace_manager \<Rightarrow> workspace_manager" where
  "put_workspace w M =
     M\<lparr>wm_workspaces := (wm_workspaces M)(w_id w \<mapsto> w),
       wm_name_index := (wm_name_index M)(w_name w \<mapsto> w_id w),
       wm_total := wm_total M + 1\<rparr>"

text \<open>\<open>i\<close> is the new random id, \<open>now\<close> the time of the call.\<close>

definition create_workspace :: "uuid \<Rightarrow> nat \<Rightarrow> string \<Rightarrow> string \<Rightarrow> workspace_manager \<Rightarrow> workspace_manager" where
  "create_workspace i now name description M = put_workspace (new_workspace i name description now) M"

definition restore_workspace ::
  "uuid \<Rightarrow> string \<Rightarrow> string \<Rightarrow> (uuid \<times> session_role) list \<Rightarrow> nat \<Rightarrow> workspace_manager \<Rightarrow> workspace_manager" where
  "restore_workspace i name description sessions now M =
     put_workspace (fold (\<lambda>(j, role). add_session j role) sessions (new_workspace i name description now)) M"

definition get_workspace :: "uuid \<Rightarrow> workspace_manager \<Rightarrow> workspace option" where
  "get_workspace i M = wm_workspaces M i"

definition get_workspace_by_name :: "string \<Rightarrow> workspace_manager \<Rightarrow> workspace option" where
  "get_workspace_by_name name M = Option.bind (wm_name_index M name) (\<lambda>i. get_workspace i M)"

definition list_managed :: "(uuid set \<Rightarrow> uuid list) \<Rightarrow> workspace_manager \<Rightarrow> workspace list" where
  "list_managed order M = List.map_filter (wm_workspaces M) (order (dom (wm_workspaces M)))"

definition forget_workspace :: "uuid \<Rightarrow> workspace_manager \<Rightarrow> workspace_manager \<times> workspace option" where
  "forget_workspace i M =
     (case wm_workspaces M i of
        None \<Rightarrow> (M, None)
      | Some w \<Rightarrow>
          (M\<lparr>wm_workspaces := (wm_workspaces M)(i := None),
             wm_name_index := (wm_name_index M)(w_name w := None),
             wm_total := wm_total M - 1\<rparr>, Some w))"

datatype membership_error = Workspace_Not_Found uuid | Session_Not_In_Workspace uuid

definition manager_add_session ::
  "uuid \<Rightarrow> uuid \<Rightarrow> session_role \<Rightarrow> workspace_manager \<Rightarrow> workspace_manager \<times> (membership_error, unit) result" where
  "manager_add_session w i role M =
     (case get_workspace w M of
        None \<Rightarrow> (M, Err (Workspace_Not_Found w))
      | Some ws \<Rightarrow> (M\<lparr>wm_workspaces := (wm_workspaces M)(w \<mapsto> add_session i role ws)\<rparr>, Ok ()))"

definition manager_remove_session ::
  "uuid \<Rightarrow> uuid \<Rightarrow> workspace_manager \<Rightarrow> workspace_manager \<times> (membership_error, session_role option) result" where
  "manager_remove_session w i M =
     (case get_workspace w M of
        None \<Rightarrow> (M, Err (Workspace_Not_Found w))
      | Some ws \<Rightarrow>
          let (ws', role) = remove_session i ws;
              M' = M\<lparr>wm_workspaces := (wm_workspaces M)(w \<mapsto> ws')\<rparr>
          in case role of
              None \<Rightarrow> (M', Err (Session_Not_In_Workspace i))
            | Some r \<Rightarrow> (M', Ok (Some r)))"

definition total_workspaces :: "workspace_manager \<Rightarrow> 64 word" where
  "total_workspaces M = wm_total M"

end
