(* ===== verification/Workspace_Store.thy ===== *)
theory Workspace_Store
  imports Kv_Store Storage_Keys Stored_Values Card_Store
begin

text \<open>
  Workspaces in the RocksDB backend,
  \<open>post-cortex-storage/src/rocksdb_storage/workspaces.rs\<close>: a row per workspace and a row per
  member. The rows of the members are the source of truth for the members.
\<close>

definition workspace_prefix :: bytes where "workspace_prefix = ''workspace:''"
definition ws_session_prefix :: bytes where "ws_session_prefix = ''ws_session:''"

text \<open>
  A scan that stops at a key without the prefix. The test is on the text of the key with invalid
  UTF-8 replaced; the prefix is ASCII, so it holds exactly when the bytes start with it.
\<close>

definition scan_checked :: "bytes \<Rightarrow> 'v db \<Rightarrow> (bytes \<times> 'v) list" where
  "scan_checked p db = takeWhile (\<lambda>e. starts_with p (fst e)) (scan_prefix p db)"

definition take_workspace :: "'v codec \<Rightarrow> bytes \<times> 'v \<Rightarrow> (uuid \<rightharpoonup> stored_workspace) \<Rightarrow> (uuid \<rightharpoonup> stored_workspace)" where
  "take_workspace K e m =
     (case k_dec_workspace K (snd e) of
        None \<Rightarrow> m
      | Some w \<Rightarrow> m(sw_id w \<mapsto> w\<lparr>sw_sessions := []\<rparr>))"

definition take_membership :: "'v codec \<Rightarrow> bytes \<times> 'v \<Rightarrow> (uuid \<rightharpoonup> stored_workspace) \<Rightarrow> (uuid \<rightharpoonup> stored_workspace)" where
  "take_membership K e m =
     (case k_dec_membership K (snd e) of
        None \<Rightarrow> m
      | Some s \<Rightarrow> (case m (ws_workspace_id s) of
            None \<Rightarrow> m
          | Some w \<Rightarrow> m(ws_workspace_id s \<mapsto> w\<lparr>sw_sessions := sw_sessions w @ [(ws_session_id s, ws_role s)]\<rparr>)))"

definition workspaces_map :: "'v codec \<Rightarrow> 'v db \<Rightarrow> (uuid \<rightharpoonup> stored_workspace)" where
  "workspaces_map K db =
     fold (take_membership K) (scan_checked ws_session_prefix db)
       (fold (take_workspace K) (scan_checked workspace_prefix db) Map.empty)"

text \<open>\<open>order\<close> is the order in which a hash map with these keys gives its values.\<close>

definition list_workspaces :: "'v codec \<Rightarrow> (uuid set \<Rightarrow> uuid list) \<Rightarrow> 'v db \<Rightarrow> stored_workspace list" where
  "list_workspaces K order db = (let m = workspaces_map K db in List.map_filter m (order (dom m)))"

definition save_workspace_metadata ::
  "'v codec \<Rightarrow> (uuid \<Rightarrow> string) \<Rightarrow> uuid \<Rightarrow> string \<Rightarrow> string \<Rightarrow> uuid list \<Rightarrow> nat \<Rightarrow> 'v db \<Rightarrow> 'v db" where
  "save_workspace_metadata K U w name description session_ids now db =
     db_write [Put (workspace_key U w)
       (k_workspace K \<lparr>sw_id = w, sw_name = name, sw_description = description,
          sw_sessions = map (\<lambda>i. (i, Primary)) session_ids, sw_created_at = now\<rparr>)] db"

definition delete_stored_workspace :: "(uuid \<Rightarrow> string) \<Rightarrow> uuid \<Rightarrow> 'v db \<Rightarrow> 'v db" where
  "delete_stored_workspace U w db =
     (let db = db_write [Delete (workspace_key U w)] db;
          keys = map fst (scan_checked (ws_session_prefix @ U w @ '':'') db)
      in db_write (map Delete keys @ delete_card_in U (Workspace_Scope w) db) db)"

definition store_add_session ::
  "'v codec \<Rightarrow> (uuid \<Rightarrow> string) \<Rightarrow> uuid \<Rightarrow> uuid \<Rightarrow> session_role \<Rightarrow> nat \<Rightarrow> 'v db \<Rightarrow> 'v db" where
  "store_add_session K U w i role now db =
     db_write [Put (ws_session_key U w i)
       (k_membership K \<lparr>ws_workspace_id = w, ws_session_id = i, ws_role = role, ws_added_at = now\<rparr>)] db"

definition store_remove_session :: "(uuid \<Rightarrow> string) \<Rightarrow> uuid \<Rightarrow> uuid \<Rightarrow> 'v db \<Rightarrow> 'v db" where
  "store_remove_session U w i db = db_write [Delete (ws_session_key U w i)] db"

section \<open>The workspaces of a store\<close>

definition workspace_row :: "'v codec \<Rightarrow> (uuid \<Rightarrow> string) \<Rightarrow> 'v db \<Rightarrow> uuid \<Rightarrow> stored_workspace option" where
  "workspace_row K U db w = Option.bind (map_of db (workspace_key U w)) (k_dec_workspace K)"

definition stored_members :: "'v codec \<Rightarrow> (uuid \<Rightarrow> string) \<Rightarrow> 'v db \<Rightarrow> uuid \<Rightarrow> (uuid \<rightharpoonup> session_role)" where
  "stored_members K U db w i =
     map_option ws_role (Option.bind (map_of db (ws_session_key U w i)) (k_dec_membership K))"

text \<open>Every row decodes and lies under its own ids.\<close>

definition workspaces_ok :: "'v codec \<Rightarrow> (uuid \<Rightarrow> string) \<Rightarrow> 'v db \<Rightarrow> bool" where
  "workspaces_ok K U db \<longleftrightarrow> bt_ok db \<and>
     (\<forall>k v. map_of db k = Some v \<longrightarrow> starts_with workspace_prefix k \<longrightarrow>
        (\<exists>w. k_dec_workspace K v = Some w \<and> k = workspace_key U (sw_id w))) \<and>
     (\<forall>k v. map_of db k = Some v \<longrightarrow> starts_with ws_session_prefix k \<longrightarrow>
        (\<exists>s. k_dec_membership K v = Some s \<and> k = ws_session_key U (ws_workspace_id s) (ws_session_id s)))"

text \<open>Name, description and members of each workspace.\<close>

type_synonym workspace_view = "uuid \<rightharpoonup> string \<times> string \<times> (uuid \<rightharpoonup> session_role)"

definition stored_view :: "'v codec \<Rightarrow> (uuid \<Rightarrow> string) \<Rightarrow> 'v db \<Rightarrow> workspace_view" where
  "stored_view K U db w =
     map_option (\<lambda>r. (sw_name r, sw_description r, stored_members K U db w)) (workspace_row K U db w)"

end
