(* ===== verification/Workspace_Service.thy ===== *)
theory Workspace_Service
  imports Workspace_Manager Workspace_Store
begin

text \<open>
  Workspaces as the daemon serves them: the manager in memory and the store, changed by the gRPC
  service (\<open>grpc_service/mod.rs\<close>), the two REST interfaces (\<open>rmcp_server.rs\<close> and
  \<open>server/rest.rs\<close>) and the MCP tools (\<open>post-cortex-mcp/src/workspace.rs\<close>); a restart fills the
  manager from the store (\<open>memory_system/system.rs\<close>). Requests run one at a time here; a failing
  store is outside the model. \<open>now\<close> is the time of a call.
\<close>

record 'v node =
  nd_manager :: workspace_manager
  nd_db :: "'v db"

section \<open>Restart\<close>

definition hydrate :: "'v codec \<Rightarrow> (uuid set \<Rightarrow> uuid list) \<Rightarrow> nat \<Rightarrow> 'v db \<Rightarrow> workspace_manager" where
  "hydrate K order now db =
     fold (\<lambda>s. restore_workspace (sw_id s) (sw_name s) (sw_description s) (sw_sessions s) now)
       (list_workspaces K order db) new_manager"

section \<open>Roles\<close>

definition parse_session_role :: "string \<Rightarrow> session_role" where
  "parse_session_role s =
     (let r = str_lower s in
      if r = ''primary'' then Primary
      else if r = ''dependency'' then Dependency
      else if r = ''shared'' then Shared
      else Related)"

definition mcp_session_role :: "string \<Rightarrow> session_role" where
  "mcp_session_role s =
     (let r = str_lower s in
      if r = ''primary'' then Primary
      else if r = ''related'' then Related
      else if r = ''dependency'' then Dependency
      else if r = ''shared'' then Shared
      else Related)"

definition api_session_role :: "string option \<Rightarrow> (string, session_role) result" where
  "api_session_role role =
     (let r = unwrap_or role ''related'' in
      if r = ''primary'' then Ok Primary
      else if r = ''related'' then Ok Related
      else if r = ''dependency'' then Ok Dependency
      else if r = ''shared'' then Ok Shared
      else Err (''Invalid role: '' @ r))"

section \<open>REST\<close>

definition api_create_workspace ::
  "'v codec \<Rightarrow> (uuid \<Rightarrow> string) \<Rightarrow> uuid \<Rightarrow> nat \<Rightarrow> string \<Rightarrow> string option \<Rightarrow> 'v node \<Rightarrow> 'v node" where
  "api_create_workspace K U i now name description s =
     \<lparr>nd_manager = restore_workspace i name (unwrap_or description []) [] now (nd_manager s),
      nd_db = save_workspace_metadata K U i name (unwrap_or description []) [] now (nd_db s)\<rparr>"

text \<open>The interface on the shared listener also drops the workspace from memory.\<close>

definition api_delete_workspace :: "(uuid \<Rightarrow> string) \<Rightarrow> uuid \<Rightarrow> 'v node \<Rightarrow> 'v node" where
  "api_delete_workspace U w s =
     \<lparr>nd_manager = fst (forget_workspace w (nd_manager s)), nd_db = delete_stored_workspace U w (nd_db s)\<rparr>"

definition rest_delete_workspace :: "(uuid \<Rightarrow> string) \<Rightarrow> uuid \<Rightarrow> 'v node \<Rightarrow> 'v node" where
  "rest_delete_workspace U w s = s\<lparr>nd_db := delete_stored_workspace U w (nd_db s)\<rparr>"

definition api_attach_session ::
  "'v codec \<Rightarrow> (uuid \<Rightarrow> string) \<Rightarrow> uuid \<Rightarrow> uuid \<Rightarrow> string option \<Rightarrow> nat \<Rightarrow> 'v node \<Rightarrow>
   'v node \<times> (string, unit) result" where
  "api_attach_session K U w i role now s =
     (case api_session_role role of
        Err e \<Rightarrow> (s, Err e)
      | Ok r \<Rightarrow>
          (\<lparr>nd_manager = fst (manager_add_session w i r (nd_manager s)),
            nd_db = store_add_session K U w i r now (nd_db s)\<rparr>, Ok ()))"

text \<open>
  Id, name, description and number of sessions; the shared listener counts the sessions that exist.
\<close>

definition rest_list_workspaces ::
  "'v codec \<Rightarrow> (uuid set \<Rightarrow> uuid list) \<Rightarrow> 'v node \<Rightarrow> (uuid \<times> string \<times> string \<times> nat) list" where
  "rest_list_workspaces K order s =
     map (\<lambda>w. (sw_id w, sw_name w, sw_description w, length (sw_sessions w))) (list_workspaces K order (nd_db s))"

definition api_list_workspaces ::
  "'v codec \<Rightarrow> (uuid set \<Rightarrow> uuid list) \<Rightarrow> uuid list \<Rightarrow> 'v node \<Rightarrow> (uuid \<times> string \<times> string \<times> nat) list" where
  "api_list_workspaces K order existing s =
     map (\<lambda>w. (sw_id w, sw_name w, sw_description w, length (filter (\<lambda>e. fst e \<in> set existing) (sw_sessions w))))
       (list_workspaces K order (nd_db s))"

section \<open>gRPC\<close>

definition grpc_create_workspace ::
  "'v codec \<Rightarrow> (uuid \<Rightarrow> string) \<Rightarrow> uuid \<Rightarrow> nat \<Rightarrow> string \<Rightarrow> string \<Rightarrow> 'v node \<Rightarrow> 'v node" where
  "grpc_create_workspace K U i now name description s =
     \<lparr>nd_manager = create_workspace i now name description (nd_manager s),
      nd_db = save_workspace_metadata K U i name description [] now (nd_db s)\<rparr>"

definition grpc_delete_workspace :: "uuid \<Rightarrow> 'v node \<Rightarrow> 'v node \<times> bool" where
  "grpc_delete_workspace w s =
     (let (M, deleted) = forget_workspace w (nd_manager s) in (s\<lparr>nd_manager := M\<rparr>, deleted \<noteq> None))"

definition grpc_persist ::
  "'v codec \<Rightarrow> (uuid \<Rightarrow> string) \<Rightarrow> (uuid set \<Rightarrow> uuid list) \<Rightarrow> nat \<Rightarrow> uuid \<Rightarrow> 'v node \<Rightarrow> 'v node" where
  "grpc_persist K U order now w s =
     (case get_workspace w (nd_manager s) of
        None \<Rightarrow> s
      | Some ws \<Rightarrow> s\<lparr>nd_db := save_workspace_metadata K U w (w_name ws) (w_description ws)
          (order (dom (w_session_ids ws))) now (nd_db s)\<rparr>)"

definition grpc_add_session ::
  "'v codec \<Rightarrow> (uuid \<Rightarrow> string) \<Rightarrow> (uuid set \<Rightarrow> uuid list) \<Rightarrow> nat \<Rightarrow> uuid \<Rightarrow> uuid \<Rightarrow> string \<Rightarrow> 'v node \<Rightarrow>
   'v node \<times> (membership_error, unit) result" where
  "grpc_add_session K U order now w i role s =
     (case manager_add_session w i (parse_session_role role) (nd_manager s) of
        (M, Err e) \<Rightarrow> (s\<lparr>nd_manager := M\<rparr>, Err e)
      | (M, Ok _) \<Rightarrow> (grpc_persist K U order now w (s\<lparr>nd_manager := M\<rparr>), Ok ()))"

definition grpc_remove_session ::
  "'v codec \<Rightarrow> (uuid \<Rightarrow> string) \<Rightarrow> (uuid set \<Rightarrow> uuid list) \<Rightarrow> nat \<Rightarrow> uuid \<Rightarrow> uuid \<Rightarrow> 'v node \<Rightarrow>
   'v node \<times> (membership_error, unit) result" where
  "grpc_remove_session K U order now w i s =
     (case manager_remove_session w i (nd_manager s) of
        (M, Err e) \<Rightarrow> (s\<lparr>nd_manager := M\<rparr>, Err e)
      | (M, Ok _) \<Rightarrow> (grpc_persist K U order now w (s\<lparr>nd_manager := M\<rparr>), Ok ()))"

section \<open>MCP tools\<close>

definition persist_workspace_after_mutation ::
  "'v codec \<Rightarrow> (uuid \<Rightarrow> string) \<Rightarrow> (uuid set \<Rightarrow> uuid list) \<Rightarrow> nat \<Rightarrow> uuid \<Rightarrow> 'v node \<Rightarrow> 'v node" where
  "persist_workspace_after_mutation K U order now w s =
     (let (name, description, sessions) =
        (case get_workspace w (nd_manager s) of
           Some ws \<Rightarrow> (w_name ws, w_description ws, get_all_sessions order ws)
         | None \<Rightarrow> ([], [], []))
      in s\<lparr>nd_db := save_workspace_metadata K U w name description (map fst sessions) now (nd_db s)\<rparr>)"

definition mcp_create_workspace ::
  "'v codec \<Rightarrow> (uuid \<Rightarrow> string) \<Rightarrow> uuid \<Rightarrow> nat \<Rightarrow> string \<Rightarrow> string \<Rightarrow> 'v node \<Rightarrow> 'v node" where
  "mcp_create_workspace K U i now name description s =
     \<lparr>nd_manager = create_workspace i now name description (nd_manager s),
      nd_db = save_workspace_metadata K U i name description [] now (nd_db s)\<rparr>"

definition mcp_delete_workspace ::
  "(uuid \<Rightarrow> string) \<Rightarrow> uuid \<Rightarrow> 'v node \<Rightarrow> 'v node \<times> (membership_error, unit) result" where
  "mcp_delete_workspace U w s =
     (case forget_workspace w (nd_manager s) of
        (M, None) \<Rightarrow> (s\<lparr>nd_manager := M\<rparr>, Err (Workspace_Not_Found w))
      | (M, Some _) \<Rightarrow> (\<lparr>nd_manager = M, nd_db = delete_stored_workspace U w (nd_db s)\<rparr>, Ok ()))"

definition mcp_add_session ::
  "'v codec \<Rightarrow> (uuid \<Rightarrow> string) \<Rightarrow> (uuid set \<Rightarrow> uuid list) \<Rightarrow> nat \<Rightarrow> uuid \<Rightarrow> uuid \<Rightarrow> string \<Rightarrow> 'v node \<Rightarrow>
   'v node \<times> (membership_error, unit) result" where
  "mcp_add_session K U order now w i role s =
     (case manager_add_session w i (mcp_session_role role) (nd_manager s) of
        (M, Ok _) \<Rightarrow> (persist_workspace_after_mutation K U order now w (s\<lparr>nd_manager := M\<rparr>), Ok ())
      | (M, Err e) \<Rightarrow> (s\<lparr>nd_manager := M\<rparr>, Err e))"

definition mcp_remove_session ::
  "'v codec \<Rightarrow> (uuid \<Rightarrow> string) \<Rightarrow> (uuid set \<Rightarrow> uuid list) \<Rightarrow> nat \<Rightarrow> uuid \<Rightarrow> uuid \<Rightarrow> 'v node \<Rightarrow>
   'v node \<times> (membership_error, unit) result" where
  "mcp_remove_session K U order now w i s =
     (case manager_remove_session w i (nd_manager s) of
        (M, Ok (Some _)) \<Rightarrow> (persist_workspace_after_mutation K U order now w (s\<lparr>nd_manager := M\<rparr>), Ok ())
      | (M, Ok None) \<Rightarrow> (s\<lparr>nd_manager := M\<rparr>, Err (Session_Not_In_Workspace i))
      | (M, Err e) \<Rightarrow> (s\<lparr>nd_manager := M\<rparr>, Err e))"

section \<open>What the manager shows\<close>

definition manager_view :: "workspace_manager \<Rightarrow> workspace_view" where
  "manager_view M w = map_option (\<lambda>x. (w_name x, w_description x, w_session_ids x)) (wm_workspaces M w)"

text \<open>The order of a hash map lists each key once.\<close>

definition lists_keys :: "(uuid set \<Rightarrow> uuid list) \<Rightarrow> bool" where
  "lists_keys order \<longleftrightarrow> (\<forall>A. finite A \<longrightarrow> distinct (order A) \<and> set (order A) = A)"

text \<open>
  The changes that reach both the manager and the store: creation in every interface, deletion on
  the shared listener and by the MCP tool, attaching a session over REST, and restarts.
\<close>

inductive kept_step ::
  "'v codec \<Rightarrow> (uuid \<Rightarrow> string) \<Rightarrow> (uuid set \<Rightarrow> uuid list) \<Rightarrow> 'v node \<Rightarrow> 'v node \<Rightarrow> bool" for K U order where
  api_create: "stored_view K U (nd_db s) i = None \<Longrightarrow> stored_members K U (nd_db s) i = Map.empty \<Longrightarrow>
    kept_step K U order s (api_create_workspace K U i now name description s)"
| grpc_create: "stored_view K U (nd_db s) i = None \<Longrightarrow> stored_members K U (nd_db s) i = Map.empty \<Longrightarrow>
    kept_step K U order s (grpc_create_workspace K U i now name desc s)"
| mcp_create: "stored_view K U (nd_db s) i = None \<Longrightarrow> stored_members K U (nd_db s) i = Map.empty \<Longrightarrow>
    kept_step K U order s (mcp_create_workspace K U i now name desc s)"
| api_delete: "kept_step K U order s (api_delete_workspace U w s)"
| mcp_delete: "kept_step K U order s (fst (mcp_delete_workspace U w s))"
| api_attach: "kept_step K U order s (fst (api_attach_session K U w i role now s))"
| restart: "kept_step K U order s (s\<lparr>nd_manager := hydrate K order now (nd_db s)\<rparr>)"

inductive kept_reach ::
  "'v codec \<Rightarrow> (uuid \<Rightarrow> string) \<Rightarrow> (uuid set \<Rightarrow> uuid list) \<Rightarrow> 'v node \<Rightarrow> bool" for K U order where
  start: "workspaces_ok K U db \<Longrightarrow> kept_reach K U order \<lparr>nd_manager = hydrate K order now db, nd_db = db\<rparr>"
| step: "kept_reach K U order s \<Longrightarrow> kept_step K U order s s' \<Longrightarrow> kept_reach K U order s'"

definition in_step :: "'v codec \<Rightarrow> (uuid \<Rightarrow> string) \<Rightarrow> 'v node \<Rightarrow> bool" where
  "in_step K U s \<longleftrightarrow> workspaces_ok K U (nd_db s) \<and> manager_view (nd_manager s) = stored_view K U (nd_db s)"

end
