(* ===== verification/Workspace_Store_Props.thy ===== *)
theory Workspace_Store_Props
  imports Workspace_Store Card_Store_Props
begin

text \<open>
  The store of workspaces refines a map from ids to a name, a description and the members with
  their roles: listing reads it, saving sets name and description, the row of a member sets its
  role, and a deletion removes the workspace with its members.
\<close>

section \<open>Listing\<close>

lemma fold_rows:
  fixes f :: "'w \<Rightarrow> 'i"
  assumes "\<And>e. e \<in> set es \<Longrightarrow> \<exists>w. dec (snd e) = Some w \<and> fst e = key (f w)"
    and "distinct (map fst es)" and "inj key"
  shows "fold (\<lambda>e m. case dec (snd e) of None \<Rightarrow> m | Some w \<Rightarrow> m(f w \<mapsto> g w)) es m x =
    (case map_of es (key x) of None \<Rightarrow> m x | Some v \<Rightarrow> map_option g (dec v))"
  using assms(1,2)
proof (induction es arbitrary: m)
  case (Cons e es)
  obtain w where w: "dec (snd e) = Some w" "fst e = key (f w)" using Cons.prems(1) [of e] by auto
  have IH: "fold (\<lambda>e m. case dec (snd e) of None \<Rightarrow> m | Some w \<Rightarrow> m(f w \<mapsto> g w)) es m' x =
      (case map_of es (key x) of None \<Rightarrow> m' x | Some v \<Rightarrow> map_option g (dec v))" for m'
    by (rule Cons.IH) (use Cons.prems in auto)
  have e: "map_of (e # es) k = (if k = key (f w) then Some (snd e) else map_of es k)" for k
    using w(2) by (cases e) auto
  show ?case
  proof (cases "f w = x")
    case True
    have "key x \<notin> fst ` set es" using Cons.prems(2) True w(2) by auto
    then have "map_of es (key x) = None" by (simp add: map_of_eq_None_iff)
    then show ?thesis using True w(1) unfolding e by (simp add: IH)
  next
    case False
    then have "key x \<noteq> key (f w)" using injD [OF assms(3)] by blast
    then show ?thesis using False w(1) unfolding e by (simp add: IH fun_upd_other split: option.split)
  qed
qed simp

definition members_in :: "'v codec \<Rightarrow> (bytes \<times> 'v) list \<Rightarrow> uuid \<Rightarrow> (uuid \<times> session_role) list" where
  "members_in K es w = List.map_filter (\<lambda>e. case k_dec_membership K (snd e) of
      None \<Rightarrow> None
    | Some s \<Rightarrow> if ws_workspace_id s = w then Some (ws_session_id s, ws_role s) else None) es"

lemma members_in_simps [simp]:
  "members_in K [] w = []"
  "members_in K (e # es) w = (case k_dec_membership K (snd e) of
      None \<Rightarrow> members_in K es w
    | Some s \<Rightarrow> if ws_workspace_id s = w then (ws_session_id s, ws_role s) # members_in K es w else members_in K es w)"
  by (simp_all add: members_in_def split: option.split)

lemma fold_memberships:
  "fold (take_membership K) es m w =
    map_option (\<lambda>r. r\<lparr>sw_sessions := sw_sessions r @ members_in K es w\<rparr>) (m w)"
proof (induction es arbitrary: m)
  case Nil
  show ?case by (cases "m w") simp_all
next
  case (Cons e es)
  have "map_option (\<lambda>r. r\<lparr>sw_sessions := sw_sessions r @ members_in K es w\<rparr>) (take_membership K e m w) =
      map_option (\<lambda>r. r\<lparr>sw_sessions := sw_sessions r @ members_in K (e # es) w\<rparr>) (m w)"
    by (cases "k_dec_membership K (snd e)"; cases "m w") (auto simp: take_membership_def split: option.split)
  then show ?case using Cons by simp
qed

lemma ops_effect_delete_list: "ops_effect (map Delete ks) m k = (if k \<in> set ks then None else m k)"
  using ops_effect_deletes [of "\<lambda>k. k" ks m k] by simp

context storage
begin

lemma workspace_keys_inj: "inj (workspace_key U)"
  by (rule injI) (simp add: key_defs U_eqs)

lemma workspace_prefix_keys [simp]:
  "starts_with workspace_prefix (workspace_key U w)" "starts_with ws_session_prefix (ws_session_key U w i)"
  "\<not> starts_with workspace_prefix (ws_session_key U w i)" "\<not> starts_with ws_session_prefix (workspace_key U w)"
  "starts_with (ws_session_prefix @ U v @ '':'') (ws_session_key U w i) \<longleftrightarrow> v = w"
  "\<not> starts_with (ws_session_prefix @ U v @ '':'') (workspace_key U w)"
  by (simp_all add: workspace_prefix_def ws_session_prefix_def key_defs U_starts)

lemma workspace_keys_apart [simp]:
  "workspace_key U v \<noteq> ws_session_key U w i" "ws_session_key U w i \<noteq> workspace_key U v"
  "workspace_key U v \<noteq> card_head_key U c" "ws_session_key U w i \<noteq> card_head_key U c"
  "\<not> starts_with (card_prefix U c) (workspace_key U v)" "\<not> starts_with (card_prefix U c) (ws_session_key U w i)"
  by (simp_all add: key_defs)

lemma ws_session_keys: "ws_session_key U w i = ws_session_key U v j \<longleftrightarrow> w = v \<and> i = j"
  by (auto simp: key_defs U_eqs)

lemma scan_checked_eq: "bt_ok db \<Longrightarrow> scan_checked p db = filter (\<lambda>e. starts_with p (fst e)) db"
  by (simp add: scan_checked_def scan_prefix_filter takeWhile_eq_all_conv)

lemma scan_checked_rows:
  assumes "bt_ok db"
  shows "distinct (map fst (scan_checked p db))"
    and "starts_with p k \<Longrightarrow> map_of (scan_checked p db) k = map_of db k"
    and "e \<in> set (scan_checked p db) \<Longrightarrow> map_of db (fst e) = Some (snd e) \<and> starts_with p (fst e)"
proof -
  show "distinct (map fst (scan_checked p db))"
    unfolding scan_checked_eq [OF assms] by (rule bt_ok_distinct [OF bt_ok_filter [OF assms]])
  show "starts_with p k \<Longrightarrow> map_of (scan_checked p db) k = map_of db k"
    by (simp add: scan_checked_eq [OF assms] map_of_filter_key)
  show "e \<in> set (scan_checked p db) \<Longrightarrow> map_of db (fst e) = Some (snd e) \<and> starts_with p (fst e)"
    using bt_entry [OF assms, of "fst e" "snd e"] by (simp add: scan_checked_eq [OF assms])
qed

lemma members_in_rows:
  assumes "\<And>e. e \<in> set es \<Longrightarrow> \<exists>s. k_dec_membership K (snd e) = Some s \<and> fst e = ws_session_key U (ws_workspace_id s) (ws_session_id s)"
    and "distinct (map fst es)"
  shows "(\<forall>i. map_of (members_in K es w) i =
      map_option ws_role (Option.bind (map_of es (ws_session_key U w i)) (k_dec_membership K))) \<and>
    distinct (map fst (members_in K es w))"
  using assms
proof (induction es)
  case (Cons e es)
  obtain s where s: "k_dec_membership K (snd e) = Some s" "fst e = ws_session_key U (ws_workspace_id s) (ws_session_id s)"
    using Cons.prems(1) [of e] by auto
  have e: "map_of (e # es) k = (if k = ws_session_key U (ws_workspace_id s) (ws_session_id s) then Some (snd e) else map_of es k)" for k
    using s(2) by (cases e) auto
  have IH: "map_of (members_in K es w) i = map_option ws_role (Option.bind (map_of es (ws_session_key U w i)) (k_dec_membership K))"
      "distinct (map fst (members_in K es w))" for i
    using Cons.IH Cons.prems by auto
  have fresh: "ws_session_id s \<notin> fst ` set (members_in K es w)" if "ws_workspace_id s = w"
  proof -
    have "ws_session_key U w (ws_session_id s) \<notin> fst ` set es" using Cons.prems(2) s(2) that by auto
    then have "map_of es (ws_session_key U w (ws_session_id s)) = None" by (rule iffD2 [OF map_of_eq_None_iff])
    then have "map_of (members_in K es w) (ws_session_id s) = None"
      unfolding IH(1) by (simp del: map_of_eq_None_iff)
    then show ?thesis by (rule iffD1 [OF map_of_eq_None_iff])
  qed
  show ?case unfolding e using s(1) IH fresh by (auto simp: ws_session_keys)
qed simp

text \<open>What listing returns for one id.\<close>

definition listed :: "'v db \<Rightarrow> uuid \<Rightarrow> stored_workspace option" where
  "listed db w = map_option (\<lambda>r. r\<lparr>sw_sessions := members_in K (scan_checked ws_session_prefix db) w\<rparr>)
     (workspace_row K U db w)"

lemma workspaces_map_eq:
  assumes "workspaces_ok K U db"
  shows "workspaces_map K db w = listed db w"
proof -
  have bt: "bt_ok db" using assms by (simp add: workspaces_ok_def)
  note rows = scan_checked_rows [OF bt]
  have entry: "\<exists>w. k_dec_workspace K (snd e) = Some w \<and> fst e = workspace_key U (sw_id w)"
    if e: "e \<in> set (scan_checked workspace_prefix db)" for e
    using rows(3) [OF e] assms unfolding workspaces_ok_def by blast
  have take: "take_workspace K = (\<lambda>e m. case k_dec_workspace K (snd e) of None \<Rightarrow> m
      | Some w \<Rightarrow> m(sw_id w \<mapsto> w\<lparr>sw_sessions := []\<rparr>))"
    by (simp add: take_workspace_def fun_eq_iff)
  have "fold (take_workspace K) (scan_checked workspace_prefix db) Map.empty w =
      map_option (\<lambda>r. r\<lparr>sw_sessions := []\<rparr>) (workspace_row K U db w)"
    unfolding take using fold_rows [of "scan_checked workspace_prefix db" "k_dec_workspace K" "workspace_key U" sw_id,
        OF entry rows(1) workspace_keys_inj, where g = "\<lambda>w. w\<lparr>sw_sessions := []\<rparr>" and m = Map.empty and x = w]
    by (cases "map_of db (workspace_key U w)") (simp_all add: rows(2) workspace_row_def)
  then show ?thesis
    by (cases "workspace_row K U db w") (simp_all add: workspaces_map_def fold_memberships listed_def)
qed

lemma listed_members:
  assumes "workspaces_ok K U db"
  shows "map_of (members_in K (scan_checked ws_session_prefix db) w) = stored_members K U db w"
    and "distinct (map fst (members_in K (scan_checked ws_session_prefix db) w))"
proof -
  have bt: "bt_ok db" using assms by (simp add: workspaces_ok_def)
  note rows = scan_checked_rows [OF bt]
  have entry: "\<exists>s. k_dec_membership K (snd e) = Some s \<and> fst e = ws_session_key U (ws_workspace_id s) (ws_session_id s)"
    if e: "e \<in> set (scan_checked ws_session_prefix db)" for e
    using rows(3) [OF e] assms unfolding workspaces_ok_def by blast
  note M = members_in_rows [OF entry rows(1), where w = w]
  show "map_of (members_in K (scan_checked ws_session_prefix db) w) = stored_members K U db w"
    using M by (auto simp: fun_eq_iff stored_members_def rows(2))
  show "distinct (map fst (members_in K (scan_checked ws_session_prefix db) w))" using M by blast
qed

lemma workspace_row_id:
  assumes "workspaces_ok K U db" and "workspace_row K U db w = Some r"
  shows "sw_id r = w"
proof -
  obtain v where v: "map_of db (workspace_key U w) = Some v" "k_dec_workspace K v = Some r"
    using assms(2) by (cases "map_of db (workspace_key U w)") (auto simp: workspace_row_def)
  then obtain r' where "k_dec_workspace K v = Some r'" "workspace_key U w = workspace_key U (sw_id r')"
    using assms(1) unfolding workspaces_ok_def by (metis workspace_prefix_keys(1))
  then show ?thesis using v(2) injD [OF workspace_keys_inj] by auto
qed

lemma finite_listed: "workspaces_ok K U db \<Longrightarrow> finite (dom (workspace_row K U db))"
proof -
  have "dom (workspace_row K U db) \<subseteq> workspace_key U -` dom (map_of db)"
    by (auto simp: workspace_row_def dom_def bind_eq_Some_conv)
  moreover have "finite (workspace_key U -` dom (map_of db))"
    by (rule finite_vimageI [OF finite_dom_map_of workspace_keys_inj])
  ultimately show ?thesis by (rule finite_subset)
qed

section \<open>Writing\<close>

lemma workspaces_ok_put:
  fixes db :: "'v db"
  assumes "workspaces_ok K U db"
    and "starts_with workspace_prefix k \<Longrightarrow> \<exists>w. k_dec_workspace K v = Some w \<and> k = workspace_key U (sw_id w)"
    and "starts_with ws_session_prefix k \<Longrightarrow>
      \<exists>s. k_dec_membership K v = Some s \<and> k = ws_session_key U (ws_workspace_id s) (ws_session_id s)"
  shows "workspaces_ok K U (db_write [Put k v] db)"
proof -
  have bt: "bt_ok db" using assms(1) by (simp add: workspaces_ok_def)
  have get: "map_of (db_write [Put k v] db) = (map_of db)(k \<mapsto> v)" by (simp add: map_of_db_write [OF bt])
  have "bt_ok (db_write [Put k v] db)" using bt by simp
  then show ?thesis using assms unfolding workspaces_ok_def get by (auto split: if_splits)
qed

lemma workspaces_ok_less:
  fixes db :: "'v db"
  assumes "workspaces_ok K U db" and "bt_ok db'" and "map_of db' \<subseteq>\<^sub>m map_of db"
  shows "workspaces_ok K U db'"
  using assms unfolding workspaces_ok_def map_le_def by (metis domI)

lemma stored_view_eqI:
  fixes db db' :: "'v db"
  assumes "workspace_row K U db' w = workspace_row K U db w" and "stored_members K U db' w = stored_members K U db w"
  shows "stored_view K U db' w = stored_view K U db w"
  by (simp add: stored_view_def assms)

lemma save_workspace_view:
  fixes db :: "'v db" and w name description ids now
  assumes ok: "workspaces_ok K U db"
  defines "db' \<equiv> save_workspace_metadata K U w name description ids now db"
  shows "workspaces_ok K U db'"
    and "stored_view K U db' = (stored_view K U db)(w \<mapsto> (name, description, stored_members K U db w))"
    and "stored_members K U db' v = stored_members K U db v"
proof -
  have bt: "bt_ok db" using ok by (simp add: workspaces_ok_def)
  show "workspaces_ok K U db'"
    unfolding db'_def save_workspace_metadata_def by (rule workspaces_ok_put [OF ok]) auto
  let ?row = "\<lparr>sw_id = w, sw_name = name, sw_description = description, sw_sessions = map (\<lambda>i. (i, Primary)) ids, sw_created_at = now\<rparr>"
  have get: "map_of db' = (map_of db)(workspace_key U w \<mapsto> k_workspace K ?row)"
    by (simp add: db'_def save_workspace_metadata_def map_of_db_write [OF bt])
  show members: "stored_members K U db' v = stored_members K U db v" for v
    by (simp add: stored_members_def get fun_eq_iff)
  have "workspace_row K U db' v = (if v = w then Some ?row else workspace_row K U db v)" for v
    using injD [OF workspace_keys_inj, of v w] by (auto simp: workspace_row_def get)
  then show "stored_view K U db' = (stored_view K U db)(w \<mapsto> (name, description, stored_members K U db w))"
    by (simp add: stored_view_def members fun_eq_iff)
qed

lemma add_session_view:
  fixes db :: "'v db" and w i role now
  assumes ok: "workspaces_ok K U db"
  defines "db' \<equiv> store_add_session K U w i role now db"
  shows "workspaces_ok K U db'"
    and "stored_members K U db' w = (stored_members K U db w)(i \<mapsto> role)"
    and "v \<noteq> w \<Longrightarrow> stored_members K U db' v = stored_members K U db v"
    and "workspace_row K U db' v = workspace_row K U db v"
proof -
  have bt: "bt_ok db" using ok by (simp add: workspaces_ok_def)
  show "workspaces_ok K U db'" unfolding db'_def store_add_session_def by (rule workspaces_ok_put [OF ok]) auto
  have get: "map_of db' = (map_of db)(ws_session_key U w i \<mapsto>
      k_membership K \<lparr>ws_workspace_id = w, ws_session_id = i, ws_role = role, ws_added_at = now\<rparr>)"
    by (simp add: db'_def store_add_session_def map_of_db_write [OF bt])
  show "stored_members K U db' w = (stored_members K U db w)(i \<mapsto> role)"
    by (simp add: stored_members_def get fun_eq_iff ws_session_keys)
  show "v \<noteq> w \<Longrightarrow> stored_members K U db' v = stored_members K U db v"
    by (simp add: stored_members_def get fun_eq_iff ws_session_keys)
  show "workspace_row K U db' v = workspace_row K U db v" by (simp add: workspace_row_def get)
qed

lemma remove_session_view:
  fixes db :: "'v db" and w i
  assumes ok: "workspaces_ok K U db"
  defines "db' \<equiv> store_remove_session U w i db"
  shows "workspaces_ok K U db'"
    and "stored_members K U db' w = (stored_members K U db w)(i := None)"
    and "v \<noteq> w \<Longrightarrow> stored_members K U db' v = stored_members K U db v"
    and "workspace_row K U db' v = workspace_row K U db v"
proof -
  have bt: "bt_ok db" using ok by (simp add: workspaces_ok_def)
  have get: "map_of db' = (map_of db)(ws_session_key U w i := None)"
    by (simp add: db'_def store_remove_session_def map_of_db_write [OF bt])
  have "bt_ok db'" using bt by (simp add: db'_def store_remove_session_def)
  then show "workspaces_ok K U db'" by (rule workspaces_ok_less [OF ok]) (simp add: get map_le_def)
  show "stored_members K U db' w = (stored_members K U db w)(i := None)"
    by (simp add: stored_members_def get fun_eq_iff ws_session_keys)
  show "v \<noteq> w \<Longrightarrow> stored_members K U db' v = stored_members K U db v"
    by (simp add: stored_members_def get fun_eq_iff ws_session_keys)
  show "workspace_row K U db' v = workspace_row K U db v" by (simp add: workspace_row_def get)
qed

lemma delete_workspace_get:
  fixes db :: "'v db" and w
  assumes bt: "bt_ok db"
  defines "db' \<equiv> delete_stored_workspace U w db"
  shows "bt_ok db'"
    and "map_of db' k = (if k = workspace_key U w \<or> starts_with (ws_session_prefix @ U w @ '':'') k \<or>
      k = card_head_key U (Workspace_Scope w) \<or> starts_with (card_prefix U (Workspace_Scope w)) k then None else map_of db k)"
proof -
  let ?db = "db_write [Delete (workspace_key U w)] db"
  have bt1: "bt_ok ?db" using bt by simp
  have get1: "map_of ?db = (map_of db)(workspace_key U w := None)" by (simp add: map_of_db_write [OF bt])
  define ws where "ws = map fst (scan_checked (ws_session_prefix @ U w @ '':'') ?db)"
  define cs where "cs = keys_with_prefix (card_prefix U (Workspace_Scope w)) ?db"
  have db': "db' = db_write (map Delete ws @ Delete (card_head_key U (Workspace_Scope w)) # map Delete cs) ?db"
    by (simp add: db'_def delete_stored_workspace_def Let_def ws_def cs_def delete_card_in_def)
  show "bt_ok db'" unfolding db' using bt1 by simp
  have ws: "k \<in> set ws \<longleftrightarrow> starts_with (ws_session_prefix @ U w @ '':'') k \<and> map_of ?db k \<noteq> None"
    unfolding ws_def scan_checked_eq [OF bt1] by (auto simp: bt_entry [OF bt1] image_iff)
  have cs: "k \<in> set cs \<longleftrightarrow> starts_with (card_prefix U (Workspace_Scope w)) k \<and> map_of ?db k \<noteq> None"
    unfolding cs_def set_keys_with_prefix [OF bt1] by auto
  have "map_of db' k = (if k = card_head_key U (Workspace_Scope w) \<or> k \<in> set ws \<or> k \<in> set cs then None else map_of ?db k)"
    unfolding db' map_of_db_write [OF bt1] by (simp add: ops_effect_delete_list)
  then show "map_of db' k = (if k = workspace_key U w \<or> starts_with (ws_session_prefix @ U w @ '':'') k \<or>
      k = card_head_key U (Workspace_Scope w) \<or> starts_with (card_prefix U (Workspace_Scope w)) k then None else map_of db k)"
    unfolding ws cs by (auto simp: get1)
qed

lemma delete_workspace_view:
  fixes db :: "'v db" and w
  assumes ok: "workspaces_ok K U db"
  defines "db' \<equiv> delete_stored_workspace U w db"
  shows "workspaces_ok K U db'"
    and "stored_view K U db' = (stored_view K U db)(w := None)"
    and "stored_members K U db' w = Map.empty"
proof -
  have bt: "bt_ok db" using ok by (simp add: workspaces_ok_def)
  note get = delete_workspace_get [OF bt, of w, folded db'_def]
  show "workspaces_ok K U db'" by (rule workspaces_ok_less [OF ok get(1)]) (simp add: map_le_def get(2) dom_def)
  have row: "workspace_row K U db' v = (if v = w then None else workspace_row K U db v)" for v
    using injD [OF workspace_keys_inj, of v w] unfolding workspace_row_def get(2) by auto
  have members: "stored_members K U db' v = (if v = w then Map.empty else stored_members K U db v)" for v
    unfolding stored_members_def get(2) by (auto simp: fun_eq_iff)
  show "stored_members K U db' w = Map.empty" by (simp add: members)
  show "stored_view K U db' = (stored_view K U db)(w := None)"
    by (simp add: stored_view_def row members fun_eq_iff)
qed

end

end
