(* ===== verification/Workspace_Service_Props.thy ===== *)
theory Workspace_Service_Props
  imports Workspace_Service Workspace_Store_Props
begin

text \<open>
  A restart shows what is stored. The changes that reach both the manager and the store keep the
  two in step, so a restart changes nothing; membership changes over gRPC and MCP and deletions
  over gRPC are gone after it.
\<close>

section \<open>Restart\<close>

lemma fold_add_session:
  "w_session_ids (fold (\<lambda>(j, role). add_session j role) ss x) = w_session_ids x ++ map_of (rev ss)"
  "w_name (fold (\<lambda>(j, role). add_session j role) ss x) = w_name x"
  "w_description (fold (\<lambda>(j, role). add_session j role) ss x) = w_description x"
  "w_id (fold (\<lambda>(j, role). add_session j role) ss x) = w_id x"
proof (induction ss arbitrary: x)
  case (Cons e ss)
  case 1 show ?case using Cons(1) by (cases e) (auto simp: add_session_def map_add_def fun_eq_iff split: option.split)
  case 2 show ?case using Cons(2) by (cases e) (simp add: add_session_def)
  case 3 show ?case using Cons(3) by (cases e) (simp add: add_session_def)
  case 4 show ?case using Cons(4) by (cases e) (simp add: add_session_def)
qed simp_all

lemma put_workspace_view:
  "manager_view (put_workspace x M) = (manager_view M)(w_id x \<mapsto> (w_name x, w_description x, w_session_ids x))"
  by (simp add: manager_view_def put_workspace_def fun_eq_iff)

lemma restore_workspace_view:
  "manager_view (restore_workspace w name description ss now M) =
    (manager_view M)(w \<mapsto> (name, description, map_of (rev ss)))"
  by (simp add: restore_workspace_def put_workspace_view fold_add_session new_workspace_def)

lemma create_workspace_view:
  "manager_view (create_workspace w now name description M) = (manager_view M)(w \<mapsto> (name, description, Map.empty))"
  by (simp add: create_workspace_def put_workspace_view new_workspace_def)

lemma map_of_rev_distinct: "distinct (map fst xs) \<Longrightarrow> map_of (rev xs) = map_of xs"
  by (subst map_of_inject_set) (simp_all add: rev_map [symmetric])

lemma forget_view: "manager_view (fst (forget_workspace w M)) = (manager_view M)(w := None)"
  by (auto simp: manager_view_def forget_workspace_def fun_eq_iff split: option.split)

lemma manager_add_view:
  "manager_view (fst (manager_add_session w i role M)) =
    (manager_view M)(w := map_option (\<lambda>(n, d, ms). (n, d, ms(i \<mapsto> role))) (manager_view M w))"
  by (cases "wm_workspaces M w") (auto simp: manager_view_def manager_add_session_def get_workspace_def add_session_def fun_eq_iff)

lemma fold_restore:
  assumes "\<And>w r. m w = Some r \<Longrightarrow> sw_id r = w \<and> distinct (map fst (sw_sessions r))"
  shows "manager_view (fold (\<lambda>s. restore_workspace (sw_id s) (sw_name s) (sw_description s) (sw_sessions s) now)
      (List.map_filter m ids) M) w =
    (if w \<in> set ids \<and> m w \<noteq> None
     then map_option (\<lambda>r. (sw_name r, sw_description r, map_of (sw_sessions r))) (m w) else manager_view M w)"
proof (induction ids arbitrary: M)
  case (Cons i ids)
  show ?case
  proof (cases "m i")
    case None
    then show ?thesis using Cons by auto
  next
    case (Some r)
    have "sw_id r = i" "map_of (rev (sw_sessions r)) = map_of (sw_sessions r)"
      using assms [OF Some] by (simp_all add: map_of_rev_distinct)
    then show ?thesis using Cons Some by (auto simp: restore_workspace_view)
  qed
qed simp

context storage
begin

lemma hydrate_view:
  assumes ok: "workspaces_ok K U db" and "lists_keys order"
  shows "manager_view (hydrate K order now db) = stored_view K U db"
proof
  fix w
  have m: "workspaces_map K db = listed db" using workspaces_map_eq [OF ok] by (simp add: fun_eq_iff)
  have dom: "dom (listed db) = dom (workspace_row K U db)" by (auto simp: listed_def)
  then have ids: "set (order (dom (listed db))) = dom (listed db)"
    using assms(2) finite_listed [OF ok] by (simp add: lists_keys_def)
  have rows: "sw_id r = w \<and> distinct (map fst (sw_sessions r))" if r: "listed db w = Some r" for w r
    using r listed_members(2) [OF ok] workspace_row_id [OF ok] by (auto simp: listed_def)
  have "w \<in> set (order (dom (listed db))) \<and> listed db w \<noteq> None \<longleftrightarrow> listed db w \<noteq> None" using ids by auto
  moreover have "manager_view new_manager w = None" by (simp add: manager_view_def new_manager_def)
  moreover have "map_option (\<lambda>r. (sw_name r, sw_description r, map_of (sw_sessions r))) (listed db w) = stored_view K U db w"
    by (cases "workspace_row K U db w") (simp_all add: listed_def stored_view_def listed_members(1) [OF ok])
  ultimately show "manager_view (hydrate K order now db) w = stored_view K U db w"
    using fold_restore [of "listed db" now "order (dom (listed db))" new_manager w, OF rows]
    by (cases "listed db w") (simp_all add: hydrate_def list_workspaces_def m Let_def)
qed

section \<open>Steps that keep the two in step\<close>

lemma in_step_create:
  assumes "in_step K U s" and "stored_members K U (nd_db s) i = Map.empty"
    and "manager_view M = (manager_view (nd_manager s))(i \<mapsto> (name, description, Map.empty))"
  shows "in_step K U \<lparr>nd_manager = M, nd_db = save_workspace_metadata K U i name description [] now (nd_db s)\<rparr>"
  using assms save_workspace_view(1,2) [of "nd_db s" i name description "[]" now] by (simp add: in_step_def)

lemma in_step_step:
  fixes s s' :: "'v node"
  assumes "kept_step K U order s s'" and ok: "in_step K U s" and ord: "lists_keys order"
  shows "in_step K U s'"
  using assms(1)
proof cases
  case (api_create i now name description)
  show ?thesis
    unfolding api_create(1) api_create_workspace_def
    by (rule in_step_create [OF ok api_create(3)]) (simp add: restore_workspace_view)
next
  case (grpc_create i now name desc)
  show ?thesis
    unfolding grpc_create(1) grpc_create_workspace_def
    by (rule in_step_create [OF ok grpc_create(3)]) (simp add: create_workspace_view)
next
  case (mcp_create i now name desc)
  show ?thesis
    unfolding mcp_create(1) mcp_create_workspace_def
    by (rule in_step_create [OF ok mcp_create(3)]) (simp add: create_workspace_view)
next
  case (api_delete w)
  then show ?thesis
    using ok delete_workspace_view(1,2) [of "nd_db s" w] by (simp add: in_step_def api_delete_workspace_def forget_view)
next
  case (mcp_delete w)
  show ?thesis
  proof (cases "wm_workspaces (nd_manager s) w")
    case None
    then have "fst (mcp_delete_workspace U w s) = s" by (simp add: mcp_delete_workspace_def forget_workspace_def)
    then show ?thesis using ok mcp_delete by simp
  next
    case (Some x)
    then have "fst (mcp_delete_workspace U w s) =
        \<lparr>nd_manager = fst (forget_workspace w (nd_manager s)), nd_db = delete_stored_workspace U w (nd_db s)\<rparr>"
      by (simp add: mcp_delete_workspace_def forget_workspace_def)
    then show ?thesis
      using ok delete_workspace_view(1,2) [of "nd_db s" w] mcp_delete by (simp add: in_step_def forget_view)
  qed
next
  case (api_attach w i role now)
  show ?thesis
  proof (cases "api_session_role role")
    case (Inl e)
    then show ?thesis using ok api_attach by (simp add: api_attach_session_def)
  next
    case (Inr r)
    have db: "workspaces_ok K U (nd_db s)" using ok by (simp add: in_step_def)
    note V = add_session_view [OF db, where w = w and i = i and role = r and now = now]
    have "stored_view K U (store_add_session K U w i r now (nd_db s)) v =
        ((stored_view K U (nd_db s))(w := map_option (\<lambda>(n, d, ms). (n, d, ms(i \<mapsto> r))) (stored_view K U (nd_db s) w))) v" for v
      by (cases "v = w"; cases "workspace_row K U (nd_db s) v") (simp_all add: stored_view_def V)
    then have "stored_view K U (store_add_session K U w i r now (nd_db s)) =
        (stored_view K U (nd_db s))(w := map_option (\<lambda>(n, d, ms). (n, d, ms(i \<mapsto> r))) (stored_view K U (nd_db s) w))"
      by blast
    then show ?thesis using ok V(1) by (simp add: api_attach api_attach_session_def Inr in_step_def manager_add_view)
  qed
next
  case (restart now)
  then show ?thesis using ok hydrate_view [OF _ ord] by (simp add: in_step_def)
qed

lemma kept_in_step:
  assumes "kept_reach K U order s" and "lists_keys order"
  shows "in_step K U s"
  using assms(1)
proof induction
  case (start db now)
  then show ?case using hydrate_view [OF start assms(2)] by (simp add: in_step_def)
next
  case (step s s')
  then show ?case using in_step_step assms(2) by blast
qed

end

section \<open>Claims\<close>

text \<open>
  C25: a restart shows exactly the stored workspaces with their names, descriptions, members and
  roles; and as long as workspaces change only by steps that reach both the manager and the store,
  what the manager shows is what is stored, so a restart changes nothing.
\<close>

theorem restart_shows_store:
  assumes "storage U parse_uuid K" and "lists_keys order" and "workspaces_ok K U db"
    and "kept_reach K U order s"
  shows "manager_view (hydrate K order now db) = stored_view K U db \<and>
    manager_view (nd_manager s) = stored_view K U (nd_db s) \<and>
    manager_view (hydrate K order now (nd_db s)) = manager_view (nd_manager s)"
proof -
  have s: "in_step K U s" by (rule storage.kept_in_step [OF assms(1,4,2)])
  then show ?thesis
    using storage.hydrate_view [OF assms(1) _ assms(2)] assms(3) by (simp add: in_step_def)
qed

lemma workspaces_ok_empty: "workspaces_ok K U []"
  by (simp add: workspaces_ok_def bt_ok_def)

lemma lists_keys_sorted: "lists_keys sorted_list_of_set"
  by (simp add: lists_keys_def)

definition demo_node :: "stored node" where
  "demo_node = api_create_workspace stored_codec hyphenated 7 100 ''shop'' (Some ''services'')
     \<lparr>nd_manager = hydrate stored_codec sorted_list_of_set 0 [], nd_db = []\<rparr>"

lemma demo_node_reach: "kept_reach stored_codec hyphenated sorted_list_of_set demo_node"
proof -
  have "kept_step stored_codec hyphenated sorted_list_of_set
      \<lparr>nd_manager = hydrate stored_codec sorted_list_of_set 0 [], nd_db = []\<rparr> demo_node"
    unfolding demo_node_def
    by (rule kept_step.api_create) (simp_all add: stored_view_def stored_members_def workspace_row_def fun_eq_iff)
  then show ?thesis by (rule kept_reach.step [OF kept_reach.start [OF workspaces_ok_empty]])
qed

lemma restart_shows_store_witness:
  "manager_view (hydrate stored_codec sorted_list_of_set 0 []) = stored_view stored_codec hyphenated [] \<and>
    manager_view (nd_manager demo_node) = stored_view stored_codec hyphenated (nd_db demo_node) \<and>
    manager_view (hydrate stored_codec sorted_list_of_set 0 (nd_db demo_node)) = manager_view (nd_manager demo_node)"
  by (rule restart_shows_store [OF st.storage_axioms lists_keys_sorted workspaces_ok_empty demo_node_reach])

section \<open>What a restart loses\<close>

context storage
begin

lemma metadata_keeps_view:
  fixes s :: "'v node"
  assumes "in_step K U s" and "wm_workspaces (nd_manager s) w = Some x" and "lists_keys order"
  shows "manager_view (hydrate K order now' (save_workspace_metadata K U w (w_name x) (w_description x) ids now (nd_db s))) =
    manager_view (nd_manager s)"
proof -
  have ok: "workspaces_ok K U (nd_db s)" and view: "manager_view (nd_manager s) = stored_view K U (nd_db s)"
    using assms(1) by (simp_all add: in_step_def)
  note S = save_workspace_view [OF ok, where w = w and name = "w_name x" and description = "w_description x" and
      ids = ids and now = now]
  have row: "stored_view K U (nd_db s) w = Some (w_name x, w_description x, w_session_ids x)"
    unfolding view [symmetric] by (simp add: manager_view_def assms(2))
  then have "stored_members K U (nd_db s) w = w_session_ids x" by (auto simp: stored_view_def)
  then have "stored_view K U (save_workspace_metadata K U w (w_name x) (w_description x) ids now (nd_db s)) =
      stored_view K U (nd_db s)"
    unfolding S(2) using row by (simp add: fun_upd_idem)
  then show ?thesis by (simp add: hydrate_view [OF S(1) assms(3)] view)
qed

end

text \<open>
  A restart undoes what gRPC and MCP change on the members of a workspace and what gRPC
  deletes. Adding a session answers success and the manager shows the member, but only the row of
  the workspace is written, whose list of sessions the store does not read; a deletion over gRPC
  does not reach the store.
\<close>

theorem membership_lost_on_restart:
  assumes "storage U parse_uuid K" and "lists_keys order" and "kept_reach K U order s"
    and "wm_workspaces (nd_manager s) w = Some x"
  shows "(let (s', r) = grpc_add_session K U order now w i role s in r = Ok () \<and>
      manager_view (nd_manager s') w = Some (w_name x, w_description x, (w_session_ids x)(i \<mapsto> parse_session_role role)) \<and>
      manager_view (hydrate K order now' (nd_db s')) = manager_view (nd_manager s)) \<and>
    (let (s', r) = mcp_add_session K U order now w i role s in r = Ok () \<and>
      manager_view (nd_manager s') w = Some (w_name x, w_description x, (w_session_ids x)(i \<mapsto> mcp_session_role role)) \<and>
      manager_view (hydrate K order now' (nd_db s')) = manager_view (nd_manager s)) \<and>
    (let (s', deleted) = grpc_delete_workspace w s in deleted \<and> manager_view (nd_manager s') w = None \<and>
      manager_view (hydrate K order now' (nd_db s')) = manager_view (nd_manager s))"
proof -
  have s: "in_step K U s" by (rule storage.kept_in_step [OF assms(1,3,2)])
  note lost = storage.metadata_keeps_view [OF assms(1) s assms(4,2)]
  have del: "manager_view (hydrate K order now' (nd_db s)) = manager_view (nd_manager s)"
    using storage.hydrate_view [OF assms(1) _ assms(2)] s by (simp add: in_step_def)
  note D = manager_add_session_def get_workspace_def manager_view_def add_session_def assms(4) Let_def
  have 1: "grpc_add_session K U order now w i role s =
      (\<lparr>nd_manager = fst (manager_add_session w i (parse_session_role role) (nd_manager s)),
        nd_db = save_workspace_metadata K U w (w_name x) (w_description x)
          (order (dom ((w_session_ids x)(i \<mapsto> parse_session_role role)))) now (nd_db s)\<rparr>, Ok ())"
    by (simp add: grpc_add_session_def grpc_persist_def D)
  have 2: "mcp_add_session K U order now w i role s =
      (\<lparr>nd_manager = fst (manager_add_session w i (mcp_session_role role) (nd_manager s)),
        nd_db = save_workspace_metadata K U w (w_name x) (w_description x)
          (map fst (get_all_sessions order (add_session i (mcp_session_role role) x))) now (nd_db s)\<rparr>, Ok ())"
    by (simp add: mcp_add_session_def persist_workspace_after_mutation_def D)
  have 3: "manager_view (fst (manager_add_session w i r (nd_manager s))) w =
      Some (w_name x, w_description x, (w_session_ids x)(i \<mapsto> r))" for r
    by (simp add: D)
  have 4: "grpc_delete_workspace w s = (s\<lparr>nd_manager := fst (forget_workspace w (nd_manager s))\<rparr>, True)"
    by (simp add: grpc_delete_workspace_def forget_workspace_def assms(4))
  show ?thesis by (simp add: 1 2 3 4 lost del forget_view)
qed

lemma demo_node_workspace: "wm_workspaces (nd_manager demo_node) 7 =
    Some (new_workspace 7 ''shop'' ''services'' 100)"
  by (simp add: demo_node_def api_create_workspace_def restore_workspace_def put_workspace_def new_workspace_def)

lemma membership_lost_on_restart_witness:
  "(let (s', r) = grpc_add_session stored_codec hyphenated sorted_list_of_set 200 7 5 ''primary'' demo_node in r = Ok () \<and>
      manager_view (nd_manager s') 7 = Some (''shop'', ''services'', [5 \<mapsto> Primary]) \<and>
      manager_view (hydrate stored_codec sorted_list_of_set 300 (nd_db s')) = manager_view (nd_manager demo_node)) \<and>
    manager_view (nd_manager demo_node) 7 = Some (''shop'', ''services'', Map.empty)"
proof -
  have role: "parse_session_role ''primary'' = Primary" by code_simp
  show ?thesis
    using membership_lost_on_restart [OF st.storage_axioms lists_keys_sorted demo_node_reach demo_node_workspace,
        of 200 5 "''primary''" 300]
    by (simp add: role new_workspace_def manager_view_def demo_node_workspace)
qed

section \<open>The index by name\<close>

text \<open>
  Names need not be unique: a second workspace takes the name over in the index, and deleting the
  first removes the entry although the second still has the name.
\<close>

lemma deleted_name_hides_workspace:
  "let M = create_workspace 2 0 ''shop'' [] (create_workspace 1 0 ''shop'' [] new_manager);
       M' = fst (forget_workspace 1 M)
   in map_option w_id (get_workspace_by_name ''shop'' M) = Some 2 \<and>
     map_option w_name (get_workspace 2 M') = Some ''shop'' \<and> get_workspace_by_name ''shop'' M' = None"
  by (simp add: Let_def create_workspace_def put_workspace_def new_workspace_def new_manager_def forget_workspace_def
    get_workspace_by_name_def get_workspace_def)

text \<open>A deletion over the other REST interface leaves the workspace in memory.\<close>

lemma rest_delete_keeps_manager: "nd_manager (rest_delete_workspace U w s) = nd_manager s"
  by (simp add: rest_delete_workspace_def)

end
