(* ===== verification/Freshness_Store.thy ===== *)
theory Freshness_Store
  imports Kv_Store Bfs
begin

text \<open>
  Which records still match their source files:
  \<open>post-cortex-storage/src/rocksdb_storage/freshness.rs\<close>. A reference per record, an index of the
  references by file, and edges between symbols that are walked backwards when a symbol changed.
  The messages are those of \<open>post-cortex-proto/proto/pcx.proto\<close>. Strings are taken as their UTF-8
  bytes here: keys are built by concatenation and cut again at ASCII separators, so reading the
  rest of such a key as text gives the same bytes.
\<close>

section \<open>Messages\<close>

record function_scope =
  fsc_name :: bytes
  fsc_ast_hash :: bytes
  fsc_symbol_type :: bytes
  fsc_imports :: "bytes list"

record block_scope =
  bsc_start_line :: nat
  bsc_end_line :: nat
  bsc_content_hash :: bytes

datatype source_scope = Whole_File bool | Function function_scope | Block block_scope

text \<open>A scope message whose inner choice is absent counts as no scope.\<close>

record source_reference =
  sref_file_path :: bytes
  sref_content_hash :: bytes
  sref_captured_at :: int
  sref_entry_id :: bytes
  sref_scope :: "source_scope option option"

datatype freshness_status = Fresh | Stale | Source_Missing | Unknown

record freshness_entry =
  fe_entry_id :: bytes
  fe_file_path :: bytes
  fe_status :: freshness_status
  fe_stored_hash :: bytes
  fe_current_hash :: bytes

record symbol_id =
  sym_file_path :: bytes
  sym_symbol_name :: bytes
  sym_symbol_type :: bytes

record cascade_report =
  cr_direct_invalidations :: u32
  cr_cascade_invalidations :: u32
  cr_invalidated_symbols :: "bytes list"

text \<open>Stored values: protobuf references and plain bytes.\<close>

record 'v ref_codec =
  rc_raw :: "bytes \<Rightarrow> 'v"
  rc_ref :: "source_reference \<Rightarrow> 'v"
  rc_dec :: "'v \<Rightarrow> source_reference option"

section \<open>Keys\<close>

definition source_ref_prefix :: bytes where "source_ref_prefix = ''source_ref:''"
definition source_index_marker :: bytes where "source_index_marker = ''index_version:source_by_file''"

definition source_ref_key :: "bytes \<Rightarrow> bytes" where
  "source_ref_key entry = ''source_ref:'' @ entry"

definition file_index_prefix :: "bytes \<Rightarrow> bytes" where
  "file_index_prefix file = ''source_by_file:'' @ file @ ''|''"

definition file_index_key :: "bytes \<Rightarrow> bytes \<Rightarrow> bytes" where
  "file_index_key file entry = ''source_by_file:'' @ file @ ''|'' @ entry"

definition symbol_dep_key :: "bytes \<Rightarrow> bytes \<Rightarrow> bytes" where
  "symbol_dep_key a b = ''symbol_dep:'' @ a @ ''|'' @ b"

definition symbol_rdep_key :: "bytes \<Rightarrow> bytes \<Rightarrow> bytes" where
  "symbol_rdep_key a b = ''symbol_rdep:'' @ a @ ''|'' @ b"

section \<open>Freshness of one record\<close>

definition function_name :: "source_reference \<Rightarrow> bytes option" where
  "function_name r =
     (case sref_scope r of
        Some (Some (Function f)) \<Rightarrow> Some (fsc_name f)
      | _ \<Rightarrow> None)"

definition stored_ast :: "source_reference \<Rightarrow> bytes option" where
  "stored_ast r =
     (case sref_scope r of
        Some (Some (Function f)) \<Rightarrow> if fsc_ast_hash f = [] then None else Some (fsc_ast_hash f)
      | _ \<Rightarrow> None)"

definition freshness_of :: "bytes \<Rightarrow> source_reference option \<Rightarrow> bytes \<Rightarrow> bytes option \<Rightarrow> freshness_entry" where
  "freshness_of entry reference file_hash ast_hash =
     (case reference of
        None \<Rightarrow> \<lparr>fe_entry_id = entry, fe_file_path = [], fe_status = Unknown, fe_stored_hash = [],
                  fe_current_hash = file_hash\<rparr>
      | Some r \<Rightarrow>
          let is_fresh = (case (ast_hash, stored_ast r) of
                (Some client, Some stored) \<Rightarrow> stored = client
              | _ \<Rightarrow> sref_content_hash r = file_hash)
          in \<lparr>fe_entry_id = entry, fe_file_path = sref_file_path r, fe_status = (if is_fresh then Fresh else Stale),
              fe_stored_hash = sref_content_hash r, fe_current_hash = file_hash\<rparr>)"

section \<open>References and their index\<close>

text \<open>The outer option is an undecodable row.\<close>

definition load_reference :: "'v ref_codec \<Rightarrow> bytes \<Rightarrow> 'v db \<Rightarrow> source_reference option option" where
  "load_reference R entry db =
     (case map_of db (source_ref_key entry) of
        None \<Rightarrow> Some None
      | Some v \<Rightarrow> map_option Some (rc_dec R v))"

definition references_for_file :: "'v ref_codec \<Rightarrow> bytes \<Rightarrow> 'v db \<Rightarrow> source_reference list" where
  "references_for_file R file db =
     (let p = file_index_prefix file;
          ref_keys = map (\<lambda>e. source_ref_key (drop (length p) (fst e))) (scan_prefix p db)
      in List.map_filter (\<lambda>k. case map_of db k of
            None \<Rightarrow> None
          | Some v \<Rightarrow> (case rc_dec R v of
                None \<Rightarrow> None
              | Some r \<Rightarrow> if sref_file_path r = file then Some r else None)) ref_keys)"

definition delete_reference :: "source_reference \<Rightarrow> 'v write_op list" where
  "delete_reference r =
     [Delete (source_ref_key (sref_entry_id r)), Delete (file_index_key (sref_file_path r) (sref_entry_id r))]"

definition ensure_file_index :: "'v ref_codec \<Rightarrow> 'v db \<Rightarrow> 'v db" where
  "ensure_file_index R db =
     (if map_of db source_index_marker \<noteq> None then db
      else db_write (List.map_filter (\<lambda>e. map_option
          (\<lambda>r. Put (file_index_key (sref_file_path r) (sref_entry_id r)) (rc_raw R [])) (rc_dec R (snd e)))
        (scan_prefix source_ref_prefix db) @ [Put source_index_marker (rc_raw R ''1'')]) db)"

text \<open>\<open>None\<close> when the reference registered before does not decode.\<close>

definition register_source :: "'v ref_codec \<Rightarrow> source_reference \<Rightarrow> 'v db \<Rightarrow> 'v db option" where
  "register_source R r db =
     (case load_reference R (sref_entry_id r) db of
        None \<Rightarrow> None
      | Some old \<Rightarrow> Some (db_write
          ((case old of
              None \<Rightarrow> []
            | Some prev \<Rightarrow> if sref_file_path prev \<noteq> sref_file_path r
                then [Delete (file_index_key (sref_file_path prev) (sref_entry_id prev))] else []) @
           [Put (source_ref_key (sref_entry_id r)) (rc_ref R r),
            Put (file_index_key (sref_file_path r) (sref_entry_id r)) (rc_raw R [])]) db))"

definition invalidate_source :: "'v ref_codec \<Rightarrow> bytes \<Rightarrow> 'v db \<Rightarrow> 'v db \<times> u32" where
  "invalidate_source R file db =
     (let references = references_for_file R file db
      in (db_write (concat (map delete_reference references)) db, of_nat (length references)))"

definition get_entries_by_source :: "'v ref_codec \<Rightarrow> bytes \<Rightarrow> 'v db \<Rightarrow> source_reference list" where
  "get_entries_by_source R file db = references_for_file R file db"

definition check_freshness_semantic ::
  "'v ref_codec \<Rightarrow> bytes \<Rightarrow> bytes \<Rightarrow> bytes option \<Rightarrow> 'v db \<Rightarrow> freshness_entry option" where
  "check_freshness_semantic R entry file_hash ast_hash db =
     map_option (\<lambda>reference. freshness_of entry reference file_hash ast_hash) (load_reference R entry db)"

definition check_freshness :: "'v ref_codec \<Rightarrow> bytes \<Rightarrow> bytes \<Rightarrow> 'v db \<Rightarrow> freshness_entry option" where
  "check_freshness R entry file_hash db = check_freshness_semantic R entry file_hash None db"

definition check_freshness_batch ::
  "'v ref_codec \<Rightarrow> (bytes \<times> bytes \<times> bytes option \<times> bytes option) list \<Rightarrow> 'v db \<Rightarrow> freshness_entry list" where
  "check_freshness_batch R entries db =
     map (\<lambda>(entry, file_hash, ast_hash, _).
       freshness_of entry (Option.bind (map_of db (source_ref_key entry)) (rc_dec R)) file_hash ast_hash) entries"

section \<open>Dependencies between symbols\<close>

definition symbol_key :: "symbol_id \<Rightarrow> bytes" where
  "symbol_key s = sym_file_path s @ ''::'' @ sym_symbol_name s"

definition dependency_ops :: "'v ref_codec \<Rightarrow> symbol_id \<Rightarrow> symbol_id \<Rightarrow> 'v write_op list" where
  "dependency_ops R from to =
     (let from_key = symbol_key from;
          to_key = (if sym_file_path to = [] then ''::'' @ sym_symbol_name to else symbol_key to)
      in [Put (symbol_dep_key from_key to_key) (rc_raw R (sym_symbol_type to)),
          Put (symbol_rdep_key to_key from_key) (rc_raw R (sym_symbol_type from))] @
         (if sym_file_path to \<noteq> []
          then [Put (symbol_rdep_key (''::'' @ sym_symbol_name to) from_key) (rc_raw R (sym_symbol_type from))]
          else []))"

definition register_symbol_dependencies ::
  "'v ref_codec \<Rightarrow> symbol_id \<Rightarrow> symbol_id list \<Rightarrow> 'v db \<Rightarrow> 'v db \<times> u32" where
  "register_symbol_dependencies R from tos db =
     (db_write (concat (map (dependency_ops R from) tos)) db, of_nat (length tos))"

text \<open>\<open>split("::").last()\<close>: what follows the last separator, found from the left.\<close>

fun after_last_colons :: "bytes \<Rightarrow> bytes \<Rightarrow> bytes" where
  "after_last_colons seg [] = seg"
| "after_last_colons seg [c] = seg @ [c]"
| "after_last_colons seg (c # d # cs) =
     (if c = CHR '':'' \<and> d = CHR '':'' then after_last_colons [] cs else after_last_colons (seg @ [c]) (d # cs))"

text \<open>The part before the first separator of \<open>split_once("::")\<close>.\<close>

fun before_colons :: "bytes \<Rightarrow> bytes option" where
  "before_colons (c # d # cs) =
     (if c = CHR '':'' \<and> d = CHR '':'' then Some [] else map_option (Cons c) (before_colons (d # cs)))"
| "before_colons _ = None"

definition edges_into :: "bytes \<Rightarrow> 'v db \<Rightarrow> bytes list" where
  "edges_into a db =
     (let p = ''symbol_rdep:'' @ a @ ''|'' in map (\<lambda>e. drop (length p) (fst e)) (scan_prefix p db))"

definition dependents_of :: "'v db \<Rightarrow> bytes \<Rightarrow> bytes list" where
  "dependents_of db s = edges_into s db @ edges_into (''::'' @ after_last_colons [] s) db"

text \<open>
  The queue loop, with one unit of fuel per dequeued symbol; every symbol but the changed one is
  the end of an edge, so one more than the number of bytes stored in keys is enough.
\<close>

fun cascade_loop ::
  "(bytes \<Rightarrow> bytes list) \<Rightarrow> nat \<Rightarrow> nat \<Rightarrow> bytes list \<Rightarrow> bytes list \<times> (bytes \<times> nat) list \<Rightarrow> bytes list option" where
  "cascade_loop nbrs max_depth fuel dependents (visited, []) = Some dependents"
| "cascade_loop nbrs max_depth 0 dependents (visited, e # q) = None"
| "cascade_loop nbrs max_depth (Suc fuel) dependents (visited, (s, depth) # q) =
     (let dependents = (if depth > 0 then dependents @ [s] else dependents)
      in if depth \<ge> max_depth then cascade_loop nbrs max_depth fuel dependents (visited, q)
         else cascade_loop nbrs max_depth fuel dependents (bfs_push depth (nbrs s) (visited, q)))"

definition cascade_fuel :: "'v db \<Rightarrow> nat" where
  "cascade_fuel db = Suc (sum_list (map (\<lambda>e. Suc (length (fst e))) db))"

datatype hit = Direct source_reference | Cascaded source_reference

definition classify :: "bytes \<Rightarrow> bytes list \<Rightarrow> source_reference \<Rightarrow> hit option" where
  "classify changed_key dependents r =
     (case function_name r of
        None \<Rightarrow> None
      | Some name \<Rightarrow>
          let ref_key = sref_file_path r @ ''::'' @ name
          in if ref_key = changed_key then Some (Direct r)
             else if ref_key \<in> set dependents then Some (Cascaded r)
             else None)"

primrec hit_reference :: "hit \<Rightarrow> source_reference" where
  "hit_reference (Direct r) = r"
| "hit_reference (Cascaded r) = r"

primrec is_direct :: "hit \<Rightarrow> bool" where
  "is_direct (Direct r) \<longleftrightarrow> True"
| "is_direct (Cascaded r) \<longleftrightarrow> False"

definition cascade_invalidate ::
  "'v ref_codec \<Rightarrow> symbol_id \<Rightarrow> nat \<Rightarrow> 'v db \<Rightarrow> ('v db \<times> cascade_report) option" where
  "cascade_invalidate R changed max_depth db =
     (let changed_key = symbol_key changed in
      case cascade_loop (dependents_of db) max_depth (cascade_fuel db) [] ([changed_key], [(changed_key, 0)]) of
        None \<Rightarrow> None
      | Some dependents \<Rightarrow>
          let files = sorted_list_of_set (insert (sym_file_path changed)
                (set (List.map_filter before_colons dependents)));
              hits = List.map_filter (classify changed_key dependents)
                (concat (map (\<lambda>file. references_for_file R file db) files))
          in Some (db_write (concat (map (\<lambda>h. delete_reference (hit_reference h)) hits)) db,
               \<lparr>cr_direct_invalidations = of_nat (length (filter is_direct hits)),
                cr_cascade_invalidations = of_nat (length (filter (\<lambda>h. \<not> is_direct h) hits)),
                cr_invalidated_symbols = dependents\<rparr>))"

end
