(* ===== verification/Freshness_Store_Inv.thy ===== *)
theory Freshness_Store_Inv
  imports Freshness_Store
begin

text \<open>
  The index of the references by file: what it says, and that every operation keeps it. \<open>refs\<close> is
  the abstract state, the references by record. Ids of records hold no \<open>|\<close> (they are UUIDs in
  text), so a key of the index names one path and one record although a path may hold a \<open>|\<close>.
\<close>

definition refs :: "'v ref_codec \<Rightarrow> 'v db \<Rightarrow> bytes \<Rightarrow> source_reference option" where
  "refs R db e = Option.bind (map_of db (source_ref_key e)) (rc_dec R)"

definition plain_entry :: "bytes \<Rightarrow> bool" where
  "plain_entry e \<longleftrightarrow> CHR ''|'' \<notin> set e"

definition rows_decode :: "'v ref_codec \<Rightarrow> 'v db \<Rightarrow> bool" where
  "rows_decode R db \<longleftrightarrow> (\<forall>e v. map_of db (source_ref_key e) = Some v \<longrightarrow>
     (\<exists>r. rc_dec R v = Some r \<and> sref_entry_id r = e \<and> plain_entry e))"

definition index_ok :: "'v ref_codec \<Rightarrow> 'v db \<Rightarrow> bool" where
  "index_ok R db \<longleftrightarrow>
     (\<forall>f e. plain_entry e \<longrightarrow>
        (map_of db (file_index_key f e) \<noteq> None \<longleftrightarrow> (\<exists>r. refs R db e = Some r \<and> sref_file_path r = f)))"

definition fresh_ok :: "'v ref_codec \<Rightarrow> 'v db \<Rightarrow> bool" where
  "fresh_ok R db \<longleftrightarrow> bt_ok db \<and> rows_decode R db \<and> index_ok R db"

locale reference_codec =
  fixes R :: "'v ref_codec"
  assumes dec_ref [simp]: "rc_dec R (rc_ref R r) = Some r"

section \<open>Keys\<close>

lemma append_sep_eq: "c \<notin> set xs \<Longrightarrow> c \<notin> set xs' \<Longrightarrow> xs @ c # ys = xs' @ c # ys' \<longleftrightarrow> xs = xs' \<and> ys = ys'"
proof (induction xs arbitrary: xs')
  case Nil
  then show ?case by (cases xs') auto
next
  case (Cons x xs)
  then show ?case by (cases xs') auto
qed

lemma file_index_key_eq:
  assumes "plain_entry e" and "plain_entry e'"
  shows "file_index_key f e = file_index_key f' e' \<longleftrightarrow> f = f' \<and> e = e'"
proof -
  have "rev e @ CHR ''|'' # rev f = rev e' @ CHR ''|'' # rev f' \<longleftrightarrow> rev e = rev e' \<and> rev f = rev f'"
    using assms by (intro append_sep_eq) (simp_all add: plain_entry_def)
  moreover have "f @ CHR ''|'' # e = f' @ CHR ''|'' # e' \<longleftrightarrow> rev e @ CHR ''|'' # rev f = rev e' @ CHR ''|'' # rev f'"
    by (subst rev_is_rev_conv [symmetric]) simp
  ultimately show ?thesis by (auto simp: file_index_key_def)
qed

lemma fresh_keys [simp]:
  "source_ref_key e = source_ref_key e' \<longleftrightarrow> e = e'"
  "source_ref_key e \<noteq> file_index_key f e'" "file_index_key f e' \<noteq> source_ref_key e"
  "source_ref_key e \<noteq> source_index_marker" "file_index_key f e \<noteq> source_index_marker"
  "source_index_marker \<noteq> source_ref_key e" "source_index_marker \<noteq> file_index_key f e"
  "symbol_dep_key a b \<noteq> source_ref_key e" "symbol_rdep_key a b \<noteq> source_ref_key e"
  "symbol_dep_key a b \<noteq> file_index_key f e" "symbol_rdep_key a b \<noteq> file_index_key f e"
  "symbol_dep_key a b \<noteq> symbol_rdep_key a' b'" "symbol_rdep_key a' b' \<noteq> symbol_dep_key a b"
  "source_ref_key e \<noteq> symbol_dep_key a b" "source_ref_key e \<noteq> symbol_rdep_key a b"
  "file_index_key f e \<noteq> symbol_dep_key a b" "file_index_key f e \<noteq> symbol_rdep_key a b"
  by (simp_all add: source_ref_key_def file_index_key_def source_index_marker_def symbol_dep_key_def symbol_rdep_key_def)

lemma refs_row:
  assumes "rows_decode R db" and "refs R db e = Some r"
  shows "sref_entry_id r = e" "plain_entry e" "map_of db (source_ref_key e) \<noteq> None"
proof -
  obtain v where v: "map_of db (source_ref_key e) = Some v" "rc_dec R v = Some r"
    using assms(2) by (auto simp: refs_def bind_eq_Some_conv)
  obtain r' where "rc_dec R v = Some r'" "sref_entry_id r' = e" "plain_entry e"
    using assms(1) v(1) unfolding rows_decode_def by blast
  then show "sref_entry_id r = e" "plain_entry e" "map_of db (source_ref_key e) \<noteq> None" using v by simp_all
qed

lemma index_entry: "file_index_key f e = file_index_prefix f @ e"
  by (simp add: file_index_key_def file_index_prefix_def)

section \<open>Reading the index\<close>

lemma map_filter_mem_iff: "y \<in> set (List.map_filter f xs) \<longleftrightarrow> (\<exists>x. x \<in> set xs \<and> f x = Some y)"
  by (induction xs) (auto split: option.splits)

lemma map_filter_distinct:
  assumes "distinct xs" and "\<And>x y. x \<in> set xs \<Longrightarrow> f x = Some y \<Longrightarrow> g y = h x" and "inj_on h (set xs)"
  shows "distinct (map g (List.map_filter f xs))"
  using assms
proof (induction xs)
  case (Cons x xs)
  have IH: "distinct (map g (List.map_filter f xs))"
    by (rule Cons.IH) (use Cons.prems in \<open>auto simp: inj_on_def\<close>)
  show ?case
  proof (cases "f x")
    case (Some y)
    have "g y \<notin> g ` set (List.map_filter f xs)"
    proof
      assume "g y \<in> g ` set (List.map_filter f xs)"
      then obtain x' y' where x': "x' \<in> set xs" "f x' = Some y'" "g y = g y'"
        by (auto simp: map_filter_mem_iff)
      then have "h x = h x'" using Cons.prems(2) [of x y] Cons.prems(2) [of x' y'] Some by simp
      then show False using x'(1) Cons.prems(1,3) by (auto simp: inj_on_def)
    qed
    then show ?thesis using IH Some by simp
  qed (simp add: IH)
qed simp

lemma distinct_map_keys:
  assumes "distinct (map fst es)"
    and "\<And>e e'. e \<in> set es \<Longrightarrow> e' \<in> set es \<Longrightarrow> f (fst e) = f (fst e') \<Longrightarrow> fst e = fst e'"
  shows "distinct (map (\<lambda>e. f (fst e)) es)"
  using assms
proof (induction es)
  case (Cons e es)
  have "f (fst e) \<notin> (\<lambda>e. f (fst e)) ` set es"
  proof
    assume "f (fst e) \<in> (\<lambda>e. f (fst e)) ` set es"
    then obtain e' where "e' \<in> set es" "f (fst e) = f (fst e')" by auto
    then have "fst e = fst e'" using Cons.prems(2) by simp
    then show False using Cons.prems(1) \<open>e' \<in> set es\<close> by auto
  qed
  then show ?case using Cons.IH Cons.prems by simp
qed simp

lemma references_spec:
  assumes "fresh_ok R db"
  shows "set (references_for_file R f db) = {r. \<exists>e. refs R db e = Some r \<and> sref_file_path r = f}"
    and "distinct (map sref_entry_id (references_for_file R f db))"
proof -
  have bt: "bt_ok db" and rows: "rows_decode R db" and ix: "index_ok R db" using assms by (simp_all add: fresh_ok_def)
  let ?p = "file_index_prefix f"
  define ks where "ks = map (\<lambda>e. source_ref_key (drop (length ?p) (fst e))) (scan_prefix ?p db)"
  define g where "g = (\<lambda>k. case map_of db k of None \<Rightarrow> None | Some v \<Rightarrow> (case rc_dec R v of None \<Rightarrow> None
      | Some r \<Rightarrow> if sref_file_path r = f then Some r else None))"
  have keys: "k \<in> set ks \<longleftrightarrow> (\<exists>x. k = source_ref_key x \<and> map_of db (?p @ x) \<noteq> None)" for k
  proof
    assume "k \<in> set ks"
    then obtain e where e: "e \<in> set (scan_prefix ?p db)" "k = source_ref_key (drop (length ?p) (fst e))"
      by (auto simp: ks_def)
    then have "map_of db (fst e) = Some (snd e)" "starts_with ?p (fst e)"
      using bt_entry [OF bt, of "fst e" "snd e"] by (simp_all add: scan_prefix_filter [OF bt])
    then show "\<exists>x. k = source_ref_key x \<and> map_of db (?p @ x) \<noteq> None" using e(2) by (auto simp: starts_with_iff)
  next
    assume "\<exists>x. k = source_ref_key x \<and> map_of db (?p @ x) \<noteq> None"
    then obtain x v where x: "k = source_ref_key x" "map_of db (?p @ x) = Some v" by auto
    then have "(?p @ x, v) \<in> set (scan_prefix ?p db)"
      by (simp add: scan_prefix_filter [OF bt] bt_entry [OF bt] starts_with_iff)
    then show "k \<in> set ks" using x(1) unfolding ks_def by (force intro: image_eqI [of _ _ "(?p @ x, v)"])
  qed
  have val: "g (source_ref_key x) = Some r \<longleftrightarrow> refs R db x = Some r \<and> sref_file_path r = f" for x r
    by (auto simp: g_def refs_def split: option.splits)
  have res: "references_for_file R f db = List.map_filter g ks"
    by (simp add: references_for_file_def Let_def g_def ks_def)
  have mem: "r \<in> set (references_for_file R f db) \<longleftrightarrow>
      (\<exists>x. map_of db (?p @ x) \<noteq> None \<and> refs R db x = Some r \<and> sref_file_path r = f)" for r
    unfolding res map_filter_mem_iff keys using val by metis
  show "set (references_for_file R f db) = {r. \<exists>e. refs R db e = Some r \<and> sref_file_path r = f}"
  proof -
    have "map_of db (?p @ e) \<noteq> None" if r: "refs R db e = Some r" "sref_file_path r = f" for e r
      using ix refs_row(2) [OF rows r(1)] r unfolding index_ok_def index_entry [symmetric] by blast
    then show ?thesis unfolding set_eq_iff mem by blast
  qed
  show "distinct (map sref_entry_id (references_for_file R f db))"
    unfolding res
  proof (rule map_filter_distinct [where h = "\<lambda>k. drop 11 k"])
    have "distinct (map fst (scan_prefix ?p db))"
      unfolding scan_prefix_filter [OF bt] by (rule bt_ok_distinct [OF bt_ok_filter [OF bt]])
    moreover have "source_ref_key (drop (length ?p) k) = source_ref_key (drop (length ?p) k') \<Longrightarrow> k = k'"
      if "starts_with ?p k" "starts_with ?p k'" for k k'
      using that by (auto simp: starts_with_iff)
    moreover have "\<forall>e \<in> set (scan_prefix ?p db). starts_with ?p (fst e)" by (simp add: scan_prefix_filter [OF bt])
    ultimately show "distinct ks"
      unfolding ks_def by (intro distinct_map_keys [where f = "\<lambda>k. source_ref_key (drop (length ?p) k)"]) blast+
    fix k r assume k: "k \<in> set ks" "g k = Some r"
    obtain x where x: "k = source_ref_key x" using k(1) keys by blast
    then have "refs R db x = Some r" using k(2) val by blast
    then show "sref_entry_id r = drop 11 k" using refs_row(1) [OF rows] x by (simp add: source_ref_key_def)
  next
    show "inj_on (drop 11) (set ks)"
    proof (rule inj_onI)
      fix k k' assume "k \<in> set ks" "k' \<in> set ks" and eq: "drop 11 k = drop 11 k'"
      then obtain x x' where "k = source_ref_key x" "k' = source_ref_key x'" using keys by blast
      then show "k = k'" using eq by (simp add: source_ref_key_def)
    qed
  qed
qed

section \<open>Deleting references\<close>

lemma ops_effect_only_deletes:
  "(\<And>x. x \<in> set ops \<Longrightarrow> \<exists>k. x = Delete k) \<Longrightarrow> ops_effect ops m k = (if k \<in> op_key ` set ops then None else m k)"
proof (induction ops arbitrary: m)
  case (Cons x ops)
  then obtain k' where "x = Delete k'" by auto
  moreover have "ops_effect ops m' k = (if k \<in> op_key ` set ops then None else m' k)" for m'
    by (rule Cons.IH) (use Cons.prems in simp)
  ultimately show ?case by simp
qed simp

lemma delete_references:
  fixes R :: "'v ref_codec" and db :: "'v db" and rs :: "source_reference list"
  assumes ok: "fresh_ok R db" and all: "\<forall>r \<in> set rs. refs R db (sref_entry_id r) = Some r"
  defines "db' \<equiv> db_write (concat (map delete_reference rs)) db"
  shows "fresh_ok R db'"
    and "refs R db' e = (case refs R db e of None \<Rightarrow> None | Some r \<Rightarrow> if r \<in> set rs then None else Some r)"
    and "(\<And>e. k \<noteq> source_ref_key e) \<Longrightarrow> (\<And>f e. k \<noteq> file_index_key f e) \<Longrightarrow> map_of db' k = map_of db k"
proof -
  have bt: "bt_ok db" and rows: "rows_decode R db" and ix: "index_ok R db" using ok by (simp_all add: fresh_ok_def)
  have rs: "refs R db (sref_entry_id r) = Some r" if "r \<in> set rs" for r using all that by blast
  let ?ops = "concat (map delete_reference rs) :: 'v write_op list"
  have get: "map_of db' k = (if k \<in> op_key ` set ?ops then None else map_of db k)" for k
    unfolding db'_def map_of_db_write [OF bt] by (rule ops_effect_only_deletes) (auto simp: delete_reference_def)
  have keys: "k \<in> op_key ` set ?ops \<longleftrightarrow>
      (\<exists>r \<in> set rs. k = source_ref_key (sref_entry_id r) \<or> k = file_index_key (sref_file_path r) (sref_entry_id r))" for k
    by (induction rs) (auto simp: delete_reference_def)
  have refs_key: "source_ref_key e \<in> op_key ` set ?ops \<longleftrightarrow> (\<exists>r \<in> set rs. refs R db e = Some r)" for e
    unfolding keys using rs refs_row(1) [OF rows] by auto
  have index_key: "file_index_key f e \<in> op_key ` set ?ops \<longleftrightarrow> (\<exists>r \<in> set rs. refs R db e = Some r \<and> sref_file_path r = f)"
    if e: "plain_entry e" for f e
  proof -
    have "file_index_key f e = file_index_key (sref_file_path r) (sref_entry_id r) \<longleftrightarrow> refs R db e = Some r \<and> sref_file_path r = f"
      if r: "r \<in> set rs" for r
    proof -
      have "refs R db e = Some r \<longleftrightarrow> e = sref_entry_id r"
        using rs [OF r] refs_row(1) [OF rows, of e r] by blast
      then show ?thesis using file_index_key_eq [OF e refs_row(2) [OF rows rs [OF r]], of f "sref_file_path r"] by metis
    qed
    then show ?thesis unfolding keys by (intro bex_cong refl) (simp only: fresh_keys simp_thms)
  qed
  show refs': "refs R db' e = (case refs R db e of None \<Rightarrow> None | Some r \<Rightarrow> if r \<in> set rs then None else Some r)" for e
  proof -
    have "refs R db' e = (if \<exists>r \<in> set rs. refs R db e = Some r then None else refs R db e)"
      unfolding refs_def [of R db'] get refs_key by (simp add: refs_def)
    then show ?thesis by (auto split: option.split)
  qed
  have "rows_decode R db'" using rows unfolding rows_decode_def get by simp
  moreover have "index_ok R db'"
    unfolding index_ok_def
  proof (intro allI impI)
    fix f e assume e: "plain_entry e"
    have "map_of db (file_index_key f e) \<noteq> None \<longleftrightarrow> (\<exists>r. refs R db e = Some r \<and> sref_file_path r = f)"
      using ix e unfolding index_ok_def by blast
    then show "map_of db' (file_index_key f e) \<noteq> None \<longleftrightarrow> (\<exists>r. refs R db' e = Some r \<and> sref_file_path r = f)"
      unfolding get refs' index_key [OF e] by (cases "refs R db e") auto
  qed
  ultimately show "fresh_ok R db'" using bt by (simp add: fresh_ok_def db'_def)
  assume "\<And>e. k \<noteq> source_ref_key e" "\<And>f e. k \<noteq> file_index_key f e"
  then have "k \<notin> op_key ` set ?ops" unfolding keys by blast
  then show "map_of db' k = map_of db k" by (simp add: get)
qed

lemma invalidate_refs:
  fixes R :: "'v ref_codec" and db :: "'v db" and f :: bytes
  assumes ok: "fresh_ok R db"
  defines "db' \<equiv> fst (invalidate_source R f db)"
  shows "fresh_ok R db'"
    and "refs R db' e = (case refs R db e of None \<Rightarrow> None | Some r \<Rightarrow> if sref_file_path r = f then None else Some r)"
    and "snd (invalidate_source R f db) = of_nat (card {r. \<exists>e. refs R db e = Some r \<and> sref_file_path r = f})"
proof -
  have rows: "rows_decode R db" using ok by (simp add: fresh_ok_def)
  note S = references_spec [OF ok, of f]
  have rs: "\<forall>r \<in> set (references_for_file R f db). refs R db (sref_entry_id r) = Some r"
    using refs_row(1) [OF rows] unfolding S(1) by auto
  note D = delete_references [OF ok rs]
  have db': "db' = db_write (concat (map delete_reference (references_for_file R f db))) db"
    by (simp add: db'_def invalidate_source_def Let_def)
  show "fresh_ok R db'" unfolding db' by (rule D(1))
  show "refs R db' e = (case refs R db e of None \<Rightarrow> None | Some r \<Rightarrow> if sref_file_path r = f then None else Some r)"
    unfolding db' D(2) by (auto simp: S(1) split: option.splits)
  have "length (references_for_file R f db) = card (set (references_for_file R f db))"
    using S(2) by (simp add: distinct_map distinct_card)
  then show "snd (invalidate_source R f db) = of_nat (card {r. \<exists>e. refs R db e = Some r \<and> sref_file_path r = f})"
    by (simp add: invalidate_source_def Let_def S(1))
qed

lemma invalidate_other:
  assumes ok: "fresh_ok R db" and k: "\<And>e. k \<noteq> source_ref_key e" "\<And>f e. k \<noteq> file_index_key f e"
  shows "map_of (fst (invalidate_source R f db)) k = map_of db k"
proof -
  have rows: "rows_decode R db" using ok by (simp add: fresh_ok_def)
  have "\<forall>r \<in> set (references_for_file R f db). refs R db (sref_entry_id r) = Some r"
    using refs_row(1) [OF rows] unfolding references_spec(1) [OF ok] by auto
  from delete_references(3) [OF ok this k] show ?thesis by (simp add: invalidate_source_def Let_def)
qed

section \<open>Indexing an old database\<close>

lemma ops_effect_only_puts:
  "\<forall>x \<in> set ops. \<exists>k v. x = Put k v \<Longrightarrow>
   ops_effect ops m k \<noteq> None \<longleftrightarrow> k \<in> op_key ` set ops \<or> m k \<noteq> None"
proof (induction ops arbitrary: m)
  case (Cons x ops)
  obtain k' v where x: "x = Put k' v" using Cons.prems by auto
  have "ops_effect ops m' k \<noteq> None \<longleftrightarrow> k \<in> op_key ` set ops \<or> m' k \<noteq> None" for m'
    by (rule Cons.IH) (use Cons.prems in simp)
  then show ?case by (auto simp: x)
qed simp

lemma ensure_index:
  fixes R :: "'v ref_codec" and db :: "'v db"
  assumes bt: "bt_ok db" and rows: "rows_decode R db"
    and marked: "map_of db source_index_marker \<noteq> None \<longrightarrow> index_ok R db"
    and sound: "\<And>f e. plain_entry e \<Longrightarrow> map_of db (file_index_key f e) \<noteq> None \<Longrightarrow> \<exists>r. refs R db e = Some r \<and> sref_file_path r = f"
  defines "db' \<equiv> ensure_file_index R db"
  shows "fresh_ok R db'" and "refs R db' = refs R db"
proof -
  have "fresh_ok R db' \<and> refs R db' = refs R db"
  proof (cases "map_of db source_index_marker")
    case (Some v)
    then show ?thesis using bt rows marked by (simp add: db'_def ensure_file_index_def fresh_ok_def)
  next
    case None
    define puts :: "'v write_op list" where "puts = List.map_filter (\<lambda>e. map_option
        (\<lambda>r. Put (file_index_key (sref_file_path r) (sref_entry_id r)) (rc_raw R [])) (rc_dec R (snd e)))
        (scan_prefix source_ref_prefix db)"
    define ops where "ops = puts @ [Put source_index_marker (rc_raw R ''1'')]"
    have get: "map_of db' = ops_effect ops (map_of db)"
      using None by (simp add: db'_def ensure_file_index_def ops_def puts_def map_of_db_write [OF bt])
    have put: "\<forall>x \<in> set ops. \<exists>k v. x = Put k v"
      by (auto simp: ops_def puts_def map_filter_mem_iff)
    have row: "(\<exists>k. (k, v) \<in> set (scan_prefix source_ref_prefix db) \<and> rc_dec R v = Some r) \<longleftrightarrow>
        (\<exists>e. map_of db (source_ref_key e) = Some v \<and> rc_dec R v = Some r)" for v r
      by (auto simp: scan_prefix_filter [OF bt] bt_entry [OF bt] starts_with_iff source_ref_prefix_def source_ref_key_def)
    have "k \<in> op_key ` set puts \<longleftrightarrow> (\<exists>e r. refs R db e = Some r \<and> k = file_index_key (sref_file_path r) (sref_entry_id r))" for k
    proof -
      have "k \<in> op_key ` set puts \<longleftrightarrow> (\<exists>v r. (\<exists>k. (k, v) \<in> set (scan_prefix source_ref_prefix db) \<and> rc_dec R v = Some r) \<and>
          k = file_index_key (sref_file_path r) (sref_entry_id r))"
        by (force simp: puts_def map_filter_mem_iff image_iff)
      then show ?thesis unfolding row by (auto simp: refs_def bind_eq_Some_conv)
    qed
    then have keys: "k \<in> op_key ` set ops \<longleftrightarrow> k = source_index_marker \<or>
        (\<exists>e r. refs R db e = Some r \<and> k = file_index_key (sref_file_path r) e)" for k
      unfolding ops_def using refs_row(1) [OF rows] by (simp, blast)
    have ref: "map_of db' (source_ref_key e) = map_of db (source_ref_key e)" for e
      unfolding get by (rule ops_effect_other) (simp add: keys)
    then have refs': "refs R db' = refs R db" by (simp add: refs_def fun_eq_iff)
    have "index_ok R db'"
      unfolding index_ok_def refs'
    proof (intro allI impI)
      fix f e assume e: "plain_entry e"
      have "map_of db' (file_index_key f e) \<noteq> None \<longleftrightarrow>
          (\<exists>e' r. refs R db e' = Some r \<and> file_index_key f e = file_index_key (sref_file_path r) e') \<or> map_of db (file_index_key f e) \<noteq> None"
        unfolding get ops_effect_only_puts [OF put] keys by simp
      moreover have "file_index_key f e = file_index_key (sref_file_path r) e' \<longleftrightarrow> f = sref_file_path r \<and> e = e'"
        if r: "refs R db e' = Some r" for e' r
        by (rule file_index_key_eq [OF e refs_row(2) [OF rows r]])
      ultimately show "map_of db' (file_index_key f e) \<noteq> None \<longleftrightarrow> (\<exists>r. refs R db e = Some r \<and> sref_file_path r = f)"
        using sound [OF e, of f] by blast
    qed
    moreover have "rows_decode R db'" using rows unfolding rows_decode_def ref .
    moreover have "bt_ok db'" using bt None by (simp add: db'_def ensure_file_index_def)
    ultimately show ?thesis using refs' by (simp add: fresh_ok_def)
  qed
  then show "fresh_ok R db'" and "refs R db' = refs R db" by simp_all
qed

section \<open>Registering\<close>

context reference_codec
begin

lemma register_refs:
  fixes db :: "'v db"
  assumes ok: "fresh_ok R db" and plain: "plain_entry (sref_entry_id r)"
  shows "\<exists>db'. register_source R r db = Some db' \<and> fresh_ok R db' \<and> refs R db' = (refs R db)(sref_entry_id r \<mapsto> r) \<and>
    (\<forall>a b. map_of db' (symbol_rdep_key a b) = map_of db (symbol_rdep_key a b))"
proof -
  have bt: "bt_ok db" and rows: "rows_decode R db" and ix: "index_ok R db" using ok by (simp_all add: fresh_ok_def)
  let ?e = "sref_entry_id r" and ?f = "sref_file_path r"
  let ?moved = "\<lambda>f e. e = ?e \<and> f \<noteq> ?f \<and> (\<exists>o'. refs R db ?e = Some o' \<and> sref_file_path o' = f)"
  have load: "load_reference R ?e db = Some (refs R db ?e)"
  proof (cases "map_of db (source_ref_key ?e)")
    case (Some v)
    then obtain r' where "rc_dec R v = Some r'" using rows unfolding rows_decode_def by blast
    then show ?thesis using Some by (simp add: load_reference_def refs_def)
  qed (simp add: load_reference_def refs_def)
  define old :: "'v write_op list" where "old = (case refs R db ?e of None \<Rightarrow> []
      | Some o' \<Rightarrow> if sref_file_path o' \<noteq> ?f then [Delete (file_index_key (sref_file_path o') (sref_entry_id o'))] else [])"
  define db' where "db' = db_write (old @ [Put (source_ref_key ?e) (rc_ref R r), Put (file_index_key ?f ?e) (rc_raw R [])]) db"
  have reg: "register_source R r db = Some db'" by (simp add: register_source_def load db'_def old_def)
  have get: "map_of db' = (ops_effect old (map_of db))(source_ref_key ?e \<mapsto> rc_ref R r, file_index_key ?f ?e \<mapsto> rc_raw R [])"
    by (simp add: db'_def map_of_db_write [OF bt])
  have old_ref: "ops_effect old (map_of db) (source_ref_key e) = map_of db (source_ref_key e)" for e
    by (auto simp: old_def split: option.split)
  have old_index: "ops_effect old (map_of db) (file_index_key f e) =
      (if ?moved f e then None else map_of db (file_index_key f e))" if e: "plain_entry e" for f e
  proof (cases "refs R db ?e")
    case (Some o')
    note id = refs_row [OF rows Some]
    have "file_index_key f e = file_index_key (sref_file_path o') ?e \<longleftrightarrow> f = sref_file_path o' \<and> e = ?e"
      by (rule file_index_key_eq [OF e plain])
    then show ?thesis using Some id(1) by (auto simp: old_def)
  qed (simp add: old_def)
  have old_edge: "ops_effect old (map_of db) (symbol_rdep_key a b) = map_of db (symbol_rdep_key a b)" for a b
    by (auto simp: old_def split: option.split)
  have edges: "map_of db' (symbol_rdep_key a b) = map_of db (symbol_rdep_key a b)" for a b
    by (simp add: get old_edge)
  have refs': "refs R db' = (refs R db)(?e \<mapsto> r)"
    by (simp add: refs_def get old_ref fun_eq_iff)
  have "rows_decode R db'"
    using rows plain unfolding rows_decode_def get by (auto simp: old_ref)
  moreover have "index_ok R db'"
    unfolding index_ok_def refs'
  proof (intro allI impI)
    fix f e assume e: "plain_entry e"
    have ix_e: "map_of db (file_index_key f e) \<noteq> None \<longleftrightarrow> (\<exists>r. refs R db e = Some r \<and> sref_file_path r = f)"
      using ix e unfolding index_ok_def by blast
    have "map_of db' (file_index_key f e) \<noteq> None \<longleftrightarrow>
        (f = ?f \<and> e = ?e) \<or> (\<not> ?moved f e \<and> map_of db (file_index_key f e) \<noteq> None)"
      unfolding get using file_index_key_eq [OF e plain, of f ?f] by (auto simp: old_index [OF e])
    then show "map_of db' (file_index_key f e) \<noteq> None \<longleftrightarrow>
        (\<exists>x. ((refs R db)(?e \<mapsto> r)) e = Some x \<and> sref_file_path x = f)"
      unfolding ix_e by (cases "e = ?e") auto
  qed
  moreover have "bt_ok db'" using bt by (simp add: db'_def)
  ultimately show ?thesis using reg refs' edges by (auto simp: fresh_ok_def)
qed

end

end
