(* ===== verification/Freshness_Cascade.thy ===== *)
theory Freshness_Cascade
  imports Freshness_Store_Inv
begin

text \<open>
  The cascade from a changed symbol: the queue loop is the breadth-first search of \<open>Bfs\<close>, its fuel
  is always enough, and the references it deletes are the function references of the symbols from
  which the changed one is reachable within the depth, provided no path takes part in the
  separator \<open>::\<close> of the symbol keys.
\<close>

section \<open>The loop is a breadth-first search\<close>

lemma bfs_push_fst: "\<exists>new. bfs_push d vs (V, q) = (V @ new, q @ map (\<lambda>v. (v, Suc d)) new)"
  using bfs_push [of d vs V q] by blast

lemma cascade_loop_bfs:
  "bfs nbrs m fuel X (V, q) = Some (W, Y) \<Longrightarrow>
   \<exists>new. W = V @ new \<and>
     cascade_loop nbrs m fuel D (V, q) = Some (D @ map fst (filter (\<lambda>e. snd e > 0) q) @ new)"
proof (induction fuel arbitrary: X V q D)
  case 0
  then show ?case by (cases q) auto
next
  case (Suc fuel)
  show ?case
  proof (cases q)
    case Nil
    then show ?thesis using Suc.prems by simp
  next
    case (Cons e q')
    obtain u d where e: "e = (u, d)" by (cases e)
    let ?D = "if d > 0 then D @ [u] else D"
    show ?thesis
    proof (cases "d \<ge> m")
      case True
      then have "bfs nbrs m fuel X (V, q') = Some (W, Y)" using Suc.prems by (simp add: Cons e)
      from Suc.IH [OF this, of ?D] show ?thesis using True by (auto simp: Cons e)
    next
      case False
      obtain new where new: "bfs_push d (nbrs u) (V, q') = (V @ new, q' @ map (\<lambda>v. (v, Suc d)) new)"
        using bfs_push_fst by blast
      then have "bfs nbrs m fuel (X @ [u]) (V @ new, q' @ map (\<lambda>v. (v, Suc d)) new) = Some (W, Y)"
        using Suc.prems False by (simp add: Cons e)
      from Suc.IH [OF this, of ?D] obtain new' where
        "W = V @ new @ new'"
        "cascade_loop nbrs m fuel ?D (V @ new, q' @ map (\<lambda>v. (v, Suc d)) new) =
          Some (?D @ map fst (filter (\<lambda>e. snd e > 0) q') @ new @ new')"
        by (auto simp: filter_map o_def)
      then show ?thesis using False new by (auto simp: Cons e)
    qed
  qed
qed

text \<open>Every symbol the search can meet but the first is the rest of a stored key.\<close>

definition key_tails :: "'v db \<Rightarrow> bytes set" where
  "key_tails db = (\<Union>k \<in> fst ` set db. (\<lambda>n. drop n k) ` {..length k})"

lemma card_key_tails: "card (key_tails db) < cascade_fuel db" "finite (key_tails db)"
proof -
  show "card (key_tails db) < cascade_fuel db"
  proof (induction db)
    case (Cons e db)
    have "key_tails (e # db) = (\<lambda>n. drop n (fst e)) ` {..length (fst e)} \<union> key_tails db"
      by (simp add: key_tails_def)
    moreover have "card ((\<lambda>n. drop n (fst e)) ` {..length (fst e)}) \<le> Suc (length (fst e))"
      using card_image_le [of "{..length (fst e)}"] by simp
    ultimately show ?case
      using Cons.IH card_Un_le [of "(\<lambda>n. drop n (fst e)) ` {..length (fst e)}" "key_tails db"]
      by (simp add: cascade_fuel_def)
  qed (simp add: key_tails_def cascade_fuel_def)
  show "finite (key_tails db)" by (simp add: key_tails_def)
qed

lemma tail_scan:
  assumes bt: "bt_ok db"
  shows "b \<in> set (map (\<lambda>e. drop (length p) (fst e)) (scan_prefix p db)) \<longleftrightarrow> map_of db (p @ b) \<noteq> None"
proof
  assume "b \<in> set (map (\<lambda>e. drop (length p) (fst e)) (scan_prefix p db))"
  then obtain k v where "(k, v) \<in> set db" "starts_with p k" "b = drop (length p) k"
    by (auto simp: scan_prefix_filter [OF bt])
  then show "map_of db (p @ b) \<noteq> None" by (auto simp: starts_with_iff bt_entry [OF bt])
next
  assume "map_of db (p @ b) \<noteq> None"
  then obtain v where "(p @ b, v) \<in> set (scan_prefix p db)"
    by (auto simp: scan_prefix_filter [OF bt] starts_with_iff bt_entry [OF bt])
  then have "drop (length p) (fst (p @ b, v)) \<in> (\<lambda>e. drop (length p) (fst e)) ` set (scan_prefix p db)"
    by (rule imageI)
  then show "b \<in> set (map (\<lambda>e. drop (length p) (fst e)) (scan_prefix p db))" by simp
qed

lemma edges_into_iff: "bt_ok db \<Longrightarrow> b \<in> set (edges_into a db) \<longleftrightarrow> map_of db (symbol_rdep_key a b) \<noteq> None"
  using tail_scan [of db b "''symbol_rdep:'' @ a @ ''|''"]
  by (simp add: edges_into_def symbol_rdep_key_def Let_def)

lemma edges_into_tails:
  assumes bt: "bt_ok db"
  shows "set (edges_into a db) \<subseteq> key_tails db"
proof
  fix b assume "b \<in> set (edges_into a db)"
  then obtain v where v: "(symbol_rdep_key a b, v) \<in> set db"
    by (auto simp: edges_into_iff [OF bt] bt_entry [OF bt])
  let ?n = "length (''symbol_rdep:'' @ a @ ''|'')"
  have "b = drop ?n (symbol_rdep_key a b)" "?n \<le> length (symbol_rdep_key a b)"
    by (simp_all add: symbol_rdep_key_def)
  then have "b \<in> (\<lambda>n. drop n (symbol_rdep_key a b)) ` {..length (symbol_rdep_key a b)}" by blast
  then show "b \<in> key_tails db" using imageI [OF v, of fst]
    unfolding key_tails_def fst_conv by (rule UN_I [rotated])
qed

definition dependents_within :: "'v db \<Rightarrow> bytes \<Rightarrow> nat \<Rightarrow> bytes set" where
  "dependents_within db s m = hops (\<lambda>u. set (dependents_of db u)) s m"

theorem cascade_loop_correct:
  assumes bt: "bt_ok db"
  shows "\<exists>D. cascade_loop (dependents_of db) m (cascade_fuel db) [] ([s], [(s, 0)]) = Some D \<and>
    distinct D \<and> set D = dependents_within db s m - {s}"
proof -
  have "finite (insert s (key_tails db))" by (simp add: card_key_tails)
  moreover have "set (dependents_of db u) \<subseteq> insert s (key_tails db)" for u
    using edges_into_tails [OF bt] by (auto simp: dependents_of_def)
  moreover have "card (insert s (key_tails db)) \<le> cascade_fuel db"
    using card_insert_le_m1 card_key_tails [of db] by (simp add: card_insert_if)
  ultimately obtain W Y where W: "bfs (dependents_of db) m (cascade_fuel db) [] ([s], [(s, 0)]) = Some (W, Y)"
      "distinct W" "set W = dependents_within db s m"
    using bfs_correct [of "insert s (key_tails db)" "dependents_of db" s "cascade_fuel db" m]
    unfolding dependents_within_def by auto
  obtain new where "W = s # new" "cascade_loop (dependents_of db) m (cascade_fuel db) [] ([s], [(s, 0)]) = Some new"
    using cascade_loop_bfs [OF W(1), of "[]"] by auto
  then show ?thesis using W(2,3) by auto
qed

section \<open>Paths and the separator\<close>

text \<open>A path that can be cut off a symbol key: no \<open>::\<close> in it and no \<open>:\<close> at its end.\<close>

definition plain_path :: "bytes \<Rightarrow> bool" where
  "plain_path p \<longleftrightarrow> before_colons (p @ ''::'') = Some p"

lemma before_colons_append: "before_colons s = Some p \<Longrightarrow> before_colons (s @ t) = Some p"
proof (induction s arbitrary: p rule: before_colons.induct)
  case (1 c d cs)
  then show ?case by (auto split: if_splits)
qed simp_all

lemma plain_path_cut: "plain_path p \<Longrightarrow> before_colons (p @ ''::'' @ name) = Some p"
  using before_colons_append [of "p @ ''::''" p name] by (simp add: plain_path_def)

section \<open>What a cascade deletes\<close>

definition reference_key :: "source_reference \<Rightarrow> bytes option" where
  "reference_key r = map_option (\<lambda>name. sref_file_path r @ ''::'' @ name) (function_name r)"

definition plain_refs :: "'v ref_codec \<Rightarrow> 'v db \<Rightarrow> bool" where
  "plain_refs R db \<longleftrightarrow> (\<forall>e r. refs R db e = Some r \<longrightarrow> plain_path (sref_file_path r))"

lemma classify_iff:
  "classify c D r = Some h \<longleftrightarrow> (\<exists>k. reference_key r = Some k \<and>
     (if k = c then h = Direct r else k \<in> set D \<and> h = Cascaded r))"
  by (auto simp: classify_def reference_key_def Let_def split: option.split)

lemma concat_distinct:
  assumes "distinct fs" and "\<And>f. f \<in> set fs \<Longrightarrow> distinct (g f)" and "\<And>f x. f \<in> set fs \<Longrightarrow> x \<in> set (g f) \<Longrightarrow> p x = f"
  shows "distinct (concat (map g fs))"
  using assms
proof (induction fs)
  case (Cons f fs)
  have "x \<notin> set (g f')" if x: "x \<in> set (g f)" "f' \<in> set fs" for x f'
  proof
    assume "x \<in> set (g f')"
    then have "f' = f" using Cons.prems(3) [of f' x] Cons.prems(3) [of f x] x by simp
    then show False using x(2) Cons.prems(1) by simp
  qed
  then have "set (g f) \<inter> \<Union> (set ` set (map g fs)) = {}" by auto
  then show ?case using Cons by simp
qed simp

lemma map_filter_distinct_inj:
  assumes "distinct xs" and "\<And>x y. f x = Some y \<Longrightarrow> g y = x"
  shows "distinct (List.map_filter f xs)"
  using assms(1)
proof (induction xs)
  case (Cons x xs)
  have "y \<notin> set (List.map_filter f xs)" if "f x = Some y" for y
  proof
    assume "y \<in> set (List.map_filter f xs)"
    then obtain x' where "x' \<in> set xs" "f x' = Some y" by (auto simp: map_filter_mem_iff)
    then show False using assms(2) that Cons.prems by (metis distinct.simps(2))
  qed
  then show ?case using Cons by (auto split: option.split)
qed simp

lemma cascade_hits:
  fixes R :: "'v ref_codec" and db :: "'v db" and c :: symbol_id and D :: "bytes list"
  assumes ok: "fresh_ok R db" and plain: "plain_refs R db" "plain_path (sym_file_path c)"
  defines "files \<equiv> sorted_list_of_set (insert (sym_file_path c) (set (List.map_filter before_colons D)))"
  defines "hits \<equiv> List.map_filter (classify (symbol_key c) D) (concat (map (\<lambda>file. references_for_file R file db) files))"
  shows "set hits = {h. \<exists>e r k. refs R db e = Some r \<and> reference_key r = Some k \<and>
        (if k = symbol_key c then h = Direct r else k \<in> set D \<and> h = Cascaded r)}"
    and "distinct hits"
proof -
  note S = references_spec [OF ok]
  have files: "set files = insert (sym_file_path c) {f. \<exists>k \<in> set D. before_colons k = Some f}"
    unfolding files_def set_sorted_list_of_set [OF finite.insertI [OF finite_set]] by (auto simp: map_filter_mem_iff)
  have cut: "before_colons k = Some (sref_file_path r)" if "refs R db e = Some r" "reference_key r = Some k" for e r k
    using that plain(1) plain_path_cut by (auto simp: plain_refs_def reference_key_def)
  have listed: "sref_file_path r \<in> set files"
    if r: "refs R db e = Some r" "reference_key r = Some k" and k: "k = symbol_key c \<or> k \<in> set D" for e r k
    using k
  proof
    assume "k = symbol_key c"
    then have "before_colons k = Some (sym_file_path c)"
      using plain_path_cut [OF plain(2)] by (simp add: symbol_key_def)
    then show ?thesis using cut [OF r] by (simp add: files)
  next
    assume "k \<in> set D"
    then show ?thesis using cut [OF r] by (auto simp: files)
  qed
  have mem: "h \<in> set hits \<longleftrightarrow> (\<exists>e r. refs R db e = Some r \<and> sref_file_path r \<in> set files \<and> classify (symbol_key c) D r = Some h)" for h
    unfolding hits_def map_filter_mem_iff by (auto simp: S(1))
  show "set hits = {h. \<exists>e r k. refs R db e = Some r \<and> reference_key r = Some k \<and>
      (if k = symbol_key c then h = Direct r else k \<in> set D \<and> h = Cascaded r)}"
    unfolding set_eq_iff mem classify_iff using listed by (auto split: if_splits; blast)
  have "distinct (concat (map (\<lambda>file. references_for_file R file db) files))"
  proof (rule concat_distinct [where p = sref_file_path])
    show "distinct files" unfolding files_def by (rule distinct_sorted_list_of_set)
    show "distinct (references_for_file R f db)" for f using S(2) [of f] by (simp add: distinct_map)
    show "sref_file_path r = f" if "r \<in> set (references_for_file R f db)" for f r using that by (auto simp: S(1))
  qed
  then show "distinct hits"
    unfolding hits_def
    by (rule map_filter_distinct_inj [where g = hit_reference]) (auto simp: classify_iff split: if_splits)
qed

lemma count_hits:
  assumes "distinct hits" and "\<And>h. h \<in> set hits \<Longrightarrow> P h \<Longrightarrow> h = f (hit_reference h)"
  shows "length (filter P hits) = card (hit_reference ` {h \<in> set hits. P h})"
proof -
  have "inj_on hit_reference {h \<in> set hits. P h}"
    using assms(2) by (intro inj_onI) (metis (mono_tags, lifting) mem_Collect_eq)
  then have "card (hit_reference ` {h \<in> set hits. P h}) = card {h \<in> set hits. P h}" by (rule card_image)
  also have "\<dots> = length (filter P hits)" using distinct_card [of "filter P hits"] assms(1) by simp
  finally show ?thesis by simp
qed

end
