(* ===== verification/Freshness_Run.thy ===== *)
theory Freshness_Run
  imports Freshness_Cascade
begin

text \<open>
  The freshness store as a whole: its operations as events, the abstract state they act on (the
  references by record and the edges between symbols), and the square of every event.
\<close>

record fresh_abs =
  fa_refs :: "bytes \<Rightarrow> source_reference option"
  fa_edges :: "(bytes \<times> bytes) set"

definition fresh_view :: "'v ref_codec \<Rightarrow> 'v db \<Rightarrow> fresh_abs" where
  "fresh_view R db = \<lparr>fa_refs = refs R db, fa_edges = {(a, b). map_of db (symbol_rdep_key a b) \<noteq> None}\<rparr>"

datatype fresh_event =
    Register source_reference
  | Invalidate bytes
  | Depend symbol_id "symbol_id list"
  | Cascade symbol_id nat

definition fresh_step :: "'v ref_codec \<Rightarrow> fresh_event \<Rightarrow> 'v db \<Rightarrow> 'v db option" where
  "fresh_step R ev db =
     (case ev of
        Register r \<Rightarrow> register_source R r db
      | Invalidate f \<Rightarrow> Some (fst (invalidate_source R f db))
      | Depend from tos \<Rightarrow> Some (fst (register_symbol_dependencies R from tos db))
      | Cascade c m \<Rightarrow> map_option fst (cascade_invalidate R c m db))"

fun fresh_run :: "'v ref_codec \<Rightarrow> fresh_event list \<Rightarrow> 'v db \<Rightarrow> 'v db option" where
  "fresh_run R [] db = Some db"
| "fresh_run R (ev # evs) db = Option.bind (fresh_step R ev db) (fresh_run R evs)"

section \<open>What the operations mean\<close>

text \<open>Edges into a symbol: those by its key and those by its bare name.\<close>

definition abs_dependents :: "(bytes \<times> bytes) set \<Rightarrow> bytes \<Rightarrow> bytes set" where
  "abs_dependents E s = {b. (s, b) \<in> E \<or> (''::'' @ after_last_colons [] s, b) \<in> E}"

definition abs_within :: "(bytes \<times> bytes) set \<Rightarrow> bytes \<Rightarrow> nat \<Rightarrow> bytes set" where
  "abs_within E s m = hops (abs_dependents E) s m"

definition target_key :: "symbol_id \<Rightarrow> bytes" where
  "target_key t = (if sym_file_path t = [] then ''::'' @ sym_symbol_name t else symbol_key t)"

definition new_edges :: "symbol_id \<Rightarrow> symbol_id list \<Rightarrow> (bytes \<times> bytes) set" where
  "new_edges from tos =
     {(k, symbol_key from) | k. \<exists>t \<in> set tos. k = target_key t \<or> k = ''::'' @ sym_symbol_name t}"

definition drop_refs :: "(source_reference \<Rightarrow> bool) \<Rightarrow> (bytes \<Rightarrow> source_reference option) \<Rightarrow> bytes \<Rightarrow> source_reference option" where
  "drop_refs P m e = (case m e of None \<Rightarrow> None | Some r \<Rightarrow> if P r then None else Some r)"

fun fresh_spec :: "fresh_event \<Rightarrow> fresh_abs \<Rightarrow> fresh_abs" where
  "fresh_spec (Register r) a = a\<lparr>fa_refs := (fa_refs a)(sref_entry_id r \<mapsto> r)\<rparr>"
| "fresh_spec (Invalidate f) a = a\<lparr>fa_refs := drop_refs (\<lambda>r. sref_file_path r = f) (fa_refs a)\<rparr>"
| "fresh_spec (Depend from tos) a = a\<lparr>fa_edges := fa_edges a \<union> new_edges from tos\<rparr>"
| "fresh_spec (Cascade c m) a =
     a\<lparr>fa_refs := drop_refs (\<lambda>r. reference_key r \<in> Some ` abs_within (fa_edges a) (symbol_key c) m) (fa_refs a)\<rparr>"

text \<open>Ids and symbols without \<open>|\<close>, paths that can be cut off a symbol key.\<close>

definition no_bar :: "bytes \<Rightarrow> bool" where
  "no_bar s \<longleftrightarrow> CHR ''|'' \<notin> set s"

definition plain_symbol :: "symbol_id \<Rightarrow> bool" where
  "plain_symbol s \<longleftrightarrow> no_bar (sym_file_path s) \<and> no_bar (sym_symbol_name s)"

fun event_ok :: "fresh_event \<Rightarrow> bool" where
  "event_ok (Register r) \<longleftrightarrow> plain_entry (sref_entry_id r) \<and> plain_path (sref_file_path r)"
| "event_ok (Invalidate f) \<longleftrightarrow> True"
| "event_ok (Depend from tos) \<longleftrightarrow> plain_symbol from \<and> list_all plain_symbol tos"
| "event_ok (Cascade c m) \<longleftrightarrow> plain_path (sym_file_path c)"

definition fresh_inv :: "'v ref_codec \<Rightarrow> 'v db \<Rightarrow> bool" where
  "fresh_inv R db \<longleftrightarrow> fresh_ok R db \<and> plain_refs R db"

section \<open>Cascades\<close>

lemma dependents_abs:
  "bt_ok db \<Longrightarrow> dependents_within db s m = abs_within (fa_edges (fresh_view R db)) s m"
  unfolding dependents_within_def abs_within_def
  by (rule arg_cong [where f = "\<lambda>g. hops g s m"])
    (auto simp: dependents_of_def edges_into_iff abs_dependents_def fresh_view_def fun_eq_iff)

lemma cascade_effect:
  fixes R :: "'v ref_codec" and db :: "'v db" and c :: symbol_id and m :: nat
  assumes inv: "fresh_inv R db" and plain: "plain_path (sym_file_path c)"
  defines "reach \<equiv> dependents_within db (symbol_key c) m"
  shows "\<exists>db' rep. cascade_invalidate R c m db = Some (db', rep) \<and> fresh_ok R db' \<and>
    refs R db' = drop_refs (\<lambda>r. reference_key r \<in> Some ` reach) (refs R db) \<and>
    (\<forall>a b. map_of db' (symbol_rdep_key a b) = map_of db (symbol_rdep_key a b)) \<and>
    distinct (cr_invalidated_symbols rep) \<and> set (cr_invalidated_symbols rep) = reach - {symbol_key c} \<and>
    cr_direct_invalidations rep = of_nat (card {r. \<exists>e. refs R db e = Some r \<and> reference_key r = Some (symbol_key c)}) \<and>
    cr_cascade_invalidations rep =
      of_nat (card {r. \<exists>e. refs R db e = Some r \<and> reference_key r \<in> Some ` (reach - {symbol_key c})})"
proof -
  have ok: "fresh_ok R db" and pr: "plain_refs R db" using inv by (simp_all add: fresh_inv_def)
  have bt: "bt_ok db" and rows: "rows_decode R db" using ok by (simp_all add: fresh_ok_def)
  obtain D where D: "cascade_loop (dependents_of db) m (cascade_fuel db) [] ([symbol_key c], [(symbol_key c, 0)]) = Some D"
      "distinct D" "set D = reach - {symbol_key c}"
    using cascade_loop_correct [OF bt] unfolding reach_def by blast
  have c: "symbol_key c \<in> reach" unfolding reach_def dependents_within_def by (rule hops_start)
  define hits where "hits = List.map_filter (classify (symbol_key c) D) (concat (map (\<lambda>file. references_for_file R file db)
      (sorted_list_of_set (insert (sym_file_path c) (set (List.map_filter before_colons D))))))"
  define db' where "db' = db_write (concat (map delete_reference (map hit_reference hits))) db"
  note H = cascade_hits [OF ok pr plain, of D, folded hits_def]
  let ?rep = "\<lparr>cr_direct_invalidations = of_nat (length (filter is_direct hits)),
     cr_cascade_invalidations = of_nat (length (filter (\<lambda>h. \<not> is_direct h) hits)), cr_invalidated_symbols = D\<rparr>"
  have res: "cascade_invalidate R c m db = Some (db', ?rep)"
    using D(1) by (simp add: cascade_invalidate_def Let_def db'_def hits_def o_def)
  have direct: "hit_reference ` {h \<in> set hits. is_direct h} =
      {r. \<exists>e. refs R db e = Some r \<and> reference_key r = Some (symbol_key c)}"
  proof -
    have "{h \<in> set hits. is_direct h} = Direct ` {r. \<exists>e. refs R db e = Some r \<and> reference_key r = Some (symbol_key c)}"
      unfolding set_eq_iff H(1) by (intro allI, case_tac x) (auto split: if_splits)
    then show ?thesis by (simp add: image_image)
  qed
  have cascaded: "hit_reference ` {h \<in> set hits. \<not> is_direct h} =
      {r. \<exists>e. refs R db e = Some r \<and> reference_key r \<in> Some ` (reach - {symbol_key c})}"
  proof -
    have "{h \<in> set hits. \<not> is_direct h} =
        Cascaded ` {r. \<exists>e. refs R db e = Some r \<and> reference_key r \<in> Some ` (reach - {symbol_key c})}"
      unfolding set_eq_iff H(1) D(3) by (intro allI, case_tac x) (auto split: if_splits)
    then show ?thesis by (simp add: image_image)
  qed
  have all: "hit_reference ` set hits = {r. \<exists>e. refs R db e = Some r \<and> reference_key r \<in> Some ` reach}"
  proof -
    have "hit_reference ` set hits = hit_reference ` {h \<in> set hits. is_direct h} \<union> hit_reference ` {h \<in> set hits. \<not> is_direct h}"
      by blast
    then show ?thesis unfolding direct cascaded using c by auto
  qed
  have own: "\<forall>r \<in> set (map hit_reference hits). refs R db (sref_entry_id r) = Some r"
    using all refs_row(1) [OF rows] by auto
  note E = delete_references [OF ok own, folded db'_def]
  have "refs R db' = drop_refs (\<lambda>r. reference_key r \<in> Some ` reach) (refs R db)"
    unfolding fun_eq_iff E(2) drop_refs_def set_map all by (auto split: option.split)
  moreover have "map_of db' (symbol_rdep_key a b) = map_of db (symbol_rdep_key a b)" for a b
    by (rule E(3)) simp_all
  moreover have "length (filter is_direct hits) = card {r. \<exists>e. refs R db e = Some r \<and> reference_key r = Some (symbol_key c)}"
    unfolding direct [symmetric] by (rule count_hits [OF H(2), where f = Direct]) (auto simp: H(1) split: if_splits)
  moreover have "length (filter (\<lambda>h. \<not> is_direct h) hits) =
      card {r. \<exists>e. refs R db e = Some r \<and> reference_key r \<in> Some ` (reach - {symbol_key c})}"
    unfolding cascaded [symmetric] by (rule count_hits [OF H(2), where f = Cascaded]) (auto simp: H(1) split: if_splits)
  ultimately show ?thesis using res E(1) D(2,3) by simp
qed

section \<open>Dependencies\<close>

lemma rdep_key_eq:
  assumes "no_bar a" and "no_bar b"
  shows "symbol_rdep_key a' b' = symbol_rdep_key a b \<longleftrightarrow> a' = a \<and> b' = b"
proof
  assume "symbol_rdep_key a' b' = symbol_rdep_key a b"
  then have eq: "a' @ CHR ''|'' # b' = a @ CHR ''|'' # b" by (simp add: symbol_rdep_key_def)
  have "CHR ''|'' \<notin> set a'"
  proof
    assume "CHR ''|'' \<in> set a'"
    then obtain p q where "a' = p @ CHR ''|'' # q" "CHR ''|'' \<notin> set p" using split_list_first by metis
    then have "CHR ''|'' \<in> set b"
      using eq assms(1) append_sep_eq [of "CHR ''|''" p a "q @ CHR ''|'' # b'" b] by (auto simp: no_bar_def)
    then show False using assms(2) by (simp add: no_bar_def)
  qed
  then show "a' = a \<and> b' = b" using eq append_sep_eq assms(1) by (metis no_bar_def)
qed simp

lemma no_bar_keys:
  "plain_symbol s \<Longrightarrow> no_bar (symbol_key s)" "plain_symbol s \<Longrightarrow> no_bar (target_key s)"
  "plain_symbol s \<Longrightarrow> no_bar (''::'' @ sym_symbol_name s)"
  by (auto simp: plain_symbol_def no_bar_def symbol_key_def target_key_def)

lemma dependency_op_keys:
  "op_key ` set (dependency_ops R from t) =
     {symbol_dep_key (symbol_key from) (target_key t), symbol_rdep_key (target_key t) (symbol_key from),
      symbol_rdep_key (''::'' @ sym_symbol_name t) (symbol_key from)}"
  by (auto simp: dependency_ops_def target_key_def Let_def)

lemma depend_view:
  fixes R :: "'v ref_codec" and db :: "'v db"
  assumes inv: "fresh_inv R db" and plain: "plain_symbol from" "list_all plain_symbol tos"
  defines "db' \<equiv> fst (register_symbol_dependencies R from tos db)"
  shows "fresh_inv R db'" and "fresh_view R db' = fresh_spec (Depend from tos) (fresh_view R db)"
proof -
  have bt: "bt_ok db" and rows: "rows_decode R db" and ix: "index_ok R db" using inv by (simp_all add: fresh_inv_def fresh_ok_def)
  define ops where "ops = concat (map (dependency_ops R from) tos)"
  have get: "map_of db' = ops_effect ops (map_of db)"
    by (simp add: db'_def register_symbol_dependencies_def ops_def map_of_db_write [OF bt])
  have puts: "\<forall>x \<in> set ops. \<exists>k v. x = Put k v"
    by (auto simp: ops_def dependency_ops_def Let_def split: if_splits)
  have keys: "op_key ` set ops = (\<Union>t \<in> set tos. op_key ` set (dependency_ops R from t))"
    by (auto simp: ops_def)
  have ref: "map_of db' (source_ref_key e) = map_of db (source_ref_key e)" for e
    unfolding get by (rule ops_effect_other) (simp add: keys dependency_op_keys)
  have index: "map_of db' (file_index_key f e) = map_of db (file_index_key f e)" for f e
    unfolding get by (rule ops_effect_other) (simp add: keys dependency_op_keys)
  have refs': "refs R db' = refs R db" by (simp add: refs_def ref fun_eq_iff)
  show "fresh_inv R db'"
    using inv bt unfolding fresh_inv_def fresh_ok_def rows_decode_def index_ok_def plain_refs_def refs' ref index
    by (simp add: db'_def register_symbol_dependencies_def)
  have "map_of db' (symbol_rdep_key a b) \<noteq> None \<longleftrightarrow> (a, b) \<in> new_edges from tos \<or> map_of db (symbol_rdep_key a b) \<noteq> None" for a b
  proof -
    have "symbol_rdep_key a b \<in> op_key ` set ops \<longleftrightarrow> (a, b) \<in> new_edges from tos"
      using plain rdep_key_eq no_bar_keys
      unfolding keys dependency_op_keys new_edges_def by (fastforce simp: list_all_iff)
    then show ?thesis unfolding get ops_effect_only_puts [OF puts] by simp
  qed
  then show "fresh_view R db' = fresh_spec (Depend from tos) (fresh_view R db)"
    by (auto simp: fresh_view_def refs')
qed

section \<open>Every event\<close>

lemma plain_refs_drop: "plain_refs R db \<Longrightarrow> refs R db' = drop_refs P (refs R db) \<Longrightarrow> plain_refs R db'"
  by (auto simp: plain_refs_def drop_refs_def split: option.splits if_splits)

context reference_codec
begin

lemma fresh_step_view:
  fixes db :: "'v db"
  assumes inv: "fresh_inv R db" and ok: "event_ok ev"
  shows "\<exists>db'. fresh_step R ev db = Some db' \<and> fresh_inv R db' \<and> fresh_view R db' = fresh_spec ev (fresh_view R db)"
proof (cases ev)
  case (Register r)
  then obtain db' where "register_source R r db = Some db'" "fresh_ok R db'" "refs R db' = (refs R db)(sref_entry_id r \<mapsto> r)"
      "\<forall>a b. map_of db' (symbol_rdep_key a b) = map_of db (symbol_rdep_key a b)"
    using register_refs [of db r] inv ok by (auto simp: fresh_inv_def)
  then show ?thesis using Register inv ok
    by (auto simp: fresh_step_def fresh_inv_def plain_refs_def fresh_view_def)
next
  case (Invalidate f)
  define db' where "db' = fst (invalidate_source R f db)"
  have fok: "fresh_ok R db" using inv by (simp add: fresh_inv_def)
  note I = invalidate_refs [OF fok, where f = f, folded db'_def]
  have r: "refs R db' = drop_refs (\<lambda>r. sref_file_path r = f) (refs R db)"
    by (simp add: fun_eq_iff drop_refs_def I(2))
  have "map_of db' (symbol_rdep_key a b) = map_of db (symbol_rdep_key a b)" for a b
    unfolding db'_def by (rule invalidate_other [OF fok]) simp_all
  then show ?thesis using Invalidate I(1) r inv plain_refs_drop [OF _ r]
    by (auto simp: fresh_step_def fresh_inv_def fresh_view_def db'_def)
next
  case (Depend src tos)
  then show ?thesis using depend_view [OF inv, of src tos] ok by (simp add: fresh_step_def)
next
  case (Cascade c m)
  have bt: "bt_ok db" using inv by (simp add: fresh_inv_def fresh_ok_def)
  obtain db' rep where res: "cascade_invalidate R c m db = Some (db', rep)" "fresh_ok R db'"
      "refs R db' = drop_refs (\<lambda>r. reference_key r \<in> Some ` dependents_within db (symbol_key c) m) (refs R db)"
      "\<forall>a b. map_of db' (symbol_rdep_key a b) = map_of db (symbol_rdep_key a b)"
    using cascade_effect [OF inv, of c m] ok Cascade by auto
  then have "fresh_inv R db'" using plain_refs_drop [OF _ res(3)] inv by (simp add: fresh_inv_def)
  then show ?thesis using Cascade res dependents_abs [OF bt, of "symbol_key c" m R]
    by (simp add: fresh_step_def fresh_view_def)
qed

lemma fresh_run_view:
  fixes db :: "'v db"
  shows "fresh_inv R db \<Longrightarrow> list_all event_ok evs \<Longrightarrow>
    \<exists>db'. fresh_run R evs db = Some db' \<and> fresh_inv R db' \<and> fresh_view R db' = fold fresh_spec evs (fresh_view R db)"
proof (induction evs arbitrary: db)
  case (Cons ev evs)
  obtain db1 where "fresh_step R ev db = Some db1" "fresh_inv R db1" "fresh_view R db1 = fresh_spec ev (fresh_view R db)"
    using fresh_step_view [of db ev] Cons.prems by auto
  then show ?case using Cons.IH [of db1] Cons.prems by auto
qed simp

end

end
