(* ===== verification/Freshness_Props.thy ===== *)
theory Freshness_Props
  imports Freshness_Run
begin

text \<open>
  The claims on the freshness store. Stored values are protobuf messages and plain bytes; the codec
  is a parameter and its law is that a message written is a message read.
\<close>

datatype stored_ref = F_Raw bytes | F_Ref source_reference

definition fresh_codec :: "stored_ref ref_codec" where
  "fresh_codec = \<lparr>rc_raw = F_Raw, rc_ref = F_Ref,
     rc_dec = (\<lambda>v. case v of F_Ref r \<Rightarrow> Some r | F_Raw _ \<Rightarrow> None)\<rparr>"

interpretation fr: reference_codec fresh_codec
  by unfold_locales (simp add: fresh_codec_def)

lemma fresh_inv_empty: "fresh_inv R []"
  by (simp add: fresh_inv_def fresh_ok_def rows_decode_def index_ok_def plain_refs_def refs_def bt_ok_def)

lemma check_freshness_view:
  assumes "fresh_ok R db"
  shows "check_freshness_semantic R e h a db = Some (freshness_of e (refs R db e) h a)"
    and "check_freshness_batch R [(e, h, a, n)] db = [freshness_of e (refs R db e) h a]"
proof -
  have "load_reference R e db = Some (refs R db e)"
  proof (cases "map_of db (source_ref_key e)")
    case (Some v)
    then obtain r where "rc_dec R v = Some r" using assms unfolding fresh_ok_def rows_decode_def by blast
    then show ?thesis using Some by (simp add: load_reference_def refs_def)
  qed (simp add: load_reference_def refs_def)
  then show "check_freshness_semantic R e h a db = Some (freshness_of e (refs R db e) h a)"
    by (simp add: check_freshness_semantic_def)
  show "check_freshness_batch R [(e, h, a, n)] db = [freshness_of e (refs R db e) h a]"
    by (simp add: check_freshness_batch_def refs_def)
qed


text \<open>
  C17: a cascade ends and reports exactly the symbols from which the changed one is reachable within
  the depth, each once and without the changed one; it deletes exactly the function references of
  those symbols and of the changed one, and its two counts are their numbers.
\<close>

theorem cascade_exact:
  assumes "fresh_inv R db" and "plain_path (sym_file_path c)"
  shows "\<exists>db' rep. cascade_invalidate R c m db = Some (db', rep) \<and>
    distinct (cr_invalidated_symbols rep) \<and>
    set (cr_invalidated_symbols rep) = abs_within (fa_edges (fresh_view R db)) (symbol_key c) m - {symbol_key c} \<and>
    refs R db' = drop_refs (\<lambda>r. reference_key r \<in> Some ` insert (symbol_key c) (set (cr_invalidated_symbols rep))) (refs R db) \<and>
    cr_direct_invalidations rep = of_nat (card {r. \<exists>e. refs R db e = Some r \<and> reference_key r = Some (symbol_key c)}) \<and>
    cr_cascade_invalidations rep =
      of_nat (card {r. \<exists>e. refs R db e = Some r \<and> reference_key r \<in> Some ` set (cr_invalidated_symbols rep)})"
proof -
  have bt: "bt_ok db" using assms(1) by (simp add: fresh_inv_def fresh_ok_def)
  note abs = dependents_abs [OF bt, of "symbol_key c" m R, symmetric]
  have "symbol_key c \<in> dependents_within db (symbol_key c) m"
    unfolding dependents_within_def by (rule hops_start)
  then have ins: "insert (symbol_key c) (dependents_within db (symbol_key c) m - {symbol_key c}) = dependents_within db (symbol_key c) m"
    by blast
  obtain db' rep where E: "cascade_invalidate R c m db = Some (db', rep)"
      "refs R db' = drop_refs (\<lambda>r. reference_key r \<in> Some ` dependents_within db (symbol_key c) m) (refs R db)"
      "distinct (cr_invalidated_symbols rep)"
      "set (cr_invalidated_symbols rep) = dependents_within db (symbol_key c) m - {symbol_key c}"
      "cr_direct_invalidations rep = of_nat (card {r. \<exists>e. refs R db e = Some r \<and> reference_key r = Some (symbol_key c)})"
      "cr_cascade_invalidations rep = of_nat (card {r. \<exists>e. refs R db e = Some r \<and>
         reference_key r \<in> Some ` (dependents_within db (symbol_key c) m - {symbol_key c})})"
    using cascade_effect [OF assms, of m] by blast
  show ?thesis
    unfolding abs
    by (rule exI [of _ db'], rule exI [of _ rep]) (use E ins in simp)
qed

section \<open>Witnesses\<close>

definition fn_ref :: "bytes \<Rightarrow> bytes \<Rightarrow> bytes \<Rightarrow> source_reference" where
  "fn_ref e f n = \<lparr>sref_file_path = f, sref_content_hash = ''h'', sref_captured_at = 0, sref_entry_id = e,
     sref_scope = Some (Some (Function \<lparr>fsc_name = n, fsc_ast_hash = [], fsc_symbol_type = ''fn'', fsc_imports = []\<rparr>))\<rparr>"

definition fn_sym :: "bytes \<Rightarrow> bytes \<Rightarrow> symbol_id" where
  "fn_sym f n = \<lparr>sym_file_path = f, sym_symbol_name = n, sym_symbol_type = ''fn''\<rparr>"

lemmas fn_defs = fn_ref_def fn_sym_def plain_entry_def plain_path_def plain_symbol_def no_bar_def

lemma fn_key: "reference_key (fn_ref e f n) = Some (f @ ''::'' @ n)"
  by (simp add: reference_key_def function_name_def fn_ref_def)

lemma fn_path: "sref_file_path (fn_ref e f n) = f"
  by (simp add: fn_ref_def)

definition three_refs :: "fresh_event list" where
  "three_refs = [Register (fn_ref ''e1'' ''lib.rs'' ''core''), Register (fn_ref ''e2'' ''app.rs'' ''user''),
     Register (fn_ref ''e3'' ''app.rs'' ''other''), Depend (fn_sym ''app.rs'' ''user'') [fn_sym ''lib.rs'' ''core'']]"

lemma three_refs_ok: "list_all event_ok three_refs"
  by (simp add: three_refs_def fn_defs)

lemma three_refs_view:
  "fa_refs (fold fresh_spec three_refs (fresh_view R [])) =
     [''e1'' \<mapsto> fn_ref ''e1'' ''lib.rs'' ''core'', ''e2'' \<mapsto> fn_ref ''e2'' ''app.rs'' ''user'', ''e3'' \<mapsto> fn_ref ''e3'' ''app.rs'' ''other'']"
  "fa_edges (fold fresh_spec three_refs (fresh_view R [])) =
     {(''lib.rs::core'', ''app.rs::user''), (''::core'', ''app.rs::user'')}"
  by (auto simp: three_refs_def fresh_view_def refs_def fn_ref_def fn_sym_def new_edges_def target_key_def symbol_key_def fun_eq_iff)


lemma cascade_exact_witness:
  "\<exists>db db' rep. fresh_run fresh_codec three_refs [] = Some db \<and>
    cascade_invalidate fresh_codec (fn_sym ''lib.rs'' ''core'') 1 db = Some (db', rep) \<and>
    cr_invalidated_symbols rep = [''app.rs::user''] \<and> cr_direct_invalidations rep = 1 \<and> cr_cascade_invalidations rep = 1 \<and>
    refs fresh_codec db' = [''e3'' \<mapsto> fn_ref ''e3'' ''app.rs'' ''other'']"
proof -
  obtain db where db: "fresh_run fresh_codec three_refs [] = Some db" "fresh_inv fresh_codec db"
      "fresh_view fresh_codec db = fold fresh_spec three_refs (fresh_view fresh_codec [])"
    using fr.fresh_run_view [OF fresh_inv_empty three_refs_ok] by blast
  have r: "refs fresh_codec db = [''e1'' \<mapsto> fn_ref ''e1'' ''lib.rs'' ''core'', ''e2'' \<mapsto> fn_ref ''e2'' ''app.rs'' ''user'',
      ''e3'' \<mapsto> fn_ref ''e3'' ''app.rs'' ''other'']"
    using arg_cong [OF db(3), of fa_refs] unfolding three_refs_view by (simp add: fresh_view_def)
  have key: "symbol_key (fn_sym ''lib.rs'' ''core'') = ''lib.rs::core''" by (simp add: symbol_key_def fn_sym_def)
  have w: "abs_within (fa_edges (fresh_view fresh_codec db)) ''lib.rs::core'' 1 = {''lib.rs::core'', ''app.rs::user''}"
    unfolding db(3) three_refs_view by (auto simp: abs_within_def abs_dependents_def)
  have plain: "plain_path (sym_file_path (fn_sym ''lib.rs'' ''core''))" by (simp add: fn_defs)
  obtain db' rep where E: "cascade_invalidate fresh_codec (fn_sym ''lib.rs'' ''core'') 1 db = Some (db', rep)"
      "distinct (cr_invalidated_symbols rep)"
      "set (cr_invalidated_symbols rep) = {''lib.rs::core'', ''app.rs::user''} - {''lib.rs::core''}"
      "refs fresh_codec db' = drop_refs (\<lambda>r. reference_key r \<in> Some ` insert ''lib.rs::core'' (set (cr_invalidated_symbols rep))) (refs fresh_codec db)"
      "cr_direct_invalidations rep = of_nat (card {r. \<exists>e. refs fresh_codec db e = Some r \<and> reference_key r = Some ''lib.rs::core''})"
      "cr_cascade_invalidations rep =
        of_nat (card {r. \<exists>e. refs fresh_codec db e = Some r \<and> reference_key r \<in> Some ` set (cr_invalidated_symbols rep)})"
    using cascade_exact [OF db(2) plain, of 1] unfolding key w by blast
  have s: "set (cr_invalidated_symbols rep) = {''app.rs::user''}" unfolding E(3) by auto
  then have "cr_invalidated_symbols rep = [''app.rs::user'']"
    using E(2) by (cases "cr_invalidated_symbols rep" rule: remdups_adj.cases) (auto split: if_splits)
  moreover have "{r. \<exists>e. refs fresh_codec db e = Some r \<and> P r} = {r \<in> {fn_ref ''e1'' ''lib.rs'' ''core'',
      fn_ref ''e2'' ''app.rs'' ''user'', fn_ref ''e3'' ''app.rs'' ''other''}. P r}" for P
  proof -
    have "ran (refs fresh_codec db) = {fn_ref ''e1'' ''lib.rs'' ''core'', fn_ref ''e2'' ''app.rs'' ''user'', fn_ref ''e3'' ''app.rs'' ''other''}"
      unfolding r by (simp add: insert_commute)
    then show ?thesis unfolding ran_def by blast
  qed
  moreover have "{r \<in> {fn_ref ''e1'' ''lib.rs'' ''core'', fn_ref ''e2'' ''app.rs'' ''user'', fn_ref ''e3'' ''app.rs'' ''other''}.
      reference_key r = Some ''lib.rs::core''} = {fn_ref ''e1'' ''lib.rs'' ''core''}"
    by (auto simp: fn_key)
  moreover have "{r \<in> {fn_ref ''e1'' ''lib.rs'' ''core'', fn_ref ''e2'' ''app.rs'' ''user'', fn_ref ''e3'' ''app.rs'' ''other''}.
      reference_key r \<in> Some ` {''app.rs::user''}} = {fn_ref ''e2'' ''app.rs'' ''user''}"
    by (auto simp: fn_key)
  moreover have "refs fresh_codec db' = [''e3'' \<mapsto> fn_ref ''e3'' ''app.rs'' ''other'']"
    unfolding E(4) s r by (simp add: drop_refs_def fn_key fun_eq_iff)
  ultimately show ?thesis using db(1) E(1,5,6) unfolding s by (intro exI [of _ db] exI [of _ db'] exI [of _ rep]) simp
qed

section \<open>Ids with a bar\<close>

text \<open>
  The index key of a record is its path, a bar and its id, so an id with a bar can share the key of
  another record: registering the records \<open>x|y\<close> of file \<open>f\<close> and \<open>y\<close> of file \<open>f|x\<close> and
  invalidating the second file loses the first record from the index; it is still stored and still
  checked, but no longer listed or invalidated with its file.
\<close>

definition bar_db :: "stored_ref db option" where
  "bar_db = Option.bind (register_source fresh_codec (fn_ref ''x|y'' ''f'' ''n'') [])
     (\<lambda>db. map_option (\<lambda>db. fst (invalidate_source fresh_codec ''f|x'' db))
       (register_source fresh_codec (fn_ref ''y'' ''f|x'' ''n'') db))"

lemma bar_in_id_loses_index:
  "map_option (\<lambda>db. (get_entries_by_source fresh_codec ''f'' db, refs fresh_codec db ''x|y'')) bar_db =
   Some ([], Some (fn_ref ''x|y'' ''f'' ''n''))"
  by code_simp

end
