(* ===== verification/Freshness_Service.thy ===== *)
theory Freshness_Service
  imports Freshness_Props "HOL-Library.Multiset"
begin

text \<open>
  The freshness calls of the gRPC service, \<open>daemon/grpc_service/freshness.rs\<close>, over the store. A
  failing store is a value here too: a call that hits an undecodable row answers with an error, or
  with \<open>Unknown\<close> for every entry when it is a check.
\<close>

datatype grpc_status = Invalid_Argument string | Internal

record freshness_check =
  fck_content_hash :: bytes
  fck_ast_hash :: bytes
  fck_symbol_name :: bytes

record freshness_request =
  frq_entry_ids :: "bytes list"
  frq_current_hashes :: "(bytes \<times> bytes) list"
  frq_checks :: "freshness_check list"

definition grpc_register_source ::
  "'v ref_codec \<Rightarrow> source_reference option \<Rightarrow> 'v db \<Rightarrow> 'v db \<times> grpc_status option" where
  "grpc_register_source R source_ref db =
     (case source_ref of
        None \<Rightarrow> (db, Some (Invalid_Argument ''Missing source_ref in request''))
      | Some r \<Rightarrow> (case register_source R r db of
            None \<Rightarrow> (db, Some Internal)
          | Some db' \<Rightarrow> (db', None)))"

text \<open>
  The references of a batch are registered concurrently, one message to the store each: \<open>order\<close> is
  the list in the order in which the store takes them.
\<close>

fun grpc_register_batch :: "'v ref_codec \<Rightarrow> source_reference list \<Rightarrow> 'v db \<times> u32 \<Rightarrow> 'v db \<times> u32" where
  "grpc_register_batch R [] st = st"
| "grpc_register_batch R (r # order) (db, registered) =
     grpc_register_batch R order
       (case register_source R r db of
          None \<Rightarrow> (db, registered)
        | Some db' \<Rightarrow> (db', registered + 1))"

text \<open>The indexing of the three parallel lists is in range by the test on their lengths.\<close>

definition check_batch :: "freshness_request \<Rightarrow> (bytes \<times> bytes \<times> bytes option \<times> bytes option) list" where
  "check_batch req =
     (let has_checks = length (frq_checks req) = length (frq_entry_ids req)
      in map (\<lambda>i. (frq_entry_ids req ! i, snd (frq_current_hashes req ! i),
             if has_checks \<and> fck_ast_hash (frq_checks req ! i) \<noteq> [] then Some (fck_ast_hash (frq_checks req ! i)) else None,
             if has_checks \<and> fck_symbol_name (frq_checks req ! i) \<noteq> [] then Some (fck_symbol_name (frq_checks req ! i)) else None))
           [0..<length (frq_entry_ids req)])"

definition unknown_report :: "freshness_request \<Rightarrow> freshness_entry list" where
  "unknown_report req =
     map (\<lambda>i. \<lparr>fe_entry_id = frq_entry_ids req ! i, fe_file_path = fst (frq_current_hashes req ! i), fe_status = Unknown,
               fe_stored_hash = [], fe_current_hash = snd (frq_current_hashes req ! i)\<rparr>)
       [0..<length (frq_entry_ids req)]"

text \<open>\<open>batch\<close> is the storage call; \<open>None\<close> is its failure.\<close>

definition grpc_check_freshness ::
  "((bytes \<times> bytes \<times> bytes option \<times> bytes option) list \<Rightarrow> freshness_entry list option) \<Rightarrow>
   freshness_request \<Rightarrow> grpc_status + freshness_entry list" where
  "grpc_check_freshness batch req =
     (if length (frq_entry_ids req) \<noteq> length (frq_current_hashes req)
      then Inl (Invalid_Argument ''entry_ids and current_hashes must have the same length'')
      else (case batch (check_batch req) of
              Some entries \<Rightarrow> Inr entries
            | None \<Rightarrow> Inr (unknown_report req)))"

definition grpc_register_symbol_dependency ::
  "'v ref_codec \<Rightarrow> symbol_id option \<Rightarrow> symbol_id list \<Rightarrow> 'v db \<Rightarrow> 'v db \<times> (grpc_status + u32)" where
  "grpc_register_symbol_dependency R from_symbol to_symbols db =
     (case from_symbol of
        None \<Rightarrow> (db, Inl (Invalid_Argument ''Missing from_symbol''))
      | Some s \<Rightarrow> (case register_symbol_dependencies R s to_symbols db of (db', n) \<Rightarrow> (db', Inr n)))"

definition cascade_depth :: "u32 \<Rightarrow> nat" where
  "cascade_depth max_depth = (if max_depth = 0 then 10 else unat max_depth)"

definition grpc_cascade_invalidate ::
  "'v ref_codec \<Rightarrow> symbol_id option \<Rightarrow> u32 \<Rightarrow> 'v db \<Rightarrow> 'v db \<times> (grpc_status + cascade_report)" where
  "grpc_cascade_invalidate R changed_symbol max_depth db =
     (case changed_symbol of
        None \<Rightarrow> (db, Inl (Invalid_Argument ''Missing changed_symbol''))
      | Some c \<Rightarrow> (case cascade_invalidate R c (cascade_depth max_depth) db of
            None \<Rightarrow> (db, Inl Internal)
          | Some (db', report) \<Rightarrow> (db', Inr report)))"

section \<open>Batches\<close>

lemma check_freshness_batch_map:
  "check_freshness_batch R xs db = map (\<lambda>(e, h, a, n). freshness_of e (refs R db e) h a) xs"
  by (simp add: check_freshness_batch_def refs_def)

context reference_codec
begin

lemma register_batch_view:
  fixes db :: "'v db"
  shows "fresh_inv R db \<Longrightarrow> list_all (\<lambda>r. event_ok (Register r)) order \<Longrightarrow>
    \<exists>db'. grpc_register_batch R order (db, n) = (db', n + of_nat (length order)) \<and> fresh_inv R db' \<and>
      fresh_view R db' = fold (\<lambda>r. fresh_spec (Register r)) order (fresh_view R db)"
proof (induction order arbitrary: db n)
  case (Cons r order)
  obtain db1 where d: "register_source R r db = Some db1" "fresh_inv R db1" "fresh_view R db1 = fresh_spec (Register r) (fresh_view R db)"
    using fresh_step_view [of db "Register r"] Cons.prems by (auto simp: fresh_step_def)
  have "list_all (\<lambda>r. event_ok (Register r)) order" using Cons.prems(2) by simp
  then obtain db' where e: "grpc_register_batch R order (db1, n + 1) = (db', n + 1 + of_nat (length order))" "fresh_inv R db'"
      "fresh_view R db' = fold (\<lambda>r. fresh_spec (Register r)) order (fresh_view R db1)"
    using Cons.IH [OF d(2), of "n + 1"] by blast
  have "grpc_register_batch R (r # order) (db, n) = (db', n + of_nat (length (r # order)))"
    using d(1) e(1) by simp
  then show ?case using e(2,3) d(3) by (intro exI [of _ db']) (simp del: fresh_spec.simps)
qed simp

end

lemma register_specs_commute:
  "sref_entry_id r \<noteq> sref_entry_id r' \<Longrightarrow>
   fresh_spec (Register r) \<circ> fresh_spec (Register r') = fresh_spec (Register r') \<circ> fresh_spec (Register r)"
  by (simp add: fun_eq_iff fun_upd_twist)

lemma register_specs_permute:
  assumes "distinct (map sref_entry_id rs)" and "mset rs = mset rs'"
  shows "fold (\<lambda>r. fresh_spec (Register r)) rs = fold (\<lambda>r. fresh_spec (Register r)) rs'"
proof (rule fold_multiset_equiv [OF _ assms(2)])
  fix r r' assume "r \<in> set rs" "r' \<in> set rs"
  then show "fresh_spec (Register r) \<circ> fresh_spec (Register r') = fresh_spec (Register r') \<circ> fresh_spec (Register r)"
    using assms(1) register_specs_commute [of r r'] by (cases "r = r'") (auto simp: distinct_map inj_on_def)
qed

definition check_spec :: "(bytes \<Rightarrow> source_reference option) \<Rightarrow> freshness_request \<Rightarrow> grpc_status + freshness_entry list" where
  "check_spec references req =
     (if length (frq_entry_ids req) = length (frq_current_hashes req)
      then Inr (map (\<lambda>i. freshness_of (frq_entry_ids req ! i) (references (frq_entry_ids req ! i))
          (snd (frq_current_hashes req ! i))
          (if length (frq_checks req) = length (frq_entry_ids req) \<and> fck_ast_hash (frq_checks req ! i) \<noteq> []
           then Some (fck_ast_hash (frq_checks req ! i)) else None)) [0..<length (frq_entry_ids req)])
      else Inl (Invalid_Argument ''entry_ids and current_hashes must have the same length''))"

section \<open>Claims\<close>

text \<open>
  A batch of references of different records is registered whole, whatever the order in which the
  store takes them, and counted; a check of it then answers, when the lists of ids and hashes have
  the same length, with one entry per id in order, each the comparison of that record's reference
  with the AST hash of its check when there is one check per id and it is not empty, and with the
  file hash otherwise; lists of different lengths are refused.
\<close>

theorem batches_answer_in_order:
  assumes "reference_codec R" and "fresh_inv R db" and "list_all (\<lambda>r. event_ok (Register r)) rs"
    and "distinct (map sref_entry_id rs)" and "mset order = mset rs"
  shows "\<exists>db'. grpc_register_batch R order (db, 0) = (db', of_nat (length rs)) \<and> fresh_inv R db' \<and>
    fresh_view R db' = fold (\<lambda>r. fresh_spec (Register r)) rs (fresh_view R db) \<and>
    (\<forall>req. grpc_check_freshness (\<lambda>xs. Some (check_freshness_batch R xs db')) req = check_spec (fa_refs (fresh_view R db')) req)"
proof -
  have "list_all (\<lambda>r. event_ok (Register r)) order"
    using assms(3) mset_eq_setD [OF assms(5)] by (simp add: list_all_iff)
  then obtain db' where d: "grpc_register_batch R order (db, 0) = (db', 0 + of_nat (length order))" "fresh_inv R db'"
      "fresh_view R db' = fold (\<lambda>r. fresh_spec (Register r)) order (fresh_view R db)"
    using reference_codec.register_batch_view [OF assms(1,2)] by blast
  have "fold (\<lambda>r. fresh_spec (Register r)) rs = fold (\<lambda>r. fresh_spec (Register r)) order"
    by (rule register_specs_permute [OF assms(4) assms(5) [symmetric]])
  moreover have "length order = length rs" using mset_eq_length [OF assms(5)] .
  moreover have "fa_refs (fresh_view R db') = refs R db'" by (simp add: fresh_view_def)
  ultimately show ?thesis
    using d by (intro exI [of _ db'])
      (simp add: grpc_check_freshness_def check_spec_def check_freshness_batch_map check_batch_def Let_def o_def del: fresh_spec.simps)
qed

definition two_checks :: freshness_request where
  "two_checks = \<lparr>frq_entry_ids = [''e1'', ''e9''], frq_current_hashes = [(''lib.rs'', ''h''), (''x.rs'', ''h'')], frq_checks = []\<rparr>"

lemma batches_answer_in_order_witness:
  "\<exists>db'. grpc_register_batch fresh_codec [fn_ref ''e2'' ''app.rs'' ''user'', fn_ref ''e1'' ''lib.rs'' ''core''] ([], 0) = (db', 2) \<and>
    map_sum id (map fe_status) (grpc_check_freshness (\<lambda>xs. Some (check_freshness_batch fresh_codec xs db')) two_checks) = Inr [Fresh, Unknown]"
proof -
  let ?rs = "[fn_ref ''e1'' ''lib.rs'' ''core'', fn_ref ''e2'' ''app.rs'' ''user'']"
  let ?order = "[fn_ref ''e2'' ''app.rs'' ''user'', fn_ref ''e1'' ''lib.rs'' ''core'']"
  have ok: "list_all (\<lambda>r. event_ok (Register r)) ?rs" "distinct (map sref_entry_id ?rs)"
    by (simp_all add: fn_defs)
  have m: "mset ?order = mset ?rs" by simp
  obtain db' where d: "grpc_register_batch fresh_codec ?order ([], 0) = (db', of_nat (length ?rs))"
      "fresh_view fresh_codec db' = fold (\<lambda>r. fresh_spec (Register r)) ?rs (fresh_view fresh_codec [])"
      "\<forall>req. grpc_check_freshness (\<lambda>xs. Some (check_freshness_batch fresh_codec xs db')) req =
        check_spec (fa_refs (fresh_view fresh_codec db')) req"
    using batches_answer_in_order [OF fr.reference_codec_axioms fresh_inv_empty ok m] by blast
  have "fa_refs (fresh_view fresh_codec db') = [''e1'' \<mapsto> fn_ref ''e1'' ''lib.rs'' ''core'', ''e2'' \<mapsto> fn_ref ''e2'' ''app.rs'' ''user'']"
    unfolding d(2) by (simp add: fresh_view_def refs_def fn_ref_def fun_eq_iff)
  then have "map_sum id (map fe_status) (grpc_check_freshness (\<lambda>xs. Some (check_freshness_batch fresh_codec xs db')) two_checks) = Inr [Fresh, Unknown]"
    unfolding d(3) [rule_format] by (simp add: two_checks_def check_spec_def upt_rec freshness_of_def fn_ref_def stored_ast_def)
  then show ?thesis using d(1) by auto
qed

end
