(* ===== verification/Lru_Cache.thy ===== *)
theory Lru_Cache
  imports Context_Update "HOL-Library.AList" "HOL-Library.Word"
begin

text \<open>
  The cache of \<open>post-cortex-core/src/core/cache.rs\<close>: approximate least-recently-used eviction over a
  concurrent map, with a logical clock and a sample window that rotates through the map. Each call
  is one step here. The map is its list of entries; \<open>iter\<close> is the order in which an iterator of the
  concurrent map yields them, which the code leaves to its hashing.
\<close>

type_synonym u64 = "64 word"

record 'v cache_entry =
  ce_value :: 'v
  ce_access_count :: u64
  ce_last_accessed :: u64
  ce_created_at :: u64

datatype 'k eviction_event =
    Should_Evict 'k u64 u64
  | Evicted 'k u64

record ('k, 'v) lru =
  lru_data :: "('k \<times> 'v cache_entry) list"
  lru_capacity :: nat
  lru_size :: nat
  lru_clock :: u64
  lru_hits :: u64
  lru_misses :: u64
  lru_evictions :: u64
  lru_cursor :: u64
  lru_name :: string
  lru_created_at :: u64
  lru_events :: "'k eviction_event list"

type_synonym ('k, 'v) map_iter = "('k \<times> 'v cache_entry) list \<Rightarrow> ('k \<times> 'v cache_entry) list"

section \<open>Entries\<close>

definition new_with_logical_time :: "'v \<Rightarrow> u64 \<Rightarrow> 'v cache_entry" where
  "new_with_logical_time v t = \<lparr>ce_value = v, ce_access_count = 1, ce_last_accessed = t, ce_created_at = t\<rparr>"

definition touch :: "u64 \<Rightarrow> 'v cache_entry \<Rightarrow> 'v cache_entry" where
  "touch logical_time e = e\<lparr>ce_last_accessed := logical_time, ce_access_count := ce_access_count e + 1\<rparr>"

definition saturating_sub :: "u64 \<Rightarrow> u64 \<Rightarrow> u64" where
  "saturating_sub a b = (if b \<le> a then a - b else 0)"

definition priority_score :: "u64 \<Rightarrow> 'v cache_entry \<Rightarrow> u64" where
  "priority_score now e =
     (let recency = saturating_sub now (ce_last_accessed e);
          frequency = (if ce_access_count e > 0 then 1000 div ce_access_count e else 1000)
      in recency + frequency)"

section \<open>Operations\<close>

definition new_lru :: "nat \<Rightarrow> string \<Rightarrow> u64 \<Rightarrow> (string, ('k, 'v) lru) result" where
  "new_lru capacity name now =
     (if capacity = 0 then Err ''Cache capacity must be greater than 0''
      else Ok \<lparr>lru_data = [], lru_capacity = capacity, lru_size = 0, lru_clock = 0, lru_hits = 0, lru_misses = 0,
               lru_evictions = 0, lru_cursor = 0, lru_name = name, lru_created_at = now, lru_events = []\<rparr>)"

definition lru_get :: "'k \<Rightarrow> ('k, 'v) lru \<Rightarrow> ('k, 'v) lru \<times> 'v option" where
  "lru_get key c =
     (case map_of (lru_data c) key of
        Some e \<Rightarrow>
          let t = lru_clock c + 1
          in (c\<lparr>lru_clock := t, lru_data := AList.map_entry key (touch t) (lru_data c), lru_hits := lru_hits c + 1\<rparr>,
              Some (ce_value e))
      | None \<Rightarrow> (c\<lparr>lru_misses := lru_misses c + 1\<rparr>, None))"

definition eviction_sample :: nat where
  "eviction_sample = 20"

text \<open>The entries of the window, from \<open>start\<close> on and then from the beginning.\<close>

definition sample_window :: "nat \<Rightarrow> nat \<Rightarrow> 'a list \<Rightarrow> 'a list" where
  "sample_window start sample_size entries =
     (let first = take sample_size (drop start entries)
      in first @ (if length first < sample_size then take (sample_size - length first) entries else []))"

fun consider_entries :: "u64 \<Rightarrow> 'k option \<Rightarrow> ('k \<times> 'v cache_entry) list \<Rightarrow> ('k \<times> u64) option \<Rightarrow> ('k \<times> u64) option" where
  "consider_entries now exclude [] best = best"
| "consider_entries now exclude ((key, e) # es) best =
     consider_entries now exclude es
       (if exclude = Some key then best
        else let priority = priority_score now e in
          (case best of
             None \<Rightarrow> Some (key, priority)
           | Some (_, highest) \<Rightarrow> if priority > highest then Some (key, priority) else best))"

definition channel_bound :: nat where
  "channel_bound = 1000"

definition try_evict_excluding :: "('k, 'v) map_iter \<Rightarrow> u64 \<Rightarrow> 'k option \<Rightarrow> ('k, 'v) lru \<Rightarrow> ('k, 'v) lru" where
  "try_evict_excluding iter now exclude c =
     (if lru_size c < lru_capacity c then c
      else let len = length (lru_data c) in
        if len = 0 then c
        else let sample_size = min eviction_sample len;
                 start = unat (lru_cursor c) mod len;
                 c' = c\<lparr>lru_cursor := lru_cursor c + of_nat sample_size\<rparr>
          in (case consider_entries (lru_clock c) exclude (sample_window start sample_size (iter (lru_data c))) None of
                None \<Rightarrow> c'
              | Some (key, _) \<Rightarrow>
                  if map_of (lru_data c) key = None then c'
                  else c'\<lparr>lru_data := AList.delete key (lru_data c), lru_size := lru_size c - 1,
                          lru_evictions := lru_evictions c + 1,
                          lru_events := (if length (lru_events c) < channel_bound then lru_events c @ [Evicted key now]
                                         else lru_events c)\<rparr>))"

definition try_evict :: "('k, 'v) map_iter \<Rightarrow> u64 \<Rightarrow> ('k, 'v) lru \<Rightarrow> ('k, 'v) lru" where
  "try_evict iter now c = try_evict_excluding iter now None c"

definition lru_put :: "('k, 'v) map_iter \<Rightarrow> u64 \<Rightarrow> 'k \<Rightarrow> 'v \<Rightarrow> ('k, 'v) lru \<Rightarrow> ('k, 'v) lru \<times> 'v option" where
  "lru_put iter now key v c =
     (let t = lru_clock c + 1;
          entry = new_with_logical_time v t;
          c1 = c\<lparr>lru_clock := t\<rparr>;
          c2 = (if lru_size c1 \<ge> lru_capacity c1 \<and> map_of (lru_data c1) key = None
                then try_evict_excluding iter now (Some key) c1 else c1);
          old = map_option ce_value (map_of (lru_data c2) key);
          c3 = c2\<lparr>lru_data := AList.update key entry (lru_data c2)\<rparr>
      in (if old = None then c3\<lparr>lru_size := lru_size c3 + 1\<rparr> else c3, old))"

definition lru_contains_key :: "'k \<Rightarrow> ('k, 'v) lru \<Rightarrow> bool" where
  "lru_contains_key key c \<longleftrightarrow> map_of (lru_data c) key \<noteq> None"

definition lru_remove :: "'k \<Rightarrow> ('k, 'v) lru \<Rightarrow> ('k, 'v) lru \<times> 'v option" where
  "lru_remove key c =
     (case map_of (lru_data c) key of
        Some e \<Rightarrow> (c\<lparr>lru_data := AList.delete key (lru_data c), lru_size := lru_size c - 1\<rparr>, Some (ce_value e))
      | None \<Rightarrow> (c, None))"

definition lru_clear :: "('k, 'v) lru \<Rightarrow> ('k, 'v) lru" where
  "lru_clear c = c\<lparr>lru_data := [], lru_size := 0\<rparr>"

definition lru_len :: "('k, 'v) lru \<Rightarrow> nat" where "lru_len c = lru_size c"
definition lru_is_empty :: "('k, 'v) lru \<Rightarrow> bool" where "lru_is_empty c \<longleftrightarrow> lru_size c = 0"

definition reset_counters :: "('k, 'v) lru \<Rightarrow> ('k, 'v) lru" where
  "reset_counters c = c\<lparr>lru_hits := 0, lru_misses := 0, lru_evictions := 0\<rparr>"

definition lru_resize :: "('k, 'v) map_iter \<Rightarrow> u64 \<Rightarrow> nat \<Rightarrow> ('k, 'v) lru \<Rightarrow> ('k, 'v) lru \<times> (string, unit) result" where
  "lru_resize iter now new_capacity c =
     (if new_capacity = 0 then (c, Err ''Cache capacity must be greater than 0'')
      else let c' = c\<lparr>lru_capacity := new_capacity\<rparr>
        in ((if new_capacity < lru_size c then (try_evict iter now ^^ (lru_size c - new_capacity)) c' else c'), Ok ()))"

definition lru_keys :: "('k, 'v) map_iter \<Rightarrow> ('k, 'v) lru \<Rightarrow> 'k list" where
  "lru_keys iter c = map fst (iter (lru_data c))"

definition lru_values :: "('k, 'v) map_iter \<Rightarrow> ('k, 'v) lru \<Rightarrow> 'v list" where
  "lru_values iter c = map (\<lambda>e. ce_value (snd e)) (iter (lru_data c))"

definition drain_eviction_events :: "('k, 'v) lru \<Rightarrow> ('k, 'v) lru \<times> 'k eviction_event list" where
  "drain_eviction_events c = (c\<lparr>lru_events := []\<rparr>, lru_events c)"

section \<open>Statistics\<close>

record cache_stats =
  cs_name :: string
  cs_current_size :: nat
  cs_capacity :: nat
  cs_utilization :: real
  cs_total_requests :: u64
  cs_hits :: u64
  cs_misses :: u64
  cs_evictions :: u64
  cs_hit_rate :: real
  cs_miss_rate :: real
  cs_avg_lookup_time_ns :: u64
  cs_created_at :: u64
  cs_uptime_seconds :: u64

definition get_stats :: "u64 \<Rightarrow> ('k, 'v) lru \<Rightarrow> cache_stats" where
  "get_stats now c =
     (let total = lru_hits c + lru_misses c;
          hit_rate = (if total > 0 then real (unat (lru_hits c)) / real (unat total) else 0)
      in \<lparr>cs_name = lru_name c, cs_current_size = lru_size c, cs_capacity = lru_capacity c,
          cs_utilization = (if lru_capacity c > 0 then real (lru_size c) / real (lru_capacity c) else 0),
          cs_total_requests = total, cs_hits = lru_hits c, cs_misses = lru_misses c, cs_evictions = lru_evictions c,
          cs_hit_rate = hit_rate, cs_miss_rate = 1 - hit_rate, cs_avg_lookup_time_ns = 0,
          cs_created_at = lru_created_at c, cs_uptime_seconds = saturating_sub now (lru_created_at c)\<rparr>)"

definition has_performance_issues :: "u64 \<Rightarrow> ('k, 'v) lru \<Rightarrow> bool" where
  "has_performance_issues now c \<longleftrightarrow>
     (let stats = get_stats now c;
          eviction_rate = (if cs_total_requests stats > 0
            then real (unat (cs_evictions stats)) / real (unat (cs_total_requests stats)) else 0)
      in cs_hit_rate stats < 3 / 10 \<and> cs_total_requests stats > 100 \<or>
         cs_avg_lookup_time_ns stats > 1000000 \<or> eviction_rate > 1 / 2)"

end
