(* ===== verification/Lru_Cache_Inv.thy ===== *)
theory Lru_Cache_Inv
  imports Lru_Cache "HOL-Library.Multiset"
begin

text \<open>
  The invariant of the cache, the choice of the evicted entry and the rotation of the window. The
  order of iteration is a parameter: it yields every entry once.
\<close>

locale map_iteration =
  fixes iter :: "('k, 'v) map_iter"
  assumes iter_perm: "mset (iter es) = mset es"
begin

lemma length_iter [simp]: "length (iter es) = length es"
  using iter_perm by (rule mset_eq_length)

lemma set_iter [simp]: "set (iter es) = set es"
  using iter_perm by (rule mset_eq_setD)

end

definition lru_wf :: "('k, 'v) lru \<Rightarrow> bool" where
  "lru_wf c \<longleftrightarrow> distinct (map fst (lru_data c)) \<and> lru_size c = length (lru_data c) \<and>
     0 < lru_capacity c \<and> length (lru_events c) \<le> channel_bound"

definition lru_ok :: "('k, 'v) lru \<Rightarrow> bool" where
  "lru_ok c \<longleftrightarrow> lru_wf c \<and> lru_size c \<le> lru_capacity c"

definition lru_view :: "('k, 'v) lru \<Rightarrow> 'k \<Rightarrow> 'v option" where
  "lru_view c k = map_option ce_value (map_of (lru_data c) k)"

section \<open>The window\<close>

lemma sample_window_rotate:
  assumes "start < length es" and "n \<le> length es"
  shows "sample_window start n es = take n (rotate start es)"
proof -
  have "rotate start es = drop start es @ take start es" using assms by (simp add: rotate_drop_take)
  moreover have "take (n - length (drop start es)) (take start es) = take (n - length (drop start es)) es"
    using assms by (simp add: min_def)
  ultimately show ?thesis by (auto simp: sample_window_def Let_def)
qed

lemma set_sample_window: "set (sample_window start n es) \<subseteq> set es"
  by (auto simp: sample_window_def Let_def dest: in_set_takeD in_set_dropD)

lemma sample_window_nonempty: "0 < n \<Longrightarrow> start < length es \<Longrightarrow> sample_window start n es \<noteq> []"
  by (auto simp: sample_window_def Let_def)

lemma nth_sample_window:
  assumes "start < length es" and "n \<le> length es" and "i < n"
  shows "sample_window start n es ! i = es ! ((start + i) mod length es)"
  using assms by (simp add: sample_window_rotate nth_rotate)

section \<open>The victim\<close>

lemma consider_best:
  "consider_entries now ex es best = (case filter (\<lambda>e. ex \<noteq> Some (fst e)) es of
     [] \<Rightarrow> best | _ \<Rightarrow> consider_entries now ex es best)"
  by (induction now ex es best rule: consider_entries.induct) (auto split: list.split)

lemma consider_some:
  assumes "consider_entries now ex es best = Some (k, p)"
  shows "(best = Some (k, p) \<or> (\<exists>e. (k, e) \<in> set es \<and> ex \<noteq> Some k \<and> p = priority_score now e)) \<and>
    (\<forall>q. best = Some q \<longrightarrow> snd q \<le> p) \<and> (\<forall>(k', e') \<in> set es. ex \<noteq> Some k' \<longrightarrow> priority_score now e' \<le> p)"
  using assms
proof (induction now ex es best rule: consider_entries.induct)
  case (2 now ex key e es best)
  let ?b = "if ex = Some key then best
        else let priority = priority_score now e in
          (case best of
             None \<Rightarrow> Some (key, priority)
           | Some (_, highest) \<Rightarrow> if priority > highest then Some (key, priority) else best)"
  have IH: "(?b = Some (k, p) \<or> (\<exists>e. (k, e) \<in> set es \<and> ex \<noteq> Some k \<and> p = priority_score now e)) \<and>
      (\<forall>q. ?b = Some q \<longrightarrow> snd q \<le> p) \<and> (\<forall>(k', e') \<in> set es. ex \<noteq> Some k' \<longrightarrow> priority_score now e' \<le> p)"
    using 2 by simp
  show ?case
  proof (cases "ex = Some key")
    case True
    then show ?thesis using IH by auto
  next
    case False
    have "(\<forall>q. best = Some q \<longrightarrow> snd q \<le> p) \<and> priority_score now e \<le> p"
      using IH False by (cases best) (auto simp: Let_def split: if_splits)
    moreover have "?b = Some (k, p) \<Longrightarrow> best = Some (k, p) \<or> (key = k \<and> p = priority_score now e)"
      using False by (cases best) (auto simp: Let_def split: if_splits)
    ultimately show ?thesis using IH False by auto
  qed
qed auto

lemma consider_none: "consider_entries now ex es best = None \<longleftrightarrow> best = None \<and> (\<forall>e \<in> set es. ex = Some (fst e))"
  by (induction now ex es best rule: consider_entries.induct) (auto simp: Let_def split: option.split prod.split)

section \<open>Lists of entries\<close>

lemma length_delete: "distinct (map fst es) \<Longrightarrow> map_of es k \<noteq> None \<Longrightarrow> length (AList.delete k es) = length es - 1"
proof (induction es)
  case (Cons e es)
  then show ?case
  proof (cases "fst e = k")
    case True
    then have "AList.delete k es = es" using Cons.prems(1) by (intro delete_id) auto
    then show ?thesis using True by simp
  qed (use Cons in \<open>cases es; auto\<close>)
qed simp

lemma length_map_entry: "length (AList.map_entry k f es) = length es"
  by (induction es) auto

lemma length_update:
  "length (AList.update k v es) = (if map_of es k = None then Suc (length es) else length es)"
  by (induction es) auto

definition chosen :: "('k, 'v) map_iter \<Rightarrow> 'k option \<Rightarrow> ('k, 'v) lru \<Rightarrow> 'k \<Rightarrow> bool" where
  "chosen iter ex c k \<longleftrightarrow>
     (let n = min eviction_sample (length (lru_data c));
          window = sample_window (unat (lru_cursor c) mod length (lru_data c)) n (iter (lru_data c))
      in ex \<noteq> Some k \<and> (\<exists>e. (k, e) \<in> set window \<and>
        (\<forall>(k', e') \<in> set window. ex \<noteq> Some k' \<longrightarrow> priority_score (lru_clock c) e' \<le> priority_score (lru_clock c) e)))"

section \<open>Operations that do not evict\<close>

lemma get_spec:
  fixes c :: "('k, 'v) lru" and key :: 'k
  assumes "lru_ok c"
  shows "lru_ok (fst (lru_get key c))" and "snd (lru_get key c) = lru_view c key"
    and "lru_view (fst (lru_get key c)) = lru_view c"
  using assms
  by (auto simp: lru_get_def lru_ok_def lru_wf_def lru_view_def map_of_map_entry distinct_map_entry length_map_entry touch_def fun_eq_iff Let_def
      split: option.split)

lemma remove_spec:
  fixes c :: "('k, 'v) lru" and key :: 'k
  assumes "lru_ok c"
  shows "lru_ok (fst (lru_remove key c))" and "snd (lru_remove key c) = lru_view c key"
    and "lru_view (fst (lru_remove key c)) = (lru_view c)(key := None)"
  using assms
  by (auto simp: lru_remove_def lru_ok_def lru_wf_def lru_view_def delete_conv distinct_delete length_delete fun_eq_iff
      split: option.split)

section \<open>Eviction\<close>

context map_iteration
begin

lemma evict_spec:
  assumes ok: "lru_wf c" and full: "lru_capacity c \<le> lru_size c" and ex: "\<forall>k. ex = Some k \<longrightarrow> map_of (lru_data c) k = None"
    and ne: "lru_data c \<noteq> []"
  shows "\<exists>k. chosen iter ex c k \<and> map_of (lru_data c) k \<noteq> None \<and>
    try_evict_excluding iter now ex c =
      c\<lparr>lru_cursor := lru_cursor c + of_nat (min eviction_sample (length (lru_data c))),
        lru_data := AList.delete k (lru_data c), lru_size := lru_size c - 1, lru_evictions := lru_evictions c + 1,
        lru_events := (if length (lru_events c) < channel_bound then lru_events c @ [Evicted k now] else lru_events c)\<rparr>"
proof -
  let ?len = "length (lru_data c)"
  let ?n = "min eviction_sample ?len"
  let ?start = "unat (lru_cursor c) mod ?len"
  let ?w = "sample_window ?start ?n (iter (lru_data c))"
  have sub: "set ?w \<subseteq> set (lru_data c)" using set_sample_window [of ?start ?n "iter (lru_data c)"] by simp
  have absent: "map_of (lru_data c) k \<noteq> None" if "(k, e) \<in> set ?w" for k e
    using sub that weak_map_of_SomeI by fastforce
  have wne: "?w \<noteq> []" by (rule sample_window_nonempty) (use ne in \<open>simp_all add: eviction_sample_def\<close>)
  then have "consider_entries (lru_clock c) ex ?w None \<noteq> None"
    unfolding consider_none using absent ex by (cases ?w) (auto, metis list.set_intros(1) option.distinct(1))
  then obtain k p where k: "consider_entries (lru_clock c) ex ?w None = Some (k, p)" by auto
  note C = consider_some [OF k]
  then obtain e where e: "(k, e) \<in> set ?w" "ex \<noteq> Some k" "p = priority_score (lru_clock c) e" by auto
  have "chosen iter ex c k" unfolding chosen_def Let_def using C e by blast
  moreover have "map_of (lru_data c) k \<noteq> None" using absent e(1) .
  ultimately show ?thesis
    using full ne k by (intro exI [of _ k]) (auto simp: try_evict_excluding_def Let_def)
qed

lemma evict_ok:
  assumes "lru_wf c" and "lru_capacity c \<le> lru_size c" and "\<forall>k. ex = Some k \<longrightarrow> map_of (lru_data c) k = None"
  shows "lru_wf (try_evict_excluding iter now ex c)"
    and "lru_size (try_evict_excluding iter now ex c) = lru_size c - 1"
    and "lru_capacity (try_evict_excluding iter now ex c) = lru_capacity c"
proof -
  have ne: "lru_data c \<noteq> []" using assms(1,2) by (auto simp: lru_wf_def)
  obtain k where "map_of (lru_data c) k \<noteq> None" "try_evict_excluding iter now ex c =
      c\<lparr>lru_cursor := lru_cursor c + of_nat (min eviction_sample (length (lru_data c))),
        lru_data := AList.delete k (lru_data c), lru_size := lru_size c - 1, lru_evictions := lru_evictions c + 1,
        lru_events := (if length (lru_events c) < channel_bound then lru_events c @ [Evicted k now] else lru_events c)\<rparr>"
    using evict_spec [OF assms ne] by blast
  then show "lru_wf (try_evict_excluding iter now ex c)" "lru_size (try_evict_excluding iter now ex c) = lru_size c - 1"
      "lru_capacity (try_evict_excluding iter now ex c) = lru_capacity c"
    using assms(1) by (auto simp: lru_wf_def distinct_delete length_delete)
qed

lemma put_spec:
  assumes ok: "lru_ok c"
  shows "lru_ok (fst (lru_put iter now key v c))"
    and "snd (lru_put iter now key v c) = lru_view c key"
    and "lru_view c key \<noteq> None \<or> lru_size c < lru_capacity c \<Longrightarrow>
      lru_view (fst (lru_put iter now key v c)) = (lru_view c)(key \<mapsto> v) \<and>
      lru_evictions (fst (lru_put iter now key v c)) = lru_evictions c \<and>
      lru_cursor (fst (lru_put iter now key v c)) = lru_cursor c"
    and "lru_view c key = None \<Longrightarrow> lru_size c = lru_capacity c \<Longrightarrow>
      \<exists>k. k \<noteq> key \<and> lru_view c k \<noteq> None \<and> chosen iter (Some key) (c\<lparr>lru_clock := lru_clock c + 1\<rparr>) k \<and>
        lru_view (fst (lru_put iter now key v c)) = (lru_view c)(k := None, key \<mapsto> v) \<and>
        lru_evictions (fst (lru_put iter now key v c)) = lru_evictions c + 1 \<and>
        lru_size (fst (lru_put iter now key v c)) = lru_capacity c \<and>
        lru_cursor (fst (lru_put iter now key v c)) = lru_cursor c + of_nat (min eviction_sample (lru_capacity c))"
proof -
  let ?c1 = "c\<lparr>lru_clock := lru_clock c + 1\<rparr>"
  have wf1: "lru_wf ?c1" using ok by (simp add: lru_ok_def lru_wf_def)
  let ?r = "lru_put iter now key v c"
  have stay: "lru_ok (fst ?r) \<and> snd ?r = lru_view c key \<and> lru_view (fst ?r) = (lru_view c)(key \<mapsto> v) \<and>
      lru_evictions (fst ?r) = lru_evictions c \<and> lru_cursor (fst ?r) = lru_cursor c"
    if "lru_view c key \<noteq> None \<or> lru_size c < lru_capacity c"
    using that ok
    by (auto simp: lru_put_def Let_def lru_ok_def lru_wf_def lru_view_def update_conv distinct_update length_update
        new_with_logical_time_def fun_eq_iff)
  have evicted: "lru_ok (fst ?r) \<and> snd ?r = None \<and>
      (\<exists>k. k \<noteq> key \<and> lru_view c k \<noteq> None \<and> chosen iter (Some key) ?c1 k \<and>
        lru_view (fst ?r) = (lru_view c)(k := None, key \<mapsto> v) \<and> lru_evictions (fst ?r) = lru_evictions c + 1 \<and>
        lru_size (fst ?r) = lru_capacity c \<and> lru_cursor (fst ?r) = lru_cursor c + of_nat (min eviction_sample (lru_capacity c)))"
    if new: "lru_view c key = None" and full: "lru_size c = lru_capacity c"
  proof -
    have absent: "map_of (lru_data c) key = None" using new by (simp add: lru_view_def)
    have len: "length (lru_data c) = lru_capacity c" "0 < lru_capacity c" using ok full unfolding lru_ok_def lru_wf_def by presburger+
    then have ne: "lru_data c \<noteq> []" by auto
    obtain k where k: "chosen iter (Some key) ?c1 k" "map_of (lru_data c) k \<noteq> None"
      "try_evict_excluding iter now (Some key) ?c1 =
        ?c1\<lparr>lru_cursor := lru_cursor c + of_nat (min eviction_sample (length (lru_data c))),
          lru_data := AList.delete k (lru_data c), lru_size := lru_size c - 1, lru_evictions := lru_evictions c + 1,
          lru_events := (if length (lru_events c) < channel_bound then lru_events c @ [Evicted k now] else lru_events c)\<rparr>"
      using evict_spec [OF wf1, of "Some key" now] full absent ne by auto
    have kk: "k \<noteq> key" using k(2) absent by auto
    have d: "length (AList.delete k (lru_data c)) = lru_capacity c - 1"
      using length_delete [of "lru_data c" k] k(2) ok len by (simp add: lru_ok_def lru_wf_def)
    have "fst ?r = c\<lparr>lru_clock := lru_clock c + 1, lru_cursor := lru_cursor c + of_nat (min eviction_sample (lru_capacity c)),
        lru_data := AList.update key (new_with_logical_time v (lru_clock c + 1)) (AList.delete k (lru_data c)),
        lru_size := lru_capacity c, lru_evictions := lru_evictions c + 1,
        lru_events := (if length (lru_events c) < channel_bound then lru_events c @ [Evicted k now] else lru_events c)\<rparr>"
      and "snd ?r = None"
      using k(3) full absent len kk by (auto simp: lru_put_def Let_def delete_conv)
    then show ?thesis using k kk ok d len absent
      by (intro conjI exI [of _ k])
        (auto simp: lru_ok_def lru_wf_def lru_view_def update_conv delete_conv distinct_update distinct_delete length_update
          new_with_logical_time_def fun_eq_iff)
  qed
  have cs: "(lru_view c key \<noteq> None \<or> lru_size c < lru_capacity c) \<or> (lru_view c key = None \<and> lru_size c = lru_capacity c)"
    using ok by (auto simp: lru_ok_def)
  show "lru_ok (fst ?r)" using cs stay evicted by blast
  show "snd ?r = lru_view c key" using cs stay evicted by fastforce
  show "lru_view c key \<noteq> None \<or> lru_size c < lru_capacity c \<Longrightarrow>
      lru_view (fst ?r) = (lru_view c)(key \<mapsto> v) \<and> lru_evictions (fst ?r) = lru_evictions c \<and> lru_cursor (fst ?r) = lru_cursor c"
    using stay by blast
  show "lru_view c key = None \<Longrightarrow> lru_size c = lru_capacity c \<Longrightarrow>
      \<exists>k. k \<noteq> key \<and> lru_view c k \<noteq> None \<and> chosen iter (Some key) ?c1 k \<and>
        lru_view (fst ?r) = (lru_view c)(k := None, key \<mapsto> v) \<and> lru_evictions (fst ?r) = lru_evictions c + 1 \<and>
        lru_size (fst ?r) = lru_capacity c \<and> lru_cursor (fst ?r) = lru_cursor c + of_nat (min eviction_sample (lru_capacity c))"
    using evicted by blast
qed

lemma put_capacity: "lru_capacity (fst (lru_put iter now key v c)) = lru_capacity c"
  by (simp add: lru_put_def try_evict_excluding_def Let_def split: option.split)

lemma evict_many:
  "lru_wf c \<Longrightarrow> lru_capacity c + n \<le> Suc (lru_size c) \<Longrightarrow>
   lru_wf ((try_evict iter now ^^ n) c) \<and> lru_size ((try_evict iter now ^^ n) c) = lru_size c - n \<and>
   lru_capacity ((try_evict iter now ^^ n) c) = lru_capacity c"
proof (induction n)
  case (Suc n)
  let ?c = "(try_evict iter now ^^ n) c"
  have "lru_wf ?c" "lru_size ?c = lru_size c - n" "lru_capacity ?c = lru_capacity c" using Suc by simp_all
  then show ?case using evict_ok [of ?c None now, folded try_evict_def] Suc.prems(2) by simp
qed simp

lemma resize_spec:
  assumes "lru_ok c"
  shows "lru_ok (fst (lru_resize iter now n c))"
    and "n \<noteq> 0 \<Longrightarrow> lru_capacity (fst (lru_resize iter now n c)) = n \<and> lru_size (fst (lru_resize iter now n c)) = min n (lru_size c)"
proof -
  let ?c = "c\<lparr>lru_capacity := n\<rparr>"
  have *: "n \<noteq> 0 \<Longrightarrow> lru_wf ?c" using assms by (simp add: lru_ok_def lru_wf_def)
  have "n \<noteq> 0 \<Longrightarrow> n < lru_size c \<Longrightarrow> lru_wf ((try_evict iter now ^^ (lru_size c - n)) ?c) \<and>
      lru_size ((try_evict iter now ^^ (lru_size c - n)) ?c) = n \<and> lru_capacity ((try_evict iter now ^^ (lru_size c - n)) ?c) = n"
    using evict_many [OF *, of "lru_size c - n" now] by simp
  then show "lru_ok (fst (lru_resize iter now n c))"
    "n \<noteq> 0 \<Longrightarrow> lru_capacity (fst (lru_resize iter now n c)) = n \<and> lru_size (fst (lru_resize iter now n c)) = min n (lru_size c)"
    using assms * by (auto simp: lru_resize_def Let_def lru_ok_def)
qed

end

end
