(* ===== verification/Lru_Cache_Props.thy ===== *)
theory Lru_Cache_Props
  imports Lru_Cache_Inv
begin

text \<open>The claims on the cache, over every order of iteration.\<close>

interpretation backwards: map_iteration rev
  by unfold_locales simp

datatype ('k, 'v) lru_op =
    Op_Get 'k
  | Op_Put u64 'k 'v
  | Op_Remove 'k
  | Op_Clear
  | Op_Reset
  | Op_Resize u64 nat
  | Op_Drain

fun lru_step :: "('k, 'v) map_iter \<Rightarrow> ('k, 'v) lru_op \<Rightarrow> ('k, 'v) lru \<Rightarrow> ('k, 'v) lru" where
  "lru_step iter (Op_Get k) c = fst (lru_get k c)"
| "lru_step iter (Op_Put now k v) c = fst (lru_put iter now k v c)"
| "lru_step iter (Op_Remove k) c = fst (lru_remove k c)"
| "lru_step iter Op_Clear c = lru_clear c"
| "lru_step iter Op_Reset c = reset_counters c"
| "lru_step iter (Op_Resize now n) c = fst (lru_resize iter now n c)"
| "lru_step iter Op_Drain c = fst (drain_eviction_events c)"

lemma card_dom_view: "lru_ok c \<Longrightarrow> card (dom (lru_view c)) = lru_size c"
proof -
  assume ok: "lru_ok c"
  have "dom (lru_view c) = dom (map_of (lru_data c))" by (auto simp: lru_view_def dom_def)
  then have "dom (lru_view c) = fst ` set (lru_data c)" by (simp add: dom_map_of_conv_image_fst)
  moreover have "card (fst ` set (lru_data c)) = length (lru_data c)"
    using ok distinct_card [of "map fst (lru_data c)"] by (simp add: lru_ok_def lru_wf_def)
  ultimately show ?thesis using ok by (simp add: lru_ok_def lru_wf_def)
qed

context map_iteration
begin

lemma lru_step_ok: "lru_ok c \<Longrightarrow> lru_ok (lru_step iter op c)"
proof (cases op)
  case Op_Clear
  then show "lru_ok c \<Longrightarrow> ?thesis" by (simp add: lru_ok_def lru_wf_def lru_clear_def)
next
  case Op_Reset
  then show "lru_ok c \<Longrightarrow> ?thesis" by (simp add: lru_ok_def lru_wf_def reset_counters_def)
next
  case Op_Drain
  then show "lru_ok c \<Longrightarrow> ?thesis" by (simp add: lru_ok_def lru_wf_def drain_eviction_events_def)
qed (simp_all add: get_spec(1) put_spec(1) remove_spec(1) resize_spec(1))

lemma lru_run_ok: "lru_ok c \<Longrightarrow> lru_ok (fold (lru_step iter) ops c)"
  by (induction ops arbitrary: c) (simp_all add: lru_step_ok)

end

section \<open>Claims\<close>

text \<open>
  C30: after any sequence of calls on a new cache, and whatever order the concurrent map is iterated
  in, no key is stored twice, the size counter is the number of stored keys and at most the current
  capacity, which is never zero, and the eviction channel is within its bound. A resize to a
  positive capacity takes effect at once: it evicts exactly the surplus.
\<close>

theorem cache_within_capacity:
  fixes iter :: "('k, 'v) map_iter" and c0 :: "('k, 'v) lru" and ops :: "('k, 'v) lru_op list"
  assumes "map_iteration iter" and "new_lru capacity name now = Ok c0"
  defines "c \<equiv> fold (lru_step iter) ops c0"
  shows "distinct (map fst (lru_data c)) \<and> lru_len c = card (dom (lru_view c)) \<and>
    0 < lru_capacity c \<and> lru_len c \<le> lru_capacity c \<and> length (lru_events c) \<le> channel_bound \<and>
    (\<forall>n. n \<noteq> 0 \<longrightarrow> lru_len (fst (lru_resize iter now' n c)) = min n (lru_len c))"
proof -
  have "lru_ok c0" using assms(2) by (auto simp: new_lru_def lru_ok_def lru_wf_def split: if_splits)
  then have ok: "lru_ok c" unfolding c_def by (rule map_iteration.lru_run_ok [OF assms(1)])
  show ?thesis
    using ok card_dom_view [OF ok] map_iteration.resize_spec(2) [OF assms(1) ok]
    by (simp add: lru_ok_def lru_wf_def lru_len_def)
qed

lemma cache_within_capacity_witness:
  "\<exists>c0 :: (nat, nat) lru. new_lru 2 ''c'' 0 = Ok c0 \<and>
    lru_len (fold (lru_step rev) [Op_Put 0 1 10, Op_Put 0 2 20, Op_Put 0 3 30] c0) \<le> 2 \<and>
    distinct (map fst (lru_data (fold (lru_step rev) [Op_Put 0 1 10, Op_Put 0 2 20, Op_Put 0 3 30] c0)))"
proof -
  let ?ops = "[Op_Put 0 1 10, Op_Put 0 2 20, Op_Put 0 3 30] :: (nat, nat) lru_op list"
  obtain c0 :: "(nat, nat) lru" where c0: "new_lru 2 ''c'' 0 = Ok c0" by (simp add: new_lru_def)
  have "lru_capacity (fold (lru_step rev) ?ops c0) = 2"
    using c0 by (auto simp: backwards.put_capacity new_lru_def)
  then show ?thesis
    using c0 cache_within_capacity [OF backwards.map_iteration_axioms c0, of ?ops] by metis
qed

text \<open>
  A value put is the value got, and nothing else is lost, except that putting a new key in a full
  cache evicts exactly one other key: one of the at most 20 entries of the window, with the highest
  score among them (longest unused, counted down by accesses). Putting a known key never evicts.
\<close>

theorem put_evicts_one:
  fixes iter :: "('k, 'v) map_iter" and c :: "('k, 'v) lru" and key :: 'k and v :: 'v and now :: u64
  assumes "map_iteration iter" and "lru_ok c"
  defines "c' \<equiv> fst (lru_put iter now key v c)"
  shows "snd (lru_put iter now key v c) = lru_view c key \<and> snd (lru_get key c') = Some v \<and>
    (if lru_view c key \<noteq> None \<or> lru_len c < lru_capacity c
     then lru_view c' = (lru_view c)(key \<mapsto> v) \<and> lru_evictions c' = lru_evictions c
     else \<exists>victim. victim \<noteq> key \<and> lru_view c victim \<noteq> None \<and>
       chosen iter (Some key) (c\<lparr>lru_clock := lru_clock c + 1\<rparr>) victim \<and>
       lru_view c' = (lru_view c)(victim := None, key \<mapsto> v) \<and> lru_evictions c' = lru_evictions c + 1)"
proof -
  note P = map_iteration.put_spec [OF assms(1,2), where now = now and key = key and v = v, folded c'_def]
  have "snd (lru_get key c') = lru_view c' key" by (rule get_spec(2) [OF P(1)])
  moreover have "lru_size c \<le> lru_capacity c" using assms(2) by (simp add: lru_ok_def)
  ultimately show ?thesis using P(2-4) by (auto simp: lru_len_def)
qed

definition small_lru :: "(nat, nat) lru" where
  "small_lru = \<lparr>lru_data = [(1, \<lparr>ce_value = 10, ce_access_count = 3, ce_last_accessed = 5, ce_created_at = 1\<rparr>),
       (2, \<lparr>ce_value = 20, ce_access_count = 1, ce_last_accessed = 4, ce_created_at = 4\<rparr>)],
     lru_capacity = 2, lru_size = 2, lru_clock = 5, lru_hits = 2, lru_misses = 0, lru_evictions = 0, lru_cursor = 0,
     lru_name = ''c'', lru_created_at = 0, lru_events = []\<rparr>"

lemma small_lru_ok: "lru_ok small_lru"
  by (simp add: small_lru_def lru_ok_def lru_wf_def channel_bound_def)

lemma small_lru_view: "lru_view small_lru = [1 \<mapsto> 10, 2 \<mapsto> 20]"
  by (auto simp: small_lru_def lru_view_def fun_eq_iff)

text \<open>Of the entries 1 and 2 the second has been used less.\<close>

lemma put_evicts_one_witness:
  "\<exists>victim. lru_view (fst (lru_put rev 0 3 30 small_lru)) = [1 \<mapsto> 10, 2 \<mapsto> 20, 3 \<mapsto> 30](victim := None) \<and> victim = 2"
proof -
  have full: "(lru_view small_lru 3 \<noteq> None \<or> lru_len small_lru < lru_capacity small_lru) = False"
    by (simp add: small_lru_view, simp add: lru_len_def small_lru_def)
  obtain victim where v: "victim \<noteq> 3" "chosen rev (Some 3) (small_lru\<lparr>lru_clock := lru_clock small_lru + 1\<rparr>) victim"
      "lru_view (fst (lru_put rev 0 3 30 small_lru)) = (lru_view small_lru)(victim := None, 3 \<mapsto> 30)"
    using put_evicts_one [OF backwards.map_iteration_axioms small_lru_ok, where now = 0 and key = 3 and v = 30] full
    by (simp only: if_False) blast
  have "victim = 2"
    using v(2) by (auto simp: chosen_def small_lru_def sample_window_def eviction_sample_def priority_score_def saturating_sub_def Let_def)
  then show ?thesis using v(1,3) by (intro exI [of _ victim]) (auto simp: small_lru_view fun_eq_iff)
qed

section \<open>The rotation of the window\<close>

lemma window_reaches:
  fixes p :: nat
  assumes p: "p < L" and n: "n = min eviction_sample L" and m: "L \<le> m * n"
  shows "\<exists>i < m. \<forall>es. length es = L \<longrightarrow> es ! p \<in> set (sample_window ((c0 + i * n) mod L) n es)"
proof -
  have npos: "0 < n" using p n by (simp add: eviction_sample_def)
  define d where "d = (p + (L - c0 mod L)) mod L"
  have c0: "c0 mod L < L" using p by simp
  have "(c0 + d) mod L = (c0 mod L + (p + (L - c0 mod L))) mod L" unfolding d_def by (simp add: mod_simps)
  also have "c0 mod L + (p + (L - c0 mod L)) = p + L" using c0 by simp
  finally have cd: "(c0 + d) mod L = p" using p by simp
  have dL: "d < L" using p by (simp add: d_def)
  let ?i = "d div n"
  have im: "?i < m" using dL m npos by (simp add: less_mult_imp_div_less)
  have "es ! p \<in> set (sample_window ((c0 + ?i * n) mod L) n es)" if len: "length es = L" for es :: "'b list"
  proof -
    let ?s = "(c0 + ?i * n) mod L"
    have "n \<le> L" "?s < L" "d mod n < n" using n p npos by (simp, simp, intro mod_less_divisor)
    then have "sample_window ?s n es ! (d mod n) = es ! ((?s + d mod n) mod L)"
      using nth_sample_window [of ?s es n "d mod n"] len by simp
    also have "(?s + d mod n) mod L = (c0 + (?i * n + d mod n)) mod L" by (simp add: mod_simps add.assoc)
    also have "\<dots> = p" using cd by simp
    finally have "sample_window ?s n es ! (d mod n) = es ! p" .
    moreover have "length (sample_window ?s n es) = n"
      using \<open>n \<le> L\<close> \<open>?s < L\<close> len by (simp add: sample_window_rotate)
    ultimately show ?thesis using \<open>d mod n < n\<close> by (metis nth_mem)
  qed
  then show ?thesis using im by blast
qed

fun put_all :: "('k, 'v) map_iter \<Rightarrow> u64 \<Rightarrow> ('k \<times> 'v) list \<Rightarrow> ('k, 'v) lru \<Rightarrow> ('k, 'v) lru" where
  "put_all iter now [] c = c"
| "put_all iter now ((k, v) # kvs) c = put_all iter now kvs (fst (lru_put iter now k v c))"

context map_iteration
begin

lemma put_all_full:
  assumes "lru_ok c" and "lru_size c = lru_capacity c" and "distinct (map fst kvs)" and "\<forall>k \<in> fst ` set kvs. lru_view c k = None"
  shows "lru_ok (put_all iter now kvs c) \<and> lru_size (put_all iter now kvs c) = lru_capacity c \<and>
    lru_capacity (put_all iter now kvs c) = lru_capacity c \<and>
    lru_cursor (put_all iter now kvs c) = lru_cursor c + of_nat (length kvs * min eviction_sample (lru_capacity c))"
  using assms
proof (induction kvs arbitrary: c)
  case (Cons kv kvs)
  obtain k v where kv: "kv = (k, v)" by (cases kv)
  let ?c = "fst (lru_put iter now k v c)"
  obtain victim where P: "lru_view ?c = (lru_view c)(victim := None, k \<mapsto> v)" "lru_size ?c = lru_capacity c"
      "lru_cursor ?c = lru_cursor c + of_nat (min eviction_sample (lru_capacity c))"
    using put_spec(4) [OF Cons.prems(1), of k now v] Cons.prems(2,4) kv by auto
  have cap: "lru_capacity ?c = lru_capacity c" by (rule put_capacity)
  have fresh: "\<forall>k \<in> fst ` set kvs. lru_view ?c k = None" using Cons.prems(3,4) kv P(1) by auto
  have "lru_ok (put_all iter now kvs ?c) \<and> lru_size (put_all iter now kvs ?c) = lru_capacity ?c \<and>
    lru_capacity (put_all iter now kvs ?c) = lru_capacity ?c \<and>
    lru_cursor (put_all iter now kvs ?c) = lru_cursor ?c + of_nat (length kvs * min eviction_sample (lru_capacity ?c))"
    by (rule Cons.IH [OF put_spec(1) [OF Cons.prems(1)]]) (use Cons.prems(3) P(2) cap fresh in simp_all)
  then show ?case unfolding cap P(3) kv by (simp add: algebra_simps)
qed simp

end

text \<open>
  The eviction window leaves nobody out for good. On a full cache of L entries every position of
  the iteration is in the window of one of any L / min 20 L (rounded up) successive evictions.
\<close>

theorem every_position_sampled:
  assumes "map_iteration iter" and "lru_ok c" and "lru_size c = lru_capacity c"
    and "distinct (map fst kvs)" and "\<forall>k \<in> fst ` set kvs. lru_view c k = None"
    and "lru_capacity c \<le> length kvs * min eviction_sample (lru_capacity c)"
    and "unat (lru_cursor c) + length kvs * min eviction_sample (lru_capacity c) < 2 ^ 64"
    and "p < lru_capacity c"
  shows "\<exists>i < length kvs. let ci = put_all iter now (take i kvs) c; L = length (lru_data ci) in
    L = lru_capacity c \<and>
    iter (lru_data ci) ! p \<in> set (sample_window (unat (lru_cursor ci) mod L) (min eviction_sample L) (iter (lru_data ci)))"
proof -
  let ?L = "lru_capacity c" and ?n = "min eviction_sample (lru_capacity c)"
  obtain i where i: "i < length kvs"
      "\<forall>es :: ('a \<times> 'b cache_entry) list. length es = ?L \<longrightarrow> es ! p \<in> set (sample_window ((unat (lru_cursor c) + i * ?n) mod ?L) ?n es)"
    using window_reaches [OF assms(8) refl assms(6)] by blast
  let ?ci = "put_all iter now (take i kvs) c"
  have F: "lru_ok ?ci \<and> lru_size ?ci = ?L \<and> lru_capacity ?ci = ?L \<and>
      lru_cursor ?ci = lru_cursor c + of_nat (length (take i kvs) * ?n)"
    by (rule map_iteration.put_all_full [OF assms(1-3)])
      (use assms(4,5) in \<open>auto simp: take_map [symmetric] dest: in_set_takeD\<close>)
  have len: "length (iter (lru_data ?ci)) = ?L" "length (lru_data ?ci) = ?L"
    using F map_iteration.length_iter [OF assms(1)] by (simp_all add: lru_ok_def lru_wf_def)
  have "i * ?n \<le> length kvs * ?n" using i(1) by simp
  then have bound: "unat (lru_cursor c) + i * ?n < 2 ^ 64" using assms(7) by linarith
  then have u: "unat (of_nat (i * ?n) :: u64) = i * ?n" by (simp only: unat_of_nat) simp
  have "lru_cursor ?ci = lru_cursor c + of_nat (i * ?n)" using F i(1) by simp
  then have "unat (lru_cursor ?ci) = unat (lru_cursor c) + i * ?n"
    using bound u unat_add_lem [of "lru_cursor c" "of_nat (i * ?n)"] by simp
  then show ?thesis using i len by (intro exI [of _ i]) (simp add: Let_def)
qed

lemma every_position_sampled_witness:
  "\<exists>i < length [(3 :: nat, 30 :: nat)]. let ci = put_all rev 0 (take i [(3, 30)]) small_lru; L = length (lru_data ci) in
      L = lru_capacity small_lru \<and>
      rev (lru_data ci) ! 1 \<in> set (sample_window (unat (lru_cursor ci) mod L) (min eviction_sample L) (rev (lru_data ci)))"
  by (rule every_position_sampled [OF backwards.map_iteration_axioms small_lru_ok])
    (simp_all add: small_lru_view, simp_all add: small_lru_def eviction_sample_def)

end
