(* ===== verification/Session_Manager.thy ===== *)
theory Session_Manager
  imports Lru_Cache_Inv
begin

text \<open>
  The session manager, \<open>post-cortex-memory/src/memory_system/session_manager.rs\<close>, and the calls of
  \<open>system.rs\<close> that share its loading gates. A call is a task; its phases are the points between its
  awaits, each step of a task is what the code does between two of them. Handles and gates are
  numbers, one for each allocation. Of storage only the set of stored sessions is kept here (its
  contents are \<open>Session_Store\<close>), of the persister the order of registrations (it is \<open>Persister\<close>).
\<close>

type_synonym session_handle = nat
type_synonym gate = nat

datatype outcome = Got session_handle | Absent | Failed | Was_Deleted bool

datatype call = Load bool | Delete

datatype phase =
    At_Gate call uuid
  | Waiting call uuid gate
  | Inside call uuid gate
  | Loading bool uuid gate
  | Creating uuid gate
  | Installing uuid gate
  | Deleting uuid gate
  | Leaving uuid gate outcome
  | New_Saved uuid
  | Finished outcome

record session_manager =
  sm_sessions :: "(uuid, session_handle) lru"
  sm_loading :: "uuid \<Rightarrow> gate option"
  sm_owner :: "gate \<Rightarrow> nat option"
  sm_tasks :: "phase list"
  sm_stored :: "uuid set"
  sm_registered :: "(uuid \<times> session_handle) list"
  sm_active :: "uuid \<Rightarrow> u64 option"
  sm_next_gate :: gate
  sm_next_handle :: session_handle
  sm_session_count :: nat
  sm_operations :: u64
  sm_hits :: u64
  sm_misses :: u64

definition new_session_manager :: "nat \<Rightarrow> u64 \<Rightarrow> uuid set \<Rightarrow> (string, session_manager) result" where
  "new_session_manager cache_capacity now stored =
     (case new_lru cache_capacity ''session_cache'' now of
        Inl e \<Rightarrow> Err (''Failed to create session cache: '' @ e)
      | Inr c \<Rightarrow> Ok \<lparr>sm_sessions = c, sm_loading = (\<lambda>_. None), sm_owner = (\<lambda>_. None), sm_tasks = [], sm_stored = stored,
          sm_registered = [], sm_active = (\<lambda>_. None), sm_next_gate = 0, sm_next_handle = 0, sm_session_count = 0,
          sm_operations = 0, sm_hits = 0, sm_misses = 0\<rparr>)"

definition become :: "nat \<Rightarrow> phase \<Rightarrow> session_manager \<Rightarrow> session_manager" where
  "become i p s = s\<lparr>sm_tasks := (sm_tasks s)[i := p]\<rparr>"

definition start :: "phase \<Rightarrow> session_manager \<Rightarrow> session_manager" where
  "start p s = s\<lparr>sm_tasks := sm_tasks s @ [p]\<rparr>"

section \<open>Cache and handles\<close>

definition cached :: "u64 \<Rightarrow> uuid \<Rightarrow> session_manager \<Rightarrow> session_manager \<times> session_handle option" where
  "cached now i s =
     (case lru_get i (sm_sessions s) of
        (c, None) \<Rightarrow> (s\<lparr>sm_sessions := c\<rparr>, None)
      | (c, Some h) \<Rightarrow>
          (s\<lparr>sm_sessions := c,
             sm_active := (if sm_active s i = None then sm_active s else (sm_active s)(i \<mapsto> now))\<rparr>, Some h))"

definition install :: "(uuid, session_handle) map_iter \<Rightarrow> u64 \<Rightarrow> uuid \<Rightarrow> session_manager \<Rightarrow> session_manager \<times> session_handle" where
  "install iter now i s =
     (let h = sm_next_handle s
      in (s\<lparr>sm_next_handle := h + 1, sm_registered := sm_registered s @ [(i, h)],
            sm_sessions := fst (lru_put iter now i h (sm_sessions s)), sm_active := (sm_active s)(i \<mapsto> now)\<rparr>, h))"

text \<open>\<open>evict_session\<close> and the cache part of a deletion.\<close>

definition forget :: "uuid \<Rightarrow> session_manager \<Rightarrow> session_manager" where
  "forget i s = s\<lparr>sm_sessions := fst (lru_remove i (sm_sessions s)), sm_active := (sm_active s)(i := None)\<rparr>"

section \<open>Gates\<close>

fun gate_of :: "phase \<Rightarrow> (uuid \<times> gate) option" where
  "gate_of (Waiting k i g) = Some (i, g)"
| "gate_of (Inside k i g) = Some (i, g)"
| "gate_of (Loading b i g) = Some (i, g)"
| "gate_of (Creating i g) = Some (i, g)"
| "gate_of (Installing i g) = Some (i, g)"
| "gate_of (Deleting i g) = Some (i, g)"
| "gate_of (Leaving i g r) = Some (i, g)"
| "gate_of _ = None"

definition enter_gate :: "nat \<Rightarrow> call \<Rightarrow> uuid \<Rightarrow> session_manager \<Rightarrow> session_manager" where
  "enter_gate t k i s =
     (case sm_loading s i of
        Some g \<Rightarrow> become t (Waiting k i g) s
      | None \<Rightarrow> become t (Waiting k i (sm_next_gate s))
          (s\<lparr>sm_loading := (sm_loading s)(i \<mapsto> sm_next_gate s), sm_next_gate := sm_next_gate s + 1\<rparr>))"

definition lock_gate :: "nat \<Rightarrow> call \<Rightarrow> uuid \<Rightarrow> gate \<Rightarrow> session_manager \<Rightarrow> session_manager" where
  "lock_gate t k i g s = become t (Inside k i g) (s\<lparr>sm_owner := (sm_owner s)(g \<mapsto> t)\<rparr>)"

text \<open>The guard is dropped before the gate is taken out of the map.\<close>

definition unlock :: "nat \<Rightarrow> uuid \<Rightarrow> gate \<Rightarrow> outcome \<Rightarrow> session_manager \<Rightarrow> session_manager" where
  "unlock t i g r s = become t (Leaving i g r) (s\<lparr>sm_owner := (sm_owner s)(g := None)\<rparr>)"

text \<open>\<open>strong_count <= 2\<close>: the map and this task hold the only references.\<close>

definition sole_holder :: "nat \<Rightarrow> gate \<Rightarrow> session_manager \<Rightarrow> bool" where
  "sole_holder t g s \<longleftrightarrow>
     list_all (\<lambda>u. u = t \<or> (case gate_of (sm_tasks s ! u) of None \<Rightarrow> True | Some (_, g') \<Rightarrow> g' \<noteq> g)) [0..<length (sm_tasks s)]"

definition leave_gate :: "nat \<Rightarrow> uuid \<Rightarrow> gate \<Rightarrow> outcome \<Rightarrow> session_manager \<Rightarrow> session_manager" where
  "leave_gate t i g r s =
     become t (Finished r)
       (if sm_loading s i = Some g \<and> sole_holder t g s then s\<lparr>sm_loading := (sm_loading s)(i := None)\<rparr> else s)"

section \<open>Loading\<close>

definition load_or_create :: "u64 \<Rightarrow> bool \<Rightarrow> uuid \<Rightarrow> session_manager \<Rightarrow> session_manager" where
  "load_or_create now create i s =
     (case cached now i (s\<lparr>sm_operations := sm_operations s + 1\<rparr>) of
        (s', Some h) \<Rightarrow> start (Finished (Got h)) (s'\<lparr>sm_hits := sm_hits s' + 1\<rparr>)
      | (s', None) \<Rightarrow> start (At_Gate (Load create) i) (s'\<lparr>sm_misses := sm_misses s' + 1\<rparr>))"

definition recheck :: "nat \<Rightarrow> u64 \<Rightarrow> bool \<Rightarrow> uuid \<Rightarrow> gate \<Rightarrow> session_manager \<Rightarrow> session_manager" where
  "recheck t now create i g s =
     (case cached now i s of
        (s', Some h) \<Rightarrow> unlock t i g (Got h) s'
      | (s', None) \<Rightarrow> become t (Loading create i g) s')"

definition read_stored :: "nat \<Rightarrow> bool \<Rightarrow> bool \<Rightarrow> uuid \<Rightarrow> gate \<Rightarrow> session_manager \<Rightarrow> session_manager" where
  "read_stored t fails create i g s =
     (if fails then unlock t i g Failed s
      else if i \<in> sm_stored s then become t (Installing i g) s
      else if create then become t (Creating i g) s
      else unlock t i g Absent s)"

definition save_created :: "nat \<Rightarrow> bool \<Rightarrow> uuid \<Rightarrow> gate \<Rightarrow> session_manager \<Rightarrow> session_manager" where
  "save_created t fails i g s =
     (if fails then unlock t i g Failed s
      else become t (Installing i g) (s\<lparr>sm_stored := insert i (sm_stored s), sm_session_count := sm_session_count s + 1\<rparr>))"

definition install_loaded ::
  "(uuid, session_handle) map_iter \<Rightarrow> nat \<Rightarrow> u64 \<Rightarrow> uuid \<Rightarrow> gate \<Rightarrow> session_manager \<Rightarrow> session_manager" where
  "install_loaded iter t now i g s = (case install iter now i s of (s', h) \<Rightarrow> unlock t i g (Got h) s')"

section \<open>Deleting and creating\<close>

definition delete_cached :: "nat \<Rightarrow> uuid \<Rightarrow> gate \<Rightarrow> session_manager \<Rightarrow> session_manager" where
  "delete_cached t i g s = become t (Deleting i g) (forget i s)"

definition delete_stored :: "nat \<Rightarrow> bool \<Rightarrow> uuid \<Rightarrow> gate \<Rightarrow> session_manager \<Rightarrow> session_manager" where
  "delete_stored t fails i g s =
     (if fails then unlock t i g Failed s
      else unlock t i g (Was_Deleted (i \<in> sm_stored s)) (s\<lparr>sm_stored := sm_stored s - {i}\<rparr>))"

definition create_save :: "bool \<Rightarrow> uuid \<Rightarrow> session_manager \<Rightarrow> session_manager" where
  "create_save fails i s =
     (if fails then start (Finished Failed) s else start (New_Saved i) (s\<lparr>sm_stored := insert i (sm_stored s)\<rparr>))"

definition create_install :: "(uuid, session_handle) map_iter \<Rightarrow> nat \<Rightarrow> u64 \<Rightarrow> uuid \<Rightarrow> session_manager \<Rightarrow> session_manager" where
  "create_install iter t now i s =
     (case install iter now i s of (s', h) \<Rightarrow> become t (Finished (Got h)) (s'\<lparr>sm_session_count := sm_session_count s' + 1\<rparr>))"

text \<open>
  A caller may drop its call while it waits for the gate or for the storage to read: the lock is then
  released, and the gate stays in the map.
\<close>

definition cancel_waiting :: "nat \<Rightarrow> session_manager \<Rightarrow> session_manager" where
  "cancel_waiting t s = become t (Finished Failed) s"

definition cancel_loading :: "nat \<Rightarrow> gate \<Rightarrow> session_manager \<Rightarrow> session_manager" where
  "cancel_loading t g s = become t (Finished Failed) (s\<lparr>sm_owner := (sm_owner s)(g := None)\<rparr>)"

text \<open>The session tools install a session rebuilt from a checkpoint without the gate.\<close>

definition install_checkpoint :: "(uuid, session_handle) map_iter \<Rightarrow> u64 \<Rightarrow> uuid \<Rightarrow> session_manager \<Rightarrow> session_manager" where
  "install_checkpoint iter now i s = (case install iter now i s of (s', h) \<Rightarrow> start (Finished (Got h)) s')"

section \<open>Runs\<close>

fun session_of :: "phase \<Rightarrow> uuid option" where
  "session_of (At_Gate k i) = Some i"
| "session_of p = map_option fst (gate_of p)"

definition in_creation :: "uuid \<Rightarrow> session_manager \<Rightarrow> bool" where
  "in_creation i s \<longleftrightarrow> New_Saved i \<in> set (sm_tasks s)"

definition unused :: "uuid \<Rightarrow> session_manager \<Rightarrow> bool" where
  "unused i s \<longleftrightarrow> \<not> in_creation i s \<and> (\<forall>p \<in> set (sm_tasks s). session_of p \<noteq> Some i) \<and> lru_view (sm_sessions s) i = None"

text \<open>
  The interleavings. \<open>wild\<close> also allows what the gates do not cover: a checkpoint being installed, a
  call on the id of a session still being created (it is listed once it is saved), and a new id that
  is in use.
\<close>

inductive sm_step :: "(uuid, session_handle) map_iter \<Rightarrow> bool \<Rightarrow> session_manager \<Rightarrow> session_manager \<Rightarrow> bool"
  for iter :: "(uuid, session_handle) map_iter" and wild :: bool where
  call_load: "wild \<or> \<not> in_creation i s \<Longrightarrow> sm_step iter wild s (load_or_create now create i s)"
| call_delete: "wild \<or> \<not> in_creation i s \<Longrightarrow> sm_step iter wild s (start (At_Gate Delete i) s)"
| enter: "t < length (sm_tasks s) \<Longrightarrow> sm_tasks s ! t = At_Gate k i \<Longrightarrow> sm_step iter wild s (enter_gate t k i s)"
| lock: "t < length (sm_tasks s) \<Longrightarrow> sm_tasks s ! t = Waiting k i g \<Longrightarrow> sm_owner s g = None \<Longrightarrow>
    sm_step iter wild s (lock_gate t k i g s)"
| recheck: "t < length (sm_tasks s) \<Longrightarrow> sm_tasks s ! t = Inside (Load create) i g \<Longrightarrow>
    sm_step iter wild s (recheck t now create i g s)"
| read: "t < length (sm_tasks s) \<Longrightarrow> sm_tasks s ! t = Loading create i g \<Longrightarrow>
    sm_step iter wild s (read_stored t fails create i g s)"
| save: "t < length (sm_tasks s) \<Longrightarrow> sm_tasks s ! t = Creating i g \<Longrightarrow> sm_step iter wild s (save_created t fails i g s)"
| install: "t < length (sm_tasks s) \<Longrightarrow> sm_tasks s ! t = Installing i g \<Longrightarrow>
    sm_step iter wild s (install_loaded iter t now i g s)"
| delete: "t < length (sm_tasks s) \<Longrightarrow> sm_tasks s ! t = Inside Delete i g \<Longrightarrow> sm_step iter wild s (delete_cached t i g s)"
| delete_store: "t < length (sm_tasks s) \<Longrightarrow> sm_tasks s ! t = Deleting i g \<Longrightarrow>
    sm_step iter wild s (delete_stored t fails i g s)"
| leave: "t < length (sm_tasks s) \<Longrightarrow> sm_tasks s ! t = Leaving i g r \<Longrightarrow> sm_step iter wild s (leave_gate t i g r s)"
| cancel_waiting: "t < length (sm_tasks s) \<Longrightarrow> sm_tasks s ! t = Waiting k i g \<Longrightarrow> sm_step iter wild s (cancel_waiting t s)"
| cancel_loading: "t < length (sm_tasks s) \<Longrightarrow> sm_tasks s ! t = Loading create i g \<Longrightarrow> sm_step iter wild s (cancel_loading t g s)"
| evict: "sm_step iter wild s (forget i s)"
| create: "wild \<or> unused i s \<Longrightarrow> sm_step iter wild s (create_save fails i s)"
| created: "t < length (sm_tasks s) \<Longrightarrow> sm_tasks s ! t = New_Saved i \<Longrightarrow> sm_step iter wild s (create_install iter t now i s)"
| checkpoint: "wild \<Longrightarrow> sm_step iter wild s (install_checkpoint iter now i s)"

inductive sm_reach :: "(uuid, session_handle) map_iter \<Rightarrow> bool \<Rightarrow> session_manager \<Rightarrow> bool"
  for iter :: "(uuid, session_handle) map_iter" and wild :: bool where
  start: "new_session_manager capacity now stored = Ok s \<Longrightarrow> sm_reach iter wild s"
| step: "sm_reach iter wild s \<Longrightarrow> sm_step iter wild s s' \<Longrightarrow> sm_reach iter wild s'"

end
