(* ===== verification/Session_Manager_Inv.thy ===== *)
theory Session_Manager_Inv
  imports Session_Manager
begin

text \<open>
  The invariants of the session manager: the gate of every task that holds one is the gate of its
  session, a task in the guarded part owns it, a task that found no cached session still finds none.
\<close>

definition task :: "session_manager \<Rightarrow> nat \<Rightarrow> phase \<Rightarrow> bool" where
  "task s t p \<longleftrightarrow> t < length (sm_tasks s) \<and> sm_tasks s ! t = p"

fun critical :: "phase \<Rightarrow> (uuid \<times> gate) option" where
  "critical (Inside k i g) = Some (i, g)"
| "critical (Loading b i g) = Some (i, g)"
| "critical (Creating i g) = Some (i, g)"
| "critical (Installing i g) = Some (i, g)"
| "critical (Deleting i g) = Some (i, g)"
| "critical _ = None"

fun missed :: "phase \<Rightarrow> uuid option" where
  "missed (Loading b i g) = Some i"
| "missed (Creating i g) = Some i"
| "missed (Installing i g) = Some i"
| "missed _ = None"

definition gates_ok :: "session_manager \<Rightarrow> bool" where
  "gates_ok s \<longleftrightarrow>
     (\<forall>t p i g. task s t p \<longrightarrow> gate_of p = Some (i, g) \<longrightarrow> sm_loading s i = Some g) \<and>
     (\<forall>i g. sm_loading s i = Some g \<longrightarrow> g < sm_next_gate s) \<and>
     (\<forall>i j g. sm_loading s i = Some g \<longrightarrow> sm_loading s j = Some g \<longrightarrow> i = j) \<and>
     (\<forall>t p i g. task s t p \<longrightarrow> critical p = Some (i, g) \<longrightarrow> sm_owner s g = Some t)"

lemma task_become [simp]:
  "t < length (sm_tasks s) \<Longrightarrow> task (become t p s) u q \<longleftrightarrow> (if u = t then q = p else task s u q)"
  by (auto simp: task_def become_def nth_list_update)

lemma task_start [simp]: "task (start p s) u q \<longleftrightarrow> u = length (sm_tasks s) \<and> q = p \<or> task s u q"
  by (auto simp: task_def start_def nth_append less_Suc_eq)

lemma task_updates [simp]:
  "task (s\<lparr>sm_loading := x0\<rparr>) = task s"
  "task (s\<lparr>sm_owner := x1\<rparr>) = task s"
  "task (s\<lparr>sm_next_gate := x2\<rparr>) = task s"
  "task (s\<lparr>sm_sessions := x3\<rparr>) = task s"
  "task (s\<lparr>sm_stored := x4\<rparr>) = task s"
  "task (s\<lparr>sm_active := x5\<rparr>) = task s"
  "task (s\<lparr>sm_session_count := x6\<rparr>) = task s"
  "task (s\<lparr>sm_operations := x7\<rparr>) = task s"
  "task (s\<lparr>sm_hits := x8\<rparr>) = task s"
  "task (s\<lparr>sm_misses := x9\<rparr>) = task s"
  by (simp_all add: task_def fun_eq_iff)

lemma become_fields [simp]:
  "sm_loading (become t p s) = sm_loading s" "sm_owner (become t p s) = sm_owner s"
  "sm_next_gate (become t p s) = sm_next_gate s" "sm_sessions (become t p s) = sm_sessions s"
  "sm_stored (become t p s) = sm_stored s" "length (sm_tasks (become t p s)) = length (sm_tasks s)"
  by (simp_all add: become_def)

lemma start_fields [simp]:
  "sm_loading (start p s) = sm_loading s" "sm_owner (start p s) = sm_owner s"
  "sm_next_gate (start p s) = sm_next_gate s" "sm_sessions (start p s) = sm_sessions s"
  "sm_stored (start p s) = sm_stored s"
  by (simp_all add: start_def)

lemma cached_fields [simp]:
  "sm_loading (fst (cached now i s)) = sm_loading s" "sm_owner (fst (cached now i s)) = sm_owner s"
  "sm_next_gate (fst (cached now i s)) = sm_next_gate s" "sm_tasks (fst (cached now i s)) = sm_tasks s"
  "sm_stored (fst (cached now i s)) = sm_stored s" "sm_sessions (fst (cached now i s)) = fst (lru_get i (sm_sessions s))"
  "snd (cached now i s) = snd (lru_get i (sm_sessions s))"
  by (simp_all add: cached_def split: prod.split option.split)

lemma install_fields [simp]:
  "sm_loading (fst (install iter now i s)) = sm_loading s" "sm_owner (fst (install iter now i s)) = sm_owner s"
  "sm_next_gate (fst (install iter now i s)) = sm_next_gate s" "sm_tasks (fst (install iter now i s)) = sm_tasks s"
  "sm_stored (fst (install iter now i s)) = sm_stored s"
  "sm_sessions (fst (install iter now i s)) = fst (lru_put iter now i (sm_next_handle s) (sm_sessions s))"
  by (simp_all add: install_def Let_def)

lemma forget_fields [simp]:
  "sm_loading (forget i s) = sm_loading s" "sm_owner (forget i s) = sm_owner s"
  "sm_next_gate (forget i s) = sm_next_gate s" "sm_tasks (forget i s) = sm_tasks s"
  "sm_stored (forget i s) = sm_stored s" "sm_sessions (forget i s) = fst (lru_remove i (sm_sessions s))"
  by (simp_all add: forget_def)

text \<open>A state with the same tasks, gates and owners.\<close>

lemma gates_ok_cong:
  "sm_tasks s' = sm_tasks s \<Longrightarrow> sm_loading s' = sm_loading s \<Longrightarrow> sm_owner s' = sm_owner s \<Longrightarrow>
   sm_next_gate s' = sm_next_gate s \<Longrightarrow> gates_ok s' \<longleftrightarrow> gates_ok s"
  by (simp add: gates_ok_def task_def)

lemma task_cong: "sm_tasks s' = sm_tasks s \<Longrightarrow> task s' = task s"
  by (simp add: task_def fun_eq_iff)

section \<open>Gates\<close>

lemma gates_okI:
  assumes "\<And>t p i g. task s t p \<Longrightarrow> gate_of p = Some (i, g) \<Longrightarrow> sm_loading s i = Some g"
    and "\<And>i g. sm_loading s i = Some g \<Longrightarrow> g < sm_next_gate s"
    and "\<And>i j g. sm_loading s i = Some g \<Longrightarrow> sm_loading s j = Some g \<Longrightarrow> i = j"
    and "\<And>t p i g. task s t p \<Longrightarrow> critical p = Some (i, g) \<Longrightarrow> sm_owner s g = Some t"
  shows "gates_ok s"
  using assms unfolding gates_ok_def by blast

lemma gates_okD:
  assumes "gates_ok s"
  shows "task s t p \<Longrightarrow> gate_of p = Some (i, g) \<Longrightarrow> sm_loading s i = Some g"
    and "sm_loading s i = Some g \<Longrightarrow> g < sm_next_gate s"
    and "sm_loading s i = Some g \<Longrightarrow> sm_loading s j = Some g \<Longrightarrow> i = j"
    and "task s t p \<Longrightarrow> critical p = Some (i, g) \<Longrightarrow> sm_owner s g = Some t"
  using assms unfolding gates_ok_def by blast+

lemma task_len: "task s t p \<Longrightarrow> t < length (sm_tasks s)"
  by (simp add: task_def)

lemma task_set: "task s t p \<Longrightarrow> p \<in> set (sm_tasks s)"
  by (auto simp: task_def intro: nth_mem)

lemma task_fun: "task s t p \<Longrightarrow> task s t q \<Longrightarrow> p = q"
  by (simp add: task_def)

lemma critical_gate: "critical p = Some x \<Longrightarrow> gate_of p = Some x"
  by (cases p) simp_all

lemma gates_start: "gates_ok s \<Longrightarrow> gate_of p = None \<Longrightarrow> critical p = None \<Longrightarrow> gates_ok (start p s)"
  by (rule gates_okI) (auto dest: gates_okD)

text \<open>A task moves on inside the guarded part, or out of it without a gate.\<close>

lemma gates_become:
  assumes ok: "gates_ok s" and t: "task s t p" and q: "gate_of q = None \<or> gate_of q = gate_of p"
    and c: "critical q = None \<or> critical q = critical p"
  shows "gates_ok (become t q s)"
proof (rule gates_okI)
  show "sm_loading (become t q s) i = Some g" if "task (become t q s) u x" "gate_of x = Some (i, g)" for u x i g
    using that gates_okD(1) [OF ok, of u x i g] gates_okD(1) [OF ok t, of i g] q by (auto simp: task_len [OF t] split: if_splits)
  show "sm_owner (become t q s) g = Some u" if "task (become t q s) u x" "critical x = Some (i, g)" for u x i g
    using that gates_okD(4) [OF ok, of u x i g] gates_okD(4) [OF ok t, of i g] c by (auto simp: task_len [OF t] split: if_splits)
qed (use gates_okD [OF ok] in auto)

lemma gates_release:
  assumes ok: "gates_ok s" and t: "task s t p" and p: "critical p = Some (i, g)"
    and q: "gate_of q = None \<or> gate_of q = gate_of p" "critical q = None"
  shows "gates_ok (become t q (s\<lparr>sm_owner := (sm_owner s)(g := None)\<rparr>))" (is "gates_ok ?s")
proof (rule gates_okI)
  have own: "sm_owner s g = Some t" by (rule gates_okD(4) [OF ok t p])
  show "sm_loading ?s j = Some h" if "task ?s u x" "gate_of x = Some (j, h)" for u x j h
    using that gates_okD(1) [OF ok, of u x] gates_okD(1) [OF ok t] q(1) by (auto simp: task_len [OF t] split: if_splits)
  show "sm_owner ?s h = Some u" if "task ?s u x" "critical x = Some (j, h)" for u x j h
    using that gates_okD(4) [OF ok, of u x j h] q(2) own by (auto simp: task_len [OF t] split: if_splits)
qed (use gates_okD [OF ok] in auto)

lemma exclusive:
  assumes ok: "gates_ok s" and "task s t p" and "critical p = Some (i, g)" and "task s u q" and "critical q = Some (i, g')"
  shows "t = u"
proof -
  have "sm_loading s i = Some g" "sm_loading s i = Some g'"
    using gates_okD(1) [OF ok] critical_gate assms(2-5) by blast+
  then have "g = g'" by simp
  then show ?thesis using gates_okD(4) [OF ok assms(2,3)] gates_okD(4) [OF ok assms(4,5)] by simp
qed

lemma gates_enter:
  assumes ok: "gates_ok s" and t: "task s t (At_Gate k i)"
  shows "gates_ok (enter_gate t k i s)"
proof (cases "sm_loading s i")
  case None
  let ?s = "s\<lparr>sm_loading := (sm_loading s)(i \<mapsto> sm_next_gate s), sm_next_gate := sm_next_gate s + 1\<rparr>"
  have new: "sm_loading s j \<noteq> Some (sm_next_gate s)" for j using gates_okD(2) [OF ok] by blast
  have other: "j \<noteq> i" if "task s u p" "gate_of p = Some (j, g)" for u p j g
    using gates_okD(1) [OF ok that] None by auto
  have e: "enter_gate t k i s = become t (Waiting k i (sm_next_gate s)) ?s" using None by (simp add: enter_gate_def)
  show ?thesis unfolding e
  proof (rule gates_okI)
    show "sm_loading (become t (Waiting k i (sm_next_gate s)) ?s) j = Some g"
      if "task (become t (Waiting k i (sm_next_gate s)) ?s) u p" "gate_of p = Some (j, g)" for u p j g
      using that other [of u p j g] gates_okD(1) [OF ok, of u p j g] by (auto simp: task_len [OF t] split: if_splits)
    show "sm_owner (become t (Waiting k i (sm_next_gate s)) ?s) g = Some u"
      if "task (become t (Waiting k i (sm_next_gate s)) ?s) u p" "critical p = Some (j, g)" for u p j g
      using that gates_okD(4) [OF ok, of u p j g] by (auto simp: task_len [OF t] split: if_splits)
  qed (use gates_okD(2,3) [OF ok] new in \<open>auto split: if_splits intro: less_SucI\<close>)
next
  case (Some h)
  have e: "enter_gate t k i s = become t (Waiting k i h) s" using Some by (simp add: enter_gate_def)
  show ?thesis unfolding e
  proof (rule gates_okI)
    show "sm_loading (become t (Waiting k i h) s) j = Some g"
      if "task (become t (Waiting k i h) s) u p" "gate_of p = Some (j, g)" for u p j g
      using that gates_okD(1) [OF ok, of u p j g] Some by (auto simp: task_len [OF t] split: if_splits)
    show "sm_owner (become t (Waiting k i h) s) g = Some u"
      if "task (become t (Waiting k i h) s) u p" "critical p = Some (j, g)" for u p j g
      using that gates_okD(4) [OF ok, of u p j g] by (auto simp: task_len [OF t] split: if_splits)
  qed (use gates_okD(2,3) [OF ok] in auto)
qed

lemma gates_lock:
  assumes ok: "gates_ok s" and t: "task s t (Waiting k i g)" and free: "sm_owner s g = None"
  shows "gates_ok (lock_gate t k i g s)"
  unfolding lock_gate_def
proof (rule gates_okI)
  let ?s = "become t (Inside k i g) (s\<lparr>sm_owner := (sm_owner s)(g \<mapsto> t)\<rparr>)"
  show "sm_loading ?s j = Some h" if "task ?s u p" "gate_of p = Some (j, h)" for u p j h
    using that gates_okD(1) [OF ok, of u p j h] gates_okD(1) [OF ok t] by (auto simp: task_len [OF t] split: if_splits)
  show "sm_owner ?s h = Some u" if "task ?s u p" "critical p = Some (j, h)" for u p j h
    using that gates_okD(4) [OF ok, of u p j h] free by (auto simp: task_len [OF t] split: if_splits)
qed (use gates_okD(2,3) [OF ok] in auto)

lemma gates_leave:
  assumes ok: "gates_ok s" and t: "task s t (Leaving i g r)"
  shows "gates_ok (leave_gate t i g r s)"
proof (cases "sm_loading s i = Some g \<and> sole_holder t g s")
  case True
  let ?s = "become t (Finished r) (s\<lparr>sm_loading := (sm_loading s)(i := None)\<rparr>)"
  have e: "leave_gate t i g r s = ?s" using True by (simp add: leave_gate_def)
  have other: "j \<noteq> i" if p: "task s u p" "gate_of p = Some (j, g')" "u \<noteq> t" for u p j g'
  proof -
    have "g' \<noteq> g" using True p by (auto simp: sole_holder_def list_all_iff task_def)
    then show ?thesis using gates_okD(1) [OF ok p(1,2)] True by auto
  qed
  show ?thesis unfolding e
  proof (rule gates_okI)
    show "sm_loading ?s j = Some h" if "task ?s u p" "gate_of p = Some (j, h)" for u p j h
      using that gates_okD(1) [OF ok, of u p j h] other [of u p j h] by (auto simp: task_len [OF t] split: if_splits)
    show "sm_owner ?s h = Some u" if "task ?s u p" "critical p = Some (j, h)" for u p j h
      using that gates_okD(4) [OF ok, of u p j h] by (auto simp: task_len [OF t] split: if_splits)
  qed (use gates_okD(2,3) [OF ok] in \<open>auto split: if_splits\<close>)
next
  case False
  then show ?thesis using gates_become [OF ok t, of "Finished r"] by (auto simp: leave_gate_def)
qed

section \<open>What the guarded tasks know\<close>

definition misses_ok :: "session_manager \<Rightarrow> bool" where
  "misses_ok s \<longleftrightarrow>
     (\<forall>t p i. task s t p \<longrightarrow> missed p = Some i \<longrightarrow> lru_view (sm_sessions s) i = None) \<and>
     (\<forall>t i. task s t (New_Saved i) \<longrightarrow> lru_view (sm_sessions s) i = None \<and>
       (\<forall>u p. task s u p \<longrightarrow> session_of p \<noteq> Some i \<and> (p = New_Saved i \<longrightarrow> u = t)))"

definition stored_ok :: "session_manager \<Rightarrow> bool" where
  "stored_ok s \<longleftrightarrow> (\<forall>t i g. task s t (Installing i g) \<longrightarrow> i \<in> sm_stored s)"

definition sm_ok :: "bool \<Rightarrow> session_manager \<Rightarrow> bool" where
  "sm_ok wild s \<longleftrightarrow> gates_ok s \<and> lru_ok (sm_sessions s) \<and> stored_ok s \<and> (\<not> wild \<longrightarrow> misses_ok s)"

lemma misses_okI:
  assumes "\<And>t p i. task s t p \<Longrightarrow> missed p = Some i \<Longrightarrow> lru_view (sm_sessions s) i = None"
    and "\<And>t i. task s t (New_Saved i) \<Longrightarrow> lru_view (sm_sessions s) i = None"
    and "\<And>t i u p. task s t (New_Saved i) \<Longrightarrow> task s u p \<Longrightarrow> session_of p \<noteq> Some i"
    and "\<And>t i u. task s t (New_Saved i) \<Longrightarrow> task s u (New_Saved i) \<Longrightarrow> u = t"
  shows "misses_ok s"
  using assms unfolding misses_ok_def by blast

lemma misses_okD:
  assumes "misses_ok s"
  shows "task s t p \<Longrightarrow> missed p = Some i \<Longrightarrow> lru_view (sm_sessions s) i = None"
    and "task s t (New_Saved i) \<Longrightarrow> lru_view (sm_sessions s) i = None"
    and "task s t (New_Saved i) \<Longrightarrow> task s u p \<Longrightarrow> session_of p \<noteq> Some i"
    and "task s t (New_Saved i) \<Longrightarrow> task s u (New_Saved i) \<Longrightarrow> u = t"
  using assms unfolding misses_ok_def by blast+

lemma missed_session: "missed p = Some i \<Longrightarrow> session_of p = Some i"
  by (cases p) simp_all

lemma missed_critical: "missed p = Some i \<Longrightarrow> \<exists>g. critical p = Some (i, g)"
  by (cases p) simp_all

text \<open>The cache may lose entries and a task may move on.\<close>

lemma misses_become:
  assumes ok: "misses_ok s" and t: "task s t p" and ses: "session_of q = None \<or> session_of q = session_of p"
    and q: "\<forall>i. missed q = Some i \<longrightarrow> lru_view (sm_sessions s') i = None" "\<forall>i. q \<noteq> New_Saved i"
    and same: "sm_tasks s' = sm_tasks s" and view: "\<And>i. lru_view (sm_sessions s) i = None \<Longrightarrow> lru_view (sm_sessions s') i = None"
  shows "misses_ok (become t q s')"
proof -
  have len: "t < length (sm_tasks s')" using task_len [OF t] same by simp
  have tk: "task s' = task s" by (rule task_cong [OF same])
  show ?thesis
  proof (rule misses_okI)
    show "lru_view (sm_sessions (become t q s')) i = None" if "task (become t q s') u x" "missed x = Some i" for u x i
      using that misses_okD(1) [OF ok, of u x i] view q(1) by (auto simp: len tk split: if_splits)
    show "lru_view (sm_sessions (become t q s')) i = None" if "task (become t q s') u (New_Saved i)" for u i
      using that misses_okD(2) [OF ok, of u i] view q(2) by (auto simp: len tk split: if_splits)
    show "session_of x \<noteq> Some i" if "task (become t q s') u (New_Saved i)" "task (become t q s') v x" for u i v x
      using that misses_okD(3) [OF ok, of u i v x] misses_okD(3) [OF ok, of u i t p] t ses q(2)
      by (auto simp: len tk split: if_splits)
    show "v = u" if "task (become t q s') u (New_Saved i)" "task (become t q s') v (New_Saved i)" for u i v
      using that misses_okD(4) [OF ok, of u i v] q(2) by (auto simp: len tk split: if_splits)
  qed
qed

lemma misses_start:
  assumes ok: "misses_ok s" and p: "missed p = None" "\<forall>i. p \<noteq> New_Saved i" "\<forall>i. session_of p = Some i \<longrightarrow> \<not> in_creation i s"
    and same: "sm_tasks s' = sm_tasks s" and view: "\<And>i. lru_view (sm_sessions s) i = None \<Longrightarrow> lru_view (sm_sessions s') i = None"
  shows "misses_ok (start p s')"
proof -
  have tk: "task s' = task s" by (rule task_cong [OF same])
  have cr: "task s u (New_Saved i) \<Longrightarrow> in_creation i s" for u i by (simp add: in_creation_def task_set)
  show ?thesis
  proof (rule misses_okI)
    show "lru_view (sm_sessions (start p s')) i = None" if "task (start p s') u x" "missed x = Some i" for u x i
      using that misses_okD(1) [OF ok, of u x i] view p(1) by (auto simp: tk)
    show "lru_view (sm_sessions (start p s')) i = None" if "task (start p s') u (New_Saved i)" for u i
      using that misses_okD(2) [OF ok, of u i] view p(2) by (auto simp: tk)
    show "session_of x \<noteq> Some i" if "task (start p s') u (New_Saved i)" "task (start p s') v x" for u i v x
      using that misses_okD(3) [OF ok, of u i v x] p(2,3) cr by (auto simp: tk)
    show "v = u" if "task (start p s') u (New_Saved i)" "task (start p s') v (New_Saved i)" for u i v
      using that misses_okD(4) [OF ok, of u i v] p(2) by (auto simp: tk)
  qed
qed

text \<open>A task installs the session it missed, or the one it created.\<close>

lemma misses_install:
  assumes ok: "misses_ok s" and gs: "gates_ok s" and t: "task s t p"
    and p: "p = Installing i g \<or> p = New_Saved i" and q: "missed q = None" "\<forall>i. q \<noteq> New_Saved i" "session_of q = None \<or> session_of q = session_of p"
    and same: "sm_tasks s' = sm_tasks s"
    and view: "\<And>j. j \<noteq> i \<Longrightarrow> lru_view (sm_sessions s) j = None \<Longrightarrow> lru_view (sm_sessions s') j = None"
  shows "misses_ok (become t q s')"
proof -
  have len: "t < length (sm_tasks s')" using task_len [OF t] same by simp
  have tk: "task s' = task s" by (rule task_cong [OF same])
  have other: "j \<noteq> i" if x: "task s u x" "missed x = Some j" "u \<noteq> t" for u x j
  proof
    assume j: "j = i"
    obtain g' where g': "critical x = Some (i, g')" using missed_critical [OF x(2)] j by blast
    from p show False
    proof
      assume "p = Installing i g"
      then show False using exclusive [OF gs t _ x(1) g'] x(3) by simp
    next
      assume "p = New_Saved i"
      then show False using misses_okD(3) [OF ok, of t i u x] t x(1) missed_session [OF x(2)] j by simp
    qed
  qed
  have new: "j \<noteq> i" if x: "task s u (New_Saved j)" "u \<noteq> t" for u j
  proof
    assume j: "j = i"
    from p show False
    proof
      assume "p = Installing i g"
      then show False using misses_okD(3) [OF ok, of u i t p] t x(1) j by simp
    next
      assume "p = New_Saved i"
      then show False using misses_okD(4) [OF ok, of t i u] t x j by simp
    qed
  qed
  show ?thesis
  proof (rule misses_okI)
    show "lru_view (sm_sessions (become t q s')) j = None" if "task (become t q s') u x" "missed x = Some j" for u x j
      using that misses_okD(1) [OF ok, of u x j] view q(1) other [of u x j] by (auto simp: len tk split: if_splits)
    show "lru_view (sm_sessions (become t q s')) j = None" if "task (become t q s') u (New_Saved j)" for u j
      using that misses_okD(2) [OF ok, of u j] view q(2) new [of u j] by (auto simp: len tk split: if_splits)
    show "session_of x \<noteq> Some j" if "task (become t q s') u (New_Saved j)" "task (become t q s') v x" for u j v x
      using that misses_okD(3) [OF ok, of u j v x] misses_okD(3) [OF ok, of u j t p] t q(2,3)
      by (auto simp: len tk split: if_splits)
    show "v = u" if "task (become t q s') u (New_Saved j)" "task (become t q s') v (New_Saved j)" for u j v
      using that misses_okD(4) [OF ok, of u j v] q(2) by (auto simp: len tk split: if_splits)
  qed
qed

lemma misses_create:
  assumes ok: "misses_ok s" and un: "unused i s" and same: "sm_tasks s' = sm_tasks s" "sm_sessions s' = sm_sessions s"
  shows "misses_ok (start (New_Saved i) s')"
proof -
  have tk: "task s' = task s" by (rule task_cong [OF same(1)])
  have u: "lru_view (sm_sessions s) i = None" "task s u p \<Longrightarrow> session_of p \<noteq> Some i" "\<not> task s u (New_Saved i)" for u p
    using un task_set [of s u] by (auto simp: unused_def in_creation_def)
  show ?thesis
  proof (rule misses_okI)
    show "lru_view (sm_sessions (start (New_Saved i) s')) j = None"
      if "task (start (New_Saved i) s') t x" "missed x = Some j" for t x j
      using that misses_okD(1) [OF ok, of t x j] by (auto simp: tk same(2))
    show "lru_view (sm_sessions (start (New_Saved i) s')) j = None" if "task (start (New_Saved i) s') t (New_Saved j)" for t j
      using that misses_okD(2) [OF ok, of t j] u(1) by (auto simp: tk same(2))
    show "session_of x \<noteq> Some j" if "task (start (New_Saved i) s') t (New_Saved j)" "task (start (New_Saved i) s') v x" for t j v x
      using that misses_okD(3) [OF ok, of t j v x] u(2) [of v x] by (auto simp: tk)
    show "v = t" if "task (start (New_Saved i) s') t (New_Saved j)" "task (start (New_Saved i) s') v (New_Saved j)" for t j v
      using that misses_okD(4) [OF ok, of t j v] u(3) by (auto simp: tk)
  qed
qed

section \<open>Every step\<close>

lemma stored_become:
  assumes "stored_ok s" and "task s t p" and "\<forall>i g. q = Installing i g \<longrightarrow> i \<in> sm_stored s'"
    and "sm_tasks s' = sm_tasks s" and "\<And>u i g. task s u (Installing i g) \<Longrightarrow> u \<noteq> t \<Longrightarrow> i \<in> sm_stored s'"
  shows "stored_ok (become t q s')"
  using assms task_len [OF assms(2)] task_cong [OF assms(4)] unfolding stored_ok_def by (auto split: if_splits)

lemma stored_start:
  "stored_ok s \<Longrightarrow> \<forall>i g. p \<noteq> Installing i g \<Longrightarrow> sm_tasks s' = sm_tasks s \<Longrightarrow> sm_stored s \<subseteq> sm_stored s' \<Longrightarrow> stored_ok (start p s')"
  using task_cong [of s' s] unfolding stored_ok_def by (simp, blast)

text \<open>The steps as moves of one task, with what they do to the cache.\<close>

lemma view_forget: "lru_ok (sm_sessions s) \<Longrightarrow> lru_view (sm_sessions (forget i s)) = (lru_view (sm_sessions s))(i := None)"
  by (simp add: remove_spec)

lemma sm_ok_become:
  assumes ok: "sm_ok wild s" and t: "task s t p" and gates: "gates_ok (become t q s')"
    and ses: "session_of q = None \<or> session_of q = session_of p" and q: "missed q = None \<or> missed q = missed p" "\<forall>i. q \<noteq> New_Saved i"
    and inst: "\<forall>i g. q = Installing i g \<longrightarrow> i \<in> sm_stored s'"
    and same: "sm_tasks s' = sm_tasks s" and stored: "\<And>u i g. task s u (Installing i g) \<Longrightarrow> u \<noteq> t \<Longrightarrow> i \<in> sm_stored s'"
    and cache: "lru_ok (sm_sessions s')" "\<And>i. lru_view (sm_sessions s) i = None \<Longrightarrow> lru_view (sm_sessions s') i = None"
  shows "sm_ok wild (become t q s')"
proof -
  have "stored_ok (become t q s')"
    by (rule stored_become [OF _ t inst same stored]) (use ok in \<open>simp_all add: sm_ok_def\<close>)
  moreover have "misses_ok (become t q s')" if w: "\<not> wild"
  proof -
    have m: "misses_ok s" using ok w by (simp add: sm_ok_def)
    have "\<forall>i. missed q = Some i \<longrightarrow> lru_view (sm_sessions s') i = None"
      using misses_okD(1) [OF m t] q(1) cache(2) by auto
    then show ?thesis by (rule misses_become [OF m t ses _ q(2) same cache(2)])
  qed
  ultimately show ?thesis using gates cache(1) by (simp add: sm_ok_def)
qed

end
