(* ===== verification/Session_Manager_Props.thy ===== *)
theory Session_Manager_Props
  imports Session_Manager_Inv
begin

text \<open>Every step keeps the invariants; the claims on the loading gates.\<close>

context map_iteration
begin

lemma put_others:
  assumes "lru_ok c" and "j \<noteq> key"
  shows "lru_view (fst (lru_put iter now key v c)) j = lru_view c j \<or> lru_view (fst (lru_put iter now key v c)) j = None"
proof (cases "lru_view c key \<noteq> None \<or> lru_size c < lru_capacity c")
  case True
  then show ?thesis using put_spec(3) [OF assms(1)] assms(2) by simp
next
  case False
  then have "lru_view c key = None" "lru_size c = lru_capacity c" using assms(1) by (auto simp: lru_ok_def)
  from put_spec(4) [OF assms(1) this, of now v] show ?thesis using assms(2) by (auto split: if_splits)
qed

end

lemma cached_ok:
  assumes "lru_ok (sm_sessions s)"
  shows "lru_ok (fst (lru_get i (sm_sessions s)))" "lru_view (fst (lru_get i (sm_sessions s))) = lru_view (sm_sessions s)"
    and "snd (cached now i s) = lru_view (sm_sessions s) i"
  using get_spec [OF assms] by simp_all

lemma sm_okD:
  assumes "sm_ok wild s"
  shows "gates_ok s" "lru_ok (sm_sessions s)" "task s t (Installing i g) \<Longrightarrow> i \<in> sm_stored s" "\<not> wild \<Longrightarrow> misses_ok s"
  using assms unfolding sm_ok_def stored_ok_def by blast+

lemma sm_ok_cong:
  assumes "sm_ok wild s" and "sm_tasks s' = sm_tasks s" "sm_loading s' = sm_loading s" "sm_owner s' = sm_owner s"
    "sm_next_gate s' = sm_next_gate s" and "sm_stored s \<subseteq> sm_stored s'" and "lru_ok (sm_sessions s')"
    and "\<And>i. lru_view (sm_sessions s) i = None \<Longrightarrow> lru_view (sm_sessions s') i = None"
  shows "sm_ok wild s'"
  using assms unfolding sm_ok_def stored_ok_def misses_ok_def gates_ok_cong [OF assms(2-5)] task_cong [OF assms(2)]
  by blast

lemma sm_ok_start:
  assumes ok: "sm_ok wild s" and p: "gate_of p = None" "critical p = None" "missed p = None" "\<forall>i. p \<noteq> New_Saved i"
    and c: "wild \<or> (\<forall>i. session_of p = Some i \<longrightarrow> \<not> in_creation i s)"
  shows "sm_ok wild (start p s)"
proof -
  have "\<forall>i g. p \<noteq> Installing i g" using p(3) by auto
  moreover have "misses_ok (start p s)" if "\<not> wild"
    by (rule misses_start [OF sm_okD(4) [OF ok that] p(3,4) _ refl]) (use c that in auto)
  ultimately show ?thesis
    using ok gates_start [OF _ p(1,2)] stored_start [of s p s] by (auto simp: sm_ok_def)
qed

text \<open>A task leaves the guarded part.\<close>

lemma sm_ok_unlock:
  assumes ok: "sm_ok wild s" and t: "task s t p" and p: "critical p = Some (i, g)"
    and same: "sm_tasks s' = sm_tasks s" "sm_loading s' = sm_loading s" "sm_owner s' = sm_owner s" "sm_next_gate s' = sm_next_gate s"
    and stored: "\<And>u j h. task s u (Installing j h) \<Longrightarrow> u \<noteq> t \<Longrightarrow> j \<in> sm_stored s'"
    and cache: "lru_ok (sm_sessions s')" "\<And>i. lru_view (sm_sessions s) i = None \<Longrightarrow> lru_view (sm_sessions s') i = None"
  shows "sm_ok wild (unlock t i g r s')"
  unfolding unlock_def
proof (rule sm_ok_become [OF ok t])
  have "gates_ok s'" using gates_ok_cong [OF same] sm_okD(1) [OF ok] by simp
  moreover have "task s' t p" using t task_cong [OF same(1)] by simp
  ultimately show "gates_ok (become t (Leaving i g r) (s'\<lparr>sm_owner := (sm_owner s')(g := None)\<rparr>))"
    using critical_gate [OF p] by (intro gates_release [OF _ _ p]) auto
  show "session_of (Leaving i g r) = None \<or> session_of (Leaving i g r) = session_of p"
    using p by (cases p) auto
qed (use same stored cache in auto)

text \<open>The iteration of the map of sessions.\<close>

locale session_iteration = map_iteration iter for iter :: "(uuid, session_handle) map_iter"
begin

lemma install_ok:
  assumes "lru_ok (sm_sessions s)"
  shows "lru_ok (sm_sessions (fst (install iter now i s)))"
    and "j \<noteq> i \<Longrightarrow> lru_view (sm_sessions s) j = None \<Longrightarrow> lru_view (sm_sessions (fst (install iter now i s))) j = None"
  using put_spec(1) [OF assms] put_others [OF assms, of j i] by auto

lemma sm_ok_install:
  assumes ok: "sm_ok wild s" and t: "task s t p" and p: "p = Installing i g \<or> p = New_Saved i"
    and q: "missed q = None" "\<forall>i. q \<noteq> New_Saved i" "session_of q = None \<or> session_of q = session_of p"
    and same: "sm_tasks s' = sm_tasks s" "sm_stored s' = sm_stored s" "sm_sessions s' = sm_sessions (fst (install iter now i s))"
    and gates: "gates_ok (become t q s')"
  shows "sm_ok wild (become t q s')"
proof -
  have "\<forall>i g. q \<noteq> Installing i g" using q(1) by auto
  then have "stored_ok (become t q s')"
    by (intro stored_become [OF _ t _ same(1)]) (use ok same(2) sm_okD(3) [OF ok] in \<open>auto simp: sm_ok_def\<close>)
  moreover have "misses_ok (become t q s')" if "\<not> wild"
    by (rule misses_install [OF sm_okD(4) [OF ok that] sm_okD(1) [OF ok] t p q same(1)])
      (use same(3) install_ok(2) [OF sm_okD(2) [OF ok]] in simp)
  ultimately show ?thesis using gates same(3) install_ok(1) [OF sm_okD(2) [OF ok]] by (simp add: sm_ok_def)
qed

lemma sm_step_ok:
  assumes ok: "sm_ok wild s" and "sm_step iter wild s s'"
  shows "sm_ok wild s'"
  using assms(2)
proof cases
  case (call_load i now create)
  have c: "sm_ok wild (fst (cached now i (s\<lparr>sm_operations := x\<rparr>)))" for x
    by (rule sm_ok_cong [OF ok]) (use cached_ok [OF sm_okD(2) [OF ok]] in auto)
  have up: "sm_ok wild (u\<lparr>sm_hits := x\<rparr>)" "sm_ok wild (u\<lparr>sm_misses := x\<rparr>)" if "sm_ok wild u" for u x
    by (rule sm_ok_cong [OF that]; use sm_okD(2) [OF that] in simp)+
  obtain s1 r where s1: "cached now i (s\<lparr>sm_operations := sm_operations s + 1\<rparr>) = (s1, r)" by (meson surj_pair)
  have ok1: "sm_ok wild s1" using c [of "sm_operations s + 1"] unfolding s1 by simp
  have "sm_tasks (fst (cached now i (s\<lparr>sm_operations := sm_operations s + 1\<rparr>))) = sm_tasks s" by simp
  then have cr: "in_creation i (s1\<lparr>sm_misses := x\<rparr>) = in_creation i s" for x unfolding s1 by (simp add: in_creation_def)
  have "sm_ok wild (start (At_Gate (Load create) i) (s1\<lparr>sm_misses := sm_misses s1 + 1\<rparr>))"
    by (rule sm_ok_start [OF up(2) [OF ok1]]) (use call_load(2) cr in auto)
  moreover have "sm_ok wild (start (Finished (Got h)) (s1\<lparr>sm_hits := sm_hits s1 + 1\<rparr>))" for h
    by (rule sm_ok_start [OF up(1) [OF ok1]]) auto
  ultimately show ?thesis unfolding call_load(1) load_or_create_def s1 by (simp split: option.split)
next
  case (call_delete i)
  then show ?thesis by (auto intro!: sm_ok_start [OF ok])
next
  case (enter t k i)
  then have t: "task s t (At_Gate k i)" by (simp add: task_def)
  note G = gates_enter [OF sm_okD(1) [OF ok] t]
  show ?thesis
  proof (cases "sm_loading s i")
    case None
    then show ?thesis using G unfolding enter(1) enter_gate_def
      by (simp, intro sm_ok_become [OF ok t]) (use sm_okD(2,3) [OF ok] in auto)
  next
    case (Some g)
    then show ?thesis using G unfolding enter(1) enter_gate_def
      by (simp, intro sm_ok_become [OF ok t]) (use sm_okD(2,3) [OF ok] in auto)
  qed
next
  case (lock t k i g)
  then have t: "task s t (Waiting k i g)" by (simp add: task_def)
  note G = gates_lock [OF sm_okD(1) [OF ok] t lock(4)]
  then show ?thesis unfolding lock(1) lock_gate_def
    by (intro sm_ok_become [OF ok t]) (use sm_okD(2,3) [OF ok] in auto)
next
  case (recheck t create i g now)
  then have t: "task s t (Inside (Load create) i g)" by (simp add: task_def)
  let ?c = "fst (cached now i s)"
  note C = cached_ok [OF sm_okD(2) [OF ok]]
  have "sm_ok wild (unlock t i g r ?c)" for r
    by (rule sm_ok_unlock [OF ok t]) (use C sm_okD(3) [OF ok] in auto)
  moreover have "sm_ok wild (become t (Loading create i g) ?c)" if none: "snd (cached now i s) = None"
  proof -
    have g: "gates_ok (become t (Loading create i g) ?c)"
      by (rule gates_become) (use gates_ok_cong [of ?c s] sm_okD(1) [OF ok] t task_cong [of ?c s] in auto)
    have v: "lru_view (sm_sessions s) i = None" using none C(3) by simp
    have "misses_ok (become t (Loading create i g) ?c)" if "\<not> wild"
      by (rule misses_become [OF sm_okD(4) [OF ok that] t]) (use v C in auto)
    moreover have "stored_ok (become t (Loading create i g) ?c)"
      by (rule stored_become [OF _ t]) (use ok in \<open>auto simp: sm_ok_def stored_ok_def\<close>)
    ultimately show ?thesis using g C(1) by (simp add: sm_ok_def)
  qed
  ultimately show ?thesis unfolding recheck(1) Session_Manager.recheck_def
    by (cases "snd (cached now i s)") (simp_all add: case_prod_beta del: cached_fields)
next
  case (read t create i g fails)
  then have t: "task s t (Loading create i g)" by (simp add: task_def)
  have "sm_ok wild (unlock t i g r s)" for r
    by (rule sm_ok_unlock [OF ok t]) (use sm_okD(2,3) [OF ok] in auto)
  moreover have "i \<in> sm_stored s \<Longrightarrow> sm_ok wild (become t (Installing i g) s)" "sm_ok wild (become t (Creating i g) s)"
    by (rule sm_ok_become [OF ok t]; use sm_okD(2,3) [OF ok] gates_become [OF sm_okD(1) [OF ok] t] in auto)+
  ultimately show ?thesis unfolding read(1) read_stored_def by auto
next
  case (save t i g fails)
  then have t: "task s t (Creating i g)" by (simp add: task_def)
  let ?s = "s\<lparr>sm_stored := insert i (sm_stored s), sm_session_count := sm_session_count s + 1\<rparr>"
  have "sm_ok wild (unlock t i g r s)" for r
    by (rule sm_ok_unlock [OF ok t]) (use sm_okD(2,3) [OF ok] in auto)
  moreover have "gates_ok (become t (Installing i g) ?s)"
    by (rule gates_become) (use gates_ok_cong [of ?s s] sm_okD(1) [OF ok] t in auto)
  then have "sm_ok wild (become t (Installing i g) ?s)"
    by (intro sm_ok_become [OF ok t]) (use sm_okD(2,3) [OF ok] in auto)
  ultimately show ?thesis unfolding save(1) save_created_def by auto
next
  case (install t i g now)
  then have t: "task s t (Installing i g)" by (simp add: task_def)
  let ?s = "fst (Session_Manager.install iter now i s)"
  have "gates_ok (become t (Leaving i g r) (?s\<lparr>sm_owner := (sm_owner ?s)(g := None)\<rparr>))" for r
    by (rule gates_release [where p = "Installing i g" and i = i])
      (use gates_ok_cong [of ?s s] sm_okD(1) [OF ok] t task_cong [of ?s s] in auto)
  then have "sm_ok wild (unlock t i g r ?s)" for r
    unfolding unlock_def by (intro sm_ok_install [OF ok t, of i g]) auto
  then show ?thesis unfolding install(1) install_loaded_def by (simp add: case_prod_beta)
next
  case (delete t i g)
  then have t: "task s t (Inside Delete i g)" by (simp add: task_def)
  have "gates_ok (become t (Deleting i g) (forget i s))"
    by (rule gates_become) (use gates_ok_cong [of "forget i s" s] sm_okD(1) [OF ok] t task_cong [of "forget i s" s] in auto)
  then show ?thesis unfolding delete(1) delete_cached_def
    by (intro sm_ok_become [OF ok t]) (use sm_okD(2,3) [OF ok] remove_spec [OF sm_okD(2) [OF ok]] in auto)
next
  case (delete_store t i g fails)
  then have t: "task s t (Deleting i g)" by (simp add: task_def)
  have other: "j \<noteq> i" if "task s u (Installing j h)" for u j h
    using exclusive [OF sm_okD(1) [OF ok] t _ that, of i g h] task_fun [OF t] that by auto
  have "sm_ok wild (unlock t i g r s)" for r
    by (rule sm_ok_unlock [OF ok t]) (use sm_okD(2,3) [OF ok] in auto)
  moreover have "sm_ok wild (unlock t i g r (s\<lparr>sm_stored := sm_stored s - {i}\<rparr>))" for r
    by (rule sm_ok_unlock [OF ok t]) (use sm_okD(2,3) [OF ok] other in auto)
  ultimately show ?thesis unfolding delete_store(1) delete_stored_def by auto
next
  case (leave t i g r)
  then have t: "task s t (Leaving i g r)" by (simp add: task_def)
  show ?thesis using gates_leave [OF sm_okD(1) [OF ok] t] unfolding leave(1) leave_gate_def
    by (intro sm_ok_become [OF ok t]) (use sm_okD(2,3) [OF ok] in auto)
next
  case (cancel_waiting t k i g)
  then have t: "task s t (Waiting k i g)" by (simp add: task_def)
  show ?thesis unfolding cancel_waiting(1) cancel_waiting_def
    by (intro sm_ok_become [OF ok t] gates_become [OF sm_okD(1) [OF ok] t]) (use sm_okD(2,3) [OF ok] in auto)
next
  case (cancel_loading t create i g)
  then have t: "task s t (Loading create i g)" by (simp add: task_def)
  have "gates_ok (become t (Finished Failed) (s\<lparr>sm_owner := (sm_owner s)(g := None)\<rparr>))"
    by (rule gates_release [OF sm_okD(1) [OF ok] t, of i]) auto
  then show ?thesis unfolding cancel_loading(1) cancel_loading_def
    by (intro sm_ok_become [OF ok t]) (use sm_okD(2,3) [OF ok] in auto)
next
  case (evict i)
  show ?thesis unfolding evict(1)
    by (rule sm_ok_cong [OF ok]) (use remove_spec [OF sm_okD(2) [OF ok]] in auto)
next
  case (create i fails)
  let ?s = "s\<lparr>sm_stored := insert i (sm_stored s)\<rparr>"
  have "sm_ok wild (start (Finished Failed) s)" by (rule sm_ok_start [OF ok]) auto
  moreover have "gates_ok (start (New_Saved i) ?s)"
    by (rule gates_start) (use gates_ok_cong [of ?s s] sm_okD(1) [OF ok] in auto)
  moreover have "stored_ok (start (New_Saved i) ?s)"
    by (rule stored_start [of s]) (use ok in \<open>auto simp: sm_ok_def\<close>)
  moreover have "misses_ok (start (New_Saved i) ?s)" if "\<not> wild"
    by (rule misses_create [OF sm_okD(4) [OF ok that]]) (use create(2) that in auto)
  ultimately show ?thesis unfolding create(1) create_save_def using sm_okD(2) [OF ok] by (simp add: sm_ok_def)
next
  case (created t i now)
  then have t: "task s t (New_Saved i)" by (simp add: task_def)
  let ?s = "(fst (Session_Manager.install iter now i s))\<lparr>sm_session_count := x\<rparr>"
  have "gates_ok (become t (Finished r) ((fst (Session_Manager.install iter now i s))\<lparr>sm_session_count := x\<rparr>))" for r x
    by (rule gates_become [where p = "New_Saved i"])
      (use gates_ok_cong [of "(fst (Session_Manager.install iter now i s))\<lparr>sm_session_count := x\<rparr>" s] sm_okD(1) [OF ok] t
         task_cong [of "fst (Session_Manager.install iter now i s)" s] in auto)
  then have "sm_ok wild (become t (Finished r) ((fst (Session_Manager.install iter now i s))\<lparr>sm_session_count := x\<rparr>))" for r x
    by (intro sm_ok_install [OF ok t, of i 0]) auto
  then show ?thesis unfolding created(1) create_install_def by (simp add: case_prod_beta)
next
  case (checkpoint now i)
  then have w: wild by simp
  let ?s = "fst (Session_Manager.install iter now i s)"
  have "sm_ok wild ?s"
    using ok install_ok(1) [OF sm_okD(2) [OF ok]] w gates_ok_cong [of ?s s] task_cong [of ?s s]
    by (simp add: sm_ok_def stored_ok_def)
  then have "sm_ok wild (start (Finished r) ?s)" for r using w by (intro sm_ok_start) auto
  then show ?thesis unfolding checkpoint(1) install_checkpoint_def by (simp add: case_prod_beta)
qed

lemma sm_reach_ok: "sm_reach iter wild s \<Longrightarrow> sm_ok wild s"
proof (induction rule: sm_reach.induct)
  case (start capacity now stored s)
  then show ?case
    by (auto simp: new_session_manager_def new_lru_def sm_ok_def gates_ok_def stored_ok_def misses_ok_def task_def
        lru_ok_def lru_wf_def split: if_splits)
qed (rule sm_step_ok)

text \<open>What a step can do to the cached handle of a session.\<close>

lemma step_keeps_handle:
  assumes ok: "sm_ok False s" and "sm_step iter False s s'" and h: "lru_view (sm_sessions s) j = Some h"
  shows "lru_view (sm_sessions s') j = Some h \<or> lru_view (sm_sessions s') j = None"
proof -
  note C = cached_ok [OF sm_okD(2) [OF ok]]
  have inst: "lru_view (sm_sessions (fst (install iter now i s))) j = Some h \<or> lru_view (sm_sessions (fst (install iter now i s))) j = None"
    if "lru_view (sm_sessions s) i = None" for now i
  proof -
    have "j \<noteq> i" using that h by auto
    from put_others [OF sm_okD(2) [OF ok] this, of now "sm_next_handle s"] show ?thesis using h by simp
  qed
  have un: "sm_sessions (unlock t i g r u) = sm_sessions u" for t i g r u by (simp add: unlock_def)
  from assms(2) show ?thesis
  proof cases
    case (call_load i now create)
    show ?thesis unfolding call_load(1) load_or_create_def
      using get_spec(3) [of "sm_sessions s" i] sm_okD(2) [OF ok] h
      by (simp add: case_prod_beta split: option.split)
  next
    case (recheck t create i g now)
    then show ?thesis unfolding recheck(1) Session_Manager.recheck_def
      using C(2) [of i] h by (simp add: case_prod_beta un split: option.split)
  next
    case (install t i g now)
    then have "lru_view (sm_sessions s) i = None"
      using misses_okD(1) [OF sm_okD(4) [OF ok], of t "Installing i g" i] by (simp add: task_def)
    then show ?thesis unfolding install(1) install_loaded_def using inst by (simp add: case_prod_beta un)
  next
    case (created t i now)
    then have "lru_view (sm_sessions s) i = None"
      using misses_okD(2) [OF sm_okD(4) [OF ok], of t i] by (simp add: task_def)
    then show ?thesis unfolding created(1) create_install_def using inst by (simp add: case_prod_beta)
  next
    case (delete t i g)
    then show ?thesis unfolding delete(1) delete_cached_def using view_forget [OF sm_okD(2) [OF ok], of i] h by simp
  next
    case (evict i)
    then show ?thesis using view_forget [OF sm_okD(2) [OF ok], of i] h by simp
  qed (use h in \<open>auto simp: enter_gate_def lock_gate_def read_stored_def save_created_def delete_stored_def leave_gate_def
      cancel_waiting_def cancel_loading_def create_save_def un split: option.split\<close>)
qed

end

interpretation session_rev: session_iteration rev
  by unfold_locales simp

section \<open>Claims\<close>


definition sm0 :: session_manager where
  "sm0 = \<lparr>sm_sessions = \<lparr>lru_data = [], lru_capacity = 2, lru_size = 0, lru_clock = 0, lru_hits = 0, lru_misses = 0,
       lru_evictions = 0, lru_cursor = 0, lru_name = ''session_cache'', lru_created_at = 0, lru_events = []\<rparr>,
     sm_loading = (\<lambda>_. None), sm_owner = (\<lambda>_. None), sm_tasks = [], sm_stored = {7},
     sm_registered = [], sm_active = (\<lambda>_. None), sm_next_gate = 0, sm_next_handle = 0, sm_session_count = 0,
     sm_operations = 0, sm_hits = 0, sm_misses = 0\<rparr>"

lemma sm0_reach: "sm_reach iter wild sm0"
  by (rule sm_reach.start [of 2 0 "{7}"]) (simp add: new_session_manager_def new_lru_def sm0_def)

text \<open>Two calls miss the same session and enter its gate; the first holds it.\<close>

definition sm2 :: session_manager where
  "sm2 = lock_gate 0 (Load False) 7 0 (enter_gate 1 (Load False) 7 (enter_gate 0 (Load False) 7
     (load_or_create 0 False 7 (load_or_create 0 False 7 sm0))))"

lemmas sm_run_simps = sm0_def load_or_create_def cached_def lru_get_def start_def become_def enter_gate_def lock_gate_def

lemma sm2_tasks: "sm_tasks sm2 = [Inside (Load False) 7 0, Waiting (Load False) 7 0]"
  by (simp add: sm2_def sm_run_simps)

lemma sm2_reach: "sm_reach iter wild sm2"
proof -
  let ?a = "load_or_create 0 False 7 sm0"
  let ?b = "load_or_create 0 False 7 ?a"
  let ?c = "enter_gate 0 (Load False) 7 ?b"
  let ?d = "enter_gate 1 (Load False) 7 ?c"
  have "sm_reach iter wild ?a"
    by (rule sm_reach.step [OF sm0_reach sm_step.call_load]) (simp add: in_creation_def sm0_def)
  then have "sm_reach iter wild ?b"
    by (rule sm_reach.step [OF _ sm_step.call_load]) (simp add: in_creation_def sm_run_simps)
  then have "sm_reach iter wild ?c"
    by (rule sm_reach.step [OF _ sm_step.enter]) (simp_all add: sm_run_simps)
  then have "sm_reach iter wild ?d"
    by (rule sm_reach.step [OF _ sm_step.enter]) (simp_all add: sm_run_simps)
  then show ?thesis
    unfolding sm2_def by (rule sm_reach.step [OF _ sm_step.lock]) (simp_all add: sm_run_simps)
qed



text \<open>The first call finds the session stored and installs it; the second then finds it cached.\<close>

definition sm3 :: session_manager where
  "sm3 = install_loaded rev 0 0 7 0 (read_stored 0 False False 7 0 (recheck 0 0 False 7 0 sm2))"

lemmas sm_load_simps = sm2_def sm_run_simps recheck_def read_stored_def install_loaded_def install_def unlock_def
  lru_put_def new_with_logical_time_def

lemma sm3_view: "lru_view (sm_sessions sm3) 7 = Some 0"
  by (simp add: sm3_def sm_load_simps lru_view_def)

lemma sm3_reach: "sm_reach rev wild sm3"
proof -
  let ?a = "recheck 0 0 False 7 0 sm2"
  let ?b = "read_stored 0 False False 7 0 ?a"
  have "sm_reach rev wild ?a"
    by (rule sm_reach.step [OF sm2_reach sm_step.recheck]) (simp_all add: sm2_tasks)
  then have "sm_reach rev wild ?b"
    by (rule sm_reach.step [OF _ sm_step.read]) (simp_all add: sm_load_simps)
  then show ?thesis
    unfolding sm3_def by (rule sm_reach.step [OF _ sm_step.install]) (simp_all add: sm_load_simps)
qed


text \<open>
  Outside such runs it can be: a session is listed once it is saved, so it can be loaded before
  \<open>create_session\<close> installs it, which then gives the cache a second handle.
\<close>

lemma creation_replaces_handle:
  assumes "sm_reach rev True s" and "task s t (New_Saved i)" and "lru_view (sm_sessions s) i = Some h"
  shows "sm_step rev True s (create_install rev t now i s)"
    and "lru_view (sm_sessions (create_install rev t now i s)) i = Some (sm_next_handle s)"
proof -
  show "sm_step rev True s (create_install rev t now i s)"
    using assms(2) by (intro sm_step.created) (simp_all add: task_def)
  have "lru_ok (sm_sessions s)" by (rule sm_okD(2) [OF session_rev.sm_reach_ok [OF assms(1)]])
  then show "lru_view (sm_sessions (create_install rev t now i s)) i = Some (sm_next_handle s)"
    using session_rev.put_spec(3) [of "sm_sessions s" i] assms(3)
    by (simp add: create_install_def case_prod_beta)
qed

end
