(* ===== verification/Request_Params.thy ===== *)
theory Request_Params
  imports Json_Path Context_Update
begin

text \<open>
  The parameters of a tool call: the coercion of loosely typed JSON of
  \<open>post-cortex-daemon/src/daemon/coerce.rs\<close> and the checks of \<open>daemon/validate.rs\<close>. What serde does
  comes in as arguments: \<open>show_num\<close> prints a number, \<open>to_json\<close> a value, \<open>num_u64\<close> is \<open>as_u64\<close>, \<open>de\<close>
  reads a request from a value, \<open>parse_uuid\<close> an id. The recovery suggestions, which only add texts to
  an error response, are left out.
\<close>

record 'n coercion_error =
  ce_message :: string
  ce_parameter_path :: "string option"
  ce_expected_type :: "string option"
  ce_received_value :: "'n json option"
  ce_hint :: "string option"

definition new_error :: "string \<Rightarrow> string \<Rightarrow> 'n json option \<Rightarrow> 'n coercion_error" where
  "new_error m source received =
     \<lparr>ce_message = m @ '': '' @ source, ce_parameter_path = None, ce_expected_type = None,
      ce_received_value = received, ce_hint = None\<rparr>"

definition with_parameter_path :: "string \<Rightarrow> 'n coercion_error \<Rightarrow> 'n coercion_error" where
  "with_parameter_path p e = e\<lparr>ce_parameter_path := Some p\<rparr>"

definition with_expected_type :: "string \<Rightarrow> 'n coercion_error \<Rightarrow> 'n coercion_error" where
  "with_expected_type t e = e\<lparr>ce_expected_type := Some t\<rparr>"

definition with_hint :: "string \<Rightarrow> 'n coercion_error \<Rightarrow> 'n coercion_error" where
  "with_hint h e = e\<lparr>ce_hint := Some h\<rparr>"

section \<open>Coercion\<close>

definition show_bool :: "bool \<Rightarrow> string" where
  "show_bool b = (if b then ''true'' else ''false'')"

fun coerce_scalar_to_string :: "('n \<Rightarrow> string) \<Rightarrow> 'n json \<Rightarrow> 'n json" where
  "coerce_scalar_to_string show_num (JNumber n) = JString (show_num n)"
| "coerce_scalar_to_string show_num (JBool b) = JString (show_bool b)"
| "coerce_scalar_to_string show_num v = v"

definition json_text_error :: "string \<Rightarrow> 'n json \<Rightarrow> 'n coercion_error" where
  "json_text_error e v = new_error ''Failed to serialize nested value to JSON string'' e (Some v)"

fun coerce_to_string ::
  "('n \<Rightarrow> string) \<Rightarrow> ('n json \<Rightarrow> (string, string) result) \<Rightarrow> 'n json \<Rightarrow> ('n coercion_error, 'n json) result" where
  "coerce_to_string show_num to_json (JNumber n) = Ok (coerce_scalar_to_string show_num (JNumber n))"
| "coerce_to_string show_num to_json (JBool b) = Ok (coerce_scalar_to_string show_num (JBool b))"
| "coerce_to_string show_num to_json (JObject m) =
     (case to_json (JObject m) of Inl e \<Rightarrow> Err (json_text_error e (JObject m)) | Inr t \<Rightarrow> Ok (JString t))"
| "coerce_to_string show_num to_json (JArray vs) =
     (case to_json (JArray vs) of Inl e \<Rightarrow> Err (json_text_error e (JArray vs)) | Inr t \<Rightarrow> Ok (JString t))"
| "coerce_to_string show_num to_json v = Ok v"

text \<open>A loop over the values of a map or array that stops at the first error.\<close>

fun each_value :: "('a \<Rightarrow> ('e, 'b) result) \<Rightarrow> ('k \<times> 'a) list \<Rightarrow> ('e, ('k \<times> 'b) list) result" where
  "each_value f [] = Ok []"
| "each_value f ((k, v) # kvs) = res_bind (f v) (\<lambda>w. res_bind (each_value f kvs) (\<lambda>kws. Ok ((k, w) # kws)))"

fun each_item :: "('a \<Rightarrow> ('e, 'b) result) \<Rightarrow> 'a list \<Rightarrow> ('e, 'b list) result" where
  "each_item f [] = Ok []"
| "each_item f (v # vs) = res_bind (f v) (\<lambda>w. res_bind (each_item f vs) (\<lambda>ws. Ok (w # ws)))"

fun coerce_string_map ::
  "('n \<Rightarrow> string) \<Rightarrow> ('n json \<Rightarrow> (string, string) result) \<Rightarrow> 'n json \<Rightarrow> ('n coercion_error, 'n json) result" where
  "coerce_string_map show_num to_json (JObject m) =
     res_bind (each_value (coerce_to_string show_num to_json) m) (\<lambda>m'. Ok (JObject m'))"
| "coerce_string_map show_num to_json v = Ok v"

text \<open>\<open>item.get_mut("content")\<close>: the entry of that key, where the item is an object.\<close>

fun coerce_content_entry ::
  "('n \<Rightarrow> string) \<Rightarrow> ('n json \<Rightarrow> (string, string) result) \<Rightarrow> (string \<times> 'n json) list \<Rightarrow>
   ('n coercion_error, (string \<times> 'n json) list) result" where
  "coerce_content_entry show_num to_json [] = Ok []"
| "coerce_content_entry show_num to_json ((k, v) # m) =
     (if k = ''content'' then res_bind (coerce_string_map show_num to_json v) (\<lambda>w. Ok ((k, w) # m))
      else res_bind (coerce_content_entry show_num to_json m) (\<lambda>m'. Ok ((k, v) # m')))"

fun coerce_item ::
  "('n \<Rightarrow> string) \<Rightarrow> ('n json \<Rightarrow> (string, string) result) \<Rightarrow> 'n json \<Rightarrow> ('n coercion_error, 'n json) result" where
  "coerce_item show_num to_json (JObject m) = res_bind (coerce_content_entry show_num to_json m) (\<lambda>m'. Ok (JObject m'))"
| "coerce_item show_num to_json v = Ok v"

definition coerce_entry ::
  "('n \<Rightarrow> string) \<Rightarrow> ('n json \<Rightarrow> (string, string) result) \<Rightarrow> string \<Rightarrow> 'n json \<Rightarrow> ('n coercion_error, 'n json) result" where
  "coerce_entry show_num to_json key v =
     (if key = ''content'' \<or> key = ''parameters'' then coerce_string_map show_num to_json v
      else if key = ''updates'' then
        (case v of JArray items \<Rightarrow> res_bind (each_item (coerce_item show_num to_json) items) (\<lambda>items'. Ok (JArray items'))
         | _ \<Rightarrow> Ok v)
      else if ends_with ''_id'' key then Ok (coerce_scalar_to_string show_num v)
      else Ok v)"

fun each_entry :: "('k \<Rightarrow> 'a \<Rightarrow> ('e, 'b) result) \<Rightarrow> ('k \<times> 'a) list \<Rightarrow> ('e, ('k \<times> 'b) list) result" where
  "each_entry f [] = Ok []"
| "each_entry f ((k, v) # kvs) = res_bind (f k v) (\<lambda>w. res_bind (each_entry f kvs) (\<lambda>kws. Ok ((k, w) # kws)))"

fun apply_coercions ::
  "('n \<Rightarrow> string) \<Rightarrow> ('n json \<Rightarrow> (string, string) result) \<Rightarrow> 'n json \<Rightarrow> ('n coercion_error, 'n json) result" where
  "apply_coercions show_num to_json (JObject m) =
     res_bind (each_entry (coerce_entry show_num to_json) m) (\<lambda>m'. Ok (JObject m'))"
| "apply_coercions show_num to_json v = Ok v"

definition coerce_and_validate ::
  "('n \<Rightarrow> string) \<Rightarrow> ('n json \<Rightarrow> (string, string) result) \<Rightarrow> ('n json \<Rightarrow> (string, 'r) result) \<Rightarrow> 'n json \<Rightarrow>
   ('n coercion_error, 'r) result" where
  "coerce_and_validate show_num to_json de v =
     (case de v of
        Inr r \<Rightarrow> Ok r
      | Inl _ \<Rightarrow> res_bind (apply_coercions show_num to_json v) (\<lambda>w.
          case de w of
            Inr r \<Rightarrow> Ok r
          | Inl e \<Rightarrow> Err (new_error ''Failed to deserialize parameter(s)'' e None)))"

section \<open>Checks of single parameters\<close>

definition quoted :: "string \<Rightarrow> string" where
  "quoted s = CHR 0x27 # s @ [CHR 0x27]"

definition validate_session_id ::
  "(string \<Rightarrow> uuid option) \<Rightarrow> string \<Rightarrow> ('n coercion_error, uuid) result" where
  "validate_session_id parse_uuid s =
     (case parse_uuid s of
        Some i \<Rightarrow> Ok i
      | None \<Rightarrow> Err (with_hint (''Create a session first using the '' @ quoted ''session'' @ '' tool with action='' @ quoted ''create'' @
            '', or search for existing sessions using '' @ quoted ''semantic_search'')
          (with_expected_type ''UUID format: xxxxxxxx-xxxx-xxxx-xxxx-xxxxxxxxxxxx (36 chars with hyphens)''
            (with_parameter_path ''session_id''
              (new_error (''Invalid UUID format: '' @ quoted s) ''Invalid UUID'' (Some (JString s)))))))"

definition validate_workspace_id ::
  "(string \<Rightarrow> uuid option) \<Rightarrow> string \<Rightarrow> ('n coercion_error, uuid) result" where
  "validate_workspace_id parse_uuid s =
     (case parse_uuid s of
        Some i \<Rightarrow> Ok i
      | None \<Rightarrow> Err (with_hint (''Use the '' @ quoted ''manage_workspace'' @ '' tool with action='' @ quoted ''list'' @
            '' to see available workspaces, or create one with action='' @ quoted ''create'')
          (with_expected_type ''UUID format: xxxxxxxx-xxxx-xxxx-xxxx-xxxxxxxxxxxx (36 chars with hyphens)''
            (with_parameter_path ''workspace_id''
              (new_error (''Invalid workspace ID format: '' @ quoted s) ''Invalid UUID'' (Some (JString s)))))))"

text \<open>One of a list of names, in any case.\<close>

definition one_of :: "string list \<Rightarrow> string \<Rightarrow> string \<Rightarrow> string \<Rightarrow> string \<Rightarrow> string \<Rightarrow> ('n coercion_error, unit) result" where
  "one_of valid path what source hint s =
     (if str_lower s \<in> set valid then Ok ()
      else Err (with_hint hint (with_expected_type (''one of: '' @ join_with '', '' valid)
        (with_parameter_path path (new_error (''Invalid '' @ what @ '': '' @ quoted s) source (Some (JString s)))))))"

definition valid_interaction_types :: "string list" where
  "valid_interaction_types =
     [''qa'', ''decision_made'', ''problem_solved'', ''code_change'', ''requirement_added'', ''concept_defined'']"

definition validate_interaction_type :: "string \<Rightarrow> ('n coercion_error, unit) result" where
  "validate_interaction_type =
     one_of valid_interaction_types ''interaction_type'' ''interaction_type'' ''Invalid type''
       ''Use exact lowercase term with underscores. Valid types: qa, decision_made, problem_solved, code_change, requirement_added, concept_defined''"

definition validate_scope :: "string \<Rightarrow> ('n coercion_error, unit) result" where
  "validate_scope =
     one_of [''session'', ''workspace'', ''global''] ''scope'' ''scope'' ''Invalid scope''
       (''Valid scopes: '' @ quoted ''session'' @ '' (requires scope_id), '' @ quoted ''workspace'' @ '' (requires scope_id), '' @
        quoted ''global'' @ '' (default, no scope_id needed)'')"

definition validate_session_action :: "string \<Rightarrow> ('n coercion_error, unit) result" where
  "validate_session_action =
     one_of [''create'', ''list'', ''load'', ''search'', ''update_metadata'', ''delete''] ''action'' ''action'' ''Invalid action''
       ''Valid actions: create (name, description), list, load (session_id), search (query), update_metadata (session_id + name/description), delete (session_id)''"

definition validate_workspace_action :: "string \<Rightarrow> ('n coercion_error, unit) result" where
  "validate_workspace_action =
     one_of [''create'', ''list'', ''get'', ''delete'', ''add_session'', ''remove_session'', ''get_card'', ''update_card'']
       ''action'' ''action'' ''Invalid action''
       ''Valid actions: create (with name/description), list, get (workspace_id), delete (workspace_id), add_session (workspace_id, session_id, role), remove_session (workspace_id, session_id)''"

definition validate_session_role :: "string \<Rightarrow> ('n coercion_error, unit) result" where
  "validate_session_role =
     one_of [''primary'', ''related'', ''dependency'', ''shared''] ''role'' ''role'' ''Invalid role''
       ''Valid session roles: primary (main session), related (related context), dependency (required context), shared (shared context)''"

text \<open>\<open>usize\<close> limits; \<open>show_nat\<close> prints them and \<open>num\<close> makes them JSON numbers.\<close>

definition limit_error :: "'n \<Rightarrow> nat \<Rightarrow> nat \<Rightarrow> string \<Rightarrow> string \<Rightarrow> 'n coercion_error" where
  "limit_error received dflt most m source =
     with_hint (''Use limit between 1 and '' @ show_nat most @ '', or omit for default ('' @ show_nat dflt @ '')'')
       (with_expected_type (''number between 1 and '' @ show_nat most)
         (with_parameter_path ''limit'' (new_error m source (Some (JNumber received)))))"

definition validate_limits ::
  "(nat \<Rightarrow> 'n) \<Rightarrow> nat option \<Rightarrow> nat \<Rightarrow> nat \<Rightarrow> ('n coercion_error, nat) result" where
  "validate_limits num limit dflt most =
     (let v = unwrap_or limit dflt
      in if v > most
         then Err (limit_error (num v) dflt most (''Limit '' @ show_nat v @ '' exceeds maximum of '' @ show_nat most) ''Limit too large'')
         else if v = 0 then Err (limit_error (num v) dflt most ''Limit must be at least 1'' ''Limit too small'')
         else Ok v)"

section \<open>Code references\<close>

text \<open>\<open>rsplit_once\<close>: what is before and after the last occurrence.\<close>

definition rsplit_once :: "char \<Rightarrow> string \<Rightarrow> (string \<times> string) option" where
  "rsplit_once d s =
     (if d \<notin> set s then None
      else let after = rev (takeWhile (\<lambda>c. c \<noteq> d) (rev s))
           in Some (take (length s - length after - 1) s, after))"

text \<open>\<open>splitn(2, '-')\<close>: before the first dash and, where there is one, after it.\<close>

definition split_dash :: "string \<Rightarrow> string \<times> string option" where
  "split_dash s =
     (let b = takeWhile (\<lambda>c. c \<noteq> CHR ''-'') s
      in (b, if length b < length s then Some (drop (length b + 1) s) else None))"

text \<open>\<open>str::parse::<u32>\<close>.\<close>

definition parse_u32 :: "string \<Rightarrow> u32 option" where
  "parse_u32 s =
     (let ds = (case s of [] \<Rightarrow> [] | c # cs \<Rightarrow> if c = CHR ''+'' then cs else s)
      in case parse_digits ds of None \<Rightarrow> None | Some n \<Rightarrow> if n < 2 ^ 32 then Some (of_nat n) else None)"

definition is_line_spec :: "string \<Rightarrow> bool" where
  "is_line_spec s \<longleftrightarrow> s \<noteq> [] \<and> list_all (\<lambda>c. is_digit c \<or> c = CHR ''-'') s"

definition invalid_reference :: "string \<Rightarrow> string \<Rightarrow> 'n json \<Rightarrow> 'n coercion_error" where
  "invalid_reference path why received =
     with_hint ''Examples: \"src/main.rs:42\" or {\"file\": \"src/main.rs\", \"line\": 42}''
       (with_expected_type ''\"path[:line[-end]]\" string or {\"file\": ..., \"line\": ..., \"function\": ...} object''
         (with_parameter_path path
           (new_error (''Invalid code_reference: '' @ why) ''invalid code_reference'' (Some received))))"

definition plain_reference :: "string \<Rightarrow> u32 \<Rightarrow> u32 \<Rightarrow> code_reference" where
  "plain_reference p s e =
     \<lparr>cr_file_path = p, cr_start_line = s, cr_end_line = max e s, cr_code_snippet = [], cr_commit_hash = None,
      cr_branch = None, cr_change_description = []\<rparr>"

definition reference_of_string :: "string \<Rightarrow> string \<Rightarrow> ('n coercion_error, code_reference option) result" where
  "reference_of_string parameter s0 =
     (let s = trim s0;
          (path, lines) = (case rsplit_once CHR '':'' s of
              Some (p, spec) \<Rightarrow> if p \<noteq> [] \<and> is_line_spec spec then (p, Some spec) else (s, None)
            | None \<Rightarrow> (s, None))
      in if path = [] then Err (invalid_reference parameter ''empty file path'' (JString s0))
         else case lines of
             None \<Rightarrow> Ok (Some (plain_reference path 0 0))
           | Some spec \<Rightarrow>
               (let (first, rest) = split_dash spec; start = parse_u32 first;
                    stop = (case rest of Some r \<Rightarrow> parse_u32 r | None \<Rightarrow> start)
                in case (start, stop) of
                     (Some a, Some b) \<Rightarrow> Ok (Some (plain_reference path a b))
                   | _ \<Rightarrow> Err (invalid_reference parameter ''malformed line range'' (JString s0))))"

definition str_field :: "(string \<times> 'n json) list \<Rightarrow> string \<Rightarrow> string option" where
  "str_field m k = (case map_of m k of Some (JString s) \<Rightarrow> Some s | _ \<Rightarrow> None)"

definition line_field ::
  "('n \<Rightarrow> nat option) \<Rightarrow> string \<Rightarrow> (string \<times> 'n json) list \<Rightarrow> string \<Rightarrow> ('n coercion_error, u32 option) result" where
  "line_field num_u64 parameter m k =
     (let bad = Err (invalid_reference parameter (quoted k @ '' must be a non-negative integer'') (JObject m))
      in case map_of m k of
           None \<Rightarrow> Ok None
         | Some JNull \<Rightarrow> Ok None
         | Some (JNumber n) \<Rightarrow>
             (case num_u64 n of None \<Rightarrow> bad | Some v \<Rightarrow> if v < 2 ^ 32 then Ok (Some (of_nat v)) else bad)
         | Some _ \<Rightarrow> bad)"

definition or_field :: "'a option \<Rightarrow> 'a option \<Rightarrow> 'a option" where
  "or_field a b = (case a of None \<Rightarrow> b | Some _ \<Rightarrow> a)"

definition reference_of_object ::
  "('n \<Rightarrow> nat option) \<Rightarrow> string \<Rightarrow> (string \<times> 'n json) list \<Rightarrow> ('n coercion_error, code_reference option) result" where
  "reference_of_object num_u64 parameter m =
     (let field = str_field m; number = line_field num_u64 parameter m in
      case or_field (field ''file_path'') (field ''file'') of
        None \<Rightarrow> Err (invalid_reference parameter (''missing '' @ quoted ''file'' @ '' (or '' @ quoted ''file_path'' @ '')'') (JObject m))
      | Some path \<Rightarrow>
          if trim path = []
          then Err (invalid_reference parameter (''missing '' @ quoted ''file'' @ '' (or '' @ quoted ''file_path'' @ '')'') (JObject m))
          else res_bind (number ''start_line'') (\<lambda>a.
               res_bind (number ''line'') (\<lambda>b.
               res_bind (number ''end_line'') (\<lambda>c.
                 let start = unwrap_or (or_field a b) 0
                 in Ok (Some ((plain_reference path start (unwrap_or c start))
                   \<lparr>cr_code_snippet := unwrap_or (field ''code_snippet'') [],
                    cr_commit_hash := field ''commit_hash'', cr_branch := field ''branch'',
                    cr_change_description :=
                      unwrap_or (or_field (field ''change_description'') (or_field (field ''description'')
                        (map_option (\<lambda>f. ''in '' @ f) (field ''function'')))) []\<rparr>))))))"

fun validate_code_reference ::
  "('n \<Rightarrow> nat option) \<Rightarrow> 'n json option \<Rightarrow> string \<Rightarrow> ('n coercion_error, code_reference option) result" where
  "validate_code_reference num_u64 None parameter = Ok None"
| "validate_code_reference num_u64 (Some JNull) parameter = Ok None"
| "validate_code_reference num_u64 (Some (JString s)) parameter = reference_of_string parameter s"
| "validate_code_reference num_u64 (Some (JObject m)) parameter = reference_of_object num_u64 parameter m"
| "validate_code_reference num_u64 (Some v) parameter = Err (invalid_reference parameter ''expected a string or an object'' v)"

end
