(* ===== verification/Request_Params_Props.thy ===== *)
theory Request_Params_Props
  imports Request_Params
begin

text \<open>The shapes that coercion establishes, and what the parameter checks accept.\<close>

section \<open>Coercion\<close>

fun is_text :: "'n json \<Rightarrow> bool" where
  "is_text (JString s) \<longleftrightarrow> True"
| "is_text JNull \<longleftrightarrow> True"
| "is_text _ \<longleftrightarrow> False"

fun no_scalar :: "'n json \<Rightarrow> bool" where
  "no_scalar (JNumber n) \<longleftrightarrow> False"
| "no_scalar (JBool b) \<longleftrightarrow> False"
| "no_scalar _ \<longleftrightarrow> True"

fun text_map :: "'n json \<Rightarrow> bool" where
  "text_map (JObject m) \<longleftrightarrow> list_all (\<lambda>e. is_text (snd e)) m"
| "text_map _ \<longleftrightarrow> True"

fun item_shape :: "'n json \<Rightarrow> bool" where
  "item_shape (JObject m) \<longleftrightarrow> (case map_of m ''content'' of None \<Rightarrow> True | Some v \<Rightarrow> text_map v)"
| "item_shape _ \<longleftrightarrow> True"

text \<open>What an entry of the top-level object looks like when nothing is left to coerce.\<close>

definition entry_shape :: "string \<Rightarrow> 'n json \<Rightarrow> bool" where
  "entry_shape key v \<longleftrightarrow>
     (if key = ''content'' \<or> key = ''parameters'' then text_map v
      else if key = ''updates'' then (case v of JArray items \<Rightarrow> list_all item_shape items | _ \<Rightarrow> True)
      else if ends_with ''_id'' key then no_scalar v
      else True)"

lemma coerce_to_string_shape: "coerce_to_string sn tj v = Ok w \<Longrightarrow> is_text w"
  by (cases v) (auto split: sum.splits)

lemma coerce_to_string_same: "is_text v \<Longrightarrow> coerce_to_string sn tj v = Ok v"
  by (cases v) simp_all

lemma scalar_shape [simp]: "no_scalar (coerce_scalar_to_string sn v)"
  by (cases v) simp_all

lemma scalar_same [simp]: "no_scalar v \<Longrightarrow> coerce_scalar_to_string sn v = v"
  by (cases v) simp_all

lemma each_value_Ok:
  "each_value f m = Ok m' \<longleftrightarrow> list_all2 (\<lambda>e e'. fst e' = fst e \<and> f (snd e) = Ok (snd e')) m m'"
proof (induction m arbitrary: m')
  case Nil
  then show ?case by auto
next
  case (Cons e m)
  then show ?case by (cases e; cases m') (auto simp: res_bind_Ok)
qed

lemma each_item_Ok: "each_item f vs = Ok ws \<longleftrightarrow> list_all2 (\<lambda>v w. f v = Ok w) vs ws"
proof (induction vs arbitrary: ws)
  case Nil
  then show ?case by auto
next
  case (Cons v vs)
  then show ?case by (cases ws) (auto simp: res_bind_Ok)
qed

lemma each_entry_Ok:
  "each_entry f m = Ok m' \<longleftrightarrow> list_all2 (\<lambda>e e'. fst e' = fst e \<and> f (fst e) (snd e) = Ok (snd e')) m m'"
proof (induction m arbitrary: m')
  case Nil
  then show ?case by auto
next
  case (Cons e m)
  then show ?case by (cases e; cases m') (auto simp: res_bind_Ok)
qed

lemma list_all2_same: "(\<forall>x \<in> set xs. R x x) \<Longrightarrow> list_all2 R xs xs"
  by (induction xs) auto

lemma string_map_shape: "coerce_string_map sn tj v = Ok w \<Longrightarrow> text_map w"
proof (cases v)
  case (JObject m)
  moreover assume "coerce_string_map sn tj v = Ok w"
  ultimately obtain m' where w: "w = JObject m'" and e: "each_value (coerce_to_string sn tj) m = Ok m'"
    by (auto simp: res_bind_Ok)
  have "list_all2 (\<lambda>e e'. is_text (snd e')) m m'"
    using e unfolding each_value_Ok by (rule list_all2_mono) (auto dest: coerce_to_string_shape)
  then have "list_all (\<lambda>e. is_text (snd e)) m'" by (induction rule: list_all2_induct) simp_all
  then show ?thesis by (simp add: w)
qed auto

lemma string_map_same: "text_map v \<Longrightarrow> coerce_string_map sn tj v = Ok v"
proof (cases v)
  case (JObject m)
  moreover assume "text_map v"
  ultimately have "each_value (coerce_to_string sn tj) m = Ok m"
    unfolding each_value_Ok by (intro list_all2_same) (auto simp: list_all_iff coerce_to_string_same)
  then show ?thesis by (simp add: JObject)
qed auto

lemma content_entry_Ok:
  assumes "coerce_content_entry sn tj m = Ok m'"
  shows "map fst m' = map fst m"
    and "map_of m' ''content'' = (case map_of m ''content'' of None \<Rightarrow> None
      | Some v \<Rightarrow> (case coerce_string_map sn tj v of Inl e \<Rightarrow> None | Inr w \<Rightarrow> Some w))"
  using assms by (induction m arbitrary: m') (auto simp: res_bind_Ok split: if_splits)

lemma item_shape_Ok: "coerce_item sn tj v = Ok w \<Longrightarrow> item_shape w"
proof (cases v)
  case (JObject m)
  moreover assume "coerce_item sn tj v = Ok w"
  ultimately obtain m' where w: "w = JObject m'" and e: "coerce_content_entry sn tj m = Ok m'"
    by (auto simp: res_bind_Ok)
  show ?thesis
    using content_entry_Ok(2) [OF e] string_map_shape by (fastforce simp: w split: option.split sum.splits)
qed auto

lemma content_entry_same:
  "(case map_of m ''content'' of None \<Rightarrow> True | Some v \<Rightarrow> text_map v) \<Longrightarrow> coerce_content_entry sn tj m = Ok m"
  by (induction m) (auto simp: string_map_same split: if_splits)

lemma item_same: "item_shape v \<Longrightarrow> coerce_item sn tj v = Ok v"
  by (cases v) (auto simp: content_entry_same)

lemma entry_shape_Ok: "coerce_entry sn tj k v = Ok w \<Longrightarrow> entry_shape k w"
proof -
  assume e: "coerce_entry sn tj k v = Ok w"
  show "entry_shape k w"
  proof (cases "k = ''updates''")
    case True
    show ?thesis
    proof (cases v)
      case (JArray items)
      then obtain items' where w: "w = JArray items'" and i: "list_all2 (\<lambda>v w. coerce_item sn tj v = Ok w) items items'"
        using e True by (auto simp: coerce_entry_def res_bind_Ok each_item_Ok)
      have "list_all item_shape items'" using i by (induction rule: list_all2_induct) (simp_all add: item_shape_Ok)
      then show ?thesis by (simp add: entry_shape_def True w)
    qed (use e True in \<open>auto simp: coerce_entry_def entry_shape_def\<close>)
  next
    case False
    then show ?thesis
      using e string_map_shape by (auto simp: coerce_entry_def entry_shape_def split: if_splits)
  qed
qed

lemma entry_same: "entry_shape k v \<Longrightarrow> coerce_entry sn tj k v = Ok v"
proof (cases "k = ''updates''")
  case True
  assume s: "entry_shape k v"
  show ?thesis
  proof (cases v)
    case (JArray items)
    then have "each_item (coerce_item sn tj) items = Ok items"
      using s True unfolding each_item_Ok by (intro list_all2_same) (auto simp: entry_shape_def list_all_iff item_same)
    then show ?thesis by (simp add: coerce_entry_def True JArray)
  qed (simp_all add: coerce_entry_def True)
qed (auto simp: coerce_entry_def entry_shape_def string_map_same split: if_splits)

lemma apply_coercions_shapes:
  assumes "apply_coercions sn tj (JObject m) = Ok w"
  shows "\<exists>m'. w = JObject m' \<and> map fst m' = map fst m \<and>
    list_all2 (\<lambda>(k, v) (k', v'). entry_shape k v' \<and> (entry_shape k v \<longrightarrow> v' = v)) m m' \<and> apply_coercions sn tj w = Ok w"
proof -
  obtain m' where w: "w = JObject m'" and e: "list_all2 (\<lambda>e e'. fst e' = fst e \<and> coerce_entry sn tj (fst e) (snd e) = Ok (snd e')) m m'"
    using assms by (auto simp: res_bind_Ok each_entry_Ok)
  have keys: "map fst m' = map fst m" using e by (induction rule: list_all2_induct) simp_all
  have shapes: "list_all2 (\<lambda>(k, v) (k', v'). entry_shape k v' \<and> (entry_shape k v \<longrightarrow> v' = v)) m m'"
    using e by (rule list_all2_mono) (auto dest: entry_shape_Ok simp: entry_same)
  have "list_all (\<lambda>(k, v). entry_shape k v) m'"
    using e by (induction rule: list_all2_induct) (auto dest: entry_shape_Ok simp: split_beta)
  then have "each_entry (coerce_entry sn tj) m' = Ok m'"
    unfolding each_entry_Ok by (intro list_all2_same) (auto simp: list_all_iff entry_same)
  then show ?thesis using keys shapes by (auto simp: w)
qed


text \<open>A request with a number as its id and in its content; the limit stays a number.\<close>

definition demo_params :: "(string \<times> nat json) list" where
  "demo_params = [(''content'', JObject [(''score'', JNumber 42), (''why'', JString ''fast'')]),
     (''limit'', JNumber 5), (''session_id'', JNumber 123)]"

definition demo_texts :: "(string \<times> nat json) list" where
  "demo_texts = [(''content'', JObject [(''score'', JString ''42''), (''why'', JString ''fast'')]),
     (''limit'', JNumber 5), (''session_id'', JString ''123'')]"

fun demo_de :: "nat json \<Rightarrow> (string, nat) result" where
  "demo_de (JObject m) = (case map_of m ''session_id'' of Some (JString s) \<Rightarrow> Ok (length s) | _ \<Rightarrow> Err ''invalid type'')"
| "demo_de _ = Err ''invalid type''"


section \<open>Limits and names\<close>

lemma validate_limits_Ok:
  "validate_limits num limit dflt most = Ok v \<longleftrightarrow> v = unwrap_or limit dflt \<and> 1 \<le> v \<and> v \<le> most"
  by (auto simp: validate_limits_def Let_def)

lemma one_of_Ok: "one_of valid path what source hint s = Ok u \<longleftrightarrow> str_lower s \<in> set valid"
  by (auto simp: one_of_def)

section \<open>Code references\<close>

lemma takeWhile_until: "d \<notin> set a \<Longrightarrow> takeWhile (\<lambda>c. c \<noteq> d) (a @ d # b) = a"
  by (induction a) auto

lemma takeWhile_without: "d \<notin> set a \<Longrightarrow> takeWhile (\<lambda>c. c \<noteq> d) a = a"
  by (induction a) auto

lemma rsplit_once_last: "d \<notin> set b \<Longrightarrow> rsplit_once d (a @ d # b) = Some (a, b)"
  by (simp add: rsplit_once_def takeWhile_until)

lemma split_dash_simps:
  "CHR ''-'' \<notin> set a \<Longrightarrow> split_dash a = (a, None)"
  "CHR ''-'' \<notin> set a \<Longrightarrow> split_dash (a @ CHR ''-'' # b) = (a, Some b)"
  by (simp_all add: split_dash_def takeWhile_until takeWhile_without)

lemma parse_u32_show: "n < 2 ^ 32 \<Longrightarrow> parse_u32 (show_nat n) = Some (of_nat n)"
proof -
  assume n: "n < 2 ^ 32"
  obtain c cs where s: "show_nat n = c # cs" by (cases "show_nat n") simp_all
  then have "is_digit c" using show_nat_digits [of c n] by simp
  then have "c \<noteq> CHR ''+''" by (auto simp: is_digit_def)
  with s n show ?thesis using parse_digits_show_nat [of n] by (simp add: parse_u32_def)
qed

lemma show_nat_plain: "d \<in> {CHR ''-'', CHR '':''} \<Longrightarrow> d \<notin> set (show_nat n)"
  using show_nat_digits [of d n] by (auto simp: is_digit_def)

lemma trim_text: "s \<noteq> [] \<Longrightarrow> \<not> is_whitespace (hd s) \<Longrightarrow> \<not> is_whitespace (last s) \<Longrightarrow> trim s = s"
  by (simp add: trim_def dropWhile_eq_self_iff [THEN iffD2] hd_rev)

text \<open>How a reference with lines is written.\<close>

definition show_reference :: "string \<Rightarrow> nat \<Rightarrow> nat option \<Rightarrow> string" where
  "show_reference path a b =
     path @ '':'' @ show_nat a @ (case b of None \<Rightarrow> [] | Some b \<Rightarrow> ''-'' @ show_nat b)"

lemma reference_with_lines:
  assumes "path \<noteq> []" and "\<not> is_whitespace (hd path)" and "a < 2 ^ 32" and "\<forall>b'. b = Some b' \<longrightarrow> b' < 2 ^ 32"
  shows "reference_of_string p (show_reference path a b) = Ok (Some (plain_reference path (of_nat a) (of_nat (unwrap_or b a))))"
proof -
  define spec where "spec = show_nat a @ (case b of None \<Rightarrow> [] | Some b \<Rightarrow> ''-'' @ show_nat b)"
  have s: "show_reference path a b = path @ CHR '':'' # spec" by (simp add: show_reference_def spec_def)
  have ok: "is_line_spec spec" "CHR '':'' \<notin> set spec"
    using show_nat_digits show_nat_plain
    by (auto simp: is_line_spec_def spec_def list_all_iff split: option.splits)
  have ne: "spec \<noteq> []" by (simp add: spec_def)
  then have "last spec \<in> set spec" by simp
  then have "is_digit (last spec) \<or> last spec = CHR ''-''"
    using ok(1) unfolding is_line_spec_def list_all_iff by blast
  moreover have "\<not> is_whitespace CHR ''-''" by code_simp
  ultimately have ws: "\<not> is_whitespace (last spec)" using digit_not_whitespace by metis
  have t: "trim (show_reference path a b) = path @ CHR '':'' # spec"
    unfolding s
  proof (rule trim_text)
    show "\<not> is_whitespace (hd (path @ CHR '':'' # spec))" using assms(1,2) by simp
    show "\<not> is_whitespace (last (path @ CHR '':'' # spec))" using ws ne by simp
  qed simp
  have d: "split_dash spec = (show_nat a, map_option show_nat b)"
    using split_dash_simps show_nat_plain by (cases b) (simp_all add: spec_def)
  show ?thesis
    using assms ok
    by (simp add: reference_of_string_def t rsplit_once_last [OF ok(2)] d parse_u32_show split: option.split)
qed

lemma reference_of_string_path:
  assumes "path \<noteq> []" and "trim path = path" and "CHR '':'' \<notin> set path"
  shows "reference_of_string p path = Ok (Some (plain_reference path 0 0))"
  using assms by (simp add: reference_of_string_def rsplit_once_def)

definition reference_ok :: "code_reference \<Rightarrow> bool" where
  "reference_ok r \<longleftrightarrow> cr_file_path r \<noteq> [] \<and> cr_start_line r \<le> cr_end_line r"

lemma plain_reference_ok: "path \<noteq> [] \<Longrightarrow> reference_ok (plain_reference path a b)"
  by (simp add: reference_ok_def plain_reference_def)

lemma string_reference_ok: "reference_of_string p s = Ok r \<Longrightarrow> \<exists>c. r = Some c \<and> reference_ok c"
  by (auto simp: reference_of_string_def Let_def plain_reference_ok split: prod.splits option.splits if_splits)

lemma object_reference_ok: "reference_of_object num p m = Ok r \<Longrightarrow> \<exists>c. r = Some c \<and> reference_ok c"
  by (auto simp: reference_of_object_def Let_def res_bind_Ok reference_ok_def plain_reference_def split: option.splits if_splits)

text \<open>
  C36: the documented string forms of a code reference mean what they say: a path with a line or
  a range of lines is that path (which may hold colons) and those lines, the end raised to the start,
  and a path without a colon is the whole file. Nothing is dropped in silence: no reference is the
  answer to an absent or null value only, and an accepted one has a file and a range.
\<close>

theorem code_reference_forms:
  assumes "path \<noteq> []" and "\<not> is_whitespace (hd path)" and "a < 2 ^ 32" and "\<forall>b'. b = Some b' \<longrightarrow> b' < 2 ^ 32"
  shows "validate_code_reference num (Some (JString (show_reference path a b))) p =
      Ok (Some (plain_reference path (of_nat a) (of_nat (unwrap_or b a)))) \<and>
    (trim path = path \<and> CHR '':'' \<notin> set path \<longrightarrow>
      validate_code_reference num (Some (JString path)) p = Ok (Some (plain_reference path 0 0))) \<and>
    (\<forall>v. validate_code_reference num v p = Ok None \<longleftrightarrow> v = None \<or> v = Some JNull) \<and>
    (\<forall>v r. validate_code_reference num v p = Ok (Some r) \<longrightarrow> reference_ok r)"
proof -
  have none: "validate_code_reference num v p = Ok None \<longleftrightarrow> v = None \<or> v = Some JNull" for v
    by (cases "(num, v, p)" rule: validate_code_reference.cases)
      (auto dest: string_reference_ok object_reference_ok)
  have some: "reference_ok r" if "validate_code_reference num v p = Ok (Some r)" for v r
    using that by (cases "(num, v, p)" rule: validate_code_reference.cases)
      (auto dest: string_reference_ok object_reference_ok)
  show ?thesis
    using none some by (simp add: reference_with_lines [OF assms] reference_of_string_path [OF assms(1)])
qed

theorem code_reference_forms_witness:
  "validate_code_reference (\<lambda>n. Some n) (Some (JString ''C:/x.rs:10-20'')) ''code_reference'' =
     Ok (Some (plain_reference ''C:/x.rs'' 10 20))"
proof -
  have s: "show_reference ''C:/x.rs'' 10 (Some 20) = ''C:/x.rs:10-20''" by code_simp
  have w: "\<not> is_whitespace (hd ''C:/x.rs'')" by code_simp
  show ?thesis
    using code_reference_forms [of "''C:/x.rs''" 10 "Some 20" "\<lambda>n. Some n" "''code_reference''"] s w by simp
qed

end
