(* ===== verification/Redact.thy ===== *)
theory Redact
  imports Json_Path Context_Update Stored_Values
begin

text \<open>
  The redaction of \<open>post-cortex-core/src/redact.rs\<close>, applied to every write before it is checked. The
  regex engine is an argument: \<open>scan kind text\<close> cuts a text into what the built-in rule of that kind
  does not match and its matches, each with its capture groups; \<open>extras\<close> are the scanners of the
  configured patterns. Everything around the engine is the code's: the order of the rules, what replaces
  a match, which addresses are public, what is counted, and which fields of a request are rewritten.
\<close>

datatype replace_kind = Whole | Keep_Prefix | Public_Ipv4

datatype segment = Gap string | Hit string "string option list"

type_synonym scanner = "string \<Rightarrow> segment list"
type_synonym redaction_counts = "(string, nat) btree"

record redactor =
  rd_enabled :: bool
  rd_extra :: "scanner list"

definition builtin_rules :: "(string \<times> replace_kind) list" where
  "builtin_rules =
     [(''private_key'', Whole), (''jwt'', Whole), (''api_key'', Whole), (''telegram_token'', Whole),
      (''bearer'', Keep_Prefix), (''url_password'', Keep_Prefix), (''secret'', Keep_Prefix),
      (''email'', Whole), (''phone'', Whole), (''ip'', Public_Ipv4)]"

section \<open>Addresses\<close>

text \<open>\<open>Ipv4Addr::from_str\<close>: four numbers up to 255 without leading zeros.\<close>

definition parse_octet :: "string \<Rightarrow> nat option" where
  "parse_octet s =
     (case parse_digits s of
        None \<Rightarrow> None
      | Some n \<Rightarrow> if n \<le> 255 \<and> length s \<le> 3 \<and> (length s = 1 \<or> hd s \<noteq> CHR ''0'') then Some n else None)"

definition parse_ipv4 :: "string \<Rightarrow> nat list option" where
  "parse_ipv4 s =
     (let os = map parse_octet (split_by (\<lambda>c. c = CHR ''.'') s)
      in if length os = 4 \<and> list_all (\<lambda>x. x \<noteq> None) os then Some (map the os) else None)"

definition is_public :: "nat list \<Rightarrow> bool" where
  "is_public ip \<longleftrightarrow>
     (let a = ip ! 0; b = ip ! 1;
          tailnet = (a = 100 \<and> 64 \<le> b \<and> b < 128);
          private = (a = 10 \<or> (a = 172 \<and> 16 \<le> b \<and> b \<le> 31) \<or> (a = 192 \<and> b = 168))
      in \<not> (private \<or> a = 127 \<or> (a = 169 \<and> b = 254) \<or> ip = [0, 0, 0, 0] \<or> ip = [255, 255, 255, 255] \<or> tailnet))"

section \<open>Texts\<close>

definition marker :: "string \<Rightarrow> string" where
  "marker kind = ''[REDACTED:'' @ kind @ '']''"

definition group :: "string option list \<Rightarrow> nat \<Rightarrow> string" where
  "group gs i = (if i < length gs then unwrap_or (gs ! i) [] else [])"

text \<open>What replaces a match, and whether it counts. \<open>group gs 0\<close> is the first capture group.\<close>

fun replacement :: "string \<Rightarrow> replace_kind \<Rightarrow> string \<Rightarrow> string option list \<Rightarrow> string \<times> bool" where
  "replacement kind Whole w gs = (marker kind, True)"
| "replacement kind Keep_Prefix w gs = (group gs 0 @ marker kind @ group gs 1, True)"
| "replacement kind Public_Ipv4 w gs =
     (case parse_ipv4 w of
        Some ip \<Rightarrow> if is_public ip then (marker kind, True) else (w, False)
      | None \<Rightarrow> (w, False))"

fun rewrite_segment :: "string \<Rightarrow> replace_kind \<Rightarrow> segment \<Rightarrow> string \<times> bool" where
  "rewrite_segment kind how (Gap t) = (t, False)"
| "rewrite_segment kind how (Hit w gs) = replacement kind how w gs"

definition count_kind :: "string \<Rightarrow> nat \<Rightarrow> redaction_counts \<Rightarrow> redaction_counts" where
  "count_kind kind n counts = bt_insert kind (unwrap_or (map_of counts kind) 0 + n) counts"

definition apply_rule :: "(string \<Rightarrow> scanner) \<Rightarrow> string \<times> replace_kind \<Rightarrow> string \<times> redaction_counts \<Rightarrow> string \<times> redaction_counts" where
  "apply_rule scan rule st =
     (let (kind, how) = rule; (out, counts) = st;
          segs = map (rewrite_segment kind how) (scan kind out);
          n = length (filter snd segs)
      in if n > 0 then (concat (map fst segs), count_kind kind n counts) else (out, counts))"

definition apply_extra :: "scanner \<Rightarrow> string \<times> redaction_counts \<Rightarrow> string \<times> redaction_counts" where
  "apply_extra re st =
     (let (out, counts) = st; segs = re out;
          n = length (filter (\<lambda>s. case s of Hit w gs \<Rightarrow> True | Gap t \<Rightarrow> False) segs)
      in if n > 0
         then (concat (map (\<lambda>s. case s of Gap t \<Rightarrow> t | Hit w gs \<Rightarrow> marker ''custom'') segs), count_kind ''custom'' n counts)
         else (out, counts))"

definition redact_str :: "(string \<Rightarrow> scanner) \<Rightarrow> redactor \<Rightarrow> string \<Rightarrow> redaction_counts \<Rightarrow> string \<times> redaction_counts" where
  "redact_str scan rd text counts =
     (if \<not> rd_enabled rd \<or> text = [] then (text, counts)
      else fold apply_extra (rd_extra rd) (fold (apply_rule scan) builtin_rules (text, counts)))"

fun redact_vec ::
  "(string \<Rightarrow> scanner) \<Rightarrow> redactor \<Rightarrow> string list \<Rightarrow> redaction_counts \<Rightarrow> string list \<times> redaction_counts" where
  "redact_vec scan rd [] counts = ([], counts)"
| "redact_vec scan rd (s # ss) counts =
     (let (t, counts) = redact_str scan rd s counts; (ts, counts) = redact_vec scan rd ss counts in (t # ts, counts))"

section \<open>Requests\<close>

record update_request =
  ur_session_id :: uuid
  ur_interaction_type :: update_type
  ur_content :: update_content
  ur_entities :: "entity_data list"
  ur_relations :: "entity_relationship list"
  ur_code_reference :: "code_reference option"
  ur_author :: "string option"
  ur_derived_from :: "string list"
  ur_meta :: update_meta

definition redact_content ::
  "(string \<Rightarrow> scanner) \<Rightarrow> redactor \<Rightarrow> update_content \<Rightarrow> redaction_counts \<Rightarrow> update_content \<times> redaction_counts" where
  "redact_content scan rd c counts =
     (let (t, counts) = redact_str scan rd (uc_title c) counts;
          (d, counts) = redact_str scan rd (uc_description c) counts;
          (ds, counts) = redact_vec scan rd (uc_details c) counts;
          (es, counts) = redact_vec scan rd (uc_examples c) counts;
          (is, counts) = redact_vec scan rd (uc_implications c) counts
      in (c\<lparr>uc_title := t, uc_description := d, uc_details := ds, uc_examples := es, uc_implications := is\<rparr>, counts))"

definition redact_relation ::
  "(string \<Rightarrow> scanner) \<Rightarrow> redactor \<Rightarrow> entity_relationship \<Rightarrow> redaction_counts \<Rightarrow> entity_relationship \<times> redaction_counts" where
  "redact_relation scan rd r counts =
     (let (a, counts) = redact_str scan rd (er_from_entity r) counts;
          (b, counts) = redact_str scan rd (er_to_entity r) counts;
          (c, counts) = redact_str scan rd (er_context r) counts
      in (r\<lparr>er_from_entity := a, er_to_entity := b, er_context := c\<rparr>, counts))"

fun redact_entities ::
  "(string \<Rightarrow> scanner) \<Rightarrow> redactor \<Rightarrow> entity_data list \<Rightarrow> redaction_counts \<Rightarrow> entity_data list \<times> redaction_counts" where
  "redact_entities scan rd [] counts = ([], counts)"
| "redact_entities scan rd (e # es) counts =
     (let (n, counts) = redact_str scan rd (ed_name e) counts; (es, counts) = redact_entities scan rd es counts
      in (e\<lparr>ed_name := n\<rparr> # es, counts))"

fun redact_relations ::
  "(string \<Rightarrow> scanner) \<Rightarrow> redactor \<Rightarrow> entity_relationship list \<Rightarrow> redaction_counts \<Rightarrow>
   entity_relationship list \<times> redaction_counts" where
  "redact_relations scan rd [] counts = ([], counts)"
| "redact_relations scan rd (r # rs) counts =
     (let (r', counts) = redact_relation scan rd r counts; (rs, counts) = redact_relations scan rd rs counts
      in (r' # rs, counts))"

definition redact_code ::
  "(string \<Rightarrow> scanner) \<Rightarrow> redactor \<Rightarrow> code_reference option \<Rightarrow> redaction_counts \<Rightarrow>
   code_reference option \<times> redaction_counts" where
  "redact_code scan rd code counts =
     (case code of
        None \<Rightarrow> (None, counts)
      | Some c \<Rightarrow>
          (let (s, counts) = redact_str scan rd (cr_code_snippet c) counts;
               (d, counts) = redact_str scan rd (cr_change_description c) counts
           in (Some (c\<lparr>cr_code_snippet := s, cr_change_description := d\<rparr>), counts)))"

definition redact_request ::
  "(string \<Rightarrow> scanner) \<Rightarrow> redactor \<Rightarrow> update_request \<Rightarrow> update_request \<times> redaction_counts" where
  "redact_request scan rd req =
     (if \<not> rd_enabled rd then (req, [])
      else
        (let (c, counts) = redact_content scan rd (ur_content req) [];
             (es, counts) = redact_entities scan rd (ur_entities req) counts;
             (rs, counts) = redact_relations scan rd (ur_relations req) counts;
             (code, counts) = redact_code scan rd (ur_code_reference req) counts
         in (req\<lparr>ur_content := c, ur_entities := es, ur_relations := rs, ur_code_reference := code\<rparr>, counts)))"

definition redact_message ::
  "(string \<Rightarrow> scanner) \<Rightarrow> redactor \<Rightarrow> new_message \<Rightarrow> redaction_counts \<Rightarrow> new_message \<times> redaction_counts" where
  "redact_message scan rd m counts =
     (if \<not> rd_enabled rd then (m, counts)
      else
        (let (t, counts) = redact_str scan rd (nm_text m) counts;
             (fs, counts) = redact_vec scan rd (nm_files m) counts
         in (m\<lparr>nm_text := t, nm_files := fs\<rparr>, counts)))"

text \<open>Records of an import: every string of a document, keys apart.\<close>

fun redact_json ::
  "(string \<Rightarrow> scanner) \<Rightarrow> redactor \<Rightarrow> 'n json \<Rightarrow> redaction_counts \<Rightarrow> 'n json \<times> redaction_counts"
and redact_items ::
  "(string \<Rightarrow> scanner) \<Rightarrow> redactor \<Rightarrow> 'n json list \<Rightarrow> redaction_counts \<Rightarrow> 'n json list \<times> redaction_counts"
and redact_values ::
  "(string \<Rightarrow> scanner) \<Rightarrow> redactor \<Rightarrow> (string \<times> 'n json) list \<Rightarrow> redaction_counts \<Rightarrow>
   (string \<times> 'n json) list \<times> redaction_counts" where
  "redact_json scan rd (JString s) counts = (let (t, counts) = redact_str scan rd s counts in (JString t, counts))"
| "redact_json scan rd (JArray vs) counts = (let (ws, counts) = redact_items scan rd vs counts in (JArray ws, counts))"
| "redact_json scan rd (JObject m) counts = (let (m', counts) = redact_values scan rd m counts in (JObject m', counts))"
| "redact_json scan rd v counts = (v, counts)"
| "redact_items scan rd [] counts = ([], counts)"
| "redact_items scan rd (v # vs) counts =
     (let (w, counts) = redact_json scan rd v counts; (ws, counts) = redact_items scan rd vs counts in (w # ws, counts))"
| "redact_values scan rd [] counts = ([], counts)"
| "redact_values scan rd ((k, v) # m) counts =
     (let (w, counts) = redact_json scan rd v counts; (m', counts) = redact_values scan rd m counts in ((k, w) # m', counts))"

section \<open>What is rewritten\<close>

text \<open>The text a redaction leaves does not depend on what was counted before.\<close>

definition clean :: "(string \<Rightarrow> scanner) \<Rightarrow> redactor \<Rightarrow> string \<Rightarrow> string" where
  "clean scan rd s = fst (redact_str scan rd s [])"

lemma fold_fst:
  assumes "\<And>f t c d. f \<in> set fs \<Longrightarrow> fst (g f (t, c)) = fst (g f (t, d))"
  shows "fst (fold g fs (t, c)) = fst (fold g fs (t, d))"
  using assms
proof (induction fs arbitrary: t c d)
  case (Cons f fs)
  obtain t1 c1 where 1: "g f (t, c) = (t1, c1)" by (cases "g f (t, c)")
  obtain t2 d2 where 2: "g f (t, d) = (t2, d2)" by (cases "g f (t, d)")
  have "t1 = t2" using Cons.prems [of f t c d] 1 2 by simp
  then show ?case using Cons.IH [of t1 c1 d2] Cons.prems by (simp add: 1 2)
qed simp

lemma redact_str_clean [simp]: "fst (redact_str scan rd s c) = clean scan rd s"
proof -
  let ?f = "fold (apply_rule scan) builtin_rules" and ?g = "fold apply_extra (rd_extra rd)"
  have 1: "fst (?f (s, c)) = fst (?f (s, []))"
    by (rule fold_fst) (auto simp: apply_rule_def Let_def split: prod.split)
  have "fst (?g (t, c1)) = fst (?g (t, c2))" for t c1 c2
    by (rule fold_fst) (auto simp: apply_extra_def Let_def split: prod.split)
  then have "fst (?g (?f (s, c))) = fst (?g (?f (s, [])))" using 1 by (metis prod.collapse)
  then show ?thesis by (simp add: clean_def redact_str_def)
qed

lemma redact_str_pair: "redact_str scan rd s c = (clean scan rd s, snd (redact_str scan rd s c))"
  by (simp add: prod_eq_iff)

lemma clean_disabled [simp]: "\<not> rd_enabled rd \<Longrightarrow> clean scan rd s = s"
  by (simp add: clean_def redact_str_def)

lemma redact_vec_clean [simp]: "fst (redact_vec scan rd ss c) = map (clean scan rd) ss"
  by (induction ss arbitrary: c) (simp_all add: Let_def split_beta)

lemma redact_entities_clean [simp]:
  "fst (redact_entities scan rd es c) = map (\<lambda>e. e\<lparr>ed_name := clean scan rd (ed_name e)\<rparr>) es"
  by (induction es arbitrary: c) (simp_all add: Let_def split_beta)

definition clean_relation :: "(string \<Rightarrow> scanner) \<Rightarrow> redactor \<Rightarrow> entity_relationship \<Rightarrow> entity_relationship" where
  "clean_relation scan rd r =
     r\<lparr>er_from_entity := clean scan rd (er_from_entity r), er_to_entity := clean scan rd (er_to_entity r),
       er_context := clean scan rd (er_context r)\<rparr>"

lemma redact_relation_clean [simp]: "fst (redact_relation scan rd r c) = clean_relation scan rd r"
  by (simp add: redact_relation_def clean_relation_def Let_def split_beta)

lemma redact_relations_clean [simp]: "fst (redact_relations scan rd rs c) = map (clean_relation scan rd) rs"
  by (induction rs arbitrary: c) (simp_all add: Let_def split_beta)

definition clean_request :: "(string \<Rightarrow> scanner) \<Rightarrow> redactor \<Rightarrow> update_request \<Rightarrow> update_request" where
  "clean_request scan rd req =
     (let k = clean scan rd; c = ur_content req in
      req\<lparr>ur_content := c\<lparr>uc_title := k (uc_title c), uc_description := k (uc_description c), uc_details := map k (uc_details c),
              uc_examples := map k (uc_examples c), uc_implications := map k (uc_implications c)\<rparr>,
          ur_entities := map (\<lambda>e. e\<lparr>ed_name := k (ed_name e)\<rparr>) (ur_entities req),
          ur_relations := map (clean_relation scan rd) (ur_relations req),
          ur_code_reference := map_option (\<lambda>r. r\<lparr>cr_code_snippet := k (cr_code_snippet r),
            cr_change_description := k (cr_change_description r)\<rparr>) (ur_code_reference req)\<rparr>)"

lemma redact_request_clean: "fst (redact_request scan rd req) = clean_request scan rd req"
proof (cases "rd_enabled rd")
  case True
  then show ?thesis
    by (cases "ur_code_reference req")
      (simp_all add: redact_request_def clean_request_def redact_content_def redact_code_def Let_def split_beta)
next
  case False
  then have "clean scan rd = (\<lambda>s. s)" "clean_relation scan rd = (\<lambda>r. r)"
    by (auto simp: clean_relation_def)
  then show ?thesis using False by (simp add: redact_request_def clean_request_def Let_def option.map_ident)
qed

lemma clean_request_names:
  "ed_name ` set (ur_entities (clean_request scan rd req)) = clean scan rd ` ed_name ` set (ur_entities req)"
  by (auto simp: clean_request_def Let_def image_iff)

lemma kept_address:
  "parse_ipv4 w = Some ip \<Longrightarrow> \<not> is_public ip \<Longrightarrow> rewrite_segment kind Public_Ipv4 (Hit w gs) = (w, False)"
  by simp

end
