(* ===== verification/Cas_Cell.thy ===== *)
theory Cas_Cell
  imports Pcx_Prelude
begin

text \<open>
  A session in memory is an \<open>ArcSwap\<close>: readers load the current version, writers copy it, change the
  copy and compare-and-swap it in, and try again when another writer was faster
  (\<open>cas_update_session\<close>, \<open>add_incremental_update_internal\<close> and \<open>apply_entity_graph_update_now\<close> of
  \<open>post-cortex-memory/src/memory_system/system.rs\<close>). This theory holds that loop for any versions and
  operations: \<open>run p e v\<close> is what operation \<open>p\<close> makes of version \<open>v\<close>, with \<open>e\<close> the clock and the
  fresh ids of the attempt.

  A version is named by its position in the list of the versions swapped in. The writer holds the
  version it loaded, so no later one can have its address, and comparing addresses is comparing
  positions. The tasks interleave between load and swap; waiting is not a step. \<open>cl_log\<close> and
  \<open>cl_since\<close> only record the run: the swaps that succeeded, and how many had when a call began.
\<close>

datatype ('v, 'r) attempt = No_Change | Rejects string | Replaces 'v 'r

datatype 'r write_outcome = Wrote 'r | Unchanged | Rejected string | Contended

datatype ('e, 'v, 'r) write_phase =
    Ready nat
  | Holding nat nat 'e 'v 'r
  | Ended "'r write_outcome"

record ('p, 'e, 'v, 'r) cell =
  cl_versions :: "'v list"
  cl_current :: nat
  cl_ops :: "'p list"
  cl_tasks :: "('e, 'v, 'r) write_phase list"
  cl_log :: "(nat \<times> 'e) list"
  cl_since :: "nat list"

definition max_cas_attempts :: nat where
  "max_cas_attempts = 20"

definition new_cell :: "'v \<Rightarrow> ('p, 'e, 'v, 'r) cell" where
  "new_cell v = \<lparr>cl_versions = [v], cl_current = 0, cl_ops = [], cl_tasks = [], cl_log = [], cl_since = []\<rparr>"

definition cell_value :: "('p, 'e, 'v, 'r) cell \<Rightarrow> 'v" where
  "cell_value c = cl_versions c ! cl_current c"

definition cas_call :: "'p \<Rightarrow> ('p, 'e, 'v, 'r) cell \<Rightarrow> ('p, 'e, 'v, 'r) cell" where
  "cas_call p c = c\<lparr>cl_ops := cl_ops c @ [p], cl_tasks := cl_tasks c @ [Ready 0], cl_since := cl_since c @ [length (cl_log c)]\<rparr>"

definition cas_become ::
  "nat \<Rightarrow> ('e, 'v, 'r) write_phase \<Rightarrow> ('p, 'e, 'v, 'r) cell \<Rightarrow> ('p, 'e, 'v, 'r) cell" where
  "cas_become t ph c = c\<lparr>cl_tasks := (cl_tasks c)[t := ph]\<rparr>"

text \<open>One attempt up to the swap: load, copy, mutate.\<close>

definition cas_load ::
  "('p \<Rightarrow> 'e \<Rightarrow> 'v \<Rightarrow> ('v, 'r) attempt) \<Rightarrow> nat \<Rightarrow> 'e \<Rightarrow> nat \<Rightarrow> ('p, 'e, 'v, 'r) cell \<Rightarrow> ('p, 'e, 'v, 'r) cell" where
  "cas_load run t e attempts c =
     (if attempts \<ge> max_cas_attempts then cas_become t (Ended Contended) c
      else case run (cl_ops c ! t) e (cell_value c) of
          No_Change \<Rightarrow> cas_become t (Ended Unchanged) c
        | Rejects m \<Rightarrow> cas_become t (Ended (Rejected m)) c
        | Replaces v r \<Rightarrow> cas_become t (Holding (attempts + 1) (cl_current c) e v r) c)"

text \<open>\<open>compare_and_swap\<close> and the comparison of the pointers.\<close>

definition cas_swap ::
  "nat \<Rightarrow> nat \<Rightarrow> nat \<Rightarrow> 'e \<Rightarrow> 'v \<Rightarrow> 'r \<Rightarrow> ('p, 'e, 'v, 'r) cell \<Rightarrow> ('p, 'e, 'v, 'r) cell" where
  "cas_swap t attempts loaded e v r c =
     (if cl_current c = loaded
      then cas_become t (Ended (Wrote r))
        (c\<lparr>cl_versions := cl_versions c @ [v], cl_current := length (cl_versions c), cl_log := cl_log c @ [(t, e)]\<rparr>)
      else cas_become t (Ready attempts) c)"

definition cas_move ::
  "('p \<Rightarrow> 'e \<Rightarrow> 'v \<Rightarrow> ('v, 'r) attempt) \<Rightarrow> nat \<Rightarrow> 'e \<Rightarrow> ('p, 'e, 'v, 'r) cell \<Rightarrow> ('p, 'e, 'v, 'r) cell" where
  "cas_move run t e c =
     (if t \<ge> length (cl_tasks c) then c
      else case cl_tasks c ! t of
          Ready n \<Rightarrow> cas_load run t e n c
        | Holding n p e' v r \<Rightarrow> cas_swap t n p e' v r c
        | Ended _ \<Rightarrow> c)"

datatype ('p, 'e) cas_event = Called 'p | Moved nat 'e

fun cas_do :: "('p \<Rightarrow> 'e \<Rightarrow> 'v \<Rightarrow> ('v, 'r) attempt) \<Rightarrow> ('p, 'e) cas_event \<Rightarrow> ('p, 'e, 'v, 'r) cell \<Rightarrow> ('p, 'e, 'v, 'r) cell" where
  "cas_do run (Called p) c = cas_call p c"
| "cas_do run (Moved t e) c = cas_move run t e c"

definition cas_run ::
  "('p \<Rightarrow> 'e \<Rightarrow> 'v \<Rightarrow> ('v, 'r) attempt) \<Rightarrow> ('p, 'e) cas_event list \<Rightarrow> ('p, 'e, 'v, 'r) cell \<Rightarrow> ('p, 'e, 'v, 'r) cell" where
  "cas_run run evs c = fold (cas_do run) evs c"

text \<open>\<open>legal p e v\<close> restricts the inputs of an attempt, for instance to fresh ids.\<close>

fun legal_event :: "('p \<Rightarrow> 'e \<Rightarrow> 'v \<Rightarrow> bool) \<Rightarrow> ('p, 'e) cas_event \<Rightarrow> ('p, 'e, 'v, 'r) cell \<Rightarrow> bool" where
  "legal_event legal (Called p) c = True"
| "legal_event legal (Moved t e) c =
     (t < length (cl_tasks c) \<and>
      (case cl_tasks c ! t of Ready n \<Rightarrow> legal (cl_ops c ! t) e (cell_value c) | _ \<Rightarrow> True))"

fun legal_run ::
  "('p \<Rightarrow> 'e \<Rightarrow> 'v \<Rightarrow> ('v, 'r) attempt) \<Rightarrow> ('p \<Rightarrow> 'e \<Rightarrow> 'v \<Rightarrow> bool) \<Rightarrow> ('p, 'e) cas_event list \<Rightarrow> ('p, 'e, 'v, 'r) cell \<Rightarrow> bool" where
  "legal_run run legal [] c = True"
| "legal_run run legal (ev # evs) c = (legal_event legal ev c \<and> legal_run run legal evs (cas_do run ev c))"

inductive cas_reach ::
  "('p \<Rightarrow> 'e \<Rightarrow> 'v \<Rightarrow> ('v, 'r) attempt) \<Rightarrow> ('p \<Rightarrow> 'e \<Rightarrow> 'v \<Rightarrow> bool) \<Rightarrow> 'v \<Rightarrow> ('p, 'e, 'v, 'r) cell \<Rightarrow> bool"
  for run legal v0 where
  start: "cas_reach run legal v0 (new_cell v0)"
| event: "cas_reach run legal v0 c \<Longrightarrow> legal_event legal ev c \<Longrightarrow> cas_reach run legal v0 (cas_do run ev c)"

lemma run_reach:
  "cas_reach run legal v0 c \<Longrightarrow> legal_run run legal evs c \<Longrightarrow> cas_reach run legal v0 (cas_run run evs c)"
  by (induction evs arbitrary: c) (auto simp: cas_run_def intro: cas_reach.event)

section \<open>The invariant\<close>

text \<open>\<open>replays\<close>: each logged swap made the next version out of the one before it.\<close>

definition swap_at ::
  "('p \<Rightarrow> 'e \<Rightarrow> 'v \<Rightarrow> ('v, 'r) attempt) \<Rightarrow> ('p, 'e, 'v, 'r) cell \<Rightarrow> nat \<Rightarrow> nat \<Rightarrow> 'r \<Rightarrow> bool" where
  "swap_at run c k t r \<longleftrightarrow>
     (\<exists>e. cl_log c ! k = (t, e) \<and> run (cl_ops c ! t) e (cl_versions c ! k) = Replaces (cl_versions c ! Suc k) r)"

definition log_ok :: "('p \<Rightarrow> 'e \<Rightarrow> 'v \<Rightarrow> ('v, 'r) attempt) \<Rightarrow> ('p, 'e, 'v, 'r) cell \<Rightarrow> bool" where
  "log_ok run c \<longleftrightarrow>
     length (cl_versions c) = Suc (length (cl_log c)) \<and> cl_current c = length (cl_log c) \<and>
     length (cl_ops c) = length (cl_tasks c) \<and> length (cl_since c) = length (cl_tasks c) \<and>
     distinct (map fst (cl_log c)) \<and>
     (\<forall>k < length (cl_log c). \<exists>t r. t < length (cl_tasks c) \<and> swap_at run c k t r \<and>
        cl_tasks c ! t = Ended (Wrote r) \<and> cl_since c ! t \<le> k)"

text \<open>What a phase says of the run since the call began, at \<open>since\<close> swaps.\<close>

fun phase_ok ::
  "('p \<Rightarrow> 'e \<Rightarrow> 'v \<Rightarrow> ('v, 'r) attempt) \<Rightarrow> ('p, 'e, 'v, 'r) cell \<Rightarrow> nat \<Rightarrow> nat \<Rightarrow> ('e, 'v, 'r) write_phase \<Rightarrow> bool" where
  "phase_ok run c t since (Ready n) \<longleftrightarrow> n \<le> max_cas_attempts \<and> since + n \<le> length (cl_log c)"
| "phase_ok run c t since (Holding n p e v r) \<longleftrightarrow> 0 < n \<and> n \<le> max_cas_attempts \<and> since + (n - 1) \<le> p \<and>
     p \<le> length (cl_log c) \<and> run (cl_ops c ! t) e (cl_versions c ! p) = Replaces v r"
| "phase_ok run c t since (Ended (Wrote r)) \<longleftrightarrow> t \<in> fst ` set (cl_log c)"
| "phase_ok run c t since (Ended Unchanged) \<longleftrightarrow>
     (\<exists>k e. since \<le> k \<and> k \<le> length (cl_log c) \<and> run (cl_ops c ! t) e (cl_versions c ! k) = No_Change)"
| "phase_ok run c t since (Ended (Rejected m)) \<longleftrightarrow>
     (\<exists>k e. since \<le> k \<and> k \<le> length (cl_log c) \<and> run (cl_ops c ! t) e (cl_versions c ! k) = Rejects m)"
| "phase_ok run c t since (Ended Contended) \<longleftrightarrow> since + max_cas_attempts \<le> length (cl_log c)"

definition cell_ok :: "('p \<Rightarrow> 'e \<Rightarrow> 'v \<Rightarrow> ('v, 'r) attempt) \<Rightarrow> 'v \<Rightarrow> ('p, 'e, 'v, 'r) cell \<Rightarrow> bool" where
  "cell_ok run v0 c \<longleftrightarrow> log_ok run c \<and> cl_versions c ! 0 = v0 \<and>
     (\<forall>t < length (cl_tasks c). phase_ok run c t (cl_since c ! t) (cl_tasks c ! t))"

lemma log_okD:
  assumes "log_ok run c"
  shows "length (cl_versions c) = Suc (length (cl_log c))" "cl_current c = length (cl_log c)"
    "length (cl_ops c) = length (cl_tasks c)" "length (cl_since c) = length (cl_tasks c)"
    "distinct (map fst (cl_log c))"
    "k < length (cl_log c) \<Longrightarrow> \<exists>t r. t < length (cl_tasks c) \<and> swap_at run c k t r \<and>
        cl_tasks c ! t = Ended (Wrote r) \<and> cl_since c ! t \<le> k"
  using assms by (simp_all add: log_ok_def)

lemma cell_okD:
  assumes "cell_ok run v0 c"
  shows "log_ok run c" "cl_versions c ! 0 = v0"
    "t < length (cl_tasks c) \<Longrightarrow> phase_ok run c t (cl_since c ! t) (cl_tasks c ! t)"
  using assms by (simp_all add: cell_ok_def)

text \<open>A task that is not in the log has not written, so another phase for it breaks no swap.\<close>

lemma log_ok_writer: "log_ok run c \<Longrightarrow> (t, e) \<in> set (cl_log c) \<Longrightarrow> \<exists>r. cl_tasks c ! t = Ended (Wrote r) \<and> t < length (cl_tasks c)"
  using log_okD(6) [of run c] by (fastforce simp: in_set_conv_nth swap_at_def)

lemma log_ok_become:
  assumes "log_ok run c" and "\<forall>r. cl_tasks c ! t \<noteq> Ended (Wrote r)"
  shows "log_ok run (cas_become t ph c)"
  unfolding log_ok_def
proof (intro conjI allI impI)
  fix k assume "k < length (cl_log (cas_become t ph c))"
  then obtain u r where u: "u < length (cl_tasks c)" "swap_at run c k u r" "cl_tasks c ! u = Ended (Wrote r)" "cl_since c ! u \<le> k"
    using log_okD(6) [OF assms(1), of k] by (auto simp: cas_become_def)
  moreover have "u \<noteq> t" using u(3) assms(2) by auto
  ultimately show "\<exists>u r. u < length (cl_tasks (cas_become t ph c)) \<and> swap_at run (cas_become t ph c) k u r \<and>
      cl_tasks (cas_become t ph c) ! u = Ended (Wrote r) \<and> cl_since (cas_become t ph c) ! u \<le> k"
    by (intro exI [of _ u] exI [of _ r]) (auto simp: cas_become_def swap_at_def)
qed (use log_okD(1-5) [OF assms(1)] in \<open>simp_all add: cas_become_def\<close>)

text \<open>What is said of a phase stays true when versions, swaps and calls are added.\<close>

lemma phase_ok_mono:
  assumes "phase_ok run c t since ph" and "\<exists>l. cl_log c' = cl_log c @ l"
    and "\<forall>k \<le> length (cl_log c). cl_versions c' ! k = cl_versions c ! k" and "cl_ops c' ! t = cl_ops c ! t"
  shows "phase_ok run c' t since ph"
proof -
  obtain l where l: "cl_log c' = cl_log c @ l" using assms(2) by blast
  show ?thesis
  proof (cases ph)
    case (Ended r)
    show ?thesis
    proof (cases r)
      case Unchanged
      then obtain k e where k: "since \<le> k" "k \<le> length (cl_log c)" "run (cl_ops c ! t) e (cl_versions c ! k) = No_Change"
        using assms(1) Ended by auto
      then show ?thesis using Unchanged Ended l assms(3,4) by (auto intro!: exI [of _ k] exI [of _ e])
    next
      case (Rejected m)
      then obtain k e where k: "since \<le> k" "k \<le> length (cl_log c)" "run (cl_ops c ! t) e (cl_versions c ! k) = Rejects m"
        using assms(1) Ended by auto
      then show ?thesis using Rejected Ended l assms(3,4) by (auto intro!: exI [of _ k] exI [of _ e])
    qed (use assms Ended l in auto)
  qed (use assms l in auto)
qed

lemma cell_ok_become:
  assumes "cell_ok run v0 c" and "\<forall>r. cl_tasks c ! t \<noteq> Ended (Wrote r)"
    and "phase_ok run c t (cl_since c ! t) ph"
  shows "cell_ok run v0 (cas_become t ph c)"
proof -
  have "phase_ok run (cas_become t ph c) u (cl_since c ! u) (cl_tasks (cas_become t ph c) ! u)"
    if "u < length (cl_tasks c)" for u
    using phase_ok_mono [of run c u "cl_since c ! u" "cl_tasks (cas_become t ph c) ! u" "cas_become t ph c"]
      cell_okD(3) [OF assms(1) that] assms(3) that
    by (cases "u = t") (simp_all add: cas_become_def)
  then show ?thesis
    using log_ok_become [OF cell_okD(1) [OF assms(1)] assms(2), of ph] cell_okD(2) [OF assms(1)]
    by (simp add: cell_ok_def) (simp add: cas_become_def)
qed

lemma cell_ok_new: "cell_ok run v0 (new_cell v0)"
  by (simp add: cell_ok_def log_ok_def new_cell_def)

lemma cell_ok_call:
  assumes "cell_ok run v0 c"
  shows "cell_ok run v0 (cas_call p c)"
proof -
  note L = cell_okD(1) [OF assms]
  have "\<exists>u r. u < Suc (length (cl_tasks c)) \<and> swap_at run (cas_call p c) k u r \<and>
      cl_tasks (cas_call p c) ! u = Ended (Wrote r) \<and> cl_since (cas_call p c) ! u \<le> k" if k: "k < length (cl_log c)" for k
  proof -
    obtain u r where u: "u < length (cl_tasks c)" "swap_at run c k u r" "cl_tasks c ! u = Ended (Wrote r)" "cl_since c ! u \<le> k"
      using log_okD(6) [OF L k] by blast
    then show ?thesis
      using log_okD(3,4) [OF L]
      by (intro exI [of _ u] exI [of _ r]) (auto simp: cas_call_def swap_at_def nth_append)
  qed
  then have "log_ok run (cas_call p c)"
    using log_okD(1-5) [OF L] by (simp add: log_ok_def) (simp add: cas_call_def)
  moreover have "phase_ok run (cas_call p c) u (cl_since (cas_call p c) ! u) (cl_tasks (cas_call p c) ! u)"
    if "u < Suc (length (cl_tasks c))" for u
  proof (cases "u < length (cl_tasks c)")
    case True
    then show ?thesis
      using phase_ok_mono [OF cell_okD(3) [OF assms True], of "cas_call p c"] log_okD(3,4) [OF L]
      by (simp add: cas_call_def nth_append)
  next
    case False
    then have "u = length (cl_tasks c)" using that by simp
    then show ?thesis using log_okD(4) [OF L] by (simp add: cas_call_def nth_append)
  qed
  ultimately show ?thesis
    using cell_okD(2) [OF assms] by (simp add: cell_ok_def) (simp add: cas_call_def)
qed

lemma cell_ok_load:
  assumes "cell_ok run v0 c" and "t < length (cl_tasks c)" and "cl_tasks c ! t = Ready n"
  shows "cell_ok run v0 (cas_load run t e n c)"
proof -
  note L = log_okD [OF cell_okD(1) [OF assms(1)]] and R = cell_okD(3) [OF assms(1,2), unfolded assms(3)]
  have v: "cell_value c = cl_versions c ! length (cl_log c)" by (simp add: cell_value_def L(2))
  have since: "cl_since c ! t \<le> length (cl_log c)" using R by simp
  note B = cell_ok_become [OF assms(1), of t]
  show ?thesis
  proof (cases "n \<ge> max_cas_attempts")
    case True
    then show ?thesis using R assms(3) by (auto simp: cas_load_def intro!: B)
  next
    case False
    show ?thesis
    proof (cases "run (cl_ops c ! t) e (cell_value c)")
      case No_Change
      then have "phase_ok run c t (cl_since c ! t) (Ended Unchanged)" using since v by auto
      then show ?thesis using False assms(3) No_Change B by (simp add: cas_load_def)
    next
      case (Rejects m)
      then have "phase_ok run c t (cl_since c ! t) (Ended (Rejected m))" using since v by auto
      then show ?thesis using False assms(3) Rejects B by (simp add: cas_load_def)
    next
      case (Replaces w r)
      then show ?thesis using False assms(3) R v L(2) by (auto simp: cas_load_def intro!: B)
    qed
  qed
qed

lemma cell_ok_swap:
  assumes ok: "cell_ok run v0 c" and t: "t < length (cl_tasks c)" and h: "cl_tasks c ! t = Holding n p e v r"
  shows "cell_ok run v0 (cas_swap t n p e v r c)"
proof (cases "cl_current c = p")
  case False
  note L = log_okD [OF cell_okD(1) [OF ok]] and H = cell_okD(3) [OF ok t, unfolded h]
  have "phase_ok run c t (cl_since c ! t) (Ready n)" using False H L(2) by auto
  then show ?thesis using cell_ok_become [OF ok, of t "Ready n"] h False by (simp add: cas_swap_def)
next
  case True
  note L = log_okD [OF cell_okD(1) [OF ok]] and H = cell_okD(3) [OF ok t, unfolded h]
  let ?c = "cas_swap t n p e v r c"
  have p: "p = length (cl_log c)" using True L(2) by simp
  have c: "cl_versions ?c = cl_versions c @ [v]" "cl_current ?c = length (cl_versions c)" "cl_log ?c = cl_log c @ [(t, e)]"
    "cl_ops ?c = cl_ops c" "cl_since ?c = cl_since c" "cl_tasks ?c = (cl_tasks c)[t := Ended (Wrote r)]"
    using True by (simp_all add: cas_swap_def cas_become_def)
  have new: "t \<notin> fst ` set (cl_log c)" using log_ok_writer [OF cell_okD(1) [OF ok]] h by fastforce
  have each: "\<exists>u s. u < length (cl_tasks c) \<and> swap_at run ?c k u s \<and> cl_tasks ?c ! u = Ended (Wrote s) \<and> cl_since c ! u \<le> k"
    if "k < Suc (length (cl_log c))" for k
  proof (cases "k < length (cl_log c)")
    case True
    then obtain u s where u: "u < length (cl_tasks c)" "swap_at run c k u s" "cl_tasks c ! u = Ended (Wrote s)" "cl_since c ! u \<le> k"
      using L(6) by blast
    moreover have "swap_at run ?c k u s" using u(2) True L(1) by (auto simp: swap_at_def c nth_append)
    moreover have "u \<noteq> t" using u(3) h by auto
    ultimately show ?thesis by (intro exI [of _ u] exI [of _ s]) (simp add: c)
  next
    case False
    then have k: "k = length (cl_log c)" using that by simp
    have "swap_at run ?c k t r" unfolding swap_at_def c k using H p L(1) by (auto simp: nth_append)
    moreover have "cl_since c ! t \<le> k" using H p k by simp
    ultimately show ?thesis using t unfolding c(5,6) by (intro exI [of _ t] exI [of _ r]) simp
  qed
  have "log_ok run ?c"
    using L(1-5) new each unfolding log_ok_def c by simp
  moreover have "phase_ok run ?c u (cl_since c ! u) (cl_tasks ?c ! u)" if u: "u < length (cl_tasks c)" for u
  proof (cases "u = t")
    case True
    then show ?thesis using t by (simp add: c)
  next
    case False
    then show ?thesis
      using phase_ok_mono [OF cell_okD(3) [OF ok u], of ?c] L(1) by (simp add: c nth_append)
  qed
  ultimately show ?thesis
    using cell_okD(2) [OF ok] L(1) by (simp add: cell_ok_def c nth_append)
qed

lemma cell_ok_move: "cell_ok run v0 c \<Longrightarrow> cell_ok run v0 (cas_move run t e c)"
  unfolding cas_move_def
  by (auto simp: cell_ok_load cell_ok_swap split: write_phase.split)

lemma cell_ok_do: "cell_ok run v0 c \<Longrightarrow> cell_ok run v0 (cas_do run ev c)"
  by (cases ev) (simp_all add: cell_ok_call cell_ok_move)

lemma cas_reach_ok: "cas_reach run legal v0 c \<Longrightarrow> cell_ok run v0 c"
  by (induction rule: cas_reach.induct) (simp_all add: cell_ok_new cell_ok_do)

section \<open>What a run shows\<close>

text \<open>The log is a sequential run of the operations that wrote, and explains every answer.\<close>

lemma written_iff:
  assumes "cell_ok run v0 c"
  shows "(t, r) \<in> {(t, r). t < length (cl_tasks c) \<and> cl_tasks c ! t = Ended (Wrote r)} \<longleftrightarrow>
    (\<exists>k < length (cl_log c). swap_at run c k t r \<and> cl_since c ! t \<le> k)"
proof
  note L = cell_okD(1) [OF assms]
  assume "(t, r) \<in> {(t, r). t < length (cl_tasks c) \<and> cl_tasks c ! t = Ended (Wrote r)}"
  then have t: "t < length (cl_tasks c)" "cl_tasks c ! t = Ended (Wrote r)" by simp_all
  then obtain k where k: "k < length (cl_log c)" "fst (cl_log c ! k) = t"
    using cell_okD(3) [OF assms t(1)] by (auto simp: in_set_conv_nth)
  obtain u s where u: "swap_at run c k u s" "cl_tasks c ! u = Ended (Wrote s)" "cl_since c ! u \<le> k"
    using log_okD(6) [OF L k(1)] by blast
  then have "u = t" using k(2) by (auto simp: swap_at_def)
  then show "\<exists>k < length (cl_log c). swap_at run c k t r \<and> cl_since c ! t \<le> k"
    using u t(2) k(1) by auto
next
  assume "\<exists>k < length (cl_log c). swap_at run c k t r \<and> cl_since c ! t \<le> k"
  then obtain k where k: "k < length (cl_log c)" "swap_at run c k t r" by blast
  obtain u s where u: "u < length (cl_tasks c)" "swap_at run c k u s" "cl_tasks c ! u = Ended (Wrote s)"
    using log_okD(6) [OF cell_okD(1) [OF assms] k(1)] by blast
  then have "u = t \<and> s = r" using k(2) by (auto simp: swap_at_def)
  then show "(t, r) \<in> {(t, r). t < length (cl_tasks c) \<and> cl_tasks c ! t = Ended (Wrote r)}" using u by simp
qed

lemma swap_unique:
  assumes "log_ok run c" and "k < length (cl_log c)" and "l < length (cl_log c)"
    and "swap_at run c k t r" and "swap_at run c l t s"
  shows "k = l"
proof -
  have "map fst (cl_log c) ! k = map fst (cl_log c) ! l"
    using assms(2-5) by (auto simp: swap_at_def)
  then show ?thesis using nth_eq_iff_index_eq [OF log_okD(5) [OF assms(1)], of k l] assms(2,3) by simp
qed

text \<open>Versions made by induction over the log.\<close>

lemma versions_induct:
  assumes "cell_ok run v0 c" and "k \<le> length (cl_log c)" and "Q 0 v0"
    and "\<And>i t r e. i < length (cl_log c) \<Longrightarrow> t < length (cl_tasks c) \<Longrightarrow> cl_log c ! i = (t, e) \<Longrightarrow>
      cl_tasks c ! t = Ended (Wrote r) \<Longrightarrow>
      run (cl_ops c ! t) e (cl_versions c ! i) = Replaces (cl_versions c ! Suc i) r \<Longrightarrow>
      Q i (cl_versions c ! i) \<Longrightarrow> Q (Suc i) (cl_versions c ! Suc i)"
  shows "Q k (cl_versions c ! k)"
  using assms(2)
proof (induction k)
  case 0
  then show ?case using cell_okD(2) [OF assms(1)] assms(3) by simp
next
  case (Suc i)
  then obtain t r where t: "t < length (cl_tasks c)" "swap_at run c i t r" "cl_tasks c ! t = Ended (Wrote r)"
    using log_okD(6) [OF cell_okD(1) [OF assms(1)], of i] by auto
  then show ?case using assms(4) Suc by (auto simp: swap_at_def)
qed

text \<open>The inputs of the logged attempts were legal.\<close>

definition log_legal :: "('p \<Rightarrow> 'e \<Rightarrow> 'v \<Rightarrow> bool) \<Rightarrow> ('p, 'e, 'v, 'r) cell \<Rightarrow> bool" where
  "log_legal legal c \<longleftrightarrow>
     (\<forall>k t e. k < length (cl_log c) \<longrightarrow> cl_log c ! k = (t, e) \<longrightarrow> legal (cl_ops c ! t) e (cl_versions c ! k)) \<and>
     (\<forall>t n p e v r. t < length (cl_tasks c) \<longrightarrow> cl_tasks c ! t = Holding n p e v r \<longrightarrow> legal (cl_ops c ! t) e (cl_versions c ! p))"

lemma log_legal_become:
  assumes "log_legal legal c"
    and "\<forall>n p e v r. ph = Holding n p e v r \<longrightarrow> legal (cl_ops c ! t) e (cl_versions c ! p)"
  shows "log_legal legal (cas_become t ph c)"
  unfolding log_legal_def
proof (intro conjI allI impI)
  fix u n p e v r
  assume "u < length (cl_tasks (cas_become t ph c))" and "cl_tasks (cas_become t ph c) ! u = Holding n p e v r"
  then show "legal (cl_ops (cas_become t ph c) ! u) e (cl_versions (cas_become t ph c) ! p)"
    using assms unfolding log_legal_def cas_become_def by (cases "u = t") auto
qed (use assms(1) in \<open>simp add: log_legal_def cas_become_def\<close>)

lemma log_legal_do:
  assumes ok: "cell_ok run v0 c" and ll: "log_legal legal c" and ev: "legal_event legal ev c"
  shows "log_legal legal (cas_do run ev c)"
proof (cases ev)
  case (Called p)
  note L = log_okD [OF cell_okD(1) [OF ok]]
  have "fst (cl_log c ! k) < length (cl_tasks c)" if k: "k < length (cl_log c)" for k
    using L(6) [OF k] by (auto simp: swap_at_def)
  then show ?thesis
    using ll L(3) unfolding Called log_legal_def
    by (fastforce simp: cas_call_def nth_append less_Suc_eq)
next
  case (Moved t e)
  note L = log_okD [OF cell_okD(1) [OF ok]]
  have t: "t < length (cl_tasks c)" using ev Moved by simp
  show ?thesis
  proof (cases "cl_tasks c ! t")
    case (Ready n)
    then have le: "legal (cl_ops c ! t) e (cl_versions c ! cl_current c)"
      using ev Moved by (simp add: cell_value_def)
    then have "log_legal legal (cas_load run t e n c)"
      unfolding cas_load_def by (auto intro!: log_legal_become [OF ll] split: attempt.split)
    then show ?thesis using Moved Ready t by (simp add: cas_move_def)
  next
    case (Holding n p e' v r)
    have h: "legal (cl_ops c ! t) e' (cl_versions c ! p)" using ll t Holding unfolding log_legal_def by blast
    have held: "q \<le> length (cl_log c)" if "u < length (cl_tasks c)" "cl_tasks c ! u = Holding m q f w s" for u m q f w s
      using cell_okD(3) [OF ok that(1)] that(2) by simp
    have "log_legal legal (cas_swap t n p e' v r c)"
    proof (cases "cl_current c = p")
      case True
      let ?c = "c\<lparr>cl_versions := cl_versions c @ [v], cl_current := length (cl_versions c), cl_log := cl_log c @ [(t, e')]\<rparr>"
      have "log_legal legal ?c"
        unfolding log_legal_def
      proof (intro conjI allI impI)
        fix k u f assume k: "k < length (cl_log ?c)" and e: "cl_log ?c ! k = (u, f)"
        show "legal (cl_ops ?c ! u) f (cl_versions ?c ! k)"
        proof (cases "k < length (cl_log c)")
          case True
          then show ?thesis using ll e L(1) unfolding log_legal_def by (simp add: nth_append)
        next
          case False
          then have "k = length (cl_log c)" using k by simp
          then show ?thesis using e h \<open>cl_current c = p\<close> L(1,2) by (simp add: nth_append)
        qed
      next
        fix u m q f w z assume u: "u < length (cl_tasks ?c)" and h: "cl_tasks ?c ! u = Holding m q f w z"
        then have "q \<le> length (cl_log c)" using held [of u m q f w z] by simp
        then show "legal (cl_ops ?c ! u) f (cl_versions ?c ! q)"
          using ll u h L(1) unfolding log_legal_def by (simp add: nth_append)
      qed
      then show ?thesis using True by (auto simp: cas_swap_def intro!: log_legal_become)
    qed (auto simp: cas_swap_def intro!: log_legal_become [OF ll])
    then show ?thesis using Moved Holding t by (simp add: cas_move_def)
  next
    case (Ended r)
    then show ?thesis using Moved ll by (simp add: cas_move_def)
  qed
qed

lemma cas_reach_legal: "cas_reach run legal v0 c \<Longrightarrow> log_legal legal c"
proof (induction rule: cas_reach.induct)
  case start
  then show ?case by (simp add: log_legal_def new_cell_def)
next
  case (event c ev)
  then show ?case using log_legal_do [OF cas_reach_ok [OF event.hyps(1)]] by blast
qed

text \<open>A property of a version that every operation keeps for legal inputs holds of every version.\<close>

lemma versions_invariant:
  assumes "cas_reach run legal v0 c" and "k \<le> length (cl_log c)" and "I v0"
    and "\<And>p e v w r. I v \<Longrightarrow> legal p e v \<Longrightarrow> run p e v = Replaces w r \<Longrightarrow> I w"
  shows "I (cl_versions c ! k)"
  using cas_reach_ok [OF assms(1)] assms(2,3)
proof (rule versions_induct [where Q = "\<lambda>_. I"])
  fix i t r e
  assume "i < length (cl_log c)" "cl_log c ! i = (t, e)"
    and "run (cl_ops c ! t) e (cl_versions c ! i) = Replaces (cl_versions c ! Suc i) r" "I (cl_versions c ! i)"
  then show "I (cl_versions c ! Suc i)"
    using assms(4) cas_reach_legal [OF assms(1)] unfolding log_legal_def by blast
qed

section \<open>Ends\<close>

text \<open>The own steps a call has left, whatever the others do.\<close>

fun steps_left :: "('e, 'v, 'r) write_phase \<Rightarrow> nat" where
  "steps_left (Ready n) = 2 * (max_cas_attempts - n) + 1"
| "steps_left (Holding n p e v r) = 2 * (max_cas_attempts - n) + 2"
| "steps_left (Ended r) = 0"

lemma steps_left_zero: "steps_left ph = 0 \<longleftrightarrow> (\<exists>r. ph = Ended r)"
  by (cases ph) simp_all

lemma move_others: "u \<noteq> t \<Longrightarrow> cl_tasks (cas_move run t e c) ! u = cl_tasks c ! u"
  by (auto simp: cas_move_def cas_load_def cas_swap_def cas_become_def split: write_phase.split attempt.split)

lemma move_length [simp]: "length (cl_tasks (cas_move run t e c)) = length (cl_tasks c)"
  by (auto simp: cas_move_def cas_load_def cas_swap_def cas_become_def split: write_phase.split attempt.split)

lemma move_own:
  assumes "t < length (cl_tasks c)"
  shows "steps_left (cl_tasks (cas_move run t e c) ! t) \<le> steps_left (cl_tasks c ! t) - 1"
proof (cases "cl_tasks c ! t")
  case (Ready n)
  then show ?thesis
    using assms by (auto simp: cas_move_def cas_load_def cas_become_def split: attempt.split)
next
  case (Holding n p e' v r)
  then show ?thesis using assms by (auto simp: cas_move_def cas_swap_def cas_become_def)
qed (use assms in \<open>simp add: cas_move_def\<close>)

definition moves_of :: "nat \<Rightarrow> ('p, 'e) cas_event list \<Rightarrow> nat" where
  "moves_of t evs = length (filter (\<lambda>ev. case ev of Moved u _ \<Rightarrow> u = t | Called _ \<Rightarrow> False) evs)"

lemma moves_of_simps [simp]:
  "moves_of t [] = 0"
  "moves_of t (Called p # evs) = moves_of t evs"
  "moves_of t (Moved u e # evs) = (if u = t then Suc (moves_of t evs) else moves_of t evs)"
  by (simp_all add: moves_of_def)

lemma run_steps_left:
  "t < length (cl_tasks c) \<Longrightarrow> steps_left (cl_tasks (cas_run run evs c) ! t) \<le> steps_left (cl_tasks c ! t) - moves_of t evs"
proof (induction evs arbitrary: c)
  case Nil
  then show ?case by (simp add: cas_run_def)
next
  case (Cons ev evs)
  show ?case
  proof (cases ev)
    case (Called p)
    then show ?thesis using Cons.IH [of "cas_call p c"] Cons.prems
      by (simp add: cas_run_def cas_call_def nth_append)
  next
    case (Moved u e)
    have "steps_left (cl_tasks (cas_move run u e c) ! t) \<le> steps_left (cl_tasks c ! t) - (if u = t then 1 else 0)"
      using move_own [OF Cons.prems, of run e] move_others [of t u run e c] by (cases "u = t") simp_all
    then show ?thesis using Cons.IH [of "cas_move run u e c"] Cons.prems Moved
      by (fastforce simp: cas_run_def)
  qed
qed

section \<open>The answers, in the order of their swaps\<close>

fun answer_of :: "('e, 'v, 'r) write_phase \<Rightarrow> 'r option" where
  "answer_of (Ended (Wrote r)) = Some r"
| "answer_of _ = None"

definition commits :: "('p, 'e, 'v, 'r) cell \<Rightarrow> 'r list" where
  "commits c = List.map_filter (\<lambda>(t, e). answer_of (cl_tasks c ! t)) (cl_log c)"

lemma commits_nth:
  assumes "log_ok run c"
  shows "length (commits c) = length (cl_log c)"
    and "k < length (cl_log c) \<Longrightarrow> cl_log c ! k = (t, e) \<Longrightarrow> cl_tasks c ! t = Ended (Wrote r) \<Longrightarrow> commits c ! k = r"
proof -
  have all: "\<forall>x \<in> set (cl_log c). \<exists>r. (\<lambda>(t, e). answer_of (cl_tasks c ! t)) x = Some r"
    using log_okD(6) [OF assms] by (fastforce simp: in_set_conv_nth swap_at_def)
  have eq: "List.map_filter f xs = map (the \<circ> f) xs" if "\<forall>x \<in> set xs. \<exists>r. f x = Some r" for f xs
    using that by (induction xs) auto
  show "length (commits c) = length (cl_log c)"
    unfolding commits_def eq [OF all] by simp
  show "k < length (cl_log c) \<Longrightarrow> cl_log c ! k = (t, e) \<Longrightarrow> cl_tasks c ! t = Ended (Wrote r) \<Longrightarrow> commits c ! k = r"
    unfolding commits_def eq [OF all] by simp
qed


text \<open>
  An operation whose answer says what became of a view of the version: the view of every version is
  then the answers before it, applied in order.
\<close>

locale answered_cell =
  fixes run :: "'p \<Rightarrow> 'e \<Rightarrow> 'v \<Rightarrow> ('v, 'r) attempt" and legal :: "'p \<Rightarrow> 'e \<Rightarrow> 'v \<Rightarrow> bool"
    and inv :: "'v \<Rightarrow> bool" and view :: "'v \<Rightarrow> 'w" and step :: "'r \<Rightarrow> 'w \<Rightarrow> 'w"
    and fits :: "'r \<Rightarrow> 'w \<Rightarrow> bool"
  assumes answered: "inv v \<Longrightarrow> legal p e v \<Longrightarrow> run p e v = Replaces w r \<Longrightarrow> inv w \<and> view w = step r (view v)"
    and fitting: "inv v \<Longrightarrow> legal p e v \<Longrightarrow> run p e v = Replaces w r \<Longrightarrow> fits r (view v)"
begin

lemma versions_refine:
  assumes reach: "cas_reach run legal v0 c" and k: "k \<le> length (cl_log c)" and v0: "inv v0"
  shows "inv (cl_versions c ! k) \<and> view (cl_versions c ! k) = fold step (take k (commits c)) (view v0)"
  using cas_reach_ok [OF reach] k
proof (rule versions_induct [where Q = "\<lambda>k v. inv v \<and> view v = fold step (take k (commits c)) (view v0)"])
  show "inv v0 \<and> view v0 = fold step (take 0 (commits c)) (view v0)" using v0 by simp
next
  note L = cell_okD(1) [OF cas_reach_ok [OF reach]]
  fix i t r e
  assume i: "i < length (cl_log c)" "cl_log c ! i = (t, e)" and r: "cl_tasks c ! t = Ended (Wrote r)"
    and run: "run (cl_ops c ! t) e (cl_versions c ! i) = Replaces (cl_versions c ! Suc i) r"
    and inv: "inv (cl_versions c ! i) \<and> view (cl_versions c ! i) = fold step (take i (commits c)) (view v0)"
  have "legal (cl_ops c ! t) e (cl_versions c ! i)"
    using cas_reach_legal [OF reach] i unfolding log_legal_def by blast
  moreover have "take (Suc i) (commits c) = take i (commits c) @ [r]"
    using commits_nth [OF L] i r by (simp add: take_Suc_conv_app_nth)
  ultimately show "inv (cl_versions c ! Suc i) \<and> view (cl_versions c ! Suc i) = fold step (take (Suc i) (commits c)) (view v0)"
    using answered [OF _ _ run] inv by simp
qed

lemma commits_fit:
  assumes reach: "cas_reach run legal v0 c" and i: "i < length (cl_log c)" and v0: "inv v0"
  shows "fits (commits c ! i) (view (cl_versions c ! i))"
proof -
  note L = cell_okD(1) [OF cas_reach_ok [OF reach]]
  obtain t r where t: "swap_at run c i t r" "cl_tasks c ! t = Ended (Wrote r)" using log_okD(6) [OF L i] by blast
  then obtain e where e: "cl_log c ! i = (t, e)"
    "run (cl_ops c ! t) e (cl_versions c ! i) = Replaces (cl_versions c ! Suc i) r" by (auto simp: swap_at_def)
  have "legal (cl_ops c ! t) e (cl_versions c ! i)"
    using cas_reach_legal [OF reach] i e(1) unfolding log_legal_def by blast
  then show ?thesis
    using fitting [OF _ _ e(2)] versions_refine [OF reach _ v0, of i] i commits_nth(2) [OF L i e(1) t(2)] by simp
qed

end

end
