(* ===== verification/Write_Path.thy ===== *)
theory Write_Path
  imports Cas_Cell Active_Session_Inv
begin

text \<open>
  The writes to a session of \<open>post-cortex-memory/src/memory_system/system.rs\<close>, each an operation on a
  version of the session for the loop of \<open>Cas_Cell\<close>: what it changes, when it changes nothing, what it
  answers, and which record rows and removals it asks the persister to write. The clock, the fresh ids
  and the order of the hot tier's keys come with each attempt (\<open>write_input\<close>); \<open>parse\<close> reads a record
  from the caller's JSON. The set of vectorized ids is shared by all versions and no operation of the
  loop reads it; vectors, search indices and metrics are left out.
\<close>

record write_input =
  wi_id :: uuid
  wi_time :: datetime
  wi_change :: uuid
  wi_summary :: uuid
  wi_summary_now :: datetime
  wi_now :: datetime
  wi_clock :: "nat \<Rightarrow> datetime"
  wi_clocks :: "nat \<Rightarrow> nat \<Rightarrow> datetime"
  wi_merge_clocks :: "nat \<Rightarrow> nat \<Rightarrow> datetime"
  wi_order :: "nat list"

datatype 'j session_write =
    Write_Update bool string "'j option"
  | Merge_Graph context_update
  | Change_Metadata "string option" "string option"
  | Drop_Entity string
  | Drop_Update uuid
  | Join_Entities string string
  | Forget_Update uuid datetime
  | Purge_Update uuid

datatype write_answer =
    Added string context_update
  | Graph_Merged
  | Metadata_Changed
  | Entity_Dropped
  | Update_Dropped uuid
  | Entities_Joined string
  | Was_Forgotten context_update
  | Update_Purged uuid

type_synonym 'g session_attempt = "('g active_session, write_answer) attempt"

definition cut_description :: "string \<Rightarrow> string" where
  "cut_description d =
     (if str_len d > max_description_bytes then truncate_safe max_description_bytes d @ ''... (truncated)'' else d)"

section \<open>The operations\<close>

text \<open>Adding a record; inline, its graph part is in the same swap. Merging a graph never fails.\<close>

definition write_update ::
  "('j \<Rightarrow> (string, context_update) result) \<Rightarrow> (uuid \<Rightarrow> string) \<Rightarrow> 'g pg \<Rightarrow> bool \<Rightarrow> string \<Rightarrow> 'j option \<Rightarrow>
   write_input \<Rightarrow> 'g active_session \<Rightarrow> 'g session_attempt" where
  "write_update parse show_uuid P inline description metadata e s =
     (case add_context_update parse show_uuid (wi_id e) (wi_time e) (wi_change e) (wi_summary e) (wi_summary_now e)
             (wi_now e) (cut_description description) metadata s of
        Inl m \<Rightarrow> Rejects m
      | Inr ((uid, u), s') \<Rightarrow>
          Replaces (if inline then update_entity_graph P (wi_clock e) u s' else s') (Added uid u))"

definition merge_graph :: "'g pg \<Rightarrow> context_update \<Rightarrow> write_input \<Rightarrow> 'g active_session \<Rightarrow> 'g session_attempt" where
  "merge_graph P u e s =
     (if list_ex (\<lambda>v. cu_id v = cu_id u) (rev (as_incremental_updates s))
      then Replaces (update_entity_graph P (wi_clock e) u s) Graph_Merged
      else No_Change)"

definition change_metadata ::
  "string option \<Rightarrow> string option \<Rightarrow> write_input \<Rightarrow> 'g active_session \<Rightarrow> 'g session_attempt" where
  "change_metadata name d e s = Replaces (update_metadata name d (wi_now e) s) Metadata_Changed"

definition drop_entity :: "'g pg \<Rightarrow> string \<Rightarrow> 'g active_session \<Rightarrow> 'g session_attempt" where
  "drop_entity P name s =
     (if \<not> has_entity (as_entity_graph s) name then No_Change
      else Replaces (s\<lparr>as_entity_graph := fst (remove_entity P name (as_entity_graph s))\<rparr>) Entity_Dropped)"

definition drop_update :: "uuid \<Rightarrow> write_input \<Rightarrow> 'g active_session \<Rightarrow> 'g session_attempt" where
  "drop_update i e s =
     (case remove_update_by_id (wi_order e) i s of
        (s', False) \<Rightarrow> No_Change
      | (s', True) \<Rightarrow> Replaces s' (Update_Dropped i))"

definition join_entities :: "'g pg \<Rightarrow> string \<Rightarrow> string \<Rightarrow> write_input \<Rightarrow> 'g active_session \<Rightarrow> 'g session_attempt" where
  "join_entities P alias into e s =
     (case resolve (as_entity_graph s) alias of
        None \<Rightarrow> No_Change
      | Some name \<Rightarrow>
          (case merge_entities P (wi_clock e) alias into (as_entity_graph s) of
             (g, False) \<Rightarrow> No_Change
           | (g, True) \<Rightarrow> Replaces (s\<lparr>as_entity_graph := g\<rparr>) (Entities_Joined name)))"

definition forget_update :: "uuid \<Rightarrow> datetime \<Rightarrow> 'g active_session \<Rightarrow> 'g session_attempt" where
  "forget_update i now s =
     (case retire_update i now s of
        (s', None) \<Rightarrow> No_Change
      | (s', Some u) \<Rightarrow> Replaces s' (Was_Forgotten u))"

definition purge_update :: "'g pg \<Rightarrow> uuid \<Rightarrow> write_input \<Rightarrow> 'g active_session \<Rightarrow> 'g session_attempt" where
  "purge_update P i e s =
     (case remove_update_by_id (wi_order e) i s of
        (s', False) \<Rightarrow> No_Change
      | (s', True) \<Rightarrow> Replaces (rebuild_entity_graph P (wi_clocks e) (wi_merge_clocks e) s') (Update_Purged i))"

fun run_write ::
  "('j \<Rightarrow> (string, context_update) result) \<Rightarrow> (uuid \<Rightarrow> string) \<Rightarrow> 'g pg \<Rightarrow> 'j session_write \<Rightarrow> write_input \<Rightarrow>
   'g active_session \<Rightarrow> 'g session_attempt" where
  "run_write parse show_uuid P (Write_Update inline d m) e s = write_update parse show_uuid P inline d m e s"
| "run_write parse show_uuid P (Merge_Graph u) e s = merge_graph P u e s"
| "run_write parse show_uuid P (Change_Metadata n d) e s = change_metadata n d e s"
| "run_write parse show_uuid P (Drop_Entity n) e s = drop_entity P n s"
| "run_write parse show_uuid P (Drop_Update i) e s = drop_update i e s"
| "run_write parse show_uuid P (Join_Entities a b) e s = join_entities P a b e s"
| "run_write parse show_uuid P (Forget_Update i now) e s = forget_update i now s"
| "run_write parse show_uuid P (Purge_Update i) e s = purge_update P i e s"

text \<open>The id of an added record is new to the session; the key order is one of the hot tier.\<close>

fun fresh_input ::
  "('j \<Rightarrow> (string, context_update) result) \<Rightarrow> 'j session_write \<Rightarrow> write_input \<Rightarrow> 'g active_session \<Rightarrow> bool" where
  "fresh_input parse (Write_Update inline d None) e s \<longleftrightarrow> wi_id e \<notin> record_ids s"
| "fresh_input parse (Write_Update inline d (Some j)) e s \<longleftrightarrow>
     (case parse j of Inl m \<Rightarrow> True | Inr u \<Rightarrow> cu_id u \<notin> record_ids s)"
| "fresh_input parse (Drop_Update i) e s \<longleftrightarrow> lists_hot_keys (wi_order e) s"
| "fresh_input parse (Purge_Update i) e s \<longleftrightarrow> lists_hot_keys (wi_order e) s"
| "fresh_input parse _ e s \<longleftrightarrow> True"

section \<open>What is handed to the persister\<close>

text \<open>The rows named explicitly and the removals of \<open>persist_session_nowait\<close> and its variants.\<close>

fun asks_to_persist :: "write_answer \<Rightarrow> context_update list \<times> uuid list" where
  "asks_to_persist (Added uid u) = ([u], [])"
| "asks_to_persist (Was_Forgotten u) = ([u], [])"
| "asks_to_persist (Update_Dropped i) = ([], [i])"
| "asks_to_persist (Update_Purged i) = ([], [i])"
| "asks_to_persist _ = ([], [])"

definition rows_asked :: "write_answer list \<Rightarrow> context_update list" where
  "rows_asked as = concat (map (fst \<circ> asks_to_persist) as)"

definition removals_asked :: "write_answer list \<Rightarrow> uuid list" where
  "removals_asked as = concat (map (snd \<circ> asks_to_persist) as)"

section \<open>The records as a log\<close>

text \<open>What an answer says of the list of records.\<close>

fun record_step :: "write_answer \<Rightarrow> context_update list \<Rightarrow> context_update list" where
  "record_step (Added uid u) us = us @ [limit_update u]"
| "record_step (Was_Forgotten w) us = map (\<lambda>u. if cu_id u = cu_id w then w else u) us"
| "record_step (Update_Dropped i) us = filter (\<lambda>u. cu_id u \<noteq> i) us"
| "record_step (Update_Purged i) us = filter (\<lambda>u. cu_id u \<noteq> i) us"
| "record_step _ us = us"

fun answer_fits :: "write_answer \<Rightarrow> context_update list \<Rightarrow> bool" where
  "answer_fits (Was_Forgotten w) us \<longleftrightarrow> cu_id w \<in> cu_id ` set us"
| "answer_fits _ us \<longleftrightarrow> True"

section \<open>Every operation keeps the session's invariant and follows its answer\<close>

lemma remove_update_unchanged: "\<not> snd (remove_update_by_id order i s) \<Longrightarrow> fst (remove_update_by_id order i s) = s"
  by (auto simp: remove_update_by_id_def split: option.splits)

lemma remove_update_records:
  "snd (remove_update_by_id order i s) \<Longrightarrow>
   as_incremental_updates (fst (remove_update_by_id order i s)) = filter (\<lambda>u. cu_id u \<noteq> i) (as_incremental_updates s)"
  by (auto simp: remove_update_by_id_def split: option.splits)

lemma session_ok_drop_entity:
  assumes G: "entity_digraph P valid" and ok: "session_ok P valid s"
  shows "session_ok P valid (s\<lparr>as_entity_graph := fst (remove_entity P n (as_entity_graph s))\<rparr>)"
proof -
  note D = session_okD [OF ok]
  have "mentions_in (record_ids s) (fst (remove_entity P n (as_entity_graph s)))"
    using D(3) by (cases "eg_entity_to_node (as_entity_graph s) n") (auto simp: mentions_in_def entity_digraph.remove_entity_unknown [OF G] entity_digraph.remove_entity_fields(2) [OF G] split: if_splits)
  then show ?thesis by (rule session_ok_graph [OF ok entity_digraph.graph_ok_remove [OF G D(2)]])
qed

lemma session_ok_join:
  assumes G: "entity_digraph P valid" and ok: "session_ok P valid s"
  shows "session_ok P valid (s\<lparr>as_entity_graph := fst (merge_entities P clock a b (as_entity_graph s))\<rparr>)"
  using session_ok_graph [OF ok] entity_digraph.merge_entities_ok [OF G session_okD(2) [OF ok]]
    entity_digraph.mentions_in_merge [OF G session_okD(2,3) [OF ok]] by blast

lemma run_write_ok:
  assumes G: "entity_digraph P valid" and ok: "session_ok P valid s" and fresh: "fresh_input parse p e s"
    and run: "run_write parse show_uuid P p e s = Replaces s' r"
  shows "session_ok P valid s' \<and> as_incremental_updates s' = record_step r (as_incremental_updates s)"
proof (cases p)
  case (Write_Update inline d m)
  obtain uid u t where add: "add_context_update parse show_uuid (wi_id e) (wi_time e) (wi_change e) (wi_summary e)
      (wi_summary_now e) (wi_now e) (cut_description d) m s = Inr ((uid, u), t)"
    and s': "s' = (if inline then update_entity_graph P (wi_clock e) u t else t)" and r: "r = Added uid u"
    using run Write_Update by (auto simp: write_update_def split: sum.splits)
  have new: "cu_id u \<notin> record_ids s"
    using add fresh Write_Update
    by (cases m) (auto simp: add_context_update_def described_update_def res_bind_def split: sum.splits)
  have t: "t = add_incremental_update_fast (wi_change e) (wi_summary e) (wi_summary_now e) (wi_now e) u s"
    using add by (auto simp: add_context_update_def res_bind_def split: option.splits sum.splits)
  have okt: "session_ok P valid t" unfolding t by (rule session_ok_add_fast [OF ok new])
  have us: "as_incremental_updates t = as_incremental_updates s @ [limit_update u]"
    by (simp add: t add_incremental_update_fast_def Let_def finish_update_fields)
  then have "cu_id u \<in> record_ids t" by (simp add: record_ids_def)
  then show ?thesis
    using session_ok_graph_update [OF G okt] okt us by (simp add: s' r update_entity_graph_def)
next
  case (Merge_Graph u)
  then have l: "list_ex (\<lambda>v. cu_id v = cu_id u) (as_incremental_updates s)"
    and s': "s' = update_entity_graph P (wi_clock e) u s" and r: "r = Graph_Merged"
    using run by (simp_all add: merge_graph_def split: if_splits)
  have "cu_id u \<in> record_ids s" using l unfolding list_ex_iff record_ids_def by (metis image_eqI)
  then show ?thesis using session_ok_graph_update [OF G ok] by (simp add: s' r update_entity_graph_def)
next
  case (Change_Metadata n d)
  then have s': "s' = update_metadata n d (wi_now e) s" and r: "r = Metadata_Changed"
    using run by (simp_all add: change_metadata_def)
  have "session_ok P valid s'" unfolding s' update_metadata_def Let_def by (rule session_ok_metadata [OF ok]) simp
  then show ?thesis by (simp add: s' r update_metadata_def Let_def)
next
  case (Drop_Entity n)
  then show ?thesis using run session_ok_drop_entity [OF G ok] by (auto simp: drop_entity_def split: if_splits)
next
  case (Drop_Update i)
  then show ?thesis
    using run fresh session_ok_remove(1) [OF G ok, of "wi_order e" i] remove_update_records [of "wi_order e" i s]
    by (auto simp: drop_update_def split: prod.splits bool.splits)
next
  case (Join_Entities a b)
  then show ?thesis
    using run session_ok_join [OF G ok, of "wi_clock e" a b]
    by (auto simp: join_entities_def split: option.splits prod.splits bool.splits)
next
  case (Forget_Update i now)
  then obtain w where w: "retire_update i now s = (s', Some w)" and r: "r = Was_Forgotten w"
    using run by (auto simp: forget_update_def split: prod.splits option.splits)
  obtain u where u: "List.find (\<lambda>u. cu_id u = i) (as_incremental_updates s) = Some u" "um_retired_at (cu_meta u) = None"
    using w by (auto simp: retire_update_def Let_def split: option.splits if_splits)
  have "cu_id u = i" using u(1) by (auto simp: find_Some_iff)
  then show ?thesis
    using retire_fields(1,2) [OF session_okD(1) [OF ok] u, of now] session_ok_retire(1) [OF ok, of i now] w r by simp
next
  case (Purge_Update i)
  then obtain t where t: "remove_update_by_id (wi_order e) i s = (t, True)"
    and s': "s' = rebuild_entity_graph P (wi_clocks e) (wi_merge_clocks e) t" and r: "r = Update_Purged i"
    using run by (auto simp: purge_update_def split: prod.splits bool.splits)
  have "session_ok P valid t" using session_ok_remove(1) [OF G ok, of "wi_order e" i] fresh Purge_Update t by simp
  then have "session_ok P valid s'" unfolding s' by (rule session_ok_rebuild [OF G])
  then show ?thesis
    using remove_update_records [of "wi_order e" i s] t by (simp add: s' r rebuild_entity_graph_def)
qed

lemma run_write_fits:
  assumes "session_ok P valid s" and "run_write parse show_uuid P p e s = Replaces s' r"
  shows "answer_fits r (as_incremental_updates s)"
proof (cases "\<exists>w. r = Was_Forgotten w")
  case True
  then obtain i now w where w: "retire_update i now s = (s', Some w)" and r: "r = Was_Forgotten w"
    using assms(2) by (cases p) (auto simp: write_update_def merge_graph_def change_metadata_def drop_entity_def drop_update_def
        join_entities_def forget_update_def purge_update_def split: sum.splits if_splits prod.splits bool.splits option.splits)
  obtain u where u: "List.find (\<lambda>u. cu_id u = i) (as_incremental_updates s) = Some u" "um_retired_at (cu_meta u) = None"
    using w by (auto simp: retire_update_def Let_def split: option.splits if_splits)
  have "w = retired_version now u" using retire_fields(1) [OF session_okD(1) [OF assms(1)] u, of now] w by simp
  moreover have "u \<in> set (as_incremental_updates s)" using u(1) by (auto simp: find_Some_iff)
  ultimately show ?thesis by (simp add: r)
next
  case False
  then show ?thesis by (cases r) auto
qed

lemma session_cell:
  assumes "entity_digraph P valid"
  shows "answered_cell (run_write parse show_uuid P) (fresh_input parse) (session_ok P valid) as_incremental_updates
    record_step answer_fits"
  by unfold_locales (rule run_write_ok [OF assms] run_write_fits; assumption)+

interpretation sw: answered_cell "run_write parse show_uuid list_petgraph" "fresh_input parse"
  "session_ok list_petgraph lg_valid" as_incremental_updates record_step answer_fits
  for parse show_uuid
  by (rule session_cell [OF entity_digraph_iff [OF lg.digraph_axioms]])

end
