(* ===== verification/Memory_Service.thy ===== *)
theory Memory_Service
  imports Redact Write_Path Message_Store Card_Store
begin

text \<open>
  The write side of the service every transport goes through,
  \<open>post-cortex-memory/src/services.rs\<close>: requests are redacted, checked, turned into a record and handed
  to the write path; card writes and message appends go to their stores. The session a request is checked
  against, the stored messages and the workspaces known come in as arguments; \<open>commit\<close> is the write path.
  An error is its reason, without the text around it. Logging and the queues of the background pipeline
  are left out; the graph merge they run is \<open>Write_Path.merge_graph\<close>.
\<close>

datatype invalid_argument =
    No_Text
  | No_Entities
  | No_Relations
  | Empty_From nat
  | Empty_To nat
  | Self_Relation nat string
  | Empty_Context nat
  | Undeclared_From nat string
  | Undeclared_To nat string
  | Not_A_Message string
  | Message_Missing nat
  | Bad_Confidence real
  | Retired_On_Write
  | Superseded_Missing uuid
  | Other_Session nat uuid
  | Empty_Turn nat
  | Card_Too_Long nat
  | Item nat invalid_argument

datatype system_error =
    Invalid_Argument invalid_argument
  | Session_Unknown uuid
  | Workspace_Unknown uuid
  | Internal_Error string
  | Internal_At nat string

section \<open>Checking an update\<close>

definition invalid :: "invalid_argument \<Rightarrow> (system_error, 'a) result" where
  "invalid a = Err (Invalid_Argument a)"

definition check_relation :: "string set \<Rightarrow> nat \<Rightarrow> entity_relationship \<Rightarrow> (system_error, unit) result" where
  "check_relation names i r =
     (let a = er_from_entity r; b = er_to_entity r in
      if a = [] then invalid (Empty_From i)
      else if b = [] then invalid (Empty_To i)
      else if a = b then invalid (Self_Relation i a)
      else if trim (er_context r) = [] then invalid (Empty_Context i)
      else if a \<notin> names then invalid (Undeclared_From i a)
      else if b \<notin> names then invalid (Undeclared_To i b)
      else Ok ())"

fun check_relations :: "string set \<Rightarrow> nat \<Rightarrow> entity_relationship list \<Rightarrow> (system_error, unit) result" where
  "check_relations names i [] = Ok ()"
| "check_relations names i (r # rs) = res_bind (check_relation names i r) (\<lambda>_. check_relations names (i + 1) rs)"

definition validate_update_request :: "update_request \<Rightarrow> (system_error, unit) result" where
  "validate_update_request req =
     (if trim (uc_title (ur_content req)) = [] \<and> trim (uc_description (ur_content req)) = [] then invalid No_Text
      else if ur_entities req = [] then invalid No_Entities
      else if ur_relations req = [] then invalid No_Relations
      else check_relations (ed_name ` set (ur_entities req)) 0 (ur_relations req))"

text \<open>\<open>seq_of_content_id\<close>: the position a content id, or a chunk of it, names.\<close>

definition seq_of_content_id :: "string \<Rightarrow> nat option" where
  "seq_of_content_id s =
     Option.bind (strip_prefix ''message:'' s) (\<lambda>rest. parse_u64 (hd (split_by (\<lambda>c. c = CHR ''#'') rest)))"

definition content_id :: "nat \<Rightarrow> string" where
  "content_id seq = ''message:'' @ show_nat seq"

fun derived_seqs :: "string list \<Rightarrow> (system_error, nat list) result" where
  "derived_seqs [] = Ok []"
| "derived_seqs (i # is) =
     (case seq_of_content_id i of
        Some seq \<Rightarrow> if CHR ''#'' \<in> set i then invalid (Not_A_Message i)
          else res_bind (derived_seqs is) (\<lambda>seqs. Ok (seq # seqs))
      | None \<Rightarrow> invalid (Not_A_Message i))"

text \<open>\<open>last + 1\<close> wraps for the last 64-bit position; a build with overflow checks stops there.\<close>

definition check_derived_from ::
  "'v codec \<Rightarrow> (uuid \<Rightarrow> string) \<Rightarrow> (store_error \<Rightarrow> string) \<Rightarrow> 'v db \<Rightarrow> update_request \<Rightarrow> (system_error, unit) result" where
  "check_derived_from K U show_store db req =
     (if ur_derived_from req = [] then Ok ()
      else res_bind (derived_seqs (ur_derived_from req)) (\<lambda>seqs.
        case load_messages K U (ur_session_id req) (Min (set seqs)) ((Max (set seqs) + 1) mod 2 ^ 64) db of
          Inl e \<Rightarrow> Err (Internal_Error (show_store e))
        | Inr ms \<Rightarrow>
            (case List.find (\<lambda>seq. seq \<notin> ms_seq ` set ms) seqs of
               Some missing \<Rightarrow> invalid (Message_Missing missing)
             | None \<Rightarrow> Ok ())))"

definition check_meta :: "'g active_session option \<Rightarrow> update_request \<Rightarrow> (system_error, unit) result" where
  "check_meta session req =
     (let meta = ur_meta req;
          rest =
            (if um_retired_at meta \<noteq> None then invalid Retired_On_Write
             else if um_supersedes meta = [] then Ok ()
             else case session of
                 None \<Rightarrow> Err (Session_Unknown (ur_session_id req))
               | Some s \<Rightarrow>
                   (case List.find (\<lambda>i. i \<notin> cu_id ` set (as_incremental_updates s)) (um_supersedes meta) of
                      Some missing \<Rightarrow> invalid (Superseded_Missing missing)
                    | None \<Rightarrow> Ok ()))
      in case um_confidence meta of
           Some c \<Rightarrow> if \<not> (0 \<le> c \<and> c \<le> 1) then invalid (Bad_Confidence c) else rest
         | None \<Rightarrow> rest)"

section \<open>The record of an update\<close>

definition build_description :: "update_request \<Rightarrow> string" where
  "build_description req =
     (let c = ur_content req in
      if uc_description c = [] then uc_title c
      else if uc_title c = [] then uc_description c
      else uc_title c @ [CHR 0x0A] @ uc_description c)"

definition build_context_update :: "uuid \<Rightarrow> datetime \<Rightarrow> update_request \<Rightarrow> context_update" where
  "build_context_update i now req =
     \<lparr>cu_id = i, cu_timestamp = now, cu_update_type = ur_interaction_type req, cu_content = ur_content req,
      cu_related_code = ur_code_reference req, cu_parent_update = None, cu_user_marked_important = False,
      cu_creates_entities = map ed_name (ur_entities req), cu_creates_relationships = ur_relations req,
      cu_references_entities = [],
      cu_typed_entities = map (\<lambda>e. \<lparr>te_name = ed_name e, te_entity_type = ed_entity_type e\<rparr>) (ur_entities req),
      cu_author = ur_author req, cu_derived_from = ur_derived_from req, cu_meta = ur_meta req\<rparr>"

section \<open>Writing\<close>

record committed_update =
  co_entry_id :: uuid
  co_update :: context_update
  co_durable :: bool

text \<open>The write path: description, record as JSON, whether to wait for storage.\<close>

type_synonym 's commit = "string \<Rightarrow> context_update \<Rightarrow> bool \<Rightarrow> 's \<Rightarrow> 's \<times> (string, committed_update) result"

text \<open>The checks of one request: its own, its sources, its validity.\<close>

definition check_update ::
  "'v codec \<Rightarrow> (uuid \<Rightarrow> string) \<Rightarrow> (store_error \<Rightarrow> string) \<Rightarrow> 'v db \<Rightarrow> 'g active_session option \<Rightarrow> update_request \<Rightarrow>
   (system_error, unit) result" where
  "check_update K U show_store db session req =
     res_bind (validate_update_request req) (\<lambda>_.
     res_bind (check_derived_from K U show_store db req) (\<lambda>_. check_meta session req))"

definition update_context ::
  "(string \<Rightarrow> scanner) \<Rightarrow> redactor \<Rightarrow> (update_request \<Rightarrow> (system_error, unit) result) \<Rightarrow> 's commit \<Rightarrow> uuid \<Rightarrow> datetime \<Rightarrow>
   update_request \<Rightarrow> 's \<Rightarrow> 's \<times> (system_error, uuid \<times> uuid \<times> bool) result" where
  "update_context scan rd check commit i now req0 s =
     (let req = fst (redact_request scan rd req0) in
      case check req of
        Inl e \<Rightarrow> (s, Err e)
      | Inr _ \<Rightarrow>
          (case commit (build_description req) (build_context_update i now req) True s of
             (s', Inl e) \<Rightarrow> (s', Err (Internal_Error e))
           | (s', Inr c) \<Rightarrow> (s', Ok (co_entry_id c, ur_session_id req, co_durable c))))"

text \<open>A batch is checked as a whole before anything of it is written; \<open>stamp k\<close> is item \<open>k\<close>'s id and time.\<close>

definition at_item :: "nat \<Rightarrow> (system_error, unit) result \<Rightarrow> (system_error, unit) result" where
  "at_item i r = (case r of Inl (Invalid_Argument a) \<Rightarrow> invalid (Item i a) | _ \<Rightarrow> r)"

fun check_items ::
  "(update_request \<Rightarrow> (system_error, unit) result) \<Rightarrow> uuid \<Rightarrow> nat \<Rightarrow> update_request list \<Rightarrow> (system_error, unit) result" where
  "check_items check sid i [] = Ok ()"
| "check_items check sid i (req # reqs) =
     (if ur_session_id req \<noteq> sid then invalid (Other_Session i (ur_session_id req))
      else res_bind (at_item i (check req)) (\<lambda>_. check_items check sid (i + 1) reqs))"

fun write_items ::
  "'s commit \<Rightarrow> (nat \<Rightarrow> uuid \<times> datetime) \<Rightarrow> nat \<Rightarrow> nat \<Rightarrow> update_request list \<Rightarrow> uuid list \<Rightarrow> bool \<Rightarrow> 's \<Rightarrow>
   's \<times> (system_error, uuid list \<times> bool) result" where
  "write_items commit stamp lst i [] ids durable s = (s, Ok (ids, durable))"
| "write_items commit stamp lst i (req # reqs) ids durable s =
     (case commit (build_description req) (build_context_update (fst (stamp i)) (snd (stamp i)) req) (i = lst) s of
        (s', Inl e) \<Rightarrow> (s', Err (Internal_At i e))
      | (s', Inr c) \<Rightarrow> write_items commit stamp lst (i + 1) reqs (ids @ [co_entry_id c]) (co_durable c) s')"

definition bulk_update_context ::
  "(string \<Rightarrow> scanner) \<Rightarrow> redactor \<Rightarrow> (update_request \<Rightarrow> (system_error, unit) result) \<Rightarrow> 's commit \<Rightarrow>
   (nat \<Rightarrow> uuid \<times> datetime) \<Rightarrow> uuid \<Rightarrow> update_request list \<Rightarrow> 's \<Rightarrow> 's \<times> (system_error, uuid list \<times> bool) result" where
  "bulk_update_context scan rd check commit stamp sid reqs0 s =
     (let reqs = map (\<lambda>r. fst (redact_request scan rd r)) reqs0 in
      case check_items check sid 0 reqs of
        Inl e \<Rightarrow> (s, Err e)
      | Inr _ \<Rightarrow> write_items commit stamp (length reqs - 1) 0 reqs [] False s)"

text \<open>The write path of one call at a time, on the session itself.\<close>

definition commit_alone ::
  "(uuid \<Rightarrow> string) \<Rightarrow> 'g pg \<Rightarrow> write_input \<Rightarrow> 'g active_session commit" where
  "commit_alone U P e d u wait s =
     (case run_write (\<lambda>u. Ok u) U P (Write_Update False d (Some u)) e s of
        Replaces s' (Added uid w) \<Rightarrow> (s', Ok \<lparr>co_entry_id = cu_id w, co_update = w, co_durable = wait\<rparr>)
      | Rejects m \<Rightarrow> (s, Err m)
      | _ \<Rightarrow> (s, Err ''unreachable''))"

section \<open>Messages and cards\<close>

fun empty_turn :: "nat \<Rightarrow> new_message list \<Rightarrow> nat option" where
  "empty_turn i [] = None"
| "empty_turn i (m # ms) = (if trim (nm_turn_id m) = [] then Some i else empty_turn (i + 1) ms)"

record append_answer =
  aa_appended :: "nat list"
  aa_skipped :: nat

definition service_append ::
  "'v codec \<Rightarrow> (uuid \<Rightarrow> string) \<Rightarrow> (store_error \<Rightarrow> string) \<Rightarrow> (string \<Rightarrow> scanner) \<Rightarrow> redactor \<Rightarrow> bool \<Rightarrow> uuid \<Rightarrow>
   new_message list \<Rightarrow> 'v db \<Rightarrow> 'v db \<times> (system_error, append_answer) result" where
  "service_append K U show_store scan rd session_known sid ms db =
     (case empty_turn 0 ms of
        Some i \<Rightarrow> (db, invalid (Empty_Turn i))
      | None \<Rightarrow>
          if \<not> session_known then (db, Err (Session_Unknown sid))
          else
            let kept = map (\<lambda>m. fst (redact_message scan rd m [])) (filter (\<lambda>m. trim (nm_text m) \<noteq> []) ms)
            in case append_messages K U sid kept db of
                 (db', Inl e) \<Rightarrow> (db', Err (Internal_Error (show_store e)))
               | (db', Inr stored) \<Rightarrow>
                   (db', Ok \<lparr>aa_appended = map ms_seq stored, aa_skipped = length ms - length stored\<rparr>))"

definition trim_end :: "string \<Rightarrow> string" where
  "trim_end s = rev (dropWhile is_whitespace (rev s))"

definition require_card_scope :: "(uuid \<Rightarrow> bool) \<Rightarrow> card_scope \<Rightarrow> (system_error, unit) result" where
  "require_card_scope known scope =
     (case scope of
        Workspace_Scope i \<Rightarrow> if \<not> known i then Err (Workspace_Unknown i) else Ok ()
      | User_Scope \<Rightarrow> Ok ())"

definition update_card ::
  "'v codec \<Rightarrow> (uuid \<Rightarrow> string) \<Rightarrow> (string \<Rightarrow> scanner) \<Rightarrow> redactor \<Rightarrow> (uuid \<Rightarrow> bool) \<Rightarrow> card_scope \<Rightarrow> string \<Rightarrow>
   string option \<Rightarrow> nat \<Rightarrow> datetime \<Rightarrow> 'v db \<Rightarrow> 'v db \<times> (system_error, bool \<times> card option) result" where
  "update_card K U scan rd known scope text0 author expected now db =
     (case require_card_scope known scope of
        Inl e \<Rightarrow> (db, Err e)
      | Inr _ \<Rightarrow>
          let text = clean scan rd (trim_end text0) in
          if str_len text > max_card_bytes then (db, invalid (Card_Too_Long (str_len text)))
          else case put_card K U scope text author expected now db of
              (db', Some (Written c)) \<Rightarrow> (db', Ok (True, Some c))
            | (db', Some (Conflict latest)) \<Rightarrow> (db', Ok (False, latest))
            | (db', None) \<Rightarrow> (db', Err (Internal_Error ''malformed card'')))"

definition read_card ::
  "'v codec \<Rightarrow> (uuid \<Rightarrow> string) \<Rightarrow> (uuid \<Rightarrow> bool) \<Rightarrow> card_scope \<Rightarrow> nat \<Rightarrow> 'v db \<Rightarrow>
   (system_error, card option \<times> card list) result" where
  "read_card K U known scope history db =
     res_bind (require_card_scope known scope) (\<lambda>_.
       if history = 0
       then (case get_card K U scope db of
               Some c \<Rightarrow> Ok (c, [])
             | None \<Rightarrow> Err (Internal_Error ''malformed card''))
       else (case card_history K U scope (history + 1) db of
               Some [] \<Rightarrow> Ok (None, [])
             | Some (c # cs) \<Rightarrow> Ok (Some c, cs)
             | None \<Rightarrow> Err (Internal_Error ''malformed card'')))"

end
