(* ===== verification/Write_Path_Props.thy ===== *)
theory Write_Path_Props
  imports Write_Path Active_Session_Props Session_Store_Props
begin

text \<open>
  What the writes of \<open>Write_Path\<close> guarantee for every interleaving, and what the rows they hand to the
  persister leave in the store.
\<close>

section \<open>Rows and removals of a batch of answers\<close>

text \<open>Ids an answer uses for good, and that every added record has a new one.\<close>

fun touches :: "write_answer \<Rightarrow> uuid set" where
  "touches (Added uid u) = {cu_id u}"
| "touches (Update_Dropped i) = {i}"
| "touches (Update_Purged i) = {i}"
| "touches _ = {}"

fun adds_fresh :: "uuid set \<Rightarrow> write_answer list \<Rightarrow> bool" where
  "adds_fresh S [] \<longleftrightarrow> True"
| "adds_fresh S (Added uid u # as) \<longleftrightarrow> cu_id u \<notin> S \<and> adds_fresh (insert (cu_id u) S) as"
| "adds_fresh S (a # as) \<longleftrightarrow> adds_fresh (S \<union> touches a) as"

definition added_ids :: "write_answer list \<Rightarrow> uuid list" where
  "added_ids as = concat (map (\<lambda>a. case a of Added uid u \<Rightarrow> [cu_id u] | _ \<Rightarrow> []) as)"

lemma adds_fresh_snoc:
  "adds_fresh S (as @ [a]) \<longleftrightarrow> adds_fresh S as \<and>
     (\<forall>uid u. a = Added uid u \<longrightarrow> cu_id u \<notin> S \<and> (\<forall>b \<in> set as. cu_id u \<notin> touches b))"
proof (induction as arbitrary: S)
  case Nil
  then show ?case by (cases a) auto
next
  case (Cons b as)
  then show ?case by (cases b) auto
qed

lemma answers_snoc [simp]:
  "rows_asked (as @ [a]) = rows_asked as @ fst (asks_to_persist a)"
  "removals_asked (as @ [a]) = removals_asked as @ snd (asks_to_persist a)"
  "added_ids (as @ [a]) = added_ids as @ (case a of Added uid u \<Rightarrow> [cu_id u] | _ \<Rightarrow> [])"
  by (simp_all add: rows_asked_def removals_asked_def added_ids_def)

lemma answers_Nil [simp]: "rows_asked [] = []" "removals_asked [] = []" "added_ids [] = []"
  by (simp_all add: rows_asked_def removals_asked_def added_ids_def)

lemma touched_ids:
  "set (removals_asked as) \<union> set (added_ids as) = (\<Union>a \<in> set as. touches a)"
proof (induction as rule: rev_induct)
  case (snoc a as)
  then show ?case by (cases a) auto
qed simp

text \<open>A row a record may have: what the caller sent, or what the session keeps of it.\<close>

definition row_of_record :: "context_update \<Rightarrow> context_update \<Rightarrow> bool" where
  "row_of_record row u \<longleftrightarrow> u = row \<or> u = limit_update row"

lemma row_of_record_id: "row_of_record row u \<Longrightarrow> cu_id row = cu_id u"
  by (auto simp: row_of_record_def)

lemma rows_ids: "list_all2 row_of_record rows us \<Longrightarrow> map cu_id rows = map cu_id us"
  by (induction rule: list_all2_induct) (simp_all add: row_of_record_id)

definition batch_ok :: "context_update list \<Rightarrow> write_answer list \<Rightarrow> context_update list \<Rightarrow> bool" where
  "batch_ok us0 as us \<longleftrightarrow>
     map cu_id us = filter (\<lambda>i. i \<notin> set (removals_asked as)) (map cu_id us0 @ added_ids as) \<and>
     cu_id ` set (rows_asked as) \<subseteq> set (map cu_id us0 @ added_ids as) \<and>
     distinct (map cu_id us0 @ added_ids as) \<and>
     (\<forall>u \<in> set us. case last_of (rows_asked as) (cu_id u) of
        None \<Rightarrow> u \<in> set us0
      | Some w \<Rightarrow> row_of_record w u)"

lemma last_of_snoc: "last_of (us @ [w]) j = (if cu_id w = j then Some w else last_of us j)"
  by (simp add: last_of_append last_of_Cons)

lemma batch_ok_step:
  assumes ok: "batch_ok us0 as us" and fresh: "adds_fresh (cu_id ` set us0) (as @ [a])" and fits: "answer_fits a us"
  shows "batch_ok us0 (as @ [a]) (record_step a us)"
proof -
  have ids: "map cu_id us = filter (\<lambda>i. i \<notin> set (removals_asked as)) (map cu_id us0 @ added_ids as)"
    and rows: "cu_id ` set (rows_asked as) \<subseteq> set (map cu_id us0 @ added_ids as)"
    and d: "distinct (map cu_id us0 @ added_ids as)"
    and cont: "\<And>u. u \<in> set us \<Longrightarrow> case last_of (rows_asked as) (cu_id u) of None \<Rightarrow> u \<in> set us0 | Some w \<Rightarrow> row_of_record w u"
    using ok by (simp_all add: batch_ok_def)
  have known: "cu_id ` set us \<subseteq> set (map cu_id us0 @ added_ids as)"
    using arg_cong [OF ids, of set] by auto
  have drop: "map cu_id (filter (\<lambda>u. cu_id u \<noteq> i) us) =
      filter (\<lambda>j. j \<notin> set (removals_asked as @ [i])) (map cu_id us0 @ added_ids as)" for i
  proof -
    have "map cu_id (filter (\<lambda>u. cu_id u \<noteq> i) us) = filter (\<lambda>j. j \<noteq> i) (map cu_id us)"
      by (simp add: filter_map o_def)
    then show ?thesis unfolding ids filter_filter by (simp add: conj_commute)
  qed
  show ?thesis
  proof (cases a)
    case (Added uid w)
    have new: "cu_id w \<notin> set (map cu_id us0 @ added_ids as)" "cu_id w \<notin> set (removals_asked as)"
      using fresh Added touched_ids [of as] by (auto simp: adds_fresh_snoc)
    have "cu_id u \<noteq> cu_id w" if "u \<in> set us" for u
    proof -
      have "cu_id u \<in> set (map cu_id us0 @ added_ids as)" using known that by blast
      then show ?thesis using new(1) by metis
    qed
    then have "case last_of (rows_asked as @ [w]) (cu_id u) of None \<Rightarrow> u \<in> set us0 | Some w \<Rightarrow> row_of_record w u"
      if "u \<in> set us" for u
      using cont [OF that] that by (simp add: last_of_snoc eq_commute)
    then show ?thesis
      using ids rows d new by (auto simp: batch_ok_def Added last_of_snoc row_of_record_def)
  next
    case (Was_Forgotten w)
    have w: "cu_id w \<in> cu_id ` set us" using fits Was_Forgotten by simp
    have same: "map cu_id (map (\<lambda>u. if cu_id u = cu_id w then w else u) us) = map cu_id us"
      by (induction us) simp_all
    have "case last_of (rows_asked as @ [w]) (cu_id v) of None \<Rightarrow> v \<in> set us0 | Some w \<Rightarrow> row_of_record w v"
      if v: "v \<in> set (map (\<lambda>u. if cu_id u = cu_id w then w else u) us)" for v
    proof (cases "cu_id v = cu_id w")
      case True
      then have "v = w" using v by (auto split: if_splits)
      then show ?thesis by (simp add: last_of_snoc row_of_record_def)
    next
      case False
      then have "v \<in> set us" using v by (auto split: if_splits)
      then show ?thesis using cont False by (simp add: last_of_snoc eq_commute)
    qed
    then show ?thesis
      using ids rows d w known same unfolding batch_ok_def Was_Forgotten by auto
  next
    case (Update_Dropped i)
    then show ?thesis using drop rows d cont by (simp only: batch_ok_def answers_snoc record_step.simps) simp
  next
    case (Update_Purged i)
    then show ?thesis using drop rows d cont by (simp only: batch_ok_def answers_snoc record_step.simps) simp
  qed (use ok in \<open>simp_all add: batch_ok_def\<close>)
qed

lemma batch_ok_fold:
  assumes "distinct (map cu_id us0)" and "adds_fresh (cu_id ` set us0) as"
    and "\<forall>i < length as. answer_fits (as ! i) (fold record_step (take i as) us0)"
  shows "batch_ok us0 as (fold record_step as us0)"
  using assms(2,3)
proof (induction as rule: rev_induct)
  case Nil
  then show ?case using assms(1) by (simp add: batch_ok_def)
next
  case (snoc a as)
  have "\<forall>i < length as. answer_fits (as ! i) (fold record_step (take i as) us0)"
  proof (intro allI impI)
    fix i assume "i < length as"
    then show "answer_fits (as ! i) (fold record_step (take i as) us0)"
      using snoc.prems(2) [rule_format, of i] by (simp add: nth_append)
  qed
  then have "batch_ok us0 as (fold record_step as us0)" using snoc.IH snoc.prems(1) by (simp add: adds_fresh_snoc)
  moreover have "answer_fits a (fold record_step as us0)" using snoc.prems(2) [rule_format, of "length as"] by simp
  ultimately show ?case using batch_ok_step snoc.prems(1) by simp
qed

text \<open>Rows that follow the records before a batch follow them after it.\<close>

lemma batch_merges:
  assumes ok: "batch_ok us0 as us" and old: "list_all2 row_of_record old us0"
  shows "list_all2 row_of_record (merge_updates old us (rows_asked as) (removals_asked as)) us"
proof -
  let ?F = "filter (\<lambda>i. i \<notin> set (removals_asked as))" and ?m = "merge_updates old us (rows_asked as) (removals_asked as)"
  have ids: "map cu_id us = ?F (map cu_id us0 @ added_ids as)"
    and rows: "cu_id ` set (rows_asked as) \<subseteq> set (map cu_id us0 @ added_ids as)"
    and d: "distinct (map cu_id us0 @ added_ids as)"
    and cont: "\<And>u. u \<in> set us \<Longrightarrow> case last_of (rows_asked as) (cu_id u) of None \<Rightarrow> u \<in> set us0 | Some w \<Rightarrow> row_of_record w u"
    using ok by (simp_all add: batch_ok_def)
  have "map cu_id ?m = keep_new {} (?F (map cu_id us0) @ map cu_id us @ ?F (map cu_id (rows_asked as)))"
    unfolding merge_updates_ids by (simp add: rows_ids [OF old] ids)
  also have "\<dots> = keep_new {} (?F (map cu_id us0)) @ keep_new (set (?F (map cu_id us0))) (map cu_id us)"
  proof -
    have "set (map cu_id (rows_asked as)) \<subseteq> set (map cu_id us0) \<union> set (added_ids as)" using rows by simp
    then have "set (?F (map cu_id (rows_asked as))) \<subseteq> set (?F (map cu_id us0)) \<union> set (map cu_id us)"
      unfolding ids set_filter set_append filter_append by blast
    then show ?thesis by (simp only: keep_new_append keep_new_none Un_empty_left append_Nil2)
  qed
  also have "\<dots> = ?F (map cu_id us0) @ ?F (added_ids as)"
  proof -
    have "keep_new {} (?F (map cu_id us0)) = ?F (map cu_id us0)"
      using d by (intro keep_new_id) auto
    moreover have "keep_new (set (?F (map cu_id us0))) (?F (map cu_id us0)) = []" by (rule keep_new_none) simp
    moreover have "keep_new (set (?F (map cu_id us0))) (?F (added_ids as)) = ?F (added_ids as)"
      using d by (intro keep_new_id) auto
    ultimately show ?thesis unfolding ids filter_append keep_new_append by simp
  qed
  finally have same: "map cu_id ?m = map cu_id us" by (simp add: ids)
  have row: "row_of_record m u" if m: "pick_update old us (rows_asked as) (cu_id u) = Some m" and u: "u \<in> set us" for m u
  proof (cases "last_of (rows_asked as) (cu_id u)")
    case (Some w)
    then show ?thesis using cont [OF u] m by (simp add: pick_update_def)
  next
    case None
    then have "u \<in> set us0" using cont [OF u] by simp
    then obtain j where j: "j < length us0" "us0 ! j = u" by (auto simp: in_set_conv_nth)
    have len: "length old = length us0" using old by (rule list_all2_lengthD)
    have r: "row_of_record (old ! j) u" using list_all2_nthD2 [OF old j(1)] j(2) by simp
    have "distinct (map cu_id old)" using d by (simp add: rows_ids [OF old])
    then have "last_of old (cu_id u) = Some (old ! j)"
      using last_of_distinct [of old "old ! j"] j len row_of_record_id [OF r] by simp
    then show ?thesis using m None r by (simp add: pick_update_def)
  qed
  show ?thesis
  proof (rule list_all2_all_nthI)
    show len: "length ?m = length us" using same by (metis length_map)
    fix n assume n: "n < length ?m"
    have "?m ! n \<in> set ?m" using n by simp
    then obtain j where "pick_update old us (rows_asked as) j = Some (?m ! n)"
      by (auto simp: merge_updates_def map_filter_def)
    moreover have "cu_id (?m ! n) = cu_id (us ! n)" using same n len by (metis nth_map)
    ultimately show "row_of_record (?m ! n) (us ! n)" using row pick_update_Some n len by (metis nth_mem)
  qed
qed

section \<open>The claims\<close>

text \<open>
  C5: the writes of a session are linearizable in every interleaving. The versions form one chain
  from the first to the current one; each link is one call, made from the version before it after the
  call began, and the call's answer is the answer of that link. A call that wrote is in the chain once,
  a call that failed or changed nothing did so on one version since it began, and one that gave up
  did so because at least twenty other writes went through meanwhile; none of these is in the chain.
\<close>

theorem write_path_linearizable:
  assumes "cas_reach (run_write parse show_uuid P) (fresh_input parse) v0 c"
  shows "let run = run_write parse show_uuid P; vs = cl_versions c; writes = cl_log c in
    vs ! 0 = v0 \<and> length vs = Suc (length writes) \<and> cell_value c = vs ! length writes \<and> distinct (map fst writes) \<and>
    (\<forall>k < length writes. \<exists>t e r. writes ! k = (t, e) \<and> t < length (cl_tasks c) \<and> cl_since c ! t \<le> k \<and>
       run (cl_ops c ! t) e (vs ! k) = Replaces (vs ! Suc k) r \<and> cl_tasks c ! t = Ended (Wrote r)) \<and>
    (\<forall>t < length (cl_tasks c). case cl_tasks c ! t of
       Ended (Wrote r) \<Rightarrow> t \<in> fst ` set writes
     | Ended Unchanged \<Rightarrow> t \<notin> fst ` set writes \<and>
         (\<exists>k e. cl_since c ! t \<le> k \<and> k \<le> length writes \<and> run (cl_ops c ! t) e (vs ! k) = No_Change)
     | Ended (Rejected m) \<Rightarrow> t \<notin> fst ` set writes \<and>
         (\<exists>k e. cl_since c ! t \<le> k \<and> k \<le> length writes \<and> run (cl_ops c ! t) e (vs ! k) = Rejects m)
     | Ended Contended \<Rightarrow> t \<notin> fst ` set writes \<and> cl_since c ! t + 20 \<le> length writes
     | _ \<Rightarrow> t \<notin> fst ` set writes)"
proof -
  let ?run = "run_write parse show_uuid P"
  have ok: "cell_ok ?run v0 c" by (rule cas_reach_ok [OF assms])
  note L = log_okD [OF cell_okD(1) [OF ok]] and R = cell_okD(3) [OF ok]
  have absent: "t \<notin> fst ` set (cl_log c)" if "\<forall>r. cl_tasks c ! t \<noteq> Ended (Wrote r)" for t
    using log_ok_writer [OF cell_okD(1) [OF ok]] that by fastforce
  have links: "\<exists>t e r. cl_log c ! k = (t, e) \<and> t < length (cl_tasks c) \<and> cl_since c ! t \<le> k \<and>
      ?run (cl_ops c ! t) e (cl_versions c ! k) = Replaces (cl_versions c ! Suc k) r \<and> cl_tasks c ! t = Ended (Wrote r)"
    if "k < length (cl_log c)" for k
    using L(6) [OF that] unfolding swap_at_def by blast
  have ends: "case cl_tasks c ! t of
       Ended (Wrote r) \<Rightarrow> t \<in> fst ` set (cl_log c)
     | Ended Unchanged \<Rightarrow> t \<notin> fst ` set (cl_log c) \<and>
         (\<exists>k e. cl_since c ! t \<le> k \<and> k \<le> length (cl_log c) \<and> ?run (cl_ops c ! t) e (cl_versions c ! k) = No_Change)
     | Ended (Rejected m) \<Rightarrow> t \<notin> fst ` set (cl_log c) \<and>
         (\<exists>k e. cl_since c ! t \<le> k \<and> k \<le> length (cl_log c) \<and> ?run (cl_ops c ! t) e (cl_versions c ! k) = Rejects m)
     | Ended Contended \<Rightarrow> t \<notin> fst ` set (cl_log c) \<and> cl_since c ! t + 20 \<le> length (cl_log c)
     | _ \<Rightarrow> t \<notin> fst ` set (cl_log c)" if t: "t < length (cl_tasks c)" for t
    using R [OF t] absent [of t] by (auto simp: max_cas_attempts_def split: write_phase.split write_outcome.split)
  show ?thesis
    unfolding Let_def cell_value_def using cell_okD(2) [OF ok] L(1,2,5) links ends by simp
qed

text \<open>Two writers load the same version; the second loses, loads again and writes.\<close>

definition demo_input :: write_input where
  "demo_input = \<lparr>wi_id = 40, wi_time = 7, wi_change = 41, wi_summary = 42, wi_summary_now = 7, wi_now = 8,
     wi_clock = (\<lambda>_. 9), wi_clocks = (\<lambda>_ _. 9), wi_merge_clocks = (\<lambda>_ _. 9), wi_order = []\<rparr>"

type_synonym demo_cell = "(unit session_write, write_input, edge_data list_graph active_session, write_answer) cell"

abbreviation demo_run where
  "demo_run \<equiv> run_write (\<lambda>_. Err ''no json'') hyphenated list_petgraph"

definition demo_note :: "unit session_write" where "demo_note = Write_Update False ''note'' None"
definition demo_forget :: "unit session_write" where "demo_forget = Forget_Update 1 20"

definition demo_writes :: "(unit session_write, write_input) cas_event list" where
  "demo_writes = [Called demo_note, Called demo_forget, Moved 0 demo_input, Moved 1 demo_input, Moved 1 demo_input,
     Moved 0 demo_input, Moved 0 demo_input, Moved 0 demo_input]"

definition demo_cell :: demo_cell where
  "demo_cell = cas_run demo_run demo_writes (new_cell demo_session)"

definition demo_v1 :: "edge_data list_graph active_session" where
  "demo_v1 = fst (retire_update 1 20 demo_session)"

definition demo_forgotten :: context_update where
  "demo_forgotten = the (snd (retire_update 1 20 demo_session))"

definition demo_added :: context_update where
  "demo_added = described_update 40 7 (cut_description ''note'')"

definition demo_with_note :: "edge_data list_graph active_session \<Rightarrow> edge_data list_graph active_session" where
  "demo_with_note s = add_incremental_update_fast 41 42 7 8 demo_added s"

lemma demo_forget_run:
  "demo_run demo_forget demo_input demo_session = Replaces demo_v1 (Was_Forgotten demo_forgotten)"
proof -
  have "snd (retire_update 1 20 demo_session) \<noteq> None" by code_simp
  then show ?thesis
    by (cases "retire_update 1 20 demo_session")
      (auto simp: demo_forget_def forget_update_def demo_v1_def demo_forgotten_def)
qed

lemma demo_note_run:
  "demo_run demo_note demo_input s = Replaces (demo_with_note s) (Added (hyphenated 40) demo_added)"
  by (simp add: demo_note_def write_update_def add_context_update_def demo_input_def demo_with_note_def demo_added_def
      described_update_def)

lemmas demo_run_simps = cas_run_def cas_call_def cas_move_def cas_load_def cas_swap_def cas_become_def cell_value_def
  max_cas_attempts_def new_cell_def

lemma demo_cell_eq:
  "demo_cell = \<lparr>cl_versions = [demo_session, demo_v1, demo_with_note demo_v1], cl_current = 2, cl_ops = [demo_note, demo_forget],
     cl_tasks = [Ended (Wrote (Added (hyphenated 40) demo_added)), Ended (Wrote (Was_Forgotten demo_forgotten))],
     cl_log = [(1, demo_input), (0, demo_input)], cl_since = [0, 0]\<rparr>"
  by (simp add: demo_cell_def demo_writes_def demo_run_simps demo_forget_run demo_note_run)

lemma demo_fresh:
  "fresh_input p demo_note demo_input demo_session" "fresh_input p demo_note demo_input demo_v1"
  "fresh_input p demo_forget demo_input s"
proof -
  have "record_ids demo_v1 = {1, 2}"
    using session_ok_retire(2) [OF session_reach_ok [OF entity_digraph_iff [OF lg.digraph_axioms] demo_session_reach]]
    by (simp add: demo_v1_def demo_session_ids)
  then show "fresh_input p demo_note demo_input demo_session" "fresh_input p demo_note demo_input demo_v1"
    "fresh_input p demo_forget demo_input s"
    by (simp_all add: demo_note_def demo_forget_def demo_input_def demo_session_ids)
qed

lemma demo_cell_reach: "cas_reach demo_run (fresh_input (\<lambda>_. Err ''no json'')) demo_session demo_cell"
  unfolding demo_cell_def
  by (rule run_reach [OF cas_reach.start])
    (simp add: demo_writes_def demo_run_simps demo_forget_run demo_note_run demo_fresh)

theorem write_path_linearizable_witness:
  "cl_tasks demo_cell ! 0 = Ended (Wrote (Added (hyphenated 40) demo_added)) \<and> 0 \<in> fst ` set (cl_log demo_cell) \<and>
   cell_value demo_cell = demo_with_note demo_v1"
  using write_path_linearizable [OF demo_cell_reach] by (simp add: Let_def demo_cell_eq)

text \<open>
  C33: a call of the write path ends after at most forty-one steps of its own, however the other calls
  are scheduled.
\<close>

theorem write_ends:
  assumes "cas_reach (run_write parse show_uuid P) (fresh_input parse) v0 c" and "t < length (cl_tasks c)"
    and "41 \<le> moves_of t evs"
  shows "\<exists>r. cl_tasks (cas_run (run_write parse show_uuid P) evs c) ! t = Ended r"
proof -
  have "phase_ok (run_write parse show_uuid P) c t (cl_since c ! t) (cl_tasks c ! t)"
    by (rule cell_okD(3) [OF cas_reach_ok [OF assms(1)] assms(2)])
  then have "steps_left (cl_tasks c ! t) \<le> 41" by (cases "cl_tasks c ! t") (auto simp: max_cas_attempts_def)
  then show ?thesis
    using run_steps_left [OF assms(2), of "run_write parse show_uuid P" evs] assms(3) by (simp add: steps_left_zero [symmetric])
qed

theorem write_ends_witness:
  "\<exists>r. cl_tasks (cas_run demo_run (replicate 41 (Moved 0 demo_input)) demo_cell) ! 0 = Ended r"
proof -
  have "moves_of 0 (replicate 41 (Moved 0 demo_input) :: (unit session_write, write_input) cas_event list) = 41"
    by (simp add: moves_of_def)
  then show ?thesis using write_ends [OF demo_cell_reach, of 0] by (simp add: demo_cell_eq)
qed



text \<open>
  C12: the rows follow the records. When what is stored agrees with one version of the session, its
  rows the records in their order, each as the caller sent it or as the session keeps it, then saving
  a later version with the rows and removals that the writes between them asked for makes the rows
  agree with that version.
\<close>

theorem saved_rows_follow:
  assumes "storage U parse_uuid K" and "digraph P valid" and "session_reach P v0"
    and "cas_reach (run_write parse show_uuid P) (fresh_input parse) v0 c" and "i \<le> k" and "k \<le> length (cl_log c)"
    and "store_ok K U db"
    and "list_all2 row_of_record (unwrap_or (stored_updates K U (session_id (cl_versions c ! k)) db) [])
      (as_incremental_updates (cl_versions c ! i))"
    and "adds_fresh (record_ids (cl_versions c ! i)) (drop i (take k (commits c)))"
  shows "let s = cl_versions c ! k; writes = drop i (take k (commits c));
      db' = fst (save_session_with_changes K U P list_ids s (session_id s) (rows_asked writes) (removals_asked writes) db) in
    \<exists>rows. stored_updates K U (session_id s) db' = Some rows \<and>
      list_all2 row_of_record rows (as_incremental_updates s) \<and>
      map cu_id rows = map cu_id (as_incremental_updates s)"
proof -
  note S = session_cell [OF entity_digraph_iff [OF assms(2)]] and v0 = session_reach_ok [OF entity_digraph_iff [OF assms(2)] assms(3)]
  note V = answered_cell.versions_refine [OF S assms(4) _ v0]
  let ?s = "cl_versions c ! k" and ?us = "as_incremental_updates (cl_versions c ! i)" and ?as = "drop i (take k (commits c))"
  have len: "length (commits c) = length (cl_log c)" by (rule commits_nth(1) [OF cell_okD(1) [OF cas_reach_ok [OF assms(4)]]])
  have split: "take (i + n) (commits c) = take i (commits c) @ take n ?as" if "n \<le> k - i" for n
    using that assms(5) by (simp add: take_add drop_take min_def)
  have upd: "as_incremental_updates (cl_versions c ! (i + n)) = fold record_step (take n ?as) ?us" if "n \<le> k - i" for n
    using V [of "i + n"] V [of i] that assms(5,6) by (simp add: split)
  have fits: "answer_fits (?as ! n) (fold record_step (take n ?as) ?us)" if "n < length ?as" for n
    using answered_cell.commits_fit [OF S assms(4) _ v0, of "i + n"] upd [of n] that len assms(6) by simp
  have "distinct (map cu_id ?us)"
    using V [of i] assms(5,6) session_okD(1) by (fastforce simp: hot_of_session_def)
  then have "batch_ok ?us ?as (fold record_step ?as ?us)"
    using assms(9) fits by (intro batch_ok_fold) (simp_all add: record_ids_def)
  moreover have "as_incremental_updates ?s = fold record_step ?as ?us"
    using upd [of "k - i"] assms(5) by simp
  ultimately have m: "list_all2 row_of_record (merge_updates (unwrap_or (stored_updates K U (session_id ?s) db) [])
      (as_incremental_updates ?s) (rows_asked ?as) (removals_asked ?as)) (as_incremental_updates ?s)"
    using batch_merges [OF _ assms(8)] by simp
  show ?thesis
    unfolding Let_def storage.save_leaves(3) [OF assms(1,7)] using m rows_ids [OF m] by simp
qed

theorem saved_rows_follow_witness:
  "\<exists>rows. stored_updates stored_codec hyphenated 5
      (fst (save_session_with_changes stored_codec hyphenated list_petgraph (\<lambda>_. []) (cell_value demo_cell) 5
        [demo_forgotten, demo_added] [] demo_store)) = Some rows \<and> map cu_id rows = map cu_id (as_incremental_updates (cell_value demo_cell))"
proof -
  have c: "commits demo_cell = [Was_Forgotten demo_forgotten, Added (hyphenated 40) demo_added]"
    by (simp add: commits_def demo_cell_eq)
  have v: "cell_value demo_cell = cl_versions demo_cell ! 2" "cl_versions demo_cell ! 0 = demo_session" "2 \<le> length (cl_log demo_cell)"
    by (simp_all add: demo_cell_eq cell_value_def)
  have i: "session_id (cl_versions demo_cell ! 2) = 5"
    using demo_session_id by (simp add: demo_cell_eq demo_with_note_def add_incremental_update_fast_def Let_def finish_update_fields
        session_id_def demo_v1_def retire_other_fields)
  have d: "distinct (map cu_id (as_incremental_updates demo_session))" by code_simp
  have st: "stored_updates stored_codec hyphenated 5 demo_store = Some (as_incremental_updates demo_session)"
    using st.save_leaves(3) [OF store_ok_empty, where s = demo_session and P = list_petgraph and list_ids = "\<lambda>_. []" and us = "[]"
        and removed = "[]"]
      merge_updates_extend [of "[]" "as_incremental_updates demo_session"] d
    by (simp add: demo_store_eq demo_session_id stored_updates_def [of _ _ _ "[]"] stored_index_def)
  have fresh: "adds_fresh (record_ids demo_session) (commits demo_cell)"
    by (simp add: c demo_session_ids demo_added_def described_update_def)
  have rows: "list_all2 row_of_record us us" for us by (rule list_all2_refl) (simp add: row_of_record_def)
  show ?thesis
    using saved_rows_follow [OF st.storage_axioms lg.digraph_axioms demo_session_reach demo_cell_reach, of 0 2 demo_store "\<lambda>_. []"]
      demo_store_ok fresh rows
    by (simp add: v i st c Let_def rows_asked_def removals_asked_def) blast
qed

text \<open>
  The row of a new record is what the caller sent, not what the session keeps of it: a title over the
  limit is cut in memory and whole in the store, so it is whole again after the next load.
\<close>

lemma long_title_stored_whole:
  assumes "str_len (uc_title (cu_content u)) > 200"
  shows "rows_asked [Added uid u] = [u]" and "limit_update u \<noteq> u"
proof -
  show "rows_asked [Added uid u] = [u]" by (simp add: rows_asked_def)
  have "str_len (take_bytes n s) \<le> n" for n s
    by (induction n s rule: take_bytes.induct) (auto simp: Let_def)
  then have "str_len (truncate_safe 190 (uc_title (cu_content u))) \<le> 190" by (simp add: truncate_safe_def)
  then have "str_len (truncate_safe 190 (uc_title (cu_content u)) @ ''...'') \<le> 200" by simp
  then have "uc_title (cu_content u) \<noteq> truncate_safe 190 (uc_title (cu_content u)) @ ''...''"
    using assms by (metis not_less)
  then have "uc_title (cu_content (limit_update u)) \<noteq> uc_title (cu_content u)"
    using assms by (simp add: limit_update_def limit_content_def Let_def)
  then show "limit_update u \<noteq> u" by metis
qed

end
