(* ===== verification/Memory_Service_Props.thy ===== *)
theory Memory_Service_Props
  imports Memory_Service Write_Path_Props Message_Store_Props Card_Store_Props
begin

text \<open>
  What the service promises of a write: which requests are accepted, what an accepted one leaves in the
  session and its graph, that a batch is checked as a whole, and that redaction rewrites every name the
  same way wherever it stands.
\<close>

section \<open>The requests that are accepted\<close>

definition relation_declared :: "string set \<Rightarrow> entity_relationship \<Rightarrow> bool" where
  "relation_declared names r \<longleftrightarrow>
     er_from_entity r \<noteq> [] \<and> er_to_entity r \<noteq> [] \<and> er_from_entity r \<noteq> er_to_entity r \<and>
     trim (er_context r) \<noteq> [] \<and> {er_from_entity r, er_to_entity r} \<subseteq> names"

definition well_formed_request :: "update_request \<Rightarrow> bool" where
  "well_formed_request req \<longleftrightarrow>
     (trim (uc_title (ur_content req)) \<noteq> [] \<or> trim (uc_description (ur_content req)) \<noteq> []) \<and>
     ur_entities req \<noteq> [] \<and> ur_relations req \<noteq> [] \<and>
     (\<forall>r \<in> set (ur_relations req). relation_declared (ed_name ` set (ur_entities req)) r)"

text \<open>The messages a session holds, by position.\<close>

definition names_message :: "nat set \<Rightarrow> string \<Rightarrow> bool" where
  "names_message seqs i \<longleftrightarrow> CHR ''#'' \<notin> set i \<and> (case seq_of_content_id i of Some n \<Rightarrow> n \<in> seqs | None \<Rightarrow> False)"

definition meta_accepted :: "uuid set \<Rightarrow> update_meta \<Rightarrow> bool" where
  "meta_accepted known meta \<longleftrightarrow>
     (case um_confidence meta of Some c \<Rightarrow> 0 \<le> c \<and> c \<le> 1 | None \<Rightarrow> True) \<and>
     um_retired_at meta = None \<and> set (um_supersedes meta) \<subseteq> known"

lemma check_relation_Ok [simp]: "check_relation names i r = Inr () \<longleftrightarrow> relation_declared names r"
  by (auto simp: check_relation_def relation_declared_def Let_def invalid_def)

lemma check_relations_Ok [simp]:
  "check_relations names i rs = Inr () \<longleftrightarrow> (\<forall>r \<in> set rs. relation_declared names r)"
  by (induction rs arbitrary: i) (auto simp: res_bind_Ok)

lemma validate_Ok: "validate_update_request req = Inr () \<longleftrightarrow> well_formed_request req"
  by (auto simp: validate_update_request_def well_formed_request_def invalid_def)

lemma derived_seqs_length: "derived_seqs is = Inr seqs \<Longrightarrow> length seqs = length is"
  by (induction "is" arbitrary: seqs) (auto simp: invalid_def res_bind_def split: option.splits sum.splits if_splits)

lemma derived_seqs_cases:
  assumes "derived_seqs is = Inr seqs"
  shows "(\<forall>i \<in> set is. names_message S i) \<longleftrightarrow> set seqs \<subseteq> S"
  using assms
proof (induction "is" arbitrary: seqs)
  case (Cons i "is")
  from Cons.prems obtain n ns where "seqs = n # ns" "derived_seqs is = Inr ns" "seq_of_content_id i = Some n" "CHR ''#'' \<notin> set i"
    by (auto simp: invalid_def res_bind_def split: option.splits sum.splits if_splits)
  then show ?case using Cons.IH [of ns] by (simp add: names_message_def)
qed simp

lemma derived_seqs_Err:
  assumes "derived_seqs is = Inl e"
  shows "\<not> (\<forall>i \<in> set is. names_message S i)"
  using assms
  by (induction "is") (auto simp: names_message_def invalid_def res_bind_def split: option.splits sum.splits if_splits)

lemma find_outside: "List.find (\<lambda>i. i \<notin> S) is = None \<longleftrightarrow> set is \<subseteq> S"
  by (auto simp: find_None_iff)

context storage
begin

lemma stream_position_bound:
  assumes "messages_ok K U db" and "m \<in> set (message_stream K U i db)"
  shows "ms_seq m + 1 < 2 ^ 64"
proof -
  have "message_at K U i db (ms_seq m) = Some m" using stream_entries(1) [OF assms(1)] assms(2) by blast
  moreover obtain n where "n < 2 ^ 64" "\<And>k m. message_at K U i db k = Some m \<Longrightarrow> k < n"
    using assms(1) unfolding messages_ok_def stream_ok_def by blast
  ultimately show ?thesis by (metis Suc_eq_plus1 Suc_leI le_less_trans)
qed

lemma check_derived_Ok:
  fixes db :: "'v db"
  assumes ok: "messages_ok K U db"
  shows "check_derived_from K U show_store db req = Inr () \<longleftrightarrow>
    (\<forall>i \<in> set (ur_derived_from req). names_message (ms_seq ` set (message_stream K U (ur_session_id req) db)) i)"
proof (cases "ur_derived_from req = []")
  case True
  then show ?thesis by (simp add: check_derived_from_def)
next
  case False
  let ?ms = "message_stream K U (ur_session_id req) db" and ?is = "ur_derived_from req"
  show ?thesis
  proof (cases "derived_seqs ?is")
    case (Inl e)
    then show ?thesis using derived_seqs_Err [OF Inl] False by (simp add: check_derived_from_def res_bind_def)
  next
    case (Inr seqs)
    let ?lo = "Min (set seqs)" and ?hi = "(Max (set seqs) + 1) mod 2 ^ 64"
    have "length seqs = length ?is" using Inr by (rule derived_seqs_length)
    then have ne: "seqs \<noteq> []" using False by auto
    have L: "load_messages K U (ur_session_id req) ?lo ?hi db =
        Inr (filter (\<lambda>m. ?lo \<le> ms_seq m \<and> ms_seq m < ?hi) ?ms)" (is "_ = Inr ?got")
      by (rule load_messages_eq [OF ok]) simp
    have "set seqs \<subseteq> ms_seq ` set ?ms \<Longrightarrow> n \<in> set seqs \<Longrightarrow> n \<in> ms_seq ` set ?got" for n
    proof -
      assume sub: "set seqs \<subseteq> ms_seq ` set ?ms" and n: "n \<in> set seqs"
      have "Max (set seqs) \<in> ms_seq ` set ?ms" using sub ne by (meson Max_in List.finite_set set_empty subsetD)
      then have "Max (set seqs) + 1 < 2 ^ 64" using stream_position_bound [OF ok] by auto
      then have hi: "?hi = Max (set seqs) + 1" by simp
      have "?lo \<le> n" "n < ?hi" using n unfolding hi by (simp_all add: less_Suc_eq_le)
      then show "n \<in> ms_seq ` set ?got" using sub n by auto
    qed
    then have "set seqs \<subseteq> ms_seq ` set ?got \<longleftrightarrow> set seqs \<subseteq> ms_seq ` set ?ms" by auto
    then show ?thesis
      using False L find_outside [of "ms_seq ` set ?got" seqs] unfolding derived_seqs_cases [OF Inr]
      by (auto simp: check_derived_from_def Inr res_bind_def invalid_def simp del: set_filter split: option.splits)
  qed
qed

end

lemma check_meta_Ok:
  "check_meta (Some s) req = Inr () \<longleftrightarrow> meta_accepted (record_ids s) (ur_meta req)"
  using find_outside [of "record_ids s" "um_supersedes (ur_meta req)"]
  by (auto simp: check_meta_def meta_accepted_def Let_def invalid_def record_ids_def [symmetric] simp del: find_None_iff2
      split: option.splits)

lemma check_update_Ok:
  assumes "storage U parse_uuid K" and "messages_ok K U db"
  shows "check_update K U show_store db (Some s) req = Inr () \<longleftrightarrow>
    well_formed_request req \<and>
    (\<forall>i \<in> set (ur_derived_from req). names_message (ms_seq ` set (message_stream K U (ur_session_id req) db)) i) \<and>
    meta_accepted (record_ids s) (ur_meta req)"
  using storage.check_derived_Ok [OF assms, of show_store req] check_meta_Ok [of s req] validate_Ok [of req]
  by (auto simp: check_update_def res_bind_Ok)

text \<open>
  C3: a request is accepted exactly when it has a text, entities and relations, every relation joins two
  different declared entities and says why, every source names a stored message of the session, its
  confidence lies in [0, 1], it is not born retired, and it supersedes only records of the session.
\<close>

theorem update_accepted_iff:
  assumes "storage U parse_uuid K" and "messages_ok K U db"
  shows "check_update K U show_store db (Some s) req = Ok () \<longleftrightarrow>
    well_formed_request req \<and>
    (\<forall>i \<in> set (ur_derived_from req). names_message (ms_seq ` set (message_stream K U (ur_session_id req) db)) i) \<and>
    meta_accepted (record_ids s) (ur_meta req)"
  by (rule check_update_Ok [OF assms])

section \<open>A small request for the witnesses\<close>

definition demo_entity :: "string \<Rightarrow> entity_data" where
  "demo_entity n =
     \<lparr>ed_name = n, ed_entity_type = Concept, ed_first_mentioned = 0, ed_last_mentioned = 0, ed_mention_count = 1,
      ed_importance_score = 1, ed_description = None, ed_aliases = []\<rparr>"

definition demo_request :: update_request where
  "demo_request =
     \<lparr>ur_session_id = 5, ur_interaction_type = ConceptDefined,
      ur_content = \<lparr>uc_title = ''Why two tables'', uc_description = ''ann@x.io asked'', uc_details = [], uc_examples = [],
        uc_implications = []\<rparr>,
      ur_entities = [demo_entity ''ann@x.io'', demo_entity ''tables''],
      ur_relations = [\<lparr>er_from_entity = ''ann@x.io'', er_to_entity = ''tables'', er_relation_type = RelatedTo,
        er_context = ''asked about them''\<rparr>],
      ur_code_reference = None, ur_author = Some ''ann'', ur_derived_from = [''message:1''],
      ur_meta = \<lparr>um_valid_from = None, um_supersedes = [2], um_confidence = Some (1 / 2), um_retired_at = None\<rparr>\<rparr>"

text \<open>An engine that knows two addresses.\<close>

fun demo_cut :: "string list \<Rightarrow> string \<Rightarrow> string \<Rightarrow> segment list" where
  "demo_cut ps acc [] = [Gap acc]"
| "demo_cut ps acc (c # cs) =
     (case List.find (\<lambda>p. starts_with p (c # cs)) ps of
        Some p \<Rightarrow> Gap acc # Hit p [] # [Gap (drop (length p) (c # cs))]
      | None \<Rightarrow> demo_cut ps (acc @ [c]) cs)"

definition demo_scan :: "string \<Rightarrow> scanner" where
  "demo_scan kind s = (if kind = ''email'' then demo_cut [''ann@x.io'', ''bob@x.io''] [] s else [Gap s])"

definition demo_redactor :: redactor where
  "demo_redactor = \<lparr>rd_enabled = True, rd_extra = []\<rparr>"

lemma demo_sources: "\<forall>i \<in> set [''message:1'']. names_message (ms_seq ` set (message_stream stored_codec hyphenated 5 demo_stream)) i"
proof -
  have "map ms_seq (message_stream stored_codec hyphenated 5 demo_stream) = [0, 1]" by code_simp
  then have "ms_seq ` set (message_stream stored_codec hyphenated 5 demo_stream) = {0, 1}"
    by (metis list.set(1,2) list.set_map)
  moreover have "seq_of_content_id ''message:1'' = Some 1" by code_simp
  ultimately show ?thesis by (simp add: names_message_def)
qed

theorem update_accepted_iff_witness:
  "check_update stored_codec hyphenated (\<lambda>_. ''store'') demo_stream (Some demo_session) demo_request = Ok ()"
proof -
  have "well_formed_request demo_request" by code_simp
  then show ?thesis
    using update_accepted_iff [OF st.storage_axioms demo_stream_ok, of "\<lambda>_. ''store''" demo_session demo_request] demo_sources
    by (simp add: demo_request_def meta_accepted_def demo_session_ids)
qed

abbreviation demo_check where
  "demo_check \<equiv> check_update stored_codec hyphenated (\<lambda>_. ''store'') demo_stream (Some demo_session)"

lemma demo_clean_accepted: "demo_check (clean_request demo_scan demo_redactor demo_request) = Inr ()"
proof -
  let ?r = "clean_request demo_scan demo_redactor demo_request"
  have "well_formed_request ?r" by code_simp
  moreover have "ur_derived_from ?r = [''message:1'']" "ur_session_id ?r = 5" "ur_meta ?r = ur_meta demo_request"
    by (simp_all add: clean_request_def demo_request_def Let_def)
  ultimately show ?thesis
    using demo_sources unfolding check_update_Ok [OF st.storage_axioms demo_stream_ok]
    by (simp add: demo_request_def meta_accepted_def demo_session_ids)
qed

section \<open>Redaction\<close>

text \<open>A request with every text replaced by its image.\<close>

definition map_texts :: "(string \<Rightarrow> string) \<Rightarrow> update_request \<Rightarrow> update_request" where
  "map_texts f req =
     req\<lparr>ur_content := (ur_content req)\<lparr>uc_title := f (uc_title (ur_content req)),
           uc_description := f (uc_description (ur_content req)), uc_details := map f (uc_details (ur_content req)),
           uc_examples := map f (uc_examples (ur_content req)), uc_implications := map f (uc_implications (ur_content req))\<rparr>,
         ur_entities := map (\<lambda>x. x\<lparr>ed_name := f (ed_name x)\<rparr>) (ur_entities req),
         ur_relations := map (\<lambda>r. r\<lparr>er_from_entity := f (er_from_entity r), er_to_entity := f (er_to_entity r),
           er_context := f (er_context r)\<rparr>) (ur_relations req),
         ur_code_reference := map_option (\<lambda>c. c\<lparr>cr_code_snippet := f (cr_code_snippet c),
           cr_change_description := f (cr_change_description c)\<rparr>) (ur_code_reference req)\<rparr>"



text \<open>
  Two names of one kind become the same text: a request that relates two addresses is well formed,
  and is refused, after redaction, as a relation of an entity with itself.
\<close>

definition demo_pair :: update_request where
  "demo_pair = demo_request\<lparr>ur_entities := [demo_entity ''ann@x.io'', demo_entity ''bob@x.io''],
     ur_relations := [\<lparr>er_from_entity = ''ann@x.io'', er_to_entity = ''bob@x.io'', er_relation_type = RelatedTo,
       er_context = ''work together''\<rparr>]\<rparr>"

lemma redaction_refuses_pair:
  "validate_update_request demo_pair = Ok () \<and>
   validate_update_request (fst (redact_request demo_scan demo_redactor demo_pair)) =
     invalid (Self_Relation 0 ''[REDACTED:email]'')"
  by code_simp

section \<open>What an accepted request leaves\<close>

lemma commit_alone_added:
  assumes G: "entity_digraph P valid" and ok: "session_ok P valid s" and new: "cu_id u \<notin> record_ids s"
  shows "\<exists>s'. commit_alone U P e d u wait s = (s', Ok \<lparr>co_entry_id = cu_id u, co_update = u, co_durable = wait\<rparr>) \<and>
    session_ok P valid s' \<and> as_incremental_updates s' = as_incremental_updates s @ [limit_update u] \<and>
    as_entity_graph s' = as_entity_graph s"
proof -
  let ?s = "add_incremental_update_fast (wi_change e) (wi_summary e) (wi_summary_now e) (wi_now e) u s"
  have "commit_alone U P e d u wait s = (?s, Ok \<lparr>co_entry_id = cu_id u, co_update = u, co_durable = wait\<rparr>)"
    by (simp add: commit_alone_def write_update_def add_context_update_def)
  moreover have "session_ok P valid ?s" by (rule session_ok_add_fast [OF ok new])
  ultimately show ?thesis by (simp add: add_incremental_update_fast_def Let_def finish_update_fields)
qed

lemma updates_added:
  "as_incremental_updates s' = as_incremental_updates s @ us \<Longrightarrow> record_ids s' = record_ids s \<union> cu_id ` set us"
  by (simp add: record_ids_def image_Un)

text \<open>
  C4: a request that fails a check changes nothing and answers that error. An accepted one is one more
  record at the end of the session, cut to the limits, and the graph is as it was; the merge that
  follows knows every declared entity, holds every relation, and lists the record among the mentions
  of every entity.
\<close>

theorem accepted_update_lands:
  assumes "digraph P valid" and "session_reach P s" and "i \<notin> record_ids s"
  shows "let req = clean_request scan rd req0; u = build_context_update i now req;
      (s', answer) = update_context scan rd check (commit_alone U P e) i now req0 s
    in case check req of
         Inl er \<Rightarrow> s' = s \<and> answer = Err er
       | Inr _ \<Rightarrow> answer = Ok (i, ur_session_id req, True) \<and> session_ok P valid s' \<and>
           as_incremental_updates s' = as_incremental_updates s @ [limit_update u] \<and>
           as_entity_graph s' = as_entity_graph s \<and>
           (\<exists>s''. run_write from_json U P (Merge_Graph u) e' s' = Replaces s'' Graph_Merged \<and> session_ok P valid s'' \<and>
              (\<forall>x \<in> set (ur_entities req). \<exists>c. resolve (as_entity_graph s'') (ed_name x) = Some c \<and>
                 i \<in> set (unwrap_or (map_of (eg_entity_mentions (as_entity_graph s'')) c) [])) \<and>
              (\<forall>r \<in> set (ur_relations req). holds_relation P (as_entity_graph s'') r))"
proof (cases "check (clean_request scan rd req0)")
  case (Inl er)
  then show ?thesis by (simp add: Let_def update_context_def redact_request_clean)
next
  case (Inr y)
  note G = entity_digraph_iff [OF assms(1)]
  note ok = session_reach_ok [OF G assms(2)]
  let ?req = "clean_request scan rd req0"
  let ?u = "build_context_update i now ?req"
  have i: "cu_id ?u = i" by (simp add: build_context_update_def)
  obtain s' where c: "commit_alone U P e (build_description ?req) ?u True s =
        (s', Ok \<lparr>co_entry_id = i, co_update = ?u, co_durable = True\<rparr>)"
      "session_ok P valid s'" "as_incremental_updates s' = as_incremental_updates s @ [limit_update ?u]"
      "as_entity_graph s' = as_entity_graph s"
    using commit_alone_added [OF G ok, of ?u U e "build_description ?req" True] i assms(3) by auto
  let ?s = "update_entity_graph P (wi_clock e') ?u s'"
  have m: "run_write from_json U P (Merge_Graph ?u) e' s' = Replaces ?s Graph_Merged"
    by (simp add: merge_graph_def c(3) limit_update_def)
  have "i \<in> record_ids s'" using updates_added [OF c(3)] i by simp
  then have ok': "session_ok P valid ?s"
    using session_ok_graph_update [OF G c(2)] i by (simp add: update_entity_graph_def)
  let ?g = "as_entity_graph ?s"
  note A = entity_digraph.apply_update [OF G session_okD(2) [OF c(2)], of _ ?u, where clock = "wi_clock e'"]
  have g: "?g = apply_update P (wi_clock e') ?u (as_entity_graph s')" by (simp add: update_entity_graph_def)
  have typed: "cu_typed_entities ?u = map (\<lambda>x. \<lparr>te_name = ed_name x, te_entity_type = ed_entity_type x\<rparr>) (ur_entities ?req)"
    "cu_creates_entities ?u = map ed_name (ur_entities ?req)" "cu_creates_relationships ?u = ur_relations ?req"
    by (simp_all add: build_context_update_def)
  have "\<exists>c. resolve ?g (ed_name x) = Some c \<and> i \<in> set (unwrap_or (map_of (eg_entity_mentions ?g) c) [])"
    if x: "x \<in> set (ur_entities ?req)" for x
  proof -
    have "resolve ?g (ed_name x) \<noteq> None" unfolding g by (rule A(3)) (use x in \<open>auto simp: typed\<close>)
    then obtain c where r: "resolve ?g (ed_name x) = Some c" by blast
    have "ed_name x \<in> set (mentioned_names ?u)" using x by (auto simp: mentioned_names_def typed)
    then have "Some c \<in> resolve ?g ` set (mentioned_names ?u)" using r by (metis image_eqI)
    then have "map_of (eg_entity_mentions ?g) c = Some (add_id i (unwrap_or (map_of (eg_entity_mentions (as_entity_graph s')) c) []))"
      using A(5) [of c] unfolding g i by simp
    then show ?thesis using r by (auto simp: add_id_def)
  qed
  moreover have "holds_relation P ?g r" if "r \<in> set (ur_relations ?req)" for r
    unfolding g by (rule A(4)) (simp add: typed that)
  ultimately show ?thesis
    using Inr c m ok' by (simp add: Let_def update_context_def redact_request_clean)
qed

theorem accepted_update_lands_witness:
  "let (s', answer) = update_context demo_scan demo_redactor demo_check (commit_alone hyphenated list_petgraph demo_input) 40 9
      demo_request demo_session
   in answer = Ok (40, 5, True) \<and> map cu_id (as_incremental_updates s') = [1, 2, 40]"
proof -
  have i: "(40 :: uuid) \<notin> record_ids demo_session" "map cu_id (as_incremental_updates demo_session) = [1, 2]"
    by (simp add: demo_session_ids) code_simp
  have "ur_session_id (clean_request demo_scan demo_redactor demo_request) = 5"
    by (simp add: clean_request_def demo_request_def Let_def)
  then show ?thesis
    using accepted_update_lands [OF lg.digraph_axioms demo_session_reach i(1), where scan = demo_scan and rd = demo_redactor and
        ?req0.0 = demo_request and check = demo_check and U = hyphenated and e = demo_input and now = 9]
    by (auto simp: Let_def demo_clean_accepted i(2) build_context_update_def split: prod.splits)
qed

section \<open>Batches\<close>

lemma check_items_Ok:
  "check_items check sid k reqs = Inr () \<longleftrightarrow> (\<forall>req \<in> set reqs. ur_session_id req = sid \<and> check req = Inr ())"
proof (induction reqs arbitrary: k)
  case (Cons req reqs)
  then show ?case
    by (cases "check req") (auto simp: invalid_def res_bind_Ok at_item_def split: system_error.splits)
qed simp

lemma check_items_Err:
  "check_items check sid k reqs = Inl er \<Longrightarrow>
   \<exists>j < length reqs. (\<forall>req \<in> set (take j reqs). ur_session_id req = sid \<and> check req = Inr ()) \<and>
     Inl er = (if ur_session_id (reqs ! j) \<noteq> sid then invalid (Other_Session (k + j) (ur_session_id (reqs ! j)))
               else at_item (k + j) (check (reqs ! j)))"
proof (induction reqs arbitrary: k)
  case (Cons req reqs)
  show ?case
  proof (cases "ur_session_id req = sid \<and> check req = Inr ()")
    case True
    then have "check_items check sid (k + 1) reqs = Inl er" using Cons.prems by (simp add: at_item_def)
    from Cons.IH [OF this] obtain j where "j < length reqs"
        "\<forall>req \<in> set (take j reqs). ur_session_id req = sid \<and> check req = Inr ()"
        "Inl er = (if ur_session_id (reqs ! j) \<noteq> sid then invalid (Other_Session (k + 1 + j) (ur_session_id (reqs ! j)))
               else at_item (k + 1 + j) (check (reqs ! j)))" by blast
    then show ?thesis using True by (intro exI [of _ "Suc j"]) simp
  next
    case False
    then show ?thesis using Cons.prems
      by (intro exI [of _ 0]) (auto simp: invalid_def res_bind_Err at_item_def split: if_splits sum.splits system_error.splits)
  qed
qed simp

text \<open>The record of item \<open>k\<close>.\<close>

definition item_records :: "(nat \<Rightarrow> uuid \<times> datetime) \<Rightarrow> nat \<Rightarrow> update_request list \<Rightarrow> context_update list" where
  "item_records stamp k reqs =
     map2 (\<lambda>j req. build_context_update (fst (stamp j)) (snd (stamp j)) req) [k..<k + length reqs] reqs"

lemma item_records_simps [simp]:
  "item_records stamp k [] = []"
  "item_records stamp k (req # reqs) =
     build_context_update (fst (stamp k)) (snd (stamp k)) req # item_records stamp (Suc k) reqs"
  by (simp_all add: item_records_def upt_conv_Cons del: upt_Suc)

lemma write_items_alone:
  assumes G: "entity_digraph P valid"
  shows "session_ok P valid s \<Longrightarrow> distinct (map (\<lambda>j. fst (stamp j)) [k..<k + length reqs]) \<Longrightarrow>
    (\<forall>j \<in> {k..<k + length reqs}. fst (stamp j) \<notin> record_ids s) \<Longrightarrow>
    \<exists>s'. write_items (commit_alone U P e) stamp lst k reqs ids d s =
        (s', Ok (ids @ map (\<lambda>j. fst (stamp j)) [k..<k + length reqs],
           if reqs = [] then d else (k + length reqs - 1 = lst))) \<and>
      session_ok P valid s' \<and> as_entity_graph s' = as_entity_graph s \<and>
      as_incremental_updates s' = as_incremental_updates s @ map limit_update (item_records stamp k reqs)"
proof (induction reqs arbitrary: k ids d s)
  case (Cons req reqs)
  let ?u = "build_context_update (fst (stamp k)) (snd (stamp k)) req"
  have id: "cu_id ?u = fst (stamp k)" by (simp add: build_context_update_def)
  have upt: "[k..<k + length (req # reqs)] = k # [Suc k..<Suc k + length reqs]" by (simp add: upt_rec)
  have "cu_id ?u \<notin> record_ids s" using Cons.prems(3) id by auto
  from commit_alone_added [OF G Cons.prems(1) this, of U e "build_description req" "k = lst"]
  obtain t where t: "commit_alone U P e (build_description req) ?u (k = lst) s =
        (t, Ok \<lparr>co_entry_id = fst (stamp k), co_update = ?u, co_durable = (k = lst)\<rparr>)"
      "session_ok P valid t" "as_incremental_updates t = as_incremental_updates s @ [limit_update ?u]"
      "as_entity_graph t = as_entity_graph s"
    using id by auto
  have d': "distinct (map (\<lambda>j. fst (stamp j)) [Suc k..<Suc k + length reqs])"
      "\<forall>j \<in> {Suc k..<Suc k + length reqs}. fst (stamp j) \<noteq> fst (stamp k)"
    using Cons.prems(2) unfolding upt by (auto simp: image_iff)
  have "\<forall>j \<in> {Suc k..<Suc k + length reqs}. fst (stamp j) \<notin> record_ids t"
    using Cons.prems(3) d'(2) updates_added [OF t(3)] id by auto
  from Cons.IH [OF t(2) d'(1) this, of "ids @ [fst (stamp k)]" "k = lst"] show ?case
    unfolding upt using t by (auto simp del: upt_Suc)
qed simp



text \<open>
  When the write path refuses an item in the middle, the items before it stay written and the answer
  names only the failure.
\<close>

lemma batch_stops_midway:
  assumes "\<And>d u w s. cu_id u \<noteq> bad \<Longrightarrow> commit d u w s = (s @ [cu_id u], Ok \<lparr>co_entry_id = cu_id u, co_update = u, co_durable = w\<rparr>)"
    and "\<And>d u w s. cu_id u = bad \<Longrightarrow> commit d u w s = (s, Err why)"
    and "fst (stamp 0) \<noteq> bad" and "fst (stamp 1) = bad" and "\<forall>r \<in> {a, b}. ur_session_id r = sid \<and> check (clean_request scan rd r) = Ok ()"
  shows "bulk_update_context scan rd check commit stamp sid [a, b] [] = ([fst (stamp 0)], Err (Internal_At 1 why))"
  using assms by (simp add: bulk_update_context_def redact_request_clean build_context_update_def clean_request_def Let_def at_item_def)


section \<open>Messages\<close>

definition clean_message :: "(string \<Rightarrow> scanner) \<Rightarrow> redactor \<Rightarrow> new_message \<Rightarrow> new_message" where
  "clean_message scan rd m = m\<lparr>nm_text := clean scan rd (nm_text m), nm_files := map (clean scan rd) (nm_files m)\<rparr>"

lemma redact_message_clean: "fst (redact_message scan rd m c) = clean_message scan rd m"
proof (cases "rd_enabled rd")
  case True
  then show ?thesis by (simp add: redact_message_def clean_message_def Let_def split_beta)
next
  case False
  then have "clean scan rd = (\<lambda>s. s)" by auto
  then show ?thesis using False by (simp add: redact_message_def clean_message_def)
qed

text \<open>The turns of a batch that can be stored, as they are stored.\<close>

definition storable :: "(string \<Rightarrow> scanner) \<Rightarrow> redactor \<Rightarrow> new_message list \<Rightarrow> new_message list" where
  "storable scan rd ms = map (clean_message scan rd) (filter (\<lambda>m. trim (nm_text m) \<noteq> []) ms)"

lemma empty_turn_iff: "empty_turn k ms = None \<longleftrightarrow> (\<forall>m \<in> set ms. trim (nm_turn_id m) \<noteq> [])"
  by (induction k ms rule: empty_turn.induct) simp_all

text \<open>
  C21: an append to a session that does not exist, or with a turn without an id, stores nothing.
  Otherwise the turns with a text that the session does not hold yet are stored redacted, at the
  end of its stream, under the next positions, which are the answer; the rest counts as skipped, and
  sending the same turns again skips them all.
\<close>

theorem turns_captured_once:
  assumes "storage U parse_uuid K" and "messages_ok K U db" and "next_seq K U sid db = Some n"
    and "n + length ms < 2 ^ 64"
  shows "let new = fresh_messages (nm_turn_id ` set (message_stream K U sid db)) (storable scan rd ms);
      append = service_append K U show_store scan rd known sid ms; (db', answer) = append db
    in if known \<and> (\<forall>m \<in> set ms. trim (nm_turn_id m) \<noteq> [])
       then message_stream K U sid db' = message_stream K U sid db @ number_messages sid n new \<and>
         answer = Ok \<lparr>aa_appended = [n..<n + length new], aa_skipped = length ms - length new\<rparr> \<and>
         (\<forall>j. j \<noteq> sid \<longrightarrow> message_stream K U j db' = message_stream K U j db) \<and>
         messages_ok K U db' \<and> append db' = (db', Ok \<lparr>aa_appended = [], aa_skipped = length ms\<rparr>)
       else db' = db \<and> (\<exists>e. answer = Err e)"
proof (cases "known \<and> (\<forall>m \<in> set ms. trim (nm_turn_id m) \<noteq> [])")
  case True
  then have "empty_turn 0 ms = None" by (simp add: empty_turn_iff)
  then have app: "service_append K U show_store scan rd True sid ms = (\<lambda>db.
      case append_messages K U sid (storable scan rd ms) db of
        (db', Inl e) \<Rightarrow> (db', Err (Internal_Error (show_store e)))
      | (db', Inr stored) \<Rightarrow> (db', Ok \<lparr>aa_appended = map ms_seq stored, aa_skipped = length ms - length stored\<rparr>))"
    using True by (simp add: service_append_def storable_def redact_message_clean fun_eq_iff Let_def)
  have "length (storable scan rd ms) \<le> length ms" by (simp add: storable_def)
  then have "n + length (storable scan rd ms) < 2 ^ 64" using assms(4) by linarith
  note A = storage.append_stream [OF assms(1-3) this]
  show ?thesis using True A(2,3) by (simp add: Let_def app A(1,6) A(5) number_messages_seqs)
next
  case False
  then show ?thesis
    using empty_turn_iff [of 0 ms] by (auto simp: Let_def service_append_def invalid_def split: option.splits)
qed

theorem turns_captured_once_witness:
  "snd (service_append stored_codec hyphenated (\<lambda>_. ''store'') demo_scan demo_redactor True 5 demo_messages []) =
     Ok \<lparr>aa_appended = [0, 1], aa_skipped = 1\<rparr>"
proof -
  let ?new = "fresh_messages (nm_turn_id ` set (message_stream stored_codec hyphenated 5 [])) (storable demo_scan demo_redactor demo_messages)"
  have n: "next_seq stored_codec hyphenated 5 [] = Some 0" "0 + length demo_messages < 2 ^ 64"
    "\<forall>m \<in> set demo_messages. trim (nm_turn_id m) \<noteq> []" "length demo_messages = 3"
    by (simp_all add: next_seq_def demo_messages_def trim_def) code_simp+
  have "length ?new = 2" by code_simp
  moreover have "[0..<2] = [0, 1 :: nat]" by (simp add: upt_rec)
  ultimately show ?thesis
    using turns_captured_once [OF st.storage_axioms messages_ok_empty n(1,2), of demo_scan demo_redactor "\<lambda>_. ''store''" True] n(3,4)
    by (simp add: Let_def split: prod.splits)
qed

end
