(* ===== verification/Graph_Views.thy ===== *)
theory Graph_Views
  imports Context_Assembly Temporal Session_Store Request_Params
begin

text \<open>
  \<open>post-cortex-memory/src/graph_views.rs\<close>: the read-only views over a scope, one session or the sessions of
  a workspace with their merged graph. Importance and communities come from the analytics and are
  arguments; \<open>keys\<close> and \<open>edge_keys\<close> are the iteration orders of the two hash maps of the index, given
  the keys in the order they were inserted. A description cut to 400 characters gets an ellipsis, which
  is beyond the characters of the model: a flag says so. Names of kinds are kept as the kinds. Rendering
  to JSON is left out.
\<close>

abbreviation description_chars :: nat where "description_chars \<equiv> 400"

text \<open>Ninety days in nanoseconds.\<close>

definition stale_after :: datetime where "stale_after = 90 * 86400 * 1000000000"

record 'g graph_scope =
  gs_sessions :: "'g active_session list"
  gs_graph :: "'g entity_graph"

record graph_node =
  gn_name :: string
  gn_entity_type :: entity_type
  gn_aliases :: "string list"
  gn_description :: "string option"
  gn_importance :: f32
  gn_mention_count :: u32
  gn_records :: nat
  gn_first_seen :: datetime
  gn_last_seen :: datetime
  gn_community :: "nat option"

record graph_edge =
  ge_from :: string
  ge_to :: string
  ge_relation_type :: relation_type
  ge_context :: string
  ge_weight :: f32
  ge_valid_from :: "datetime option"
  ge_valid_to :: "datetime option"
  ge_records :: "uuid list"

record record_view =
  rv_id :: uuid
  rv_session_id :: uuid
  rv_interaction_type :: update_type
  rv_title :: string
  rv_description :: string
  rv_cut :: bool
  rv_author :: "string option"
  rv_timestamp :: datetime
  rv_confidence :: "f32 option"
  rv_derived_from :: "string list"
  rv_file :: "string option"
  rv_validity :: validity

section \<open>The index\<close>

type_synonym relation_key = "string \<times> string \<times> relation_type"

record view_params =
  vp_importance :: "string \<rightharpoonup> f32"
  vp_communities :: "(string, nat) btree"
  vp_keys :: "uuid list \<Rightarrow> uuid list"
  vp_edge_keys :: "relation_key list \<Rightarrow> relation_key list"

record 'g view_index =
  ix_graph :: "'g entity_graph"
  ix_records :: "uuid \<rightharpoonup> uuid \<times> context_update"
  ix_keys :: "uuid list"
  ix_validity :: validity_map
  ix_edge_records :: "relation_key \<rightharpoonup> uuid list"
  ix_edge_keys :: "relation_key list"
  ix_importance :: "string \<rightharpoonup> f32"
  ix_communities :: "(string, nat) btree"

text \<open>A hash map with its keys in the order they came.\<close>

definition hm_insert :: "'k \<Rightarrow> 'v \<Rightarrow> ('k \<rightharpoonup> 'v) \<times> 'k list \<Rightarrow> ('k \<rightharpoonup> 'v) \<times> 'k list" where
  "hm_insert k v hm = ((fst hm)(k \<mapsto> v), if fst hm k = None then snd hm @ [k] else snd hm)"

definition scope_records :: "'g active_session list \<Rightarrow> (uuid \<rightharpoonup> uuid \<times> context_update) \<times> uuid list" where
  "scope_records ss =
     fold (\<lambda>s. fold (\<lambda>u. hm_insert (cu_id u) (session_id s, u)) (as_incremental_updates s)) ss (Map.empty, [])"

definition relation_key_of :: "'g entity_graph \<Rightarrow> entity_relationship \<Rightarrow> relation_key" where
  "relation_key_of g r =
     (unwrap_or (resolve g (er_from_entity r)) (er_from_entity r),
      unwrap_or (resolve g (er_to_entity r)) (er_to_entity r), er_relation_type r)"

definition note_edge ::
  "'g entity_graph \<Rightarrow> context_update \<Rightarrow> entity_relationship \<Rightarrow> (relation_key \<rightharpoonup> uuid list) \<times> relation_key list \<Rightarrow>
   (relation_key \<rightharpoonup> uuid list) \<times> relation_key list" where
  "note_edge g u r hm =
     (let key = relation_key_of g r; ids = unwrap_or (fst hm key) []
      in hm_insert key (if ids \<noteq> [] \<and> last ids = cu_id u then ids else ids @ [cu_id u]) hm)"

definition edge_index :: "'g entity_graph \<Rightarrow> context_update list \<Rightarrow> (relation_key \<rightharpoonup> uuid list) \<times> relation_key list" where
  "edge_index g us =
     fold (\<lambda>u. fold (note_edge g u) (cu_creates_relationships u)) us (Map.empty, [])"

definition view_index_of :: "view_params \<Rightarrow> 'g graph_scope \<Rightarrow> 'g view_index" where
  "view_index_of V sc =
     (let g = gs_graph sc; (records, found) = scope_records (gs_sessions sc); keys = vp_keys V found;
          updates = map (\<lambda>k. snd (the (records k))) keys;
          (edges, edge_found) = edge_index g (sort_key (\<lambda>u. (cu_timestamp u, cu_id u)) updates)
      in \<lparr>ix_graph = g, ix_records = records, ix_keys = keys, ix_validity = validity_of updates g,
          ix_edge_records = edges, ix_edge_keys = vp_edge_keys V edge_found,
          ix_importance = vp_importance V, ix_communities = vp_communities V\<rparr>)"

definition entity_in_index :: "'g view_index \<Rightarrow> string \<Rightarrow> entity_data option" where
  "entity_in_index ix name =
     (let g = ix_graph ix;
          found = (case resolve g name of
              Some n \<Rightarrow> Some n
            | None \<Rightarrow> List.find (\<lambda>k. str_lower k = str_lower name) (map fst (eg_entities g)))
      in Option.bind found (\<lambda>n. map_of (eg_entities g) n))"

definition mentions_of :: "'g entity_graph \<Rightarrow> string \<Rightarrow> uuid list" where
  "mentions_of g name = unwrap_or (map_of (eg_entity_mentions g) name) []"

definition index_node :: "'g view_index \<Rightarrow> entity_data \<Rightarrow> graph_node" where
  "index_node ix e =
     \<lparr>gn_name = ed_name e, gn_entity_type = ed_entity_type e, gn_aliases = ed_aliases e, gn_description = ed_description e,
      gn_importance = unwrap_or (ix_importance ix (ed_name e)) 0, gn_mention_count = ed_mention_count e,
      gn_records = length (filter (\<lambda>i. ix_records ix i \<noteq> None) (mentions_of (ix_graph ix) (ed_name e))),
      gn_first_seen = ed_first_mentioned e, gn_last_seen = ed_last_mentioned e,
      gn_community = map_of (ix_communities ix) (ed_name e)\<rparr>"

definition least :: "datetime list \<Rightarrow> datetime option" where
  "least ts = (if ts = [] then None else Some (Min (set ts)))"

definition latest :: "datetime list \<Rightarrow> datetime option" where
  "latest ts = (if ts = [] then None else Some (Max (set ts)))"

definition edge_validity :: "'g view_index \<Rightarrow> uuid list \<Rightarrow> datetime option \<times> datetime option" where
  "edge_validity ix ids =
     (let vs = List.map_filter (ix_validity ix) ids
      in (least (map va_valid_from vs),
          if list_ex is_current vs then None else latest (List.map_filter va_valid_to vs)))"

definition index_edge :: "'g view_index \<Rightarrow> entity_relationship \<Rightarrow> graph_edge" where
  "index_edge ix r =
     (let ids = unwrap_or (ix_edge_records ix (er_from_entity r, er_to_entity r, er_relation_type r)) [];
          (from', to') = edge_validity ix ids
      in \<lparr>ge_from = er_from_entity r, ge_to = er_to_entity r, ge_relation_type = er_relation_type r,
          ge_context = er_context r, ge_weight = relation_weight (er_relation_type r),
          ge_valid_from = from', ge_valid_to = to', ge_records = ids\<rparr>)"

definition sort_edges :: "graph_edge list \<Rightarrow> graph_edge list" where
  "sort_edges = sort_key (\<lambda>e. (ge_from e, ge_to e, ge_relation_type e))"

definition sort_by_importance :: "graph_node list \<Rightarrow> graph_node list" where
  "sort_by_importance = sort_key (\<lambda>n. (- gn_importance n, gn_name n))"

definition relations_of_entity :: "'g pg \<Rightarrow> 'g view_index \<Rightarrow> string \<Rightarrow> graph_edge list" where
  "relations_of_entity P ix name = sort_edges (map (index_edge ix) (relationships_of P (ix_graph ix) name))"

definition index_record :: "'g view_index \<Rightarrow> uuid \<Rightarrow> record_view option" where
  "index_record ix i =
     Option.bind (ix_records ix i) (\<lambda>(sid, u).
     Option.bind (ix_validity ix i) (\<lambda>v.
       Some (let d = uc_description (cu_content u) in
         \<lparr>rv_id = i, rv_session_id = sid, rv_interaction_type = cu_update_type u, rv_title = uc_title (cu_content u),
          rv_description = take description_chars d, rv_cut = (str_len (take description_chars d) < str_len d),
          rv_author = cu_author u, rv_timestamp = cu_timestamp u, rv_confidence = um_confidence (cu_meta u),
          rv_derived_from = cu_derived_from u, rv_file = map_option cr_file_path (cu_related_code u),
          rv_validity = v\<rparr>)))"

definition mentioning :: "'g view_index \<Rightarrow> string \<Rightarrow> record_view list" where
  "mentioning ix name = List.map_filter (index_record ix) (mentions_of (ix_graph ix) name)"

definition newest_first :: "record_view list \<Rightarrow> record_view list" where
  "newest_first = sort_key (\<lambda>r. - rv_timestamp r)"

section \<open>Graph and entity\<close>

record graph_view =
  gv_nodes :: "graph_node list"
  gv_edges :: "graph_edge list"
  gv_total_nodes :: nat
  gv_total_edges :: nat
  gv_at :: "datetime option"

definition known_by :: "datetime option \<Rightarrow> datetime \<Rightarrow> bool" where
  "known_by at' t \<longleftrightarrow> (case at' of None \<Rightarrow> True | Some a \<Rightarrow> t \<le> a)"

definition view_graph :: "'g pg \<Rightarrow> view_params \<Rightarrow> 'g graph_scope \<Rightarrow> nat \<Rightarrow> datetime option \<Rightarrow> graph_view" where
  "view_graph P V sc limit at' =
     (let ix = view_index_of V sc; g = ix_graph ix;
          nodes = map (index_node ix) (filter (\<lambda>e. known_by at' (ed_first_mentioned e)) (map snd (eg_entities g)));
          shown = take limit (sort_by_importance nodes);
          edges = filter (\<lambda>e. case ge_valid_from e of None \<Rightarrow> True | Some f \<Rightarrow> known_by at' f)
            (map (index_edge ix) (relationships P g));
          names = gn_name ` set shown
      in \<lparr>gv_nodes = shown,
          gv_edges = sort_edges (filter (\<lambda>e. ge_from e \<in> names \<and> ge_to e \<in> names) edges),
          gv_total_nodes = length nodes, gv_total_edges = length edges, gv_at = at'\<rparr>)"

record entity_view =
  ev_entity :: graph_node
  ev_relations :: "graph_edge list"
  ev_records :: "record_view list"
  ev_decisions :: "record_view list"
  ev_total_records :: nat

definition ended_last :: "record_view list \<Rightarrow> record_view list" where
  "ended_last = sort_key (\<lambda>r. \<not> is_current (rv_validity r))"

definition view_entity :: "'g pg \<Rightarrow> view_params \<Rightarrow> 'g graph_scope \<Rightarrow> string \<Rightarrow> nat \<Rightarrow> entity_view option" where
  "view_entity P V sc name limit =
     (let ix = view_index_of V sc in
      map_option (\<lambda>e.
        let records = newest_first (mentioning ix (ed_name e))
        in \<lparr>ev_entity = index_node ix e, ev_relations = relations_of_entity P ix (ed_name e), ev_records = take limit records,
            ev_decisions = take limit (ended_last (filter (\<lambda>r. rv_interaction_type r = DecisionMade) records)),
            ev_total_records = length records\<rparr>)
        (entity_in_index ix name))"

section \<open>Impact\<close>

record impact_item =
  ii_entity :: string
  ii_entity_type :: "entity_type option"
  ii_via :: string
  ii_relation_type :: relation_type
  ii_context :: string
  ii_depth :: nat

text \<open>One entry of a hop: the names seen, the next frontier, the items.\<close>

definition impact_one ::
  "'g entity_graph \<Rightarrow> nat \<Rightarrow> impact_entry \<Rightarrow> string set \<times> string list \<times> impact_item list \<Rightarrow>
   string set \<times> string list \<times> impact_item list" where
  "impact_one g hop i st =
     (let (seen, next, items) = st in
      if ie_entity i \<in> seen then st
      else (insert (ie_entity i) seen, next @ [ie_entity i],
            items @ [\<lparr>ii_entity = ie_entity i,
                      ii_entity_type = map_option ed_entity_type (map_of (eg_entities g) (ie_entity i)),
                      ii_via = ie_depends_on i, ii_relation_type = ie_relation_type i, ii_context = ie_context i,
                      ii_depth = hop\<rparr>]))"

fun impact_hops ::
  "'g pg \<Rightarrow> 'g entity_graph \<Rightarrow> nat list \<Rightarrow> string set \<Rightarrow> string list \<Rightarrow> impact_item list \<Rightarrow> impact_item list" where
  "impact_hops P g [] seen frontier items = items"
| "impact_hops P g (hop # later) seen frontier items =
     (let (seen, next, items) = fold (impact_one g hop) (analyze_impact P frontier g) (seen, [], items)
      in if next = [] then items else impact_hops P g later seen (sort next) items)"

record impact_view =
  iv_entity :: string
  iv_dependents :: "impact_item list"
  iv_risks :: "record_view list"

definition risky :: "record_view \<Rightarrow> bool" where
  "risky r \<longleftrightarrow> is_current (rv_validity r) \<and> rv_interaction_type r \<in> {DecisionMade, RequirementAdded, ProblemSolved}"

fun list_once :: "uuid set \<Rightarrow> record_view list \<Rightarrow> record_view list" where
  "list_once listed [] = []"
| "list_once listed (r # rs) =
     (if risky r \<and> rv_id r \<notin> listed then r # list_once (insert (rv_id r) listed) rs else list_once listed rs)"

definition view_impact :: "'g pg \<Rightarrow> view_params \<Rightarrow> 'g graph_scope \<Rightarrow> string \<Rightarrow> nat \<Rightarrow> nat \<Rightarrow> impact_view option" where
  "view_impact P V sc name depth limit =
     (let ix = view_index_of V sc in
      map_option (\<lambda>e.
        let entity = ed_name e;
            dependents = impact_hops P (ix_graph ix) [1..<max depth 1 + 1] {entity} [entity] [];
            risks = list_once {} (concat (map (mentioning ix) (entity # map ii_entity dependents)))
        in \<lparr>iv_entity = entity, iv_dependents = dependents, iv_risks = take limit (newest_first risks)\<rparr>)
        (entity_in_index ix name))"

section \<open>Timeline\<close>

datatype timeline_kind = Recorded | Has_Ended | Relation_Added | Relation_Ended

fun kind_order :: "timeline_kind \<Rightarrow> nat" where
  "kind_order Has_Ended = 0"
| "kind_order Relation_Ended = 1"
| "kind_order Recorded = 2"
| "kind_order Relation_Added = 3"

record timeline_event =
  tl_at :: datetime
  tl_kind :: timeline_kind
  tl_record :: uuid
  tl_session_id :: uuid
  tl_title :: string
  tl_interaction_type :: update_type
  tl_relation :: "relation_key option"
  tl_reason :: "end_reason option"

definition timeline_entry ::
  "'g view_index \<Rightarrow> datetime \<Rightarrow> timeline_kind \<Rightarrow> uuid \<Rightarrow> relation_key option \<Rightarrow> end_reason option \<Rightarrow> timeline_event" where
  "timeline_entry ix t k i rel reason =
     (let (sid, u) = the (ix_records ix i) in
      \<lparr>tl_at = t, tl_kind = k, tl_record = i, tl_session_id = sid, tl_title = uc_title (cu_content u),
       tl_interaction_type = cu_update_type u, tl_relation = rel, tl_reason = reason\<rparr>)"

definition record_events :: "'g view_index \<Rightarrow> uuid \<Rightarrow> timeline_event list" where
  "record_events ix i =
     (let (sid, u) = the (ix_records ix i); v = the (ix_validity ix i)
      in timeline_entry ix (cu_timestamp u) Recorded i None None #
         (case va_valid_to v of Some t \<Rightarrow> [timeline_entry ix t Has_Ended i None (va_reason v)] | None \<Rightarrow> []))"

definition edge_events :: "'g view_index \<Rightarrow> relation_key \<Rightarrow> timeline_event list" where
  "edge_events ix key =
     (let ids = the (ix_edge_records ix key); (start, stop) = edge_validity ix ids
      in (case start of Some t \<Rightarrow> [timeline_entry ix t Relation_Added (hd ids) (Some key) None] | None \<Rightarrow> []) @
         (case stop of
            Some t \<Rightarrow> [timeline_entry ix t Relation_Ended (last ids) (Some key) (va_reason (the (ix_validity ix (last ids))))]
          | None \<Rightarrow> []))"

record timeline_view =
  tv_events :: "timeline_event list"
  tv_total :: nat

definition in_window :: "datetime option \<Rightarrow> datetime option \<Rightarrow> timeline_event \<Rightarrow> bool" where
  "in_window from' to' e \<longleftrightarrow>
     (case from' of None \<Rightarrow> True | Some f \<Rightarrow> f \<le> tl_at e) \<and> (case to' of None \<Rightarrow> True | Some t \<Rightarrow> tl_at e \<le> t)"

definition view_timeline ::
  "view_params \<Rightarrow> 'g graph_scope \<Rightarrow> datetime option \<Rightarrow> datetime option \<Rightarrow> nat \<Rightarrow> timeline_view" where
  "view_timeline V sc from' to' limit =
     (let ix = view_index_of V sc;
          events = concat (map (record_events ix) (ix_keys ix)) @ concat (map (edge_events ix) (ix_edge_keys ix));
          kept = sort_key (\<lambda>e. (tl_at e, kind_order (tl_kind e), tl_record e)) (filter (in_window from' to') events)
      in \<lparr>tv_events = drop (length kept - limit) kept, tv_total = length kept\<rparr>)"

section \<open>Topics\<close>

record topic_view =
  tp_id :: nat
  tp_size :: nat
  tp_central :: "graph_node list"
  tp_key_decisions :: "record_view list"
  tp_records :: nat
  tp_first :: "datetime option"
  tp_last :: "datetime option"

definition topic_members :: "(string, nat) btree \<Rightarrow> (nat, string list) btree" where
  "topic_members communities =
     fold (\<lambda>(name, c) members. bt_insert c (unwrap_or (map_of members c) [] @ [name]) members) communities []"

definition count_hit :: "'g view_index \<Rightarrow> uuid \<Rightarrow> (uuid \<rightharpoonup> nat) \<times> uuid list \<Rightarrow> (uuid \<rightharpoonup> nat) \<times> uuid list" where
  "count_hit ix i hits =
     (if ix_records ix i = None then hits else hm_insert i (unwrap_or (fst hits i) 0 + 1) hits)"

definition topic_of :: "view_params \<Rightarrow> 'g view_index \<Rightarrow> nat \<Rightarrow> nat \<times> string list \<Rightarrow> topic_view" where
  "topic_of V ix per_topic topic =
     (let (c, names) = topic; g = ix_graph ix;
          central = sort_by_importance (map (index_node ix) (List.map_filter (map_of (eg_entities g)) names));
          (hits, found) = fold (count_hit ix) (concat (map (mentions_of g) names)) (Map.empty, []);
          keys = vp_keys V found; times = map (\<lambda>i. cu_timestamp (snd (the (ix_records ix i)))) keys;
          decisions = List.map_filter (\<lambda>i. Option.bind (index_record ix i) (\<lambda>r.
              if rv_interaction_type r = DecisionMade \<and> is_current (rv_validity r) then Some (the (hits i), r) else None)) keys
      in \<lparr>tp_id = c, tp_size = length names, tp_central = take per_topic central,
          tp_key_decisions =
            map snd (take per_topic (sort_key (\<lambda>(n, r). (- int n, - rv_timestamp r)) decisions)),
          tp_records = length keys, tp_first = least times, tp_last = latest times\<rparr>)"

record topics_view =
  ts_topics :: "topic_view list"
  ts_unclustered :: nat

definition view_topics :: "view_params \<Rightarrow> 'g graph_scope \<Rightarrow> nat \<Rightarrow> nat \<Rightarrow> topics_view" where
  "view_topics V sc limit per_topic =
     (let ix = view_index_of V sc
      in \<lparr>ts_topics = map (topic_of V ix per_topic) (take limit (topic_members (ix_communities ix))),
          ts_unclustered = length (eg_entities (ix_graph ix)) - length (ix_communities ix)\<rparr>)"

section \<open>Lineage\<close>

definition causal :: "entity_relationship \<Rightarrow> bool" where
  "causal r \<longleftrightarrow> er_relation_type r \<in> {CausedBy, LeadsTo, Solves}"

definition other_end :: "string \<Rightarrow> entity_relationship \<Rightarrow> string" where
  "other_end current r = (if er_from_entity r = current then er_to_entity r else er_from_entity r)"

type_synonym lineage_state = "string list \<times> (string \<times> nat) list \<times> relation_key list"

definition lineage_one :: "string \<Rightarrow> nat \<Rightarrow> entity_relationship \<Rightarrow> lineage_state \<Rightarrow> lineage_state" where
  "lineage_one current far r st =
     (let (chain, queue, edges) = st;
          edges = insort_insert (er_from_entity r, er_to_entity r, er_relation_type r) edges;
          other = other_end current r
      in if other \<in> set chain then (chain, queue, edges)
         else (chain @ [other], queue @ [(other, Suc far)], edges))"

text \<open>One unit of fuel for each name taken from the queue.\<close>

fun lineage_loop :: "'g pg \<Rightarrow> 'g entity_graph \<Rightarrow> nat \<Rightarrow> nat \<Rightarrow> lineage_state \<Rightarrow> (string list \<times> relation_key list) option" where
  "lineage_loop P g depth fuel (chain, [], edges) = Some (chain, edges)"
| "lineage_loop P g depth 0 (chain, e # queue, edges) = None"
| "lineage_loop P g depth (Suc fuel) (chain, (current, far) # queue, edges) =
     (if max depth 1 \<le> far then lineage_loop P g depth fuel (chain, queue, edges)
      else lineage_loop P g depth fuel
        (fold (lineage_one current far) (filter causal (relationships_of P g current)) (chain, queue, edges)))"

record lineage_step =
  ls_record :: record_view
  ls_relation :: "relation_key option"

record lineage_view =
  lv_entity :: string
  lv_chain :: "string list"
  lv_steps :: "lineage_step list"

definition list_step ::
  "uuid \<Rightarrow> record_view option \<Rightarrow> relation_key option \<Rightarrow> uuid set \<times> lineage_step list \<Rightarrow> uuid set \<times> lineage_step list" where
  "list_step i r rel st =
     (let (listed, steps) = st in
      if i \<in> listed then st
      else (insert i listed, case r of Some v \<Rightarrow> steps @ [\<lparr>ls_record = v, ls_relation = rel\<rparr>] | None \<Rightarrow> steps))"

definition lineage_steps :: "'g view_index \<Rightarrow> string \<Rightarrow> relation_key list \<Rightarrow> lineage_step list" where
  "lineage_steps ix entity edges =
     (let st = fold (\<lambda>key. fold (\<lambda>i. list_step i (index_record ix i) (Some key)) (unwrap_or (ix_edge_records ix key) []))
            edges ({}, []);
          st = fold (\<lambda>r. if rv_interaction_type r \<in> {ProblemSolved, DecisionMade} then list_step (rv_id r) (Some r) None else id)
            (mentioning ix entity) st
      in sort_key (\<lambda>s. (rv_timestamp (ls_record s), rv_id (ls_record s))) (snd st))"

definition lineage_fuel :: "'g entity_graph \<Rightarrow> nat" where
  "lineage_fuel g = Suc (length (eg_entities g))"

text \<open>The outer option is the fuel, the inner one the entity.\<close>

definition view_lineage :: "'g pg \<Rightarrow> view_params \<Rightarrow> 'g graph_scope \<Rightarrow> string \<Rightarrow> nat \<Rightarrow> lineage_view option option" where
  "view_lineage P V sc name depth =
     (let ix = view_index_of V sc in
      case entity_in_index ix name of
        None \<Rightarrow> Some None
      | Some e \<Rightarrow>
          map_option (\<lambda>(chain, edges).
              Some \<lparr>lv_entity = ed_name e, lv_chain = chain, lv_steps = lineage_steps ix (ed_name e) edges\<rparr>)
            (lineage_loop P (ix_graph ix) depth (lineage_fuel (ix_graph ix)) ([ed_name e], [(ed_name e, 0)], [])))"

section \<open>Files\<close>

definition generic_stems :: "string list" where
  "generic_stems = [''main'', ''index'', ''init'', ''__init__'', ''test'', ''tests'', ''utils'', ''types'', ''README'']"

definition path_components :: "string \<Rightarrow> string list" where
  "path_components path =
     filter (\<lambda>c. c \<noteq> [] \<and> c \<noteq> ''.'') (split_by (\<lambda>c. c = CHR ''/'' \<or> c = CHR 0x5C) path)"

definition suffix_of :: "'a list \<Rightarrow> 'a list \<Rightarrow> bool" where
  "suffix_of xs ys \<longleftrightarrow> length xs \<le> length ys \<and> drop (length ys - length xs) ys = xs"

definition same_path :: "string list \<Rightarrow> string list \<Rightarrow> bool" where
  "same_path a b \<longleftrightarrow>
     (let (short, long) = (if length a \<le> length b then (a, b) else (b, a))
      in short \<noteq> [] \<and> suffix_of short long \<and> (1 < length short \<or> length a = length b))"

definition names_file :: "string \<Rightarrow> string \<Rightarrow> bool" where
  "names_file path n \<longleftrightarrow>
     (let wanted = path_components path; file_name = (if wanted = [] then [] else last wanted);
          stem = (case rsplit_once CHR ''.'' file_name of Some (s, ext) \<Rightarrow> s | None \<Rightarrow> file_name);
          stem_ok = (4 \<le> length stem \<and> stem \<notin> set generic_stems)
      in same_path (path_components n) wanted \<or> (file_name \<noteq> [] \<and> n = file_name) \<or>
         (stem_ok \<and> entity_key n = entity_key stem))"

record file_view =
  fv_path :: string
  fv_records :: "record_view list"
  fv_problems :: "record_view list"
  fv_decisions :: "record_view list"
  fv_entities :: "graph_node list"
  fv_dependents :: "impact_item list"

text \<open>The loop here stops when the frontier is empty, before the hop.\<close>

fun file_hops ::
  "'g pg \<Rightarrow> 'g entity_graph \<Rightarrow> nat list \<Rightarrow> string set \<Rightarrow> string list \<Rightarrow> impact_item list \<Rightarrow> impact_item list" where
  "file_hops P g [] seen frontier items = items"
| "file_hops P g (hop # later) seen frontier items =
     (if frontier = [] then items
      else let (seen, next, items) = fold (impact_one g hop) (analyze_impact P frontier g) (seen, [], items)
        in file_hops P g later seen (sort next) items)"

definition of_kinds :: "update_type set \<Rightarrow> bool \<Rightarrow> nat \<Rightarrow> record_view list \<Rightarrow> record_view list" where
  "of_kinds kinds current_only limit rs =
     take limit (ended_last (filter (\<lambda>r. rv_interaction_type r \<in> kinds \<and> (current_only \<longrightarrow> is_current (rv_validity r))) rs))"

definition view_file :: "'g pg \<Rightarrow> view_params \<Rightarrow> 'g graph_scope \<Rightarrow> string \<Rightarrow> nat \<Rightarrow> nat \<Rightarrow> file_view" where
  "view_file P V sc path depth limit =
     (let ix = view_index_of V sc; g = ix_graph ix; wanted = path_components path;
          entities = sort_key ed_name (filter (\<lambda>e. list_ex (names_file path) (ed_name e # ed_aliases e)) (map snd (eg_entities g)));
          refs = filter (\<lambda>i. case cu_related_code (snd (the (ix_records ix i))) of
              Some c \<Rightarrow> same_path (path_components (cr_file_path c)) wanted | None \<Rightarrow> False) (ix_keys ix);
          ids = remdups (refs @ concat (map (\<lambda>e. mentions_of g (ed_name e)) entities));
          records = sort_key (\<lambda>r. (- rv_timestamp r, rv_id r)) (List.map_filter (index_record ix) ids);
          names = map ed_name entities
      in \<lparr>fv_path = path, fv_records = take limit records,
          fv_problems = of_kinds {ProblemSolved} False limit records,
          fv_decisions = of_kinds {DecisionMade, RequirementAdded} True limit records,
          fv_entities = map (index_node ix) entities,
          fv_dependents = file_hops P g [1..<depth + 1] (set names) names []\<rparr>)"

section \<open>Radar\<close>

record alias_candidate =
  al_name :: string
  al_of :: string
  al_shared_records :: nat

definition candidate :: "'g entity_graph \<Rightarrow> string \<Rightarrow> string \<Rightarrow> alias_candidate" where
  "candidate g name other =
     \<lparr>al_name = name, al_of = other,
      al_shared_records = length (filter (\<lambda>i. i \<in> set (mentions_of g name)) (mentions_of g other))\<rparr>"

fun alias_scan :: "'g entity_graph \<Rightarrow> (string \<times> string) list \<Rightarrow> alias_candidate list" where
  "alias_scan g [] = []"
| "alias_scan g ((short, name) # rest) =
     (if length short < 4 then []
      else map (\<lambda>(long, other). candidate g name other)
        (filter (\<lambda>(long, other). long \<noteq> short) (takeWhile (\<lambda>(k, other). starts_with short k) rest))) @
     alias_scan g rest"

definition alias_candidates :: "'g entity_graph \<Rightarrow> nat \<Rightarrow> alias_candidate list" where
  "alias_candidates g limit =
     (let keyed = sort (map (\<lambda>n. (entity_key n, n)) (map fst (eg_entities g)))
      in take limit (sort_key (\<lambda>a. (- int (al_shared_records a), al_name a, al_of a)) (alias_scan g keyed)))"

record radar_view =
  ra_unsolved_problems :: "graph_node list"
  ra_decisions_without_rationale :: "record_view list"
  ra_open_questions :: "string list"
  ra_stale_entities :: "graph_node list"
  ra_alias_candidates :: "alias_candidate list"

definition view_radar :: "'g pg \<Rightarrow> view_params \<Rightarrow> 'g graph_scope \<Rightarrow> datetime \<Rightarrow> nat \<Rightarrow> radar_view" where
  "view_radar P V sc now limit =
     (let ix = view_index_of V sc; g = ix_graph ix; entities = map snd (eg_entities g);
          unsolved = filter (\<lambda>e. ed_entity_type e = Problem \<and>
            \<not> list_ex (\<lambda>r. er_relation_type r = Solves \<and> er_to_entity r = ed_name e) (relationships_of P g (ed_name e))) entities;
          bare = filter (\<lambda>i. let u = snd (the (ix_records ix i)) in
            cu_update_type u = DecisionMade \<and> trim (uc_description (cu_content u)) = [] \<and> uc_details (cu_content u) = []) (ix_keys ix);
          questions = concat (map (\<lambda>s. map qi_question
            (filter (\<lambda>q. qi_status q = Open_Question) (sc_open_questions (as_current_state s)))) (gs_sessions sc));
          stale = filter (\<lambda>e. ed_last_mentioned e < now - stale_after) entities
      in \<lparr>ra_unsolved_problems = take limit (sort_by_importance (map (index_node ix) unsolved)),
          ra_decisions_without_rationale =
            take limit (newest_first (filter (\<lambda>r. is_current (rv_validity r)) (List.map_filter (index_record ix) bare))),
          ra_open_questions = take limit questions,
          ra_stale_entities = take limit (sort_by_importance (map (index_node ix) stale)),
          ra_alias_candidates = alias_candidates g limit\<rparr>)"

section \<open>Requests\<close>

datatype view_request =
    Graph_View nat "datetime option"
  | Entity_View string nat
  | Impact_View string nat nat
  | Timeline_View "datetime option" "datetime option" nat
  | Topics_View nat nat
  | Lineage_View string nat
  | Radar_View nat
  | File_View string nat nat

abbreviation default_limit :: nat where "default_limit \<equiv> 100"
abbreviation max_limit :: nat where "max_limit \<equiv> 5000"

definition view_names :: "string list" where
  "view_names = [''graph'', ''entity'', ''impact'', ''timeline'', ''topics'', ''lineage'', ''radar'', ''file'']"

definition given :: "(string \<rightharpoonup> string) \<Rightarrow> string \<Rightarrow> string option" where
  "given params k =
     (case params k of None \<Rightarrow> None | Some v \<Rightarrow> if trim v = [] then None else Some (trim v))"

definition number_param :: "(string \<rightharpoonup> string) \<Rightarrow> string \<Rightarrow> nat \<Rightarrow> nat \<Rightarrow> (string, nat) result" where
  "number_param params k dflt most =
     (case given params k of
        None \<Rightarrow> Ok dflt
      | Some v \<Rightarrow>
          (case parse_u64 v of
             Some n \<Rightarrow> Ok (min (max n 1) most)
           | None \<Rightarrow> Err (k @ '' must be a positive integer, got '' @ quoted v)))"

definition parse_time :: "(string \<Rightarrow> datetime option) \<Rightarrow> (string \<Rightarrow> int option) \<Rightarrow> string \<Rightarrow> datetime option" where
  "parse_time rfc3339 day v =
     (case rfc3339 v of Some t \<Rightarrow> Some t | None \<Rightarrow> map_option (\<lambda>d. d * 86400 * 1000000000) (day v))"

definition time_param ::
  "(string \<Rightarrow> datetime option) \<Rightarrow> (string \<rightharpoonup> string) \<Rightarrow> string \<Rightarrow> (string, datetime option) result" where
  "time_param read params k =
     (case given params k of
        None \<Rightarrow> Ok None
      | Some v \<Rightarrow>
          (case read v of
             Some t \<Rightarrow> Ok (Some t)
           | None \<Rightarrow> Err (k @ '': not a date or RFC 3339 time: '' @ quoted v)))"

definition name_param :: "(string \<rightharpoonup> string) \<Rightarrow> string \<Rightarrow> (string, string) result" where
  "name_param params view =
     (case or_field (given params ''entity'') (given params ''entity_name'') of
        Some n \<Rightarrow> Ok n
      | None \<Rightarrow> Err (''view '' @ quoted view @ '' needs an '' @ quoted ''entity'' @ '' parameter''))"

definition parse_view ::
  "(string \<Rightarrow> datetime option) \<Rightarrow> string \<Rightarrow> (string \<rightharpoonup> string) \<Rightarrow> (string, view_request) result" where
  "parse_view read view params =
     (let number = number_param params; time = time_param read params; name = name_param params view
      in res_bind (number ''limit'' default_limit max_limit) (\<lambda>limit.
        if view = ''graph'' then res_bind (time ''at'') (\<lambda>a. Ok (Graph_View limit a))
        else if view = ''entity'' then res_bind name (\<lambda>n. Ok (Entity_View n limit))
        else if view = ''impact'' then
          res_bind name (\<lambda>n. res_bind (number ''depth'' 3 10) (\<lambda>d. Ok (Impact_View n d limit)))
        else if view = ''timeline'' then
          res_bind (time ''from'') (\<lambda>f. res_bind (time ''to'') (\<lambda>t. Ok (Timeline_View f t limit)))
        else if view = ''topics'' then res_bind (number ''per_topic'' 5 50) (\<lambda>n. Ok (Topics_View limit n))
        else if view = ''lineage'' then
          res_bind name (\<lambda>n. res_bind (number ''depth'' 3 10) (\<lambda>d. Ok (Lineage_View n d)))
        else if view = ''radar'' then Ok (Radar_View limit)
        else if view = ''file'' then
          (case given params ''path'' of
             None \<Rightarrow> Err (''view '' @ quoted ''file'' @ '' needs a '' @ quoted ''path'' @ '' parameter'')
           | Some p \<Rightarrow> res_bind (number ''depth'' 2 10) (\<lambda>d. res_bind (number ''limit'' 20 max_limit) (\<lambda>l. Ok (File_View p d l))))
        else Err (''unknown view '' @ quoted view @ ''; expected one of '' @ join_with '', '' view_names)))"

datatype view_answer =
    Graph_Answer graph_view
  | Entity_Answer entity_view
  | Impact_Answer impact_view
  | Timeline_Answer timeline_view
  | Topics_Answer topics_view
  | Lineage_Answer lineage_view
  | Radar_Answer radar_view
  | File_Answer file_view

text \<open>Rendering, up to the JSON: an error is the name that is not in the scope.\<close>

fun render_view ::
  "'g pg \<Rightarrow> view_params \<Rightarrow> 'g graph_scope \<Rightarrow> datetime \<Rightarrow> view_request \<Rightarrow> (string, view_answer) result option" where
  "render_view P V sc now (Graph_View limit a) = Some (Ok (Graph_Answer (view_graph P V sc limit a)))"
| "render_view P V sc now (Entity_View n limit) =
     Some (case view_entity P V sc n limit of Some v \<Rightarrow> Ok (Entity_Answer v) | None \<Rightarrow> Err n)"
| "render_view P V sc now (Impact_View n depth limit) =
     Some (case view_impact P V sc n depth limit of Some v \<Rightarrow> Ok (Impact_Answer v) | None \<Rightarrow> Err n)"
| "render_view P V sc now (Timeline_View f t limit) = Some (Ok (Timeline_Answer (view_timeline V sc f t limit)))"
| "render_view P V sc now (Topics_View limit per_topic) = Some (Ok (Topics_Answer (view_topics V sc limit per_topic)))"
| "render_view P V sc now (Lineage_View n depth) =
     map_option (\<lambda>v. case v of Some v \<Rightarrow> Ok (Lineage_Answer v) | None \<Rightarrow> Err n) (view_lineage P V sc n depth)"
| "render_view P V sc now (Radar_View limit) = Some (Ok (Radar_Answer (view_radar P V sc now limit)))"
| "render_view P V sc now (File_View p depth limit) = Some (Ok (File_Answer (view_file P V sc p depth limit)))"

end
