(* ===== verification/Graph_Views_Impact.thy ===== *)
theory Graph_Views_Impact
  imports Graph_Views Bfs Context_Assembly_Props Entity_Graph_Props
begin

text \<open>
  What the impact report shows: exactly what depends on an entity, each with its shortest distance, and
  the current records about any of it.
\<close>

section \<open>Impact\<close>

text \<open>What depends directly on an entity, as the relations are read.\<close>

definition direct_dependents :: "'g pg \<Rightarrow> 'g entity_graph \<Rightarrow> string \<Rightarrow> string set" where
  "direct_dependents P g u =
     {v. v \<noteq> u \<and> (\<exists>r \<in> set (relationships P g).
        is_dependency (er_relation_type r) \<and> er_from_entity r = v \<and> er_to_entity r = u \<or>
        er_relation_type r = RequiredBy \<and> er_from_entity r = u \<and> er_to_entity r = v)}"

lemma impact_fold:
  "\<exists>new. fold (impact_one g hop) is (seen, next, items) =
      (seen \<union> ie_entity ` set is, next @ map ii_entity new, items @ new) \<and>
    distinct (map ii_entity new) \<and> ii_entity ` set new = ie_entity ` set is - seen \<and>
    (\<forall>x \<in> set new. ii_depth x = hop \<and> (\<exists>i \<in> set is. (ii_entity x, ii_via x) = impact_pair i))"
proof (induction "is" arbitrary: seen "next" items)
  case (Cons i "is")
  show ?case
  proof (cases "ie_entity i \<in> seen")
    case True
    then have s: "impact_one g hop i (seen, next, items) = (seen, next, items)" by (simp add: impact_one_def)
    have u: "seen \<union> ie_entity ` set (i # is) = seen \<union> ie_entity ` set is"
      "ie_entity ` set (i # is) - seen = ie_entity ` set is - seen" using True by auto
    obtain new where new: "fold (impact_one g hop) is (seen, next, items) =
      (seen \<union> ie_entity ` set is, next @ map ii_entity new, items @ new)"
      "distinct (map ii_entity new)" "ii_entity ` set new = ie_entity ` set is - seen"
      "\<forall>x \<in> set new. ii_depth x = hop \<and> (\<exists>i \<in> set is. (ii_entity x, ii_via x) = impact_pair i)"
      using Cons.IH [of seen "next" items] by blast
    have "\<forall>x \<in> set new. ii_depth x = hop \<and> (\<exists>i \<in> set (i # is). (ii_entity x, ii_via x) = impact_pair i)"
      using new(4) by simp
    with new(1-3) show ?thesis unfolding u by (intro exI [of _ new]) (simp add: s)
  next
    case False
    let ?x = "\<lparr>ii_entity = ie_entity i, ii_entity_type = map_option ed_entity_type (map_of (eg_entities g) (ie_entity i)),
      ii_via = ie_depends_on i, ii_relation_type = ie_relation_type i, ii_context = ie_context i, ii_depth = hop\<rparr>"
    have s: "impact_one g hop i (seen, next, items) = (insert (ie_entity i) seen, next @ [ie_entity i], items @ [?x])"
      using False by (simp add: impact_one_def)
    obtain new where new: "fold (impact_one g hop) is (insert (ie_entity i) seen, next @ [ie_entity i], items @ [?x]) =
      (insert (ie_entity i) seen \<union> ie_entity ` set is, (next @ [ie_entity i]) @ map ii_entity new, (items @ [?x]) @ new)"
      "distinct (map ii_entity new)" "ii_entity ` set new = ie_entity ` set is - insert (ie_entity i) seen"
      "\<forall>x \<in> set new. ii_depth x = hop \<and> (\<exists>i \<in> set is. (ii_entity x, ii_via x) = impact_pair i)"
      using Cons.IH [of "insert (ie_entity i) seen" "next @ [ie_entity i]" "items @ [?x]"] by blast
    have n: "distinct (map ii_entity (?x # new))" using new(2,3) by auto
    have e: "ii_entity ` set (?x # new) = ie_entity ` set (i # is) - seen" using new(3) False by auto
    have "fold (impact_one g hop) (i # is) (seen, next, items) =
        (seen \<union> ie_entity ` set (i # is), next @ map ii_entity (?x # new), items @ ?x # new)"
      using new(1) by (simp add: s)
    moreover have "\<forall>x \<in> set (?x # new). ii_depth x = hop \<and> (\<exists>i \<in> set (i # is). (ii_entity x, ii_via x) = impact_pair i)"
      using new(4) by simp
    ultimately show ?thesis using n e by blast
  qed
qed simp

lemma impacted:
  assumes "digraph P valid" and "graph_ok P valid g"
  shows "ie_entity ` set (analyze_impact P qs g) = (\<Union>u \<in> set qs. direct_dependents P g u)"
    and "i \<in> set (analyze_impact P qs g) \<Longrightarrow> ie_depends_on i \<in> set qs \<and> ie_entity i \<in> direct_dependents P g (ie_depends_on i)"
proof -
  have D: "impacts Q r i \<Longrightarrow> r \<in> set (relationships P g) \<Longrightarrow>
      ie_depends_on i \<in> Q \<and> ie_entity i \<in> direct_dependents P g (ie_depends_on i)" for Q r i
    unfolding impacts_def direct_dependents_def by fastforce
  show A: "ie_depends_on i \<in> set qs \<and> ie_entity i \<in> direct_dependents P g (ie_depends_on i)"
    if "i \<in> set (analyze_impact P qs g)" for i
    using analyze_impact_entries(2) [OF assms that] D by blast
  show "ie_entity ` set (analyze_impact P qs g) = (\<Union>u \<in> set qs. direct_dependents P g u)"
  proof (intro set_eqI iffI)
    fix v assume "v \<in> (\<Union>u \<in> set qs. direct_dependents P g u)"
    then obtain u r where u: "u \<in> set qs" "v \<noteq> u" "r \<in> set (relationships P g)"
      "is_dependency (er_relation_type r) \<and> er_from_entity r = v \<and> er_to_entity r = u \<or>
        er_relation_type r = RequiredBy \<and> er_from_entity r = u \<and> er_to_entity r = v"
      unfolding direct_dependents_def by auto
    let ?i = "\<lparr>ie_entity = v, ie_depends_on = u, ie_relation_type = er_relation_type r, ie_context = er_context r\<rparr>"
    have "impacts (set qs) r ?i" using u by (auto simp: impacts_def)
    from analyze_impact_entries(3) [OF assms u(3) this] show "v \<in> ie_entity ` set (analyze_impact P qs g)"
      by (metis image_eqI prod.inject impact_entry.select_convs(1))
  next
    fix v assume "v \<in> ie_entity ` set (analyze_impact P qs g)"
    then obtain i where "i \<in> set (analyze_impact P qs g)" "v = ie_entity i" by blast
    then show "v \<in> (\<Union>u \<in> set qs. direct_dependents P g u)" using A by blast
  qed
qed

text \<open>
  The state before hop \<open>k + 1\<close>: everything within \<open>k\<close> hops is seen, the frontier is what is first
  reached at hop \<open>k\<close>, the items are what is reached so far, each at its distance.
\<close>

definition distance_is :: "('a \<Rightarrow> 'a set) \<Rightarrow> 'a \<Rightarrow> 'a \<Rightarrow> nat \<Rightarrow> bool" where
  "distance_is nb s v d \<longleftrightarrow> v \<in> hops nb s d \<and> (\<forall>k < d. v \<notin> hops nb s k)"

definition reached :: "('a \<Rightarrow> 'a set) \<Rightarrow> 'a \<Rightarrow> nat \<Rightarrow> 'a set" where
  "reached nb s k = (case k of 0 \<Rightarrow> {s} | Suc j \<Rightarrow> hops nb s k - hops nb s j)"

lemma hops_frontier: "hops nb s (Suc k) = hops nb s k \<union> (\<Union>u \<in> reached nb s k. nb u)"
  by (cases k) (auto simp: reached_def)

lemma reached_distance: "v \<in> reached nb s (Suc k) \<Longrightarrow> distance_is nb s v (Suc k)"
  using hops_mono [of _ k nb s] by (auto simp: reached_def distance_is_def less_Suc_eq_le simp del: hops.simps)

lemma reached_is_near: "v \<in> reached nb s k \<Longrightarrow> distance_is nb s v k"
  by (cases k) (simp_all add: reached_distance del: hops.simps, simp add: reached_def distance_is_def)

definition items_ok :: "(string \<Rightarrow> string set) \<Rightarrow> string \<Rightarrow> nat \<Rightarrow> impact_item list \<Rightarrow> bool" where
  "items_ok nb s k items \<longleftrightarrow>
     distinct (map ii_entity items) \<and> ii_entity ` set items = hops nb s k - {s} \<and>
     sorted (map ii_depth items) \<and>
     (\<forall>x \<in> set items. 0 < ii_depth x \<and> ii_depth x \<le> k \<and> distance_is nb s (ii_entity x) (ii_depth x) \<and>
        distance_is nb s (ii_via x) (ii_depth x - 1) \<and> ii_entity x \<in> nb (ii_via x))"

lemma items_ok_next:
  assumes "items_ok nb s k items" and "distinct (map ii_entity new)"
    and "ii_entity ` set new = reached nb s (Suc k)"
    and "\<forall>x \<in> set new. ii_depth x = Suc k \<and> distance_is nb s (ii_via x) k \<and> ii_entity x \<in> nb (ii_via x)"
  shows "items_ok nb s (Suc k) (items @ new)"
proof -
  have "s \<in> hops nb s k" by (rule hops_start)
  moreover have "hops nb s k \<subseteq> hops nb s (Suc k)" by (rule hops_mono) simp
  ultimately have "ii_entity ` set (items @ new) = hops nb s (Suc k) - {s}"
    unfolding set_append image_Un using assms(1,3) by (auto simp: items_ok_def reached_def simp del: hops.simps)
  moreover have "distinct (map ii_entity (items @ new))"
    using assms(1,2,3) by (auto simp: items_ok_def reached_def simp del: hops.simps)
  moreover have "map ii_depth new = replicate (length new) (Suc k)"
    using assms(4) by (simp add: list_eq_iff_nth_eq)
  then have "sorted (map ii_depth (items @ new))"
    using assms(1,4) by (auto simp: items_ok_def sorted_append)
  moreover have "distance_is nb s (ii_entity x) (Suc k)" if "x \<in> set new" for x
    by (rule reached_distance) (use that in \<open>simp add: assms(3) [symmetric]\<close>)
  then have "0 < ii_depth x \<and> ii_depth x \<le> Suc k \<and> distance_is nb s (ii_entity x) (ii_depth x) \<and>
      distance_is nb s (ii_via x) (ii_depth x - 1) \<and> ii_entity x \<in> nb (ii_via x)" if "x \<in> set (items @ new)" for x
    using that assms(1,4) unfolding items_ok_def by (cases "x \<in> set new") (simp_all add: le_SucI)
  ultimately show ?thesis unfolding items_ok_def by blast
qed

lemma items_ok_stable:
  assumes "items_ok nb s k items" and "hops nb s (Suc k) = hops nb s k" and "k \<le> n"
  shows "items_ok nb s n items"
  using assms(1,3) unfolding items_ok_def hops_stable [OF assms(2,3)] by (auto intro: le_trans)

lemma impact_hops_ok:
  assumes G: "digraph P valid" "graph_ok P valid g"
  shows "items_ok (direct_dependents P g) s k items \<Longrightarrow> seen = hops (direct_dependents P g) s k \<Longrightarrow>
    set frontier = reached (direct_dependents P g) s k \<Longrightarrow>
    items_ok (direct_dependents P g) s (k + n) (impact_hops P g [Suc k..<Suc k + n] seen frontier items)"
proof (induction n arbitrary: k seen frontier items)
  case (Suc n)
  let ?nb = "direct_dependents P g"
  let ?is = "analyze_impact P frontier g"
  obtain new where new: "fold (impact_one g (Suc k)) ?is (seen, [], items) =
      (seen \<union> ie_entity ` set ?is, [] @ map ii_entity new, items @ new)"
      "distinct (map ii_entity new)" "ii_entity ` set new = ie_entity ` set ?is - seen"
      "\<forall>x \<in> set new. ii_depth x = Suc k \<and> (\<exists>i \<in> set ?is. (ii_entity x, ii_via x) = impact_pair i)"
    using impact_fold [of g "Suc k" ?is seen "[]" items] by blast
  have seen: "seen \<union> ie_entity ` set ?is = hops ?nb s (Suc k)"
    using Suc.prems(2,3) by (simp add: impacted(1) [OF G] hops_frontier [of ?nb s k] del: hops.simps)
  have ents: "ii_entity ` set new = reached ?nb s (Suc k)"
    using new(3) seen Suc.prems(2) by (auto simp: reached_def simp del: hops.simps)
  have near: "distance_is ?nb s u k" if "u \<in> set frontier" for u
    using that reached_is_near unfolding Suc.prems(3) by fast
  have "\<forall>x \<in> set new. ii_depth x = Suc k \<and> distance_is ?nb s (ii_via x) k \<and> ii_entity x \<in> ?nb (ii_via x)"
    using new(4) near impacted(2) [OF G, of _ frontier] by fastforce
  from items_ok_next [OF Suc.prems(1) new(2) ents this] have ok: "items_ok ?nb s (Suc k) (items @ new)" .
  have upt: "[Suc k..<Suc k + Suc n] = Suc k # [Suc (Suc k)..<Suc (Suc k) + n]" by (simp add: upt_conv_Cons del: upt_Suc)
  show ?case
  proof (cases "new = []")
    case True
    then have "hops ?nb s (Suc k) = hops ?nb s k"
      using ents hops_mono [of k "Suc k" ?nb s] by (auto simp: reached_def simp del: hops.simps)
    then have "items_ok ?nb s (k + Suc n) items" by (intro items_ok_stable [OF Suc.prems(1)]) simp_all
    then show ?thesis unfolding upt using True new(1) by simp
  next
    case False
    have "set (sort (map ii_entity new)) = reached ?nb s (Suc k)" using ents by simp
    from Suc.IH [OF ok seen this] show ?thesis unfolding upt using False new(1) by simp
  qed
qed simp

lemma items_ok_start: "items_ok nb s 0 []"
  by (simp add: items_ok_def)

lemma list_once_spec:
  "distinct (map rv_id (list_once L rs)) \<and> set (list_once L rs) \<subseteq> {r \<in> set rs. risky r} \<and>
   rv_id ` set (list_once L rs) = rv_id ` {r \<in> set rs. risky r} - L"
  by (induction L rs rule: list_once.induct) auto

lemma mentioning_record:
  "r \<in> set (mentioning ix n) \<longleftrightarrow> (\<exists>i \<in> set (mentions_of (ix_graph ix) n). index_record ix i = Some r)"
  by (auto simp: mentioning_def List.map_filter_def image_iff)

lemma index_record_id: "index_record ix i = Some r \<Longrightarrow> rv_id r = i"
  by (auto simp: index_record_def Let_def split: bind_splits)

lemma index_of_graph [simp]: "ix_graph (view_index_of V sc) = gs_graph sc"
  by (simp add: view_index_of_def Let_def split: prod.split)

lemma newest_first_spec [simp]:
  "set (newest_first rs) = set rs" "length (newest_first rs) = length rs"
  "distinct (map rv_id (newest_first rs)) = distinct (map rv_id rs)"
  "sorted_wrt (\<lambda>a b. rv_timestamp b \<le> rv_timestamp a) (newest_first rs)"
proof -
  show "set (newest_first rs) = set rs" "length (newest_first rs) = length rs" by (simp_all add: newest_first_def)
  have "mset (map rv_id (newest_first rs)) = mset (map rv_id rs)" by (simp add: newest_first_def)
  then show "distinct (map rv_id (newest_first rs)) = distinct (map rv_id rs)" by (rule mset_eq_imp_distinct_iff)
  have "sorted (map (\<lambda>r. - rv_timestamp r) (newest_first rs))" by (simp add: newest_first_def)
  then show "sorted_wrt (\<lambda>a b. rv_timestamp b \<le> rv_timestamp a) (newest_first rs)" by (simp add: sorted_map)
qed


section \<open>A small scope for the witnesses\<close>

definition demo_view :: view_params where
  "demo_view = \<lparr>vp_importance = Map.empty, vp_communities = [], vp_keys = (\<lambda>ks. ks), vp_edge_keys = (\<lambda>ks. ks)\<rparr>"

definition demo_scope :: "edge_data list_graph graph_scope" where
  "demo_scope = \<lparr>gs_sessions = [], gs_graph = demo_graph\<rparr>"


end
