(* ===== verification/Graph_Views_Lineage.thy ===== *)
theory Graph_Views_Lineage
  imports Graph_Views_Impact
begin

text \<open>
  What the lineage of an entity shows: the entities within a number of causal relations, and the records
  that assert such relations or decide about the entity.
\<close>

section \<open>Lineage\<close>

definition causal_relations :: "'g pg \<Rightarrow> 'g entity_graph \<Rightarrow> string \<Rightarrow> entity_relationship list" where
  "causal_relations P g u = filter causal (relationships_of P g u)"

definition causal_ends :: "'g pg \<Rightarrow> 'g entity_graph \<Rightarrow> string \<Rightarrow> string list" where
  "causal_ends P g u = map (other_end u) (causal_relations P g u)"

definition lineage_edges :: "'g pg \<Rightarrow> 'g entity_graph \<Rightarrow> string list \<Rightarrow> relation_key list" where
  "lineage_edges P g us = fold insort_insert (concat (map (\<lambda>u. map rel_key (causal_relations P g u)) us)) []"

lemma lineage_fold:
  "fold (lineage_one cur far) rs (chain, queue, edges) =
     (let (chain', queue') = bfs_push far (map (other_end cur) rs) (chain, queue)
      in (chain', queue', fold insort_insert (map rel_key rs) edges))"
  by (induction rs arbitrary: chain queue edges) (simp_all add: lineage_one_def Let_def rel_key_def)

lemma lineage_bfs:
  "lineage_loop P g depth fuel (V, q, lineage_edges P g X) =
     map_option (\<lambda>(W, Y). (W, lineage_edges P g Y)) (bfs (causal_ends P g) (max depth 1) fuel X (V, q))"
proof (induction "causal_ends P g" "max depth 1" fuel X "(V, q)" arbitrary: V q rule: bfs.induct)
  case (3 fuel X V u far q)
  show ?case
  proof (cases "max depth 1 \<le> far")
    case True
    then show ?thesis using 3(1) by simp
  next
    case False
    obtain V' q' where push: "bfs_push far (causal_ends P g u) (V, q) = (V', q')" by fastforce
    have "lineage_loop P g depth (Suc fuel) (V, (u, far) # q, lineage_edges P g X) =
        lineage_loop P g depth fuel (V', q', lineage_edges P g (X @ [u]))"
      using False push
      by (simp add: lineage_fold causal_ends_def causal_relations_def lineage_edges_def del: max.bounded_iff)
    then show ?thesis using 3(2) False push by (simp del: max.bounded_iff)
  qed
qed simp_all

lemma set_fold_insort: "set (fold insort_insert ks es) = set ks \<union> set es"
  by (induction ks arbitrary: es) (auto simp: set_insort_insert)

lemma mem_lineage_edges:
  "key \<in> set (lineage_edges P g us) \<longleftrightarrow> (\<exists>u \<in> set us. \<exists>r \<in> set (causal_relations P g u). key = rel_key r)"
  by (auto simp: lineage_edges_def set_fold_insort)

lemma causal_relations_ends:
  assumes "digraph P valid" and "graph_ok P valid g" and "r \<in> set (causal_relations P g u)"
  shows "causal r \<and> r \<in> set (relationships P g) \<and> (er_from_entity r = u \<or> er_to_entity r = u) \<and>
    {er_from_entity r, er_to_entity r} \<subseteq> dom (map_of (eg_entities g))"
proof -
  note G = entity_digraph_iff [OF assms(1)] and nok = graph_okD(1) [OF assms(2)]
  have r: "rel_map P g (rel_key r) = Some (er_context r)" "er_from_entity r = u \<or> er_to_entity r = u" "causal r"
    using assms(3) by (auto simp: causal_relations_def entity_digraph.mem_relationships_of [OF G assms(2)])
  have "er_from_entity r \<in> set (node_names P g) \<and> er_to_entity r \<in> set (node_names P g)"
    using entity_digraph.rel_map_dom [OF G nok] r(1) by (auto simp: rel_key_def)
  then show ?thesis using r graph_okD(3) [OF assms(2)] entity_digraph.mem_relationships [OF G nok] by simp
qed

lemma causal_ends_iff:
  assumes "digraph P valid" and "graph_ok P valid g"
  shows "v \<in> set (causal_ends P g u) \<longleftrightarrow>
    (\<exists>r \<in> set (relationships P g). causal r \<and>
       (er_from_entity r = u \<and> er_to_entity r = v \<or> er_to_entity r = u \<and> er_from_entity r = v))"
proof -
  note G = entity_digraph_iff [OF assms(1)] and nok = graph_okD(1) [OF assms(2)]
  have "r \<in> set (relationships_of P g u) \<longleftrightarrow> r \<in> set (relationships P g) \<and> (er_from_entity r = u \<or> er_to_entity r = u)" for r
    by (simp add: entity_digraph.mem_relationships_of [OF G assms(2)] entity_digraph.mem_relationships [OF G nok])
  then show ?thesis
    by (auto simp: causal_ends_def causal_relations_def other_end_def)
qed

lemma lineage_walk:
  assumes "digraph P valid" and "graph_ok P valid g" and "s \<in> dom (map_of (eg_entities g))"
  shows "\<exists>chain near. lineage_loop P g depth (lineage_fuel g) ([s], [(s, 0)], []) = Some (chain, lineage_edges P g near) \<and>
    distinct chain \<and> set chain = hops (\<lambda>u. set (causal_ends P g u)) s (max depth 1) \<and>
    set near = hops (\<lambda>u. set (causal_ends P g u)) s (max depth 1 - 1)"
proof -
  let ?N = "dom (map_of (eg_entities g))"
  have "set (causal_ends P g u) \<subseteq> ?N" for u
    using causal_relations_ends [OF assms(1,2), of _ u] by (auto simp: causal_ends_def other_end_def)
  moreover have "card ?N \<le> lineage_fuel g"
    using card_length [of "map fst (eg_entities g)"] by (simp add: dom_map_of_conv_image_fst lineage_fuel_def)
  ultimately obtain W Y where "bfs (causal_ends P g) (max depth 1) (lineage_fuel g) [] ([s], [(s, 0)]) = Some (W, Y)"
      "distinct W" "set W = hops (\<lambda>u. set (causal_ends P g u)) s (max depth 1)"
      "set Y = (if max depth 1 = 0 then {} else hops (\<lambda>u. set (causal_ends P g u)) s (max depth 1 - 1))"
    using bfs_correct [of ?N "causal_ends P g" s "lineage_fuel g" "max depth 1"] assms(3) finite_dom_map_of by blast
  then show ?thesis
    using lineage_bfs [of P g depth "lineage_fuel g" "[s]" "[(s, 0)]" "[]"] by (auto simp: lineage_edges_def split: if_splits)
qed

text \<open>The records in the order they are offered, each with the relation it comes by.\<close>

lemma steps_spec:
  assumes "\<forall>(i, r, rel) \<in> set xs. r = index_record ix i"
  shows "\<exists>new. fold (\<lambda>(i, r, rel). list_step i r rel) xs (listed, steps) = (listed \<union> fst ` set xs, steps @ new) \<and>
    distinct (map (\<lambda>s. rv_id (ls_record s)) new) \<and>
    (\<lambda>s. rv_id (ls_record s)) ` set new = {i \<in> fst ` set xs - listed. index_record ix i \<noteq> None} \<and>
    (\<forall>s \<in> set new. (rv_id (ls_record s), Some (ls_record s), ls_relation s) \<in> set xs)"
  using assms
proof (induction xs arbitrary: listed steps)
  case (Cons x xs)
  obtain i r rel where x: "x = (i, r, rel)" by (cases x)
  have r: "r = index_record ix i" using Cons.prems x by simp
  let ?new = "if i \<in> listed then [] else case r of Some v \<Rightarrow> [\<lparr>ls_record = v, ls_relation = rel\<rparr>] | None \<Rightarrow> []"
  have s: "list_step i r rel (listed, steps) = (insert i listed, steps @ ?new)"
    by (auto simp: list_step_def split: option.split)
  from Cons.IH [of "insert i listed" "steps @ ?new"] Cons.prems obtain new where new:
    "fold (\<lambda>(i, r, rel). list_step i r rel) xs (insert i listed, steps @ ?new) =
       (insert i listed \<union> fst ` set xs, (steps @ ?new) @ new)"
    "distinct (map (\<lambda>s. rv_id (ls_record s)) new)"
    "(\<lambda>s. rv_id (ls_record s)) ` set new = {j \<in> fst ` set xs - insert i listed. index_record ix j \<noteq> None}"
    "\<forall>s \<in> set new. (rv_id (ls_record s), Some (ls_record s), ls_relation s) \<in> set xs"
    by auto
  have h: "\<forall>s \<in> set ?new. rv_id (ls_record s) = i \<and> Some (ls_record s) = r \<and> ls_relation s = rel"
    using index_record_id [of ix i] by (auto simp: r split: option.splits)
  have "i \<notin> (\<lambda>s. rv_id (ls_record s)) ` set new" unfolding new(3) by simp
  then have "distinct (map (\<lambda>s. rv_id (ls_record s)) (?new @ new))"
    using new(2) h by (cases "i \<in> listed"; cases r) simp_all
  moreover have "(\<lambda>s. rv_id (ls_record s)) ` set ?new = {j \<in> {i} - listed. index_record ix j \<noteq> None}"
  proof (cases r)
    case None
    then show ?thesis using r by auto
  next
    case (Some v)
    then have "index_record ix i = Some v" "rv_id v = i" using r h index_record_id [of ix i v] by simp_all
    then show ?thesis using Some by auto
  qed
  then have "(\<lambda>s. rv_id (ls_record s)) ` set (?new @ new) = {j \<in> fst ` set (x # xs) - listed. index_record ix j \<noteq> None}"
    unfolding set_append image_Un new(3) x by auto
  moreover have "\<forall>s \<in> set (?new @ new). (rv_id (ls_record s), Some (ls_record s), ls_relation s) \<in> set (x # xs)"
    using h new(4) by (auto simp: x split del: if_split)
  moreover have "fold (\<lambda>(i, r, rel). list_step i r rel) (x # xs) (listed, steps) =
      (listed \<union> fst ` set (x # xs), steps @ ?new @ new)"
    using new(1) by (simp add: x s)
  ultimately show ?case by blast
qed simp

definition explains :: "record_view \<Rightarrow> bool" where
  "explains r \<longleftrightarrow> rv_interaction_type r = ProblemSolved \<or> rv_interaction_type r = DecisionMade"

definition offered :: "'g view_index \<Rightarrow> string \<Rightarrow> relation_key list \<Rightarrow> (uuid \<times> record_view option \<times> relation_key option) list" where
  "offered ix entity edges =
     concat (map (\<lambda>key. map (\<lambda>i. (i, index_record ix i, Some key)) (unwrap_or (ix_edge_records ix key) [])) edges) @
     map (\<lambda>r. (rv_id r, Some r, None)) (filter explains (mentioning ix entity))"

lemma lineage_steps_offered:
  "lineage_steps ix entity edges = sort_key (\<lambda>s. (rv_timestamp (ls_record s), rv_id (ls_record s)))
     (snd (fold (\<lambda>(i, r, rel). list_step i r rel) (offered ix entity edges) ({}, [])))"
proof -
  have a: "fold (\<lambda>(i, r, rel). list_step i r rel) (map (\<lambda>i. (i, f i, g)) is) = fold (\<lambda>i. list_step i (f i) g) is"
    for f :: "uuid \<Rightarrow> record_view option" and g "is"
    by (induction "is") simp_all
  have b: "fold (\<lambda>(i, r, rel). list_step i r rel) (concat (map h keys)) = fold (\<lambda>k. fold (\<lambda>(i, r, rel). list_step i r rel) (h k)) keys"
    for h :: "relation_key \<Rightarrow> (uuid \<times> record_view option \<times> relation_key option) list" and keys
    by (induction keys) simp_all
  have c: "fold (\<lambda>(i, r, rel). list_step i r rel) (map (\<lambda>r. (rv_id r, Some r, None)) (filter explains rs)) =
      fold (\<lambda>r. if rv_interaction_type r \<in> {ProblemSolved, DecisionMade} then list_step (rv_id r) (Some r) None else id) rs" for rs
    by (induction rs) (simp_all add: explains_def)
  show ?thesis by (simp add: lineage_steps_def offered_def Let_def a b c)
qed

lemma lineage_steps_spec:
  "distinct (map (\<lambda>s. rv_id (ls_record s)) (lineage_steps ix entity edges)) \<and>
   sorted_wrt (\<lambda>a b. rv_timestamp (ls_record a) \<le> rv_timestamp (ls_record b)) (lineage_steps ix entity edges) \<and>
   (\<lambda>s. rv_id (ls_record s)) ` set (lineage_steps ix entity edges) =
     {i. \<exists>r. index_record ix i = Some r \<and>
        ((\<exists>key \<in> set edges. i \<in> set (unwrap_or (ix_edge_records ix key) [])) \<or>
         explains r \<and> i \<in> set (mentions_of (ix_graph ix) entity))} \<and>
   (\<forall>s \<in> set (lineage_steps ix entity edges). case ls_relation s of
      Some key \<Rightarrow> key \<in> set edges \<and> rv_id (ls_record s) \<in> set (unwrap_or (ix_edge_records ix key) [])
    | None \<Rightarrow> explains (ls_record s))"
proof -
  let ?xs = "offered ix entity edges"
  have ids: "\<forall>(i, r, rel) \<in> set ?xs. r = index_record ix i"
    using index_record_id by (fastforce simp: offered_def mentioning_record)
  from steps_spec [OF this, of "{}" "[]"] obtain new where new:
      "fold (\<lambda>(i, r, rel). list_step i r rel) ?xs ({}, []) = (fst ` set ?xs, new)"
      "distinct (map (\<lambda>s. rv_id (ls_record s)) new)"
      "(\<lambda>s. rv_id (ls_record s)) ` set new = {i \<in> fst ` set ?xs. index_record ix i \<noteq> None}"
      "\<forall>s \<in> set new. (rv_id (ls_record s), Some (ls_record s), ls_relation s) \<in> set ?xs"
    by auto
  have st: "lineage_steps ix entity edges = sort_key (\<lambda>s. (rv_timestamp (ls_record s), rv_id (ls_record s))) new" (is "?st = _")
    by (simp add: lineage_steps_offered new(1))
  have "mset (map (\<lambda>s. rv_id (ls_record s)) ?st) = mset (map (\<lambda>s. rv_id (ls_record s)) new)" by (simp add: st)
  then have d: "distinct (map (\<lambda>s. rv_id (ls_record s)) ?st)" using new(2) mset_eq_imp_distinct_iff by blast
  have "sorted (map (\<lambda>s. (rv_timestamp (ls_record s), rv_id (ls_record s))) ?st)" by (simp add: st)
  then have "sorted_wrt (\<lambda>a b. rv_timestamp (ls_record a) \<le> rv_timestamp (ls_record b)) ?st"
    unfolding sorted_map by (rule sorted_wrt_mono_rel [rotated]) auto
  moreover have "i \<in> fst ` set ?xs \<and> index_record ix i \<noteq> None \<longleftrightarrow> (\<exists>r. index_record ix i = Some r \<and>
        ((\<exists>key \<in> set edges. i \<in> set (unwrap_or (ix_edge_records ix key) [])) \<or>
         explains r \<and> i \<in> set (mentions_of (ix_graph ix) entity)))" for i
  proof -
    have "i \<in> fst ` set ?xs \<longleftrightarrow> (\<exists>key \<in> set edges. i \<in> set (unwrap_or (ix_edge_records ix key) [])) \<or>
        (\<exists>r. r \<in> set (mentioning ix entity) \<and> explains r \<and> rv_id r = i)"
      by (force simp: offered_def)
    moreover have "(\<exists>r. r \<in> set (mentioning ix entity) \<and> explains r \<and> rv_id r = i) \<longleftrightarrow>
        (\<exists>r. index_record ix i = Some r \<and> explains r \<and> i \<in> set (mentions_of (ix_graph ix) entity))"
      by (auto simp: mentioning_record dest: index_record_id)
    ultimately show ?thesis by auto
  qed
  then have "(\<lambda>s. rv_id (ls_record s)) ` set ?st = {i. \<exists>r. index_record ix i = Some r \<and>
        ((\<exists>key \<in> set edges. i \<in> set (unwrap_or (ix_edge_records ix key) [])) \<or>
         explains r \<and> i \<in> set (mentions_of (ix_graph ix) entity))}"
    using new(3) by (simp add: st)
  moreover have "\<forall>s \<in> set ?st. case ls_relation s of
      Some key \<Rightarrow> key \<in> set edges \<and> rv_id (ls_record s) \<in> set (unwrap_or (ix_edge_records ix key) [])
    | None \<Rightarrow> explains (ls_record s)"
    using new(4) by (fastforce simp: st offered_def split: option.split)
  ultimately show ?thesis using d by blast
qed

lemma entity_in_index_known:
  "graph_ok P valid (ix_graph ix) \<Longrightarrow> entity_in_index ix n = Some e \<Longrightarrow> ed_name e \<in> dom (map_of (eg_entities (ix_graph ix)))"
  using graph_okD(6) [of P valid "ix_graph ix"] by (auto simp: entity_in_index_def Let_def split: bind_splits)

text \<open>
  C22: the lineage of an entity always ends. Its chain is every entity within the given number of causal
  relations, read either way, each once. Its steps are the records that assert a causal relation of an
  entity less far away, and the decisions and solved problems that mention the entity, each once, in
  the order of their times, each with a relation it asserts or none.
\<close>

theorem lineage_explains:
  assumes "digraph P valid" and "graph_ok P valid (gs_graph sc)"
  shows "let ix = view_index_of V sc; g = gs_graph sc;
      nb = (\<lambda>u. {w. \<exists>r \<in> set (relationships P g). causal r \<and>
        (er_from_entity r = u \<and> er_to_entity r = w \<or> er_to_entity r = u \<and> er_from_entity r = w)})
    in case view_lineage P V sc name depth of
        None \<Rightarrow> False
      | Some None \<Rightarrow> entity_in_index ix name = None
      | Some (Some v) \<Rightarrow>
          distinct (lv_chain v) \<and> set (lv_chain v) = hops nb (lv_entity v) (max depth 1) \<and>
          distinct (map (\<lambda>s. rv_id (ls_record s)) (lv_steps v)) \<and>
          sorted_wrt (\<lambda>a b. rv_timestamp (ls_record a) \<le> rv_timestamp (ls_record b)) (lv_steps v) \<and>
          (\<lambda>s. rv_id (ls_record s)) ` set (lv_steps v) =
            {i. \<exists>d. index_record ix i = Some d \<and>
               ((\<exists>r \<in> set (relationships P g). causal r \<and>
                   (er_from_entity r \<in> hops nb (lv_entity v) (max depth 1 - 1) \<or>
                    er_to_entity r \<in> hops nb (lv_entity v) (max depth 1 - 1)) \<and>
                   i \<in> set (unwrap_or (ix_edge_records ix (rel_key r)) [])) \<or>
                explains d \<and> i \<in> set (mentions_of g (lv_entity v)))} \<and>
          (\<forall>s \<in> set (lv_steps v). case ls_relation s of
             Some key \<Rightarrow> rv_id (ls_record s) \<in> set (unwrap_or (ix_edge_records ix key) [])
           | None \<Rightarrow> explains (ls_record s))"
proof (cases "entity_in_index (view_index_of V sc) name")
  case None
  then show ?thesis by (simp add: view_lineage_def Let_def)
next
  case (Some e)
  let ?ix = "view_index_of V sc" and ?g = "gs_graph sc" and ?s = "ed_name e"
  let ?nb = "\<lambda>u. {w. \<exists>r \<in> set (relationships P ?g). causal r \<and>
        (er_from_entity r = u \<and> er_to_entity r = w \<or> er_to_entity r = u \<and> er_from_entity r = w)}"
  have nb: "(\<lambda>u. set (causal_ends P ?g u)) = ?nb" by (auto simp: fun_eq_iff causal_ends_iff [OF assms])
  have "?s \<in> dom (map_of (eg_entities ?g))" using entity_in_index_known [of P valid ?ix name e] Some assms(2) by simp
  from lineage_walk [OF assms this, of depth, unfolded nb] obtain chain near where
    w: "lineage_loop P ?g depth (lineage_fuel ?g) ([?s], [(?s, 0)], []) = Some (chain, lineage_edges P ?g near)"
      "distinct chain" "set chain = hops ?nb ?s (max depth 1)" "set near = hops ?nb ?s (max depth 1 - 1)"
    by blast
  have v: "view_lineage P V sc name depth =
      Some (Some \<lparr>lv_entity = ?s, lv_chain = chain, lv_steps = lineage_steps ?ix ?s (lineage_edges P ?g near)\<rparr>)"
    using w(1) Some by (simp add: view_lineage_def Let_def)
  have rels: "r \<in> set (causal_relations P ?g u) \<longleftrightarrow>
      causal r \<and> r \<in> set (relationships P ?g) \<and> (er_from_entity r = u \<or> er_to_entity r = u)" for r u
    using entity_digraph.mem_relationships [OF entity_digraph_iff [OF assms(1)] graph_okD(1) [OF assms(2)]]
      entity_digraph.mem_relationships_of [OF entity_digraph_iff [OF assms(1)] assms(2)]
    by (auto simp: causal_relations_def)
  have e: "(\<exists>key \<in> set (lineage_edges P ?g near). Q key) \<longleftrightarrow>
      (\<exists>r \<in> set (relationships P ?g). causal r \<and> (er_from_entity r \<in> set near \<or> er_to_entity r \<in> set near) \<and> Q (rel_key r))" for Q
    unfolding Bex_def mem_lineage_edges rels by blast
  note S = lineage_steps_spec [of ?ix ?s "lineage_edges P ?g near", unfolded e index_of_graph]
  have "\<forall>s \<in> set (lineage_steps ?ix ?s (lineage_edges P ?g near)). case ls_relation s of
      Some key \<Rightarrow> rv_id (ls_record s) \<in> set (unwrap_or (ix_edge_records ?ix key) [])
    | None \<Rightarrow> explains (ls_record s)"
  proof
    fix s assume "s \<in> set (lineage_steps ?ix ?s (lineage_edges P ?g near))"
    then have "case ls_relation s of
      Some key \<Rightarrow> key \<in> set (lineage_edges P ?g near) \<and> rv_id (ls_record s) \<in> set (unwrap_or (ix_edge_records ?ix key) [])
    | None \<Rightarrow> explains (ls_record s)" using S by blast
    then show "case ls_relation s of
      Some key \<Rightarrow> rv_id (ls_record s) \<in> set (unwrap_or (ix_edge_records ?ix key) [])
    | None \<Rightarrow> explains (ls_record s)" by (auto split: option.splits)
  qed
  then show ?thesis
    unfolding Let_def v option.case lineage_view.simps w(4) [symmetric] using w(2,3) S by (intro conjI) blast+
qed

definition demo_causal_scope :: "edge_data list_graph graph_scope" where
  "demo_causal_scope =
     \<lparr>gs_sessions = [], gs_graph = add_relationship list_petgraph 4 (demo_rel ''auth'' ''api'' CausedBy ''outage'') demo_graph\<rparr>"

theorem lineage_explains_witness:
  "\<exists>v. view_lineage list_petgraph demo_view demo_causal_scope ''auth'' 2 = Some (Some v) \<and> distinct (lv_chain v) \<and>
     distinct (map (\<lambda>s. rv_id (ls_record s)) (lv_steps v))"
proof -
  have g: "graph_ok list_petgraph lg_valid (gs_graph demo_causal_scope)"
    using eg.graph_reach_ok [OF reach_step [OF demo_reach step_relationship]] by (simp add: demo_causal_scope_def)
  have "entity_in_index (view_index_of demo_view demo_causal_scope) ''auth'' \<noteq> None" by code_simp
  then show ?thesis
    using lineage_explains [OF lg.digraph_axioms g, where V = demo_view and name = "''auth''" and depth = 2]
    by (cases "view_lineage list_petgraph demo_view demo_causal_scope ''auth'' 2")
      (auto simp: Let_def split: option.splits)
qed

end
