(* ===== verification/Graph_Views_Alias.thy ===== *)
theory Graph_Views_Alias
  imports Graph_Views Card_Store_Props
begin

text \<open>
  What the radar names as possible aliases: every pair of entities where one key begins the other.
\<close>

section \<open>Alias candidates\<close>

lemma prefix_run:
  fixes rest :: "(string \<times> string) list"
  assumes "sorted (map fst ((short, n) # rest))"
  shows "takeWhile (\<lambda>(k, other). starts_with short k) rest = filter (\<lambda>(k, other). starts_with short k) rest"
proof -
  have near: "starts_with short j" if "short \<le> j" "j \<le> k" "starts_with short k" for j k
    using starts_with_upto [of short "[]" j] that by (auto simp: starts_with_iff [of short k])
  have run: "sorted (map fst es) \<Longrightarrow> \<forall>e \<in> set es. short \<le> fst e \<Longrightarrow>
      takeWhile (\<lambda>(k, other). starts_with short k) es = filter (\<lambda>(k, other). starts_with short k) es" for es :: "(string \<times> string) list"
  proof (induction es)
    case (Cons e es)
    show ?case
    proof (cases "starts_with short (fst e)")
      case True
      then show ?thesis using Cons by (simp add: split_beta)
    next
      case False
      then have "\<not> starts_with short (fst e')" if "e' \<in> set es" for e'
        using that Cons.prems near [of "fst e" "fst e'"] by auto
      then show ?thesis using False by (simp add: split_beta filter_empty_conv)
    qed
  qed simp
  show ?thesis by (rule run) (use assms in auto)
qed

definition may_be_alias :: "string \<Rightarrow> string \<Rightarrow> bool" where
  "may_be_alias n m \<longleftrightarrow>
     4 \<le> length (entity_key n) \<and> starts_with (entity_key n) (entity_key m) \<and> entity_key n \<noteq> entity_key m"

lemma starts_with_le: "starts_with p (s :: string) \<Longrightarrow> p \<le> s"
  by (induction p s rule: starts_with.induct) auto

lemma alias_scan_spec:
  assumes "sorted (map fst ks)" and "distinct (map snd ks)" and "\<forall>(k, n) \<in> set ks. k = entity_key n"
  shows "set (alias_scan g ks) = {candidate g n m | n m. n \<in> snd ` set ks \<and> m \<in> snd ` set ks \<and> may_be_alias n m}"
    and "distinct (map (\<lambda>a. (al_name a, al_of a)) (alias_scan g ks))"
proof -
  have "set (alias_scan g ks) = {candidate g n m | n m. n \<in> snd ` set ks \<and> m \<in> snd ` set ks \<and> may_be_alias n m} \<and>
    distinct (map (\<lambda>a. (al_name a, al_of a)) (alias_scan g ks))"
    using assms
  proof (induction g ks rule: alias_scan.induct)
    case (2 g short n rest)
    let ?head = "if length short < 4 then [] else map (\<lambda>(long, other). candidate g n other)
        (filter (\<lambda>(long, other). long \<noteq> short) (takeWhile (\<lambda>(k, other). starts_with short k) rest))"
    have key: "short = entity_key n" "\<forall>(k, m) \<in> set rest. k = entity_key m" using 2(4) by auto
    have head: "set ?head = {candidate g n m | m. m \<in> snd ` set rest \<and> may_be_alias n m}"
    proof -
      have "k = entity_key m" if "(k, m) \<in> set rest" for k m using key(2) that by auto
      then have eqv: "(k, m) \<in> set rest \<and> 4 \<le> length short \<and> starts_with short k \<and> k \<noteq> short \<longleftrightarrow>
          (k, m) \<in> set rest \<and> may_be_alias n m" for k m
        using key(1) by (auto simp: may_be_alias_def)
      have "set ?head = {candidate g n m | k m. (k, m) \<in> set rest \<and> 4 \<le> length short \<and> starts_with short k \<and> k \<noteq> short}"
        unfolding prefix_run [OF 2(2)] by auto
      also have "\<dots> = {candidate g n m | k m. (k, m) \<in> set rest \<and> may_be_alias n m}"
        by (simp only: eqv)
      finally show ?thesis by force
    qed
    have later: "\<not> may_be_alias m n" if m: "m \<in> snd ` set rest" for m
    proof
      assume a: "may_be_alias m n"
      obtain e where "e \<in> set rest" "m = snd e" using m by (auto simp: image_iff)
      then have k: "(fst e, m) \<in> set rest" by simp
      have "\<forall>e \<in> set rest. short \<le> fst e" using 2(2) by simp
      then have "short \<le> fst e" using \<open>e \<in> set rest\<close> by blast
      moreover have "fst e = entity_key m" using key(2) k by blast
      ultimately have "entity_key n \<le> entity_key m" by (simp add: key(1))
      moreover have "entity_key m \<le> entity_key n" using a starts_with_le by (auto simp: may_be_alias_def)
      ultimately show False using a by (simp add: may_be_alias_def)
    qed
    have "\<not> may_be_alias n n" by (simp add: may_be_alias_def)
    have "{candidate g a b | a b. a \<in> snd ` set ((short, n) # rest) \<and> b \<in> snd ` set ((short, n) # rest) \<and> may_be_alias a b} =
        {candidate g n m | m. m \<in> snd ` set rest \<and> may_be_alias n m} \<union>
        {candidate g a b | a b. a \<in> snd ` set rest \<and> b \<in> snd ` set rest \<and> may_be_alias a b}"
    proof -
      have split: "{candidate g a b | a b. a \<in> insert n S \<and> b \<in> insert n S \<and> may_be_alias a b} =
          {candidate g n m | m. m \<in> S \<and> may_be_alias n m} \<union> {candidate g a b | a b. a \<in> S \<and> b \<in> S \<and> may_be_alias a b}"
        if "\<not> may_be_alias n n" "\<forall>m \<in> S. \<not> may_be_alias m n" for S
        using that by blast
      show ?thesis using split [of "snd ` set rest"] \<open>\<not> may_be_alias n n\<close> later by simp
    qed
    moreover have IH: "set (alias_scan g rest) = {candidate g n m | n m. n \<in> snd ` set rest \<and> m \<in> snd ` set rest \<and> may_be_alias n m}"
        "distinct (map (\<lambda>a. (al_name a, al_of a)) (alias_scan g rest))"
      using 2 by simp_all
    moreover have "distinct (map (\<lambda>a. (al_name a, al_of a)) ?head)"
    proof -
      have D: "distinct (map (\<lambda>a. (al_name a, al_of a)) (map (\<lambda>(long, other). candidate g n other) es))"
        if "distinct (map snd es)" for es :: "(string \<times> string) list"
        using that by (induction es) (force simp: candidate_def)+
      have "distinct (map snd rest)" using 2(3) by simp
      then have E: "distinct (map snd (filter Q (filter R rest)))" for Q R by (intro distinct_map_filter)
      show ?thesis
      proof (cases "length short < 4")
        case False
        then show ?thesis unfolding prefix_run [OF 2(2)] by (simp only: if_False) (rule D [OF E])
      qed simp
    qed
    moreover have "n \<notin> snd ` set rest" using 2(3) by simp
    then have "(\<lambda>a. (al_name a, al_of a)) ` set ?head \<inter> (\<lambda>a. (al_name a, al_of a)) ` set (alias_scan g rest) = {}"
      unfolding head IH(1) by (auto simp: candidate_def image_iff)
    ultimately show ?case using head by (simp del: set_filter split del: if_split)
  qed simp
  then show "set (alias_scan g ks) = {candidate g n m | n m. n \<in> snd ` set ks \<and> m \<in> snd ` set ks \<and> may_be_alias n m}"
    and "distinct (map (\<lambda>a. (al_name a, al_of a)) (alias_scan g ks))" by blast+
qed


definition demo_alias_graph :: "edge_data list_graph entity_graph" where
  "demo_alias_graph = add_relationship list_petgraph 4 (demo_rel ''surreal'' ''surrealdb'' RelatedTo ''one'') (new_graph list_petgraph)"


section \<open>Requests\<close>

text \<open>What a parsed request asks for is within the bounds, whatever the parameters say.\<close>

fun within_bounds :: "view_request \<Rightarrow> bool" where
  "within_bounds (Graph_View l a) \<longleftrightarrow> l \<in> {1..max_limit}"
| "within_bounds (Entity_View n l) \<longleftrightarrow> n \<noteq> [] \<and> l \<in> {1..max_limit}"
| "within_bounds (Impact_View n d l) \<longleftrightarrow> n \<noteq> [] \<and> d \<in> {1..10} \<and> l \<in> {1..max_limit}"
| "within_bounds (Timeline_View f t l) \<longleftrightarrow> l \<in> {1..max_limit}"
| "within_bounds (Topics_View l n) \<longleftrightarrow> l \<in> {1..max_limit} \<and> n \<in> {1..50}"
| "within_bounds (Lineage_View n d) \<longleftrightarrow> n \<noteq> [] \<and> d \<in> {1..10}"
| "within_bounds (Radar_View l) \<longleftrightarrow> l \<in> {1..max_limit}"
| "within_bounds (File_View p d l) \<longleftrightarrow> p \<noteq> [] \<and> d \<in> {1..10} \<and> l \<in> {1..max_limit}"

lemma number_param_bounds:
  "number_param params k dflt most = Inr n \<Longrightarrow> dflt \<in> {1..most} \<Longrightarrow> n \<in> {1..most}"
  by (auto simp: number_param_def split: option.splits)

lemma given_nonempty: "given params k = Some v \<Longrightarrow> v \<noteq> []"
  by (auto simp: given_def split: option.splits if_splits)

lemma name_param_nonempty: "name_param params view = Inr n \<Longrightarrow> n \<noteq> []"
  using given_nonempty by (auto simp: name_param_def or_field_def split: option.splits)

lemma parse_view_bounds:
  assumes "parse_view read view params = Inr r"
  shows "within_bounds r \<and> view \<in> set view_names"
  using assms number_param_bounds [of params] name_param_nonempty [of params view] given_nonempty [of params]
  by (fastforce simp: parse_view_def Let_def res_bind_Ok view_names_def split: if_splits option.splits)

end
