(* ===== verification/Spec2Isabelle.thy ===== *)
theory Spec2Isabelle
  imports Json_Path Entity_Bounded Temporal_Props Context_Assembly_Props Persister_Claims Active_Session_Props
    Message_Store_Props Card_Store_Props Workspace_Service_Props Freshness_Service
    Lru_Cache_Props Session_Manager_Props Request_Params_Props Memory_Service_Props
    Graph_Views_Lineage Graph_Views_Alias
begin

text \<open>
  \<^bold>\<open>post-cortex: a verified model of its core.\<close>

  post-cortex keeps the memory of coding conversations. A \<^emph>\<open>session\<close> collects records (context
  updates); an \<^emph>\<open>entity graph\<close> derived from them names what they are about; \<^emph>\<open>validity\<close> intervals,
  also derived, say which records still hold; a \<^emph>\<open>persister\<close> writes changed sessions in the
  background to a \<^emph>\<open>store\<close> over RocksDB, which also holds the conversation streams, the user and
  project cards and the workspaces; \<^emph>\<open>context assembly\<close> picks, for a question, the records, entities
  and relations that fit a token budget; a daemon serves all this over gRPC, REST and MCP, and
  clients narrow its JSON replies with a \<^emph>\<open>JSONPath\<close> subset.

  \<^bold>\<open>Theories and code\<close> (paths under \<open>src/crates/\<close>)

  \<^item> \<open>Pcx_Prelude\<close>: results, strings, decimal numbers, ordered maps (locale \<open>ordered_map\<close>, the
    \<open>BTreeMap\<close> of the code, interpreted on sorted association lists).
  \<^item> \<open>Context_Update\<close>: the records, entities and relation types of
    \<open>post-cortex-core/src/core/context_update.rs\<close>.
  \<^item> \<open>Petgraph\<close>: the interface of the graph library (locale \<open>digraph\<close>), with an implementation as
    lists of nodes and edges. \<open>Entity_Graph\<close>, \<open>Entity_Graph_Serde\<close>, \<open>Entity_Queries\<close>: the type
    \<open>SimpleEntityGraph\<close> of \<open>post-cortex-core/src/graph/entity_graph.rs\<close>, its operations, its stored
    form and its reads. \<open>Entity_Graph_Inv\<close> and \<open>Entity_Graph_Ops\<close>: the invariant, the abstract map
    of relations \<open>rel_map\<close> and what each operation does to it. \<open>Entity_Graph_Props\<close>,
    \<open>Entity_Queries_Props\<close>, \<open>Entity_Bounded\<close>: the properties; \<open>Bfs\<close> the search they share.
  \<^item> \<open>Temporal\<close>, \<open>Temporal_Props\<close>: \<open>validity\<close> of \<open>post-cortex-core/src/graph/temporal.rs\<close> against
    the reasons for which a record may end.
  \<^item> \<open>Session_Context\<close>, \<open>Active_Session\<close>: the tiers and the operations of \<open>ActiveSession\<close>
    (\<open>post-cortex-core/src/session/active_session.rs\<close>, \<open>session_components.rs\<close>,
    \<open>structured_context.rs\<close>); \<open>Active_Session_Inv\<close> the invariant of reachable sessions,
    \<open>Active_Session_Props\<close> the properties.
  \<^item> \<open>Cards\<close>, \<open>Context_Assembly\<close>, \<open>Context_Assembly_Props\<close>: \<open>post-cortex-memory/src/context_assembly.rs\<close>
    and the sharing of the budget in \<open>assembly_scope.rs\<close> of the daemon.
  \<^item> \<open>Persister\<close>: \<open>post-cortex-memory/src/memory_system/persister.rs\<close> as a step relation in which
    requests, writers, deletions and waiters interleave. \<open>Persister_Inv\<close>, \<open>Persister_Safe\<close>,
    \<open>Persister_Props\<close>: invariants by rule induction and runs; \<open>Persister_Claims\<close>: the properties.
  \<^item> \<open>Kv_Store\<close>, \<open>Storage_Keys\<close>, \<open>Stored_Values\<close>: RocksDB as an ordered map with batches and scans,
    the keys and the stored records with the layouts of older versions
    (\<open>post-cortex-storage/src/rocksdb_storage/\<close>). On them \<open>Session_Store\<close> (\<open>sessions.rs\<close>),
    \<open>Message_Store\<close> (\<open>messages.rs\<close>), \<open>Card_Store\<close> (\<open>cards.rs\<close>) and \<open>Workspace_Store\<close>
    (\<open>workspaces.rs\<close>); the lemmas are proved in the locale \<open>storage\<close> (the laws of the text of ids
    and of the encoding), in \<open>Session_Store_Inv\<close>, \<open>Session_Store_Ops\<close>, \<open>Session_Store_Rest\<close>,
    \<open>Session_Store_List\<close>, \<open>Message_Store_Inv\<close> and the files named \<open>_Props\<close>, which end with the
    properties.
  \<^item> \<open>Workspace_Manager\<close> (\<open>post-cortex-core/src/workspace/mod.rs\<close>), \<open>Workspace_Service\<close>: the
    workspaces in memory and the handlers of the four interfaces that change them together with the
    store; \<open>Workspace_Service_Props\<close> compares the two across a restart.
  \<^item> \<open>Freshness_Store\<close> (\<open>freshness.rs\<close> of the storage crate), \<open>Freshness_Store_Inv\<close>, \<open>Freshness_Cascade\<close>,
    \<open>Freshness_Run\<close>, \<open>Freshness_Props\<close>: source references, their index by file and the cascade over the
    dependencies of symbols; \<open>Freshness_Service\<close>: its gRPC handlers (\<open>grpc_freshness.rs\<close> of the daemon).
  \<^item> \<open>Lru_Cache\<close>, \<open>Lru_Cache_Inv\<close>, \<open>Lru_Cache_Props\<close>: \<open>post-cortex-core/src/core/cache.rs\<close>, each call one step.
    \<open>Session_Manager\<close>, \<open>Session_Manager_Inv\<close>, \<open>Session_Manager_Props\<close>: the cached session handles and the gates
    under which they are loaded (\<open>session_manager.rs\<close> and the callers in \<open>system.rs\<close>), as a step relation.
  \<^item> \<open>Cas_Cell\<close>: the compare-and-swap loop around a version in an \<open>ArcSwap\<close>, with the log of the swaps and the
    locale \<open>answered_cell\<close> for what answers say of the versions. \<open>Write_Path\<close>: the writes of \<open>system.rs\<close> that
    go through it, interpreted as \<open>sw\<close>; \<open>Write_Path_Props\<close>: their composition with the persister's rows.
  \<^item> \<open>Request_Params\<close> (\<open>coerce.rs\<close> and \<open>validate.rs\<close> of the daemon), \<open>Redact\<close> (\<open>post-cortex-core/src/redact.rs\<close>) and
    \<open>Memory_Service\<close> (\<open>post-cortex-memory/src/services.rs\<close>): a write on its way from a tool call to the write path,
    with \<open>Request_Params_Props\<close> and \<open>Memory_Service_Props\<close>.
  \<^item> \<open>Graph_Views\<close>: the read-only views of \<open>post-cortex-memory/src/graph_views.rs\<close> over sessions, graph and
    validity; \<open>Graph_Views_Impact\<close>, \<open>Graph_Views_Lineage\<close>, \<open>Graph_Views_Alias\<close>: what three of them show.
  \<^item> \<open>Json_Path\<close>: \<open>post-cortex-memory/src/jsonpath.rs\<close>, parser and executor, with their properties.

  \<^bold>\<open>What is shown\<close>

  \<^item> Invariants of reachable states: the graph (indices, names, aliases and relations agree), the
    session (distinct records, tiers and derived state name stored records), the persister (one
    writer, locks held by those who use them), the stores (\<open>store_ok\<close>, \<open>messages_ok\<close>,
    \<open>workspaces_ok\<close>), memory and store of the workspaces in step.
  \<^item> Refinement of abstract views: relations as a finite map, a saved and loaded session as itself
    with merged records, a card as an append-only log, a stream as a list numbered from a counter
    that never goes back, the workspaces as a map to names and members, the versions of a session as
    the log of the writes before them, with the stored rows that follow.
  \<^item> Safety across interleavings: no write of a deleted session after its deletion; a deletion
    leaves nothing under the id of the session; a handle is never replaced and a session loaded by one
    task at a time; the writes of a session are linearizable and end.
  \<^item> Requests: what the service accepts, what an accepted update leaves in session and graph, that a
    batch is checked as a whole, that redaction keeps relations and entities together.
  \<^item> Equivalences and round trips: validity does not depend on the order of the records, a migrated
    session reads the same, printed paths and code references parse back, adding and removing a record
    cancel, the alias candidates are the pairs their definition names.
  \<^item> Bounds and termination: the token budget, the limits of the bounded network, the traversals
    and the seek loop over the session keys end.
  \<^item> Deviations of the code from its own documentation or purpose, each with a theorem that shows
    a run.

  \<^bold>\<open>Conventions\<close>

  Code outside the repository is a parameter with its documented behaviour as the laws of a locale,
  interpreted on a concrete implementation: the graph library (\<open>digraph\<close>), the text of ids
  (\<open>uuid_text\<close>), encoders and decoders (\<open>codec_laws\<close>; \<open>stored_codec\<close> keeps each value by name).
  The order in which a hash map is iterated is a parameter (\<open>order\<close>, \<open>list_ids\<close>, \<open>iter\<close>, \<open>vp_keys\<close>). The
  regex engine is the parameter \<open>scan\<close>, JSON readers and printers are functions. The current time
  and new random ids are arguments. A hash map that is never iterated is a partial function; a
  \<open>BTreeMap\<close> is a sorted association list. Errors are values of a sum type, panics \<open>None\<close>.
  Strings are lists of characters up to U+00FF, their length in bytes is \<open>str_len\<close>, their bytes are
  \<open>utf8\<close>. Counters of 32 bits wrap (\<open>u32\<close>), as does the count of workspaces; \<open>usize\<close> and \<open>u64\<close>
  positions are natural numbers, with the bound as a hypothesis where it matters (positions of a
  stream and versions of a card below \<open>2 ^ 64\<close>, which \<open>decode_seq\<close> needs). A \<open>f32\<close> is a real number.
  Concurrent operations of one component are steps of a relation where their interleaving matters
  (persister, session manager, session cell) and single steps where a lock makes them so (the stores).

  Fuel: the traversals of the entity graph take the number of nodes, one unit per dequeued node,
  and the theorems show that this is enough, as does the lineage with one more than the entities; every
  other loop is structural or has a measure (the seek loop goes up the finite list of keys). A write
  gives up after 20 attempts of two steps and one to give up: 41 steps.

  \<^bold>\<open>Not modelled\<close>

  I/O errors, opening and tuning RocksDB; serde and bincode formats; the SurrealDB backend; embedding
  models, vector search and reranking (numerical libraries behind interfaces); the scheduling of
  async tasks and their timeouts; protobuf, HTTP and JSON envelopes of the daemon; the command line
  tools; centrality and communities of the graph (numerical, arguments of the views); the set of
  vectorized ids shared by all versions of a session; the queues of the background pipeline, the query
  caches, analytics and summaries. The manifest lists every component with its status.
\<close>

end
